(* ===== verification/Prelude.thy ===== *)
theory Prelude
  imports Main "HOL-Library.Word"
begin

unbundle bit_operations_syntax

text \<open>
  Shared vocabulary of the development: the machine integer types of the C sources, the
  convention for undefined behaviour, block moves inside a buffer of items, and the list
  lemmas that more than one component uses.

  A C operation whose execution can be undefined (a write through a null pointer or outside
  of its buffer) is a function into \<open>'a ub\<close>: \<open>None\<close> is undefined behaviour and \<open>Some r\<close> is
  normal termination with result \<open>r\<close>. Everything a C function can report to its caller (a
  false return, a null pointer, an errno value) is part of \<open>r\<close>.
\<close>

named_theorems conts_simps \<open>abstraction equations of the container operations\<close>
named_theorems wire_simps \<open>equations of the wire encoders and decoders\<close>

type_synonym u8 = "8 word"
type_synonym u16 = "16 word"
type_synonym u32 = "32 word"
type_synonym u64 = "64 word"
type_synonym 'a ub = "'a option"

text \<open>The range of \<open>size_t\<close> on the 64-bit targets of the library.\<close>

abbreviation size_max :: nat where
  "size_max \<equiv> 18446744073709551615"

text \<open>An errno value: the symbolic constants the sources store into errno.\<close>

datatype errno =
    EOK | EINVAL | ENOMEM | EBADF | EBUSY | ETIME | ENOTCONN | EPROTO | ENOSR | ENOTSOCK
  | EAGAIN | EACCES | ECONNRESET | ECONNABORTED | ENOMSG | ENOBUFS
  | ENOENT | ENODEV | ENXIO | ENODATA | EOTHER nat

subsection \<open>Buffers of items\<close>

text \<open>
  A buffer is a list of slots, one slot per item; a slot that was never written holds
  \<open>None\<close> (indeterminate memory). \<open>memmove_items\<close> is the C call
  \<open>memmove(item(dst), item(src), n * item_size)\<close>, undefined when either region leaves
  the buffer.
\<close>

definition memmove_items :: "'a list \<Rightarrow> nat \<Rightarrow> nat \<Rightarrow> nat \<Rightarrow> 'a list ub" where
  "memmove_items xs dst src n =
     (if dst + n \<le> length xs \<and> src + n \<le> length xs
      then Some (take dst xs @ take n (drop src xs) @ drop (dst + n) xs)
      else None)"

text \<open>\<open>memcpy(item(pos), data, item_size)\<close>: one slot is overwritten.\<close>

definition memcpy_item :: "'a option list \<Rightarrow> nat \<Rightarrow> 'a \<Rightarrow> 'a option list ub" where
  "memcpy_item xs pos x = (if pos < length xs then Some (xs[pos := Some x]) else None)"

lemma length_memmove_items:
  "memmove_items xs dst src n = Some ys \<Longrightarrow> length ys = length xs"
  by (auto simp: memmove_items_def split: if_splits)

lemma nth_memmove_items:
  assumes "memmove_items xs dst src n = Some ys" and "i < length xs"
  shows "ys ! i = (if dst \<le> i \<and> i < dst + n then xs ! (src + (i - dst)) else xs ! i)"
proof -
  from assms have ys: "ys = take dst xs @ take n (drop src xs) @ drop (dst + n) xs"
    and le: "dst + n \<le> length xs" "src + n \<le> length xs"
    by (auto simp: memmove_items_def split: if_splits)
  then have "length (take dst xs) = dst" "length (take n (drop src xs)) = n"
    by auto
  with ys le assms(2) show ?thesis
    by (auto simp: nth_append)
qed

lemma memcpy_item_Some [simp]:
  "pos < length xs \<Longrightarrow> memcpy_item xs pos x = Some (xs[pos := Some x])"
  by (simp add: memcpy_item_def)

subsection \<open>Lists\<close>

lemma take_list_update_Suc:
  "i < length xs \<Longrightarrow> take (Suc i) (xs[i := x]) = take i xs @ [x]"
  by (simp add: take_Suc_conv_app_nth)

lemma map_upt_Suc_eq: "map f [0..<Suc n] = f 0 # map (\<lambda>i. f (Suc i)) [0..<n]"
  by (simp add: upt_conv_Cons map_Suc_upt [symmetric] del: upt_Suc)

lemma distinct_delete_nth:
  assumes "i < length xs" "distinct xs"
  shows "distinct (take i xs @ drop (Suc i) xs)"
    and "set (take i xs @ drop (Suc i) xs) = set xs - {xs ! i}"
proof -
  have xs: "xs = take i xs @ xs ! i # drop (Suc i) xs"
    using assms(1) by (rule id_take_nth_drop)
  have "distinct (take i xs @ xs ! i # drop (Suc i) xs)"
    using assms(2) xs by simp
  then show "distinct (take i xs @ drop (Suc i) xs)" by simp
  have "set xs = set (take i xs @ xs ! i # drop (Suc i) xs)"
    using xs by simp
  with \<open>distinct (take i xs @ xs ! i # drop (Suc i) xs)\<close>
  show "set (take i xs @ drop (Suc i) xs) = set xs - {xs ! i}" by auto
qed

end
