(* ===== verification/Ccfifo.thy ===== *)
theory Ccfifo
  imports Prelude "HOL-Library.Monad_Syntax"
begin

text \<open>
  The bounded queue of include/cuttle/ccfifo.h: a ring buffer of \<open>capacity\<close> items with the
  read position \<open>first\<close>, the write position \<open>last\<close> and the item count \<open>size\<close>. The theory
  gives the operations, the ring invariant, the interface \<open>bounded_queue\<close> that the free-block
  heap, the stream receive queues and the scheduler's run queue rely on, and its
  interpretation on the ring buffer.

  One slot of the buffer is one item of \<open>item_size\<close> bytes. Every call of
  \<open>ccfifo_push_bytes\<close> and \<open>ccfifo_pop_bytes\<close> in the sources passes \<open>q->item_size\<close>, so a
  nonzero byte count copies one whole item.
\<close>

section \<open>Representation and operations\<close>

record 'a ccfifo =
  fifo_items :: "'a option list option"
  fifo_capacity :: nat
  fifo_size :: nat
  fifo_item_size :: nat
  fifo_first :: nat
  fifo_last :: nat

text \<open>
  \<open>malloc_ok\<close> is the outcome of \<open>malloc(capacity * item_size)\<close>; the product is reduced to the
  width of \<open>size_t\<close>. On failure only \<open>items\<close> is assigned.
\<close>

definition malloc_bytes :: "nat \<Rightarrow> nat \<Rightarrow> nat" where
  "malloc_bytes n item_sz = (n * item_sz) mod 2 ^ 64"

definition ccfifo_init :: "(nat \<Rightarrow> bool) \<Rightarrow> 'a ccfifo \<Rightarrow> nat \<Rightarrow> nat \<Rightarrow> bool \<times> 'a ccfifo" where
  "ccfifo_init malloc_ok q capacity item_size =
     (if malloc_ok (malloc_bytes capacity item_size)
      then (True, q\<lparr>fifo_items := Some (replicate (malloc_bytes capacity item_size div item_size) None),
                    fifo_capacity := capacity, fifo_item_size := item_size,
                    fifo_size := 0, fifo_first := 0, fifo_last := 0\<rparr>)
      else (False, q\<lparr>fifo_items := None\<rparr>))"

definition ccfifo_cleanup :: "'a ccfifo \<Rightarrow> 'a ccfifo" where
  "ccfifo_cleanup q = \<lparr>fifo_items = None, fifo_capacity = 0, fifo_size = 0, fifo_item_size = 0,
                       fifo_first = 0, fifo_last = 0\<rparr>"

text \<open>
  The result of a push is the position of the slot (\<open>None\<close> is the null pointer of a full
  queue) and the new queue.
\<close>

definition ccfifo_push_bytes ::
  "'a ccfifo \<Rightarrow> 'a option \<Rightarrow> nat \<Rightarrow> (nat option \<times> 'a ccfifo) ub" where
  "ccfifo_push_bytes q item nbytes =
     (if fifo_size q < fifo_capacity q then
        do {
          items \<leftarrow> fifo_items q;
          items' \<leftarrow> (case item of
                       Some x \<Rightarrow> if nbytes \<noteq> 0 then memcpy_item items (fifo_last q) x else Some items
                     | None \<Rightarrow> Some items);
          Some (Some (fifo_last q),
                q\<lparr>fifo_items := Some items', fifo_size := Suc (fifo_size q),
                  fifo_last := (if fifo_capacity q \<le> Suc (fifo_last q) then 0
                                else Suc (fifo_last q))\<rparr>)
        }
      else Some (None, q))"

text \<open>
  The result of a pop is \<open>None\<close> for a false return, otherwise the slot's content as copied to
  \<open>pitem\<close> (no copy, \<open>Some None\<close>, when \<open>pitem\<close> is null or \<open>size\<close> is zero).
\<close>

definition ccfifo_pop_bytes ::
  "'a ccfifo \<Rightarrow> bool \<Rightarrow> nat \<Rightarrow> ('a option option \<times> 'a ccfifo) ub" where
  "ccfifo_pop_bytes q pitem nbytes =
     (if fifo_size q = 0 then Some (None, q)
      else
        do {
          x \<leftarrow> (if pitem \<and> nbytes \<noteq> 0
                then do { items \<leftarrow> fifo_items q;
                          if fifo_first q < length items then Some (items ! fifo_first q) else None }
                else Some None);
          Some (Some x,
                q\<lparr>fifo_size := fifo_size q - 1,
                  fifo_first := (if fifo_capacity q \<le> Suc (fifo_first q) then 0
                                 else Suc (fifo_first q))\<rparr>)
        })"

definition ccfifo_push :: "'a ccfifo \<Rightarrow> 'a \<Rightarrow> (nat option \<times> 'a ccfifo) ub" where
  "ccfifo_push q x = ccfifo_push_bytes q (Some x) (fifo_item_size q)"

definition ccfifo_pop :: "'a ccfifo \<Rightarrow> ('a option option \<times> 'a ccfifo) ub" where
  "ccfifo_pop q = ccfifo_pop_bytes q True (fifo_item_size q)"

text \<open>
  The pointer variants store the pointer itself as the item; \<open>ccfifo_ppop\<close> returns the null
  pointer for an empty queue.
\<close>

definition ccfifo_ppush :: "'a ccfifo \<Rightarrow> 'a \<Rightarrow> (nat option \<times> 'a ccfifo) ub" where
  "ccfifo_ppush q item = ccfifo_push q item"

definition ccfifo_ppop :: "'a ccfifo \<Rightarrow> ('a option \<times> 'a ccfifo) ub" where
  "ccfifo_ppop q =
     do { (r, q') \<leftarrow> ccfifo_pop q;
          Some (case r of None \<Rightarrow> None | Some x \<Rightarrow> x, q') }"

definition ccfifo_peek :: "'a ccfifo \<Rightarrow> nat \<Rightarrow> nat" where
  "ccfifo_peek q index = fifo_first q + index"

definition ccfifo_ppeek :: "'a ccfifo \<Rightarrow> nat \<Rightarrow> 'a option ub" where
  "ccfifo_ppeek q index =
     do { items \<leftarrow> fifo_items q;
          if fifo_first q + index < length items then Some (items ! (fifo_first q + index)) else None }"

definition ccfifo_peek_front :: "'a ccfifo \<Rightarrow> nat option" where
  "ccfifo_peek_front q = (if fifo_size q \<noteq> 0 then Some (fifo_first q) else None)"

definition ccfifo_ppeek_front :: "'a ccfifo \<Rightarrow> 'a option ub" where
  "ccfifo_ppeek_front q = (if fifo_size q \<noteq> 0 then ccfifo_ppeek q 0 else Some None)"

definition ccfifo_is_full :: "'a ccfifo \<Rightarrow> bool" where
  "ccfifo_is_full q \<longleftrightarrow> fifo_size q = fifo_capacity q"

definition ccfifo_is_empty :: "'a ccfifo \<Rightarrow> bool" where
  "ccfifo_is_empty q \<longleftrightarrow> fifo_size q = 0"

section \<open>Ring invariant and abstraction\<close>

text \<open>
  The ring invariant: the buffer has \<open>capacity\<close> slots, the write position is \<open>size\<close> slots
  after the read position around the ring, and the \<open>size\<close> slots from the read position on
  have been written.
\<close>

definition ccfifo_slot :: "'a ccfifo \<Rightarrow> nat \<Rightarrow> nat" where
  "ccfifo_slot q i = (fifo_first q + i) mod fifo_capacity q"

definition ccfifo_inv :: "'a ccfifo \<Rightarrow> bool" where
  "ccfifo_inv q \<longleftrightarrow>
     0 < fifo_capacity q \<and> 0 < fifo_item_size q \<and> fifo_size q \<le> fifo_capacity q \<and>
     fifo_first q < fifo_capacity q \<and> fifo_last q = ccfifo_slot q (fifo_size q) \<and>
     (\<exists>items. fifo_items q = Some items \<and> length items = fifo_capacity q \<and>
        (\<forall>i<fifo_size q. items ! ccfifo_slot q i \<noteq> None))"

definition ccfifo_list :: "'a ccfifo \<Rightarrow> 'a list" where
  "ccfifo_list q =
     (case fifo_items q of
        None \<Rightarrow> []
      | Some items \<Rightarrow> map (\<lambda>i. the (items ! ccfifo_slot q i)) [0..<fifo_size q])"

lemma ccfifo_inv_size_le: "ccfifo_inv q \<Longrightarrow> fifo_size q \<le> fifo_capacity q"
  by (simp add: ccfifo_inv_def)

lemma length_ccfifo_list [conts_simps]: "ccfifo_inv q \<Longrightarrow> length (ccfifo_list q) = fifo_size q"
  by (auto simp: ccfifo_inv_def ccfifo_list_def)

lemma ccfifo_wrap:
  "p < n \<Longrightarrow> (if n \<le> Suc p then 0 else Suc p) = Suc p mod n"
  by (auto simp: mod_Suc)

lemma ccfifo_slot_less: "0 < fifo_capacity q \<Longrightarrow> ccfifo_slot q i < fifo_capacity q"
  by (simp add: ccfifo_slot_def)

lemma ccfifo_slot_if:
  "fifo_first q < fifo_capacity q \<Longrightarrow> i \<le> fifo_capacity q \<Longrightarrow>
   ccfifo_slot q i = (if fifo_first q + i < fifo_capacity q then fifo_first q + i
                      else fifo_first q + i - fifo_capacity q)"
  by (simp add: ccfifo_slot_def mod_if)

lemma ccfifo_slot_inj:
  assumes "fifo_first q < fifo_capacity q" "i < fifo_capacity q" "j < fifo_capacity q"
    and "ccfifo_slot q i = ccfifo_slot q j"
  shows "i = j"
  using assms by (auto simp: ccfifo_slot_if split: if_splits)

lemma ccfifo_inv_items:
  assumes "ccfifo_inv q"
  obtains items where "fifo_items q = Some items" "length items = fifo_capacity q"
    "\<forall>i<fifo_size q. items ! ccfifo_slot q i \<noteq> None"
  using assms by (auto simp: ccfifo_inv_def)

section \<open>The operations against the abstraction\<close>

lemma ccfifo_init_inv:
  assumes "ccfifo_init malloc_ok q n sz = (True, q')" and "0 < n" "0 < sz" "n * sz < 2 ^ 64"
  shows "ccfifo_inv q' \<and> ccfifo_list q' = [] \<and> fifo_capacity q' = n \<and> fifo_item_size q' = sz"
proof -
  have "malloc_bytes n sz div sz = n"
    using assms by (simp add: malloc_bytes_def)
  with assms show ?thesis
    by (auto simp: ccfifo_init_def ccfifo_inv_def ccfifo_list_def ccfifo_slot_def split: if_splits)
qed

lemma ccfifo_push_full:
  "ccfifo_is_full q \<Longrightarrow> ccfifo_push q x = Some (None, q)"
  by (simp add: ccfifo_push_def ccfifo_push_bytes_def ccfifo_is_full_def)

lemma ccfifo_push_ok:
  assumes inv: "ccfifo_inv q" and room: "fifo_size q < fifo_capacity q"
  obtains q' where "ccfifo_push q x = Some (Some (fifo_last q), q')" "ccfifo_inv q'"
    "ccfifo_list q' = ccfifo_list q @ [x]" "fifo_capacity q' = fifo_capacity q"
    "fifo_item_size q' = fifo_item_size q"
proof -
  from inv obtain items where it: "fifo_items q = Some items" "length items = fifo_capacity q"
      "\<forall>i<fifo_size q. items ! ccfifo_slot q i \<noteq> None"
    by (rule ccfifo_inv_items)
  from inv have pos: "0 < fifo_capacity q" "0 < fifo_item_size q" "fifo_first q < fifo_capacity q"
    and last: "fifo_last q = ccfifo_slot q (fifo_size q)"
    by (auto simp: ccfifo_inv_def)
  then have ll: "fifo_last q < fifo_capacity q" by (simp add: ccfifo_slot_less)
  define q' where "q' = q\<lparr>fifo_items := Some (items[fifo_last q := Some x]),
    fifo_size := Suc (fifo_size q), fifo_last := Suc (fifo_last q) mod fifo_capacity q\<rparr>"
  have push: "ccfifo_push q x = Some (Some (fifo_last q), q')"
    using room it ll pos
    by (simp add: ccfifo_push_def ccfifo_push_bytes_def q'_def ccfifo_wrap)
  have slot: "ccfifo_slot q' i = ccfifo_slot q i" for i
    by (simp add: ccfifo_slot_def q'_def)
  have ne: "i < fifo_size q \<Longrightarrow> ccfifo_slot q i \<noteq> fifo_last q" for i
    using ccfifo_slot_inj [OF pos(3), of i "fifo_size q"] room last by auto
  have "ccfifo_inv q'"
    using pos room it ll last ne
    by (auto simp: ccfifo_inv_def q'_def ccfifo_slot_def mod_Suc_eq nth_list_update less_Suc_eq)
  moreover have "ccfifo_list q' = ccfifo_list q @ [x]"
  proof -
    have "ccfifo_list q' =
        map (\<lambda>i. the (items[fifo_last q := Some x] ! ccfifo_slot q i)) [0..<Suc (fifo_size q)]"
      unfolding ccfifo_list_def slot by (simp add: q'_def)
    moreover have "i < fifo_size q \<Longrightarrow>
        items[fifo_last q := Some x] ! ccfifo_slot q i = items ! ccfifo_slot q i" for i
      using ne [of i] by simp
    ultimately show ?thesis using it ll last by (simp add: ccfifo_list_def)
  qed
  ultimately show thesis
    using push that by (simp add: q'_def)
qed

lemma ccfifo_pop_empty:
  "ccfifo_is_empty q \<Longrightarrow> ccfifo_pop q = Some (None, q)"
  by (simp add: ccfifo_pop_def ccfifo_pop_bytes_def ccfifo_is_empty_def)

lemma ccfifo_list_Cons:
  assumes "fifo_items q = Some items" "fifo_size q = Suc n"
  shows "ccfifo_list q = the (items ! ccfifo_slot q 0) #
     map (\<lambda>i. the (items ! ccfifo_slot q (Suc i))) [0..<n]"
  using assms by (simp add: ccfifo_list_def map_upt_Suc_eq del: upt_Suc)

lemma ccfifo_pop_ok:
  assumes inv: "ccfifo_inv q" and ne: "fifo_size q \<noteq> 0"
  obtains q' where "ccfifo_pop q = Some (Some (Some (hd (ccfifo_list q))), q')" "ccfifo_inv q'"
    "ccfifo_list q' = tl (ccfifo_list q)" "fifo_capacity q' = fifo_capacity q"
    "fifo_item_size q' = fifo_item_size q"
proof -
  from ne obtain n where n: "fifo_size q = Suc n" by (cases "fifo_size q") auto
  from inv obtain items where it: "fifo_items q = Some items" "length items = fifo_capacity q"
      "\<forall>i<fifo_size q. items ! ccfifo_slot q i \<noteq> None"
    by (rule ccfifo_inv_items)
  from inv have pos: "0 < fifo_capacity q" "0 < fifo_item_size q" "fifo_first q < fifo_capacity q"
    and last: "fifo_last q = ccfifo_slot q (fifo_size q)" and le: "fifo_size q \<le> fifo_capacity q"
    by (auto simp: ccfifo_inv_def)
  define q' where "q' = q\<lparr>fifo_size := n, fifo_first := Suc (fifo_first q) mod fifo_capacity q\<rparr>"
  have s0: "ccfifo_slot q 0 = fifo_first q" using pos by (simp add: ccfifo_slot_def)
  have head: "items ! fifo_first q = Some (hd (ccfifo_list q))"
  proof -
    have "items ! ccfifo_slot q 0 \<noteq> None" using it(3) n by simp
    then show ?thesis using s0 by (auto simp: ccfifo_list_Cons [OF it(1) n])
  qed
  have pop: "ccfifo_pop q = Some (Some (Some (hd (ccfifo_list q))), q')"
    using n it pos head by (simp add: ccfifo_pop_def ccfifo_pop_bytes_def q'_def ccfifo_wrap)
  have slot: "ccfifo_slot q' i = ccfifo_slot q (Suc i)" for i
    by (simp add: ccfifo_slot_def q'_def mod_add_left_eq)
  have "ccfifo_inv q'"
    unfolding ccfifo_inv_def slot
    using pos le n last it by (simp add: q'_def)
  moreover have "ccfifo_list q' = tl (ccfifo_list q)"
  proof -
    have "ccfifo_list q' = map (\<lambda>i. the (items ! ccfifo_slot q (Suc i))) [0..<n]"
      unfolding ccfifo_list_def slot using it(1) by (simp add: q'_def)
    then show ?thesis by (simp add: ccfifo_list_Cons [OF it(1) n])
  qed
  ultimately show thesis
    using pop that by (simp add: q'_def)
qed

section \<open>The bounded-queue interface\<close>

text \<open>
  What a client relies on. A queue is abstracted by the list of its items, oldest first, and
  its capacity; \<open>enq\<close> reports whether the item was stored and \<open>deq\<close> returns the oldest
  item. No operation is undefined on a queue that satisfies the invariant.
\<close>

locale bounded_queue =
  fixes enq :: "'q \<Rightarrow> 'a \<Rightarrow> (bool \<times> 'q) ub"
    and deq :: "'q \<Rightarrow> ('a option \<times> 'q) ub"
    and qlist :: "'q \<Rightarrow> 'a list"
    and qcap :: "'q \<Rightarrow> nat"
    and qinv :: "'q \<Rightarrow> bool"
  assumes qlist_le: "qinv q \<Longrightarrow> length (qlist q) \<le> qcap q"
    and enq_full: "qinv q \<Longrightarrow> length (qlist q) = qcap q \<Longrightarrow> enq q x = Some (False, q)"
    and enq_ok: "qinv q \<Longrightarrow> length (qlist q) < qcap q \<Longrightarrow>
      \<exists>q'. enq q x = Some (True, q') \<and> qinv q' \<and> qlist q' = qlist q @ [x] \<and> qcap q' = qcap q"
    and deq_empty: "qinv q \<Longrightarrow> qlist q = [] \<Longrightarrow> deq q = Some (None, q)"
    and deq_ok: "qinv q \<Longrightarrow> qlist q = x # xs \<Longrightarrow>
      \<exists>q'. deq q = Some (Some x, q') \<and> qinv q' \<and> qlist q' = xs \<and> qcap q' = qcap q"

text \<open>Sequences of queue operations, on an implementation and on the specification.\<close>

datatype 'a queue_op = Enq 'a | Deq

datatype 'a queue_res = Stored bool | Taken "'a option"

fun queue_run ::
  "('q \<Rightarrow> 'a \<Rightarrow> (bool \<times> 'q) ub) \<Rightarrow> ('q \<Rightarrow> ('a option \<times> 'q) ub) \<Rightarrow>
   'q \<Rightarrow> 'a queue_op list \<Rightarrow> ('a queue_res list \<times> 'q) ub" where
  "queue_run enq deq q [] = Some ([], q)"
| "queue_run enq deq q (Enq x # ops) =
     do { (b, q') \<leftarrow> enq q x; (rs, q'') \<leftarrow> queue_run enq deq q' ops; Some (Stored b # rs, q'') }"
| "queue_run enq deq q (Deq # ops) =
     do { (r, q') \<leftarrow> deq q; (rs, q'') \<leftarrow> queue_run enq deq q' ops; Some (Taken r # rs, q'') }"

fun queue_spec :: "nat \<Rightarrow> 'a list \<Rightarrow> 'a queue_op list \<Rightarrow> 'a queue_res list \<times> 'a list" where
  "queue_spec cap xs [] = ([], xs)"
| "queue_spec cap xs (Enq x # ops) =
     (if length xs < cap then (case queue_spec cap (xs @ [x]) ops of (rs, ys) \<Rightarrow> (Stored True # rs, ys))
      else (case queue_spec cap xs ops of (rs, ys) \<Rightarrow> (Stored False # rs, ys)))"
| "queue_spec cap [] (Deq # ops) = (case queue_spec cap [] ops of (rs, ys) \<Rightarrow> (Taken None # rs, ys))"
| "queue_spec cap (x # xs) (Deq # ops) =
     (case queue_spec cap xs ops of (rs, ys) \<Rightarrow> (Taken (Some x) # rs, ys))"

context bounded_queue
begin

lemma queue_run_spec:
  assumes "qinv q"
  shows "\<exists>q'. queue_run enq deq q ops = Some (fst (queue_spec (qcap q) (qlist q) ops), q') \<and>
      qinv q' \<and> qlist q' = snd (queue_spec (qcap q) (qlist q) ops) \<and> qcap q' = qcap q"
  using assms
proof (induction ops arbitrary: q)
  case Nil
  then show ?case by simp
next
  case (Cons op ops)
  show ?case
  proof (cases op)
    case (Enq x)
    show ?thesis
    proof (cases "length (qlist q) < qcap q")
      case True
      with enq_ok [OF Cons.prems] obtain q' where q': "enq q x = Some (True, q')" "qinv q'"
          "qlist q' = qlist q @ [x]" "qcap q' = qcap q" by blast
      with Cons.IH [of q'] Enq True show ?thesis by (auto split: prod.splits)
    next
      case False
      with qlist_le [OF Cons.prems] have "length (qlist q) = qcap q" by simp
      from enq_full [OF Cons.prems this] Cons.IH [OF Cons.prems] Enq False
      show ?thesis by (auto split: prod.splits)
    qed
  next
    case Deq
    show ?thesis
    proof (cases "qlist q")
      case Nil
      from deq_empty [OF Cons.prems Nil] Cons.IH [OF Cons.prems] Deq Nil
      show ?thesis by (auto split: prod.splits)
    next
      case (Cons x xs)
      from deq_ok [OF \<open>qinv q\<close> Cons] obtain q' where q': "deq q = Some (Some x, q')" "qinv q'"
          "qlist q' = xs" "qcap q' = qcap q" by blast
      with Cons.IH [of q'] Deq Cons show ?thesis by (auto split: prod.splits)
    qed
  qed
qed

end

section \<open>The ring buffer implements the interface\<close>

definition ccfifo_enq :: "'a ccfifo \<Rightarrow> 'a \<Rightarrow> (bool \<times> 'a ccfifo) ub" where
  "ccfifo_enq q x = map_option (map_prod (\<lambda>p. p \<noteq> None) id) (ccfifo_ppush q x)"

lemma ccfifo_enq_ok:
  assumes "ccfifo_inv q" "length (ccfifo_list q) < fifo_capacity q"
  shows "\<exists>q'. ccfifo_enq q x = Some (True, q') \<and> ccfifo_inv q' \<and>
     ccfifo_list q' = ccfifo_list q @ [x] \<and> fifo_capacity q' = fifo_capacity q"
proof -
  from assms have "fifo_size q < fifo_capacity q" by (simp add: conts_simps)
  with assms(1) obtain q' where "ccfifo_push q x = Some (Some (fifo_last q), q')" "ccfifo_inv q'"
      "ccfifo_list q' = ccfifo_list q @ [x]" "fifo_capacity q' = fifo_capacity q"
    by (rule ccfifo_push_ok)
  then show ?thesis by (simp add: ccfifo_enq_def ccfifo_ppush_def)
qed

lemma ccfifo_ppop_ok:
  assumes "ccfifo_inv q" "ccfifo_list q = x # xs"
  shows "\<exists>q'. ccfifo_ppop q = Some (Some x, q') \<and> ccfifo_inv q' \<and>
     ccfifo_list q' = xs \<and> fifo_capacity q' = fifo_capacity q"
proof -
  have "fifo_size q \<noteq> 0"
    using assms length_ccfifo_list [of q] by auto
  with assms(1) obtain q' where "ccfifo_pop q = Some (Some (Some (hd (ccfifo_list q))), q')"
      "ccfifo_inv q'" "ccfifo_list q' = tl (ccfifo_list q)" "fifo_capacity q' = fifo_capacity q"
    by (rule ccfifo_pop_ok)
  with assms(2) show ?thesis by (simp add: ccfifo_ppop_def)
qed

interpretation fifo: bounded_queue ccfifo_enq ccfifo_ppop ccfifo_list fifo_capacity ccfifo_inv
proof unfold_locales
  fix q :: "'a ccfifo" and x assume inv: "ccfifo_inv q"
  then show "length (ccfifo_list q) \<le> fifo_capacity q"
    by (simp add: conts_simps ccfifo_inv_size_le)
  show "ccfifo_enq q x = Some (False, q)" if "length (ccfifo_list q) = fifo_capacity q"
    using that inv by (simp add: ccfifo_enq_def ccfifo_ppush_def ccfifo_push_full ccfifo_is_full_def conts_simps)
  show "ccfifo_ppop q = Some (None, q)" if "ccfifo_list q = []"
    using that inv length_ccfifo_list [OF inv]
    by (simp add: ccfifo_ppop_def ccfifo_pop_empty ccfifo_is_empty_def)
qed (fact ccfifo_enq_ok ccfifo_ppop_ok)+

text \<open>
  C14. Any sequence of pushes and pops on a freshly initialised queue behaves exactly like the
  same sequence on a list bounded by the capacity: the items leave in the order they were
  stored, a push fails only when \<open>capacity\<close> items are queued, a pop fails only on the empty
  queue, and no operation reads or writes outside of the buffer.
\<close>

theorem ccfifo_refines_bounded_list:
  assumes "ccfifo_init malloc_ok q0 n sz = (True, q)" and "0 < n" "0 < sz" "n * sz < 2 ^ 64"
  shows "\<exists>q'. queue_run ccfifo_enq ccfifo_ppop q ops = Some (fst (queue_spec n [] ops), q') \<and>
     ccfifo_inv q' \<and> ccfifo_list q' = snd (queue_spec n [] ops) \<and> fifo_capacity q' = n"
  using fifo.queue_run_spec [of q ops] ccfifo_init_inv [OF assms] by auto

theorem ccfifo_refines_bounded_list_witness:
  "\<exists>q'. queue_run ccfifo_enq ccfifo_ppop
        (snd (ccfifo_init (\<lambda>_. True) (ccfifo_cleanup undefined) 2 8 :: bool \<times> nat ccfifo))
        [Enq 7, Enq 8, Enq 9, Deq, Enq 10, Deq, Deq, Deq] =
      Some ([Stored True, Stored True, Stored False, Taken (Some 7), Stored True, Taken (Some 8),
             Taken (Some 10), Taken None], q')"
proof -
  let ?i = "ccfifo_init (\<lambda>_. True) (ccfifo_cleanup undefined) 2 8 :: bool \<times> nat ccfifo"
  have "?i = (True, snd ?i)" by (simp add: ccfifo_init_def)
  from ccfifo_refines_bounded_list
    [OF this, of "[Enq 7, Enq 8, Enq 9, Deq, Enq 10, Deq, Deq, Deq]"]
  show ?thesis by auto
qed

text \<open>
  \<open>ccfifo_ppeek_front\<close> reads the oldest item. \<open>ccfifo_ppeek\<close> reads the item at an index only while
  the index does not cross the end of the buffer; across it the read leaves the allocation, since
  \<open>first + index\<close> is not reduced around the ring.
\<close>

lemma ccfifo_ppeek_front_ok:
  assumes "ccfifo_inv q"
  shows "ccfifo_ppeek_front q =
    Some (case ccfifo_list q of [] \<Rightarrow> None | x # xs \<Rightarrow> Some x)"
proof (cases "fifo_size q")
  case 0
  with assms show ?thesis by (auto simp: ccfifo_ppeek_front_def ccfifo_list_def ccfifo_inv_def)
next
  case (Suc n)
  from assms obtain items where "fifo_items q = Some items" "length items = fifo_capacity q"
    "\<forall>i<fifo_size q. items ! ccfifo_slot q i \<noteq> None" by (rule ccfifo_inv_items)
  moreover from this(3) Suc have "items ! ccfifo_slot q 0 \<noteq> None" by simp
  moreover have "ccfifo_slot q 0 = fifo_first q" "fifo_first q < fifo_capacity q"
    using assms by (auto simp: ccfifo_inv_def ccfifo_slot_def)
  ultimately show ?thesis
    using Suc by (auto simp: ccfifo_ppeek_front_def ccfifo_ppeek_def ccfifo_list_def map_upt_Suc_eq
        simp del: upt_Suc)
qed

lemma ccfifo_ppeek_wraps_out:
  assumes "ccfifo_inv q" "index < fifo_size q"
  shows "ccfifo_ppeek q index =
    (if fifo_first q + index < fifo_capacity q then Some (Some (ccfifo_list q ! index)) else None)"
proof -
  from assms(1) obtain items where it: "fifo_items q = Some items" "length items = fifo_capacity q"
    "\<forall>i<fifo_size q. items ! ccfifo_slot q i \<noteq> None" by (rule ccfifo_inv_items)
  then have "items ! ccfifo_slot q index \<noteq> None" using assms by blast
  with it assms show ?thesis
    by (auto simp: ccfifo_ppeek_def ccfifo_list_def ccfifo_slot_def)
qed

end
