(* ===== verification/Ccheap.thy ===== *)
theory Ccheap
  imports Ccfifo
begin

text \<open>
  The fixed-block heap of include/cuttle/ccheap.h: one array of \<open>max_blocks\<close> blocks and a
  queue of the addresses of its free blocks. The interface \<open>block_allocator\<close> states what the
  linked list relies on, and is interpreted on the heap.
\<close>

record ccheap =
  heap_blocks :: "nat option"
  heap_fifo :: "nat ccfifo"

abbreviation sizeof_ptr :: nat where
  "sizeof_ptr \<equiv> 8"

text \<open>The address of block \<open>k\<close> of an array of blocks.\<close>

definition block_addr :: "nat \<Rightarrow> nat \<Rightarrow> nat \<Rightarrow> nat" where
  "block_addr base block_size k = base + k * block_size"

fun push_blocks :: "nat ccfifo \<Rightarrow> nat list \<Rightarrow> nat ccfifo ub" where
  "push_blocks q [] = Some q"
| "push_blocks q (p # ps) = do { (_, q') \<leftarrow> ccfifo_ppush q p; push_blocks q' ps }"

text \<open>
  \<open>malloc_p\<close> returns the address of a fresh area or the null pointer, \<open>malloc_ok\<close> is the outcome
  of the allocation inside \<open>ccfifo_init\<close>. The fill loop pushes the last block first.
\<close>

definition ccheap_init ::
  "(nat \<Rightarrow> nat option) \<Rightarrow> (nat \<Rightarrow> bool) \<Rightarrow> ccheap \<Rightarrow> nat \<Rightarrow> nat \<Rightarrow> (bool \<times> ccheap) ub" where
  "ccheap_init malloc_p malloc_ok h max_blocks block_size =
     (let failed = (False, \<lparr>heap_blocks = None, heap_fifo = ccfifo_cleanup (heap_fifo h)\<rparr>) in
      case malloc_p (malloc_bytes max_blocks block_size) of
        None \<Rightarrow> Some failed
      | Some base \<Rightarrow>
          (case ccfifo_init malloc_ok (ccfifo_cleanup (heap_fifo h)) max_blocks sizeof_ptr of
             (False, _) \<Rightarrow> Some failed
           | (True, q) \<Rightarrow>
               do { q' \<leftarrow> push_blocks q
                      (map (\<lambda>i. block_addr base block_size (max_blocks - i - 1)) [0..<max_blocks]);
                    Some (True, \<lparr>heap_blocks = Some base, heap_fifo = q'\<rparr>) }))"

definition ccheap_cleanup :: "ccheap \<Rightarrow> ccheap" where
  "ccheap_cleanup h = \<lparr>heap_blocks = None, heap_fifo = ccfifo_cleanup (heap_fifo h)\<rparr>"

text \<open>A null result comes with errno \<open>ENOMEM\<close>.\<close>

definition ccheap_alloc :: "ccheap \<Rightarrow> (nat option \<times> ccheap) ub" where
  "ccheap_alloc h = do { (p, q) \<leftarrow> ccfifo_ppop (heap_fifo h); Some (p, h\<lparr>heap_fifo := q\<rparr>) }"

definition ccheap_free :: "ccheap \<Rightarrow> nat \<Rightarrow> ccheap ub" where
  "ccheap_free h p = do { (_, q) \<leftarrow> ccfifo_ppush (heap_fifo h) p; Some (h\<lparr>heap_fifo := q\<rparr>) }"

definition ccheap_is_empty :: "ccheap \<Rightarrow> bool" where
  "ccheap_is_empty h \<longleftrightarrow> ccfifo_is_empty (heap_fifo h)"

section \<open>The allocator interface\<close>

text \<open>
  \<open>ainv h used\<close> says that \<open>h\<close> is a well-formed heap of which the blocks \<open>used\<close> are handed out;
  \<open>ablocks h\<close> is the set of all blocks of the heap.
\<close>

locale block_allocator =
  fixes alloc :: "'h \<Rightarrow> ('p option \<times> 'h) ub"
    and release :: "'h \<Rightarrow> 'p \<Rightarrow> 'h ub"
    and ablocks :: "'h \<Rightarrow> 'p set"
    and ainv :: "'h \<Rightarrow> 'p set \<Rightarrow> bool"
  assumes used_blocks: "ainv h used \<Longrightarrow> used \<subseteq> ablocks h"
    and alloc_none: "ainv h used \<Longrightarrow> used = ablocks h \<Longrightarrow> alloc h = Some (None, h)"
    and alloc_some: "ainv h used \<Longrightarrow> used \<noteq> ablocks h \<Longrightarrow>
      \<exists>p h'. alloc h = Some (Some p, h') \<and> p \<in> ablocks h - used \<and>
             ainv h' (insert p used) \<and> ablocks h' = ablocks h"
    and release_ok: "ainv h used \<Longrightarrow> p \<in> used \<Longrightarrow>
      \<exists>h'. release h p = Some h' \<and> ainv h' (used - {p}) \<and> ablocks h' = ablocks h"

text \<open>
  A client of the allocator: a sequence of requests, where a request \<open>Give i\<close> returns the block
  it received \<open>i\<close> allocations ago among those it still holds. The second component of the
  result is the list of held blocks.
\<close>

datatype alloc_op = Get | Give nat

fun alloc_run ::
  "('h \<Rightarrow> ('p option \<times> 'h) ub) \<Rightarrow> ('h \<Rightarrow> 'p \<Rightarrow> 'h ub) \<Rightarrow> 'h \<Rightarrow> 'p list \<Rightarrow> alloc_op list \<Rightarrow>
   ('h \<times> 'p list) ub" where
  "alloc_run al rl h held [] = Some (h, held)"
| "alloc_run al rl h held (Get # ops) =
     do { (p, h') \<leftarrow> al h;
          alloc_run al rl h' (case p of None \<Rightarrow> held | Some b \<Rightarrow> b # held) ops }"
| "alloc_run al rl h held (Give i # ops) =
     (if i < length held
      then do { h' \<leftarrow> rl h (held ! i); alloc_run al rl h' (take i held @ drop (Suc i) held) ops }
      else alloc_run al rl h held ops)"

context block_allocator
begin

lemma alloc_run_safe:
  assumes "ainv h (set held)" "distinct held"
  shows "\<exists>h' held'. alloc_run alloc release h held ops = Some (h', held') \<and>
    ainv h' (set held') \<and> distinct held' \<and> ablocks h' = ablocks h"
  using assms
proof (induction ops arbitrary: h held)
  case Nil
  then show ?case by simp
next
  case (Cons op ops)
  show ?case
  proof (cases op)
    case Get
    show ?thesis
    proof (cases "set held = ablocks h")
      case True
      with alloc_none [OF Cons.prems(1) True] Cons.IH [OF Cons.prems] Get show ?thesis by simp
    next
      case False
      with alloc_some [OF Cons.prems(1)] obtain p h' where "alloc h = Some (Some p, h')"
          "p \<in> ablocks h - set held" "ainv h' (set (p # held))" "ablocks h' = ablocks h" by auto
      with Cons.IH [of h' "p # held"] Cons.prems(2) Get show ?thesis by auto
    qed
  next
    case (Give i)
    show ?thesis
    proof (cases "i < length held")
      case True
      let ?rest = "take i held @ drop (Suc i) held"
      have "set ?rest = set held - {held ! i}" and "distinct ?rest"
        using distinct_delete_nth [OF True Cons.prems(2)] by blast+
      moreover from True release_ok [OF Cons.prems(1), of "held ! i"]
      obtain h' where "release h (held ! i) = Some h'" "ainv h' (set held - {held ! i})"
          "ablocks h' = ablocks h" by auto
      ultimately show ?thesis using Cons.IH [of h' ?rest] Give True by auto
    next
      case False
      with Cons.IH [OF Cons.prems] Give show ?thesis by simp
    qed
  qed
qed

end

section \<open>The heap implements the allocator\<close>

text \<open>
  \<open>ccheap_inv h used\<close>: the free queue holds every block that is not in \<open>used\<close>, once. The
  capacity of the queue is the number of blocks, so that a returned block always fits.
\<close>

definition ccheap_inv :: "nat set \<Rightarrow> ccheap \<Rightarrow> nat set \<Rightarrow> bool" where
  "ccheap_inv B h used \<longleftrightarrow>
     ccfifo_inv (heap_fifo h) \<and> finite B \<and> fifo_capacity (heap_fifo h) = card B \<and>
     distinct (ccfifo_list (heap_fifo h)) \<and> used \<subseteq> B \<and>
     set (ccfifo_list (heap_fifo h)) = B - used"

lemma ccheap_alloc_none:
  "ccheap_inv B h B \<Longrightarrow> ccheap_alloc h = Some (None, h)"
  by (auto simp: ccheap_inv_def ccheap_alloc_def fifo.deq_empty)

lemma ccheap_alloc_some:
  assumes inv: "ccheap_inv B h used" and ne: "used \<noteq> B"
  shows "\<exists>p h'. ccheap_alloc h = Some (Some p, h') \<and> p \<in> B - used \<and> ccheap_inv B h' (insert p used)"
proof -
  let ?q = "heap_fifo h"
  from inv ne have "ccfifo_list ?q \<noteq> []" by (auto simp: ccheap_inv_def)
  then obtain p ps where ps: "ccfifo_list ?q = p # ps" by (cases "ccfifo_list ?q") auto
  from inv have q: "ccfifo_inv ?q" by (simp add: ccheap_inv_def)
  from fifo.deq_ok [OF q ps] obtain q' where q': "ccfifo_ppop ?q = Some (Some p, q')" "ccfifo_inv q'"
      "ccfifo_list q' = ps" "fifo_capacity q' = fifo_capacity ?q" by blast
  have "p \<in> B - used" and "ccheap_inv B (h\<lparr>heap_fifo := q'\<rparr>) (insert p used)"
    using inv q' ps by (auto simp: ccheap_inv_def)
  with q'(1) show ?thesis by (simp add: ccheap_alloc_def)
qed

lemma ccheap_free_ok:
  assumes inv: "ccheap_inv B h used" and p: "p \<in> used"
  shows "\<exists>h'. ccheap_free h p = Some h' \<and> ccheap_inv B h' (used - {p})"
proof -
  let ?q = "heap_fifo h"
  from inv p have "card (B - used) < card B"
    by (intro psubset_card_mono) (auto simp: ccheap_inv_def)
  moreover from inv have "length (ccfifo_list ?q) = card (B - used)"
    using distinct_card [of "ccfifo_list ?q"] by (simp add: ccheap_inv_def)
  ultimately have "length (ccfifo_list ?q) < fifo_capacity ?q"
    using inv by (simp add: ccheap_inv_def)
  moreover from inv have q: "ccfifo_inv ?q" by (simp add: ccheap_inv_def)
  ultimately obtain q' where q': "ccfifo_enq ?q p = Some (True, q')" "ccfifo_inv q'"
      "ccfifo_list q' = ccfifo_list ?q @ [p]" "fifo_capacity q' = fifo_capacity ?q"
    using fifo.enq_ok [of ?q p] by blast
  then have "\<exists>r. ccfifo_ppush ?q p = Some (r, q')"
    by (auto simp: ccfifo_enq_def)
  moreover have "ccheap_inv B (h\<lparr>heap_fifo := q'\<rparr>) (used - {p})"
    using inv p q' by (auto simp: ccheap_inv_def)
  ultimately show ?thesis by (auto simp: ccheap_free_def)
qed

interpretation heap: block_allocator ccheap_alloc ccheap_free "\<lambda>_. B" "ccheap_inv B" for B
proof (unfold_locales, goal_cases)
  case (1 h used) then show ?case by (simp add: ccheap_inv_def)
next
  case (2 h used) then show ?case by (simp add: ccheap_alloc_none)
next
  case (3 h used) then show ?case using ccheap_alloc_some [of B h used] by blast
next
  case (4 h used p) then show ?case using ccheap_free_ok [of B h used p] by blast
qed

section \<open>Initialisation\<close>

lemma push_blocks_ok:
  assumes "ccfifo_inv q" "length (ccfifo_list q) + length ps \<le> fifo_capacity q"
  shows "\<exists>q'. push_blocks q ps = Some q' \<and> ccfifo_inv q' \<and>
    ccfifo_list q' = ccfifo_list q @ ps \<and> fifo_capacity q' = fifo_capacity q"
  using assms
proof (induction ps arbitrary: q)
  case Nil
  then show ?case by simp
next
  case (Cons p ps)
  then obtain q' where q': "ccfifo_enq q p = Some (True, q')" "ccfifo_inv q'"
      "ccfifo_list q' = ccfifo_list q @ [p]" "fifo_capacity q' = fifo_capacity q"
    using fifo.enq_ok [of q p] by auto
  then obtain r where "ccfifo_ppush q p = Some (r, q')" by (auto simp: ccfifo_enq_def)
  with q' Cons.IH [of q'] Cons.prems show ?case by simp
qed

lemma block_addr_inj: "0 < sz \<Longrightarrow> block_addr base sz i = block_addr base sz j \<Longrightarrow> i = j"
  by (simp add: block_addr_def)

lemma rev_blocks:
  "map (\<lambda>i. f (n - i - 1)) [0..<n] = rev (map f [0..<n])"
  by (rule nth_equalityI) (simp_all add: rev_nth)

definition heap_block_set :: "nat \<Rightarrow> nat \<Rightarrow> nat \<Rightarrow> nat set" where
  "heap_block_set base n sz = block_addr base sz ` {..<n}"

lemma ccheap_init_inv:
  assumes init: "ccheap_init malloc_p malloc_ok h n sz = Some (True, h')"
    and "0 < n" "0 < sz" "n * sz < 2 ^ 64" "n * sizeof_ptr < 2 ^ 64"
  shows "\<exists>base. malloc_p (n * sz) = Some base \<and> ccheap_inv (heap_block_set base n sz) h' {}"
proof -
  have mb: "malloc_bytes n sz = n * sz" using assms by (simp add: malloc_bytes_def)
  from init obtain base q where base: "malloc_p (n * sz) = Some base"
    and q: "ccfifo_init malloc_ok (ccfifo_cleanup (heap_fifo h)) n sizeof_ptr = (True, q)"
    by (auto simp: ccheap_init_def Let_def mb split: option.splits prod.splits bool.splits)
  let ?ps = "map (\<lambda>i. block_addr base sz (n - i - 1)) [0..<n]"
  have ps: "?ps = rev (map (block_addr base sz) [0..<n])" by (rule rev_blocks)
  have "inj_on (block_addr base sz) {..<n}"
    using block_addr_inj assms(3) by (auto simp: inj_on_def)
  then have dist: "distinct ?ps" and "card (heap_block_set base n sz) = n"
    unfolding ps by (simp_all add: distinct_map heap_block_set_def card_image lessThan_atLeast0)
  moreover have "set ?ps = heap_block_set base n sz"
    unfolding ps by (simp add: heap_block_set_def lessThan_atLeast0)
  moreover from ccfifo_init_inv [OF q] assms have "ccfifo_inv q" "ccfifo_list q = []" "fifo_capacity q = n"
    by auto
  moreover from this push_blocks_ok [of q ?ps] obtain q' where "push_blocks q ?ps = Some q'"
      "ccfifo_inv q'" "ccfifo_list q' = ?ps" "fifo_capacity q' = n" by auto
  ultimately show ?thesis
    using init base q
    by (auto simp: ccheap_init_def Let_def mb ccheap_inv_def heap_block_set_def)
qed

text \<open>
  C15. After a successful \<open>ccheap_init\<close>, any sequence of allocations and frees by a client that
  frees only blocks it holds is free of undefined behaviour; the blocks held at any time are
  pairwise distinct blocks of the heap's array, and the free queue holds exactly the others, so
  no block is handed out twice and none is lost.
\<close>

theorem ccheap_no_double_allocation:
  assumes "ccheap_init malloc_p malloc_ok h n sz = Some (True, h0)"
    and "0 < n" "0 < sz" "n * sz < 2 ^ 64" "n * sizeof_ptr < 2 ^ 64"
  shows "\<exists>base h' held. malloc_p (n * sz) = Some base \<and>
    alloc_run ccheap_alloc ccheap_free h0 [] ops = Some (h', held) \<and>
    distinct held \<and> set held \<subseteq> heap_block_set base n sz \<and>
    set (ccfifo_list (heap_fifo h')) = heap_block_set base n sz - set held"
proof -
  from ccheap_init_inv [OF assms] obtain base where base: "malloc_p (n * sz) = Some base"
    and inv: "ccheap_inv (heap_block_set base n sz) h0 {}" by blast
  from heap.alloc_run_safe [of "heap_block_set base n sz" h0 "[]" ops] inv
  obtain h' held where "alloc_run ccheap_alloc ccheap_free h0 [] ops = Some (h', held)"
      "ccheap_inv (heap_block_set base n sz) h' (set held)" "distinct held" by auto
  with base show ?thesis by (auto simp: ccheap_inv_def)
qed

theorem ccheap_no_double_allocation_witness:
  "\<exists>h0 base h' held.
     ccheap_init (\<lambda>_. Some 4096) (\<lambda>_. True) (ccheap_cleanup undefined) 3 32 = Some (True, h0) \<and>
     alloc_run ccheap_alloc ccheap_free h0 [] [Get, Get, Give 1, Get, Get] = Some (h', held) \<and>
     distinct held \<and> set held \<subseteq> heap_block_set base 3 32"
proof -
  obtain h0 where h0:
    "ccheap_init (\<lambda>_. Some 4096) (\<lambda>_. True) (ccheap_cleanup undefined) 3 32 = Some (True, h0)"
    by (simp add: ccheap_init_def ccfifo_init_def malloc_bytes_def upt_rec ccfifo_ppush_def
        ccfifo_push_def ccfifo_push_bytes_def ccheap_cleanup_def ccfifo_cleanup_def)
  from ccheap_no_double_allocation [OF h0, of "[Get, Get, Give 1, Get, Get]"] h0
  show ?thesis by simp blast
qed

end
