(* ===== verification/Cclist.thy ===== *)
theory Cclist
  imports Ccheap
begin

text \<open>
  The doubly linked list of include/cuttle/cclist.h, whose nodes are blocks of a fixed-block
  heap. The memory of the nodes is an explicit store from addresses to nodes, so that aliasing
  and the order of the pointer writes are those of the code. The theory proves the operations
  the library calls (\<open>cclist_push_back\<close>, \<open>cclist_insert\<close> at the head, \<open>cclist_erase\<close>)
  against lists of node addresses, and states what insertion in the middle does to the links.
\<close>

section \<open>Representation and operations\<close>

record 'a cclist_node =
  node_prev :: "nat option"
  node_next :: "nat option"
  node_item :: "'a option"

type_synonym 'a node_mem = "nat \<Rightarrow> 'a cclist_node"

record 'a cclist =
  list_heap :: ccheap
  list_head :: "nat option"
  list_tail :: "nat option"
  list_capacity :: nat
  list_item_size :: nat
  list_mem :: "'a node_mem"

text \<open>Two pointers precede the item in a node.\<close>

definition cclist_node_size :: "nat \<Rightarrow> nat" where
  "cclist_node_size item_size = 2 * sizeof_ptr + item_size"

definition cclist_init ::
  "(nat \<Rightarrow> nat option) \<Rightarrow> (nat \<Rightarrow> bool) \<Rightarrow> 'a cclist \<Rightarrow> nat \<Rightarrow> nat \<Rightarrow> (bool \<times> 'a cclist) ub" where
  "cclist_init malloc_p malloc_ok cc capacity item_size =
     do { (ok, h) \<leftarrow> ccheap_init malloc_p malloc_ok (list_heap cc) capacity (cclist_node_size item_size);
          Some (ok, cc\<lparr>list_heap := h, list_head := None, list_tail := None,
                       list_capacity := capacity, list_item_size := item_size\<rparr>) }"

definition cclist_cleanup :: "'a cclist \<Rightarrow> 'a cclist" where
  "cclist_cleanup cc =
     cc\<lparr>list_heap := ccheap_cleanup (list_heap cc), list_head := None, list_tail := None,
        list_capacity := 0, list_item_size := 0\<rparr>"

definition cclist_peek :: "'a cclist \<Rightarrow> nat option \<Rightarrow> 'a option" where
  "cclist_peek cc node = (case node of None \<Rightarrow> None | Some p \<Rightarrow> node_item (list_mem cc p))"

definition set_prev :: "nat option \<Rightarrow> nat \<Rightarrow> 'a node_mem \<Rightarrow> 'a node_mem" where
  "set_prev v p m = m(p := (m p)\<lparr>node_prev := v\<rparr>)"

definition set_next :: "nat option \<Rightarrow> nat \<Rightarrow> 'a node_mem \<Rightarrow> 'a node_mem" where
  "set_next v p m = m(p := (m p)\<lparr>node_next := v\<rparr>)"

definition set_item :: "'a \<Rightarrow> nat \<Rightarrow> 'a node_mem \<Rightarrow> 'a node_mem" where
  "set_item x p m = m(p := (m p)\<lparr>node_item := Some x\<rparr>)"

lemmas node_writes = set_prev_def set_next_def set_item_def

text \<open>
  \<open>Inl\<close> of an errno value is the null pointer returned with that errno, \<open>Inr\<close> is the new node.
\<close>

definition cclist_push ::
  "'a cclist \<Rightarrow> nat option \<Rightarrow> 'a option \<Rightarrow> ((errno + nat) \<times> 'a cclist) ub" where
  "cclist_push cc after pitem =
     (if after = None \<and> list_head cc \<noteq> None then Some (Inl EINVAL, cc)
      else
        do {
          (p, h) \<leftarrow> ccheap_alloc (list_heap cc);
          (case p of
             None \<Rightarrow> Some (Inl ENOMEM, cc\<lparr>list_heap := h\<rparr>)
           | Some node \<Rightarrow>
               (let m = set_prev after node (list_mem cc);
                    empty = (list_head cc = None);
                    head = (if empty then Some node else list_head cc);
                    tail = (if empty then Some node else list_tail cc);
                    (m, tail) =
                      (case after of
                         None \<Rightarrow> (set_next None node m, tail)
                       | Some a \<Rightarrow>
                           (let m = set_next (node_next (m a)) node m;
                                m = set_next (Some node) a m
                            in (m, if Some a = tail then Some node else tail)));
                    m = (case pitem of None \<Rightarrow> m | Some x \<Rightarrow> set_item x node m)
                in Some (Inr node, cc\<lparr>list_heap := h, list_head := head, list_tail := tail,
                                     list_mem := m\<rparr>)))
        })"

definition cclist_push_back :: "'a cclist \<Rightarrow> 'a option \<Rightarrow> ((errno + nat) \<times> 'a cclist) ub" where
  "cclist_push_back cc pitem = cclist_push cc (list_tail cc) pitem"

text \<open>The pointer variants push the pointer itself, which is never absent.\<close>

definition cclist_ppush :: "'a cclist \<Rightarrow> nat option \<Rightarrow> 'a \<Rightarrow> ((errno + nat) \<times> 'a cclist) ub" where
  "cclist_ppush cc after item = cclist_push cc after (Some item)"

definition cclist_ppush_back :: "'a cclist \<Rightarrow> 'a \<Rightarrow> ((errno + nat) \<times> 'a cclist) ub" where
  "cclist_ppush_back cc item = cclist_push_back cc (Some item)"

definition cclist_insert ::
  "'a cclist \<Rightarrow> nat option \<Rightarrow> 'a \<Rightarrow> ((errno + nat) \<times> 'a cclist) ub" where
  "cclist_insert cc before x =
     (if before = None \<and> list_tail cc \<noteq> None then Some (Inl EINVAL, cc)
      else
        do {
          (p, h) \<leftarrow> ccheap_alloc (list_heap cc);
          (case p of
             None \<Rightarrow> Some (Inl ENOMEM, cc\<lparr>list_heap := h\<rparr>)
           | Some node \<Rightarrow>
               (let m = set_next before node (list_mem cc);
                    empty = (list_tail cc = None);
                    head = (if empty then Some node else list_head cc);
                    tail = (if empty then Some node else list_tail cc);
                    (m, head) =
                      (case before of
                         None \<Rightarrow> (set_prev None node m, head)
                       | Some b \<Rightarrow>
                           (let m = set_prev (node_prev (m b)) node m;
                                m = set_prev (Some node) b m
                            in (m, if Some b = head then Some node else head)));
                    m = set_item x node m
                in Some (Inr node, cc\<lparr>list_heap := h, list_head := head, list_tail := tail,
                                     list_mem := m\<rparr>)))
        })"

definition cclist_pinsert ::
  "'a cclist \<Rightarrow> nat option \<Rightarrow> 'a \<Rightarrow> ((errno + nat) \<times> 'a cclist) ub" where
  "cclist_pinsert cc before item = cclist_insert cc before item"

definition cclist_erase :: "'a cclist \<Rightarrow> nat option \<Rightarrow> 'a cclist ub" where
  "cclist_erase cc node =
     (case node of
        None \<Rightarrow> Some cc
      | Some p \<Rightarrow>
          (let m = list_mem cc; prev = node_prev (m p); next = node_next (m p);
               m = (case prev of None \<Rightarrow> m | Some a \<Rightarrow> set_next next a m);
               m = (case next of None \<Rightarrow> m | Some b \<Rightarrow> set_prev prev b m);
               head = (if Some p = list_head cc then next else list_head cc);
               tail = (if Some p = list_tail cc then prev else list_tail cc)
           in do { h \<leftarrow> ccheap_free (list_heap cc) p;
                   Some (cc\<lparr>list_heap := h, list_head := head, list_tail := tail, list_mem := m\<rparr>) }))"

section \<open>List segments in the store\<close>

text \<open>
  \<open>dseg m pr p as pr' p'\<close>: starting at \<open>p\<close> and following next pointers visits the nodes \<open>as\<close>
  and ends with the next pointer \<open>p'\<close>; the prev pointer of each node is the node before it, that
  of the first is \<open>pr\<close>, and \<open>pr'\<close> is the last node visited.
\<close>

fun dseg :: "'a node_mem \<Rightarrow> nat option \<Rightarrow> nat option \<Rightarrow> nat list \<Rightarrow> nat option \<Rightarrow> nat option \<Rightarrow> bool" where
  "dseg m pr p [] pr' p' \<longleftrightarrow> pr = pr' \<and> p = p'"
| "dseg m pr p (a # as) pr' p' \<longleftrightarrow>
     p = Some a \<and> node_prev (m a) = pr \<and> dseg m (Some a) (node_next (m a)) as pr' p'"

lemma dseg_append:
  "dseg m pr p (as @ bs) pr' p' \<longleftrightarrow> (\<exists>r q. dseg m pr p as r q \<and> dseg m r q bs pr' p')"
  by (induction as arbitrary: pr p) auto

lemma dseg_frame [simp]: "a \<notin> set as \<Longrightarrow> dseg (m(a := n)) pr p as pr' p' = dseg m pr p as pr' p'"
  by (induction as arbitrary: pr p) auto

lemma dseg_write_frame [simp]:
  "a \<notin> set as \<Longrightarrow> dseg (set_prev v a m) pr p as pr' p' = dseg m pr p as pr' p'"
  "a \<notin> set as \<Longrightarrow> dseg (set_next v a m) pr p as pr' p' = dseg m pr p as pr' p'"
  by (simp_all add: node_writes)

lemma dseg_item [simp]: "dseg (set_item x a m) pr p as pr' p' = dseg m pr p as pr' p'"
  by (induction as arbitrary: pr p) (auto simp: set_item_def)

lemma node_write_same [simp]:
  "node_prev (set_prev v a m a) = v" "node_next (set_prev v a m b) = node_next (m b)"
  "node_next (set_next v a m a) = v" "node_prev (set_next v a m b) = node_prev (m b)"
  "node_item (set_prev v a m b) = node_item (m b)" "node_item (set_next v a m b) = node_item (m b)"
  "node_item (set_item x a m a) = Some x"
  "node_prev (set_item x a m b) = node_prev (m b)" "node_next (set_item x a m b) = node_next (m b)"
  by (simp_all add: node_writes)

lemma node_write_other [simp]:
  "a \<noteq> b \<Longrightarrow> node_prev (set_prev v a m b) = node_prev (m b)"
  "a \<noteq> b \<Longrightarrow> node_next (set_next v a m b) = node_next (m b)"
  "a \<noteq> b \<Longrightarrow> node_item (set_item x a m b) = node_item (m b)"
  by (simp_all add: node_writes)

lemma dseg_snoc:
  "dseg m pr p (as @ [a]) pr' p' \<longleftrightarrow>
     pr' = Some a \<and> node_next (m a) = p' \<and> dseg m pr p as (node_prev (m a)) (Some a)"
  by (auto simp: dseg_append)

text \<open>The list invariant: a well-linked list of distinct nodes, and no other block is in use.\<close>

definition cclist_inv :: "nat set \<Rightarrow> 'a cclist \<Rightarrow> nat list \<Rightarrow> bool" where
  "cclist_inv B cc as \<longleftrightarrow>
     dseg (list_mem cc) None (list_head cc) as (list_tail cc) None \<and> distinct as \<and>
     ccheap_inv B (list_heap cc) (set as)"

lemma cclist_inv_tail:
  assumes "cclist_inv B cc as"
  shows "list_tail cc = (if as = [] then None else Some (last as))"
  using assms by (cases as rule: rev_cases) (auto simp: cclist_inv_def dseg_snoc)

lemma cclist_inv_head:
  assumes "cclist_inv B cc as"
  shows "list_head cc = (case as of [] \<Rightarrow> None | a # _ \<Rightarrow> Some a)"
  using assms by (cases as) (auto simp: cclist_inv_def)

section \<open>Operations against lists of nodes\<close>

lemma cclist_push_back_full:
  assumes "cclist_inv B cc as" "set as = B"
  shows "cclist_push_back cc x = Some (Inl ENOMEM, cc)"
proof -
  have "ccheap_alloc (list_heap cc) = Some (None, list_heap cc)"
    using assms ccheap_alloc_none [of B "list_heap cc"] by (simp add: cclist_inv_def)
  then show ?thesis
    using cclist_inv_tail [OF assms(1)] cclist_inv_head [OF assms(1)]
    by (cases as) (simp_all add: cclist_push_back_def cclist_push_def)
qed

lemma cclist_push_back_ok:
  assumes inv: "cclist_inv B cc as" and room: "set as \<noteq> B"
  obtains node cc' where "cclist_push_back cc (Some x) = Some (Inr node, cc')"
    "node \<notin> set as" "cclist_inv B cc' (as @ [node])" "node_item (list_mem cc' node) = Some x"
    "\<And>a. a \<in> set as \<Longrightarrow> node_item (list_mem cc' a) = node_item (list_mem cc a)"
    "list_capacity cc' = list_capacity cc"
proof -
  from inv have "ccheap_inv B (list_heap cc) (set as)" by (simp add: cclist_inv_def)
  from heap.alloc_some [OF this room] obtain node h where
    al: "ccheap_alloc (list_heap cc) = Some (Some node, h)" "node \<in> B - set as"
      "ccheap_inv B h (insert node (set as))" by blast
  show thesis
  proof (cases as rule: rev_cases)
    case Nil
    then have "list_head cc = None" "list_tail cc = None"
      using cclist_inv_tail [OF inv] cclist_inv_head [OF inv] by simp_all
    with al Nil show thesis
      by (intro that [of node "cc\<lparr>list_heap := h, list_head := Some node, list_tail := Some node,
            list_mem := set_item x node (set_next None node (set_prev None node (list_mem cc)))\<rparr>"])
        (simp_all add: cclist_push_back_def cclist_push_def cclist_inv_def)
  next
    case (snoc bs t)
    have tail: "list_tail cc = Some t" and ne: "list_head cc \<noteq> None"
      using cclist_inv_tail [OF inv] cclist_inv_head [OF inv] snoc by (cases bs; simp)+
    have nt: "node \<noteq> t" "t \<notin> set bs" "node \<notin> set bs" "node_next (list_mem cc t) = None"
      using al snoc inv by (auto simp: cclist_inv_def dseg_snoc)
    let ?m = "set_item x node (set_next (Some node) t (set_next None node
                (set_prev (Some t) node (list_mem cc))))"
    let ?cc = "cc\<lparr>list_heap := h, list_tail := Some node, list_mem := ?m\<rparr>"
    have "cclist_push_back cc (Some x) = Some (Inr node, ?cc)"
      using al tail ne nt by (auto simp: cclist_push_back_def cclist_push_def)
    moreover have "cclist_inv B ?cc (as @ [node])"
      using inv al nt snoc by (auto simp: cclist_inv_def dseg_append insert_commute)
    moreover have "node_item (list_mem ?cc a) = node_item (list_mem cc a)" if "a \<in> set as" for a
      using that al by (cases "a = node") auto
    ultimately show thesis using that [of node ?cc] al by simp
  qed
qed

lemma cclist_erase_null: "cclist_erase cc None = Some cc"
  by (simp add: cclist_erase_def)

lemma dseg_next_of_prefix:
  "dseg m pr p as pr' p' \<Longrightarrow> as \<noteq> [] \<Longrightarrow> pr' = Some (last as)"
  by (induction as arbitrary: pr p) auto

text \<open>
  Unlinking: the three list shapes around the erased node (a predecessor or not, a successor or
  not) are handled by the two optional writes.
\<close>

lemma dseg_unlink:
  assumes seg: "dseg m None hd0 (bs @ p # cs) tl0 None" and dist: "distinct (bs @ p # cs)"
  defines "prev \<equiv> node_prev (m p)" and "nxt \<equiv> node_next (m p)"
  defines "m1 \<equiv> (case prev of None \<Rightarrow> m | Some a \<Rightarrow> set_next nxt a m)"
  defines "m2 \<equiv> (case nxt of None \<Rightarrow> m1 | Some b \<Rightarrow> set_prev prev b m1)"
  shows "dseg m2 None (if Some p = hd0 then nxt else hd0) (bs @ cs)
           (if Some p = tl0 then prev else tl0) None"
proof -
  from seg obtain r q where r: "dseg m None hd0 bs r q" "q = Some p" "prev = r"
      and cs: "dseg m (Some p) nxt cs tl0 None"
    by (auto simp: dseg_append prev_def nxt_def)
  have head: "(if Some p = hd0 then nxt else hd0) = (if bs = [] then nxt else hd0)"
    using r dist by (cases bs) auto
  have tail: "(if Some p = tl0 then prev else tl0) = (if cs = [] then prev else tl0)"
    using cs dist dseg_next_of_prefix [OF cs] by (cases cs rule: rev_cases) auto
  have pre: "dseg m1 None (if bs = [] then nxt else hd0) bs prev nxt"
  proof (cases bs rule: rev_cases)
    case Nil
    with r show ?thesis by (simp add: m1_def prev_def)
  next
    case (snoc xs a)
    with r have "prev = Some a" by (simp add: dseg_snoc)
    with snoc r dist show ?thesis by (simp add: m1_def dseg_snoc)
  qed
  have suf: "dseg m1 (Some p) nxt cs tl0 None"
  proof (cases bs rule: rev_cases)
    case Nil
    with r cs show ?thesis by (simp add: m1_def prev_def)
  next
    case (snoc xs a)
    with r have "prev = Some a" by (simp add: dseg_snoc)
    with snoc cs dist show ?thesis by (simp add: m1_def)
  qed
  show ?thesis
  proof (cases cs)
    case Nil
    with cs have "nxt = None" by simp
    with Nil pre show ?thesis unfolding head tail m2_def by (simp add: dseg_append)
  next
    case (Cons c cs')
    with suf have n: "nxt = Some c" "dseg m1 (Some c) (node_next (m1 c)) cs' tl0 None" by auto
    have "dseg m2 None (if bs = [] then nxt else hd0) bs prev nxt"
      using pre dist Cons by (simp add: m2_def n(1))
    moreover have "dseg m2 prev nxt cs tl0 None"
      using n dist Cons by (simp add: m2_def)
    ultimately show ?thesis
      unfolding head tail using Cons by (auto simp: dseg_append)
  qed
qed

lemma cclist_erase_ok:
  assumes inv: "cclist_inv B cc (bs @ p # cs)"
  obtains cc' where "cclist_erase cc (Some p) = Some cc'" "cclist_inv B cc' (bs @ cs)"
    "\<And>a. node_item (list_mem cc' a) = node_item (list_mem cc a)"
    "list_capacity cc' = list_capacity cc"
proof -
  from inv have h: "ccheap_inv B (list_heap cc) (set (bs @ p # cs))"
    and dist: "distinct (bs @ p # cs)"
    and seg: "dseg (list_mem cc) None (list_head cc) (bs @ p # cs) (list_tail cc) None"
    by (simp_all add: cclist_inv_def)
  from heap.release_ok [OF h, of p] obtain h' where
    fr: "ccheap_free (list_heap cc) p = Some h'" "ccheap_inv B h' (set (bs @ p # cs) - {p})" by auto
  have "set (bs @ p # cs) - {p} = set (bs @ cs)" using dist by auto
  with fr have h': "ccheap_inv B h' (set (bs @ cs))" by simp
  define m1 where "m1 = (case node_prev (list_mem cc p) of None \<Rightarrow> list_mem cc
      | Some a \<Rightarrow> set_next (node_next (list_mem cc p)) a (list_mem cc))"
  define m2 where "m2 = (case node_next (list_mem cc p) of None \<Rightarrow> m1
      | Some b \<Rightarrow> set_prev (node_prev (list_mem cc p)) b m1)"
  let ?cc = "cc\<lparr>list_heap := h', list_head := (if Some p = list_head cc then node_next (list_mem cc p) else list_head cc),
      list_tail := (if Some p = list_tail cc then node_prev (list_mem cc p) else list_tail cc), list_mem := m2\<rparr>"
  have "cclist_erase cc (Some p) = Some ?cc"
    unfolding cclist_erase_def Let_def m2_def m1_def by (simp add: fr)
  moreover have "cclist_inv B ?cc (bs @ cs)"
    using dseg_unlink [OF seg dist, folded m1_def, folded m2_def] h' dist
    by (simp add: cclist_inv_def)
  moreover have "node_item (list_mem ?cc a) = node_item (list_mem cc a)" for a
    by (simp add: m1_def m2_def split: option.splits)
  ultimately show thesis using that [of ?cc] by simp
qed

lemma cclist_insert_head_ok:
  assumes inv: "cclist_inv B cc as" and room: "set as \<noteq> B"
  obtains node cc' where "cclist_insert cc (list_head cc) x = Some (Inr node, cc')"
    "node \<notin> set as" "cclist_inv B cc' (node # as)" "node_item (list_mem cc' node) = Some x"
proof -
  from inv have "ccheap_inv B (list_heap cc) (set as)" by (simp add: cclist_inv_def)
  from heap.alloc_some [OF this room] obtain node h where
    al: "ccheap_alloc (list_heap cc) = Some (Some node, h)" "node \<in> B - set as"
      "ccheap_inv B h (insert node (set as))" by blast
  note ht = cclist_inv_tail [OF inv] cclist_inv_head [OF inv]
  show thesis
  proof (cases as)
    case Nil
    with ht al show thesis
      by (intro that [of node "cc\<lparr>list_heap := h, list_head := Some node, list_tail := Some node,
            list_mem := set_item x node (set_prev None node (set_next None node (list_mem cc)))\<rparr>"])
        (simp_all add: cclist_insert_def cclist_inv_def)
  next
    case (Cons a bs)
    let ?m = "set_item x node (set_prev (Some node) a (set_prev None node
                (set_next (Some a) node (list_mem cc))))"
    let ?cc = "cc\<lparr>list_heap := h, list_head := Some node, list_mem := ?m\<rparr>"
    have na: "node \<noteq> a" "node \<notin> set bs" "a \<notin> set bs" "node_prev (list_mem cc a) = None"
      using al inv Cons by (auto simp: cclist_inv_def)
    have "cclist_insert cc (list_head cc) x = Some (Inr node, ?cc)"
      using ht al Cons na by (simp add: cclist_insert_def)
    moreover have "cclist_inv B ?cc (node # as)"
      using inv al na Cons by (auto simp: cclist_inv_def)
    ultimately show thesis using that [of node ?cc] al by simp
  qed
qed

section \<open>The interface of a list of handles\<close>

text \<open>
  What the scheduler relies on for its list of waiters: \<open>hrep l hs\<close> says that the handles of the
  list are \<open>hs\<close> in order; adding yields a fresh handle at the end, removal takes one handle out and
  leaves the order and the items of the others.
\<close>

locale handle_list =
  fixes add :: "'l \<Rightarrow> 'a \<Rightarrow> ((errno + 'p) \<times> 'l) ub"
    and del :: "'l \<Rightarrow> 'p option \<Rightarrow> 'l ub"
    and item :: "'l \<Rightarrow> 'p \<Rightarrow> 'a option"
    and hrep :: "'l \<Rightarrow> 'p list \<Rightarrow> bool"
    and hcap :: nat
  assumes hdistinct: "hrep l hs \<Longrightarrow> distinct hs"
    and hle: "hrep l hs \<Longrightarrow> length hs \<le> hcap"
    and add_full: "hrep l hs \<Longrightarrow> length hs = hcap \<Longrightarrow> add l x = Some (Inl ENOMEM, l)"
    and add_ok: "hrep l hs \<Longrightarrow> length hs < hcap \<Longrightarrow>
      \<exists>p l'. add l x = Some (Inr p, l') \<and> p \<notin> set hs \<and> hrep l' (hs @ [p]) \<and> item l' p = Some x \<and>
             (\<forall>a\<in>set hs. item l' a = item l a)"
    and del_ok: "hrep l (hs @ p # ks) \<Longrightarrow>
      \<exists>l'. del l (Some p) = Some l' \<and> hrep l' (hs @ ks) \<and> (\<forall>a\<in>set (hs @ ks). item l' a = item l a)"

datatype 'a handle_op = Add 'a | Del nat

text \<open>Runs: \<open>Del i\<close> removes the \<open>i\<close>-th handle of the client, if there is one.\<close>

fun handle_run ::
  "('l \<Rightarrow> 'a \<Rightarrow> ((errno + 'p) \<times> 'l) ub) \<Rightarrow> ('l \<Rightarrow> 'p option \<Rightarrow> 'l ub) \<Rightarrow> 'l \<Rightarrow> 'p list \<Rightarrow>
   'a handle_op list \<Rightarrow> ('l \<times> 'p list) ub" where
  "handle_run ad dl l hs [] = Some (l, hs)"
| "handle_run ad dl l hs (Add x # ops) =
     do { (r, l') \<leftarrow> ad l x; handle_run ad dl l' (case r of Inl _ \<Rightarrow> hs | Inr p \<Rightarrow> hs @ [p]) ops }"
| "handle_run ad dl l hs (Del i # ops) =
     (if i < length hs
      then do { l' \<leftarrow> dl l (Some (hs ! i)); handle_run ad dl l' (take i hs @ drop (Suc i) hs) ops }
      else handle_run ad dl l hs ops)"

fun handle_spec :: "nat \<Rightarrow> 'a list \<Rightarrow> 'a handle_op list \<Rightarrow> 'a list" where
  "handle_spec cap xs [] = xs"
| "handle_spec cap xs (Add x # ops) = handle_spec cap (if length xs < cap then xs @ [x] else xs) ops"
| "handle_spec cap xs (Del i # ops) =
     handle_spec cap (if i < length xs then take i xs @ drop (Suc i) xs else xs) ops"

context handle_list
begin

lemma handle_run_spec:
  assumes "hrep l hs" "map (item l) hs = map Some xs"
  shows "\<exists>l' hs'. handle_run add del l hs ops = Some (l', hs') \<and> hrep l' hs' \<and>
    map (item l') hs' = map Some (handle_spec hcap xs ops)"
  using assms
proof (induction ops arbitrary: l hs xs)
  case Nil
  then show ?case by simp
next
  case (Cons op ops)
  have len: "length xs = length hs" using Cons.prems(2) by (metis length_map)
  show ?case
  proof (cases op)
    case (Add x)
    show ?thesis
    proof (cases "length hs < hcap")
      case True
      from add_ok [OF Cons.prems(1) True] obtain p l' where pl: "add l x = Some (Inr p, l')"
          "hrep l' (hs @ [p])" "item l' p = Some x" "\<forall>a\<in>set hs. item l' a = item l a" by blast
      from pl(4) Cons.prems(2) have "map (item l') hs = map Some xs" by (metis map_eq_conv)
      then have "map (item l') (hs @ [p]) = map Some (xs @ [x])" using pl(3) by simp
      from Cons.IH [OF pl(2) this] Add True pl(1) len show ?thesis by simp
    next
      case False
      with hle [OF Cons.prems(1)] have "length hs = hcap" by simp
      from add_full [OF Cons.prems(1) this] Cons.IH [OF Cons.prems] Add False len
      show ?thesis by simp
    qed
  next
    case (Del i)
    show ?thesis
    proof (cases "i < length hs")
      case True
      let ?r = "take i hs @ drop (Suc i) hs"
      from Cons.prems(1) have "hrep l (take i hs @ hs ! i # drop (Suc i) hs)"
        using id_take_nth_drop [OF True] by simp
      from del_ok [OF this] obtain l' where l': "del l (Some (hs ! i)) = Some l'" "hrep l' ?r"
          "\<forall>a\<in>set ?r. item l' a = item l a" by blast
      from l'(3) have "map (item l') ?r = map (item l) ?r" by (meson map_eq_conv)
      also have "\<dots> = map Some (take i xs @ drop (Suc i) xs)"
        using Cons.prems(2) by (simp flip: take_map drop_map)
      finally show ?thesis using Cons.IH [OF l'(2)] Del True l'(1) len by simp
    next
      case False
      with Cons.IH [OF Cons.prems] Del len show ?thesis by simp
    qed
  qed
qed

end

interpretation waiters: handle_list
  "\<lambda>cc x. cclist_push_back cc (Some x)" cclist_erase "\<lambda>cc p. node_item (list_mem cc p)"
  "cclist_inv B" "card B" for B
proof (unfold_locales, goal_cases)
  case (1 cc hs) then show ?case by (simp add: cclist_inv_def)
next
  case (2 cc hs)
  then have "finite B" "set hs \<subseteq> B" "distinct hs" by (auto simp: cclist_inv_def ccheap_inv_def)
  then show ?case using card_mono [of B "set hs"] by (simp add: distinct_card)
next
  case (3 cc hs x)
  then have "finite B" "set hs \<subseteq> B" "distinct hs" by (auto simp: cclist_inv_def ccheap_inv_def)
  with 3 have "set hs = B" by (metis card_subset_eq distinct_card)
  with 3 show ?case by (simp add: cclist_push_back_full)
next
  case (4 cc hs x)
  have "set hs \<noteq> B" using 4 by (auto simp: cclist_inv_def distinct_card)
  from cclist_push_back_ok [OF 4(1) this, of x] obtain p cc' where
    "cclist_push_back cc (Some x) = Some (Inr p, cc')" "p \<notin> set hs" "cclist_inv B cc' (hs @ [p])"
    "node_item (list_mem cc' p) = Some x"
    "\<And>a. a \<in> set hs \<Longrightarrow> node_item (list_mem cc' a) = node_item (list_mem cc a)"
    by metis
  then show ?case by blast
next
  case (5 cc hs p ks)
  from cclist_erase_ok [OF 5] obtain cc' where "cclist_erase cc (Some p) = Some cc'"
    "cclist_inv B cc' (hs @ ks)" "\<And>a. node_item (list_mem cc' a) = node_item (list_mem cc a)"
    by metis
  then show ?case by blast
qed

lemma cclist_init_inv:
  assumes "cclist_init malloc_p malloc_ok cc n sz = Some (True, cc')"
    and "0 < n" "n * cclist_node_size sz < 2 ^ 64" "n * sizeof_ptr < 2 ^ 64"
  shows "\<exists>base. cclist_inv (heap_block_set base n (cclist_node_size sz)) cc' [] \<and>
     card (heap_block_set base n (cclist_node_size sz)) = n"
proof -
  let ?s = "cclist_node_size sz"
  from assms(1) obtain h where h: "ccheap_init malloc_p malloc_ok (list_heap cc) n ?s = Some (True, h)"
      and cc': "cc' = cc\<lparr>list_heap := h, list_head := None, list_tail := None,
                       list_capacity := n, list_item_size := sz\<rparr>"
    by (auto simp: cclist_init_def bind_eq_Some_conv)
  have pos: "0 < ?s" by (simp add: cclist_node_size_def)
  from ccheap_init_inv [OF h assms(2) pos assms(3,4)] obtain base
    where "ccheap_inv (heap_block_set base n ?s) h {}" by blast
  moreover have "inj_on (block_addr base ?s) {..<n}"
    using block_addr_inj pos by (auto simp: inj_on_def)
  then have "card (heap_block_set base n ?s) = n"
    by (simp add: heap_block_set_def card_image)
  ultimately show ?thesis unfolding cc' by (auto simp: cclist_inv_def)
qed

text \<open>
  C16. Starting from a successful \<open>cclist_init\<close>, any sequence of \<open>cclist_push_back\<close> and
  \<open>cclist_erase\<close> calls (erasing only nodes obtained from a push and not erased before) runs without
  undefined behaviour and leaves a correctly linked list, in both directions, whose items are
  those of the same sequence on a list bounded by the capacity; a push fails only when
  \<open>capacity\<close> nodes are linked.
\<close>

theorem cclist_refines_bounded_list:
  assumes "cclist_init malloc_p malloc_ok cc n sz = Some (True, cc0)"
    and "0 < n" "n * cclist_node_size sz < 2 ^ 64" "n * sizeof_ptr < 2 ^ 64"
  shows "\<exists>cc' hs. handle_run (\<lambda>l x. cclist_push_back l (Some x)) cclist_erase cc0 [] ops = Some (cc', hs) \<and>
     dseg (list_mem cc') None (list_head cc') hs (list_tail cc') None \<and> distinct hs \<and>
     map (\<lambda>p. node_item (list_mem cc' p)) hs = map Some (handle_spec n [] ops)"
proof -
  from cclist_init_inv [OF assms] obtain B where B: "cclist_inv B cc0 []" "card B = n" by blast
  from waiters.handle_run_spec [OF B(1), of "[]" ops] B(2) show ?thesis
    by (auto simp: cclist_inv_def)
qed

theorem cclist_refines_bounded_list_witness:
  "\<exists>cc0 cc' hs.
     cclist_init (\<lambda>_. Some 4096) (\<lambda>_. True) (undefined :: nat cclist) 2 16 = Some (True, cc0) \<and>
     handle_run (\<lambda>l x. cclist_push_back l (Some x)) cclist_erase cc0 []
       [Add 5, Add 6, Add 7, Del 0, Add 8] = Some (cc', hs) \<and>
     map (\<lambda>p. node_item (list_mem cc' p)) hs = [Some 6, Some 8]"
proof -
  obtain cc0 where c: "cclist_init (\<lambda>_. Some 4096) (\<lambda>_. True) (undefined :: nat cclist) 2 16 = Some (True, cc0)"
    by (simp add: cclist_init_def cclist_node_size_def ccheap_init_def ccfifo_init_def malloc_bytes_def
        upt_rec ccfifo_ppush_def ccfifo_push_def ccfifo_push_bytes_def ccfifo_cleanup_def)
  from cclist_refines_bounded_list [OF c, of "[Add 5, Add 6, Add 7, Del 0, Add 8]"] c
  show ?thesis by (auto simp: cclist_node_size_def)
qed

text \<open>
  Pushing after a node that is not the tail. The forward chain is right, but the node that
  followed keeps its old prev pointer: \<open>cclist_push\<close> never writes \<open>after->next->prev\<close>.
\<close>

lemma cclist_push_middle:
  assumes inv: "cclist_inv B cc (bs @ a # c # cs)" and room: "set (bs @ a # c # cs) \<noteq> B"
  obtains node cc' where "cclist_push cc (Some a) (Some x) = Some (Inr node, cc')"
    "node_next (list_mem cc' a) = Some node" "node_next (list_mem cc' node) = Some c"
    "node_prev (list_mem cc' node) = Some a" "node_prev (list_mem cc' c) = Some a" "node \<noteq> a"
proof -
  let ?as = "bs @ a # c # cs"
  from inv have "ccheap_inv B (list_heap cc) (set ?as)" by (simp add: cclist_inv_def)
  from heap.alloc_some [OF this room] obtain node h where
    al: "ccheap_alloc (list_heap cc) = Some (Some node, h)" "node \<in> B - set ?as" by blast
  have links: "node_next (list_mem cc a) = Some c" "node_prev (list_mem cc c) = Some a" "a \<noteq> c"
    using inv by (auto simp: cclist_inv_def dseg_append)
  have ne: "node \<noteq> a" "node \<noteq> c" using al by auto
  have "list_tail cc \<noteq> Some a" "list_head cc \<noteq> None"
    using cclist_inv_tail [OF inv] cclist_inv_head [OF inv] inv
    by (auto simp: cclist_inv_def split: list.splits)
  with al ne links show thesis
    by (intro that [of node "cc\<lparr>list_heap := h, list_mem := set_item x node (set_next (Some node) a
            (set_next (Some c) node (set_prev (Some a) node (list_mem cc))))\<rparr>"])
      (auto simp: cclist_push_def)
qed

text \<open>
  \<open>cclist_insert\<close> in front of a node that is not the head never relinks the predecessor: the
  forward walk from the head does not meet the new node.
\<close>

lemma cclist_insert_middle:
  assumes inv: "cclist_inv B cc (bs @ a # c # cs)" and room: "set (bs @ a # c # cs) \<noteq> B"
  obtains node cc' where "cclist_insert cc (Some c) x = Some (Inr node, cc')"
    "node_next (list_mem cc' node) = Some c" "node_prev (list_mem cc' c) = Some node"
    "node_prev (list_mem cc' node) = Some a" "node_next (list_mem cc' a) = Some c" "node \<noteq> c"
proof -
  let ?as = "bs @ a # c # cs"
  from inv have "ccheap_inv B (list_heap cc) (set ?as)" by (simp add: cclist_inv_def)
  from heap.alloc_some [OF this room] obtain node h where
    al: "ccheap_alloc (list_heap cc) = Some (Some node, h)" "node \<in> B - set ?as" by blast
  have links: "node_next (list_mem cc a) = Some c" "node_prev (list_mem cc c) = Some a" "a \<noteq> c"
    using inv by (auto simp: cclist_inv_def dseg_append)
  have ne: "node \<noteq> a" "node \<noteq> c" using al by auto
  have "list_head cc \<noteq> Some c" "list_tail cc \<noteq> None"
    using cclist_inv_tail [OF inv] cclist_inv_head [OF inv] inv
    by (cases bs; auto simp: cclist_inv_def)+
  with al ne links show thesis
    by (intro that [of node "cc\<lparr>list_heap := h, list_mem := set_item x node (set_prev (Some node) c
            (set_prev (Some a) node (set_next (Some c) node (list_mem cc))))\<rparr>"])
      (auto simp: cclist_insert_def)
qed

end
