(* ===== verification/Ccarray.thy ===== *)
theory Ccarray
  imports Ccfifo
begin

text \<open>
  The growable array of include/cuttle/ccarray.h. The theory gives every operation on the
  buffer of items, the invariant that the first \<open>size\<close> slots of the \<open>capacity\<close> allocated ones
  are initialised, the behaviour of the operations on the list of items, the binary search
  \<open>ccarray_lowerbound\<close>, and the interface \<open>bounded_vector\<close> of the registries kept in such arrays
  (the streams of a channel, the ports of a server).
\<close>

section \<open>Representation and operations\<close>

record 'a ccarray =
  arr_items :: "'a option list option"
  arr_capacity :: nat
  arr_size :: nat
  arr_item_size :: nat

abbreviation ccarray_npos :: nat where
  "ccarray_npos \<equiv> size_max"

text \<open>
  A null array pointer is \<open>None\<close>. The result is the returned pointer being non-null, and the
  array behind the argument.
\<close>

definition ccarray_init ::
  "(nat \<Rightarrow> bool) \<Rightarrow> 'a ccarray option \<Rightarrow> nat \<Rightarrow> nat \<Rightarrow> bool \<times> 'a ccarray option" where
  "ccarray_init malloc_ok c capacity item_size =
     (case c of
        None \<Rightarrow> (False, None)
      | Some a \<Rightarrow>
          (if malloc_ok (malloc_bytes capacity item_size)
           then (True, Some (a\<lparr>arr_items := Some (replicate (malloc_bytes capacity item_size div item_size) None),
                               arr_capacity := capacity, arr_size := 0, arr_item_size := item_size\<rparr>))
           else (False, Some (a\<lparr>arr_items := None\<rparr>))))"

definition ccarray_cleanup :: "'a ccarray option \<Rightarrow> 'a ccarray option" where
  "ccarray_cleanup c = map_option (\<lambda>a. a\<lparr>arr_items := None\<rparr>) c"

definition ccarray_create ::
  "bool \<Rightarrow> (nat \<Rightarrow> bool) \<Rightarrow> nat \<Rightarrow> nat \<Rightarrow> 'a ccarray option" where
  "ccarray_create calloc_ok malloc_ok capacity item_size =
     (if calloc_ok
      then (case ccarray_init malloc_ok
                   (Some \<lparr>arr_items = None, arr_capacity = 0, arr_size = 0, arr_item_size = 0\<rparr>)
                   capacity item_size of
              (ok, c) \<Rightarrow> if ok then c else None)
      else None)"

text \<open>
  \<open>realloc_ok\<close> is the outcome of \<open>realloc(items, capacity * item_size)\<close>; the contents are kept up
  to the smaller of the two sizes.
\<close>

definition ccarray_realloc :: "(nat \<Rightarrow> bool) \<Rightarrow> 'a ccarray \<Rightarrow> nat \<Rightarrow> nat \<times> 'a ccarray" where
  "ccarray_realloc realloc_ok c capacity =
     (let bytes = malloc_bytes capacity (arr_item_size c); n = bytes div arr_item_size c;
          old = (case arr_items c of None \<Rightarrow> [] | Some xs \<Rightarrow> xs)
      in if realloc_ok bytes
         then (capacity, c\<lparr>arr_items := Some (take n old @ replicate (n - length old) None),
                           arr_capacity := capacity,
                           arr_size := (if arr_size c > capacity then capacity else arr_size c)\<rparr>)
         else (arr_capacity c, c))"

definition ccarray_resize :: "(nat \<Rightarrow> bool) \<Rightarrow> 'a ccarray \<Rightarrow> nat \<Rightarrow> nat \<times> 'a ccarray" where
  "ccarray_resize realloc_ok c new_size =
     (case ccarray_realloc realloc_ok c new_size of
        (cap, c') \<Rightarrow>
          (let c'' = (if cap = new_size \<and> new_size > arr_size c then c'\<lparr>arr_size := new_size\<rparr> else c')
           in (arr_size c'', c'')))"

definition ccarray_size :: "'a ccarray option \<Rightarrow> nat" where
  "ccarray_size c = (case c of None \<Rightarrow> 0 | Some a \<Rightarrow> arr_size a)"

definition ccarray_capacity :: "'a ccarray option \<Rightarrow> nat" where
  "ccarray_capacity c = (case c of None \<Rightarrow> 0 | Some a \<Rightarrow> arr_capacity a)"

definition ccarray_push_back :: "'a ccarray \<Rightarrow> 'a \<Rightarrow> (nat \<times> 'a ccarray) ub" where
  "ccarray_push_back c x =
     (if arr_size c < arr_capacity c
      then do { items \<leftarrow> arr_items c;
                items' \<leftarrow> memcpy_item items (arr_size c) x;
                Some (arr_size c, c\<lparr>arr_items := Some items', arr_size := Suc (arr_size c)\<rparr>) }
      else Some (ccarray_npos, c))"

definition ccarray_ppush_back :: "'a ccarray \<Rightarrow> 'a \<Rightarrow> (nat \<times> 'a ccarray) ub" where
  "ccarray_ppush_back c ptr = ccarray_push_back c ptr"

text \<open>As in the source, the size is not changed.\<close>

definition ccarray_push_front :: "'a ccarray \<Rightarrow> 'a \<Rightarrow> (nat \<times> 'a ccarray) ub" where
  "ccarray_push_front c x =
     (if arr_size c < arr_capacity c
      then do { items \<leftarrow> arr_items c;
                items' \<leftarrow> memmove_items items 1 0 (arr_size c);
                items'' \<leftarrow> memcpy_item items' 0 x;
                Some (0, c\<lparr>arr_items := Some items''\<rparr>) }
      else Some (ccarray_npos, c))"

text \<open>The count of moved items is the difference of two \<open>size_t\<close> values, which wraps.\<close>

definition ccarray_insert :: "'a ccarray \<Rightarrow> nat \<Rightarrow> 'a \<Rightarrow> (nat \<times> 'a ccarray) ub" where
  "ccarray_insert c pos x =
     (if arr_size c < arr_capacity c
      then do { items \<leftarrow> arr_items c;
                items' \<leftarrow> memmove_items items (pos + 1) pos
                            (if pos \<le> arr_size c then arr_size c - pos else 2 ^ 64 + arr_size c - pos);
                items'' \<leftarrow> memcpy_item items' pos x;
                Some (pos, c\<lparr>arr_items := Some items'', arr_size := Suc (arr_size c)\<rparr>) }
      else Some (ccarray_npos, c))"

text \<open>Reading one item: undefined outside of the buffer.\<close>

definition ccarray_item :: "'a ccarray \<Rightarrow> nat \<Rightarrow> 'a option ub" where
  "ccarray_item c pos =
     do { items \<leftarrow> arr_items c; if pos < length items then Some (items ! pos) else None }"

definition ccarray_pop_back :: "'a ccarray \<Rightarrow> (nat \<times> 'a option \<times> 'a ccarray) ub" where
  "ccarray_pop_back c =
     (if arr_size c < 1 then Some (ccarray_npos, None, c)
      else do { x \<leftarrow> ccarray_item c (arr_size c - 1);
                Some (arr_size c - 1, x, c\<lparr>arr_size := arr_size c - 1\<rparr>) })"

definition ccarray_pop_front :: "'a ccarray \<Rightarrow> bool \<Rightarrow> (nat \<times> 'a option \<times> 'a ccarray) ub" where
  "ccarray_pop_front c data =
     (if arr_size c < 1 then Some (ccarray_npos, None, c)
      else do { x \<leftarrow> (if data then ccarray_item c 0 else Some None);
                items \<leftarrow> arr_items c;
                items' \<leftarrow> memmove_items items 0 1 (arr_size c - 1);
                Some (arr_size c - 1, x,
                      c\<lparr>arr_items := Some items', arr_size := arr_size c - 1\<rparr>) })"

definition ccarray_erase :: "'a ccarray \<Rightarrow> nat \<Rightarrow> (nat \<times> 'a ccarray) ub" where
  "ccarray_erase c pos =
     (if pos < arr_size c
      then do { items \<leftarrow> arr_items c;
                items' \<leftarrow> memmove_items items pos (pos + 1) (arr_size c - 1 - pos);
                Some (arr_size c - 1, c\<lparr>arr_items := Some items', arr_size := arr_size c - 1\<rparr>) }
      else Some (arr_size c, c))"

definition ccarray_clear :: "'a ccarray option \<Rightarrow> 'a ccarray option" where
  "ccarray_clear c = map_option (\<lambda>a. a\<lparr>arr_size := 0\<rparr>) c"

text \<open>\<open>ccarray_pclear\<close> returns the pointers it frees, in order.\<close>

fun ccarray_pclear_loop :: "'a ccarray \<Rightarrow> nat \<Rightarrow> 'a option list ub" where
  "ccarray_pclear_loop c 0 = Some []"
| "ccarray_pclear_loop c (Suc i) =
     do { ps \<leftarrow> ccarray_pclear_loop c i; p \<leftarrow> ccarray_item c i; Some (ps @ [p]) }"

definition ccarray_pclear :: "'a ccarray option \<Rightarrow> ('a option list \<times> 'a ccarray option) ub" where
  "ccarray_pclear c =
     (case c of
        None \<Rightarrow> Some ([], None)
      | Some a \<Rightarrow> do { ps \<leftarrow> ccarray_pclear_loop a (arr_size a); Some (ps, ccarray_clear c) })"

definition ccarray_ppeek :: "'a ccarray \<Rightarrow> nat \<Rightarrow> 'a option ub" where
  "ccarray_ppeek c pos = ccarray_item c pos"

definition ccarray_set_size :: "'a ccarray \<Rightarrow> nat \<Rightarrow> nat \<times> 'a ccarray" where
  "ccarray_set_size c newsize = (newsize, c\<lparr>arr_size := newsize\<rparr>)"

text \<open>The comparison functions read an initialised item; an indeterminate one is undefined.\<close>

definition ccarray_cmp :: "('a \<Rightarrow> 'b \<Rightarrow> int) \<Rightarrow> 'a ccarray \<Rightarrow> nat \<Rightarrow> 'b \<Rightarrow> int ub" where
  "ccarray_cmp cmp c pos v = do { x \<leftarrow> ccarray_item c pos; x' \<leftarrow> x; Some (cmp x' v) }"

function ccarray_find_from :: "'a ccarray \<Rightarrow> ('a \<Rightarrow> 'b \<Rightarrow> int) \<Rightarrow> 'b \<Rightarrow> nat \<Rightarrow> nat ub" where
  "ccarray_find_from c cmp v pos =
     (if pos < arr_size c
      then (case ccarray_cmp cmp c pos v of
              None \<Rightarrow> None
            | Some rc \<Rightarrow> if rc \<noteq> 0 then ccarray_find_from c cmp v (Suc pos) else Some pos)
      else Some pos)"
  by pat_completeness auto
termination
  by (relation "measure (\<lambda>(c, cmp, v, pos). arr_size c - pos)") auto

declare ccarray_find_from.simps [simp del]

definition ccarray_find :: "'a ccarray \<Rightarrow> ('a \<Rightarrow> 'b \<Rightarrow> int) \<Rightarrow> 'b \<Rightarrow> nat ub" where
  "ccarray_find c cmp v = ccarray_find_from c cmp v 0"

text \<open>\<open>memcmp\<close> of two items is zero exactly when they are equal.\<close>

definition item_cmp :: "'a \<Rightarrow> 'a \<Rightarrow> int" where
  "item_cmp x y = (if x = y then 0 else 1)"

definition ccarray_find_item :: "'a ccarray \<Rightarrow> 'a \<Rightarrow> nat ub" where
  "ccarray_find_item c v = ccarray_find_from c item_cmp v 0"

definition ccarray_erase_item :: "'a ccarray \<Rightarrow> 'a \<Rightarrow> (nat \<times> 'a ccarray) ub" where
  "ccarray_erase_item c v =
     do { pos \<leftarrow> ccarray_find_item c v;
          if pos < ccarray_size (Some c)
          then do { (_, c') \<leftarrow> ccarray_erase c pos; Some (pos, c') }
          else Some (pos, c) }"

text \<open>
  \<open>qsort\<close> of the C library sorts a list of items in place; what it does with items that compare
  equal is unspecified, so it is a parameter.
\<close>

definition ccarray_sort ::
  "(('a \<Rightarrow> 'a \<Rightarrow> int) \<Rightarrow> 'a option list \<Rightarrow> 'a option list) \<Rightarrow> 'a ccarray \<Rightarrow> nat \<Rightarrow> nat \<Rightarrow>
   ('a \<Rightarrow> 'a \<Rightarrow> int) \<Rightarrow> 'a ccarray ub" where
  "ccarray_sort qsort c beg fin cmp =
     do { items \<leftarrow> arr_items c;
          if beg \<le> fin \<and> fin \<le> length items
          then Some (c\<lparr>arr_items := Some (take beg items @ qsort cmp (drop beg (take fin items)) @ drop fin items)\<rparr>)
          else None }"

function lowerbound_search :: "'a ccarray \<Rightarrow> ('a \<Rightarrow> 'b \<Rightarrow> int) \<Rightarrow> 'b \<Rightarrow> nat \<Rightarrow> nat \<Rightarrow> nat ub" where
  "lowerbound_search c cmp v beg len =
     (if len > 0
      then (let half = len div 2; mid = beg + half
            in case ccarray_cmp cmp c mid v of
                 None \<Rightarrow> None
               | Some rc \<Rightarrow>
                   if rc = 0 then Some mid
                   else if rc > 0 then lowerbound_search c cmp v beg half
                   else lowerbound_search c cmp v (mid + 1) (len - (half + 1)))
      else Some beg)"
  by pat_completeness auto
termination
  by (relation "measure (\<lambda>(c, cmp, v, beg, len). len)") auto

declare lowerbound_search.simps [simp del]

fun lowerbound_back :: "'a ccarray \<Rightarrow> ('a \<Rightarrow> 'b \<Rightarrow> int) \<Rightarrow> 'b \<Rightarrow> nat \<Rightarrow> nat \<Rightarrow> nat ub" where
  "lowerbound_back c cmp v oldbeg 0 = Some 0"
| "lowerbound_back c cmp v oldbeg (Suc b) =
     (if Suc b > oldbeg
      then (case ccarray_cmp cmp c b v of
              None \<Rightarrow> None
            | Some rc \<Rightarrow> if rc = 0 then lowerbound_back c cmp v oldbeg b else Some (Suc b))
      else Some (Suc b))"

definition ccarray_lowerbound ::
  "'a ccarray \<Rightarrow> nat \<Rightarrow> nat \<Rightarrow> ('a \<Rightarrow> 'b \<Rightarrow> int) \<Rightarrow> 'b \<Rightarrow> nat ub" where
  "ccarray_lowerbound c beg fin cmp v =
     do { b \<leftarrow> lowerbound_search c cmp v beg (if beg \<le> fin then fin - beg else 2 ^ 64 + fin - beg);
          lowerbound_back c cmp v beg b }"

section \<open>Invariant and abstraction\<close>

definition ccarray_inv :: "'a ccarray \<Rightarrow> bool" where
  "ccarray_inv c \<longleftrightarrow>
     0 < arr_item_size c \<and> arr_size c \<le> arr_capacity c \<and>
     (\<exists>items. arr_items c = Some items \<and> length items = arr_capacity c \<and>
        (\<forall>i<arr_size c. items ! i \<noteq> None))"

definition ccarray_list :: "'a ccarray \<Rightarrow> 'a list" where
  "ccarray_list c = (case arr_items c of None \<Rightarrow> [] | Some items \<Rightarrow> map the (take (arr_size c) items))"

lemma ccarray_invD:
  assumes "ccarray_inv c"
  obtains items where "arr_items c = Some items" "length items = arr_capacity c"
    "\<forall>i<arr_size c. items ! i \<noteq> None" "arr_size c \<le> arr_capacity c" "0 < arr_item_size c"
  using assms by (auto simp: ccarray_inv_def)

lemma length_ccarray_list [conts_simps]: "ccarray_inv c \<Longrightarrow> length (ccarray_list c) = arr_size c"
  by (auto simp: ccarray_inv_def ccarray_list_def)

lemma ccarray_item_ok [conts_simps]:
  "ccarray_inv c \<Longrightarrow> pos < arr_size c \<Longrightarrow> ccarray_item c pos = Some (Some (ccarray_list c ! pos))"
  by (auto simp: ccarray_inv_def ccarray_list_def ccarray_item_def)

lemma ccarray_cmp_ok [conts_simps]:
  "ccarray_inv c \<Longrightarrow> pos < arr_size c \<Longrightarrow> ccarray_cmp cmp c pos v = Some (cmp (ccarray_list c ! pos) v)"
  by (simp add: ccarray_cmp_def ccarray_item_ok)

lemma ccarray_eqI:
  assumes "arr_items c' = Some items'" "length items' = arr_capacity c'" "0 < arr_item_size c'"
    and "arr_size c' = length xs" "arr_size c' \<le> arr_capacity c'"
    and "\<And>i. i < length xs \<Longrightarrow> items' ! i = Some (xs ! i)"
  shows "ccarray_inv c' \<and> ccarray_list c' = xs"
proof -
  have "map the (take (arr_size c') items') = xs"
    using assms by (intro nth_equalityI) auto
  then show ?thesis using assms by (auto simp: ccarray_inv_def ccarray_list_def)
qed

lemma ccarray_list_items:
  "ccarray_inv c \<Longrightarrow> arr_items c = Some items \<Longrightarrow> i < arr_size c \<Longrightarrow> items ! i = Some (ccarray_list c ! i)"
  by (auto simp: ccarray_inv_def ccarray_list_def)

lemma ccarray_init_inv:
  assumes "ccarray_init malloc_ok c n sz = (True, c')" and "0 < sz" "n * sz < 2 ^ 64"
  shows "\<exists>a. c' = Some a \<and> ccarray_inv a \<and> ccarray_list a = [] \<and> arr_capacity a = n"
proof -
  from assms obtain a where c: "c = Some a" by (cases c) (auto simp: ccarray_init_def)
  let ?a = "a\<lparr>arr_items := Some (replicate n None), arr_capacity := n, arr_size := 0, arr_item_size := sz\<rparr>"
  have "c' = Some ?a"
    using assms c by (auto simp: ccarray_init_def malloc_bytes_def split: if_splits)
  moreover have "ccarray_inv ?a \<and> ccarray_list ?a = []"
    using assms(2) by (auto simp: ccarray_inv_def ccarray_list_def)
  ultimately show ?thesis by auto
qed

section \<open>Operations on the list of items\<close>

lemma ccarray_push_back_full:
  "arr_capacity c \<le> arr_size c \<Longrightarrow> ccarray_push_back c x = Some (ccarray_npos, c)"
  by (simp add: ccarray_push_back_def)

lemma ccarray_push_back_ok:
  assumes inv: "ccarray_inv c" and room: "arr_size c < arr_capacity c"
  shows "\<exists>c'. ccarray_push_back c x = Some (arr_size c, c') \<and> ccarray_inv c' \<and>
     ccarray_list c' = ccarray_list c @ [x] \<and> arr_capacity c' = arr_capacity c"
proof -
  from inv obtain items where it: "arr_items c = Some items" "length items = arr_capacity c"
    "\<forall>i<arr_size c. items ! i \<noteq> None" "0 < arr_item_size c" by (rule ccarray_invD)
  let ?c = "c\<lparr>arr_items := Some (items[arr_size c := Some x]), arr_size := Suc (arr_size c)\<rparr>"
  have "ccarray_push_back c x = Some (arr_size c, ?c)"
    using room it by (simp add: ccarray_push_back_def)
  moreover have "ccarray_inv ?c \<and> ccarray_list ?c = ccarray_list c @ [x]"
    using inv it room
    by (intro ccarray_eqI [where items' = "items[arr_size c := Some x]"])
      (auto simp: conts_simps nth_append nth_list_update ccarray_list_items less_Suc_eq)
  ultimately show ?thesis by simp
qed

lemma ccarray_pop_back_ok:
  assumes inv: "ccarray_inv c" and ne: "arr_size c \<noteq> 0"
  shows "\<exists>c'. ccarray_pop_back c = Some (arr_size c - 1, Some (last (ccarray_list c)), c') \<and>
     ccarray_inv c' \<and> ccarray_list c' = butlast (ccarray_list c) \<and> arr_capacity c' = arr_capacity c"
proof -
  from inv obtain items where it: "arr_items c = Some items" "length items = arr_capacity c"
    "arr_size c \<le> arr_capacity c" "0 < arr_item_size c" by (rule ccarray_invD)
  let ?c = "c\<lparr>arr_size := arr_size c - 1\<rparr>"
  have "last (ccarray_list c) = ccarray_list c ! (arr_size c - 1)"
    using ne length_ccarray_list [OF inv] by (subst last_conv_nth) auto
  then have "ccarray_pop_back c = Some (arr_size c - 1, Some (last (ccarray_list c)), ?c)"
    using inv ne by (simp add: ccarray_pop_back_def conts_simps)
  moreover have "ccarray_inv ?c \<and> ccarray_list ?c = butlast (ccarray_list c)"
    using inv it ne
    by (intro ccarray_eqI [where items' = items])
      (auto simp: conts_simps nth_butlast ccarray_list_items)
  ultimately show ?thesis by simp
qed

lemma ccarray_insert_ok:
  assumes inv: "ccarray_inv c" and room: "arr_size c < arr_capacity c" and pos: "pos \<le> arr_size c"
  shows "\<exists>c'. ccarray_insert c pos x = Some (pos, c') \<and> ccarray_inv c' \<and>
     ccarray_list c' = take pos (ccarray_list c) @ x # drop pos (ccarray_list c) \<and>
     arr_capacity c' = arr_capacity c"
proof -
  from inv obtain items where it: "arr_items c = Some items" "length items = arr_capacity c"
    "0 < arr_item_size c" by (rule ccarray_invD)
  obtain items' where m: "memmove_items items (pos + 1) pos (arr_size c - pos) = Some items'"
    using it room pos by (simp add: memmove_items_def)
  note len = length_memmove_items [OF m] and nth = nth_memmove_items [OF m]
  let ?c = "c\<lparr>arr_items := Some (items'[pos := Some x]), arr_size := Suc (arr_size c)\<rparr>"
  have "ccarray_insert c pos x = Some (pos, ?c)"
    using room it pos m len by (simp add: ccarray_insert_def)
  moreover have "ccarray_inv ?c \<and> ccarray_list ?c = take pos (ccarray_list c) @ x # drop pos (ccarray_list c)"
    using inv it room pos len
    by (intro ccarray_eqI [where items' = "items'[pos := Some x]"])
      (auto simp: conts_simps nth_append nth_Cons' nth_list_update nth ccarray_list_items)
  ultimately show ?thesis by simp
qed

lemma ccarray_erase_ok:
  assumes inv: "ccarray_inv c" and pos: "pos < arr_size c"
  shows "\<exists>c'. ccarray_erase c pos = Some (arr_size c - 1, c') \<and> ccarray_inv c' \<and>
     ccarray_list c' = take pos (ccarray_list c) @ drop (Suc pos) (ccarray_list c) \<and>
     arr_capacity c' = arr_capacity c"
proof -
  from inv obtain items where it: "arr_items c = Some items" "length items = arr_capacity c"
    "arr_size c \<le> arr_capacity c" "0 < arr_item_size c" by (rule ccarray_invD)
  have "arr_size c - Suc 0 \<le> arr_capacity c" using it by simp
  then obtain items' where m: "memmove_items items pos (pos + 1) (arr_size c - 1 - pos) = Some items'"
    using it pos by (simp add: memmove_items_def)
  note len = length_memmove_items [OF m] and nth = nth_memmove_items [OF m]
  let ?c = "c\<lparr>arr_items := Some items', arr_size := arr_size c - 1\<rparr>"
  have "ccarray_erase c pos = Some (arr_size c - 1, ?c)"
    using it pos m by (simp add: ccarray_erase_def)
  moreover have "ccarray_inv ?c \<and> ccarray_list ?c = take pos (ccarray_list c) @ drop (Suc pos) (ccarray_list c)"
    using inv it pos len
    by (intro ccarray_eqI [where items' = items'])
      (auto simp: conts_simps nth_append nth ccarray_list_items)
  ultimately show ?thesis by simp
qed

lemma ccarray_erase_beyond: "arr_size c \<le> pos \<Longrightarrow> ccarray_erase c pos = Some (arr_size c, c)"
  by (simp add: ccarray_erase_def)

lemma ccarray_pop_front_ok:
  assumes inv: "ccarray_inv c" and ne: "ccarray_list c = x # xs"
  shows "\<exists>c'. ccarray_pop_front c True = Some (length xs, Some x, c') \<and> ccarray_inv c' \<and>
     ccarray_list c' = xs \<and> arr_capacity c' = arr_capacity c"
proof -
  have sz: "arr_size c = Suc (length xs)" using ne length_ccarray_list [OF inv] by simp
  from inv obtain items where it: "arr_items c = Some items" "length items = arr_capacity c"
    "arr_size c \<le> arr_capacity c" "0 < arr_item_size c" by (rule ccarray_invD)
  obtain items' where m: "memmove_items items 0 1 (length xs) = Some items'"
    using it sz by (simp add: memmove_items_def)
  note len = length_memmove_items [OF m] and nth = nth_memmove_items [OF m]
  let ?c = "c\<lparr>arr_items := Some items', arr_size := length xs\<rparr>"
  have "ccarray_pop_front c True = Some (length xs, Some x, ?c)"
    using it sz m ccarray_item_ok [OF inv, of 0] ne by (simp add: ccarray_pop_front_def)
  moreover have "ccarray_inv ?c \<and> ccarray_list ?c = xs"
    using inv it sz len ccarray_list_items [OF inv it(1)] ne
    by (intro ccarray_eqI [where items' = items']) (auto simp: nth)
  ultimately show ?thesis by simp
qed

section \<open>Searching\<close>

lemma ccarray_find_from_ok:
  assumes "ccarray_inv c" "pos \<le> arr_size c"
  shows "\<exists>r. ccarray_find_from c cmp v pos = Some r \<and> pos \<le> r \<and> r \<le> arr_size c \<and>
     (\<forall>i. pos \<le> i \<and> i < r \<longrightarrow> cmp (ccarray_list c ! i) v \<noteq> 0) \<and>
     (r < arr_size c \<longrightarrow> cmp (ccarray_list c ! r) v = 0)"
  using assms
proof (induction c cmp v pos rule: ccarray_find_from.induct)
  case (1 c cmp v pos)
  show ?case
  proof (cases "pos < arr_size c \<and> cmp (ccarray_list c ! pos) v \<noteq> 0")
    case True
    then have cmp: "ccarray_cmp cmp c pos v = Some (cmp (ccarray_list c ! pos) v)"
      using "1.prems" by (simp add: conts_simps)
    with True "1.IH" [OF _ cmp] "1.prems" obtain r where
      "ccarray_find_from c cmp v (Suc pos) = Some r" "Suc pos \<le> r" "r \<le> arr_size c"
      "\<forall>i. Suc pos \<le> i \<and> i < r \<longrightarrow> cmp (ccarray_list c ! i) v \<noteq> 0"
      "r < arr_size c \<longrightarrow> cmp (ccarray_list c ! r) v = 0"
      by auto
    moreover from this True have "\<forall>i. pos \<le> i \<and> i < r \<longrightarrow> cmp (ccarray_list c ! i) v \<noteq> 0"
      by (metis Suc_leI le_neq_implies_less)
    ultimately show ?thesis
      using True cmp by (auto simp: ccarray_find_from.simps [of c cmp v pos])
  next
    case False
    with "1.prems" show ?thesis
      by (auto simp: ccarray_find_from.simps [of c cmp v pos] conts_simps)
  qed
qed

lemma ccarray_find_item_ok:
  assumes "ccarray_inv c"
  obtains r where "ccarray_find_item c x = Some r" "r \<le> arr_size c"
      "\<forall>i<r. ccarray_list c ! i \<noteq> x" "r < arr_size c \<longrightarrow> ccarray_list c ! r = x"
  using ccarray_find_from_ok [OF assms, of 0 item_cmp x]
  by (auto simp: ccarray_find_item_def item_cmp_def split: if_splits)

lemma remove1_least:
  assumes "r < length xs" "xs ! r = x" "\<forall>i<r. xs ! i \<noteq> x"
  shows "take r xs @ drop (Suc r) xs = remove1 x xs"
  using assms
proof (induction xs arbitrary: r)
  case Nil
  then show ?case by simp
next
  case (Cons y ys)
  show ?case
  proof (cases r)
    case 0
    with Cons.prems show ?thesis by simp
  next
    case (Suc k)
    with Cons.prems have "y \<noteq> x" by auto
    moreover have "take k ys @ drop (Suc k) ys = remove1 x ys"
      using Cons.prems Suc by (intro Cons.IH) auto
    ultimately show ?thesis using Suc by simp
  qed
qed

lemma ccarray_erase_item_ok:
  assumes inv: "ccarray_inv c"
  shows "\<exists>r c'. ccarray_erase_item c x = Some (r, c') \<and> ccarray_inv c' \<and>
     ccarray_list c' = remove1 x (ccarray_list c) \<and> arr_capacity c' = arr_capacity c"
proof -
  from inv obtain r where
    r: "ccarray_find_item c x = Some r" "r \<le> arr_size c"
      "\<forall>i<r. ccarray_list c ! i \<noteq> x" "r < arr_size c \<longrightarrow> ccarray_list c ! r = x"
    by (rule ccarray_find_item_ok)
  show ?thesis
  proof (cases "r < arr_size c")
    case True
    with ccarray_erase_ok [OF inv True] r remove1_least [of r "ccarray_list c" x] inv show ?thesis
      by (auto simp: ccarray_erase_item_def ccarray_size_def conts_simps)
  next
    case False
    with r have "r = arr_size c" by simp
    with r inv have "x \<notin> set (ccarray_list c)" by (auto simp: in_set_conv_nth conts_simps)
    with r False inv show ?thesis
      by (auto simp: ccarray_erase_item_def ccarray_size_def remove1_idem)
  qed
qed

text \<open>
  The range is ordered for the searched value: items that compare below it come before those
  that compare equal, which come before those that compare above it.
\<close>

definition cmp_ordered :: "('a \<Rightarrow> 'b \<Rightarrow> int) \<Rightarrow> 'a list \<Rightarrow> nat \<Rightarrow> nat \<Rightarrow> 'b \<Rightarrow> bool" where
  "cmp_ordered cmp xs beg fin v \<longleftrightarrow>
     (\<forall>j\<in>{beg..<fin}. \<forall>i\<in>{beg..<j}. sgn (cmp (xs ! i) v) \<le> sgn (cmp (xs ! j) v))"

lemma cmp_orderedD:
  assumes "cmp_ordered cmp xs beg fin v" "beg \<le> i" "i \<le> j" "j < fin"
  shows "sgn (cmp (xs ! i) v) \<le> sgn (cmp (xs ! j) v)"
  using assms by (cases "i = j") (auto simp: cmp_ordered_def)

text \<open>
  The search loop keeps the items below \<open>beg\<close> less than the value and those from \<open>beg + len\<close> on
  greater; it stops at an item that compares equal or at the boundary.
\<close>

lemma lowerbound_search_ok:
  assumes "ccarray_inv c" "beg + len \<le> fin" "fin \<le> arr_size c" "lo \<le> beg"
    and "cmp_ordered cmp (ccarray_list c) lo fin v"
    and "\<forall>i. lo \<le> i \<and> i < beg \<longrightarrow> cmp (ccarray_list c ! i) v < 0"
    and "\<forall>i. beg + len \<le> i \<and> i < fin \<longrightarrow> cmp (ccarray_list c ! i) v > 0"
  shows "\<exists>r. lowerbound_search c cmp v beg len = Some r \<and> lo \<le> r \<and> r \<le> fin \<and>
     (\<forall>i. lo \<le> i \<and> i < r \<longrightarrow> cmp (ccarray_list c ! i) v \<le> 0) \<and>
     (\<forall>i. r \<le> i \<and> i < fin \<longrightarrow> cmp (ccarray_list c ! i) v \<ge> 0)"
  using assms
proof (induction c cmp v beg len rule: lowerbound_search.induct)
  case (1 c cmp v beg len)
  let ?xs = "ccarray_list c" and ?mid = "beg + len div 2"
  show ?case
  proof (cases "len > 0")
    case False
    with "1.prems" show ?thesis
      by (intro exI [of _ beg]) (auto simp: lowerbound_search.simps [of c cmp v beg 0] less_imp_le)
  next
    case True
    then have mid: "?mid < fin" "?mid < arr_size c" "lo \<le> ?mid" using "1.prems" by auto
    then have cmp: "ccarray_cmp cmp c ?mid v = Some (cmp (?xs ! ?mid) v)"
      using "1.prems"(1) by (simp add: conts_simps)
    note step = lowerbound_search.simps [of c cmp v beg len]
    note below = cmp_orderedD [OF "1.prems"(5) _ _ mid(1)]
      and above = cmp_orderedD [OF "1.prems"(5) mid(3)]
    consider (eq) "cmp (?xs ! ?mid) v = 0" | (gt) "cmp (?xs ! ?mid) v > 0" | (lt) "cmp (?xs ! ?mid) v < 0"
      by linarith
    then show ?thesis
    proof cases
      case eq
      have "cmp (?xs ! i) v \<le> 0" if "lo \<le> i" "i < ?mid" for i
        using below [of i] that eq by (simp add: sgn_if split: if_splits)
      moreover have "cmp (?xs ! i) v \<ge> 0" if "?mid \<le> i" "i < fin" for i
        using above [of i] that eq by (simp add: sgn_if split: if_splits)
      ultimately show ?thesis
        using True eq cmp mid by (intro exI [of _ ?mid]) (simp add: step Let_def)
    next
      case gt
      have "cmp (?xs ! i) v > 0" if "beg + len div 2 \<le> i" "i < fin" for i
        using above [of i] that gt by (simp add: sgn_if split: if_splits)
      then have pos: "\<forall>i. ?mid \<le> i \<and> i < fin \<longrightarrow> cmp (?xs ! i) v > 0" by blast
      have "\<exists>r. lowerbound_search c cmp v beg (len div 2) = Some r \<and> lo \<le> r \<and> r \<le> fin \<and>
        (\<forall>i. lo \<le> i \<and> i < r \<longrightarrow> cmp (?xs ! i) v \<le> 0) \<and> (\<forall>i. r \<le> i \<and> i < fin \<longrightarrow> cmp (?xs ! i) v \<ge> 0)"
      proof (rule "1.IH"(1) [OF True refl refl cmp])
        show "cmp (?xs ! ?mid) v \<noteq> 0" "cmp (?xs ! ?mid) v > 0" using gt by simp_all
      qed (use "1.prems" mid pos in auto)
      then show ?thesis using True gt cmp by (simp add: step Let_def)
    next
      case lt
      have "cmp (?xs ! i) v < 0" if "lo \<le> i" "i < ?mid + 1" for i
        using below [of i] that lt by (simp add: sgn_if split: if_splits)
      then have neg: "\<forall>i. lo \<le> i \<and> i < ?mid + 1 \<longrightarrow> cmp (?xs ! i) v < 0" by blast
      have "\<exists>r. lowerbound_search c cmp v (?mid + 1) (len - (len div 2 + 1)) = Some r \<and> lo \<le> r \<and> r \<le> fin \<and>
        (\<forall>i. lo \<le> i \<and> i < r \<longrightarrow> cmp (?xs ! i) v \<le> 0) \<and> (\<forall>i. r \<le> i \<and> i < fin \<longrightarrow> cmp (?xs ! i) v \<ge> 0)"
      proof (rule "1.IH"(2) [OF True refl refl cmp])
        show "cmp (?xs ! ?mid) v \<noteq> 0" "\<not> cmp (?xs ! ?mid) v > 0" using lt by simp_all
      qed (use "1.prems" mid neg in auto)
      then show ?thesis using True lt cmp by (simp add: step Let_def)
    qed
  qed
qed

lemma lowerbound_back_ok:
  assumes "ccarray_inv c" "b \<le> arr_size c" "lo \<le> b"
    and "\<forall>i. lo \<le> i \<and> i < b \<longrightarrow> cmp (ccarray_list c ! i) v \<le> 0"
    and "cmp_ordered cmp (ccarray_list c) lo b v"
  shows "\<exists>r. lowerbound_back c cmp v lo b = Some r \<and> lo \<le> r \<and> r \<le> b \<and>
     (\<forall>i. lo \<le> i \<and> i < r \<longrightarrow> cmp (ccarray_list c ! i) v < 0) \<and>
     (\<forall>i. r \<le> i \<and> i < b \<longrightarrow> cmp (ccarray_list c ! i) v = 0)"
  using assms
proof (induction b)
  case 0
  then show ?case by simp
next
  case (Suc b)
  let ?xs = "ccarray_list c"
  show ?case
  proof (cases "Suc b > lo")
    case False
    with Suc.prems show ?thesis by auto
  next
    case True
    have cmp: "ccarray_cmp cmp c b v = Some (cmp (?xs ! b) v)"
      using Suc.prems by (simp add: conts_simps)
    show ?thesis
    proof (cases "cmp (?xs ! b) v = 0")
      case eq: True
      have "cmp_ordered cmp ?xs lo b v" using Suc.prems(5) by (auto simp: cmp_ordered_def)
      with Suc.IH Suc.prems True obtain r where
        "lowerbound_back c cmp v lo b = Some r" "lo \<le> r" "r \<le> b"
        "\<forall>i. lo \<le> i \<and> i < r \<longrightarrow> cmp (?xs ! i) v < 0" "\<forall>i. r \<le> i \<and> i < b \<longrightarrow> cmp (?xs ! i) v = 0" by auto
      with True eq cmp show ?thesis by (auto simp: less_Suc_eq)
    next
      case False
      then have lt: "cmp (?xs ! b) v < 0" using Suc.prems(4) True by (simp add: order_less_le)
      have "cmp (?xs ! i) v < 0" if "lo \<le> i" "i < Suc b" for i
        using cmp_orderedD [OF Suc.prems(5), of i b] that lt by (simp add: sgn_if split: if_splits)
      with True False cmp show ?thesis by auto
    qed
  qed
qed

text \<open>
  C17. On a range of an array that is ordered for the searched value, \<open>ccarray_lowerbound\<close> stays
  inside of the array and returns the first position of the range whose item does not compare
  below the value (the end of the range if there is none), whichever equal item the binary search
  hit first.
\<close>

theorem ccarray_lowerbound_correct:
  assumes "ccarray_inv c" "beg \<le> fin" "fin \<le> arr_size c"
    and "cmp_ordered cmp (ccarray_list c) beg fin v"
  shows "\<exists>r. ccarray_lowerbound c beg fin cmp v = Some r \<and> beg \<le> r \<and> r \<le> fin \<and>
     (\<forall>i. beg \<le> i \<and> i < r \<longrightarrow> cmp (ccarray_list c ! i) v < 0) \<and>
     (\<forall>i. r \<le> i \<and> i < fin \<longrightarrow> cmp (ccarray_list c ! i) v \<ge> 0)"
proof -
  let ?xs = "ccarray_list c"
  from lowerbound_search_ok [of c beg "fin - beg" fin beg cmp v] assms obtain b where
    b: "lowerbound_search c cmp v beg (fin - beg) = Some b" "beg \<le> b" "b \<le> fin"
      "\<forall>i. beg \<le> i \<and> i < b \<longrightarrow> cmp (?xs ! i) v \<le> 0" "\<forall>i. b \<le> i \<and> i < fin \<longrightarrow> cmp (?xs ! i) v \<ge> 0"
    by auto
  have "cmp_ordered cmp ?xs beg b v" using assms(4) b(3) by (auto simp: cmp_ordered_def)
  with lowerbound_back_ok [of c b beg cmp v] assms b obtain r where
    "lowerbound_back c cmp v beg b = Some r" "beg \<le> r" "r \<le> b"
    "\<forall>i. beg \<le> i \<and> i < r \<longrightarrow> cmp (?xs ! i) v < 0" "\<forall>i. r \<le> i \<and> i < b \<longrightarrow> cmp (?xs ! i) v = 0"
    by auto
  moreover from this b have "\<forall>i. r \<le> i \<and> i < fin \<longrightarrow> cmp (?xs ! i) v \<ge> 0"
    by (metis not_le order_refl)
  ultimately show ?thesis using b assms(2) by (auto simp: ccarray_lowerbound_def)
qed

definition example_array :: "int ccarray" where
  "example_array = \<lparr>arr_items = Some [Some 1, Some 4, Some 4, Some 4, Some 9, None],
                    arr_capacity = 6, arr_size = 5, arr_item_size = 8\<rparr>"

lemma example_array_facts:
  "ccarray_inv example_array" "ccarray_list example_array = [1, 4, 4, 4, 9]"
  "arr_size example_array = 5"
  by (auto simp: example_array_def ccarray_inv_def ccarray_list_def less_Suc_eq numeral_eq_Suc)

theorem ccarray_lowerbound_correct_witness:
  "ccarray_lowerbound example_array 0 5 (-) 4 = Some 1"
proof -
  have "cmp_ordered (-) (ccarray_list example_array) 0 5 4"
    by (simp add: cmp_ordered_def example_array_facts atLeastLessThan_nat_numeral
        atLeastLessThanSuc numeral_eq_Suc)
  from ccarray_lowerbound_correct [OF example_array_facts(1) _ _ this] obtain r where
    r: "ccarray_lowerbound example_array 0 5 (-) 4 = Some r" "r \<le> 5"
      "\<forall>i<r. [1, 4, 4, 4, 9::int] ! i - 4 < 0" "\<forall>i. r \<le> i \<and> i < 5 \<longrightarrow> [1, 4, 4, 4, 9::int] ! i - 4 \<ge> 0"
    by (auto simp: example_array_facts)
  have "\<not> 1 < r" using r(3) [rule_format, of 1] by auto
  moreover have "r \<noteq> 0" using r(4) [rule_format, of 0] by auto
  ultimately show ?thesis using r(1) by (metis less_one linorder_neqE_nat)
qed

section \<open>The interface of a bounded registry\<close>

text \<open>
  What the channel and the server rely on for the arrays that register their streams and ports.
\<close>

locale bounded_vector =
  fixes vpush :: "'v \<Rightarrow> 'a \<Rightarrow> (nat \<times> 'v) ub"
    and verase :: "'v \<Rightarrow> 'a \<Rightarrow> (nat \<times> 'v) ub"
    and vlist :: "'v \<Rightarrow> 'a list"
    and vcap :: "'v \<Rightarrow> nat"
    and vinv :: "'v \<Rightarrow> bool"
  assumes vlist_le: "vinv v \<Longrightarrow> length (vlist v) \<le> vcap v"
    and vpush_full: "vinv v \<Longrightarrow> length (vlist v) = vcap v \<Longrightarrow> vpush v x = Some (size_max, v)"
    and vpush_ok: "vinv v \<Longrightarrow> length (vlist v) < vcap v \<Longrightarrow>
      \<exists>v'. vpush v x = Some (length (vlist v), v') \<and> vinv v' \<and> vlist v' = vlist v @ [x] \<and> vcap v' = vcap v"
    and verase_ok: "vinv v \<Longrightarrow>
      \<exists>r v'. verase v x = Some (r, v') \<and> vinv v' \<and> vlist v' = remove1 x (vlist v) \<and> vcap v' = vcap v"

datatype 'a vector_op = VPush 'a | VErase 'a

fun vector_run ::
  "('v \<Rightarrow> 'a \<Rightarrow> (nat \<times> 'v) ub) \<Rightarrow> ('v \<Rightarrow> 'a \<Rightarrow> (nat \<times> 'v) ub) \<Rightarrow> 'v \<Rightarrow> 'a vector_op list \<Rightarrow> 'v ub" where
  "vector_run pu er v [] = Some v"
| "vector_run pu er v (VPush x # ops) = do { (_, v') \<leftarrow> pu v x; vector_run pu er v' ops }"
| "vector_run pu er v (VErase x # ops) = do { (_, v') \<leftarrow> er v x; vector_run pu er v' ops }"

fun vector_spec :: "nat \<Rightarrow> 'a list \<Rightarrow> 'a vector_op list \<Rightarrow> 'a list" where
  "vector_spec cap xs [] = xs"
| "vector_spec cap xs (VPush x # ops) = vector_spec cap (if length xs < cap then xs @ [x] else xs) ops"
| "vector_spec cap xs (VErase x # ops) = vector_spec cap (remove1 x xs) ops"

context bounded_vector
begin

lemma vector_run_spec:
  assumes "vinv v"
  shows "\<exists>v'. vector_run vpush verase v ops = Some v' \<and> vinv v' \<and> vcap v' = vcap v \<and>
    vlist v' = vector_spec (vcap v) (vlist v) ops"
  using assms
proof (induction ops arbitrary: v)
  case Nil
  then show ?case by simp
next
  case (Cons op ops)
  show ?case
  proof (cases op)
    case (VPush x)
    show ?thesis
    proof (cases "length (vlist v) < vcap v")
      case True
      from vpush_ok [OF Cons.prems True, of x] obtain v' where
        "vpush v x = Some (length (vlist v), v')" "vinv v'" "vlist v' = vlist v @ [x]" "vcap v' = vcap v"
        by blast
      with Cons.IH [of v'] VPush True show ?thesis by simp
    next
      case False
      with vlist_le [OF Cons.prems] have "length (vlist v) = vcap v" by simp
      from vpush_full [OF Cons.prems this] Cons.IH [OF Cons.prems] VPush False show ?thesis by simp
    qed
  next
    case (VErase x)
    from verase_ok [OF Cons.prems, of x] obtain r v' where
      "verase v x = Some (r, v')" "vinv v'" "vlist v' = remove1 x (vlist v)" "vcap v' = vcap v"
      by blast
    with Cons.IH [of v'] VErase show ?thesis by simp
  qed
qed

end

interpretation arr: bounded_vector ccarray_push_back ccarray_erase_item ccarray_list arr_capacity ccarray_inv
proof (unfold_locales, goal_cases)
  case (1 v) then show ?case by (simp add: conts_simps) (simp add: ccarray_inv_def)
next
  case (2 v x) then show ?case by (simp add: conts_simps ccarray_push_back_full)
next
  case (3 v x) then show ?case using ccarray_push_back_ok [of v x] by (simp add: conts_simps)
next
  case (4 v x) then show ?case by (rule ccarray_erase_item_ok)
qed

text \<open>
  From a successful \<open>ccarray_init\<close>, any sequence of \<open>ccarray_push_back\<close> and
  \<open>ccarray_erase_item\<close> calls stays inside of the allocated buffer and keeps the items of the
  same sequence on a list: a push beyond the capacity is rejected, an erase removes the first
  occurrence and keeps the order of the rest.
\<close>

theorem ccarray_refines_list:
  assumes "ccarray_init malloc_ok (Some c) n sz = (True, c0)" and "0 < sz" "n * sz < 2 ^ 64"
  shows "\<exists>a v'. c0 = Some a \<and> vector_run ccarray_push_back ccarray_erase_item a ops = Some v' \<and>
     ccarray_inv v' \<and> arr_capacity v' = n \<and> ccarray_list v' = vector_spec n [] ops"
proof -
  from ccarray_init_inv [OF assms] obtain a where
    a: "c0 = Some a" "ccarray_inv a" "ccarray_list a = []" "arr_capacity a = n" by blast
  from arr.vector_run_spec [OF a(2), of ops] a show ?thesis by auto
qed

theorem ccarray_refines_list_witness:
  "\<exists>a v'. ccarray_init (\<lambda>_. True) (Some (example_array)) 2 8 = (True, Some a) \<and>
     vector_run ccarray_push_back ccarray_erase_item a [VPush 3, VPush 4, VPush 5, VErase 3] = Some v' \<and>
     ccarray_list v' = [4]"
proof -
  obtain a where a: "ccarray_init (\<lambda>_. True) (Some example_array) 2 8 = (True, Some a)"
    by (simp add: ccarray_init_def)
  from ccarray_refines_list [OF a, of "[VPush 3, VPush 4, VPush 5, VErase 3]"] a
  show ?thesis by auto
qed

text \<open>
  \<open>ccarray_push_front\<close> stores the item in front but leaves the size as it was, so the array
  loses its last item instead of growing.
\<close>

lemma ccarray_push_front_drops_last:
  assumes inv: "ccarray_inv c" and room: "arr_size c < arr_capacity c" and ne: "arr_size c \<noteq> 0"
  shows "\<exists>c'. ccarray_push_front c x = Some (0, c') \<and> arr_size c' = arr_size c \<and>
     ccarray_list c' = x # butlast (ccarray_list c)"
proof -
  from inv obtain items where it: "arr_items c = Some items" "length items = arr_capacity c"
    "0 < arr_item_size c" by (rule ccarray_invD)
  obtain items' where m: "memmove_items items 1 0 (arr_size c) = Some items'"
    using it room by (simp add: memmove_items_def)
  note len = length_memmove_items [OF m] and nth = nth_memmove_items [OF m]
  let ?c = "c\<lparr>arr_items := Some (items'[0 := Some x])\<rparr>"
  have "ccarray_push_front c x = Some (0, ?c)"
    using room it m len by (auto simp: ccarray_push_front_def)
  moreover have "ccarray_inv ?c \<and> ccarray_list ?c = x # butlast (ccarray_list c)"
    using inv it room ne len
    by (intro ccarray_eqI [where items' = "items'[0 := Some x]"])
      (auto simp: conts_simps nth_Cons' nth_list_update nth nth_butlast ccarray_list_items)
  ultimately show ?thesis by simp
qed

end
