(* ===== verification/Hash.thy ===== *)
theory Hash
  imports Prelude "HOL-Library.Monad_Syntax"
begin

text \<open>
  The hashes of src/hash: the table-driven CRC-32C of crc32.c, djb2.c and sdbm.c. The theory
  gives the routines with their tables, the bit-serial CRC-32C they are compared with, the
  linearity of the CRC register over exclusive or, and the closed forms of the two
  multiplicative hashes.
\<close>

section \<open>Byte order and C strings\<close>

text \<open>
  \<open>BYTE_ORDER\<close> of the host. \<open>htobe32\<close> swaps the bytes on a little-endian host and is the
  identity on a big-endian one.
\<close>

datatype byte_order = LITTLE_ENDIAN | BIG_ENDIAN

definition bswap32 :: "u32 \<Rightarrow> u32" where
  "bswap32 w = push_bit 24 (w AND 0xFF) OR push_bit 8 (w AND 0xFF00) OR
               (drop_bit 8 w AND 0xFF00) OR drop_bit 24 w"

definition htobe32 :: "byte_order \<Rightarrow> u32 \<Rightarrow> u32" where
  "htobe32 ord w = (case ord of LITTLE_ENDIAN \<Rightarrow> bswap32 w | BIG_ENDIAN \<Rightarrow> w)"

text \<open>
  A C string is the memory from its address on; without a terminating zero byte in it the
  walk leaves the object.
\<close>

fun c_strlen :: "u8 list \<Rightarrow> nat ub" where
  "c_strlen [] = None"
| "c_strlen (b # bs) = (if b = 0 then Some 0 else map_option Suc (c_strlen bs))"

lemma c_strlen_Some:
  "c_strlen bs = Some n \<longleftrightarrow> n < length bs \<and> bs ! n = 0 \<and> 0 \<notin> set (take n bs)"
proof (induction bs arbitrary: n)
  case Nil
  then show ?case by simp
next
  case (Cons b bs)
  show ?case
  proof (cases n)
    case 0
    then show ?thesis by (cases "b = 0") simp_all
  next
    case (Suc k)
    with Cons.IH [of k] show ?thesis by (cases "b = 0") simp_all
  qed
qed

section \<open>CRC-32C\<close>

definition CRC32BASE :: u32 where
  "CRC32BASE = 0xffffffff"

definition crc_c :: "u32 list" where
  "crc_c = [
    0x00000000, 0xF26B8303, 0xE13B70F7, 0x1350F3F4, 0xC79A971F, 0x35F1141C, 0x26A1E7E8, 0xD4CA64EB,
    0x8AD958CF, 0x78B2DBCC, 0x6BE22838, 0x9989AB3B, 0x4D43CFD0, 0xBF284CD3, 0xAC78BF27, 0x5E133C24,
    0x105EC76F, 0xE235446C, 0xF165B798, 0x030E349B, 0xD7C45070, 0x25AFD373, 0x36FF2087, 0xC494A384,
    0x9A879FA0, 0x68EC1CA3, 0x7BBCEF57, 0x89D76C54, 0x5D1D08BF, 0xAF768BBC, 0xBC267848, 0x4E4DFB4B,
    0x20BD8EDE, 0xD2D60DDD, 0xC186FE29, 0x33ED7D2A, 0xE72719C1, 0x154C9AC2, 0x061C6936, 0xF477EA35,
    0xAA64D611, 0x580F5512, 0x4B5FA6E6, 0xB93425E5, 0x6DFE410E, 0x9F95C20D, 0x8CC531F9, 0x7EAEB2FA,
    0x30E349B1, 0xC288CAB2, 0xD1D83946, 0x23B3BA45, 0xF779DEAE, 0x05125DAD, 0x1642AE59, 0xE4292D5A,
    0xBA3A117E, 0x4851927D, 0x5B016189, 0xA96AE28A, 0x7DA08661, 0x8FCB0562, 0x9C9BF696, 0x6EF07595,
    0x417B1DBC, 0xB3109EBF, 0xA0406D4B, 0x522BEE48, 0x86E18AA3, 0x748A09A0, 0x67DAFA54, 0x95B17957,
    0xCBA24573, 0x39C9C670, 0x2A993584, 0xD8F2B687, 0x0C38D26C, 0xFE53516F, 0xED03A29B, 0x1F682198,
    0x5125DAD3, 0xA34E59D0, 0xB01EAA24, 0x42752927, 0x96BF4DCC, 0x64D4CECF, 0x77843D3B, 0x85EFBE38,
    0xDBFC821C, 0x2997011F, 0x3AC7F2EB, 0xC8AC71E8, 0x1C661503, 0xEE0D9600, 0xFD5D65F4, 0x0F36E6F7,
    0x61C69362, 0x93AD1061, 0x80FDE395, 0x72966096, 0xA65C047D, 0x5437877E, 0x4767748A, 0xB50CF789,
    0xEB1FCBAD, 0x197448AE, 0x0A24BB5A, 0xF84F3859, 0x2C855CB2, 0xDEEEDFB1, 0xCDBE2C45, 0x3FD5AF46,
    0x7198540D, 0x83F3D70E, 0x90A324FA, 0x62C8A7F9, 0xB602C312, 0x44694011, 0x5739B3E5, 0xA55230E6,
    0xFB410CC2, 0x092A8FC1, 0x1A7A7C35, 0xE811FF36, 0x3CDB9BDD, 0xCEB018DE, 0xDDE0EB2A, 0x2F8B6829,
    0x82F63B78, 0x709DB87B, 0x63CD4B8F, 0x91A6C88C, 0x456CAC67, 0xB7072F64, 0xA457DC90, 0x563C5F93,
    0x082F63B7, 0xFA44E0B4, 0xE9141340, 0x1B7F9043, 0xCFB5F4A8, 0x3DDE77AB, 0x2E8E845F, 0xDCE5075C,
    0x92A8FC17, 0x60C37F14, 0x73938CE0, 0x81F80FE3, 0x55326B08, 0xA759E80B, 0xB4091BFF, 0x466298FC,
    0x1871A4D8, 0xEA1A27DB, 0xF94AD42F, 0x0B21572C, 0xDFEB33C7, 0x2D80B0C4, 0x3ED04330, 0xCCBBC033,
    0xA24BB5A6, 0x502036A5, 0x4370C551, 0xB11B4652, 0x65D122B9, 0x97BAA1BA, 0x84EA524E, 0x7681D14D,
    0x2892ED69, 0xDAF96E6A, 0xC9A99D9E, 0x3BC21E9D, 0xEF087A76, 0x1D63F975, 0x0E330A81, 0xFC588982,
    0xB21572C9, 0x407EF1CA, 0x532E023E, 0xA145813D, 0x758FE5D6, 0x87E466D5, 0x94B49521, 0x66DF1622,
    0x38CC2A06, 0xCAA7A905, 0xD9F75AF1, 0x2B9CD9F2, 0xFF56BD19, 0x0D3D3E1A, 0x1E6DCDEE, 0xEC064EED,
    0xC38D26C4, 0x31E6A5C7, 0x22B65633, 0xD0DDD530, 0x0417B1DB, 0xF67C32D8, 0xE52CC12C, 0x1747422F,
    0x49547E0B, 0xBB3FFD08, 0xA86F0EFC, 0x5A048DFF, 0x8ECEE914, 0x7CA56A17, 0x6FF599E3, 0x9D9E1AE0,
    0xD3D3E1AB, 0x21B862A8, 0x32E8915C, 0xC083125F, 0x144976B4, 0xE622F5B7, 0xF5720643, 0x07198540,
    0x590AB964, 0xAB613A67, 0xB831C993, 0x4A5A4A90, 0x9E902E7B, 0x6CFBAD78, 0x7FAB5E8C, 0x8DC0DD8F,
    0xE330A81A, 0x115B2B19, 0x020BD8ED, 0xF0605BEE, 0x24AA3F05, 0xD6C1BC06, 0xC5914FF2, 0x37FACCF1,
    0x69E9F0D5, 0x9B8273D6, 0x88D28022, 0x7AB90321, 0xAE7367CA, 0x5C18E4C9, 0x4F48173D, 0xBD23943E,
    0xF36E6F75, 0x0105EC76, 0x12551F82, 0xE03E9C81, 0x34F4F86A, 0xC69F7B69, 0xD5CF889D, 0x27A40B9E,
    0x79B737BA, 0x8BDCB4B9, 0x988C474D, 0x6AE7C44E, 0xBE2DA0A5, 0x4C4623A6, 0x5F16D052, 0xAD7D5351]"

definition SCTP_CRC32C :: "u32 \<Rightarrow> u8 \<Rightarrow> u32" where
  "SCTP_CRC32C c d = drop_bit 8 c XOR crc_c ! unat ((c XOR ucast d) AND 0xFF)"

definition cf_crc32_begin :: u32 where
  "cf_crc32_begin = CRC32BASE"

fun cf_crc32_update :: "u32 \<Rightarrow> u8 list \<Rightarrow> u32" where
  "cf_crc32_update crc [] = crc"
| "cf_crc32_update crc (b # bs) = cf_crc32_update (SCTP_CRC32C crc b) bs"

definition cf_crc32_update_s :: "u32 \<Rightarrow> u8 list \<Rightarrow> u32 ub" where
  "cf_crc32_update_s crc mem =
     do { n \<leftarrow> c_strlen mem; Some (cf_crc32_update crc (take n mem)) }"

definition cf_crc32_finalize :: "byte_order \<Rightarrow> u32 \<Rightarrow> u32" where
  "cf_crc32_finalize ord crc =
     (let crc = NOT crc in case ord of LITTLE_ENDIAN \<Rightarrow> crc | BIG_ENDIAN \<Rightarrow> htobe32 ord crc)"

definition cf_crc32 :: "byte_order \<Rightarrow> u8 list \<Rightarrow> u32" where
  "cf_crc32 ord bs = cf_crc32_finalize ord (cf_crc32_update cf_crc32_begin bs)"

lemma cf_crc32_finalize_not [simp]: "cf_crc32_finalize ord crc = NOT crc"
  by (cases ord) (simp_all add: cf_crc32_finalize_def htobe32_def)

lemma cf_crc32_update_append [simp]:
  "cf_crc32_update crc (as @ bs) = cf_crc32_update (cf_crc32_update crc as) bs"
  by (induction as arbitrary: crc) auto

subsection \<open>The bit-serial register\<close>

text \<open>
  One clock of the CRC-32C shift register in reflected bit order: the low bit is shifted out and,
  when it is set, the reversed Castagnoli polynomial 0x1EDC6F41 is added.
\<close>

definition crc_clock :: "u32 \<Rightarrow> u32" where
  "crc_clock c = drop_bit 1 c XOR (if bit c 0 then 0x82F63B78 else 0)"

definition crc_serial :: "u32 \<Rightarrow> u8 list \<Rightarrow> u32" where
  "crc_serial c bs = fold (\<lambda>b c. (crc_clock ^^ 8) (c XOR ucast b)) bs c"

lemma crc_clock_xor: "crc_clock (a XOR b) = crc_clock a XOR crc_clock b"
  by (simp add: crc_clock_def bit_xor_iff drop_bit_xor ac_simps)

lemma crc_clocks_xor: "(crc_clock ^^ n) (a XOR b) = (crc_clock ^^ n) a XOR (crc_clock ^^ n) b"
  by (induction n) (simp_all add: crc_clock_xor)

lemma crc_clock_even: "\<not> bit c 0 \<Longrightarrow> crc_clock c = drop_bit 1 c"
  by (simp add: crc_clock_def)

lemma crc_clocks_high:
  assumes "\<forall>i<n. \<not> bit c i"
  shows "(crc_clock ^^ n) c = drop_bit n c"
  using assms
proof (induction n)
  case 0
  then show ?case by simp
next
  case (Suc n)
  then have "(crc_clock ^^ n) c = drop_bit n c" "\<not> bit (drop_bit n c) 0"
    by (simp_all add: bit_drop_bit_eq)
  then show ?case by (simp add: crc_clock_even)
qed

lemma inj_crc_clock: "inj crc_clock"
proof (rule injI)
  fix a b
  assume eq: "crc_clock a = crc_clock b"
  have top: "bit (crc_clock c) 31 = bit c 0" for c
    using bit_imp_le_length [of c 32] by (auto simp: crc_clock_def bit_simps)
  have low: "bit a 0 = bit b 0" using top [of a] top [of b] eq by simp
  have "drop_bit 1 c = crc_clock c XOR (if bit c 0 then 0x82F63B78 else 0)" for c
    by (simp add: crc_clock_def xor.assoc)
  with eq low have shift: "drop_bit 1 a = drop_bit 1 b" by simp
  show "a = b"
  proof (rule bit_word_eqI)
    fix n assume "n < LENGTH(32)"
    show "bit a n = bit b n"
      using low arg_cong [OF shift, of "\<lambda>w. bit w (n - 1)"]
      by (cases n) (simp_all add: bit_drop_bit_eq)
  qed
qed

lemma inj_crc_clocks: "inj (crc_clock ^^ n)"
proof (induction n)
  case (Suc n)
  then show ?case using inj_compose [OF inj_crc_clock Suc] by (simp only: funpow.simps)
qed simp

text \<open>
  The table is the exclusive-or span of its entries at the powers of two, and so is the image of
  the byte values under any map that is linear over exclusive or.
\<close>

fun xor_span :: "u32 list \<Rightarrow> u32 list" where
  "xor_span [] = [0]"
| "xor_span (b # bs) = xor_span bs @ map (\<lambda>x. b XOR x) (xor_span bs)"

lemma crc_c_span:
  "crc_c = xor_span [0x82F63B78, 0x417B1DBC, 0x20BD8EDE, 0x105EC76F, 0x8AD958CF, 0xC79A971F,
                     0xE13B70F7, 0xF26B8303]"
  by (simp add: crc_c_def)


lemma of_nat_plus_power_xor:
  assumes "i < 2 ^ n" "n < 32"
  shows "(of_nat (2 ^ n + i) :: u32) = 2 ^ n XOR of_nat i"
proof -
  have "(2 ^ n :: u32) AND of_nat i = 0"
  proof (rule bit_word_eqI)
    fix m assume "m < LENGTH(32)"
    have "\<not> bit i n" using assms(1) by (simp add: bit_iff_odd)
    then show "bit ((2 ^ n :: u32) AND of_nat i) m = bit 0 m"
      by (auto simp: bit_simps)
  qed
  then show ?thesis by (simp add: disjunctive_add_eq_xor)
qed

lemma xor_span_linear:
  assumes lin: "\<forall>a b :: u32. f (a XOR b) = f a XOR f b" and "n \<le> 32"
  shows "map (\<lambda>i. f (of_nat i)) [0..<2 ^ n] = xor_span (map (\<lambda>k. f (2 ^ k)) (rev [0..<n]))"
  using assms(2)
proof (induction n)
  case 0
  have "f 0 = 0" using lin [rule_format, of 0 0] by simp
  then show ?case by simp
next
  case (Suc n)
  have "[0..<2 ^ Suc n] = [0..<2 ^ n] @ map (\<lambda>i. 2 ^ n + i) [0..<2 ^ n]"
    using upt_add_eq_append [of 0 "2 ^ n" "2 ^ n"] map_add_upt [of "2 ^ n" "2 ^ n"]
    by (simp add: mult_2 add.commute)
  moreover have "f (of_nat (2 ^ n + i)) = f (2 ^ n) XOR f (of_nat i)" if "i < 2 ^ n" for i
    using of_nat_plus_power_xor [of i n] that Suc.prems lin by simp
  ultimately show ?case using Suc.IH [symmetric] Suc.prems by (simp del: of_nat_add)
qed

lemma crc_clock_values:
  "crc_clock 1 = 0x82F63B78"
  "crc_clock 0x82F63B78 = 0x417B1DBC"
  "crc_clock 0x417B1DBC = 0x20BD8EDE"
  "crc_clock 0x20BD8EDE = 0x105EC76F"
  "crc_clock 0x105EC76F = 0x8AD958CF"
  "crc_clock 0x8AD958CF = 0xC79A971F"
  "crc_clock 0xC79A971F = 0xE13B70F7"
  "crc_clock 0xE13B70F7 = 0xF26B8303"
  "crc_clock 2 = 1"
  "crc_clock 4 = 2"
  "crc_clock 8 = 4"
  "crc_clock 16 = 8"
  "crc_clock 32 = 16"
  "crc_clock 64 = 32"
  "crc_clock 128 = 64"
  by (simp_all add: crc_clock_def bit_0)

lemma funpow_8: "(f ^^ 8) x = f (f (f (f (f (f (f (f x)))))))"
  by (simp add: eval_nat_numeral)

lemma crc_clocks_powers:
  "map (\<lambda>k. (crc_clock ^^ 8) (2 ^ k)) (rev [0..<8]) =
     [0x82F63B78, 0x417B1DBC, 0x20BD8EDE, 0x105EC76F, 0x8AD958CF, 0xC79A971F,
      0xE13B70F7, 0xF26B8303]"
  proof -
  have "rev [0..<8] = [7, 6, 5, 4, 3, 2, 1, 0 :: nat]" by (simp add: upt_rec)
  then show ?thesis by (simp add: funpow_8 crc_clock_values)
qed

lemma crc_c_table: "crc_c = map (\<lambda>i. (crc_clock ^^ 8) (of_nat i)) [0..<256]"
  using xor_span_linear [of "crc_clock ^^ 8" 8] crc_clocks_powers
  by (simp add: crc_clocks_xor crc_c_span)


text \<open>One table step is eight clocks of the register with the byte added to its low end.\<close>

lemma SCTP_CRC32C_clocks: "SCTP_CRC32C c d = (crc_clock ^^ 8) (c XOR ucast d)"
proof -
  let ?x = "c XOR ucast d"
  let ?lo = "?x AND 0xFF" and ?hi = "?x AND NOT 0xFF"
  have "?x = ?hi XOR ?lo" by (rule bit_word_eqI) (simp add: bit_simps, blast)
  then have split: "(crc_clock ^^ 8) ?x = (crc_clock ^^ 8) ?hi XOR (crc_clock ^^ 8) ?lo"
    by (metis crc_clocks_xor)
  have mask: "(0xFF :: u32) = mask 8" by (simp add: mask_eq_exp_minus_1)
  have "(crc_clock ^^ 8) ?hi = drop_bit 8 ?hi"
    by (rule crc_clocks_high) (simp add: mask bit_simps)
  also have "drop_bit 8 ?hi = drop_bit 8 c"
    by (rule bit_word_eqI) (auto simp: mask bit_simps dest: bit_imp_le_length)
  finally have hi: "(crc_clock ^^ 8) ?hi = drop_bit 8 c" .
  have "unat ?lo < 256"
    unfolding mask using and_mask_less' [of 8 ?x] by (simp add: word_less_nat_alt)
  then have "crc_c ! unat ?lo = (crc_clock ^^ 8) ?lo" by (simp add: crc_c_table)
  with split hi show ?thesis by (simp add: SCTP_CRC32C_def)
qed

lemma cf_crc32_update_serial: "cf_crc32_update crc bs = crc_serial crc bs"
  by (induction bs arbitrary: crc) (simp_all add: crc_serial_def SCTP_CRC32C_clocks)


text \<open>The register after at most four bytes is one linear map of the register and the packed bytes.\<close>

fun pack_le :: "u8 list \<Rightarrow> u32" where
  "pack_le [] = 0"
| "pack_le (b # bs) = ucast b XOR push_bit 8 (pack_le bs)"

lemma bit_pack_le: "bit (pack_le bs) n \<longleftrightarrow> n < 32 \<and> n div 8 < length bs \<and> bit (bs ! (n div 8)) (n mod 8)"
proof (induction bs arbitrary: n)
  case Nil
  then show ?case by simp
next
  case (Cons b bs)
  show ?case
  proof (cases "n < 8")
    case True
    then show ?thesis by (simp add: bit_simps)
  next
    case False
    then obtain k where n: "n = 8 + k" by (metis add.commute le_Suc_ex not_less)
    have "\<not> bit b n" using False by (auto dest: bit_imp_le_length)
    moreover have "n div 8 = Suc (k div 8)" "n mod 8 = k mod 8" using n by simp_all
    ultimately show ?thesis using n Cons.IH [of k] by (auto simp: bit_simps)
  qed
qed

lemma pack_le_inj:
  assumes "pack_le xs = pack_le ys" "length xs = length ys" "length xs \<le> 4"
  shows "xs = ys"
proof (rule nth_equalityI)
  show "length xs = length ys" by fact
  fix i assume i: "i < length xs"
  show "xs ! i = ys ! i"
  proof (rule bit_word_eqI)
    fix m assume m: "m < LENGTH(8)"
    then have "(8 * i + m) div 8 = i" "(8 * i + m) mod 8 = m" "8 * i + m < 32" using i assms(3) by auto
    with bit_pack_le [of xs "8 * i + m"] bit_pack_le [of ys "8 * i + m"] assms i
    show "bit (xs ! i) m = bit (ys ! i) m" by simp
  qed
qed

lemma cf_crc32_update_packed:
  assumes "length bs \<le> 4"
  shows "cf_crc32_update crc bs = ((crc_clock ^^ 8) ^^ length bs) (crc XOR pack_le bs)"
  using assms
proof (induction bs arbitrary: crc)
  case Nil
  then show ?case by simp
next
  case (Cons b bs)
  let ?F = "crc_clock ^^ 8"
  have "?F (push_bit 8 (pack_le bs)) = drop_bit 8 (push_bit 8 (pack_le bs))"
    by (rule crc_clocks_high) (simp add: bit_simps)
  also have "\<dots> = pack_le bs"
    using Cons.prems by (intro bit_word_eqI) (auto simp: bit_simps bit_pack_le)
  finally have shifted: "?F (push_bit 8 (pack_le bs)) = pack_le bs" .
  have "crc XOR pack_le (b # bs) = (crc XOR ucast b) XOR push_bit 8 (pack_le bs)"
    by (simp only: pack_le.simps xor.assoc)
  then have "?F (crc XOR pack_le (b # bs)) = ?F (crc XOR ucast b) XOR pack_le bs"
    by (simp only: crc_clocks_xor shifted)
  with Cons show ?case by (simp only: cf_crc32_update.simps SCTP_CRC32C_clocks list.size funpow_Suc_right
        o_apply add_Suc_right add_0_right Suc_le_mono)
qed

lemma xor_right_cancel: "a XOR c = b XOR c \<Longrightarrow> a = (b :: 'a :: len word)"
  by (metis xor.assoc xor.right_neutral xor_self_eq)

lemma inj_SCTP_CRC32C: "inj (\<lambda>c. SCTP_CRC32C c d)"
proof (rule injI)
  fix a b
  assume "SCTP_CRC32C a d = SCTP_CRC32C b d"
  then have "a XOR ucast d = b XOR ucast d"
    unfolding SCTP_CRC32C_clocks by (rule injD [OF inj_crc_clocks])
  then show "a = b" by (rule xor_right_cancel)
qed

lemma cf_crc32_update_inj: "cf_crc32_update a bs = cf_crc32_update b bs \<Longrightarrow> a = b"
proof (induction bs arbitrary: a b)
  case Nil
  then show ?case by simp
next
  case (Cons d bs)
  then show ?case using inj_SCTP_CRC32C [of d] by (auto dest: injD)
qed

lemma cf_crc32_update_burst:
  assumes "length xs = length ys" "length xs \<le> 4" "xs \<noteq> ys"
  shows "cf_crc32_update c (xs @ post) \<noteq> cf_crc32_update c (ys @ post)"
proof
  assume "cf_crc32_update c (xs @ post) = cf_crc32_update c (ys @ post)"
  then have "cf_crc32_update c xs = cf_crc32_update c ys"
    unfolding cf_crc32_update_append by (rule cf_crc32_update_inj)
  with assms(1,2) have "((crc_clock ^^ 8) ^^ length ys) (c XOR pack_le xs) =
      ((crc_clock ^^ 8) ^^ length ys) (c XOR pack_le ys)"
    by (simp only: cf_crc32_update_packed)
  moreover have "inj ((crc_clock ^^ 8) ^^ length ys)"
    using inj_crc_clocks [of "8 * length ys"] by (simp only: funpow_mult mult.commute)
  ultimately have "c XOR pack_le xs = c XOR pack_le ys" by (blast dest: injD)
  then have "pack_le xs = pack_le ys" by (simp only: xor.commute [of c] xor_right_cancel)
  from pack_le_inj [OF this assms(1,2)] assms(3) show False by contradiction
qed

text \<open>
  The checksum detects every corruption that is confined to at most four consecutive bytes
  of a message, wherever it lies and whatever the other bytes are.
\<close>

theorem cf_crc32_detects_bursts:
  assumes "length xs = length ys" "length xs \<le> 4" "xs \<noteq> ys"
  shows "cf_crc32 ord (pre @ xs @ post) \<noteq> cf_crc32 ord (pre @ ys @ post)"
  using cf_crc32_update_burst [OF assms] by (simp add: cf_crc32_def)

theorem cf_crc32_detects_bursts_witness:
  "cf_crc32 LITTLE_ENDIAN ([1, 2] @ [0x31, 0x32, 0x33, 0x34] @ [9]) \<noteq>
   cf_crc32 LITTLE_ENDIAN ([1, 2] @ [0x31, 0x33, 0x33, 0x35] @ [9])"
  by (rule cf_crc32_detects_bursts) simp_all

section \<open>djb2 and sdbm\<close>

definition cf_djb2_begin :: u32 where
  "cf_djb2_begin = 5381"

fun cf_djb2_update :: "u32 \<Rightarrow> u8 list \<Rightarrow> u32" where
  "cf_djb2_update h [] = h"
| "cf_djb2_update h (b # bs) = cf_djb2_update ((push_bit 5 h + h) + ucast b) bs"

fun cf_djb2_update_s :: "u32 \<Rightarrow> u8 list \<Rightarrow> u32 ub" where
  "cf_djb2_update_s h [] = None"
| "cf_djb2_update_s h (b # bs) =
     (if b \<noteq> 0 then cf_djb2_update_s ((push_bit 5 h + h) + ucast b) bs else Some h)"

definition cf_djb2_finalize :: "byte_order \<Rightarrow> u32 \<Rightarrow> u32" where
  "cf_djb2_finalize ord h = htobe32 ord h"

definition cf_djb2 :: "byte_order \<Rightarrow> u8 list \<Rightarrow> u32" where
  "cf_djb2 ord bs = cf_djb2_finalize ord (cf_djb2_update cf_djb2_begin bs)"

definition cf_djb2_s :: "byte_order \<Rightarrow> u8 list \<Rightarrow> u32 ub" where
  "cf_djb2_s ord mem = map_option (cf_djb2_finalize ord) (cf_djb2_update_s cf_djb2_begin mem)"

definition cf_sdbm_begin :: u32 where
  "cf_sdbm_begin = 0"

fun cf_sdbm_update :: "u32 \<Rightarrow> u8 list \<Rightarrow> u32" where
  "cf_sdbm_update h [] = h"
| "cf_sdbm_update h (b # bs) = cf_sdbm_update (ucast b + push_bit 6 h + push_bit 16 h - h) bs"

fun cf_sdbm_update_s :: "u32 \<Rightarrow> u8 list \<Rightarrow> u32 ub" where
  "cf_sdbm_update_s h [] = None"
| "cf_sdbm_update_s h (b # bs) =
     (if b \<noteq> 0 then cf_sdbm_update_s (ucast b + push_bit 6 h + push_bit 16 h - h) bs else Some h)"

definition cf_sdbm_finalize :: "byte_order \<Rightarrow> u32 \<Rightarrow> u32" where
  "cf_sdbm_finalize ord h = htobe32 ord h"

definition cf_sdbm :: "byte_order \<Rightarrow> u8 list \<Rightarrow> u32" where
  "cf_sdbm ord bs = cf_sdbm_finalize ord (cf_sdbm_update cf_sdbm_begin bs)"

definition cf_sdbm_s :: "byte_order \<Rightarrow> u8 list \<Rightarrow> u32 ub" where
  "cf_sdbm_s ord mem = map_option (cf_sdbm_finalize ord) (cf_sdbm_update_s cf_sdbm_begin mem)"

text \<open>Both are polynomial hashes modulo two to the 32: the multiplier is 33, and 65599.\<close>

fun horner :: "u32 \<Rightarrow> u32 \<Rightarrow> u8 list \<Rightarrow> u32" where
  "horner k h [] = h"
| "horner k h (b # bs) = horner k (k * h + ucast b) bs"

lemma horner_sum:
  "horner k h bs = k ^ length bs * h + (\<Sum>i<length bs. k ^ (length bs - 1 - i) * ucast (bs ! i))"
proof (induction bs arbitrary: h)
  case Nil
  then show ?case by simp
next
  case (Cons b bs)
  have "(\<Sum>i<length (b # bs). k ^ (length (b # bs) - 1 - i) * ucast ((b # bs) ! i)) =
    k ^ length bs * ucast b + (\<Sum>i<length bs. k ^ (length bs - 1 - i) * ucast (bs ! i))"
    by (simp add: sum.lessThan_Suc_shift del: sum.lessThan_Suc)
  with Cons show ?case by (simp add: algebra_simps)
qed

lemma djb2_multiplier: "push_bit 5 h + h = 33 * (h :: u32)"
proof -
  have "push_bit 5 h + h = (2 ^ 5 + 1) * h" by (simp only: push_bit_eq_mult ring_distribs mult_1 mult.commute)
  then show ?thesis by simp
qed

lemma sdbm_multiplier: "b + push_bit 6 h + push_bit 16 h - h = 65599 * h + (b :: u32)"
proof -
  have "b + push_bit 6 h + push_bit 16 h - h = (2 ^ 6 + 2 ^ 16 - 1) * h + b"
    by (simp only: push_bit_eq_mult ring_distribs mult_1 mult.commute) simp
  then show ?thesis by simp
qed

lemma cf_djb2_update_horner: "cf_djb2_update h bs = horner 33 h bs"
  by (induction bs arbitrary: h) (simp_all only: cf_djb2_update.simps horner.simps djb2_multiplier)

lemma cf_sdbm_update_horner: "cf_sdbm_update h bs = horner 65599 h bs"
  by (induction bs arbitrary: h) (simp_all only: cf_sdbm_update.simps horner.simps sdbm_multiplier)

lemma cf_update_s_strlen:
  "cf_djb2_update_s h mem = map_option (\<lambda>n. cf_djb2_update h (take n mem)) (c_strlen mem)"
  "cf_sdbm_update_s h mem = map_option (\<lambda>n. cf_sdbm_update h (take n mem)) (c_strlen mem)"
  by (induction mem arbitrary: h) (simp_all add: option.map_comp comp_def)

text \<open>
  On any byte sequence djb2 and sdbm are the polynomial hashes modulo two to the 32 with
  multipliers 33 (from 5381) and 65599 (from 0), in network byte order; on a terminated C string
  the string variants hash exactly the bytes before the terminator.
\<close>

theorem cf_polynomial_hashes:
  assumes "c_strlen mem = Some n"
  shows "cf_djb2 ord bs = htobe32 ord (33 ^ length bs * 5381 +
           (\<Sum>i<length bs. 33 ^ (length bs - 1 - i) * ucast (bs ! i))) \<and>
     cf_sdbm ord bs = htobe32 ord (\<Sum>i<length bs. 65599 ^ (length bs - 1 - i) * ucast (bs ! i)) \<and>
     cf_djb2_s ord mem = Some (cf_djb2 ord (take n mem)) \<and>
     cf_sdbm_s ord mem = Some (cf_sdbm ord (take n mem))"
  using assms
  by (simp add: cf_djb2_def cf_djb2_s_def cf_djb2_begin_def cf_djb2_finalize_def
      cf_sdbm_def cf_sdbm_s_def cf_sdbm_begin_def cf_sdbm_finalize_def
      cf_djb2_update_horner cf_sdbm_update_horner horner_sum cf_update_s_strlen)

theorem cf_polynomial_hashes_witness:
  "cf_djb2_s LITTLE_ENDIAN [0x61, 0x62, 0, 7] = Some (cf_djb2 LITTLE_ENDIAN [0x61, 0x62])"
  using cf_polynomial_hashes [of "[0x61, 0x62, 0, 7]" 2 LITTLE_ENDIAN] by simp

end
