(* ===== verification/Hexbits.thy ===== *)
theory Hexbits
  imports Prelude
begin

text \<open>
  The hexadecimal text form of byte strings in src/hexbits.c, and its round trip.
\<close>

section \<open>Printing and parsing\<close>

text \<open>A \<open>char\<close> is its byte; the comparisons of \<open>ctoh\<close> are false on the bytes from 128 on.\<close>

definition ctoh :: "u8 \<Rightarrow> int" where
  "ctoh c =
     (if 0x30 \<le> c \<and> c \<le> 0x39 then uint c - 0x30
      else if 0x41 \<le> c \<and> c \<le> 0x46 then uint c - 0x41 + 10
      else if 0x61 \<le> c \<and> c \<le> 0x66 then uint c - 0x61 + 10
      else -1)"

definition hex_digits :: "u8 list" where
  "hex_digits = [0x30, 0x31, 0x32, 0x33, 0x34, 0x35, 0x36, 0x37, 0x38, 0x39,
                 0x41, 0x42, 0x43, 0x44, 0x45, 0x46]"

fun bits2hex_loop :: "u8 list \<Rightarrow> u8 list" where
  "bits2hex_loop [] = []"
| "bits2hex_loop (b # pb) =
     hex_digits ! unat (drop_bit 4 b AND 0x0F) # hex_digits ! unat (b AND 0x0F) # bits2hex_loop pb"

text \<open>The content of \<open>str\<close>: two characters per byte and the terminator.\<close>

definition cf_bits2hex :: "u8 list \<Rightarrow> u8 list" where
  "cf_bits2hex bits = bits2hex_loop bits @ [0]"

text \<open>\<open>isspace\<close> in the C locale.\<close>

definition c_isspace :: "u8 \<Rightarrow> bool" where
  "c_isspace c \<longleftrightarrow> c = 0x20 \<or> (9 \<le> c \<and> c \<le> 13)"

fun skip_spaces :: "u8 list \<Rightarrow> u8 list ub" where
  "skip_spaces [] = None"
| "skip_spaces (c # hex) = (if c_isspace c then skip_spaces hex else Some (c # hex))"

text \<open>
  The loop reads the memory at \<open>hex\<close>; its result holds the last values of \<open>c1\<close> and \<open>c2\<close> and
  the bytes written to \<open>bits\<close>. A read beyond the memory is undefined.
\<close>

fun hex2bits_loop :: "u8 list \<Rightarrow> int \<Rightarrow> int \<Rightarrow> nat \<Rightarrow> u8 list \<Rightarrow> (int \<times> int \<times> u8 list) ub" where
  "hex2bits_loop [] c1 c2 cbbitsmax pbits = None"
| "hex2bits_loop (h # hex) c1 c2 cbbitsmax pbits =
     (if h = 0 \<or> c_isspace h \<or> \<not> length pbits < cbbitsmax then Some (c1, c2, pbits)
      else
        let c1 = ctoh h in
        if \<not> 0 \<le> c1 then Some (c1, c2, pbits)
        else
          (case hex of
             [] \<Rightarrow> None
           | h2 # hex2 \<Rightarrow>
               let c2 = ctoh h2 in
               if \<not> 0 \<le> c2 then Some (c1, c2, pbits)
               else hex2bits_loop hex2 c1 c2 cbbitsmax (pbits @ [word_of_int (push_bit 4 c1 OR c2)])))"

text \<open>The returned count and the bytes stored at \<open>bits\<close>.\<close>

definition cf_hex2bits :: "u8 list \<Rightarrow> nat \<Rightarrow> (nat \<times> u8 list) ub" where
  "cf_hex2bits hex cbbitsmax =
     (case skip_spaces hex of
        None \<Rightarrow> None
      | Some hex \<Rightarrow>
          (case hex2bits_loop hex (-1) (-1) cbbitsmax [] of
             None \<Rightarrow> None
           | Some (c1, c2, pbits) \<Rightarrow> Some (if 0 \<le> c1 \<and> 0 \<le> c2 then length pbits else 0, pbits)))"

section \<open>Round trip\<close>

lemma hex_digit_facts:
  assumes "n < 16"
  shows "ctoh (hex_digits ! n) = int n" "hex_digits ! n \<noteq> 0" "\<not> c_isspace (hex_digits ! n)"
proof -
  have "list_all2 (\<lambda>n h. ctoh h = int n \<and> h \<noteq> 0 \<and> \<not> c_isspace h) [0..<16] hex_digits" by code_simp
  with assms have "ctoh (hex_digits ! n) = int n \<and> hex_digits ! n \<noteq> 0 \<and> \<not> c_isspace (hex_digits ! n)"
    by (auto dest!: list_all2_nthD [where p = n])
  then show "ctoh (hex_digits ! n) = int n" "hex_digits ! n \<noteq> 0" "\<not> c_isspace (hex_digits ! n)"
    by simp_all
qed

lemma nibbles:
  fixes b :: u8
  shows "unat (drop_bit 4 b AND 0x0F) < 16" "unat (b AND 0x0F) < 16"
    and "word_of_int (push_bit 4 (int (unat (drop_bit 4 b AND 0x0F))) OR int (unat (b AND 0x0F))) = b"
proof -
  have mask: "(0x0F :: u8) = mask 4" by (simp add: mask_eq_exp_minus_1)
  have lt: "unat (w AND 0x0F) < 16" for w :: u8
    unfolding mask using and_mask_less' [of 4 w] by (simp add: word_less_nat_alt)
  show "unat (drop_bit 4 b AND 0x0F) < 16" "unat (b AND 0x0F) < 16" by (rule lt)+
  show "word_of_int (push_bit 4 (int (unat (drop_bit 4 b AND 0x0F))) OR int (unat (b AND 0x0F))) = b"
    unfolding mask by (rule bit_word_eqI) (auto simp: bit_simps uint_nat [symmetric] dest: bit_imp_le_length)
qed


lemma length_bits2hex_loop [simp]: "length (bits2hex_loop bs) = 2 * length bs"
  by (induction bs) simp_all

text \<open>One pass of the loop over the two digits of a byte.\<close>

lemma hex2bits_loop_pair:
  assumes "length pbits < cbmax"
  shows "hex2bits_loop (bits2hex_loop (b # bs) @ hex) c1 c2 cbmax pbits =
    hex2bits_loop (bits2hex_loop bs @ hex) (int (unat (drop_bit 4 b AND 0x0F))) (int (unat (b AND 0x0F)))
      cbmax (pbits @ [b])"
  using hex_digit_facts [OF nibbles(1) [of b]] hex_digit_facts [OF nibbles(2) [of b]] nibbles(3) [of b] assms
  unfolding bits2hex_loop.simps append_Cons hex2bits_loop.simps(2) by (simp only: Let_def) simp

text \<open>The loop stops at the terminator, at white space, or at the end of the output buffer.\<close>

lemma hex2bits_loop_digits:
  assumes "t = 0 \<or> c_isspace t" "length pbits \<le> cbmax" "0 \<le> c1 \<longleftrightarrow> pbits \<noteq> []" "0 \<le> c2 \<longleftrightarrow> pbits \<noteq> []"
  shows "\<exists>d1 d2. hex2bits_loop (bits2hex_loop bs @ t # rest) c1 c2 cbmax pbits =
      Some (d1, d2, take cbmax (pbits @ bs)) \<and>
      (0 \<le> d1 \<longleftrightarrow> take cbmax (pbits @ bs) \<noteq> []) \<and> (0 \<le> d2 \<longleftrightarrow> take cbmax (pbits @ bs) \<noteq> [])"
  using assms
proof (induction bs arbitrary: c1 c2 pbits)
  case Nil
  then show ?case by auto
next
  case (Cons b bs)
  let ?hi = "unat (drop_bit 4 b AND 0x0F)" and ?lo = "unat (b AND 0x0F)"
  show ?case
  proof (cases "length pbits < cbmax")
    case True
    have "hex2bits_loop (bits2hex_loop (b # bs) @ t # rest) c1 c2 cbmax pbits =
        hex2bits_loop (bits2hex_loop bs @ t # rest) (int ?hi) (int ?lo) cbmax (pbits @ [b])"
      using True by (rule hex2bits_loop_pair)
    moreover have "\<exists>d1 d2. hex2bits_loop (bits2hex_loop bs @ t # rest) (int ?hi) (int ?lo) cbmax (pbits @ [b]) =
        Some (d1, d2, take cbmax ((pbits @ [b]) @ bs)) \<and>
        (0 \<le> d1 \<longleftrightarrow> take cbmax ((pbits @ [b]) @ bs) \<noteq> []) \<and> (0 \<le> d2 \<longleftrightarrow> take cbmax ((pbits @ [b]) @ bs) \<noteq> [])"
      using True Cons.prems(1) by (intro Cons.IH) simp_all
    ultimately show ?thesis by simp
  next
    case False
    with Cons.prems(2) have len: "length pbits = cbmax" by simp
    have "hex2bits_loop (bits2hex_loop (b # bs) @ t # rest) c1 c2 cbmax pbits = Some (c1, c2, pbits)"
      unfolding bits2hex_loop.simps append_Cons hex2bits_loop.simps(2) using False by (simp only: simp_thms if_True)
    moreover have "take cbmax (pbits @ b # bs) = pbits" using len by simp
    ultimately show ?thesis using Cons.prems(3,4) by simp
  qed
qed

lemma skip_spaces_append: "\<forall>c\<in>set ws. c_isspace c \<Longrightarrow> skip_spaces (ws @ hex) = skip_spaces hex"
  by (induction ws) auto

lemma skip_spaces_hex:
  assumes "\<not> c_isspace t \<or> bs \<noteq> []"
  shows "skip_spaces (bits2hex_loop bs @ t # rest) = Some (bits2hex_loop bs @ t # rest)"
proof (cases bs)
  case (Cons b bs')
  with hex_digit_facts(3) [OF nibbles(1) [of b]] show ?thesis by simp
qed (use assms in simp)

lemma hex2bits_of_printed:
  assumes "\<forall>c\<in>set ws. c_isspace c"
  shows "cf_hex2bits (ws @ cf_bits2hex bs @ rest) cbbitsmax = Some (min cbbitsmax (length bs), take cbbitsmax bs)"
proof -
  from hex2bits_loop_digits [of 0 "[]" cbbitsmax "-1" "-1" bs rest] obtain d1 d2 where
    "hex2bits_loop (bits2hex_loop bs @ 0 # rest) (-1) (-1) cbbitsmax [] = Some (d1, d2, take cbbitsmax bs)"
    "0 \<le> d1 \<longleftrightarrow> take cbbitsmax bs \<noteq> []" "0 \<le> d2 \<longleftrightarrow> take cbbitsmax bs \<noteq> []" by auto
  then show ?thesis
    using assms skip_spaces_hex [of 0 bs rest]
    by (auto simp: cf_hex2bits_def cf_bits2hex_def skip_spaces_append c_isspace_def)
qed

text \<open>
  Parsing what \<open>cf_bits2hex\<close> printed gives the bytes back: with leading white space, and with
  any text behind the terminator, \<open>cf_hex2bits\<close> stays inside of the string, fills at most
  \<open>cbbitsmax\<close> bytes and returns how many bytes it stored.
\<close>

theorem cf_hex2bits_bits2hex:
  assumes "\<forall>c\<in>set ws. c_isspace c"
  shows "cf_hex2bits (ws @ cf_bits2hex bs @ rest) cbbitsmax =
     Some (min cbbitsmax (length bs), take cbbitsmax bs)"
  using assms by (rule hex2bits_of_printed)

theorem cf_hex2bits_bits2hex_witness:
  "cf_hex2bits ([0x20, 9] @ cf_bits2hex [0xCA, 0xFE] @ [7]) 16 = Some (2, [0xCA, 0xFE])"
  using cf_hex2bits_bits2hex [of "[0x20, 9]" "[0xCA, 0xFE]" "[7]" 16] by (simp add: c_isspace_def)

text \<open>
  Malformed text is rejected: after any printed bytes, a half pair before the terminator or a
  character that is no hexadecimal digit makes \<open>cf_hex2bits\<close> return zero while there is room in
  the output buffer.
\<close>

theorem cf_hex2bits_rejects:
  assumes "length bs < cbbitsmax" "ctoh h = -1" "h \<noteq> 0" "\<not> c_isspace h" "n < 16"
  shows "(\<exists>out. cf_hex2bits (bits2hex_loop bs @ h # rest) cbbitsmax = Some (0, out)) \<and>
    (\<exists>out. cf_hex2bits (bits2hex_loop bs @ hex_digits ! n # 0 # rest) cbbitsmax = Some (0, out))"
proof -
  have bad: "\<exists>d1 d2 out. hex2bits_loop (bits2hex_loop bs @ tl) c1 c2 cbbitsmax pbits = Some (d1, d2, out) \<and>
      (d1 < 0 \<or> d2 < 0)"
    if "length pbits + length bs < cbbitsmax"
      "\<forall>c1 c2 pbits. length pbits < cbbitsmax \<longrightarrow> (\<exists>d1 d2 out. hex2bits_loop tl c1 c2 cbbitsmax pbits = Some (d1, d2, out) \<and> (d1 < 0 \<or> d2 < 0))"
    for tl c1 c2 pbits
    using that
  proof (induction bs arbitrary: c1 c2 pbits)
    case (Cons b bs)
    have "length pbits < cbbitsmax" using Cons.prems(1) by simp
    from hex2bits_loop_pair [OF this, of b bs tl c1 c2] Cons.IH [of "pbits @ [b]"] Cons.prems
    show ?case by simp
  qed simp
  have ctoh0: "ctoh 0 = -1" by (simp add: ctoh_def)
  note n = hex_digit_facts [OF assms(5)]
  have start: "skip_spaces (bits2hex_loop bs @ c # tl) = Some (bits2hex_loop bs @ c # tl)" if "\<not> c_isspace c" for c tl
    using that by (intro skip_spaces_hex) simp
  have "\<exists>out. cf_hex2bits (bits2hex_loop bs @ h # rest) cbbitsmax = Some (0, out)"
    using bad [of "[]" "h # rest" "-1" "-1"] assms(1-4) start [of h rest] by (auto simp: cf_hex2bits_def Let_def)
  moreover have "\<exists>out. cf_hex2bits (bits2hex_loop bs @ hex_digits ! n # 0 # rest) cbbitsmax = Some (0, out)"
    using bad [of "[]" "hex_digits ! n # 0 # rest" "-1" "-1"] assms(1) n ctoh0 start [of "hex_digits ! n" "0 # rest"]
    by (auto simp: cf_hex2bits_def Let_def)
  ultimately show ?thesis by blast
qed

theorem cf_hex2bits_rejects_witness:
  "\<exists>out. cf_hex2bits (bits2hex_loop [0xCA] @ 0x47 # [0]) 4 = Some (0, out)"
  using cf_hex2bits_rejects [of "[0xCA]" 4 "0x47" 0 "[0]"] by (simp add: ctoh_def c_isspace_def)

end
