(* ===== verification/Corpc_Proto.thy ===== *)
theory Corpc_Proto
  imports Hash
begin

text \<open>
  The wire protocol of src/corpc/corpc-proto.c: the packed message layout, the conversion
  between host and network byte order, the checksum, the send routines and
  \<open>corpc_proto_recv_msg\<close>. The theory proves that every message sent is received unchanged by a
  host of the same byte order, that a corruption of at most four consecutive payload bytes is
  rejected, and how the routine fails.

  A socket is the list of segments that successive \<open>co_ssl_socket_recv\<close> calls find: one call
  returns at most the rest of one segment, as \<open>recv\<close> and \<open>SSL_read\<close> do, and fails on the empty
  list (the connection was closed).
\<close>

section \<open>Memory layout\<close>

text \<open>The bytes of a 16 and a 32 bit object in host memory, and the conversions \<open>htons\<close>, \<open>htonl\<close>.\<close>

definition mem16 :: "byte_order \<Rightarrow> u16 \<Rightarrow> u8 list" where
  "mem16 ord w = (case ord of
      LITTLE_ENDIAN \<Rightarrow> [ucast w, ucast (drop_bit 8 w)]
    | BIG_ENDIAN \<Rightarrow> [ucast (drop_bit 8 w), ucast w])"

definition load16 :: "byte_order \<Rightarrow> u8 list \<Rightarrow> nat \<Rightarrow> u16" where
  "load16 ord bs off = (case ord of
      LITTLE_ENDIAN \<Rightarrow> ucast (bs ! off) OR push_bit 8 (ucast (bs ! (off + 1)))
    | BIG_ENDIAN \<Rightarrow> ucast (bs ! (off + 1)) OR push_bit 8 (ucast (bs ! off)))"

definition mem32 :: "byte_order \<Rightarrow> u32 \<Rightarrow> u8 list" where
  "mem32 ord w = (case ord of
      LITTLE_ENDIAN \<Rightarrow> mem16 ord (ucast w) @ mem16 ord (ucast (drop_bit 16 w))
    | BIG_ENDIAN \<Rightarrow> mem16 ord (ucast (drop_bit 16 w)) @ mem16 ord (ucast w))"

definition load32 :: "byte_order \<Rightarrow> u8 list \<Rightarrow> nat \<Rightarrow> u32" where
  "load32 ord bs off = (case ord of
      LITTLE_ENDIAN \<Rightarrow> ucast (load16 ord bs off) OR push_bit 16 (ucast (load16 ord bs (off + 2)))
    | BIG_ENDIAN \<Rightarrow> ucast (load16 ord bs (off + 2)) OR push_bit 16 (ucast (load16 ord bs off)))"

definition htons :: "byte_order \<Rightarrow> u16 \<Rightarrow> u16" where
  "htons ord w = (case ord of LITTLE_ENDIAN \<Rightarrow> push_bit 8 w OR drop_bit 8 w | BIG_ENDIAN \<Rightarrow> w)"

definition htonl :: "byte_order \<Rightarrow> u32 \<Rightarrow> u32" where
  "htonl ord w = htobe32 ord w"

definition store16 :: "byte_order \<Rightarrow> u8 list \<Rightarrow> nat \<Rightarrow> u16 \<Rightarrow> u8 list" where
  "store16 ord bs off w = take off bs @ mem16 ord w @ drop (off + 2) bs"

text \<open>
  A message object is its header and the bytes of its \<open>details\<close> area. \<open>overlay\<close> writes received
  bytes over the start of the area, whose rest keeps what it held before.
\<close>

record comsghdr =
  hdr_crc :: u32
  hdr_code :: u16
  hdr_sid :: u16
  hdr_did :: u16
  hdr_pldsize :: u16

record comsg =
  msg_hdr :: comsghdr
  msg_details :: "u8 list"

definition overlay :: "u8 list \<Rightarrow> u8 list \<Rightarrow> u8 list" where
  "overlay old bs = bs @ drop (length bs) old"

abbreviation sizeof_comsghdr :: nat where
  "sizeof_comsghdr \<equiv> 12"

definition CORPC_MAX_PAYLOAD_SIZE :: nat where
  "CORPC_MAX_PAYLOAD_SIZE = 64 * 1024 - sizeof_comsghdr"

definition co_msg_create_stream_req :: u16 where "co_msg_create_stream_req = 1"
definition co_msg_create_stream_resp :: u16 where "co_msg_create_stream_resp = 2"
definition co_msg_close_stream_req :: u16 where "co_msg_close_stream_req = 3"
definition co_msg_data :: u16 where "co_msg_data = 4"
definition co_msg_data_ack :: u16 where "co_msg_data_ack = 5"

lemmas co_msg_codes =
  co_msg_create_stream_req_def co_msg_create_stream_resp_def co_msg_close_stream_req_def
  co_msg_data_def co_msg_data_ack_def

text \<open>The header in memory, and its fields read back from memory.\<close>

definition hdr_tail :: "byte_order \<Rightarrow> comsghdr \<Rightarrow> u8 list" where
  "hdr_tail ord h =
     mem16 ord (hdr_code h) @ mem16 ord (hdr_sid h) @ mem16 ord (hdr_did h) @ mem16 ord (hdr_pldsize h)"

definition hdr_mem :: "byte_order \<Rightarrow> comsghdr \<Rightarrow> u8 list" where
  "hdr_mem ord h = mem32 ord (hdr_crc h) @ hdr_tail ord h"

definition hdr_load :: "byte_order \<Rightarrow> u8 list \<Rightarrow> comsghdr" where
  "hdr_load ord bs =
     \<lparr>hdr_crc = load32 ord bs 0, hdr_code = load16 ord bs 4, hdr_sid = load16 ord bs 6,
      hdr_did = load16 ord bs 8, hdr_pldsize = load16 ord bs 10\<rparr>"

section \<open>Operations\<close>

text \<open>\<open>calc_crc\<close> runs over the message in host memory, behind the checksum field.\<close>

definition calc_crc :: "byte_order \<Rightarrow> comsghdr \<Rightarrow> u8 list \<Rightarrow> u32" where
  "calc_crc ord h pld = cf_crc32_finalize ord (cf_crc32_update cf_crc32_begin (hdr_tail ord h @ pld))"

definition set_crc :: "byte_order \<Rightarrow> comsghdr \<Rightarrow> u8 list \<Rightarrow> comsghdr" where
  "set_crc ord h pld = h\<lparr>hdr_crc := calc_crc ord h pld\<rparr>"

definition ntohdr :: "byte_order \<Rightarrow> comsghdr \<Rightarrow> comsghdr" where
  "ntohdr ord h =
     \<lparr>hdr_crc = htonl ord (hdr_crc h), hdr_code = htons ord (hdr_code h),
      hdr_sid = htons ord (hdr_sid h), hdr_did = htons ord (hdr_did h),
      hdr_pldsize = htons ord (hdr_pldsize h)\<rparr>"

definition htondr :: "byte_order \<Rightarrow> comsghdr \<Rightarrow> comsghdr" where
  "htondr ord h =
     \<lparr>hdr_crc = htonl ord (hdr_crc h), hdr_code = htons ord (hdr_code h),
      hdr_sid = htons ord (hdr_sid h), hdr_did = htons ord (hdr_did h),
      hdr_pldsize = htons ord (hdr_pldsize h)\<rparr>"

text \<open>The in-place conversion of the 16 bit field at an offset of the details.\<close>

definition swap_field :: "byte_order \<Rightarrow> nat \<Rightarrow> u8 list \<Rightarrow> u8 list" where
  "swap_field ord off bs = store16 ord bs off (htons ord (load16 ord bs off))"

text \<open>One receive call: the bytes it returned (\<open>None\<close> for a failure) and the remaining segments.\<close>

fun sock_recv :: "u8 list list \<Rightarrow> nat \<Rightarrow> u8 list option \<times> u8 list list" where
  "sock_recv [] n = (None, [])"
| "sock_recv (s # ss) n =
     (if length s \<le> n then (Some s, ss) else (Some (take n s), drop n s # ss))"

text \<open>
  \<open>co_proto_read\<close> succeeds when one receive call returned all the bytes; a shorter read has
  still overwritten the start of the buffer. A read of zero bytes succeeds without waiting.
\<close>

definition co_proto_read :: "u8 list list \<Rightarrow> nat \<Rightarrow> bool \<times> u8 list \<times> u8 list list" where
  "co_proto_read sock n =
     (if n = 0 then (True, [], sock)
      else (case sock_recv sock n of
              (None, sock') \<Rightarrow> (False, [], sock')
            | (Some bs, sock') \<Rightarrow> (length bs = n, bs, sock')))"

datatype recv_status = Recv_Ok | Recv_Io | Recv_Size | Recv_Code | Recv_Crc

text \<open>
  \<open>corpc_proto_recv_msg\<close>: the true return is \<open>Recv_Ok\<close>, the other values name the failing
  check (\<open>Recv_Code\<close> and \<open>Recv_Crc\<close> set errno to EPROTO). The details are converted in place
  before the checksum is computed.
\<close>

definition recv_details ::
  "u8 list list \<Rightarrow> comsghdr \<Rightarrow> u8 list \<Rightarrow> (u8 list \<Rightarrow> u8 list) \<Rightarrow> recv_status \<times> u8 list \<times> u8 list list" where
  "recv_details sock h old conv =
     (case co_proto_read sock (unat (hdr_pldsize h)) of
        (ok, bs, sock') \<Rightarrow>
          if ok then (Recv_Ok, conv (overlay old bs), sock') else (Recv_Io, overlay old bs, sock'))"

definition recv_body ::
  "byte_order \<Rightarrow> u8 list list \<Rightarrow> comsghdr \<Rightarrow> u8 list \<Rightarrow> recv_status \<times> u8 list \<times> u8 list list" where
  "recv_body ord sock h old =
     (let pld = unat (hdr_pldsize h) in
      if hdr_code h = co_msg_create_stream_req then
        if pld > CORPC_MAX_PAYLOAD_SIZE then (Recv_Size, old, sock)
        else recv_details sock h old (swap_field ord 4 \<circ> swap_field ord 2 \<circ> swap_field ord 0)
      else if hdr_code h = co_msg_create_stream_resp then
        if pld \<noteq> 4 then (Recv_Size, old, sock)
        else recv_details sock h old (swap_field ord 2 \<circ> swap_field ord 0)
      else if hdr_code h = co_msg_close_stream_req then
        if pld \<noteq> 2 then (Recv_Size, old, sock)
        else recv_details sock h old (swap_field ord 0)
      else if hdr_code h = co_msg_data then
        if pld > CORPC_MAX_PAYLOAD_SIZE then (Recv_Size, old, sock)
        else recv_details sock h old id
      else if hdr_code h = co_msg_data_ack then
        if pld \<noteq> 0 then (Recv_Size, old, sock) else (Recv_Ok, old, sock)
      else (Recv_Code, old, sock))"

definition corpc_proto_recv_msg ::
  "byte_order \<Rightarrow> u8 list list \<Rightarrow> comsg \<Rightarrow> recv_status \<times> comsg \<times> u8 list list" where
  "corpc_proto_recv_msg ord sock msg =
     (case co_proto_read sock sizeof_comsghdr of
        (ok, bs, sock1) \<Rightarrow>
          if \<not> ok then (Recv_Io, msg\<lparr>msg_hdr := hdr_load ord (overlay (hdr_mem ord (msg_hdr msg)) bs)\<rparr>, sock1)
          else
            let h = ntohdr ord (hdr_load ord bs) in
            (case recv_body ord sock1 h (msg_details msg) of
               (st, det, sock2) \<Rightarrow>
                 let msg' = \<lparr>msg_hdr = h, msg_details = det\<rparr> in
                 if st \<noteq> Recv_Ok then (st, msg', sock2)
                 else if calc_crc ord h (take (unat (hdr_pldsize h)) det) \<noteq> hdr_crc h
                      then (Recv_Crc, msg', sock2)
                 else (Recv_Ok, msg', sock2)))"

text \<open>
  The send routines. \<open>tx\<close> is the value \<open>co_ssl_socket_send\<close> returns for a buffer; the result is
  the boolean return and the buffers handed to the socket, in order.
\<close>

definition sock_send :: "(u8 list \<Rightarrow> int) \<Rightarrow> u8 list \<Rightarrow> bool" where
  "sock_send tx buf \<longleftrightarrow> tx buf = int (length buf)"

definition mk_hdr :: "u16 \<Rightarrow> u16 \<Rightarrow> u16 \<Rightarrow> nat \<Rightarrow> comsghdr" where
  "mk_hdr code sid did pldsize =
     \<lparr>hdr_crc = 0, hdr_code = code, hdr_sid = sid, hdr_did = did, hdr_pldsize = of_nat pldsize\<rparr>"

definition corpc_proto_send_create_stream_request ::
  "byte_order \<Rightarrow> (u8 list \<Rightarrow> int) \<Rightarrow> u16 \<Rightarrow> u16 \<Rightarrow> u8 list \<Rightarrow> u8 list \<Rightarrow> bool \<times> u8 list list" where
  "corpc_proto_send_create_stream_request ord tx sid rwnd service method =
     (let details = \<lambda>conv. mem16 ord (conv rwnd) @ mem16 ord (conv (of_nat (length service))) @
                      mem16 ord (conv (of_nat (length method))) @ service @ method;
          hdr = mk_hdr co_msg_create_stream_req sid 0 (6 + length service + length method);
          hdr = set_crc ord hdr (details id);
          buf = hdr_mem ord (htondr ord hdr) @ details (htons ord)
      in (sock_send tx buf, [buf]))"

definition corpc_proto_send_create_stream_responce ::
  "byte_order \<Rightarrow> (u8 list \<Rightarrow> int) \<Rightarrow> u16 \<Rightarrow> u16 \<Rightarrow> u16 \<Rightarrow> u16 \<Rightarrow> bool \<times> u8 list list" where
  "corpc_proto_send_create_stream_responce ord tx sid did rwnd status =
     (let details = \<lambda>conv. mem16 ord (conv status) @ mem16 ord (conv rwnd);
          hdr = set_crc ord (mk_hdr co_msg_create_stream_resp sid did 4) (details id);
          buf = hdr_mem ord (htondr ord hdr) @ details (htons ord)
      in (sock_send tx buf, [buf]))"

definition corpc_proto_send_close_stream ::
  "byte_order \<Rightarrow> (u8 list \<Rightarrow> int) \<Rightarrow> u16 \<Rightarrow> u16 \<Rightarrow> u16 \<Rightarrow> bool \<times> u8 list list" where
  "corpc_proto_send_close_stream ord tx sid did status =
     (let details = \<lambda>conv. mem16 ord (conv status);
          hdr = set_crc ord (mk_hdr co_msg_close_stream_req sid did 2) (details id);
          buf = hdr_mem ord (htondr ord hdr) @ details (htons ord)
      in (sock_send tx buf, [buf]))"

definition corpc_proto_send_data_ack ::
  "byte_order \<Rightarrow> (u8 list \<Rightarrow> int) \<Rightarrow> u16 \<Rightarrow> u16 \<Rightarrow> bool \<times> u8 list list" where
  "corpc_proto_send_data_ack ord tx sid did =
     (let hdr = set_crc ord (mk_hdr co_msg_data_ack sid did 0) [];
          buf = hdr_mem ord (htondr ord hdr)
      in (sock_send tx buf, [buf]))"

text \<open>The payload goes out with a second call, only after the header was sent whole.\<close>

definition corpc_proto_send_data ::
  "byte_order \<Rightarrow> (u8 list \<Rightarrow> int) \<Rightarrow> u16 \<Rightarrow> u16 \<Rightarrow> u8 list \<Rightarrow> bool \<times> u8 list list" where
  "corpc_proto_send_data ord tx sid did data =
     (let hdr = set_crc ord (mk_hdr co_msg_data sid did (length data)) data;
          buf = hdr_mem ord (htondr ord hdr)
      in if sock_send tx buf then (sock_send tx data, [buf, data]) else (False, [buf]))"

section \<open>Layout lemmas\<close>

lemma length_mem [simp]:
  "length (mem16 ord w) = 2" "length (mem32 ord v) = 4"
  "length (hdr_tail ord h) = 8" "length (hdr_mem ord h) = 12"
  by (simp_all add: mem16_def mem32_def hdr_tail_def hdr_mem_def split: byte_order.split)

lemma htons_htons [simp]: "htons ord (htons ord w) = w"
  by (cases ord) (simp, intro bit_word_eqI, auto simp: htons_def bit_simps dest: bit_imp_le_length)

lemma load16_mem16: "load16 ord (as @ mem16 ord w @ bs) (length as) = w"
  by (cases ord; simp add: load16_def mem16_def nth_append;
      intro bit_word_eqI; auto simp: bit_simps dest: bit_imp_le_length)


lemma load16_mem16_0 [simp]: "load16 ord (mem16 ord w @ bs) 0 = w" "load16 ord (mem16 ord w) 0 = w"
  using load16_mem16 [of ord "[]" w bs] load16_mem16 [of ord "[]" w "[]"] by simp_all

lemma load16_skip:
  assumes "length as \<le> n"
  shows "load16 ord (as @ bs) n = load16 ord bs (n - length as)"
  using assms by (simp add: load16_def nth_append Suc_diff_le split: byte_order.split)

lemma load16_mem16_skip [simp]:
  "2 \<le> n \<Longrightarrow> load16 ord (mem16 ord v @ bs) n = load16 ord bs (n - 2)"
  by (simp add: load16_skip)

lemma load32_mem32 [simp]:
  "load32 ord (mem32 ord w @ bs) 0 = w"
  "4 \<le> n \<Longrightarrow> load16 ord (mem32 ord w @ bs) n = load16 ord bs (n - 4)"
proof -
  have "ucast (ucast w :: u16) OR push_bit 16 (ucast (ucast (drop_bit 16 w) :: u16)) = w"
    by (intro bit_word_eqI) (auto simp: bit_simps dest: bit_imp_le_length)
  then show "load32 ord (mem32 ord w @ bs) 0 = w"
    by (cases ord) (simp_all add: load32_def mem32_def)
  show "4 \<le> n \<Longrightarrow> load16 ord (mem32 ord w @ bs) n = load16 ord bs (n - 4)"
    by (cases ord) (simp_all add: mem32_def)
qed

lemma hdr_load_mem [simp]: "hdr_load ord (hdr_mem ord h) = h"
proof -
  have "hdr_load ord (hdr_mem ord h @ []) = h"
    unfolding hdr_mem_def hdr_tail_def hdr_load_def append_assoc by simp
  then show ?thesis by simp
qed

lemma bit_bswap32:
  "bit (bswap32 w) n \<longleftrightarrow> (if n < 8 then bit w (n + 24) else if n < 16 then bit w (n + 8)
     else if n < 24 then bit w (n - 8) else n < 32 \<and> bit w (n - 24))"
proof -
  have m: "(0xFF :: u32) = mask 8" "(0xFF00 :: u32) = push_bit 8 (mask 8)"
    by (simp_all add: mask_eq_exp_minus_1)
  show ?thesis unfolding bswap32_def m
    by (auto simp: bit_simps add.commute dest: bit_imp_le_length)
qed

lemma htonl_htonl [simp]: "htonl ord (htonl ord w) = w"
proof -
  have "bswap32 (bswap32 w) = w" by (rule bit_word_eqI) (auto simp: bit_bswap32)
  then show ?thesis by (cases ord) (simp_all add: htonl_def htobe32_def)
qed

lemma ntohdr_htondr [simp]: "ntohdr ord (htondr ord h) = h"
  by (simp add: ntohdr_def htondr_def)

lemma calc_crc_set_crc [simp]:
  "hdr_crc (set_crc ord h pld) = calc_crc ord h pld"
  "hdr_tail ord (set_crc ord h pld) = hdr_tail ord h"
  "calc_crc ord (set_crc ord h pld) q = calc_crc ord h q"
  "hdr_code (set_crc ord h pld) = hdr_code h" "hdr_pldsize (set_crc ord h pld) = hdr_pldsize h"
  "hdr_sid (set_crc ord h pld) = hdr_sid h" "hdr_did (set_crc ord h pld) = hdr_did h"
  by (simp_all add: set_crc_def calc_crc_def hdr_tail_def)

lemma mk_hdr_sel [simp]:
  "hdr_code (mk_hdr c s d n) = c" "hdr_sid (mk_hdr c s d n) = s" "hdr_did (mk_hdr c s d n) = d"
  "hdr_pldsize (mk_hdr c s d n) = of_nat n"
  by (simp_all add: mk_hdr_def)

text \<open>Converting the fields of a details area that starts with them, one by one.\<close>

lemma swap_field_skip:
  assumes "length as \<le> n"
  shows "swap_field ord n (as @ bs) = as @ swap_field ord (n - length as) bs"
proof -
  from assms have "n + 2 - length as = n - length as + 2" by simp
  with assms show ?thesis by (simp add: swap_field_def store16_def load16_skip)
qed

lemma swap_field_mem16 [simp]:
  "swap_field ord 0 (mem16 ord w @ bs) = mem16 ord (htons ord w) @ bs"
  "2 \<le> n \<Longrightarrow> swap_field ord n (mem16 ord v @ bs) = mem16 ord v @ swap_field ord (n - 2) bs"
  by (simp_all add: swap_field_skip) (simp add: swap_field_def store16_def)

section \<open>Transport\<close>

text \<open>Bytes in front of the remaining segments, in a segment of their own when there are any.\<close>

definition feed :: "u8 list \<Rightarrow> u8 list list \<Rightarrow> u8 list list" where
  "feed bs ss = (if bs = [] then ss else bs # ss)"

lemma co_proto_read_feed: "co_proto_read (feed (as @ bs) ss) (length as) = (True, as, feed bs ss)"
  by (auto simp: co_proto_read_def feed_def)

text \<open>The two ways a message arrives whole: in one segment, or with the header in its own.\<close>

definition arrives :: "u8 list list \<Rightarrow> u8 list \<Rightarrow> u8 list \<Rightarrow> u8 list list \<Rightarrow> bool" where
  "arrives sock hdr pld rest \<longleftrightarrow>
     (\<exists>more ss. rest = feed more ss \<and> (sock = feed (hdr @ pld @ more) ss \<or> sock = hdr # feed (pld @ more) ss))"

lemma arrives_reads:
  assumes "arrives sock hdr pld rest" "hdr \<noteq> []"
  obtains sock1 where "co_proto_read sock (length hdr) = (True, hdr, sock1)"
    "co_proto_read sock1 (length pld) = (True, pld, rest)"
proof -
  from assms obtain more ss where r: "rest = feed more ss"
    and s: "sock = feed (hdr @ pld @ more) ss \<or> sock = hdr # feed (pld @ more) ss"
    by (auto simp: arrives_def)
  have "co_proto_read sock (length hdr) = (True, hdr, feed (pld @ more) ss)"
    using s assms(2) by (auto simp: co_proto_read_feed) (simp add: co_proto_read_def)
  then show thesis using r co_proto_read_feed [of pld more ss] by (intro that) simp_all
qed

text \<open>
  Receiving: the header is converted, the details are read over the old ones and converted by
  \<open>recv_body\<close>, and the checksum is compared with that of the converted message.
\<close>

lemma recv_msg_whole:
  assumes "arrives sock (hdr_mem ord (htondr ord h)) wire rest"
    and "\<forall>sock1. co_proto_read sock1 (length wire) = (True, wire, rest) \<longrightarrow>
           recv_body ord sock1 h (msg_details msg) = (Recv_Ok, host @ old, rest)"
    and "unat (hdr_pldsize h) = length host"
  shows "corpc_proto_recv_msg ord sock msg =
     (if calc_crc ord h host = hdr_crc h then Recv_Ok else Recv_Crc,
      \<lparr>msg_hdr = h, msg_details = host @ old\<rparr>, rest)"
proof -
  have "hdr_mem ord (htondr ord h) \<noteq> []" using length_mem(4) [of ord "htondr ord h"] by (metis list.size(3) zero_neq_numeral)
  with assms(1) obtain sock1 where
    "co_proto_read sock 12 = (True, hdr_mem ord (htondr ord h), sock1)"
    "co_proto_read sock1 (length wire) = (True, wire, rest)"
    by (metis arrives_reads length_mem(4))
  with assms(2,3) show ?thesis by (simp add: corpc_proto_recv_msg_def Let_def)
qed

lemma unat_pldsize: "n \<le> CORPC_MAX_PAYLOAD_SIZE \<Longrightarrow> unat (of_nat n :: u16) = n"
  by (simp add: unat_of_nat CORPC_MAX_PAYLOAD_SIZE_def)

lemma recv_msg_data:
  assumes "arrives sock (hdr_mem ord (htondr ord h)) pld rest"
    and "hdr_code h = co_msg_data" "unat (hdr_pldsize h) = length pld" "length pld \<le> CORPC_MAX_PAYLOAD_SIZE"
  shows "corpc_proto_recv_msg ord sock msg =
     (if calc_crc ord h pld = hdr_crc h then Recv_Ok else Recv_Crc,
      \<lparr>msg_hdr = h, msg_details = overlay (msg_details msg) pld\<rparr>, rest)"
  unfolding overlay_def
  by (rule recv_msg_whole [OF assms(1) _ assms(3)])
    (use assms(2-4) in \<open>simp add: recv_body_def recv_details_def co_msg_codes overlay_def\<close>)



definition example_msg :: comsg where
  "example_msg = \<lparr>msg_hdr = mk_hdr 0 0 0 0, msg_details = replicate 8 0\<rparr>"


text \<open>Control messages: the details area starts with 16 bit fields, sent in network order.\<close>

lemma recv_msg_request:
  assumes "arrives sock (hdr_mem ord (htondr ord h)) wire rest"
    and "wire = mem16 ord (htons ord a) @ mem16 ord (htons ord b) @ mem16 ord (htons ord c) @ pack"
    and "hdr_code h = co_msg_create_stream_req" "unat (hdr_pldsize h) = length wire"
      "length wire \<le> CORPC_MAX_PAYLOAD_SIZE"
  shows "corpc_proto_recv_msg ord sock msg =
     (if calc_crc ord h (mem16 ord a @ mem16 ord b @ mem16 ord c @ pack) = hdr_crc h then Recv_Ok else Recv_Crc,
      \<lparr>msg_hdr = h, msg_details = (mem16 ord a @ mem16 ord b @ mem16 ord c @ pack) @
         drop (length wire) (msg_details msg)\<rparr>, rest)"
  by (rule recv_msg_whole [OF assms(1)])
    (use assms(2-5) in \<open>simp_all add: recv_body_def recv_details_def co_msg_codes overlay_def\<close>)

lemma recv_msg_responce:
  assumes "arrives sock (hdr_mem ord (htondr ord h)) wire rest"
    and "wire = mem16 ord (htons ord a) @ mem16 ord (htons ord b)"
    and "hdr_code h = co_msg_create_stream_resp" "hdr_pldsize h = 4"
  shows "corpc_proto_recv_msg ord sock msg =
     (if calc_crc ord h (mem16 ord a @ mem16 ord b) = hdr_crc h then Recv_Ok else Recv_Crc,
      \<lparr>msg_hdr = h, msg_details = (mem16 ord a @ mem16 ord b) @ drop 4 (msg_details msg)\<rparr>, rest)"
  by (rule recv_msg_whole [OF assms(1)])
    (use assms(2-4) in \<open>simp_all add: recv_body_def recv_details_def co_msg_codes overlay_def\<close>)

lemma recv_msg_close:
  assumes "arrives sock (hdr_mem ord (htondr ord h)) wire rest"
    and "wire = mem16 ord (htons ord a)"
    and "hdr_code h = co_msg_close_stream_req" "hdr_pldsize h = 2"
  shows "corpc_proto_recv_msg ord sock msg =
     (if calc_crc ord h (mem16 ord a) = hdr_crc h then Recv_Ok else Recv_Crc,
      \<lparr>msg_hdr = h, msg_details = mem16 ord a @ drop 2 (msg_details msg)\<rparr>, rest)"
  by (rule recv_msg_whole [OF assms(1)])
    (use assms(2-4) in \<open>simp_all add: recv_body_def recv_details_def co_msg_codes overlay_def\<close>)

lemma recv_msg_ack:
  assumes "arrives sock (hdr_mem ord (htondr ord h)) [] rest"
    and "hdr_code h = co_msg_data_ack" "hdr_pldsize h = 0"
  shows "corpc_proto_recv_msg ord sock msg =
     (if calc_crc ord h [] = hdr_crc h then Recv_Ok else Recv_Crc,
      \<lparr>msg_hdr = h, msg_details = msg_details msg\<rparr>, rest)"
  using recv_msg_whole [OF assms(1), of msg "[]" "msg_details msg"] assms(2-3)
  by (simp add: recv_body_def recv_details_def co_msg_codes co_proto_read_def)

lemma request_roundtrip:
  assumes "length service + length method + 6 \<le> CORPC_MAX_PAYLOAD_SIZE"
    and "corpc_proto_send_create_stream_request ord tx sid rwnd service method = (True, [hdr @ pld])"
    and "length hdr = 12" "arrives sock hdr pld rest"
  shows "\<exists>h det. corpc_proto_recv_msg ord sock msg = (Recv_Ok, \<lparr>msg_hdr = h, msg_details = det\<rparr>, rest) \<and>
        hdr_code h = co_msg_create_stream_req \<and> hdr_sid h = sid \<and> hdr_did h = 0 \<and> load16 ord det 0 = rwnd \<and>
        load16 ord det 2 = of_nat (length service) \<and> load16 ord det 4 = of_nat (length method) \<and>
        take (length service) (drop 6 det) = service \<and>
        take (length method) (drop (6 + length service) det) = method"
proof -
  let ?n = "6 + length service + length method"
  let ?host = "mem16 ord rwnd @ mem16 ord (of_nat (length service)) @ mem16 ord (of_nat (length method)) @ service @ method"
  let ?h = "set_crc ord (mk_hdr co_msg_create_stream_req sid 0 ?n) ?host"
  from assms have "hdr = hdr_mem ord (htondr ord ?h)"
    and "pld = mem16 ord (htons ord rwnd) @ mem16 ord (htons ord (of_nat (length service))) @
        mem16 ord (htons ord (of_nat (length method))) @ service @ method"
    by (auto simp: corpc_proto_send_create_stream_request_def Let_def append_eq_append_conv add.assoc)
  with assms recv_msg_request [of sock ord ?h pld rest rwnd _ _ "service @ method" msg] unat_pldsize [of ?n]
  show ?thesis by (simp add: add.commute add.left_commute)
qed

lemma responce_roundtrip:
  assumes "corpc_proto_send_create_stream_responce ord tx sid did rwnd status = (True, [hdr @ pld])"
    and "length hdr = 12" "arrives sock hdr pld rest"
  shows "\<exists>h det. corpc_proto_recv_msg ord sock msg = (Recv_Ok, \<lparr>msg_hdr = h, msg_details = det\<rparr>, rest) \<and>
        hdr_code h = co_msg_create_stream_resp \<and> hdr_sid h = sid \<and> hdr_did h = did \<and>
        load16 ord det 0 = status \<and> load16 ord det 2 = rwnd"
proof -
  let ?h = "set_crc ord (mk_hdr co_msg_create_stream_resp sid did 4) (mem16 ord status @ mem16 ord rwnd)"
  from assms have "hdr = hdr_mem ord (htondr ord ?h)"
    and "pld = mem16 ord (htons ord status) @ mem16 ord (htons ord rwnd)"
    by (auto simp: corpc_proto_send_create_stream_responce_def Let_def append_eq_append_conv)
  with assms recv_msg_responce [of sock ord ?h pld rest status rwnd msg] show ?thesis by simp
qed

lemma close_roundtrip:
  assumes "corpc_proto_send_close_stream ord tx sid did status = (True, [hdr @ pld])"
    and "length hdr = 12" "arrives sock hdr pld rest"
  shows "\<exists>h det. corpc_proto_recv_msg ord sock msg = (Recv_Ok, \<lparr>msg_hdr = h, msg_details = det\<rparr>, rest) \<and>
        hdr_code h = co_msg_close_stream_req \<and> hdr_sid h = sid \<and> hdr_did h = did \<and> load16 ord det 0 = status"
proof -
  let ?h = "set_crc ord (mk_hdr co_msg_close_stream_req sid did 2) (mem16 ord status)"
  from assms have "hdr = hdr_mem ord (htondr ord ?h)" and "pld = mem16 ord (htons ord status)"
    by (auto simp: corpc_proto_send_close_stream_def Let_def append_eq_append_conv)
  with assms recv_msg_close [of sock ord ?h pld rest status msg] show ?thesis by simp
qed

lemma data_ack_roundtrip:
  assumes "corpc_proto_send_data_ack ord tx sid did = (True, [hdr @ pld])"
    and "length hdr = 12" "arrives sock hdr pld rest"
  shows "\<exists>h det. corpc_proto_recv_msg ord sock msg = (Recv_Ok, \<lparr>msg_hdr = h, msg_details = det\<rparr>, rest) \<and>
        hdr_code h = co_msg_data_ack \<and> hdr_sid h = sid \<and> hdr_did h = did"
proof -
  let ?h = "set_crc ord (mk_hdr co_msg_data_ack sid did 0) []"
  from assms(1) have "hdr_mem ord (htondr ord ?h) = hdr @ pld"
    by (simp add: corpc_proto_send_data_ack_def Let_def)
  moreover from this assms(2) have "pld = []"
    using length_mem(4) [of ord "htondr ord ?h"] by simp
  ultimately have "hdr = hdr_mem ord (htondr ord ?h) \<and> pld = []" by simp
  with assms recv_msg_ack [of sock ord ?h rest msg] show ?thesis by simp
qed




section \<open>Integrity\<close>

lemma calc_crc_burst:
  assumes "length xs = length ys" "length xs \<le> 4" "xs \<noteq> ys"
  shows "calc_crc ord h (pre @ xs @ post) \<noteq> calc_crc ord h (pre @ ys @ post)"
  using cf_crc32_update_burst [OF assms] by (simp add: calc_crc_def)

text \<open>
  C13. A data message whose payload was changed on the way, inside at most four consecutive bytes,
  is rejected by the checksum test and the channel is told of a protocol error.
\<close>

theorem corpc_corrupted_data_rejected:
  assumes "corpc_proto_send_data ord tx sid did (pre @ xs @ post) = (True, [hdr, pld])"
    and "length (pre @ xs @ post) \<le> CORPC_MAX_PAYLOAD_SIZE"
    and "length ys = length xs" "length xs \<le> 4" "ys \<noteq> xs"
    and "arrives sock hdr (pre @ ys @ post) rest"
  shows "\<exists>msg'. corpc_proto_recv_msg ord sock msg = (Recv_Crc, msg', rest)"
proof -
  let ?h = "set_crc ord (mk_hdr co_msg_data sid did (length (pre @ xs @ post))) (pre @ xs @ post)"
  have "hdr = hdr_mem ord (htondr ord ?h)"
    using assms(1) by (auto simp: corpc_proto_send_data_def Let_def split: if_splits)
  with recv_msg_data [of sock ord ?h "pre @ ys @ post" rest msg] assms
    unat_pldsize [OF assms(2)] calc_crc_burst [of ys xs ord _ pre post]
  show ?thesis by simp
qed

theorem corpc_corrupted_data_rejected_witness:
  "\<exists>hdr msg'. corpc_proto_send_data LITTLE_ENDIAN (\<lambda>b. int (length b)) 7 9 ([1] @ [2] @ [3]) = (True, [hdr, [1, 2, 3]]) \<and>
     corpc_proto_recv_msg LITTLE_ENDIAN [hdr, [1, 6, 3]] example_msg = (Recv_Crc, msg', [])"
proof -
  obtain hdr where snd: "corpc_proto_send_data LITTLE_ENDIAN (\<lambda>b. int (length b)) 7 9 ([1] @ [2] @ [3]) = (True, [hdr, [1, 2, 3]])"
    by (simp add: corpc_proto_send_data_def sock_send_def Let_def)
  have "arrives [hdr, [1, 6, 3]] hdr ([1] @ [6] @ [3]) []"
    unfolding arrives_def by (intro exI [of _ "[]"] exI [of _ "[]"]) (simp add: feed_def)
  from corpc_corrupted_data_rejected [OF snd _ _ _ _ this, of example_msg] snd show ?thesis
    by (auto simp: CORPC_MAX_PAYLOAD_SIZE_def)
qed

text \<open>
  One receive call per part: when a segment ends inside of the header or inside of the payload,
  the message is not assembled from the following segment and the receive fails, whatever follows.
  A data message of more bytes than one segment carries is never received.
\<close>

theorem corpc_short_read_fails:
  fixes ord hdr
  defines "h \<equiv> ntohdr ord (hdr_load ord hdr)"
  shows "(length s < 12 \<longrightarrow> fst (corpc_proto_recv_msg ord (s # ss) msg) = Recv_Io) \<and>
    (length hdr = 12 \<and> hdr_code h = co_msg_data \<and> length p < unat (hdr_pldsize h) \<and>
     unat (hdr_pldsize h) \<le> CORPC_MAX_PAYLOAD_SIZE \<longrightarrow>
       fst (corpc_proto_recv_msg ord (hdr # p # ss) msg) = Recv_Io)"
  unfolding h_def
  by (auto simp: corpc_proto_recv_msg_def co_proto_read_def recv_body_def recv_details_def co_msg_codes Let_def)

theorem corpc_short_read_fails_witness:
  "fst (corpc_proto_recv_msg LITTLE_ENDIAN ([1, 2, 3] # [[4]]) example_msg) = Recv_Io"
  using corpc_short_read_fails [of "[1, 2, 3]" LITTLE_ENDIAN "[[4]]" example_msg "[]" "[]"] by simp

text \<open>
  The checksum covers the fields in host byte order, so it depends on the sender's byte order: an
  acknowledgement whose stream ids read the same in both orders is rejected by a host of the
  other order.
\<close>

lemma corpc_ack_other_order_rejected:
  assumes "corpc_proto_send_data_ack LITTLE_ENDIAN tx sid did = (True, [buf])"
    and "htons LITTLE_ENDIAN sid = sid" "htons LITTLE_ENDIAN did = did"
  shows "\<exists>msg'. corpc_proto_recv_msg BIG_ENDIAN [buf] msg = (Recv_Crc, msg', [])"
proof -
  let ?h = "set_crc LITTLE_ENDIAN (mk_hdr co_msg_data_ack sid did 0) []"
  have wire: "mem16 BIG_ENDIAN w = mem16 LITTLE_ENDIAN (htons LITTLE_ENDIAN w)" for w
    by (simp add: mem16_def htons_def) (intro conjI bit_word_eqI; auto simp: bit_simps dest: bit_imp_le_length)
  have wire4: "mem32 BIG_ENDIAN w = mem32 LITTLE_ENDIAN (htonl LITTLE_ENDIAN w)" for w
    unfolding mem32_def htonl_def htobe32_def byte_order.case wire
    by (intro arg_cong2 [where f = append] arg_cong [where f = "mem16 LITTLE_ENDIAN"] bit_word_eqI)
      (auto simp: bit_simps bit_bswap32 htons_def add.commute dest: bit_imp_le_length)
  have be: "htons BIG_ENDIAN w = w" "htonl BIG_ENDIAN v = v" for w v
    by (simp_all add: htons_def htonl_def htobe32_def)
  have buf: "buf = hdr_mem BIG_ENDIAN (htondr BIG_ENDIAN ?h)"
    using assms(1) by (auto simp: corpc_proto_send_data_ack_def Let_def hdr_mem_def hdr_tail_def htondr_def wire wire4 be)
  have "arrives [buf] buf [] []"
    unfolding arrives_def buf by (intro exI [of _ "[]"] exI [of _ "[]"]) (simp add: feed_def)
  moreover have "calc_crc BIG_ENDIAN ?h [] \<noteq> hdr_crc ?h"
  proof -
    let ?post = "mem16 LITTLE_ENDIAN sid @ mem16 LITTLE_ENDIAN did @ [0, 0]"
    have "hdr_tail BIG_ENDIAN ?h = [0, 5] @ ?post" "hdr_tail LITTLE_ENDIAN ?h = [5, 0] @ ?post"
      using assms(2,3) by (simp_all add: hdr_tail_def wire, simp_all add: mem16_def htons_def co_msg_codes)
    then show ?thesis
      using cf_crc32_update_burst [of "[0, 5]" "[5, 0]" cf_crc32_begin ?post]
      by (simp add: calc_crc_def)
  qed
  ultimately show ?thesis using recv_msg_ack [of "[buf]" BIG_ENDIAN ?h "[]" msg] by (simp add: buf)
qed

end
