(* ===== verification/Corpc_Channel.thy ===== *)
theory Corpc_Channel
  imports Corpc_Proto Ccarray
begin

text \<open>
  Channels and streams of src/corpc/corpc-channel.c: the stream and channel objects, the
  per-channel write lock, the message handlers of the channel thread, and the client operations
  that open, read, write and close streams. The theory proves what each handler does on each
  branch and that no operation leaves a live stream without its channel.

  Every access to channels and streams happens under one global lock. A definition here is one
  section between taking and releasing that lock, or the composition of such sections; a call
  that waits (\<open>channel_state_wait\<close>) releases the lock, and what the other threads did meanwhile is
  an argument: a list of state changes, one per wake-up. Objects live in maps from addresses;
  an access to an address that is not allocated is undefined.
\<close>

section \<open>Objects\<close>

datatype corpc_channel_state =
    corpc_channel_state_idle | corpc_channel_state_resolving | corpc_channel_state_connecting
  | corpc_channel_state_accepting | corpc_channel_state_established
  | corpc_channel_state_disconnecting | corpc_channel_state_closed

datatype corpc_stream_state =
    corpc_stream_created | corpc_stream_opening | corpc_stream_too_many_streams
  | corpc_stream_no_such_service | corpc_stream_no_such_method | corpc_stream_local_internal_error
  | corpc_stream_remote_internal_error | corpc_stream_protocol_error | corpc_stream_established
  | corpc_stream_closed | corpc_stream_closed_by_remote_party

datatype create_stream_responce_code =
    create_stream_responce_ok | create_stream_responce_no_stream_resources
  | create_stream_responce_no_service | create_stream_responce_no_method
  | create_stream_responce_internal_error | create_stream_responce_protocol_error

fun responce_code :: "create_stream_responce_code \<Rightarrow> u16" where
  "responce_code create_stream_responce_ok = 0"
| "responce_code create_stream_responce_no_stream_resources = 1"
| "responce_code create_stream_responce_no_service = 2"
| "responce_code create_stream_responce_no_method = 3"
| "responce_code create_stream_responce_internal_error = 4"
| "responce_code create_stream_responce_protocol_error = 5"

text \<open>The receive queue holds the messages themselves: a push hands the message object over.\<close>

record corpc_stream =
  st_channel :: "nat option"
  st_rxq :: "comsg ccfifo"
  st_state :: corpc_stream_state
  st_sid :: u16
  st_did :: u16
  st_rwnd :: u16

record corpc_service_method =
  method_name :: "u8 list"
  method_proc :: nat

record corpc_service =
  service_name :: "u8 list"
  service_methods :: "corpc_service_method list"

record corpc_channel =
  ch_ssl_sock :: "nat option"
  ch_client_context :: nat
  ch_streams :: "nat ccarray"
  ch_services :: "corpc_service list option"
  ch_refs :: int
  ch_write_lock :: bool
  ch_state :: corpc_channel_state
  ch_connect_address :: "u8 list option"
  ch_connect_port :: u16
  ch_connect_tmout_ms :: int
  ch_onaccept :: bool

text \<open>
  The process: live channels and streams, the counter of \<open>gensid\<close>, errno, and the messages
  written to the sockets so far, oldest first.
\<close>

datatype out_msg =
    Out_create_stream_request u16 u16 "u8 list" "u8 list"
  | Out_create_stream_responce u16 u16 u16 u16
  | Out_close_stream u16 u16 u16
  | Out_data_ack u16 u16
  | Out_data u16 u16 "u8 list"

record corpc_world =
  w_channels :: "nat \<rightharpoonup> corpc_channel"
  w_streams :: "nat \<rightharpoonup> corpc_stream"
  w_gsid :: u16
  w_errno :: errno
  w_out :: "(nat option \<times> out_msg) list"

definition set_errno :: "errno \<Rightarrow> corpc_world \<Rightarrow> corpc_world" where
  "set_errno e w = w\<lparr>w_errno := e\<rparr>"

definition put_channel :: "nat \<Rightarrow> corpc_channel \<Rightarrow> corpc_world \<Rightarrow> corpc_world" where
  "put_channel c ch w = w\<lparr>w_channels := (w_channels w)(c \<mapsto> ch)\<rparr>"

definition put_stream :: "nat \<Rightarrow> corpc_stream \<Rightarrow> corpc_world \<Rightarrow> corpc_world" where
  "put_stream s st w = w\<lparr>w_streams := (w_streams w)(s \<mapsto> st)\<rparr>"

lemma world_sel [simp]:
  "w_channels (put_channel c ch w) = (w_channels w)(c \<mapsto> ch)" "w_streams (put_channel c ch w) = w_streams w"
  "w_streams (put_stream s st w) = (w_streams w)(s \<mapsto> st)" "w_channels (put_stream s st w) = w_channels w"
  "w_out (put_channel c ch w) = w_out w" "w_out (put_stream s st w) = w_out w"
  "w_channels (set_errno e w) = w_channels w" "w_streams (set_errno e w) = w_streams w"
  "w_out (set_errno e w) = w_out w" "w_gsid (set_errno e w) = w_gsid w" "w_errno (set_errno e w) = e"
  "w_gsid (put_channel c ch w) = w_gsid w" "w_gsid (put_stream s st w) = w_gsid w"
  "w_errno (put_channel c ch w) = w_errno w" "w_errno (put_stream s st w) = w_errno w"
  by (simp_all add: put_channel_def put_stream_def set_errno_def)

section \<open>Channel life cycle\<close>

definition corpc_channel_established :: "corpc_channel \<Rightarrow> bool" where
  "corpc_channel_established ch \<longleftrightarrow> ch_state ch = corpc_channel_state_established"

text \<open>The callback \<open>onstatechanged\<close> and the broadcast to waiting threads do not change the state.\<close>

definition set_channel_state :: "nat \<Rightarrow> corpc_channel_state \<Rightarrow> corpc_world \<Rightarrow> corpc_world ub" where
  "set_channel_state c s w = do { ch \<leftarrow> w_channels w c; Some (put_channel c (ch\<lparr>ch_state := s\<rparr>) w) }"

definition corpc_channel_cleanup :: "corpc_channel \<Rightarrow> corpc_channel" where
  "corpc_channel_cleanup ch =
     ch\<lparr>ch_connect_address := None,
        ch_streams := (case ccarray_cleanup (Some (ch_streams ch)) of Some a \<Rightarrow> a | None \<Rightarrow> ch_streams ch)\<rparr>"

text \<open>
  \<open>calloc\<close> zeroes the object. \<open>arr_ok\<close> and \<open>dup_ok\<close> are the outcomes of the allocations of the
  stream array and of the copy of the address; \<open>opts\<close> holds address, port, timeout and services.
\<close>

definition calloc_channel :: corpc_channel where
  "calloc_channel =
     \<lparr>ch_ssl_sock = None, ch_client_context = 0,
      ch_streams = \<lparr>arr_items = None, arr_capacity = 0, arr_size = 0, arr_item_size = 0\<rparr>,
      ch_services = None, ch_refs = 0, ch_write_lock = False, ch_state = corpc_channel_state_idle,
      ch_connect_address = None, ch_connect_port = 0, ch_connect_tmout_ms = 0, ch_onaccept = False\<rparr>"

record corpc_channel_open_args =
  connect_address :: "u8 list option"
  connect_port :: u16
  connect_tmout_ms :: int
  services :: "corpc_service list option"

definition corpc_channel_init ::
  "bool \<Rightarrow> bool \<Rightarrow> corpc_channel \<Rightarrow> corpc_channel_open_args option \<Rightarrow> bool \<times> corpc_channel" where
  "corpc_channel_init arr_ok dup_ok ch opts =
     (let ch = ch\<lparr>ch_state := corpc_channel_state_idle, ch_refs := 1\<rparr> in
      case ccarray_init (\<lambda>_. arr_ok) (Some (ch_streams ch)) 256 8 of
        (True, Some arr) \<Rightarrow>
          (let ch = ch\<lparr>ch_streams := arr\<rparr> in
           case opts of
             None \<Rightarrow> (True, ch)
           | Some args \<Rightarrow>
               (case connect_address args of
                  Some (b # bs) \<Rightarrow>
                    if dup_ok then
                      (True, ch\<lparr>ch_connect_address := Some (b # bs), ch_connect_port := connect_port args,
                                ch_connect_tmout_ms := connect_tmout_ms args, ch_services := services args\<rparr>)
                    else (False, corpc_channel_cleanup ch)
                | _ \<Rightarrow> (True, ch\<lparr>ch_connect_port := connect_port args,
                                 ch_connect_tmout_ms := connect_tmout_ms args, ch_services := services args\<rparr>)))
      | _ \<Rightarrow> (False, corpc_channel_cleanup ch))"

definition channel_destroy :: "nat \<Rightarrow> corpc_world \<Rightarrow> corpc_world ub" where
  "channel_destroy c w =
     do { _ \<leftarrow> w_channels w c; Some (w\<lparr>w_channels := (w_channels w)(c := None)\<rparr>) }"

text \<open>\<open>addr\<close> is the address \<open>calloc\<close> returned, unused so far; \<open>None\<close> when it failed.\<close>

definition corpc_channel_new ::
  "nat option \<Rightarrow> bool \<Rightarrow> bool \<Rightarrow> corpc_channel_open_args option \<Rightarrow> corpc_world \<Rightarrow> nat option \<times> corpc_world" where
  "corpc_channel_new addr arr_ok dup_ok opts w =
     (case addr of
        None \<Rightarrow> (None, w)
      | Some c \<Rightarrow>
          (case corpc_channel_init arr_ok dup_ok calloc_channel opts of
             (True, ch) \<Rightarrow> (Some c, put_channel c (ch\<lparr>ch_refs := 1\<rparr>) w)
           | (False, ch) \<Rightarrow> (None, w)))"

definition corpc_channel_addref_internal :: "nat option \<Rightarrow> corpc_world \<Rightarrow> corpc_world ub" where
  "corpc_channel_addref_internal cp w =
     (case cp of
        None \<Rightarrow> Some w
      | Some c \<Rightarrow> do { ch \<leftarrow> w_channels w c; Some (put_channel c (ch\<lparr>ch_refs := ch_refs ch + 1\<rparr>) w) })"

definition corpc_channel_release_internal :: "nat option \<Rightarrow> corpc_world \<Rightarrow> corpc_world ub" where
  "corpc_channel_release_internal cp w =
     (case cp of
        None \<Rightarrow> Some w
      | Some c \<Rightarrow>
          do { ch \<leftarrow> w_channels w c;
               let ch' = ch\<lparr>ch_refs := ch_refs ch - 1\<rparr>;
               let w' = put_channel c ch' w;
               if ch_refs ch' < 1 \<and> ccarray_size (Some (ch_streams ch')) < 1
               then channel_destroy c w' else Some w' })"

text \<open>\<open>co_ssl_socket_close\<close> shuts the socket down; the object keeps its address.\<close>

definition corpc_channel_close_internal :: "nat option \<Rightarrow> corpc_world \<Rightarrow> corpc_world ub" where
  "corpc_channel_close_internal cp w =
     (case cp of
        None \<Rightarrow> Some w
      | Some c \<Rightarrow>
          do { w \<leftarrow> set_channel_state c corpc_channel_state_closed w;
               corpc_channel_release_internal (Some c) w })"

section \<open>The write lock\<close>

datatype lock_result = Locked | Not_connected | Wait

text \<open>
  One pass of the loop of \<open>acquire_write_lock\<close>. Every caller passes a negative timeout, so the
  loop ends only with the lock or with a lost connection.
\<close>

definition write_lock_pass :: "nat option \<Rightarrow> nat \<Rightarrow> corpc_world \<Rightarrow> (lock_result \<times> corpc_world) ub" where
  "write_lock_pass stp c w =
     do { ch \<leftarrow> w_channels w c;
          st \<leftarrow> (case stp of None \<Rightarrow> Some None | Some s \<Rightarrow> map_option Some (w_streams w s));
          if \<not> corpc_channel_established ch \<or>
             (case st of None \<Rightarrow> False | Some st \<Rightarrow> st_state st \<noteq> corpc_stream_established)
          then Some (Not_connected, set_errno ENOTCONN w)
          else if \<not> ch_write_lock ch \<and> (case st of None \<Rightarrow> True | Some st \<Rightarrow> st_rwnd st > 0)
          then Some (Locked, put_channel c (ch\<lparr>ch_write_lock := True\<rparr>) w)
          else Some (Wait, w) }"

text \<open>
  The loop. \<open>waits\<close> holds the effect of the other threads during each \<open>channel_state_wait\<close>;
  the result \<open>None\<close> says that the thread is still waiting after them.
\<close>

fun acquire_write_lock ::
  "(corpc_world \<Rightarrow> corpc_world) list \<Rightarrow> nat option \<Rightarrow> nat \<Rightarrow> corpc_world \<Rightarrow> (bool option \<times> corpc_world) ub" where
  "acquire_write_lock waits stp c w =
     do { (r, w') \<leftarrow> write_lock_pass stp c w;
          (case r of
             Locked \<Rightarrow> Some (Some True, w')
           | Not_connected \<Rightarrow> Some (Some False, w')
           | Wait \<Rightarrow> (case waits of
                        [] \<Rightarrow> Some (None, w')
                      | f # fs \<Rightarrow> acquire_write_lock fs stp c (f w'))) }"

definition release_write_lock :: "nat \<Rightarrow> corpc_world \<Rightarrow> corpc_world ub" where
  "release_write_lock c w =
     do { ch \<leftarrow> w_channels w c; Some (put_channel c (ch\<lparr>ch_write_lock := False\<rparr>) w) }"

text \<open>
  A message handed to the channel's socket; \<open>ok\<close> tells whether \<open>co_ssl_socket_send\<close> took all of
  its bytes.
\<close>

definition emit :: "bool \<Rightarrow> nat \<Rightarrow> out_msg \<Rightarrow> corpc_world \<Rightarrow> corpc_world ub" where
  "emit ok c m w =
     do { ch \<leftarrow> w_channels w c;
          Some (if ok then w\<lparr>w_out := w_out w @ [(ch_ssl_sock ch, m)]\<rparr> else w) }"

text \<open>
  The common shape of the send routines: take the write lock, send the message that \<open>mk\<close>
  describes, release the lock. The result \<open>Some fok\<close> is the return value.
\<close>

definition send_locked ::
  "(corpc_world \<Rightarrow> corpc_world) list \<Rightarrow> bool \<Rightarrow> nat option \<Rightarrow> nat \<Rightarrow> (corpc_world \<Rightarrow> out_msg ub) \<Rightarrow>
   (corpc_world \<Rightarrow> corpc_world ub) \<Rightarrow> corpc_world \<Rightarrow> (bool option \<times> corpc_world) ub" where
  "send_locked waits ok stp c mk sent w =
     do { (r, w) \<leftarrow> acquire_write_lock waits stp c w;
          (case r of
             None \<Rightarrow> Some (None, w)
           | Some False \<Rightarrow> Some (Some False, w)
           | Some True \<Rightarrow>
               do { m \<leftarrow> mk w;
                    w \<leftarrow> emit ok c m w;
                    w \<leftarrow> (if ok then sent w else Some w);
                    w \<leftarrow> release_write_lock c w;
                    Some (Some ok, w) }) }"

section \<open>Streams\<close>

definition gensid :: "corpc_world \<Rightarrow> u16 \<times> corpc_world" where
  "gensid w = (let sid = w_gsid w + 1 in (sid, w\<lparr>w_gsid := sid\<rparr>))"

definition srwnd :: "corpc_stream option \<Rightarrow> u16" where
  "srwnd st = (case st of None \<Rightarrow> 0 | Some st \<Rightarrow> of_nat (fifo_capacity (st_rxq st) - fifo_size (st_rxq st)))"

definition send_create_stream_request ::
  "(corpc_world \<Rightarrow> corpc_world) list \<Rightarrow> bool \<Rightarrow> nat \<Rightarrow> u8 list \<Rightarrow> u8 list \<Rightarrow> corpc_world \<Rightarrow> (bool option \<times> corpc_world) ub" where
  "send_create_stream_request waits ok s service method w =
     do { st \<leftarrow> w_streams w s;
          c \<leftarrow> st_channel st;
          send_locked waits ok None c
            (\<lambda>w. do { st \<leftarrow> w_streams w s;
                      Some (Out_create_stream_request (st_sid st) (srwnd (Some st)) service method) }) Some w }"

definition send_create_stream_responce ::
  "(corpc_world \<Rightarrow> corpc_world) list \<Rightarrow> bool \<Rightarrow> nat \<Rightarrow> u16 \<Rightarrow> u16 \<Rightarrow> u16 \<Rightarrow> u16 \<Rightarrow> corpc_world \<Rightarrow> (bool option \<times> corpc_world) ub" where
  "send_create_stream_responce waits ok c sid did rwnd status w =
     send_locked waits ok None c (\<lambda>w. Some (Out_create_stream_responce sid did rwnd status)) Some w"

definition send_close_stream_notify ::
  "(corpc_world \<Rightarrow> corpc_world) list \<Rightarrow> bool \<Rightarrow> nat \<Rightarrow> corpc_world \<Rightarrow> (bool option \<times> corpc_world) ub" where
  "send_close_stream_notify waits ok s w =
     do { st \<leftarrow> w_streams w s;
          c \<leftarrow> st_channel st;
          send_locked waits ok None c
            (\<lambda>w. do { st \<leftarrow> w_streams w s; Some (Out_close_stream (st_sid st) (st_did st) 0) }) Some w }"

definition send_data_ack ::
  "(corpc_world \<Rightarrow> corpc_world) list \<Rightarrow> bool \<Rightarrow> nat \<Rightarrow> corpc_world \<Rightarrow> (bool option \<times> corpc_world) ub" where
  "send_data_ack waits ok s w =
     do { st \<leftarrow> w_streams w s;
          c \<leftarrow> st_channel st;
          send_locked waits ok None c
            (\<lambda>w. do { st \<leftarrow> w_streams w s; Some (Out_data_ack (st_sid st) (st_did st)) }) Some w }"

text \<open>The send window is decremented after the data went out, in a locked section of its own.\<close>

definition dec_rwnd :: "nat \<Rightarrow> corpc_world \<Rightarrow> corpc_world ub" where
  "dec_rwnd s w = do { st \<leftarrow> w_streams w s; Some (put_stream s (st\<lparr>st_rwnd := st_rwnd st - 1\<rparr>) w) }"

definition send_data ::
  "(corpc_world \<Rightarrow> corpc_world) list \<Rightarrow> bool \<Rightarrow> nat \<Rightarrow> u8 list \<Rightarrow> corpc_world \<Rightarrow> (bool option \<times> corpc_world) ub" where
  "send_data waits ok s data w =
     do { st \<leftarrow> w_streams w s;
          c \<leftarrow> st_channel st;
          send_locked waits ok (Some s) c
            (\<lambda>w. do { st \<leftarrow> w_streams w s; Some (Out_data (st_sid st) (st_did st) data) }) (dec_rwnd s) w }"

definition CORPC_STREAM_DEFAULT_QUEUE_SIZE :: nat where
  "CORPC_STREAM_DEFAULT_QUEUE_SIZE = 8"

record corpc_stream_opts =
  opt_channel :: nat
  opt_state :: corpc_stream_state
  opt_sid :: u16
  opt_did :: u16
  opt_rwnd :: u16

definition zero_stream :: corpc_stream where
  "zero_stream =
     \<lparr>st_channel = None,
      st_rxq = \<lparr>fifo_items = None, fifo_capacity = 0, fifo_size = 0, fifo_item_size = 0, fifo_first = 0, fifo_last = 0\<rparr>,
      st_state = corpc_stream_created, st_sid = 0, st_did = 0, st_rwnd = 0\<rparr>"

definition corpc_stream_init :: "bool \<Rightarrow> corpc_stream_opts \<Rightarrow> bool \<times> corpc_stream" where
  "corpc_stream_init fifo_ok args =
     (case ccfifo_init (\<lambda>_. fifo_ok) (st_rxq zero_stream) CORPC_STREAM_DEFAULT_QUEUE_SIZE 8 of
        (True, q) \<Rightarrow>
          (True, \<lparr>st_channel = Some (opt_channel args), st_rxq = q, st_state = opt_state args,
                  st_sid = opt_sid args, st_did = opt_did args, st_rwnd = opt_rwnd args\<rparr>)
      | (False, q) \<Rightarrow> (False, zero_stream\<lparr>st_rxq := q\<rparr>))"

definition corpc_stream_destroy :: "nat \<Rightarrow> corpc_world \<Rightarrow> corpc_world ub" where
  "corpc_stream_destroy s w =
     do { _ \<leftarrow> w_streams w s; Some (w\<lparr>w_streams := (w_streams w)(s := None)\<rparr>) }"

text \<open>\<open>addr\<close> is what \<open>malloc\<close> returned, an unused address, or \<open>None\<close>.\<close>

definition corpc_stream_new ::
  "nat option \<Rightarrow> bool \<Rightarrow> corpc_stream_opts \<Rightarrow> corpc_world \<Rightarrow> nat option \<times> corpc_world" where
  "corpc_stream_new addr fifo_ok args w =
     (case addr of
        None \<Rightarrow> (None, w)
      | Some s \<Rightarrow> (case corpc_stream_init fifo_ok args of
                     (True, st) \<Rightarrow> (Some s, put_stream s st w)
                   | (False, st) \<Rightarrow> (None, w)))"

text \<open>The null pointer as stream is undefined behaviour, the caller passes \<open>None\<close> then.\<close>

definition corpc_set_stream_state :: "nat option \<Rightarrow> corpc_stream_state \<Rightarrow> corpc_world \<Rightarrow> corpc_world ub" where
  "corpc_set_stream_state sp state w =
     do { s \<leftarrow> sp; st \<leftarrow> w_streams w s; Some (put_stream s (st\<lparr>st_state := state\<rparr>) w) }"

fun find_stream_loop :: "nat ccarray \<Rightarrow> (nat \<rightharpoonup> corpc_stream) \<Rightarrow> u16 \<Rightarrow> nat list \<Rightarrow> nat option ub" where
  "find_stream_loop arr streams sid [] = Some None"
| "find_stream_loop arr streams sid (i # is) =
     do { p \<leftarrow> ccarray_ppeek arr i;
          s \<leftarrow> p;
          st \<leftarrow> streams s;
          if st_sid st = sid then Some (Some s) else find_stream_loop arr streams sid is }"

definition find_stream_by_sid :: "nat \<Rightarrow> u16 \<Rightarrow> corpc_world \<Rightarrow> nat option ub" where
  "find_stream_by_sid c sid w =
     do { ch \<leftarrow> w_channels w c;
          find_stream_loop (ch_streams ch) (w_streams w) sid [0..<ccarray_size (Some (ch_streams ch))] }"

text \<open>
  \<open>accept_stream\<close> and \<open>create_new_stream\<close>: a stream in state opening is created and registered;
  the result is the stream or the reason for the null pointer.
\<close>

definition register_stream :: "nat \<Rightarrow> nat \<Rightarrow> corpc_world \<Rightarrow> corpc_world ub" where
  "register_stream c s w =
     do { ch \<leftarrow> w_channels w c;
          (_, arr) \<leftarrow> ccarray_ppush_back (ch_streams ch) s;
          Some (put_channel c (ch\<lparr>ch_streams := arr\<rparr>) w) }"

definition unregister_stream :: "nat \<Rightarrow> nat \<Rightarrow> corpc_world \<Rightarrow> corpc_world ub" where
  "unregister_stream c s w =
     do { ch \<leftarrow> w_channels w c;
          (_, arr) \<leftarrow> ccarray_erase_item (ch_streams ch) s;
          Some (put_channel c (ch\<lparr>ch_streams := arr\<rparr>) w) }"

definition accept_stream ::
  "nat option \<Rightarrow> bool \<Rightarrow> nat \<Rightarrow> u16 \<Rightarrow> u16 \<Rightarrow> corpc_world \<Rightarrow> ((create_stream_responce_code + nat) \<times> corpc_world) ub" where
  "accept_stream addr fifo_ok c did rwnd w =
     do { ch \<leftarrow> w_channels w c;
          if ccarray_size (Some (ch_streams ch)) \<ge> ccarray_capacity (Some (ch_streams ch))
          then Some (Inl create_stream_responce_no_stream_resources, w)
          else
            (let (sid, w) = gensid w in
             case corpc_stream_new addr fifo_ok
                    \<lparr>opt_channel = c, opt_state = corpc_stream_opening, opt_sid = sid, opt_did = did, opt_rwnd = rwnd\<rparr> w of
               (None, w) \<Rightarrow> Some (Inl create_stream_responce_internal_error, w)
             | (Some s, w) \<Rightarrow> do { w \<leftarrow> register_stream c s w; Some (Inr s, w) }) }"

definition create_new_stream :: "nat option \<Rightarrow> bool \<Rightarrow> nat \<Rightarrow> corpc_world \<Rightarrow> (nat option \<times> corpc_world) ub" where
  "create_new_stream addr fifo_ok c w =
     do { ch \<leftarrow> w_channels w c;
          if ccarray_size (Some (ch_streams ch)) \<ge> ccarray_capacity (Some (ch_streams ch))
          then Some (None, set_errno ENOSR w)
          else
            (let (sid, w) = gensid w in
             case corpc_stream_new addr fifo_ok
                    \<lparr>opt_channel = c, opt_state = corpc_stream_opening, opt_sid = sid, opt_did = 0, opt_rwnd = 0\<rparr> w of
               (None, w) \<Rightarrow> Some (None, w)
             | (Some s, w) \<Rightarrow> do { w \<leftarrow> register_stream c s w; Some (Some s, w) }) }"

section \<open>Message handlers\<close>

text \<open>
  The names in a create-stream request: copied out of the message, as many bytes as its length
  fields say, and compared as C strings with the registered names. A copy beyond the message
  object is undefined.
\<close>

definition c_str :: "u8 list \<Rightarrow> u8 list" where
  "c_str bs = takeWhile (\<lambda>b. b \<noteq> 0) bs"

definition lookup_method ::
  "byte_order \<Rightarrow> corpc_service list option \<Rightarrow> u8 list \<Rightarrow> (create_stream_responce_code + corpc_service_method) ub" where
  "lookup_method ord srvs details =
     (case srvs of
        None \<Rightarrow> Some (Inl create_stream_responce_no_service)
      | Some srvs \<Rightarrow>
          (let snl = unat (load16 ord details 2); mnl = unat (load16 ord details 4); pack = drop 6 details in
           if length pack < snl + mnl then None
           else
             (case find (\<lambda>s. c_str (take snl pack) = service_name s) srvs of
                None \<Rightarrow> Some (Inl create_stream_responce_no_service)
              | Some srv \<Rightarrow>
                  (case find (\<lambda>m. c_str (take mnl (drop snl pack)) = method_name m) (service_methods srv) of
                     None \<Rightarrow> Some (Inl create_stream_responce_no_method)
                   | Some mth \<Rightarrow> Some (Inr mth)))))"

text \<open>
  The environment of a create-stream request: the outcome of the allocations, of starting the
  method's thread, of the response's transmission, and the waits for the write lock.
\<close>

record request_env =
  env_addr :: "nat option"
  env_fifo_ok :: bool
  env_start_ok :: bool
  env_waits :: "(corpc_world \<Rightarrow> corpc_world) list"
  env_send_ok :: bool

text \<open>The part up to the label \<open>end\<close>: the stream, when one was created, the sid and the status.\<close>

definition request_stream ::
  "byte_order \<Rightarrow> request_env \<Rightarrow> nat \<Rightarrow> comsg \<Rightarrow> corpc_world \<Rightarrow>
   ((nat option \<times> u16 \<times> create_stream_responce_code) \<times> corpc_world) ub" where
  "request_stream ord env c msg w =
     do { ch \<leftarrow> w_channels w c;
          r \<leftarrow> lookup_method ord (ch_services ch) (msg_details msg);
          (case r of
             Inl status \<Rightarrow> Some ((None, 0, status), w)
           | Inr mth \<Rightarrow>
               do { (a, w) \<leftarrow> accept_stream (env_addr env) (env_fifo_ok env) c
                                (hdr_sid (msg_hdr msg)) (load16 ord (msg_details msg) 0) w;
                    (case a of
                       Inl status \<Rightarrow> Some ((None, 0, status), w)
                     | Inr s \<Rightarrow>
                         if \<not> env_start_ok env then Some ((Some s, 0, create_stream_responce_internal_error), w)
                         else do { st \<leftarrow> w_streams w s;
                                   Some ((Some s, st_sid st, create_stream_responce_ok), w) }) }) }"

definition on_create_stream_request ::
  "byte_order \<Rightarrow> request_env \<Rightarrow> nat \<Rightarrow> comsg \<Rightarrow> corpc_world \<Rightarrow> (bool option \<times> corpc_world) ub" where
  "on_create_stream_request ord env c msg w =
     do { ((sp, sid, status), w) \<leftarrow> request_stream ord env c msg w;
          rwnd \<leftarrow> (case sp of None \<Rightarrow> Some (srwnd None)
                             | Some s \<Rightarrow> map_option (\<lambda>st. srwnd (Some st)) (w_streams w s));
          (r, w) \<leftarrow> send_create_stream_responce (env_waits env) (env_send_ok env) c sid
                      (hdr_sid (msg_hdr msg)) rwnd (responce_code status) w;
          (case r of
             None \<Rightarrow> Some (None, w)
           | Some _ \<Rightarrow>
               (case sp of
                  None \<Rightarrow> Some (Some True, w)
                | Some s \<Rightarrow>
                    if status = create_stream_responce_ok
                    then do { w \<leftarrow> corpc_set_stream_state (Some s) corpc_stream_established w;
                              Some (Some True, w) }
                    else do { w \<leftarrow> unregister_stream c s w;
                              w \<leftarrow> corpc_stream_destroy s w;
                              Some (Some True, w) })) }"

text \<open>The remaining handlers run under the lock from start to end.\<close>

definition responce_state :: "u16 \<Rightarrow> corpc_stream_state" where
  "responce_state status =
     (if status = responce_code create_stream_responce_ok then corpc_stream_established
      else if status = responce_code create_stream_responce_no_stream_resources then corpc_stream_too_many_streams
      else if status = responce_code create_stream_responce_no_service then corpc_stream_no_such_service
      else if status = responce_code create_stream_responce_no_method then corpc_stream_no_such_method
      else if status = responce_code create_stream_responce_internal_error then corpc_stream_remote_internal_error
      else corpc_stream_protocol_error)"

definition on_create_stream_responce :: "byte_order \<Rightarrow> nat \<Rightarrow> comsg \<Rightarrow> corpc_world \<Rightarrow> (bool \<times> corpc_world) ub" where
  "on_create_stream_responce ord c msg w =
     do { sp \<leftarrow> find_stream_by_sid c (hdr_did (msg_hdr msg)) w;
          (case sp of
             None \<Rightarrow> Some (False, set_errno EPROTO w)
           | Some s \<Rightarrow>
               do { st \<leftarrow> w_streams w s;
                    if st_state st \<noteq> corpc_stream_opening then Some (True, w)
                    else
                      (let status = load16 ord (msg_details msg) 0;
                           state = responce_state status;
                           st = (if state = corpc_stream_established
                                 then st\<lparr>st_did := hdr_sid (msg_hdr msg), st_rwnd := load16 ord (msg_details msg) 2\<rparr>
                                 else st);
                           fok = (state \<noteq> corpc_stream_protocol_error);
                           w = put_stream s st (if fok then w else set_errno EPROTO w)
                       in do { w \<leftarrow> corpc_set_stream_state (Some s) state w; Some (fok, w) }) }) }"

definition on_close_stream_notify :: "nat \<Rightarrow> comsg \<Rightarrow> corpc_world \<Rightarrow> (bool \<times> corpc_world) ub" where
  "on_close_stream_notify c msg w =
     do { sp \<leftarrow> find_stream_by_sid c (hdr_did (msg_hdr msg)) w;
          (case sp of
             None \<Rightarrow> Some (True, w)
           | Some s \<Rightarrow> do { w \<leftarrow> corpc_set_stream_state (Some s) corpc_stream_closed_by_remote_party w;
                             Some (True, w) }) }"

text \<open>
  \<open>on_data_message\<close>: for an unknown stream the code stores a state through the null pointer, which
  is undefined; a full queue is a protocol error; otherwise the queue takes the message over and
  the caller's pointer becomes null (the first component).
\<close>

definition on_data_message :: "nat \<Rightarrow> comsg \<Rightarrow> corpc_world \<Rightarrow> (comsg option \<times> bool \<times> corpc_world) ub" where
  "on_data_message c msg w =
     do { sp \<leftarrow> find_stream_by_sid c (hdr_did (msg_hdr msg)) w;
          (case sp of
             None \<Rightarrow> do { w \<leftarrow> corpc_set_stream_state None corpc_stream_protocol_error w;
                           Some (Some msg, False, set_errno EPROTO w) }
           | Some s \<Rightarrow>
               do { st \<leftarrow> w_streams w s;
                    if ccfifo_is_full (st_rxq st)
                    then do { w \<leftarrow> corpc_set_stream_state (Some s) corpc_stream_protocol_error w;
                              Some (Some msg, False, set_errno EPROTO w) }
                    else do { (_, q) \<leftarrow> ccfifo_push (st_rxq st) msg;
                              Some (None, True, put_stream s (st\<lparr>st_rxq := q\<rparr>) w) } }) }"

definition on_data_ack :: "nat \<Rightarrow> comsg \<Rightarrow> corpc_world \<Rightarrow> (bool \<times> corpc_world) ub" where
  "on_data_ack c msg w =
     do { sp \<leftarrow> find_stream_by_sid c (hdr_did (msg_hdr msg)) w;
          (case sp of
             None \<Rightarrow> Some (True, w)
           | Some s \<Rightarrow> do { st \<leftarrow> w_streams w s;
                             Some (True, put_stream s (st\<lparr>st_rwnd := st_rwnd st + 1\<rparr>) w) }) }"

text \<open>The switch of the channel thread on a received message; \<open>None\<close> as result: still waiting.\<close>

definition corpc_channel_dispatch ::
  "byte_order \<Rightarrow> request_env \<Rightarrow> nat \<Rightarrow> comsg \<Rightarrow> corpc_world \<Rightarrow> (bool option \<times> corpc_world) ub" where
  "corpc_channel_dispatch ord env c msg w =
     (let code = hdr_code (msg_hdr msg); ret = map_option (\<lambda>(fok, w). (Some fok, w)) in
      if code = co_msg_create_stream_req then on_create_stream_request ord env c msg w
      else if code = co_msg_create_stream_resp then ret (on_create_stream_responce ord c msg w)
      else if code = co_msg_close_stream_req then ret (on_close_stream_notify c msg w)
      else if code = co_msg_data then ret (map_option snd (on_data_message c msg w))
      else if code = co_msg_data_ack then ret (on_data_ack c msg w)
      else Some (Some False, set_errno EPROTO w))"

text \<open>
  The channel thread. It takes a reference, becomes established (after the TLS handshake and the
  \<open>onaccept\<close> callback on the accepting side, whose outcomes are arguments), handles messages until
  a handler or the receive fails, and closes the channel, dropping its reference.
\<close>

definition corpc_channel_thread_start :: "bool \<Rightarrow> bool \<Rightarrow> nat \<Rightarrow> corpc_world \<Rightarrow> (bool \<times> corpc_world) ub" where
  "corpc_channel_thread_start ssl_ok onaccept_ok c w =
     do { w \<leftarrow> corpc_channel_addref_internal (Some c) w;
          ch \<leftarrow> w_channels w c;
          (case ch_state ch of
             corpc_channel_state_connecting \<Rightarrow>
               do { w \<leftarrow> set_channel_state c corpc_channel_state_established w; Some (True, w) }
           | corpc_channel_state_accepting \<Rightarrow>
               if ssl_ok \<and> (ch_onaccept ch \<longrightarrow> onaccept_ok)
               then do { w \<leftarrow> set_channel_state c corpc_channel_state_established w; Some (True, w) }
               else Some (False, w)
           | _ \<Rightarrow> Some (True, w)) }"

fun corpc_channel_loop ::
  "byte_order \<Rightarrow> nat \<Rightarrow> (request_env \<times> comsg) list \<Rightarrow> corpc_world \<Rightarrow> (bool option \<times> corpc_world) ub" where
  "corpc_channel_loop ord c [] w = Some (Some True, w)"
| "corpc_channel_loop ord c ((env, msg) # msgs) w =
     do { (r, w) \<leftarrow> corpc_channel_dispatch ord env c msg w;
          (case r of
             Some True \<Rightarrow> corpc_channel_loop ord c msgs w
           | _ \<Rightarrow> Some (r, w)) }"

definition corpc_channel_thread ::
  "byte_order \<Rightarrow> bool \<Rightarrow> bool \<Rightarrow> nat \<Rightarrow> (request_env \<times> comsg) list \<Rightarrow> corpc_world \<Rightarrow> (bool option \<times> corpc_world) ub" where
  "corpc_channel_thread ord ssl_ok onaccept_ok c msgs w =
     do { (fok, w) \<leftarrow> corpc_channel_thread_start ssl_ok onaccept_ok c w;
          (r, w) \<leftarrow> (if fok then corpc_channel_loop ord c msgs w else Some (Some False, w));
          (case r of
             None \<Rightarrow> Some (None, w)
           | Some _ \<Rightarrow> do { w \<leftarrow> corpc_channel_close_internal (Some c) w; Some (r, w) }) }"

section \<open>Client operations\<close>

definition corpc_channel_accept ::
  "nat option \<Rightarrow> bool \<Rightarrow> bool \<Rightarrow> nat \<Rightarrow> corpc_service list option \<Rightarrow> bool \<Rightarrow> corpc_world \<Rightarrow> (bool \<times> corpc_world) ub" where
  "corpc_channel_accept addr arr_ok sched_ok sock srvs onaccept w =
     (case corpc_channel_new addr arr_ok True None w of
        (None, w) \<Rightarrow> Some (False, w)
      | (Some c, w) \<Rightarrow>
          do { ch \<leftarrow> w_channels w c;
               let w = put_channel c (ch\<lparr>ch_refs := 0, ch_state := corpc_channel_state_accepting,
                         ch_ssl_sock := Some sock, ch_services := srvs, ch_onaccept := onaccept\<rparr>) w;
               if sched_ok then Some (True, w)
               else do { w \<leftarrow> channel_destroy c w; Some (False, w) } })"

text \<open>
  Waiting for a condition on a stream, as \<open>corpc_open_stream\<close> and \<open>corpc_stream_read_internal\<close> do:
  the state changes of the other threads are consumed one by one while the condition holds.
\<close>

fun wait_while ::
  "(corpc_world \<Rightarrow> bool ub) \<Rightarrow> (corpc_world \<Rightarrow> corpc_world) list \<Rightarrow> corpc_world \<Rightarrow> (bool \<times> corpc_world) ub" where
  "wait_while cond waits w =
     do { b \<leftarrow> cond w;
          if \<not> b then Some (True, w)
          else (case waits of [] \<Rightarrow> Some (False, w) | f # fs \<Rightarrow> wait_while cond fs (f w)) }"

definition stream_opening :: "nat \<Rightarrow> nat \<Rightarrow> corpc_world \<Rightarrow> bool ub" where
  "stream_opening c s w =
     do { ch \<leftarrow> w_channels w c;
          if \<not> corpc_channel_established ch then Some False
          else do { st \<leftarrow> w_streams w s; Some (st_state st = corpc_stream_opening) } }"

text \<open>
  \<open>corpc_open_stream\<close>: the stream that was established, or the null pointer after the stream was
  unregistered and destroyed. The outer \<open>None\<close> of the result says that the thread still waits.
\<close>

definition open_stream_failed :: "nat \<Rightarrow> nat \<Rightarrow> corpc_world \<Rightarrow> (nat option option \<times> corpc_world) ub" where
  "open_stream_failed c s w =
     do { w \<leftarrow> unregister_stream c s w;
          w \<leftarrow> corpc_stream_destroy s w;
          Some (Some None, w) }"

definition corpc_open_stream ::
  "nat option \<Rightarrow> bool \<Rightarrow> (corpc_world \<Rightarrow> corpc_world) list \<Rightarrow> bool \<Rightarrow> (corpc_world \<Rightarrow> corpc_world) list \<Rightarrow>
   nat \<Rightarrow> u8 list \<Rightarrow> u8 list \<Rightarrow> corpc_world \<Rightarrow> (nat option option \<times> corpc_world) ub" where
  "corpc_open_stream addr fifo_ok lock_waits ok state_waits c service method w =
     do { ch \<leftarrow> w_channels w c;
          if ch_state ch \<noteq> corpc_channel_state_established then Some (Some None, set_errno ENOTCONN w)
          else
            do { (sp, w) \<leftarrow> create_new_stream addr fifo_ok c w;
                 (case sp of
                    None \<Rightarrow> Some (Some None, w)
                  | Some s \<Rightarrow>
                      do { (r, w) \<leftarrow> send_create_stream_request lock_waits ok s service method w;
                           (case r of
                              None \<Rightarrow> Some (None, w)
                            | Some False \<Rightarrow> open_stream_failed c s w
                            | Some True \<Rightarrow>
                                do { (d, w) \<leftarrow> wait_while (stream_opening c s) state_waits w;
                                     if \<not> d then Some (None, w)
                                     else do { st \<leftarrow> w_streams w s;
                                               if st_state st = corpc_stream_established then Some (Some (Some s), w)
                                               else open_stream_failed c s w } }) }) } }"

definition read_waits :: "nat \<Rightarrow> corpc_world \<Rightarrow> bool ub" where
  "read_waits s w =
     do { st \<leftarrow> w_streams w s;
          c \<leftarrow> st_channel st;
          if \<not> ccfifo_is_empty (st_rxq st) then Some False
          else do { ch \<leftarrow> w_channels w c;
                    Some (corpc_channel_established ch \<and>
                      (st_state st = corpc_stream_established \<or> st_state st = corpc_stream_opening)) } }"

text \<open>The locked section that takes the message: the message, and whether an acknowledgement is due.\<close>

definition read_pop :: "nat \<Rightarrow> corpc_world \<Rightarrow> (comsg option \<times> bool \<times> corpc_world) ub" where
  "read_pop s w =
     do { st \<leftarrow> w_streams w s;
          c \<leftarrow> st_channel st;
          ch \<leftarrow> w_channels w c;
          (m, q) \<leftarrow> ccfifo_ppop (st_rxq st);
          Some (m, corpc_channel_established ch \<and> st_state st = corpc_stream_established,
                put_stream s (st\<lparr>st_rxq := q\<rparr>) w) }"

definition corpc_stream_read_internal ::
  "(corpc_world \<Rightarrow> corpc_world) list \<Rightarrow> (corpc_world \<Rightarrow> corpc_world) list \<Rightarrow> bool \<Rightarrow> nat \<Rightarrow> corpc_world \<Rightarrow>
   (comsg option option \<times> corpc_world) ub" where
  "corpc_stream_read_internal waits lock_waits ok s w =
     do { (d, w) \<leftarrow> wait_while (read_waits s) waits w;
          if \<not> d then Some (None, w)
          else
            do { (m, is_connected, w) \<leftarrow> read_pop s w;
                 (case m of
                    None \<Rightarrow> Some (Some None, w)
                  | Some msg \<Rightarrow>
                      if hdr_code (msg_hdr msg) \<noteq> co_msg_data then Some (Some None, w)
                      else if is_connected then
                        do { (r, w) \<leftarrow> send_data_ack lock_waits ok s w;
                             Some (case r of None \<Rightarrow> None | Some _ \<Rightarrow> Some (Some msg), w) }
                      else Some (Some (Some msg), w)) } }"

text \<open>
  \<open>corpc_stream_read\<close> returns the payload as a fresh block (\<open>malloc_ok\<close> is the outcome of its
  allocation), \<open>Some None\<close> stands for the return value -1.
\<close>

definition corpc_stream_read ::
  "bool \<Rightarrow> (corpc_world \<Rightarrow> corpc_world) list \<Rightarrow> (corpc_world \<Rightarrow> corpc_world) list \<Rightarrow> bool \<Rightarrow> nat \<Rightarrow> corpc_world \<Rightarrow>
   (u8 list option option \<times> corpc_world) ub" where
  "corpc_stream_read malloc_ok waits lock_waits ok s w =
     do { (r, w) \<leftarrow> corpc_stream_read_internal waits lock_waits ok s w;
          Some (case r of
                  None \<Rightarrow> None
                | Some None \<Rightarrow> Some None
                | Some (Some msg) \<Rightarrow>
                    Some (if malloc_ok then Some (take (unat (hdr_pldsize (msg_hdr msg))) (msg_details msg)) else None), w) }"

definition corpc_stream_write ::
  "(corpc_world \<Rightarrow> corpc_world) list \<Rightarrow> bool \<Rightarrow> nat \<Rightarrow> u8 list \<Rightarrow> corpc_world \<Rightarrow> (bool option \<times> corpc_world) ub" where
  "corpc_stream_write waits ok s data w = send_data waits ok s data w"

definition corpc_close_stream ::
  "(corpc_world \<Rightarrow> corpc_world) list \<Rightarrow> bool \<Rightarrow> nat option \<Rightarrow> corpc_world \<Rightarrow> (bool \<times> corpc_world) ub" where
  "corpc_close_stream waits ok sp w =
     (case sp of
        None \<Rightarrow> Some (True, w)
      | Some s \<Rightarrow>
          do { st \<leftarrow> w_streams w s;
               (case st_channel st of
                  None \<Rightarrow> do { w \<leftarrow> corpc_stream_destroy s w; Some (True, w) }
                | Some c \<Rightarrow>
                    do { (r, w) \<leftarrow> send_close_stream_notify waits ok s w;
                         (case r of
                            None \<Rightarrow> Some (False, w)
                          | Some _ \<Rightarrow>
                              do { w \<leftarrow> unregister_stream c s w;
                                   ch \<leftarrow> w_channels w c;
                                   w \<leftarrow> (if ccarray_size (Some (ch_streams ch)) < 1 \<and> ch_refs ch < 1
                                         then channel_destroy c w else Some w);
                                   w \<leftarrow> corpc_stream_destroy s w;
                                   Some (True, w) }) }) })"

text \<open>The variants that convert messages: \<open>unpack\<close> and \<open>pack\<close> are the caller's conversions.\<close>

definition corpc_stream_read_msg ::
  "(u8 list \<Rightarrow> 'm option) \<Rightarrow> (corpc_world \<Rightarrow> corpc_world) list \<Rightarrow> (corpc_world \<Rightarrow> corpc_world) list \<Rightarrow> bool \<Rightarrow> nat \<Rightarrow>
   corpc_world \<Rightarrow> ('m option option \<times> corpc_world) ub" where
  "corpc_stream_read_msg unpack waits lock_waits ok s w =
     do { (r, w) \<leftarrow> corpc_stream_read_internal waits lock_waits ok s w;
          Some (case r of
                  None \<Rightarrow> None
                | Some None \<Rightarrow> Some None
                | Some (Some msg) \<Rightarrow> Some (unpack (take (unat (hdr_pldsize (msg_hdr msg))) (msg_details msg))), w) }"

definition corpc_stream_write_msg ::
  "('m \<Rightarrow> u8 list) \<Rightarrow> (corpc_world \<Rightarrow> corpc_world) list \<Rightarrow> bool \<Rightarrow> nat \<Rightarrow> 'm \<Rightarrow> corpc_world \<Rightarrow> (bool option \<times> corpc_world) ub" where
  "corpc_stream_write_msg pack waits ok s appmsg w =
     (let data = pack appmsg in if length data > 0 then send_data waits ok s data w else Some (Some False, w))"

text \<open>
  Connecting. The outcomes of the name resolution, of creating the socket, of the connection with
  its TLS handshake, of the \<open>onconnect\<close> callback and of scheduling the channel thread are
  arguments; the channel thread's progress happens in \<open>waits\<close>.
\<close>

record connect_env =
  cenv_resolve_ok :: bool
  cenv_sock :: "nat option"
  cenv_connect_ok :: bool
  cenv_onconnect_ok :: bool
  cenv_sched_ok :: bool
  cenv_waits :: "(corpc_world \<Rightarrow> corpc_world) list"

definition connect_failed :: "nat \<Rightarrow> corpc_world \<Rightarrow> (bool option \<times> corpc_world) ub" where
  "connect_failed c w =
     do { ch \<leftarrow> w_channels w c;
          w \<leftarrow> set_channel_state c corpc_channel_state_idle (put_channel c (ch\<lparr>ch_ssl_sock := None\<rparr>) w);
          Some (Some False, w) }"

definition ssl_server_connect :: "connect_env \<Rightarrow> nat \<Rightarrow> corpc_world \<Rightarrow> (bool option \<times> corpc_world) ub" where
  "ssl_server_connect env c w =
     do { w \<leftarrow> set_channel_state c corpc_channel_state_resolving w;
          (case (cenv_resolve_ok env, cenv_sock env) of
             (True, Some sock) \<Rightarrow>
               do { ch \<leftarrow> w_channels w c;
                    w \<leftarrow> set_channel_state c corpc_channel_state_connecting (put_channel c (ch\<lparr>ch_ssl_sock := Some sock\<rparr>) w);
                    if \<not> cenv_connect_ok env \<or> \<not> cenv_onconnect_ok env \<or> \<not> cenv_sched_ok env
                    then connect_failed c w
                    else
                      do { (d, w) \<leftarrow> wait_while (\<lambda>w. do { ch \<leftarrow> w_channels w c; Some (ch_state ch = corpc_channel_state_connecting) })
                                      (cenv_waits env) w;
                           if \<not> d then Some (None, w)
                           else do { ch \<leftarrow> w_channels w c;
                                     if corpc_channel_established ch then Some (Some (ch_ssl_sock ch \<noteq> None), w)
                                     else connect_failed c w } } }
           | _ \<Rightarrow> connect_failed c w) }"

definition corpc_channel_open ::
  "nat option \<Rightarrow> bool \<Rightarrow> bool \<Rightarrow> connect_env \<Rightarrow> corpc_channel_open_args \<Rightarrow> corpc_world \<Rightarrow> (nat option option \<times> corpc_world) ub" where
  "corpc_channel_open addr arr_ok dup_ok env args w =
     (case corpc_channel_new addr arr_ok dup_ok (Some args) w of
        (None, w) \<Rightarrow> Some (Some None, w)
      | (Some c, w) \<Rightarrow>
          do { (r, w) \<leftarrow> ssl_server_connect env c w;
               (case r of
                  None \<Rightarrow> Some (None, w)
                | Some True \<Rightarrow> Some (Some (Some c), w)
                | Some False \<Rightarrow> do { w \<leftarrow> channel_destroy c w; Some (Some None, w) }) })"

definition corpc_channel_relase :: "nat option \<Rightarrow> corpc_world \<Rightarrow> corpc_world ub" where
  "corpc_channel_relase cp w =
     (case cp of
        None \<Rightarrow> Some w
      | Some c \<Rightarrow>
          do { ch \<leftarrow> w_channels w c;
               let w = put_channel c (ch\<lparr>ch_refs := ch_refs ch - 1\<rparr>) w;
               if ch_refs ch - 1 > 0 then Some w else corpc_channel_close_internal (Some c) w })"

text \<open>
  A service method's thread runs the method, which is the application's code, and closes the
  stream when it returns. Starting it needs a block for the arguments and a free thread slot.
\<close>

definition service_method_wrapper_thread ::
  "(nat \<Rightarrow> corpc_world \<Rightarrow> corpc_world ub) \<Rightarrow> (corpc_world \<Rightarrow> corpc_world) list \<Rightarrow> bool \<Rightarrow> nat \<Rightarrow> corpc_world \<Rightarrow> (bool \<times> corpc_world) ub" where
  "service_method_wrapper_thread run_proc waits ok s w =
     do { w \<leftarrow> run_proc s w; corpc_close_stream waits ok (Some s) w }"

definition start_service_method_thread :: "bool \<Rightarrow> bool \<Rightarrow> bool" where
  "start_service_method_thread malloc_ok sched_ok \<longleftrightarrow> malloc_ok \<and> sched_ok"

text \<open>The texts of the states.\<close>

definition corpc_channel_state_string :: "corpc_channel_state \<Rightarrow> string" where
  "corpc_channel_state_string state =
     (case state of
        corpc_channel_state_idle \<Rightarrow> ''idle''
      | corpc_channel_state_resolving \<Rightarrow> ''resolving''
      | corpc_channel_state_connecting \<Rightarrow> ''connecting''
      | corpc_channel_state_accepting \<Rightarrow> ''accepting''
      | corpc_channel_state_established \<Rightarrow> ''established''
      | corpc_channel_state_disconnecting \<Rightarrow> ''disconnecting''
      | corpc_channel_state_closed \<Rightarrow> ''closed'')"

definition corpc_stream_state_string :: "corpc_stream_state \<Rightarrow> string" where
  "corpc_stream_state_string state =
     (case state of
        corpc_stream_created \<Rightarrow> ''created''
      | corpc_stream_opening \<Rightarrow> ''opening''
      | corpc_stream_too_many_streams \<Rightarrow> ''closed:too_many_streams''
      | corpc_stream_no_such_service \<Rightarrow> ''closed:no_such_service''
      | corpc_stream_no_such_method \<Rightarrow> ''closed:no_such_method''
      | corpc_stream_local_internal_error \<Rightarrow> ''closed:local_internal_error''
      | corpc_stream_remote_internal_error \<Rightarrow> ''closed:remote_internal_error''
      | corpc_stream_protocol_error \<Rightarrow> ''closed:protocol_error''
      | corpc_stream_established \<Rightarrow> ''established''
      | corpc_stream_closed \<Rightarrow> ''closed''
      | corpc_stream_closed_by_remote_party \<Rightarrow> ''closed:by_remote_party'')"

lemma corpc_state_strings_distinct:
  "corpc_channel_state_string c = corpc_channel_state_string d \<longleftrightarrow> c = d"
  "corpc_stream_state_string s = corpc_stream_state_string t \<longleftrightarrow> s = t"
  by (cases c; cases d; simp add: corpc_channel_state_string_def)
     (cases s; cases t; simp add: corpc_stream_state_string_def)

section \<open>Looking up a stream\<close>

lemma find_stream_loop_find:
  assumes "ccarray_inv arr" "\<forall>i\<in>set is. i < arr_size arr" "\<forall>i\<in>set is. streams (ccarray_list arr ! i) \<noteq> None"
  shows "find_stream_loop arr streams sid is =
    Some (find (\<lambda>s. st_sid (the (streams s)) = sid) (map (\<lambda>i. ccarray_list arr ! i) is))"
  using assms by (induction "is") (auto simp: ccarray_ppeek_def conts_simps)

lemma find_stream_by_sid_find:
  assumes "w_channels w c = Some ch" "ccarray_inv (ch_streams ch)"
    and "\<forall>s\<in>set (ccarray_list (ch_streams ch)). w_streams w s \<noteq> None"
  shows "find_stream_by_sid c sid w =
    Some (find (\<lambda>s. st_sid (the (w_streams w s)) = sid) (ccarray_list (ch_streams ch)))"
proof -
  have len: "arr_size (ch_streams ch) = length (ccarray_list (ch_streams ch))"
    using assms(2) by (simp add: conts_simps)
  have "find_stream_loop (ch_streams ch) (w_streams w) sid [0..<arr_size (ch_streams ch)] =
      Some (find (\<lambda>s. st_sid (the (w_streams w s)) = sid)
        (map (\<lambda>i. ccarray_list (ch_streams ch) ! i) [0..<arr_size (ch_streams ch)]))"
    using assms len by (intro find_stream_loop_find) auto
  then show ?thesis using assms(1) len by (simp add: find_stream_by_sid_def ccarray_size_def map_nth)
qed

end
