(* ===== verification/Corpc_Flow.thy ===== *)
theory Corpc_Flow
  imports Corpc_Channel
begin

text \<open>
  Flow control between the two ends of a channel. Two processes run the code of
  corpc-channel.c on the two ends of a connection; on each side any number of threads write to
  and read from streams of the channel while the channel thread handles what arrives. The steps
  of the system are the locked sections of the operations, in every order the locks allow. The
  theory shows that the credits of a stream are conserved, hence that a receive queue is never
  full when data arrives.
\<close>

section \<open>Messages on the wire\<close>

text \<open>What the send routines put on the wire for a message, and the message object the receiver gets.\<close>

definition wire_bytes :: "byte_order \<Rightarrow> out_msg \<Rightarrow> u8 list" where
  "wire_bytes ord m =
     concat (snd (case m of
        Out_create_stream_request sid rwnd srv mth \<Rightarrow>
          corpc_proto_send_create_stream_request ord (\<lambda>b. int (length b)) sid rwnd srv mth
      | Out_create_stream_responce sid did rwnd status \<Rightarrow>
          corpc_proto_send_create_stream_responce ord (\<lambda>b. int (length b)) sid did rwnd status
      | Out_close_stream sid did status \<Rightarrow>
          corpc_proto_send_close_stream ord (\<lambda>b. int (length b)) sid did status
      | Out_data_ack sid did \<Rightarrow> corpc_proto_send_data_ack ord (\<lambda>b. int (length b)) sid did
      | Out_data sid did data \<Rightarrow> corpc_proto_send_data ord (\<lambda>b. int (length b)) sid did data))"

definition received :: "byte_order \<Rightarrow> out_msg \<Rightarrow> comsg \<Rightarrow> comsg" where
  "received ord m buf = fst (snd (corpc_proto_recv_msg ord [wire_bytes ord m] buf))"

lemma received_data:
  assumes "length data \<le> CORPC_MAX_PAYLOAD_SIZE"
  shows "fst (corpc_proto_recv_msg ord [wire_bytes ord (Out_data sid did data)] buf) = Recv_Ok \<and>
     hdr_code (msg_hdr (received ord (Out_data sid did data) buf)) = co_msg_data \<and>
     hdr_did (msg_hdr (received ord (Out_data sid did data) buf)) = did \<and>
     take (unat (hdr_pldsize (msg_hdr (received ord (Out_data sid did data) buf))))
       (msg_details (received ord (Out_data sid did data) buf)) = data"
proof -
  let ?h = "set_crc ord (mk_hdr co_msg_data sid did (length data)) data"
  have "wire_bytes ord (Out_data sid did data) = hdr_mem ord (htondr ord ?h) @ data"
    by (simp add: wire_bytes_def corpc_proto_send_data_def sock_send_def Let_def)
  moreover have "arrives [hdr_mem ord (htondr ord ?h) @ data] (hdr_mem ord (htondr ord ?h)) data []"
    unfolding arrives_def
    by (intro exI [of _ "[]"]) (auto simp: feed_def dest: arg_cong [where f = length])
  ultimately show ?thesis
    using recv_msg_data [of _ ord ?h data "[]" buf] assms unat_pldsize [OF assms]
    by (simp add: received_def overlay_def)
qed

lemma received_ack:
  "fst (corpc_proto_recv_msg ord [wire_bytes ord (Out_data_ack sid did)] buf) = Recv_Ok \<and>
   hdr_code (msg_hdr (received ord (Out_data_ack sid did) buf)) = co_msg_data_ack \<and>
   hdr_did (msg_hdr (received ord (Out_data_ack sid did) buf)) = did"
proof -
  let ?h = "set_crc ord (mk_hdr co_msg_data_ack sid did 0) []"
  have "wire_bytes ord (Out_data_ack sid did) = hdr_mem ord (htondr ord ?h)"
    by (simp add: wire_bytes_def corpc_proto_send_data_ack_def sock_send_def Let_def)
  moreover have "arrives [hdr_mem ord (htondr ord ?h)] (hdr_mem ord (htondr ord ?h)) [] []"
    unfolding arrives_def by (intro exI [of _ "[]"]) (simp add: feed_def)
  ultimately show ?thesis
    using recv_msg_ack [of _ ord ?h "[]" buf] by (simp add: received_def)
qed

section \<open>The system\<close>

text \<open>
  A thread is outside of the library, in \<open>acquire_write_lock\<close>, at the socket send with the write
  lock held, before the decrement of the window, or before \<open>release_write_lock\<close>. A job is the
  data to be written to a stream or the acknowledgement due on it.
\<close>

datatype job = Job_data nat "u8 list" | Job_ack nat

datatype thr = T_idle | T_lock job | T_send job | T_dec nat | T_unlock

record flow_sys =
  sys_world :: "bool \<Rightarrow> corpc_world"
  sys_threads :: "bool \<Rightarrow> thr list"
  sys_fly :: "bool \<Rightarrow> out_msg list"
  sys_lost :: "bool \<Rightarrow> nat \<Rightarrow> nat"

text \<open>
  \<open>sys_fly p\<close> holds the messages side \<open>p\<close> sent that the other side has not yet received;
  \<open>sys_lost p s\<close> counts the messages read from stream \<open>s\<close> of side \<open>p\<close> whose acknowledgement could
  not be sent.
\<close>

definition set_thread :: "bool \<Rightarrow> nat \<Rightarrow> thr \<Rightarrow> flow_sys \<Rightarrow> flow_sys" where
  "set_thread p i t S = S\<lparr>sys_threads := (sys_threads S)(p := (sys_threads S p)[i := t])\<rparr>"

definition set_world :: "bool \<Rightarrow> corpc_world \<Rightarrow> flow_sys \<Rightarrow> flow_sys" where
  "set_world p w S = S\<lparr>sys_world := (sys_world S)(p := w)\<rparr>"

definition put_fly :: "bool \<Rightarrow> out_msg list \<Rightarrow> flow_sys \<Rightarrow> flow_sys" where
  "put_fly p ms S = S\<lparr>sys_fly := (sys_fly S)(p := ms)\<rparr>"

definition lose :: "bool \<Rightarrow> nat \<Rightarrow> flow_sys \<Rightarrow> flow_sys" where
  "lose p s S = S\<lparr>sys_lost := (sys_lost S)(p := (sys_lost S p)(s := Suc (sys_lost S p s)))\<rparr>"

definition lose_job :: "bool \<Rightarrow> job \<Rightarrow> flow_sys \<Rightarrow> flow_sys" where
  "lose_job p j S = (case j of Job_data _ _ \<Rightarrow> S | Job_ack s \<Rightarrow> lose p s S)"

fun job_stream :: "job \<Rightarrow> nat" where
  "job_stream (Job_data s _) = s"
| "job_stream (Job_ack s) = s"

fun job_window :: "job \<Rightarrow> nat option" where
  "job_window (Job_data s _) = Some s"
| "job_window (Job_ack s) = None"

fun job_msg :: "job \<Rightarrow> corpc_stream \<Rightarrow> out_msg" where
  "job_msg (Job_data s data) st = Out_data (st_sid st) (st_did st) data"
| "job_msg (Job_ack s) st = Out_data_ack (st_sid st) (st_did st)"

fun job_sent :: "job \<Rightarrow> thr" where
  "job_sent (Job_data s _) = T_dec s"
| "job_sent (Job_ack s) = T_unlock"

text \<open>
  The steps of side \<open>p\<close>, with the address \<open>C p\<close> of its channel. Reading takes the message in one
  locked section (\<open>read_pop\<close>) once the wait of \<open>corpc_stream_read_internal\<close> is over; the sends go
  through the passes of \<open>acquire_write_lock\<close>; receiving runs the dispatch of the channel thread
  on the message object decoded from the wire.
\<close>

inductive flow_step :: "byte_order \<Rightarrow> (bool \<Rightarrow> nat) \<Rightarrow> flow_sys \<Rightarrow> flow_sys \<Rightarrow> bool"
  for ord :: byte_order and C :: "bool \<Rightarrow> nat" where
  do_write: "\<lbrakk>i < length (sys_threads S p); sys_threads S p ! i = T_idle;
     w_streams (sys_world S p) s = Some st; st_channel st = Some (C p); length data \<le> CORPC_MAX_PAYLOAD_SIZE\<rbrakk> \<Longrightarrow>
     flow_step ord C S (set_thread p i (T_lock (Job_data s data)) S)"
| do_read_ack: "\<lbrakk>i < length (sys_threads S p); sys_threads S p ! i = T_idle;
     w_streams (sys_world S p) s = Some st; st_channel st = Some (C p);
     read_waits s (sys_world S p) = Some False;
     read_pop s (sys_world S p) = Some (Some msg, True, w); hdr_code (msg_hdr msg) = co_msg_data\<rbrakk> \<Longrightarrow>
     flow_step ord C S (set_world p w (set_thread p i (T_lock (Job_ack s)) S))"
| do_read_lost: "\<lbrakk>i < length (sys_threads S p); sys_threads S p ! i = T_idle;
     w_streams (sys_world S p) s = Some st; st_channel st = Some (C p);
     read_waits s (sys_world S p) = Some False;
     read_pop s (sys_world S p) = Some (Some msg, conn, w); \<not> (conn \<and> hdr_code (msg_hdr msg) = co_msg_data)\<rbrakk> \<Longrightarrow>
     flow_step ord C S (set_world p w (lose p s S))"
| do_read_none: "\<lbrakk>i < length (sys_threads S p); sys_threads S p ! i = T_idle;
     w_streams (sys_world S p) s = Some st; st_channel st = Some (C p);
     read_waits s (sys_world S p) = Some False; read_pop s (sys_world S p) = Some (None, conn, w)\<rbrakk> \<Longrightarrow>
     flow_step ord C S (set_world p w S)"
| do_lock: "\<lbrakk>i < length (sys_threads S p); sys_threads S p ! i = T_lock j;
     write_lock_pass (job_window j) (C p) (sys_world S p) = Some (Locked, w)\<rbrakk> \<Longrightarrow>
     flow_step ord C S (set_world p w (set_thread p i (T_send j) S))"
| do_lock_fails: "\<lbrakk>i < length (sys_threads S p); sys_threads S p ! i = T_lock j;
     write_lock_pass (job_window j) (C p) (sys_world S p) = Some (Not_connected, w)\<rbrakk> \<Longrightarrow>
     flow_step ord C S (set_world p w (lose_job p j (set_thread p i T_idle S)))"
| do_send: "\<lbrakk>i < length (sys_threads S p); sys_threads S p ! i = T_send j;
     w_streams (sys_world S p) (job_stream j) = Some st; st_channel st = Some (C p);
     emit True (C p) (job_msg j st) (sys_world S p) = Some w\<rbrakk> \<Longrightarrow>
     flow_step ord C S (put_fly p (sys_fly S p @ [job_msg j st]) (set_world p w (set_thread p i (job_sent j) S)))"
| do_send_fails: "\<lbrakk>i < length (sys_threads S p); sys_threads S p ! i = T_send j\<rbrakk> \<Longrightarrow>
     flow_step ord C S (lose_job p j (set_thread p i T_unlock S))"
| do_dec: "\<lbrakk>i < length (sys_threads S p); sys_threads S p ! i = T_dec s; dec_rwnd s (sys_world S p) = Some w\<rbrakk> \<Longrightarrow>
     flow_step ord C S (set_world p w (set_thread p i T_unlock S))"
| do_unlock: "\<lbrakk>i < length (sys_threads S p); sys_threads S p ! i = T_unlock;
     release_write_lock (C p) (sys_world S p) = Some w\<rbrakk> \<Longrightarrow>
     flow_step ord C S (set_world p w (set_thread p i T_idle S))"
| do_recv: "\<lbrakk>sys_fly S (\<not> p) = m # ms;
     corpc_channel_dispatch ord env (C p) (received ord m buf) (sys_world S p) = Some (Some True, w)\<rbrakk> \<Longrightarrow>
     flow_step ord C S (put_fly (\<not> p) ms (set_world p w S))"

lemma sys_sel [simp]:
  "sys_world (set_thread p i t S) = sys_world S" "sys_fly (set_thread p i t S) = sys_fly S"
  "sys_lost (set_thread p i t S) = sys_lost S"
  "sys_threads (set_thread p i t S) = (sys_threads S)(p := (sys_threads S p)[i := t])"
  "sys_world (set_world p w S) = (sys_world S)(p := w)" "sys_fly (set_world p w S) = sys_fly S"
  "sys_lost (set_world p w S) = sys_lost S" "sys_threads (set_world p w S) = sys_threads S"
  "sys_fly (put_fly p ms S) = (sys_fly S)(p := ms)" "sys_world (put_fly p ms S) = sys_world S"
  "sys_lost (put_fly p ms S) = sys_lost S" "sys_threads (put_fly p ms S) = sys_threads S"
  "sys_lost (lose p s S) = (sys_lost S)(p := (sys_lost S p)(s := Suc (sys_lost S p s)))"
  "sys_world (lose p s S) = sys_world S" "sys_fly (lose p s S) = sys_fly S" "sys_threads (lose p s S) = sys_threads S"
  "sys_world (lose_job p j S) = sys_world S" "sys_fly (lose_job p j S) = sys_fly S"
  "sys_threads (lose_job p j S) = sys_threads S"
  "sys_lost (lose_job p j S) = (case j of Job_data _ _ \<Rightarrow> sys_lost S
     | Job_ack s \<Rightarrow> (sys_lost S)(p := (sys_lost S p)(s := Suc (sys_lost S p s))))"
  by (simp_all add: set_thread_def set_world_def put_fly_def lose_def lose_job_def split: job.split)


section \<open>One side of the connection\<close>

text \<open>
  Side \<open>c\<close> holds a stream \<open>x\<close> with id \<open>a\<close>, registered in the channel under no other address, and
  the only one that talks to the remote stream \<open>b\<close>; all streams of the channel have sound receive
  queues of the default size.
\<close>

definition stream_ok :: "nat \<Rightarrow> u16 \<Rightarrow> nat \<Rightarrow> corpc_stream \<Rightarrow> bool" where
  "stream_ok x b s st \<longleftrightarrow> ccfifo_inv (st_rxq st) \<and>
     fifo_capacity (st_rxq st) = CORPC_STREAM_DEFAULT_QUEUE_SIZE \<and> (st_did st = b \<longleftrightarrow> s = x)"

definition side_ok :: "nat \<Rightarrow> nat \<Rightarrow> u16 \<Rightarrow> u16 \<Rightarrow> corpc_world \<Rightarrow> bool" where
  "side_ok c x a b w \<longleftrightarrow>
     (\<exists>ch. w_channels w c = Some ch \<and> ccarray_inv (ch_streams ch) \<and> x \<in> set (ccarray_list (ch_streams ch)) \<and>
        (\<forall>s\<in>set (ccarray_list (ch_streams ch)). \<exists>st. w_streams w s = Some st \<and> st_channel st = Some c \<and>
           (st_sid st = a \<longleftrightarrow> s = x))) \<and>
     (\<forall>s st. w_streams w s = Some st \<longrightarrow> st_channel st = Some c \<longrightarrow> stream_ok x b s st)"

definition rwnd_of :: "nat \<Rightarrow> corpc_world \<Rightarrow> nat" where
  "rwnd_of x w = unat (st_rwnd (the (w_streams w x)))"

definition qlen :: "nat \<Rightarrow> corpc_world \<Rightarrow> nat" where
  "qlen x w = fifo_size (st_rxq (the (w_streams w x)))"

definition locked :: "nat \<Rightarrow> corpc_world \<Rightarrow> bool" where
  "locked c w = ch_write_lock (the (w_channels w c))"

text \<open>The new world keeps the side sound, with the given window, queue length and write lock.\<close>

definition eff :: "nat \<Rightarrow> nat \<Rightarrow> u16 \<Rightarrow> u16 \<Rightarrow> corpc_world \<Rightarrow> nat \<Rightarrow> nat \<Rightarrow> bool \<Rightarrow> bool" where
  "eff c x a b w r q l \<longleftrightarrow> side_ok c x a b w \<and> rwnd_of x w = r \<and> qlen x w = q \<and> locked c w = l"

lemma side_ok_channel: "side_ok c x a b w \<Longrightarrow> \<exists>ch. w_channels w c = Some ch"
  by (auto simp: side_ok_def)

lemma side_ok_stream:
  assumes "side_ok c x a b w"
  obtains st where "w_streams w x = Some st" "st_channel st = Some c" "st_sid st = a" "st_did st = b"
    "ccfifo_inv (st_rxq st)" "fifo_capacity (st_rxq st) = CORPC_STREAM_DEFAULT_QUEUE_SIZE"
proof -
  from assms obtain st where st: "w_streams w x = Some st" "st_channel st = Some c" "st_sid st = a"
    by (auto simp: side_ok_def)
  with assms have "stream_ok x b x st" unfolding side_ok_def by blast
  with st that show thesis unfolding stream_ok_def by blast
qed

lemma side_ok_find:
  assumes "side_ok c x a b w"
  shows "find_stream_by_sid c a w = Some (Some x)"
    and "find_stream_by_sid c d w = Some (Some s) \<Longrightarrow> \<exists>st. w_streams w s = Some st \<and> st_channel st = Some c \<and> st_sid st = d"
    and "\<exists>r. find_stream_by_sid c d w = Some r"
proof -
  from assms obtain ch where ch: "w_channels w c = Some ch" "ccarray_inv (ch_streams ch)"
      "x \<in> set (ccarray_list (ch_streams ch))"
      "\<forall>s\<in>set (ccarray_list (ch_streams ch)). \<exists>st. w_streams w s = Some st \<and> st_channel st = Some c \<and>
           (st_sid st = a \<longleftrightarrow> s = x)"
    by (auto simp: side_ok_def)
  have f: "find_stream_by_sid c d w =
      Some (find (\<lambda>s. st_sid (the (w_streams w s)) = d) (ccarray_list (ch_streams ch)))" for d
    using ch by (intro find_stream_by_sid_find) auto
  then show "\<exists>r. find_stream_by_sid c d w = Some r" by simp
  show "\<exists>st. w_streams w s = Some st \<and> st_channel st = Some c \<and> st_sid st = d"
    if "find_stream_by_sid c d w = Some (Some s)"
  proof -
    from that f have "s \<in> set (ccarray_list (ch_streams ch))" "st_sid (the (w_streams w s)) = d"
      by (auto simp: find_Some_iff)
    with ch(4) show ?thesis by force
  qed
  from ch(4) have eq: "\<forall>s\<in>set (ccarray_list (ch_streams ch)). st_sid (the (w_streams w s)) = a \<longleftrightarrow> s = x" by force
  then have "find (\<lambda>s. st_sid (the (w_streams w s)) = a) (ccarray_list (ch_streams ch)) =
      find (\<lambda>s. s = x) (ccarray_list (ch_streams ch))"
    by (intro find_cong refl) (use eq in blast)
  moreover have "find (\<lambda>s. s = x) (ccarray_list (ch_streams ch)) = Some x"
    using ch(3) by (cases "find (\<lambda>s. s = x) (ccarray_list (ch_streams ch))") (auto simp: find_None_iff find_Some_iff)
  ultimately show "find_stream_by_sid c a w = Some (Some x)" using f by simp
qed

lemma side_ok_put_stream:
  assumes "side_ok c x a b w" "w_streams w s = Some st"
    and "st_channel st' = st_channel st" "st_sid st' = st_sid st" "st_did st' = st_did st"
    and "st_channel st = Some c \<Longrightarrow> ccfifo_inv (st_rxq st) \<Longrightarrow>
      ccfifo_inv (st_rxq st') \<and> fifo_capacity (st_rxq st') = fifo_capacity (st_rxq st)"
  shows "side_ok c x a b (put_stream s st' w)"
proof -
  from assms(1) obtain ch where ch: "w_channels w c = Some ch" "ccarray_inv (ch_streams ch)"
      "x \<in> set (ccarray_list (ch_streams ch))"
      "\<forall>s\<in>set (ccarray_list (ch_streams ch)). \<exists>st. w_streams w s = Some st \<and> st_channel st = Some c \<and>
           (st_sid st = a \<longleftrightarrow> s = x)"
      and all: "\<forall>s st. w_streams w s = Some st \<longrightarrow> st_channel st = Some c \<longrightarrow> stream_ok x b s st"
    by (auto simp: side_ok_def)
  have "\<forall>s'\<in>set (ccarray_list (ch_streams ch)). \<exists>st. w_streams (put_stream s st' w) s' = Some st \<and>
      st_channel st = Some c \<and> (st_sid st = a \<longleftrightarrow> s' = x)"
  proof
    fix s' assume "s' \<in> set (ccarray_list (ch_streams ch))"
    with ch(4) obtain st'' where "w_streams w s' = Some st''" "st_channel st'' = Some c" "st_sid st'' = a \<longleftrightarrow> s' = x"
      by blast
    with assms(2-4) show "\<exists>st. w_streams (put_stream s st' w) s' = Some st \<and>
        st_channel st = Some c \<and> (st_sid st = a \<longleftrightarrow> s' = x)" by (cases "s' = s") simp_all
  qed
  moreover have "stream_ok x b s' st''" if "w_streams (put_stream s st' w) s' = Some st''" "st_channel st'' = Some c" for s' st''
  proof (cases "s' = s")
    case True
    with that assms(2,3) all have "stream_ok x b s st" "st'' = st'" "st_channel st = Some c" by auto
    with assms(5,6) True show ?thesis by (simp add: stream_ok_def)
  next
    case False
    with that all show ?thesis by simp
  qed
  ultimately show ?thesis using ch(1-3) by (auto simp: side_ok_def)
qed

lemma side_ok_put_lock:
  "side_ok c x a b w \<Longrightarrow> w_channels w c = Some ch \<Longrightarrow> side_ok c x a b (put_channel c (ch\<lparr>ch_write_lock := l\<rparr>) w)"
  by (simp add: side_ok_def)

lemma side_ok_same:
  "w_channels w' = w_channels w \<Longrightarrow> w_streams w' = w_streams w \<Longrightarrow> side_ok c x a b w' = side_ok c x a b w"
  by (simp add: side_ok_def)

lemma eff_same:
  "w_channels w' = w_channels w \<Longrightarrow> w_streams w' = w_streams w \<Longrightarrow> eff c x a b w' r q l = eff c x a b w r q l"
  by (simp add: eff_def side_ok_def rwnd_of_def qlen_def locked_def)


subsection \<open>Effects of the locked sections\<close>

lemma eff_put_lock:
  "eff c x a b w r q l \<Longrightarrow> w_channels w c = Some ch \<Longrightarrow> eff c x a b (put_channel c (ch\<lparr>ch_write_lock := l'\<rparr>) w) r q l'"
  by (simp add: eff_def side_ok_put_lock rwnd_of_def qlen_def locked_def)

lemma eff_put_other:
  assumes "eff c x a b w r q l" "w_streams w s = Some st" "s \<noteq> x"
    and "st_channel st' = st_channel st" "st_sid st' = st_sid st" "st_did st' = st_did st"
    and "st_channel st = Some c \<Longrightarrow> ccfifo_inv (st_rxq st) \<Longrightarrow>
      ccfifo_inv (st_rxq st') \<and> fifo_capacity (st_rxq st') = fifo_capacity (st_rxq st)"
  shows "eff c x a b (put_stream s st' w) r q l"
  using side_ok_put_stream [OF _ assms(2,4-7), where x = x and a = a and b = b] assms(1,3)
  by (simp add: eff_def rwnd_of_def qlen_def locked_def)

lemma eff_put_x:
  assumes "eff c x a b w r q l" "w_streams w x = Some st"
    and "st_channel st' = st_channel st" "st_sid st' = st_sid st" "st_did st' = st_did st"
    and "ccfifo_inv (st_rxq st')" "fifo_capacity (st_rxq st') = fifo_capacity (st_rxq st)"
  shows "eff c x a b (put_stream x st' w) (unat (st_rwnd st')) (fifo_size (st_rxq st')) l"
  using side_ok_put_stream [OF _ assms(2-5), of c x a b] assms(1,6,7)
  by (simp add: eff_def rwnd_of_def qlen_def locked_def)

lemma eff_stream:
  assumes "eff c x a b w r q l"
  obtains st where "w_streams w x = Some st" "st_channel st = Some c" "st_sid st = a" "st_did st = b"
    "ccfifo_inv (st_rxq st)" "fifo_capacity (st_rxq st) = CORPC_STREAM_DEFAULT_QUEUE_SIZE"
    "unat (st_rwnd st) = r" "fifo_size (st_rxq st) = q"
proof -
  from assms have ok: "side_ok c x a b w" by (simp add: eff_def)
  from side_ok_stream [OF ok] obtain st where "w_streams w x = Some st" "st_channel st = Some c" "st_sid st = a" "st_did st = b"
    "ccfifo_inv (st_rxq st)" "fifo_capacity (st_rxq st) = CORPC_STREAM_DEFAULT_QUEUE_SIZE" by metis
  with assms that show thesis by (auto simp: eff_def rwnd_of_def qlen_def)
qed

lemma eff_locked:
  assumes "eff c x a b w r q l" "write_lock_pass stp c w = Some (Locked, w')"
  shows "\<not> l \<and> eff c x a b w' r q True \<and> (stp = Some x \<longrightarrow> 0 < r)"
proof -
  from assms(1) obtain st where st: "w_streams w x = Some st" "unat (st_rwnd st) = r" by (rule eff_stream)
  from assms(2) have "\<exists>ch. w_channels w c = Some ch \<and> \<not> ch_write_lock ch \<and>
      w' = put_channel c (ch\<lparr>ch_write_lock := True\<rparr>) w \<and> (stp = Some x \<longrightarrow> st_rwnd st > 0)"
    using st(1) by (cases stp) (auto simp: write_lock_pass_def bind_eq_Some_conv split: if_splits)
  then obtain ch where ch: "w_channels w c = Some ch" "\<not> ch_write_lock ch"
      "w' = put_channel c (ch\<lparr>ch_write_lock := True\<rparr>) w" "stp = Some x \<longrightarrow> st_rwnd st > 0" by blast
  have "\<not> l" using assms(1) ch by (simp add: eff_def locked_def)
  moreover have "st_rwnd st > 0 \<Longrightarrow> 0 < r" using st(2) by (simp add: word_less_nat_alt)
  ultimately show ?thesis using eff_put_lock [OF assms(1) ch(1)] ch(3,4) by auto
qed

lemma eff_not_connected:
  assumes "eff c x a b w r q l" "write_lock_pass stp c w = Some (Not_connected, w')"
  shows "eff c x a b w' r q l"
proof -
  from assms(2) have "w' = set_errno ENOTCONN w"
    by (auto simp: write_lock_pass_def bind_eq_Some_conv split: if_splits option.splits)
  then show ?thesis using eff_same [of w' w c x a b r q l] assms(1) by simp
qed

lemma eff_emit:
  assumes "eff c x a b w r q l" "emit ok c m w = Some w'"
  shows "eff c x a b w' r q l"
proof -
  from assms(2) have "w_channels w' = w_channels w \<and> w_streams w' = w_streams w"
    by (auto simp: emit_def bind_eq_Some_conv)
  with eff_same [of w' w c x a b r q l] assms(1) show ?thesis by simp
qed

lemma eff_release:
  assumes "eff c x a b w r q l" "release_write_lock c w = Some w'"
  shows "eff c x a b w' r q False"
  using assms(2) eff_put_lock [OF assms(1)] by (auto simp: release_write_lock_def bind_eq_Some_conv)

lemma eff_dec_rwnd:
  assumes "eff c x a b w r q l" "dec_rwnd s w = Some w'" "s = x \<Longrightarrow> 0 < r"
  shows "eff c x a b w' (if s = x then r - 1 else r) q l"
proof -
  from assms(2) obtain st where st: "w_streams w s = Some st" "w' = put_stream s (st\<lparr>st_rwnd := st_rwnd st - 1\<rparr>) w"
    by (auto simp: dec_rwnd_def bind_eq_Some_conv)
  show ?thesis
  proof (cases "s = x")
    case True
    from assms(1) obtain st' where st': "w_streams w x = Some st'" "ccfifo_inv (st_rxq st')"
      "unat (st_rwnd st') = r" "fifo_size (st_rxq st') = q" by (rule eff_stream)
    have "st_rwnd st' \<noteq> 0" using assms(3) True st'(3) by auto
    then have "unat (st_rwnd st' - 1) = r - 1" using st'(3) by (simp add: unat_minus_one)
    with eff_put_x [OF assms(1) st'(1), of "st'\<lparr>st_rwnd := st_rwnd st' - 1\<rparr>"] st st' True show ?thesis by simp
  next
    case False
    with eff_put_other [OF assms(1) st(1) False, of "st\<lparr>st_rwnd := st_rwnd st - 1\<rparr>"] st(2) show ?thesis by simp
  qed
qed

lemma ccfifo_ppop_cases:
  assumes "ccfifo_inv q" "ccfifo_ppop q = Some (m, q')"
  shows "ccfifo_inv q' \<and> fifo_capacity q' = fifo_capacity q \<and>
    (case m of None \<Rightarrow> fifo_size q = 0 \<and> q' = q | Some _ \<Rightarrow> fifo_size q = Suc (fifo_size q'))"
proof (cases "ccfifo_list q")
  case Nil
  with fifo.deq_empty [OF assms(1)] assms length_ccfifo_list [OF assms(1)] show ?thesis by auto
next
  case (Cons y ys)
  from ccfifo_ppop_ok [OF assms(1) Cons] obtain q'' where q'': "ccfifo_ppop q = Some (Some y, q'')" "ccfifo_inv q''"
    "ccfifo_list q'' = ys" "fifo_capacity q'' = fifo_capacity q" by blast
  with assms Cons length_ccfifo_list [OF assms(1)] length_ccfifo_list [OF q''(2)] show ?thesis by auto
qed

lemma eff_read_pop:
  assumes "eff c x a b w r q l" "read_pop s w = Some (m, conn, w')"
  shows "eff c x a b w' r (if s = x \<and> m \<noteq> None then q - 1 else q) l \<and> (s = x \<and> m \<noteq> None \<longrightarrow> 0 < q)"
proof -
  from assms(2) obtain st q' where st: "w_streams w s = Some st" "ccfifo_ppop (st_rxq st) = Some (m, q')"
      "w' = put_stream s (st\<lparr>st_rxq := q'\<rparr>) w"
    by (auto simp: read_pop_def bind_eq_Some_conv)
  show ?thesis
  proof (cases "s = x")
    case True
    from assms(1) obtain st' where st': "w_streams w x = Some st'" "ccfifo_inv (st_rxq st')"
      "unat (st_rwnd st') = r" "fifo_size (st_rxq st') = q" by (rule eff_stream)
    with True st(1) have "st' = st" by simp
    with ccfifo_ppop_cases [OF _ st(2)] eff_put_x [OF assms(1) st'(1), of "st'\<lparr>st_rxq := q'\<rparr>"] st st' True
    show ?thesis by (auto split: option.splits)
  next
    case False
    with eff_put_other [OF assms(1) st(1) False, of "st\<lparr>st_rxq := q'\<rparr>"] ccfifo_ppop_cases [OF _ st(2)] st(3)
    show ?thesis by simp
  qed
qed

text \<open>A data message for the stream: taken over by its queue when there is room.\<close>

lemma eff_on_data_x:
  assumes "eff c x a b w r q l" "hdr_did (msg_hdr msg) = a" "q < CORPC_STREAM_DEFAULT_QUEUE_SIZE"
  shows "\<exists>w'. on_data_message c msg w = Some (None, True, w') \<and> eff c x a b w' r (Suc q) l"
proof -
  from assms(1) obtain st where st: "w_streams w x = Some st" "ccfifo_inv (st_rxq st)"
      "fifo_capacity (st_rxq st) = CORPC_STREAM_DEFAULT_QUEUE_SIZE" "unat (st_rwnd st) = r" "fifo_size (st_rxq st) = q"
    by (rule eff_stream)
  from assms(3) st have "fifo_size (st_rxq st) < fifo_capacity (st_rxq st)" by simp
  from ccfifo_push_ok [OF st(2) this, of msg] obtain q' where
    q': "ccfifo_push (st_rxq st) msg = Some (Some (fifo_last (st_rxq st)), q')" "ccfifo_inv q'"
      "ccfifo_list q' = ccfifo_list (st_rxq st) @ [msg]" "fifo_capacity q' = fifo_capacity (st_rxq st)" by metis
  then have "fifo_size q' = Suc q" using st(2,5) by (metis length_append_singleton length_ccfifo_list)
  moreover have "find_stream_by_sid c (hdr_did (msg_hdr msg)) w = Some (Some x)"
    using assms(1,2) side_ok_find(1) [of c x a b w] by (simp add: eff_def)
  moreover have "\<not> ccfifo_is_full (st_rxq st)" using assms(3) st by (simp add: ccfifo_is_full_def)
  ultimately show ?thesis
    using st q' eff_put_x [OF assms(1) st(1), of "st\<lparr>st_rxq := q'\<rparr>"] by (auto simp: on_data_message_def)
qed

lemma eff_on_data_other:
  assumes "eff c x a b w r q l" "hdr_did (msg_hdr msg) \<noteq> a" "on_data_message c msg w = Some (p, True, w')"
  shows "eff c x a b w' r q l"
proof -
  from assms(3) obtain s st q' pos where s: "find_stream_by_sid c (hdr_did (msg_hdr msg)) w = Some (Some s)"
      "w_streams w s = Some st" "\<not> ccfifo_is_full (st_rxq st)"
      "ccfifo_push (st_rxq st) msg = Some (pos, q')" "w' = put_stream s (st\<lparr>st_rxq := q'\<rparr>) w"
    by (auto simp: on_data_message_def corpc_set_stream_state_def bind_eq_Some_conv split: if_splits option.splits)
  have ok: "side_ok c x a b w" using assms(1) by (simp add: eff_def)
  with side_ok_find(2) [OF ok s(1)] s(2) assms(2) have "s \<noteq> x" by (metis option.inject side_ok_stream)
  moreover have "ccfifo_inv q' \<and> fifo_capacity q' = fifo_capacity (st_rxq st)" if inv: "ccfifo_inv (st_rxq st)"
  proof -
    from inv s(3) have "fifo_size (st_rxq st) < fifo_capacity (st_rxq st)"
      using ccfifo_inv_size_le [OF inv] by (simp add: ccfifo_is_full_def)
    from ccfifo_push_ok [OF inv this, of msg] s(4) show ?thesis by (metis option.inject prod.inject)
  qed
  ultimately show ?thesis
    using eff_put_other [OF assms(1) s(2), of "st\<lparr>st_rxq := q'\<rparr>"] s(5) by simp
qed

lemma eff_on_ack_x:
  assumes "eff c x a b w r q l" "hdr_did (msg_hdr msg) = a" "r < 65535"
  shows "\<exists>w'. on_data_ack c msg w = Some (True, w') \<and> eff c x a b w' (Suc r) q l"
proof -
  from assms(1) obtain st where st: "w_streams w x = Some st" "ccfifo_inv (st_rxq st)"
      "unat (st_rwnd st) = r" "fifo_size (st_rxq st) = q" by (rule eff_stream)
  have "unat (st_rwnd st + 1) = Suc r" using st(3) assms(3) by (simp add: unat_word_ariths)
  moreover have "find_stream_by_sid c (hdr_did (msg_hdr msg)) w = Some (Some x)"
    using assms(1,2) side_ok_find(1) [of c x a b w] by (simp add: eff_def)
  ultimately show ?thesis
    using st eff_put_x [OF assms(1) st(1), of "st\<lparr>st_rwnd := st_rwnd st + 1\<rparr>"] by (auto simp: on_data_ack_def)
qed

lemma eff_on_ack_other:
  assumes "eff c x a b w r q l" "hdr_did (msg_hdr msg) \<noteq> a" "on_data_ack c msg w = Some (True, w')"
  shows "eff c x a b w' r q l"
proof (cases "find_stream_by_sid c (hdr_did (msg_hdr msg)) w = Some None")
  case True
  with assms(1,3) show ?thesis by (simp add: on_data_ack_def)
next
  case False
  with assms(3) obtain s st where s: "find_stream_by_sid c (hdr_did (msg_hdr msg)) w = Some (Some s)"
      "w_streams w s = Some st" "w' = put_stream s (st\<lparr>st_rwnd := st_rwnd st + 1\<rparr>) w"
    by (auto simp: on_data_ack_def bind_eq_Some_conv split: option.splits)
  have ok: "side_ok c x a b w" using assms(1) by (simp add: eff_def)
  with side_ok_find(2) [OF ok s(1)] s(2) assms(2) have "s \<noteq> x" by (metis option.inject side_ok_stream)
  then show ?thesis using eff_put_other [OF assms(1) s(2), of "st\<lparr>st_rwnd := st_rwnd st + 1\<rparr>"] s(3) by simp
qed


section \<open>The invariant\<close>

text \<open>
  \<open>X p\<close> is the stream of side \<open>p\<close> and \<open>A p\<close> its id. Counted are the data and acknowledgement
  messages under way to a stream, the readers that still owe an acknowledgement, and the
  writers that have sent but not yet decremented their window.
\<close>

definition cnt :: "('a \<Rightarrow> bool) \<Rightarrow> 'a list \<Rightarrow> nat" where
  "cnt P xs = length (filter P xs)"

fun data_to :: "u16 \<Rightarrow> out_msg \<Rightarrow> bool" where
  "data_to d (Out_data _ did _) = (did = d)"
| "data_to d _ = False"

fun ack_to :: "u16 \<Rightarrow> out_msg \<Rightarrow> bool" where
  "ack_to d (Out_data_ack _ did) = (did = d)"
| "ack_to d _ = False"

fun holds :: "thr \<Rightarrow> bool" where
  "holds T_idle = False"
| "holds (T_lock _) = False"
| "holds _ = True"

fun owes_ack :: "nat \<Rightarrow> thr \<Rightarrow> bool" where
  "owes_ack s (T_lock (Job_ack s')) = (s' = s)"
| "owes_ack s (T_send (Job_ack s')) = (s' = s)"
| "owes_ack s _ = False"

fun owes_dec :: "nat \<Rightarrow> thr \<Rightarrow> bool" where
  "owes_dec s (T_dec s') = (s' = s)"
| "owes_dec s _ = False"

fun sends :: "nat \<Rightarrow> thr \<Rightarrow> bool" where
  "sends s (T_send (Job_data s' _)) = (s' = s)"
| "sends s (T_dec s') = (s' = s)"
| "sends s _ = False"

fun thr_ok :: "thr \<Rightarrow> bool" where
  "thr_ok (T_lock (Job_data _ data)) = (length data \<le> CORPC_MAX_PAYLOAD_SIZE)"
| "thr_ok (T_send (Job_data _ data)) = (length data \<le> CORPC_MAX_PAYLOAD_SIZE)"
| "thr_ok _ = True"

fun msg_ok :: "out_msg \<Rightarrow> bool" where
  "msg_ok (Out_data _ _ data) = (length data \<le> CORPC_MAX_PAYLOAD_SIZE)"
| "msg_ok (Out_data_ack _ _) = True"
| "msg_ok _ = False"

definition local_ok :: "(bool \<Rightarrow> nat) \<Rightarrow> (bool \<Rightarrow> nat) \<Rightarrow> (bool \<Rightarrow> u16) \<Rightarrow> flow_sys \<Rightarrow> bool \<Rightarrow> bool" where
  "local_ok C X A S p \<longleftrightarrow>
     side_ok (C p) (X p) (A p) (A (\<not> p)) (sys_world S p) \<and>
     cnt holds (sys_threads S p) = of_bool (locked (C p) (sys_world S p)) \<and>
     ((\<exists>t\<in>set (sys_threads S p). sends (X p) t) \<longrightarrow> 0 < rwnd_of (X p) (sys_world S p)) \<and>
     (\<forall>t\<in>set (sys_threads S p). thr_ok t) \<and> (\<forall>m\<in>set (sys_fly S p). msg_ok m)"

text \<open>The credits of the stream from side \<open>p\<close> to the other side add up to the queue size.\<close>

definition credits :: "(bool \<Rightarrow> nat) \<Rightarrow> (bool \<Rightarrow> u16) \<Rightarrow> flow_sys \<Rightarrow> bool \<Rightarrow> nat" where
  "credits X A S p =
     rwnd_of (X p) (sys_world S p) + cnt (data_to (A (\<not> p))) (sys_fly S p) + qlen (X (\<not> p)) (sys_world S (\<not> p)) +
     cnt (owes_ack (X (\<not> p))) (sys_threads S (\<not> p)) + cnt (ack_to (A p)) (sys_fly S (\<not> p)) +
     sys_lost S (\<not> p) (X (\<not> p))"

definition flow_inv :: "(bool \<Rightarrow> nat) \<Rightarrow> (bool \<Rightarrow> nat) \<Rightarrow> (bool \<Rightarrow> u16) \<Rightarrow> flow_sys \<Rightarrow> bool" where
  "flow_inv C X A S \<longleftrightarrow>
     (\<forall>p. local_ok C X A S p \<and>
        credits X A S p = CORPC_STREAM_DEFAULT_QUEUE_SIZE + cnt (owes_dec (X p)) (sys_threads S p))"

lemma cnt_simps [simp]:
  "cnt P [] = 0" "cnt P (y # ys) = of_bool (P y) + cnt P ys" "cnt P (ys @ zs) = cnt P ys + cnt P zs"
  by (simp_all add: cnt_def)

lemma cnt_update:
  assumes "i < length ts"
  shows "cnt P (ts[i := t]) + of_bool (P (ts ! i)) = cnt P ts + of_bool (P t)"
proof -
  have "ts = take i ts @ ts ! i # drop (Suc i) ts" using assms by (rule id_take_nth_drop)
  then have "cnt P ts = cnt P (take i ts) + of_bool (P (ts ! i)) + cnt P (drop (Suc i) ts)"
    by (metis add.assoc cnt_simps(2,3))
  moreover have "cnt P (ts[i := t]) = cnt P (take i ts) + of_bool (P t) + cnt P (drop (Suc i) ts)"
    using assms by (simp add: upd_conv_take_nth_drop)
  ultimately show ?thesis by simp
qed

lemma set_update_cases:
  "t' \<in> set (ts[i := t]) \<Longrightarrow> t' = t \<or> t' \<in> set ts"
  using set_update_subset_insert [of ts i t] by auto

lemma cnt_pos: "t \<in> set ts \<Longrightarrow> P t \<Longrightarrow> 0 < cnt P ts"
  by (auto simp: cnt_def filter_empty_conv)

lemma flow_inv_side:
  assumes "flow_inv C X A S"
  shows "\<exists>r q l. eff (C p) (X p) (A p) (A (\<not> p)) (sys_world S p) r q l \<and>
     rwnd_of (X p) (sys_world S p) = r \<and> qlen (X p) (sys_world S p) = q \<and>
     cnt holds (sys_threads S p) = of_bool l \<and> ((\<exists>t\<in>set (sys_threads S p). sends (X p) t) \<longrightarrow> 0 < r) \<and>
     (\<forall>t\<in>set (sys_threads S p). thr_ok t) \<and> (\<forall>m\<in>set (sys_fly S p). msg_ok m)"
  using assms by (auto simp: flow_inv_def local_ok_def eff_def)

lemma flow_invI:
  assumes inv: "flow_inv C X A S"
    and sys: "sys_world S' = (sys_world S)(p := w)" "sys_threads S' = (sys_threads S)(p := ts)"
    and eff: "eff (C p) (X p) (A p) (A (\<not> p)) w r q l"
    and thr: "cnt holds ts = of_bool l" "\<forall>t\<in>set ts. sends (X p) t \<longrightarrow> 0 < r" "\<forall>t\<in>set ts. thr_ok t"
    and fly: "\<forall>m\<in>set (sys_fly S' p). msg_ok m" "\<forall>m\<in>set (sys_fly S' (\<not> p)). msg_ok m"
    and out: "r + cnt (data_to (A (\<not> p))) (sys_fly S' p) + cnt (ack_to (A p)) (sys_fly S' (\<not> p)) +
        sys_lost S' (\<not> p) (X (\<not> p)) + cnt (owes_dec (X p)) (sys_threads S p) =
        rwnd_of (X p) (sys_world S p) + cnt (data_to (A (\<not> p))) (sys_fly S p) + cnt (ack_to (A p)) (sys_fly S (\<not> p)) +
        sys_lost S (\<not> p) (X (\<not> p)) + cnt (owes_dec (X p)) ts"
    and inb: "cnt (data_to (A p)) (sys_fly S' (\<not> p)) + q + cnt (owes_ack (X p)) ts +
        cnt (ack_to (A (\<not> p))) (sys_fly S' p) + sys_lost S' p (X p) =
        cnt (data_to (A p)) (sys_fly S (\<not> p)) + qlen (X p) (sys_world S p) + cnt (owes_ack (X p)) (sys_threads S p) +
        cnt (ack_to (A (\<not> p))) (sys_fly S p) + sys_lost S p (X p)"
  shows "flow_inv C X A S'"
proof -
  have "local_ok C X A S' p"
    using eff thr fly sys by (auto simp: local_ok_def eff_def)
  moreover have "local_ok C X A S' (\<not> p)"
  proof -
    have "local_ok C X A S (\<not> p)" using inv by (simp add: flow_inv_def)
    with fly sys show ?thesis by (simp add: local_ok_def)
  qed
  moreover have "credits X A S' p = CORPC_STREAM_DEFAULT_QUEUE_SIZE + cnt (owes_dec (X p)) (sys_threads S' p)"
  proof -
    have "credits X A S p = CORPC_STREAM_DEFAULT_QUEUE_SIZE + cnt (owes_dec (X p)) (sys_threads S p)"
      using inv by (simp add: flow_inv_def)
    with out eff sys show ?thesis by (simp add: credits_def eff_def)
  qed
  moreover have "credits X A S' (\<not> p) = CORPC_STREAM_DEFAULT_QUEUE_SIZE + cnt (owes_dec (X (\<not> p))) (sys_threads S' (\<not> p))"
  proof -
    have "credits X A S (\<not> p) = CORPC_STREAM_DEFAULT_QUEUE_SIZE + cnt (owes_dec (X (\<not> p))) (sys_threads S (\<not> p))"
      using inv by (simp add: flow_inv_def)
    with inb eff sys show ?thesis by (simp add: credits_def eff_def)
  qed
  ultimately have "local_ok C X A S' p' \<and>
      credits X A S' p' = CORPC_STREAM_DEFAULT_QUEUE_SIZE + cnt (owes_dec (X p')) (sys_threads S' p')" for p'
    by (cases "p' = p"; cases p; cases p') simp_all
  then show ?thesis by (simp add: flow_inv_def)
qed


text \<open>A step that changes the world of side \<open>p\<close> and one of its threads, and sends at most one message.\<close>

lemma flow_inv_thread:
  assumes inv: "flow_inv C X A S" and i: "i < length (sys_threads S p)"
    and sys: "sys_world S' = (sys_world S)(p := w)" "sys_threads S' = (sys_threads S)(p := (sys_threads S p)[i := t])"
      "sys_fly S' = (sys_fly S)(p := sys_fly S p @ ms)" "sys_lost S' (\<not> p) = sys_lost S (\<not> p)" "\<forall>m\<in>set ms. msg_ok m"
    and eff: "eff (C p) (X p) (A p) (A (\<not> p)) w r q l" and ok: "thr_ok t"
    and pos: "\<forall>t'\<in>set ((sys_threads S p)[i := t]). sends (X p) t' \<longrightarrow> 0 < r"
    and lk: "cnt holds (sys_threads S p) + of_bool (holds t) = of_bool l + of_bool (holds (sys_threads S p ! i))"
    and out: "r + cnt (data_to (A (\<not> p))) ms + of_bool (owes_dec (X p) (sys_threads S p ! i)) =
        rwnd_of (X p) (sys_world S p) + of_bool (owes_dec (X p) t)"
    and inb: "q + cnt (ack_to (A (\<not> p))) ms + of_bool (owes_ack (X p) t) + sys_lost S' p (X p) =
        qlen (X p) (sys_world S p) + of_bool (owes_ack (X p) (sys_threads S p ! i)) + sys_lost S p (X p)"
  shows "flow_inv C X A S'"
proof -
  let ?ts = "(sys_threads S p)[i := t]"
  have loc: "local_ok C X A S p" "local_ok C X A S (\<not> p)" using inv by (simp_all add: flow_inv_def)
  show ?thesis
  proof (rule flow_invI [OF inv sys(1,2) eff])
    show "cnt holds ?ts = of_bool l" using cnt_update [OF i, of holds t] lk by simp
    show "\<forall>t\<in>set ?ts. sends (X p) t \<longrightarrow> 0 < r" by (rule pos)
    show "\<forall>t\<in>set ?ts. thr_ok t" using loc(1) ok by (auto simp: local_ok_def dest!: set_update_cases)
    show "\<forall>m\<in>set (sys_fly S' p). msg_ok m" "\<forall>m\<in>set (sys_fly S' (\<not> p)). msg_ok m"
      using loc sys(3,5) by (auto simp: local_ok_def)
  next
    show "r + cnt (data_to (A (\<not> p))) (sys_fly S' p) + cnt (ack_to (A p)) (sys_fly S' (\<not> p)) +
        sys_lost S' (\<not> p) (X (\<not> p)) + cnt (owes_dec (X p)) (sys_threads S p) =
        rwnd_of (X p) (sys_world S p) + cnt (data_to (A (\<not> p))) (sys_fly S p) + cnt (ack_to (A p)) (sys_fly S (\<not> p)) +
        sys_lost S (\<not> p) (X (\<not> p)) + cnt (owes_dec (X p)) ?ts"
      using cnt_update [OF i, of "owes_dec (X p)" t] out sys(3,4) by simp
  next
    show "cnt (data_to (A p)) (sys_fly S' (\<not> p)) + q + cnt (owes_ack (X p)) ?ts +
        cnt (ack_to (A (\<not> p))) (sys_fly S' p) + sys_lost S' p (X p) =
        cnt (data_to (A p)) (sys_fly S (\<not> p)) + qlen (X p) (sys_world S p) + cnt (owes_ack (X p)) (sys_threads S p) +
        cnt (ack_to (A (\<not> p))) (sys_fly S p) + sys_lost S p (X p)"
      using cnt_update [OF i, of "owes_ack (X p)" t] inb sys(3) by simp
  qed
qed

lemma sends_holds: "sends s t \<Longrightarrow> holds t"
  by (cases "(s, t)" rule: sends.cases) simp_all

lemma pos_keep:
  assumes "\<forall>t\<in>set ts. sends s t \<longrightarrow> 0 < r" "sends s t \<longrightarrow> 0 < r"
  shows "\<forall>t'\<in>set (ts[i := t]). sends s t' \<longrightarrow> 0 < (r :: nat)"
  using assms by (auto dest!: set_update_cases)

lemma flow_inv_parts:
  assumes "flow_inv C X A S"
  obtains r q l where "eff (C p) (X p) (A p) (A (\<not> p)) (sys_world S p) r q l"
    "rwnd_of (X p) (sys_world S p) = r" "qlen (X p) (sys_world S p) = q"
    "cnt holds (sys_threads S p) = of_bool l" "\<forall>t\<in>set (sys_threads S p). sends (X p) t \<longrightarrow> 0 < r"
    "\<forall>t\<in>set (sys_threads S p). thr_ok t"
proof -
  from assms have "local_ok C X A S p" by (simp add: flow_inv_def)
  then show thesis
    by (intro that [of "rwnd_of (X p) (sys_world S p)" "qlen (X p) (sys_world S p)" "locked (C p) (sys_world S p)"])
      (auto simp: local_ok_def eff_def)
qed

lemma flow_write:
  assumes "flow_inv C X A S" "i < length (sys_threads S p)" "sys_threads S p ! i = T_idle"
    and "length data \<le> CORPC_MAX_PAYLOAD_SIZE"
  shows "flow_inv C X A (set_thread p i (T_lock (Job_data s data)) S)"
proof -
  from assms(1) obtain r q l where o: "eff (C p) (X p) (A p) (A (\<not> p)) (sys_world S p) r q l"
    "rwnd_of (X p) (sys_world S p) = r" "qlen (X p) (sys_world S p) = q"
    "cnt holds (sys_threads S p) = of_bool l" "\<forall>t\<in>set (sys_threads S p). sends (X p) t \<longrightarrow> 0 < r"
    "\<forall>t\<in>set (sys_threads S p). thr_ok t"
    by (rule flow_inv_parts [where p = p])
  show ?thesis
    by (rule flow_inv_thread [OF assms(1,2), where t = "T_lock (Job_data s data)" and ms = "[]" and w = "sys_world S p", OF _ _ _ _ _ o(1) _ pos_keep [OF o(5)]])
      (use assms o in simp_all)
qed

lemma flow_read_ack:
  assumes "flow_inv C X A S" "i < length (sys_threads S p)" "sys_threads S p ! i = T_idle"
    and pop: "read_pop s (sys_world S p) = Some (Some msg, conn, w)"
  shows "flow_inv C X A (set_world p w (set_thread p i (T_lock (Job_ack s)) S))"
proof -
  from assms(1) obtain r q l where o: "eff (C p) (X p) (A p) (A (\<not> p)) (sys_world S p) r q l"
    "rwnd_of (X p) (sys_world S p) = r" "qlen (X p) (sys_world S p) = q"
    "cnt holds (sys_threads S p) = of_bool l" "\<forall>t\<in>set (sys_threads S p). sends (X p) t \<longrightarrow> 0 < r"
    "\<forall>t\<in>set (sys_threads S p). thr_ok t"
    by (rule flow_inv_parts [where p = p])
  note e = eff_read_pop [OF o(1) pop]
  show ?thesis
    by (rule flow_inv_thread [OF assms(1,2), where t = "T_lock (Job_ack s)" and ms = "[]" and w = w, OF _ _ _ _ _ conjunct1 [OF e] _ pos_keep [OF o(5)]])
      (use assms o e in auto)
qed


lemma flow_read_lost:
  assumes "flow_inv C X A S" "read_pop s (sys_world S p) = Some (Some msg, conn, w)"
  shows "flow_inv C X A (set_world p w (lose p s S))"
proof -
  from assms(1) obtain r q l where o: "eff (C p) (X p) (A p) (A (\<not> p)) (sys_world S p) r q l"
    "rwnd_of (X p) (sys_world S p) = r" "qlen (X p) (sys_world S p) = q"
    "cnt holds (sys_threads S p) = of_bool l" "\<forall>t\<in>set (sys_threads S p). sends (X p) t \<longrightarrow> 0 < r"
    "\<forall>t\<in>set (sys_threads S p). thr_ok t"
    by (rule flow_inv_parts [where p = p])
  note e = eff_read_pop [OF o(1) assms(2)]
  have "local_ok C X A S (\<not> p)" "local_ok C X A S p" using assms(1) by (simp_all add: flow_inv_def)
  then show ?thesis
    by (intro flow_invI [OF assms(1), where p = p and w = w and ts = "sys_threads S p", OF _ _ conjunct1 [OF e]])
      (use o e in \<open>auto simp: local_ok_def\<close>)
qed

lemma flow_read_none:
  assumes "flow_inv C X A S" "read_pop s (sys_world S p) = Some (None, conn, w)"
  shows "flow_inv C X A (set_world p w S)"
proof -
  from assms(1) obtain r q l where o: "eff (C p) (X p) (A p) (A (\<not> p)) (sys_world S p) r q l"
    "rwnd_of (X p) (sys_world S p) = r" "qlen (X p) (sys_world S p) = q"
    "cnt holds (sys_threads S p) = of_bool l" "\<forall>t\<in>set (sys_threads S p). sends (X p) t \<longrightarrow> 0 < r"
    "\<forall>t\<in>set (sys_threads S p). thr_ok t"
    by (rule flow_inv_parts [where p = p])
  note e = eff_read_pop [OF o(1) assms(2)]
  have "local_ok C X A S (\<not> p)" "local_ok C X A S p" using assms(1) by (simp_all add: flow_inv_def)
  then show ?thesis
    by (intro flow_invI [OF assms(1), where p = p and w = w and ts = "sys_threads S p", OF _ _ conjunct1 [OF e]])
      (use o e in \<open>auto simp: local_ok_def\<close>)
qed

lemma flow_lock:
  assumes "flow_inv C X A S" "i < length (sys_threads S p)" "sys_threads S p ! i = T_lock j"
    and "write_lock_pass (job_window j) (C p) (sys_world S p) = Some (Locked, w)"
  shows "flow_inv C X A (set_world p w (set_thread p i (T_send j) S))"
proof -
  from assms(1) obtain r q l where o: "eff (C p) (X p) (A p) (A (\<not> p)) (sys_world S p) r q l"
    "rwnd_of (X p) (sys_world S p) = r" "qlen (X p) (sys_world S p) = q"
    "cnt holds (sys_threads S p) = of_bool l" "\<forall>t\<in>set (sys_threads S p). sends (X p) t \<longrightarrow> 0 < r"
    "\<forall>t\<in>set (sys_threads S p). thr_ok t"
    by (rule flow_inv_parts [where p = p])
  note e = eff_locked [OF o(1) assms(4)]
  have "thr_ok (T_lock j)" using o(6) assms(2,3) nth_mem by metis
  then show ?thesis
    by (intro flow_inv_thread [OF assms(1,2), where t = "T_send j" and ms = "[]" and w = w,
          OF _ _ _ _ _ conjunct1 [OF conjunct2 [OF e]] _ pos_keep [OF o(5)]])
      (use assms(2,3) o e in \<open>cases j; simp\<close>)+
qed

lemma flow_lock_fails:
  assumes "flow_inv C X A S" "i < length (sys_threads S p)" "sys_threads S p ! i = T_lock j"
    and "write_lock_pass (job_window j) (C p) (sys_world S p) = Some (Not_connected, w)"
  shows "flow_inv C X A (set_world p w (lose_job p j (set_thread p i T_idle S)))"
proof -
  from assms(1) obtain r q l where o: "eff (C p) (X p) (A p) (A (\<not> p)) (sys_world S p) r q l"
    "rwnd_of (X p) (sys_world S p) = r" "qlen (X p) (sys_world S p) = q"
    "cnt holds (sys_threads S p) = of_bool l" "\<forall>t\<in>set (sys_threads S p). sends (X p) t \<longrightarrow> 0 < r"
    "\<forall>t\<in>set (sys_threads S p). thr_ok t"
    by (rule flow_inv_parts [where p = p])
  note e = eff_not_connected [OF o(1) assms(4)]
  show ?thesis
    by (intro flow_inv_thread [OF assms(1,2), where t = "T_idle" and ms = "[]" and w = w,
          OF _ _ _ _ _ e _ pos_keep [OF o(5)]])
      (use assms(2,3) o e in \<open>cases j; simp\<close>)+
qed

lemma flow_send_fails:
  assumes "flow_inv C X A S" "i < length (sys_threads S p)" "sys_threads S p ! i = T_send j"
  shows "flow_inv C X A (lose_job p j (set_thread p i T_unlock S))"
proof -
  from assms(1) obtain r q l where o: "eff (C p) (X p) (A p) (A (\<not> p)) (sys_world S p) r q l"
    "rwnd_of (X p) (sys_world S p) = r" "qlen (X p) (sys_world S p) = q"
    "cnt holds (sys_threads S p) = of_bool l" "\<forall>t\<in>set (sys_threads S p). sends (X p) t \<longrightarrow> 0 < r"
    "\<forall>t\<in>set (sys_threads S p). thr_ok t"
    by (rule flow_inv_parts [where p = p])
  show ?thesis
    by (intro flow_inv_thread [OF assms(1,2), where t = "T_unlock" and ms = "[]" and w = "sys_world S p",
          OF _ _ _ _ _ o(1) _ pos_keep [OF o(5)]])
      (use assms(2,3) o in \<open>cases j; simp\<close>)+
qed

lemma flow_unlock:
  assumes "flow_inv C X A S" "i < length (sys_threads S p)" "sys_threads S p ! i = T_unlock"
    and "release_write_lock (C p) (sys_world S p) = Some w"
  shows "flow_inv C X A (set_world p w (set_thread p i T_idle S))"
proof -
  from assms(1) obtain r q l where o: "eff (C p) (X p) (A p) (A (\<not> p)) (sys_world S p) r q l"
    "rwnd_of (X p) (sys_world S p) = r" "qlen (X p) (sys_world S p) = q"
    "cnt holds (sys_threads S p) = of_bool l" "\<forall>t\<in>set (sys_threads S p). sends (X p) t \<longrightarrow> 0 < r"
    "\<forall>t\<in>set (sys_threads S p). thr_ok t"
    by (rule flow_inv_parts [where p = p])
  note e = eff_release [OF o(1) assms(4)]
  have "l" using o(4) cnt_pos [of "T_unlock" "sys_threads S p" holds] assms(2,3) nth_mem [OF assms(2)] by (cases l) auto
  then show ?thesis
    by (intro flow_inv_thread [OF assms(1,2), where t = "T_idle" and ms = "[]" and w = w,
          OF _ _ _ _ _ e _ pos_keep [OF o(5)]])
      (use assms(2,3) o in simp)+
qed


lemma flow_send:
  assumes "flow_inv C X A S" "i < length (sys_threads S p)" "sys_threads S p ! i = T_send j"
    and "w_streams (sys_world S p) (job_stream j) = Some st" "st_channel st = Some (C p)"
    and "emit True (C p) (job_msg j st) (sys_world S p) = Some w"
  shows "flow_inv C X A (put_fly p (sys_fly S p @ [job_msg j st]) (set_world p w (set_thread p i (job_sent j) S)))"
proof -
  from assms(1) obtain r q l where o: "eff (C p) (X p) (A p) (A (\<not> p)) (sys_world S p) r q l"
    "rwnd_of (X p) (sys_world S p) = r" "qlen (X p) (sys_world S p) = q"
    "cnt holds (sys_threads S p) = of_bool l" "\<forall>t\<in>set (sys_threads S p). sends (X p) t \<longrightarrow> 0 < r"
    "\<forall>t\<in>set (sys_threads S p). thr_ok t"
    by (rule flow_inv_parts [where p = p])
  note e = eff_emit [OF o(1) assms(6)]
  have "thr_ok (T_send j)" "sends (X p) (T_send j) \<longrightarrow> 0 < r" using o(5,6) assms(2,3) nth_mem by metis+
  moreover have "st_did st = A (\<not> p) \<longleftrightarrow> job_stream j = X p"
    using o(1) assms(4,5) unfolding eff_def side_ok_def stream_ok_def by blast
  ultimately show ?thesis
    by (intro flow_inv_thread [OF assms(1,2), where t = "job_sent j" and ms = "[job_msg j st]" and w = w,
          OF _ _ _ _ _ e _ pos_keep [OF o(5)]])
      (use assms(2,3) o in \<open>cases j; simp\<close>)+
qed

lemma cnt_mono: "(\<And>t. P t \<Longrightarrow> Q t) \<Longrightarrow> cnt P ts \<le> cnt Q ts"
  by (induction ts) (auto simp: of_bool_def)

lemma flow_dec:
  assumes "flow_inv C X A S" "i < length (sys_threads S p)" "sys_threads S p ! i = T_dec s"
    and "dec_rwnd s (sys_world S p) = Some w"
  shows "flow_inv C X A (set_world p w (set_thread p i T_unlock S))"
proof -
  from assms(1) obtain r q l where o: "eff (C p) (X p) (A p) (A (\<not> p)) (sys_world S p) r q l"
    "rwnd_of (X p) (sys_world S p) = r" "qlen (X p) (sys_world S p) = q"
    "cnt holds (sys_threads S p) = of_bool l" "\<forall>t\<in>set (sys_threads S p). sends (X p) t \<longrightarrow> 0 < r"
    "\<forall>t\<in>set (sys_threads S p). thr_ok t"
    by (rule flow_inv_parts [where p = p])
  have "sends (X p) (T_dec s) \<longrightarrow> 0 < r" using o(5) assms(2,3) nth_mem by metis
  then have r: "s = X p \<longrightarrow> 0 < r" by simp
  note e = eff_dec_rwnd [OF o(1) assms(4) r [rule_format]]
  have "\<forall>t\<in>set ((sys_threads S p)[i := T_unlock]). sends (X p) t \<longrightarrow> 0 < (if s = X p then r - 1 else r)"
  proof (cases "s = X p")
    case True
    have "cnt (sends (X p)) (sys_threads S p) \<le> 1"
      using cnt_mono [of "sends (X p)" holds "sys_threads S p", OF sends_holds] o(4) by (cases l) simp_all
    with cnt_update [OF assms(2), of "sends (X p)" T_unlock] assms(3) True
    have "cnt (sends (X p)) ((sys_threads S p)[i := T_unlock]) = 0" by simp
    then show ?thesis using cnt_pos [of _ "(sys_threads S p)[i := T_unlock]" "sends (X p)"] by fastforce
  next
    case False
    with pos_keep [OF o(5), of T_unlock i] show ?thesis by simp
  qed
  then show ?thesis
    by (intro flow_inv_thread [OF assms(1,2), where t = T_unlock and ms = "[]" and w = w, OF _ _ _ _ _ e])
      (use assms(2,3) o r in auto)
qed

text \<open>
  The bounds that follow from the invariant: a window stays small, and when data is under way to a
  stream its queue has room.
\<close>

lemma flow_owes_dec_le:
  assumes "flow_inv C X A S"
  shows "cnt (owes_dec (X p)) (sys_threads S p) \<le> 1"
    and "cnt (owes_dec (X p)) (sys_threads S p) \<noteq> 0 \<Longrightarrow> 0 < rwnd_of (X p) (sys_world S p)"
proof -
  from assms obtain r q l where o: "eff (C p) (X p) (A p) (A (\<not> p)) (sys_world S p) r q l"
    "rwnd_of (X p) (sys_world S p) = r" "qlen (X p) (sys_world S p) = q"
    "cnt holds (sys_threads S p) = of_bool l" "\<forall>t\<in>set (sys_threads S p). sends (X p) t \<longrightarrow> 0 < r"
    "\<forall>t\<in>set (sys_threads S p). thr_ok t"
    by (rule flow_inv_parts [where p = p])
  have "owes_dec (X p) t \<Longrightarrow> holds t" for t by (cases t) simp_all
  from cnt_mono [of "owes_dec (X p)" holds "sys_threads S p", OF this] o(4)
  show "cnt (owes_dec (X p)) (sys_threads S p) \<le> 1" by (cases l) simp_all
  assume "cnt (owes_dec (X p)) (sys_threads S p) \<noteq> 0"
  then obtain t where "t \<in> set (sys_threads S p)" "owes_dec (X p) t"
    unfolding cnt_def length_0_conv filter_empty_conv by blast
  moreover have "owes_dec (X p) t \<Longrightarrow> sends (X p) t" for t by (cases t) simp_all
  ultimately show "0 < rwnd_of (X p) (sys_world S p)" using o(2,5) by blast
qed

lemma flow_bounds:
  assumes "flow_inv C X A S"
  shows "rwnd_of (X p) (sys_world S p) \<le> 9" "qlen (X p) (sys_world S p) \<le> 8"
    and "\<exists>m\<in>set (sys_fly S (\<not> p)). data_to (A p) m \<Longrightarrow> qlen (X p) (sys_world S p) < 8"
proof -
  have c: "credits X A S p = 8 + cnt (owes_dec (X p)) (sys_threads S p)"
    "credits X A S (\<not> p) = 8 + cnt (owes_dec (X (\<not> p))) (sys_threads S (\<not> p))"
    using assms by (simp_all add: flow_inv_def CORPC_STREAM_DEFAULT_QUEUE_SIZE_def)
  note d = flow_owes_dec_le [OF assms, of p] flow_owes_dec_le [OF assms, of "\<not> p"]
  show "rwnd_of (X p) (sys_world S p) \<le> 9" using c(1) d(1) by (simp add: credits_def)
  have "credits X A S (\<not> p) \<le> 8 + rwnd_of (X (\<not> p)) (sys_world S (\<not> p))"
    using c(2) d(3,4) by (cases "cnt (owes_dec (X (\<not> p))) (sys_threads S (\<not> p)) = 0") auto
  then have room: "cnt (data_to (A p)) (sys_fly S (\<not> p)) + qlen (X p) (sys_world S p) \<le> 8"
    by (simp add: credits_def)
  then show "qlen (X p) (sys_world S p) \<le> 8" by simp
  assume "\<exists>m\<in>set (sys_fly S (\<not> p)). data_to (A p) m"
  then have "0 < cnt (data_to (A p)) (sys_fly S (\<not> p))" using cnt_pos by metis
  with room show "qlen (X p) (sys_world S p) < 8" by simp
qed


text \<open>The dispatch on the two kinds of message that are under way.\<close>

lemma dispatch_data:
  assumes "length data \<le> CORPC_MAX_PAYLOAD_SIZE"
  shows "corpc_channel_dispatch ord env c (received ord (Out_data sid did data) buf) w =
    map_option (\<lambda>(_, fok, w). (Some fok, w)) (on_data_message c (received ord (Out_data sid did data) buf) w)"
  using received_data [OF assms, of ord sid did buf]
  by (cases "on_data_message c (received ord (Out_data sid did data) buf) w")
    (auto simp: corpc_channel_dispatch_def co_msg_codes)

lemma dispatch_ack:
  "corpc_channel_dispatch ord env c (received ord (Out_data_ack sid did) buf) w =
    map_option (\<lambda>(fok, w). (Some fok, w)) (on_data_ack c (received ord (Out_data_ack sid did) buf) w)"
  using received_ack [of ord sid did buf] by (simp add: corpc_channel_dispatch_def co_msg_codes)

lemma flow_deliver_data:
  assumes "flow_inv C X A S" "sys_fly S (\<not> p) = Out_data sid (A p) data # ms"
  shows "\<exists>w l. corpc_channel_dispatch ord env (C p) (received ord (Out_data sid (A p) data) buf) (sys_world S p) =
      Some (Some True, w) \<and>
    eff (C p) (X p) (A p) (A (\<not> p)) w (rwnd_of (X p) (sys_world S p)) (Suc (qlen (X p) (sys_world S p))) (locked (C p) (sys_world S p))"
proof -
  have ok: "length data \<le> CORPC_MAX_PAYLOAD_SIZE" "side_ok (C p) (X p) (A p) (A (\<not> p)) (sys_world S p)"
    using assms unfolding flow_inv_def local_ok_def by (metis list.set_intros(1) msg_ok.simps(1), metis)
  have "qlen (X p) (sys_world S p) < CORPC_STREAM_DEFAULT_QUEUE_SIZE"
    using flow_bounds(3) [OF assms(1), of p] assms(2) by (simp add: CORPC_STREAM_DEFAULT_QUEUE_SIZE_def)
  with eff_on_data_x [of "C p" "X p" "A p" "A (\<not> p)" "sys_world S p"] received_data [OF ok(1), of ord sid "A p" buf]
    dispatch_data [OF ok(1)] ok(2)
  show ?thesis by (fastforce simp: eff_def)
qed

lemma flow_deliver_ack:
  assumes "flow_inv C X A S" "sys_fly S (\<not> p) = Out_data_ack sid (A p) # ms"
  shows "\<exists>w. corpc_channel_dispatch ord env (C p) (received ord (Out_data_ack sid (A p)) buf) (sys_world S p) =
      Some (Some True, w) \<and>
    eff (C p) (X p) (A p) (A (\<not> p)) w (Suc (rwnd_of (X p) (sys_world S p))) (qlen (X p) (sys_world S p)) (locked (C p) (sys_world S p))"
proof -
  have ok: "side_ok (C p) (X p) (A p) (A (\<not> p)) (sys_world S p)"
    using assms unfolding flow_inv_def local_ok_def by metis
  have "rwnd_of (X p) (sys_world S p) < 65535" using flow_bounds(1) [OF assms(1), of p] by simp
  with eff_on_ack_x [of "C p" "X p" "A p" "A (\<not> p)" "sys_world S p"] received_ack [of ord sid "A p" buf]
    dispatch_ack ok
  show ?thesis by (fastforce simp: eff_def)
qed

lemma flow_recv:
  assumes "flow_inv C X A S" "sys_fly S (\<not> p) = m # ms"
    and "corpc_channel_dispatch ord env (C p) (received ord m buf) (sys_world S p) = Some (Some True, w)"
  shows "flow_inv C X A (put_fly (\<not> p) ms (set_world p w S))"
proof -
  from assms(1) obtain r q l where o: "eff (C p) (X p) (A p) (A (\<not> p)) (sys_world S p) r q l"
    "rwnd_of (X p) (sys_world S p) = r" "qlen (X p) (sys_world S p) = q"
    "cnt holds (sys_threads S p) = of_bool l" "\<forall>t\<in>set (sys_threads S p). sends (X p) t \<longrightarrow> 0 < r"
    "\<forall>t\<in>set (sys_threads S p). thr_ok t"
    by (rule flow_inv_parts [where p = p])
  have loc: "\<forall>m\<in>set (sys_fly S p). msg_ok m" "\<forall>m\<in>set (sys_fly S (\<not> p)). msg_ok m"
    using assms(1) by (simp_all add: flow_inv_def local_ok_def)
  have "\<exists>r' q'. eff (C p) (X p) (A p) (A (\<not> p)) w r' q' l \<and> r' = r + of_bool (ack_to (A p) m) \<and>
      q' = q + of_bool (data_to (A p) m)"
  proof (cases m)
    case (Out_data sid did data)
    show ?thesis
    proof (cases "did = A p")
      case True
      with flow_deliver_data [OF assms(1), of p sid data ms ord env buf] assms(2,3) Out_data o(1-3)
      show ?thesis by (auto simp: eff_def)
    next
      case False
      have len: "length data \<le> CORPC_MAX_PAYLOAD_SIZE" using loc(2) assms(2) Out_data by simp
      with assms(3) Out_data dispatch_data [OF len] obtain pm where
        "on_data_message (C p) (received ord m buf) (sys_world S p) = Some (pm, True, w)" by auto
      with eff_on_data_other [OF o(1), of "received ord m buf"] received_data [OF len, of ord sid did buf] False Out_data
      show ?thesis by auto
    qed
  next
    case (Out_data_ack sid did)
    show ?thesis
    proof (cases "did = A p")
      case True
      with flow_deliver_ack [OF assms(1), of p sid ms ord env buf] assms(2,3) Out_data_ack o(1-3)
      show ?thesis by (auto simp: eff_def)
    next
      case False
      with assms(3) Out_data_ack dispatch_ack have
        "on_data_ack (C p) (received ord m buf) (sys_world S p) = Some (True, w)" by auto
      with eff_on_ack_other [OF o(1), of "received ord m buf"] received_ack [of ord sid did buf] False Out_data_ack
      show ?thesis by auto
    qed
  qed (use loc(2) assms(2) in auto)
  then obtain r' q' where n: "eff (C p) (X p) (A p) (A (\<not> p)) w r' q' l" "r' = r + of_bool (ack_to (A p) m)"
    "q' = q + of_bool (data_to (A p) m)" by blast
  show ?thesis
    by (rule flow_invI [OF assms(1), where p = p and w = w and ts = "sys_threads S p", OF _ _ n(1)])
      (use o n(2,3) loc assms(2) in auto)
qed

lemma flow_inv_step:
  assumes "flow_step ord C S S'" "flow_inv C X A S"
  shows "flow_inv C X A S'"
  using assms
  by cases (blast intro: flow_write flow_read_ack flow_read_lost flow_read_none flow_lock flow_lock_fails
      flow_send flow_send_fails flow_dec flow_unlock flow_recv)+

lemma flow_inv_steps: "(flow_step ord C)\<^sup>*\<^sup>* S S' \<Longrightarrow> flow_inv C X A S \<Longrightarrow> flow_inv C X A S'"
  by (induction rule: rtranclp_induct) (blast intro: flow_inv_step)+


section \<open>Flow control is sound\<close>

text \<open>
  The start: on both sides an established stream with an empty queue and a window of the other
  side's queue size, no thread inside of the library, nothing under way.
\<close>

definition flow_init :: "(bool \<Rightarrow> nat) \<Rightarrow> (bool \<Rightarrow> nat) \<Rightarrow> (bool \<Rightarrow> u16) \<Rightarrow> flow_sys \<Rightarrow> bool" where
  "flow_init C X A S \<longleftrightarrow>
     (\<forall>p. eff (C p) (X p) (A p) (A (\<not> p)) (sys_world S p) CORPC_STREAM_DEFAULT_QUEUE_SIZE 0 False \<and>
        set (sys_threads S p) \<subseteq> {T_idle} \<and> sys_fly S p = [] \<and> (\<forall>s. sys_lost S p s = 0))"

lemma flow_init_inv: "flow_init C X A S \<Longrightarrow> flow_inv C X A S"
proof -
  assume init: "flow_init C X A S"
  have "cnt P (sys_threads S p) = 0" if "\<not> P T_idle" for P p
    using init that unfolding flow_init_def cnt_def by (auto simp: filter_empty_conv)
  moreover have "\<forall>t\<in>set (sys_threads S p). thr_ok t \<and> \<not> sends (X p) t" for p
  proof
    fix t assume "t \<in> set (sys_threads S p)"
    with init have "t = T_idle" unfolding flow_init_def by blast
    then show "thr_ok t \<and> \<not> sends (X p) t" by simp
  qed
  ultimately show ?thesis
    using init by (auto simp: flow_inv_def local_ok_def credits_def flow_init_def eff_def)
qed

text \<open>
  C1. Flow control is sound. However the threads of both sides interleave their writes, reads and
  acknowledgements, a data message that arrives for the stream always finds room: the channel
  thread's handler neither takes the protocol error branch for a full queue nor touches invalid
  memory, and the queue grows by the message. An acknowledgement that arrives increments the
  window by one without wrapping.
\<close>

theorem corpc_flow_control_sound:
  assumes "flow_init C X A S0" "(flow_step ord C)\<^sup>*\<^sup>* S0 S"
    and "sys_fly S (\<not> p) = m # ms" "data_to (A p) m \<or> ack_to (A p) m"
  shows "\<exists>w. corpc_channel_dispatch ord env (C p) (received ord m buf) (sys_world S p) = Some (Some True, w) \<and>
    qlen (X p) w = qlen (X p) (sys_world S p) + of_bool (data_to (A p) m) \<and> qlen (X p) w \<le> CORPC_STREAM_DEFAULT_QUEUE_SIZE \<and>
    rwnd_of (X p) w = rwnd_of (X p) (sys_world S p) + of_bool (ack_to (A p) m)"
proof -
  have inv: "flow_inv C X A S" using flow_inv_steps [OF assms(2)] flow_init_inv [OF assms(1)] by blast
  have q: "qlen (X p) (sys_world S p) \<le> 8" "data_to (A p) m \<Longrightarrow> qlen (X p) (sys_world S p) < 8"
    using flow_bounds(2,3) [OF inv, of p] assms(3) by auto
  show ?thesis
  proof (cases m)
    case (Out_data sid did data)
    with assms(4) have "did = A p" by simp
    with flow_deliver_data [OF inv, of p sid data ms ord env buf] assms(3) Out_data q
    show ?thesis by (auto simp: eff_def CORPC_STREAM_DEFAULT_QUEUE_SIZE_def)
  next
    case (Out_data_ack sid did)
    with assms(4) have "did = A p" by simp
    with flow_deliver_ack [OF inv, of p sid ms ord env buf] assms(3) Out_data_ack q
    show ?thesis by (auto simp: eff_def CORPC_STREAM_DEFAULT_QUEUE_SIZE_def)
  qed (use assms(4) in auto)
qed

text \<open>A concrete system: one stream on each side, one thread on each side.\<close>

definition example_stream :: "u16 \<Rightarrow> u16 \<Rightarrow> corpc_stream" where
  "example_stream a b =
     \<lparr>st_channel = Some 1, st_rxq = snd (ccfifo_init (\<lambda>_. True) (st_rxq zero_stream) CORPC_STREAM_DEFAULT_QUEUE_SIZE 8),
      st_state = corpc_stream_established, st_sid = a, st_did = b, st_rwnd = 8\<rparr>"

definition example_channel :: corpc_channel where
  "example_channel = calloc_channel
     \<lparr>ch_streams := \<lparr>arr_items = Some [Some 5, None], arr_capacity = 2, arr_size = 1, arr_item_size = 8\<rparr>,
      ch_state := corpc_channel_state_established\<rparr>"

definition example_world :: "u16 \<Rightarrow> u16 \<Rightarrow> corpc_world" where
  "example_world a b =
     \<lparr>w_channels = [1 \<mapsto> example_channel], w_streams = [5 \<mapsto> example_stream a b], w_gsid = 0, w_errno = EOK, w_out = []\<rparr>"

definition example_sys :: flow_sys where
  "example_sys =
     \<lparr>sys_world = (\<lambda>p. if p then example_world 3 7 else example_world 7 3), sys_threads = (\<lambda>_. [T_idle]),
      sys_fly = (\<lambda>_. []), sys_lost = (\<lambda>_ _. 0)\<rparr>"

definition example_env :: request_env where
  "example_env = \<lparr>env_addr = None, env_fifo_ok = True, env_start_ok = True, env_waits = [], env_send_ok = True\<rparr>"

abbreviation example_sids :: "bool \<Rightarrow> u16" where
  "example_sids \<equiv> (\<lambda>p. if p then 3 else 7)"

lemma example_eff: "eff 1 5 a b (example_world a b) 8 0 False"
proof -
  have "ccarray_list (ch_streams example_channel) = [5]" "ccarray_inv (ch_streams example_channel)"
    by (simp_all add: example_channel_def ccarray_list_def ccarray_inv_def)
  moreover have "ccfifo_inv (st_rxq (example_stream a b))" "fifo_capacity (st_rxq (example_stream a b)) = 8"
    "fifo_size (st_rxq (example_stream a b)) = 0"
    by (simp_all add: example_stream_def ccfifo_init_def malloc_bytes_def ccfifo_inv_def ccfifo_slot_def
        CORPC_STREAM_DEFAULT_QUEUE_SIZE_def)
  ultimately show ?thesis
    by (auto simp: eff_def side_ok_def stream_ok_def rwnd_of_def qlen_def locked_def example_world_def
        CORPC_STREAM_DEFAULT_QUEUE_SIZE_def)
      (simp_all add: example_stream_def example_channel_def calloc_channel_def)
qed

lemma example_init: "flow_init (\<lambda>_. 1) (\<lambda>_. 5) example_sids example_sys"
  using example_eff by (simp add: flow_init_def example_sys_def CORPC_STREAM_DEFAULT_QUEUE_SIZE_def)

lemma example_send:
  "\<exists>S. (flow_step LITTLE_ENDIAN (\<lambda>_. 1))\<^sup>*\<^sup>* example_sys S \<and> sys_fly S True = [Out_data 3 7 [1, 2]] \<and>
     sys_threads S True = [T_dec 5]"
proof -
  let ?step = "flow_step LITTLE_ENDIAN (\<lambda>_. 1)"
  let ?j = "Job_data 5 [1, 2]"
  let ?S1 = "set_thread True 0 (T_lock ?j) example_sys"
  let ?w2 = "put_channel 1 (example_channel\<lparr>ch_write_lock := True\<rparr>) (example_world 3 7)"
  let ?S2 = "set_world True ?w2 (set_thread True 0 (T_send ?j) ?S1)"
  let ?w3 = "?w2\<lparr>w_out := [(None, Out_data 3 7 [1, 2])]\<rparr>"
  let ?S3 = "put_fly True (sys_fly ?S2 True @ [job_msg ?j (example_stream 3 7)]) (set_world True ?w3 (set_thread True 0 (job_sent ?j) ?S2))"
  note defs = example_sys_def example_world_def
  have "?step example_sys ?S1"
    by (rule do_write [where st = "example_stream 3 7"])
      (simp_all add: defs CORPC_MAX_PAYLOAD_SIZE_def, simp add: example_stream_def)
  moreover have "?step ?S1 ?S2"
    by (rule do_lock) (simp_all add: defs write_lock_pass_def example_channel_def example_stream_def
        corpc_channel_established_def calloc_channel_def)
  moreover have "?step ?S2 ?S3"
    by (rule do_send) (simp_all add: defs emit_def example_channel_def calloc_channel_def, simp_all add: example_stream_def)
  ultimately have "?step\<^sup>*\<^sup>* example_sys ?S3" by (meson converse_rtranclp_into_rtranclp rtranclp.rtrancl_refl)
  moreover have "sys_fly ?S3 True = [Out_data 3 7 [1, 2]]" "sys_threads ?S3 True = [T_dec 5]"
    by (simp_all add: defs) (simp add: example_stream_def)
  ultimately show ?thesis by blast
qed

theorem corpc_flow_control_sound_witness:
  "\<exists>S w. (flow_step LITTLE_ENDIAN (\<lambda>_. 1))\<^sup>*\<^sup>* example_sys S \<and>
     corpc_channel_dispatch LITTLE_ENDIAN example_env 1 (received LITTLE_ENDIAN (Out_data 3 7 [1, 2]) example_msg)
       (sys_world S False) = Some (Some True, w) \<and> qlen 5 w = Suc (qlen 5 (sys_world S False))"
proof -
  from example_send obtain S where S: "(flow_step LITTLE_ENDIAN (\<lambda>_. 1))\<^sup>*\<^sup>* example_sys S"
    "sys_fly S True = [Out_data 3 7 [1, 2]]" by blast
  from corpc_flow_control_sound [OF example_init S(1), of False _ _ example_env example_msg] S show ?thesis by auto
qed






end
