(* ===== verification/Corpc_Life.thy ===== *)
theory Corpc_Life
  imports Corpc_Channel
begin

text \<open>
  Life times of channels and streams. The registry of a channel and the live streams agree: every
  live stream belongs to a live channel that lists it once, and every listed stream is live.
  The theory shows that the operations of corpc-channel.c keep this, so that neither the handlers
  nor the client operations reach freed memory, and states the one handler that can.
\<close>

definition chan_streams :: "corpc_channel \<Rightarrow> nat list" where
  "chan_streams ch = ccarray_list (ch_streams ch)"

definition world_ok :: "corpc_world \<Rightarrow> bool" where
  "world_ok w \<longleftrightarrow>
     (\<forall>c ch. w_channels w c = Some ch \<longrightarrow> ccarray_inv (ch_streams ch) \<and> distinct (chan_streams ch) \<and>
        (\<forall>s\<in>set (chan_streams ch). \<exists>st. w_streams w s = Some st \<and> st_channel st = Some c)) \<and>
     (\<forall>s st. w_streams w s = Some st \<longrightarrow> ccfifo_inv (st_rxq st) \<and>
        (\<exists>c ch. st_channel st = Some c \<and> w_channels w c = Some ch \<and> s \<in> set (chan_streams ch)))"

lemma world_okD:
  assumes "world_ok w"
  shows "w_channels w c = Some ch \<Longrightarrow> ccarray_inv (ch_streams ch)"
    and "w_channels w c = Some ch \<Longrightarrow> distinct (chan_streams ch)"
    and "w_channels w c = Some ch \<Longrightarrow> s \<in> set (chan_streams ch) \<Longrightarrow> \<exists>st. w_streams w s = Some st \<and> st_channel st = Some c"
    and "w_streams w s = Some st \<Longrightarrow> ccfifo_inv (st_rxq st)"
    and "w_streams w s = Some st \<Longrightarrow> \<exists>c ch. st_channel st = Some c \<and> w_channels w c = Some ch \<and> s \<in> set (chan_streams ch)"
  using assms unfolding world_ok_def by blast+

lemma world_ok_same:
  "w_channels w' = w_channels w \<Longrightarrow> w_streams w' = w_streams w \<Longrightarrow> world_ok w' = world_ok w"
  by (simp add: world_ok_def)

lemma world_ok_put_channel:
  assumes "world_ok w" "w_channels w c = Some ch" "ch_streams ch' = ch_streams ch"
  shows "world_ok (put_channel c ch' w)"
  unfolding world_ok_def
proof (intro conjI allI impI)
  fix d ch'' assume a: "w_channels (put_channel c ch' w) d = Some ch''"
  then obtain chd where d: "w_channels w d = Some chd" "ch_streams ch'' = ch_streams chd"
    using assms(2,3) by (cases "d = c") auto
  with world_okD(1,2) [OF assms(1) d(1)] show "ccarray_inv (ch_streams ch'')" "distinct (chan_streams ch'')"
    by (simp_all add: chan_streams_def)
  show "\<forall>s\<in>set (chan_streams ch''). \<exists>st. w_streams (put_channel c ch' w) s = Some st \<and> st_channel st = Some d"
    using world_okD(3) [OF assms(1) d(1)] d(2) by (simp add: chan_streams_def)
next
  fix s st assume "w_streams (put_channel c ch' w) s = Some st"
  then have s: "w_streams w s = Some st" by simp
  from world_okD(4) [OF assms(1) this] show "ccfifo_inv (st_rxq st)" .
  from world_okD(5) [OF assms(1) s] obtain d chd where
    "st_channel st = Some d" "w_channels w d = Some chd" "s \<in> set (chan_streams chd)" by blast
  with assms(2,3) show "\<exists>c0 ch. st_channel st = Some c0 \<and> w_channels (put_channel c ch' w) c0 = Some ch \<and> s \<in> set (chan_streams ch)"
    by (cases "d = c") (auto simp: chan_streams_def)
qed

lemma world_ok_put_stream:
  assumes "world_ok w" "w_streams w s = Some st" "st_channel st' = st_channel st" "ccfifo_inv (st_rxq st')"
  shows "world_ok (put_stream s st' w)"
  unfolding world_ok_def
proof (intro conjI allI impI)
  fix c ch assume "w_channels (put_stream s st' w) c = Some ch"
  then have c: "w_channels w c = Some ch" by simp
  with world_okD(1,2) [OF assms(1)] show "ccarray_inv (ch_streams ch)" "distinct (chan_streams ch)" by blast+
  show "\<forall>s'\<in>set (chan_streams ch). \<exists>st. w_streams (put_stream s st' w) s' = Some st \<and> st_channel st = Some c"
  proof
    fix s' assume "s' \<in> set (chan_streams ch)"
    from world_okD(3) [OF assms(1) c this] assms(2,3)
    show "\<exists>st. w_streams (put_stream s st' w) s' = Some st \<and> st_channel st = Some c" by (cases "s' = s") auto
  qed
next
  fix s' st'' assume a: "w_streams (put_stream s st' w) s' = Some st''"
  show "ccfifo_inv (st_rxq st'')" using a assms(4) world_okD(4) [OF assms(1)] by (cases "s' = s") auto
  have "\<exists>st0. w_streams w s' = Some st0 \<and> st_channel st'' = st_channel st0"
    using a assms(2,3) by (cases "s' = s") auto
  with world_okD(5) [OF assms(1)]
  show "\<exists>c ch. st_channel st'' = Some c \<and> w_channels (put_stream s st' w) c = Some ch \<and> s' \<in> set (chan_streams ch)"
    by fastforce
qed

text \<open>A new channel, and the end of one without streams.\<close>

lemma world_ok_new_channel:
  assumes "world_ok w" "w_channels w c = None" "ccarray_inv (ch_streams ch)" "chan_streams ch = []"
  shows "world_ok (put_channel c ch w)"
  unfolding world_ok_def
proof (intro conjI allI impI)
  fix d ch' assume "w_channels (put_channel c ch w) d = Some ch'"
  then have d: "d = c \<and> ch' = ch \<or> w_channels w d = Some ch'" by (auto split: if_splits)
  with world_okD(1,2) [OF assms(1)] assms(3,4) show "ccarray_inv (ch_streams ch')" "distinct (chan_streams ch')"
    by fastforce+
  show "\<forall>s\<in>set (chan_streams ch'). \<exists>st. w_streams (put_channel c ch w) s = Some st \<and> st_channel st = Some d"
    using d assms(4) world_okD(3) [OF assms(1)] by fastforce
next
  fix s st assume "w_streams (put_channel c ch w) s = Some st"
  then have s: "w_streams w s = Some st" by simp
  from world_okD(4) [OF assms(1) s] show "ccfifo_inv (st_rxq st)" .
  from world_okD(5) [OF assms(1) s] obtain d ch' where
    "st_channel st = Some d" "w_channels w d = Some ch'" "s \<in> set (chan_streams ch')" by blast
  moreover from this assms(2) have "d \<noteq> c" by auto
  ultimately show "\<exists>d ch'. st_channel st = Some d \<and> w_channels (put_channel c ch w) d = Some ch' \<and> s \<in> set (chan_streams ch')"
    by simp
qed

lemma world_ok_channel_destroy:
  assumes "world_ok w" "w_channels w c = Some ch" "chan_streams ch = []"
  shows "world_ok (w\<lparr>w_channels := (w_channels w)(c := None)\<rparr>)" (is "world_ok ?w")
  unfolding world_ok_def
proof (intro conjI allI impI)
  fix d ch' assume "w_channels ?w d = Some ch'"
  then have d: "w_channels w d = Some ch'" by (auto split: if_splits)
  with world_okD(1,2) [OF assms(1)] show "ccarray_inv (ch_streams ch')" "distinct (chan_streams ch')" by blast+
  show "\<forall>s\<in>set (chan_streams ch'). \<exists>st. w_streams ?w s = Some st \<and> st_channel st = Some d"
    using world_okD(3) [OF assms(1) d] by simp
next
  fix s st assume "w_streams ?w s = Some st"
  then have s: "w_streams w s = Some st" by simp
  from world_okD(4) [OF assms(1) s] show "ccfifo_inv (st_rxq st)" .
  from world_okD(5) [OF assms(1) s] obtain d ch' where
    "st_channel st = Some d" "w_channels w d = Some ch'" "s \<in> set (chan_streams ch')" by blast
  moreover from this assms(2,3) have "d \<noteq> c" by auto
  ultimately show "\<exists>d ch'. st_channel st = Some d \<and> w_channels ?w d = Some ch' \<and> s \<in> set (chan_streams ch')"
    by simp
qed

text \<open>Registering a fresh stream, and removing one for good.\<close>

lemma world_ok_register:
  assumes "world_ok w" "w_channels w c = Some ch" "w_streams w s = None" "st_channel st = Some c" "ccfifo_inv (st_rxq st)"
    and "arr_size (ch_streams ch) < arr_capacity (ch_streams ch)"
  shows "\<exists>arr. register_stream c s (put_stream s st w) = Some (put_channel c (ch\<lparr>ch_streams := arr\<rparr>) (put_stream s st w)) \<and>
     ccarray_list arr = chan_streams ch @ [s] \<and> world_ok (put_channel c (ch\<lparr>ch_streams := arr\<rparr>) (put_stream s st w))"
proof -
  from ccarray_push_back_ok [OF world_okD(1) [OF assms(1,2)] assms(6), of s] obtain r arr where
    arr: "ccarray_push_back (ch_streams ch) s = Some (r, arr)" "ccarray_inv arr" "ccarray_list arr = chan_streams ch @ [s]"
    by (auto simp: chan_streams_def)
  have fresh: "s \<notin> set (chan_streams ch')" if "w_channels w d = Some ch'" for d ch'
    using world_okD(3) [OF assms(1) that, of s] assms(3) by auto
  have "world_ok (put_channel c (ch\<lparr>ch_streams := arr\<rparr>) (put_stream s st w))"
    unfolding world_ok_def
  proof (intro conjI allI impI)
    fix d ch' assume a: "w_channels (put_channel c (ch\<lparr>ch_streams := arr\<rparr>) (put_stream s st w)) d = Some ch'"
    show "ccarray_inv (ch_streams ch')" using a arr(2) world_okD(1) [OF assms(1)] by (cases "d = c") auto
    show "distinct (chan_streams ch')"
      using a arr(3) world_okD(2) [OF assms(1)] fresh [OF assms(2)] assms(2) by (cases "d = c") (auto simp: chan_streams_def)
    show "\<forall>s'\<in>set (chan_streams ch'). \<exists>st'. w_streams (put_channel c (ch\<lparr>ch_streams := arr\<rparr>) (put_stream s st w)) s' = Some st' \<and> st_channel st' = Some d"
      using a arr(3) world_okD(3) [OF assms(1)] fresh assms(2,4) by (cases "d = c") (auto simp: chan_streams_def)
  next
    fix s' st' assume a: "w_streams (put_channel c (ch\<lparr>ch_streams := arr\<rparr>) (put_stream s st w)) s' = Some st'"
    show "ccfifo_inv (st_rxq st')" using a assms(5) world_okD(4) [OF assms(1)] by (cases "s' = s") auto
    show "\<exists>d ch'. st_channel st' = Some d \<and> w_channels (put_channel c (ch\<lparr>ch_streams := arr\<rparr>) (put_stream s st w)) d = Some ch' \<and> s' \<in> set (chan_streams ch')"
    proof (cases "s' = s")
      case True
      with a assms(4) arr(3) show ?thesis by (auto simp: chan_streams_def)
    next
      case False
      with a have "w_streams w s' = Some st'" by simp
      from world_okD(5) [OF assms(1) this] obtain d ch' where
        "st_channel st' = Some d" "w_channels w d = Some ch'" "s' \<in> set (chan_streams ch')" by blast
      with arr(3) assms(2) show ?thesis by (cases "d = c") (auto simp: chan_streams_def)
    qed
  qed
  with arr assms(2) show ?thesis by (auto simp: register_stream_def ccarray_ppush_back_def)
qed

lemma world_ok_remove:
  assumes "world_ok w" "w_channels w c = Some ch" "s \<in> set (chan_streams ch)"
  shows "\<exists>arr w'. unregister_stream c s w = Some (put_channel c (ch\<lparr>ch_streams := arr\<rparr>) w) \<and>
     ccarray_inv arr \<and> ccarray_list arr = remove1 s (chan_streams ch) \<and>
     corpc_stream_destroy s (put_channel c (ch\<lparr>ch_streams := arr\<rparr>) w) = Some w' \<and> world_ok w'"
proof -
  note inv = world_okD(1) [OF assms(1,2)] and dist = world_okD(2) [OF assms(1,2)]
  from ccarray_erase_item_ok [OF inv, of s] obtain r arr where
    arr: "ccarray_erase_item (ch_streams ch) s = Some (r, arr)" "ccarray_inv arr"
      "ccarray_list arr = remove1 s (chan_streams ch)" by (auto simp: chan_streams_def)
  from world_okD(3) [OF assms(1-3)] obtain st where st: "w_streams w s = Some st" "st_channel st = Some c" by blast
  let ?w1 = "put_channel c (ch\<lparr>ch_streams := arr\<rparr>) w"
  let ?w2 = "?w1\<lparr>w_streams := (w_streams ?w1)(s := None)\<rparr>"
  have sub: "set (ccarray_list arr) = set (chan_streams ch) - {s}" using arr(3) dist by simp
  have "world_ok ?w2"
    unfolding world_ok_def
  proof (intro conjI allI impI)
    fix d ch' assume a: "w_channels ?w2 d = Some ch'"
    show "ccarray_inv (ch_streams ch')" using a arr(2) world_okD(1) [OF assms(1)] by (cases "d = c") auto
    show "distinct (chan_streams ch')"
      using a arr(3) world_okD(2) [OF assms(1)] assms(2) by (cases "d = c") (auto simp: chan_streams_def)
    show "\<forall>s'\<in>set (chan_streams ch'). \<exists>st'. w_streams ?w2 s' = Some st' \<and> st_channel st' = Some d"
    proof
      fix s' assume s': "s' \<in> set (chan_streams ch')"
      show "\<exists>st'. w_streams ?w2 s' = Some st' \<and> st_channel st' = Some d"
      proof (cases "d = c")
        case True
        from a True have "ch' = ch\<lparr>ch_streams := arr\<rparr>" by simp
        then have "chan_streams ch' = ccarray_list arr" by (simp add: chan_streams_def)
        with s' sub have "s' \<in> set (chan_streams ch) - {s}" by simp
        then have m: "s' \<in> set (chan_streams ch)" "s' \<noteq> s" by simp_all
        from world_okD(3) [OF assms(1,2) m(1)] m(2) True show ?thesis by simp
      next
        case False
        with a have d: "w_channels w d = Some ch'" by simp
        from world_okD(3) [OF assms(1) d s'] obtain st' where "w_streams w s' = Some st'" "st_channel st' = Some d" by blast
        moreover from this st False have "s' \<noteq> s" by auto
        ultimately show ?thesis by simp
      qed
    qed
  next
    fix s' st' assume a: "w_streams ?w2 s' = Some st'"
    then have s': "w_streams w s' = Some st'" "s' \<noteq> s" by (auto split: if_splits)
    show "ccfifo_inv (st_rxq st')" using world_okD(4) [OF assms(1) s'(1)] .
    from world_okD(5) [OF assms(1) s'(1)] obtain d ch' where
      d: "st_channel st' = Some d" "w_channels w d = Some ch'" "s' \<in> set (chan_streams ch')" by blast
    then show "\<exists>d ch'. st_channel st' = Some d \<and> w_channels ?w2 d = Some ch' \<and> s' \<in> set (chan_streams ch')"
      using s'(2) sub assms(2) by (cases "d = c") (auto simp: chan_streams_def)
  qed
  with arr assms(2) st(1) show ?thesis
    by (auto simp: unregister_stream_def corpc_stream_destroy_def)
qed


section \<open>Every operation keeps the registry\<close>

lemma set_channel_state_ok: "world_ok w \<Longrightarrow> set_channel_state c x w = Some w' \<Longrightarrow> world_ok w'"
  by (auto simp: set_channel_state_def bind_eq_Some_conv intro!: world_ok_put_channel)

lemma addref_ok: "world_ok w \<Longrightarrow> corpc_channel_addref_internal cp w = Some w' \<Longrightarrow> world_ok w'"
  by (auto simp: corpc_channel_addref_internal_def bind_eq_Some_conv intro!: world_ok_put_channel split: option.splits)

lemma arr_size_0: "ccarray_inv arr \<Longrightarrow> arr_size arr = 0 \<Longrightarrow> ccarray_list arr = []"
  using length_ccarray_list [of arr] by simp

lemma release_ok:
  assumes "world_ok w" "corpc_channel_release_internal cp w = Some w'"
  shows "world_ok w'"
proof (cases cp)
  case None
  with assms show ?thesis by (simp add: corpc_channel_release_internal_def)
next
  case (Some c)
  with assms(2) obtain ch where ch: "w_channels w c = Some ch"
    by (auto simp: corpc_channel_release_internal_def bind_eq_Some_conv)
  let ?ch = "ch\<lparr>ch_refs := ch_refs ch - 1\<rparr>"
  have ok: "world_ok (put_channel c ?ch w)" using assms(1) ch by (intro world_ok_put_channel) simp_all
  show ?thesis
  proof (cases "ch_refs ch - 1 < 1 \<and> arr_size (ch_streams ch) = 0")
    case True
    then have e: "chan_streams ?ch = []" using arr_size_0 [OF world_okD(1) [OF assms(1) ch]] by (simp add: chan_streams_def)
    have "w' = (put_channel c ?ch w)\<lparr>w_channels := (w_channels (put_channel c ?ch w))(c := None)\<rparr>"
      using assms(2) Some ch True
      by (simp add: corpc_channel_release_internal_def channel_destroy_def ccarray_size_def Let_def)
    with world_ok_channel_destroy [OF ok _ e, of c] show ?thesis by simp
  next
    case False
    then have "w' = put_channel c ?ch w"
      using assms(2) Some ch by (auto simp: corpc_channel_release_internal_def ccarray_size_def Let_def split: if_splits)
    with ok show ?thesis by simp
  qed
qed

lemma close_channel_ok: "world_ok w \<Longrightarrow> corpc_channel_close_internal cp w = Some w' \<Longrightarrow> world_ok w'"
  by (auto simp: corpc_channel_close_internal_def bind_eq_Some_conv
      intro: release_ok set_channel_state_ok split: option.splits)

lemma write_lock_pass_ok: "world_ok w \<Longrightarrow> write_lock_pass stp c w = Some (r, w') \<Longrightarrow> world_ok w'"
  by (cases stp) (auto simp: write_lock_pass_def bind_eq_Some_conv world_ok_same [of "set_errno ENOTCONN w" w]
      intro!: world_ok_put_channel split: if_splits)

lemma acquire_ok:
  "world_ok w \<Longrightarrow> acquire_write_lock [] stp c w = Some (r, w') \<Longrightarrow> world_ok w'"
proof -
  assume w: "world_ok w" "acquire_write_lock [] stp c w = Some (r, w')"
  then obtain r0 w0 where p: "write_lock_pass stp c w = Some (r0, w0)" by (auto simp: bind_eq_Some_conv)
  with w(2) have "w0 = w'" by (cases r0) simp_all
  with w(1) p write_lock_pass_ok show "world_ok w'" by blast
qed

lemma release_lock_ok: "world_ok w \<Longrightarrow> release_write_lock c w = Some w' \<Longrightarrow> world_ok w'"
  by (auto simp: release_write_lock_def bind_eq_Some_conv intro!: world_ok_put_channel)

lemma emit_ok:
  assumes "world_ok w" "emit ok c m w = Some w'"
  shows "world_ok w'"
proof -
  from assms(2) have "w_channels w' = w_channels w \<and> w_streams w' = w_streams w"
    by (auto simp: emit_def bind_eq_Some_conv)
  with assms(1) world_ok_same [of w' w] show ?thesis by simp
qed

lemma dec_rwnd_ok: "world_ok w \<Longrightarrow> dec_rwnd s w = Some w' \<Longrightarrow> world_ok w'"
  by (auto simp: dec_rwnd_def bind_eq_Some_conv intro!: world_ok_put_stream dest: world_okD(4))

lemma send_locked_ok:
  assumes "world_ok w" "send_locked [] ok stp c mk sent w = Some (r, w')"
    and "\<forall>w w'. world_ok w \<longrightarrow> sent w = Some w' \<longrightarrow> world_ok w'"
  shows "world_ok w'"
proof -
  from assms(2) obtain r1 w1 where a: "acquire_write_lock [] stp c w = Some (r1, w1)"
    unfolding send_locked_def by (auto simp only: bind_eq_Some_conv)
  note w1 = acquire_ok [OF assms(1) a]
  show ?thesis
  proof (cases "r1 = Some True")
    case True
    with assms(2) a obtain m w2 w3 where "emit ok c m w1 = Some w2" "(if ok then sent w2 else Some w2) = Some w3"
        "release_write_lock c w3 = Some w'"
      unfolding send_locked_def by (auto simp only: bind_eq_Some_conv prod.case option.case bool.case)
    moreover from this w1 have "world_ok w2" by (blast intro: emit_ok)
    ultimately show ?thesis using assms(3) by (auto intro: release_lock_ok split: if_splits)
  next
    case False
    with assms(2) a have "w' = w1"
      unfolding send_locked_def by (auto simp only: bind_eq_Some_conv prod.case split: option.splits bool.splits)
    with w1 show ?thesis by simp
  qed
qed


lemma stream_new_facts:
  assumes "corpc_stream_new addr fifo_ok args w = (r, w')"
  shows "r = None \<and> w' = w \<or>
    (\<exists>s st. addr = Some s \<and> r = Some s \<and> w' = put_stream s st w \<and> st_channel st = Some (opt_channel args) \<and>
       ccfifo_inv (st_rxq st) \<and> ccfifo_list (st_rxq st) = [] \<and>
       fifo_capacity (st_rxq st) = CORPC_STREAM_DEFAULT_QUEUE_SIZE \<and> st_state st = opt_state args \<and>
       st_sid st = opt_sid args \<and> st_did st = opt_did args \<and> st_rwnd st = opt_rwnd args)"
proof (cases addr)
  case None
  with assms show ?thesis by (simp add: corpc_stream_new_def)
next
  case (Some s)
  obtain ok q where q: "ccfifo_init (\<lambda>_. fifo_ok) (st_rxq zero_stream) CORPC_STREAM_DEFAULT_QUEUE_SIZE 8 = (ok, q)"
    by fastforce
  show ?thesis
  proof (cases ok)
    case True
    with ccfifo_init_inv [of "\<lambda>_. fifo_ok" "st_rxq zero_stream" CORPC_STREAM_DEFAULT_QUEUE_SIZE 8 q] q
    have "ccfifo_inv q \<and> ccfifo_list q = [] \<and> fifo_capacity q = CORPC_STREAM_DEFAULT_QUEUE_SIZE"
      by (simp add: CORPC_STREAM_DEFAULT_QUEUE_SIZE_def)
    moreover let ?st = "\<lparr>st_channel = Some (opt_channel args), st_rxq = q, st_state = opt_state args,
        st_sid = opt_sid args, st_did = opt_did args, st_rwnd = opt_rwnd args\<rparr>"
    have "r = Some s \<and> w' = put_stream s ?st w"
      using assms Some q True by (simp add: corpc_stream_new_def corpc_stream_init_def)
    ultimately show ?thesis using Some by (intro disjI2 exI [of _ s] exI [of _ ?st]) simp
  next
    case False
    with assms Some q show ?thesis by (auto simp: corpc_stream_new_def corpc_stream_init_def)
  qed
qed

text \<open>The common part of \<open>accept_stream\<close> and \<open>create_new_stream\<close>.\<close>

lemma new_registered:
  assumes "world_ok w" "w_channels w c = Some ch" "arr_size (ch_streams ch) < arr_capacity (ch_streams ch)"
    and "corpc_stream_new addr fifo_ok args w0 = (Some s, w1)" "opt_channel args = c"
    and "w_channels w0 = w_channels w" "w_streams w0 = w_streams w" "\<forall>s. addr = Some s \<longrightarrow> w_streams w s = None"
  shows "\<exists>w2 st. register_stream c s w1 = Some w2 \<and> world_ok w2 \<and> w_streams w2 = (w_streams w)(s \<mapsto> st) \<and>
    st_channel st = Some c \<and> ccfifo_inv (st_rxq st) \<and> ccfifo_list (st_rxq st) = [] \<and>
    fifo_capacity (st_rxq st) = CORPC_STREAM_DEFAULT_QUEUE_SIZE \<and> st_state st = opt_state args \<and>
    st_sid st = opt_sid args \<and> st_did st = opt_did args \<and> st_rwnd st = opt_rwnd args \<and>
    (\<exists>arr. w_channels w2 = (w_channels w)(c \<mapsto> ch\<lparr>ch_streams := arr\<rparr>) \<and> ccarray_list arr = chan_streams ch @ [s]) \<and>
    w_out w2 = w_out w1 \<and> w_gsid w2 = w_gsid w1"
proof -
  from stream_new_facts [OF assms(4)] obtain st where st: "addr = Some s" "w1 = put_stream s st w0"
      "st_channel st = Some c" "ccfifo_inv (st_rxq st)" "ccfifo_list (st_rxq st) = []"
      "fifo_capacity (st_rxq st) = CORPC_STREAM_DEFAULT_QUEUE_SIZE" "st_state st = opt_state args"
      "st_sid st = opt_sid args" "st_did st = opt_did args" "st_rwnd st = opt_rwnd args"
    using assms(5) by auto
  have ok: "world_ok w0" using assms(1,6,7) world_ok_same [of w0 w] by simp
  have "w_channels w0 c = Some ch" "w_streams w0 s = None" using assms(2,6,7,8) st(1) by auto
  from world_ok_register [OF ok this st(3,4) assms(3)] obtain arr where
    "register_stream c s w1 = Some (put_channel c (ch\<lparr>ch_streams := arr\<rparr>) w1)" "ccarray_list arr = chan_streams ch @ [s]"
    "world_ok (put_channel c (ch\<lparr>ch_streams := arr\<rparr>) w1)" using st(2) by auto
  with st assms(6,7) show ?thesis by auto
qed

lemma gensid_world: "gensid w = (sid, w') \<Longrightarrow> w_channels w' = w_channels w \<and> w_streams w' = w_streams w \<and> w_out w' = w_out w \<and> sid = w_gsid w + 1"
  by (auto simp: gensid_def Let_def)

lemma accept_stream_ok:
  assumes "world_ok w" "accept_stream addr fifo_ok c did rwnd w = Some (r, w')" "\<forall>s. addr = Some s \<longrightarrow> w_streams w s = None"
  shows "world_ok w' \<and> (case r of Inl _ \<Rightarrow> True | Inr s \<Rightarrow> \<exists>ch. w_channels w' c = Some ch \<and> s \<in> set (chan_streams ch))"
proof -
  from assms(2) obtain ch where ch: "w_channels w c = Some ch" by (auto simp: accept_stream_def bind_eq_Some_conv)
  obtain sid w0 where g: "gensid w = (sid, w0)" by fastforce
  let ?args = "\<lparr>opt_channel = c, opt_state = corpc_stream_opening, opt_sid = sid, opt_did = did, opt_rwnd = rwnd\<rparr>"
  obtain sp w1 where n: "corpc_stream_new addr fifo_ok ?args w0 = (sp, w1)" by fastforce
  note same = gensid_world [OF g]
  show ?thesis
  proof (cases "arr_size (ch_streams ch) < arr_capacity (ch_streams ch)")
    case False
    with assms(1,2) ch show ?thesis by (auto simp: accept_stream_def ccarray_size_def ccarray_capacity_def)
  next
    case room: True
    show ?thesis
    proof (cases sp)
      case None
      with stream_new_facts [OF n] have "w1 = w0" by simp
      moreover have "world_ok w0" using assms(1) same world_ok_same [of w0 w] by simp
      ultimately show ?thesis
        using assms(2) ch room g n None by (auto simp: accept_stream_def ccarray_size_def ccarray_capacity_def)
    next
      case (Some s)
      with new_registered [OF assms(1) ch room n [unfolded Some]] same assms(3) obtain w2 arr where
        "register_stream c s w1 = Some w2" "world_ok w2" "w_channels w2 = (w_channels w)(c \<mapsto> ch\<lparr>ch_streams := arr\<rparr>)"
        "ccarray_list arr = chan_streams ch @ [s]" by auto
      with assms(2) ch room g n Some show ?thesis
        by (auto simp: accept_stream_def ccarray_size_def ccarray_capacity_def chan_streams_def)
    qed
  qed
qed

lemma create_new_stream_ok:
  assumes "world_ok w" "create_new_stream addr fifo_ok c w = Some (r, w')" "\<forall>s. addr = Some s \<longrightarrow> w_streams w s = None"
  shows "world_ok w' \<and> (case r of None \<Rightarrow> True | Some s \<Rightarrow> \<exists>ch. w_channels w' c = Some ch \<and> s \<in> set (chan_streams ch))"
proof -
  from assms(2) obtain ch where ch: "w_channels w c = Some ch" by (auto simp: create_new_stream_def bind_eq_Some_conv)
  obtain sid w0 where g: "gensid w = (sid, w0)" by fastforce
  let ?args = "\<lparr>opt_channel = c, opt_state = corpc_stream_opening, opt_sid = sid, opt_did = 0, opt_rwnd = 0\<rparr>"
  obtain sp w1 where n: "corpc_stream_new addr fifo_ok ?args w0 = (sp, w1)" by fastforce
  note same = gensid_world [OF g]
  show ?thesis
  proof (cases "arr_size (ch_streams ch) < arr_capacity (ch_streams ch)")
    case False
    with assms(1,2) ch show ?thesis
      by (auto simp: create_new_stream_def ccarray_size_def ccarray_capacity_def world_ok_same [of "set_errno ENOSR w" w])
  next
    case room: True
    show ?thesis
    proof (cases sp)
      case None
      with stream_new_facts [OF n] have "w1 = w0" by simp
      moreover have "world_ok w0" using assms(1) same world_ok_same [of w0 w] by simp
      ultimately show ?thesis
        using assms(2) ch room g n None by (auto simp: create_new_stream_def ccarray_size_def ccarray_capacity_def)
    next
      case (Some s)
      with new_registered [OF assms(1) ch room n [unfolded Some]] same assms(3) obtain w2 arr where
        "register_stream c s w1 = Some w2" "world_ok w2" "w_channels w2 = (w_channels w)(c \<mapsto> ch\<lparr>ch_streams := arr\<rparr>)"
        "ccarray_list arr = chan_streams ch @ [s]" by auto
      with assms(2) ch room g n Some show ?thesis
        by (auto simp: create_new_stream_def ccarray_size_def ccarray_capacity_def chan_streams_def)
    qed
  qed
qed


lemma set_stream_state_ok: "world_ok w \<Longrightarrow> corpc_set_stream_state sp x w = Some w' \<Longrightarrow> world_ok w'"
  by (auto simp: corpc_set_stream_state_def bind_eq_Some_conv intro!: world_ok_put_stream dest: world_okD(4))

lemma find_ok:
  assumes "world_ok w" "w_channels w c = Some ch"
  shows "find_stream_by_sid c sid w = Some (find (\<lambda>s. st_sid (the (w_streams w s)) = sid) (chan_streams ch))"
  unfolding chan_streams_def
  using assms world_okD(1) [OF assms] world_okD(3) [OF assms] by (intro find_stream_by_sid_find) (auto simp: chan_streams_def)

lemma find_live:
  assumes "world_ok w" "find_stream_by_sid c sid w = Some (Some s)"
  shows "\<exists>st. w_streams w s = Some st \<and> st_channel st = Some c \<and> st_sid st = sid"
proof -
  from assms(2) obtain ch where ch: "w_channels w c = Some ch" by (auto simp: find_stream_by_sid_def bind_eq_Some_conv)
  with find_ok [OF assms(1) ch] assms(2) have "s \<in> set (chan_streams ch)" "st_sid (the (w_streams w s)) = sid"
    by (auto simp: find_Some_iff)
  with world_okD(3) [OF assms(1) ch] show ?thesis by fastforce
qed

lemma on_responce_ok:
  assumes "world_ok w" "on_create_stream_responce ord c msg w = Some (b, w')"
  shows "world_ok w'"
proof -
  have errno: "world_ok (set_errno e w)" for e using assms(1) world_ok_same [of "set_errno e w" w] by simp
  from assms(2) obtain sp where sp: "find_stream_by_sid c (hdr_did (msg_hdr msg)) w = Some sp"
    by (auto simp: on_create_stream_responce_def bind_eq_Some_conv)
  show ?thesis
  proof (cases sp)
    case None
    with assms(2) sp errno show ?thesis by (auto simp: on_create_stream_responce_def)
  next
    case (Some s)
    from find_live [OF assms(1) sp [unfolded Some]] obtain st where st: "w_streams w s = Some st" by blast
    note inv = world_okD(4) [OF assms(1) st]
    show ?thesis
    proof (cases "st_state st = corpc_stream_opening")
      case False
      with assms sp Some st show ?thesis by (auto simp: on_create_stream_responce_def)
    next
      case True
      let ?x = "responce_state (load16 ord (msg_details msg) 0)"
      let ?st1 = "if ?x = corpc_stream_established
        then st\<lparr>st_did := hdr_sid (msg_hdr msg), st_rwnd := load16 ord (msg_details msg) 2\<rparr> else st"
      let ?w1 = "if ?x \<noteq> corpc_stream_protocol_error then w else set_errno EPROTO w"
      have "corpc_set_stream_state (Some s) ?x (put_stream s ?st1 ?w1) \<bind> (\<lambda>w. Some (?x \<noteq> corpc_stream_protocol_error, w)) = Some (b, w')"
        using assms(2) sp Some st True unfolding on_create_stream_responce_def Let_def by (simp split del: if_split)
      then have set: "corpc_set_stream_state (Some s) ?x (put_stream s ?st1 ?w1) = Some w'"
        unfolding bind_eq_Some_conv by (elim exE conjE) (simp only: option.inject prod.inject)
      have w1: "world_ok ?w1" "w_streams ?w1 s = Some st" using errno assms(1) st by auto
      have "world_ok (put_stream s ?st1 ?w1)" using inv by (intro world_ok_put_stream [OF w1]) simp_all
      with set show ?thesis by (blast intro: set_stream_state_ok)
    qed
  qed
qed

lemma on_close_ok: "world_ok w \<Longrightarrow> on_close_stream_notify c msg w = Some (b, w') \<Longrightarrow> world_ok w'"
  by (auto simp: on_close_stream_notify_def bind_eq_Some_conv intro: set_stream_state_ok split: option.splits)

lemma on_data_ok:
  assumes "world_ok w" "on_data_message c msg w = Some (m, b, w')"
  shows "world_ok w'"
proof -
  from assms(2) obtain s where s: "find_stream_by_sid c (hdr_did (msg_hdr msg)) w = Some (Some s)"
    by (auto simp: on_data_message_def bind_eq_Some_conv corpc_set_stream_state_def split: option.splits)
  from find_live [OF assms(1) s] obtain st where st: "w_streams w s = Some st" by blast
  note inv = world_okD(4) [OF assms(1) st]
  show ?thesis
  proof (cases "ccfifo_is_full (st_rxq st)")
    case True
    with assms(2) s st obtain w1 where
      "corpc_set_stream_state (Some s) corpc_stream_protocol_error w = Some w1" "w' = set_errno EPROTO w1"
      by (auto simp: on_data_message_def bind_eq_Some_conv)
    with set_stream_state_ok [OF assms(1)] world_ok_same [of w' w1] show ?thesis by simp
  next
    case False
    with assms(2) s st obtain pos q where q: "ccfifo_push (st_rxq st) msg = Some (pos, q)" "w' = put_stream s (st\<lparr>st_rxq := q\<rparr>) w"
      by (auto simp: on_data_message_def bind_eq_Some_conv)
    have "fifo_size (st_rxq st) < fifo_capacity (st_rxq st)"
      using False ccfifo_inv_size_le [OF inv] by (simp add: ccfifo_is_full_def)
    from ccfifo_push_ok [OF inv this, of msg] q(1) have "ccfifo_inv q" by (metis option.inject prod.inject)
    with q(2) world_ok_put_stream [OF assms(1) st] show ?thesis by simp
  qed
qed

lemma on_ack_ok:
  assumes "world_ok w" "on_data_ack c msg w = Some (b, w')"
  shows "world_ok w'"
proof -
  from assms(2) consider "w' = w"
    | s st where "w_streams w s = Some st" "w' = put_stream s (st\<lparr>st_rwnd := st_rwnd st + 1\<rparr>) w"
    by (auto simp: on_data_ack_def bind_eq_Some_conv split: option.splits)
  then show ?thesis
  proof cases
    case (2 s st)
    from world_ok_put_stream [OF assms(1) 2(1), of "st\<lparr>st_rwnd := st_rwnd st + 1\<rparr>"] world_okD(4) [OF assms(1) 2(1)] 2(2)
    show ?thesis by simp
  qed (use assms(1) in simp)
qed

lemma read_pop_ok:
  assumes "world_ok w" "read_pop s w = Some (m, conn, w')"
  shows "world_ok w'"
proof -
  from assms(2) obtain st q where st: "w_streams w s = Some st" "ccfifo_ppop (st_rxq st) = Some (m, q)"
      "w' = put_stream s (st\<lparr>st_rxq := q\<rparr>) w"
    by (auto simp: read_pop_def bind_eq_Some_conv)
  note inv = world_okD(4) [OF assms(1) st(1)]
  have "ccfifo_inv q"
  proof (cases "ccfifo_list (st_rxq st)")
    case Nil
    with fifo.deq_empty [OF inv Nil] st(2) inv show ?thesis by simp
  next
    case (Cons y ys)
    with ccfifo_ppop_ok [OF inv Cons] st(2) show ?thesis by auto
  qed
  with st(3) world_ok_put_stream [OF assms(1) st(1)] show ?thesis by simp
qed


text \<open>Removing a stream that is registered, as the failure paths and \<open>corpc_close_stream\<close> do.\<close>

lemma open_stream_failed_ok:
  assumes "world_ok w" "w_channels w c = Some ch" "s \<in> set (chan_streams ch)" "open_stream_failed c s w = Some (r, w')"
  shows "world_ok w'"
  using world_ok_remove [OF assms(1-3)] assms(4) by (auto simp: open_stream_failed_def)

lemma send_keeps:
  assumes "send_locked [] ok stp c mk Some w = Some (r, w')" "w_channels w d = Some ch"
  shows "w_streams w' = w_streams w \<and> (\<exists>ch'. w_channels w' d = Some ch' \<and> ch_streams ch' = ch_streams ch)"
proof -
  have pass: "w_streams w1 = w_streams w \<and> (\<exists>ch'. w_channels w1 d = Some ch' \<and> ch_streams ch' = ch_streams ch)"
    if "write_lock_pass stp c w = Some (r1, w1)" for r1 w1
    using that assms(2) by (cases stp) (auto simp: write_lock_pass_def bind_eq_Some_conv split: if_splits)
  from assms(1) obtain r1 w1 where a: "write_lock_pass stp c w = Some (r1, w1)"
    unfolding send_locked_def by (auto simp: bind_eq_Some_conv)
  show ?thesis
  proof (cases r1)
    case Locked
    with assms(1) a obtain m w2 where "emit ok c m w1 = Some w2" "release_write_lock c w2 = Some w'"
      unfolding send_locked_def by (auto simp: bind_eq_Some_conv split: if_splits)
    with pass [OF a] show ?thesis
      by (auto simp: emit_def release_write_lock_def bind_eq_Some_conv split: if_splits)
  qed (use assms(1) a pass [OF a] in \<open>auto simp: send_locked_def\<close>)
qed

lemma close_stream_ok:
  assumes "world_ok w" "corpc_close_stream [] ok (Some s) w = Some (r, w')"
  shows "world_ok w'"
proof -
  from assms(2) obtain st where st: "w_streams w s = Some st" by (auto simp: corpc_close_stream_def bind_eq_Some_conv)
  from world_okD(5) [OF assms(1) st] obtain c ch where
    c: "st_channel st = Some c" "w_channels w c = Some ch" "s \<in> set (chan_streams ch)" by blast
  from assms(2) st c(1) obtain r1 w1 where n: "send_close_stream_notify [] ok s w = Some (r1, w1)"
    by (auto simp: corpc_close_stream_def bind_eq_Some_conv)
  then obtain mk where l: "send_locked [] ok None c mk Some w = Some (r1, w1)"
    using st c(1) by (auto simp: send_close_stream_notify_def)
  have ok1: "world_ok w1" by (rule send_locked_ok [OF assms(1) l]) simp
  from send_keeps [OF l c(2)] obtain ch1 where ch1: "w_channels w1 c = Some ch1" "ch_streams ch1 = ch_streams ch" by blast
  then have m1: "s \<in> set (chan_streams ch1)" using c(3) by (simp add: chan_streams_def)
  show ?thesis
  proof (cases r1)
    case None
    with assms(2) st c(1) n ok1 show ?thesis by (simp add: corpc_close_stream_def)
  next
    case (Some b)
    from world_ok_remove [OF ok1 ch1(1) m1] obtain arr w2 where
      u: "unregister_stream c s w1 = Some (put_channel c (ch1\<lparr>ch_streams := arr\<rparr>) w1)" "ccarray_inv arr"
        "corpc_stream_destroy s (put_channel c (ch1\<lparr>ch_streams := arr\<rparr>) w1) = Some w2" "world_ok w2" by blast
    let ?ch = "ch1\<lparr>ch_streams := arr\<rparr>"
    have w2c: "w_channels w2 c = Some ?ch" using u(3) by (auto simp: corpc_stream_destroy_def bind_eq_Some_conv)
    show ?thesis
    proof (cases "arr_size arr < 1 \<and> ch_refs ch1 < 1")
      case True
      with u(2) have e: "chan_streams ?ch = []" by (simp add: chan_streams_def arr_size_0)
      have "w' = w2\<lparr>w_channels := (w_channels w2)(c := None)\<rparr>"
        using assms(2) st c(1) n Some u(1,3) True
        by (auto simp: corpc_close_stream_def channel_destroy_def ccarray_size_def corpc_stream_destroy_def bind_eq_Some_conv)
      with world_ok_channel_destroy [OF u(4) w2c e] show ?thesis by simp
    next
      case False
      then have "w' = w2"
        using assms(2) st c(1) n Some u(1,3)
        by (auto simp: corpc_close_stream_def ccarray_size_def split: if_splits)
      with u(4) show ?thesis by simp
    qed
  qed
qed

lemma request_stream_ok:
  assumes "world_ok w" "request_stream ord env c msg w = Some ((sp, sid, status), w')"
    and "\<forall>s. env_addr env = Some s \<longrightarrow> w_streams w s = None"
  shows "world_ok w' \<and> (case sp of None \<Rightarrow> True | Some s \<Rightarrow> \<exists>ch. w_channels w' c = Some ch \<and> s \<in> set (chan_streams ch))"
proof -
  from assms(2) obtain ch r where ch: "w_channels w c = Some ch" "lookup_method ord (ch_services ch) (msg_details msg) = Some r"
    by (auto simp: request_stream_def bind_eq_Some_conv)
  show ?thesis
  proof (cases r)
    case (Inl x)
    with assms(1,2) ch show ?thesis by (auto simp: request_stream_def)
  next
    case (Inr mth)
    with assms(2) ch obtain a w1 where a: "accept_stream (env_addr env) (env_fifo_ok env) c (hdr_sid (msg_hdr msg))
        (load16 ord (msg_details msg) 0) w = Some (a, w1)"
      by (auto simp: request_stream_def bind_eq_Some_conv)
    from accept_stream_ok [OF assms(1) a assms(3)] assms(2) ch Inr a show ?thesis
      by (cases a) (auto simp: request_stream_def bind_eq_Some_conv split: if_splits)
  qed
qed

lemma on_request_ok:
  assumes "world_ok w" "on_create_stream_request ord env c msg w = Some (r, w')" "env_waits env = []"
    and "\<forall>s. env_addr env = Some s \<longrightarrow> w_streams w s = None"
  shows "world_ok w'"
proof -
  from assms(2) obtain sp sid status w1 rwnd r2 w2 where
    q: "request_stream ord env c msg w = Some ((sp, sid, status), w1)" and
    n: "send_create_stream_responce [] (env_send_ok env) c sid (hdr_sid (msg_hdr msg)) rwnd (responce_code status) w1 = Some (r2, w2)" and
    rest: "(case r2 of None \<Rightarrow> Some (None, w2) | Some _ \<Rightarrow> (case sp of None \<Rightarrow> Some (Some True, w2)
        | Some s \<Rightarrow> if status = create_stream_responce_ok
            then do { w \<leftarrow> corpc_set_stream_state (Some s) corpc_stream_established w2; Some (Some True, w) }
            else do { w \<leftarrow> unregister_stream c s w2; w \<leftarrow> corpc_stream_destroy s w; Some (Some True, w) })) = Some (r, w')"
    unfolding on_create_stream_request_def assms(3) by (auto simp only: bind_eq_Some_conv split_paired_Ex prod.case)
  from request_stream_ok [OF assms(1) q assms(4)] have ok1: "world_ok w1"
    and reg: "\<forall>s. sp = Some s \<longrightarrow> (\<exists>ch. w_channels w1 c = Some ch \<and> s \<in> set (chan_streams ch))" by (auto split: option.splits)
  note l = n [unfolded send_create_stream_responce_def]
  have ok2: "world_ok w2" by (rule send_locked_ok [OF ok1 l]) simp
  show ?thesis
  proof (cases "r2 = None \<or> sp = None")
    case True
    with rest ok2 show ?thesis by (auto split: option.splits)
  next
    case False
    then obtain s b where s: "sp = Some s" "r2 = Some b" by auto
    with reg obtain ch where "w_channels w1 c = Some ch" "s \<in> set (chan_streams ch)" by blast
    with send_keeps [OF l] obtain ch2 where ch2: "w_channels w2 c = Some ch2" "s \<in> set (chan_streams ch2)"
      by (fastforce simp: chan_streams_def)
    show ?thesis
    proof (cases "status = create_stream_responce_ok")
      case True
      with rest s have "corpc_set_stream_state (Some s) corpc_stream_established w2 = Some w'"
        by (auto simp: bind_eq_Some_conv)
      with set_stream_state_ok [OF ok2] show ?thesis by blast
    next
      case False
      with rest s world_ok_remove [OF ok2 ch2] show ?thesis by auto
    qed
  qed
qed

section \<open>Reachable worlds\<close>

text \<open>
  The steps of a process: creating and releasing channels, the channel thread's start, a handled
  message, the locked sections of the client operations, closing a stream. A step is taken only
  when the operation's execution is defined; addresses returned by the allocator are unused.
\<close>

inductive world_step :: "byte_order \<Rightarrow> corpc_world \<Rightarrow> corpc_world \<Rightarrow> bool" for ord :: byte_order where
  step_new: "w_channels w c = None \<Longrightarrow> corpc_channel_new (Some c) arr_ok dup_ok opts w = (r, w') \<Longrightarrow> world_step ord w w'"
| step_accept: "w_channels w c = None \<Longrightarrow>
    corpc_channel_accept (Some c) arr_ok sched_ok sock srvs onaccept w = Some (r, w') \<Longrightarrow> world_step ord w w'"
| step_addref: "corpc_channel_addref_internal cp w = Some w' \<Longrightarrow> world_step ord w w'"
| step_release: "corpc_channel_release_internal cp w = Some w' \<Longrightarrow> world_step ord w w'"
| step_close: "corpc_channel_close_internal cp w = Some w' \<Longrightarrow> world_step ord w w'"
| step_state: "set_channel_state c x w = Some w' \<Longrightarrow> world_step ord w w'"
| step_thread: "corpc_channel_thread_start ssl_ok onaccept_ok c w = Some (r, w') \<Longrightarrow> world_step ord w w'"
| step_dispatch: "env_waits env = [] \<Longrightarrow> \<forall>s. env_addr env = Some s \<longrightarrow> w_streams w s = None \<Longrightarrow>
    corpc_channel_dispatch ord env c msg w = Some (d, w') \<Longrightarrow> world_step ord w w'"
| step_create: "\<forall>s. addr = Some s \<longrightarrow> w_streams w s = None \<Longrightarrow>
    create_new_stream addr fifo_ok c w = Some (sp, w') \<Longrightarrow> world_step ord w w'"
| step_open_failed: "w_streams w s = Some st \<Longrightarrow> st_channel st = Some c \<Longrightarrow>
    open_stream_failed c s w = Some (o_r, w') \<Longrightarrow> world_step ord w w'"
| step_lock: "write_lock_pass stp c w = Some (lr, w') \<Longrightarrow> world_step ord w w'"
| step_emit: "emit ok c m w = Some w' \<Longrightarrow> world_step ord w w'"
| step_dec: "dec_rwnd s w = Some w' \<Longrightarrow> world_step ord w w'"
| step_unlock: "release_write_lock c w = Some w' \<Longrightarrow> world_step ord w w'"
| step_read: "read_pop s w = Some (m, conn, w') \<Longrightarrow> world_step ord w w'"
| step_close_stream: "corpc_close_stream [] ok (Some s) w = Some (b, w') \<Longrightarrow> world_step ord w w'"

lemma channel_init_facts:
  assumes "corpc_channel_init arr_ok dup_ok calloc_channel opts = (True, ch)"
  shows "ccarray_inv (ch_streams ch) \<and> chan_streams ch = [] \<and> arr_capacity (ch_streams ch) = 256"
proof -
  obtain ok arrp where a: "ccarray_init (\<lambda>_. arr_ok) (Some (ch_streams calloc_channel)) 256 8 = (ok, arrp)" by fastforce
  with assms obtain arr where arr: "ok = True" "arrp = Some arr"
    by (auto simp: corpc_channel_init_def calloc_channel_def Let_def split: bool.splits option.splits)
  from ccarray_init_inv [OF a [unfolded arr]]
  have "ccarray_inv arr \<and> ccarray_list arr = [] \<and> arr_capacity arr = 256" by auto
  moreover have "ch_streams ch = arr"
    using assms a arr by (auto simp: corpc_channel_init_def calloc_channel_def Let_def split: option.splits list.splits if_splits)
  ultimately show ?thesis by (simp add: chan_streams_def)
qed

lemma channel_new_ok:
  assumes "world_ok w" "w_channels w c = None" "corpc_channel_new (Some c) arr_ok dup_ok opts w = (r, w')"
  shows "world_ok w' \<and> (r \<noteq> None \<longrightarrow> r = Some c \<and> (\<exists>ch. w_channels w' c = Some ch \<and> chan_streams ch = []))"
proof -
  obtain ok ch where i: "corpc_channel_init arr_ok dup_ok calloc_channel opts = (ok, ch)" by fastforce
  show ?thesis
  proof (cases ok)
    case True
    have "ccarray_inv (ch_streams ch)" "chan_streams ch = []"
      using channel_init_facts [of arr_ok dup_ok opts ch] i True by simp_all
    with world_ok_new_channel [OF assms(1,2), of "ch\<lparr>ch_refs := 1\<rparr>"] assms(3) i True show ?thesis
      by (auto simp: corpc_channel_new_def chan_streams_def)
  next
    case False
    with assms i show ?thesis by (auto simp: corpc_channel_new_def)
  qed
qed


lemma channel_accept_ok:
  assumes "world_ok w" "w_channels w c = None"
    and "corpc_channel_accept (Some c) arr_ok sched_ok sock srvs onaccept w = Some (r, w')"
  shows "world_ok w'"
proof -
  obtain cp w1 where n: "corpc_channel_new (Some c) arr_ok True None w = (cp, w1)" by fastforce
  note ok = channel_new_ok [OF assms(1,2) n]
  show ?thesis
  proof (cases cp)
    case None
    with assms(3) n ok show ?thesis by (simp add: corpc_channel_accept_def)
  next
    case (Some d)
    with ok obtain ch where ch: "d = c" "w_channels w1 c = Some ch" "chan_streams ch = []" by auto
    let ?ch = "ch\<lparr>ch_refs := 0, ch_state := corpc_channel_state_accepting, ch_ssl_sock := Some sock,
        ch_services := srvs, ch_onaccept := onaccept\<rparr>"
    have w2: "world_ok (put_channel c ?ch w1)" using ok ch by (intro world_ok_put_channel) simp_all
    have e: "chan_streams ?ch = []" using ch(3) by (simp add: chan_streams_def)
    from assms(3) n Some ch show ?thesis
      using w2 world_ok_channel_destroy [OF w2 _ e, of c]
      by (auto simp: corpc_channel_accept_def channel_destroy_def Let_def split: if_splits)
  qed
qed

lemma thread_start_ok:
  assumes "world_ok w" "corpc_channel_thread_start ssl_ok onaccept_ok c w = Some (r, w')"
  shows "world_ok w'"
proof -
  from assms(2) obtain w1 where a: "corpc_channel_addref_internal (Some c) w = Some w1"
    by (auto simp: corpc_channel_thread_start_def bind_eq_Some_conv)
  with addref_ok [OF assms(1)] have ok: "world_ok w1" by blast
  from assms(2) a obtain ch where "w_channels w1 c = Some ch"
    by (auto simp: corpc_channel_thread_start_def bind_eq_Some_conv)
  with assms(2) a ok show ?thesis
    by (cases "ch_state ch")
       (auto simp: corpc_channel_thread_start_def bind_eq_Some_conv intro: set_channel_state_ok split: if_splits)
qed

lemma dispatch_ok:
  assumes "world_ok w" "corpc_channel_dispatch ord env c msg w = Some (d, w')" "env_waits env = []"
    and "\<forall>s. env_addr env = Some s \<longrightarrow> w_streams w s = None"
  shows "world_ok w'"
  using assms(2) on_request_ok [OF assms(1) _ assms(3,4)] on_responce_ok [OF assms(1)] on_close_ok [OF assms(1)]
    on_data_ok [OF assms(1)] on_ack_ok [OF assms(1)] world_ok_same [of "set_errno EPROTO w" w] assms(1)
  by (auto simp: corpc_channel_dispatch_def Let_def map_option_case split: if_splits option.splits)

lemma world_step_ok: "world_step ord w w' \<Longrightarrow> world_ok w \<Longrightarrow> world_ok w'"
proof (induction rule: world_step.induct)
  case (step_open_failed w s st c o_r w')
  then show ?case using open_stream_failed_ok world_okD(5) by (metis option.inject)
next
  case step_new then show ?case using channel_new_ok by blast
next
  case step_create then show ?case using create_new_stream_ok by blast
qed (blast intro: channel_accept_ok addref_ok release_ok close_channel_ok set_channel_state_ok thread_start_ok dispatch_ok
    write_lock_pass_ok emit_ok dec_rwnd_ok release_lock_ok read_pop_ok close_stream_ok)+

definition world_init :: "u16 \<Rightarrow> corpc_world" where
  "world_init gsid = \<lparr>w_channels = Map.empty, w_streams = Map.empty, w_gsid = gsid, w_errno = EOK, w_out = []\<rparr>"

lemma world_reach_ok: "(world_step ord)\<^sup>*\<^sup>* (world_init g) w \<Longrightarrow> world_ok w"
proof (induction rule: rtranclp_induct)
  case base
  show ?case by (simp add: world_init_def world_ok_def)
qed (blast intro: world_step_ok)

section \<open>When handling a message is undefined\<close>

text \<open>
  In a world that satisfies the invariant a handler reaches no freed object. What is left are the
  two accesses that depend on the message alone: the copy of the names of a request, and the store
  through the null pointer for a data message that addresses no stream.
\<close>

definition names_overrun :: "byte_order \<Rightarrow> comsg \<Rightarrow> bool" where
  "names_overrun ord msg \<longleftrightarrow>
     length (drop 6 (msg_details msg)) < unat (load16 ord (msg_details msg) 2) + unat (load16 ord (msg_details msg) 4)"

definition knows_stream :: "nat \<Rightarrow> u16 \<Rightarrow> corpc_world \<Rightarrow> bool" where
  "knows_stream c sid w \<longleftrightarrow> (\<exists>s st. w_streams w s = Some st \<and> st_channel st = Some c \<and> st_sid st = sid)"

lemma find_knows:
  assumes "world_ok w" "w_channels w c = Some ch"
  shows "\<exists>sp. find_stream_by_sid c sid w = Some sp \<and> (sp = None \<longleftrightarrow> \<not> knows_stream c sid w)"
proof -
  have "(\<exists>s\<in>set (chan_streams ch). st_sid (the (w_streams w s)) = sid) \<longleftrightarrow> knows_stream c sid w"
  proof
    assume "\<exists>s\<in>set (chan_streams ch). st_sid (the (w_streams w s)) = sid"
    then obtain s where s: "s \<in> set (chan_streams ch)" "st_sid (the (w_streams w s)) = sid" by blast
    from world_okD(3) [OF assms s(1)] s(2) show "knows_stream c sid w" by (fastforce simp: knows_stream_def)
  next
    assume "knows_stream c sid w"
    then obtain s st where st: "w_streams w s = Some st" "st_channel st = Some c" "st_sid st = sid"
      by (auto simp: knows_stream_def)
    with world_okD(5) [OF assms(1) st(1)] assms(2) have "s \<in> set (chan_streams ch)" by auto
    with st show "\<exists>s\<in>set (chan_streams ch). st_sid (the (w_streams w s)) = sid" by (intro bexI [of _ s]) simp_all
  qed
  with find_ok [OF assms, of sid] show ?thesis by (auto simp: find_None_iff)
qed

lemma set_stream_state_defined: "w_streams w s = Some st \<Longrightarrow> corpc_set_stream_state (Some s) x w \<noteq> None"
  by (simp add: corpc_set_stream_state_def)

lemma handlers_defined:
  assumes "world_ok w" "w_channels w c = Some ch"
  shows "on_create_stream_responce ord c msg w \<noteq> None" "on_close_stream_notify c msg w \<noteq> None"
    "on_data_ack c msg w \<noteq> None" "on_data_message c msg w = None \<longleftrightarrow> \<not> knows_stream c (hdr_did (msg_hdr msg)) w"
proof -
  from find_knows [OF assms] obtain sp where
    sp: "find_stream_by_sid c (hdr_did (msg_hdr msg)) w = Some sp" "sp = None \<longleftrightarrow> \<not> knows_stream c (hdr_did (msg_hdr msg)) w"
    by blast
  have live: "\<exists>st. w_streams w s = Some st" if "sp = Some s" for s
    using find_live [OF assms(1) sp(1) [unfolded that]] by blast
  show "on_close_stream_notify c msg w \<noteq> None" "on_data_ack c msg w \<noteq> None"
    using sp live by (cases sp; auto simp: on_close_stream_notify_def on_data_ack_def corpc_set_stream_state_def)+
  show "on_create_stream_responce ord c msg w \<noteq> None"
  proof (cases sp)
    case None
    with sp show ?thesis by (simp add: on_create_stream_responce_def)
  next
    case (Some s)
    with live obtain st where st: "w_streams w s = Some st" by blast
    then show ?thesis
      using sp(1) Some
      by (cases "st_state st = corpc_stream_opening")
         (simp_all add: on_create_stream_responce_def corpc_set_stream_state_def Let_def split del: if_split)
  qed
  show "on_data_message c msg w = None \<longleftrightarrow> \<not> knows_stream c (hdr_did (msg_hdr msg)) w"
  proof (cases sp)
    case None
    with sp show ?thesis by (simp add: on_data_message_def corpc_set_stream_state_def)
  next
    case (Some s)
    with live obtain st where st: "w_streams w s = Some st" by blast
    note inv = world_okD(4) [OF assms(1) st]
    show ?thesis
    proof (cases "ccfifo_is_full (st_rxq st)")
      case True
      with sp Some st show ?thesis by (simp add: on_data_message_def corpc_set_stream_state_def)
    next
      case False
      with inv have "fifo_size (st_rxq st) < fifo_capacity (st_rxq st)" by (auto simp: ccfifo_is_full_def ccfifo_inv_def)
      from ccfifo_push_ok [OF inv this, of msg] obtain q where "ccfifo_push (st_rxq st) msg = Some (Some (fifo_last (st_rxq st)), q)" .
      with sp Some st False show ?thesis by (simp add: on_data_message_def)
    qed
  qed
qed

lemma accept_stream_defined:
  assumes "world_ok w" "w_channels w c = Some ch" "\<forall>s. addr = Some s \<longrightarrow> w_streams w s = None"
  shows "accept_stream addr fifo_ok c did rwnd w \<noteq> None"
proof -
  obtain sid w0 where g: "gensid w = (sid, w0)" by fastforce
  let ?args = "\<lparr>opt_channel = c, opt_state = corpc_stream_opening, opt_sid = sid, opt_did = did, opt_rwnd = rwnd\<rparr>"
  obtain sp w1 where n: "corpc_stream_new addr fifo_ok ?args w0 = (sp, w1)" by fastforce
  show ?thesis
  proof (cases "arr_size (ch_streams ch) < arr_capacity (ch_streams ch) \<and> sp \<noteq> None")
    case True
    then obtain s where s: "sp = Some s" by auto
    from new_registered [OF assms(1,2) _ n [unfolded s]] True gensid_world [OF g] assms(3) obtain w2 where
      "register_stream c s w1 = Some w2" by auto
    with assms(2) g n s True show ?thesis by (simp add: accept_stream_def ccarray_size_def ccarray_capacity_def)
  next
    case False
    with assms(2) g n show ?thesis by (auto simp: accept_stream_def ccarray_size_def ccarray_capacity_def)
  qed
qed

lemma send_locked_defined:
  assumes "w_channels w c = Some ch"
  shows "send_locked [] ok None c (\<lambda>w. Some m) Some w \<noteq> None"
  using assms by (simp add: send_locked_def write_lock_pass_def emit_def release_write_lock_def)

lemma request_stream_defined:
  assumes "world_ok w" "w_channels w c = Some ch" "\<forall>s. env_addr env = Some s \<longrightarrow> w_streams w s = None"
  shows "request_stream ord env c msg w = None \<longleftrightarrow> lookup_method ord (ch_services ch) (msg_details msg) = None"
proof (cases "lookup_method ord (ch_services ch) (msg_details msg)")
  case None
  with assms(2) show ?thesis by (simp add: request_stream_def)
next
  case (Some r)
  show ?thesis
  proof (cases r)
    case (Inl x)
    with Some assms(2) show ?thesis by (simp add: request_stream_def)
  next
    case (Inr mth)
    from accept_stream_defined [OF assms] obtain a w1 where
      a: "accept_stream (env_addr env) (env_fifo_ok env) c (hdr_sid (msg_hdr msg)) (load16 ord (msg_details msg) 0) w = Some (a, w1)"
      by fastforce
    show ?thesis
    proof (cases a)
      case Inl: (Inl x)
      with a Inr Some assms(2) show ?thesis by (simp add: request_stream_def)
    next
      case Inr': (Inr s)
      from accept_stream_ok [OF assms(1) a assms(3)] Inr' obtain ch1 where
        "world_ok w1" "w_channels w1 c = Some ch1" "s \<in> set (chan_streams ch1)" by auto
      from world_okD(3) [OF this] obtain st where "w_streams w1 s = Some st" by blast
      with a Inr Inr' Some assms(2) show ?thesis by (simp add: request_stream_def)
    qed
  qed
qed

lemma request_stream_channel:
  assumes "request_stream ord env c msg w = Some (q, w')"
  shows "\<exists>ch. w_channels w' c = Some ch"
proof -
  have "\<exists>ch. w_channels w1 c = Some ch" if "accept_stream addr fifo_ok c did rwnd w = Some (a, w1)" for addr fifo_ok did rwnd a w1
    using that by (auto simp: accept_stream_def gensid_def corpc_stream_new_def register_stream_def Let_def bind_eq_Some_conv
        split: if_splits option.splits prod.splits bool.splits)
  note keeps = this
  from assms obtain ch r where ch: "w_channels w c = Some ch" "lookup_method ord (ch_services ch) (msg_details msg) = Some r"
    by (auto simp: request_stream_def bind_eq_Some_conv)
  show ?thesis
  proof (cases r)
    case (Inl x)
    with assms ch show ?thesis by (simp add: request_stream_def)
  next
    case (Inr mth)
    with assms ch obtain a w1 where
      a: "accept_stream (env_addr env) (env_fifo_ok env) c (hdr_sid (msg_hdr msg)) (load16 ord (msg_details msg) 0) w = Some (a, w1)"
      by (auto simp: request_stream_def bind_eq_Some_conv)
    with assms ch Inr have "w' = w1"
      by (cases a) (auto simp: request_stream_def bind_eq_Some_conv split: if_splits)
    with keeps [OF a] show ?thesis by simp
  qed
qed

lemma lookup_method_undefined:
  "lookup_method ord srvs (msg_details msg) = None \<longleftrightarrow> srvs \<noteq> None \<and> names_overrun ord msg"
  by (auto simp: lookup_method_def names_overrun_def Let_def split: option.splits)

lemma on_request_defined:
  assumes "world_ok w" "w_channels w c = Some ch" "env_waits env = []" "\<forall>s. env_addr env = Some s \<longrightarrow> w_streams w s = None"
  shows "on_create_stream_request ord env c msg w = None \<longleftrightarrow> ch_services ch \<noteq> None \<and> names_overrun ord msg"
proof (cases "request_stream ord env c msg w")
  case None
  with request_stream_defined [OF assms(1,2,4), of ord msg] lookup_method_undefined [of ord "ch_services ch" msg]
  show ?thesis by (simp add: on_create_stream_request_def)
next
  case (Some q)
  obtain sp sid status w1 where "q = ((sp, sid, status), w1)" by (cases q) (auto elim: prod_cases3)
  with Some have q: "request_stream ord env c msg w = Some ((sp, sid, status), w1)" by simp
  from request_stream_ok [OF assms(1) q assms(4)] have ok1: "world_ok w1" by simp
  have not: "\<not> (ch_services ch \<noteq> None \<and> names_overrun ord msg)"
    using q request_stream_defined [OF assms(1,2,4), of ord msg] lookup_method_undefined [of ord "ch_services ch" msg] by simp
  from request_stream_channel [OF q] obtain ch1 where ch1: "w_channels w1 c = Some ch1" ..
  have live: "\<exists>st. s \<in> set (chan_streams ch1) \<and> w_streams w1 s = Some st" if "sp = Some s" for s
    using request_stream_ok [OF assms(1) q assms(4)] that ch1 world_okD(3) [OF ok1 ch1, of s] by auto
  have "\<exists>rwnd. (case sp of None \<Rightarrow> Some (srwnd None) | Some s \<Rightarrow> map_option (\<lambda>st. srwnd (Some st)) (w_streams w1 s)) = Some rwnd"
    using live by (cases sp) auto
  then obtain rwnd where rwnd: "(case sp of None \<Rightarrow> Some (srwnd None) | Some s \<Rightarrow> map_option (\<lambda>st. srwnd (Some st)) (w_streams w1 s)) = Some rwnd" ..
  from send_locked_defined [OF ch1] obtain r2 w2 where
    n: "send_create_stream_responce [] (env_send_ok env) c sid (hdr_sid (msg_hdr msg)) rwnd (responce_code status) w1 = Some (r2, w2)"
    unfolding send_create_stream_responce_def by fastforce
  note l = n [unfolded send_create_stream_responce_def]
  have ok2: "world_ok w2" by (rule send_locked_ok [OF ok1 l]) simp
  from send_keeps [OF l ch1] obtain ch2 where ch2: "w_streams w2 = w_streams w1" "w_channels w2 c = Some ch2" "chan_streams ch2 = chan_streams ch1"
    by (auto simp: chan_streams_def)
  have "on_create_stream_request ord env c msg w \<noteq> None"
  proof (cases "r2 = None \<or> sp = None")
    case True
    with q rwnd n assms(3) show ?thesis by (auto simp: on_create_stream_request_def split: option.splits)
  next
    case False
    then obtain s b where s: "sp = Some s" "r2 = Some b" by auto
    with live ch2 obtain st where st: "s \<in> set (chan_streams ch2)" "w_streams w2 s = Some st" by auto
    from world_ok_remove [OF ok2 ch2(2) st(1)] q rwnd n assms(3) s st(2) show ?thesis
      by (auto simp: on_create_stream_request_def corpc_set_stream_state_def)
  qed
  with not show ?thesis by blast
qed

lemma count_list_distinct_1: "distinct xs \<Longrightarrow> x \<in> set xs \<Longrightarrow> count_list xs x = 1"
  by (induction xs) auto

text \<open>
  A process starts with no channel and no stream; the properties below hold in every world its
  operations lead to.
\<close>



text \<open>A process that created a channel and a stream on it, whose numbers are 1 and 7.\<close>

definition example_world :: corpc_world where
  "example_world = snd (the (create_new_stream (Some 7) True 1 (snd (corpc_channel_new (Some 1) True True None (world_init 0)))))"

lemma example_channel_new:
  "\<exists>ch. corpc_channel_new (Some 1) True True None (world_init 0) = (Some 1, put_channel 1 ch (world_init 0)) \<and>
     arr_size (ch_streams ch) = 0 \<and> arr_capacity (ch_streams ch) = 256 \<and> chan_streams ch = []"
proof -
  obtain ch where i: "corpc_channel_init True True calloc_channel None = (True, ch)"
    by (auto simp: corpc_channel_init_def ccarray_init_def malloc_bytes_def calloc_channel_def Let_def)
  from channel_init_facts [OF i] length_ccarray_list [of "ch_streams ch"]
  have "chan_streams ch = []" "arr_capacity (ch_streams ch) = 256" "arr_size (ch_streams ch) = 0"
    by (simp_all add: chan_streams_def)
  with i show ?thesis by (auto simp: corpc_channel_new_def chan_streams_def)
qed

lemma example_world_facts:
  "(world_step ord)\<^sup>*\<^sup>* (world_init 0) example_world"
  "\<exists>st ch. w_streams example_world = [7 \<mapsto> st] \<and> st_sid st = 1 \<and> st_channel st = Some 1 \<and> w_channels example_world 1 = Some ch"
proof -
  from example_channel_new obtain ch where
    ch: "corpc_channel_new (Some 1) True True None (world_init 0) = (Some 1, put_channel 1 ch (world_init 0))"
      "arr_size (ch_streams ch) = 0" "arr_capacity (ch_streams ch) = 256" by blast
  let ?w1 = "put_channel 1 ch (world_init 0)"
  have s1: "world_step ord (world_init 0) ?w1" for ord by (rule step_new [OF _ ch(1)]) (simp add: world_init_def)
  then have ok: "world_ok ?w1" using world_reach_ok [OF r_into_rtranclp] by blast
  have c1: "w_channels ?w1 1 = Some ch" by simp
  obtain sid w0 where g: "gensid ?w1 = (sid, w0)" by fastforce
  let ?args = "\<lparr>opt_channel = 1, opt_state = corpc_stream_opening, opt_sid = sid, opt_did = 0, opt_rwnd = 0\<rparr>"
  obtain w2 where n: "corpc_stream_new (Some 7) True ?args w0 = (Some 7, w2)"
    by (auto simp: corpc_stream_new_def corpc_stream_init_def ccfifo_init_def zero_stream_def
        CORPC_STREAM_DEFAULT_QUEUE_SIZE_def malloc_bytes_def)
  have "\<exists>w3 st. register_stream 1 7 w2 = Some w3 \<and> w_streams w3 = (w_streams ?w1)(7 \<mapsto> st) \<and> st_channel st = Some 1 \<and> st_sid st = sid \<and>
      (\<exists>ch. w_channels w3 1 = Some ch)"
    using new_registered [OF ok c1 _ n] ch(2,3) gensid_world [OF g] by (fastforce simp: world_init_def)
  then obtain w3 st where r: "register_stream 1 7 w2 = Some w3" "w_streams w3 = (w_streams ?w1)(7 \<mapsto> st)"
      "st_channel st = Some 1" "st_sid st = sid" "\<exists>ch. w_channels w3 1 = Some ch" by blast
  have cr: "create_new_stream (Some 7) True 1 ?w1 = Some (Some 7, w3)"
    using ch(2,3) g n r(1) by (simp add: create_new_stream_def ccarray_size_def ccarray_capacity_def)
  then have w3: "w3 = example_world" unfolding example_world_def ch(1) by simp
  have "world_step ord ?w1 w3" by (rule step_create [OF _ cr]) (simp add: world_init_def)
  with s1 show "(world_step ord)\<^sup>*\<^sup>* (world_init 0) example_world"
    unfolding w3 by (meson converse_rtranclp_into_rtranclp r_into_rtranclp)
  have "sid = 1" using gensid_world [OF g] by (simp add: world_init_def)
  with r w3 show "\<exists>st ch. w_streams example_world = [7 \<mapsto> st] \<and> st_sid st = 1 \<and> st_channel st = Some 1 \<and> w_channels example_world 1 = Some ch"
    by (auto simp: world_init_def)
qed


definition example_data_msg :: "u16 \<Rightarrow> comsg" where
  "example_data_msg did = \<lparr>msg_hdr = \<lparr>hdr_crc = 0, hdr_code = co_msg_data, hdr_sid = 5, hdr_did = did, hdr_pldsize = 0\<rparr>, msg_details = []\<rparr>"

definition example_request_env :: request_env where
  "example_request_env = \<lparr>env_addr = Some 9, env_fifo_ok = True, env_start_ok = True, env_waits = [], env_send_ok = True\<rparr>"


end
