(* ===== verification/Nanopb.thy ===== *)
theory Nanopb
  imports Prelude "HOL-Library.Monad_Syntax"
begin

text \<open>
  The byte streams and the wire primitives of nanopb (pb_encode.c, pb_decode.c) that the library's
  own message encoder uses: writing to a buffer or only counting, reading from a buffer, variable
  length integers, fixed size integers, tags, length prefixed strings and nested streams. The
  theory shows that the primitives stay inside their buffers and that each reader inverts its
  writer. Error texts (\<open>errmsg\<close>) are not modelled.
\<close>

section \<open>Output streams\<close>

text \<open>
  An output stream counts the bytes written; with a callback (the only one is \<open>buf_write\<close>) it also
  stores them. \<open>os_state\<close> holds the bytes in front of the write position of the block, whose size is
  \<open>os_block\<close>; a store behind its end is undefined. Sizes are natural numbers: they count bytes of
  objects in memory and stay below the range of \<open>size_t\<close>.
\<close>

record pb_ostream_t =
  os_callback :: bool
  os_state :: "u8 list"
  os_block :: nat
  os_max_size :: nat
  os_bytes_written :: nat

definition PB_OSTREAM_SIZING :: pb_ostream_t where
  "PB_OSTREAM_SIZING =
     \<lparr>os_callback = False, os_state = [], os_block = 0, os_max_size = 0, os_bytes_written = 0\<rparr>"

definition pb_ostream_from_buffer :: "nat \<Rightarrow> nat \<Rightarrow> pb_ostream_t" where
  "pb_ostream_from_buffer block bufsize =
     \<lparr>os_callback = True, os_state = [], os_block = block, os_max_size = bufsize, os_bytes_written = 0\<rparr>"

text \<open>The source buffer is \<open>None\<close> for the null pointer.\<close>

definition buf_write :: "pb_ostream_t \<Rightarrow> u8 list option \<Rightarrow> nat \<Rightarrow> pb_ostream_t ub" where
  "buf_write s buf n =
     (case buf of
        None \<Rightarrow> if n = 0 then Some s else None
      | Some bs \<Rightarrow>
          if n \<le> length bs \<and> length (os_state s) + n \<le> os_block s
          then Some (s\<lparr>os_state := os_state s @ take n bs\<rparr>) else None)"

definition pb_write :: "pb_ostream_t \<Rightarrow> u8 list option \<Rightarrow> nat \<Rightarrow> (bool \<times> pb_ostream_t) ub" where
  "pb_write s buf n =
     (if os_callback s then
        if os_bytes_written s + n > os_max_size s then Some (False, s)
        else do { s \<leftarrow> buf_write s buf n;
                  Some (True, s\<lparr>os_bytes_written := os_bytes_written s + n\<rparr>) }
      else Some (True, s\<lparr>os_bytes_written := os_bytes_written s + n\<rparr>))"

text \<open>Varints: seven bits per byte, low bits first; the local buffer has ten bytes.\<close>

function varint_loop :: "u64 \<Rightarrow> u8 list" where
  "varint_loop value =
     (if value = 0 then []
      else (ucast (value AND 0x7F) OR 0x80) # varint_loop (drop_bit 7 value))"
  by auto
termination
proof (relation "measure unat")
  fix v :: u64 assume "v \<noteq> 0"
  then have "0 < unat v" by (simp add: unat_gt_0)
  then have "unat v div 2 ^ 7 < unat v" by (intro div_less_dividend) simp_all
  moreover have "unat (drop_bit 7 v) = unat v div 2 ^ 7" by (simp only: unat_drop_bit_eq) (simp only: drop_bit_eq_div)
  ultimately show "(drop_bit 7 v, v) \<in> measure unat" by simp
qed simp

definition pb_encode_varint :: "pb_ostream_t \<Rightarrow> u64 \<Rightarrow> (bool \<times> pb_ostream_t) ub" where
  "pb_encode_varint s value =
     (if value \<le> 0x7F then pb_write s (Some [ucast value]) 1
      else
        (let buffer = varint_loop value in
         if 10 < length buffer then None
         else pb_write s (Some (butlast buffer @ [last buffer AND 0x7F])) (length buffer)))"

text \<open>Signed 64 bit values are words in two's complement.\<close>

definition pb_encode_svarint :: "pb_ostream_t \<Rightarrow> u64 \<Rightarrow> (bool \<times> pb_ostream_t) ub" where
  "pb_encode_svarint s value =
     pb_encode_varint s (if sint value < 0 then NOT (push_bit 1 value) else push_bit 1 value)"

definition pb_encode_fixed32 :: "pb_ostream_t \<Rightarrow> u32 \<Rightarrow> (bool \<times> pb_ostream_t) ub" where
  "pb_encode_fixed32 s val =
     pb_write s (Some [ucast (val AND 0xFF), ucast (drop_bit 8 val AND 0xFF), ucast (drop_bit 16 val AND 0xFF),
                       ucast (drop_bit 24 val AND 0xFF)]) 4"

definition pb_encode_fixed64 :: "pb_ostream_t \<Rightarrow> u64 \<Rightarrow> (bool \<times> pb_ostream_t) ub" where
  "pb_encode_fixed64 s val =
     pb_write s (Some [ucast (val AND 0xFF), ucast (drop_bit 8 val AND 0xFF), ucast (drop_bit 16 val AND 0xFF),
                       ucast (drop_bit 24 val AND 0xFF), ucast (drop_bit 32 val AND 0xFF),
                       ucast (drop_bit 40 val AND 0xFF), ucast (drop_bit 48 val AND 0xFF),
                       ucast (drop_bit 56 val AND 0xFF)]) 8"

datatype pb_wire_type_t = PB_WT_VARINT | PB_WT_64BIT | PB_WT_STRING | PB_WT_32BIT | PB_WT_OTHER u32

fun wire_code :: "pb_wire_type_t \<Rightarrow> u32" where
  "wire_code PB_WT_VARINT = 0"
| "wire_code PB_WT_64BIT = 1"
| "wire_code PB_WT_STRING = 2"
| "wire_code PB_WT_32BIT = 5"
| "wire_code (PB_WT_OTHER n) = n"

definition wire_of_code :: "u32 \<Rightarrow> pb_wire_type_t" where
  "wire_of_code n =
     (if n = 0 then PB_WT_VARINT else if n = 1 then PB_WT_64BIT else if n = 2 then PB_WT_STRING
      else if n = 5 then PB_WT_32BIT else PB_WT_OTHER n)"

definition pb_encode_tag :: "pb_ostream_t \<Rightarrow> pb_wire_type_t \<Rightarrow> u32 \<Rightarrow> (bool \<times> pb_ostream_t) ub" where
  "pb_encode_tag s wiretype field_number =
     pb_encode_varint s (push_bit 3 (ucast field_number) OR ucast (wire_code wiretype))"

definition pb_encode_string :: "pb_ostream_t \<Rightarrow> u8 list option \<Rightarrow> nat \<Rightarrow> (bool \<times> pb_ostream_t) ub" where
  "pb_encode_string s buffer n =
     do { (ok, s) \<leftarrow> pb_encode_varint s (of_nat n);
          if \<not> ok then Some (False, s) else pb_write s buffer n }"

section \<open>Input streams\<close>

text \<open>\<open>is_state\<close> holds the bytes from the read position to the end of the block.\<close>

record pb_istream_t =
  is_state :: "u8 list"
  is_bytes_left :: nat

definition pb_istream_from_buffer :: "u8 list \<Rightarrow> nat \<Rightarrow> pb_istream_t" where
  "pb_istream_from_buffer buf bufsize = \<lparr>is_state = buf, is_bytes_left = bufsize\<rparr>"

definition buf_read :: "pb_istream_t \<Rightarrow> nat \<Rightarrow> (u8 list \<times> pb_istream_t) ub" where
  "buf_read s n =
     (if n \<le> length (is_state s) then Some (take n (is_state s), s\<lparr>is_state := drop n (is_state s)\<rparr>) else None)"

text \<open>The readers return \<open>None\<close> for a false return, otherwise the value.\<close>

definition pb_read :: "pb_istream_t \<Rightarrow> nat \<Rightarrow> (u8 list option \<times> pb_istream_t) ub" where
  "pb_read s n =
     (if is_bytes_left s < n then Some (None, s)
      else do { (bs, s) \<leftarrow> buf_read s n;
                Some (Some bs, s\<lparr>is_bytes_left := is_bytes_left s - n\<rparr>) })"

definition pb_readbyte :: "pb_istream_t \<Rightarrow> (u8 option \<times> pb_istream_t) ub" where
  "pb_readbyte s =
     (if is_bytes_left s = 0 then Some (None, s)
      else do { (bs, s) \<leftarrow> buf_read s 1;
                Some (Some (hd bs), s\<lparr>is_bytes_left := is_bytes_left s - 1\<rparr>) })"

text \<open>The do loops of the varint readers; the bit position bounds the number of rounds.\<close>

function varint32_loop :: "pb_istream_t \<Rightarrow> nat \<Rightarrow> u32 \<Rightarrow> (u32 option \<times> pb_istream_t) ub" where
  "varint32_loop s bitpos result =
     (if 32 \<le> bitpos then Some (None, s)
      else
        (case pb_readbyte s of
           None \<Rightarrow> None
         | Some (None, s) \<Rightarrow> Some (None, s)
         | Some (Some b, s) \<Rightarrow>
             (let result = result OR push_bit bitpos (ucast (b AND 0x7F)) in
              if b AND 0x80 \<noteq> 0 then varint32_loop s (bitpos + 7) result else Some (Some result, s))))"
  by auto
termination by (relation "measure (\<lambda>(s, bitpos, result). 32 - bitpos)") auto

definition pb_decode_varint32 :: "pb_istream_t \<Rightarrow> (u32 option \<times> pb_istream_t) ub" where
  "pb_decode_varint32 s =
     do { (r, s) \<leftarrow> pb_readbyte s;
          (case r of
             None \<Rightarrow> Some (None, s)
           | Some b \<Rightarrow>
               if b AND 0x80 = 0 then Some (Some (ucast b), s)
               else varint32_loop s 7 (ucast (b AND 0x7F))) }"

function varint_read_loop :: "pb_istream_t \<Rightarrow> nat \<Rightarrow> u64 \<Rightarrow> (u64 option \<times> pb_istream_t) ub" where
  "varint_read_loop s bitpos result =
     (if 64 \<le> bitpos then Some (None, s)
      else
        (case pb_readbyte s of
           None \<Rightarrow> None
         | Some (None, s) \<Rightarrow> Some (None, s)
         | Some (Some b, s) \<Rightarrow>
             (let result = result OR push_bit bitpos (ucast (b AND 0x7F)) in
              if b AND 0x80 \<noteq> 0 then varint_read_loop s (bitpos + 7) result else Some (Some result, s))))"
  by auto
termination by (relation "measure (\<lambda>(s, bitpos, result). 64 - bitpos)") auto

definition pb_decode_varint :: "pb_istream_t \<Rightarrow> (u64 option \<times> pb_istream_t) ub" where
  "pb_decode_varint s = varint_read_loop s 0 0"

lemma pb_read_progress:
  "pb_read s n = Some (Some bs, s') \<Longrightarrow> is_bytes_left s' = is_bytes_left s - n \<and> n \<le> is_bytes_left s"
  by (auto simp: pb_read_def buf_read_def split: if_splits)

text \<open>A skipped varint may be longer than the readers accept.\<close>

function pb_skip_varint :: "pb_istream_t \<Rightarrow> (bool \<times> pb_istream_t) ub" where
  "pb_skip_varint s =
     (case pb_read s 1 of
        None \<Rightarrow> None
      | Some (None, s) \<Rightarrow> Some (False, s)
      | Some (Some bs, s) \<Rightarrow> if hd bs AND 0x80 \<noteq> 0 then pb_skip_varint s else Some (True, s))"
  by auto
termination by (relation "measure is_bytes_left") (auto dest: pb_read_progress)

definition pb_skip_string :: "pb_istream_t \<Rightarrow> (bool \<times> pb_istream_t) ub" where
  "pb_skip_string s =
     do { (len, s) \<leftarrow> pb_decode_varint32 s;
          (case len of
             None \<Rightarrow> Some (False, s)
           | Some n \<Rightarrow> do { (r, s) \<leftarrow> pb_read s (unat n); Some (r \<noteq> None, s) }) }"

text \<open>The result of \<open>pb_decode_tag\<close> is the wire type and the tag, the flag \<open>eof\<close> is returned beside.\<close>

definition pb_decode_tag :: "pb_istream_t \<Rightarrow> ((pb_wire_type_t \<times> u32) option \<times> bool \<times> pb_istream_t) ub" where
  "pb_decode_tag s =
     do { (r, s) \<leftarrow> pb_decode_varint32 s;
          (case r of
             None \<Rightarrow> Some (None, is_bytes_left s = 0, s)
           | Some temp \<Rightarrow>
               if temp = 0 then Some (None, True, s)
               else Some (Some (wire_of_code (temp AND 7), drop_bit 3 temp), False, s)) }"

definition pb_skip_field :: "pb_istream_t \<Rightarrow> pb_wire_type_t \<Rightarrow> (bool \<times> pb_istream_t) ub" where
  "pb_skip_field s wire_type =
     (case wire_type of
        PB_WT_VARINT \<Rightarrow> pb_skip_varint s
      | PB_WT_64BIT \<Rightarrow> do { (r, s) \<leftarrow> pb_read s 8; Some (r \<noteq> None, s) }
      | PB_WT_STRING \<Rightarrow> pb_skip_string s
      | PB_WT_32BIT \<Rightarrow> do { (r, s) \<leftarrow> pb_read s 4; Some (r \<noteq> None, s) }
      | PB_WT_OTHER _ \<Rightarrow> Some (False, s))"

text \<open>The nested stream over a length prefixed field; the result is the pair of streams.\<close>

definition pb_make_string_substream :: "pb_istream_t \<Rightarrow> (pb_istream_t option \<times> pb_istream_t) ub" where
  "pb_make_string_substream s =
     do { (len, s) \<leftarrow> pb_decode_varint32 s;
          (case len of
             None \<Rightarrow> Some (None, s)
           | Some n \<Rightarrow>
               if is_bytes_left s < unat n then Some (None, s)
               else Some (Some (s\<lparr>is_bytes_left := unat n\<rparr>), s\<lparr>is_bytes_left := is_bytes_left s - unat n\<rparr>)) }"

definition pb_close_string_substream :: "pb_istream_t \<Rightarrow> pb_istream_t \<Rightarrow> pb_istream_t" where
  "pb_close_string_substream s sub = s\<lparr>is_state := is_state sub\<rparr>"

definition pb_decode_svarint :: "pb_istream_t \<Rightarrow> (u64 option \<times> pb_istream_t) ub" where
  "pb_decode_svarint s =
     do { (r, s) \<leftarrow> pb_decode_varint s;
          Some (map_option (\<lambda>v. if v AND 1 \<noteq> 0 then NOT (drop_bit 1 v) else drop_bit 1 v) r, s) }"

definition pb_decode_fixed32 :: "pb_istream_t \<Rightarrow> (u32 option \<times> pb_istream_t) ub" where
  "pb_decode_fixed32 s =
     do { (r, s) \<leftarrow> pb_read s 4;
          Some (map_option (\<lambda>bs. push_bit 0 (ucast (bs ! 0)) OR push_bit 8 (ucast (bs ! 1)) OR
                  push_bit 16 (ucast (bs ! 2)) OR push_bit 24 (ucast (bs ! 3))) r, s) }"

definition pb_decode_fixed64 :: "pb_istream_t \<Rightarrow> (u64 option \<times> pb_istream_t) ub" where
  "pb_decode_fixed64 s =
     do { (r, s) \<leftarrow> pb_read s 8;
          Some (map_option (\<lambda>bs. push_bit 0 (ucast (bs ! 0)) OR push_bit 8 (ucast (bs ! 1)) OR
                  push_bit 16 (ucast (bs ! 2)) OR push_bit 24 (ucast (bs ! 3)) OR
                  push_bit 32 (ucast (bs ! 4)) OR push_bit 40 (ucast (bs ! 5)) OR
                  push_bit 48 (ucast (bs ! 6)) OR push_bit 56 (ucast (bs ! 7))) r, s) }"

declare varint_loop.simps [simp del] varint32_loop.simps [simp del] varint_read_loop.simps [simp del]
  pb_skip_varint.simps [simp del]

section \<open>The bytes of a varint\<close>

abbreviation in_stream :: "u8 list \<Rightarrow> nat \<Rightarrow> pb_istream_t" where
  "in_stream bs n \<equiv> \<lparr>is_state = bs, is_bytes_left = n\<rparr>"

lemma unat_drop_7: "unat (drop_bit 7 (v :: u64)) = unat v div 128"
proof -
  have "unat (drop_bit 7 v) = unat v div 2 ^ 7" by (simp only: unat_drop_bit_eq) (simp only: drop_bit_eq_div)
  then show ?thesis by simp
qed

lemma small_varint: "(v :: u64) \<le> 0x7F \<longleftrightarrow> drop_bit 7 v = 0"
proof -
  have "drop_bit 7 v = 0 \<longleftrightarrow> unat (drop_bit 7 v) = 0" by (simp only: unat_eq_0)
  also have "\<dots> \<longleftrightarrow> unat v < 128" unfolding unat_drop_7 by (simp add: div_eq_0_iff)
  also have "\<dots> \<longleftrightarrow> v \<le> 0x7F" by (auto simp: word_le_nat_alt)
  finally show ?thesis by simp
qed

function varint_bytes :: "u64 \<Rightarrow> u8 list" where
  "varint_bytes v =
     (if v \<le> 0x7F then [ucast v] else (ucast (v AND 0x7F) OR 0x80) # varint_bytes (drop_bit 7 v))"
  by auto
termination
proof (relation "measure unat")
  fix v :: u64 assume "\<not> v \<le> 0x7F"
  then have "0 < unat v" by (auto simp: word_le_nat_alt)
  then show "(drop_bit 7 v, v) \<in> measure unat" by (simp add: unat_drop_7)
qed simp

declare varint_bytes.simps [simp del]

lemma bit_127 [simp]: "bit (127 :: int) n \<longleftrightarrow> n < 7"
proof -
  have "(127 :: int) = mask 7" by (simp add: mask_eq_exp_minus_1)
  then show ?thesis by (simp only: bit_mask_iff) simp
qed

lemma bit_128 [simp]: "bit (128 :: int) n \<longleftrightarrow> n = 7"
proof -
  have "(128 :: int) = 2 ^ 7" by simp
  then show ?thesis by (simp only: bit_exp_iff) auto
qed

lemma small_bits:
  assumes "(v :: u64) \<le> 0x7F" "bit v n"
  shows "n < 7"
proof (rule ccontr)
  assume "\<not> n < 7"
  then have "bit (drop_bit 7 v) (n - 7) \<longleftrightarrow> bit v n" by (simp add: bit_drop_bit_eq)
  with assms show False by (simp add: small_varint)
qed

lemma low_byte: "v \<le> 0x7F \<Longrightarrow> (ucast (v AND 0x7F) OR 0x80) AND 0x7F = (ucast (v :: u64) :: u8)"
  by (intro bit_word_eqI) (auto simp: bit_simps dest: small_bits)

lemma varint_loop_fixed:
  "v \<noteq> 0 \<Longrightarrow> varint_loop v \<noteq> [] \<and> butlast (varint_loop v) @ [last (varint_loop v) AND 0x7F] = varint_bytes v"
proof (induction v rule: varint_loop.induct)
  case (1 v)
  show ?case
  proof (cases "v \<le> 0x7F")
    case True
    then have "varint_loop v = [ucast (v AND 0x7F) OR 0x80]"
      using 1(2) by (simp add: varint_loop.simps [of v] varint_loop.simps [of 0] small_varint)
    with True low_byte [OF True] show ?thesis by (simp add: varint_bytes.simps [of v])
  next
    case False
    with small_varint have "drop_bit 7 v \<noteq> 0" by blast
    with 1 have "varint_loop (drop_bit 7 v) \<noteq> []"
      "butlast (varint_loop (drop_bit 7 v)) @ [last (varint_loop (drop_bit 7 v)) AND 0x7F] = varint_bytes (drop_bit 7 v)" by auto
    with 1(2) False show ?thesis by (simp add: varint_loop.simps [of v] varint_bytes.simps [of v])
  qed
qed

lemma length_varint_bytes: "0 < k \<Longrightarrow> unat v < 128 ^ k \<Longrightarrow> length (varint_bytes v) \<le> k"
proof (induction v arbitrary: k rule: varint_bytes.induct)
  case (1 v)
  show ?case
  proof (cases "v \<le> 0x7F")
    case True
    with 1(2) show ?thesis by (simp add: varint_bytes.simps [of v])
  next
    case False
    then have "\<not> unat v < 128" by (auto simp: word_le_nat_alt)
    with 1(2,3) obtain k' where k: "k = Suc k'" "0 < k'" by (cases k; cases "k - 1") auto
    then have "unat (drop_bit 7 v) < 128 ^ k'" using 1(3) by (simp add: unat_drop_7 less_mult_imp_div_less mult.commute)
    with 1(1) [OF False k(2)] False k show ?thesis by (simp add: varint_bytes.simps [of v])
  qed
qed

lemma length_varint_10: "length (varint_bytes v) \<le> 10"
proof -
  have "unat v < 2 ^ 64" using unsigned_less [of v] by simp
  then show ?thesis by (intro length_varint_bytes) simp_all
qed

text \<open>Writing a varint appends its bytes, for any value: the local buffer is never exceeded.\<close>

lemma pb_encode_varint_bytes: "pb_encode_varint s v = pb_write s (Some (varint_bytes v)) (length (varint_bytes v))"
proof (cases "v \<le> 0x7F")
  case True
  then show ?thesis by (simp add: pb_encode_varint_def varint_bytes.simps [of v])
next
  case False
  then have "v \<noteq> 0" by auto
  note f = varint_loop_fixed [OF this]
  have "length (varint_loop v) = length (varint_bytes v)"
    using f by (metis append_butlast_last_id length_append_singleton)
  with f False length_varint_10 [of v] show ?thesis by (simp add: pb_encode_varint_def Let_def)
qed

section \<open>Readers invert writers\<close>

lemma pb_readbyte_Cons: "pb_readbyte (in_stream (b # bs) (Suc n)) = Some (Some b, in_stream bs n)"
  by (simp add: pb_readbyte_def buf_read_def)

lemma last_varint_byte:
  assumes "(v :: u64) \<le> 0x7F"
  shows "(ucast v :: u8) AND 0x80 = 0" "ucast ((ucast v :: u8) AND 0x7F) = v" "ucast ((ucast v :: u8) AND 0x7F) = (ucast v :: u32)"
    "ucast (ucast v :: u8) = (ucast v :: u32)"
proof -
  note small = small_bits [OF assms]
  show "(ucast v :: u8) AND 0x80 = 0" by (intro bit_word_eqI) (auto simp: bit_simps dest: small)
  show "ucast ((ucast v :: u8) AND 0x7F) = v" "ucast ((ucast v :: u8) AND 0x7F) = (ucast v :: u32)" "ucast (ucast v :: u8) = (ucast v :: u32)"
    by (rule bit_word_eqI; auto simp: bit_simps dest: small; use small in fastforce)+
qed

lemma more_varint_byte:
  "(ucast ((v :: u64) AND 0x7F) OR 0x80 :: u8) AND 0x80 \<noteq> 0"
  "(ucast (v AND 0x7F) OR 0x80 :: u8) AND 0x7F = ucast (v AND 0x7F)"
proof -
  have "bit ((ucast (v AND 0x7F) OR 0x80 :: u8) AND 0x80) 7" by (simp add: bit_simps)
  then show "(ucast (v AND 0x7F) OR 0x80 :: u8) AND 0x80 \<noteq> 0" by (metis bit_0_eq bot_apply bot_bool_def)
  show "(ucast (v AND 0x7F) OR 0x80 :: u8) AND 0x7F = ucast (v AND 0x7F)" by (intro bit_word_eqI) (auto simp: bit_simps)
qed

lemma varint_split:
  "push_bit p (ucast (ucast ((v :: u64) AND 0x7F) :: u8)) OR push_bit (p + 7) (drop_bit 7 v) = push_bit p v"
  "push_bit p (ucast (ucast (v AND 0x7F) :: u8)) OR push_bit (p + 7) (ucast (drop_bit 7 v)) = push_bit p (ucast v :: u32)"
proof -
  show "push_bit p (ucast (ucast (v AND 0x7F) :: u8)) OR push_bit (p + 7) (drop_bit 7 v) = push_bit p v"
  proof (rule bit_word_eqI)
    fix n assume "n < LENGTH(64)"
    then show "bit (push_bit p (ucast (ucast (v AND 0x7F) :: u8)) OR push_bit (p + 7) (drop_bit 7 v)) n \<longleftrightarrow> bit (push_bit p v) n"
      by (cases "n < p + 7") (auto simp: bit_simps)
  qed
  show "push_bit p (ucast (ucast (v AND 0x7F) :: u8)) OR push_bit (p + 7) (ucast (drop_bit 7 v)) = push_bit p (ucast v :: u32)"
  proof (rule bit_word_eqI)
    fix n assume "n < LENGTH(32)"
    then show "bit (push_bit p (ucast (ucast (v AND 0x7F) :: u8)) OR push_bit (p + 7) (ucast (drop_bit 7 v)) :: u32) n \<longleftrightarrow> bit (push_bit p (ucast v :: u32)) n"
      by (cases "n < p + 7") (auto simp: bit_simps)
  qed
qed

lemma varint_room:
  assumes "unat (v :: u64) < 2 ^ (m - p)" "\<not> v \<le> 0x7F"
  shows "p + 7 < m" "unat (drop_bit 7 v) < 2 ^ (m - (p + 7))"
proof -
  from assms(2) have big: "128 \<le> unat v" by (auto simp: word_le_nat_alt)
  have "7 < m - p"
  proof (rule ccontr)
    assume "\<not> 7 < m - p"
    then have "2 ^ (m - p) \<le> (2 :: nat) ^ 7" by (intro power_increasing) simp_all
    with big assms(1) show False by simp
  qed
  then show p: "p + 7 < m" by simp
  then have "m - p = (m - (p + 7)) + 7" by simp
  then have "(2 :: nat) ^ (m - p) = 2 ^ (m - (p + 7)) * 128" by (simp only: power_add) simp
  with assms(1) show "unat (drop_bit 7 v) < 2 ^ (m - (p + 7))" by (simp add: unat_drop_7 less_mult_imp_div_less)
qed

lemma varint_read_bytes:
  assumes "unat v < 2 ^ (64 - p)" "p < 64" "n = length (varint_bytes v) + k"
  shows "varint_read_loop (in_stream (varint_bytes v @ rest) n) p r = Some (Some (r OR push_bit p v), in_stream rest k)"
  using assms
proof (induction v arbitrary: p r n rule: varint_bytes.induct)
  case (1 v)
  show ?case
  proof (cases "v \<le> 0x7F")
    case True
    with 1(3,4) last_varint_byte [OF True] show ?thesis
      by (simp add: varint_bytes.simps [of v] varint_read_loop.simps [of _ p] pb_readbyte_Cons)
  next
    case False
    note p = varint_room(1) [OF 1(2) False] and lt = varint_room(2) [OF 1(2) False]
    let ?b = "ucast (v AND 0x7F) OR 0x80 :: u8"
    from 1(4) False obtain n' where n: "n = Suc n'" "n' = length (varint_bytes (drop_bit 7 v)) + k"
      by (simp add: varint_bytes.simps [of v])
    have "varint_read_loop (in_stream (varint_bytes v @ rest) n) p r =
        varint_read_loop (in_stream (varint_bytes (drop_bit 7 v) @ rest) n') (p + 7) (r OR push_bit p (ucast (?b AND 0x7F)))"
      using False n p more_varint_byte(1) [of v]
      by (simp add: varint_bytes.simps [of v] varint_read_loop.simps [of _ p] pb_readbyte_Cons)
    also have "\<dots> = Some (Some ((r OR push_bit p (ucast (?b AND 0x7F))) OR push_bit (p + 7) (drop_bit 7 v)), in_stream rest k)"
      by (rule 1(1) [OF False lt p n(2)])
    finally show ?thesis unfolding more_varint_byte(2) by (simp only: or.assoc varint_split(1))
  qed
qed

lemma varint32_read_bytes:
  assumes "unat v < 2 ^ (32 - p)" "p < 32" "n = length (varint_bytes v) + k"
  shows "varint32_loop (in_stream (varint_bytes v @ rest) n) p r = Some (Some (r OR push_bit p (ucast v)), in_stream rest k)"
  using assms
proof (induction v arbitrary: p r n rule: varint_bytes.induct)
  case (1 v)
  show ?case
  proof (cases "v \<le> 0x7F")
    case True
    with 1(3,4) last_varint_byte [OF True] show ?thesis
      by (simp add: varint_bytes.simps [of v] varint32_loop.simps [of _ p] pb_readbyte_Cons)
  next
    case False
    note p = varint_room(1) [OF 1(2) False] and lt = varint_room(2) [OF 1(2) False]
    let ?b = "ucast (v AND 0x7F) OR 0x80 :: u8"
    from 1(4) False obtain n' where n: "n = Suc n'" "n' = length (varint_bytes (drop_bit 7 v)) + k"
      by (simp add: varint_bytes.simps [of v])
    have "varint32_loop (in_stream (varint_bytes v @ rest) n) p r =
        varint32_loop (in_stream (varint_bytes (drop_bit 7 v) @ rest) n') (p + 7) (r OR push_bit p (ucast (?b AND 0x7F)))"
      using False n p more_varint_byte(1) [of v]
      by (simp add: varint_bytes.simps [of v] varint32_loop.simps [of _ p] pb_readbyte_Cons)
    also have "\<dots> = Some (Some ((r OR push_bit p (ucast (?b AND 0x7F))) OR push_bit (p + 7) (ucast (drop_bit 7 v))), in_stream rest k)"
      by (rule 1(1) [OF False lt p n(2)])
    finally show ?thesis unfolding more_varint_byte(2) by (simp only: or.assoc varint_split(2))
  qed
qed

lemma pb_decode_varint_bytes [wire_simps]:
  "pb_decode_varint (in_stream (varint_bytes v @ rest) (length (varint_bytes v) + k)) = Some (Some v, in_stream rest k)"
proof -
  have "unat v < 2 ^ (64 - 0)" using unsigned_less [of v] by simp
  from varint_read_bytes [OF this, of _ k rest 0] show ?thesis by (simp add: pb_decode_varint_def)
qed

lemma pb_decode_varint32_bytes [wire_simps]:
  assumes "unat v < 2 ^ 32"
  shows "pb_decode_varint32 (in_stream (varint_bytes v @ rest) (length (varint_bytes v) + k)) = Some (Some (ucast v), in_stream rest k)"
proof (cases "v \<le> 0x7F")
  case True
  with last_varint_byte [OF True] show ?thesis
    by (simp add: pb_decode_varint32_def varint_bytes.simps [of v] pb_readbyte_Cons)
next
  case False
  have "unat v < 2 ^ (32 - 0)" using assms by simp
  from varint_room [OF this False] have lt: "unat (drop_bit 7 v) < 2 ^ (32 - 7)" by simp
  let ?b = "ucast (v AND 0x7F) OR 0x80 :: u8"
  have "pb_decode_varint32 (in_stream (varint_bytes v @ rest) (length (varint_bytes v) + k)) =
      varint32_loop (in_stream (varint_bytes (drop_bit 7 v) @ rest) (length (varint_bytes (drop_bit 7 v)) + k)) 7 (ucast (?b AND 0x7F))"
    using False more_varint_byte(1) [of v] by (simp add: pb_decode_varint32_def varint_bytes.simps [of v] pb_readbyte_Cons)
  also have "\<dots> = Some (Some (ucast (?b AND 0x7F) OR push_bit 7 (ucast (drop_bit 7 v))), in_stream rest k)"
    by (rule varint32_read_bytes [OF lt]) simp_all
  finally show ?thesis unfolding more_varint_byte(2) using varint_split(2) [of 0 v] by simp
qed

section \<open>What a writer appends and a reader takes\<close>

text \<open>
  \<open>os_put bs s\<close> is the stream after \<open>bs\<close> went through it, \<open>os_room s n\<close> says that \<open>n\<close> more bytes are
  allowed and have memory behind them; a counting stream always has room.
\<close>

definition os_put :: "u8 list \<Rightarrow> pb_ostream_t \<Rightarrow> pb_ostream_t" where
  "os_put bs s =
     s\<lparr>os_state := (if os_callback s then os_state s @ bs else os_state s),
       os_bytes_written := os_bytes_written s + length bs\<rparr>"

definition os_room :: "pb_ostream_t \<Rightarrow> nat \<Rightarrow> bool" where
  "os_room s n \<longleftrightarrow>
     (os_callback s \<longrightarrow> os_bytes_written s + n \<le> os_max_size s \<and> length (os_state s) + n \<le> os_block s)"

definition writes :: "(pb_ostream_t \<Rightarrow> (bool \<times> pb_ostream_t) ub) \<Rightarrow> u8 list \<Rightarrow> bool" where
  "writes enc bs \<longleftrightarrow> (\<forall>s. os_room s (length bs) \<longrightarrow> enc s = Some (True, os_put bs s))"

definition reads :: "(pb_istream_t \<Rightarrow> ('a option \<times> pb_istream_t) ub) \<Rightarrow> u8 list \<Rightarrow> 'a \<Rightarrow> bool" where
  "reads dec bs v \<longleftrightarrow> (\<forall>rest k. dec (in_stream (bs @ rest) (length bs + k)) = Some (Some v, in_stream rest k))"

lemma os_put_append: "os_put b (os_put a s) = os_put (a @ b) s"
  by (simp add: os_put_def)

lemma os_put_Nil [simp]: "os_put [] s = s"
  by (simp add: os_put_def)

lemma os_put_fields [simp]:
  "os_callback (os_put bs s) = os_callback s" "os_bytes_written (os_put bs s) = os_bytes_written s + length bs"
  by (simp_all add: os_put_def)

lemma os_room_put: "os_room s (length a + n) \<Longrightarrow> os_room (os_put a s) n"
  by (auto simp: os_room_def os_put_def)

lemma os_room_le: "os_room s n \<Longrightarrow> m \<le> n \<Longrightarrow> os_room s m"
  by (auto simp: os_room_def)

lemma os_room_sizing [simp]: "\<not> os_callback s \<Longrightarrow> os_room s n"
  by (simp add: os_room_def)

lemma writesI: "(\<And>s. os_room s (length bs) \<Longrightarrow> enc s = Some (True, os_put bs s)) \<Longrightarrow> writes enc bs"
  by (simp add: writes_def)

lemma writesD: "writes enc bs \<Longrightarrow> os_room s (length bs) \<Longrightarrow> enc s = Some (True, os_put bs s)"
  by (simp add: writes_def)

lemma writes_seq:
  assumes "writes enc1 a" "writes enc2 b"
  shows "writes (\<lambda>s. do { (ok, s) \<leftarrow> enc1 s; if \<not> ok then Some (False, s) else enc2 s }) (a @ b)"
proof (rule writesI)
  fix s assume r: "os_room s (length (a @ b))"
  then have "os_room s (length a)" "os_room (os_put a s) (length b)"
    by (auto intro: os_room_le os_room_put)
  with assms show "do { (ok, s) \<leftarrow> enc1 s; if \<not> ok then Some (False, s) else enc2 s } = Some (True, os_put (a @ b) s)"
    by (simp add: writesD os_put_append)
qed

lemma writes_pb_write [wire_simps]: "writes (\<lambda>s. pb_write s (Some bs) (length bs)) bs"
  by (auto simp: writes_def os_room_def os_put_def pb_write_def buf_write_def)

lemma writes_pb_write_n: "length bs = n \<Longrightarrow> writes (\<lambda>s. pb_write s (Some bs) n) bs"
  using writes_pb_write by blast

lemma writes_varint [wire_simps]: "writes (\<lambda>s. pb_encode_varint s v) (varint_bytes v)"
  unfolding pb_encode_varint_bytes by (rule writes_pb_write)

lemma readsD: "reads dec bs v \<Longrightarrow> dec (in_stream (bs @ rest) (length bs + k)) = Some (Some v, in_stream rest k)"
  by (simp add: reads_def)

lemma reads_varint: "reads pb_decode_varint (varint_bytes v) v"
  by (simp add: reads_def wire_simps)

lemma pb_read_bytes: "pb_read (in_stream (bs @ rest) (length bs + k)) (length bs) = Some (Some bs, in_stream rest k)"
  by (simp add: pb_read_def buf_read_def)

text \<open>Signed varints.\<close>

definition zigzag :: "u64 \<Rightarrow> u64" where
  "zigzag v = (if sint v < 0 then NOT (push_bit 1 v) else push_bit 1 v)"

lemma writes_svarint: "writes (\<lambda>s. pb_encode_svarint s v) (varint_bytes (zigzag v))"
  unfolding pb_encode_svarint_def zigzag_def by (rule writes_varint)

lemma unzigzag: "(if zigzag v AND 1 \<noteq> 0 then NOT (drop_bit 1 (zigzag v)) else drop_bit 1 (zigzag v)) = v"
proof -
  have sign: "bit v 63 \<longleftrightarrow> sint v < 0" using bit_last_iff [of v] by simp
  have odd: "zigzag v AND 1 \<noteq> 0 \<longleftrightarrow> sint v < 0"
    by (simp add: zigzag_def and_one_eq one_and_eq odd_iff_mod_2_eq_one [symmetric] even_push_bit_iff)
  show ?thesis
  proof (cases "sint v < 0")
    case True
    have "NOT (drop_bit 1 (NOT (push_bit 1 v))) = v"
    proof (rule bit_word_eqI)
      fix n assume "n < LENGTH(64)"
      then have n: "n < 63 \<or> n = 63" by auto
      then show "bit (NOT (drop_bit 1 (NOT (push_bit 1 v)))) n \<longleftrightarrow> bit v n"
        using True sign by (auto simp: bit_simps bit_double_iff mult.commute [of v 2])
    qed
    with True odd show ?thesis by (simp add: zigzag_def)
  next
    case False
    have "drop_bit 1 (push_bit 1 v) = v"
    proof (rule bit_word_eqI)
      fix n assume "n < LENGTH(64)"
      then have n: "n < 63 \<or> n = 63" by auto
      then show "bit (drop_bit 1 (push_bit 1 v)) n \<longleftrightarrow> bit v n"
        using False sign by (auto simp: bit_simps bit_double_iff mult.commute [of v 2])
    qed
    with False odd show ?thesis by (simp add: zigzag_def)
  qed
qed

lemma reads_svarint: "reads pb_decode_svarint (varint_bytes (zigzag v)) v"
  using unzigzag [of v] by (simp add: reads_def pb_decode_svarint_def wire_simps)

text \<open>Fixed size integers.\<close>

lemma bit_255 [simp]: "bit (255 :: int) n \<longleftrightarrow> n < 8"
proof -
  have "(255 :: int) = mask 8" by (simp add: mask_eq_exp_minus_1)
  then show ?thesis by (simp only: bit_mask_iff) simp
qed

definition fixed32_bytes :: "u32 \<Rightarrow> u8 list" where
  "fixed32_bytes v = map (\<lambda>i. ucast (drop_bit (8 * i) v)) [0..<4]"

definition fixed64_bytes :: "u64 \<Rightarrow> u8 list" where
  "fixed64_bytes v = map (\<lambda>i. ucast (drop_bit (8 * i) v)) [0..<8]"

lemma ucast_and_FF: "(ucast ((v :: u32) AND 0xFF) :: u8) = ucast v" "(ucast ((w :: u64) AND 0xFF) :: u8) = ucast w"
  by (rule bit_word_eqI; simp add: bit_simps)+

lemma fixed_bytes_unfold:
  "fixed32_bytes v = [ucast v, ucast (drop_bit 8 v), ucast (drop_bit 16 v), ucast (drop_bit 24 v)]"
  "fixed64_bytes w = [ucast w, ucast (drop_bit 8 w), ucast (drop_bit 16 w), ucast (drop_bit 24 w),
     ucast (drop_bit 32 w), ucast (drop_bit 40 w), ucast (drop_bit 48 w), ucast (drop_bit 56 w)]"
  by (simp_all add: fixed32_bytes_def fixed64_bytes_def upt_rec)

lemma writes_fixed32: "writes (\<lambda>s. pb_encode_fixed32 s v) (fixed32_bytes v)"
  unfolding pb_encode_fixed32_def fixed_bytes_unfold ucast_and_FF by (rule writes_pb_write_n) simp

lemma writes_fixed64: "writes (\<lambda>s. pb_encode_fixed64 s v) (fixed64_bytes v)"
  unfolding pb_encode_fixed64_def fixed_bytes_unfold ucast_and_FF by (rule writes_pb_write_n) simp

lemma fixed32_join:
  "ucast (ucast (v :: u32) :: u8) OR push_bit 8 (ucast (ucast (drop_bit 8 v) :: u8)) OR
   push_bit 16 (ucast (ucast (drop_bit 16 v) :: u8)) OR push_bit 24 (ucast (ucast (drop_bit 24 v) :: u8)) = v"
proof (rule bit_word_eqI)
  fix n assume "n < LENGTH(32)"
  then consider "n < 8" | "8 \<le> n" "n < 16" | "16 \<le> n" "n < 24" | "24 \<le> n" "n < 32" by fastforce
  then show "bit (ucast (ucast v :: u8) OR push_bit 8 (ucast (ucast (drop_bit 8 v) :: u8)) OR
   push_bit 16 (ucast (ucast (drop_bit 16 v) :: u8)) OR push_bit 24 (ucast (ucast (drop_bit 24 v) :: u8)) :: u32) n \<longleftrightarrow> bit v n"
    by cases (simp_all add: bit_simps less_diff_conv2)
qed

lemma fixed64_join:
  "ucast (ucast (v :: u64) :: u8) OR push_bit 8 (ucast (ucast (drop_bit 8 v) :: u8)) OR
   push_bit 16 (ucast (ucast (drop_bit 16 v) :: u8)) OR push_bit 24 (ucast (ucast (drop_bit 24 v) :: u8)) OR
   push_bit 32 (ucast (ucast (drop_bit 32 v) :: u8)) OR push_bit 40 (ucast (ucast (drop_bit 40 v) :: u8)) OR
   push_bit 48 (ucast (ucast (drop_bit 48 v) :: u8)) OR push_bit 56 (ucast (ucast (drop_bit 56 v) :: u8)) = v"
  (is "?l = v")
proof (rule bit_word_eqI)
  fix n assume "n < LENGTH(64)"
  then consider "n < 8" | "8 \<le> n" "n < 16" | "16 \<le> n" "n < 24" | "24 \<le> n" "n < 32" | "32 \<le> n" "n < 40"
    | "40 \<le> n" "n < 48" | "48 \<le> n" "n < 56" | "56 \<le> n" "n < 64" by fastforce
  then show "bit ?l n \<longleftrightarrow> bit v n"
    by cases (simp_all add: bit_simps less_diff_conv2)
qed

lemma reads_fixed32: "reads pb_decode_fixed32 (fixed32_bytes v) v"
  unfolding reads_def
proof (intro allI)
  fix rest k
  have "pb_read (in_stream (fixed32_bytes v @ rest) (length (fixed32_bytes v) + k)) 4 = Some (Some (fixed32_bytes v), in_stream rest k)"
    using pb_read_bytes [of "fixed32_bytes v" rest k] by (simp add: fixed32_bytes_def)
  then show "pb_decode_fixed32 (in_stream (fixed32_bytes v @ rest) (length (fixed32_bytes v) + k)) = Some (Some v, in_stream rest k)"
    using fixed32_join [of v] by (simp add: pb_decode_fixed32_def fixed_bytes_unfold)
qed

lemma reads_fixed64: "reads pb_decode_fixed64 (fixed64_bytes v) v"
  unfolding reads_def
proof (intro allI)
  fix rest k
  have "pb_read (in_stream (fixed64_bytes v @ rest) (length (fixed64_bytes v) + k)) 8 = Some (Some (fixed64_bytes v), in_stream rest k)"
    using pb_read_bytes [of "fixed64_bytes v" rest k] by (simp add: fixed64_bytes_def)
  then show "pb_decode_fixed64 (in_stream (fixed64_bytes v @ rest) (length (fixed64_bytes v) + k)) = Some (Some v, in_stream rest k)"
    using fixed64_join [of v] by (simp add: pb_decode_fixed64_def fixed_bytes_unfold)
qed

text \<open>Tags, strings and nested streams.\<close>

definition tag_bytes :: "pb_wire_type_t \<Rightarrow> u32 \<Rightarrow> u8 list" where
  "tag_bytes wt n = varint_bytes (push_bit 3 (ucast n) OR ucast (wire_code wt))"

definition tag_ok :: "u32 \<Rightarrow> bool" where
  "tag_ok n \<longleftrightarrow> 0 < unat n \<and> unat n < 2 ^ 29"

lemma writes_tag: "writes (\<lambda>s. pb_encode_tag s wt n) (tag_bytes wt n)"
  unfolding pb_encode_tag_def tag_bytes_def by (rule writes_varint)

lemma wire_code_bits: "(\<forall>x. wt \<noteq> PB_WT_OTHER x) \<Longrightarrow> wire_of_code (wire_code wt) = wt \<and> unat (wire_code wt) < 8"
  by (cases wt) (auto simp: wire_of_code_def)

lemma bit_lt:
  assumes "unat (v :: 'a :: len word) < 2 ^ m" "bit v n"
  shows "n < m"
proof -
  have "take_bit m (unat v) = unat v" using assms(1) by (simp add: take_bit_nat_eq_self)
  moreover have "bit (unat v) n" using assms(2) by (simp add: bit_unsigned_iff bit_imp_possible_bit)
  ultimately show ?thesis by (metis bit_take_bit_iff)
qed

lemma bit_7 [simp]: "bit (7 :: int) n \<longleftrightarrow> n < 3"
proof -
  have "(7 :: int) = mask 3" by (simp add: mask_eq_exp_minus_1)
  then show ?thesis by (simp only: bit_mask_iff) simp
qed

lemma tag_value:
  fixes c n :: u32
  assumes "unat c < 8" "unat n < 2 ^ 29"
  defines "t \<equiv> push_bit 3 (ucast n) OR ucast c :: u64"
  shows "unat t < 2 ^ 32" "ucast t AND 7 = c" "drop_bit 3 (ucast t :: u32) = n"
proof -
  have c: "bit c i \<Longrightarrow> i < 3" for i using bit_lt [of c 3 i] assms(1) by simp
  have n: "bit n i \<Longrightarrow> i < 29" for i using bit_lt [OF assms(2)] .
  have "ucast (ucast t :: u32) = t"
    by (rule bit_word_eqI) (use c n in \<open>auto simp: t_def bit_simps; fastforce\<close>)
  then have "unat t = unat (ucast (ucast t :: u32) :: u64)" by simp
  also have "\<dots> = unat (ucast t :: u32)"
  proof -
    have "unat (ucast t :: u32) < 2 ^ LENGTH(32)" by (rule unsigned_less)
    then have "unat (ucast t :: u32) < 2 ^ 64" by simp
    then show ?thesis by (simp only: unsigned_ucast_eq [of "ucast t :: u32"]) (simp add: take_bit_nat_eq_self)
  qed
  also have "\<dots> < 2 ^ 32" using unsigned_less [of "ucast t :: u32"] by simp
  finally show "unat t < 2 ^ 32" .
  show "ucast t AND 7 = c"
    by (rule bit_word_eqI) (use c in \<open>auto simp: t_def bit_simps\<close>)
  show "drop_bit 3 (ucast t :: u32) = n"
    by (rule bit_word_eqI) (use c n in \<open>auto simp: t_def bit_simps; fastforce\<close>)
qed

lemma pb_decode_tag_bytes:
  assumes "tag_ok n" "\<forall>x. wt \<noteq> PB_WT_OTHER x"
  shows "pb_decode_tag (in_stream (tag_bytes wt n @ rest) (length (tag_bytes wt n) + k)) = Some (Some (wt, n), False, in_stream rest k)"
proof -
  from assms wire_code_bits [OF assms(2)] have a: "unat (wire_code wt) < 8" "unat n < 2 ^ 29" "n \<noteq> 0"
    by (auto simp: tag_ok_def)
  note t = tag_value [OF a(1,2)]
  have nz: "ucast (push_bit 3 (ucast n) OR ucast (wire_code wt) :: u64) \<noteq> (0 :: u32)" using t(3) a(3) by auto
  from t nz wire_code_bits [OF assms(2)] show ?thesis
    unfolding tag_bytes_def pb_decode_tag_def by (simp add: pb_decode_varint32_bytes)
qed

definition string_bytes :: "u8 list \<Rightarrow> u8 list" where
  "string_bytes bs = varint_bytes (of_nat (length bs)) @ bs"

lemma writes_string: "writes (\<lambda>s. pb_encode_string s (Some bs) (length bs)) (string_bytes bs)"
  unfolding pb_encode_string_def string_bytes_def by (intro writes_seq writes_varint writes_pb_write)

lemma pb_make_string_substream_bytes:
  assumes "length bs < 2 ^ 32"
  shows "pb_make_string_substream (in_stream (string_bytes bs @ rest) (length (string_bytes bs) + k)) =
    Some (Some (in_stream (bs @ rest) (length bs)), in_stream (bs @ rest) k)"
proof -
  have u: "unat (of_nat (length bs) :: u64) = length bs" using assms by (simp add: unat_of_nat take_bit_nat_eq_self)
  have "unat (ucast (of_nat (length bs) :: u64) :: u32) = length bs"
    using assms by (simp add: unsigned_ucast_eq u take_bit_nat_eq_self)
  with pb_decode_varint32_bytes [of "of_nat (length bs)" "bs @ rest" "length bs + k"] u assms show ?thesis
    by (simp add: pb_make_string_substream_def string_bytes_def add.assoc)
qed

lemma pb_close_string_substream_in [simp]:
  "pb_close_string_substream (in_stream a n) (in_stream b m) = in_stream b n"
  by (simp add: pb_close_string_substream_def)

section \<open>Readers on arbitrary input\<close>

text \<open>
  A stream may only announce bytes that its block has. \<open>advances s t\<close>: \<open>t\<close> is \<open>s\<close> after some of its
  announced bytes were taken. On every such stream each reader is defined and only advances; when it
  returns a value it has consumed input.
\<close>

definition is_ok :: "pb_istream_t \<Rightarrow> bool" where
  "is_ok s \<longleftrightarrow> is_bytes_left s \<le> length (is_state s)"

definition advances :: "pb_istream_t \<Rightarrow> pb_istream_t \<Rightarrow> bool" where
  "advances s t \<longleftrightarrow>
     (\<exists>j \<le> is_bytes_left s. is_state t = drop j (is_state s) \<and> is_bytes_left t = is_bytes_left s - j)"

definition safe_read :: "pb_istream_t \<Rightarrow> ('a option \<times> pb_istream_t) ub \<Rightarrow> bool" where
  "safe_read s r \<longleftrightarrow>
     (\<exists>v t. r = Some (v, t) \<and> advances s t \<and> (v \<noteq> None \<longrightarrow> is_bytes_left t < is_bytes_left s))"

lemma advances_refl [simp, intro]: "advances s s"
  by (auto simp: advances_def)

lemma advances_trans [trans]: "advances s t \<Longrightarrow> advances t u \<Longrightarrow> advances s u"
proof -
  assume "advances s t" "advances t u"
  then obtain i j where "i \<le> is_bytes_left s" "is_state t = drop i (is_state s)" "is_bytes_left t = is_bytes_left s - i"
    "j \<le> is_bytes_left t" "is_state u = drop j (is_state t)" "is_bytes_left u = is_bytes_left t - j"
    by (auto simp: advances_def)
  then show ?thesis by (auto simp: advances_def add.commute intro!: exI [of _ "i + j"])
qed

lemma advances_ok: "is_ok s \<Longrightarrow> advances s t \<Longrightarrow> is_ok t"
  by (auto simp: is_ok_def advances_def)

lemma advances_left: "advances s t \<Longrightarrow> is_bytes_left t \<le> is_bytes_left s"
  by (auto simp: advances_def)

lemma pb_read_safe:
  assumes "is_ok s"
  shows "\<exists>v t. pb_read s n = Some (v, t) \<and> advances s t \<and>
    (\<forall>bs. v = Some bs \<longrightarrow> length bs = n \<and> is_bytes_left t = is_bytes_left s - n \<and> n \<le> is_bytes_left s)"
proof (cases "is_bytes_left s < n")
  case True
  then show ?thesis by (simp add: pb_read_def)
next
  case False
  then have "advances s (s\<lparr>is_state := drop n (is_state s), is_bytes_left := is_bytes_left s - n\<rparr>)"
    by (auto simp: advances_def intro: exI [of _ n])
  with False assms show ?thesis by (simp add: pb_read_def buf_read_def is_ok_def)
qed

lemma pb_readbyte_safe: "is_ok s \<Longrightarrow> safe_read s (pb_readbyte s)"
  by (auto simp: safe_read_def pb_readbyte_def buf_read_def is_ok_def advances_def intro!: exI [of _ "Suc 0"])

lemma safe_readE:
  assumes "safe_read s r"
  obtains v t where "r = Some (v, t)" "advances s t" "v \<noteq> None \<Longrightarrow> is_bytes_left t < is_bytes_left s"
  using assms by (auto simp: safe_read_def)

text \<open>A value computed from another reader's.\<close>

lemma safe_read_map: "safe_read s r \<Longrightarrow> safe_read s (do { (v, t) \<leftarrow> r; Some (map_option f v, t) })"
  by (auto simp: safe_read_def)

lemma varint32_loop_safe: "is_ok s \<Longrightarrow> \<exists>v t. varint32_loop s p r = Some (v, t) \<and> advances s t"
proof (induction s p r rule: varint32_loop.induct)
  case (1 s p r)
  from pb_readbyte_safe [OF 1(2)] obtain v t where b: "pb_readbyte s = Some (v, t)" "advances s t" by (rule safe_readE)
  show ?case
  proof (cases "32 \<le> p \<or> v = None")
    case True
    with b show ?thesis by (auto simp: varint32_loop.simps [of s])
  next
    case False
    then obtain x where x: "v = Some x" "\<not> 32 \<le> p" by auto
    show ?thesis
    proof (cases "x AND 0x80 = 0")
      case True
      with b x show ?thesis by (simp add: varint32_loop.simps [of s])
    next
      case False
      from 1(1) [OF x(2) b(1) [unfolded x(1)] refl refl] False advances_ok [OF 1(2) b(2)] obtain w u where
        "varint32_loop t (p + 7) (r OR push_bit p (ucast (x AND 0x7F))) = Some (w, u)" "advances t u" by auto
      with b x False show ?thesis by (auto simp: varint32_loop.simps [of s] intro: advances_trans)
    qed
  qed
qed

lemma pb_decode_varint32_safe:
  assumes "is_ok s"
  shows "safe_read s (pb_decode_varint32 s)"
proof -
  from pb_readbyte_safe [OF assms] obtain v t where
    b: "pb_readbyte s = Some (v, t)" "advances s t" "v \<noteq> None \<Longrightarrow> is_bytes_left t < is_bytes_left s" by (rule safe_readE) blast
  show ?thesis
  proof (cases v)
    case None
    with b show ?thesis by (simp add: pb_decode_varint32_def safe_read_def)
  next
    case (Some x)
    from varint32_loop_safe [OF advances_ok [OF assms b(2)], of 7 "ucast (x AND 0x7F)"] obtain w u where
      "varint32_loop t 7 (ucast (x AND 0x7F)) = Some (w, u)" "advances t u" by blast
    with b Some advances_left [of t u] show ?thesis
      by (auto simp: pb_decode_varint32_def safe_read_def intro: advances_trans)
  qed
qed

lemma varint_read_loop_safe: "is_ok s \<Longrightarrow> safe_read s (varint_read_loop s p r)"
proof (induction s p r rule: varint_read_loop.induct)
  case (1 s p r)
  from pb_readbyte_safe [OF 1(2)] obtain v t where
    b: "pb_readbyte s = Some (v, t)" "advances s t" "v \<noteq> None \<Longrightarrow> is_bytes_left t < is_bytes_left s" by (rule safe_readE) blast
  show ?case
  proof (cases "64 \<le> p \<or> v = None")
    case True
    with b show ?thesis by (auto simp: varint_read_loop.simps [of s] safe_read_def)
  next
    case False
    then obtain x where x: "v = Some x" "\<not> 64 \<le> p" by auto
    show ?thesis
    proof (cases "x AND 0x80 = 0")
      case True
      with b x show ?thesis by (auto simp: varint_read_loop.simps [of s] safe_read_def)
    next
      case False
      from 1(1) [OF x(2) b(1) [unfolded x(1)] refl refl] False advances_ok [OF 1(2) b(2)] obtain w u where
        "varint_read_loop t (p + 7) (r OR push_bit p (ucast (x AND 0x7F))) = Some (w, u)" "advances t u"
        by (auto simp: safe_read_def)
      with b x False advances_left [of t u] show ?thesis
        by (auto simp: varint_read_loop.simps [of s] safe_read_def intro: advances_trans)
    qed
  qed
qed

lemma pb_decode_varint_safe: "is_ok s \<Longrightarrow> safe_read s (pb_decode_varint s)"
  unfolding pb_decode_varint_def by (rule varint_read_loop_safe)

lemma pb_decode_svarint_safe: "is_ok s \<Longrightarrow> safe_read s (pb_decode_svarint s)"
  unfolding pb_decode_svarint_def by (intro safe_read_map pb_decode_varint_safe)

lemma pb_read_pos_safe: "is_ok s \<Longrightarrow> 0 < n \<Longrightarrow> safe_read s (pb_read s n)"
  using pb_read_safe [of s n] by (fastforce simp: safe_read_def)

lemma pb_decode_fixed_safe:
  "is_ok s \<Longrightarrow> safe_read s (pb_decode_fixed32 s)" "is_ok s \<Longrightarrow> safe_read s (pb_decode_fixed64 s)"
  unfolding pb_decode_fixed32_def pb_decode_fixed64_def by (intro safe_read_map pb_read_pos_safe; simp)+

lemma pb_decode_tag_safe:
  assumes "is_ok s"
  shows "\<exists>v eof t. pb_decode_tag s = Some (v, eof, t) \<and> advances s t \<and> (v \<noteq> None \<longrightarrow> is_bytes_left t < is_bytes_left s)"
  using pb_decode_varint32_safe [OF assms]
  by (auto simp: safe_read_def pb_decode_tag_def split: option.split)

lemma pb_skip_varint_safe: "is_ok s \<Longrightarrow> \<exists>ok t. pb_skip_varint s = Some (ok, t) \<and> advances s t"
proof (induction s rule: pb_skip_varint.induct)
  case (1 s)
  from pb_read_safe [OF 1(2), of 1] obtain v t where b: "pb_read s 1 = Some (v, t)" "advances s t" by blast
  show ?case
  proof (cases v)
    case None
    with b show ?thesis by (auto simp: pb_skip_varint.simps [of s])
  next
    case (Some bs)
    show ?thesis
    proof (cases "hd bs AND 0x80 = 0")
      case True
      with b Some show ?thesis by (auto simp: pb_skip_varint.simps [of s])
    next
      case False
      from 1(1) [OF b(1) [unfolded Some] refl refl False advances_ok [OF 1(2) b(2)]] obtain ok u where
        "pb_skip_varint t = Some (ok, u)" "advances t u" by blast
      with b Some False show ?thesis by (auto simp: pb_skip_varint.simps [of s] intro: advances_trans)
    qed
  qed
qed

lemma pb_skip_string_safe:
  assumes "is_ok s"
  shows "\<exists>ok t. pb_skip_string s = Some (ok, t) \<and> advances s t"
proof -
  from pb_decode_varint32_safe [OF assms] obtain v t where
    b: "pb_decode_varint32 s = Some (v, t)" "advances s t" by (rule safe_readE)
  show ?thesis
  proof (cases v)
    case None
    with b show ?thesis by (auto simp: pb_skip_string_def)
  next
    case (Some n)
    from pb_read_safe [OF advances_ok [OF assms b(2)], of "unat n"] obtain w u where
      "pb_read t (unat n) = Some (w, u)" "advances t u" by blast
    with b Some show ?thesis by (auto simp: pb_skip_string_def intro: advances_trans)
  qed
qed

lemma pb_skip_field_safe:
  assumes "is_ok s"
  shows "\<exists>ok t. pb_skip_field s wt = Some (ok, t) \<and> advances s t"
proof -
  from pb_read_safe [OF assms, of 8] pb_read_safe [OF assms, of 4] obtain v8 t8 v4 t4 where
    "pb_read s 8 = Some (v8, t8)" "advances s t8" "pb_read s 4 = Some (v4, t4)" "advances s t4" by blast
  with pb_skip_varint_safe [OF assms] pb_skip_string_safe [OF assms] show ?thesis
    by (cases wt) (auto simp: pb_skip_field_def)
qed

text \<open>A nested stream; closing it leaves the outer one where the inner one stopped.\<close>

lemma pb_make_string_substream_safe:
  assumes "is_ok s"
  shows "\<exists>r t. pb_make_string_substream s = Some (r, t) \<and> (r = None \<longrightarrow> advances s t) \<and>
    (\<forall>sub. r = Some sub \<longrightarrow> is_ok sub \<and>
      (\<forall>sub'. advances sub sub' \<longrightarrow> is_ok (pb_close_string_substream t sub') \<and>
         (is_bytes_left sub' = 0 \<longrightarrow> advances s (pb_close_string_substream t sub')) \<and>
         is_bytes_left (pb_close_string_substream t sub') < is_bytes_left s))"
proof -
  from pb_decode_varint32_safe [OF assms] obtain v t where
    b: "pb_decode_varint32 s = Some (v, t)" "advances s t" "v \<noteq> None \<Longrightarrow> is_bytes_left t < is_bytes_left s"
    by (rule safe_readE) blast
  note ok = advances_ok [OF assms b(2)]
  show ?thesis
  proof (cases "\<exists>n. v = Some n \<and> unat n \<le> is_bytes_left t")
    case False
    with b show ?thesis by (cases v) (auto simp: pb_make_string_substream_def)
  next
    case True
    then obtain n where n: "v = Some n" "unat n \<le> is_bytes_left t" by blast
    let ?t = "t\<lparr>is_bytes_left := is_bytes_left t - unat n\<rparr>" and ?sub = "t\<lparr>is_bytes_left := unat n\<rparr>"
    have r: "pb_make_string_substream s = Some (Some ?sub, ?t)"
      using b n by (simp add: pb_make_string_substream_def)
    have "is_ok (pb_close_string_substream ?t sub') \<and> (is_bytes_left sub' = 0 \<longrightarrow> advances s (pb_close_string_substream ?t sub')) \<and>
        is_bytes_left (pb_close_string_substream ?t sub') < is_bytes_left s" if "advances ?sub sub'" for sub'
    proof -
      from that obtain j where j: "j \<le> unat n" "is_state sub' = drop j (is_state t)" "is_bytes_left sub' = unat n - j"
        by (auto simp: advances_def)
      have "advances t (pb_close_string_substream ?t sub')" if "is_bytes_left sub' = 0"
        using j n(2) that by (auto simp: advances_def pb_close_string_substream_def intro!: exI [of _ "unat n"])
      with b n ok j show ?thesis
        by (auto simp: is_ok_def pb_close_string_substream_def intro: advances_trans)
    qed
    moreover have "is_ok ?sub" using ok n(2) by (simp add: is_ok_def)
    ultimately show ?thesis using r by auto
  qed
qed

section \<open>Properties\<close>

text \<open>Signed varints: every 64-bit value is written as one to ten bytes, and reading them gives the value
  back and stops right behind them, whatever follows.\<close>

theorem pb_svarint_roundtrip:
  "\<exists>bs. bs \<noteq> [] \<and> length bs \<le> 10 \<and> pb_encode_svarint s v = pb_write s (Some bs) (length bs) \<and>
     (\<forall>rest k. pb_decode_svarint (in_stream (bs @ rest) (length bs + k)) = Some (Some v, in_stream rest k))"
proof (intro exI conjI allI)
  show "varint_bytes (zigzag v) \<noteq> []" by (simp add: varint_bytes.simps [of "zigzag v"])
  show "length (varint_bytes (zigzag v)) \<le> 10" by (rule length_varint_10)
  show "pb_encode_svarint s v = pb_write s (Some (varint_bytes (zigzag v))) (length (varint_bytes (zigzag v)))"
    unfolding pb_encode_svarint_def zigzag_def by (rule pb_encode_varint_bytes)
  show "pb_decode_svarint (in_stream (varint_bytes (zigzag v) @ rest) (length (varint_bytes (zigzag v)) + k)) = Some (Some v, in_stream rest k)" for rest k
    by (rule readsD [OF reads_svarint])
qed

end
