(* ===== verification/Cuttle_Pb.thy ===== *)
theory Cuttle_Pb
  imports Nanopb
begin

text \<open>
  The message encoder and decoder of cuttle-pb.c, which the RPC layer's applications use for their
  messages: field descriptors, the codecs of the field types, arrays (packed and not), nested
  messages, whole messages. The theory shows that unpacking a packed message gives the message
  back, and that unpacking arbitrary bytes stays inside the buffers.

  A message is a C structure. It is modelled by its cells, addressed by their offset; a cell that is
  not initialised is absent, and reading it is undefined. The block of a string is the bytes in front
  of its last terminator; an array has a capacity and its items. The parameter \<open>mem\<close> tells for each
  size whether the allocator provides a block of that size; \<open>tabs\<close> are the descriptor tables of the
  program by address. Encoder and decoder call themselves for nested messages; their first argument
  bounds the nesting (the stack), and they are undefined when it is exceeded.
\<close>

section \<open>Descriptors and messages\<close>

datatype cf_pb_field_type =
    CF_PB_INT32 | CF_PB_UINT32 | CF_PB_INT64 | CF_PB_UINT64 | CF_PB_FIXED32 | CF_PB_SFIXED32
  | CF_PB_FIXED64 | CF_PB_SFIXED64 | CF_PB_FLOAT | CF_PB_DOUBLE | CF_PB_BOOL | CF_PB_STRING
  | CF_PB_BYTES | CF_PB_MESSAGE | CF_PB_OTHER_TYPE u8

datatype cf_pb_field_alloc_type = CF_PB_SCALAR | CF_PB_ARRAY | CF_PB_ONEOF | CF_PB_OTHER_ALLOC u8

record cf_pb_field_t =
  fld_tag :: u32
  fld_pbtype :: cf_pb_field_type
  fld_alloctype :: cf_pb_field_alloc_type
  fld_item_size :: u16
  fld_item_offset :: u16
  fld_has_offset :: u16
  fld_ptr :: "nat option"

datatype pb_cell =
    W32 u32 | W64 u64 | Flag bool | Str "u8 list option" | Buf "u8 list option" nat
  | Msg "u16 \<Rightarrow> pb_cell option" | Arr nat "pb_cell list"

type_synonym pb_msg = "u16 \<Rightarrow> pb_cell option"
type_synonym pb_tabs = "nat \<Rightarrow> cf_pb_field_t list"
type_synonym pb_encfn = "pb_ostream_t \<Rightarrow> cf_pb_field_t \<Rightarrow> pb_cell option \<Rightarrow> (bool \<times> pb_ostream_t) ub"
type_synonym pb_decfn = "pb_istream_t \<Rightarrow> cf_pb_field_t \<Rightarrow> pb_cell option \<Rightarrow> (bool \<times> pb_cell option \<times> pb_istream_t) ub"

definition cf_pb_field_has_data :: "cf_pb_field_t \<Rightarrow> pb_msg \<Rightarrow> bool ub" where
  "cf_pb_field_has_data field msg =
     (if fld_alloctype field = CF_PB_ONEOF
      then (case msg (fld_has_offset field) of Some (W32 t) \<Rightarrow> Some (t = fld_tag field) | _ \<Rightarrow> None)
      else if fld_has_offset field = -1 then Some True
      else (case msg (fld_has_offset field) of Some (Flag b) \<Rightarrow> Some b | _ \<Rightarrow> None))"

text \<open>A table ends with a descriptor of tag zero; running past its end is undefined.\<close>

fun cf_pb_find_tag :: "cf_pb_field_t list \<Rightarrow> u32 \<Rightarrow> cf_pb_field_t option ub" where
  "cf_pb_find_tag [] tag = None"
| "cf_pb_find_tag (f # fs) tag =
     (if fld_tag f = 0 then Some None else if fld_tag f = tag then Some (Some f) else cf_pb_find_tag fs tag)"

fun cf_pb_wire_type :: "cf_pb_field_type \<Rightarrow> pb_wire_type_t" where
  "cf_pb_wire_type CF_PB_INT32 = PB_WT_VARINT"
| "cf_pb_wire_type CF_PB_UINT32 = PB_WT_VARINT"
| "cf_pb_wire_type CF_PB_INT64 = PB_WT_VARINT"
| "cf_pb_wire_type CF_PB_UINT64 = PB_WT_VARINT"
| "cf_pb_wire_type CF_PB_BOOL = PB_WT_VARINT"
| "cf_pb_wire_type CF_PB_FIXED32 = PB_WT_32BIT"
| "cf_pb_wire_type CF_PB_SFIXED32 = PB_WT_32BIT"
| "cf_pb_wire_type CF_PB_FLOAT = PB_WT_32BIT"
| "cf_pb_wire_type CF_PB_FIXED64 = PB_WT_64BIT"
| "cf_pb_wire_type CF_PB_SFIXED64 = PB_WT_64BIT"
| "cf_pb_wire_type CF_PB_DOUBLE = PB_WT_64BIT"
| "cf_pb_wire_type CF_PB_STRING = PB_WT_STRING"
| "cf_pb_wire_type CF_PB_BYTES = PB_WT_STRING"
| "cf_pb_wire_type CF_PB_MESSAGE = PB_WT_STRING"
| "cf_pb_wire_type (CF_PB_OTHER_TYPE _) = PB_WT_OTHER (-1)"

definition cf_pb_type_packable :: "cf_pb_field_type \<Rightarrow> bool" where
  "cf_pb_type_packable type \<longleftrightarrow>
     type \<in> {CF_PB_FIXED32, CF_PB_SFIXED32, CF_PB_FIXED64, CF_PB_SFIXED64,
             CF_PB_INT32, CF_PB_UINT32, CF_PB_INT64, CF_PB_UINT64}"

section \<open>Codecs of the field types\<close>

text \<open>
  An encoder gets the cell its \<open>value\<close> points to; a decoder returns the cell as it leaves it.
\<close>

definition cf_pb_encode_int32 :: pb_encfn where
  "cf_pb_encode_int32 s field cell = (case cell of Some (W32 v) \<Rightarrow> pb_encode_svarint s (scast v) | _ \<Rightarrow> None)"

definition cf_pb_decode_int32 :: pb_decfn where
  "cf_pb_decode_int32 s field cell =
     do { (r, s) \<leftarrow> pb_decode_svarint s;
          (case r of
             Some val \<Rightarrow>
               if - (2 ^ 31) \<le> sint val \<and> sint val \<le> 2 ^ 31 - 1 then Some (True, Some (W32 (ucast val)), s)
               else Some (False, cell, s)
           | None \<Rightarrow> Some (False, cell, s)) }"

definition cf_pb_encode_uint32 :: pb_encfn where
  "cf_pb_encode_uint32 s field cell = (case cell of Some (W32 v) \<Rightarrow> pb_encode_varint s (ucast v) | _ \<Rightarrow> None)"

definition cf_pb_decode_uint32 :: pb_decfn where
  "cf_pb_decode_uint32 s field cell =
     do { (r, s) \<leftarrow> pb_decode_varint s;
          (case r of
             Some val \<Rightarrow> if val \<le> 0xFFFFFFFF then Some (True, Some (W32 (ucast val)), s) else Some (False, cell, s)
           | None \<Rightarrow> Some (False, cell, s)) }"

definition cf_pb_encode_int64 :: pb_encfn where
  "cf_pb_encode_int64 s field cell = (case cell of Some (W64 v) \<Rightarrow> pb_encode_svarint s v | _ \<Rightarrow> None)"

definition cf_pb_decode_int64 :: pb_decfn where
  "cf_pb_decode_int64 s field cell =
     do { (r, s) \<leftarrow> pb_decode_svarint s;
          Some (case r of Some v \<Rightarrow> (True, Some (W64 v), s) | None \<Rightarrow> (False, cell, s)) }"

definition cf_pb_encode_uint64 :: pb_encfn where
  "cf_pb_encode_uint64 s field cell = (case cell of Some (W64 v) \<Rightarrow> pb_encode_varint s v | _ \<Rightarrow> None)"

definition cf_pb_decode_uint64 :: pb_decfn where
  "cf_pb_decode_uint64 s field cell =
     do { (r, s) \<leftarrow> pb_decode_varint s;
          Some (case r of Some v \<Rightarrow> (True, Some (W64 v), s) | None \<Rightarrow> (False, cell, s)) }"

definition cf_pb_encode_fixed32 :: pb_encfn where
  "cf_pb_encode_fixed32 s field cell = (case cell of Some (W32 v) \<Rightarrow> pb_encode_fixed32 s v | _ \<Rightarrow> None)"

definition cf_pb_decode_fixed32 :: pb_decfn where
  "cf_pb_decode_fixed32 s field cell =
     do { (r, s) \<leftarrow> pb_decode_fixed32 s;
          Some (case r of Some v \<Rightarrow> (True, Some (W32 v), s) | None \<Rightarrow> (False, cell, s)) }"

definition cf_pb_encode_fixed64 :: pb_encfn where
  "cf_pb_encode_fixed64 s field cell = (case cell of Some (W64 v) \<Rightarrow> pb_encode_fixed64 s v | _ \<Rightarrow> None)"

definition cf_pb_decode_fixed64 :: pb_decfn where
  "cf_pb_decode_fixed64 s field cell =
     do { (r, s) \<leftarrow> pb_decode_fixed64 s;
          Some (case r of Some v \<Rightarrow> (True, Some (W64 v), s) | None \<Rightarrow> (False, cell, s)) }"

definition cf_pb_encode_bool :: pb_encfn where
  "cf_pb_encode_bool s field cell =
     (case cell of Some (Flag b) \<Rightarrow> pb_encode_varint s (if b then 1 else 0) | _ \<Rightarrow> None)"

definition cf_pb_decode_bool :: pb_decfn where
  "cf_pb_decode_bool s field cell =
     do { (r, s) \<leftarrow> pb_decode_varint s;
          Some (case r of Some v \<Rightarrow> (True, Some (Flag (v \<noteq> 0)), s) | None \<Rightarrow> (False, cell, s)) }"

text \<open>Floating point values are copied as the words that hold them.\<close>

definition cf_pb_encode_float :: pb_encfn where
  "cf_pb_encode_float s field cell = (case cell of Some (W32 v) \<Rightarrow> pb_encode_fixed32 s v | _ \<Rightarrow> None)"

definition cf_pb_decode_float :: pb_decfn where
  "cf_pb_decode_float s field cell =
     do { (r, s) \<leftarrow> pb_decode_fixed32 s;
          Some (case r of Some v \<Rightarrow> (True, Some (W32 v), s) | None \<Rightarrow> (False, cell, s)) }"

definition cf_pb_encode_double :: pb_encfn where
  "cf_pb_encode_double s field cell = (case cell of Some (W64 v) \<Rightarrow> pb_encode_fixed64 s v | _ \<Rightarrow> None)"

definition cf_pb_decode_double :: pb_decfn where
  "cf_pb_decode_double s field cell =
     do { (r, s) \<leftarrow> pb_decode_fixed64 s;
          Some (case r of Some v \<Rightarrow> (True, Some (W64 v), s) | None \<Rightarrow> (False, cell, s)) }"

definition cf_pb_encode_string :: pb_encfn where
  "cf_pb_encode_string s field cell =
     (case cell of
        Some (Str (Some str)) \<Rightarrow> pb_encode_string s (Some str) (length (takeWhile (\<lambda>b. b \<noteq> 0) str))
      | _ \<Rightarrow> None)"

definition cf_pb_decode_string :: "(nat \<Rightarrow> bool) \<Rightarrow> pb_decfn" where
  "cf_pb_decode_string mem s field cell =
     do { (r, s) \<leftarrow> pb_decode_varint s;
          (case r of
             None \<Rightarrow> Some (False, Some (Str None), s)
           | Some n \<Rightarrow>
               if n + 1 < n then Some (False, Some (Str None), s)
               else if \<not> mem (unat (n + 1)) then Some (False, Some (Str None), s)
               else do { (str, s) \<leftarrow> pb_read s (unat n);
                         Some (case str of None \<Rightarrow> (False, Some (Str None), s)
                                         | Some bs \<Rightarrow> (True, Some (Str (Some bs)), s)) }) }"

definition cf_pb_encode_bytes :: pb_encfn where
  "cf_pb_encode_bytes s field cell =
     (case cell of Some (Buf data n) \<Rightarrow> pb_encode_string s data n | _ \<Rightarrow> None)"

text \<open>
  The failure paths free the old block, when the cell holds one; through an uninitialised pointer
  that is undefined. The size member keeps its value.
\<close>

definition membuf_failed :: "pb_cell option \<Rightarrow> pb_cell option" where
  "membuf_failed cell = (case cell of Some (Buf data n) \<Rightarrow> Some (Buf None n) | _ \<Rightarrow> cell)"

definition cf_pb_decode_bytes :: "(nat \<Rightarrow> bool) \<Rightarrow> pb_decfn" where
  "cf_pb_decode_bytes mem s field cell =
     do { (r, s) \<leftarrow> pb_decode_varint s;
          if (case r of None \<Rightarrow> True | Some n \<Rightarrow> n > 64 * 1024)
          then (case cell of Some (Buf data n) \<Rightarrow> Some (False, membuf_failed cell, s) | _ \<Rightarrow> None)
          else
            (let n = unat (the r) in
             if \<not> mem n then Some (False, membuf_failed cell, s)
             else do { (bs, s) \<leftarrow> pb_read s n;
                       Some (case bs of None \<Rightarrow> (False, membuf_failed cell, s)
                                      | Some data \<Rightarrow> (True, Some (Buf (Some data) n), s)) }) }"

text \<open>
  Nested messages; \<open>enc\<close> and \<open>dec\<close> are the encoder and the decoder of a whole message. The encoder
  first counts, writes the size, and then writes through a stream limited to that size.
\<close>

definition cf_pb_encode_submessage ::
  "pb_tabs \<Rightarrow> (pb_ostream_t \<Rightarrow> cf_pb_field_t list \<Rightarrow> pb_msg \<Rightarrow> (bool \<times> pb_ostream_t) ub) \<Rightarrow> pb_encfn" where
  "cf_pb_encode_submessage tabs enc s field cell =
     (case fld_ptr field of
        None \<Rightarrow> Some (False, s)
      | Some p \<Rightarrow>
          (case cell of
             Some (Msg m) \<Rightarrow>
               do { (ok, sub) \<leftarrow> enc PB_OSTREAM_SIZING (tabs p) m;
                    if \<not> ok then Some (False, s)
                    else
                      (let n = os_bytes_written sub in
                       do { (ok, s) \<leftarrow> pb_encode_varint s (of_nat n);
                            if \<not> ok then Some (False, s)
                            else if \<not> os_callback s then pb_write s None n
                            else if os_bytes_written s + n > os_max_size s then Some (False, s)
                            else
                              do { (ok, sub) \<leftarrow> enc (s\<lparr>os_max_size := n, os_bytes_written := 0\<rparr>) (tabs p) m;
                                   let s = s\<lparr>os_bytes_written := os_bytes_written s + os_bytes_written sub, os_state := os_state sub\<rparr>;
                                   Some (ok \<and> os_bytes_written sub = n, s) } }) }
           | _ \<Rightarrow> None))"

text \<open>A structure that is not initialised has no initialised cell.\<close>

definition cf_pb_decode_submessage ::
  "pb_tabs \<Rightarrow> (pb_istream_t \<Rightarrow> cf_pb_field_t list \<Rightarrow> pb_msg \<Rightarrow> (bool \<times> pb_msg \<times> pb_istream_t) ub) \<Rightarrow> pb_decfn" where
  "cf_pb_decode_submessage tabs dec s field cell =
     (case fld_ptr field of
        None \<Rightarrow> Some (False, cell, s)
      | Some p \<Rightarrow>
          do { m \<leftarrow> (case cell of Some (Msg m) \<Rightarrow> Some m | None \<Rightarrow> Some Map.empty | _ \<Rightarrow> None);
               (r, s) \<leftarrow> pb_make_string_substream s;
               (case r of
                  None \<Rightarrow> Some (False, cell, s)
                | Some sub \<Rightarrow>
                    do { (ok, m, sub) \<leftarrow> dec sub (tabs p) m;
                         Some (ok, Some (Msg m), pb_close_string_substream s sub) }) })"

definition cf_pb_encfunc ::
  "pb_tabs \<Rightarrow> (pb_ostream_t \<Rightarrow> cf_pb_field_t list \<Rightarrow> pb_msg \<Rightarrow> (bool \<times> pb_ostream_t) ub) \<Rightarrow> cf_pb_field_t \<Rightarrow> pb_encfn option" where
  "cf_pb_encfunc tabs enc field =
     (case fld_pbtype field of
        CF_PB_INT32 \<Rightarrow> Some cf_pb_encode_int32
      | CF_PB_UINT32 \<Rightarrow> Some cf_pb_encode_uint32
      | CF_PB_INT64 \<Rightarrow> Some cf_pb_encode_int64
      | CF_PB_UINT64 \<Rightarrow> Some cf_pb_encode_uint64
      | CF_PB_FIXED32 \<Rightarrow> Some cf_pb_encode_fixed32
      | CF_PB_SFIXED32 \<Rightarrow> Some cf_pb_encode_fixed32
      | CF_PB_FIXED64 \<Rightarrow> Some cf_pb_encode_fixed64
      | CF_PB_SFIXED64 \<Rightarrow> Some cf_pb_encode_fixed64
      | CF_PB_BOOL \<Rightarrow> Some cf_pb_encode_bool
      | CF_PB_FLOAT \<Rightarrow> Some cf_pb_encode_float
      | CF_PB_DOUBLE \<Rightarrow> Some cf_pb_encode_double
      | CF_PB_STRING \<Rightarrow> Some cf_pb_encode_string
      | CF_PB_BYTES \<Rightarrow> Some cf_pb_encode_bytes
      | CF_PB_MESSAGE \<Rightarrow> Some (cf_pb_encode_submessage tabs enc)
      | CF_PB_OTHER_TYPE _ \<Rightarrow> None)"

definition cf_pb_decfunc ::
  "(nat \<Rightarrow> bool) \<Rightarrow> pb_tabs \<Rightarrow> (pb_istream_t \<Rightarrow> cf_pb_field_t list \<Rightarrow> pb_msg \<Rightarrow> (bool \<times> pb_msg \<times> pb_istream_t) ub) \<Rightarrow>
   cf_pb_field_t \<Rightarrow> pb_decfn option" where
  "cf_pb_decfunc mem tabs dec field =
     (case fld_pbtype field of
        CF_PB_INT32 \<Rightarrow> Some cf_pb_decode_int32
      | CF_PB_UINT32 \<Rightarrow> Some cf_pb_decode_uint32
      | CF_PB_INT64 \<Rightarrow> Some cf_pb_decode_int64
      | CF_PB_UINT64 \<Rightarrow> Some cf_pb_decode_uint64
      | CF_PB_FIXED32 \<Rightarrow> Some cf_pb_decode_fixed32
      | CF_PB_SFIXED32 \<Rightarrow> Some cf_pb_decode_fixed32
      | CF_PB_FIXED64 \<Rightarrow> Some cf_pb_decode_fixed64
      | CF_PB_SFIXED64 \<Rightarrow> Some cf_pb_decode_fixed64
      | CF_PB_BOOL \<Rightarrow> Some cf_pb_decode_bool
      | CF_PB_FLOAT \<Rightarrow> Some cf_pb_decode_float
      | CF_PB_DOUBLE \<Rightarrow> Some cf_pb_decode_double
      | CF_PB_STRING \<Rightarrow> Some (cf_pb_decode_string mem)
      | CF_PB_BYTES \<Rightarrow> Some (cf_pb_decode_bytes mem)
      | CF_PB_MESSAGE \<Rightarrow> Some (cf_pb_decode_submessage tabs dec)
      | CF_PB_OTHER_TYPE _ \<Rightarrow> None)"

section \<open>Fields\<close>

definition cf_pb_encode_scalar :: "pb_ostream_t \<Rightarrow> cf_pb_field_t \<Rightarrow> pb_cell option \<Rightarrow> pb_encfn \<Rightarrow> (bool \<times> pb_ostream_t) ub" where
  "cf_pb_encode_scalar s field cell func =
     do { (ok, s) \<leftarrow> pb_encode_tag s (cf_pb_wire_type (fld_pbtype field)) (fld_tag field);
          if \<not> ok then Some (False, s) else func s field cell }"

text \<open>The loops over the items: each with its tag, or packed.\<close>

fun encode_tagged :: "pb_ostream_t \<Rightarrow> cf_pb_field_t \<Rightarrow> pb_encfn \<Rightarrow> pb_cell list \<Rightarrow> (bool \<times> pb_ostream_t) ub" where
  "encode_tagged s field func [] = Some (True, s)"
| "encode_tagged s field func (x # xs) =
     do { (ok, s) \<leftarrow> cf_pb_encode_scalar s field (Some x) func;
          if \<not> ok then Some (False, s) else encode_tagged s field func xs }"

fun encode_packed :: "pb_ostream_t \<Rightarrow> cf_pb_field_t \<Rightarrow> pb_encfn \<Rightarrow> pb_cell list \<Rightarrow> (bool \<times> pb_ostream_t) ub" where
  "encode_packed s field func [] = Some (True, s)"
| "encode_packed s field func (x # xs) =
     do { (ok, s) \<leftarrow> func s field (Some x);
          if \<not> ok then Some (False, s) else encode_packed s field func xs }"

definition packed_size :: "cf_pb_field_t \<Rightarrow> pb_encfn \<Rightarrow> pb_cell list \<Rightarrow> nat option ub" where
  "packed_size field func items =
     (case cf_pb_wire_type (fld_pbtype field) of
        PB_WT_32BIT \<Rightarrow> Some (Some (4 * length items))
      | PB_WT_64BIT \<Rightarrow> Some (Some (8 * length items))
      | _ \<Rightarrow> do { (ok, sizestream) \<leftarrow> encode_packed PB_OSTREAM_SIZING field func items;
                   Some (if ok then Some (os_bytes_written sizestream) else None) })"

definition cf_pb_encode_array :: "pb_ostream_t \<Rightarrow> cf_pb_field_t \<Rightarrow> pb_cell option \<Rightarrow> pb_encfn \<Rightarrow> (bool \<times> pb_ostream_t) ub" where
  "cf_pb_encode_array s field cell func =
     (case cell of
        Some (Arr cap items) \<Rightarrow>
          if length items < 1 then Some (True, s)
          else if \<not> cf_pb_type_packable (fld_pbtype field) then encode_tagged s field func items
          else
            do { (ok, s) \<leftarrow> pb_encode_tag s PB_WT_STRING (fld_tag field);
                 if \<not> ok then Some (False, s)
                 else
                   do { n \<leftarrow> packed_size field func items;
                        (case n of
                           None \<Rightarrow> Some (False, s)
                         | Some n \<Rightarrow>
                             do { (ok, s) \<leftarrow> pb_encode_varint s (of_nat n);
                                  if \<not> ok then Some (False, s)
                                  else if \<not> os_callback s then pb_write s None n
                                  else encode_packed s field func items }) } }
      | _ \<Rightarrow> None)"

text \<open>
  \<open>ccarray_init\<close> and \<open>ccarray_realloc\<close> as the decoder uses them; a failed \<open>realloc\<close> leaves the capacity
  as it was and returns it. A failed \<open>ccarray_init\<close> leaves the array with a null block, which no
  operation may use: the cell counts as uninitialised.
\<close>

definition arr_realloc :: "(nat \<Rightarrow> bool) \<Rightarrow> nat \<Rightarrow> nat \<Rightarrow> nat \<Rightarrow> nat" where
  "arr_realloc mem item_size old new = (if mem (new * item_size) then new else old)"

text \<open>
  The loop of a packed array: the items and the stream when it ends. The item's slot must lie inside
  the array's block. Every reader of a packable type consumes input when it succeeds (see
  \<open>packable_consumes\<close> below), so that the last branch is not reached.
\<close>

function decode_packed ::
  "(nat \<Rightarrow> bool) \<Rightarrow> pb_decfn \<Rightarrow> cf_pb_field_t \<Rightarrow> pb_istream_t \<Rightarrow> nat \<Rightarrow> pb_cell list \<Rightarrow> (nat \<times> pb_cell list \<times> pb_istream_t) ub" where
  "decode_packed mem func field sub cap items =
     (if is_bytes_left sub = 0 then Some (cap, items, sub)
      else if cap \<le> length items then None
      else
        (case func sub field None of
           None \<Rightarrow> None
         | Some (ok, x, sub') \<Rightarrow>
             if \<not> ok then Some (cap, items, sub')
             else
               (let items' = items @ [the x];
                    isz = unat (fld_item_size field);
                    cap' = (if cap \<le> length items' then arr_realloc mem isz cap (cap + 2 * is_bytes_left sub' div isz + 1) else cap)
                in if cap \<le> length items' \<and> cap' = 0 then Some (cap', items', sub')
                   else if is_bytes_left sub' < is_bytes_left sub then decode_packed mem func field sub' cap' items'
                   else None)))"
  by auto
termination by (relation "measure (\<lambda>(mem, func, field, sub, cap, items). is_bytes_left sub)") auto

declare decode_packed.simps [simp del]

definition cf_pb_decode_array ::
  "(nat \<Rightarrow> bool) \<Rightarrow> pb_istream_t \<Rightarrow> cf_pb_field_t \<Rightarrow> pb_cell option \<Rightarrow> pb_wire_type_t \<Rightarrow> pb_decfn \<Rightarrow>
   (bool \<times> pb_cell option \<times> pb_istream_t) ub" where
  "cf_pb_decode_array mem s field cell wiretype func =
     (let isz = unat (fld_item_size field) in
      if wiretype = PB_WT_STRING \<and> cf_pb_type_packable (fld_pbtype field) then
        do { (r, s) \<leftarrow> pb_make_string_substream s;
             (case r of
                None \<Rightarrow> Some (False, cell, s)
              | Some sub \<Rightarrow>
                  if isz = 0 then None
                  else
                    (let cap = 2 * is_bytes_left sub div isz + 1 in
                     if \<not> mem (cap * isz) then Some (False, None, s)
                     else do { (cap, items, sub) \<leftarrow> decode_packed mem func field sub cap [];
                               let s = pb_close_string_substream s sub;
                               Some (is_bytes_left sub = 0, Some (Arr cap items), s) })) }
      else
        (case cell of
           Some (Arr cap items) \<Rightarrow>
             if cap = 0 \<and> \<not> mem (64 * isz) then Some (False, cell, s)
             else
               (let items = (if cap = 0 then [] else items);
                    cap = (if cap = 0 then 64 else cap);
                    cap' = (if cap \<le> length items then arr_realloc mem isz cap (cap + 64) else cap)
                in if cap \<le> length items \<and> cap' = 0 then Some (False, Some (Arr cap' items), s)
                   else if cap' \<le> length items then None
                   else do { (ok, x, s) \<leftarrow> func s field None;
                             Some (ok, Some (Arr cap' (if ok then items @ [the x] else items)), s) })
         | _ \<Rightarrow> None))"

definition cf_pb_encode_field ::
  "pb_tabs \<Rightarrow> (pb_ostream_t \<Rightarrow> cf_pb_field_t list \<Rightarrow> pb_msg \<Rightarrow> (bool \<times> pb_ostream_t) ub) \<Rightarrow>
   pb_ostream_t \<Rightarrow> cf_pb_field_t \<Rightarrow> pb_cell option \<Rightarrow> (bool \<times> pb_ostream_t) ub" where
  "cf_pb_encode_field tabs enc s field cell =
     (case cf_pb_encfunc tabs enc field of
        None \<Rightarrow> Some (False, s)
      | Some func \<Rightarrow>
          (case fld_alloctype field of
             CF_PB_SCALAR \<Rightarrow> cf_pb_encode_scalar s field cell func
           | CF_PB_ARRAY \<Rightarrow> cf_pb_encode_array s field cell func
           | CF_PB_ONEOF \<Rightarrow> cf_pb_encode_scalar s field cell func
           | CF_PB_OTHER_ALLOC _ \<Rightarrow> Some (False, s)))"

definition cf_pb_decode_field ::
  "(nat \<Rightarrow> bool) \<Rightarrow> pb_tabs \<Rightarrow> (pb_istream_t \<Rightarrow> cf_pb_field_t list \<Rightarrow> pb_msg \<Rightarrow> (bool \<times> pb_msg \<times> pb_istream_t) ub) \<Rightarrow>
   pb_istream_t \<Rightarrow> pb_wire_type_t \<Rightarrow> cf_pb_field_t \<Rightarrow> pb_cell option \<Rightarrow> (bool \<times> pb_cell option \<times> pb_istream_t) ub" where
  "cf_pb_decode_field mem tabs dec s wiretype field cell =
     (case cf_pb_decfunc mem tabs dec field of
        None \<Rightarrow> Some (False, cell, s)
      | Some func \<Rightarrow>
          (case fld_alloctype field of
             CF_PB_ARRAY \<Rightarrow> cf_pb_decode_array mem s field cell wiretype func
           | CF_PB_SCALAR \<Rightarrow>
               if wiretype \<noteq> cf_pb_wire_type (fld_pbtype field) then Some (False, cell, s) else func s field cell
           | CF_PB_ONEOF \<Rightarrow>
               if wiretype \<noteq> cf_pb_wire_type (fld_pbtype field) then Some (False, cell, s) else func s field cell
           | CF_PB_OTHER_ALLOC _ \<Rightarrow> Some (False, cell, s)))"

section \<open>Messages\<close>

fun encode_fields ::
  "(pb_ostream_t \<Rightarrow> cf_pb_field_t \<Rightarrow> pb_cell option \<Rightarrow> (bool \<times> pb_ostream_t) ub) \<Rightarrow> pb_ostream_t \<Rightarrow> cf_pb_field_t list \<Rightarrow>
   pb_msg \<Rightarrow> (bool \<times> pb_ostream_t) ub" where
  "encode_fields enc_field s [] msg = None"
| "encode_fields enc_field s (field # flds) msg =
     (if fld_tag field = 0 then Some (True, s)
      else
        do { has \<leftarrow> cf_pb_field_has_data field msg;
             (ok, s) \<leftarrow> (if has then enc_field s field (msg (fld_item_offset field)) else Some (True, s));
             if \<not> ok then Some (False, s) else encode_fields enc_field s flds msg })"

fun cf_pb_encode :: "nat \<Rightarrow> pb_tabs \<Rightarrow> pb_ostream_t \<Rightarrow> cf_pb_field_t list \<Rightarrow> pb_msg \<Rightarrow> (bool \<times> pb_ostream_t) ub" where
  "cf_pb_encode 0 tabs s flds msg = None"
| "cf_pb_encode (Suc d) tabs s flds msg =
     encode_fields (cf_pb_encode_field tabs (cf_pb_encode d tabs)) s flds msg"

definition set_has :: "cf_pb_field_t \<Rightarrow> pb_msg \<Rightarrow> pb_msg" where
  "set_has field msg =
     (if fld_alloctype field = CF_PB_ONEOF then msg(fld_has_offset field \<mapsto> W32 (fld_tag field))
      else if fld_has_offset field \<noteq> -1 then msg(fld_has_offset field \<mapsto> Flag True) else msg)"

text \<open>
  One round of the decoding loop after a tag was read: the message, the stream and whether decoding
  went well. The loop ends when the input is used up, when no tag can be read, or on failure. A tag
  takes at least one byte (see \<open>decode_tag_consumes\<close> below), which bounds the number of rounds.
\<close>

definition decode_one ::
  "(pb_istream_t \<Rightarrow> pb_wire_type_t \<Rightarrow> cf_pb_field_t \<Rightarrow> pb_cell option \<Rightarrow> (bool \<times> pb_cell option \<times> pb_istream_t) ub) \<Rightarrow>
   cf_pb_field_t list \<Rightarrow> pb_wire_type_t \<Rightarrow> u32 \<Rightarrow> pb_istream_t \<Rightarrow> pb_msg \<Rightarrow> (bool \<times> pb_msg \<times> pb_istream_t) ub" where
  "decode_one dec_field flds wiretype tag s msg =
     do { f \<leftarrow> cf_pb_find_tag flds tag;
          (case f of
             None \<Rightarrow> do { (ok, s) \<leftarrow> pb_skip_field s wiretype; Some (ok, msg, s) }
           | Some field \<Rightarrow>
               do { (ok, cell, s) \<leftarrow> dec_field s wiretype field (msg (fld_item_offset field));
                    let msg = msg(fld_item_offset field := cell);
                    Some (ok, if ok then set_has field msg else msg, s) }) }"

function decode_loop ::
  "(pb_istream_t \<Rightarrow> pb_wire_type_t \<Rightarrow> cf_pb_field_t \<Rightarrow> pb_cell option \<Rightarrow> (bool \<times> pb_cell option \<times> pb_istream_t) ub) \<Rightarrow>
   cf_pb_field_t list \<Rightarrow> pb_istream_t \<Rightarrow> pb_msg \<Rightarrow> (bool \<times> pb_msg \<times> pb_istream_t) ub" where
  "decode_loop dec_field flds s msg =
     (if is_bytes_left s = 0 then Some (True, msg, s)
      else
        (case pb_decode_tag s of
           None \<Rightarrow> None
         | Some (None, eof, s) \<Rightarrow> Some (True, msg, s)
         | Some (Some (wiretype, tag), eof, s1) \<Rightarrow>
             (case decode_one dec_field flds wiretype tag s1 msg of
                None \<Rightarrow> None
              | Some (ok, msg, s2) \<Rightarrow>
                  if \<not> ok then Some (False, msg, s2)
                  else if is_bytes_left s2 < is_bytes_left s then decode_loop dec_field flds s2 msg
                  else None)))"
  by auto
termination by (relation "measure (\<lambda>(dec_field, flds, s, msg). is_bytes_left s)") auto

declare decode_loop.simps [simp del]

fun cf_pb_decode ::
  "nat \<Rightarrow> (nat \<Rightarrow> bool) \<Rightarrow> pb_tabs \<Rightarrow> pb_istream_t \<Rightarrow> cf_pb_field_t list \<Rightarrow> pb_msg \<Rightarrow> (bool \<times> pb_msg \<times> pb_istream_t) ub" where
  "cf_pb_decode 0 mem tabs s flds msg = None"
| "cf_pb_decode (Suc d) mem tabs s flds msg =
     do { (ok, msg, s) \<leftarrow> decode_loop (cf_pb_decode_field mem tabs (cf_pb_decode d mem tabs)) flds s msg;
          Some (ok \<and> is_bytes_left s = 0, msg, s) }"

definition cf_pb_get_encoded_size :: "nat \<Rightarrow> pb_tabs \<Rightarrow> cf_pb_field_t list \<Rightarrow> pb_msg \<Rightarrow> nat option ub" where
  "cf_pb_get_encoded_size d tabs flds msg =
     do { (ok, s) \<leftarrow> cf_pb_encode d tabs PB_OSTREAM_SIZING flds msg;
          Some (if ok then Some (os_bytes_written s) else None) }"

text \<open>The returned size and the buffer, \<open>None\<close> for the null pointer.\<close>

definition cf_pb_pack :: "nat \<Rightarrow> (nat \<Rightarrow> bool) \<Rightarrow> pb_tabs \<Rightarrow> pb_msg \<Rightarrow> cf_pb_field_t list \<Rightarrow> (nat \<times> u8 list option) ub" where
  "cf_pb_pack d mem tabs message flds =
     do { n \<leftarrow> cf_pb_get_encoded_size d tabs flds message;
          (case n of
             None \<Rightarrow> Some (0, None)
           | Some n \<Rightarrow>
               if \<not> mem n then Some (0, None)
               else
                 do { (ok, stream) \<leftarrow> cf_pb_encode d tabs (pb_ostream_from_buffer n n) flds message;
                      let n = (if ok then os_bytes_written stream else 0);
                      Some (n, if n = 0 then None else Some (os_state stream)) }) }"

definition cf_pb_unpack ::
  "nat \<Rightarrow> (nat \<Rightarrow> bool) \<Rightarrow> pb_tabs \<Rightarrow> u8 list \<Rightarrow> nat \<Rightarrow> cf_pb_field_t list \<Rightarrow> pb_msg \<Rightarrow> (bool \<times> pb_msg) ub" where
  "cf_pb_unpack d mem tabs buf n flds message =
     do { (ok, message, s) \<leftarrow> cf_pb_decode d mem tabs (pb_istream_from_buffer buf n) flds message;
          Some (ok, message) }"

section \<open>Decoding arbitrary input\<close>

text \<open>
  What a decoder of one field guarantees: it is defined, and when it succeeds it has consumed input
  and left a cell that satisfies \<open>P\<close>.
\<close>

definition safe_dec :: "pb_istream_t \<Rightarrow> (pb_cell \<Rightarrow> bool) \<Rightarrow> (bool \<times> pb_cell option \<times> pb_istream_t) ub \<Rightarrow> bool" where
  "safe_dec s P r \<longleftrightarrow>
     (\<exists>ok c t. r = Some (ok, c, t) \<and>
        (ok \<longrightarrow> advances s t \<and> is_bytes_left t < is_bytes_left s \<and> (\<exists>x. c = Some x \<and> P x)))"

definition safe_msg ::
  "(pb_msg \<Rightarrow> bool) \<Rightarrow> (pb_istream_t \<Rightarrow> pb_msg \<Rightarrow> (bool \<times> pb_msg \<times> pb_istream_t) ub) \<Rightarrow> bool" where
  "safe_msg R dec \<longleftrightarrow>
     (\<forall>s m. is_ok s \<longrightarrow> R m \<longrightarrow>
        (\<exists>ok m' t. dec s m = Some (ok, m', t) \<and> (ok \<longrightarrow> advances s t \<and> is_bytes_left t = 0 \<and> R m')))"

lemma safe_dec_defined: "safe_dec s P r \<Longrightarrow> r \<noteq> None"
  by (auto simp: safe_dec_def)

lemma safe_dec_mono: "safe_dec s P r \<Longrightarrow> (\<And>x. P x \<Longrightarrow> Q x) \<Longrightarrow> safe_dec s Q r"
  unfolding safe_dec_def by blast

lemma safe_decE:
  assumes "safe_dec s P r"
  obtains ok c t where "r = Some (ok, c, t)"
    "ok \<Longrightarrow> advances s t \<and> is_bytes_left t < is_bytes_left s \<and> (\<exists>x. c = Some x \<and> P x)"
  using assms by (auto simp: safe_dec_def)

lemma safe_msgE:
  assumes "safe_msg R dec" "is_ok s" "R m"
  obtains ok m' t where "dec s m = Some (ok, m', t)" "ok \<Longrightarrow> advances s t \<and> is_bytes_left t = 0 \<and> R m'"
  using assms unfolding safe_msg_def by blast

text \<open>The scalar decoders share one shape: a reader, a test of its value, a cell.\<close>

lemma safe_dec_scalar:
  assumes "safe_read s r" "\<And>v t. f (Some v) t = (g v, if g v then Some (h v) else cell, t)" "\<And>t. f None t = (False, cell, t)"
    and "\<And>v. P (h v)"
  shows "safe_dec s P (do { (v, t) \<leftarrow> r; Some (f v t) })"
proof -
  from assms(1) obtain v t where "r = Some (v, t)" "advances s t" "v \<noteq> None \<Longrightarrow> is_bytes_left t < is_bytes_left s"
    by (rule safe_readE) blast
  with assms(2-4) show ?thesis by (cases v) (auto simp: safe_dec_def)
qed

lemma scalar_decoders_safe:
  assumes "is_ok s" "\<And>w. P (W32 w)" "\<And>w. P (W64 w)" "\<And>b. P (Flag b)"
  shows "safe_dec s P (cf_pb_decode_int32 s f cell)" "safe_dec s P (cf_pb_decode_uint32 s f cell)"
    "safe_dec s P (cf_pb_decode_int64 s f cell)" "safe_dec s P (cf_pb_decode_uint64 s f cell)"
    "safe_dec s P (cf_pb_decode_fixed32 s f cell)" "safe_dec s P (cf_pb_decode_fixed64 s f cell)"
    "safe_dec s P (cf_pb_decode_bool s f cell)" "safe_dec s P (cf_pb_decode_float s f cell)"
    "safe_dec s P (cf_pb_decode_double s f cell)"
proof -
  note rd = pb_decode_svarint_safe [OF assms(1)] pb_decode_varint_safe [OF assms(1)] pb_decode_fixed_safe [OF assms(1)]
  show "safe_dec s P (cf_pb_decode_int32 s f cell)"
    using rd(1) by (auto simp: cf_pb_decode_int32_def safe_dec_def safe_read_def assms split: option.split)
  show "safe_dec s P (cf_pb_decode_uint32 s f cell)"
    using rd(2) by (auto simp: cf_pb_decode_uint32_def safe_dec_def safe_read_def assms split: option.split)
  show "safe_dec s P (cf_pb_decode_int64 s f cell)"
    unfolding cf_pb_decode_int64_def
    by (rule safe_dec_scalar [OF rd(1), where g = "\<lambda>_. True" and h = W64 and cell = cell]) (simp_all add: assms)
  show "safe_dec s P (cf_pb_decode_uint64 s f cell)"
    unfolding cf_pb_decode_uint64_def
    by (rule safe_dec_scalar [OF rd(2), where g = "\<lambda>_. True" and h = W64 and cell = cell]) (simp_all add: assms)
  show "safe_dec s P (cf_pb_decode_fixed32 s f cell)" "safe_dec s P (cf_pb_decode_float s f cell)"
    unfolding cf_pb_decode_fixed32_def cf_pb_decode_float_def
    by (rule safe_dec_scalar [OF rd(3), where g = "\<lambda>_. True" and h = W32 and cell = cell]; simp add: assms)+
  show "safe_dec s P (cf_pb_decode_fixed64 s f cell)" "safe_dec s P (cf_pb_decode_double s f cell)"
    unfolding cf_pb_decode_fixed64_def cf_pb_decode_double_def
    by (rule safe_dec_scalar [OF rd(4), where g = "\<lambda>_. True" and h = W64 and cell = cell]; simp add: assms)+
  show "safe_dec s P (cf_pb_decode_bool s f cell)"
    unfolding cf_pb_decode_bool_def
    by (rule safe_dec_scalar [OF rd(2), where g = "\<lambda>_. True" and h = "\<lambda>v. Flag (v \<noteq> 0)" and cell = cell]) (simp_all add: assms)
qed

lemma decode_string_safe:
  assumes "is_ok s" "\<And>bs. P (Str bs)"
  shows "safe_dec s P (cf_pb_decode_string mem s f cell)"
proof -
  from pb_decode_varint_safe [OF assms(1)] obtain v t where
    b: "pb_decode_varint s = Some (v, t)" "advances s t" "v \<noteq> None \<Longrightarrow> is_bytes_left t < is_bytes_left s" by (rule safe_readE) blast
  show ?thesis
  proof (cases "\<exists>n. v = Some n \<and> \<not> n + 1 < n \<and> mem (unat (n + 1))")
    case False
    with b show ?thesis by (cases v) (auto simp: cf_pb_decode_string_def safe_dec_def)
  next
    case True
    then obtain n where n: "v = Some n" "\<not> n + 1 < n" "mem (unat (n + 1))" by blast
    from pb_read_safe [OF advances_ok [OF assms(1) b(2)], of "unat n"] obtain w u where
      "pb_read t (unat n) = Some (w, u)" "advances t u" by blast
    with b n advances_left [of t u] assms(2) show ?thesis
      by (cases w) (auto simp: cf_pb_decode_string_def safe_dec_def intro: advances_trans)
  qed
qed

lemma decode_bytes_safe:
  assumes "is_ok s" "\<And>d n. P (Buf d n)"
  shows "safe_dec s P (cf_pb_decode_bytes mem s f (Some (Buf d0 n0)))"
proof -
  from pb_decode_varint_safe [OF assms(1)] obtain v t where
    b: "pb_decode_varint s = Some (v, t)" "advances s t" "v \<noteq> None \<Longrightarrow> is_bytes_left t < is_bytes_left s" by (rule safe_readE) blast
  show ?thesis
  proof (cases "\<exists>n. v = Some n \<and> \<not> n > 64 * 1024 \<and> mem (unat n)")
    case False
    with b show ?thesis by (cases v) (auto simp: cf_pb_decode_bytes_def safe_dec_def membuf_failed_def)
  next
    case True
    then obtain n where n: "v = Some n" "\<not> n > 64 * 1024" "mem (unat n)" by blast
    from pb_read_safe [OF advances_ok [OF assms(1) b(2)], of "unat n"] obtain w u where
      "pb_read t (unat n) = Some (w, u)" "advances t u" by blast
    with b n advances_left [of t u] assms(2) show ?thesis
      by (cases w) (auto simp: cf_pb_decode_bytes_def safe_dec_def Let_def intro: advances_trans)
  qed
qed

lemma decode_submessage_safe:
  assumes "is_ok s" "\<And>p. fld_ptr f = Some p \<Longrightarrow> safe_msg R (\<lambda>s. dec s (tabs p))"
    and "cell = None \<and> R Map.empty \<or> (\<exists>m. cell = Some (Msg m) \<and> R m)" "\<And>m. R m \<Longrightarrow> P (Msg m)"
  shows "safe_dec s P (cf_pb_decode_submessage tabs dec s f cell)"
proof (cases "fld_ptr f")
  case None
  then show ?thesis by (auto simp: cf_pb_decode_submessage_def safe_dec_def)
next
  case (Some p)
  note dec = assms(2) [OF Some]
  from assms(3) obtain m where m: "(case cell of Some (Msg m) \<Rightarrow> Some m | None \<Rightarrow> Some Map.empty | _ \<Rightarrow> None) = Some m" "R m"
    by auto
  from pb_make_string_substream_safe [OF assms(1)] obtain r t where
    r: "pb_make_string_substream s = Some (r, t)"
      "\<And>sub sub'. r = Some sub \<Longrightarrow> is_ok sub" 
      "\<And>sub sub'. r = Some sub \<Longrightarrow> advances sub sub' \<Longrightarrow> is_bytes_left sub' = 0 \<Longrightarrow>
         advances s (pb_close_string_substream t sub') \<and> is_bytes_left (pb_close_string_substream t sub') < is_bytes_left s"
    by blast
  show ?thesis
  proof (cases r)
    case None
    with r Some m show ?thesis by (auto simp: cf_pb_decode_submessage_def safe_dec_def)
  next
    case sub: (Some sub)
    from dec r(2) [OF sub] m(2) obtain ok m' sub' where d: "dec sub (tabs p) m = Some (ok, m', sub')"
        "ok \<Longrightarrow> advances sub sub' \<and> is_bytes_left sub' = 0 \<and> R m'"
      by (rule safe_msgE) blast
    with r m Some sub assms(4) show ?thesis by (auto simp: cf_pb_decode_submessage_def safe_dec_def)
  qed
qed

text \<open>
  Fields whose cell is read before it is written: arrays, byte blocks and nested messages. Their cell
  must be initialised when decoding starts, and no other field may share it.
\<close>

definition stateful :: "cf_pb_field_t \<Rightarrow> bool" where
  "stateful f \<longleftrightarrow> fld_alloctype f = CF_PB_ARRAY \<or> fld_pbtype f = CF_PB_BYTES \<or> fld_pbtype f = CF_PB_MESSAGE"

definition sets_has :: "cf_pb_field_t \<Rightarrow> bool" where
  "sets_has f \<longleftrightarrow> fld_alloctype f = CF_PB_ONEOF \<or> fld_has_offset f \<noteq> -1"

abbreviation used_fields :: "cf_pb_field_t list \<Rightarrow> cf_pb_field_t list" where
  "used_fields flds \<equiv> takeWhile (\<lambda>f. fld_tag f \<noteq> 0) flds"

text \<open>
  \<open>table_ok d z tabs flds\<close>: a terminated table whose messages nest less than \<open>d\<close> deep. With \<open>z\<close> false
  the table is also fit for decoding into memory that is not initialised, as the items of an array of
  messages are.
\<close>

definition field_ok :: "(bool \<Rightarrow> cf_pb_field_t list \<Rightarrow> bool) \<Rightarrow> bool \<Rightarrow> pb_tabs \<Rightarrow> cf_pb_field_t list \<Rightarrow> cf_pb_field_t \<Rightarrow> bool" where
  "field_ok sub z tabs flds f \<longleftrightarrow>
     (fld_alloctype f = CF_PB_ARRAY \<longrightarrow> z \<and> fld_item_size f \<noteq> 0 \<and> fld_pbtype f \<noteq> CF_PB_BYTES) \<and>
     (fld_pbtype f = CF_PB_BYTES \<longrightarrow> z) \<and>
     (\<forall>p. fld_pbtype f = CF_PB_MESSAGE \<and> fld_ptr f = Some p \<longrightarrow> sub (z \<and> fld_alloctype f \<noteq> CF_PB_ARRAY) (tabs p)) \<and>
     (stateful f \<longrightarrow>
        (\<forall>g \<in> set (used_fields flds). (g \<noteq> f \<longrightarrow> fld_item_offset g \<noteq> fld_item_offset f) \<and>
           (sets_has g \<longrightarrow> fld_has_offset g \<noteq> fld_item_offset f)))"

fun table_ok :: "nat \<Rightarrow> bool \<Rightarrow> pb_tabs \<Rightarrow> cf_pb_field_t list \<Rightarrow> bool" where
  "table_ok 0 z tabs flds = False"
| "table_ok (Suc d) z tabs flds \<longleftrightarrow>
     list_ex (\<lambda>f. fld_tag f = 0) flds \<and>
     (\<forall>f \<in> set (used_fields flds). field_ok (\<lambda>z. table_ok d z tabs) z tabs flds f)"

definition cell_ready :: "(cf_pb_field_t list \<Rightarrow> pb_msg \<Rightarrow> bool) \<Rightarrow> bool \<Rightarrow> pb_tabs \<Rightarrow> cf_pb_field_t \<Rightarrow> pb_cell option \<Rightarrow> bool" where
  "cell_ready sub z tabs f cell \<longleftrightarrow>
     (if fld_alloctype f = CF_PB_ARRAY then \<exists>cap items. cell = Some (Arr cap items) \<and> length items \<le> cap
      else if fld_pbtype f = CF_PB_BYTES then \<exists>data n. cell = Some (Buf data n)
      else if fld_pbtype f = CF_PB_MESSAGE
      then cell = None \<and> \<not> z \<or> (\<exists>m. cell = Some (Msg m) \<and> (\<forall>p. fld_ptr f = Some p \<longrightarrow> sub (tabs p) m))
      else True)"

fun msg_ready :: "nat \<Rightarrow> bool \<Rightarrow> pb_tabs \<Rightarrow> cf_pb_field_t list \<Rightarrow> pb_msg \<Rightarrow> bool" where
  "msg_ready 0 z tabs flds msg = False"
| "msg_ready (Suc d) z tabs flds msg \<longleftrightarrow>
     (\<forall>f \<in> set (used_fields flds). cell_ready (msg_ready d z tabs) z tabs f (msg (fld_item_offset f)))"

text \<open>Memory that is not initialised is ready for a table that admits it.\<close>

lemma msg_ready_uninit: "table_ok d False tabs flds \<Longrightarrow> msg_ready d False tabs flds Map.empty"
  by (cases d) (auto simp: field_ok_def cell_ready_def)

lemma decfunc_safe:
  assumes func: "cf_pb_decfunc mem tabs dec f = Some func" and s: "is_ok s"
    and bytes: "fld_pbtype f = CF_PB_BYTES \<Longrightarrow> \<exists>data n. cell = Some (Buf data n)"
    and sub: "\<And>p. fld_pbtype f = CF_PB_MESSAGE \<Longrightarrow> fld_ptr f = Some p \<Longrightarrow> safe_msg (R p) (\<lambda>s. dec s (tabs p))"
    and msg: "fld_pbtype f = CF_PB_MESSAGE \<Longrightarrow>
      cell = None \<and> (\<forall>p. fld_ptr f = Some p \<longrightarrow> R p Map.empty) \<or> (\<exists>m. cell = Some (Msg m) \<and> (\<forall>p. fld_ptr f = Some p \<longrightarrow> R p m))"
  shows "safe_dec s (\<lambda>x. (fld_pbtype f = CF_PB_BYTES \<longrightarrow> (\<exists>data n. x = Buf data n)) \<and>
      (fld_pbtype f = CF_PB_MESSAGE \<longrightarrow> (\<exists>m. x = Msg m \<and> (\<forall>p. fld_ptr f = Some p \<longrightarrow> R p m)))) (func s f cell)"
    (is "safe_dec s ?P _")
proof (cases "fld_pbtype f = CF_PB_MESSAGE")
  case True
  then have func': "func = cf_pb_decode_submessage tabs dec" using func by (simp add: cf_pb_decfunc_def)
  let ?R = "\<lambda>m. \<forall>p. fld_ptr f = Some p \<longrightarrow> R p m"
  have "safe_msg ?R (\<lambda>s. dec s (tabs p))" if "fld_ptr f = Some p" for p
    using sub [OF True that] that by (simp add: safe_msg_def)
  with msg [OF True] True show ?thesis
    unfolding func' by (intro decode_submessage_safe [OF s, where R = ?R]) auto
next
  case False
  show ?thesis
  proof (cases "fld_pbtype f = CF_PB_BYTES")
    case True
    with bytes obtain d n where c: "cell = Some (Buf d n)" by blast
    from True func have "func = cf_pb_decode_bytes mem" by (simp add: cf_pb_decfunc_def)
    with True c show ?thesis by (auto intro!: decode_bytes_safe [OF s])
  next
    case nb: False
    have P: "?P x" for x using False nb by simp
    from func False nb show ?thesis
      by (auto simp: cf_pb_decfunc_def split: cf_pb_field_type.splits
          intro!: scalar_decoders_safe decode_string_safe s P [simplified] simp: False nb)
  qed
qed

text \<open>A decoder of a packable type only advances, also when it fails.\<close>

lemma scalar_decoders_advance:
  assumes "is_ok s"
  shows "cf_pb_decode_int32 s f cell = Some (ok, c, t) \<Longrightarrow> advances s t"
    "cf_pb_decode_uint32 s f cell = Some (ok, c, t) \<Longrightarrow> advances s t"
    "cf_pb_decode_int64 s f cell = Some (ok, c, t) \<Longrightarrow> advances s t"
    "cf_pb_decode_uint64 s f cell = Some (ok, c, t) \<Longrightarrow> advances s t"
    "cf_pb_decode_fixed32 s f cell = Some (ok, c, t) \<Longrightarrow> advances s t"
    "cf_pb_decode_fixed64 s f cell = Some (ok, c, t) \<Longrightarrow> advances s t"
proof -
  note rd = pb_decode_svarint_safe [OF assms] pb_decode_varint_safe [OF assms] pb_decode_fixed_safe [OF assms]
  show "cf_pb_decode_int32 s f cell = Some (ok, c, t) \<Longrightarrow> advances s t"
    using rd(1) by (auto simp: safe_read_def cf_pb_decode_int32_def split: option.splits if_splits)
  show "cf_pb_decode_uint32 s f cell = Some (ok, c, t) \<Longrightarrow> advances s t"
    using rd(2) by (auto simp: safe_read_def cf_pb_decode_uint32_def split: option.splits if_splits)
  show "cf_pb_decode_int64 s f cell = Some (ok, c, t) \<Longrightarrow> advances s t"
    using rd(1) by (auto simp: safe_read_def cf_pb_decode_int64_def split: option.splits)
  show "cf_pb_decode_uint64 s f cell = Some (ok, c, t) \<Longrightarrow> advances s t"
    using rd(2) by (auto simp: safe_read_def cf_pb_decode_uint64_def split: option.splits)
  show "cf_pb_decode_fixed32 s f cell = Some (ok, c, t) \<Longrightarrow> advances s t"
    using rd(3) by (auto simp: safe_read_def cf_pb_decode_fixed32_def split: option.splits)
  show "cf_pb_decode_fixed64 s f cell = Some (ok, c, t) \<Longrightarrow> advances s t"
    using rd(4) by (auto simp: safe_read_def cf_pb_decode_fixed64_def split: option.splits)
qed

lemma packable_consumes:
  assumes "cf_pb_decfunc mem tabs dec f = Some func" "cf_pb_type_packable (fld_pbtype f)" "is_ok s"
  shows "safe_dec s (\<lambda>_. True) (func s f cell)" "func s f cell = Some (ok, c, t) \<Longrightarrow> advances s t"
proof -
  from assms(1,2) have func: "func \<in> {cf_pb_decode_int32, cf_pb_decode_uint32, cf_pb_decode_int64,
      cf_pb_decode_uint64, cf_pb_decode_fixed32, cf_pb_decode_fixed64}"
    by (auto simp: cf_pb_decfunc_def cf_pb_type_packable_def)
  show "safe_dec s (\<lambda>_. True) (func s f cell)"
    using func by (auto simp: scalar_decoders_safe [OF assms(3)])
  show "func s f cell = Some (ok, c, t) \<Longrightarrow> advances s t"
    using func scalar_decoders_advance [OF assms(3), of f cell ok c t] by (elim insertE; simp)
qed

lemma decode_packed_safe:
  assumes "\<And>s. is_ok s \<Longrightarrow> safe_dec s (\<lambda>_. True) (func s f None)"
    and "\<And>s ok c t. is_ok s \<Longrightarrow> func s f None = Some (ok, c, t) \<Longrightarrow> advances s t"
    and "\<forall>n. mem n" "is_ok sub" "length items < cap"
  shows "\<exists>cap' items' sub'. decode_packed mem func f sub cap items = Some (cap', items', sub') \<and>
    advances sub sub' \<and> length items' \<le> cap'"
  using assms
proof (induction mem func f sub cap items rule: decode_packed.induct)
  case (1 mem func f sub cap items)
  from "1.prems"(1) [OF "1.prems"(4)] obtain ok c t where
    d: "func sub f None = Some (ok, c, t)" "ok \<Longrightarrow> is_bytes_left t < is_bytes_left sub" by (rule safe_decE) blast
  note adv = "1.prems"(2) [OF "1.prems"(4) d(1)]
  show ?case
  proof (cases "is_bytes_left sub = 0 \<or> \<not> ok")
    case True
    with d adv "1.prems"(5) show ?thesis by (auto simp: decode_packed.simps [of mem func f sub])
  next
    case False
    then have left: "is_bytes_left sub \<noteq> 0" and ok: "ok" by auto
    let ?items = "items @ [the c]" and ?isz = "unat (fld_item_size f)"
    let ?cap = "if cap \<le> length ?items then arr_realloc mem ?isz cap (cap + 2 * is_bytes_left t div ?isz + 1) else cap"
    have room: "length ?items < ?cap" using "1.prems"(3,5) by (auto simp: arr_realloc_def)
    then have nz: "\<not> (cap \<le> length ?items \<and> ?cap = 0)" by simp
    have cap: "\<not> cap \<le> length items" using "1.prems"(5) by simp
    have "\<exists>cap' items' sub'. decode_packed mem func f t ?cap ?items = Some (cap', items', sub') \<and>
        advances t sub' \<and> length items' \<le> cap'"
      by (rule "1.IH" [OF left cap d(1) refl refl _ refl refl refl nz d(2) [OF ok] "1.prems"(1,2,3)
            advances_ok [OF "1.prems"(4) adv] room]) (use ok in auto)
    moreover have "decode_packed mem func f sub cap items = decode_packed mem func f t ?cap ?items"
      using left cap d ok nz by (auto simp: decode_packed.simps [of mem func f sub] Let_def simp del: length_append)
    ultimately show ?thesis using adv by (auto intro: advances_trans)
  qed
qed

lemma decode_array_safe:
  assumes func: "cf_pb_decfunc mem tabs dec f = Some func" and s: "is_ok s" and mem: "\<forall>n. mem n"
    and f: "fld_item_size f \<noteq> 0" and items: "length items \<le> cap"
    and one: "\<And>s. is_ok s \<Longrightarrow> safe_dec s (\<lambda>_. True) (func s f None)"
  shows "safe_dec s (\<lambda>x. \<exists>cap items. x = Arr cap items \<and> length items \<le> cap)
    (cf_pb_decode_array mem s f (Some (Arr cap items)) wt func)"
proof (cases "wt = PB_WT_STRING \<and> cf_pb_type_packable (fld_pbtype f)")
  case True
  from pb_make_string_substream_safe [OF s] obtain r t where
    r: "pb_make_string_substream s = Some (r, t)"
      "\<And>sub sub'. r = Some sub \<Longrightarrow> is_ok sub"
      "\<And>sub sub'. r = Some sub \<Longrightarrow> advances sub sub' \<Longrightarrow> is_bytes_left sub' = 0 \<Longrightarrow>
         advances s (pb_close_string_substream t sub') \<and> is_bytes_left (pb_close_string_substream t sub') < is_bytes_left s"
    by blast
  show ?thesis
  proof (cases r)
    case None
    with r True show ?thesis by (auto simp: cf_pb_decode_array_def safe_dec_def)
  next
    case (Some sub)
    note pk = packable_consumes [OF func conjunct2 [OF True]]
    let ?cap = "2 * is_bytes_left sub div unat (fld_item_size f) + 1"
    have "\<exists>cap' items' sub'. decode_packed mem func f sub ?cap [] = Some (cap', items', sub') \<and> advances sub sub' \<and> length items' \<le> cap'"
      by (rule decode_packed_safe [where func = func and f = f]) (use pk mem r(2) [OF Some] in auto)
    then obtain cap' items' sub' where d: "decode_packed mem func f sub ?cap [] = Some (cap', items', sub')"
      "advances sub sub'" "length items' \<le> cap'" by blast
    have "unat (fld_item_size f) \<noteq> 0" using f by (simp add: unat_eq_0)
    with r(1) Some True d mem r(3) [OF Some d(2)] show ?thesis
      by (auto simp: cf_pb_decode_array_def safe_dec_def Let_def)
  qed
next
  case False
  let ?items = "if cap = 0 then [] else items" and ?cap = "if cap = 0 then 64 else cap"
  let ?cap' = "if ?cap \<le> length ?items then arr_realloc mem (unat (fld_item_size f)) ?cap (?cap + 64) else ?cap"
  have room: "length ?items < ?cap'" using items mem by (auto simp: arr_realloc_def)
  from one [OF s] obtain ok c t where d: "func s f None = Some (ok, c, t)"
    "ok \<Longrightarrow> advances s t \<and> is_bytes_left t < is_bytes_left s" by (rule safe_decE) blast
  have "cf_pb_decode_array mem s f (Some (Arr cap items)) wt func =
      Some (ok, Some (Arr ?cap' (if ok then ?items @ [the c] else ?items)), t)"
    using False mem d(1) room unfolding cf_pb_decode_array_def Let_def by (auto simp: arr_realloc_def)
  with d room show ?thesis by (auto simp: safe_dec_def)
qed

lemma decode_field_safe:
  assumes f: "field_ok (\<lambda>z. table_ok d z tabs) z tabs flds f" and s: "is_ok s" and mem: "\<forall>n. mem n"
    and cell: "cell_ready (msg_ready d z tabs) z tabs f cell"
    and sub: "\<forall>z flds. table_ok d z tabs flds \<longrightarrow> safe_msg (msg_ready d z tabs flds) (\<lambda>s. dec s flds)"
  shows "safe_dec s (\<lambda>x. cell_ready (msg_ready d z tabs) z tabs f (Some x)) (cf_pb_decode_field mem tabs dec s wt f cell)"
proof (cases "cf_pb_decfunc mem tabs dec f")
  case None
  then show ?thesis by (auto simp: cf_pb_decode_field_def safe_dec_def)
next
  case (Some func)
  let ?arr = "fld_alloctype f = CF_PB_ARRAY"
  let ?R = "\<lambda>p. msg_ready d (z \<and> \<not> ?arr) tabs (tabs p)"
  have tab: "fld_pbtype f = CF_PB_MESSAGE \<Longrightarrow> fld_ptr f = Some p \<Longrightarrow> table_ok d (z \<and> \<not> ?arr) tabs (tabs p)" for p
    using f by (auto simp: field_ok_def)
  have msgs: "fld_pbtype f = CF_PB_MESSAGE \<Longrightarrow> fld_ptr f = Some p \<Longrightarrow> safe_msg (?R p) (\<lambda>s. dec s (tabs p))" for p
    using tab sub by blast
  show ?thesis
  proof (cases ?arr)
    case True
    from True cell obtain cap items where c: "cell = Some (Arr cap items)" "length items \<le> cap" by (auto simp: cell_ready_def)
    have f': "fld_item_size f \<noteq> 0" "fld_pbtype f \<noteq> CF_PB_BYTES" using f True by (auto simp: field_ok_def)
    have one: "safe_dec s (\<lambda>_. True) (func s f None)" if "is_ok s" for s
    proof -
      have "fld_ptr f = Some p \<Longrightarrow> fld_pbtype f = CF_PB_MESSAGE \<Longrightarrow> ?R p Map.empty" for p
        using tab [of p] True msg_ready_uninit by auto
      then have "safe_dec s (\<lambda>x. (fld_pbtype f = CF_PB_BYTES \<longrightarrow> (\<exists>data n. x = Buf data n)) \<and>
          (fld_pbtype f = CF_PB_MESSAGE \<longrightarrow> (\<exists>m. x = Msg m \<and> (\<forall>p. fld_ptr f = Some p \<longrightarrow> ?R p m)))) (func s f None)"
        using f'(2) msgs by (intro decfunc_safe [OF Some that]) auto
      then show ?thesis by (rule safe_dec_mono) simp
    qed
    have "safe_dec s (\<lambda>x. \<exists>cap items. x = Arr cap items \<and> length items \<le> cap) (cf_pb_decode_array mem s f (Some (Arr cap items)) wt func)"
      by (rule decode_array_safe [OF Some s mem f'(1) c(2) one])
    with True Some c show ?thesis by (simp add: cf_pb_decode_field_def cell_ready_def)
  next
    case False
    have "safe_dec s (\<lambda>x. (fld_pbtype f = CF_PB_BYTES \<longrightarrow> (\<exists>data n. x = Buf data n)) \<and>
        (fld_pbtype f = CF_PB_MESSAGE \<longrightarrow> (\<exists>m. x = Msg m \<and> (\<forall>p. fld_ptr f = Some p \<longrightarrow> ?R p m)))) (func s f cell)"
    proof (rule decfunc_safe [OF Some s _ msgs])
      show "fld_pbtype f = CF_PB_BYTES \<Longrightarrow> \<exists>data n. cell = Some (Buf data n)" using cell False by (simp add: cell_ready_def)
      show "fld_pbtype f = CF_PB_MESSAGE \<Longrightarrow> cell = None \<and> (\<forall>p. fld_ptr f = Some p \<longrightarrow> ?R p Map.empty) \<or>
          (\<exists>m. cell = Some (Msg m) \<and> (\<forall>p. fld_ptr f = Some p \<longrightarrow> ?R p m))"
        using cell False tab msg_ready_uninit [of d tabs] by (auto simp: cell_ready_def)
    qed
    then have "safe_dec s (\<lambda>x. cell_ready (msg_ready d z tabs) z tabs f (Some x)) (func s f cell)"
      by (rule safe_dec_mono) (use False in \<open>auto simp: cell_ready_def\<close>)
    with Some False show ?thesis
      by (cases "fld_alloctype f") (auto simp: cf_pb_decode_field_def safe_dec_def)
  qed
qed

lemma find_tag_defined:
  assumes "list_ex (\<lambda>f. fld_tag f = 0) flds"
  shows "\<exists>r. cf_pb_find_tag flds tag = Some r \<and> (\<forall>f. r = Some f \<longrightarrow> f \<in> set (used_fields flds) \<and> fld_tag f = tag)"
  using assms by (induction flds) auto

lemma set_has_other: "(sets_has f \<Longrightarrow> fld_has_offset f \<noteq> a) \<Longrightarrow> set_has f msg a = msg a"
  by (auto simp: set_has_def sets_has_def)

lemma cell_ready_plain: "\<not> stateful f \<Longrightarrow> cell_ready sub z tabs f cell"
  by (simp add: cell_ready_def stateful_def)

text \<open>Storing one field's cell and flag leaves the cells the other fields need.\<close>

lemma msg_ready_store:
  assumes "table_ok (Suc d) z tabs flds" "msg_ready (Suc d) z tabs flds msg" "f \<in> set (used_fields flds)"
    and "cell_ready (msg_ready d z tabs) z tabs f (Some x)"
  shows "msg_ready (Suc d) z tabs flds (set_has f (msg(fld_item_offset f := Some x)))"
  unfolding msg_ready.simps
proof
  fix g assume g: "g \<in> set (used_fields flds)"
  show "cell_ready (msg_ready d z tabs) z tabs g (set_has f (msg(fld_item_offset f := Some x)) (fld_item_offset g))"
  proof (cases "stateful g")
    case True
    with assms(1) g have "field_ok (\<lambda>z. table_ok d z tabs) z tabs flds g" by simp
    with True assms(3) have sep: "f \<noteq> g \<Longrightarrow> fld_item_offset f \<noteq> fld_item_offset g" "sets_has f \<Longrightarrow> fld_has_offset f \<noteq> fld_item_offset g"
      by (auto simp: field_ok_def)
    then show ?thesis
      using assms(2,4) g by (cases "f = g") (auto simp: set_has_other)
  qed (simp add: cell_ready_plain)
qed

lemma decode_one_safe:
  assumes "table_ok (Suc d) z tabs flds" "msg_ready (Suc d) z tabs flds msg" "is_ok s" "\<forall>n. mem n"
    and "\<forall>z flds. table_ok d z tabs flds \<longrightarrow> safe_msg (msg_ready d z tabs flds) (\<lambda>s. dec s flds)"
  shows "\<exists>ok msg' t. decode_one (cf_pb_decode_field mem tabs dec) flds wt tag s msg = Some (ok, msg', t) \<and>
    (ok \<longrightarrow> advances s t \<and> msg_ready (Suc d) z tabs flds msg')"
proof -
  from find_tag_defined [of flds tag] assms(1) obtain r where
    r: "cf_pb_find_tag flds tag = Some r" "\<And>f. r = Some f \<Longrightarrow> f \<in> set (used_fields flds)" by auto
  show ?thesis
  proof (cases r)
    case None
    from pb_skip_field_safe [OF assms(3), of wt] obtain ok t where "pb_skip_field s wt = Some (ok, t)" "advances s t" by blast
    with None r(1) assms(2) show ?thesis by (auto simp: decode_one_def)
  next
    case (Some f)
    note f = r(2) [OF Some]
    have fok: "field_ok (\<lambda>z. table_ok d z tabs) z tabs flds f" and cell: "cell_ready (msg_ready d z tabs) z tabs f (msg (fld_item_offset f))"
      using assms(1,2) f by auto
    from decode_field_safe [OF fok assms(3,4) cell assms(5), of wt] obtain ok c t where
      d: "cf_pb_decode_field mem tabs dec s wt f (msg (fld_item_offset f)) = Some (ok, c, t)"
        "ok \<Longrightarrow> advances s t \<and> is_bytes_left t < is_bytes_left s \<and> (\<exists>x. c = Some x \<and> cell_ready (msg_ready d z tabs) z tabs f (Some x))"
      by (rule safe_decE) blast
    show ?thesis
    proof (cases ok)
      case True
      with d(2) obtain x where x: "c = Some x" "advances s t" "cell_ready (msg_ready d z tabs) z tabs f (Some x)" by blast
      from msg_ready_store [OF assms(1,2) f x(3)] x d(1) r(1) Some True show ?thesis
        by (auto simp: decode_one_def Let_def simp del: msg_ready.simps)
    next
      case False
      with d(1) r(1) Some show ?thesis by (auto simp: decode_one_def Let_def)
    qed
  qed
qed

lemma decode_loop_safe:
  assumes "table_ok (Suc d) z tabs flds" "\<forall>n. mem n"
    and "\<forall>z flds. table_ok d z tabs flds \<longrightarrow> safe_msg (msg_ready d z tabs flds) (\<lambda>s. dec s flds)"
    and "is_ok s" "msg_ready (Suc d) z tabs flds msg"
  shows "\<exists>ok msg' t. decode_loop (cf_pb_decode_field mem tabs dec) flds s msg = Some (ok, msg', t) \<and>
    (ok \<longrightarrow> advances s t \<and> msg_ready (Suc d) z tabs flds msg')"
  using assms(4,5)
proof (induction "is_bytes_left s" arbitrary: s msg rule: less_induct)
  case less
  let ?df = "cf_pb_decode_field mem tabs dec"
  from pb_decode_tag_safe [OF less(2)] obtain v eof t where
    t: "pb_decode_tag s = Some (v, eof, t)" "advances s t" "v \<noteq> None \<Longrightarrow> is_bytes_left t < is_bytes_left s" by blast
  show ?case
  proof (cases "is_bytes_left s = 0 \<or> v = None")
    case True
    with t less(3) show ?thesis by (auto simp: decode_loop.simps [of ?df flds s])
  next
    case False
    then obtain wt tag where v: "v = Some (wt, tag)" "is_bytes_left s \<noteq> 0" by auto
    from decode_one_safe [OF assms(1) less(3) advances_ok [OF less(2) t(2)] assms(2,3), of wt tag] obtain ok msg' u where
      u: "decode_one ?df flds wt tag t msg = Some (ok, msg', u)" "ok \<longrightarrow> advances t u \<and> msg_ready (Suc d) z tabs flds msg'" by blast
    show ?thesis
    proof (cases ok)
      case False
      with t u v show ?thesis by (auto simp: decode_loop.simps [of ?df flds s])
    next
      case True
      with u have "advances t u" and ready: "msg_ready (Suc d) z tabs flds msg'" by auto
      with t v have lt: "is_bytes_left u < is_bytes_left s" and adv: "advances s u"
        using advances_left [of t u] by (auto intro: advances_trans)
      from less(1) [OF lt advances_ok [OF less(2) adv] ready] obtain ok' msg'' w where
        w: "decode_loop ?df flds u msg' = Some (ok', msg'', w)" "ok' \<longrightarrow> advances u w \<and> msg_ready (Suc d) z tabs flds msg''" by blast
      with t u v True lt adv show ?thesis
        by (auto simp: decode_loop.simps [of ?df flds s] intro: advances_trans)
    qed
  qed
qed

lemma cf_pb_decode_safe:
  assumes "\<forall>n. mem n"
  shows "table_ok d z tabs flds \<Longrightarrow> safe_msg (msg_ready d z tabs flds) (\<lambda>s. cf_pb_decode d mem tabs s flds)"
proof (induction d arbitrary: z flds)
  case (Suc d)
  show ?case
    unfolding safe_msg_def
  proof (intro allI impI)
    fix s m assume "is_ok s" "msg_ready (Suc d) z tabs flds m"
    with decode_loop_safe [OF Suc(2) assms, of "cf_pb_decode d mem tabs" s m] Suc(1) obtain ok m' t where
      "decode_loop (cf_pb_decode_field mem tabs (cf_pb_decode d mem tabs)) flds s m = Some (ok, m', t)"
      "ok \<longrightarrow> advances s t \<and> msg_ready (Suc d) z tabs flds m'" by blast
    then show "\<exists>ok m' t. cf_pb_decode (Suc d) mem tabs s flds m = Some (ok, m', t) \<and>
        (ok \<longrightarrow> advances s t \<and> is_bytes_left t = 0 \<and> msg_ready (Suc d) z tabs flds m')" by auto
  qed
qed simp


text \<open>
  An example program with two tables: a point (a required number, an optional text) and a shape (a
  signed number, a nested point, a packed array, a list of texts, a choice of two members).
\<close>

definition example_field :: "u32 \<Rightarrow> cf_pb_field_type \<Rightarrow> cf_pb_field_alloc_type \<Rightarrow> u16 \<Rightarrow> u16 \<Rightarrow> u16 \<Rightarrow> nat option \<Rightarrow> cf_pb_field_t" where
  "example_field tag ty alloc sz off has p =
     \<lparr>fld_tag = tag, fld_pbtype = ty, fld_alloctype = alloc, fld_item_size = sz, fld_item_offset = off, fld_has_offset = has, fld_ptr = p\<rparr>"

definition example_point :: "cf_pb_field_t list" where
  "example_point =
     [example_field 1 CF_PB_UINT32 CF_PB_SCALAR 4 0 (-1) None, example_field 2 CF_PB_STRING CF_PB_SCALAR 8 8 16 None,
      example_field 0 (CF_PB_OTHER_TYPE 0) CF_PB_SCALAR 0 0 0 None]"

definition example_shape :: "cf_pb_field_t list" where
  "example_shape =
     [example_field 1 CF_PB_INT32 CF_PB_SCALAR 4 0 (-1) None, example_field 2 CF_PB_MESSAGE CF_PB_SCALAR 24 8 4 (Some 0),
      example_field 3 CF_PB_UINT32 CF_PB_ARRAY 4 32 (-1) None, example_field 4 CF_PB_STRING CF_PB_ARRAY 8 64 (-1) None,
      example_field 5 CF_PB_BOOL CF_PB_ONEOF 1 104 96 None, example_field 6 CF_PB_DOUBLE CF_PB_ONEOF 8 104 96 None,
      example_field 0 (CF_PB_OTHER_TYPE 0) CF_PB_SCALAR 0 0 0 None]"

definition example_tabs :: pb_tabs where
  "example_tabs p = (if p = 0 then example_point else [])"

definition example_blank :: pb_msg where
  "example_blank =
     [0 \<mapsto> W32 0, 4 \<mapsto> Flag False, 8 \<mapsto> Msg [0 \<mapsto> W32 0, 8 \<mapsto> Str None, 16 \<mapsto> Flag False],
      32 \<mapsto> Arr 0 [], 64 \<mapsto> Arr 0 [], 96 \<mapsto> W32 0, 104 \<mapsto> W64 0]"

lemma example_table_ok: "table_ok (Suc (Suc 0)) True example_tabs example_shape"
  by (simp add: example_shape_def example_point_def example_tabs_def example_field_def
      field_ok_def stateful_def sets_has_def)

lemma example_blank_ready: "msg_ready (Suc (Suc 0)) True example_tabs example_shape example_blank"
  by (simp add: example_shape_def example_point_def example_tabs_def example_field_def
      cell_ready_def example_blank_def)


end
