(* ===== verification/Cuttle_Pb_Roundtrip.thy ===== *)
theory Cuttle_Pb_Roundtrip
  imports Cuttle_Pb
begin

text \<open>
  Packing and unpacking a message. The theory states which messages a table can carry, relates a
  message to what the decoder makes of its encoding, and shows that \<open>cf_pb_unpack\<close> inverts
  \<open>cf_pb_pack\<close>: first for single values, then for fields, then for messages with nested ones.
\<close>

section \<open>Messages a table can carry\<close>

definition cell_wf :: "(cf_pb_field_t list \<Rightarrow> pb_msg \<Rightarrow> bool) \<Rightarrow> pb_tabs \<Rightarrow> cf_pb_field_t \<Rightarrow> pb_cell \<Rightarrow> bool" where
  "cell_wf sub tabs f c \<longleftrightarrow>
     (case fld_pbtype f of
        CF_PB_INT32 \<Rightarrow> \<exists>w. c = W32 w | CF_PB_UINT32 \<Rightarrow> \<exists>w. c = W32 w
      | CF_PB_INT64 \<Rightarrow> \<exists>w. c = W64 w | CF_PB_UINT64 \<Rightarrow> \<exists>w. c = W64 w
      | CF_PB_FIXED32 \<Rightarrow> \<exists>w. c = W32 w | CF_PB_SFIXED32 \<Rightarrow> \<exists>w. c = W32 w
      | CF_PB_FIXED64 \<Rightarrow> \<exists>w. c = W64 w | CF_PB_SFIXED64 \<Rightarrow> \<exists>w. c = W64 w
      | CF_PB_FLOAT \<Rightarrow> \<exists>w. c = W32 w | CF_PB_DOUBLE \<Rightarrow> \<exists>w. c = W64 w
      | CF_PB_BOOL \<Rightarrow> \<exists>b. c = Flag b
      | CF_PB_STRING \<Rightarrow> \<exists>bs. c = Str (Some bs) \<and> 0 \<notin> set bs
      | CF_PB_BYTES \<Rightarrow> \<exists>bs. c = Buf (Some bs) (length bs) \<and> length bs \<le> 64 * 1024
      | CF_PB_MESSAGE \<Rightarrow> \<exists>p m. fld_ptr f = Some p \<and> c = Msg m \<and> sub (tabs p) m
      | CF_PB_OTHER_TYPE _ \<Rightarrow> False)"

text \<open>The cell a decoder starts from: nested structures are blank, or not initialised when allowed.\<close>

definition cell_blank :: "(cf_pb_field_t list \<Rightarrow> pb_msg \<Rightarrow> bool) \<Rightarrow> bool \<Rightarrow> pb_tabs \<Rightarrow> cf_pb_field_t \<Rightarrow> pb_cell option \<Rightarrow> bool" where
  "cell_blank sub z tabs f cell \<longleftrightarrow>
     (fld_pbtype f = CF_PB_MESSAGE \<longrightarrow>
        cell = None \<and> \<not> z \<or> (\<exists>m. cell = Some (Msg m) \<and> (\<forall>p. fld_ptr f = Some p \<longrightarrow> sub (tabs p) m)))"

text \<open>The decoded cell equals the original one, nested messages as far as their tables describe them.\<close>

definition cell_same :: "(cf_pb_field_t list \<Rightarrow> pb_msg \<Rightarrow> pb_msg \<Rightarrow> bool) \<Rightarrow> pb_tabs \<Rightarrow> cf_pb_field_t \<Rightarrow> pb_cell \<Rightarrow> pb_cell \<Rightarrow> bool" where
  "cell_same sub tabs f c c' \<longleftrightarrow>
     (if fld_pbtype f = CF_PB_MESSAGE
      then \<exists>p m m'. fld_ptr f = Some p \<and> c = Msg m \<and> c' = Msg m' \<and> sub (tabs p) m m'
      else c' = c)"

section \<open>Single values\<close>

text \<open>
  \<open>value_trip\<close>: what the encoder writes for \<open>c\<close>, the decoder reads back, for encodings of less than
  four gigabytes (longer lengths do not fit the prefix of a nested stream).
\<close>

definition value_trip :: "(pb_cell option \<Rightarrow> bool) \<Rightarrow> (pb_cell \<Rightarrow> pb_cell \<Rightarrow> bool) \<Rightarrow> pb_encfn \<Rightarrow> pb_decfn \<Rightarrow> cf_pb_field_t \<Rightarrow> pb_cell \<Rightarrow> u8 list \<Rightarrow> bool" where
  "value_trip blank same enc dec f c bs \<longleftrightarrow>
     writes (\<lambda>s. enc s f (Some c)) bs \<and> 0 < length bs \<and>
     (length bs < 2 ^ 32 \<longrightarrow>
        (\<forall>rest k cell. blank cell \<longrightarrow>
           (\<exists>c'. dec (in_stream (bs @ rest) (length bs + k)) f cell = Some (True, Some c', in_stream rest k) \<and> same c c')))"

lemma varint_bytes_pos [simp]: "varint_bytes v \<noteq> []"
  by (simp add: varint_bytes.simps [of v])

lemma length_fixed_bytes [simp]: "length (fixed32_bytes w) = 4" "length (fixed64_bytes v) = 8"
  by (simp_all add: fixed32_bytes_def fixed64_bytes_def)

lemma value_trip_reads:
  assumes "writes (\<lambda>s. enc s f (Some c)) bs" "0 < length bs" "reads rd bs v"
    and "\<And>s cell t. rd s = Some (Some v, t) \<Longrightarrow> dec s f cell = Some (True, Some c, t)" "same c c"
  shows "value_trip blank same enc dec f c bs"
  using assms by (auto simp: value_trip_def reads_def)

lemma int32_range: "- (2 ^ 31) \<le> sint (scast (w :: u32) :: u64)" "sint (scast w :: u64) \<le> 2 ^ 31 - 1" "ucast (scast w :: u64) = w"
proof -
  have "sint (scast w :: u64) = sint w"
  proof -
    have "sint (scast w :: u64) = signed_take_bit (LENGTH(64) - Suc 0) (sint w)" by (simp add: signed_scast_eq)
    also have "\<dots> = sint w"
    proof (rule signed_take_bit_int_eq_self)
      show "- (2 ^ (LENGTH(64) - Suc 0)) \<le> sint w" using sint_greater_eq [of w] by simp
      show "sint w < 2 ^ (LENGTH(64) - Suc 0)" using sint_less [of w] by simp
    qed
    finally show ?thesis .
  qed
  then show "- (2 ^ 31) \<le> sint (scast w :: u64)" "sint (scast w :: u64) \<le> 2 ^ 31 - 1"
    using sint_greater_eq [of w] sint_less [of w] by simp_all
  show "ucast (scast w :: u64) = w" by (rule bit_word_eqI) (simp add: bit_simps)
qed

lemma uint32_range: "ucast (w :: u32) \<le> (0xFFFFFFFF :: u64)" "ucast (ucast w :: u64) = w"
proof -
  have "unat (ucast w :: u64) = unat w"
  proof -
    have "unat w < 2 ^ LENGTH(32)" by (rule unsigned_less)
    then have "unat w < 2 ^ 64" by simp
    then show ?thesis by (simp only: unsigned_ucast_eq) (simp add: take_bit_nat_eq_self)
  qed
  moreover have "unat w < 2 ^ LENGTH(32)" by (rule unsigned_less)
  ultimately show "ucast w \<le> (0xFFFFFFFF :: u64)" by (simp add: word_le_nat_alt)
  show "ucast (ucast w :: u64) = w" by (rule bit_word_eqI) (simp add: bit_simps)
qed

lemma int_trips:
  assumes "\<And>c. same c c"
  shows "value_trip blank same cf_pb_encode_int32 cf_pb_decode_int32 f (W32 w) (varint_bytes (zigzag (scast w)))"
    "value_trip blank same cf_pb_encode_uint32 cf_pb_decode_uint32 f (W32 w) (varint_bytes (ucast w))"
    "value_trip blank same cf_pb_encode_int64 cf_pb_decode_int64 f (W64 v) (varint_bytes (zigzag v))"
    "value_trip blank same cf_pb_encode_uint64 cf_pb_decode_uint64 f (W64 v) (varint_bytes v)"
    "value_trip blank same cf_pb_encode_bool cf_pb_decode_bool f (Flag b) (varint_bytes (if b then 1 else 0))"
proof -
  show "value_trip blank same cf_pb_encode_int32 cf_pb_decode_int32 f (W32 w) (varint_bytes (zigzag (scast w)))"
    by (rule value_trip_reads [OF _ _ reads_svarint])
       (use int32_range [of w] in \<open>simp_all add: cf_pb_encode_int32_def cf_pb_decode_int32_def writes_svarint assms\<close>)
  show "value_trip blank same cf_pb_encode_uint32 cf_pb_decode_uint32 f (W32 w) (varint_bytes (ucast w))"
    by (rule value_trip_reads [OF _ _ reads_varint])
       (use uint32_range [of w] in \<open>simp_all add: cf_pb_encode_uint32_def cf_pb_decode_uint32_def writes_varint assms\<close>)
  show "value_trip blank same cf_pb_encode_int64 cf_pb_decode_int64 f (W64 v) (varint_bytes (zigzag v))"
    by (rule value_trip_reads [OF _ _ reads_svarint])
       (simp_all add: cf_pb_encode_int64_def cf_pb_decode_int64_def writes_svarint assms)
  show "value_trip blank same cf_pb_encode_uint64 cf_pb_decode_uint64 f (W64 v) (varint_bytes v)"
    by (rule value_trip_reads [OF _ _ reads_varint])
       (simp_all add: cf_pb_encode_uint64_def cf_pb_decode_uint64_def writes_varint assms)
  show "value_trip blank same cf_pb_encode_bool cf_pb_decode_bool f (Flag b) (varint_bytes (if b then 1 else 0))"
    by (rule value_trip_reads [OF _ _ reads_varint])
       (auto simp: cf_pb_encode_bool_def cf_pb_decode_bool_def writes_varint assms)
qed

lemma fixed_trips:
  assumes "\<And>c. same c c"
  shows "value_trip blank same cf_pb_encode_fixed32 cf_pb_decode_fixed32 f (W32 w) (fixed32_bytes w)"
    "value_trip blank same cf_pb_encode_float cf_pb_decode_float f (W32 w) (fixed32_bytes w)"
    "value_trip blank same cf_pb_encode_fixed64 cf_pb_decode_fixed64 f (W64 v) (fixed64_bytes v)"
    "value_trip blank same cf_pb_encode_double cf_pb_decode_double f (W64 v) (fixed64_bytes v)"
  by (rule value_trip_reads [OF _ _ reads_fixed32];
      simp add: cf_pb_encode_fixed32_def cf_pb_decode_fixed32_def cf_pb_encode_float_def cf_pb_decode_float_def
        writes_fixed32 assms)+
     (rule value_trip_reads [OF _ _ reads_fixed64];
      simp add: cf_pb_encode_fixed64_def cf_pb_decode_fixed64_def cf_pb_encode_double_def cf_pb_decode_double_def
        writes_fixed64 assms)+

lemma string_trip:
  assumes "\<And>c. same c c" "0 \<notin> set str" "\<forall>n. mem n"
  shows "value_trip blank same cf_pb_encode_string (cf_pb_decode_string mem) f (Str (Some str)) (string_bytes str)"
  unfolding value_trip_def
proof (intro conjI impI allI)
  have tw: "takeWhile (\<lambda>b. b \<noteq> 0) str = str" using assms(2) by (auto simp: takeWhile_eq_all_conv)
  show "writes (\<lambda>s. cf_pb_encode_string s f (Some (Str (Some str)))) (string_bytes str)"
    by (simp only: cf_pb_encode_string_def option.case pb_cell.case tw writes_string)
  show "0 < length (string_bytes str)" by (simp add: string_bytes_def)
  fix rest k cell assume "length (string_bytes str) < 2 ^ 32"
  then have len: "length str < 2 ^ 32" by (simp add: string_bytes_def)
  then have u: "unat (of_nat (length str) :: u64) = length str" by (simp add: unat_of_nat take_bit_nat_eq_self)
  have nw: "\<not> (of_nat (length str) :: u64) + 1 < of_nat (length str)"
  proof -
    have "(of_nat (length str) :: u64) + 1 = of_nat (Suc (length str))" by (simp add: add.commute)
    moreover have "unat (of_nat (Suc (length str)) :: u64) = Suc (length str)"
      using len by (subst unat_of_nat) (simp add: take_bit_nat_eq_self)
    ultimately show ?thesis using u by (simp only: word_less_nat_alt)
  qed
  from reads_varint [of "of_nat (length str)"] have
    "pb_decode_varint (in_stream (string_bytes str @ rest) (length (string_bytes str) + k)) =
      Some (Some (of_nat (length str)), in_stream (str @ rest) (length str + k))"
    by (simp add: reads_def string_bytes_def add.assoc)
  with u nw assms(1,3) pb_read_bytes [of str rest k] show
    "\<exists>c'. cf_pb_decode_string mem (in_stream (string_bytes str @ rest) (length (string_bytes str) + k)) f cell =
       Some (True, Some c', in_stream rest k) \<and> same (Str (Some str)) c'"
    by (simp add: cf_pb_decode_string_def)
qed

lemma bytes_trip:
  assumes "\<And>c. same c c" "length bs \<le> 64 * 1024" "\<forall>n. mem n"
  shows "value_trip blank same cf_pb_encode_bytes (cf_pb_decode_bytes mem) f (Buf (Some bs) (length bs)) (string_bytes bs)"
  unfolding value_trip_def
proof (intro conjI impI allI)
  show "writes (\<lambda>s. cf_pb_encode_bytes s f (Some (Buf (Some bs) (length bs)))) (string_bytes bs)"
    by (simp add: cf_pb_encode_bytes_def writes_string)
  show "0 < length (string_bytes bs)" by (simp add: string_bytes_def)
  fix rest k cell
  have u: "unat (of_nat (length bs) :: u64) = length bs" using assms(2) by (simp add: unat_of_nat take_bit_nat_eq_self)
  have le: "\<not> (of_nat (length bs) :: u64) > 64 * 1024" using assms(2) u by (simp add: word_less_nat_alt)
  from reads_varint [of "of_nat (length bs)"] have
    "pb_decode_varint (in_stream (string_bytes bs @ rest) (length (string_bytes bs) + k)) =
      Some (Some (of_nat (length bs)), in_stream (bs @ rest) (length bs + k))"
    by (simp add: reads_def string_bytes_def add.assoc)
  with u le assms(1,3) pb_read_bytes [of bs rest k] show
    "\<exists>c'. cf_pb_decode_bytes mem (in_stream (string_bytes bs @ rest) (length (string_bytes bs) + k)) f cell =
       Some (True, Some c', in_stream rest k) \<and> same (Buf (Some bs) (length bs)) c'"
    by (simp add: cf_pb_decode_bytes_def)
qed

text \<open>Nested messages: the counting pass and the writing pass agree.\<close>

lemma writes_submessage:
  assumes "fld_ptr f = Some p" "writes (\<lambda>s. enc s (tabs p) m) bs"
  shows "writes (\<lambda>s. cf_pb_encode_submessage tabs enc s f (Some (Msg m))) (string_bytes bs)"
proof (rule writesI)
  fix s assume room: "os_room s (length (string_bytes bs))"
  let ?pre = "varint_bytes (of_nat (length bs))" and ?s1 = "os_put (varint_bytes (of_nat (length bs))) s"
  have count: "enc PB_OSTREAM_SIZING (tabs p) m = Some (True, os_put bs PB_OSTREAM_SIZING)"
    by (rule writesD [OF assms(2)]) (simp add: PB_OSTREAM_SIZING_def)
  have n: "os_bytes_written (os_put bs PB_OSTREAM_SIZING) = length bs" by (simp add: PB_OSTREAM_SIZING_def)
  have prefix: "pb_encode_varint s (of_nat (length bs)) = Some (True, ?s1)"
    using room by (intro writesD [OF writes_varint]) (auto simp: string_bytes_def intro: os_room_le)
  have room1: "os_room ?s1 (length bs)" using room by (auto simp: string_bytes_def intro: os_room_put)
  show "cf_pb_encode_submessage tabs enc s f (Some (Msg m)) = Some (True, os_put (string_bytes bs) s)"
  proof (cases "os_callback s")
    case False
    then show ?thesis
      using assms(1) count n prefix
      by (simp add: cf_pb_encode_submessage_def pb_write_def os_put_def string_bytes_def Let_def)
  next
    case True
    let ?sub = "?s1\<lparr>os_max_size := length bs, os_bytes_written := 0\<rparr>"
    have "os_room ?sub (length bs)" using room1 True by (simp add: os_room_def os_put_def)
    from writesD [OF assms(2) this] have "enc ?sub (tabs p) m = Some (True, os_put bs ?sub)" .
    moreover have "\<not> os_bytes_written ?s1 + length bs > os_max_size ?s1" using room1 True by (simp add: os_room_def)
    moreover have "os_put (string_bytes bs) s = os_put bs ?s1" by (simp add: string_bytes_def os_put_append)
    ultimately show ?thesis
      using assms(1) count n prefix True
      by (simp add: cf_pb_encode_submessage_def Let_def os_put_def)
  qed
qed

lemma submessage_trip:
  assumes "fld_ptr f = Some p" "writes (\<lambda>s. enc s (tabs p) m) bs" "blank None \<Longrightarrow> R Map.empty"
    and "\<And>cell. blank cell \<Longrightarrow> cell = None \<or> (\<exists>m0. cell = Some (Msg m0) \<and> R m0)"
    and "length bs < 2 ^ 32 \<Longrightarrow> \<forall>m0 rest. R m0 \<longrightarrow>
      (\<exists>m'. dec (in_stream (bs @ rest) (length bs)) (tabs p) m0 = Some (True, m', in_stream rest 0) \<and> same (Msg m) (Msg m'))"
  shows "value_trip blank same (cf_pb_encode_submessage tabs enc) (cf_pb_decode_submessage tabs dec) f (Msg m) (string_bytes bs)"
  unfolding value_trip_def
proof (intro conjI impI allI)
  show "writes (\<lambda>s. cf_pb_encode_submessage tabs enc s f (Some (Msg m))) (string_bytes bs)"
    using writes_submessage [where f = f and p = p and enc = enc and tabs = tabs and m = m and bs = bs] assms(1,2) by blast
  show "0 < length (string_bytes bs)" by (simp add: string_bytes_def)
  fix rest k cell assume a: "length (string_bytes bs) < 2 ^ 32" "blank cell"
  then have len: "length bs < 2 ^ 32" by (simp add: string_bytes_def)
  from assms(3,4) a(2) obtain m0 where
    m0: "(case cell of Some (Msg m) \<Rightarrow> Some m | None \<Rightarrow> Some Map.empty | _ \<Rightarrow> None) = Some m0" "R m0" by fastforce
  from assms(5) [OF len] m0(2) obtain m' where
    "dec (in_stream (bs @ rest) (length bs)) (tabs p) m0 = Some (True, m', in_stream rest 0)" "same (Msg m) (Msg m')" by blast
  with m0 assms(1) pb_make_string_substream_bytes [OF len, of rest k] show
    "\<exists>c'. cf_pb_decode_submessage tabs dec (in_stream (string_bytes bs @ rest) (length (string_bytes bs) + k)) f cell =
       Some (True, Some c', in_stream rest k) \<and> same (Msg m) c'"
    by (simp add: cf_pb_decode_submessage_def)
qed

section \<open>Fields\<close>

text \<open>
  The rest of the section fixes the two functions a field's type selects, which agree on every value
  that the field can carry: \<open>item_trip\<close> says so for one value.
\<close>

definition item_trip ::
  "(pb_cell option \<Rightarrow> bool) \<Rightarrow> (pb_cell \<Rightarrow> pb_cell \<Rightarrow> bool) \<Rightarrow> pb_encfn \<Rightarrow> pb_decfn \<Rightarrow> cf_pb_field_t \<Rightarrow> pb_cell \<Rightarrow> bool" where
  "item_trip blank same enc dec f c \<longleftrightarrow> (\<exists>bs. value_trip blank same enc dec f c bs)"

lemma value_tripD:
  assumes "value_trip blank same enc dec f c bs"
  shows "writes (\<lambda>s. enc s f (Some c)) bs" "0 < length bs"
    "length bs < 2 ^ 32 \<Longrightarrow> blank cell \<Longrightarrow>
      \<exists>c'. dec (in_stream (bs @ rest) (length bs + k)) f cell = Some (True, Some c', in_stream rest k) \<and> same c c'"
  using assms by (auto simp: value_trip_def)

text \<open>The functions of a type, and what they make of a value it can carry.\<close>

lemma func_trip:
  assumes enc: "cf_pb_encfunc tabs enc f = Some ef" and dec: "cf_pb_decfunc mem tabs dec f = Some df" and mem: "\<forall>n. mem n"
    and c: "cell_wf sub tabs f c"
    and blank: "\<And>cell p. blank cell \<Longrightarrow> fld_pbtype f = CF_PB_MESSAGE \<Longrightarrow> fld_ptr f = Some p \<Longrightarrow>
      cell = None \<and> R (tabs p) Map.empty \<or> (\<exists>m0. cell = Some (Msg m0) \<and> R (tabs p) m0)"
    and msg: "\<And>flds m. sub flds m \<Longrightarrow> \<exists>bs. writes (\<lambda>s. enc s flds m) bs \<and>
      (length bs < 2 ^ 32 \<longrightarrow> (\<forall>m0 rest. R flds m0 \<longrightarrow>
         (\<exists>m'. dec (in_stream (bs @ rest) (length bs)) flds m0 = Some (True, m', in_stream rest 0) \<and> same flds m m')))"
  shows "item_trip blank (cell_same same tabs f) ef df f c"
proof (cases "fld_pbtype f = CF_PB_MESSAGE")
  case True
  with c obtain p m where pm: "fld_ptr f = Some p" "c = Msg m" "sub (tabs p) m" by (auto simp: cell_wf_def)
  from msg [OF pm(3)] obtain bs where bs: "writes (\<lambda>s. enc s (tabs p) m) bs"
    "length bs < 2 ^ 32 \<longrightarrow> (\<forall>m0 rest. R (tabs p) m0 \<longrightarrow>
       (\<exists>m'. dec (in_stream (bs @ rest) (length bs)) (tabs p) m0 = Some (True, m', in_stream rest 0) \<and> same (tabs p) m m'))" by blast
  note b = blank [OF _ True pm(1)]
  have "ef = cf_pb_encode_submessage tabs enc" "df = cf_pb_decode_submessage tabs dec"
    using enc dec True by (simp_all add: cf_pb_encfunc_def cf_pb_decfunc_def)
  moreover have "value_trip blank (cell_same same tabs f) (cf_pb_encode_submessage tabs enc) (cf_pb_decode_submessage tabs dec) f (Msg m) (string_bytes bs)"
  proof (rule submessage_trip [where R = "R (tabs p)" and p = p and enc = enc and tabs = tabs and m = m and bs = bs])
    show "fld_ptr f = Some p" "writes (\<lambda>s. enc s (tabs p) m) bs" by (fact pm(1), fact bs(1))
    show "length bs < 2 ^ 32 \<Longrightarrow> \<forall>m0 rest. R (tabs p) m0 \<longrightarrow>
      (\<exists>m'. dec (in_stream (bs @ rest) (length bs)) (tabs p) m0 = Some (True, m', in_stream rest 0) \<and> cell_same same tabs f (Msg m) (Msg m'))"
      using bs(2) True pm(1) by (auto simp: cell_same_def)
    show "blank None \<Longrightarrow> R (tabs p) Map.empty" using b [of None] by simp
    show "blank cell \<Longrightarrow> cell = None \<or> (\<exists>m0. cell = Some (Msg m0) \<and> R (tabs p) m0)" for cell using b [of cell] by blast
  qed
  ultimately show ?thesis using pm(2) by (auto simp: item_trip_def)
next
  case False
  then have refl: "cell_same same tabs f x x" for x by (simp add: cell_same_def)
  note trips = int_trips [of "cell_same same tabs f" blank f, OF refl] fixed_trips [of "cell_same same tabs f" blank f, OF refl]
    string_trip [of "cell_same same tabs f", OF refl _ mem] bytes_trip [of "cell_same same tabs f", OF refl _ mem]
  show ?thesis
    using enc dec c False trips unfolding item_trip_def cell_wf_def cf_pb_encfunc_def cf_pb_decfunc_def
    by (cases "fld_pbtype f") (simp_all; blast)+
qed

text \<open>A tagged value and the round of the decoding loop that takes it.\<close>

lemma writes_scalar:
  assumes "writes (\<lambda>s. ef s f (Some c)) bs"
  shows "writes (\<lambda>s. cf_pb_encode_scalar s f (Some c) ef) (tag_bytes (cf_pb_wire_type (fld_pbtype f)) (fld_tag f) @ bs)"
  unfolding cf_pb_encode_scalar_def by (rule writes_seq [OF writes_tag assms])

lemma decode_loop_step:
  assumes "tag_ok (fld_tag f)" "\<forall>x. wt \<noteq> PB_WT_OTHER x" "cf_pb_find_tag flds (fld_tag f) = Some (Some f)"
    and "df (in_stream (bs @ rest) (length bs + k)) wt f (msg (fld_item_offset f)) = Some (True, Some c, in_stream rest k)"
  shows "decode_loop df flds (in_stream (tag_bytes wt (fld_tag f) @ bs @ rest) (length (tag_bytes wt (fld_tag f)) + (length bs + k))) msg =
    decode_loop df flds (in_stream rest k) (set_has f (msg(fld_item_offset f := Some c)))"
proof -
  let ?s = "in_stream (tag_bytes wt (fld_tag f) @ bs @ rest) (length (tag_bytes wt (fld_tag f)) + (length bs + k))"
  have "0 < length (tag_bytes wt (fld_tag f))" by (simp add: tag_bytes_def)
  with assms(3,4) pb_decode_tag_bytes [OF assms(1,2), of "bs @ rest" "length bs + k"] show ?thesis
    by (simp add: decode_loop.simps [of df flds ?s] decode_one_def Let_def)
qed

text \<open>Arrays whose items carry their tags.\<close>

fun items_trip :: "(pb_cell option \<Rightarrow> bool) \<Rightarrow> (pb_cell \<Rightarrow> pb_cell \<Rightarrow> bool) \<Rightarrow> pb_encfn \<Rightarrow> pb_decfn \<Rightarrow> cf_pb_field_t \<Rightarrow> pb_cell list \<Rightarrow> u8 list list \<Rightarrow> bool" where
  "items_trip blank same ef df f [] bss \<longleftrightarrow> bss = []"
| "items_trip blank same ef df f (x # xs) bss \<longleftrightarrow>
     (\<exists>bs bss'. bss = bs # bss' \<and> value_trip blank same ef df f x bs \<and> items_trip blank same ef df f xs bss')"

lemma items_tripI: "(\<forall>x \<in> set xs. item_trip blank same ef df f x) \<Longrightarrow> \<exists>bss. items_trip blank same ef df f xs bss"
proof (induction xs)
  case (Cons x xs)
  then obtain bs bss where "value_trip blank same ef df f x bs" "items_trip blank same ef df f xs bss"
    by (auto simp: item_trip_def)
  then show ?case by (intro exI [of _ "bs # bss"]) simp
qed (intro exI [of _ "[]"], simp)

definition tagged_bytes :: "cf_pb_field_t \<Rightarrow> u8 list list \<Rightarrow> u8 list" where
  "tagged_bytes f bss = concat (map (\<lambda>bs. tag_bytes (cf_pb_wire_type (fld_pbtype f)) (fld_tag f) @ bs) bss)"

lemma writes_Nil: "writes (\<lambda>s. Some (True, s)) []"
  by (simp add: writes_def)

lemma writes_tagged: "items_trip blank same ef df f xs bss \<Longrightarrow> writes (\<lambda>s. encode_tagged s f ef xs) (tagged_bytes f bss)"
proof (induction xs arbitrary: bss)
  case Nil
  then show ?case by (simp add: tagged_bytes_def writes_Nil)
next
  case (Cons x xs)
  then obtain bs bss' where b: "bss = bs # bss'" "value_trip blank same ef df f x bs" "items_trip blank same ef df f xs bss'" by auto
  have "writes (\<lambda>s. cf_pb_encode_scalar s f (Some x) ef) (tag_bytes (cf_pb_wire_type (fld_pbtype f)) (fld_tag f) @ bs)"
    by (rule writes_scalar) (rule value_tripD(1) [OF b(2)])
  from writes_seq [OF this Cons.IH [OF b(3)]] b(1) show ?case
    by (simp add: tagged_bytes_def)
qed

lemma writes_packed: "items_trip blank same ef df f xs bss \<Longrightarrow> writes (\<lambda>s. encode_packed s f ef xs) (concat bss)"
proof (induction xs arbitrary: bss)
  case Nil
  then show ?case by (simp add: writes_Nil)
next
  case (Cons x xs)
  then obtain bs bss' where b: "bss = bs # bss'" "value_trip blank same ef df f x bs" "items_trip blank same ef df f xs bss'" by auto
  from writes_seq [OF value_tripD(1) [OF b(2)] Cons.IH [OF b(3)]] b(1) show ?case by simp
qed

text \<open>One more item of an array that is not packed.\<close>

lemma decode_array_item:
  assumes "\<not> (wt = PB_WT_STRING \<and> cf_pb_type_packable (fld_pbtype f))" "\<forall>n. mem n" "length done \<le> cap"
    and "df s f None = Some (True, Some x, t)"
  shows "\<exists>cap'. cf_pb_decode_array mem s f (Some (Arr cap done)) wt df = Some (True, Some (Arr cap' (done @ [x])), t) \<and>
    length (done @ [x]) \<le> cap'"
proof (cases "cap = 0")
  case True
  with assms show ?thesis by (auto simp: cf_pb_decode_array_def Let_def)
next
  case False
  with assms show ?thesis by (auto simp: cf_pb_decode_array_def Let_def arr_realloc_def)
qed

lemma set_has_upd:
  assumes "sets_has f \<Longrightarrow> fld_has_offset f \<noteq> fld_item_offset f"
  shows "set_has f ((set_has f (msg(fld_item_offset f := a)))(fld_item_offset f := b)) = set_has f (msg(fld_item_offset f := b))"
    "set_has f msg (fld_item_offset f) = msg (fld_item_offset f)"
  using assms by (auto simp: set_has_def sets_has_def fun_eq_iff)

lemma decode_tagged:
  assumes "items_trip blank same ef df f xs bss" "length (tagged_bytes f bss) < 2 ^ 32" "blank None"
    and f: "tag_ok (fld_tag f)" "\<forall>x. cf_pb_wire_type (fld_pbtype f) \<noteq> PB_WT_OTHER x" "cf_pb_find_tag flds (fld_tag f) = Some (Some f)"
      "\<not> cf_pb_type_packable (fld_pbtype f)" "sets_has f \<Longrightarrow> fld_has_offset f \<noteq> fld_item_offset f"
    and dec: "\<And>s cell. dec_field s (cf_pb_wire_type (fld_pbtype f)) f cell = cf_pb_decode_array mem s f cell (cf_pb_wire_type (fld_pbtype f)) df"
    and mem: "\<forall>n. mem n" and "msg (fld_item_offset f) = Some (Arr cap done)" "length done \<le> cap" "xs \<noteq> []"
  shows "\<exists>cap' xs'. decode_loop dec_field flds (in_stream (tagged_bytes f bss @ rest) (length (tagged_bytes f bss) + k)) msg =
      decode_loop dec_field flds (in_stream rest k) (set_has f (msg(fld_item_offset f := Some (Arr cap' (done @ xs'))))) \<and>
      list_all2 same xs xs'"
  using assms(1,2) assms(11-13)
proof (induction xs arbitrary: bss msg cap "done")
  case (Cons x xs)
  then obtain bs bss' where b: "bss = bs # bss'" "value_trip blank same ef df f x bs" "items_trip blank same ef df f xs bss'" by auto
  let ?wt = "cf_pb_wire_type (fld_pbtype f)"
  let ?rest = "tagged_bytes f bss' @ rest" and ?k = "length (tagged_bytes f bss') + k"
  have cat: "tagged_bytes f bss = (tag_bytes ?wt (fld_tag f) @ bs) @ tagged_bytes f bss'" by (simp add: tagged_bytes_def b(1))
  then have len: "length bs < 2 ^ 32" "length (tagged_bytes f bss') < 2 ^ 32" using Cons.prems(2) by simp_all
  from value_tripD(3) [OF b(2) len(1) assms(3), of ?rest ?k] obtain x' where
    x: "df (in_stream (bs @ ?rest) (length bs + ?k)) f None = Some (True, Some x', in_stream ?rest ?k)" "same x x'" by blast
  from decode_array_item [where df = df and f = f and wt = ?wt and mem = mem, OF _ mem Cons.prems(4) x(1)] f(4) obtain cap1 where
    c1: "cf_pb_decode_array mem (in_stream (bs @ ?rest) (length bs + ?k)) f (Some (Arr cap done)) ?wt df =
      Some (True, Some (Arr cap1 (done @ [x'])), in_stream ?rest ?k)" "length (done @ [x']) \<le> cap1" by blast
  let ?msg = "set_has f (msg(fld_item_offset f := Some (Arr cap1 (done @ [x']))))"
  have step: "decode_loop dec_field flds (in_stream (tagged_bytes f bss @ rest) (length (tagged_bytes f bss) + k)) msg =
      decode_loop dec_field flds (in_stream ?rest ?k) ?msg"
    using decode_loop_step [OF f(1-3), of dec_field bs ?rest ?k msg] c1(1) Cons.prems(3) cat by (simp add: dec add.assoc)
  show ?case
  proof (cases "xs = []")
    case True
    with b(3) have "tagged_bytes f bss' = []" by (simp add: tagged_bytes_def)
    with True step x(2) have "decode_loop dec_field flds (in_stream (tagged_bytes f bss @ rest) (length (tagged_bytes f bss) + k)) msg =
        decode_loop dec_field flds (in_stream rest k) ?msg \<and> list_all2 same (x # xs) [x']" by simp
    then show ?thesis by blast
  next
    case False
    have "?msg (fld_item_offset f) = Some (Arr cap1 (done @ [x']))" using set_has_upd(2) [OF f(5)] by simp
    from Cons.IH [of bss' ?msg cap1 "done @ [x']", OF b(3) len(2) this c1(2) False] obtain cap' xs' where
      "decode_loop dec_field flds (in_stream ?rest ?k) ?msg =
        decode_loop dec_field flds (in_stream rest k) (set_has f (?msg(fld_item_offset f := Some (Arr cap' ((done @ [x']) @ xs')))))"
      "list_all2 same xs xs'" by blast
    with step x(2) set_has_upd(1) [OF f(5), of msg "Some (Arr cap1 (done @ [x']))" "Some (Arr cap' (done @ (x' # xs')))"]
    have "decode_loop dec_field flds (in_stream (tagged_bytes f bss @ rest) (length (tagged_bytes f bss) + k)) msg =
        decode_loop dec_field flds (in_stream rest k) (set_has f (msg(fld_item_offset f := Some (Arr cap' (done @ (x' # xs')))))) \<and>
        list_all2 same (x # xs) (x' # xs')" by simp
    then show ?thesis by blast
  qed
qed simp

text \<open>Packed arrays.\<close>

lemma decode_packed_trip:
  assumes "items_trip blank same ef df f xs bss" "length (concat bss) < 2 ^ 32" "blank None" "\<forall>n. mem n" "length done < cap"
  shows "\<exists>cap' xs'. decode_packed mem df f (in_stream (concat bss @ rest) (length (concat bss))) cap done =
      Some (cap', done @ xs', in_stream rest 0) \<and> list_all2 same xs xs'"
  using assms(1,2,5)
proof (induction xs arbitrary: bss cap "done")
  case Nil
  then show ?case by (simp add: decode_packed.simps)
next
  case (Cons x xs)
  then obtain bs bss' where b: "bss = bs # bss'" "value_trip blank same ef df f x bs" "items_trip blank same ef df f xs bss'" by auto
  let ?s = "in_stream (concat bss @ rest) (length (concat bss))" and ?t = "in_stream (concat bss' @ rest) (length (concat bss'))"
  have len: "length bs < 2 ^ 32" "length (concat bss') < 2 ^ 32" using Cons.prems(2) b(1) by simp_all
  from value_tripD(3) [OF b(2) len(1) assms(3), of "concat bss' @ rest" "length (concat bss')"] obtain x' where
    x: "df ?s f None = Some (True, Some x', ?t)" "same x x'" using b(1) by auto
  have pos: "0 < length bs" using value_tripD(2) [OF b(2)] .
  let ?isz = "unat (fld_item_size f)"
  let ?cap = "if cap \<le> length (done @ [x']) then arr_realloc mem ?isz cap (cap + 2 * is_bytes_left ?t div ?isz + 1) else cap"
  have room: "length (done @ [x']) < ?cap" using Cons.prems(3) assms(4) by (auto simp: arr_realloc_def)
  have lt: "length (concat bss') < length (bs @ concat bss')" using pos by simp
  have nz: "\<not> (cap \<le> length (done @ [x']) \<and> ?cap = 0)" using room by simp
  have "decode_packed mem df f ?s cap done = decode_packed mem df f ?t ?cap (done @ [x'])"
    using x(1) pos Cons.prems(3) nz b(1) lt unfolding decode_packed.simps [of mem df f ?s]
    by (auto simp: Let_def simp del: length_append)
  moreover from Cons.IH [OF b(3) len(2) room] obtain cap' xs' where
    "decode_packed mem df f ?t ?cap (done @ [x']) = Some (cap', (done @ [x']) @ xs', in_stream rest 0)" "list_all2 same xs xs'" by blast
  ultimately show ?case using x(2) by (intro exI [of _ cap'] exI [of _ "x' # xs'"]) simp
qed

lemma decode_array_packed:
  assumes "items_trip blank same ef df f xs bss" "length (concat bss) < 2 ^ 32" "blank None" "\<forall>n. mem n"
    and "cf_pb_type_packable (fld_pbtype f)" "fld_item_size f \<noteq> 0"
  shows "\<exists>cap' xs'. cf_pb_decode_array mem (in_stream (string_bytes (concat bss) @ rest) (length (string_bytes (concat bss)) + k)) f cell PB_WT_STRING df =
      Some (True, Some (Arr cap' xs'), in_stream rest k) \<and> list_all2 same xs xs'"
proof -
  have isz: "unat (fld_item_size f) \<noteq> 0" using assms(6) by (simp add: unat_eq_0)
  let ?cap = "2 * length (concat bss) div unat (fld_item_size f) + 1"
  have "\<exists>cap' xs'. decode_packed mem df f (in_stream (concat bss @ rest) (length (concat bss))) ?cap [] =
      Some (cap', [] @ xs', in_stream rest 0) \<and> list_all2 same xs xs'"
    by (rule decode_packed_trip [OF assms(1-4)]) simp
  then obtain cap' xs' where d: "decode_packed mem df f (in_stream (concat bss @ rest) (length (concat bss))) ?cap [] =
      Some (cap', xs', in_stream rest 0)" "list_all2 same xs xs'" by auto
  with isz assms(4,5) pb_make_string_substream_bytes [OF assms(2), of rest k] show ?thesis
    by (simp add: cf_pb_decode_array_def Let_def del: length_concat)
qed

lemma writes_length:
  assumes "writes enc a" "writes enc b"
  shows "length a = length b"
proof -
  from writesD [OF assms(1), of PB_OSTREAM_SIZING] writesD [OF assms(2), of PB_OSTREAM_SIZING]
  have "os_put a PB_OSTREAM_SIZING = os_put b PB_OSTREAM_SIZING" by (simp add: PB_OSTREAM_SIZING_def)
  then have "os_bytes_written (os_put a PB_OSTREAM_SIZING) = os_bytes_written (os_put b PB_OSTREAM_SIZING)" by simp
  then show ?thesis by simp
qed

lemma items_trip_fixed:
  assumes "items_trip blank same ef df f xs bss" "\<And>x bs. x \<in> set xs \<Longrightarrow> writes (\<lambda>s. ef s f (Some x)) bs \<Longrightarrow> length bs = n"
  shows "length (concat bss) = n * length xs"
  using assms
proof (induction xs arbitrary: bss)
  case (Cons x xs)
  then obtain bs bss' where b: "bss = bs # bss'" "value_trip blank same ef df f x bs" "items_trip blank same ef df f xs bss'" by auto
  have "length (concat bss') = n * length xs" by (rule Cons.IH [OF b(3)]) (rule Cons.prems(2), simp_all)
  moreover have "length bs = n" using Cons.prems(2) [OF _ value_tripD(1) [OF b(2)]] by simp
  ultimately show ?case using b(1) by simp
qed simp

text \<open>The size that is announced for a packed array is the size of what is written.\<close>

lemma packed_size_ok:
  assumes trip: "items_trip blank same ef df f xs bss" and enc: "cf_pb_encfunc tabs enc f = Some ef"
    and ty: "cf_pb_type_packable (fld_pbtype f)" and wf: "\<forall>x \<in> set xs. cell_wf sub tabs f x"
  shows "packed_size f ef xs = Some (Some (length (concat bss)))"
proof -
  have sizing: "encode_packed PB_OSTREAM_SIZING f ef xs = Some (True, os_put (concat bss) PB_OSTREAM_SIZING)"
    by (rule writesD [OF writes_packed [OF trip]]) (simp add: PB_OSTREAM_SIZING_def)
  consider (w32) "ef = cf_pb_encode_fixed32" "fld_pbtype f \<in> {CF_PB_FIXED32, CF_PB_SFIXED32}"
    | (w64) "ef = cf_pb_encode_fixed64" "fld_pbtype f \<in> {CF_PB_FIXED64, CF_PB_SFIXED64}"
    | (var) "cf_pb_wire_type (fld_pbtype f) = PB_WT_VARINT"
    using enc ty by (auto simp: cf_pb_encfunc_def cf_pb_type_packable_def)
  then show ?thesis
  proof cases
    case w32
    have "length bs = 4" if "x \<in> set xs" "writes (\<lambda>s. ef s f (Some x)) bs" for x bs
    proof -
      from wf that(1) have "cell_wf sub tabs f x" by blast
      with w32(2) obtain w where "x = W32 w" by (auto simp: cell_wf_def)
      then have "writes (\<lambda>s. ef s f (Some x)) (fixed32_bytes w)" by (simp add: w32(1) cf_pb_encode_fixed32_def writes_fixed32)
      from writes_length [OF that(2) this] show ?thesis by simp
    qed
    from items_trip_fixed [OF trip this] w32(2) show ?thesis by (auto simp: packed_size_def)
  next
    case w64
    have "length bs = 8" if "x \<in> set xs" "writes (\<lambda>s. ef s f (Some x)) bs" for x bs
    proof -
      from wf that(1) have "cell_wf sub tabs f x" by blast
      with w64(2) obtain w where "x = W64 w" by (auto simp: cell_wf_def)
      then have "writes (\<lambda>s. ef s f (Some x)) (fixed64_bytes w)" by (simp add: w64(1) cf_pb_encode_fixed64_def writes_fixed64)
      from writes_length [OF that(2) this] show ?thesis by simp
    qed
    from items_trip_fixed [OF trip this] w64(2) show ?thesis by (auto simp: packed_size_def)
  next
    case var
    with sizing show ?thesis by (simp add: packed_size_def PB_OSTREAM_SIZING_def)
  qed
qed

lemma writes_array_packed:
  assumes trip: "items_trip blank same ef df f xs bss" and enc: "cf_pb_encfunc tabs enc f = Some ef"
    and ty: "cf_pb_type_packable (fld_pbtype f)" and wf: "\<forall>x \<in> set xs. cell_wf sub tabs f x" and "xs \<noteq> []"
  shows "writes (\<lambda>s. cf_pb_encode_array s f (Some (Arr cap xs)) ef) (tag_bytes PB_WT_STRING (fld_tag f) @ string_bytes (concat bss))"
proof (rule writesI)
  fix s assume room: "os_room s (length (tag_bytes PB_WT_STRING (fld_tag f) @ string_bytes (concat bss)))"
  let ?tag = "tag_bytes PB_WT_STRING (fld_tag f)" and ?len = "varint_bytes (of_nat (length (concat bss)))"
  let ?s1 = "os_put ?tag s" and ?s2 = "os_put ?len (os_put ?tag s)"
  have r0: "os_room s (length ?tag)" and r1: "os_room ?s1 (length ?len)" and r2: "os_room ?s2 (length (concat bss))"
    using room by (auto simp: string_bytes_def simp del: length_concat intro!: os_room_put intro: os_room_le)
  have "pb_encode_tag s PB_WT_STRING (fld_tag f) = Some (True, ?s1)" by (rule writesD [OF writes_tag r0])
  moreover have "pb_encode_varint ?s1 (of_nat (length (concat bss))) = Some (True, ?s2)" by (rule writesD [OF writes_varint r1])
  moreover have "encode_packed ?s2 f ef xs = Some (True, os_put (concat bss) ?s2)" by (rule writesD [OF writes_packed [OF trip] r2])
  moreover have "pb_write ?s2 None (length (concat bss)) = Some (True, os_put (concat bss) ?s2)" if "\<not> os_callback s"
    using that by (simp add: pb_write_def os_put_def)
  ultimately show "cf_pb_encode_array s f (Some (Arr cap xs)) ef = Some (True, os_put (?tag @ string_bytes (concat bss)) s)"
    using packed_size_ok [OF trip enc ty wf] ty \<open>xs \<noteq> []\<close>
    by (simp add: cf_pb_encode_array_def os_put_append string_bytes_def Suc_le_eq del: length_concat)
qed

section \<open>Messages\<close>

text \<open>
  The layout of a structure: the tags differ, and the cells of different fields are different, except
  that the members of a choice share their cell and the cell that tells which member is present.
\<close>

definition same_group :: "cf_pb_field_t \<Rightarrow> cf_pb_field_t \<Rightarrow> bool" where
  "same_group f g \<longleftrightarrow>
     fld_alloctype f = CF_PB_ONEOF \<and> fld_alloctype g = CF_PB_ONEOF \<and> fld_has_offset f = fld_has_offset g"

definition apart :: "cf_pb_field_t \<Rightarrow> cf_pb_field_t \<Rightarrow> bool" where
  "apart f g \<longleftrightarrow>
     (sets_has f \<longrightarrow> fld_has_offset f \<noteq> fld_item_offset g) \<and> (sets_has g \<longrightarrow> fld_has_offset g \<noteq> fld_item_offset f) \<and>
     (f \<noteq> g \<and> \<not> same_group f g \<longrightarrow>
        fld_item_offset f \<noteq> fld_item_offset g \<and> (sets_has f \<and> sets_has g \<longrightarrow> fld_has_offset f \<noteq> fld_has_offset g))"

definition layout_ok :: "cf_pb_field_t list \<Rightarrow> bool" where
  "layout_ok flds \<longleftrightarrow>
     list_ex (\<lambda>f. fld_tag f = 0) flds \<and> distinct (map fld_tag (used_fields flds)) \<and>
     (\<forall>f \<in> set (used_fields flds). \<forall>g \<in> set (used_fields flds). apart f g)"

definition field_wf :: "(bool \<Rightarrow> cf_pb_field_t list \<Rightarrow> pb_msg \<Rightarrow> bool) \<Rightarrow> bool \<Rightarrow> pb_tabs \<Rightarrow> cf_pb_field_t \<Rightarrow> pb_msg \<Rightarrow> bool" where
  "field_wf sub z tabs f m \<longleftrightarrow>
     tag_ok (fld_tag f) \<and>
     (\<exists>h. cf_pb_field_has_data f m = Some h \<and> (z \<or> h) \<and>
        (h \<longrightarrow>
           (case fld_alloctype f of
              CF_PB_ARRAY \<Rightarrow> z \<and> fld_item_size f \<noteq> 0 \<and> (\<forall>x. fld_pbtype f \<noteq> CF_PB_OTHER_TYPE x) \<and>
                (\<exists>cap xs. m (fld_item_offset f) = Some (Arr cap xs) \<and> (\<forall>x \<in> set xs. cell_wf (sub False) tabs f x) \<and>
                   (sets_has f \<longrightarrow> xs \<noteq> []))
            | CF_PB_OTHER_ALLOC _ \<Rightarrow> False
            | _ \<Rightarrow> \<exists>c. m (fld_item_offset f) = Some c \<and> cell_wf (sub z) tabs f c)))"

fun msg_wf :: "nat \<Rightarrow> bool \<Rightarrow> pb_tabs \<Rightarrow> cf_pb_field_t list \<Rightarrow> pb_msg \<Rightarrow> bool" where
  "msg_wf 0 z tabs flds m = False"
| "msg_wf (Suc d) z tabs flds m \<longleftrightarrow>
     layout_ok flds \<and> (\<forall>f \<in> set (used_fields flds). field_wf (\<lambda>z. msg_wf d z tabs) z tabs f m)"

text \<open>A structure filled with zeros; with \<open>z\<close> false nothing is required of it.\<close>

definition field_blank :: "(cf_pb_field_t list \<Rightarrow> pb_msg \<Rightarrow> bool) \<Rightarrow> bool \<Rightarrow> pb_tabs \<Rightarrow> cf_pb_field_t \<Rightarrow> pb_msg \<Rightarrow> bool" where
  "field_blank sub z tabs f m \<longleftrightarrow>
     (z \<and> fld_alloctype f = CF_PB_ONEOF \<longrightarrow> m (fld_has_offset f) = Some (W32 0)) \<and>
     (z \<and> fld_alloctype f \<noteq> CF_PB_ONEOF \<and> fld_has_offset f \<noteq> -1 \<longrightarrow> m (fld_has_offset f) = Some (Flag False)) \<and>
     (z \<and> fld_alloctype f = CF_PB_ARRAY \<longrightarrow> m (fld_item_offset f) = Some (Arr 0 [])) \<and>
     (fld_alloctype f \<noteq> CF_PB_ARRAY \<longrightarrow> cell_blank sub z tabs f (m (fld_item_offset f)))"

fun msg_blank :: "nat \<Rightarrow> bool \<Rightarrow> pb_tabs \<Rightarrow> cf_pb_field_t list \<Rightarrow> pb_msg \<Rightarrow> bool" where
  "msg_blank 0 z tabs flds m = True"
| "msg_blank (Suc d) z tabs flds m \<longleftrightarrow> (\<forall>f \<in> set (used_fields flds). field_blank (msg_blank d z tabs) z tabs f m)"

lemma msg_blank_uninit: "msg_blank d False tabs flds Map.empty"
  by (cases d) (simp_all add: field_blank_def cell_blank_def)

text \<open>The decoded message agrees with the original one on every field of the table.\<close>

definition value_same :: "(cf_pb_field_t list \<Rightarrow> pb_msg \<Rightarrow> pb_msg \<Rightarrow> bool) \<Rightarrow> pb_tabs \<Rightarrow> cf_pb_field_t \<Rightarrow> pb_cell option \<Rightarrow> pb_cell option \<Rightarrow> bool" where
  "value_same sub tabs f cell cell' \<longleftrightarrow>
     (if fld_alloctype f = CF_PB_ARRAY
      then \<exists>cap xs cap' xs'. cell = Some (Arr cap xs) \<and> cell' = Some (Arr cap' xs') \<and> list_all2 (cell_same sub tabs f) xs xs'
      else \<exists>c c'. cell = Some c \<and> cell' = Some c' \<and> cell_same sub tabs f c c')"

definition field_same :: "(cf_pb_field_t list \<Rightarrow> pb_msg \<Rightarrow> pb_msg \<Rightarrow> bool) \<Rightarrow> pb_tabs \<Rightarrow> cf_pb_field_t \<Rightarrow> pb_msg \<Rightarrow> pb_msg \<Rightarrow> bool" where
  "field_same sub tabs f m m' \<longleftrightarrow>
     (\<exists>h. cf_pb_field_has_data f m = Some h \<and> cf_pb_field_has_data f m' = Some h \<and>
        (h \<longrightarrow> value_same sub tabs f (m (fld_item_offset f)) (m' (fld_item_offset f))))"

fun msg_same :: "nat \<Rightarrow> pb_tabs \<Rightarrow> cf_pb_field_t list \<Rightarrow> pb_msg \<Rightarrow> pb_msg \<Rightarrow> bool" where
  "msg_same 0 tabs flds m m' = False"
| "msg_same (Suc d) tabs flds m m' \<longleftrightarrow> (\<forall>f \<in> set (used_fields flds). field_same (msg_same d tabs) tabs f m m')"

text \<open>
  One field that is present: what is written for it, and the message after the rounds of the decoding
  loop that take it.
\<close>

definition field_update :: "(cf_pb_field_t list \<Rightarrow> pb_msg \<Rightarrow> pb_msg \<Rightarrow> bool) \<Rightarrow> pb_tabs \<Rightarrow> cf_pb_field_t \<Rightarrow> pb_msg \<Rightarrow> pb_msg \<Rightarrow> pb_msg \<Rightarrow> bool" where
  "field_update sub tabs f m m1 m2 \<longleftrightarrow>
     (\<exists>c. m2 = set_has f (m1(fld_item_offset f := Some c)) \<and> value_same sub tabs f (m (fld_item_offset f)) (Some c)) \<or>
     (m2 = m1 \<and> \<not> sets_has f \<and> value_same sub tabs f (m (fld_item_offset f)) (m1 (fld_item_offset f)))"

definition start_ok :: "(cf_pb_field_t list \<Rightarrow> pb_msg \<Rightarrow> bool) \<Rightarrow> bool \<Rightarrow> pb_tabs \<Rightarrow> cf_pb_field_t \<Rightarrow> pb_cell option \<Rightarrow> bool" where
  "start_ok sub z tabs f cell \<longleftrightarrow>
     (if fld_alloctype f = CF_PB_ARRAY then cell = Some (Arr 0 []) else cell_blank sub z tabs f cell)"

lemma encfunc_exists: "cell_wf sub tabs f c \<Longrightarrow> \<exists>ef df. cf_pb_encfunc tabs enc f = Some ef \<and> cf_pb_decfunc mem tabs dec f = Some df"
  by (cases "fld_pbtype f") (auto simp: cell_wf_def cf_pb_encfunc_def cf_pb_decfunc_def)

lemma wire_known: "cell_wf sub tabs f c \<Longrightarrow> \<forall>x. cf_pb_wire_type (fld_pbtype f) \<noteq> PB_WT_OTHER x"
  by (cases "fld_pbtype f") (auto simp: cell_wf_def)

text \<open>The hypothesis on nested messages that the induction over the nesting provides.\<close>

definition msgs_trip ::
  "nat \<Rightarrow> (nat \<Rightarrow> bool) \<Rightarrow> pb_tabs \<Rightarrow> bool" where
  "msgs_trip d mem tabs \<longleftrightarrow>
     (\<forall>z flds m. msg_wf d z tabs flds m \<longrightarrow>
        (\<exists>bs. writes (\<lambda>s. cf_pb_encode d tabs s flds m) bs \<and>
           (length bs < 2 ^ 32 \<longrightarrow>
              (\<forall>m0 rest. msg_blank d z tabs flds m0 \<longrightarrow>
                 (\<exists>m'. cf_pb_decode d mem tabs (in_stream (bs @ rest) (length bs)) flds m0 = Some (True, m', in_stream rest 0) \<and>
                    msg_same d tabs flds m m')))))"

lemma cell_trip:
  assumes ih: "msgs_trip d mem tabs" and mem: "\<forall>n. mem n" and c: "cell_wf (msg_wf d z tabs) tabs f c"
    and "cf_pb_encfunc tabs (cf_pb_encode d tabs) f = Some ef" "cf_pb_decfunc mem tabs (cf_pb_decode d mem tabs) f = Some df"
  shows "item_trip (cell_blank (msg_blank d z tabs) z tabs f) (cell_same (msg_same d tabs) tabs f) ef df f c"
proof (rule func_trip [OF assms(4,5) mem c, where R = "msg_blank d z tabs"])
  fix cell p assume "cell_blank (msg_blank d z tabs) z tabs f cell" "fld_pbtype f = CF_PB_MESSAGE" "fld_ptr f = Some p"
  then show "cell = None \<and> msg_blank d z tabs (tabs p) Map.empty \<or> (\<exists>m0. cell = Some (Msg m0) \<and> msg_blank d z tabs (tabs p) m0)"
    using msg_blank_uninit [of d tabs] by (auto simp: cell_blank_def)
next
  fix flds m assume "msg_wf d z tabs flds m"
  then show "\<exists>bs. writes (\<lambda>s. cf_pb_encode d tabs s flds m) bs \<and>
      (length bs < 2 ^ 32 \<longrightarrow> (\<forall>m0 rest. msg_blank d z tabs flds m0 \<longrightarrow>
         (\<exists>m'. cf_pb_decode d mem tabs (in_stream (bs @ rest) (length bs)) flds m0 = Some (True, m', in_stream rest 0) \<and>
            msg_same d tabs flds m m')))"
    using ih unfolding msgs_trip_def by blast
qed

definition field_trip :: "nat \<Rightarrow> bool \<Rightarrow> (nat \<Rightarrow> bool) \<Rightarrow> pb_tabs \<Rightarrow> cf_pb_field_t list \<Rightarrow> cf_pb_field_t \<Rightarrow> pb_msg \<Rightarrow> u8 list \<Rightarrow> bool" where
  "field_trip d z mem tabs flds f m bs \<longleftrightarrow>
     writes (\<lambda>s. cf_pb_encode_field tabs (cf_pb_encode d tabs) s f (m (fld_item_offset f))) bs \<and>
     (length bs < 2 ^ 32 \<longrightarrow>
        (\<forall>m1 rest k. start_ok (msg_blank d z tabs) z tabs f (m1 (fld_item_offset f)) \<longrightarrow>
           (\<exists>m2. decode_loop (cf_pb_decode_field mem tabs (cf_pb_decode d mem tabs)) flds (in_stream (bs @ rest) (length bs + k)) m1 =
                   decode_loop (cf_pb_decode_field mem tabs (cf_pb_decode d mem tabs)) flds (in_stream rest k) m2 \<and>
                 field_update (msg_same d tabs) tabs f m m1 m2)))"

lemma scalar_field_trip:
  assumes ih: "msgs_trip d mem tabs" and mem: "\<forall>n. mem n" and tag: "tag_ok (fld_tag f)"
    and c: "m (fld_item_offset f) = Some c" "cell_wf (msg_wf d z tabs) tabs f c"
    and alloc: "fld_alloctype f = CF_PB_SCALAR \<or> fld_alloctype f = CF_PB_ONEOF"
    and find: "cf_pb_find_tag flds (fld_tag f) = Some (Some f)"
  shows "\<exists>bs. field_trip d z mem tabs flds f m bs"
proof -
  let ?wt = "cf_pb_wire_type (fld_pbtype f)"
  obtain ef df where func: "cf_pb_encfunc tabs (cf_pb_encode d tabs) f = Some ef"
    "cf_pb_decfunc mem tabs (cf_pb_decode d mem tabs) f = Some df" using encfunc_exists [OF c(2)] by blast
  from cell_trip [OF ih mem c(2) func] obtain bs where
    bs: "value_trip (cell_blank (msg_blank d z tabs) z tabs f) (cell_same (msg_same d tabs) tabs f) ef df f c bs"
    by (auto simp: item_trip_def)
  have "writes (\<lambda>s. cf_pb_encode_scalar s f (Some c) ef) (tag_bytes ?wt (fld_tag f) @ bs)"
    by (rule writes_scalar) (rule value_tripD(1) [OF bs])
  then have w: "writes (\<lambda>s. cf_pb_encode_field tabs (cf_pb_encode d tabs) s f (m (fld_item_offset f))) (tag_bytes ?wt (fld_tag f) @ bs)"
    using alloc by (auto simp: cf_pb_encode_field_def func c(1))
  let ?DF = "cf_pb_decode_field mem tabs (cf_pb_decode d mem tabs)"
  have "\<exists>m2. decode_loop ?DF flds (in_stream ((tag_bytes ?wt (fld_tag f) @ bs) @ rest) (length (tag_bytes ?wt (fld_tag f) @ bs) + k)) m1 =
        decode_loop ?DF flds (in_stream rest k) m2 \<and> field_update (msg_same d tabs) tabs f m m1 m2"
    if a: "length (tag_bytes ?wt (fld_tag f) @ bs) < 2 ^ 32" "start_ok (msg_blank d z tabs) z tabs f (m1 (fld_item_offset f))" for m1 rest k
  proof -
    have len: "length bs < 2 ^ 32" using a(1) by simp
    have bl: "cell_blank (msg_blank d z tabs) z tabs f (m1 (fld_item_offset f))" using a(2) alloc by (auto simp: start_ok_def)
    from value_tripD(3) [OF bs len bl, of rest k] obtain c' where
      c': "df (in_stream (bs @ rest) (length bs + k)) f (m1 (fld_item_offset f)) = Some (True, Some c', in_stream rest k)"
        "cell_same (msg_same d tabs) tabs f c c'" by blast
    have "?DF (in_stream (bs @ rest) (length bs + k)) ?wt f (m1 (fld_item_offset f)) = Some (True, Some c', in_stream rest k)"
      using alloc c'(1) func by (auto simp: cf_pb_decode_field_def)
    from decode_loop_step [OF tag wire_known [OF c(2)] find, where df = ?DF and msg = m1, OF this]
    have "decode_loop ?DF flds (in_stream ((tag_bytes ?wt (fld_tag f) @ bs) @ rest) (length (tag_bytes ?wt (fld_tag f) @ bs) + k)) m1 =
        decode_loop ?DF flds (in_stream rest k) (set_has f (m1(fld_item_offset f := Some c')))" by (simp add: add.assoc)
    moreover have "field_update (msg_same d tabs) tabs f m m1 (set_has f (m1(fld_item_offset f := Some c')))"
      using c'(2) c(1) alloc unfolding field_update_def by (intro disjI1 exI [of _ c']) (auto simp: value_same_def)
    ultimately show ?thesis by blast
  qed
  with w show ?thesis unfolding field_trip_def by blast
qed

lemma array_field_trip:
  assumes ih: "msgs_trip d mem tabs" and mem: "\<forall>n. mem n" and tag: "tag_ok (fld_tag f)"
    and alloc: "fld_alloctype f = CF_PB_ARRAY" "fld_item_size f \<noteq> 0" and off: "sets_has f \<Longrightarrow> fld_has_offset f \<noteq> fld_item_offset f"
    and xs: "m (fld_item_offset f) = Some (Arr cap xs)" "\<forall>x \<in> set xs. cell_wf (msg_wf d False tabs) tabs f x" "xs \<noteq> []"
    and find: "cf_pb_find_tag flds (fld_tag f) = Some (Some f)"
  shows "\<exists>bs. field_trip d z mem tabs flds f m bs"
proof -
  let ?wt = "cf_pb_wire_type (fld_pbtype f)" and ?DF = "cf_pb_decode_field mem tabs (cf_pb_decode d mem tabs)"
  let ?same = "cell_same (msg_same d tabs) tabs f" and ?blank = "cell_blank (msg_blank d False tabs) False tabs f"
  from xs(2,3) obtain x where x: "cell_wf (msg_wf d False tabs) tabs f x" by (cases xs) auto
  obtain ef df where func: "cf_pb_encfunc tabs (cf_pb_encode d tabs) f = Some ef"
    "cf_pb_decfunc mem tabs (cf_pb_decode d mem tabs) f = Some df" using encfunc_exists [OF x] by blast
  have "\<forall>x \<in> set xs. item_trip ?blank ?same ef df f x" using cell_trip [OF ih mem _ func] xs(2) by blast
  then obtain bss where trip: "items_trip ?blank ?same ef df f xs bss" using items_tripI by blast
  have bl: "?blank None" by (simp add: cell_blank_def)
  have DF: "?DF s wt f cell = cf_pb_decode_array mem s f cell wt df" for s wt cell
    using alloc(1) func by (simp add: cf_pb_decode_field_def)
  have upd: "field_update (msg_same d tabs) tabs f m m1 (set_has f (m1(fld_item_offset f := Some (Arr cap' xs'))))"
    if "list_all2 ?same xs xs'" for m1 cap' xs'
    unfolding field_update_def using that xs(1) alloc(1) by (intro disjI1 exI [of _ "Arr cap' xs'"]) (auto simp: value_same_def)
  show ?thesis
  proof (cases "cf_pb_type_packable (fld_pbtype f)")
    case True
    let ?body = "string_bytes (concat bss)" and ?tag = "tag_bytes PB_WT_STRING (fld_tag f)"
    have w: "writes (\<lambda>s. cf_pb_encode_field tabs (cf_pb_encode d tabs) s f (m (fld_item_offset f))) (?tag @ ?body)"
      using writes_array_packed [OF trip func(1) True xs(2,3)] alloc(1) by (simp add: cf_pb_encode_field_def func xs(1))
    have "\<exists>m2. decode_loop ?DF flds (in_stream ((?tag @ ?body) @ rest) (length (?tag @ ?body) + k)) m1 =
        decode_loop ?DF flds (in_stream rest k) m2 \<and> field_update (msg_same d tabs) tabs f m m1 m2"
      if a: "length (?tag @ ?body) < 2 ^ 32" for m1 rest k
    proof -
      have len: "length (concat bss) < 2 ^ 32" using a by (simp add: string_bytes_def)
      from decode_array_packed [OF trip len bl mem True alloc(2), of rest k "m1 (fld_item_offset f)"] obtain cap' xs' where
        d: "cf_pb_decode_array mem (in_stream (?body @ rest) (length ?body + k)) f (m1 (fld_item_offset f)) PB_WT_STRING df =
          Some (True, Some (Arr cap' xs'), in_stream rest k)" "list_all2 ?same xs xs'" by blast
      have "?DF (in_stream (?body @ rest) (length ?body + k)) PB_WT_STRING f (m1 (fld_item_offset f)) = Some (True, Some (Arr cap' xs'), in_stream rest k)"
        by (simp add: DF d(1))
      from decode_loop_step [OF tag _ find, where df = ?DF and msg = m1, OF _ this] upd [OF d(2), of m1 cap'] show ?thesis
        by (auto simp: add.assoc)
    qed
    with w show ?thesis unfolding field_trip_def by blast
  next
    case False
    have w: "writes (\<lambda>s. cf_pb_encode_field tabs (cf_pb_encode d tabs) s f (m (fld_item_offset f))) (tagged_bytes f bss)"
      using writes_tagged [OF trip] alloc(1) False xs(3)
      by (simp add: cf_pb_encode_field_def func xs(1) cf_pb_encode_array_def Suc_le_eq)
    have "\<exists>m2. decode_loop ?DF flds (in_stream (tagged_bytes f bss @ rest) (length (tagged_bytes f bss) + k)) m1 =
        decode_loop ?DF flds (in_stream rest k) m2 \<and> field_update (msg_same d tabs) tabs f m m1 m2"
      if a: "length (tagged_bytes f bss) < 2 ^ 32" "start_ok (msg_blank d z tabs) z tabs f (m1 (fld_item_offset f))" for m1 rest k
    proof -
      have m1: "m1 (fld_item_offset f) = Some (Arr 0 [])" using a(2) alloc(1) by (simp add: start_ok_def)
      have "\<exists>cap' xs'. decode_loop ?DF flds (in_stream (tagged_bytes f bss @ rest) (length (tagged_bytes f bss) + k)) m1 =
          decode_loop ?DF flds (in_stream rest k) (set_has f (m1(fld_item_offset f := Some (Arr cap' ([] @ xs'))))) \<and> list_all2 ?same xs xs'"
        by (rule decode_tagged [where blank = ?blank and ef = ef and df = df and mem = mem and msg = m1 and cap = 0,
              OF trip a(1) bl tag wire_known [OF x] find False off]) (simp_all add: DF mem m1 xs(3))
      then obtain cap' xs' where
        "decode_loop ?DF flds (in_stream (tagged_bytes f bss @ rest) (length (tagged_bytes f bss) + k)) m1 =
          decode_loop ?DF flds (in_stream rest k) (set_has f (m1(fld_item_offset f := Some (Arr cap' xs'))))" "list_all2 ?same xs xs'"
        by auto
      with upd [of xs' m1 cap'] show ?thesis by blast
    qed
    with w show ?thesis unfolding field_trip_def by blast
  qed
qed

lemma present_field_trip:
  assumes ih: "msgs_trip d mem tabs" and mem: "\<forall>n. mem n"
    and wf: "field_wf (\<lambda>z. msg_wf d z tabs) z tabs f m" and has: "cf_pb_field_has_data f m = Some True"
    and find: "cf_pb_find_tag flds (fld_tag f) = Some (Some f)" and off: "sets_has f \<Longrightarrow> fld_has_offset f \<noteq> fld_item_offset f"
  shows "\<exists>bs. field_trip d z mem tabs flds f m bs"
proof (cases "fld_alloctype f = CF_PB_ARRAY")
  case False
  with wf has obtain c where "fld_alloctype f = CF_PB_SCALAR \<or> fld_alloctype f = CF_PB_ONEOF"
    "m (fld_item_offset f) = Some c" "cell_wf (msg_wf d z tabs) tabs f c" "tag_ok (fld_tag f)"
    by (cases "fld_alloctype f") (auto simp: field_wf_def)
  then show ?thesis by (intro scalar_field_trip [OF ih mem]) (use find in auto)
next
  case True
  with wf has obtain cap xs where xs: "m (fld_item_offset f) = Some (Arr cap xs)" "\<forall>x \<in> set xs. cell_wf (msg_wf d False tabs) tabs f x"
    "sets_has f \<longrightarrow> xs \<noteq> []" "fld_item_size f \<noteq> 0" "tag_ok (fld_tag f)" by (auto simp: field_wf_def)
  show ?thesis
  proof (cases "xs = []")
    case False
    with xs True show ?thesis by (intro array_field_trip [OF ih mem _ True _ off]) (use find in auto)
  next
    case nil: True
    then have "\<not> sets_has f" using xs(3) by simp
    have "\<forall>x. fld_pbtype f \<noteq> CF_PB_OTHER_TYPE x" using wf has True by (auto simp: field_wf_def)
    then obtain ef where ef: "cf_pb_encfunc tabs (cf_pb_encode d tabs) f = Some ef"
      by (cases "fld_pbtype f") (auto simp: cf_pb_encfunc_def)
    have "writes (\<lambda>s. cf_pb_encode_field tabs (cf_pb_encode d tabs) s f (m (fld_item_offset f))) []"
      using writes_Nil True by (simp add: cf_pb_encode_field_def ef xs(1) nil cf_pb_encode_array_def)
    moreover have "field_update (msg_same d tabs) tabs f m m1 m1"
      if "start_ok (msg_blank d z tabs) z tabs f (m1 (fld_item_offset f))" for m1
      using that True \<open>\<not> sets_has f\<close> xs(1) nil by (simp add: field_update_def start_ok_def value_same_def)
    ultimately show ?thesis unfolding field_trip_def by (intro exI [of _ "[]"]) auto
  qed
qed

text \<open>Taking in one field leaves the others as they are.\<close>

lemma set_has_elsewhere: "sets_has f \<longrightarrow> fld_has_offset f \<noteq> i \<Longrightarrow> set_has f m i = m i"
  by (auto simp: set_has_def sets_has_def)

lemma update_has:
  assumes "field_update sub tabs f m m1 m2" "apart f f"
  shows "cf_pb_field_has_data f m2 = Some True" "value_same sub tabs f (m (fld_item_offset f)) (m2 (fld_item_offset f))"
proof -
  show "cf_pb_field_has_data f m2 = Some True" using assms unfolding field_update_def
    by (auto simp: cf_pb_field_has_data_def set_has_def sets_has_def)
  show "value_same sub tabs f (m (fld_item_offset f)) (m2 (fld_item_offset f))" using assms unfolding field_update_def apart_def
    by (auto simp: set_has_elsewhere)
qed

lemma update_other_present:
  assumes "field_update sub tabs f m m1 m2" "apart f g" "f \<noteq> g" "\<not> same_group f g"
  shows "m2 (fld_item_offset g) = m1 (fld_item_offset g)" "cf_pb_field_has_data g m2 = cf_pb_field_has_data g m1"
  using assms unfolding field_update_def apart_def
  by (auto simp: cf_pb_field_has_data_def set_has_elsewhere sets_has_def)

lemma update_other_absent:
  assumes "field_update sub tabs f m m1 m2" "apart f g" "f \<noteq> g" "same_group f g" "fld_tag f \<noteq> fld_tag g"
  shows "cf_pb_field_has_data g m2 = Some False"
  using assms unfolding field_update_def same_group_def
  by (auto simp: cf_pb_field_has_data_def set_has_def sets_has_def)

lemma one_of_group:
  assumes "cf_pb_field_has_data f m = Some True" "cf_pb_field_has_data g m = Some True" "same_group f g"
  shows "fld_tag f = fld_tag g"
  using assms by (auto simp: cf_pb_field_has_data_def same_group_def split: option.splits pb_cell.splits)

lemma find_tag_used:
  "distinct (map fld_tag (used_fields flds)) \<Longrightarrow> f \<in> set (used_fields flds) \<Longrightarrow> cf_pb_find_tag flds (fld_tag f) = Some (Some f)"
proof (induction flds)
  case (Cons g flds)
  show ?case
  proof (cases "fld_tag g = 0")
    case False
    then show ?thesis using Cons by (cases "f = g") (auto dest: set_takeWhileD)
  qed (use Cons.prems in simp)
qed simp

text \<open>
  The state of the decoder between two fields: those before the current one agree with the original
  message, those after it are as they were at the start.
\<close>

definition fields_inv :: "nat \<Rightarrow> bool \<Rightarrow> pb_tabs \<Rightarrow> cf_pb_field_t set \<Rightarrow> cf_pb_field_t set \<Rightarrow> pb_msg \<Rightarrow> pb_msg \<Rightarrow> bool" where
  "fields_inv d z tabs A B m m1 \<longleftrightarrow>
     (\<forall>g \<in> A. field_same (msg_same d tabs) tabs g m m1) \<and>
     (\<forall>g \<in> B. (cf_pb_field_has_data g m = Some True \<longrightarrow> start_ok (msg_blank d z tabs) z tabs g (m1 (fld_item_offset g))) \<and>
             (cf_pb_field_has_data g m = Some False \<longrightarrow> cf_pb_field_has_data g m1 = Some False))"

lemma fields_inv_skip:
  assumes "fields_inv d z tabs A (insert f B) m m1" "cf_pb_field_has_data f m = Some False"
  shows "fields_inv d z tabs (insert f A) B m m1"
  using assms by (auto simp: fields_inv_def field_same_def)

lemma fields_inv_step:
  assumes inv: "fields_inv d z tabs A (insert f B) m m1" and f: "cf_pb_field_has_data f m = Some True" "f \<notin> A" "f \<notin> B"
    and upd: "field_update (msg_same d tabs) tabs f m m1 m2"
    and apart: "\<forall>g \<in> insert f (A \<union> B). apart f g" and tags: "\<forall>g \<in> A \<union> B. fld_tag f \<noteq> fld_tag g"
  shows "fields_inv d z tabs (insert f A) B m m2"
proof -
  have other: "m2 (fld_item_offset g) = m1 (fld_item_offset g) \<and> cf_pb_field_has_data g m2 = cf_pb_field_has_data g m1"
    if "g \<in> A \<union> B" "\<not> same_group f g" for g
    using update_other_present [OF upd, of g] that apart f(2,3) by auto
  have grp: "\<not> same_group f g" if "g \<in> A \<union> B" "cf_pb_field_has_data g m = Some True" for g
    using one_of_group [OF f(1) that(2)] tags that(1) by auto
  have absent: "cf_pb_field_has_data g m2 = Some False" if "g \<in> A \<union> B" "cf_pb_field_has_data g m1 = Some False" for g
    using update_other_absent [OF upd, of g] other [OF that(1)] that apart f(2,3) tags by (cases "same_group f g") auto
  have "field_same (msg_same d tabs) tabs g m m2" if "g \<in> A" for g
  proof -
    from inv that obtain h where h: "cf_pb_field_has_data g m = Some h" "cf_pb_field_has_data g m1 = Some h"
      "h \<longrightarrow> value_same (msg_same d tabs) tabs g (m (fld_item_offset g)) (m1 (fld_item_offset g))"
      by (auto simp: fields_inv_def field_same_def)
    show ?thesis
    proof (cases h)
      case True
      with h grp [of g] other [of g] that show ?thesis by (auto simp: field_same_def)
    next
      case False
      with h absent [of g] that show ?thesis by (auto simp: field_same_def)
    qed
  qed
  moreover have "field_same (msg_same d tabs) tabs f m m2"
    using update_has [OF upd] apart f(1) by (auto simp: field_same_def)
  moreover have "start_ok (msg_blank d z tabs) z tabs g (m2 (fld_item_offset g))"
    if "g \<in> B" "cf_pb_field_has_data g m = Some True" for g
    using inv that grp [of g] other [of g] by (simp add: fields_inv_def)
  moreover have "cf_pb_field_has_data g m2 = Some False" if "g \<in> B" "cf_pb_field_has_data g m = Some False" for g
    using inv that absent [of g] by (simp add: fields_inv_def)
  ultimately show ?thesis by (auto simp: fields_inv_def)
qed

lemma fields_trip:
  assumes ih: "msgs_trip d mem tabs" and mem: "\<forall>n. mem n" and lay: "layout_ok flds"
    and wf: "\<forall>f \<in> set (used_fields flds). field_wf (\<lambda>z. msg_wf d z tabs) z tabs f m"
    and split: "flds = pre @ post" and pre: "\<forall>f \<in> set pre. fld_tag f \<noteq> 0"
  shows "\<exists>bs. writes (\<lambda>s. encode_fields (cf_pb_encode_field tabs (cf_pb_encode d tabs)) s post m) bs \<and>
     (length bs < 2 ^ 32 \<longrightarrow>
        (\<forall>m1 rest. fields_inv d z tabs (set pre) (set (used_fields post)) m m1 \<longrightarrow>
           (\<exists>m'. decode_loop (cf_pb_decode_field mem tabs (cf_pb_decode d mem tabs)) flds (in_stream (bs @ rest) (length bs)) m1 =
                   Some (True, m', in_stream rest 0) \<and>
                 fields_inv d z tabs (set (used_fields flds)) {} m m')))"
  using split pre
proof (induction post arbitrary: pre)
  case Nil
  with lay have False by (auto simp: layout_ok_def list_ex_iff)
  then show ?case ..
next
  case (Cons f post)
  let ?DF = "cf_pb_decode_field mem tabs (cf_pb_decode d mem tabs)" and ?EF = "cf_pb_encode_field tabs (cf_pb_encode d tabs)"
  show ?case
  proof (cases "fld_tag f = 0")
    case True
    have used: "used_fields flds = pre" using Cons.prems True by (simp add: takeWhile_append2)
    have "decode_loop ?DF flds (in_stream rest 0) m1 = Some (True, m1, in_stream rest 0)" for m1 rest
      by (simp add: decode_loop.simps)
    then show ?thesis using writes_Nil True used by (intro exI [of _ "[]"]) simp
  next
    case False
    have used: "used_fields flds = pre @ f # used_fields post" using Cons.prems False by (simp add: takeWhile_append2)
    have IH: "\<exists>bs. writes (\<lambda>s. encode_fields ?EF s post m) bs \<and>
      (length bs < 2 ^ 32 \<longrightarrow>
        (\<forall>m1 rest. fields_inv d z tabs (insert f (set pre)) (set (used_fields post)) m m1 \<longrightarrow>
           (\<exists>m'. decode_loop ?DF flds (in_stream (bs @ rest) (length bs)) m1 = Some (True, m', in_stream rest 0) \<and>
                 fields_inv d z tabs (set (used_fields flds)) {} m m')))"
      using Cons.IH [of "pre @ [f]"] Cons.prems False by simp
    then obtain bs where bs: "writes (\<lambda>s. encode_fields ?EF s post m) bs"
      "\<And>m1 rest. length bs < 2 ^ 32 \<Longrightarrow> fields_inv d z tabs (insert f (set pre)) (set (used_fields post)) m m1 \<Longrightarrow>
           \<exists>m'. decode_loop ?DF flds (in_stream (bs @ rest) (length bs)) m1 = Some (True, m', in_stream rest 0) \<and>
                 fields_inv d z tabs (set (used_fields flds)) {} m m'" by blast
    from wf used have wff: "field_wf (\<lambda>z. msg_wf d z tabs) z tabs f m" by simp
    then obtain h where h: "cf_pb_field_has_data f m = Some h" by (auto simp: field_wf_def)
    show ?thesis
    proof (cases h)
      case False
      with h \<open>fld_tag f \<noteq> 0\<close> bs show ?thesis by (intro exI [of _ bs]) (auto dest: fields_inv_skip)
    next
      case True
      with h have has: "cf_pb_field_has_data f m = Some True" by simp
      have lay': "\<forall>g \<in> set (used_fields flds). apart f g" "distinct (map fld_tag (used_fields flds))"
        using lay used by (auto simp: layout_ok_def)
      have find: "cf_pb_find_tag flds (fld_tag f) = Some (Some f)" using find_tag_used [OF lay'(2)] used by simp
      have off: "sets_has f \<Longrightarrow> fld_has_offset f \<noteq> fld_item_offset f" using lay'(1) used by (simp add: apart_def)
      from present_field_trip [OF ih mem wff has find off] obtain cs where cs: "field_trip d z mem tabs flds f m cs" by blast
      have w: "writes (\<lambda>s. encode_fields ?EF s (f # post) m) (cs @ bs)"
        using writes_seq [of "\<lambda>s. ?EF s f (m (fld_item_offset f))" cs "\<lambda>s. encode_fields ?EF s post m" bs] cs bs(1) False \<open>fld_tag f \<noteq> 0\<close> has
        by (simp add: field_trip_def)
      have "\<exists>m'. decode_loop ?DF flds (in_stream ((cs @ bs) @ rest) (length (cs @ bs))) m1 = Some (True, m', in_stream rest 0) \<and>
          fields_inv d z tabs (set (used_fields flds)) {} m m'"
        if a: "length (cs @ bs) < 2 ^ 32" "fields_inv d z tabs (set pre) (insert f (set (used_fields post))) m m1" for m1 rest
      proof -
        have st: "start_ok (msg_blank d z tabs) z tabs f (m1 (fld_item_offset f))" using a(2) has by (simp add: fields_inv_def)
        from cs a(1) st have "\<exists>m2. decode_loop ?DF flds (in_stream (cs @ (bs @ rest)) (length cs + length bs)) m1 =
             decode_loop ?DF flds (in_stream (bs @ rest) (length bs)) m2 \<and> field_update (msg_same d tabs) tabs f m m1 m2"
          unfolding field_trip_def by auto
        then obtain m2 where m2: "decode_loop ?DF flds (in_stream (cs @ (bs @ rest)) (length cs + length bs)) m1 =
             decode_loop ?DF flds (in_stream (bs @ rest) (length bs)) m2" "field_update (msg_same d tabs) tabs f m m1 m2" by blast
        have "fields_inv d z tabs (insert f (set pre)) (set (used_fields post)) m m2"
          by (rule fields_inv_step [OF a(2) has _ _ m2(2)]) (use lay' used in \<open>auto simp: image_iff\<close>)
        from bs(2) [OF _ this, of rest] a(1) m2(1) show ?thesis by simp
      qed
      with w \<open>fld_tag f \<noteq> 0\<close> show ?thesis by (intro exI [of _ "cs @ bs"]) simp
    qed
  qed
qed

lemma fields_inv_start:
  assumes "\<forall>f \<in> set flds. field_wf (\<lambda>z. msg_wf d z tabs) z tabs f m" "\<forall>f \<in> set flds. field_blank (msg_blank d z tabs) z tabs f m0"
  shows "fields_inv d z tabs {} (set flds) m m0"
proof -
  have "start_ok (msg_blank d z tabs) z tabs f (m0 (fld_item_offset f))"
    if "f \<in> set flds" "cf_pb_field_has_data f m = Some True" for f
    using bspec [OF assms(1) that(1)] bspec [OF assms(2) that(1)] that(2) by (auto simp: field_wf_def field_blank_def start_ok_def)
  moreover have "cf_pb_field_has_data f m0 = Some False"
    if f: "f \<in> set flds" "cf_pb_field_has_data f m = Some False" for f
  proof -
    from bspec [OF assms(1) f(1)] f(2) have "z" "fld_tag f \<noteq> 0" by (auto simp: field_wf_def tag_ok_def)
    with bspec [OF assms(2) f(1)] f(2) show ?thesis
      by (auto simp: field_blank_def cf_pb_field_has_data_def split: if_splits)
  qed
  ultimately show ?thesis by (simp add: fields_inv_def)
qed

lemma msgs_trip: "\<forall>n. mem n \<Longrightarrow> msgs_trip d mem tabs"
proof (induction d)
  case (Suc d)
  have "\<exists>bs. writes (\<lambda>s. cf_pb_encode (Suc d) tabs s flds m) bs \<and>
      (length bs < 2 ^ 32 \<longrightarrow>
         (\<forall>m0 rest. msg_blank (Suc d) z tabs flds m0 \<longrightarrow>
            (\<exists>m'. cf_pb_decode (Suc d) mem tabs (in_stream (bs @ rest) (length bs)) flds m0 = Some (True, m', in_stream rest 0) \<and>
               msg_same (Suc d) tabs flds m m')))"
    if wf: "msg_wf (Suc d) z tabs flds m" for z flds m
  proof -
    from wf have "layout_ok flds" and wff: "\<forall>f \<in> set (used_fields flds). field_wf (\<lambda>z. msg_wf d z tabs) z tabs f m" by simp_all
    from fields_trip [OF Suc.IH [OF Suc.prems] Suc.prems this, of "[]" flds] obtain bs where
      w: "writes (\<lambda>s. encode_fields (cf_pb_encode_field tabs (cf_pb_encode d tabs)) s flds m) bs" and
      r: "\<And>m1 rest. length bs < 2 ^ 32 \<Longrightarrow> fields_inv d z tabs {} (set (used_fields flds)) m m1 \<Longrightarrow>
           (\<exists>m'. decode_loop (cf_pb_decode_field mem tabs (cf_pb_decode d mem tabs)) flds (in_stream (bs @ rest) (length bs)) m1 =
                   Some (True, m', in_stream rest 0) \<and>
                 fields_inv d z tabs (set (used_fields flds)) {} m m')" by auto
    have "\<exists>m'. cf_pb_decode (Suc d) mem tabs (in_stream (bs @ rest) (length bs)) flds m0 = Some (True, m', in_stream rest 0) \<and>
        msg_same (Suc d) tabs flds m m'"
      if "length bs < 2 ^ 32" "msg_blank (Suc d) z tabs flds m0" for m0 rest
      using r [OF that(1) fields_inv_start [OF wff], of m0 rest] that(2) by (auto simp: fields_inv_def)
    with w show ?thesis by (intro exI [of _ bs]) simp
  qed
  then show ?case unfolding msgs_trip_def by blast
qed (simp add: msgs_trip_def)

lemma pack_writes:
  assumes "writes (\<lambda>s. cf_pb_encode d tabs s flds m) bs"
  shows "cf_pb_get_encoded_size d tabs flds m = Some (Some (length bs))"
    "cf_pb_pack d mem tabs m flds = Some (if mem (length bs) \<and> bs \<noteq> [] then (length bs, Some bs) else (0, None))"
proof -
  have "cf_pb_encode d tabs PB_OSTREAM_SIZING flds m = Some (True, os_put bs PB_OSTREAM_SIZING)"
    using assms by (simp add: writes_def os_room_def PB_OSTREAM_SIZING_def)
  then show size: "cf_pb_get_encoded_size d tabs flds m = Some (Some (length bs))"
    by (simp add: cf_pb_get_encoded_size_def os_put_def PB_OSTREAM_SIZING_def)
  have "cf_pb_encode d tabs (pb_ostream_from_buffer (length bs) (length bs)) flds m =
      Some (True, os_put bs (pb_ostream_from_buffer (length bs) (length bs)))"
    using assms by (simp add: writes_def os_room_def pb_ostream_from_buffer_def)
  then show "cf_pb_pack d mem tabs m flds = Some (if mem (length bs) \<and> bs \<noteq> [] then (length bs, Some bs) else (0, None))"
    by (simp add: cf_pb_pack_def size os_put_def pb_ostream_from_buffer_def)
qed

lemma msg_wf_writes: "msg_wf d z tabs flds m \<Longrightarrow> \<exists>bs. writes (\<lambda>s. cf_pb_encode d tabs s flds m) bs"
  using msgs_trip [of "\<lambda>_. True" d tabs] unfolding msgs_trip_def by blast

text \<open>A message of the example program.\<close>

definition example_msg :: pb_msg where
  "example_msg =
     [0 \<mapsto> W32 (-5), 4 \<mapsto> Flag True, 8 \<mapsto> Msg [0 \<mapsto> W32 300, 8 \<mapsto> Str (Some [104, 105]), 16 \<mapsto> Flag True],
      32 \<mapsto> Arr 4 [W32 1, W32 300], 64 \<mapsto> Arr 1 [Str (Some [97])], 96 \<mapsto> W32 5, 104 \<mapsto> Flag True]"

lemmas example_defs = example_shape_def example_point_def example_tabs_def example_field_def

lemma example_layouts: "layout_ok example_point" "layout_ok example_shape"
  by (simp_all add: example_defs layout_ok_def apart_def same_group_def sets_has_def)

lemma example_point_wf: "msg_wf (Suc 0) True example_tabs example_point [0 \<mapsto> W32 300, 8 \<mapsto> Str (Some [104, 105]), 16 \<mapsto> Flag True]"
proof -
  have "\<forall>f \<in> set (used_fields example_point). field_wf sub True example_tabs f [0 \<mapsto> W32 300, 8 \<mapsto> Str (Some [104, 105]), 16 \<mapsto> Flag True]" for sub
    by (simp add: example_defs field_wf_def tag_ok_def cf_pb_field_has_data_def cell_wf_def ex_bool_eq)
  with example_layouts(1) show ?thesis by simp
qed

lemma example_msg_wf: "msg_wf (Suc (Suc 0)) True example_tabs example_shape example_msg"
proof -
  have pt: "example_tabs 0 = example_point" by (simp add: example_tabs_def)
  have "\<forall>f \<in> set (used_fields example_shape). field_wf (\<lambda>z. msg_wf (Suc 0) z example_tabs) True example_tabs f example_msg"
    using example_point_wf unfolding example_shape_def example_field_def
    by (simp add: field_wf_def tag_ok_def cf_pb_field_has_data_def cell_wf_def example_msg_def sets_has_def pt ex_bool_eq del: msg_wf.simps)
  with example_layouts(2) show ?thesis by simp
qed

lemma example_blank_ok: "msg_blank (Suc (Suc 0)) True example_tabs example_shape example_blank"
  by (simp add: example_defs field_blank_def cell_blank_def example_blank_def)

lemma example_packed:
  "cf_pb_pack (Suc (Suc 0)) (\<lambda>_. True) example_tabs example_msg example_shape =
     Some (21, Some [8, 9, 18, 7, 8, 172, 2, 18, 2, 104, 105, 26, 3, 1, 172, 2, 34, 1, 97, 40, 1])"
  by code_simp

text \<open>C19. Bounds of packing: for every message that its table describes, \<open>cf_pb_get_encoded_size\<close> succeeds,
  and \<open>cf_pb_pack\<close> encodes into a block of exactly that size and fills it, without writing past its end;
  it fails only when the block cannot be allocated or the encoding is empty.\<close>

theorem cf_pb_pack_exact:
  assumes "msg_wf d True tabs flds m"
  shows "\<exists>bs. cf_pb_get_encoded_size d tabs flds m = Some (Some (length bs)) \<and>
     cf_pb_pack d mem tabs m flds = Some (if mem (length bs) \<and> bs \<noteq> [] then (length bs, Some bs) else (0, None))"
  using msg_wf_writes [OF assms] pack_writes by blast

theorem cf_pb_pack_exact_witness:
  "\<exists>bs. cf_pb_get_encoded_size (Suc (Suc 0)) example_tabs example_shape example_msg = Some (Some (length bs)) \<and>
     cf_pb_pack (Suc (Suc 0)) (\<lambda>_. True) example_tabs example_msg example_shape = Some (if bs \<noteq> [] then (length bs, Some bs) else (0, None))"
  using cf_pb_pack_exact [OF example_msg_wf, of "\<lambda>_. True"] by simp



end
