(* ===== verification/Co_Waiters.thy ===== *)
theory Co_Waiters
  imports Cclist "HOL-Library.Monad_Syntax"
begin

text \<open>
  The waiters of the coroutine scheduler, src/cothread/co-scheduler.c. A coroutine that waits for a
  socket, a lock or a time owns an \<open>io_waiter\<close> in the list of its core, which is a \<open>cclist\<close>, and is
  chained through its \<open>prev\<close> and \<open>next\<close> fields into the queue of the object (\<open>struct iorq\<close>) it waits for;
  threads outside of the scheduler keep the waiter on their stack. The theory models the queue
  operations, the delivery of an event to a queue, and the walk over the waiters of a core that
  selects the coroutines to resume. \<open>None\<close> is undefined behaviour or the end of the process by
  \<open>raise(SIGINT)\<close> or \<open>exit(1)\<close>.
\<close>

section \<open>Data\<close>

definition EPOLLIN :: u32 where "EPOLLIN = 0x001"
definition EPOLLOUT :: u32 where "EPOLLOUT = 0x004"
definition EPOLLERR :: u32 where "EPOLLERR = 0x008"
definition EPOLLHUP :: u32 where "EPOLLHUP = 0x010"
definition EPOLLRDHUP :: u32 where "EPOLLRDHUP = 0x2000"

definition UNMASKED_EVENTS :: u32 where
  "UNMASKED_EVENTS = EPOLLERR OR EPOLLHUP OR EPOLLRDHUP"

definition MTX_WAKEUP_WAITING :: u32 where "MTX_WAKEUP_WAITING = 0x01"
definition MTX_WAKEUP_EVENT :: u32 where "MTX_WAKEUP_EVENT = 0x02"
definition CO_YIELD :: u32 where "CO_YIELD = 0x04"

definition int_max :: int where "int_max = 2147483647"

text \<open>The address of a waiter: a node in the list of a core, or a variable of some thread.\<close>

datatype wref = Wnode nat nat | Wstack nat

record io_waiter =
  iw_tmo :: int
  iw_prev :: "wref option"
  iw_next :: "wref option"
  iw_co :: "nat option"
  iw_mask :: u32
  iw_events :: u32
  iw_revents :: u32
  iw_flags :: u32

record iorq =
  rq_head :: "wref option"
  rq_tail :: "wref option"
  rq_so :: int
  rq_type :: int

definition iowait_io :: int where "iowait_io = 0"
definition iowait_eventfd :: int where "iowait_eventfd = 1"

text \<open>
  The memory of the scheduler: the list of waiters of each core, the waiters on stacks, and for each
  coroutine whether its scheduler data is set (\<open>co_set_scheduler_data\<close>).
\<close>

record sched_mem =
  sm_waiters :: "nat \<Rightarrow> io_waiter cclist"
  sm_stack :: "nat \<Rightarrow> io_waiter option"
  sm_data :: "nat \<Rightarrow> bool"

fun wget :: "sched_mem \<Rightarrow> wref \<Rightarrow> io_waiter option" where
  "wget m (Wnode c p) = node_item (list_mem (sm_waiters m c) p)"
| "wget m (Wstack v) = sm_stack m v"

fun wput :: "wref \<Rightarrow> io_waiter \<Rightarrow> sched_mem \<Rightarrow> sched_mem" where
  "wput (Wnode c p) w m =
     m\<lparr>sm_waiters := (sm_waiters m)(c := (sm_waiters m c)\<lparr>list_mem := set_item w p (list_mem (sm_waiters m c))\<rparr>)\<rparr>"
| "wput (Wstack v) w m = m\<lparr>sm_stack := (sm_stack m)(v := Some w)\<rparr>"

text \<open>An update of one field of the waiter at an address.\<close>

definition wset :: "(io_waiter \<Rightarrow> io_waiter) \<Rightarrow> wref \<Rightarrow> sched_mem \<Rightarrow> sched_mem ub" where
  "wset f a m = map_option (\<lambda>w. wput a (f w) m) (wget m a)"

section \<open>Operations\<close>

text \<open>
  The consistency test. \<open>E_CHECK\<close> is a conjunction without parentheses around it, so that the
  negation in \<open>if ( !E_CHECK(e) )\<close> covers its first conjunct only.
\<close>

definition not_E_CHECK :: "iorq \<Rightarrow> bool" where
  "not_E_CHECK e \<longleftrightarrow>
     \<not> (rq_type e = iowait_io \<or> rq_type e = iowait_eventfd) \<and> rq_so e > 0 \<and>
     ((rq_head e \<noteq> None \<and> rq_tail e \<noteq> None) \<or> (rq_head e = None \<and> rq_tail e = None))"

definition e_check :: "iorq \<Rightarrow> unit ub" where
  "e_check e = (if not_E_CHECK e then None else Some ())"

definition epoll_queue :: "iorq \<Rightarrow> wref option \<Rightarrow> sched_mem \<Rightarrow> (iorq \<times> sched_mem) ub" where
  "epoll_queue e wp m =
     do { _ \<leftarrow> e_check e;
          (case wp of
             None \<Rightarrow> Some (e, m)
           | Some w \<Rightarrow>
               do { m \<leftarrow> wset (iw_next_update (\<lambda>_. None)) w m;
                    m \<leftarrow> (case rq_tail e of
                            None \<Rightarrow> wset (iw_prev_update (\<lambda>_. None)) w m
                          | Some t \<Rightarrow> do { m \<leftarrow> wset (iw_prev_update (\<lambda>_. Some t)) w m;
                                           wset (iw_next_update (\<lambda>_. Some w)) t m });
                    let e = e\<lparr>rq_tail := Some w\<rparr>;
                    let e = (if rq_head e = None then e\<lparr>rq_head := Some w\<rparr> else e);
                    _ \<leftarrow> e_check e;
                    Some (e, m) }) }"

definition epoll_dequeue :: "iorq \<Rightarrow> wref option \<Rightarrow> sched_mem \<Rightarrow> (iorq \<times> sched_mem) ub" where
  "epoll_dequeue e wp m =
     (case wp of
        None \<Rightarrow> Some (e, m)
      | Some w \<Rightarrow>
          do { _ \<leftarrow> e_check e;
               x \<leftarrow> wget m w;
               let e = (if rq_tail e = Some w then e\<lparr>rq_tail := iw_prev x\<rparr> else e);
               m \<leftarrow> (case iw_prev x of None \<Rightarrow> Some m | Some p \<Rightarrow> wset (iw_next_update (\<lambda>_. iw_next x)) p m);
               x \<leftarrow> wget m w;
               m \<leftarrow> (case iw_next x of None \<Rightarrow> Some m | Some q \<Rightarrow> wset (iw_prev_update (\<lambda>_. iw_prev x)) q m);
               x \<leftarrow> wget m w;
               let e = (if rq_head e = Some w then e\<lparr>rq_head := iw_next x\<rparr> else e);
               _ \<leftarrow> e_check e;
               Some (e, m) })"

text \<open>
  The loop of \<open>epoll_listener_thread\<close> over the waiters of the object an event belongs to; it counts
  those that can run.
\<close>

partial_function (option) deliver_loop :: "u32 \<Rightarrow> wref option \<Rightarrow> nat \<Rightarrow> sched_mem \<Rightarrow> (nat \<times> sched_mem) option" where
  "deliver_loop ev wp c m =
     (case wp of
        None \<Rightarrow> Some (c, m)
      | Some w \<Rightarrow>
          do { m \<leftarrow> wset (iw_events_update (\<lambda>x. x OR ev)) w m;
               x \<leftarrow> wget m w;
               deliver_loop ev (iw_next x) (if iw_events x AND iw_mask x \<noteq> 0 \<and> iw_co x \<noteq> None then Suc c else c) m })"

text \<open>One event: the result tells whether the waiting cores are woken (\<open>epoll_listener_signal\<close>).\<close>

definition epoll_listener_event :: "iorq \<Rightarrow> u32 \<Rightarrow> sched_mem \<Rightarrow> (bool \<times> sched_mem) ub" where
  "epoll_listener_event e ev m =
     do { _ \<leftarrow> e_check e;
          (c, m) \<leftarrow> deliver_loop ev (rq_head e) 0 m;
          Some (c \<noteq> 0, m) }"

definition set_waiters :: "nat \<Rightarrow> io_waiter cclist \<Rightarrow> sched_mem \<Rightarrow> sched_mem" where
  "set_waiters core cc m = m\<lparr>sm_waiters := (sm_waiters m)(core := cc)\<rparr>"

definition add_waiter :: "nat \<Rightarrow> io_waiter \<Rightarrow> sched_mem \<Rightarrow> ((errno + nat) \<times> sched_mem) ub" where
  "add_waiter core w m =
     do { (r, cc) \<leftarrow> cclist_push_back (sm_waiters m core) (Some (w\<lparr>iw_mask := iw_mask w OR UNMASKED_EVENTS\<rparr>));
          Some (r, set_waiters core cc m) }"

definition remove_waiter :: "nat \<Rightarrow> nat option \<Rightarrow> sched_mem \<Rightarrow> sched_mem ub" where
  "remove_waiter core node m =
     (case node of
        None \<Rightarrow> Some m
      | Some p \<Rightarrow> do { cc \<leftarrow> cclist_erase (sm_waiters m core) (Some p); Some (set_waiters core cc m) })"

text \<open>The array \<open>cc\<close> of \<open>ccmax\<close> entries is the list of those filled so far.\<close>

definition add_signaled :: "wref \<Rightarrow> nat \<Rightarrow> nat \<Rightarrow> nat list \<Rightarrow> sched_mem \<Rightarrow> (nat list \<times> sched_mem) ub" where
  "add_signaled a co ccmax cc m =
     do { m \<leftarrow> wset (\<lambda>w. w\<lparr>iw_revents := iw_events w, iw_events := iw_events w AND NOT (iw_mask w)\<rparr>) a m;
          if sm_data m co then Some (cc, m)
          else if length cc < ccmax then Some (cc @ [co], m\<lparr>sm_data := (sm_data m)(co := True)\<rparr>)
          else None }"

partial_function (option) walk_loop ::
  "nat \<Rightarrow> int \<Rightarrow> nat \<Rightarrow> nat option \<Rightarrow> nat list \<Rightarrow> int \<Rightarrow> sched_mem \<Rightarrow> (nat list \<times> int \<times> sched_mem) option" where
  "walk_loop core ct ccmax node cc tmo m =
     (case node of
        None \<Rightarrow> Some (cc, tmo, m)
      | Some p \<Rightarrow>
          do { w \<leftarrow> wget m (Wnode core p);
               let nxt = node_next (list_mem (sm_waiters m core) p);
               (case iw_co w of
                  None \<Rightarrow> walk_loop core ct ccmax nxt cc tmo m
                | Some co \<Rightarrow>
                    if iw_flags w AND CO_YIELD \<noteq> 0
                    then do { m \<leftarrow> wset (iw_flags_update (\<lambda>f. f AND NOT CO_YIELD)) (Wnode core p) m;
                              walk_loop core ct ccmax nxt cc 0 m }
                    else if iw_events w AND iw_mask w \<noteq> 0 \<or> iw_flags w AND MTX_WAKEUP_EVENT \<noteq> 0
                    then do { (cc, m) \<leftarrow> add_signaled (Wnode core p) co ccmax cc m;
                              if length cc = ccmax then Some (cc, tmo, m) else walk_loop core ct ccmax nxt cc tmo m }
                    else if iw_tmo w > 0
                    then if ct \<ge> iw_tmo w
                         then do { (cc, m) \<leftarrow> add_signaled (Wnode core p) co ccmax cc m;
                                   if length cc = ccmax then Some (cc, tmo, m) else walk_loop core ct ccmax nxt cc tmo m }
                         else walk_loop core ct ccmax nxt cc (if iw_tmo w - ct < tmo then iw_tmo w - ct else tmo) m
                    else if iw_tmo w = 0 then None
                    else walk_loop core ct ccmax nxt cc tmo m) })"

definition walk_waiters_list :: "nat \<Rightarrow> int \<Rightarrow> nat \<Rightarrow> sched_mem \<Rightarrow> (nat list \<times> int \<times> sched_mem) ub" where
  "walk_waiters_list core ct ccmax m =
     do { (cc, tmo, m) \<leftarrow> walk_loop core ct ccmax (list_head (sm_waiters m core)) [] int_max m;
          Some (cc, tmo, m\<lparr>sm_data := (\<lambda>co. if co \<in> set cc then False else sm_data m co)\<rparr>) }"

declare deliver_loop.simps [code] walk_loop.simps [code]

section \<open>Reading and writing waiters\<close>

lemma wget_wput: "wget (wput a w m) b = (if a = b then Some w else wget m b)"
  by (cases a; cases b) (auto simp: set_item_def)

lemma wput_waiters [simp]:
  "list_head (sm_waiters (wput a w m) c) = list_head (sm_waiters m c)"
  "list_tail (sm_waiters (wput a w m) c) = list_tail (sm_waiters m c)"
  "list_heap (sm_waiters (wput a w m) c) = list_heap (sm_waiters m c)"
  "node_next (list_mem (sm_waiters (wput a w m) c) p) = node_next (list_mem (sm_waiters m c) p)"
  "node_prev (list_mem (sm_waiters (wput a w m) c) p) = node_prev (list_mem (sm_waiters m c) p)"
  "sm_data (wput a w m) = sm_data m"
  by (cases a; simp)+

lemma wput_dseg [simp]: "dseg (list_mem (sm_waiters (wput a w m) c)) pr p as pr' p' = dseg (list_mem (sm_waiters m c)) pr p as pr' p'"
  by (cases a) simp_all

lemma wput_inv [simp]: "cclist_inv B (sm_waiters (wput a w m) c) hs = cclist_inv B (sm_waiters m c) hs"
  by (simp add: cclist_inv_def)

lemma wset_Some: "wget m a = Some w \<Longrightarrow> wset f a m = Some (wput a (f w) m)"
  by (simp add: wset_def)

lemma e_check_ok [simp]: "rq_type e = iowait_io \<or> rq_type e = iowait_eventfd \<Longrightarrow> e_check e = Some ()"
  by (simp add: e_check_def not_E_CHECK_def)

section \<open>Queues of waiters\<close>

text \<open>
  \<open>wseg g pr p ws pr' p'\<close>: the waiters \<open>ws\<close> are linked from \<open>p\<close> in both directions, as the nodes of a
  \<open>cclist\<close> are; \<open>g\<close> reads a waiter.
\<close>

fun wseg :: "(wref \<Rightarrow> io_waiter option) \<Rightarrow> wref option \<Rightarrow> wref option \<Rightarrow> wref list \<Rightarrow> wref option \<Rightarrow> wref option \<Rightarrow> bool" where
  "wseg g pr p [] pr' p' \<longleftrightarrow> pr = pr' \<and> p = p'"
| "wseg g pr p (a # as) pr' p' \<longleftrightarrow>
     p = Some a \<and> (case g a of None \<Rightarrow> False | Some w \<Rightarrow> iw_prev w = pr \<and> wseg g (Some a) (iw_next w) as pr' p')"

definition rq_inv :: "sched_mem \<Rightarrow> iorq \<Rightarrow> wref list \<Rightarrow> bool" where
  "rq_inv m e ws \<longleftrightarrow>
     wseg (wget m) None (rq_head e) ws (rq_tail e) None \<and> distinct ws \<and>
     (rq_type e = iowait_io \<or> rq_type e = iowait_eventfd)"

definition payload :: "io_waiter \<Rightarrow> io_waiter" where
  "payload w = w\<lparr>iw_prev := None, iw_next := None\<rparr>"

text \<open>Only links of the given waiters may differ.\<close>

definition relinked :: "wref set \<Rightarrow> sched_mem \<Rightarrow> sched_mem \<Rightarrow> bool" where
  "relinked A m m' \<longleftrightarrow>
     (\<forall>a. a \<notin> A \<longrightarrow> wget m' a = wget m a) \<and> (\<forall>a. map_option payload (wget m' a) = map_option payload (wget m a)) \<and>
     sm_data m' = sm_data m \<and> (\<forall>B c hs. cclist_inv B (sm_waiters m' c) hs = cclist_inv B (sm_waiters m c) hs)"

lemma payload_links [simp]: "payload (w\<lparr>iw_prev := p\<rparr>) = payload w" "payload (w\<lparr>iw_next := p\<rparr>) = payload w"
  by (simp_all add: payload_def)

lemma relinked_refl [simp]: "relinked A m m"
  by (simp add: relinked_def)

lemma relinked_trans: "relinked A m m1 \<Longrightarrow> relinked A m1 m2 \<Longrightarrow> relinked A m m2"
  by (simp add: relinked_def)

lemma relinked_wput: "wget m a = Some w \<Longrightarrow> payload w' = payload w \<Longrightarrow> a \<in> A \<Longrightarrow> relinked A m (wput a w' m)"
  by (auto simp: relinked_def wget_wput)

lemma relinked_valid: "relinked A m m' \<Longrightarrow> wget m' a \<noteq> None \<longleftrightarrow> wget m a \<noteq> None"
  unfolding relinked_def by (metis option.map_disc_iff)

lemma wseg_append: "wseg g pr p (as @ bs) pr' p' \<longleftrightarrow> (\<exists>r q. wseg g pr p as r q \<and> wseg g r q bs pr' p')"
  by (induction as arbitrary: pr p) (auto split: option.splits)

lemma wseg_snocE:
  assumes "wseg g pr p (as @ [a]) pr' p'"
  obtains w where "g a = Some w" "wseg g pr p as (iw_prev w) (Some a)" "iw_next w = p'" "pr' = Some a"
  using assms by (fastforce simp: wseg_append split: option.splits)

lemma wseg_frame [simp]: "a \<notin> set ws \<Longrightarrow> wseg (wget (wput a w m)) pr p ws pr' p' = wseg (wget m) pr p ws pr' p'"
  by (induction ws arbitrary: pr p) (auto simp: wget_wput split: option.splits)

lemma wseg_last: "wseg g pr p ws pr' p' \<Longrightarrow> pr' = (if ws = [] then pr else Some (last ws))"
  by (induction ws arbitrary: pr p) (auto split: option.splits if_splits)

lemma wseg_head: "wseg g pr p ws pr' p' \<Longrightarrow> p = (case ws of [] \<Rightarrow> p' | a # _ \<Rightarrow> Some a)"
  by (cases ws) auto

lemma wseg_valid: "wseg g pr p ws pr' p' \<Longrightarrow> a \<in> set ws \<Longrightarrow> g a \<noteq> None"
  by (induction ws arbitrary: pr p) (auto split: option.splits)

lemma epoll_queue_ok:
  assumes inv: "rq_inv m e ws" and w: "wget m w = Some x" "w \<notin> set ws"
  shows "\<exists>e' m'. epoll_queue e (Some w) m = Some (e', m') \<and> rq_inv m' e' (ws @ [w]) \<and> relinked (insert w (set ws)) m m' \<and>
     rq_so e' = rq_so e \<and> rq_type e' = rq_type e"
proof (cases ws rule: rev_cases)
  case Nil
  with inv have e: "rq_head e = None" "rq_tail e = None" "rq_type e = iowait_io \<or> rq_type e = iowait_eventfd"
    by (auto simp: rq_inv_def)
  then show ?thesis using w(1) Nil
    by (simp add: epoll_queue_def wset_Some wget_wput rq_inv_def relinked_def Let_def)
next
  case (snoc xs t)
  then have "wseg (wget m) None (rq_head e) (xs @ [t]) (rq_tail e) None" using inv by (simp add: rq_inv_def)
  then obtain y where y: "wget m t = Some y" "wseg (wget m) None (rq_head e) xs (iw_prev y) (Some t)" "iw_next y = None"
    and tl: "rq_tail e = Some t" by (rule wseg_snocE)
  from inv snoc tl have e: "rq_tail e = Some t" "rq_type e = iowait_io \<or> rq_type e = iowait_eventfd" "distinct xs" "t \<notin> set xs"
    by (simp_all add: rq_inv_def)
  have hd: "rq_head e \<noteq> None" using wseg_head [OF y(2)] by (auto split: list.splits)
  have wt: "w \<noteq> t" "w \<notin> set xs" using w(2) snoc by auto
  let ?m = "wput t (y\<lparr>iw_next := Some w\<rparr>) (wput w (x\<lparr>iw_next := None, iw_prev := Some t\<rparr>) (wput w (x\<lparr>iw_next := None\<rparr>) m))"
  have "epoll_queue e (Some w) m = Some (e\<lparr>rq_tail := Some w\<rparr>, ?m)"
    using w(1) y(1) wt e hd by (simp add: epoll_queue_def wset_Some wget_wput Let_def)
  moreover have "rq_inv ?m (e\<lparr>rq_tail := Some w\<rparr>) (ws @ [w])"
  proof -
    have "wseg (wget ?m) None (rq_head e) xs (iw_prev y) (Some t)" using y(2) wt e(4) by simp
    moreover have "wget ?m t = Some (y\<lparr>iw_next := Some w\<rparr>)" "wget ?m w = Some (x\<lparr>iw_next := None, iw_prev := Some t\<rparr>)"
      using wt(1) by (simp_all add: wget_wput)
    ultimately have "wseg (wget ?m) None (rq_head e) (xs @ [t, w]) (Some w) None" unfolding wseg_append by (intro exI conjI) (assumption, simp)
    with e wt snoc show ?thesis by (simp add: rq_inv_def)
  qed
  moreover have "relinked (insert w (set ws)) m ?m"
    using w(1) y(1) wt snoc by (auto simp: relinked_def wget_wput)
  ultimately show ?thesis by simp
qed

lemma epoll_dequeue_ok:
  assumes inv: "rq_inv m e (xs @ w # ys)"
  shows "\<exists>e' m'. epoll_dequeue e (Some w) m = Some (e', m') \<and> rq_inv m' e' (xs @ ys) \<and> relinked (set (xs @ w # ys)) m m' \<and>
     rq_so e' = rq_so e \<and> rq_type e' = rq_type e"
proof -
  from inv obtain x where x: "wget m w = Some x" "wseg (wget m) None (rq_head e) xs (iw_prev x) (Some w)"
      "wseg (wget m) (Some w) (iw_next x) ys (rq_tail e) None"
    and e: "distinct (xs @ w # ys)" "rq_type e = iowait_io \<or> rq_type e = iowait_eventfd"
    by (auto simp: rq_inv_def wseg_append split: option.splits)
  have pr: "iw_prev x = (if xs = [] then None else Some (last xs))" using wseg_last [OF x(2)] .
  have nx: "iw_next x = (case ys of [] \<Rightarrow> None | b # _ \<Rightarrow> Some b)" using wseg_head [OF x(3)] .
  have tail: "rq_tail e = (if ys = [] then Some w else Some (last ys))" using wseg_last [OF x(3)] .
  have head: "rq_head e = (case xs of [] \<Rightarrow> Some w | a # _ \<Rightarrow> Some a)" using wseg_head [OF x(2)] .
  show ?thesis
  proof (cases xs rule: rev_cases)
    case Nil
    show ?thesis
    proof (cases ys)
      case (Cons b zs)
      with x(3) obtain z where z: "wget m b = Some z" "iw_prev z = Some w" "wseg (wget m) (Some b) (iw_next z) zs (rq_tail e) None"
        by (auto split: option.splits)
      have "w \<noteq> b" "w \<noteq> last ys" "b \<notin> set zs" using e(1) Cons by auto
      then show ?thesis using x(1) z e(2,1) Nil Cons pr nx tail head
        by (auto simp: epoll_dequeue_def wset_Some wget_wput Let_def rq_inv_def relinked_def)
    qed (use x(1) e(2) Nil pr nx tail head in \<open>simp add: epoll_dequeue_def Let_def rq_inv_def\<close>)
  next
    case (snoc us a)
    with x(2) obtain y where y: "wget m a = Some y" "iw_next y = Some w" "wseg (wget m) None (rq_head e) us (iw_prev y) (Some a)"
      by (auto simp: wseg_append split: option.splits)
    have aw: "w \<noteq> a" "a \<notin> set us" "a \<notin> set ys" "rq_head e \<noteq> Some w" using e(1) snoc head by (cases us; auto)+
    show ?thesis
    proof (cases ys)
      case Nil
      then show ?thesis using x(1) y e(2,1) snoc aw pr nx tail
        by (auto simp: epoll_dequeue_def wset_Some wget_wput Let_def rq_inv_def relinked_def wseg_append)
    next
      case (Cons b zs)
      with x(3) obtain z where z: "wget m b = Some z" "iw_prev z = Some w" "wseg (wget m) (Some b) (iw_next z) zs (rq_tail e) None"
        by (auto split: option.splits)
      have "w \<noteq> b" "a \<noteq> b" "b \<notin> set us" "b \<notin> set zs" "rq_tail e \<noteq> Some w" using e(1) Cons snoc tail by auto
      then show ?thesis using x(1) y z e(2,1) snoc Cons aw pr nx
        by (auto simp: epoll_dequeue_def wset_Some wget_wput Let_def rq_inv_def relinked_def wseg_append)
    qed
  qed
qed

text \<open>The delivery of an event reaches every waiter of the queue and nothing else.\<close>

definition runnable :: "u32 \<Rightarrow> io_waiter \<Rightarrow> bool" where
  "runnable ev w \<longleftrightarrow> (iw_events w OR ev) AND iw_mask w \<noteq> 0 \<and> iw_co w \<noteq> None"

lemma deliver_loop_ok:
  assumes "wseg (wget m) pr p ws pr' None" "distinct ws"
  shows "\<exists>n m'. deliver_loop ev p c m = Some (c + n, m') \<and>
     (\<forall>a. wget m' a = (if a \<in> set ws then map_option (iw_events_update (\<lambda>x. x OR ev)) (wget m a) else wget m a)) \<and>
     (n = 0 \<longleftrightarrow> \<not> (\<exists>a \<in> set ws. \<exists>w. wget m a = Some w \<and> runnable ev w)) \<and> sm_data m' = sm_data m \<and>
     (\<forall>B c hs. cclist_inv B (sm_waiters m' c) hs = cclist_inv B (sm_waiters m c) hs)"
  using assms
proof (induction ws arbitrary: pr p c m)
  case Nil
  then show ?case by (auto simp: deliver_loop.simps [of ev None])
next
  case (Cons a ws)
  from Cons.prems obtain w where w: "p = Some a" "wget m a = Some w" "wseg (wget m) (Some a) (iw_next w) ws pr' None" "a \<notin> set ws" "distinct ws"
    by (auto split: option.splits)
  let ?w = "iw_events_update (\<lambda>x. x OR ev) w" and ?c = "if runnable ev w then Suc c else c"
  have "wseg (wget (wput a ?w m)) (Some a) (iw_next w) ws pr' None" using w(3,4) by simp
  from Cons.IH [OF this w(5), of ?c] obtain n m' where IH:
    "deliver_loop ev (iw_next w) ?c (wput a ?w m) = Some (?c + n, m')"
    "\<forall>b. wget m' b = (if b \<in> set ws then map_option (iw_events_update (\<lambda>x. x OR ev)) (wget (wput a ?w m) b) else wget (wput a ?w m) b)"
    "n = 0 \<longleftrightarrow> \<not> (\<exists>b \<in> set ws. \<exists>w'. wget (wput a ?w m) b = Some w' \<and> runnable ev w')"
    "sm_data m' = sm_data m" "\<forall>B c hs. cclist_inv B (sm_waiters m' c) hs = cclist_inv B (sm_waiters m c) hs" by auto
  have "deliver_loop ev p c m = deliver_loop ev (iw_next w) ?c (wput a ?w m)"
    using w(1,2) by (simp add: deliver_loop.simps [of ev "Some a"] wset_Some wget_wput runnable_def)
  moreover have "?c + n = c + ((if runnable ev w then 1 else 0) + n)" by simp
  moreover have "\<forall>b. wget m' b = (if b \<in> set (a # ws) then map_option (iw_events_update (\<lambda>x. x OR ev)) (wget m b) else wget m b)"
    using IH(2) w(2,4) by (simp add: wget_wput)
  moreover have "(\<exists>b \<in> set ws. \<exists>w'. wget (wput a ?w m) b = Some w' \<and> runnable ev w') \<longleftrightarrow> (\<exists>b \<in> set ws. \<exists>w'. wget m b = Some w' \<and> runnable ev w')"
    using w(4) by (auto simp: wget_wput)
  then have "((if runnable ev w then 1 else 0) + n = 0) \<longleftrightarrow> \<not> (\<exists>b \<in> set (a # ws). \<exists>w'. wget m b = Some w' \<and> runnable ev w')"
    using IH(3) w(2) by simp
  ultimately show ?case using IH(1,4,5)
    by (intro exI [of _ "(if runnable ev w then 1 else 0) + n"] exI [of _ m']) simp
qed

lemma wseg_events:
  assumes "\<forall>a \<in> set ws. wget m' a = map_option (iw_events_update (\<lambda>x. x OR ev)) (wget m a)"
  shows "wseg (wget m') pr p ws pr' p' = wseg (wget m) pr p ws pr' p'"
  using assms by (induction ws arbitrary: pr p) (auto split: option.splits)

section \<open>The interface of a queue of waiters\<close>

text \<open>
  What the locks and the sockets rely on: a state holds the waiters \<open>ps\<close> in order; a waiter enters at
  the end, leaves from any place, and the others keep their order.
\<close>

locale intrusive_queue =
  fixes enq :: "'s \<Rightarrow> 'p \<Rightarrow> 's ub" and deq :: "'s \<Rightarrow> 'p \<Rightarrow> 's ub"
    and qrep :: "'s \<Rightarrow> 'p list \<Rightarrow> bool" and valid :: "'s \<Rightarrow> 'p \<Rightarrow> bool"
  assumes qdistinct: "qrep s ps \<Longrightarrow> distinct ps"
    and enq_ok: "qrep s ps \<Longrightarrow> valid s p \<Longrightarrow> p \<notin> set ps \<Longrightarrow>
      \<exists>s'. enq s p = Some s' \<and> qrep s' (ps @ [p]) \<and> (\<forall>q. valid s' q = valid s q)"
    and deq_ok: "qrep s (ps @ p # qs) \<Longrightarrow> \<exists>s'. deq s p = Some s' \<and> qrep s' (ps @ qs) \<and> (\<forall>q. valid s' q = valid s q)"

datatype 'p wait_op = Enter 'p | Leave 'p

text \<open>Runs of a client that enters only waiters that are outside and takes out only those inside.\<close>

fun wait_run :: "('s \<Rightarrow> 'p \<Rightarrow> 's ub) \<Rightarrow> ('s \<Rightarrow> 'p \<Rightarrow> 's ub) \<Rightarrow> 's \<Rightarrow> 'p wait_op list \<Rightarrow> 's ub" where
  "wait_run en de s [] = Some s"
| "wait_run en de s (Enter p # ops) = do { s \<leftarrow> en s p; wait_run en de s ops }"
| "wait_run en de s (Leave p # ops) = do { s \<leftarrow> de s p; wait_run en de s ops }"

fun wait_spec :: "'p list \<Rightarrow> 'p wait_op list \<Rightarrow> 'p list" where
  "wait_spec ps [] = ps"
| "wait_spec ps (Enter p # ops) = wait_spec (ps @ [p]) ops"
| "wait_spec ps (Leave p # ops) = wait_spec (remove1 p ps) ops"

fun wait_wf :: "('p \<Rightarrow> bool) \<Rightarrow> 'p list \<Rightarrow> 'p wait_op list \<Rightarrow> bool" where
  "wait_wf v ps [] = True"
| "wait_wf v ps (Enter p # ops) \<longleftrightarrow> v p \<and> p \<notin> set ps \<and> wait_wf v (ps @ [p]) ops"
| "wait_wf v ps (Leave p # ops) \<longleftrightarrow> p \<in> set ps \<and> wait_wf v (remove1 p ps) ops"

context intrusive_queue
begin

lemma wait_run_spec:
  "qrep s ps \<Longrightarrow> wait_wf (valid s) ps ops \<Longrightarrow> \<exists>s'. wait_run enq deq s ops = Some s' \<and> qrep s' (wait_spec ps ops)"
proof (induction ops arbitrary: s ps)
  case (Cons op ops)
  show ?case
  proof (cases op)
    case (Enter p)
    with Cons.prems have "valid s p" "p \<notin> set ps" by auto
    from enq_ok [OF Cons.prems(1) this] obtain s' where s': "enq s p = Some s'" "qrep s' (ps @ [p])" "\<forall>q. valid s' q = valid s q" by blast
    then have "valid s' = valid s" by auto
    with Cons.IH [OF s'(2)] Cons.prems(2) Enter s'(1) show ?thesis by simp
  next
    case (Leave p)
    with Cons.prems have p: "p \<in> set ps" by simp
    then obtain xs ys where ps: "ps = xs @ p # ys" "p \<notin> set xs" by (meson split_list_first)
    from deq_ok [of s xs p ys] Cons.prems(1) ps(1) obtain s' where
      s': "deq s p = Some s'" "qrep s' (xs @ ys)" "\<forall>q. valid s' q = valid s q" by blast
    then have "valid s' = valid s" by auto
    moreover have "remove1 p ps = xs @ ys" using ps by (simp add: remove1_append)
    ultimately show ?thesis using Cons.IH [OF s'(2)] Cons.prems(2) Leave s'(1) by simp
  qed
qed simp

end

interpretation rq: intrusive_queue
  "\<lambda>(e, m) w. epoll_queue e (Some w) m" "\<lambda>(e, m) w. epoll_dequeue e (Some w) m" "\<lambda>(e, m) ws. rq_inv m e ws" "\<lambda>(e, m) w. wget m w \<noteq> None"
proof (unfold_locales, goal_cases)
  case (1 s ps) then show ?case by (auto simp: rq_inv_def)
next
  case (2 s ps p)
  obtain e m where s: "s = (e, m)" by force
  with 2 obtain x where "wget m p = Some x" by auto
  with 2 s epoll_queue_ok [of m e ps p x] obtain e' m' where
    q: "epoll_queue e (Some p) m = Some (e', m')" "rq_inv m' e' (ps @ [p])" "relinked (insert p (set ps)) m m'" by auto
  from q(1,2) relinked_valid [OF q(3)] s show ?case by simp
next
  case (3 s ps p qs)
  obtain e m where s: "s = (e, m)" by force
  with 3 epoll_dequeue_ok [of m e ps p qs] obtain e' m' where
    q: "epoll_dequeue e (Some p) m = Some (e', m')" "rq_inv m' e' (ps @ qs)" "relinked (set (ps @ p # qs)) m m'" by auto
  from q(1,2) relinked_valid [OF q(3)] s show ?case by simp
qed

section \<open>The list of a core\<close>

lemma add_waiter_ok:
  assumes "cclist_inv B (sm_waiters m core) hs" "length hs < card B"
  shows "\<exists>p m'. add_waiter core w m = Some (Inr p, m') \<and> p \<notin> set hs \<and> cclist_inv B (sm_waiters m' core) (hs @ [p]) \<and>
     (\<forall>c. c \<noteq> core \<longrightarrow> sm_waiters m' c = sm_waiters m c) \<and> wget m' (Wnode core p) = Some (w\<lparr>iw_mask := iw_mask w OR UNMASKED_EVENTS\<rparr>) \<and>
     (\<forall>a. (\<forall>k. a = Wnode core k \<longrightarrow> k \<in> set hs) \<longrightarrow> wget m' a = wget m a) \<and> sm_data m' = sm_data m \<and> sm_stack m' = sm_stack m"
proof -
  let ?w = "w\<lparr>iw_mask := iw_mask w OR UNMASKED_EVENTS\<rparr>"
  from waiters.add_ok [OF assms, of ?w] obtain p cc where
    cc: "cclist_push_back (sm_waiters m core) (Some ?w) = Some (Inr p, cc)" "p \<notin> set hs" "cclist_inv B cc (hs @ [p])"
      "node_item (list_mem cc p) = Some ?w" "\<forall>a \<in> set hs. node_item (list_mem cc a) = node_item (list_mem (sm_waiters m core) a)" by blast
  have "wget (set_waiters core cc m) a = wget m a" if "\<forall>k. a = Wnode core k \<longrightarrow> k \<in> set hs" for a
    using that cc(5) by (cases a) (auto simp: set_waiters_def)
  with cc(1-4) show ?thesis by (auto simp: add_waiter_def set_waiters_def)
qed

lemma add_waiter_full:
  assumes "cclist_inv B (sm_waiters m core) hs" "length hs = card B"
  shows "add_waiter core w m = Some (Inl ENOMEM, m)"
  using waiters.add_full [OF assms] by (simp add: add_waiter_def set_waiters_def)

lemma remove_waiter_ok:
  assumes "cclist_inv B (sm_waiters m core) (hs @ p # ks)"
  shows "\<exists>m'. remove_waiter core (Some p) m = Some m' \<and> cclist_inv B (sm_waiters m' core) (hs @ ks) \<and>
     (\<forall>c. c \<noteq> core \<longrightarrow> sm_waiters m' c = sm_waiters m c) \<and>
     (\<forall>a. (\<forall>k. a = Wnode core k \<longrightarrow> k \<in> set (hs @ ks)) \<longrightarrow> wget m' a = wget m a) \<and> sm_data m' = sm_data m \<and> sm_stack m' = sm_stack m"
proof -
  from waiters.del_ok [OF assms] obtain cc where
    cc: "cclist_erase (sm_waiters m core) (Some p) = Some cc" "cclist_inv B cc (hs @ ks)"
      "\<forall>a \<in> set (hs @ ks). node_item (list_mem cc a) = node_item (list_mem (sm_waiters m core) a)" by blast
  have "wget (set_waiters core cc m) a = wget m a" if "\<forall>k. a = Wnode core k \<longrightarrow> k \<in> set (hs @ ks)" for a
    using that cc(3) by (cases a) (auto simp: set_waiters_def)
  with cc(1,2) show ?thesis by (auto simp: remove_waiter_def set_waiters_def)
qed

section \<open>The walk over the waiters of a core\<close>

text \<open>
  Which waiters are due at time \<open>ct\<close>, what the walk leaves in a waiter it has visited, and how long the
  core may sleep on account of a waiter that is not due (not at all after a yield).
\<close>

definition yielding :: "io_waiter \<Rightarrow> bool" where
  "yielding w \<longleftrightarrow> iw_co w \<noteq> None \<and> iw_flags w AND CO_YIELD \<noteq> 0"

definition due :: "int \<Rightarrow> io_waiter \<Rightarrow> bool" where
  "due ct w \<longleftrightarrow>
     iw_co w \<noteq> None \<and> \<not> yielding w \<and>
     (iw_events w AND iw_mask w \<noteq> 0 \<or> iw_flags w AND MTX_WAKEUP_EVENT \<noteq> 0 \<or> (0 < iw_tmo w \<and> iw_tmo w \<le> ct))"

definition visited :: "int \<Rightarrow> io_waiter \<Rightarrow> io_waiter" where
  "visited ct w =
     (if yielding w then iw_flags_update (\<lambda>f. f AND NOT CO_YIELD) w
      else if due ct w then w\<lparr>iw_revents := iw_events w, iw_events := iw_events w AND NOT (iw_mask w)\<rparr>
      else w)"

definition remaining :: "int \<Rightarrow> io_waiter \<Rightarrow> int option" where
  "remaining ct w =
     (if yielding w then Some 0
      else if iw_co w \<noteq> None \<and> \<not> due ct w \<and> 0 < iw_tmo w then Some (iw_tmo w - ct)
      else None)"

definition due_cos :: "int \<Rightarrow> io_waiter list \<Rightarrow> nat set" where
  "due_cos ct ws = {co. \<exists>w \<in> set ws. due ct w \<and> iw_co w = Some co}"

definition sleep_bound :: "int \<Rightarrow> int \<Rightarrow> io_waiter list \<Rightarrow> int" where
  "sleep_bound ct t ws = fold (\<lambda>w t. case remaining ct w of None \<Rightarrow> t | Some d \<Rightarrow> min d t) ws t"

lemma due_cos_Cons: "due_cos ct (w # ws) = (if due ct w then insert (the (iw_co w)) (due_cos ct ws) else due_cos ct ws)"
  by (auto simp: due_cos_def due_def)

lemma sleep_bound_Cons:
  "sleep_bound ct t (w # ws) = sleep_bound ct (case remaining ct w of None \<Rightarrow> t | Some d \<Rightarrow> min d t) ws"
  by (simp add: sleep_bound_def)

lemma sleep_bound_Nil [simp]: "sleep_bound ct t [] = t"
  by (simp add: sleep_bound_def)

lemma sleep_bound_iff: "x \<le> sleep_bound ct t ws \<longleftrightarrow> x \<le> t \<and> (\<forall>w \<in> set ws. \<forall>d. remaining ct w = Some d \<longrightarrow> x \<le> d)"
  by (induction ws arbitrary: t) (auto simp: sleep_bound_Cons split: option.splits)

lemma walk_loop_Some:
  assumes "wget m (Wnode core p) = Some w" "iw_tmo w \<noteq> 0" "0 \<le> tmo"
  shows "walk_loop core ct ccmax (Some p) cc tmo m =
     (let nxt = node_next (list_mem (sm_waiters m core) p) in
      if due ct w
      then do { (cc, m) \<leftarrow> add_signaled (Wnode core p) (the (iw_co w)) ccmax cc m;
                if length cc = ccmax then Some (cc, tmo, m) else walk_loop core ct ccmax nxt cc tmo m }
      else walk_loop core ct ccmax nxt cc (case remaining ct w of None \<Rightarrow> tmo | Some d \<Rightarrow> min d tmo)
             (if yielding w then wput (Wnode core p) (visited ct w) m else m))"
proof (cases "iw_co w")
  case None
  then show ?thesis using assms by (simp add: walk_loop.simps [of core ct ccmax "Some p"] due_def yielding_def remaining_def)
next
  case (Some co)
  then show ?thesis using assms
    by (simp add: walk_loop.simps [of core ct ccmax "Some p"] due_def yielding_def remaining_def visited_def wset_Some Let_def min_def del: wget.simps wput.simps)
qed

lemma add_signaled_ok:
  assumes "wget m a = Some w" "\<not> yielding w" "due ct w" "iw_co w = Some co" "\<forall>c. sm_data m c \<longleftrightarrow> c \<in> set cc" "distinct cc" "length cc < ccmax"
  shows "\<exists>cc' m'. add_signaled a co ccmax cc m = Some (cc', m') \<and> distinct cc' \<and> length cc' \<le> ccmax \<and> set cc' = insert co (set cc) \<and>
     (\<forall>c. sm_data m' c \<longleftrightarrow> c \<in> set cc') \<and> sm_waiters m' = sm_waiters (wput a (visited ct w) m) \<and> sm_stack m' = sm_stack (wput a (visited ct w) m)"
  using assms by (cases "co \<in> set cc") (auto simp: add_signaled_def wset_Some visited_def)

lemma wget_same: "sm_waiters m' = sm_waiters m \<Longrightarrow> sm_stack m' = sm_stack m \<Longrightarrow> wget m' a = wget m a"
  by (cases a) simp_all

text \<open>
  What the loop has done when it ends: the coroutines it selected, the state it left, and, unless the
  array is full, that it has treated every waiter.
\<close>

definition walk_post ::
  "nat \<Rightarrow> int \<Rightarrow> nat \<Rightarrow> nat list \<Rightarrow> io_waiter list \<Rightarrow> nat list \<Rightarrow> int \<Rightarrow> sched_mem \<Rightarrow> (nat list \<times> int \<times> sched_mem) option \<Rightarrow> bool" where
  "walk_post core ct ccmax hs ws cc tmo m r \<longleftrightarrow>
     (\<exists>cc' tmo' m'. r = Some (cc', tmo', m') \<and> distinct cc' \<and> length cc' \<le> ccmax \<and>
        set cc \<subseteq> set cc' \<and> set cc' \<subseteq> set cc \<union> due_cos ct ws \<and> (\<forall>c. sm_data m' c \<longleftrightarrow> c \<in> set cc') \<and>
        (\<forall>B c ks. cclist_inv B (sm_waiters m' c) ks = cclist_inv B (sm_waiters m c) ks) \<and>
        (\<forall>a. a \<notin> Wnode core ` set hs \<longrightarrow> wget m' a = wget m a) \<and>
        (\<forall>a x. wget m a = Some x \<longrightarrow> wget m' a = Some x \<or> wget m' a = Some (visited ct x)) \<and>
        (length cc' < ccmax \<longrightarrow>
           due_cos ct ws \<subseteq> set cc' \<and> map (\<lambda>h. wget m' (Wnode core h)) hs = map (\<lambda>w. Some (visited ct w)) ws \<and>
           tmo' = sleep_bound ct tmo ws))"

text \<open>\<open>m1\<close> is the memory after the visit of the first waiter.\<close>

definition visit_ok :: "nat \<Rightarrow> int \<Rightarrow> nat \<Rightarrow> io_waiter \<Rightarrow> sched_mem \<Rightarrow> sched_mem \<Rightarrow> bool" where
  "visit_ok core ct h w m m1 \<longleftrightarrow>
     (\<forall>b. wget m1 b = (if b = Wnode core h then Some (visited ct w) else wget m b)) \<and>
     (\<forall>B c ks. cclist_inv B (sm_waiters m1 c) ks = cclist_inv B (sm_waiters m c) ks)"

lemma walk_post_Cons:
  assumes visit: "visit_ok core ct h w m m1" and w: "wget m (Wnode core h) = Some w" and h: "h \<notin> set hs"
    and cc: "set cc1 = (if due ct w then insert (the (iw_co w)) (set cc) else set cc)"
    and t: "t = (case remaining ct w of None \<Rightarrow> tmo | Some d \<Rightarrow> min d tmo)"
    and post: "walk_post core ct ccmax hs ws cc1 t m1 r"
  shows "walk_post core ct ccmax (h # hs) (w # ws) cc tmo m r"
proof -
  from post obtain cc' tmo' m' where
    IH: "r = Some (cc', tmo', m')" "distinct cc'" "length cc' \<le> ccmax"
      "set cc1 \<subseteq> set cc'" "set cc' \<subseteq> set cc1 \<union> due_cos ct ws" "\<forall>c. sm_data m' c \<longleftrightarrow> c \<in> set cc'"
      "\<forall>B c ks. cclist_inv B (sm_waiters m' c) ks = cclist_inv B (sm_waiters m1 c) ks"
      "\<forall>a. a \<notin> Wnode core ` set hs \<longrightarrow> wget m' a = wget m1 a"
      "\<forall>a x. wget m1 a = Some x \<longrightarrow> wget m' a = Some x \<or> wget m' a = Some (visited ct x)"
      "length cc' < ccmax \<longrightarrow> due_cos ct ws \<subseteq> set cc' \<and> map (\<lambda>h. wget m' (Wnode core h)) hs = map (\<lambda>w. Some (visited ct w)) ws \<and>
         tmo' = sleep_bound ct t ws" unfolding walk_post_def by blast
  have "Wnode core h \<notin> Wnode core ` set hs" using h by auto
  with IH(8) visit have "wget m' (Wnode core h) = Some (visited ct w)" by (simp add: visit_ok_def del: wget.simps)
  moreover have "\<forall>a. a \<notin> Wnode core ` set (h # hs) \<longrightarrow> wget m' a = wget m a" using IH(8) visit by (auto simp: visit_ok_def simp del: wget.simps)
  moreover have "set cc' \<subseteq> set cc \<union> due_cos ct (w # ws)" "set cc \<subseteq> set cc'" "length cc' < ccmax \<Longrightarrow> due_cos ct (w # ws) \<subseteq> set cc'"
    using IH(4,5,10) cc by (auto simp: due_cos_Cons split: if_splits)
  moreover have "\<forall>B c ks. cclist_inv B (sm_waiters m' c) ks = cclist_inv B (sm_waiters m c) ks" using IH(7) visit by (simp add: visit_ok_def)
  moreover have "\<forall>a x. wget m a = Some x \<longrightarrow> wget m' a = Some x \<or> wget m' a = Some (visited ct x)"
  proof (intro allI impI)
    fix a x assume "wget m a = Some x"
    then show "wget m' a = Some x \<or> wget m' a = Some (visited ct x)"
      using IH(9) visit \<open>wget m' (Wnode core h) = _\<close> w by (cases "a = Wnode core h") (simp_all add: visit_ok_def del: wget.simps)
  qed
  ultimately show ?thesis unfolding walk_post_def using IH(1,2,3,6,10)
    by (intro exI [of _ cc'] exI [of _ tmo'] exI [of _ m']) (simp add: sleep_bound_Cons t del: wget.simps)
qed

lemma walk_loop_ok:
  assumes "dseg (list_mem (sm_waiters m core)) pr p hs pr' None" "distinct hs" "map (\<lambda>h. wget m (Wnode core h)) hs = map Some ws"
    and "\<forall>w \<in> set ws. iw_tmo w \<noteq> 0" "\<forall>c. sm_data m c \<longleftrightarrow> c \<in> set cc" "distinct cc" "length cc < ccmax" "0 \<le> tmo"
  shows "walk_post core ct ccmax hs ws cc tmo m (walk_loop core ct ccmax p cc tmo m)"
  using assms
proof (induction hs arbitrary: pr p ws cc tmo m)
  case Nil
  then show ?case by (simp add: walk_post_def walk_loop.simps [of core ct ccmax None] due_cos_def)
next
  case (Cons h hs)
  from Cons.prems(3) obtain w ws' where ws: "ws = w # ws'" "wget m (Wnode core h) = Some w"
    "map (\<lambda>h. wget m (Wnode core h)) hs = map Some ws'" by (cases ws) (auto simp del: wget.simps)
  let ?nxt = "node_next (list_mem (sm_waiters m core) h)"
  from Cons.prems have h: "p = Some h" "dseg (list_mem (sm_waiters m core)) (Some h) ?nxt hs pr' None" "h \<notin> set hs" "distinct hs"
    "iw_tmo w \<noteq> 0" "\<forall>w \<in> set ws'. iw_tmo w \<noteq> 0" using ws(1) by auto
  note step = walk_loop_Some [OF ws(2) h(5) Cons.prems(8), of ct ccmax cc, folded h(1), unfolded Let_def]
  have items: "map (\<lambda>k. wget m1 (Wnode core k)) hs = map Some ws'" if "visit_ok core ct h w m m1" for m1
  proof -
    have "wget m1 (Wnode core k) = wget m (Wnode core k)" if "k \<in> set hs" for k
      using \<open>visit_ok core ct h w m m1\<close> that h(3) by (auto simp: visit_ok_def simp del: wget.simps)
    then show ?thesis using ws(3) by (simp cong: map_cong del: wget.simps)
  qed
  show ?case
  proof (cases "due ct w")
    case True
    then obtain co where co: "iw_co w = Some co" "\<not> yielding w" by (auto simp: due_def)
    from add_signaled_ok [OF ws(2) co(2) True co(1) Cons.prems(5,6,7)] obtain cc1 m1 where
      a: "add_signaled (Wnode core h) co ccmax cc m = Some (cc1, m1)" "distinct cc1" "length cc1 \<le> ccmax" "set cc1 = insert co (set cc)"
        "\<forall>c. sm_data m1 c \<longleftrightarrow> c \<in> set cc1" and
      w: "sm_waiters m1 = sm_waiters (wput (Wnode core h) (visited ct w) m)" "sm_stack m1 = sm_stack (wput (Wnode core h) (visited ct w) m)"
      by blast
    have vis: "visit_ok core ct h w m m1" using wget_same [OF w] wget_wput wput_inv by (auto simp: visit_ok_def w(1) simp del: wget.simps wput.simps)
    show ?thesis
    proof (cases "length cc1 = ccmax")
      case full: True
      with step True co(1) a vis ws(1,2) show ?thesis
        by (auto simp: walk_post_def visit_ok_def due_cos_Cons simp del: wget.simps)
    next
      case False
      have dseg: "dseg (list_mem (sm_waiters m1 core)) (Some h) ?nxt hs pr' None" unfolding w(1) using h(2) by simp
      have "walk_post core ct ccmax hs ws' cc1 tmo m1 (walk_loop core ct ccmax ?nxt cc1 tmo m1)"
        using Cons.IH [OF dseg h(4) items [OF vis] h(6) a(5,2) _ Cons.prems(8)] False a(3) by simp
      from walk_post_Cons [OF vis ws(2) h(3) _ _ this] show ?thesis
        using step True co(1) a(1,4) False ws(1) by (simp add: remaining_def due_def)
    qed
  next
    case False
    let ?m1 = "if yielding w then wput (Wnode core h) (visited ct w) m else m"
    let ?t = "case remaining ct w of None \<Rightarrow> tmo | Some d \<Rightarrow> min d tmo"
    have vis: "visit_ok core ct h w m ?m1"
      using ws(2) False by (auto simp: visit_ok_def wget_wput visited_def simp del: wget.simps wput.simps)
    have dseg: "dseg (list_mem (sm_waiters ?m1 core)) (Some h) ?nxt hs pr' None" using h(2) by (simp del: wput.simps)
    have "\<forall>c. sm_data ?m1 c \<longleftrightarrow> c \<in> set cc" using Cons.prems(5) by (simp del: wput.simps)
    moreover have "0 \<le> ?t" using Cons.prems(8) False by (auto simp: remaining_def due_def split: if_splits)
    ultimately have "walk_post core ct ccmax hs ws' cc ?t ?m1 (walk_loop core ct ccmax ?nxt cc ?t ?m1)"
      using Cons.IH [OF dseg h(4) items [OF vis] h(6) _ Cons.prems(6,7)] by blast
    from walk_post_Cons [OF vis ws(2) h(3) _ refl this] show ?thesis using step False ws(1) by (simp del: wput.simps)
  qed
qed

lemma walk_waiters_list_frame:
  assumes "cclist_inv B (sm_waiters m core) hs" "map (\<lambda>h. wget m (Wnode core h)) hs = map Some ws"
    and "\<forall>w \<in> set ws. iw_tmo w \<noteq> 0" "\<forall>co. \<not> sm_data m co" "0 < ccmax" "walk_waiters_list core ct ccmax m = Some (cc, tmo, m')"
  shows "\<forall>a x. wget m a = Some x \<longrightarrow> wget m' a = Some x \<or> wget m' a = Some (visited ct x)"
    "\<forall>B c ks. cclist_inv B (sm_waiters m' c) ks = cclist_inv B (sm_waiters m c) ks" "\<forall>co. \<not> sm_data m' co"
proof -
  from assms(1) have "dseg (list_mem (sm_waiters m core)) None (list_head (sm_waiters m core)) hs (list_tail (sm_waiters m core)) None" "distinct hs"
    by (simp_all add: cclist_inv_def)
  from walk_loop_ok [OF this assms(2,3), of "[]" ccmax int_max ct] assms(4,5)
  have "walk_post core ct ccmax hs ws [] int_max m (walk_loop core ct ccmax (list_head (sm_waiters m core)) [] int_max m)"
    by (simp add: int_max_def)
  then obtain cc' tmo' m1 where "walk_loop core ct ccmax (list_head (sm_waiters m core)) [] int_max m = Some (cc', tmo', m1)" and
    m1: "\<forall>a x. wget m a = Some x \<longrightarrow> wget m1 a = Some x \<or> wget m1 a = Some (visited ct x)"
      "\<forall>B c ks. cclist_inv B (sm_waiters m1 c) ks = cclist_inv B (sm_waiters m c) ks" "\<forall>c. sm_data m1 c \<longleftrightarrow> c \<in> set cc'"
    unfolding walk_post_def by blast
  with assms(6) have m': "m' = m1\<lparr>sm_data := (\<lambda>co. if co \<in> set cc' then False else sm_data m1 co)\<rparr>" by (auto simp: walk_waiters_list_def)
  then have "wget m' a = wget m1 a" for a by (intro wget_same) simp_all
  then show "\<forall>a x. wget m a = Some x \<longrightarrow> wget m' a = Some x \<or> wget m' a = Some (visited ct x)" using m1(1) by metis
  show "\<forall>B c ks. cclist_inv B (sm_waiters m' c) ks = cclist_inv B (sm_waiters m c) ks" "\<forall>co. \<not> sm_data m' co" using m1(2,3) m' by simp_all
qed

section \<open>Properties\<close>

lemma walk_waiters_list_helper:
  assumes "cclist_inv B (sm_waiters m core) hs" "map (\<lambda>h. wget m (Wnode core h)) hs = map Some ws"
    and "\<forall>w \<in> set ws. iw_tmo w \<noteq> 0" "\<forall>co. \<not> sm_data m co" "0 < ccmax"
  shows "\<exists>cc tmo m'. walk_waiters_list core ct ccmax m = Some (cc, tmo, m') \<and> distinct cc \<and> length cc \<le> ccmax \<and>
     set cc \<subseteq> due_cos ct ws \<and> (\<forall>co. \<not> sm_data m' co) \<and> cclist_inv B (sm_waiters m' core) hs \<and>
     (length cc < ccmax \<longrightarrow>
        set cc = due_cos ct ws \<and> map (\<lambda>h. wget m' (Wnode core h)) hs = map (\<lambda>w. Some (visited ct w)) ws \<and>
        (\<forall>x. x \<le> tmo \<longleftrightarrow> x \<le> int_max \<and> (\<forall>w \<in> set ws. \<forall>d. remaining ct w = Some d \<longrightarrow> x \<le> d)))"
proof -
  from assms(1) have "dseg (list_mem (sm_waiters m core)) None (list_head (sm_waiters m core)) hs (list_tail (sm_waiters m core)) None" "distinct hs"
    by (simp_all add: cclist_inv_def)
  from walk_loop_ok [OF this assms(2,3), of "[]" ccmax int_max ct] assms(4,5)
  have "walk_post core ct ccmax hs ws [] int_max m (walk_loop core ct ccmax (list_head (sm_waiters m core)) [] int_max m)"
    by (simp add: int_max_def)
  then show ?thesis using assms(1) unfolding walk_post_def walk_waiters_list_def
    by (fastforce simp: sleep_bound_iff)
qed

text \<open>C7. The walk over the waiters of a core: it ends, selects each coroutine at most once and only coroutines
  with a waiter that is due (an event it asked for, a wakeup, a time that has come), and leaves no mark
  on the coroutines. Unless the array is full it selects all of them, hands each waiter its events
  exactly once, and computes a time to sleep that is not past the time of any waiter and not longer
  than the shortest of them requires.\<close>

theorem walk_waiters_list_correct:
  assumes "cclist_inv B (sm_waiters m core) hs" "map (\<lambda>h. wget m (Wnode core h)) hs = map Some ws"
    and "\<forall>w \<in> set ws. iw_tmo w \<noteq> 0" "\<forall>co. \<not> sm_data m co" "0 < ccmax"
  shows "\<exists>cc tmo m'. walk_waiters_list core ct ccmax m = Some (cc, tmo, m') \<and> distinct cc \<and> length cc \<le> ccmax \<and>
     set cc \<subseteq> due_cos ct ws \<and> (\<forall>co. \<not> sm_data m' co) \<and> cclist_inv B (sm_waiters m' core) hs \<and>
     (length cc < ccmax \<longrightarrow>
        set cc = due_cos ct ws \<and> map (\<lambda>h. wget m' (Wnode core h)) hs = map (\<lambda>w. Some (visited ct w)) ws \<and>
        (\<forall>x. x \<le> tmo \<longleftrightarrow> x \<le> int_max \<and> (\<forall>w \<in> set ws. \<forall>d. remaining ct w = Some d \<longrightarrow> x \<le> d)))"
  using walk_waiters_list_helper [OF assms] .

text \<open>Two coroutines of core 0: the first waits for input that has arrived, the second until time 500.\<close>

definition example_waiter :: "int \<Rightarrow> nat \<Rightarrow> u32 \<Rightarrow> io_waiter" where
  "example_waiter tmo co ev =
     \<lparr>iw_tmo = tmo, iw_prev = None, iw_next = None, iw_co = Some co, iw_mask = EPOLLIN, iw_events = ev, iw_revents = 0, iw_flags = 0\<rparr>"

definition example_waiters :: "u32 \<Rightarrow> io_waiter cclist" where
  "example_waiters ev =
     \<lparr>list_heap = \<lparr>heap_blocks = Some 8,
        heap_fifo = \<lparr>fifo_items = Some [None, None], fifo_capacity = 2, fifo_size = 0, fifo_item_size = 8, fifo_first = 0, fifo_last = 0\<rparr>\<rparr>,
      list_head = Some 8, list_tail = Some 80, list_capacity = 2, list_item_size = 56,
      list_mem = (\<lambda>_. \<lparr>node_prev = None, node_next = None, node_item = None\<rparr>)
        (8 := \<lparr>node_prev = None, node_next = Some 80, node_item = Some (example_waiter (-1) 31 ev)\<rparr>,
         80 := \<lparr>node_prev = Some 8, node_next = None, node_item = Some (example_waiter 500 32 0)\<rparr>)\<rparr>"

definition example_sched :: "u32 \<Rightarrow> sched_mem" where
  "example_sched ev = \<lparr>sm_waiters = (\<lambda>_. example_waiters ev), sm_stack = (\<lambda>_. None), sm_data = (\<lambda>_. False)\<rparr>"

definition example_iorq :: iorq where
  "example_iorq = \<lparr>rq_head = Some (Wnode 0 8), rq_tail = Some (Wnode 0 8), rq_so = 5, rq_type = iowait_io\<rparr>"

lemma example_sched_inv: "cclist_inv {8, 80} (sm_waiters (example_sched ev) 0) [8, 80]"
  by (simp add: cclist_inv_def ccheap_inv_def ccfifo_inv_def ccfifo_list_def ccfifo_slot_def example_sched_def example_waiters_def)

lemma example_sched_items:
  "map (\<lambda>h. wget (example_sched ev) (Wnode 0 h)) [8, 80] = map Some [example_waiter (-1) 31 ev, example_waiter 500 32 0]"
  by (simp add: example_sched_def example_waiters_def)

lemma example_sched_fields: "iw_tmo (example_waiter t c ev) = t" "sm_data (example_sched ev) co = False"
  by (simp_all add: example_waiter_def example_sched_def)

theorem walk_waiters_list_correct_witness:
  "\<exists>tmo m'. walk_waiters_list 0 100 1000 (example_sched EPOLLIN) = Some ([31], tmo, m') \<and> tmo = 400"
proof -
  have due: "due 100 (example_waiter (-1) 31 EPOLLIN)" "\<not> due 100 (example_waiter 500 32 0)"
    "remaining 100 (example_waiter (-1) 31 EPOLLIN) = None" "remaining 100 (example_waiter 500 32 0) = Some 400"
    by (simp_all add: due_def remaining_def yielding_def example_waiter_def EPOLLIN_def)
  then have cos: "due_cos 100 [example_waiter (-1) 31 EPOLLIN, example_waiter 500 32 0] = {31}"
    by (simp add: due_cos_def) (simp add: example_waiter_def)
  from walk_waiters_list_correct [OF example_sched_inv example_sched_items, of EPOLLIN 1000 100] obtain cc tmo m' where
    r: "walk_waiters_list 0 100 1000 (example_sched EPOLLIN) = Some (cc, tmo, m')" "distinct cc" "set cc \<subseteq> {31}"
    and l: "length cc < 1000 \<longrightarrow> set cc = {31} \<and> (\<forall>x. x \<le> tmo \<longleftrightarrow> x \<le> int_max \<and> x \<le> 400)"
    by (auto simp: due cos example_sched_fields simp del: wget.simps)
  have "length cc \<le> 1" using r(2,3) card_mono [of "{31}" "set cc"] by (simp add: distinct_card)
  with l have "set cc = {31}" "\<forall>x. x \<le> tmo \<longleftrightarrow> x \<le> 400" by (auto simp: int_max_def)
  moreover have "cc = [31]" using \<open>set cc = {31}\<close> \<open>length cc \<le> 1\<close> by (cases cc) auto
  moreover have "tmo = 400" using calculation(2) by (meson order.antisym order.refl)
  ultimately show ?thesis using r(1) by simp
qed

text \<open>C22. Queues of waiters: any sequence of \<open>epoll_queue\<close> and \<open>epoll_dequeue\<close> on an object, in which waiters that
  are outside enter and waiters that are inside leave in any order, is defined and leaves the object with
  exactly the remaining waiters, linked in the order of their entry.\<close>

theorem epoll_queue_refines_list:
  assumes "rq_inv m e ws" "wait_wf (\<lambda>w. wget m w \<noteq> None) ws ops"
  shows "\<exists>e' m'. wait_run (\<lambda>(e, m) w. epoll_queue e (Some w) m) (\<lambda>(e, m) w. epoll_dequeue e (Some w) m) (e, m) ops = Some (e', m') \<and>
     rq_inv m' e' (wait_spec ws ops)"
  using rq.wait_run_spec [of "(e, m)" ws ops] assms by auto

theorem epoll_queue_refines_list_witness:
  "\<exists>e' m'. wait_run (\<lambda>(e, m) w. epoll_queue e (Some w) m) (\<lambda>(e, m) w. epoll_dequeue e (Some w) m)
       (\<lparr>rq_head = None, rq_tail = None, rq_so = 7, rq_type = iowait_io\<rparr>, example_sched 0)
       [Enter (Wnode 0 8), Enter (Wnode 0 80), Leave (Wnode 0 8), Enter (Wnode 0 8)] = Some (e', m') \<and>
     rq_inv m' e' [Wnode 0 80, Wnode 0 8]"
proof -
  have "rq_inv (example_sched 0) \<lparr>rq_head = None, rq_tail = None, rq_so = 7, rq_type = iowait_io\<rparr> []" by (simp add: rq_inv_def)
  moreover have "wait_wf (\<lambda>w. wget (example_sched 0) w \<noteq> None) [] [Enter (Wnode 0 8), Enter (Wnode 0 80), Leave (Wnode 0 8), Enter (Wnode 0 8)]"
    by (simp add: example_sched_def example_waiters_def)
  ultimately show ?thesis using epoll_queue_refines_list [of "example_sched 0" _ "[]"] by fastforce
qed

lemma epoll_listener_event_ok:
  assumes "rq_inv m e ws"
  shows "\<exists>sig m'. epoll_listener_event e ev m = Some (sig, m') \<and> rq_inv m' e ws \<and>
     (\<forall>a. wget m' a = (if a \<in> set ws then map_option (iw_events_update (\<lambda>x. x OR ev)) (wget m a) else wget m a)) \<and>
     (sig \<longleftrightarrow> (\<exists>a \<in> set ws. \<exists>w. wget m a = Some w \<and> runnable ev w)) \<and> sm_data m' = sm_data m \<and>
     (\<forall>B c hs. cclist_inv B (sm_waiters m' c) hs = cclist_inv B (sm_waiters m c) hs)"
proof -
  from assms have "wseg (wget m) None (rq_head e) ws (rq_tail e) None" "distinct ws" by (simp_all add: rq_inv_def)
  from deliver_loop_ok [OF this, of ev 0] obtain n m' where
    d: "deliver_loop ev (rq_head e) 0 m = Some (n, m')"
      "\<forall>a. wget m' a = (if a \<in> set ws then map_option (iw_events_update (\<lambda>x. x OR ev)) (wget m a) else wget m a)"
      "n = 0 \<longleftrightarrow> \<not> (\<exists>a \<in> set ws. \<exists>w. wget m a = Some w \<and> runnable ev w)" "sm_data m' = sm_data m"
      "\<forall>B c hs. cclist_inv B (sm_waiters m' c) hs = cclist_inv B (sm_waiters m c) hs" by auto
  have "rq_inv m' e ws" using assms d(2) wseg_events [of ws m' ev m] by (simp add: rq_inv_def)
  moreover have "epoll_listener_event e ev m = Some (n \<noteq> 0, m')" using assms d(1) by (simp add: epoll_listener_event_def rq_inv_def)
  ultimately show ?thesis using d(2-5) by auto
qed

lemma event_wakes:
  assumes "rq_inv m e ws" "Wnode core h \<in> set ws" "wget m (Wnode core h) = Some w" "runnable ev w" "\<not> yielding w"
    and "cclist_inv B (sm_waiters m core) hs" "h \<in> set hs" "\<forall>k \<in> set hs. \<exists>x. wget m (Wnode core k) = Some x \<and> iw_tmo x \<noteq> 0"
    and "\<forall>co. \<not> sm_data m co" "0 < ccmax"
  shows "\<exists>m1 cc tmo m2. epoll_listener_event e ev m = Some (True, m1) \<and> walk_waiters_list core ct ccmax m1 = Some (cc, tmo, m2) \<and>
     (the (iw_co w) \<in> set cc \<or> length cc = ccmax)"
proof -
  from epoll_listener_event_ok [OF assms(1), of ev] obtain sig m1 where
    sig: "epoll_listener_event e ev m = Some (sig, m1)" "sig \<longleftrightarrow> (\<exists>a \<in> set ws. \<exists>w. wget m a = Some w \<and> runnable ev w)" and
    m1': "\<And>a. wget m1 a = (if a \<in> set ws then map_option (iw_events_update (\<lambda>x. x OR ev)) (wget m a) else wget m a)"
      "sm_data m1 = sm_data m" "\<And>B c hs. cclist_inv B (sm_waiters m1 c) hs = cclist_inv B (sm_waiters m c) hs" by auto
  have "sig" using assms(2-4) sig(2) by blast
  with sig(1) have "epoll_listener_event e ev m = Some (True, m1)" by simp
  note m1 = this m1'
  let ?ws = "map (\<lambda>k. the (wget m1 (Wnode core k))) hs"
  have ex: "\<exists>x. wget m1 (Wnode core k) = Some x \<and> iw_tmo x \<noteq> 0" if "k \<in> set hs" for k
    using m1(2) [of "Wnode core k"] assms(8) that by (auto simp del: wget.simps split: if_splits)
  have items: "map (\<lambda>k. wget m1 (Wnode core k)) hs = map Some ?ws" using ex by (force simp del: wget.simps)
  have tmos: "\<forall>x \<in> set ?ws. iw_tmo x \<noteq> 0" using ex by (force simp del: wget.simps)
  have w1: "wget m1 (Wnode core h) = Some (iw_events_update (\<lambda>x. x OR ev) w)" using m1(2) assms(2,3) by (simp del: wget.simps)
  have "due ct (iw_events_update (\<lambda>x. x OR ev) w)" using assms(4,5) by (auto simp: due_def runnable_def yielding_def)
  then have "the (iw_co w) \<in> due_cos ct ?ws" using w1 assms(4,7)
    by (force simp: due_cos_def runnable_def simp del: wget.simps)
  with walk_waiters_list_helper [of B m1 core hs ?ws ccmax ct] m1 items tmos assms(6,9,10) show ?thesis
    by (metis (no_types, lifting) le_neq_implies_less)
qed

text \<open>C21. No lost wakeup: when an event arrives for an object and a coroutine in its queue has asked for it, the
  listener wakes the cores, and the next walk over the waiters of its core selects the coroutine
  (or already fills the array with others).\<close>

theorem epoll_event_wakes_waiter:
  assumes "rq_inv m e ws" "Wnode core h \<in> set ws" "wget m (Wnode core h) = Some w" "runnable ev w" "\<not> yielding w"
    and "cclist_inv B (sm_waiters m core) hs" "h \<in> set hs" "\<forall>k \<in> set hs. \<exists>x. wget m (Wnode core k) = Some x \<and> iw_tmo x \<noteq> 0"
    and "\<forall>co. \<not> sm_data m co" "0 < ccmax"
  shows "\<exists>m1 cc tmo m2. epoll_listener_event e ev m = Some (True, m1) \<and> walk_waiters_list core ct ccmax m1 = Some (cc, tmo, m2) \<and>
     (the (iw_co w) \<in> set cc \<or> length cc = ccmax)"
  using event_wakes [OF assms] .

theorem epoll_event_wakes_waiter_witness:
  "\<exists>m1 cc tmo m2. epoll_listener_event example_iorq EPOLLIN (example_sched 0) = Some (True, m1) \<and>
     walk_waiters_list 0 100 1000 m1 = Some (cc, tmo, m2) \<and> (31 \<in> set cc \<or> length cc = 1000)"
proof -
  have "rq_inv (example_sched 0) example_iorq [Wnode 0 8]"
    by (simp add: rq_inv_def example_iorq_def example_sched_def example_waiters_def example_waiter_def)
  moreover have "wget (example_sched 0) (Wnode 0 8) = Some (example_waiter (-1) 31 0)" "runnable EPOLLIN (example_waiter (-1) 31 0)"
    "\<not> yielding (example_waiter (-1) 31 0)" "\<forall>k \<in> set [8, 80]. \<exists>x. wget (example_sched 0) (Wnode 0 k) = Some x \<and> iw_tmo x \<noteq> 0"
    by (simp_all add: example_sched_def example_waiters_def example_waiter_def runnable_def yielding_def EPOLLIN_def)
  moreover have "\<forall>co. \<not> sm_data (example_sched 0) co" by (simp add: example_sched_def)
  ultimately show ?thesis
    using epoll_event_wakes_waiter [of "example_sched 0" example_iorq "[Wnode 0 8]" 0 8 _ EPOLLIN "{8, 80}" "[8, 80]" 1000 100] example_sched_inv
    by (simp add: example_waiter_def del: wget.simps)
qed

end
