(* ===== verification/Co_Queue.thy ===== *)
theory Co_Queue
  imports Co_Waiters
begin

text \<open>
  Waiting for an object. A coroutine that suspends itself on a lock or a socket puts a waiter into the
  list of its core and into the queue of the object, and takes it out of both when it goes on. The
  theory models these two steps, which the functions of src/cothread/co-scheduler.c share, and shows
  that they keep the lists and the queue in order whatever other waiters are there.
\<close>

section \<open>Entering and leaving\<close>

definition enter_wait :: "nat \<Rightarrow> io_waiter \<Rightarrow> iorq \<times> sched_mem \<Rightarrow> ((errno + wref) \<times> iorq \<times> sched_mem) ub" where
  "enter_wait core w = (\<lambda>(e, m).
     do { (r, m) \<leftarrow> add_waiter core w m;
          (case r of
             Inl err \<Rightarrow> Some (Inl err, e, m)
           | Inr node \<Rightarrow> do { (e, m) \<leftarrow> epoll_queue e (Some (Wnode core node)) m;
                             Some (Inr (Wnode core node), e, m) }) })"

fun remove_wref :: "wref \<Rightarrow> sched_mem \<Rightarrow> sched_mem ub" where
  "remove_wref (Wnode core node) m = remove_waiter core (Some node) m"
| "remove_wref (Wstack v) m = Some m"

definition leave_wait :: "wref \<Rightarrow> iorq \<times> sched_mem \<Rightarrow> (iorq \<times> sched_mem) ub" where
  "leave_wait w = (\<lambda>(e, m).
     do { (e, m) \<leftarrow> epoll_dequeue e (Some w) m;
          m \<leftarrow> remove_wref w m;
          Some (e, m) })"

section \<open>Memory that is in order\<close>

text \<open>
  \<open>waiters_ok Bs H qs s\<close>: every core has its list of waiters \<open>H c\<close> in the blocks \<open>Bs c\<close>, the queue of an
  object holds the waiters \<open>qs\<close>, which are in these lists or on stacks.
\<close>

definition live :: "(nat \<Rightarrow> nat list) \<Rightarrow> wref \<Rightarrow> bool" where
  "live H a = (case a of Wnode c p \<Rightarrow> p \<in> set (H c) | Wstack _ \<Rightarrow> True)"

definition waiters_ok :: "(nat \<Rightarrow> nat set) \<Rightarrow> (nat \<Rightarrow> nat list) \<Rightarrow> wref list \<Rightarrow> iorq \<times> sched_mem \<Rightarrow> bool" where
  "waiters_ok Bs H qs = (\<lambda>(e, m).
     (\<forall>c. cclist_inv (Bs c) (sm_waiters m c) (H c)) \<and> rq_inv m e qs \<and> (\<forall>w \<in> set qs. live H w) \<and>
     (\<forall>c. \<forall>h \<in> set (H c). \<exists>x. wget m (Wnode c h) = Some x \<and> iw_tmo x \<noteq> 0) \<and> (\<forall>co. \<not> sm_data m co))"

text \<open>The waiters at the given addresses are the same up to their links.\<close>

definition keeps :: "(wref \<Rightarrow> bool) \<Rightarrow> sched_mem \<Rightarrow> sched_mem \<Rightarrow> bool" where
  "keeps A m m' \<longleftrightarrow> (\<forall>a. A a \<longrightarrow> map_option payload (wget m' a) = map_option payload (wget m a))"

lemma keeps_trans: "keeps A m m1 \<Longrightarrow> keeps B m1 m2 \<Longrightarrow> (\<And>a. C a \<Longrightarrow> A a \<and> B a) \<Longrightarrow> keeps C m m2"
  by (simp add: keeps_def)

lemma relinked_keeps: "relinked A m m' \<Longrightarrow> keeps C m m'"
  by (simp add: relinked_def keeps_def)

lemma payload_fields:
  assumes "payload x = payload y"
  shows "iw_tmo x = iw_tmo y" "iw_co x = iw_co y" "iw_mask x = iw_mask y" "iw_events x = iw_events y" "iw_flags x = iw_flags y"
  using assms by (cases x; cases y; simp add: payload_def)+

lemma payload_Some: "map_option payload (wget m' a) = map_option payload (wget m a) \<Longrightarrow> wget m a = Some x \<Longrightarrow>
    \<exists>y. wget m' a = Some y \<and> payload y = payload x"
  by auto

lemma waiters_okD:
  assumes "waiters_ok Bs H qs (e, m)"
  shows "cclist_inv (Bs c) (sm_waiters m c) (H c)" "rq_inv m e qs" "w \<in> set qs \<Longrightarrow> live H w"
    "h \<in> set (H c) \<Longrightarrow> \<exists>x. wget m (Wnode c h) = Some x \<and> iw_tmo x \<noteq> 0" "\<not> sm_data m co"
  using assms unfolding waiters_ok_def prod.case by blast+

lemma waiters_ok_relinked:
  assumes "waiters_ok Bs H qs (e, m)" "relinked A m m'" "rq_inv m' e' qs'" "\<forall>w \<in> set qs'. live H w"
  shows "waiters_ok Bs H qs' (e', m')"
proof -
  have "\<exists>y. wget m' (Wnode c h) = Some y \<and> iw_tmo y \<noteq> 0" if h: "h \<in> set (H c)" for c h
  proof -
    from waiters_okD(4) [OF assms(1) h] obtain x where x: "wget m (Wnode c h) = Some x" "iw_tmo x \<noteq> 0" by blast
    from assms(2) have "map_option payload (wget m' (Wnode c h)) = map_option payload (wget m (Wnode c h))" unfolding relinked_def by blast
    from payload_Some [OF this x(1)] x(2) payload_fields(1) show ?thesis by metis
  qed
  with assms show ?thesis by (auto simp: waiters_ok_def relinked_def simp del: wget.simps)
qed

lemma rq_inv_same:
  assumes "rq_inv m e qs" "\<And>a. a \<in> set qs \<Longrightarrow> wget m' a = wget m a"
  shows "rq_inv m' e qs"
proof -
  have "wseg (wget m') pr p qs pr' p' = wseg (wget m) pr p qs pr' p'" for pr p pr' p'
    using assms(2) by (induction qs arbitrary: pr p) (auto split: option.splits)
  with assms(1) show ?thesis by (simp add: rq_inv_def)
qed

lemma queue_waiters_ok:
  assumes "waiters_ok Bs H qs (e, m)" "wget m w \<noteq> None" "w \<notin> set qs" "live H w"
  shows "\<exists>e' m'. epoll_queue e (Some w) m = Some (e', m') \<and> rq_so e' = rq_so e \<and> waiters_ok Bs H (qs @ [w]) (e', m') \<and> keeps (\<lambda>_. True) m m'"
proof -
  from assms(2) obtain x where "wget m w = Some x" by blast
  with assms epoll_queue_ok [of m "e" qs w x] obtain e' m' where
    q: "epoll_queue e (Some w) m = Some (e', m')" "rq_inv m' e' (qs @ [w])" "relinked (insert w (set qs)) m m'"
      "rq_so e' = rq_so e" by (auto simp: waiters_ok_def)
  have k: "keeps (\<lambda>_. True) m m'" using relinked_keeps [OF q(3)] .
  have "waiters_ok Bs H (qs @ [w]) (e', m')"
    using waiters_ok_relinked [OF assms(1) q(3,2)] assms(1,4) by (auto simp: waiters_ok_def)
  with q(1,4) k show ?thesis by blast
qed

lemma dequeue_waiters_ok:
  assumes "waiters_ok Bs H qs (e, m)" "w \<in> set qs"
  shows "\<exists>e' m'. epoll_dequeue e (Some w) m = Some (e', m') \<and> rq_so e' = rq_so e \<and> waiters_ok Bs H (remove1 w qs) (e', m') \<and> keeps (\<lambda>_. True) m m'"
proof -
  from assms(2) obtain xs ys where qs: "qs = xs @ w # ys" "w \<notin> set xs" by (meson split_list_first)
  with assms epoll_dequeue_ok [of m "e" xs w ys] obtain e' m' where
    q: "epoll_dequeue e (Some w) m = Some (e', m')" "rq_inv m' e' (xs @ ys)" "relinked (set (xs @ w # ys)) m m'"
      "rq_so e' = rq_so e" by (auto simp: waiters_ok_def)
  have k: "keeps (\<lambda>_. True) m m'" using relinked_keeps [OF q(3)] .
  have "waiters_ok Bs H (remove1 w qs) (e', m')"
    using waiters_ok_relinked [OF assms(1) q(3,2)] assms(1) qs by (auto simp: waiters_ok_def remove1_append)
  with q(1,4) k show ?thesis by blast
qed

lemma add_waiters_ok:
  assumes ok: "waiters_ok Bs H qs (e, m)" and tmo: "iw_tmo w \<noteq> 0" and room: "length (H core) < card (Bs core)"
  shows "\<exists>p m1. add_waiter core w m = Some (Inr p, m1) \<and> p \<notin> set (H core) \<and> waiters_ok Bs (H(core := H core @ [p])) qs (e, m1) \<and>
     wget m1 (Wnode core p) = Some (w\<lparr>iw_mask := iw_mask w OR UNMASKED_EVENTS\<rparr>) \<and> (\<forall>b. live H b \<longrightarrow> wget m1 b = wget m b)"
proof -
  from ok have inv: "cclist_inv (Bs core) (sm_waiters m core) (H core)" by (simp add: waiters_ok_def)
  from add_waiter_ok [OF inv room, of w] obtain p m1 where
    add: "add_waiter core w m = Some (Inr p, m1)" "p \<notin> set (H core)" "cclist_inv (Bs core) (sm_waiters m1 core) (H core @ [p])"
      "\<And>c. c \<noteq> core \<Longrightarrow> sm_waiters m1 c = sm_waiters m c" "wget m1 (Wnode core p) = Some (w\<lparr>iw_mask := iw_mask w OR UNMASKED_EVENTS\<rparr>)"
      "\<And>b. (\<forall>k. b = Wnode core k \<longrightarrow> k \<in> set (H core)) \<Longrightarrow> wget m1 b = wget m b" "sm_data m1 = sm_data m" by blast
  let ?H = "H(core := H core @ [p])"
  have same: "wget m1 b = wget m b" if "live H b" for b using that by (intro add(6)) (auto simp: live_def)
  have "waiters_ok Bs ?H qs (e, m1)"
    unfolding waiters_ok_def prod.case
  proof (intro conjI)
    show "\<forall>c. cclist_inv (Bs c) (sm_waiters m1 c) (?H c)" using ok add(3,4) by (auto simp: waiters_ok_def)
    show "rq_inv m1 e qs" using ok same by (auto simp: waiters_ok_def intro: rq_inv_same)
    show "\<forall>w \<in> set qs. live ?H w" using ok by (auto simp: waiters_ok_def live_def split: wref.splits)
    show "\<forall>c. \<forall>h \<in> set (?H c). \<exists>x. wget m1 (Wnode c h) = Some x \<and> iw_tmo x \<noteq> 0"
    proof (intro allI ballI)
      fix c h assume h: "h \<in> set (?H c)"
      show "\<exists>x. wget m1 (Wnode c h) = Some x \<and> iw_tmo x \<noteq> 0"
      proof (cases "c = core \<and> h = p")
        case False
        then have "live H (Wnode c h)" using h by (auto simp: live_def split: if_splits)
        with same ok False h show ?thesis by (auto simp: waiters_ok_def live_def simp del: wget.simps)
      qed (use add(5) tmo in simp)
    qed
    show "\<forall>co. \<not> sm_data m1 co" using ok add(7) by (simp add: waiters_ok_def)
  qed
  with add(1,2,5) same show ?thesis by blast
qed

lemma enter_wait_ok:
  assumes ok: "waiters_ok Bs H qs (e, m)" and tmo: "iw_tmo w \<noteq> 0" and room: "length (H core) < card (Bs core)"
  shows "\<exists>p e' m'. enter_wait core w (e, m) = Some (Inr (Wnode core p), e', m') \<and> p \<notin> set (H core) \<and> rq_so e' = rq_so e \<and>
     waiters_ok Bs (H(core := H core @ [p])) (qs @ [Wnode core p]) (e', m') \<and>
     keeps (live H) m m' \<and> (\<exists>x. wget m' (Wnode core p) = Some x \<and> payload x = payload (w\<lparr>iw_mask := iw_mask w OR UNMASKED_EVENTS\<rparr>))"
proof -
  from add_waiters_ok [OF ok tmo room] obtain p m1 where
    add: "add_waiter core w m = Some (Inr p, m1)" "p \<notin> set (H core)" "waiters_ok Bs (H(core := H core @ [p])) qs (e, m1)"
      "wget m1 (Wnode core p) = Some (w\<lparr>iw_mask := iw_mask w OR UNMASKED_EVENTS\<rparr>)" "\<And>b. live H b \<Longrightarrow> wget m1 b = wget m b" by blast
  let ?H = "H(core := H core @ [p])"
  have "Wnode core p \<notin> set qs" using ok add(2) by (auto simp: waiters_ok_def live_def)
  with add(3) obtain e' m2 where q: "epoll_queue e (Some (Wnode core p)) m1 = Some (e', m2)" "rq_so e' = rq_so e"
    "waiters_ok Bs ?H (qs @ [Wnode core p]) (e', m2)" "keeps (\<lambda>_. True) m1 m2"
    using queue_waiters_ok [of Bs ?H qs e m1 "Wnode core p"] add(4) by (auto simp: live_def)
  have "enter_wait core w (e, m) = Some (Inr (Wnode core p), e', m2)" using add(1) q(1) by (simp add: enter_wait_def)
  moreover have "keeps (live H) m m2" using q(4) add(5) by (simp add: keeps_def del: wget.simps)
  moreover have "\<exists>x. wget m2 (Wnode core p) = Some x \<and> payload x = payload (w\<lparr>iw_mask := iw_mask w OR UNMASKED_EVENTS\<rparr>)"
    using q(4) payload_Some [OF _ add(4), of m2] by (simp add: keeps_def del: wget.simps)
  ultimately show ?thesis using add(2) q(2,3) by blast
qed

definition drop_ref :: "wref \<Rightarrow> (nat \<Rightarrow> nat list) \<Rightarrow> nat \<Rightarrow> nat list" where
  "drop_ref w H = (case w of Wnode c p \<Rightarrow> H(c := remove1 p (H c)) | Wstack _ \<Rightarrow> H)"

lemma live_drop_ref: "(\<And>c. distinct (H c)) \<Longrightarrow> live (drop_ref w H) a \<longleftrightarrow> live H a \<and> (a = w \<longrightarrow> (\<exists>v. w = Wstack v))"
  by (cases w; cases a) (auto simp: live_def drop_ref_def)

lemma remove_waiters_ok:
  assumes ok: "waiters_ok Bs H qs (e, m)" and p: "p \<in> set (H core)" "Wnode core p \<notin> set qs"
  shows "\<exists>m'. remove_waiter core (Some p) m = Some m' \<and> waiters_ok Bs (drop_ref (Wnode core p) H) qs (e, m') \<and>
     (\<forall>a. live H a \<and> a \<noteq> Wnode core p \<longrightarrow> wget m' a = wget m a)"
proof -
  let ?w = "Wnode core p"
  have dist: "\<And>c. distinct (H c)" using waiters_okD(1) [OF ok] by (auto simp: cclist_inv_def)
  from p(1) obtain xs ys where hs: "H core = xs @ p # ys" "p \<notin> set xs" by (meson split_list_first)
  have "cclist_inv (Bs core) (sm_waiters m core) (xs @ p # ys)" using waiters_okD(1) [OF ok, of core] hs by simp
  from remove_waiter_ok [OF this] obtain m2 where
    r: "remove_waiter core (Some p) m = Some m2" "cclist_inv (Bs core) (sm_waiters m2 core) (xs @ ys)"
      "\<And>c. c \<noteq> core \<Longrightarrow> sm_waiters m2 c = sm_waiters m c"
      "\<And>a. (\<forall>k. a = Wnode core k \<longrightarrow> k \<in> set (xs @ ys)) \<Longrightarrow> wget m2 a = wget m a" "sm_data m2 = sm_data m" by blast
  have rm: "remove1 p (H core) = xs @ ys" using hs by (simp add: remove1_append)
  have same: "wget m2 a = wget m a" if "live H a" "a \<noteq> ?w" for a
    using that hs by (intro r(4)) (auto simp: live_def)
  have lv: "live (drop_ref ?w H) a \<longleftrightarrow> live H a \<and> a \<noteq> ?w" for a using live_drop_ref [OF dist] by simp
  have "waiters_ok Bs (drop_ref ?w H) qs (e, m2)"
    unfolding waiters_ok_def prod.case
  proof (intro conjI allI ballI)
    show "cclist_inv (Bs c) (sm_waiters m2 c) (drop_ref ?w H c)" for c
      using waiters_okD(1) [OF ok, of c] r(2,3) rm by (simp add: drop_ref_def)
    show "live (drop_ref ?w H) b" if "b \<in> set qs" for b using waiters_okD(3) [OF ok that] that p(2) lv by auto
    then show "rq_inv m2 e qs" using waiters_okD(2) [OF ok] same lv by (auto intro: rq_inv_same)
    show "\<exists>x. wget m2 (Wnode c h) = Some x \<and> iw_tmo x \<noteq> 0" if "h \<in> set (drop_ref ?w H c)" for c h
    proof -
      from that have "live (drop_ref ?w H) (Wnode c h)" by (simp add: live_def)
      with lv have l: "live H (Wnode c h)" "Wnode c h \<noteq> ?w" by auto
      with same waiters_okD(4) [OF ok, of h c] show ?thesis by (simp add: live_def del: wget.simps)
    qed
    show "\<not> sm_data m2 co" for co using waiters_okD(5) [OF ok] r(5) by simp
  qed
  with r(1) same show ?thesis by blast
qed

lemma leave_wait_ok:
  assumes ok: "waiters_ok Bs H qs (e, m)" and w: "w \<in> set qs"
  shows "\<exists>e' m'. leave_wait w (e, m) = Some (e', m') \<and> rq_so e' = rq_so e \<and> waiters_ok Bs (drop_ref w H) (remove1 w qs) (e', m') \<and>
     keeps (\<lambda>a. live H a \<and> a \<noteq> w) m m'"
proof -
  from dequeue_waiters_ok [OF ok w] obtain e' m1 where
    q: "epoll_dequeue e (Some w) m = Some (e', m1)" "waiters_ok Bs H (remove1 w qs) (e', m1)" "keeps (\<lambda>_. True) m m1" "rq_so e' = rq_so e" by blast
  show ?thesis
  proof (cases w)
    case (Wstack v)
    with q show ?thesis by (auto simp: leave_wait_def drop_ref_def keeps_def)
  next
    case (Wnode core p)
    have "distinct qs" using waiters_okD(2) [OF ok] by (auto simp: rq_inv_def)
    then have "p \<in> set (H core)" "Wnode core p \<notin> set (remove1 w qs)" using waiters_okD(3) [OF ok w] Wnode by (simp_all add: live_def)
    from remove_waiters_ok [OF q(2) this] obtain m2 where
      r: "remove_waiter core (Some p) m1 = Some m2" "waiters_ok Bs (drop_ref w H) (remove1 w qs) (e', m2)"
        "\<And>a. live H a \<Longrightarrow> a \<noteq> w \<Longrightarrow> wget m2 a = wget m1 a" using Wnode by blast
    have "keeps (\<lambda>a. live H a \<and> a \<noteq> w) m m2" using q(3) r(3) by (simp add: keeps_def del: wget.simps)
    moreover have "leave_wait w (e, m) = Some (e', m2)" using q(1) r(1) Wnode by (simp add: leave_wait_def)
    ultimately show ?thesis using q(4) r(2) by blast
  qed
qed

lemma enter_wait_full:
  assumes "waiters_ok Bs H qs (e, m)" "length (H core) = card (Bs core)"
  shows "enter_wait core w (e, m) = Some (Inl ENOMEM, e, m)"
  using add_waiter_full [OF waiters_okD(1) [OF assms(1)] assms(2), of w] by (simp add: enter_wait_def)

text \<open>Changes of waiters in place: the links stay, and a time limit does not become zero.\<close>

lemma waiters_ok_in_place:
  assumes ok: "waiters_ok Bs H qs (e, m)"
    and upd: "\<And>a x. wget m a = Some x \<Longrightarrow> \<exists>y. wget m' a = Some y \<and> iw_prev y = iw_prev x \<and> iw_next y = iw_next x \<and> (iw_tmo x \<noteq> 0 \<longrightarrow> iw_tmo y \<noteq> 0)"
    and inv: "\<And>B c hs. cclist_inv B (sm_waiters m' c) hs = cclist_inv B (sm_waiters m c) hs" and data: "\<And>co. \<not> sm_data m' co"
    and e: "rq_head e' = rq_head e" "rq_tail e' = rq_tail e" "rq_type e' = rq_type e"
  shows "waiters_ok Bs H qs (e', m')"
proof -
  have seg: "wseg (wget m) pr p ws pr' p' \<Longrightarrow> wseg (wget m') pr p ws pr' p'" for pr p ws pr' p'
  proof (induction ws arbitrary: pr p)
    case (Cons a ws)
    then obtain x where x: "p = Some a" "wget m a = Some x" "iw_prev x = pr" "wseg (wget m) (Some a) (iw_next x) ws pr' p'"
      by (auto split: option.splits)
    from upd [OF x(2)] x Cons.IH [OF x(4)] show ?case by auto
  qed simp
  have "rq_inv m' e' qs" using waiters_okD(2) [OF ok] seg by (simp add: rq_inv_def e)
  moreover have "\<exists>y. wget m' (Wnode c h) = Some y \<and> iw_tmo y \<noteq> 0" if "h \<in> set (H c)" for c h
    using waiters_okD(4) [OF ok that] upd [of "Wnode c h"] by metis
  ultimately show ?thesis using ok inv data by (simp add: waiters_ok_def)
qed

text \<open>An example: the memory of cores that have two free nodes each.\<close>

definition example_free :: "io_waiter cclist" where
  "example_free =
     \<lparr>list_heap = \<lparr>heap_blocks = Some 8,
        heap_fifo = \<lparr>fifo_items = Some [Some 8, Some 80], fifo_capacity = 2, fifo_size = 2, fifo_item_size = 8, fifo_first = 0, fifo_last = 0\<rparr>\<rparr>,
      list_head = None, list_tail = None, list_capacity = 2, list_item_size = 56,
      list_mem = (\<lambda>_. \<lparr>node_prev = None, node_next = None, node_item = None\<rparr>)\<rparr>"

lemma example_free_inv: "cclist_inv {8, 80} example_free []"
  by (auto simp: cclist_inv_def ccheap_inv_def ccfifo_inv_def ccfifo_list_def ccfifo_slot_def example_free_def less_Suc_eq numeral_2_eq_2)

end
