(* ===== verification/Co_Lock.thy ===== *)
theory Co_Lock
  imports Co_Queue
begin

text \<open>
  The locks of src/cothread/co-scheduler.c: \<open>co_thread_lock\<close>, \<open>co_thread_unlock\<close>, \<open>co_thread_wait\<close>,
  \<open>co_thread_signal\<close> and \<open>co_thread_broadcast\<close>, used by coroutines of any core and by threads outside of
  the scheduler. Everything these functions do happens under one global mutex, which they give up
  only where they suspend themselves; a function is modelled as the sequence of its parts between
  two suspensions, and the step relation interleaves the parts of all callers with the events of the
  listener and the walks of the cores.
\<close>

section \<open>The lock and the parts of its operations\<close>

text \<open>A caller: a coroutine of a core, or a thread. Each has a value of its own for \<open>obj->co\<close>.\<close>

datatype agent = Co nat nat | Pt nat

text \<open>\<open>lk_fd\<close> is the counter of the event descriptor, which \<open>eventfd_write\<close> increments.\<close>

record co_thread_lock_s =
  lk_e :: iorq
  lk_co :: "agent option"
  lk_fd :: nat

type_synonym lock_mem = "co_thread_lock_s \<times> sched_mem"

text \<open>The outcomes of \<open>calloc\<close>, \<open>eventfd\<close>, \<open>fcntl\<close> and \<open>epoll_ctl\<close> are parameters.\<close>

definition co_thread_lock_init_internal :: "bool \<Rightarrow> int \<Rightarrow> bool \<Rightarrow> bool \<Rightarrow> co_thread_lock_s option" where
  "co_thread_lock_init_internal mem_ok so nonblock_ok epoll_ok =
     (if \<not> mem_ok then None
      else if so = 0 then None
      else if \<not> nonblock_ok then None
      else if \<not> epoll_ok then None
      else Some \<lparr>lk_e = \<lparr>rq_head = None, rq_tail = None, rq_so = so, rq_type = iowait_eventfd\<rparr>, lk_co = None, lk_fd = 0\<rparr>)"

text \<open>A caller that does not own the lock is stopped by \<open>raise(SIGINT)\<close>.\<close>

definition co_thread_check :: "agent \<Rightarrow> co_thread_lock_s \<Rightarrow> unit ub" where
  "co_thread_check me l = (if lk_co l = Some me then Some () else None)"

definition blank_waiter :: io_waiter where
  "blank_waiter =
     \<lparr>iw_tmo = 0, iw_prev = None, iw_next = None, iw_co = None, iw_mask = 0, iw_events = 0, iw_revents = 0, iw_flags = 0\<rparr>"

text \<open>A new waiter of a coroutine in its list and in the queue of the lock; \<open>exit(1)\<close> when the list is full.\<close>

definition enter_queue :: "nat \<Rightarrow> io_waiter \<Rightarrow> lock_mem \<Rightarrow> (wref \<times> lock_mem) ub" where
  "enter_queue core w = (\<lambda>(l, m).
     do { (r, e, m) \<leftarrow> enter_wait core w (lk_e l, m);
          (case r of Inl _ \<Rightarrow> None | Inr a \<Rightarrow> Some (a, l\<lparr>lk_e := e\<rparr>, m)) })"

definition leave_queue :: "wref \<Rightarrow> lock_mem \<Rightarrow> lock_mem ub" where
  "leave_queue w = (\<lambda>(l, m). do { (e, m) \<leftarrow> leave_wait w (lk_e l, m); Some (l\<lparr>lk_e := e\<rparr>, m) })"

text \<open>
  \<open>co_thread_lock_internal\<close>: what it does before its loop, and one turn of the loop with what follows
  when the lock is free. The result of a turn tells whether the loop has ended.
\<close>

definition lock_begin :: "agent \<Rightarrow> lock_mem \<Rightarrow> (wref option \<times> lock_mem) ub" where
  "lock_begin me s =
     (case me of
        Pt _ \<Rightarrow> Some (None, s)
      | Co core co \<Rightarrow>
          do { (w, s) \<leftarrow> enter_queue core (blank_waiter\<lparr>iw_co := Some co, iw_tmo := -1, iw_mask := EPOLLIN\<rparr>) s;
               Some (Some w, s) })"

definition lock_turn :: "agent \<Rightarrow> wref option \<Rightarrow> lock_mem \<Rightarrow> (bool \<times> lock_mem) ub" where
  "lock_turn me wp = (\<lambda>(l, m).
     (if lk_co l \<noteq> None then Some (False, l, m)
      else
        (let l = l\<lparr>lk_co := Some me\<rparr> in
         case wp of
           None \<Rightarrow> Some (True, l, m)
         | Some w \<Rightarrow> do { s \<leftarrow> leave_queue w (l, m); Some (True, s) })))"

definition co_thread_unlock_internal :: "co_thread_lock_s \<Rightarrow> co_thread_lock_s" where
  "co_thread_unlock_internal l = l\<lparr>lk_co := None, lk_fd := Suc (lk_fd l)\<rparr>"

definition co_thread_unlock :: "agent \<Rightarrow> lock_mem \<Rightarrow> lock_mem ub" where
  "co_thread_unlock me = (\<lambda>(l, m). do { _ \<leftarrow> co_thread_check me l; Some (co_thread_unlock_internal l, m) })"

partial_function (option) signal_loop :: "bool \<Rightarrow> wref option \<Rightarrow> nat \<Rightarrow> sched_mem \<Rightarrow> (nat \<times> sched_mem) option" where
  "signal_loop bc wp n m =
     (case wp of
        None \<Rightarrow> Some (n, m)
      | Some w \<Rightarrow>
          do { x \<leftarrow> wget m w;
               if iw_flags x AND MTX_WAKEUP_WAITING \<noteq> 0
               then do { m \<leftarrow> (if iw_flags x AND MTX_WAKEUP_EVENT = 0 then wset (iw_flags_update (\<lambda>f. f OR MTX_WAKEUP_EVENT)) w m else Some m);
                         if \<not> bc then Some (Suc n, m) else signal_loop bc (iw_next x) (Suc n) m }
               else signal_loop bc (iw_next x) n m })"

declare signal_loop.simps [code]

definition co_thread_signal_internal :: "agent \<Rightarrow> bool \<Rightarrow> lock_mem \<Rightarrow> (nat \<times> lock_mem) ub" where
  "co_thread_signal_internal me bc = (\<lambda>(l, m).
     do { _ \<leftarrow> co_thread_check me l;
          _ \<leftarrow> e_check (lk_e l);
          (n, m) \<leftarrow> signal_loop bc (rq_head (lk_e l)) 0 m;
          Some (n, if n > 0 then l\<lparr>lk_fd := Suc (lk_fd l)\<rparr> else l, m) })"

text \<open>
  \<open>co_thread_wait\<close> up to its first suspension; \<open>Inl\<close> is the status -1 with errno \<open>EINVAL\<close>. The waiter of a
  thread is a variable of its own.
\<close>

definition wait_begin :: "agent \<Rightarrow> int \<Rightarrow> int \<Rightarrow> lock_mem \<Rightarrow> ((errno + wref) \<times> lock_mem) ub" where
  "wait_begin me tmo ct = (\<lambda>(l, m).
     (let w = blank_waiter\<lparr>iw_tmo := (if tmo \<ge> 0 then ct + tmo else -1), iw_flags := MTX_WAKEUP_WAITING\<rparr> in
      case me of
        Pt v \<Rightarrow>
          if lk_co l \<noteq> Some me then Some (Inl EINVAL, l, m)
          else do { let m = m\<lparr>sm_stack := (sm_stack m)(v := Some w)\<rparr>;
                    (e, m) \<leftarrow> epoll_queue (lk_e l) (Some (Wstack v)) m;
                    Some (Inr (Wstack v), co_thread_unlock_internal (l\<lparr>lk_e := e\<rparr>), m) }
      | Co core co \<Rightarrow>
          do { _ \<leftarrow> co_thread_check me l;
               (a, l, m) \<leftarrow> enter_queue core (w\<lparr>iw_co := Some co, iw_mask := EPOLLIN\<rparr>) (l, m);
               Some (Inr a, co_thread_unlock_internal l, m) }))"

text \<open>One evaluation of the condition of its loop: \<open>None\<close> to go on waiting, otherwise the status.\<close>

definition wait_turn :: "agent \<Rightarrow> wref \<Rightarrow> int \<Rightarrow> int \<Rightarrow> sched_mem \<Rightarrow> bool option ub" where
  "wait_turn me a tmo ct m =
     do { x \<leftarrow> wget m a;
          let status = (iw_flags x AND MTX_WAKEUP_EVENT \<noteq> 0);
          let forever = (case me of Pt _ \<Rightarrow> tmo < 0 | Co _ _ \<Rightarrow> iw_tmo x < 0);
          Some (if \<not> status \<and> (forever \<or> ct < iw_tmo x) then None else Some status) }"

section \<open>The interleaving of callers\<close>

text \<open>
  Where a caller stands: outside, in the loop of \<open>co_thread_lock_internal\<close>, owning the lock, in the loop of
  \<open>co_thread_wait\<close>, or locking again with the status of the wait.
\<close>

datatype phase = Idle | Locking "wref option" | Holding | Waiting wref int | Relocking wref bool "wref option"

record lock_sys =
  ls_state :: lock_mem
  ls_phase :: "agent \<Rightarrow> phase"

definition goto :: "agent \<Rightarrow> phase \<Rightarrow> lock_mem \<Rightarrow> lock_sys \<Rightarrow> lock_sys" where
  "goto a ph s sys = \<lparr>ls_state = s, ls_phase = (ls_phase sys)(a := ph)\<rparr>"

inductive lock_step :: "lock_sys \<Rightarrow> lock_sys \<Rightarrow> bool" where
  lock: "ls_phase sys a = Idle \<Longrightarrow> lock_begin a (ls_state sys) = Some (wp, s) \<Longrightarrow> lock_step sys (goto a (Locking wp) s sys)"
| locked: "ls_phase sys a = Locking wp \<Longrightarrow> lock_turn a wp (ls_state sys) = Some (True, s) \<Longrightarrow> lock_step sys (goto a Holding s sys)"
| unlock: "co_thread_unlock a (ls_state sys) = Some s \<Longrightarrow> lock_step sys (goto a Idle s sys)"
| signal: "co_thread_signal_internal a bc (ls_state sys) = Some (n, s) \<Longrightarrow> lock_step sys (sys\<lparr>ls_state := s\<rparr>)"
| wait: "ls_phase sys a = Holding \<Longrightarrow> 0 < ct \<Longrightarrow> wait_begin a tmo ct (ls_state sys) = Some (Inr w, s) \<Longrightarrow> lock_step sys (goto a (Waiting w tmo) s sys)"
| woken: "ls_phase sys a = Waiting w tmo \<Longrightarrow> wait_turn a w tmo ct (snd (ls_state sys)) = Some (Some st) \<Longrightarrow>
    lock_begin a (ls_state sys) = Some (wp, s) \<Longrightarrow> lock_step sys (goto a (Relocking w st wp) s sys)"
| relocked: "ls_phase sys a = Relocking w st wp \<Longrightarrow> lock_turn a wp (ls_state sys) = Some (True, s) \<Longrightarrow>
    leave_queue w s = Some s' \<Longrightarrow> lock_step sys (goto a Holding s' sys)"
| event: "ls_state sys = (l, m) \<Longrightarrow> 0 < lk_fd l \<Longrightarrow> epoll_listener_event (lk_e l) EPOLLIN m = Some (sig, m') \<Longrightarrow>
    lock_step sys (sys\<lparr>ls_state := (l\<lparr>lk_fd := 0\<rparr>, m')\<rparr>)"
| walk: "ls_state sys = (l, m) \<Longrightarrow> 0 < ccmax \<Longrightarrow> walk_waiters_list core ct ccmax m = Some (cc, tmo, m') \<Longrightarrow>
    lock_step sys (sys\<lparr>ls_state := (l, m')\<rparr>)"

section \<open>Memory that is in order\<close>

definition mem_ok :: "(nat \<Rightarrow> nat set) \<Rightarrow> (nat \<Rightarrow> nat list) \<Rightarrow> wref list \<Rightarrow> lock_mem \<Rightarrow> bool" where
  "mem_ok Bs H qs = (\<lambda>(l, m). waiters_ok Bs H qs (lk_e l, m))"

lemma mem_okD:
  assumes "mem_ok Bs H qs (l, m)"
  shows "cclist_inv (Bs c) (sm_waiters m c) (H c)" "rq_inv m (lk_e l) qs" "w \<in> set qs \<Longrightarrow> live H w"
    "h \<in> set (H c) \<Longrightarrow> \<exists>x. wget m (Wnode c h) = Some x \<and> iw_tmo x \<noteq> 0" "\<not> sm_data m co"
  using assms unfolding mem_ok_def waiters_ok_def prod.case by blast+

lemma queue_mem_ok:
  assumes "mem_ok Bs H qs (l, m)" "wget m w \<noteq> None" "w \<notin> set qs" "live H w"
  shows "\<exists>e m'. epoll_queue (lk_e l) (Some w) m = Some (e, m') \<and> mem_ok Bs H (qs @ [w]) (l\<lparr>lk_e := e\<rparr>, m') \<and> keeps (\<lambda>_. True) m m'"
  using queue_waiters_ok [of Bs H qs "lk_e l" m w] assms by (auto simp: mem_ok_def)

lemma enter_queue_ok:
  assumes ok: "mem_ok Bs H qs (l, m)" and tmo: "iw_tmo w \<noteq> 0" and enter: "enter_queue core w (l, m) = Some (a, l', m')"
  shows "\<exists>p e. a = Wnode core p \<and> p \<notin> set (H core) \<and> l' = l\<lparr>lk_e := e\<rparr> \<and> mem_ok Bs (H(core := H core @ [p])) (qs @ [a]) (l', m') \<and>
     keeps (live H) m m' \<and> (\<exists>x. wget m' a = Some x \<and> payload x = payload (w\<lparr>iw_mask := iw_mask w OR UNMASKED_EVENTS\<rparr>))"
proof -
  from ok have wok: "waiters_ok Bs H qs (lk_e l, m)" by (simp add: mem_ok_def)
  have "length (H core) < card (Bs core)"
    using waiters.hle [OF mem_okD(1) [OF ok, of core]] enter_wait_full [OF wok, of core w] enter by (fastforce simp: enter_queue_def)
  from enter_wait_ok [OF wok tmo this] obtain p e m2 where
    "enter_wait core w (lk_e l, m) = Some (Inr (Wnode core p), e, m2)" and
    r: "p \<notin> set (H core)" "waiters_ok Bs (H(core := H core @ [p])) (qs @ [Wnode core p]) (e, m2)" "keeps (live H) m m2"
      "\<exists>x. wget m2 (Wnode core p) = Some x \<and> payload x = payload (w\<lparr>iw_mask := iw_mask w OR UNMASKED_EVENTS\<rparr>)" by blast
  with enter have "a = Wnode core p" "l' = l\<lparr>lk_e := e\<rparr>" "m' = m2" by (auto simp: enter_queue_def)
  with r show ?thesis by (intro exI [of _ p] exI [of _ e]) (simp add: mem_ok_def)
qed

lemma leave_queue_ok:
  assumes "mem_ok Bs H qs (l, m)" "w \<in> set qs"
  shows "\<exists>e m'. leave_queue w (l, m) = Some (l\<lparr>lk_e := e\<rparr>, m') \<and> mem_ok Bs (drop_ref w H) (remove1 w qs) (l\<lparr>lk_e := e\<rparr>, m') \<and>
     keeps (\<lambda>a. live H a \<and> a \<noteq> w) m m'"
  using leave_wait_ok [of Bs H qs "lk_e l" m w] assms by (auto simp: mem_ok_def leave_queue_def)

section \<open>The invariant\<close>

text \<open>The waiters of a caller: the one of its lock loop and the one of its wait.\<close>

fun lockw :: "phase \<Rightarrow> wref set" where
  "lockw (Locking wp) = set_option wp"
| "lockw (Relocking _ _ wp) = set_option wp"
| "lockw _ = {}"

fun waitw :: "phase \<Rightarrow> wref set" where
  "waitw (Waiting w _) = {w}"
| "waitw (Relocking w _ _) = {w}"
| "waitw _ = {}"

abbreviation held :: "phase \<Rightarrow> wref set" where
  "held ph \<equiv> lockw ph \<union> waitw ph"

definition lock_waiter :: "agent \<Rightarrow> io_waiter \<Rightarrow> bool" where
  "lock_waiter a x = (case a of Co c co \<Rightarrow> iw_co x = Some co \<and> iw_mask x AND EPOLLIN \<noteq> 0 \<and> iw_flags x = 0 | Pt _ \<Rightarrow> False)"

definition wait_waiter :: "agent \<Rightarrow> io_waiter \<Rightarrow> bool" where
  "wait_waiter a x \<longleftrightarrow>
     iw_flags x AND MTX_WAKEUP_WAITING \<noteq> 0 \<and> iw_flags x AND CO_YIELD = 0 \<and>
     (case a of Co c co \<Rightarrow> iw_co x = Some co | Pt _ \<Rightarrow> True)"

definition belongs :: "agent \<Rightarrow> wref \<Rightarrow> bool" where
  "belongs a w = (case a of Co c co \<Rightarrow> (\<exists>p. w = Wnode c p) | Pt v \<Rightarrow> w = Wstack v)"

definition phases_ok :: "wref list \<Rightarrow> (agent \<Rightarrow> phase) \<Rightarrow> sched_mem \<Rightarrow> bool" where
  "phases_ok qs ph m \<longleftrightarrow>
     set qs = (\<Union>a. held (ph a)) \<and> (\<forall>a b. a \<noteq> b \<longrightarrow> held (ph a) \<inter> held (ph b) = {}) \<and>
     (\<forall>a. lockw (ph a) \<inter> waitw (ph a) = {}) \<and> (\<forall>a. \<forall>w \<in> held (ph a). belongs a w) \<and>
     (\<forall>a. \<forall>w \<in> lockw (ph a). \<exists>x. wget m w = Some x \<and> lock_waiter a x) \<and>
     (\<forall>a. \<forall>w \<in> waitw (ph a). \<exists>x. wget m w = Some x \<and> wait_waiter a x)"

definition owner_ok :: "(agent \<Rightarrow> phase) \<Rightarrow> co_thread_lock_s \<Rightarrow> bool" where
  "owner_ok ph l \<longleftrightarrow> (\<forall>a. lk_co l = Some a \<longleftrightarrow> ph a = Holding)"

definition lock_inv :: "(nat \<Rightarrow> nat set) \<Rightarrow> lock_sys \<Rightarrow> bool" where
  "lock_inv Bs sys \<longleftrightarrow>
     (\<exists>H qs. mem_ok Bs H qs (ls_state sys) \<and> phases_ok qs (ls_phase sys) (snd (ls_state sys)) \<and> owner_ok (ls_phase sys) (fst (ls_state sys)))"

lemma waiter_payload: "payload x = payload y \<Longrightarrow> lock_waiter a x = lock_waiter a y \<and> wait_waiter a x = wait_waiter a y"
  using payload_fields [of x y] by (simp add: lock_waiter_def wait_waiter_def split: agent.split)

lemma phases_okD:
  assumes "phases_ok qs ph m"
  shows "set qs = (\<Union>a. held (ph a))" "a \<noteq> b \<Longrightarrow> held (ph a) \<inter> held (ph b) = {}" "lockw (ph a) \<inter> waitw (ph a) = {}"
    "w \<in> held (ph a) \<Longrightarrow> belongs a w" "w \<in> lockw (ph a) \<Longrightarrow> \<exists>x. wget m w = Some x \<and> lock_waiter a x"
    "w \<in> waitw (ph a) \<Longrightarrow> \<exists>x. wget m w = Some x \<and> wait_waiter a x"
  using assms unfolding phases_ok_def by blast+

lemma UN_upd: "(\<Union>b. F ((f(a := p)) b)) = F p \<union> (\<Union>b \<in> - {a}. F (f b))"
proof -
  have "insert a (- {a}) = UNIV" by auto
  moreover have "(\<Union>b \<in> insert a (- {a}). F ((f(a := p)) b)) = F p \<union> (\<Union>b \<in> - {a}. F (f b))" by fastforce
  ultimately show ?thesis by (simp only:)
qed

text \<open>A caller moves on: its own waiters are given, those of the others are kept.\<close>

lemma phases_ok_move:
  assumes ph: "phases_ok qs ph m" and keep: "keeps (\<lambda>w. w \<in> set qs \<and> w \<notin> held (ph a)) m m'"
    and set: "set qs' = (set qs - held (ph a)) \<union> held p'" and fresh: "held p' \<inter> (set qs - held (ph a)) = {}"
    and own: "lockw p' \<inter> waitw p' = {}" "\<forall>w \<in> held p'. belongs a w"
    and lw: "\<forall>w \<in> lockw p'. \<exists>x. wget m' w = Some x \<and> lock_waiter a x" and ww: "\<forall>w \<in> waitw p'. \<exists>x. wget m' w = Some x \<and> wait_waiter a x"
  shows "phases_ok qs' (ph(a := p')) m'"
proof -
  have others: "set qs - held (ph a) = (\<Union>b \<in> - {a}. held (ph b))"
    using phases_okD(1,2) [OF ph] by (fastforce simp: Int_Un_distrib)
  have kept: "(\<exists>x. wget m w = Some x \<and> P x) \<Longrightarrow> (\<And>x y. payload x = payload y \<Longrightarrow> P x = P y) \<Longrightarrow> \<exists>x. wget m' w = Some x \<and> P x"
    if "w \<in> held (ph b)" "b \<noteq> a" for w b P
  proof -
    assume "\<exists>x. wget m w = Some x \<and> P x" and pay: "\<And>x y. payload x = payload y \<Longrightarrow> P x = P y"
    then obtain x where x: "wget m w = Some x" "P x" by blast
    have "w \<in> set qs \<and> w \<notin> held (ph a)" using that others by blast
    then have "map_option payload (wget m' w) = map_option payload (wget m w)" using keep by (simp add: keeps_def)
    from payload_Some [OF this x(1)] x(2) pay show ?thesis by blast
  qed
  show ?thesis unfolding phases_ok_def
  proof (intro conjI allI impI ballI)
    show "set qs' = (\<Union>b. held ((ph(a := p')) b))" unfolding UN_upd [of held] using set others by blast
    show "held ((ph(a := p')) b) \<inter> held ((ph(a := p')) c) = {}" if "b \<noteq> c" for b c
      using that phases_okD(2) [OF ph that] fresh others by (auto simp: Int_Un_distrib)
    show "lockw ((ph(a := p')) b) \<inter> waitw ((ph(a := p')) b) = {}" for b using own(1) phases_okD(3) [OF ph, of b] by simp
    show "belongs b w" if "w \<in> held ((ph(a := p')) b)" for b w using that own(2) phases_okD(4) [OF ph, of w b] by (simp split: if_splits)
    show "\<exists>x. wget m' w = Some x \<and> lock_waiter b x" if "w \<in> lockw ((ph(a := p')) b)" for b w
    proof (cases "b = a")
      case False
      with that have "w \<in> lockw (ph b)" by simp
      with kept [of w b "lock_waiter b"] phases_okD(5) [OF ph] waiter_payload False show ?thesis by blast
    qed (use that lw in simp)
    show "\<exists>x. wget m' w = Some x \<and> wait_waiter b x" if "w \<in> waitw ((ph(a := p')) b)" for b w
    proof (cases "b = a")
      case False
      with that have "w \<in> waitw (ph b)" by simp
      with kept [of w b "wait_waiter b"] phases_okD(6) [OF ph] waiter_payload False show ?thesis by blast
    qed (use that ww in simp)
  qed
qed

lemma kept_waiter:
  assumes "keeps A m m'" "A w"
  shows "\<exists>x. wget m w = Some x \<and> lock_waiter a x \<Longrightarrow> \<exists>x. wget m' w = Some x \<and> lock_waiter a x"
    "\<exists>x. wget m w = Some x \<and> wait_waiter a x \<Longrightarrow> \<exists>x. wget m' w = Some x \<and> wait_waiter a x"
proof -
  have "\<exists>y. wget m' w = Some y \<and> payload y = payload x" if "wget m w = Some x" for x
    using assms payload_Some [OF _ that, of m'] by (simp add: keeps_def)
  then show "\<exists>x. wget m w = Some x \<and> lock_waiter a x \<Longrightarrow> \<exists>x. wget m' w = Some x \<and> lock_waiter a x"
    "\<exists>x. wget m w = Some x \<and> wait_waiter a x \<Longrightarrow> \<exists>x. wget m' w = Some x \<and> wait_waiter a x"
    using waiter_payload by metis+
qed

lemma leave_phases:
  assumes ok: "mem_ok Bs H qs (l, m)" and ph: "phases_ok qs ph m" and w: "w \<in> held (ph a)"
    and p': "lockw p' = lockw (ph a) - {w}" "waitw p' = waitw (ph a) - {w}"
  shows "\<exists>e m' H'. leave_queue w (l, m) = Some (l\<lparr>lk_e := e\<rparr>, m') \<and> mem_ok Bs H' (remove1 w qs) (l\<lparr>lk_e := e\<rparr>, m') \<and>
     phases_ok (remove1 w qs) (ph(a := p')) m'"
proof -
  have wq: "w \<in> set qs" using phases_okD(1) [OF ph] w by blast
  from leave_queue_ok [OF ok wq] obtain e m' where
    l: "leave_queue w (l, m) = Some (l\<lparr>lk_e := e\<rparr>, m')" "mem_ok Bs (drop_ref w H) (remove1 w qs) (l\<lparr>lk_e := e\<rparr>, m')"
      "keeps (\<lambda>a. live H a \<and> a \<noteq> w) m m'" by blast
  have live: "live H b" if "b \<in> set qs" for b using mem_okD(3) [OF ok that] .
  have sub: "held (ph a) \<subseteq> set qs" using phases_okD(1) [OF ph] by blast
  have dist: "set (remove1 w qs) = set qs - {w}" using mem_okD(2) [OF ok] by (simp add: rq_inv_def set_remove1_eq)
  have "phases_ok (remove1 w qs) (ph(a := p')) m'"
  proof (rule phases_ok_move [OF ph])
    show "keeps (\<lambda>b. b \<in> set qs \<and> b \<notin> held (ph a)) m m'" using l(3) live w by (auto simp: keeps_def)
    show "set (remove1 w qs) = set qs - held (ph a) \<union> held p'" using dist p' sub w by blast
    show "held p' \<inter> (set qs - held (ph a)) = {}" using p' by blast
    show "lockw p' \<inter> waitw p' = {}" using p' phases_okD(3) [OF ph, of a] by blast
    show "\<forall>b \<in> held p'. belongs a b" using p' phases_okD(4) [OF ph, of _ a] by blast
    show "\<forall>b \<in> lockw p'. \<exists>x. wget m' b = Some x \<and> lock_waiter a x"
      using p'(1) sub live by (intro ballI kept_waiter(1) [OF l(3)] phases_okD(5) [OF ph]) auto
    show "\<forall>b \<in> waitw p'. \<exists>x. wget m' b = Some x \<and> wait_waiter a x"
      using p'(2) sub live by (intro ballI kept_waiter(2) [OF l(3)] phases_okD(6) [OF ph]) auto
  qed
  with l(1,2) show ?thesis by blast
qed

lemma enter_phases:
  assumes ok: "mem_ok Bs H qs (l, m)" and ph: "phases_ok qs ph m" and a: "a = Co core co"
    and enter: "enter_queue core w (l, m) = Some (r, l', m')" and tmo: "iw_tmo w \<noteq> 0"
    and p': "lockw p' = lockw (ph a) \<union> {r} \<and> waitw p' = waitw (ph a) \<and> lock_waiter a (w\<lparr>iw_mask := iw_mask w OR UNMASKED_EVENTS\<rparr>) \<or>
             lockw p' = lockw (ph a) \<and> waitw p' = waitw (ph a) \<union> {r} \<and> wait_waiter a (w\<lparr>iw_mask := iw_mask w OR UNMASKED_EVENTS\<rparr>)"
  shows "\<exists>e H'. l' = l\<lparr>lk_e := e\<rparr> \<and> mem_ok Bs H' (qs @ [r]) (l', m') \<and> phases_ok (qs @ [r]) (ph(a := p')) m'"
proof -
  from enter_queue_ok [OF ok tmo enter] obtain p e x where
    r: "r = Wnode core p" "p \<notin> set (H core)" "l' = l\<lparr>lk_e := e\<rparr>" "mem_ok Bs (H(core := H core @ [p])) (qs @ [r]) (l', m')" "keeps (live H) m m'"
      and x: "wget m' r = Some x" "payload x = payload (w\<lparr>iw_mask := iw_mask w OR UNMASKED_EVENTS\<rparr>)" by blast
  have live: "live H b" if "b \<in> set qs" for b using mem_okD(3) [OF ok that] .
  have sub: "held (ph a) \<subseteq> set qs" using phases_okD(1) [OF ph] by blast
  have fresh: "r \<notin> set qs" using live [of r] r(1,2) by (auto simp: live_def)
  have "phases_ok (qs @ [r]) (ph(a := p')) m'"
  proof (rule phases_ok_move [OF ph])
    show "keeps (\<lambda>b. b \<in> set qs \<and> b \<notin> held (ph a)) m m'" using r(5) live by (auto simp: keeps_def)
    show "set (qs @ [r]) = set qs - held (ph a) \<union> held p'" using p' sub by auto
    show "held p' \<inter> (set qs - held (ph a)) = {}" using p' fresh by auto
    show "lockw p' \<inter> waitw p' = {}" using p' phases_okD(3) [OF ph, of a] sub fresh by auto
    have "belongs a r" using a r(1) by (simp add: belongs_def)
    then show "\<forall>b \<in> held p'. belongs a b" using p' phases_okD(4) [OF ph, of _ a] by auto
    have own: "lock_waiter a x = lock_waiter a (w\<lparr>iw_mask := iw_mask w OR UNMASKED_EVENTS\<rparr>)"
      "wait_waiter a x = wait_waiter a (w\<lparr>iw_mask := iw_mask w OR UNMASKED_EVENTS\<rparr>)" using waiter_payload [OF x(2)] by auto
    have old: "\<exists>x. wget m' b = Some x \<and> lock_waiter a x" if "b \<in> lockw (ph a)" for b
      using that sub live by (intro kept_waiter(1) [OF r(5)] phases_okD(5) [OF ph]) auto
    show "\<forall>b \<in> lockw p'. \<exists>x. wget m' b = Some x \<and> lock_waiter a x" using p' old x(1) own by auto
    have old: "\<exists>x. wget m' b = Some x \<and> wait_waiter a x" if "b \<in> waitw (ph a)" for b
      using that sub live by (intro kept_waiter(2) [OF r(5)] phases_okD(6) [OF ph]) auto
    show "\<forall>b \<in> waitw p'. \<exists>x. wget m' b = Some x \<and> wait_waiter a x" using p' old x(1) own by auto
  qed
  with r(3,4) show ?thesis by blast
qed

lemma lock_begin_ok:
  assumes "mem_ok Bs H qs (l, m)" "phases_ok qs ph m" "lock_begin a (l, m) = Some (wp, l', m')"
    and "lockw (ph a) = {}" "lockw p' = set_option wp" "waitw p' = waitw (ph a)"
  shows "\<exists>H' qs'. mem_ok Bs H' qs' (l', m') \<and> phases_ok qs' (ph(a := p')) m' \<and> lk_co l' = lk_co l"
proof (cases a)
  case (Pt v)
  then have wp: "wp = None" "l' = l" "m' = m" using assms(3) by (auto simp: lock_begin_def)
  have "phases_ok qs (ph(a := p')) m"
  proof (rule phases_ok_move [OF assms(2)])
    have "held p' = held (ph a)" using assms(4-6) wp(1) by simp
    then show "set qs = set qs - held (ph a) \<union> held p'" "held p' \<inter> (set qs - held (ph a)) = {}" "\<forall>w \<in> held p'. belongs a w"
      using phases_okD(1,4) [OF assms(2)] by auto
    show "\<forall>w \<in> waitw p'. \<exists>x. wget m w = Some x \<and> wait_waiter a x" using phases_okD(6) [OF assms(2), of _ a] assms(6) by auto
  qed (use assms(5) wp(1) in \<open>simp_all add: keeps_def\<close>)
  with assms(1) wp show ?thesis by blast
next
  case (Co core co)
  let ?w = "blank_waiter\<lparr>iw_co := Some co, iw_tmo := -1, iw_mask := EPOLLIN\<rparr>"
  from assms(3) Co obtain r where e: "enter_queue core ?w (l, m) = Some (r, l', m')" "wp = Some r"
    by (auto simp: lock_begin_def bind_eq_Some_conv)
  have "lock_waiter a (?w\<lparr>iw_mask := iw_mask ?w OR UNMASKED_EVENTS\<rparr>)"
    using Co by (simp add: lock_waiter_def blank_waiter_def EPOLLIN_def UNMASKED_EVENTS_def EPOLLERR_def EPOLLHUP_def EPOLLRDHUP_def)
  then have "\<exists>e H'. l' = l\<lparr>lk_e := e\<rparr> \<and> mem_ok Bs H' (qs @ [r]) (l', m') \<and> phases_ok (qs @ [r]) (ph(a := p')) m'"
    using assms(4-6) e(2) by (intro enter_phases [OF assms(1,2) Co e(1)]) auto
  then obtain e' H' where "l' = l\<lparr>lk_e := e'\<rparr>" "mem_ok Bs H' (qs @ [r]) (l', m')" "phases_ok (qs @ [r]) (ph(a := p')) m'" by blast
  then show ?thesis by (intro exI [of _ H'] exI [of _ "qs @ [r]"]) simp
qed

lemma lock_turn_ok:
  assumes ok: "mem_ok Bs H qs (l, m)" and ph: "phases_ok qs ph m" and "lock_turn a wp (l, m) = Some (True, l', m')"
    and wp: "lockw (ph a) = set_option wp" and p': "lockw p' = {}" "waitw p' = waitw (ph a)"
  shows "\<exists>H' qs'. mem_ok Bs H' qs' (l', m') \<and> phases_ok qs' (ph(a := p')) m' \<and> lk_co l' = Some a \<and> lk_co l = None"
proof (cases wp)
  case None
  with assms(3) have r: "l' = l\<lparr>lk_co := Some a\<rparr>" "m' = m" "lk_co l = None" by (auto simp: lock_turn_def split: if_splits)
  have "phases_ok qs (ph(a := p')) m"
  proof (rule phases_ok_move [OF ph])
    have "held p' = held (ph a)" using wp p' None by simp
    then show "set qs = set qs - held (ph a) \<union> held p'" "held p' \<inter> (set qs - held (ph a)) = {}" "\<forall>w \<in> held p'. belongs a w"
      using phases_okD(1,4) [OF ph] by auto
    show "\<forall>w \<in> waitw p'. \<exists>x. wget m w = Some x \<and> wait_waiter a x" using phases_okD(6) [OF ph, of _ a] p' by auto
  qed (use p' in \<open>simp_all add: keeps_def\<close>)
  moreover have "mem_ok Bs H qs (l', m')" using ok r by (simp add: mem_ok_def)
  ultimately show ?thesis using r by auto
next
  case (Some w)
  let ?l = "l\<lparr>lk_co := Some a\<rparr>"
  have ok1: "mem_ok Bs H qs (?l, m)" using ok by (simp add: mem_ok_def)
  have "w \<notin> waitw (ph a)" using phases_okD(3) [OF ph, of a] wp Some by auto
  with leave_phases [OF ok1 ph, of w a p'] wp Some p' obtain e m1 H' where
    l: "leave_queue w (?l, m) = Some (?l\<lparr>lk_e := e\<rparr>, m1)" "mem_ok Bs H' (remove1 w qs) (?l\<lparr>lk_e := e\<rparr>, m1)"
      "phases_ok (remove1 w qs) (ph(a := p')) m1" by auto
  from assms(3) Some l(1) have "lk_co l = None" "l' = ?l\<lparr>lk_e := e\<rparr>" "m' = m1" by (auto simp: lock_turn_def Let_def split: if_splits)
  with l(2,3) show ?thesis by auto
qed

lemma mem_ok_unlock [simp]: "mem_ok Bs H qs (co_thread_unlock_internal l, m) = mem_ok Bs H qs (l, m)"
  by (simp add: mem_ok_def co_thread_unlock_internal_def)

lemma unlock_owner [simp]: "lk_co (co_thread_unlock_internal l) = None"
  by (simp add: co_thread_unlock_internal_def)

lemma mem_ok_stack:
  assumes "mem_ok Bs H qs (l, m)" "Wstack v \<notin> set qs"
  shows "mem_ok Bs H qs (l, m\<lparr>sm_stack := (sm_stack m)(v := x)\<rparr>)"
proof -
  have "wget (m\<lparr>sm_stack := (sm_stack m)(v := x)\<rparr>) a = wget m a" if "a \<noteq> Wstack v" for a using that by (cases a) auto
  then have "rq_inv (m\<lparr>sm_stack := (sm_stack m)(v := x)\<rparr>) (lk_e l) qs"
    using assms(2) by (intro rq_inv_same [OF mem_okD(2) [OF assms(1)]]) metis
  then show ?thesis using assms(1) by (simp add: mem_ok_def waiters_ok_def)
qed

lemma wait_begin_ok:
  assumes ok: "mem_ok Bs H qs (l, m)" and ph: "phases_ok qs ph m" and h: "ph a = Holding" and ct: "0 < ct"
    and wait: "wait_begin a tmo ct (l, m) = Some (Inr w, l', m')"
  shows "\<exists>H' qs'. mem_ok Bs H' qs' (l', m') \<and> phases_ok qs' (ph(a := Waiting w tmo)) m' \<and> lk_co l = Some a \<and> lk_co l' = None"
proof (cases a)
  case (Co core co)
  let ?w = "blank_waiter\<lparr>iw_tmo := (if tmo \<ge> 0 then ct + tmo else -1), iw_flags := MTX_WAKEUP_WAITING, iw_co := Some co, iw_mask := EPOLLIN\<rparr>"
  from wait Co obtain l1 where e: "enter_queue core ?w (l, m) = Some (w, l1, m')" "l' = co_thread_unlock_internal l1" "lk_co l = Some a"
    by (auto simp: wait_begin_def co_thread_check_def Let_def bind_eq_Some_conv split: if_splits)
  have "wait_waiter a (?w\<lparr>iw_mask := iw_mask ?w OR UNMASKED_EVENTS\<rparr>)"
    using Co by (simp add: wait_waiter_def blank_waiter_def MTX_WAKEUP_WAITING_def CO_YIELD_def)
  then have "\<exists>e H'. l1 = l\<lparr>lk_e := e\<rparr> \<and> mem_ok Bs H' (qs @ [w]) (l1, m') \<and> phases_ok (qs @ [w]) (ph(a := Waiting w tmo)) m'"
    using h ct by (intro enter_phases [OF ok ph Co e(1)]) auto
  then obtain e' H' where "mem_ok Bs H' (qs @ [w]) (l1, m')" "phases_ok (qs @ [w]) (ph(a := Waiting w tmo)) m'" by blast
  with e(2,3) show ?thesis by (intro exI [of _ H'] exI [of _ "qs @ [w]"]) simp
next
  case (Pt v)
  let ?w = "blank_waiter\<lparr>iw_tmo := (if tmo \<ge> 0 then ct + tmo else -1), iw_flags := MTX_WAKEUP_WAITING\<rparr>"
  let ?m = "m\<lparr>sm_stack := (sm_stack m)(v := Some ?w)\<rparr>"
  have "belongs b (Wstack v) \<Longrightarrow> b = a" for b using Pt by (cases b) (auto simp: belongs_def)
  then have fresh: "Wstack v \<notin> set qs" using phases_okD(1,4) [OF ph] h by force
  have ok1: "mem_ok Bs H qs (l, ?m)" by (rule mem_ok_stack [OF ok fresh])
  from queue_mem_ok [OF ok1 _ fresh] obtain e m1 where
    q: "epoll_queue (lk_e l) (Some (Wstack v)) ?m = Some (e, m1)" "mem_ok Bs H (qs @ [Wstack v]) (l\<lparr>lk_e := e\<rparr>, m1)" "keeps (\<lambda>_. True) ?m m1"
    by (auto simp: live_def)
  from wait Pt q(1) have r: "w = Wstack v" "l' = co_thread_unlock_internal (l\<lparr>lk_e := e\<rparr>)" "m' = m1" "lk_co l = Some a"
    by (auto simp: wait_begin_def Let_def split: if_splits)
  have same: "wget ?m b = wget m b" if "b \<noteq> Wstack v" for b using that by (cases b) auto
  have "map_option payload (wget m1 (Wstack v)) = map_option payload (wget ?m (Wstack v))" using q(3) unfolding keeps_def by blast
  then have "\<exists>x. wget m1 (Wstack v) = Some x \<and> payload x = payload ?w" by (rule payload_Some) simp
  moreover have "wait_waiter a ?w" using Pt by (simp add: wait_waiter_def blank_waiter_def MTX_WAKEUP_WAITING_def CO_YIELD_def)
  ultimately have own: "\<exists>x. wget m1 (Wstack v) = Some x \<and> wait_waiter a x" using waiter_payload by blast
  have "keeps (\<lambda>b. b \<in> set qs \<and> b \<notin> held (ph a)) m m1"
    unfolding keeps_def using q(3) [unfolded keeps_def] same fresh by (metis (no_types, lifting))
  then have "phases_ok (qs @ [w]) (ph(a := Waiting w tmo)) m1"
    by (rule phases_ok_move [OF ph]) (use h r(1) fresh own Pt in \<open>auto simp: belongs_def\<close>)
  then show ?thesis using q(2) r by (intro exI [of _ H] exI [of _ "qs @ [w]"]) simp
qed

text \<open>Steps that change waiters in place.\<close>

definition still :: "io_waiter \<Rightarrow> io_waiter \<Rightarrow> bool" where
  "still x y \<longleftrightarrow>
     iw_prev y = iw_prev x \<and> iw_next y = iw_next x \<and> iw_tmo y = iw_tmo x \<and>
     (\<forall>a. (lock_waiter a x \<longrightarrow> lock_waiter a y) \<and> (wait_waiter a x \<longrightarrow> wait_waiter a y))"

definition marked :: "io_waiter \<Rightarrow> io_waiter" where
  "marked x = (if iw_flags x AND MTX_WAKEUP_WAITING \<noteq> 0 \<and> iw_flags x AND MTX_WAKEUP_EVENT = 0
     then iw_flags_update (\<lambda>f. f OR MTX_WAKEUP_EVENT) x else x)"

lemma flag_bits:
  "(f OR MTX_WAKEUP_EVENT) AND MTX_WAKEUP_WAITING = f AND MTX_WAKEUP_WAITING" "(f OR MTX_WAKEUP_EVENT) AND CO_YIELD = f AND CO_YIELD"
  "(f OR MTX_WAKEUP_EVENT) AND MTX_WAKEUP_EVENT \<noteq> 0"
proof -
  show "(f OR MTX_WAKEUP_EVENT) AND MTX_WAKEUP_WAITING = f AND MTX_WAKEUP_WAITING" "(f OR MTX_WAKEUP_EVENT) AND CO_YIELD = f AND CO_YIELD"
    by (simp_all add: bit.conj_disj_distrib2 MTX_WAKEUP_EVENT_def MTX_WAKEUP_WAITING_def CO_YIELD_def)
  have "(f OR MTX_WAKEUP_EVENT) AND MTX_WAKEUP_EVENT = MTX_WAKEUP_EVENT" by (simp add: bit.conj_disj_distrib2 or.commute)
  then show "(f OR MTX_WAKEUP_EVENT) AND MTX_WAKEUP_EVENT \<noteq> 0" by (simp add: MTX_WAKEUP_EVENT_def)
qed

lemma or_event: "(m :: u32) AND ev \<noteq> 0 \<Longrightarrow> (e OR ev) AND m \<noteq> 0"
  by (auto simp: bit_eq_iff bit_simps)

lemma still_refl [simp]: "still x x"
  by (simp add: still_def)

lemma still_events [simp]: "still x (iw_events_update f x)"
  by (simp add: still_def lock_waiter_def wait_waiter_def split: agent.split)

lemma still_marked [simp]: "still x (marked x)"
  by (auto simp: still_def marked_def lock_waiter_def wait_waiter_def flag_bits split: agent.split)

lemma still_visited [simp]: "still x (visited ct x)"
  by (auto simp: still_def visited_def yielding_def lock_waiter_def wait_waiter_def split: agent.split)

lemma in_place_ok:
  assumes ok: "mem_ok Bs H qs (l, m)" and ph: "phases_ok qs ph m"
    and still: "\<And>a x. wget m a = Some x \<Longrightarrow> \<exists>y. wget m' a = Some y \<and> still x y"
    and inv: "\<And>B c hs. cclist_inv B (sm_waiters m' c) hs = cclist_inv B (sm_waiters m c) hs" and data: "\<And>co. \<not> sm_data m' co"
    and e: "lk_e l' = lk_e l"
  shows "mem_ok Bs H qs (l', m') \<and> phases_ok qs ph m'"
proof -
  have "waiters_ok Bs H qs (lk_e l', m')"
  proof (rule waiters_ok_in_place [OF ok [unfolded mem_ok_def prod.case] _ inv data])
    show "\<exists>y. wget m' a = Some y \<and> iw_prev y = iw_prev x \<and> iw_next y = iw_next x \<and> (iw_tmo x \<noteq> 0 \<longrightarrow> iw_tmo y \<noteq> 0)"
      if "wget m a = Some x" for a x using still [OF that] by (auto simp: still_def)
  qed (use e in simp_all)
  then have "mem_ok Bs H qs (l', m')" by (simp add: mem_ok_def)
  moreover have "phases_ok qs ph m'"
    unfolding phases_ok_def
  proof (intro conjI allI impI ballI)
    show "\<exists>x. wget m' w = Some x \<and> lock_waiter a x" if "w \<in> lockw (ph a)" for a w
      using phases_okD(5) [OF ph that] still [of w] unfolding still_def by metis
    show "\<exists>x. wget m' w = Some x \<and> wait_waiter a x" if "w \<in> waitw (ph a)" for a w
      using phases_okD(6) [OF ph that] still [of w] unfolding still_def by metis
  qed (use phases_okD [OF ph] in blast)+
  ultimately show ?thesis ..
qed

text \<open>
  Signalling: \<open>signalled bc xs\<close> are the waiters, by position, that a signal or broadcast marks: the first
  one that waits for a signal, or all of them.
\<close>

definition in_wait :: "io_waiter \<Rightarrow> bool" where
  "in_wait x \<longleftrightarrow> iw_flags x AND MTX_WAKEUP_WAITING \<noteq> 0"

fun signalled :: "bool \<Rightarrow> (wref \<Rightarrow> io_waiter option) \<Rightarrow> wref list \<Rightarrow> wref list" where
  "signalled bc g [] = []"
| "signalled bc g (w # ws) = (if in_wait (the (g w)) then (if bc then w # signalled bc g ws else [w]) else signalled bc g ws)"

lemma signalled_cong: "(\<And>w. w \<in> set ws \<Longrightarrow> g' w = g w) \<Longrightarrow> signalled bc g' ws = signalled bc g ws"
  by (induction ws) auto

lemma signalled_subset: "set (signalled bc g ws) \<subseteq> set ws"
  by (induction ws) auto

lemma signal_loop_ok:
  assumes "wseg (wget m) pr p ws pr' None" "distinct ws"
  shows "\<exists>m'. signal_loop bc p n m = Some (n + length (signalled bc (wget m) ws), m') \<and>
     (\<forall>a. wget m' a = (if a \<in> set (signalled bc (wget m) ws) then map_option marked (wget m a) else wget m a)) \<and>
     sm_data m' = sm_data m \<and> (\<forall>B c hs. cclist_inv B (sm_waiters m' c) hs = cclist_inv B (sm_waiters m c) hs)"
  using assms
proof (induction ws arbitrary: pr p n m)
  case Nil
  then show ?case by (auto simp: signal_loop.simps [of bc None])
next
  case (Cons a ws)
  from Cons.prems obtain x where x: "p = Some a" "wget m a = Some x" "wseg (wget m) (Some a) (iw_next x) ws pr' None" "a \<notin> set ws" "distinct ws"
    by (auto split: option.splits)
  let ?m = "if iw_flags x AND MTX_WAKEUP_EVENT = 0 then wput a (iw_flags_update (\<lambda>f. f OR MTX_WAKEUP_EVENT) x) m else m"
  show ?case
  proof (cases "in_wait x")
    case True
    have get: "wget ?m b = (if b = a then Some (marked x) else wget m b)" for b
      using True x(2) by (auto simp: wget_wput marked_def in_wait_def)
    have unf: "signal_loop bc p n m = (if \<not> bc then Some (Suc n, ?m) else signal_loop bc (iw_next x) (Suc n) ?m)"
      using True x(1,2) by (simp add: signal_loop.simps [of bc "Some a"] in_wait_def wset_Some)
    show ?thesis
    proof (cases bc)
      case False
      then show ?thesis using unf True x(2) get by (simp del: wput.simps)
    next
      case bc: True
      have seg: "wseg (wget ?m) (Some a) (iw_next x) ws pr' None" using x(3,4) by (simp del: wput.simps)
      have sg: "signalled bc (wget ?m) ws = signalled bc (wget m) ws" using get x(4) by (intro signalled_cong) auto
      from Cons.IH [OF seg x(5), of "Suc n"] obtain m' where IH:
        "signal_loop bc (iw_next x) (Suc n) ?m = Some (Suc n + length (signalled bc (wget m) ws), m')"
        "\<forall>b. wget m' b = (if b \<in> set (signalled bc (wget m) ws) then map_option marked (wget ?m b) else wget ?m b)"
        "sm_data m' = sm_data m" "\<forall>B c hs. cclist_inv B (sm_waiters m' c) hs = cclist_inv B (sm_waiters m c) hs"
        unfolding sg by (auto simp del: wput.simps)
      have "a \<notin> set (signalled bc (wget m) ws)" using signalled_subset x(4) by fast
      then have "\<forall>b. wget m' b = (if b \<in> set (signalled bc (wget m) (a # ws)) then map_option marked (wget m b) else wget m b)"
        using IH(2) [unfolded get] x(2) True bc by simp
      with unf bc IH(1,3,4) True x(2) show ?thesis by (simp del: wput.simps)
    qed
  next
    case False
    then have "signal_loop bc p n m = signal_loop bc (iw_next x) n m"
      using x(1,2) by (simp add: signal_loop.simps [of bc "Some a"] in_wait_def)
    with Cons.IH [OF x(3,5), of n] False x(2) show ?thesis by simp
  qed
qed

lemma signal_ok:
  assumes "mem_ok Bs H qs (l, m)" "phases_ok qs ph m" "co_thread_signal_internal a bc (l, m) = Some (n, l', m')"
  shows "mem_ok Bs H qs (l', m') \<and> phases_ok qs ph m'" "lk_co l' = lk_co l" "lk_co l = Some a"
proof -
  from mem_okD(2) [OF assms(1)] have seg: "wseg (wget m) None (rq_head (lk_e l)) qs (rq_tail (lk_e l)) None" "distinct qs"
    and e: "e_check (lk_e l) = Some ()" by (simp_all add: rq_inv_def)
  from signal_loop_ok [OF seg, of bc 0] obtain m1 where
    lp: "signal_loop bc (rq_head (lk_e l)) 0 m = Some (length (signalled bc (wget m) qs), m1)" and
    m1: "\<forall>a. wget m1 a = (if a \<in> set (signalled bc (wget m) qs) then map_option marked (wget m a) else wget m a)" "sm_data m1 = sm_data m"
      "\<forall>B c hs. cclist_inv B (sm_waiters m1 c) hs = cclist_inv B (sm_waiters m c) hs"
    by auto
  from assms(3) e lp have r: "m' = m1" "l' = l \<or> l' = l\<lparr>lk_fd := Suc (lk_fd l)\<rparr>" "lk_co l = Some a"
    by (auto simp: co_thread_signal_internal_def co_thread_check_def split: if_splits)
  have "\<exists>y. wget m1 b = Some y \<and> still x y" if "wget m b = Some x" for b x using m1(1) that by simp
  then show "mem_ok Bs H qs (l', m') \<and> phases_ok qs ph m'"
    using r m1(2,3) mem_okD(5) [OF assms(1)] by (intro in_place_ok [OF assms(1,2)]) auto
  show "lk_co l' = lk_co l" "lk_co l = Some a" using r by auto
qed

lemma event_ok:
  assumes "mem_ok Bs H qs (l, m)" "phases_ok qs ph m" "epoll_listener_event (lk_e l) ev m = Some (sig, m')" "lk_e l' = lk_e l"
  shows "mem_ok Bs H qs (l', m') \<and> phases_ok qs ph m'"
proof -
  from epoll_listener_event_ok [OF mem_okD(2) [OF assms(1)], of ev] assms(3) have
    m': "\<forall>a. wget m' a = (if a \<in> set qs then map_option (iw_events_update (\<lambda>x. x OR ev)) (wget m a) else wget m a)" "sm_data m' = sm_data m"
      "\<forall>B c hs. cclist_inv B (sm_waiters m' c) hs = cclist_inv B (sm_waiters m c) hs" by auto
  have "\<exists>y. wget m' b = Some y \<and> still x y" if "wget m b = Some x" for b x using m'(1) that by simp
  then show ?thesis using m'(2,3) mem_okD(5) [OF assms(1)] assms(4) by (intro in_place_ok [OF assms(1,2)]) auto
qed

lemma walk_ok:
  assumes "mem_ok Bs H qs (l, m)" "phases_ok qs ph m" "0 < ccmax" "walk_waiters_list core ct ccmax m = Some (cc, tmo, m')"
  shows "mem_ok Bs H qs (l, m') \<and> phases_ok qs ph m'"
proof -
  let ?ws = "map (\<lambda>k. the (wget m (Wnode core k))) (H core)"
  have ex: "\<exists>x. wget m (Wnode core k) = Some x \<and> iw_tmo x \<noteq> 0" if "k \<in> set (H core)" for k using mem_okD(4) [OF assms(1) that] .
  then have ws: "map (\<lambda>h. wget m (Wnode core h)) (H core) = map Some ?ws" "\<forall>w \<in> set ?ws. iw_tmo w \<noteq> 0"
    by (force simp del: wget.simps)+
  note frame = walk_waiters_list_frame [OF mem_okD(1) [OF assms(1)] ws _ assms(3,4)]
  have data: "\<forall>co. \<not> sm_data m co" using mem_okD(5) [OF assms(1)] by blast
  have "\<exists>y. wget m' b = Some y \<and> still x y" if "wget m b = Some x" for b x
    using frame(1) [OF data] that still_refl still_visited by blast
  then show ?thesis using frame(2,3) [OF data] by (intro in_place_ok [OF assms(1,2)]) auto
qed

lemma lock_step_inv:
  assumes "lock_step sys sys'" "lock_inv Bs sys"
  shows "lock_inv Bs sys'"
proof -
  obtain l m where st: "ls_state sys = (l, m)" by force
  from assms(2) st obtain H qs where
    ok: "mem_ok Bs H qs (l, m)" and ph: "phases_ok qs (ls_phase sys) m" and own: "owner_ok (ls_phase sys) l" by (auto simp: lock_inv_def)
  have invI: "lock_inv Bs \<lparr>ls_state = (l', m'), ls_phase = p'\<rparr>"
    if "\<exists>H' qs'. mem_ok Bs H' qs' (l', m') \<and> phases_ok qs' p' m' \<and> Q" "Q \<Longrightarrow> owner_ok p' l'" for l' m' p' Q
    using that by (auto simp: lock_inv_def)
  have keepI: "lock_inv Bs (sys\<lparr>ls_state := (l', m')\<rparr>)"
    if "mem_ok Bs H qs (l', m') \<and> phases_ok qs (ls_phase sys) m'" "lk_co l' = lk_co l" for l' m'
    using that own by (auto simp: lock_inv_def owner_ok_def)
  from assms(1) show ?thesis
  proof cases
    case (lock a wp s)
    obtain l' m' where s: "s = (l', m')" by force
    have "\<exists>H' qs'. mem_ok Bs H' qs' (l', m') \<and> phases_ok qs' ((ls_phase sys)(a := Locking wp)) m' \<and> lk_co l' = lk_co l"
      using lock st s by (intro lock_begin_ok [OF ok ph]) auto
    then show ?thesis unfolding lock(1) goto_def s by (rule invI) (use own lock(2) in \<open>simp add: owner_ok_def\<close>)
  next
    case (locked a wp s)
    obtain l' m' where s: "s = (l', m')" by force
    have "\<exists>H' qs'. mem_ok Bs H' qs' (l', m') \<and> phases_ok qs' ((ls_phase sys)(a := Holding)) m' \<and> lk_co l' = Some a \<and> lk_co l = None"
      using locked st s by (intro lock_turn_ok [OF ok ph]) auto
    then show ?thesis unfolding locked(1) goto_def s by (rule invI) (use own in \<open>auto simp: owner_ok_def\<close>)
  next
    case (unlock a s)
    then have s: "s = (co_thread_unlock_internal l, m)" "lk_co l = Some a"
      using st by (auto simp: co_thread_unlock_def co_thread_check_def split: if_splits)
    with own have h: "ls_phase sys a = Holding" by (auto simp: owner_ok_def)
    have "phases_ok qs ((ls_phase sys)(a := Idle)) m"
      by (rule phases_ok_move [OF ph]) (use h in \<open>auto simp: keeps_def\<close>)
    moreover have "owner_ok ((ls_phase sys)(a := Idle)) (co_thread_unlock_internal l)" using own s(2) by (auto simp: owner_ok_def)
    moreover have "mem_ok Bs H qs (co_thread_unlock_internal l, m)" using ok by simp
    ultimately show ?thesis unfolding unlock(1) goto_def s(1) by (intro invI [where Q = True]) blast+
  next
    case (signal a bc n s)
    obtain l' m' where s: "s = (l', m')" by force
    show ?thesis unfolding signal(1) s using signal_ok [OF ok ph, of a bc n l' m'] signal(2) st s by (intro keepI) auto
  next
    case (wait a ct tmo w s)
    obtain l' m' where s: "s = (l', m')" by force
    have "\<exists>H' qs'. mem_ok Bs H' qs' (l', m') \<and> phases_ok qs' ((ls_phase sys)(a := Waiting w tmo)) m' \<and> lk_co l = Some a \<and> lk_co l' = None"
      using wait st s by (intro wait_begin_ok [OF ok ph]) auto
    then show ?thesis unfolding wait(1) goto_def s by (rule invI) (use own in \<open>auto simp: owner_ok_def\<close>)
  next
    case (woken a w tmo ct st' wp s)
    obtain l' m' where s: "s = (l', m')" by force
    have "\<exists>H' qs'. mem_ok Bs H' qs' (l', m') \<and> phases_ok qs' ((ls_phase sys)(a := Relocking w st' wp)) m' \<and> lk_co l' = lk_co l"
      using woken st s by (intro lock_begin_ok [OF ok ph]) auto
    then show ?thesis unfolding woken(1) goto_def s by (rule invI) (use own woken(2) in \<open>simp add: owner_ok_def\<close>)
  next
    case (relocked a w st' wp s s')
    obtain l1 m1 where s: "s = (l1, m1)" by force
    let ?p = "(ls_phase sys)(a := Relocking w st' None)"
    have "\<exists>H' qs'. mem_ok Bs H' qs' (l1, m1) \<and> phases_ok qs' ?p m1 \<and> lk_co l1 = Some a \<and> lk_co l = None"
      using relocked st s by (intro lock_turn_ok [OF ok ph]) auto
    then obtain H1 qs1 where t: "mem_ok Bs H1 qs1 (l1, m1)" "phases_ok qs1 ?p m1" "lk_co l1 = Some a" "lk_co l = None" by blast
    from leave_phases [OF t(1,2), of w a Holding] obtain e m2 H2 where
      l: "leave_queue w (l1, m1) = Some (l1\<lparr>lk_e := e\<rparr>, m2)" "mem_ok Bs H2 (remove1 w qs1) (l1\<lparr>lk_e := e\<rparr>, m2)"
        "phases_ok (remove1 w qs1) ((ls_phase sys)(a := Holding)) m2" by auto
    have "owner_ok ((ls_phase sys)(a := Holding)) (l1\<lparr>lk_e := e\<rparr>)" using own t(3,4) by (auto simp: owner_ok_def)
    moreover have "s' = (l1\<lparr>lk_e := e\<rparr>, m2)" using relocked(4) s l(1) by simp
    ultimately show ?thesis unfolding relocked(1) goto_def using l(2,3) invI [where Q = True] by blast
  next
    case (event l0 m0 sig m')
    with st have eq: "l0 = l" "m0 = m" by simp_all
    show ?thesis unfolding event(1) eq by (rule keepI) (use event_ok [OF ok ph] event(4) eq in simp_all)
  next
    case (walk l0 m0 ccmax core ct cc tmo m')
    with st have eq: "l0 = l" "m0 = m" by simp_all
    show ?thesis unfolding walk(1) eq by (rule keepI) (use walk_ok [OF ok ph walk(3)] walk(4) eq in simp_all)
  qed
qed

section \<open>Properties\<close>

text \<open>The lock is new, nobody uses it; the lists of the cores may hold other waiters.\<close>

definition lock_init :: "(nat \<Rightarrow> nat set) \<Rightarrow> lock_sys \<Rightarrow> bool" where
  "lock_init Bs sys \<longleftrightarrow>
     (\<exists>H. mem_ok Bs H [] (ls_state sys)) \<and> lk_co (fst (ls_state sys)) = None \<and> (\<forall>a. ls_phase sys a = Idle)"

lemma lock_reach_inv:
  assumes "lock_step\<^sup>*\<^sup>* sys0 sys" "lock_init Bs sys0"
  shows "lock_inv Bs sys"
  using assms
proof (induction rule: rtranclp_induct)
  case base
  then show ?case by (fastforce simp: lock_init_def lock_inv_def phases_ok_def owner_ok_def)
qed (use lock_step_inv in blast)

text \<open>C3. Mutual exclusion: however the calls of coroutines and threads, the events of the listener and the walks
  of the cores interleave, at most one caller is between the return of \<open>co_thread_lock\<close> or
  \<open>co_thread_wait\<close> and its next \<open>co_thread_unlock\<close> or \<open>co_thread_wait\<close>, the lock names this caller, and
  the queue of the lock is well linked and holds exactly the waiters of the callers that are blocked
  (none is lost, none stays behind).\<close>

theorem co_thread_lock_exclusive:
  assumes "lock_step\<^sup>*\<^sup>* sys0 sys" "lock_init Bs sys0" "ls_state sys = (l, m)"
  shows "(\<forall>a. ls_phase sys a = Holding \<longleftrightarrow> lk_co l = Some a) \<and>
     (\<exists>qs. rq_inv m (lk_e l) qs \<and> set qs = (\<Union>a. lockw (ls_phase sys a) \<union> waitw (ls_phase sys a)))"
proof -
  from lock_reach_inv [OF assms(1,2)] assms(3) obtain H qs where
    "mem_ok Bs H qs (l, m)" "phases_ok qs (ls_phase sys) m" "owner_ok (ls_phase sys) l" by (auto simp: lock_inv_def)
  then have "rq_inv m (lk_e l) qs" "set qs = (\<Union>a. held (ls_phase sys a))" "\<forall>a. ls_phase sys a = Holding \<longleftrightarrow> lk_co l = Some a"
    using mem_okD(2) phases_okD(1) by (auto simp: owner_ok_def)
  then show ?thesis by blast
qed

text \<open>
  An example: a core whose two nodes are free; thread 1 takes the lock, coroutine 31 of core 0 waits
  for it.
\<close>

definition example_lock :: "co_thread_lock_s" where
  "example_lock = \<lparr>lk_e = \<lparr>rq_head = None, rq_tail = None, rq_so = 9, rq_type = iowait_eventfd\<rparr>, lk_co = None, lk_fd = 0\<rparr>"

definition example_lock_sys :: lock_sys where
  "example_lock_sys =
     \<lparr>ls_state = (example_lock, \<lparr>sm_waiters = (\<lambda>_. example_free), sm_stack = (\<lambda>_. None), sm_data = (\<lambda>_. False)\<rparr>), ls_phase = (\<lambda>_. Idle)\<rparr>"

definition example_locked_sys :: lock_sys where
  "example_locked_sys =
     \<lparr>ls_state = (example_lock\<lparr>lk_co := Some (Pt 1)\<rparr>, snd (ls_state example_lock_sys)), ls_phase = (\<lambda>_. Idle)(Pt 1 := Holding)\<rparr>"

lemma example_lock_init: "lock_init (\<lambda>_. {8, 80}) example_lock_sys"
  using example_free_inv
  by (auto simp: lock_init_def mem_ok_def waiters_ok_def example_lock_sys_def example_lock_def rq_inv_def intro!: exI [of _ "\<lambda>_. []"])

lemma example_locked: "lock_step\<^sup>*\<^sup>* example_lock_sys example_locked_sys"
proof -
  let ?s1 = "goto (Pt 1) (Locking None) (ls_state example_lock_sys) example_lock_sys"
  have "lock_step example_lock_sys ?s1" by (rule lock_step.lock) (simp_all add: lock_begin_def example_lock_sys_def)
  moreover have "lock_step ?s1 (goto (Pt 1) Holding (ls_state example_locked_sys) ?s1)"
    by (rule lock_step.locked [where wp = None]) (simp_all add: lock_turn_def Let_def goto_def example_lock_sys_def example_locked_sys_def example_lock_def)
  moreover have "goto (Pt 1) Holding (ls_state example_locked_sys) ?s1 = example_locked_sys"
    by (simp add: goto_def example_lock_sys_def example_locked_sys_def)
  ultimately show ?thesis by simp
qed

theorem co_thread_lock_exclusive_witness:
  "\<forall>a. ls_phase example_locked_sys a = Holding \<longleftrightarrow> lk_co (fst (ls_state example_locked_sys)) = Some a"
  using co_thread_lock_exclusive [OF example_locked example_lock_init, of "fst (ls_state example_locked_sys)" "snd (ls_state example_locked_sys)"] by simp

text \<open>Coroutine 31 comes to the lock and thread 1 releases it.\<close>

lemma example_blocked:
  obtains s l m where "lock_begin (Co 0 31) (ls_state example_locked_sys) = Some (Some (Wnode 0 8), s)" "co_thread_unlock (Pt 1) s = Some (l, m)"
proof -
  have "(case lock_begin (Co 0 31) (ls_state example_locked_sys) of None \<Rightarrow> False
     | Some (wp, s) \<Rightarrow> wp = Some (Wnode 0 8) \<and> (case co_thread_unlock (Pt 1) s of None \<Rightarrow> False | Some _ \<Rightarrow> True))" by code_simp
  then show thesis using that by (fastforce split: option.splits)
qed

text \<open>C20. Unlocking wakes the waiting coroutines: after \<open>co_thread_unlock\<close> an event is pending on the lock, and
  its delivery followed by a walk over the waiters of a core selects every coroutine of the core that
  is blocked in \<open>co_thread_lock\<close> (or fills the array with others).\<close>

theorem co_thread_unlock_wakes:
  assumes "lock_step\<^sup>*\<^sup>* sys0 sys" "lock_init Bs sys0" "ls_phase sys (Co core co) = Locking (Some w)"
    and "co_thread_unlock b (ls_state sys) = Some (l, m)" "0 < ccmax"
  shows "0 < lk_fd l \<and>
     (\<exists>m1 cc tmo m2. epoll_listener_event (lk_e l) EPOLLIN m = Some (True, m1) \<and> walk_waiters_list core ct ccmax m1 = Some (cc, tmo, m2) \<and>
        (co \<in> set cc \<or> length cc = ccmax))"
proof -
  obtain l0 m0 where st: "ls_state sys = (l0, m0)" by force
  with lock_reach_inv [OF assms(1,2)] obtain H qs where
    ok: "mem_ok Bs H qs (l0, m0)" and ph: "phases_ok qs (ls_phase sys) m0" by (auto simp: lock_inv_def)
  from assms(4) st have l: "l = co_thread_unlock_internal l0" "m = m0"
    by (auto simp: co_thread_unlock_def co_thread_check_def split: if_splits)
  have e: "lk_e l = lk_e l0" "0 < lk_fd l" using l(1) by (simp_all add: co_thread_unlock_internal_def)
  have w: "w \<in> lockw (ls_phase sys (Co core co))" using assms(3) by simp
  from phases_okD(5) [OF ph w] obtain x where x: "wget m0 w = Some x" "lock_waiter (Co core co) x" by blast
  have wq: "w \<in> set qs" using phases_okD(1) [OF ph] w by blast
  from phases_okD(4) [OF ph, of w "Co core co"] w obtain p where p: "w = Wnode core p" by (auto simp: belongs_def)
  have "p \<in> set (H core)" using mem_okD(3) [OF ok wq] p by (simp add: live_def)
  moreover have "runnable EPOLLIN x" "\<not> yielding x" "iw_co x = Some co"
    using x(2) by (auto simp: lock_waiter_def runnable_def yielding_def or_event)
  moreover have "\<forall>k \<in> set (H core). \<exists>x. wget m0 (Wnode core k) = Some x \<and> iw_tmo x \<noteq> 0" using mem_okD(4) [OF ok] by blast
  ultimately show ?thesis
    using event_wakes [OF mem_okD(2) [OF ok] wq [unfolded p] x(1) [unfolded p] _ _ mem_okD(1) [OF ok], of EPOLLIN ccmax ct] mem_okD(5) [OF ok] assms(5) e l(2)
    by simp
qed

theorem co_thread_unlock_wakes_witness:
  "\<exists>s l m m1 cc tmo m2. lock_begin (Co 0 31) (ls_state example_locked_sys) = Some (Some (Wnode 0 8), s) \<and>
     co_thread_unlock (Pt 1) s = Some (l, m) \<and> 0 < lk_fd l \<and> epoll_listener_event (lk_e l) EPOLLIN m = Some (True, m1) \<and>
     walk_waiters_list 0 100 1000 m1 = Some (cc, tmo, m2) \<and> (31 \<in> set cc \<or> length cc = 1000)"
proof -
  obtain s l m where
    s: "lock_begin (Co 0 31) (ls_state example_locked_sys) = Some (Some (Wnode 0 8), s)" "co_thread_unlock (Pt 1) s = Some (l, m)"
    by (rule example_blocked)
  let ?sys = "goto (Co 0 31) (Locking (Some (Wnode 0 8))) s example_locked_sys"
  have "lock_step example_locked_sys ?sys" by (rule lock_step.lock) (use s(1) in \<open>simp_all add: example_locked_sys_def\<close>)
  with example_locked have "lock_step\<^sup>*\<^sup>* example_lock_sys ?sys" by simp
  from co_thread_unlock_wakes [OF this example_lock_init, of 0 31 "Wnode 0 8" "Pt 1" l m 1000 100] s show ?thesis by (simp add: goto_def)
qed

lemma signalled_props:
  shows "signalled True g ws = filter (\<lambda>w. in_wait (the (g w))) ws"
    and "length (signalled False g ws) = (if \<exists>w \<in> set ws. in_wait (the (g w)) then 1 else 0)"
    and "w \<in> set (signalled bc g ws) \<Longrightarrow> w \<in> set ws \<and> in_wait (the (g w))"
    and "distinct ws \<Longrightarrow> distinct (signalled bc g ws)"
  by (induction ws) (auto split: if_splits dest: subsetD [OF signalled_subset])

lemma in_wait_iff:
  assumes "phases_ok qs ph m" "w \<in> set qs"
  shows "in_wait (the (wget m w)) \<longleftrightarrow> (\<exists>b. w \<in> waitw (ph b))"
proof -
  from assms phases_okD(1) obtain b where b: "w \<in> lockw (ph b) \<or> w \<in> waitw (ph b)" by blast
  show ?thesis
  proof (cases "w \<in> waitw (ph b)")
    case True
    with phases_okD(6) [OF assms(1) True] show ?thesis by (auto simp: in_wait_def wait_waiter_def)
  next
    case False
    with b have lw: "w \<in> lockw (ph b)" by blast
    then have "w \<notin> waitw (ph c)" for c using phases_okD(2) [OF assms(1), of b c] False by (cases "b = c") auto
    moreover have "\<not> in_wait (the (wget m w))" using phases_okD(5) [OF assms(1) lw] by (cases b) (auto simp: in_wait_def lock_waiter_def)
    ultimately show ?thesis by blast
  qed
qed

lemma signal_exact:
  assumes "rq_inv m (lk_e l) qs" "lk_co l = Some a"
  shows "\<exists>l' m'. co_thread_signal_internal a bc (l, m) = Some (length (signalled bc (wget m) qs), l', m') \<and> lk_co l' = Some a \<and> lk_e l' = lk_e l \<and>
     (signalled bc (wget m) qs \<noteq> [] \<longrightarrow> 0 < lk_fd l') \<and> rq_inv m' (lk_e l') qs \<and>
     (\<forall>a. wget m' a = (if a \<in> set (signalled bc (wget m) qs) then map_option marked (wget m a) else wget m a))"
proof -
  from assms(1) have seg: "wseg (wget m) None (rq_head (lk_e l)) qs (rq_tail (lk_e l)) None" "distinct qs"
    and e: "e_check (lk_e l) = Some ()" by (simp_all add: rq_inv_def)
  from signal_loop_ok [OF seg, of bc 0] obtain m' where
    lp: "signal_loop bc (rq_head (lk_e l)) 0 m = Some (length (signalled bc (wget m) qs), m')" and
    m': "\<forall>a. wget m' a = (if a \<in> set (signalled bc (wget m) qs) then map_option marked (wget m a) else wget m a)" by auto
  have "wseg (wget m') pr p ws pr' p'" if "wseg (wget m) pr p ws pr' p'" for pr p ws pr' p'
    using that by (induction ws arbitrary: pr p) (auto simp: m' marked_def split: option.splits)
  then have "rq_inv m' (lk_e l) qs" using assms(1) by (simp add: rq_inv_def)
  then show ?thesis using lp e m' assms(2)
    by (cases "signalled bc (wget m) qs = []") (simp_all add: co_thread_signal_internal_def co_thread_check_def)
qed

text \<open>Signals: the owner of the lock wakes with \<open>co_thread_signal\<close> one caller that is in \<open>co_thread_wait\<close>, if
  there is one, and with \<open>co_thread_broadcast\<close> all of them; the result is their number. Each of them
  finds status 1 whenever it looks next, also when its time has run out; the waiters of all others
  are left as they are.\<close>

theorem co_thread_signal_wakes:
  assumes "lock_step\<^sup>*\<^sup>* sys0 sys" "lock_init Bs sys0" "ls_state sys = (l, m)" "lk_co l = Some a"
  shows "\<exists>n l' m' S. co_thread_signal_internal a bc (l, m) = Some (n, l', m') \<and> n = card S \<and>
     S \<subseteq> (\<Union>b. waitw (ls_phase sys b)) \<and> (if bc then S = (\<Union>b. waitw (ls_phase sys b)) else card S = (if \<exists>b. waitw (ls_phase sys b) \<noteq> {} then 1 else 0)) \<and>
     (\<forall>w. w \<in> S \<longrightarrow> (\<forall>b tmo ct. wait_turn b w tmo ct m' = Some (Some True))) \<and> (\<forall>w. w \<notin> S \<longrightarrow> wget m' w = wget m w)"
proof -
  from lock_reach_inv [OF assms(1,2)] assms(3) obtain H qs where
    ok: "mem_ok Bs H qs (l, m)" and ph: "phases_ok qs (ls_phase sys) m" by (auto simp: lock_inv_def)
  let ?S = "signalled bc (wget m) qs" and ?W = "\<Union>b. waitw (ls_phase sys b)"
  have "?W \<subseteq> set qs" using phases_okD(1) [OF ph] by blast
  then have W: "?W = {w \<in> set qs. in_wait (the (wget m w))}" using in_wait_iff [OF ph] by (auto simp: subset_iff)
  have dist: "distinct qs" using mem_okD(2) [OF ok] by (simp add: rq_inv_def)
  from signal_exact [OF mem_okD(2) [OF ok] assms(4), of bc] obtain l' m' where
    r: "co_thread_signal_internal a bc (l, m) = Some (length ?S, l', m')"
      "\<forall>a. wget m' a = (if a \<in> set ?S then map_option marked (wget m a) else wget m a)" by blast
  have n: "length ?S = card (set ?S)" using signalled_props(4) [OF dist, of bc "wget m"] by (simp add: distinct_card)
  have "wait_turn b w tmo ct m' = Some (Some True)" if w: "w \<in> set ?S" for b w tmo ct
  proof -
    from signalled_props(3) [OF w] have wq: "w \<in> set qs" "in_wait (the (wget m w))" by auto
    then obtain x where x: "wget m w = Some x" "in_wait x" using mem_okD(2) [OF ok] wseg_valid by (fastforce simp: rq_inv_def)
    have "iw_flags (marked x) AND MTX_WAKEUP_EVENT \<noteq> 0" using x(2) flag_bits(3) [of "iw_flags x"] by (simp add: marked_def in_wait_def)
    then show ?thesis using r(2) w x(1) by (simp add: wait_turn_def Let_def)
  qed
  moreover have "set ?S \<subseteq> ?W" using signalled_props(3) [of _ bc "wget m" qs] W by auto
  moreover have "bc \<Longrightarrow> set ?S = ?W" using W by (auto simp: signalled_props(1))
  moreover have "(\<exists>b. waitw (ls_phase sys b) \<noteq> {}) \<longleftrightarrow> (\<exists>w \<in> set qs. in_wait (the (wget m w)))" using W by blast
  then have "\<not> bc \<Longrightarrow> card (set ?S) = (if \<exists>b. waitw (ls_phase sys b) \<noteq> {} then 1 else 0)" using n signalled_props(2) [of "wget m" qs] by simp
  ultimately show ?thesis using r n by (intro exI [of _ "length ?S"] exI [of _ l'] exI [of _ m'] exI [of _ "set ?S"]) simp
qed

text \<open>Thread 1 waits for a signal, thread 2 takes the lock and signals.\<close>

lemma example_waits:
  obtains s s' where "wait_begin (Pt 1) (-1) 100 (ls_state example_locked_sys) = Some (Inr (Wstack 1), s)" "lock_turn (Pt 2) None s = Some (True, s')"
    "lk_co (fst s') = Some (Pt 2)"
proof -
  have "(case wait_begin (Pt 1) (-1) 100 (ls_state example_locked_sys) of None \<Rightarrow> False
     | Some (r, s) \<Rightarrow> r = Inr (Wstack 1) \<and>
        (case lock_turn (Pt 2) None s of None \<Rightarrow> False | Some (ok, s') \<Rightarrow> ok \<and> lk_co (fst s') = Some (Pt 2)))" by code_simp
  then show thesis using that by (fastforce split: option.splits)
qed

theorem co_thread_signal_wakes_witness:
  "\<exists>s s' l' m'. wait_begin (Pt 1) (-1) 100 (ls_state example_locked_sys) = Some (Inr (Wstack 1), s) \<and> lock_turn (Pt 2) None s = Some (True, s') \<and>
     co_thread_signal_internal (Pt 2) False s' = Some (1, l', m') \<and> wait_turn (Pt 1) (Wstack 1) (-1) 200 m' = Some (Some True)"
proof -
  obtain s s' where
    s: "wait_begin (Pt 1) (-1) 100 (ls_state example_locked_sys) = Some (Inr (Wstack 1), s)" "lock_turn (Pt 2) None s = Some (True, s')"
      "lk_co (fst s') = Some (Pt 2)" by (rule example_waits)
  let ?s1 = "goto (Pt 1) (Waiting (Wstack 1) (-1)) s example_locked_sys"
  let ?s2 = "goto (Pt 2) (Locking None) s ?s1" and ?s3 = "goto (Pt 2) Holding s' (goto (Pt 2) (Locking None) s (goto (Pt 1) (Waiting (Wstack 1) (-1)) s example_locked_sys))"
  have "lock_step example_locked_sys ?s1" by (rule lock_step.wait [where ct = 100]) (use s(1) in \<open>simp_all add: example_locked_sys_def\<close>)
  moreover have "lock_step ?s1 ?s2" by (rule lock_step.lock) (simp_all add: lock_begin_def goto_def example_locked_sys_def)
  moreover have "lock_step ?s2 ?s3" by (rule lock_step.locked) (use s(2) in \<open>simp_all add: goto_def\<close>)
  ultimately have reach: "lock_step\<^sup>*\<^sup>* example_lock_sys ?s3" using example_locked by simp
  have W: "(\<Union>b. waitw (ls_phase ?s3 b)) = {Wstack 1}" by (auto simp: goto_def example_locked_sys_def split: if_splits)
  have "\<exists>b. waitw (ls_phase ?s3 b) \<noteq> {}" by (rule exI [of _ "Pt 1"]) (simp add: goto_def)
  with co_thread_signal_wakes [OF reach example_lock_init, of "fst s'" "snd s'" "Pt 2" False] s(3) obtain l' m' S where
    r: "co_thread_signal_internal (Pt 2) False s' = Some (card S, l', m')" "S \<subseteq> {Wstack 1}" "card S = 1"
      "\<forall>w. w \<in> S \<longrightarrow> (\<forall>b tmo ct. wait_turn b w tmo ct m' = Some (Some True))"
    unfolding W by (auto simp: goto_def)
  from r(2) have "S = {} \<or> S = {Wstack 1}" by blast
  with r(3) have "S = {Wstack 1}" by auto
  with r have "co_thread_signal_internal (Pt 2) False s' = Some (1, l', m')" "wait_turn (Pt 1) (Wstack 1) (-1) 200 m' = Some (Some True)" by auto
  with s(1,2) show ?thesis by blast
qed

text \<open>Repeated signals: a second \<open>co_thread_signal\<close> before the caller woken by the first has left the queue
  reports one woken caller again, but marks the same one: no other waiter changes, and the second
  caller in the queue goes on waiting.\<close>

theorem co_thread_signal_repeated:
  assumes "rq_inv m (lk_e l) qs" "lk_co l = Some a" "co_thread_signal_internal a False (l, m) = Some (n, l1, m1)"
  shows "\<exists>l2 m2. co_thread_signal_internal a False (l1, m1) = Some (n, l2, m2) \<and> (\<forall>w. wget m2 w = wget m1 w)"
proof -
  let ?S = "signalled False (wget m) qs"
  from signal_exact [OF assms(1,2), of False] assms(3) have
    r: "n = length ?S" "lk_co l1 = Some a" "lk_e l1 = lk_e l" "rq_inv m1 (lk_e l1) qs"
      "\<forall>a. wget m1 a = (if a \<in> set ?S then map_option marked (wget m a) else wget m a)" by auto
  have mk: "in_wait (marked x) = in_wait x" "marked (marked x) = marked x" for x
    by (auto simp: in_wait_def marked_def flag_bits)
  have S1: "signalled False (wget m1) qs' = signalled False (wget m) qs'" if "set qs' \<subseteq> set qs" for qs'
    using that
  proof (induction qs')
    case (Cons w ws)
    then have "wget m w \<noteq> None" using assms(1) wseg_valid by (fastforce simp: rq_inv_def)
    then have "in_wait (the (wget m1 w)) = in_wait (the (wget m w))" using r(5) mk(1) by auto
    with Cons show ?case by simp
  qed simp
  from signal_exact [OF r(4,2), of False] obtain l2 m2 where
    s: "co_thread_signal_internal a False (l1, m1) = Some (length ?S, l2, m2)"
      "\<forall>a. wget m2 a = (if a \<in> set ?S then map_option marked (wget m1 a) else wget m1 a)" using S1 [of qs] by auto
  have "wget m2 w = wget m1 w" for w using s(2) r(5) mk(2) by (cases "wget m w") auto
  with s(1) r(1) show ?thesis by blast
qed

text \<open>Two threads wait, thread 1 owns the lock.\<close>

definition example_two :: sched_mem where
  "example_two =
     \<lparr>sm_waiters = (\<lambda>_. example_free),
      sm_stack = [2 \<mapsto> blank_waiter\<lparr>iw_tmo := -1, iw_flags := MTX_WAKEUP_WAITING, iw_next := Some (Wstack 3)\<rparr>,
                  3 \<mapsto> blank_waiter\<lparr>iw_tmo := -1, iw_flags := MTX_WAKEUP_WAITING, iw_prev := Some (Wstack 2)\<rparr>],
      sm_data = (\<lambda>_. False)\<rparr>"

definition example_two_lock :: co_thread_lock_s where
  "example_two_lock =
     \<lparr>lk_e = \<lparr>rq_head = Some (Wstack 2), rq_tail = Some (Wstack 3), rq_so = 9, rq_type = iowait_eventfd\<rparr>, lk_co = Some (Pt 1), lk_fd = 0\<rparr>"

theorem co_thread_signal_repeated_witness:
  "\<exists>l1 m1 l2 m2. co_thread_signal_internal (Pt 1) False (example_two_lock, example_two) = Some (1, l1, m1) \<and>
     co_thread_signal_internal (Pt 1) False (l1, m1) = Some (1, l2, m2) \<and> wait_turn (Pt 3) (Wstack 3) (-1) 100 m2 = Some None"
proof -
  have inv: "rq_inv example_two (lk_e example_two_lock) [Wstack 2, Wstack 3]"
    by (simp add: rq_inv_def example_two_def example_two_lock_def blank_waiter_def)
  have "(case co_thread_signal_internal (Pt 1) False (example_two_lock, example_two) of None \<Rightarrow> False
     | Some (n, l1, m1) \<Rightarrow> n = 1 \<and> map_option iw_flags (wget m1 (Wstack 3)) = Some MTX_WAKEUP_WAITING)" by code_simp
  then obtain l1 m1 where s: "co_thread_signal_internal (Pt 1) False (example_two_lock, example_two) = Some (1, l1, m1)"
    "map_option iw_flags (wget m1 (Wstack 3)) = Some MTX_WAKEUP_WAITING" by (auto split: option.splits)
  from co_thread_signal_repeated [OF inv _ s(1)] obtain l2 m2 where
    t: "co_thread_signal_internal (Pt 1) False (l1, m1) = Some (1, l2, m2)" "\<forall>w. wget m2 w = wget m1 w"
    by (auto simp: example_two_lock_def)
  from s(2) t(2) obtain x where "wget m2 (Wstack 3) = Some x" "iw_flags x = MTX_WAKEUP_WAITING"
    by (auto simp del: wget.simps)
  then have "wait_turn (Pt 3) (Wstack 3) (-1) 100 m2 = Some None"
    by (simp add: wait_turn_def MTX_WAKEUP_WAITING_def MTX_WAKEUP_EVENT_def del: wget.simps)
  with s(1) t(1) show ?thesis by blast
qed

end
