(* ===== verification/Co_Socket.thy ===== *)
theory Co_Socket
  imports Co_Queue
begin

text \<open>
  Sockets of the coroutine scheduler, src/cothread/co-scheduler.c: \<open>co_socket_send\<close>,
  \<open>co_socket_recv\<close>, \<open>co_socket_accept\<close>, \<open>co_socket_connect\<close> and \<open>co_socket_close\<close>. A call loops over a system
  call that does not block and suspends the coroutine while the call would block. What the kernel
  and the other coroutines do is a list of turns, one for each round of the loop: the result of the
  system call, the time, and the effect of the others while the coroutine is suspended. A list that
  ends before the loop does stands for a coroutine that is still suspended. The null pointer in place of
  a socket is not represented: the calls that test for it treat it like a closed socket.
\<close>

section \<open>Sockets and their environment\<close>

record co_socket =
  sk_e :: iorq
  sk_recvtmo :: int
  sk_sendtmo :: int

type_synonym sock_mem = "co_socket \<times> sched_mem"

record io_turn =
  it_ret :: int
  it_err :: errno
  it_now :: int
  it_bytes :: "u8 list"
  it_run :: "sock_mem \<Rightarrow> sock_mem"

datatype 'a io_result = Returned 'a | Suspended

text \<open>The outcomes of \<open>so_set_non_blocking\<close> and \<open>epoll_add\<close> are parameters.\<close>

definition co_socket_init :: "bool \<Rightarrow> bool \<Rightarrow> int \<Rightarrow> bool \<times> co_socket" where
  "co_socket_init nonblock_ok epoll_ok so =
     (let cc = \<lparr>sk_e = \<lparr>rq_head = None, rq_tail = None, rq_so = so, rq_type = iowait_io\<rparr>, sk_recvtmo = -1, sk_sendtmo = -1\<rparr> in
      if so \<noteq> -1 \<and> (\<not> nonblock_ok \<or> \<not> epoll_ok) then (False, cc\<lparr>sk_e := (sk_e cc)\<lparr>rq_so := -1\<rparr>\<rparr>) else (True, cc))"

definition co_socket_set_send_tmout :: "co_socket option \<Rightarrow> int \<Rightarrow> (errno + unit) \<times> co_socket option" where
  "co_socket_set_send_tmout cc msec =
     (case cc of None \<Rightarrow> (Inl EBADF, None) | Some cc \<Rightarrow> (Inr (), Some (cc\<lparr>sk_sendtmo := msec\<rparr>)))"

definition co_socket_set_recv_tmout :: "co_socket option \<Rightarrow> int \<Rightarrow> (errno + unit) \<times> co_socket option" where
  "co_socket_set_recv_tmout cc msec =
     (case cc of None \<Rightarrow> (Inl EBADF, None) | Some cc \<Rightarrow> (Inr (), Some (cc\<lparr>sk_recvtmo := msec\<rparr>)))"

definition co_socket_set_sndrcv_tmouts :: "co_socket option \<Rightarrow> int \<Rightarrow> int \<Rightarrow> (errno + unit) \<times> co_socket option" where
  "co_socket_set_sndrcv_tmouts cc snd_tmout rcv_tmout =
     (case cc of None \<Rightarrow> (Inl EBADF, None) | Some cc \<Rightarrow> (Inr (), Some (cc\<lparr>sk_sendtmo := snd_tmout, sk_recvtmo := rcv_tmout\<rparr>)))"

text \<open>The loop of \<open>co_socket_close\<close> over the waiters of the socket.\<close>

partial_function (option) close_loop :: "wref option \<Rightarrow> sched_mem \<Rightarrow> sched_mem option" where
  "close_loop wp m =
     (case wp of
        None \<Rightarrow> Some m
      | Some w \<Rightarrow> do { m \<leftarrow> wset (\<lambda>x. x\<lparr>iw_events := iw_events x OR iw_mask x\<rparr>) w m; x \<leftarrow> wget m w; close_loop (iw_next x) m })"

declare close_loop.simps [code]

text \<open>The result is the descriptor that was closed; then the cores are signalled, too.\<close>

definition co_socket_close :: "sock_mem \<Rightarrow> (int option \<times> sock_mem) ub" where
  "co_socket_close = (\<lambda>(cc, m).
     (if rq_so (sk_e cc) = -1 then Some (None, cc, m)
      else do { _ \<leftarrow> e_check (sk_e cc);
                m \<leftarrow> close_loop (rq_head (sk_e cc)) m;
                Some (Some (rq_so (sk_e cc)), cc\<lparr>sk_e := (sk_e cc)\<lparr>rq_so := -1\<rparr>\<rparr>, m) }))"

text \<open>
  The constructors. What the kernel answers to \<open>socket\<close>, \<open>so_set_non_blocking\<close>, \<open>epoll_add\<close>, \<open>bind\<close> and
  \<open>listen\<close> is a record of outcomes. The memory of the socket before the call is \<open>None\<close> when it is fresh from
  \<open>malloc\<close>, and reading it then is undefined. The results list the descriptors that were closed again.
\<close>

record so_outcome =
  so_socket :: int
  so_nonblock :: bool
  so_epoll :: bool
  so_bind :: bool
  so_listen :: bool

definition co_socket_init_new :: "bool \<Rightarrow> so_outcome \<Rightarrow> int \<Rightarrow> co_socket option" where
  "co_socket_init_new mem_ok k so =
     (if mem_ok then (case co_socket_init (so_nonblock k) (so_epoll k) so of (ok, cc) \<Rightarrow> if ok then Some cc else None) else None)"

definition co_socket_create :: "so_outcome \<Rightarrow> co_socket option \<Rightarrow> bool \<times> co_socket option \<times> int list" where
  "co_socket_create k cc =
     (if so_socket k = -1 then (False, cc, [])
      else (case co_socket_init (so_nonblock k) (so_epoll k) (so_socket k) of
              (True, cc) \<Rightarrow> (True, Some cc, [])
            | (False, cc) \<Rightarrow> (False, Some cc, [so_socket k])))"

definition co_socket_create_new :: "bool \<Rightarrow> so_outcome \<Rightarrow> co_socket option \<times> int list" where
  "co_socket_create_new mem_ok k =
     (if mem_ok then (case co_socket_create k None of (ok, cc, closed) \<Rightarrow> (if ok then cc else None, closed)) else (None, []))"

definition co_socket_create_listening ::
  "so_outcome \<Rightarrow> co_socket option \<Rightarrow> sched_mem \<Rightarrow> (bool \<times> co_socket option \<times> int list \<times> sched_mem) ub" where
  "co_socket_create_listening k cc m =
     (case co_socket_create k cc of
        (ok, cc, closed) \<Rightarrow>
          if ok \<and> so_bind k \<and> so_listen k then Some (True, cc, closed, m)
          else do { cc \<leftarrow> cc;
                    (so, cc, m) \<leftarrow> co_socket_close (cc, m);
                    Some (False, Some cc, closed @ (case so of None \<Rightarrow> [] | Some so \<Rightarrow> [so]), m) })"

definition co_socket_create_listening_new :: "bool \<Rightarrow> so_outcome \<Rightarrow> sched_mem \<Rightarrow> (co_socket option \<times> int list \<times> sched_mem) ub" where
  "co_socket_create_listening_new mem_ok k m =
     (if mem_ok
      then do { (ok, cc, closed, m) \<leftarrow> co_socket_create_listening k None m; Some (if ok then cc else None, closed, m) }
      else Some (None, [], m))"

definition co_socket_destroy :: "co_socket option \<Rightarrow> sched_mem \<Rightarrow> (int list \<times> sched_mem) ub" where
  "co_socket_destroy cc m =
     (case cc of
        None \<Rightarrow> Some ([], m)
      | Some cc \<Rightarrow> do { (so, _, m) \<leftarrow> co_socket_close (cc, m); Some (case so of None \<Rightarrow> [] | Some so \<Rightarrow> [so], m) })"

text \<open>
  What the calls share: the waiter is added, the loop runs, the waiter is taken out. \<open>Inl\<close> is the
  failure of \<open>add_waiter\<close>.
\<close>

definition with_waiter ::
  "nat \<Rightarrow> io_waiter \<Rightarrow> (wref \<Rightarrow> sock_mem \<Rightarrow> ('a io_result \<times> sock_mem) ub) \<Rightarrow> sock_mem \<Rightarrow> ((errno + 'a) io_result \<times> sock_mem) ub" where
  "with_waiter core w body = (\<lambda>(cc, m).
     do { (r, e, m) \<leftarrow> enter_wait core w (sk_e cc, m);
          (case r of
             Inl err \<Rightarrow> Some (Returned (Inl err), cc\<lparr>sk_e := e\<rparr>, m)
           | Inr a \<Rightarrow>
               do { (res, cc, m) \<leftarrow> body a (cc\<lparr>sk_e := e\<rparr>, m);
                    (case res of
                       Suspended \<Rightarrow> Some (Suspended, cc, m)
                     | Returned v \<Rightarrow> do { (e, m) \<leftarrow> leave_wait a (sk_e cc, m); Some (Returned (Inr v), cc\<lparr>sk_e := e\<rparr>, m) }) }) })"

definition io_wait :: "nat \<Rightarrow> int \<Rightarrow> u32 \<Rightarrow> io_waiter" where
  "io_wait co tmo evs =
     \<lparr>iw_tmo = tmo, iw_prev = None, iw_next = None, iw_co = Some co, iw_mask = evs, iw_events = 0, iw_revents = 0, iw_flags = 0\<rparr>"

definition deadline :: "int \<Rightarrow> int \<Rightarrow> int" where
  "deadline now tmo = (if tmo \<ge> 0 then now + tmo else -1)"

text \<open>
  The loop of \<open>co_socket_send\<close>. The result is the returned number and the bytes that went out. The time
  limit is moved after every successful call.
\<close>

fun send_loop :: "wref \<Rightarrow> u8 list \<Rightarrow> int \<Rightarrow> u8 list \<Rightarrow> io_turn list \<Rightarrow> sock_mem \<Rightarrow> ((int \<times> u8 list) io_result \<times> sock_mem) ub" where
  "send_loop w buf sent out [] s = Some (if sent < int (length buf) then Suspended else Returned (sent, out), s)"
| "send_loop w buf sent out (t # ts) (cc, m) =
     (if \<not> sent < int (length buf) then Some (Returned (sent, out), cc, m)
      else if it_ret t > 0
      then do { m \<leftarrow> (if sk_sendtmo cc \<ge> 0 then wset (iw_tmo_update (\<lambda>_. it_now t + sk_sendtmo cc * 1000)) w m else Some m);
                send_loop w buf (sent + it_ret t) (out @ take (nat (it_ret t)) (drop (nat sent) buf)) ts (cc, m) }
      else if it_err t = EAGAIN
      then (let (cc, m) = it_run t (cc, m) in
            do { x \<leftarrow> wget m w;
                 if iw_revents x AND EPOLLOUT = 0 then Some (Returned (sent, out), cc, m)
                 else send_loop w buf sent out ts (cc, m) })
      else Some (Returned (it_ret t, out), cc, m))"

text \<open>\<open>Inl\<close> is the value -1 with this errno; a failure of \<open>add_waiter\<close> returns -1, too.\<close>

definition co_socket_send ::
  "nat \<Rightarrow> nat \<Rightarrow> int \<Rightarrow> u8 list option \<Rightarrow> io_turn list \<Rightarrow> sock_mem \<Rightarrow> ((errno + int \<times> u8 list) io_result \<times> sock_mem) ub" where
  "co_socket_send core co now buf turns = (\<lambda>(cc, m).
     (if rq_so (sk_e cc) = -1 then Some (Returned (Inl EBADF), cc, m)
      else
        (case buf of
           None \<Rightarrow> Some (Returned (Inl EINVAL), cc, m)
         | Some pb \<Rightarrow> with_waiter core (io_wait co (deadline now (sk_sendtmo cc)) EPOLLOUT) (\<lambda>w. send_loop w pb 0 [] turns) (cc, m))))"

text \<open>
  The loop of \<open>co_socket_recv\<close>: the last value of \<open>size\<close>, whether the time ran out, and the bytes
  received. A socket that was closed in the meantime has descriptor -1.
\<close>

fun recv_loop :: "wref \<Rightarrow> int \<Rightarrow> io_turn list \<Rightarrow> sock_mem \<Rightarrow> ((int \<times> errno \<times> u8 list) io_result \<times> sock_mem) ub" where
  "recv_loop w sz [] (cc, m) = Some (if rq_so (sk_e cc) = -1 then Returned (sz, EOK, []) else Suspended, cc, m)"
| "recv_loop w sz (t # ts) (cc, m) =
     (if rq_so (sk_e cc) = -1 then Some (Returned (sz, EOK, []), cc, m)
      else if it_ret t < 0 \<and> it_err t = EAGAIN
      then do { x \<leftarrow> wget m w;
                if iw_tmo x \<noteq> -1 \<and> it_now t \<ge> iw_tmo x then Some (Returned (it_ret t, ETIME, []), cc, m)
                else recv_loop w (it_ret t) ts (it_run t (cc, m)) }
      else Some (Returned (it_ret t, it_err t, take (nat (it_ret t)) (it_bytes t)), cc, m))"

text \<open>\<open>soerr\<close> is what \<open>so_get_error\<close> returns, \<open>EOK\<close> for zero.\<close>

definition co_socket_recv ::
  "nat \<Rightarrow> nat \<Rightarrow> int \<Rightarrow> bool \<Rightarrow> errno \<Rightarrow> io_turn list \<Rightarrow> sock_mem \<Rightarrow> ((errno + int \<times> errno \<times> u8 list) io_result \<times> sock_mem) ub" where
  "co_socket_recv core co now buf_null soerr turns = (\<lambda>(cc, m).
     (if rq_so (sk_e cc) = -1 then Some (Returned (Inl EBADF), cc, m)
      else if buf_null then Some (Returned (Inl EINVAL), cc, m)
      else
        do { (res, cc, m) \<leftarrow> with_waiter core (io_wait co (deadline now (sk_recvtmo cc)) EPOLLIN) (\<lambda>w. recv_loop w 0 turns) (cc, m);
             (case res of
                Returned (Inr (sz, err, bs)) \<Rightarrow>
                  Some (Returned (Inr (sz,
                          (if rq_so (sk_e cc) = -1 then ECONNABORTED
                           else if sz = 0 then (if soerr = EOK then ECONNRESET else soerr) else err), bs)), cc, m)
              | Returned (Inl err) \<Rightarrow> Some (Returned (Inl err), cc, m)
              | Suspended \<Rightarrow> Some (Suspended, cc, m)) }))"

text \<open>
  The loop of \<open>co_socket_accept\<close> returns the new descriptor or -1; the rest of the function
  initialises the new socket.
\<close>

fun accept_loop :: "wref \<Rightarrow> io_turn list \<Rightarrow> sock_mem \<Rightarrow> (int io_result \<times> sock_mem) ub" where
  "accept_loop w [] s = Some (Suspended, s)"
| "accept_loop w (t # ts) (cc, m) =
     (if it_ret t = -1 \<and> it_err t = EAGAIN
      then do { x \<leftarrow> wget m w;
                if iw_tmo x \<noteq> -1 \<and> it_now t \<ge> iw_tmo x then Some (Returned (-1), cc, m)
                else accept_loop w ts (it_run t (cc, m)) }
      else Some (Returned (it_ret t), cc, m))"

definition co_socket_accept ::
  "nat \<Rightarrow> nat \<Rightarrow> int \<Rightarrow> bool \<Rightarrow> bool \<Rightarrow> io_turn list \<Rightarrow> sock_mem \<Rightarrow> (co_socket option io_result \<times> sock_mem) ub" where
  "co_socket_accept core co now nonblock_ok epoll_ok turns = (\<lambda>(cc, m).
     do { (res, s) \<leftarrow> with_waiter core (io_wait co (deadline now (sk_recvtmo cc)) EPOLLIN) (\<lambda>w. accept_loop w turns) (cc, m);
          Some (case res of
                  Suspended \<Rightarrow> Suspended
                | Returned (Inl _) \<Rightarrow> Returned None
                | Returned (Inr so) \<Rightarrow>
                    (if so = -1 then Returned None
                     else (case co_socket_init nonblock_ok epoll_ok so of (ok, accepted) \<Rightarrow> Returned (if ok then Some accepted else None))), s) })"

text \<open>
  \<open>co_socket_connect\<close>: the first turn is the \<open>connect\<close> call and the suspension after it, the others are
  further suspensions. The loop suspends before it looks at the events.
\<close>

fun connect_loop :: "wref \<Rightarrow> errno \<Rightarrow> io_turn list \<Rightarrow> sock_mem \<Rightarrow> ((errno + unit) io_result \<times> sock_mem) ub" where
  "connect_loop w soerr [] s = Some (Suspended, s)"
| "connect_loop w soerr (t # ts) s =
     (let (cc, m) = it_run t s in
      do { x \<leftarrow> wget m w;
           if iw_revents x AND (EPOLLOUT OR EPOLLERR) = 0 \<and> (iw_tmo x = -1 \<or> it_now t \<le> iw_tmo x)
           then connect_loop w soerr ts (cc, m)
           else Some (Returned (if iw_revents x AND EPOLLERR = 0 then Inr () else Inl soerr), cc, m) })"

definition co_socket_connect ::
  "nat \<Rightarrow> nat \<Rightarrow> int \<Rightarrow> int \<Rightarrow> (errno + unit) \<Rightarrow> bool \<Rightarrow> errno \<Rightarrow> io_turn list \<Rightarrow> sock_mem \<Rightarrow> ((errno + unit) io_result \<times> sock_mem) ub" where
  "co_socket_connect core co now tmo_ms conn in_progress soerr turns = (\<lambda>(cc, m).
     (if rq_so (sk_e cc) = -1 then Some (Returned (Inl EBADF), cc, m)
      else
        do { (res, s) \<leftarrow> with_waiter core (io_wait co (deadline now tmo_ms) EPOLLOUT)
               (\<lambda>w s. if conn \<noteq> Inr () \<and> in_progress then connect_loop w soerr turns s else Some (Returned conn, s)) (cc, m);
             Some (case res of Suspended \<Rightarrow> Suspended | Returned (Inl err) \<Rightarrow> Returned (Inl err) | Returned (Inr r) \<Rightarrow> Returned r, s) }))"

definition co_socket_accept_new ::
  "bool \<Rightarrow> nat \<Rightarrow> nat \<Rightarrow> int \<Rightarrow> bool \<Rightarrow> bool \<Rightarrow> io_turn list \<Rightarrow> sock_mem \<Rightarrow> (co_socket option io_result \<times> sock_mem) ub" where
  "co_socket_accept_new mem_ok core co now nonblock_ok epoll_ok turns s =
     (if mem_ok then co_socket_accept core co now nonblock_ok epoll_ok turns s else Some (Returned None, s))"

definition co_socket_connect_new ::
  "bool \<Rightarrow> so_outcome \<Rightarrow> nat \<Rightarrow> nat \<Rightarrow> int \<Rightarrow> int \<Rightarrow> (errno + unit) \<Rightarrow> bool \<Rightarrow> errno \<Rightarrow> io_turn list \<Rightarrow> sched_mem \<Rightarrow>
     (co_socket option io_result \<times> int list \<times> sched_mem) ub" where
  "co_socket_connect_new mem_ok k core co now tmo_ms conn in_progress soerr turns m =
     (case co_socket_create_new mem_ok k of
        (None, closed) \<Rightarrow> Some (Returned None, closed, m)
      | (Some cc, closed) \<Rightarrow>
          do { (res, cc, m) \<leftarrow> co_socket_connect core co now tmo_ms conn in_progress soerr turns (cc, m);
               (case res of
                  Suspended \<Rightarrow> Some (Suspended, closed, m)
                | Returned (Inr _) \<Rightarrow> Some (Returned (Some cc), closed, m)
                | Returned (Inl _) \<Rightarrow> do { (fds, m) \<leftarrow> co_socket_destroy (Some cc) m; Some (Returned None, closed @ fds, m) }) })"

section \<open>The waiter of a call\<close>

text \<open>The waiter \<open>a\<close> is in place; others leave it there while the coroutine is suspended.\<close>

definition owns :: "(nat \<Rightarrow> nat set) \<Rightarrow> wref \<Rightarrow> sock_mem \<Rightarrow> bool" where
  "owns Bs a = (\<lambda>(cc, m). \<exists>H qs. waiters_ok Bs H qs (sk_e cc, m) \<and> a \<in> set qs)"

definition turns_ok :: "(nat \<Rightarrow> nat set) \<Rightarrow> io_turn list \<Rightarrow> bool" where
  "turns_ok Bs ts \<longleftrightarrow> (\<forall>t \<in> set ts. 0 < it_now t \<and> (\<forall>a s. owns Bs a s \<longrightarrow> owns Bs a (it_run t s)))"

text \<open>The waiter is gone from the list of its core and from the queue.\<close>

definition released :: "(nat \<Rightarrow> nat set) \<Rightarrow> wref \<Rightarrow> sock_mem \<Rightarrow> bool" where
  "released Bs a = (\<lambda>(cc, m). \<exists>H qs. waiters_ok Bs H qs (sk_e cc, m) \<and> a \<notin> set qs \<and> \<not> live H a)"

lemma ownsI: "waiters_ok Bs H qs (sk_e cc, m) \<Longrightarrow> a \<in> set qs \<Longrightarrow> owns Bs a (cc, m)"
  by (auto simp: owns_def)

lemma releasedI: "waiters_ok Bs H qs (sk_e cc, m) \<Longrightarrow> a \<notin> set qs \<Longrightarrow> \<not> live H a \<Longrightarrow> released Bs a (cc, m)"
  by (auto simp: released_def)

lemma ownsE:
  assumes "owns Bs a (cc, m)"
  obtains H qs x where "waiters_ok Bs H qs (sk_e cc, m)" "a \<in> set qs" "wget m a = Some x"
proof -
  from assms obtain H qs where "waiters_ok Bs H qs (sk_e cc, m)" "a \<in> set qs" by (auto simp: owns_def)
  with waiters_okD(2) wseg_valid that show thesis unfolding rq_inv_def by blast
qed

lemma with_waiter_ok:
  assumes ok: "waiters_ok Bs H qs (sk_e cc, m)" and room: "length (H core) < card (Bs core)" and tmo: "iw_tmo w \<noteq> 0"
    and body: "\<And>a s. owns Bs a s \<Longrightarrow> rq_so (sk_e (fst s)) = rq_so (sk_e cc) \<Longrightarrow> \<exists>res s'. body a s = Some (res, s') \<and> owns Bs a s' \<and> Q s s' res"
  shows "\<exists>a s res s'. (\<exists>p. a = Wnode core p \<and> p \<notin> set (H core)) \<and> body a s = Some (res, s') \<and> owns Bs a s \<and> Q s s' res \<and>
     (\<exists>s''. with_waiter core w body (cc, m) = Some (case res of Suspended \<Rightarrow> Suspended | Returned v \<Rightarrow> Returned (Inr v), s'') \<and>
        rq_so (sk_e (fst s'')) = rq_so (sk_e (fst s')) \<and> (res = Suspended \<longrightarrow> s'' = s' \<and> owns Bs a s'') \<and> (res \<noteq> Suspended \<longrightarrow> released Bs a s''))"
proof -
  from enter_wait_ok [OF ok tmo room] obtain p e m1 where
    e: "enter_wait core w (sk_e cc, m) = Some (Inr (Wnode core p), e, m1)" "p \<notin> set (H core)" "rq_so e = rq_so (sk_e cc)"
      "waiters_ok Bs (H(core := H core @ [p])) (qs @ [Wnode core p]) (e, m1)" by blast
  let ?s = "(cc\<lparr>sk_e := e\<rparr>, m1)" and ?a = "Wnode core p"
  have own: "owns Bs ?a ?s" by (rule ownsI [where H = "H(core := H core @ [p])" and qs = "qs @ [?a]"]) (use e(4) in simp_all)
  from body [OF own] e(3) obtain res cc2 m2 where b: "body ?a ?s = Some (res, cc2, m2)" "owns Bs ?a (cc2, m2)" "Q ?s (cc2, m2) res" by auto
  show ?thesis
  proof (cases res)
    case Suspended
    with b e(1,2) own show ?thesis by (intro exI [of _ ?a] exI [of _ ?s] exI [of _ res] exI [of _ "(cc2, m2)"]) (simp add: with_waiter_def)
  next
    case (Returned v)
    from b(2) obtain H2 qs2 where w2: "waiters_ok Bs H2 qs2 (sk_e cc2, m2)" "?a \<in> set qs2" by (auto simp: owns_def)
    from leave_wait_ok [OF this] obtain e3 m3 where
      l: "leave_wait ?a (sk_e cc2, m2) = Some (e3, m3)" "rq_so e3 = rq_so (sk_e cc2)" "waiters_ok Bs (drop_ref ?a H2) (remove1 ?a qs2) (e3, m3)" by blast
    have dist: "distinct qs2" "\<And>c. distinct (H2 c)" using waiters_okD(1,2) [OF w2(1)] by (auto simp: rq_inv_def cclist_inv_def)
    then have "released Bs ?a (cc2\<lparr>sk_e := e3\<rparr>, m3)"
      using live_drop_ref [of H2 ?a ?a] by (intro releasedI [where H = "drop_ref ?a H2" and qs = "remove1 ?a qs2"]) (use l(3) in simp_all)
    with b e(1,2) own l(1,2) Returned show ?thesis
      by (intro exI [of _ ?a] exI [of _ ?s] exI [of _ res] exI [of _ "(cc2, m2)"]) (simp add: with_waiter_def)
  qed
qed

lemma owns_tmo:
  assumes "owns Bs a (cc, m)" "wget m b = Some x" "t \<noteq> 0"
  shows "owns Bs a (cc, wput b (x\<lparr>iw_tmo := t\<rparr>) m)"
proof -
  from assms(1) obtain H qs where ok: "waiters_ok Bs H qs (sk_e cc, m)" "a \<in> set qs" by (auto simp: owns_def)
  have "waiters_ok Bs H qs (sk_e cc, wput b (x\<lparr>iw_tmo := t\<rparr>) m)"
    by (rule waiters_ok_in_place [OF ok(1)]) (use assms(2,3) waiters_okD(5) [OF ok(1)] in \<open>auto simp: wget_wput\<close>)
  with ok(2) show ?thesis by (auto simp: owns_def)
qed

text \<open>The kernel takes at most what it is offered.\<close>

fun kernel_ok :: "nat \<Rightarrow> io_turn list \<Rightarrow> bool" where
  "kernel_ok n [] = True"
| "kernel_ok n (t # ts) \<longleftrightarrow> (if it_ret t > 0 then nat (it_ret t) \<le> n \<and> kernel_ok (n - nat (it_ret t)) ts else kernel_ok n ts)"

definition send_result :: "u8 list \<Rightarrow> (int \<times> u8 list) io_result \<Rightarrow> bool" where
  "send_result buf res =
     (case res of
        Suspended \<Rightarrow> True
      | Returned (r, out) \<Rightarrow> out = take (length out) buf \<and> (r \<le> 0 \<or> r = int (length out)))"

lemma send_loop_ok:
  assumes "owns Bs a s" "turns_ok Bs ts" "kernel_ok (length buf - n) ts" "n \<le> length buf"
  shows "\<exists>res s'. send_loop a buf (int n) (take n buf) ts s = Some (res, s') \<and> owns Bs a s' \<and> send_result buf res"
  using assms
proof (induction ts arbitrary: n s)
  case Nil
  then show ?case by (auto simp: send_result_def)
next
  case (Cons t ts)
  obtain cc m where s: "s = (cc, m)" by force
  from Cons.prems(2) have t: "0 < it_now t" "\<And>s. owns Bs a s \<Longrightarrow> owns Bs a (it_run t s)" and ts: "turns_ok Bs ts" by (auto simp: turns_ok_def)
  from Cons.prems(1) s obtain x where x: "wget m a = Some x" by (auto elim: ownsE)
  show ?case
  proof (cases "n < length buf")
    case False
    then show ?thesis using Cons.prems(1,4) s by (simp add: send_result_def)
  next
    case room: True
    consider (sent) "it_ret t > 0" | (again) "\<not> it_ret t > 0" "it_err t = EAGAIN" | (error) "\<not> it_ret t > 0" "it_err t \<noteq> EAGAIN" by blast
    then show ?thesis
    proof cases
      case sent
      let ?m = "if sk_sendtmo cc \<ge> 0 then wput a (x\<lparr>iw_tmo := it_now t + sk_sendtmo cc * 1000\<rparr>) m else m"
      have own: "owns Bs a (cc, ?m)" using Cons.prems(1) s owns_tmo [of Bs a cc m a x] x t(1) by simp
      have le: "nat (it_ret t) \<le> length buf - n" and k: "kernel_ok (length buf - n - nat (it_ret t)) ts" using Cons.prems(3) sent by auto
      have out: "take n buf @ take (nat (it_ret t)) (drop n buf) = take (n + nat (it_ret t)) buf" by (simp add: take_add)
      have "send_loop a buf (int n) (take n buf) (t # ts) s = send_loop a buf (int (n + nat (it_ret t))) (take (n + nat (it_ret t)) buf) ts (cc, ?m)"
        using sent room x s out by (simp add: wset_Some)
      with Cons.IH [OF own ts, of "n + nat (it_ret t)"] k le room show ?thesis by (simp add: diff_diff_left)
    next
      case again
      obtain cc1 m1 where r: "it_run t (cc, m) = (cc1, m1)" by force
      have own: "owns Bs a (cc1, m1)" using t(2) [of "(cc, m)"] Cons.prems(1) s r by simp
      then obtain y where y: "wget m1 a = Some y" by (auto elim: ownsE)
      have k: "kernel_ok (length buf - n) ts" using Cons.prems(3) again by simp
      show ?thesis
      proof (cases "iw_revents y AND EPOLLOUT = 0")
        case True
        then show ?thesis using again room r y own s by (simp add: send_result_def)
      next
        case False
        then show ?thesis using Cons.IH [OF own ts k] again room r y Cons.prems(4) s by simp
      qed
    next
      case error
      then show ?thesis using room Cons.prems(1,4) s by (simp add: send_result_def min_absorb2)
    qed
  qed
qed

text \<open>What the kernel promises of a read: no more bytes than it has, and an error number on failure.\<close>

definition reads_ok :: "io_turn list \<Rightarrow> bool" where
  "reads_ok ts \<longleftrightarrow> (\<forall>t \<in> set ts. it_ret t \<le> int (length (it_bytes t)) \<and> (it_ret t < 0 \<longrightarrow> it_err t \<noteq> EOK))"

definition recv_result :: "sock_mem \<Rightarrow> (int \<times> errno \<times> u8 list) io_result \<Rightarrow> bool" where
  "recv_result s res =
     (case res of
        Suspended \<Rightarrow> True
      | Returned (sz, err, bs) \<Rightarrow> length bs = nat sz \<and> (rq_so (sk_e (fst s)) \<noteq> -1 \<and> sz < 0 \<longrightarrow> err \<noteq> EOK \<and> err \<noteq> EAGAIN))"

lemma recv_loop_ok:
  assumes "owns Bs a s" "turns_ok Bs ts" "reads_ok ts" "z \<le> 0"
  shows "\<exists>res s'. recv_loop a z ts s = Some (res, s') \<and> owns Bs a s' \<and> recv_result s' res"
  using assms
proof (induction ts arbitrary: z s)
  case Nil
  then show ?case by (cases s) (auto simp: recv_result_def)
next
  case (Cons t ts)
  obtain cc m where s: "s = (cc, m)" by force
  from Cons.prems have t: "\<And>s. owns Bs a s \<Longrightarrow> owns Bs a (it_run t s)" "turns_ok Bs ts" "reads_ok ts"
    "it_ret t \<le> int (length (it_bytes t))" "it_ret t < 0 \<longrightarrow> it_err t \<noteq> EOK" by (auto simp: turns_ok_def reads_ok_def)
  from Cons.prems(1) s obtain x where x: "wget m a = Some x" by (auto elim: ownsE)
  consider (closed) "rq_so (sk_e cc) = -1" | (again) "rq_so (sk_e cc) \<noteq> -1" "it_ret t < 0 \<and> it_err t = EAGAIN"
    | (final) "rq_so (sk_e cc) \<noteq> -1" "\<not> (it_ret t < 0 \<and> it_err t = EAGAIN)" by blast
  then show ?case
  proof cases
    case again
    show ?thesis
    proof (cases "iw_tmo x \<noteq> -1 \<and> it_now t \<ge> iw_tmo x")
      case True
      then show ?thesis using again Cons.prems(1) s x by (simp add: recv_result_def)
    next
      case False
      then show ?thesis using Cons.IH [OF t(1) [OF Cons.prems(1)] t(2,3), of "it_ret t"] again s x by auto
    qed
  next
    case final
    then show ?thesis using Cons.prems(1) s t(4,5) by (auto simp: recv_result_def)
  qed (use Cons.prems(1,4) s in \<open>simp add: recv_result_def\<close>)
qed

lemma accept_loop_ok: "owns Bs a s \<Longrightarrow> turns_ok Bs ts \<Longrightarrow> \<exists>res s'. accept_loop a ts s = Some (res, s') \<and> owns Bs a s'"
proof (induction ts arbitrary: s)
  case (Cons t ts)
  obtain cc m where s: "s = (cc, m)" by force
  from Cons.prems(1) s obtain x where "wget m a = Some x" by (auto elim: ownsE)
  then show ?case using Cons.IH [of "it_run t s"] Cons.prems s by (auto simp: turns_ok_def)
qed simp

lemma connect_loop_ok: "owns Bs a s \<Longrightarrow> turns_ok Bs ts \<Longrightarrow> \<exists>res s'. connect_loop a soerr ts s = Some (res, s') \<and> owns Bs a s'"
proof (induction ts arbitrary: s)
  case (Cons t ts)
  obtain cc m where r: "it_run t s = (cc, m)" by force
  from Cons.prems have "owns Bs a (it_run t s)" unfolding turns_ok_def by (meson list.set_intros(1))
  with r Cons.prems(2) have own: "owns Bs a (cc, m)" "turns_ok Bs ts" by (simp_all add: turns_ok_def)
  then obtain x where "wget m a = Some x" by (auto elim: ownsE)
  then show ?case using Cons.IH [OF own] own r by auto
qed simp

lemma close_loop_ok:
  assumes "wseg (wget m) pr p ws pr' None" "distinct ws"
  shows "\<exists>m'. close_loop p m = Some m' \<and>
     (\<forall>a. wget m' a = (if a \<in> set ws then map_option (\<lambda>x. x\<lparr>iw_events := iw_events x OR iw_mask x\<rparr>) (wget m a) else wget m a)) \<and>
     sm_data m' = sm_data m \<and> (\<forall>B c hs. cclist_inv B (sm_waiters m' c) hs = cclist_inv B (sm_waiters m c) hs)"
  using assms
proof (induction ws arbitrary: pr p m)
  case Nil
  then show ?case by (auto simp: close_loop.simps [of None])
next
  case (Cons a ws)
  from Cons.prems obtain x where x: "p = Some a" "wget m a = Some x" "wseg (wget m) (Some a) (iw_next x) ws pr' None" "a \<notin> set ws" "distinct ws"
    by (auto split: option.splits)
  let ?m = "wput a (x\<lparr>iw_events := iw_events x OR iw_mask x\<rparr>) m"
  have seg: "wseg (wget ?m) (Some a) (iw_next x) ws pr' None" using x(3,4) by simp
  have "close_loop p m = close_loop (iw_next x) ?m" using x(1,2) by (simp add: close_loop.simps [of "Some a"] wset_Some wget_wput)
  with Cons.IH [OF seg x(5)] x(2,4) show ?case by (auto simp: wget_wput)
qed

lemma io_wait_tmo: "0 < now \<Longrightarrow> iw_tmo (io_wait co (deadline now tmo) evs) \<noteq> 0"
  by (simp add: io_wait_def deadline_def)

lemma with_io_wait_ok:
  assumes "waiters_ok Bs H qs (sk_e cc, m)" "length (H core) < card (Bs core)" "0 < now"
    and "\<And>a s. owns Bs a s \<Longrightarrow> \<exists>res s'. body a s = Some (res, s') \<and> owns Bs a s' \<and> Q s' res"
  obtains a res s' s'' where
    "with_waiter core (io_wait co (deadline now tmo) evs) body (cc, m) = Some (case res of Suspended \<Rightarrow> Suspended | Returned v \<Rightarrow> Returned (Inr v), s'')"
    "Q s' res" "res = Suspended \<Longrightarrow> owns Bs a s''" "res \<noteq> Suspended \<Longrightarrow> released Bs a s''" "rq_so (sk_e (fst s'')) = rq_so (sk_e (fst s'))"
proof -
  from with_waiter_ok [OF assms(1,2) io_wait_tmo [OF assms(3)], of body "\<lambda>_. Q" co tmo evs] assms(4)
  show thesis using that by blast
qed

section \<open>Properties\<close>

text \<open>C23. Sending: whatever the kernel and the other coroutines do, the bytes that \<open>co_socket_send\<close> hands to the
  kernel are a prefix of the buffer, in order and without gaps or repetitions; a positive result is
  their number; and when the call returns, its waiter is in no list any more.\<close>

theorem co_socket_send_prefix:
  assumes "waiters_ok Bs H qs (sk_e cc, m)" "length (H core) < card (Bs core)" "0 < now" "turns_ok Bs turns" "kernel_ok (length buf) turns"
    and "rq_so (sk_e cc) \<noteq> -1"
  shows "\<exists>res s' a. co_socket_send core co now (Some buf) turns (cc, m) = Some (res, s') \<and>
     (case res of
        Suspended \<Rightarrow> owns Bs a s'
      | Returned (Inl _) \<Rightarrow> False
      | Returned (Inr (r, out)) \<Rightarrow> out = take (length out) buf \<and> (r \<le> 0 \<or> r = int (length out)) \<and> released Bs a s')"
proof -
  have "\<exists>res s'. send_loop a buf 0 [] turns s = Some (res, s') \<and> owns Bs a s' \<and> send_result buf res" if "owns Bs a s" for a s
    using send_loop_ok [OF that assms(4), of buf 0] assms(5) by simp
  then obtain a res s'' where
    "with_waiter core (io_wait co (deadline now (sk_sendtmo cc)) EPOLLOUT) (\<lambda>w. send_loop w buf 0 [] turns) (cc, m) =
       Some (case res of Suspended \<Rightarrow> Suspended | Returned v \<Rightarrow> Returned (Inr v), s'')"
    "send_result buf res" "res = Suspended \<Longrightarrow> owns Bs a s''" "res \<noteq> Suspended \<Longrightarrow> released Bs a s''"
    by (rule with_io_wait_ok [OF assms(1-3), where Q = "\<lambda>_. send_result buf" and co = co and tmo = "sk_sendtmo cc" and evs = EPOLLOUT]) blast+
  then show ?thesis using assms(6)
    by (intro exI [of _ "case res of Suspended \<Rightarrow> Suspended | Returned v \<Rightarrow> Returned (Inr v)"] exI [of _ s''] exI [of _ a])
      (auto simp: co_socket_send_def send_result_def split: io_result.splits)
qed

text \<open>C24. Receiving: when \<open>co_socket_recv\<close> returns, its waiter is in no list any more; a positive result is the
  number of bytes received; a result that is not positive comes with an error number, which is
  \<open>ECONNABORTED\<close> when the socket was closed in the meantime and never \<open>EAGAIN\<close> otherwise.\<close>

theorem co_socket_recv_result:
  assumes "waiters_ok Bs H qs (sk_e cc, m)" "length (H core) < card (Bs core)" "0 < now" "turns_ok Bs turns" "reads_ok turns"
    and "rq_so (sk_e cc) \<noteq> -1" "soerr \<noteq> EAGAIN"
  shows "\<exists>res s' a. co_socket_recv core co now False soerr turns (cc, m) = Some (res, s') \<and>
     (case res of
        Suspended \<Rightarrow> owns Bs a s'
      | Returned (Inl _) \<Rightarrow> False
      | Returned (Inr (sz, err, bs)) \<Rightarrow>
          length bs = nat sz \<and> released Bs a s' \<and>
          (if rq_so (sk_e (fst s')) = -1 then err = ECONNABORTED else sz \<le> 0 \<longrightarrow> err \<noteq> EOK \<and> err \<noteq> EAGAIN))"
proof -
  have "\<exists>res s'. recv_loop a 0 turns s = Some (res, s') \<and> owns Bs a s' \<and> recv_result s' res" if "owns Bs a s" for a s
    using recv_loop_ok [OF that assms(4,5), of 0] by simp
  then obtain a res s' s'' where
    "with_waiter core (io_wait co (deadline now (sk_recvtmo cc)) EPOLLIN) (\<lambda>w. recv_loop w 0 turns) (cc, m) =
       Some (case res of Suspended \<Rightarrow> Suspended | Returned v \<Rightarrow> Returned (Inr v), s'')"
    "recv_result s' res" "res = Suspended \<Longrightarrow> owns Bs a s''" "res \<noteq> Suspended \<Longrightarrow> released Bs a s''"
    "rq_so (sk_e (fst s'')) = rq_so (sk_e (fst s'))"
    by (rule with_io_wait_ok [OF assms(1-3), where Q = recv_result and co = co and tmo = "sk_recvtmo cc" and evs = EPOLLIN]) blast+
  then show ?thesis using assms(6,7)
    by (cases s'') (auto simp: co_socket_recv_def recv_result_def split: io_result.splits)
qed

text \<open>Accepting and connecting: both calls are defined, and when they return their waiter is in no list any
  more.\<close>

theorem co_socket_accept_connect_release:
  assumes "waiters_ok Bs H qs (sk_e cc, m)" "length (H core) < card (Bs core)" "0 < now" "turns_ok Bs turns" "rq_so (sk_e cc) \<noteq> -1"
  shows "(\<exists>res s' a. co_socket_accept core co now nonblock_ok epoll_ok turns (cc, m) = Some (res, s') \<and>
            (if res = Suspended then owns Bs a s' else released Bs a s')) \<and>
     (\<exists>res s' a. co_socket_connect core co now tmo conn in_progress soerr turns (cc, m) = Some (res, s') \<and>
            (if res = Suspended then owns Bs a s' else released Bs a s'))"
proof
  have "\<exists>res s'. accept_loop a turns s = Some (res, s') \<and> owns Bs a s' \<and> True" if "owns Bs a s" for a s
    using accept_loop_ok [OF that assms(4)] by simp
  then obtain a res s'' where
    "with_waiter core (io_wait co (deadline now (sk_recvtmo cc)) EPOLLIN) (\<lambda>w. accept_loop w turns) (cc, m) =
       Some (case res of Suspended \<Rightarrow> Suspended | Returned v \<Rightarrow> Returned (Inr v), s'')"
    "res = Suspended \<Longrightarrow> owns Bs a s''" "res \<noteq> Suspended \<Longrightarrow> released Bs a s''"
    by (rule with_io_wait_ok [OF assms(1-3), where Q = "\<lambda>_ _. True" and co = co and tmo = "sk_recvtmo cc" and evs = EPOLLIN]) blast+
  then show "\<exists>res s' a. co_socket_accept core co now nonblock_ok epoll_ok turns (cc, m) = Some (res, s') \<and>
      (if res = Suspended then owns Bs a s' else released Bs a s')"
    by (auto simp: co_socket_accept_def split: io_result.splits prod.splits)
next
  let ?body = "\<lambda>w s. if conn \<noteq> Inr () \<and> in_progress then connect_loop w soerr turns s else Some (Returned conn, s)"
  have "\<exists>res s'. ?body a s = Some (res, s') \<and> owns Bs a s' \<and> True" if "owns Bs a s" for a s
    using connect_loop_ok [OF that assms(4), of soerr] that by (cases s) simp
  then obtain a res s'' where
    "with_waiter core (io_wait co (deadline now tmo) EPOLLOUT) ?body (cc, m) =
       Some (case res of Suspended \<Rightarrow> Suspended | Returned v \<Rightarrow> Returned (Inr v), s'')"
    "res = Suspended \<Longrightarrow> owns Bs a s''" "res \<noteq> Suspended \<Longrightarrow> released Bs a s''"
    by (rule with_io_wait_ok [OF assms(1-3), where Q = "\<lambda>_ _. True" and co = co and tmo = tmo and evs = EPOLLOUT]) blast+
  then show "\<exists>res s' a. co_socket_connect core co now tmo conn in_progress soerr turns (cc, m) = Some (res, s') \<and>
      (if res = Suspended then owns Bs a s' else released Bs a s')"
    using assms(5) by (auto simp: co_socket_connect_def split: io_result.splits)
qed

lemma co_socket_close_ok:
  assumes "waiters_ok Bs H qs (sk_e cc, m)" "rq_so (sk_e cc) \<noteq> -1"
  shows "\<exists>cc' m'. co_socket_close (cc, m) = Some (Some (rq_so (sk_e cc)), cc', m') \<and> rq_so (sk_e cc') = -1 \<and> waiters_ok Bs H qs (sk_e cc', m') \<and>
     (\<forall>a. wget m' a = (if a \<in> set qs then map_option (\<lambda>x. x\<lparr>iw_events := iw_events x OR iw_mask x\<rparr>) (wget m a) else wget m a))"
proof -
  from waiters_okD(2) [OF assms(1)] have q: "wseg (wget m) None (rq_head (sk_e cc)) qs (rq_tail (sk_e cc)) None" "distinct qs"
    and e: "e_check (sk_e cc) = Some ()" by (simp_all add: rq_inv_def)
  from close_loop_ok [OF q] obtain m' where
    m': "close_loop (rq_head (sk_e cc)) m = Some m'"
      "\<forall>a. wget m' a = (if a \<in> set qs then map_option (\<lambda>x. x\<lparr>iw_events := iw_events x OR iw_mask x\<rparr>) (wget m a) else wget m a)"
      "sm_data m' = sm_data m" "\<forall>B c hs. cclist_inv B (sm_waiters m' c) hs = cclist_inv B (sm_waiters m c) hs" by blast
  let ?cc = "cc\<lparr>sk_e := (sk_e cc)\<lparr>rq_so := -1\<rparr>\<rparr>"
  have "waiters_ok Bs H qs (sk_e ?cc, m')"
    by (rule waiters_ok_in_place [OF assms(1)]) (use m'(2-4) waiters_okD(5) [OF assms(1)] in auto)
  moreover have "co_socket_close (cc, m) = Some (Some (rq_so (sk_e cc)), ?cc, m')" using assms(2) e m'(1) by (simp add: co_socket_close_def)
  ultimately show ?thesis using m'(2) by (intro exI [of _ ?cc] exI [of _ m']) simp
qed

lemma closed_due:
  assumes "iw_co x \<noteq> None" "iw_mask x \<noteq> 0" "\<not> yielding x"
  shows "due ct (x\<lparr>iw_events := iw_events x OR iw_mask x\<rparr>)"
proof -
  have "(iw_events x OR iw_mask x) AND iw_mask x = iw_mask x" by (simp add: bit.conj_disj_distrib2 or.commute)
  with assms show ?thesis by (simp add: due_def yielding_def)
qed

text \<open>C25. Closing: \<open>co_socket_close\<close> keeps all lists in order, marks the socket as closed and makes every coroutine
  that waits for it due, so that the next walk over the waiters of its core resumes it.\<close>

theorem co_socket_close_wakes:
  assumes "waiters_ok Bs H qs (sk_e cc, m)" "rq_so (sk_e cc) \<noteq> -1"
  shows "\<exists>cc' m'. co_socket_close (cc, m) = Some (Some (rq_so (sk_e cc)), cc', m') \<and> rq_so (sk_e cc') = -1 \<and> waiters_ok Bs H qs (sk_e cc', m') \<and>
     (\<forall>a x. a \<in> set qs \<and> wget m a = Some x \<and> iw_co x \<noteq> None \<and> iw_mask x \<noteq> 0 \<and> \<not> yielding x \<longrightarrow> (\<exists>y. wget m' a = Some y \<and> iw_co y = iw_co x \<and> due ct y))"
proof -
  obtain cc' m' where "co_socket_close (cc, m) = Some (Some (rq_so (sk_e cc)), cc', m')" "rq_so (sk_e cc') = -1" "waiters_ok Bs H qs (sk_e cc', m')"
    "\<forall>a. wget m' a = (if a \<in> set qs then map_option (\<lambda>x. x\<lparr>iw_events := iw_events x OR iw_mask x\<rparr>) (wget m a) else wget m a)"
    using co_socket_close_ok [OF assms] by blast
  then show ?thesis using closed_due by (intro exI [of _ cc'] exI [of _ m']) simp
qed

text \<open>Running out of time: a connection that is still in progress when the time limit of
  \<open>co_socket_connect\<close> has passed is reported as established.\<close>

theorem co_socket_connect_timeout:
  assumes "waiters_ok Bs H qs (sk_e cc, m)" "length (H core) < card (Bs core)" "0 < now" "0 \<le> tmo" "rq_so (sk_e cc) \<noteq> -1"
    and "it_run t = id" "now + tmo < it_now t"
  shows "\<exists>s'. co_socket_connect core co now tmo (Inl err) True soerr [t] (cc, m) = Some (Returned (Inr ()), s')"
proof -
  let ?w = "io_wait co (deadline now tmo) EPOLLOUT"
  from enter_wait_ok [OF assms(1) io_wait_tmo [OF assms(3)] assms(2), of co tmo EPOLLOUT] obtain p e m1 x where
    e: "enter_wait core ?w (sk_e cc, m) = Some (Inr (Wnode core p), e, m1)"
      "waiters_ok Bs (H(core := H core @ [p])) (qs @ [Wnode core p]) (e, m1)"
      "wget m1 (Wnode core p) = Some x" "payload x = payload (?w\<lparr>iw_mask := iw_mask ?w OR UNMASKED_EVENTS\<rparr>)" by blast
  from leave_wait_ok [OF e(2), of "Wnode core p"] obtain e2 m2 where l: "leave_wait (Wnode core p) (e, m1) = Some (e2, m2)" by auto
  from e(4) have "iw_revents x = 0" "iw_tmo x = now + tmo"
    using assms(4) by (cases x; simp add: payload_def io_wait_def deadline_def)+
  with e(1,3) l assms show ?thesis by (simp add: co_socket_connect_def with_waiter_def)
qed

text \<open>Descriptors of listening sockets: \<open>co_socket_create_listening_new\<close> returns a socket exactly when
  every system call succeeds, keeps the descriptor open then and closes it exactly once when a later
  call fails. It is undefined exactly when \<open>socket\<close> itself fails, since it closes a socket that was never
  initialised then.\<close>

theorem co_socket_create_listening_descriptors:
  "co_socket_create_listening_new mem_ok k m =
     (if \<not> mem_ok then Some (None, [], m)
      else if so_socket k = -1 then None
      else if so_nonblock k \<and> so_epoll k \<and> so_bind k \<and> so_listen k then Some (Some (snd (co_socket_init True True (so_socket k))), [], m)
      else Some (None, [so_socket k], m))"
  by (cases "so_nonblock k \<and> so_epoll k")
    (auto simp: co_socket_create_listening_new_def co_socket_create_listening_def co_socket_create_def co_socket_init_def
      co_socket_close_def Let_def close_loop.simps [of None])

section \<open>Examples\<close>

text \<open>A connected socket, a coroutine 31 on core 0, and turns in which no other coroutine runs.\<close>

definition example_sock_mem :: sched_mem where
  "example_sock_mem = \<lparr>sm_waiters = (\<lambda>_. example_free), sm_stack = (\<lambda>_. None), sm_data = (\<lambda>_. False)\<rparr>"

definition example_socket :: co_socket where
  "example_socket = snd (co_socket_init True True 5)"

definition quiet :: "int \<Rightarrow> errno \<Rightarrow> int \<Rightarrow> u8 list \<Rightarrow> io_turn" where
  "quiet r err now bs = \<lparr>it_ret = r, it_err = err, it_now = now, it_bytes = bs, it_run = id\<rparr>"

lemma example_socket_ok:
  "waiters_ok (\<lambda>_. {8, 80}) (\<lambda>_. []) [] (sk_e example_socket, example_sock_mem)" "rq_so (sk_e example_socket) \<noteq> -1"
  "length ((\<lambda>_. []) (0::nat)) < card ((\<lambda>_. {8, 80 :: nat}) (0::nat))"
  using example_free_inv by (auto simp: waiters_ok_def example_sock_mem_def example_socket_def co_socket_init_def rq_inv_def)

lemma quiet_ok: "turns_ok Bs (map (\<lambda>(r, err, n, bs). quiet r err (1 + int n) bs) ts)"
  by (auto simp: turns_ok_def quiet_def)

theorem co_socket_send_prefix_witness:
  "\<exists>out s'. co_socket_send 0 31 100 (Some [1, 2, 3]) [quiet 2 EOK 100 [], quiet 1 EOK 101 []] (example_socket, example_sock_mem) =
     Some (Returned (Inr (3, out)), s') \<and> out = take (length out) [1, 2, 3]"
proof -
  have t: "turns_ok (\<lambda>_. {8, 80}) [quiet 2 EOK 100 [], quiet 1 EOK 101 []]"
    using quiet_ok [of _ "[(2, EOK, 99, []), (1, EOK, 100, [])]"] by simp
  have k: "kernel_ok (length [1, 2, 3 :: u8]) [quiet 2 EOK 100 [], quiet 1 EOK 101 []]" by (simp add: quiet_def)
  have "map_option fst (co_socket_send 0 31 100 (Some [1, 2, 3]) [quiet 2 EOK 100 [], quiet 1 EOK 101 []] (example_socket, example_sock_mem)) =
     Some (Returned (Inr (3, [1, 2, 3])))" by code_simp
  with co_socket_send_prefix [OF example_socket_ok(1,3) _ t k example_socket_ok(2), where core = 0 and now = 100 and co = 31] show ?thesis by auto
qed

theorem co_socket_recv_result_witness:
  "\<exists>s'. co_socket_recv 0 31 100 False EOK [quiet (-1) EAGAIN 100 [], quiet 0 EOK 101 []] (example_socket, example_sock_mem) =
     Some (Returned (Inr (0, ECONNRESET, [])), s') \<and> (\<exists>a. released (\<lambda>_. {8, 80}) a s')"
proof -
  have t: "turns_ok (\<lambda>_. {8, 80}) [quiet (-1) EAGAIN 100 [], quiet 0 EOK 101 []]"
    using quiet_ok [of _ "[(-1, EAGAIN, 99, []), (0, EOK, 100, [])]"] by simp
  have k: "reads_ok [quiet (-1) EAGAIN 100 [], quiet 0 EOK 101 []]" by (simp add: quiet_def reads_ok_def)
  have "map_option fst (co_socket_recv 0 31 100 False EOK [quiet (-1) EAGAIN 100 [], quiet 0 EOK 101 []] (example_socket, example_sock_mem)) =
     Some (Returned (Inr (0, ECONNRESET, [])))" by code_simp
  with co_socket_recv_result [OF example_socket_ok(1,3) _ t k example_socket_ok(2), where core = 0 and now = 100 and co = 31 and soerr = EOK] show ?thesis by auto
qed

theorem co_socket_accept_connect_release_witness:
  "\<exists>res s' a. co_socket_accept 0 31 100 True True [quiet 7 EOK 100 []] (example_socket, example_sock_mem) = Some (res, s') \<and>
     (if res = Suspended then owns (\<lambda>_. {8, 80}) a s' else released (\<lambda>_. {8, 80}) a s')"
proof -
  have "turns_ok (\<lambda>_. {8, 80}) [quiet 7 EOK 100 []]" using quiet_ok [of _ "[(7, EOK, 99, [])]"] by simp
  from co_socket_accept_connect_release [OF example_socket_ok(1,3) _ this example_socket_ok(2),
      where core = 0 and now = 100 and co = 31 and nonblock_ok = True and epoll_ok = True]
  show ?thesis by simp
qed

theorem co_socket_close_wakes_witness:
  "\<exists>e m cc' m' y. enter_wait 0 (io_wait 31 (-1) EPOLLIN) (sk_e example_socket, example_sock_mem) = Some (Inr (Wnode 0 8), e, m) \<and>
     co_socket_close (example_socket\<lparr>sk_e := e\<rparr>, m) = Some (Some 5, cc', m') \<and> rq_so (sk_e cc') = -1 \<and>
     wget m' (Wnode 0 8) = Some y \<and> iw_co y = Some 31 \<and> due 100 y"
proof -
  let ?w = "io_wait 31 (-1) EPOLLIN"
  have "iw_tmo ?w \<noteq> 0" by (simp add: io_wait_def)
  from enter_wait_ok [OF example_socket_ok(1) this example_socket_ok(3)] obtain p e m x where
    e: "enter_wait 0 ?w (sk_e example_socket, example_sock_mem) = Some (Inr (Wnode 0 p), e, m)" "rq_so e = rq_so (sk_e example_socket)"
      "waiters_ok (\<lambda>_. {8, 80}) ((\<lambda>_. [])(0 := [] @ [p])) ([] @ [Wnode 0 p]) (e, m)"
      "wget m (Wnode 0 p) = Some x" "payload x = payload (?w\<lparr>iw_mask := iw_mask ?w OR UNMASKED_EVENTS\<rparr>)" by blast
  have "map_option fst (enter_wait 0 ?w (sk_e example_socket, example_sock_mem)) = Some (Inr (Wnode 0 8))" by code_simp
  with e(1) have p: "p = 8" by simp
  from e(5) have "iw_co x = Some 31" "iw_mask x = EPOLLIN OR UNMASKED_EVENTS" "iw_flags x = 0" by (cases x; simp add: payload_def io_wait_def)+
  then have x: "iw_co x = Some 31" "iw_mask x \<noteq> 0" "\<not> yielding x" by (simp_all add: yielding_def EPOLLIN_def EPOLLERR_def EPOLLHUP_def EPOLLRDHUP_def UNMASKED_EVENTS_def)
  from co_socket_close_wakes [of "\<lambda>_. {8, 80}" _ _ "example_socket\<lparr>sk_e := e\<rparr>" m 100] e(2-4) p x example_socket_ok(2) e(1)
  show ?thesis by (fastforce simp: example_socket_def co_socket_init_def)
qed

theorem co_socket_connect_timeout_witness:
  "\<exists>s'. co_socket_connect 0 31 100 50 (Inl (EOTHER 115)) True EOK [quiet 0 EOK 151 []] (example_socket, example_sock_mem) = Some (Returned (Inr ()), s')"
  using co_socket_connect_timeout [OF example_socket_ok(1,3) _ _ example_socket_ok(2),
      where core = 0 and now = 100 and tmo = 50 and t = "quiet 0 EOK 151 []" and co = 31 and err = "EOTHER 115" and soerr = EOK]
  by (simp add: quiet_def)

end
