(* ===== verification/Co_Io.thy ===== *)
theory Co_Io
  imports Co_Socket
begin

text \<open>
  Waiting on plain descriptors, src/cothread/co-scheduler.c: \<open>co_io_wait\<close> registers a request of its own
  with the event listener, suspends the coroutine and returns the events; \<open>co_send\<close>, \<open>co_recv\<close>, \<open>co_read\<close>,
  \<open>co_write\<close>, \<open>co_connect\<close> and \<open>co_accept\<close> loop over it, \<open>co_poll\<close> does it for many descriptors at once and
  \<open>co_sleep\<close> without any. What others do while the coroutine is suspended is a parameter of each wait.
\<close>

section \<open>Operations\<close>

text \<open>The outcome of \<open>epoll_add\<close> is a parameter; \<open>run\<close> gets the request, as the event listener does.\<close>

definition co_io_wait ::
  "nat \<Rightarrow> nat \<Rightarrow> int \<Rightarrow> int \<Rightarrow> u32 \<Rightarrow> int \<Rightarrow> bool \<Rightarrow> (iorq \<Rightarrow> sched_mem \<Rightarrow> sched_mem) \<Rightarrow> sched_mem \<Rightarrow> (u32 \<times> sched_mem) ub" where
  "co_io_wait core co now so events msec add_ok run m =
     do { (r, m) \<leftarrow> add_waiter core (io_wait co (if msec < 0 then -1 else now + msec) events) m;
          let node = (case r of Inl _ \<Rightarrow> None | Inr p \<Rightarrow> Some p);
          let e = \<lparr>rq_head = map_option (Wnode core) node, rq_tail = None, rq_so = so, rq_type = iowait_io\<rparr>;
          _ \<leftarrow> e_check e;
          (case node of
             None \<Rightarrow> Some (EPOLLERR, m)
           | Some p \<Rightarrow>
               (if \<not> add_ok then do { m \<leftarrow> remove_waiter core node m; Some (EPOLLERR, m) }
                else do { let m = run e m;
                          x \<leftarrow> wget m (Wnode core p);
                          m \<leftarrow> remove_waiter core node m;
                          Some (iw_revents x, m) })) }"

text \<open>
  One round of a loop: the result of the system call with its errno and bytes, the time, the timeout
  of the socket in seconds, and what happens in \<open>co_io_wait\<close>.
\<close>

record fd_turn =
  ft_ret :: int
  ft_err :: errno
  ft_bytes :: "u8 list"
  ft_now :: int
  ft_tmo :: int
  ft_add :: bool
  ft_run :: "iorq \<Rightarrow> sched_mem \<Rightarrow> sched_mem"

definition turn_wait :: "nat \<Rightarrow> nat \<Rightarrow> int \<Rightarrow> u32 \<Rightarrow> int \<Rightarrow> fd_turn \<Rightarrow> sched_mem \<Rightarrow> (u32 \<times> sched_mem) ub" where
  "turn_wait core co so events msec t m = co_io_wait core co (ft_now t) so events msec (ft_add t) (ft_run t) m"

text \<open>
  The loop of \<open>co_send\<close> and \<open>co_write\<close>: they differ in the time to wait and in whether they look at the
  events afterwards. The result is the returned number and the bytes that went out.
\<close>

fun write_loop ::
  "nat \<Rightarrow> nat \<Rightarrow> int \<Rightarrow> (fd_turn \<Rightarrow> int) \<Rightarrow> (u32 \<Rightarrow> bool) \<Rightarrow> u8 list \<Rightarrow> nat \<Rightarrow> u8 list \<Rightarrow> fd_turn list \<Rightarrow> sched_mem \<Rightarrow>
     ((nat \<times> u8 list) io_result \<times> sched_mem) ub" where
  "write_loop core co so msec stop buf sent out [] m = Some (if sent < length buf then Suspended else Returned (sent, out), m)"
| "write_loop core co so msec stop buf sent out (t # ts) m =
     (if \<not> sent < length buf then Some (Returned (sent, out), m)
      else if ft_ret t > 0
      then write_loop core co so msec stop buf (sent + nat (ft_ret t)) (out @ take (nat (ft_ret t)) (drop sent buf)) ts m
      else if ft_err t = EAGAIN
      then do { (revents, m) \<leftarrow> turn_wait core co so EPOLLOUT (msec t) t m;
                if stop revents then Some (Returned (sent, out), m)
                else write_loop core co so msec stop buf sent out ts m }
      else Some (Returned (sent, out), m))"

definition co_send :: "nat \<Rightarrow> nat \<Rightarrow> int \<Rightarrow> u8 list \<Rightarrow> fd_turn list \<Rightarrow> sched_mem \<Rightarrow> ((nat \<times> u8 list) io_result \<times> sched_mem) ub" where
  "co_send core co so buf ts m = write_loop core co so (\<lambda>t. ft_tmo t * 1000) (\<lambda>revents. revents AND EPOLLOUT = 0) buf 0 [] ts m"

definition co_write :: "nat \<Rightarrow> nat \<Rightarrow> int \<Rightarrow> u8 list \<Rightarrow> fd_turn list \<Rightarrow> sched_mem \<Rightarrow> ((nat \<times> u8 list) io_result \<times> sched_mem) ub" where
  "co_write core co fd buf ts m = write_loop core co fd (\<lambda>_. -1) (\<lambda>_. False) buf 0 [] ts m"

text \<open>
  The loop that \<open>co_recv\<close>, \<open>co_recv_rqh\<close> and \<open>co_read\<close> share; they differ in the time to wait and in what
  they make of errno.
\<close>

fun read_loop :: "nat \<Rightarrow> nat \<Rightarrow> int \<Rightarrow> (fd_turn \<Rightarrow> int) \<Rightarrow> fd_turn list \<Rightarrow> sched_mem \<Rightarrow> ((int \<times> errno \<times> u8 list) io_result \<times> sched_mem) ub" where
  "read_loop core co so msec [] m = Some (Suspended, m)"
| "read_loop core co so msec (t # ts) m =
     (if ft_ret t < 0 \<and> ft_err t = EAGAIN
      then do { (revents, m) \<leftarrow> turn_wait core co so EPOLLIN (msec t) t m;
                if revents AND EPOLLIN = 0 then Some (Returned (ft_ret t, EAGAIN, []), m)
                else read_loop core co so msec ts m }
      else Some (Returned (ft_ret t, ft_err t, take (nat (ft_ret t)) (ft_bytes t)), m))"

definition recv_errno :: "errno \<Rightarrow> int \<Rightarrow> errno \<Rightarrow> errno" where
  "recv_errno soerr sz err = (if sz = 0 then ECONNRESET else if sz < 0 then soerr else err)"

definition with_recv_errno ::
  "errno \<Rightarrow> ((int \<times> errno \<times> u8 list) io_result \<times> sched_mem) ub \<Rightarrow> ((int \<times> errno \<times> u8 list) io_result \<times> sched_mem) ub" where
  "with_recv_errno soerr r =
     map_option (\<lambda>(res, m). (case res of Suspended \<Rightarrow> Suspended | Returned (sz, err, bs) \<Rightarrow> Returned (sz, recv_errno soerr sz err, bs), m)) r"

definition co_recv :: "nat \<Rightarrow> nat \<Rightarrow> int \<Rightarrow> errno \<Rightarrow> fd_turn list \<Rightarrow> sched_mem \<Rightarrow> ((int \<times> errno \<times> u8 list) io_result \<times> sched_mem) ub" where
  "co_recv core co so soerr ts m = with_recv_errno soerr (read_loop core co so (\<lambda>t. ft_tmo t * 1000) ts m)"

definition co_recv_rqh :: "nat \<Rightarrow> nat \<Rightarrow> int \<Rightarrow> errno \<Rightarrow> fd_turn list \<Rightarrow> sched_mem \<Rightarrow> ((int \<times> errno \<times> u8 list) io_result \<times> sched_mem) ub" where
  "co_recv_rqh core co so soerr ts m = with_recv_errno soerr (read_loop core co so (\<lambda>_. -1) ts m)"

definition co_read :: "nat \<Rightarrow> nat \<Rightarrow> int \<Rightarrow> fd_turn list \<Rightarrow> sched_mem \<Rightarrow> ((int \<times> errno \<times> u8 list) io_result \<times> sched_mem) ub" where
  "co_read core co fd ts m = read_loop core co fd (\<lambda>_. -1) ts m"

text \<open>\<open>co_connect\<close>: \<open>conn\<close> is the outcome of the system call, \<open>in_progress\<close> whether errno is \<open>EINPROGRESS\<close>.\<close>

fun co_connect_loop :: "nat \<Rightarrow> nat \<Rightarrow> int \<Rightarrow> errno \<Rightarrow> fd_turn list \<Rightarrow> sched_mem \<Rightarrow> ((errno + unit) io_result \<times> sched_mem) ub" where
  "co_connect_loop core co so soerr [] m = Some (Suspended, m)"
| "co_connect_loop core co so soerr (t # ts) m =
     do { (revents, m) \<leftarrow> turn_wait core co so EPOLLOUT (-1) t m;
          if revents AND (EPOLLOUT OR EPOLLERR) = 0 then co_connect_loop core co so soerr ts m
          else Some (Returned (if revents AND EPOLLERR = 0 then Inr () else Inl soerr), m) }"

definition co_connect :: "nat \<Rightarrow> nat \<Rightarrow> int \<Rightarrow> (errno + unit) \<Rightarrow> bool \<Rightarrow> errno \<Rightarrow> fd_turn list \<Rightarrow> sched_mem \<Rightarrow> ((errno + unit) io_result \<times> sched_mem) ub" where
  "co_connect core co so conn in_progress soerr ts m =
     (if conn \<noteq> Inr () \<and> in_progress then co_connect_loop core co so soerr ts m else Some (Returned conn, m))"

text \<open>The result is the connected descriptor or -1, and the descriptors closed.\<close>

definition co_tcp_connect ::
  "nat \<Rightarrow> nat \<Rightarrow> int \<Rightarrow> (errno + unit) \<Rightarrow> bool \<Rightarrow> errno \<Rightarrow> fd_turn list \<Rightarrow> sched_mem \<Rightarrow> ((int \<times> int list) io_result \<times> sched_mem) ub" where
  "co_tcp_connect core co so conn in_progress soerr ts m =
     (if so = -1 then Some (Returned (-1, []), m)
      else do { (res, m) \<leftarrow> co_connect core co so conn in_progress soerr ts m;
                Some (case res of Suspended \<Rightarrow> Suspended | Returned (Inl _) \<Rightarrow> Returned (-1, [so]) | Returned (Inr _) \<Rightarrow> Returned (so, []), m) })"

fun co_accept :: "nat \<Rightarrow> nat \<Rightarrow> int \<Rightarrow> fd_turn list \<Rightarrow> sched_mem \<Rightarrow> (int io_result \<times> sched_mem) ub" where
  "co_accept core co sso [] m = Some (Suspended, m)"
| "co_accept core co sso (t # ts) m =
     (if ft_ret t = -1 \<and> ft_err t = EAGAIN
      then do { (_, m) \<leftarrow> turn_wait core co sso EPOLLIN (-1) t m; co_accept core co sso ts m }
      else Some (Returned (ft_ret t), m))"

text \<open>
  \<open>co_poll\<close>: the first loop adds a waiter for each descriptor (\<open>adds\<close> are the outcomes of \<open>epoll_add\<close>; a
  failure ends the process), the second one collects the events. The parameter \<open>run\<close> gets the requests.
\<close>

definition POLLIN :: u16 where "POLLIN = 1"
definition POLLOUT :: u16 where "POLLOUT = 4"
definition POLLERR :: u16 where "POLLERR = 8"

record pollfd =
  pfd_fd :: int
  pfd_events :: u16
  pfd_revents :: u16

definition poll_mask :: "pollfd \<Rightarrow> u32" where
  "poll_mask f = (if pfd_events f AND POLLIN \<noteq> 0 then EPOLLIN else 0) OR (if pfd_events f AND POLLOUT \<noteq> 0 then EPOLLOUT else 0)"

fun poll_enter :: "nat \<Rightarrow> nat \<Rightarrow> int \<Rightarrow> (pollfd \<times> bool) list \<Rightarrow> sched_mem \<Rightarrow> ((iorq \<times> nat) list \<times> sched_mem) ub" where
  "poll_enter core co tmo [] m = Some ([], m)"
| "poll_enter core co tmo ((f, add_ok) # fs) m =
     do { (r, m) \<leftarrow> add_waiter core (io_wait co tmo (poll_mask f)) m;
          let e = \<lparr>rq_head = (case r of Inl _ \<Rightarrow> None | Inr p \<Rightarrow> Some (Wnode core p)), rq_tail = None, rq_so = pfd_fd f, rq_type = iowait_io\<rparr>;
          _ \<leftarrow> e_check e;
          (case r of
             Inl _ \<Rightarrow> None
           | Inr p \<Rightarrow> if \<not> add_ok then None
                      else do { (c, m) \<leftarrow> poll_enter core co tmo fs m; Some ((e, p) # c, m) }) }"

definition poll_revents :: "pollfd \<Rightarrow> u32 \<Rightarrow> u16" where
  "poll_revents f ev =
     (if pfd_events f AND POLLIN \<noteq> 0 \<and> ev AND EPOLLIN \<noteq> 0 then POLLIN else 0) OR
     (if pfd_events f AND POLLOUT \<noteq> 0 \<and> ev AND EPOLLOUT \<noteq> 0 then POLLOUT else 0) OR
     (if ev AND EPOLLERR \<noteq> 0 then POLLERR else 0)"

fun poll_leave :: "nat \<Rightarrow> pollfd list \<Rightarrow> (iorq \<times> nat) list \<Rightarrow> sched_mem \<Rightarrow> (nat \<times> pollfd list \<times> sched_mem) ub" where
  "poll_leave core (f # fs) ((e, p) # c) m =
     do { _ \<leftarrow> e_check e;
          x \<leftarrow> wget m (Wnode core p);
          let f = f\<lparr>pfd_revents := poll_revents f (iw_revents x)\<rparr>;
          m \<leftarrow> remove_waiter core (Some p) m;
          (n, fs, m) \<leftarrow> poll_leave core fs c m;
          Some (if pfd_revents f \<noteq> 0 then Suc n else n, f # fs, m) }"
| "poll_leave core fs c m = Some (0, fs, m)"

definition co_poll ::
  "nat \<Rightarrow> nat \<Rightarrow> int \<Rightarrow> (pollfd \<times> bool) list \<Rightarrow> int \<Rightarrow> ((iorq \<times> nat) list \<Rightarrow> sched_mem \<Rightarrow> sched_mem) \<Rightarrow> sched_mem \<Rightarrow>
     (nat \<times> pollfd list \<times> sched_mem) ub" where
  "co_poll core co now fds timeout_ms run m =
     do { (c, m) \<leftarrow> poll_enter core co (deadline now timeout_ms) fds m;
          poll_leave core (map fst fds) c (run c m) }"

text \<open>
  \<open>co_sleep\<close> in a coroutine: the waiter is added, the coroutine suspends itself, the waiter is removed.
  Without memory it returns at once.
\<close>

definition sleep_waiter :: "nat \<Rightarrow> int \<Rightarrow> u32 \<Rightarrow> io_waiter" where
  "sleep_waiter co now msec = (io_wait co (now + uint msec) 0)\<lparr>iw_flags := if msec = 0 then CO_YIELD else 0\<rparr>"

definition co_sleep :: "nat \<Rightarrow> nat \<Rightarrow> int \<Rightarrow> u32 \<Rightarrow> (sched_mem \<Rightarrow> sched_mem) \<Rightarrow> sched_mem \<Rightarrow> sched_mem ub" where
  "co_sleep core co now msec run m =
     do { (r, m) \<leftarrow> add_waiter core (sleep_waiter co now msec) m;
          (case r of
             Inl _ \<Rightarrow> Some m
           | Inr p \<Rightarrow> remove_waiter core (Some p) (run m)) }"

definition co_yield :: "nat \<Rightarrow> nat \<Rightarrow> int \<Rightarrow> (sched_mem \<Rightarrow> sched_mem) \<Rightarrow> sched_mem \<Rightarrow> sched_mem ub" where
  "co_yield core co now run m = co_sleep core co now 0 run m"

section \<open>The waiters of a suspended coroutine\<close>

text \<open>
  \<open>suspended Bs co A m\<close>: the lists of all cores are in order and the waiters of coroutine \<open>co\<close> in them are
  exactly those at the addresses \<open>A\<close>. Others may do anything that keeps this for every \<open>A\<close>.
\<close>

definition no_rq :: iorq where
  "no_rq = \<lparr>rq_head = None, rq_tail = None, rq_so = 0, rq_type = iowait_io\<rparr>"

definition co_waiters :: "nat \<Rightarrow> wref set \<Rightarrow> (nat \<Rightarrow> nat list) \<Rightarrow> sched_mem \<Rightarrow> bool" where
  "co_waiters co A H m \<longleftrightarrow>
     (\<forall>a \<in> A. \<exists>c p. a = Wnode c p \<and> p \<in> set (H c)) \<and> (\<forall>c h x. h \<in> set (H c) \<and> wget m (Wnode c h) = Some x \<and> iw_co x = Some co \<longrightarrow> Wnode c h \<in> A)"

lemma co_waitersD:
  assumes "co_waiters co A H m"
  shows "Wnode c p \<in> A \<Longrightarrow> p \<in> set (H c)" "a \<in> A \<Longrightarrow> live H a"
    "live H (Wnode c h) \<Longrightarrow> wget m (Wnode c h) = Some x \<Longrightarrow> iw_co x = Some co \<Longrightarrow> Wnode c h \<in> A"
  using assms unfolding co_waiters_def by (fastforce simp: live_def simp del: wget.simps)+

definition suspended :: "(nat \<Rightarrow> nat set) \<Rightarrow> nat \<Rightarrow> wref set \<Rightarrow> sched_mem \<Rightarrow> bool" where
  "suspended Bs co A m \<longleftrightarrow> (\<exists>H. waiters_ok Bs H [] (no_rq, m) \<and> co_waiters co A H m)"

definition others_ok :: "(nat \<Rightarrow> nat set) \<Rightarrow> nat \<Rightarrow> (sched_mem \<Rightarrow> sched_mem) \<Rightarrow> bool" where
  "others_ok Bs co run \<longleftrightarrow> (\<forall>A m. suspended Bs co A m \<longrightarrow> suspended Bs co A (run m))"

lemma suspendedI: "waiters_ok Bs H [] (no_rq, m) \<Longrightarrow> co_waiters co A H m \<Longrightarrow> suspended Bs co A m"
  unfolding suspended_def by blast

lemma others_okD: "others_ok Bs co run \<Longrightarrow> suspended Bs co A m \<Longrightarrow> suspended Bs co A (run m)"
  by (simp add: others_ok_def)

lemma suspended_get: "suspended Bs co A m \<Longrightarrow> Wnode c p \<in> A \<Longrightarrow> \<exists>x. wget m (Wnode c p) = Some x"
  using waiters_okD(4) by (fastforce simp: suspended_def co_waiters_def live_def simp del: wget.simps)

lemma add_co_waiters:
  assumes ok: "waiters_ok Bs H [] (no_rq, m)" "co_waiters co A H m" and w: "iw_tmo w \<noteq> 0" "iw_co w = Some co"
    and room: "length (H core) < card (Bs core)"
  shows "\<exists>p m1. add_waiter core w m = Some (Inr p, m1) \<and> Wnode core p \<notin> A \<and>
     wget m1 (Wnode core p) = Some (w\<lparr>iw_mask := iw_mask w OR UNMASKED_EVENTS\<rparr>) \<and> p \<notin> set (H core) \<and>
     waiters_ok Bs (H(core := H core @ [p])) [] (no_rq, m1) \<and> co_waiters co (insert (Wnode core p) A) (H(core := H core @ [p])) m1"
proof -
  from add_waiters_ok [OF ok(1) w(1) room] obtain p m1 where
    add: "add_waiter core w m = Some (Inr p, m1)" "p \<notin> set (H core)" "waiters_ok Bs (H(core := H core @ [p])) [] (no_rq, m1)"
      "wget m1 (Wnode core p) = Some (w\<lparr>iw_mask := iw_mask w OR UNMASKED_EVENTS\<rparr>)" "\<And>b. live H b \<Longrightarrow> wget m1 b = wget m b" by blast
  have "co_waiters co (insert (Wnode core p) A) (H(core := H core @ [p])) m1"
    unfolding co_waiters_def
  proof (intro conjI allI impI ballI)
    show "\<exists>c q. a = Wnode c q \<and> q \<in> set ((H(core := H core @ [p])) c)" if "a \<in> insert (Wnode core p) A" for a
    proof -
      from that ok(2) obtain c q where "a = Wnode c q" "q \<in> set (H c) \<or> a = Wnode core p" unfolding co_waiters_def by blast
      then show ?thesis by auto
    qed
    fix c h x assume h: "h \<in> set ((H(core := H core @ [p])) c) \<and> wget m1 (Wnode c h) = Some x \<and> iw_co x = Some co"
    show "Wnode c h \<in> insert (Wnode core p) A"
    proof (cases "c = core \<and> h = p")
      case False
      then have "live H (Wnode c h)" using h by (auto simp: live_def split: if_splits)
      with h add(5) co_waitersD(3) [OF ok(2)] show ?thesis by (simp del: wget.simps)
    qed simp
  qed
  moreover have "Wnode core p \<notin> A" using ok(2) add(2) by (auto simp: co_waiters_def live_def)
  ultimately show ?thesis using add by blast
qed

lemma add_co_waiters_room:
  assumes "waiters_ok Bs H [] (no_rq, m)" "co_waiters co A H m" "iw_tmo w \<noteq> 0" "iw_co w = Some co" "length (H core) < card (Bs core)"
  obtains p m1 H1 where "add_waiter core w m = Some (Inr p, m1)" "Wnode core p \<notin> A"
    "wget m1 (Wnode core p) = Some (w\<lparr>iw_mask := iw_mask w OR UNMASKED_EVENTS\<rparr>)" "length (H1 core) = Suc (length (H core))"
    "waiters_ok Bs H1 [] (no_rq, m1)" "co_waiters co (insert (Wnode core p) A) H1 m1"
proof -
  from add_co_waiters [OF assms] obtain p m1 where
    "add_waiter core w m = Some (Inr p, m1)" "Wnode core p \<notin> A" "wget m1 (Wnode core p) = Some (w\<lparr>iw_mask := iw_mask w OR UNMASKED_EVENTS\<rparr>)"
    "waiters_ok Bs (H(core := H core @ [p])) [] (no_rq, m1)" "co_waiters co (insert (Wnode core p) A) (H(core := H core @ [p])) m1" by blast
  from that [OF this(1-3) _ this(4,5)] show thesis by simp
qed

lemma add_suspended:
  assumes "suspended Bs co A m" "iw_tmo w \<noteq> 0" "iw_co w = Some co"
  obtains (added) p m1 where "add_waiter core w m = Some (Inr p, m1)" "Wnode core p \<notin> A" "suspended Bs co (insert (Wnode core p) A) m1"
  | (full) "add_waiter core w m = Some (Inl ENOMEM, m)"
proof -
  from assms(1) obtain H where H: "waiters_ok Bs H [] (no_rq, m)" "co_waiters co A H m" by (auto simp: suspended_def)
  show thesis
  proof (cases "length (H core) < card (Bs core)")
    case True
    from add_co_waiters [OF H assms(2,3) this] show thesis using added suspendedI by blast
  next
    case False
    then have "length (H core) = card (Bs core)" using waiters.hle [OF waiters_okD(1) [OF H(1), of core]] by simp
    from add_waiter_full [OF waiters_okD(1) [OF H(1)] this] show thesis by (rule full)
  qed
qed

lemma remove_suspended:
  assumes "suspended Bs co A m" "Wnode core p \<in> A"
  shows "\<exists>m'. remove_waiter core (Some p) m = Some m' \<and> suspended Bs co (A - {Wnode core p}) m' \<and>
     (\<forall>a \<in> A - {Wnode core p}. wget m' a = wget m a)"
proof -
  from assms(1) obtain H where H: "waiters_ok Bs H [] (no_rq, m)" "co_waiters co A H m" by (auto simp: suspended_def)
  then have p: "p \<in> set (H core)" using assms(2) by (simp add: co_waitersD(1))
  from remove_waiters_ok [OF H(1) p] obtain m' where
    r: "remove_waiter core (Some p) m = Some m'" "waiters_ok Bs (drop_ref (Wnode core p) H) [] (no_rq, m')"
      "\<And>a. live H a \<Longrightarrow> a \<noteq> Wnode core p \<Longrightarrow> wget m' a = wget m a" by auto
  have dist: "distinct (H c)" for c using waiters_okD(1) [OF H(1)] by (simp add: cclist_inv_def)
  have lv: "live (drop_ref (Wnode core p) H) a \<longleftrightarrow> live H a \<and> a \<noteq> Wnode core p" for a using live_drop_ref [OF dist] by auto
  have "co_waiters co (A - {Wnode core p}) (drop_ref (Wnode core p) H) m'"
    unfolding co_waiters_def
  proof (intro conjI allI impI ballI)
    fix c h x assume h: "h \<in> set (drop_ref (Wnode core p) H c) \<and> wget m' (Wnode c h) = Some x \<and> iw_co x = Some co"
    then have "live (drop_ref (Wnode core p) H) (Wnode c h)" by (simp add: live_def)
    with lv have "live H (Wnode c h)" "Wnode c h \<noteq> Wnode core p" by auto
    with h r(3) co_waitersD(3) [OF H(2)] show "Wnode c h \<in> A - {Wnode core p}" by (simp del: wget.simps)
  next
    fix a assume "a \<in> A - {Wnode core p}"
    with H(2) lv [of a] show "\<exists>c q. a = Wnode c q \<and> q \<in> set (drop_ref (Wnode core p) H c)" by (auto simp: co_waiters_def live_def)
  qed
  moreover have "\<forall>a \<in> A - {Wnode core p}. wget m' a = wget m a" using r(3) co_waitersD(2) [OF H(2)] by simp
  ultimately show ?thesis using r(1,2) suspendedI by blast
qed

lemma io_wait_fields [simp]:
  "iw_tmo (io_wait co tmo evs) = tmo" "iw_co (io_wait co tmo evs) = Some co" "iw_mask (io_wait co tmo evs) = evs"
  "iw_events (io_wait co tmo evs) = 0" "iw_revents (io_wait co tmo evs) = 0" "iw_flags (io_wait co tmo evs) = 0"
  "iw_prev (io_wait co tmo evs) = None" "iw_next (io_wait co tmo evs) = None"
  by (simp_all add: io_wait_def)

lemma co_io_wait_ok:
  assumes "suspended Bs co {} m" "\<And>e. others_ok Bs co (run e)" "0 < now"
  shows "\<exists>revents m'. co_io_wait core co now so events msec add_ok run m = Some (revents, m') \<and> suspended Bs co {} m'"
proof -
  let ?w = "io_wait co (if msec < 0 then -1 else now + msec) events"
  have "iw_tmo ?w \<noteq> 0" "iw_co ?w = Some co" using assms(3) by simp_all
  with assms(1) show ?thesis
  proof (cases rule: add_suspended [where core = core])
    case (added p m1)
    let ?e = "\<lparr>rq_head = Some (Wnode core p), rq_tail = None, rq_so = so, rq_type = iowait_io\<rparr>"
    from added(3) others_okD [OF assms(2), of _ m1 ?e] have s: "suspended Bs co {Wnode core p} m1" "suspended Bs co {Wnode core p} (run ?e m1)" by auto
    from suspended_get [OF s(2)] obtain x where "wget (run ?e m1) (Wnode core p) = Some x" by auto
    with remove_suspended [OF s(1), of core p] remove_suspended [OF s(2), of core p] added(1) show ?thesis
      by (auto simp: co_io_wait_def Let_def simp del: wget.simps)
  qed (use assms(1) in \<open>simp add: co_io_wait_def Let_def\<close>)
qed

section \<open>The loops\<close>

definition fd_turns_ok :: "(nat \<Rightarrow> nat set) \<Rightarrow> nat \<Rightarrow> fd_turn list \<Rightarrow> bool" where
  "fd_turns_ok Bs co ts \<longleftrightarrow> (\<forall>t \<in> set ts. 0 < ft_now t \<and> (\<forall>e. others_ok Bs co (ft_run t e)))"

lemma fd_turns_ok_simps [simp]:
  "fd_turns_ok Bs co []"
  "fd_turns_ok Bs co (t # ts) \<longleftrightarrow> 0 < ft_now t \<and> (\<forall>e. others_ok Bs co (ft_run t e)) \<and> fd_turns_ok Bs co ts"
  by (auto simp: fd_turns_ok_def)

lemma turn_wait_ok:
  assumes "suspended Bs co {} m" "fd_turns_ok Bs co (t # ts)"
  obtains revents m' where "turn_wait core co so events msec t m = Some (revents, m')" "suspended Bs co {} m'" "fd_turns_ok Bs co ts"
  using co_io_wait_ok [OF assms(1), of "ft_run t" "ft_now t" core so events msec "ft_add t"] assms(2) by (auto simp: turn_wait_def)

text \<open>The kernel takes at most what it is offered, and delivers no more than it says.\<close>

fun takes_ok :: "nat \<Rightarrow> fd_turn list \<Rightarrow> bool" where
  "takes_ok n [] = True"
| "takes_ok n (t # ts) \<longleftrightarrow> (if ft_ret t > 0 then nat (ft_ret t) \<le> n \<and> takes_ok (n - nat (ft_ret t)) ts else takes_ok n ts)"

definition sent_ok :: "u8 list \<Rightarrow> (nat \<times> u8 list) io_result \<Rightarrow> bool" where
  "sent_ok buf res = (case res of Suspended \<Rightarrow> True | Returned (r, out) \<Rightarrow> out = take r buf \<and> r \<le> length buf)"

lemma write_loop_ok:
  assumes "suspended Bs co {} m" "fd_turns_ok Bs co ts" "takes_ok (length buf - n) ts" "n \<le> length buf"
  shows "\<exists>res m'. write_loop core co so msec stop buf n (take n buf) ts m = Some (res, m') \<and> suspended Bs co {} m' \<and> sent_ok buf res"
  using assms
proof (induction ts arbitrary: n m)
  case (Cons t ts)
  obtain revents m1 where w: "turn_wait core co so EPOLLOUT (msec t) t m = Some (revents, m1)" "suspended Bs co {} m1"
    and ts: "fd_turns_ok Bs co ts" by (rule turn_wait_ok [OF Cons.prems(1,2)])
  consider "\<not> n < length buf" | (sent) "n < length buf" "ft_ret t > 0" | (again) "n < length buf" "\<not> ft_ret t > 0" by blast
  then show ?case
  proof cases
    case sent
    have "take n buf @ take (nat (ft_ret t)) (drop n buf) = take (n + nat (ft_ret t)) buf" by (simp add: take_add)
    moreover have "n + nat (ft_ret t) \<le> length buf" using Cons.prems(3) sent by auto
    ultimately show ?thesis using Cons.IH [OF Cons.prems(1) ts, of "n + nat (ft_ret t)"] Cons.prems(3) sent by (simp add: diff_diff_left)
  next
    case again
    with Cons.IH [OF w(2) ts _ Cons.prems(4)] Cons.prems w show ?thesis by (simp add: sent_ok_def)
  qed (use Cons.prems in \<open>simp add: sent_ok_def\<close>)
qed (simp add: sent_ok_def)

text \<open>A result is what one of the system calls returned.\<close>

definition from_turn :: "fd_turn list \<Rightarrow> (int \<times> errno \<times> u8 list) io_result \<Rightarrow> bool" where
  "from_turn ts res =
     (case res of Suspended \<Rightarrow> True | Returned r \<Rightarrow> \<exists>t \<in> set ts. r = (ft_ret t, ft_err t, take (nat (ft_ret t)) (ft_bytes t)))"

lemma from_turn_Cons: "from_turn ts res \<Longrightarrow> from_turn (t # ts) res"
  by (auto simp: from_turn_def split: io_result.splits)

lemma read_loop_ok:
  assumes "suspended Bs co {} m" "fd_turns_ok Bs co ts"
  shows "\<exists>res m'. read_loop core co so msec ts m = Some (res, m') \<and> suspended Bs co {} m' \<and> from_turn ts res"
  using assms
proof (induction ts arbitrary: m)
  case (Cons t ts)
  obtain revents m1 where w: "turn_wait core co so EPOLLIN (msec t) t m = Some (revents, m1)" "suspended Bs co {} m1"
    and ts: "fd_turns_ok Bs co ts" by (rule turn_wait_ok [OF Cons.prems])
  show ?case
  proof (cases "ft_ret t < 0 \<and> ft_err t = EAGAIN \<and> revents AND EPOLLIN \<noteq> 0")
    case True
    with Cons.IH [OF w(2) ts] w(1) from_turn_Cons show ?thesis by fastforce
  qed (use w Cons.prems(1) in \<open>auto simp: from_turn_def\<close>)
qed (simp add: from_turn_def)

lemma co_accept_ok:
  assumes "suspended Bs co {} m" "fd_turns_ok Bs co ts"
  shows "\<exists>res m'. co_accept core co so ts m = Some (res, m') \<and> suspended Bs co {} m'"
  using assms
proof (induction ts arbitrary: m)
  case (Cons t ts)
  obtain revents m1 where "turn_wait core co so EPOLLIN (-1) t m = Some (revents, m1)" "suspended Bs co {} m1" "fd_turns_ok Bs co ts"
    by (rule turn_wait_ok [OF Cons.prems])
  with Cons.IH [of m1] Cons.prems(1) show ?case by simp
qed simp

lemma co_connect_loop_ok:
  assumes "suspended Bs co {} m" "fd_turns_ok Bs co ts"
  shows "\<exists>res m'. co_connect_loop core co so soerr ts m = Some (res, m') \<and> suspended Bs co {} m'"
  using assms
proof (induction ts arbitrary: m)
  case (Cons t ts)
  obtain revents m1 where "turn_wait core co so EPOLLOUT (-1) t m = Some (revents, m1)" "suspended Bs co {} m1" "fd_turns_ok Bs co ts"
    by (rule turn_wait_ok [OF Cons.prems])
  with Cons.IH [of m1] show ?case by simp
qed simp

section \<open>Events and time\<close>

text \<open>Changes of waiters in place keep what is known of the waiters of a coroutine.\<close>

lemma co_waiters_in_place:
  assumes "waiters_ok Bs H qs (e, m)" "co_waiters co A H m"
    and "\<And>a x. wget m a = Some x \<Longrightarrow> \<exists>y. wget m' a = Some y \<and> iw_co y = iw_co x"
  shows "co_waiters co A H m'"
  unfolding co_waiters_def
proof (intro conjI allI impI)
  fix c h y assume h: "h \<in> set (H c) \<and> wget m' (Wnode c h) = Some y \<and> iw_co y = Some co"
  then obtain x where "wget m (Wnode c h) = Some x" using waiters_okD(4) [OF assms(1)] by blast
  with assms(3) [OF this] h co_waitersD(3) [OF assms(2)] show "Wnode c h \<in> A" by (simp add: live_def del: wget.simps)
qed (use assms(2) in \<open>simp add: co_waiters_def\<close>)

lemma visited_fields [simp]:
  "iw_prev (visited ct x) = iw_prev x" "iw_next (visited ct x) = iw_next x" "iw_tmo (visited ct x) = iw_tmo x"
  "iw_co (visited ct x) = iw_co x" "iw_mask (visited ct x) = iw_mask x"
  by (simp_all add: visited_def)

lemma walk_core:
  assumes ok: "waiters_ok Bs H [] (no_rq, m)" and cw: "co_waiters co A H m" and max: "length (H core) < ccmax"
  shows "\<exists>cc tmo m'. walk_waiters_list core ct ccmax m = Some (cc, tmo, m') \<and> waiters_ok Bs H [] (no_rq, m') \<and> co_waiters co A H m' \<and>
     (\<forall>h \<in> set (H core). wget m' (Wnode core h) = map_option (visited ct) (wget m (Wnode core h))) \<and>
     (\<forall>k. k \<in> set cc \<longleftrightarrow> (\<exists>h \<in> set (H core). \<exists>x. wget m (Wnode core h) = Some x \<and> due ct x \<and> iw_co x = Some k)) \<and>
     (\<forall>h \<in> set (H core). \<forall>x d. wget m (Wnode core h) = Some x \<and> remaining ct x = Some d \<longrightarrow> tmo \<le> d)"
proof -
  let ?ws = "map (\<lambda>h. the (wget m (Wnode core h))) (H core)"
  have ex: "\<exists>x. wget m (Wnode core h) = Some x \<and> iw_tmo x \<noteq> 0" if "h \<in> set (H core)" for h using waiters_okD(4) [OF ok that] .
  then have items: "map (\<lambda>h. wget m (Wnode core h)) (H core) = map Some ?ws" "\<forall>x \<in> set ?ws. iw_tmo x \<noteq> 0"
    by (force simp del: wget.simps)+
  have data: "\<forall>co. \<not> sm_data m co" using waiters_okD(5) [OF ok] by simp
  from walk_waiters_list_helper [OF waiters_okD(1) [OF ok] items data, of ccmax ct] max obtain cc tmo m' where
    w: "walk_waiters_list core ct ccmax m = Some (cc, tmo, m')" "distinct cc" "set cc \<subseteq> due_cos ct ?ws"
      "length cc < ccmax \<longrightarrow> set cc = due_cos ct ?ws \<and> map (\<lambda>h. wget m' (Wnode core h)) (H core) = map (\<lambda>w. Some (visited ct w)) ?ws \<and>
        (\<forall>x. x \<le> tmo \<longleftrightarrow> x \<le> int_max \<and> (\<forall>w \<in> set ?ws. \<forall>d. remaining ct w = Some d \<longrightarrow> x \<le> d))" by auto
  have "due_cos ct ?ws \<subseteq> (\<lambda>x. the (iw_co x)) ` set ?ws" by (force simp: due_cos_def)
  then have "card (set cc) \<le> card ((\<lambda>x. the (iw_co x)) ` set ?ws)" using w(3) by (intro card_mono) auto
  also have "\<dots> \<le> length ?ws" by (meson List.finite_set card_image_le card_length le_trans)
  finally have "length cc < ccmax" using w(2) max by (simp add: distinct_card)
  with w(4) have due: "set cc = due_cos ct ?ws" and vis: "map (\<lambda>h. wget m' (Wnode core h)) (H core) = map (\<lambda>w. Some (visited ct w)) ?ws"
    and tmo: "\<forall>w \<in> set ?ws. \<forall>d. remaining ct w = Some d \<longrightarrow> tmo \<le> d" by blast+
  from max have "0 < ccmax" by simp
  note fr = walk_waiters_list_frame [OF waiters_okD(1) [OF ok] items data this w(1)]
  have upd: "\<exists>y. wget m' a = Some y \<and> iw_prev y = iw_prev x \<and> iw_next y = iw_next x \<and> iw_tmo y = iw_tmo x \<and> iw_co y = iw_co x"
    if "wget m a = Some x" for a x
    using fr(1) that by (metis visited_fields(1-4))
  have "waiters_ok Bs H [] (no_rq, m')"
    by (rule waiters_ok_in_place [OF ok]) (use upd fr(2,3) in \<open>metis | simp\<close>)+
  moreover have "co_waiters co A H m'" by (rule co_waiters_in_place [OF ok cw]) (use upd in metis)
  moreover have "\<forall>h \<in> set (H core). wget m' (Wnode core h) = map_option (visited ct) (wget m (Wnode core h))"
  proof
    fix h assume h: "h \<in> set (H core)"
    with vis have "wget m' (Wnode core h) = Some (visited ct (the (wget m (Wnode core h))))" by (auto simp del: wget.simps)
    with ex [OF h] show "wget m' (Wnode core h) = map_option (visited ct) (wget m (Wnode core h))" by (auto simp del: wget.simps)
  qed
  moreover have "k \<in> set cc \<longleftrightarrow> (\<exists>h \<in> set (H core). \<exists>x. wget m (Wnode core h) = Some x \<and> due ct x \<and> iw_co x = Some k)" for k
    unfolding due due_cos_def using ex by (force simp del: wget.simps)
  moreover have "\<forall>h \<in> set (H core). \<forall>x d. wget m (Wnode core h) = Some x \<and> remaining ct x = Some d \<longrightarrow> tmo \<le> d"
    using tmo by (fastforce simp del: wget.simps)
  ultimately show ?thesis using w(1) by blast
qed

lemma walk_single:
  assumes "waiters_ok Bs H [] (no_rq, m)" "co_waiters co {Wnode core p} H m" "length (H core) < ccmax"
    and x: "wget m (Wnode core p) = Some x" "iw_co x = Some co"
  shows "\<exists>cc tmo m'. walk_waiters_list core ct ccmax m = Some (cc, tmo, m') \<and> waiters_ok Bs H [] (no_rq, m') \<and> co_waiters co {Wnode core p} H m' \<and>
     wget m' (Wnode core p) = Some (visited ct x) \<and> (co \<in> set cc \<longleftrightarrow> due ct x) \<and> (\<forall>d. remaining ct x = Some d \<longrightarrow> tmo \<le> d)"
proof -
  from walk_core [OF assms(1-3), of ct] obtain cc tmo m' where
    w: "walk_waiters_list core ct ccmax m = Some (cc, tmo, m')" "waiters_ok Bs H [] (no_rq, m')" "co_waiters co {Wnode core p} H m'"
      "\<forall>h \<in> set (H core). wget m' (Wnode core h) = map_option (visited ct) (wget m (Wnode core h))"
      "co \<in> set cc \<longleftrightarrow> (\<exists>h \<in> set (H core). \<exists>x. wget m (Wnode core h) = Some x \<and> due ct x \<and> iw_co x = Some co)"
      "\<forall>h \<in> set (H core). \<forall>x d. wget m (Wnode core h) = Some x \<and> remaining ct x = Some d \<longrightarrow> tmo \<le> d" by blast
  have p: "p \<in> set (H core)" using co_waitersD(1) [OF assms(2)] by simp
  have "h = p" if "h \<in> set (H core)" "wget m (Wnode core h) = Some y" "iw_co y = Some co" for h y
    using co_waitersD(3) [OF assms(2), of core h y] that by (simp add: live_def del: wget.simps)
  then have "co \<in> set cc \<longleftrightarrow> due ct x" using w(5) p x by (metis option.inject)
  with w(1-4,6) p x show ?thesis by (auto simp del: wget.simps)
qed

text \<open>The request of \<open>co_io_wait\<close>, and an event for it.\<close>

definition wait_rq :: "wref \<Rightarrow> int \<Rightarrow> iorq" where
  "wait_rq a so = \<lparr>rq_head = Some a, rq_tail = None, rq_so = so, rq_type = iowait_io\<rparr>"

lemma event_single:
  assumes ok: "waiters_ok Bs H [] (no_rq, m)" and cw: "co_waiters co A H m" and x: "wget m a = Some x" "iw_prev x = None" "iw_next x = None"
  shows "\<exists>m'. epoll_listener_event (wait_rq a so) ev m = Some (runnable ev x, m') \<and> waiters_ok Bs H [] (no_rq, m') \<and> co_waiters co A H m' \<and>
     wget m' a = Some (iw_events_update (\<lambda>v. v OR ev) x)"
proof -
  have "wseg (wget m) None (Some a) [a] (Some a) None" using x by simp
  from deliver_loop_ok [OF this, of ev 0] obtain n m' where
    d: "deliver_loop ev (Some a) 0 m = Some (n, m')"
      "\<forall>b. wget m' b = (if b = a then map_option (iw_events_update (\<lambda>v. v OR ev)) (wget m b) else wget m b)"
      "n = 0 \<longleftrightarrow> \<not> runnable ev x" "sm_data m' = sm_data m"
      "\<forall>B c hs. cclist_inv B (sm_waiters m' c) hs = cclist_inv B (sm_waiters m c) hs" using x(1) by auto
  have "waiters_ok Bs H [] (no_rq, m')"
    by (rule waiters_ok_in_place [OF ok]) (use d(2,4,5) waiters_okD(5) [OF ok] in \<open>auto simp del: wget.simps\<close>)
  moreover have "co_waiters co A H m'" by (rule co_waiters_in_place [OF ok cw]) (use d(2) in \<open>auto simp del: wget.simps\<close>)
  moreover have "wget m' a = Some (iw_events_update (\<lambda>v. v OR ev) x)" using d(2) x(1) by simp
  moreover have "epoll_listener_event (wait_rq a so) ev m = Some (n \<noteq> 0, m')" using d(1) by (simp add: epoll_listener_event_def wait_rq_def)
  ultimately show ?thesis using d(3) by auto
qed

lemma co_io_wait_run:
  assumes "add_waiter core (io_wait co (if msec < 0 then -1 else now + msec) events) m = Some (Inr p, m1)"
    and "waiters_ok Bs H [] (no_rq, run (wait_rq (Wnode core p) so) m1)" "co_waiters co {Wnode core p} H (run (wait_rq (Wnode core p) so) m1)"
    and "wget (run (wait_rq (Wnode core p) so) m1) (Wnode core p) = Some x"
  shows "\<exists>m'. co_io_wait core co now so events msec True run m = Some (iw_revents x, m') \<and> suspended Bs co {} m'"
  using remove_suspended [OF suspendedI [OF assms(2,3)], of core p] assms(1,4)
  by (auto simp: co_io_wait_def Let_def wait_rq_def simp del: wget.simps)

section \<open>Properties\<close>

text \<open>C26. Waiting for a descriptor: while a coroutine is in \<open>co_io_wait\<close>, an event it asked for (or an error or
  hangup) wakes the cores, the next walk of its core resumes the coroutine, and the call returns
  exactly that event. Without an event the walk resumes it exactly when its time limit has passed,
  and the call returns no event then. In both cases its waiter is gone afterwards.\<close>

theorem co_io_wait_outcome:
  assumes "waiters_ok Bs H [] (no_rq, m)" "co_waiters co {} H m" "length (H core) < card (Bs core)" "Suc (length (H core)) < ccmax" "0 < now"
  shows "\<exists>p m1. add_waiter core (io_wait co (if msec < 0 then -1 else now + msec) events) m = Some (Inr p, m1) \<and>
     (ev AND (events OR UNMASKED_EVENTS) \<noteq> 0 \<longrightarrow>
       (\<exists>m2 cc tmo m3. epoll_listener_event (wait_rq (Wnode core p) so) ev m1 = Some (True, m2) \<and>
          walk_waiters_list core ct ccmax m2 = Some (cc, tmo, m3) \<and> co \<in> set cc \<and>
          (\<exists>m'. co_io_wait core co now so events msec True (\<lambda>_ _. m3) m = Some (ev, m') \<and> suspended Bs co {} m'))) \<and>
     (\<exists>cc tmo m3. walk_waiters_list core ct ccmax m1 = Some (cc, tmo, m3) \<and> (co \<in> set cc \<longleftrightarrow> 0 \<le> msec \<and> now + msec \<le> ct) \<and>
        (\<exists>m'. co_io_wait core co now so events msec True (\<lambda>_ _. m3) m = Some (0, m') \<and> suspended Bs co {} m'))"
proof -
  let ?w = "io_wait co (if msec < 0 then -1 else now + msec) events"
  let ?x = "?w\<lparr>iw_mask := iw_mask ?w OR UNMASKED_EVENTS\<rparr>"
  have "iw_tmo ?w \<noteq> 0" "iw_co ?w = Some co" using assms(5) by simp_all
  then obtain p m1 H1 where
    add: "add_waiter core ?w m = Some (Inr p, m1)" "wget m1 (Wnode core p) = Some ?x"
      "waiters_ok Bs H1 [] (no_rq, m1)" "co_waiters co {Wnode core p} H1 m1" and H1: "length (H1 core) = Suc (length (H core))"
    by (rule add_co_waiters_room [OF assms(1,2) _ _ assms(3)])
  have len: "length (H1 core) < ccmax" using H1 assms(4) by simp
  have event: "\<exists>m2 cc tmo m3. epoll_listener_event (wait_rq (Wnode core p) so) ev m1 = Some (True, m2) \<and>
      walk_waiters_list core ct ccmax m2 = Some (cc, tmo, m3) \<and> co \<in> set cc \<and>
      (\<exists>m'. co_io_wait core co now so events msec True (\<lambda>_ _. m3) m = Some (ev, m') \<and> suspended Bs co {} m')"
    if ev: "ev AND (events OR UNMASKED_EVENTS) \<noteq> 0"
  proof -
    have run: "runnable ev ?x" using ev by (simp add: runnable_def)
    from event_single [OF add(3,4,2), of so ev] obtain m2 where
      m2: "epoll_listener_event (wait_rq (Wnode core p) so) ev m1 = Some (True, m2)" "waiters_ok Bs H1 [] (no_rq, m2)"
        "co_waiters co {Wnode core p} H1 m2" "wget m2 (Wnode core p) = Some (iw_events_update (\<lambda>v. v OR ev) ?x)"
      using run by (auto simp del: wget.simps)
    have due: "due ct (iw_events_update (\<lambda>v. v OR ev) ?x)" "iw_events (iw_events_update (\<lambda>v. v OR ev) ?x) = ev"
      using ev by (simp_all add: due_def yielding_def)
    from walk_single [OF m2(2,3) len m2(4), of ct] due(1) obtain cc tmo m3 where
      m3: "walk_waiters_list core ct ccmax m2 = Some (cc, tmo, m3)" "waiters_ok Bs H1 [] (no_rq, m3)"
        "co_waiters co {Wnode core p} H1 m3"
        "wget m3 (Wnode core p) = Some (visited ct (iw_events_update (\<lambda>v. v OR ev) ?x))" "co \<in> set cc" by (auto simp del: wget.simps)
    have "iw_revents (visited ct (iw_events_update (\<lambda>v. v OR ev) ?x)) = ev" using due by (simp add: visited_def due_def)
    with co_io_wait_run [OF add(1), of Bs _ "\<lambda>_ _. m3" so] m3(2-4) m2(1) m3(1,5) show ?thesis by metis
  qed
  from walk_single [OF add(3,4) len add(2), of ct] obtain cc tmo m3 where
    m3: "walk_waiters_list core ct ccmax m1 = Some (cc, tmo, m3)" "waiters_ok Bs H1 [] (no_rq, m3)"
      "co_waiters co {Wnode core p} H1 m3" "wget m3 (Wnode core p) = Some (visited ct ?x)" "co \<in> set cc \<longleftrightarrow> due ct ?x" by (auto simp del: wget.simps)
  have "iw_revents (visited ct ?x) = 0" "due ct ?x \<longleftrightarrow> 0 \<le> msec \<and> now + msec \<le> ct" using assms(5) by (auto simp: visited_def due_def yielding_def)
  with co_io_wait_run [OF add(1), of Bs _ "\<lambda>_ _. m3" so] m3 have
    "\<exists>cc tmo m3. walk_waiters_list core ct ccmax m1 = Some (cc, tmo, m3) \<and> (co \<in> set cc \<longleftrightarrow> 0 \<le> msec \<and> now + msec \<le> ct) \<and>
        (\<exists>m'. co_io_wait core co now so events msec True (\<lambda>_ _. m3) m = Some (0, m') \<and> suspended Bs co {} m')" by metis
  with add(1) event show ?thesis by blast
qed

text \<open>C27. Sleeping: the walk of the core resumes a coroutine in \<open>co_sleep\<close> exactly when its time has passed, and the
  core never sleeps past that time. A coroutine that yields is left out of one walk, after which the
  core does not sleep at all, and resumed by the next one. \<open>co_sleep\<close> leaves no waiter behind.\<close>

theorem co_sleep_wakes:
  assumes "waiters_ok Bs H [] (no_rq, m)" "co_waiters co {} H m" "length (H core) < card (Bs core)" "Suc (length (H core)) < ccmax" "0 < now" "now \<le> ct"
  shows "\<exists>p m1 cc tmo m2 m3. add_waiter core (sleep_waiter co now msec) m = Some (Inr p, m1) \<and>
     walk_waiters_list core ct ccmax m1 = Some (cc, tmo, m2) \<and> co_sleep core co now msec (\<lambda>_. m2) m = Some m3 \<and> suspended Bs co {} m3 \<and>
     (if msec = 0
      then co \<notin> set cc \<and> tmo \<le> 0 \<and> (\<exists>cc' tmo' m4. walk_waiters_list core ct ccmax m2 = Some (cc', tmo', m4) \<and> co \<in> set cc')
      else (co \<in> set cc \<longleftrightarrow> now + uint msec \<le> ct) \<and> (co \<notin> set cc \<longrightarrow> tmo \<le> now + uint msec - ct))"
proof -
  let ?w = "sleep_waiter co now msec"
  let ?x = "?w\<lparr>iw_mask := iw_mask ?w OR UNMASKED_EVENTS\<rparr>"
  have tmo: "0 < now + uint msec" using assms(5) by (simp add: add_pos_nonneg)
  then have "iw_tmo ?w \<noteq> 0" "iw_co ?w = Some co" by (simp_all add: sleep_waiter_def)
  then obtain p m1 H1 where
    add: "add_waiter core ?w m = Some (Inr p, m1)" "wget m1 (Wnode core p) = Some ?x"
      "waiters_ok Bs H1 [] (no_rq, m1)" "co_waiters co {Wnode core p} H1 m1" and H1: "length (H1 core) = Suc (length (H core))"
    by (rule add_co_waiters_room [OF assms(1,2) _ _ assms(3)])
  have len: "length (H1 core) < ccmax" using H1 assms(4) by simp
  have x: "iw_co ?x = Some co" "iw_tmo ?x = now + uint msec" "iw_flags ?x = (if msec = 0 then CO_YIELD else 0)" "iw_events ?x = 0"
    by (simp_all add: sleep_waiter_def)
  from walk_single [OF add(3,4) len add(2), of ct] obtain cc t m2 where
    m2: "walk_waiters_list core ct ccmax m1 = Some (cc, t, m2)" "waiters_ok Bs H1 [] (no_rq, m2)" "co_waiters co {Wnode core p} H1 m2"
      "wget m2 (Wnode core p) = Some (visited ct ?x)" "co \<in> set cc \<longleftrightarrow> due ct ?x" "\<forall>d. remaining ct ?x = Some d \<longrightarrow> t \<le> d"
    using x(1) by blast
  from remove_suspended [OF suspendedI [OF m2(2,3)], of core p] add(1) obtain m3 where
    m3: "co_sleep core co now msec (\<lambda>_. m2) m = Some m3" "suspended Bs co {} m3" by (auto simp: co_sleep_def)
  have "if msec = 0
      then co \<notin> set cc \<and> t \<le> 0 \<and> (\<exists>cc' tmo' m4. walk_waiters_list core ct ccmax m2 = Some (cc', tmo', m4) \<and> co \<in> set cc')
      else (co \<in> set cc \<longleftrightarrow> now + uint msec \<le> ct) \<and> (co \<notin> set cc \<longrightarrow> t \<le> now + uint msec - ct)"
  proof (cases "msec = 0")
    case True
    then have y: "yielding ?x" using x by (simp add: yielding_def CO_YIELD_def)
    then have "due ct (visited ct ?x)" using x True assms(5,6) by (simp add: visited_def due_def yielding_def CO_YIELD_def)
    with walk_single [OF m2(2,3) len m2(4), of ct] x(1) have
      "\<exists>cc' tmo' m4. walk_waiters_list core ct ccmax m2 = Some (cc', tmo', m4) \<and> co \<in> set cc'" by (metis visited_fields(4))
    with True y m2(5,6) show ?thesis by (simp add: due_def remaining_def)
  next
    case False
    then have "\<not> yielding ?x" using x by (simp add: yielding_def)
    with False m2(5,6) x tmo show ?thesis by (auto simp: due_def remaining_def)
  qed
  with add(1) m2(1) m3 show ?thesis by blast
qed

text \<open>Sending and writing: the bytes that \<open>co_send\<close> and \<open>co_write\<close> hand to the kernel are the first ones of the
  buffer in order, as many as the result says; and whatever others do in the meantime, no waiter of
  the coroutine is left in any list.\<close>

theorem co_send_write_prefix:
  assumes "suspended Bs co {} m" "fd_turns_ok Bs co ts" "takes_ok (length buf) ts"
  shows "(\<exists>res m'. co_send core co so buf ts m = Some (res, m') \<and> suspended Bs co {} m' \<and>
       (\<forall>n out. res = Returned (n, out) \<longrightarrow> out = take n buf \<and> n \<le> length buf)) \<and>
     (\<exists>res m'. co_write core co so buf ts m = Some (res, m') \<and> suspended Bs co {} m' \<and>
       (\<forall>n out. res = Returned (n, out) \<longrightarrow> out = take n buf \<and> n \<le> length buf))"
  using write_loop_ok [OF assms(1,2), of buf 0] assms(3) by (fastforce simp: co_send_def co_write_def sent_ok_def)

text \<open>
  Receiving: the result is that of a system call. A receive that runs out of time reports the pending
  error of the socket, which is none at all for a healthy connection.
\<close>

lemma co_recv_result:
  assumes "suspended Bs co {} m" "fd_turns_ok Bs co ts"
  shows "\<exists>res m'. co_recv core co so soerr ts m = Some (res, m') \<and> suspended Bs co {} m' \<and>
     (\<forall>sz err bs. res = Returned (sz, err, bs) \<longrightarrow>
        (\<exists>t \<in> set ts. sz = ft_ret t \<and> err = recv_errno soerr sz (ft_err t) \<and> bs = take (nat sz) (ft_bytes t)))"
proof -
  from read_loop_ok [OF assms] obtain res m' where
    r: "read_loop core co so (\<lambda>t. ft_tmo t * 1000) ts m = Some (res, m')" "suspended Bs co {} m'" "from_turn ts res" by blast
  then show ?thesis by (cases res) (auto simp: co_recv_def with_recv_errno_def from_turn_def)
qed

lemma co_recv_timeout_errno:
  assumes "ft_ret t < 0" "ft_err t = EAGAIN" "turn_wait core co so EPOLLIN (ft_tmo t * 1000) t m = Some (0, m')"
  shows "co_recv core co so EOK [t] m = Some (Returned (ft_ret t, EOK, []), m')"
  using assms by (simp add: co_recv_def with_recv_errno_def recv_errno_def)

section \<open>Polling\<close>

definition poll_nodes :: "nat \<Rightarrow> (iorq \<times> nat) list \<Rightarrow> wref set" where
  "poll_nodes core c = (\<lambda>(e, p). Wnode core p) ` set c"

lemma poll_nodes_simps [simp]: "poll_nodes core [] = {}" "poll_nodes core ((e, p) # c) = insert (Wnode core p) (poll_nodes core c)"
  by (simp_all add: poll_nodes_def)

lemma poll_nodes_iff: "Wnode core p \<in> poll_nodes core c \<longleftrightarrow> p \<in> snd ` set c"
  by (force simp: poll_nodes_def)

lemma poll_enter_ok:
  assumes "waiters_ok Bs H [] (no_rq, m)" "co_waiters co A H m" "length (H core) + length fs \<le> card (Bs core)" "tmo \<noteq> 0" "\<forall>f \<in> set fs. snd f"
  shows "\<exists>c m' H'. poll_enter core co tmo fs m = Some (c, m') \<and> waiters_ok Bs H' [] (no_rq, m') \<and> co_waiters co (A \<union> poll_nodes core c) H' m' \<and>
     length c = length fs \<and> distinct (map snd c) \<and> poll_nodes core c \<inter> A = {} \<and> (\<forall>(e, _) \<in> set c. rq_type e = iowait_io)"
  using assms
proof (induction fs arbitrary: m H A)
  case (Cons fb fs)
  obtain f where fb: "fb = (f, True)" using Cons.prems(5) by (cases fb) auto
  have "iw_tmo (io_wait co tmo (poll_mask f)) \<noteq> 0" "iw_co (io_wait co tmo (poll_mask f)) = Some co" "length (H core) < card (Bs core)"
    using Cons.prems(3,4) by simp_all
  then obtain p m1 H1 where
    add: "add_waiter core (io_wait co tmo (poll_mask f)) m = Some (Inr p, m1)" "Wnode core p \<notin> A" "length (H1 core) = Suc (length (H core))"
      "waiters_ok Bs H1 [] (no_rq, m1)" "co_waiters co (insert (Wnode core p) A) H1 m1"
    by (rule add_co_waiters_room [OF Cons.prems(1,2)])
  from Cons.IH [OF add(4,5)] add(3) Cons.prems(3-5) obtain c m' H' where
    c: "poll_enter core co tmo fs m1 = Some (c, m')" "waiters_ok Bs H' [] (no_rq, m')" "co_waiters co (insert (Wnode core p) A \<union> poll_nodes core c) H' m'"
      "length c = length fs" "distinct (map snd c)" "poll_nodes core c \<inter> insert (Wnode core p) A = {}" "\<forall>(e, _) \<in> set c. rq_type e = iowait_io"
    by auto
  have "p \<notin> snd ` set c" using c(6) poll_nodes_iff by blast
  with c add(1,2) fb show ?case by (auto simp: Let_def)
qed auto

text \<open>What the second loop makes of a descriptor.\<close>

definition polled :: "nat \<Rightarrow> sched_mem \<Rightarrow> pollfd \<Rightarrow> iorq \<times> nat \<Rightarrow> pollfd" where
  "polled core m f = (\<lambda>(e, p). f\<lparr>pfd_revents := poll_revents f (iw_revents (the (wget m (Wnode core p))))\<rparr>)"

lemma poll_leave_ok:
  assumes "suspended Bs co (poll_nodes core c) m" "distinct (map snd c)" "length fs = length c" "\<forall>(e, _) \<in> set c. rq_type e = iowait_io"
  shows "\<exists>m'. poll_leave core fs c m = Some (length (filter (\<lambda>f. pfd_revents f \<noteq> 0) (map2 (polled core m) fs c)), map2 (polled core m) fs c, m') \<and>
     suspended Bs co {} m'"
  using assms
proof (induction c arbitrary: fs m)
  case (Cons ep c)
  obtain e p where ep: "ep = (e, p)" by force
  from Cons.prems(3) obtain f fs' where fs: "fs = f # fs'" "length fs' = length c" by (cases fs) auto
  from Cons.prems(2) ep have p: "p \<notin> snd ` set c" by auto
  from Cons.prems(1) ep have s: "suspended Bs co (insert (Wnode core p) (poll_nodes core c)) m" by simp
  from suspended_get [OF s] obtain x where x: "wget m (Wnode core p) = Some x" by blast
  have "insert (Wnode core p) (poll_nodes core c) - {Wnode core p} = poll_nodes core c" using p poll_nodes_iff [of core p c] by auto
  with remove_suspended [OF s, of core p] obtain m1 where
    m1: "remove_waiter core (Some p) m = Some m1" "suspended Bs co (poll_nodes core c) m1" "\<forall>a \<in> poll_nodes core c. wget m1 a = wget m a" by auto
  have "map2 (polled core m1) fs' c = map2 (polled core m) fs' c"
    using m1(3) by (auto simp: polled_def poll_nodes_def dest!: set_zip_rightD simp del: wget.simps)
  with Cons.IH [OF m1(2) _ fs(2)] Cons.prems(2,4) ep obtain m' where
    IH: "poll_leave core fs' c m1 = Some (length (filter (\<lambda>f. pfd_revents f \<noteq> 0) (map2 (polled core m) fs' c)), map2 (polled core m) fs' c, m')"
      "suspended Bs co {} m'" by auto
  have "polled core m f (e, p) = f\<lparr>pfd_revents := poll_revents f (iw_revents x)\<rparr>" using x by (simp add: polled_def)
  with IH Cons.prems(4) ep x m1(1) fs(1) show ?case by (simp add: Let_def del: wget.simps filter_map)
qed simp

lemma poll_revents_bits:
  "poll_revents f ev AND POLLIN \<noteq> 0 \<longleftrightarrow> pfd_events f AND POLLIN \<noteq> 0 \<and> ev AND EPOLLIN \<noteq> 0"
  "poll_revents f ev AND POLLOUT \<noteq> 0 \<longleftrightarrow> pfd_events f AND POLLOUT \<noteq> 0 \<and> ev AND EPOLLOUT \<noteq> 0"
  "poll_revents f ev AND POLLERR \<noteq> 0 \<longleftrightarrow> ev AND EPOLLERR \<noteq> 0"
  "poll_revents f ev AND NOT (POLLIN OR POLLOUT OR POLLERR) = 0"
  by (simp_all add: poll_revents_def POLLIN_def POLLOUT_def POLLERR_def)

text \<open>Polling: with room for its waiters and descriptors that can be registered, \<open>co_poll\<close> reports for each
  descriptor exactly the requested directions and the errors that its waiter has seen, returns the
  number of descriptors with something to report, and leaves no waiter behind.\<close>

theorem co_poll_result:
  assumes "waiters_ok Bs H [] (no_rq, m)" "co_waiters co {} H m" "length (H core) + length fds \<le> card (Bs core)" "0 < now"
    and "\<forall>f \<in> set fds. snd f" "\<forall>c. others_ok Bs co (run c)"
  shows "\<exists>c m1 n fds' m'. poll_enter core co (deadline now timeout) fds m = Some (c, m1) \<and> length c = length fds \<and>
     co_poll core co now fds timeout run m = Some (n, fds', m') \<and> suspended Bs co {} m' \<and> length fds' = length fds \<and>
     n = length (filter (\<lambda>f. pfd_revents f \<noteq> 0) fds') \<and>
     (\<forall>i < length fds. \<exists>x. wget (run c m1) (Wnode core (snd (c ! i))) = Some x \<and> pfd_fd (fds' ! i) = pfd_fd (fst (fds ! i)) \<and>
        (pfd_revents (fds' ! i) AND POLLIN \<noteq> 0 \<longleftrightarrow> pfd_events (fst (fds ! i)) AND POLLIN \<noteq> 0 \<and> iw_revents x AND EPOLLIN \<noteq> 0) \<and>
        (pfd_revents (fds' ! i) AND POLLOUT \<noteq> 0 \<longleftrightarrow> pfd_events (fst (fds ! i)) AND POLLOUT \<noteq> 0 \<and> iw_revents x AND EPOLLOUT \<noteq> 0) \<and>
        (pfd_revents (fds' ! i) AND POLLERR \<noteq> 0 \<longleftrightarrow> iw_revents x AND EPOLLERR \<noteq> 0) \<and>
        pfd_revents (fds' ! i) AND NOT (POLLIN OR POLLOUT OR POLLERR) = 0)"
proof -
  have "deadline now timeout \<noteq> 0" using assms(4) by (simp add: deadline_def)
  from poll_enter_ok [OF assms(1-3) this assms(5)] obtain c m1 H1 where
    c: "poll_enter core co (deadline now timeout) fds m = Some (c, m1)" "waiters_ok Bs H1 [] (no_rq, m1)" "co_waiters co (poll_nodes core c) H1 m1"
      "length c = length fds" "distinct (map snd c)" "\<forall>(e, _) \<in> set c. rq_type e = iowait_io" by auto
  let ?m = "run c m1"
  let ?fds = "map2 (polled core ?m) (map fst fds) c"
  have s: "suspended Bs co (poll_nodes core c) ?m" using suspendedI [OF c(2,3)] assms(6) by (simp add: others_ok_def)
  from poll_leave_ok [OF s c(5) _ c(6), of "map fst fds"] c(4) obtain m' where
    m': "poll_leave core (map fst fds) c ?m = Some (length (filter (\<lambda>f. pfd_revents f \<noteq> 0) ?fds), ?fds, m')" "suspended Bs co {} m'" by auto
  have node: "\<exists>x. wget ?m (Wnode core (snd (c ! i))) = Some x \<and>
      ?fds ! i = (fst (fds ! i))\<lparr>pfd_revents := poll_revents (fst (fds ! i)) (iw_revents x)\<rparr>" if i: "i < length fds" for i
  proof -
    have "Wnode core (snd (c ! i)) \<in> poll_nodes core c" unfolding poll_nodes_iff using i c(4) by simp
    from suspended_get [OF s this] obtain x where "wget ?m (Wnode core (snd (c ! i))) = Some x" by blast
    with i c(4) show ?thesis by (cases "c ! i") (simp add: polled_def del: wget.simps)
  qed
  have "co_poll core co now fds timeout run m = Some (length (filter (\<lambda>f. pfd_revents f \<noteq> 0) ?fds), ?fds, m')"
    using c(1) m'(1) by (simp add: co_poll_def)
  moreover have "length ?fds = length fds" using c(4) by simp
  moreover have "\<exists>x. wget ?m (Wnode core (snd (c ! i))) = Some x \<and> pfd_fd (?fds ! i) = pfd_fd (fst (fds ! i)) \<and>
      (pfd_revents (?fds ! i) AND POLLIN \<noteq> 0 \<longleftrightarrow> pfd_events (fst (fds ! i)) AND POLLIN \<noteq> 0 \<and> iw_revents x AND EPOLLIN \<noteq> 0) \<and>
      (pfd_revents (?fds ! i) AND POLLOUT \<noteq> 0 \<longleftrightarrow> pfd_events (fst (fds ! i)) AND POLLOUT \<noteq> 0 \<and> iw_revents x AND EPOLLOUT \<noteq> 0) \<and>
      (pfd_revents (?fds ! i) AND POLLERR \<noteq> 0 \<longleftrightarrow> iw_revents x AND EPOLLERR \<noteq> 0) \<and>
      pfd_revents (?fds ! i) AND NOT (POLLIN OR POLLOUT OR POLLERR) = 0" if "i < length fds" for i
  proof -
    from node [OF that] obtain x where x: "wget ?m (Wnode core (snd (c ! i))) = Some x"
      and f: "?fds ! i = (fst (fds ! i))\<lparr>pfd_revents := poll_revents (fst (fds ! i)) (iw_revents x)\<rparr>" by blast
    show ?thesis unfolding f by (rule exI [of _ x]) (use x poll_revents_bits [of "fst (fds ! i)" "iw_revents x"] in \<open>simp del: wget.simps\<close>)
  qed
  ultimately show ?thesis using c(1,4) m'(2) by blast
qed

section \<open>Examples\<close>

lemma example_resting:
  "waiters_ok (\<lambda>_. {8, 80}) (\<lambda>_. []) [] (no_rq, example_sock_mem)" "co_waiters 31 {} (\<lambda>_. []) example_sock_mem"
  using example_free_inv by (auto simp: waiters_ok_def co_waiters_def example_sock_mem_def no_rq_def rq_inv_def)

theorem co_io_wait_outcome_witness:
  "\<exists>m3 m'. co_io_wait 0 31 100 5 EPOLLIN 50 True (\<lambda>_ _. m3) example_sock_mem = Some (EPOLLIN, m') \<and> suspended (\<lambda>_. {8, 80}) 31 {} m'"
proof -
  have "EPOLLIN AND (EPOLLIN OR UNMASKED_EVENTS) \<noteq> 0" by (simp add: EPOLLIN_def UNMASKED_EVENTS_def EPOLLERR_def EPOLLHUP_def EPOLLRDHUP_def)
  with co_io_wait_outcome [OF example_resting, where core = 0 and ccmax = 1000 and now = 100 and msec = 50 and events = EPOLLIN and ev = EPOLLIN
      and so = 5 and ct = 100] show ?thesis by auto
qed

theorem co_sleep_wakes_witness:
  "\<exists>p m1 cc tmo m2 m3. add_waiter 0 (sleep_waiter 31 100 20) example_sock_mem = Some (Inr p, m1) \<and>
     walk_waiters_list 0 110 1000 m1 = Some (cc, tmo, m2) \<and> co_sleep 0 31 100 20 (\<lambda>_. m2) example_sock_mem = Some m3 \<and> 31 \<notin> set cc \<and> tmo \<le> 10"
  using co_sleep_wakes [OF example_resting, where core = 0 and ccmax = 1000 and now = 100 and ct = 110 and msec = 20] by auto

definition calm :: "int \<Rightarrow> errno \<Rightarrow> u8 list \<Rightarrow> fd_turn" where
  "calm r err bs = \<lparr>ft_ret = r, ft_err = err, ft_bytes = bs, ft_now = 100, ft_tmo = 15, ft_add = True, ft_run = (\<lambda>_ m. m)\<rparr>"

theorem co_send_write_prefix_witness:
  "\<exists>m'. co_send 0 31 5 [1, 2, 3] [calm 2 EOK [], calm (-1) EAGAIN []] example_sock_mem = Some (Returned (2, take 2 [1, 2, 3]), m') \<and>
     suspended (\<lambda>_. {8, 80}) 31 {} m'"
proof -
  have "fd_turns_ok (\<lambda>_. {8, 80}) 31 [calm 2 EOK [], calm (-1) EAGAIN []]" "takes_ok (length [1, 2, 3 :: u8]) [calm 2 EOK [], calm (-1) EAGAIN []]"
    by (simp_all add: calm_def others_ok_def)
  note co_send_write_prefix [OF suspendedI [OF example_resting] this, of 0 5]
  moreover have "map_option fst (co_send 0 31 5 [1, 2, 3] [calm 2 EOK [], calm (-1) EAGAIN []] example_sock_mem) = Some (Returned (2, [1, 2]))" by code_simp
  ultimately show ?thesis by auto
qed

theorem co_poll_result_witness:
  "\<exists>n fds' m'. co_poll 0 31 100 [(\<lparr>pfd_fd = 5, pfd_events = POLLIN, pfd_revents = 7\<rparr>, True)] 50 (\<lambda>_ m. m) example_sock_mem = Some (n, fds', m') \<and>
     suspended (\<lambda>_. {8, 80}) 31 {} m' \<and> n = length (filter (\<lambda>f. pfd_revents f \<noteq> 0) fds')"
proof -
  have "\<forall>c. others_ok (\<lambda>_. {8, 80}) 31 ((\<lambda>_ m. m) (c :: (iorq \<times> nat) list))" by (simp add: others_ok_def)
  from co_poll_result [OF example_resting, where core = 0 and fds = "[(\<lparr>pfd_fd = 5, pfd_events = POLLIN, pfd_revents = 7\<rparr>, True)]"
      and now = 100 and run = "\<lambda>_ m. m" and timeout = 50] this
  show ?thesis by (auto simp del: wget.simps)
qed

end
