(* ===== verification/Co_Schedule.thy ===== *)
theory Co_Schedule
  imports Co_Io Co_Lock
begin

text \<open>
  Starting coroutines, src/cothread/co-scheduler.c: the cores and how \<open>co_scheduler_init\<close> sets them up, the
  requests that \<open>co_schedule\<close> and \<open>co_schedule_io\<close> send to a core over a socket pair, the coroutine of the core
  that answers them, the callbacks on descriptors, and the loop of a core that starts new coroutines.
  The answers to requests are modelled as a system of callers and one core.
\<close>

section \<open>Requests\<close>

text \<open>Functions, callbacks and their arguments are numbers. A request is a union with a tag.\<close>

datatype creq = creq_schedule_io (rq_callback: nat) (rq_flags: u32) (rq_fd: int) | creq_start_cothread nat

record schedule_request =
  sr_req :: creq
  sr_stack_size :: nat
  sr_thread_arg :: nat

definition DEFAULT_THREAD_STACK_SIZE :: nat where "DEFAULT_THREAD_STACK_SIZE = 1024 * 1024"

record iocb =
  cb_e :: iorq
  cb_node :: "nat option"
  cb_fn :: nat
  cb_cookie :: nat

text \<open>
  The state of a core that requests change: its queue of new coroutines, the waiters, the callback
  blocks on the heap. A coroutine is a number; what it will run is recorded when it is created.
\<close>

datatype co_body = Thread_func nat nat nat | Iocb_handler nat nat

record core_state =
  cs_queue :: "nat ccfifo"
  cs_mem :: sched_mem
  cs_iocbs :: "nat \<Rightarrow> iocb option"
  cs_cos :: "nat \<Rightarrow> co_body option"

text \<open>What \<open>co_create\<close>, \<open>calloc\<close> and \<open>epoll_add\<close> answer.\<close>

record handler_env =
  he_co :: "errno + nat"
  he_cb :: "nat option"
  he_epoll :: "errno + unit"

definition or_enomem :: "errno \<Rightarrow> errno" where
  "or_enomem err = (if err = EOK then ENOMEM else err)"

text \<open>
  One round of \<open>schedule_request_handler\<close>: the status (\<open>EOK\<close> is zero) and whether the cores were signalled.
\<close>

definition schedule_request_handler ::
  "nat \<Rightarrow> handler_env \<Rightarrow> schedule_request \<Rightarrow> core_state \<Rightarrow> (errno \<times> bool \<times> core_state) ub" where
  "schedule_request_handler core env rq s =
     (let stack = (if sr_stack_size rq = 0 then DEFAULT_THREAD_STACK_SIZE else sr_stack_size rq) in
      case sr_req rq of
        creq_start_cothread func \<Rightarrow>
          if ccfifo_is_full (cs_queue s) then Some (EBUSY, False, s)
          else (case he_co env of
                  Inl err \<Rightarrow> Some (or_enomem err, False, s)
                | Inr co \<Rightarrow>
                    do { (_, q) \<leftarrow> ccfifo_ppush (cs_queue s) co;
                         Some (EOK, True, s\<lparr>cs_queue := q, cs_cos := (cs_cos s)(co \<mapsto> Thread_func func (sr_thread_arg rq) stack)\<rparr>) })
      | creq_schedule_io callback flags so \<Rightarrow>
          if ccfifo_is_full (cs_queue s) then Some (EBUSY, False, s)
          else (case he_cb env of
                  None \<Rightarrow> Some (ENOMEM, False, s)
                | Some cb \<Rightarrow>
                    let blank = \<lparr>cb_e = \<lparr>rq_head = None, rq_tail = None, rq_so = 0, rq_type = 0\<rparr>, cb_node = None, cb_fn = 0, cb_cookie = 0\<rparr> in
                    (case he_co env of
                       Inl err \<Rightarrow> Some (or_enomem err, False, s\<lparr>cs_iocbs := (cs_iocbs s)(cb \<mapsto> blank)\<rparr>)
                     | Inr co \<Rightarrow>
                         do { (r, m) \<leftarrow> add_waiter core (io_wait co (-1) flags) (cs_mem s);
                              let node = (case r of Inl _ \<Rightarrow> None | Inr p \<Rightarrow> Some p);
                              let e = \<lparr>rq_head = map_option (Wnode core) node, rq_tail = None, rq_so = so, rq_type = iowait_io\<rparr>;
                              let s = s\<lparr>cs_mem := m, cs_cos := (cs_cos s)(co \<mapsto> Iocb_handler cb stack),
                                        cs_iocbs := (cs_iocbs s)(cb \<mapsto> \<lparr>cb_e = e, cb_node = node, cb_fn = callback, cb_cookie = sr_thread_arg rq\<rparr>)\<rparr>;
                              _ \<leftarrow> e_check e;
                              (case r of
                                 Inl err \<Rightarrow> Some (or_enomem err, False, s)
                               | Inr _ \<Rightarrow> (case he_epoll env of Inl err \<Rightarrow> Some (err, False, s) | Inr _ \<Rightarrow> Some (EOK, False, s))) })))"

text \<open>
  \<open>iocb_handler\<close>: the callback runs with the events of the waiter until it returns something else than zero,
  and the coroutine suspends itself in between. A turn is the result of the callback and what others
  do then; the result lists the events that the callback got.
\<close>

fun iocb_loop :: "iocb \<Rightarrow> (int \<times> (sched_mem \<Rightarrow> sched_mem)) list \<Rightarrow> sched_mem \<Rightarrow> (u32 list io_result \<times> sched_mem) ub" where
  "iocb_loop cb [] m = Some (Suspended, m)"
| "iocb_loop cb ((r, run) # ts) m =
     do { w \<leftarrow> rq_head (cb_e cb);
          x \<leftarrow> wget m w;
          if r = 0
          then do { _ \<leftarrow> e_check (cb_e cb);
                    (res, m) \<leftarrow> iocb_loop cb ts (run m);
                    Some (case res of Suspended \<Rightarrow> Suspended | Returned evs \<Rightarrow> Returned (iw_revents x # evs), m) }
          else Some (Returned [iw_revents x], m) }"

definition iocb_handler ::
  "nat \<Rightarrow> nat \<Rightarrow> (int \<times> (sched_mem \<Rightarrow> sched_mem)) list \<Rightarrow> core_state \<Rightarrow> (u32 list io_result \<times> core_state) ub" where
  "iocb_handler core a ts s =
     do { cb \<leftarrow> cs_iocbs s a;
          _ \<leftarrow> e_check (cb_e cb);
          (res, m) \<leftarrow> iocb_loop cb ts (cs_mem s);
          (case res of
             Suspended \<Rightarrow> Some (Suspended, s\<lparr>cs_mem := m\<rparr>)
           | Returned evs \<Rightarrow>
               do { m \<leftarrow> remove_waiter core (cb_node cb) m;
                    Some (Returned evs, s\<lparr>cs_mem := m, cs_iocbs := (cs_iocbs s)(a := None)\<rparr>) }) }"

section \<open>The loop of a core\<close>

text \<open>
  \<open>pclthread\<close> starts the coroutines of its queue one after another, then walks over its waiters and resumes
  the selected coroutines, or sleeps. A turn is what happens while a new coroutine runs, which may put
  more coroutines into the queue.
\<close>

fun start_loop :: "(core_state \<Rightarrow> core_state) list \<Rightarrow> core_state \<Rightarrow> (nat list io_result \<times> core_state) ub" where
  "start_loop [] s = (if fifo_size (cs_queue s) = 0 then Some (Returned [], s) else Some (Suspended, s))"
| "start_loop (run # ts) s =
     do { (r, q) \<leftarrow> ccfifo_pop (cs_queue s);
          (case r of
             None \<Rightarrow> Some (Returned [], s\<lparr>cs_queue := q\<rparr>)
           | Some x \<Rightarrow>
               do { co \<leftarrow> x;
                    (res, s) \<leftarrow> start_loop ts (run (s\<lparr>cs_queue := q\<rparr>));
                    Some (case res of Suspended \<Rightarrow> Suspended | Returned cos \<Rightarrow> Returned (co # cos), s) }) }"

datatype core_action = Wait_for_events int | Resume "nat list"

definition ccmax :: nat where "ccmax = 1000"

definition core_round ::
  "nat \<Rightarrow> int \<Rightarrow> (core_state \<Rightarrow> core_state) list \<Rightarrow> core_state \<Rightarrow> ((nat list \<times> core_action) io_result \<times> core_state) ub" where
  "core_round core t0 ts s =
     do { (res, s) \<leftarrow> start_loop ts s;
          (case res of
             Suspended \<Rightarrow> Some (Suspended, s)
           | Returned started \<Rightarrow>
               do { (cc, tmo, m) \<leftarrow> walk_waiters_list core t0 ccmax (cs_mem s);
                    Some (Returned (started, if cc = [] then Wait_for_events tmo else Resume cc), s\<lparr>cs_mem := m\<rparr>) }) }"

section \<open>The cores\<close>

text \<open>
  \<open>g_sched_array\<close> and \<open>g_ncpu\<close>. A core is the address of its context. What the calls in \<open>new_pcl_thread\<close> answer is a
  record; the result lists the descriptors closed and the contexts freed again.
\<close>

record sched_globals =
  gs_array :: "nat option list option"
  gs_ncpu :: nat

record core_env =
  ce_ctx :: "nat option"
  ce_pair :: "(int \<times> int) option"
  ce_nonblock :: bool
  ce_fifo :: bool
  ce_list :: bool
  ce_thread :: bool

definition set_core :: "nat \<Rightarrow> nat option \<Rightarrow> sched_globals \<Rightarrow> sched_globals ub" where
  "set_core i x g =
     (case gs_array g of
        None \<Rightarrow> None
      | Some xs \<Rightarrow> if i < length xs then Some (g\<lparr>gs_array := Some (xs[i := x])\<rparr>) else None)"

definition new_pcl_thread :: "core_env \<Rightarrow> sched_globals \<Rightarrow> (bool \<times> int list \<times> nat list \<times> sched_globals) ub" where
  "new_pcl_thread env g =
     (case ce_ctx env of
        None \<Rightarrow> Some (False, [], [], g)
      | Some ctx \<Rightarrow>
          (case ce_pair env of
             None \<Rightarrow> Some (False, [], [ctx], g)
           | Some (s0, s1) \<Rightarrow>
               if \<not> ce_nonblock env \<or> \<not> ce_fifo env \<or> \<not> ce_list env then Some (False, [s0, s1], [ctx], g)
               else do { let i = gs_ncpu g;
                         g \<leftarrow> set_core i (Some ctx) g;
                         let g = g\<lparr>gs_ncpu := Suc i\<rparr>;
                         if ce_thread env then Some (True, [], [], g)
                         else do { g \<leftarrow> set_core i None (g\<lparr>gs_ncpu := i\<rparr>);
                                   Some (False, [s0, s1], [ctx], g) } }))"

fun start_cores :: "core_env list \<Rightarrow> nat \<Rightarrow> sched_globals \<Rightarrow> (nat \<times> int list \<times> sched_globals) ub" where
  "start_cores (env # envs) (Suc n) g =
     do { (ok, fds, _, g) \<leftarrow> new_pcl_thread env g;
          if ok then start_cores envs n g else Some (Suc n, fds, g) }"
| "start_cores _ n g = Some (n, [], g)"

definition co_scheduler_init :: "int \<Rightarrow> bool \<Rightarrow> bool \<Rightarrow> core_env list \<Rightarrow> sched_globals \<Rightarrow> (bool \<times> sched_globals) ub" where
  "co_scheduler_init ncpu listener_ok calloc_ok envs g =
     (let n = nat (max 1 ncpu) in
      if \<not> listener_ok then Some (False, g)
      else if \<not> calloc_ok then Some (False, g\<lparr>gs_array := None\<rparr>)
      else do { (rest, _, g) \<leftarrow> start_cores envs n (g\<lparr>gs_array := Some (replicate n None)\<rparr>);
                Some (rest = 0, g) })"

text \<open>The core that \<open>co_schedule\<close> and \<open>co_schedule_io\<close> pick; \<open>rand % 0\<close> is undefined.\<close>

definition pick_core :: "nat \<Rightarrow> sched_globals \<Rightarrow> nat ub" where
  "pick_core r g =
     (if gs_ncpu g = 0 then None
      else (case gs_array g of
              None \<Rightarrow> None
            | Some xs \<Rightarrow> if r mod gs_ncpu g < length xs then xs ! (r mod gs_ncpu g) else None))"

section \<open>Callers and a core\<close>

text \<open>
  Callers are coroutines and threads. A coroutine takes the flag \<open>csbusy\<close> of the core first
  (\<open>co_scheduler_lock\<close>), a thread does not. Then the request goes through the socket pair, which keeps order
  and passes requests and answers whole, the handler answers, and the caller reads an answer. The names
  of the caller and of its request in the answers are for the statements only: the code sends the status alone.
\<close>

datatype call_phase =
    Outside | Wants schedule_request | Sends schedule_request | Awaits schedule_request | Got schedule_request errno

record req_sys =
  rs_busy :: bool
  rs_reqs :: "(agent \<times> schedule_request) list"
  rs_answers :: "(agent \<times> schedule_request \<times> errno) list"
  rs_phase :: "agent \<Rightarrow> call_phase"
  rs_core :: core_state

definition co_scheduler_unlock :: "agent \<Rightarrow> bool \<Rightarrow> bool" where
  "co_scheduler_unlock a busy = (case a of Co _ _ \<Rightarrow> False | Pt _ \<Rightarrow> busy)"

definition to_phase :: "agent \<Rightarrow> call_phase \<Rightarrow> req_sys \<Rightarrow> req_sys" where
  "to_phase a ph s = s\<lparr>rs_phase := (rs_phase s)(a := ph)\<rparr>"

text \<open>\<open>thr\<close>: threads may call. \<open>lost\<close>: the caller may give up waiting for the answer.\<close>

inductive req_step :: "bool \<Rightarrow> bool \<Rightarrow> nat \<Rightarrow> req_sys \<Rightarrow> req_sys \<Rightarrow> bool" for thr lost core where
  call_co: "rs_phase s (Co c k) = Outside \<Longrightarrow> req_step thr lost core s (to_phase (Co c k) (Wants rq) s)"
| call_pt: "thr \<Longrightarrow> rs_phase s (Pt v) = Outside \<Longrightarrow> req_step thr lost core s (to_phase (Pt v) (Sends rq) s)"
| lock: "rs_phase s a = Wants rq \<Longrightarrow> \<not> rs_busy s \<Longrightarrow> req_step thr lost core s (to_phase a (Sends rq) (s\<lparr>rs_busy := True\<rparr>))"
| send: "rs_phase s a = Sends rq \<Longrightarrow> req_step thr lost core s (to_phase a (Awaits rq) (s\<lparr>rs_reqs := rs_reqs s @ [(a, rq)]\<rparr>))"
| send_fails: "rs_phase s a = Sends rq \<Longrightarrow> err \<noteq> EOK \<Longrightarrow>
    req_step thr lost core s (to_phase a (Got rq err) (s\<lparr>rs_busy := co_scheduler_unlock a (rs_busy s)\<rparr>))"
| handle: "rs_reqs s = (a, rq) # rqs \<Longrightarrow> schedule_request_handler core env rq (rs_core s) = Some (st, sig, c) \<Longrightarrow>
    req_step thr lost core s (s\<lparr>rs_reqs := rqs, rs_answers := rs_answers s @ [(a, rq, st)], rs_core := c\<rparr>)"
| receive: "rs_phase s a = Awaits rq \<Longrightarrow> rs_answers s = (b, rq', st) # ans \<Longrightarrow>
    req_step thr lost core s (to_phase a (Got rq st) (s\<lparr>rs_answers := ans, rs_busy := co_scheduler_unlock a (rs_busy s)\<rparr>))"
| receive_fails: "lost \<Longrightarrow> rs_phase s a = Awaits rq \<Longrightarrow>
    req_step thr lost core s (to_phase a (Got rq err) (s\<lparr>rs_busy := co_scheduler_unlock a (rs_busy s)\<rparr>))"
| leave: "rs_phase s a = Got rq st \<Longrightarrow> req_step thr lost core s (to_phase a Outside s)"

inductive_cases req_step_cases: "req_step thr lost core s s'"

definition req_init :: "req_sys \<Rightarrow> bool" where
  "req_init s \<longleftrightarrow> \<not> rs_busy s \<and> rs_reqs s = [] \<and> rs_answers s = [] \<and> (\<forall>a. rs_phase s a = Outside)"

text \<open>
  With coroutines only: who sends or awaits holds the flag, and the socket pair carries at most the
  request of the holder or its answer.
\<close>

definition talking :: "call_phase \<Rightarrow> bool" where
  "talking ph \<longleftrightarrow> (\<exists>rq. ph = Sends rq \<or> ph = Awaits rq)"

definition carried :: "req_sys \<Rightarrow> agent \<Rightarrow> bool" where
  "carried s a \<longleftrightarrow>
     (\<forall>rq. rs_phase s a = Sends rq \<longrightarrow> rs_reqs s = [] \<and> rs_answers s = []) \<and>
     (\<forall>rq. rs_phase s a = Awaits rq \<longrightarrow>
        (rs_reqs s = [(a, rq)] \<and> rs_answers s = []) \<or> (rs_reqs s = [] \<and> (\<exists>st. rs_answers s = [(a, rq, st)])))"

definition req_inv :: "req_sys \<Rightarrow> bool" where
  "req_inv s \<longleftrightarrow>
     (\<forall>v. rs_phase s (Pt v) = Outside) \<and>
     (if rs_busy s then \<exists>a. talking (rs_phase s a) \<and> (\<forall>b. talking (rs_phase s b) \<longrightarrow> b = a) \<and> carried s a
      else (\<forall>a. \<not> talking (rs_phase s a)) \<and> rs_reqs s = [] \<and> rs_answers s = [])"

lemma talking_simps [simp]:
  "\<not> talking Outside" "\<not> talking (Wants rq)" "talking (Sends rq)" "talking (Awaits rq)" "\<not> talking (Got rq st)"
  by (simp_all add: talking_def)

lemma to_phase_simps [simp]:
  "rs_phase (to_phase a ph s) = (rs_phase s)(a := ph)" "rs_busy (to_phase a ph s) = rs_busy s"
  "rs_reqs (to_phase a ph s) = rs_reqs s" "rs_answers (to_phase a ph s) = rs_answers s" "rs_core (to_phase a ph s) = rs_core s"
  by (simp_all add: to_phase_def)

lemma req_inv_busy: "req_inv s \<Longrightarrow> rs_busy s \<Longrightarrow> \<exists>d. talking (rs_phase s d) \<and> (\<forall>b. talking (rs_phase s b) \<longrightarrow> b = d) \<and> carried s d"
  by (simp add: req_inv_def)

lemma req_inv_busyI:
  assumes "rs_busy s" "talking (rs_phase s d)" "\<And>b. talking (rs_phase s b) \<Longrightarrow> b = d" "carried s d" "\<And>v. rs_phase s (Pt v) = Outside"
  shows "req_inv s"
  using assms unfolding req_inv_def by metis

lemma req_inv_holder:
  assumes "req_inv s" "talking (rs_phase s a)"
  shows "rs_busy s" "carried s a" "talking (rs_phase s b) \<Longrightarrow> b = a" "\<exists>c k. a = Co c k"
proof -
  show busy: "rs_busy s" using assms by (auto simp: req_inv_def split: if_splits)
  then obtain d where d: "\<And>b. talking (rs_phase s b) \<Longrightarrow> b = d" "carried s d" using req_inv_busy [OF assms(1)] by blast
  with assms(2) show "carried s a" "talking (rs_phase s b) \<Longrightarrow> b = a" by blast+
  show "\<exists>c k. a = Co c k" using assms by (cases a) (auto simp: req_inv_def)
qed

text \<open>A caller that leaves the exchange.\<close>

lemma req_inv_released:
  assumes "req_inv s" "talking (rs_phase s a)" "\<not> talking ph" "rs_reqs s' = []" "rs_answers s' = []" "rs_phase s' = (rs_phase s)(a := ph)"
    and "rs_busy s' = co_scheduler_unlock a (rs_busy s)"
  shows "req_inv s'"
proof -
  from req_inv_holder(4) [OF assms(1,2)] obtain c k where a: "a = Co c k" by blast
  have "\<not> talking (rs_phase s' b)" for b using req_inv_holder(3) [OF assms(1,2), of b] assms(3,6) by auto
  with assms a show ?thesis by (auto simp: req_inv_def co_scheduler_unlock_def)
qed

lemma req_inv_quiet_step:
  assumes "req_inv s" "\<not> talking (rs_phase s a)" "\<not> talking ph" "a = Co c k"
  shows "req_inv (to_phase a ph s)"
proof (cases "rs_busy s")
  case True
  then obtain d where d: "talking (rs_phase s d)" "\<And>b. talking (rs_phase s b) \<Longrightarrow> b = d" "carried s d" using req_inv_busy [OF assms(1)] by blast
  with assms(2) have "d \<noteq> a" by blast
  with d(1,3) have "talking (rs_phase (to_phase a ph s) d)" "carried (to_phase a ph s) d" by (simp_all add: carried_def)
  moreover have "\<forall>b. talking (rs_phase (to_phase a ph s) b) \<longrightarrow> b = d" using d(2) assms(3) by (metis fun_upd_apply to_phase_simps(1))
  moreover have "\<forall>v. rs_phase (to_phase a ph s) (Pt v) = Outside" using assms(1,4) by (simp add: req_inv_def)
  moreover have "rs_busy (to_phase a ph s)" using True by simp
  ultimately show ?thesis unfolding req_inv_def by metis
next
  case False
  then show ?thesis using assms by (simp add: req_inv_def)
qed

lemma req_step_inv:
  assumes "req_step False False core s s'" "req_inv s"
  shows "req_inv s'"
  using assms
proof (induction rule: req_step.induct)
  case (call_co s c k rq)
  then show ?case by (auto intro: req_inv_quiet_step)
next
  case (lock s a rq)
  then have q: "\<And>b. \<not> talking (rs_phase s b)" "rs_reqs s = []" "rs_answers s = []" "\<And>v. rs_phase s (Pt v) = Outside" by (auto simp: req_inv_def)
  then have "a \<noteq> Pt v" for v using lock(1) by auto
  with q show ?case by (intro req_inv_busyI [where d = a]) (auto simp: carried_def split: if_splits)
next
  case (send s a rq)
  then have h: "talking (rs_phase s a)" by simp
  note r = req_inv_holder [OF send(2) h]
  let ?s = "to_phase a (Awaits rq) (s\<lparr>rs_reqs := rs_reqs s @ [(a, rq)]\<rparr>)"
  show ?case
  proof (rule req_inv_busyI [where d = a])
    fix b assume "talking (rs_phase ?s b)"
    then show "b = a" using r(3) [of b] by (cases "b = a") simp_all
  next
    fix v show "rs_phase ?s (Pt v) = Outside" using r(4) send(2) by (auto simp: req_inv_def)
  qed (use r(1,2) send(1) in \<open>simp_all add: carried_def\<close>)
next
  case (send_fails s a rq err)
  then have h: "talking (rs_phase s a)" by simp
  from req_inv_holder(2) [OF send_fails(3) h] send_fails(1) have "rs_reqs s = []" "rs_answers s = []" by (simp_all add: carried_def)
  then show ?case by (intro req_inv_released [OF send_fails(3) h, where ph = "Got rq err"]) simp_all
next
  case (handle s a rq rqs env st sig c)
  then have "rs_busy s" by (auto simp: req_inv_def split: if_splits)
  with req_inv_busy [OF handle(3)] obtain d where d: "talking (rs_phase s d)" "\<And>b. talking (rs_phase s b) \<Longrightarrow> b = d" "carried s d" by blast
  from d(3) handle(1) have "rs_phase s d \<noteq> Sends rq'" for rq' by (simp add: carried_def)
  with d(1) obtain rq' where aw: "rs_phase s d = Awaits rq'" unfolding talking_def by blast
  with d(3) handle(1) have ph: "a = d" "rq = rq'" "rqs = []" "rs_answers s = []" by (simp_all add: carried_def)
  show ?case
  proof (rule req_inv_busyI [where d = d])
    fix b assume "talking (rs_phase (s\<lparr>rs_reqs := rqs, rs_answers := rs_answers s @ [(a, rq, st)], rs_core := c\<rparr>) b)"
    then have "talking (rs_phase s b)" by simp
    then show "b = d" by (rule d(2))
  next
    fix v show "rs_phase (s\<lparr>rs_reqs := rqs, rs_answers := rs_answers s @ [(a, rq, st)], rs_core := c\<rparr>) (Pt v) = Outside"
      using handle(3) by (simp add: req_inv_def)
  qed (use ph aw d(1) \<open>rs_busy s\<close> in \<open>simp_all add: carried_def\<close>)
next
  case (receive s a rq b rq' st ans)
  then have h: "talking (rs_phase s a)" by simp
  from req_inv_holder(2) [OF receive(3) h] receive(1,2) have "rs_reqs s = []" "ans = []" by (auto simp: carried_def)
  then show ?case by (intro req_inv_released [OF receive(3) h, where ph = "Got rq st"]) simp_all
next
  case (leave s a rq st)
  then have "\<not> talking (rs_phase s a)" "\<exists>c k. a = Co c k" by (auto simp: req_inv_def) (metis agent.exhaust call_phase.distinct(7))
  then show ?case using leave(2) by (auto intro: req_inv_quiet_step)
qed auto

lemma req_reach_inv: "(req_step False False core)\<^sup>*\<^sup>* s0 s \<Longrightarrow> req_init s0 \<Longrightarrow> req_inv s"
proof (induction rule: rtranclp_induct)
  case base
  then show ?case by (simp add: req_init_def req_inv_def)
qed (blast intro: req_step_inv)

section \<open>What a request does\<close>

definition stack_of :: "schedule_request \<Rightarrow> nat" where
  "stack_of rq = (if sr_stack_size rq = 0 then DEFAULT_THREAD_STACK_SIZE else sr_stack_size rq)"

definition core_ok :: "(nat \<Rightarrow> nat set) \<Rightarrow> core_state \<Rightarrow> bool" where
  "core_ok Bs s \<longleftrightarrow> ccfifo_inv (cs_queue s) \<and> (\<exists>H. waiters_ok Bs H [] (no_rq, cs_mem s))"

lemma or_enomem_neq [simp]: "or_enomem err \<noteq> EOK"
  by (simp add: or_enomem_def)

text \<open>A request to start a coroutine: on success it is the last of the queue, otherwise nothing changes.\<close>

lemma start_request:
  assumes inv: "ccfifo_inv (cs_queue s)" and rq: "sr_req rq = creq_start_cothread func"
  shows "\<exists>st sig s'. schedule_request_handler core env rq s = Some (st, sig, s') \<and> ccfifo_inv (cs_queue s') \<and> cs_mem s' = cs_mem s \<and>
     (if st = EOK
      then sig \<and> (\<exists>co. he_co env = Inr co \<and> ccfifo_list (cs_queue s') = ccfifo_list (cs_queue s) @ [co] \<and>
                  cs_cos s' co = Some (Thread_func func (sr_thread_arg rq) (stack_of rq)))
      else s' = s)"
proof (cases "ccfifo_is_full (cs_queue s) \<or> (\<exists>err. he_co env = Inl err)")
  case True
  then have "\<exists>st. st \<noteq> EOK \<and> schedule_request_handler core env rq s = Some (st, False, s)"
    using rq by (cases "ccfifo_is_full (cs_queue s)") (auto simp: schedule_request_handler_def Let_def)
  then show ?thesis using inv by auto
next
  case False
  then obtain co where co: "he_co env = Inr co" by (cases "he_co env") auto
  have "fifo_size (cs_queue s) < fifo_capacity (cs_queue s)" using False ccfifo_inv_size_le [OF inv] by (simp add: ccfifo_is_full_def)
  with inv obtain q where "ccfifo_push (cs_queue s) co = Some (Some (fifo_last (cs_queue s)), q)" "ccfifo_inv q"
    "ccfifo_list q = ccfifo_list (cs_queue s) @ [co]" by (rule ccfifo_push_ok)
  then show ?thesis using False co rq by (simp add: schedule_request_handler_def stack_of_def ccfifo_ppush_def Let_def ex_bool_eq)
qed

text \<open>
  A request to watch a descriptor: on success the waiter of the new coroutine is in the list of the
  core, and the callback block leads the event listener to it.
\<close>

lemma io_request:
  assumes ok: "waiters_ok Bs H [] (no_rq, cs_mem s)" and rq: "sr_req rq = creq_schedule_io callback flags so"
    and ep: "he_epoll env \<noteq> Inl EOK"
  shows "\<exists>st s' H'. schedule_request_handler core env rq s = Some (st, False, s') \<and> cs_queue s' = cs_queue s \<and> waiters_ok Bs H' [] (no_rq, cs_mem s') \<and>
     (st = EOK \<longrightarrow> (\<exists>co a p. he_co env = Inr co \<and> he_cb env = Some a \<and> cs_cos s' co = Some (Iocb_handler a (stack_of rq)) \<and>
        cs_iocbs s' a = Some \<lparr>cb_e = wait_rq (Wnode core p) so, cb_node = Some p, cb_fn = callback, cb_cookie = sr_thread_arg rq\<rparr> \<and>
        wget (cs_mem s') (Wnode core p) = Some (io_wait co (-1) (flags OR UNMASKED_EVENTS)) \<and> p \<in> set (H' core)))"
proof -
  consider (refused) "ccfifo_is_full (cs_queue s) \<or> he_cb env = None" | (no_co) a err where "\<not> ccfifo_is_full (cs_queue s)" "he_cb env = Some a" "he_co env = Inl err"
    | (made) a co where "\<not> ccfifo_is_full (cs_queue s)" "he_cb env = Some a" "he_co env = Inr co" by (cases "he_co env") auto
  then show ?thesis
  proof cases
    case refused
    then show ?thesis using ok rq by (cases "ccfifo_is_full (cs_queue s)") (auto simp: schedule_request_handler_def Let_def)
  next
    case no_co
    then show ?thesis using ok rq by (auto simp: schedule_request_handler_def Let_def)
  next
    case made
    show ?thesis
    proof (cases "length (H core) < card (Bs core)")
      case True
      from add_waiters_ok [OF ok _ True, of "io_wait co (-1) flags"] obtain p m1 where
        add: "add_waiter core (io_wait co (-1) flags) (cs_mem s) = Some (Inr p, m1)" "waiters_ok Bs (H(core := H core @ [p])) [] (no_rq, m1)"
          "wget m1 (Wnode core p) = Some ((io_wait co (-1) flags)\<lparr>iw_mask := flags OR UNMASKED_EVENTS\<rparr>)" by auto
      have "(io_wait co (-1) flags)\<lparr>iw_mask := flags OR UNMASKED_EVENTS\<rparr> = io_wait co (-1) (flags OR UNMASKED_EVENTS)" by (simp add: io_wait_def)
      moreover obtain H1 where "waiters_ok Bs H1 [] (no_rq, m1)" "p \<in> set (H1 core)" using add(2) by fastforce
      ultimately show ?thesis using add(1,3) made rq ep
        by (cases "he_epoll env") (auto simp: schedule_request_handler_def stack_of_def wait_rq_def Let_def intro!: exI [of _ H1] simp del: wget.simps)
    next
      case False
      then have "length (H core) = card (Bs core)" using waiters.hle [OF waiters_okD(1) [OF ok, of core]] by simp
      from add_waiter_full [OF waiters_okD(1) [OF ok] this] ok made rq show ?thesis
        by (auto simp: schedule_request_handler_def Let_def)
    qed
  qed
qed

text \<open>A failing request to watch a descriptor leaves the callback block, and after \<open>epoll_add\<close> also the waiter, behind.\<close>

lemma io_request_leaks:
  assumes "sr_req rq = creq_schedule_io callback flags so" "\<not> ccfifo_is_full (cs_queue s)" "he_cb env = Some a"
    and "schedule_request_handler core env rq s = Some (st, sig, s')" "st \<noteq> EOK"
  shows "cs_iocbs s' a \<noteq> None"
  using assms by (auto simp: schedule_request_handler_def Let_def split: sum.splits bind_splits)

section \<open>The cores and their coroutines\<close>

text \<open>
  The order of starting. Others only add coroutines to the queue of a core; when the core has emptied
  it, it has started every coroutine that was in it, in order and before any that came later.
\<close>

definition grows :: "(core_state \<Rightarrow> core_state) \<Rightarrow> bool" where
  "grows run \<longleftrightarrow> (\<forall>s. ccfifo_inv (cs_queue s) \<longrightarrow>
     ccfifo_inv (cs_queue (run s)) \<and> (\<exists>ys. ccfifo_list (cs_queue (run s)) = ccfifo_list (cs_queue s) @ ys))"

lemma start_loop_ok:
  assumes "ccfifo_inv (cs_queue s)" "\<forall>run \<in> set ts. grows run"
  shows "\<exists>res s'. start_loop ts s = Some (res, s') \<and> ccfifo_inv (cs_queue s') \<and>
     (\<forall>started. res = Returned started \<longrightarrow> ccfifo_list (cs_queue s') = [] \<and> (\<exists>ys. started = ccfifo_list (cs_queue s) @ ys))"
  using assms
proof (induction ts arbitrary: s)
  case Nil
  then show ?case using length_ccfifo_list [OF Nil(1)] by auto
next
  case (Cons run ts)
  show ?case
  proof (cases "ccfifo_list (cs_queue s)")
    case Nil
    then have "fifo_size (cs_queue s) = 0" using length_ccfifo_list [OF Cons.prems(1)] by simp
    with Nil ccfifo_pop_empty [of "cs_queue s"] Cons.prems(1) show ?thesis by (simp add: ccfifo_is_empty_def)
  next
    case (Cons co cos)
    then have "fifo_size (cs_queue s) \<noteq> 0" using length_ccfifo_list [OF Cons.prems(1)] by auto
    with Cons.prems(1) obtain q where q: "ccfifo_pop (cs_queue s) = Some (Some (Some (hd (ccfifo_list (cs_queue s)))), q)" "ccfifo_inv q"
      "ccfifo_list q = tl (ccfifo_list (cs_queue s))" by (rule ccfifo_pop_ok)
    let ?s = "run (s\<lparr>cs_queue := q\<rparr>)"
    from Cons.prems(2) q(2,3) Cons obtain ys where r: "ccfifo_inv (cs_queue ?s)" "ccfifo_list (cs_queue ?s) = cos @ ys"
      by (auto simp: grows_def) (metis (no_types, lifting) core_state.select_convs(1) core_state.surjective core_state.update_convs(1) list.sel(3))
    from Cons.IH [OF r(1)] Cons.prems(2) obtain res s' where
      IH: "start_loop ts ?s = Some (res, s')" "ccfifo_inv (cs_queue s')"
        "\<forall>started. res = Returned started \<longrightarrow> ccfifo_list (cs_queue s') = [] \<and> (\<exists>ys. started = ccfifo_list (cs_queue ?s) @ ys)" by auto
    with q(1) Cons r(2) show ?thesis by (cases res) auto
  qed
qed

lemma start_cores_ok:
  assumes "\<forall>env \<in> set envs. ce_ctx env \<noteq> None \<and> ce_pair env \<noteq> None \<and> ce_nonblock env \<and> ce_fifo env \<and> ce_list env \<and> ce_thread env"
    and "length envs = n" "gs_array g = Some (xs @ replicate n None)" "gs_ncpu g = length xs"
  shows "start_cores envs n g = Some (0, [], g\<lparr>gs_array := Some (xs @ map ce_ctx envs), gs_ncpu := length xs + n\<rparr>)"
  using assms
proof (induction envs arbitrary: n g xs)
  case (Cons env envs)
  then obtain k where n: "n = Suc k" "length envs = k" by (cases n) auto
  from Cons.prems(1) obtain ctx s0 s1 where env: "ce_ctx env = Some ctx" "ce_pair env = Some (s0, s1)" "ce_nonblock env" "ce_fifo env" "ce_list env" "ce_thread env"
    by (auto simp: not_None_eq)
  let ?g = "g\<lparr>gs_array := Some ((xs @ [Some ctx]) @ replicate k None), gs_ncpu := Suc (length xs)\<rparr>"
  have "new_pcl_thread env g = Some (True, [], [], ?g)"
    using env Cons.prems(3,4) n(1) by (simp add: new_pcl_thread_def set_core_def list_update_append)
  with Cons.IH [of k ?g "xs @ [Some ctx]"] Cons.prems(1) n env(1) show ?case by simp
qed simp

text \<open>
  The callback coroutine: whatever others do, each call of the callback gets the events of the waiter, and
  when the callback is done the waiter and the block are gone.
\<close>

lemma iocb_loop_ok:
  assumes "suspended Bs co {Wnode core p} m" "\<forall>(r, run) \<in> set ts. others_ok Bs co run" "cb_e cb = wait_rq (Wnode core p) so"
  shows "\<exists>res m'. iocb_loop cb ts m = Some (res, m') \<and> suspended Bs co {Wnode core p} m'"
  using assms
proof (induction ts arbitrary: m)
  case (Cons t ts)
  obtain r run where t: "t = (r, run)" by force
  from suspended_get [OF Cons.prems(1)] obtain x where x: "wget m (Wnode core p) = Some x" by blast
  have "suspended Bs co {Wnode core p} (run m)" using Cons.prems(1,2) t others_okD by auto
  from Cons.IH [OF this] Cons.prems(2,3) obtain res m' where "iocb_loop cb ts (run m) = Some (res, m')" "suspended Bs co {Wnode core p} m'" by auto
  with t x Cons.prems(1,3) show ?case by (auto simp: wait_rq_def simp del: wget.simps)
qed auto

lemma iocb_handler_releases:
  assumes "suspended Bs co {Wnode core p} (cs_mem s)" "\<forall>(r, run) \<in> set ts. others_ok Bs co run"
    and "cs_iocbs s a = Some \<lparr>cb_e = wait_rq (Wnode core p) so, cb_node = Some p, cb_fn = f, cb_cookie = k\<rparr>"
  shows "\<exists>res s'. iocb_handler core a ts s = Some (res, s') \<and>
     (case res of Suspended \<Rightarrow> suspended Bs co {Wnode core p} (cs_mem s') | Returned _ \<Rightarrow> suspended Bs co {} (cs_mem s') \<and> cs_iocbs s' a = None)"
proof -
  let ?cb = "\<lparr>cb_e = wait_rq (Wnode core p) so, cb_node = Some p, cb_fn = f, cb_cookie = k\<rparr>"
  from iocb_loop_ok [OF assms(1,2), of ?cb so] obtain res m' where
    l: "iocb_loop ?cb ts (cs_mem s) = Some (res, m')" "suspended Bs co {Wnode core p} m'" by auto
  with remove_suspended [OF l(2), of core p] assms(3) show ?thesis
    by (cases res) (auto simp: iocb_handler_def wait_rq_def)
qed

section \<open>Properties\<close>

text \<open>C28. Requests of coroutines: while only coroutines call and none gives up waiting, at most one of them
  exchanges messages with a core at a time, and the answer a caller finds is the status of its own request.\<close>

theorem schedule_requests_paired:
  assumes "(req_step False False core)\<^sup>*\<^sup>* s0 s" "req_init s0"
  shows "(\<forall>a b. talking (rs_phase s a) \<and> talking (rs_phase s b) \<longrightarrow> a = b) \<and>
     (\<forall>a rq b rq' st ans. rs_phase s a = Awaits rq \<and> rs_answers s = (b, rq', st) # ans \<longrightarrow> b = a \<and> rq' = rq \<and> ans = [])"
proof -
  note inv = req_reach_inv [OF assms]
  have "b = a \<and> rq' = rq \<and> ans = []" if "rs_phase s a = Awaits rq" "rs_answers s = (b, rq', st) # ans" for a rq b rq' st ans
    using req_inv_holder(2) [OF inv, of a] that by (simp add: carried_def)
  with req_inv_holder(3) [OF inv] show ?thesis by blast
qed

text \<open>C29. Scheduling a coroutine: \<open>schedule_request_handler\<close> answers every request and keeps the queue and the waiters
  of its core in order. A start request that succeeds has put the new coroutine at the end of the queue
  and signalled the cores, one that fails has changed nothing. A successful request to watch a
  descriptor has put a waiter of the new coroutine into the list and connected it to the descriptor.\<close>

theorem schedule_request_result:
  assumes "core_ok Bs s" "he_epoll env \<noteq> Inl EOK"
  shows "\<exists>st sig s'. schedule_request_handler core env rq s = Some (st, sig, s') \<and> core_ok Bs s' \<and>
     (case sr_req rq of
        creq_start_cothread func \<Rightarrow>
          (if st = EOK
           then sig \<and> (\<exists>co. he_co env = Inr co \<and> ccfifo_list (cs_queue s') = ccfifo_list (cs_queue s) @ [co] \<and>
                       cs_cos s' co = Some (Thread_func func (sr_thread_arg rq) (stack_of rq)))
           else s' = s)
      | creq_schedule_io callback flags so \<Rightarrow>
          cs_queue s' = cs_queue s \<and>
          (st = EOK \<longrightarrow> (\<exists>co a p. he_co env = Inr co \<and> cs_cos s' co = Some (Iocb_handler a (stack_of rq)) \<and>
             cs_iocbs s' a = Some \<lparr>cb_e = wait_rq (Wnode core p) so, cb_node = Some p, cb_fn = callback, cb_cookie = sr_thread_arg rq\<rparr> \<and>
             wget (cs_mem s') (Wnode core p) = Some (io_wait co (-1) (flags OR UNMASKED_EVENTS)))))"
proof (cases "sr_req rq")
  case (creq_start_cothread func)
  from assms(1) have "ccfifo_inv (cs_queue s)" by (simp add: core_ok_def)
  from start_request [OF this creq_start_cothread, of core env] assms(1) creq_start_cothread show ?thesis
    by (fastforce simp: core_ok_def)
next
  case (creq_schedule_io callback flags so)
  from assms(1) obtain H where H: "waiters_ok Bs H [] (no_rq, cs_mem s)" by (auto simp: core_ok_def)
  from io_request [OF H creq_schedule_io assms(2), of core] obtain st s' H' where
    r: "schedule_request_handler core env rq s = Some (st, False, s')" "cs_queue s' = cs_queue s" "waiters_ok Bs H' [] (no_rq, cs_mem s')"
      "st = EOK \<longrightarrow> (\<exists>co a p. he_co env = Inr co \<and> he_cb env = Some a \<and> cs_cos s' co = Some (Iocb_handler a (stack_of rq)) \<and>
        cs_iocbs s' a = Some \<lparr>cb_e = wait_rq (Wnode core p) so, cb_node = Some p, cb_fn = callback, cb_cookie = sr_thread_arg rq\<rparr> \<and>
        wget (cs_mem s') (Wnode core p) = Some (io_wait co (-1) (flags OR UNMASKED_EVENTS)) \<and> p \<in> set (H' core))" by blast
  then have "core_ok Bs s'" using assms(1) by (auto simp: core_ok_def)
  with r creq_schedule_io show ?thesis by (auto simp del: wget.simps)
qed

text \<open>Setting up the cores: from the initial state, \<open>co_scheduler_init\<close> with working system calls starts one core per
  processor, and any random number then picks one of them; a second successful call writes past the end of the
  array of cores.\<close>

theorem co_scheduler_init_once:
  assumes "\<forall>env \<in> set (envs @ envs2). ce_ctx env \<noteq> None \<and> ce_pair env \<noteq> None \<and> ce_nonblock env \<and> ce_fifo env \<and> ce_list env \<and> ce_thread env"
    and "length envs = nat (max 1 ncpu)" "envs2 \<noteq> []" "gs_ncpu g = 0" "ncpu2 \<le> ncpu"
  shows "\<exists>g'. co_scheduler_init ncpu True True envs g = Some (True, g') \<and> gs_ncpu g' = nat (max 1 ncpu) \<and>
     (\<forall>r. \<exists>ctx. pick_core r g' = Some ctx \<and> Some ctx \<in> ce_ctx ` set envs) \<and> co_scheduler_init ncpu2 True True envs2 g' = None"
proof -
  let ?n = "nat (max 1 ncpu)"
  let ?g = "g\<lparr>gs_array := Some (map ce_ctx envs), gs_ncpu := ?n\<rparr>"
  have "start_cores envs ?n (g\<lparr>gs_array := Some (replicate ?n None)\<rparr>) = Some (0, [], ?g)"
    using start_cores_ok [of envs ?n "g\<lparr>gs_array := Some (replicate ?n None)\<rparr>" "[]"] assms(1,2,4) by simp
  then have i: "co_scheduler_init ncpu True True envs g = Some (True, ?g)" by (simp add: co_scheduler_init_def Let_def)
  have "\<exists>ctx. pick_core r ?g = Some ctx \<and> Some ctx \<in> ce_ctx ` set envs" for r
  proof -
    have "r mod ?n < length envs" using assms(2) by simp
    then have env: "envs ! (r mod ?n) \<in> set envs" by simp
    with assms(1) obtain ctx where "ce_ctx (envs ! (r mod ?n)) = Some ctx" by force
    moreover have "pick_core r ?g = ce_ctx (envs ! (r mod ?n))" using \<open>r mod ?n < length envs\<close> by (simp add: pick_core_def)
    ultimately show ?thesis using env by (metis imageI)
  qed
  moreover have "co_scheduler_init ncpu2 True True envs2 ?g = None"
  proof -
    obtain env rest where e2: "envs2 = env # rest" using assms(3) by (cases envs2) auto
    with assms(1) obtain ctx s0 s1 where "ce_ctx env = Some ctx" "ce_pair env = Some (s0, s1)" "ce_nonblock env" "ce_fifo env" "ce_list env" by force
    moreover have "nat (max 1 ncpu2) \<le> ?n" using assms(5) by auto
    moreover obtain k where "nat (max 1 ncpu2) = Suc k" by (cases "nat (max 1 ncpu2)") auto
    ultimately show ?thesis using e2 by (simp add: co_scheduler_init_def new_pcl_thread_def set_core_def Let_def)
  qed
  ultimately show ?thesis using i by (intro exI [of _ ?g]) simp
qed

section \<open>Examples\<close>

text \<open>A core whose queue has room for one coroutine, and two requests to start functions 1 and 2.\<close>

definition example_core :: core_state where
  "example_core =
     \<lparr>cs_queue = \<lparr>fifo_items = Some [None], fifo_capacity = 1, fifo_size = 0, fifo_item_size = 8, fifo_first = 0, fifo_last = 0\<rparr>,
      cs_mem = example_sock_mem, cs_iocbs = (\<lambda>_. None), cs_cos = (\<lambda>_. None)\<rparr>"

definition start_rq :: "nat \<Rightarrow> schedule_request" where
  "start_rq f = \<lparr>sr_req = creq_start_cothread f, sr_stack_size = 4, sr_thread_arg = 0\<rparr>"

definition example_started :: core_state where
  "example_started = example_core\<lparr>cs_queue := \<lparr>fifo_items = Some [Some 41], fifo_capacity = 1, fifo_size = 1, fifo_item_size = 8, fifo_first = 0, fifo_last = 0\<rparr>,
      cs_cos := (\<lambda>_. None)(41 \<mapsto> Thread_func 1 0 4)\<rparr>"

definition example_handler_env :: handler_env where
  "example_handler_env = \<lparr>he_co = Inr 41, he_cb = Some 7, he_epoll = Inr ()\<rparr>"

definition example_callers :: req_sys where
  "example_callers = \<lparr>rs_busy = False, rs_reqs = [], rs_answers = [], rs_phase = (\<lambda>_. Outside), rs_core = example_core\<rparr>"

text \<open>Steps as commands, so that runs can be evaluated.\<close>

datatype req_cmd = Call agent schedule_request | Lock_it agent | Send_it agent | Handle_it handler_env | Receive_it agent | Give_up agent errno

fun req_do :: "bool \<Rightarrow> bool \<Rightarrow> nat \<Rightarrow> req_cmd \<Rightarrow> req_sys \<Rightarrow> req_sys option" where
  "req_do thr lost core (Call a rq) s =
     (if rs_phase s a \<noteq> Outside then None
      else (case a of Co _ _ \<Rightarrow> Some (to_phase a (Wants rq) s) | Pt _ \<Rightarrow> if thr then Some (to_phase a (Sends rq) s) else None))"
| "req_do thr lost core (Lock_it a) s =
     (case rs_phase s a of Wants rq \<Rightarrow> if rs_busy s then None else Some (to_phase a (Sends rq) (s\<lparr>rs_busy := True\<rparr>)) | _ \<Rightarrow> None)"
| "req_do thr lost core (Send_it a) s =
     (case rs_phase s a of Sends rq \<Rightarrow> Some (to_phase a (Awaits rq) (s\<lparr>rs_reqs := rs_reqs s @ [(a, rq)]\<rparr>)) | _ \<Rightarrow> None)"
| "req_do thr lost core (Handle_it env) s =
     (case rs_reqs s of
        (a, rq) # rqs \<Rightarrow>
          do { (st, sig, c) \<leftarrow> schedule_request_handler core env rq (rs_core s);
               Some (s\<lparr>rs_reqs := rqs, rs_answers := rs_answers s @ [(a, rq, st)], rs_core := c\<rparr>) }
      | [] \<Rightarrow> None)"
| "req_do thr lost core (Receive_it a) s =
     (case (rs_phase s a, rs_answers s) of
        (Awaits rq, (b, rq', st) # ans) \<Rightarrow>
          Some (to_phase a (Got rq st) (s\<lparr>rs_answers := ans, rs_busy := co_scheduler_unlock a (rs_busy s)\<rparr>))
      | _ \<Rightarrow> None)"
| "req_do thr lost core (Give_up a err) s =
     (case rs_phase s a of
        Awaits rq \<Rightarrow> if lost then Some (to_phase a (Got rq err) (s\<lparr>rs_busy := co_scheduler_unlock a (rs_busy s)\<rparr>)) else None
      | _ \<Rightarrow> None)"

fun req_run :: "bool \<Rightarrow> bool \<Rightarrow> nat \<Rightarrow> req_cmd list \<Rightarrow> req_sys \<Rightarrow> req_sys option" where
  "req_run thr lost core [] s = Some s"
| "req_run thr lost core (c # cs) s = do { s \<leftarrow> req_do thr lost core c s; req_run thr lost core cs s }"

lemma req_do_step: "req_do thr lost core c s = Some s' \<Longrightarrow> req_step thr lost core s s'"
  by (cases c) (auto intro: req_step.intros split: if_splits agent.splits call_phase.splits list.splits prod.splits bind_splits)

lemma req_run_steps: "req_run thr lost core cs s = Some s' \<Longrightarrow> (req_step thr lost core)\<^sup>*\<^sup>* s s'"
  by (induction cs arbitrary: s) (auto intro: converse_rtranclp_into_rtranclp req_do_step split: bind_splits)

lemma req_run_reaches:
  assumes "case req_run thr lost core cs s of None \<Rightarrow> False | Some s' \<Rightarrow> P s'"
  shows "\<exists>s'. (req_step thr lost core)\<^sup>*\<^sup>* s s' \<and> P s'"
  using assms by (auto intro: req_run_steps split: option.splits)

lemma example_first: "schedule_request_handler 0 example_handler_env (start_rq 1) example_core = Some (EOK, True, example_started)"
  by (simp add: schedule_request_handler_def start_rq_def example_core_def example_started_def example_handler_env_def ccfifo_is_full_def
      ccfifo_ppush_def ccfifo_push_def ccfifo_push_bytes_def memcpy_item_def Let_def)

lemma example_second: "schedule_request_handler 0 example_handler_env (start_rq 2) example_started = Some (EBUSY, False, example_started)"
  by (simp add: schedule_request_handler_def start_rq_def example_started_def ccfifo_is_full_def Let_def)

lemma example_core_ok: "core_ok (\<lambda>_. {8, 80}) example_core"
  using example_resting(1) by (auto simp: core_ok_def example_core_def ccfifo_inv_def ccfifo_slot_def)

text \<open>Requests of threads: two threads that schedule coroutines on the same core at the same time can get each
  other's answers, so that the one whose coroutine was started sees a failure and the other one a success.
  The same happens to coroutines after one has given up waiting for its answer.\<close>

theorem schedule_answers_swapped:
  "(\<exists>s. (req_step True False 0)\<^sup>*\<^sup>* example_callers s \<and> rs_phase s (Pt 1) = Got (start_rq 1) EBUSY \<and> rs_phase s (Pt 2) = Got (start_rq 2) EOK \<and>
      ccfifo_list (cs_queue (rs_core s)) = [41] \<and> cs_cos (rs_core s) 41 = Some (Thread_func 1 0 4)) \<and>
   (\<exists>s. (req_step False True 0)\<^sup>*\<^sup>* example_callers s \<and> rs_phase s (Co 1 2) = Got (start_rq 2) EOK \<and>
      rs_answers s = [(Co 1 2, start_rq 2, EBUSY)] \<and> ccfifo_list (cs_queue (rs_core s)) = [41] \<and>
      cs_cos (rs_core s) 41 = Some (Thread_func 1 0 4))"
proof
  let ?cs = "[Call (Pt 1) (start_rq 1), Call (Pt 2) (start_rq 2), Send_it (Pt 1), Send_it (Pt 2), Handle_it example_handler_env,
    Handle_it example_handler_env, Receive_it (Pt 2), Receive_it (Pt 1)]"
  show "\<exists>s. (req_step True False 0)\<^sup>*\<^sup>* example_callers s \<and> rs_phase s (Pt 1) = Got (start_rq 1) EBUSY \<and> rs_phase s (Pt 2) = Got (start_rq 2) EOK \<and>
      ccfifo_list (cs_queue (rs_core s)) = [41] \<and> cs_cos (rs_core s) 41 = Some (Thread_func 1 0 4)"
    by (rule req_run_reaches [where cs = ?cs]) code_simp
  let ?cs = "[Call (Co 1 1) (start_rq 1), Lock_it (Co 1 1), Send_it (Co 1 1), Give_up (Co 1 1) ETIME, Handle_it example_handler_env,
    Call (Co 1 2) (start_rq 2), Lock_it (Co 1 2), Send_it (Co 1 2), Handle_it example_handler_env, Receive_it (Co 1 2)]"
  show "\<exists>s. (req_step False True 0)\<^sup>*\<^sup>* example_callers s \<and> rs_phase s (Co 1 2) = Got (start_rq 2) EOK \<and>
      rs_answers s = [(Co 1 2, start_rq 2, EBUSY)] \<and> ccfifo_list (cs_queue (rs_core s)) = [41] \<and>
      cs_cos (rs_core s) 41 = Some (Thread_func 1 0 4)"
    by (rule req_run_reaches [where cs = ?cs]) code_simp
qed

theorem schedule_requests_paired_witness:
  "\<exists>s. (req_step False False 0)\<^sup>*\<^sup>* example_callers s \<and> rs_phase s (Co 1 1) = Awaits (start_rq 1) \<and> rs_answers s \<noteq> [] \<and>
     (\<forall>b rq' st ans. rs_answers s = (b, rq', st) # ans \<longrightarrow> b = Co 1 1 \<and> rq' = start_rq 1 \<and> ans = [])"
proof -
  have "\<exists>s. (req_step False False 0)\<^sup>*\<^sup>* example_callers s \<and> rs_phase s (Co 1 1) = Awaits (start_rq 1) \<and> rs_answers s \<noteq> []"
    by (rule req_run_reaches [where cs = "[Call (Co 1 1) (start_rq 1), Lock_it (Co 1 1), Send_it (Co 1 1), Handle_it example_handler_env]"]) code_simp
  then obtain s where s: "(req_step False False 0)\<^sup>*\<^sup>* example_callers s" "rs_phase s (Co 1 1) = Awaits (start_rq 1)" "rs_answers s \<noteq> []" by blast
  have "req_init example_callers" by (simp add: req_init_def example_callers_def)
  from schedule_requests_paired [OF s(1) this] s show ?thesis by blast
qed

theorem schedule_request_result_witness:
  "\<exists>s' co. schedule_request_handler 0 example_handler_env (start_rq 1) example_core = Some (EOK, True, s') \<and>
     ccfifo_list (cs_queue s') = ccfifo_list (cs_queue example_core) @ [co] \<and> core_ok (\<lambda>_. {8, 80}) s'"
proof -
  have "he_epoll example_handler_env \<noteq> Inl EOK" by (simp add: example_handler_env_def)
  from schedule_request_result [OF example_core_ok this, of 0 "start_rq 1"] show ?thesis
    unfolding example_first by (auto simp: start_rq_def)
qed

definition example_core_env :: "nat \<Rightarrow> core_env" where
  "example_core_env ctx = \<lparr>ce_ctx = Some ctx, ce_pair = Some (3, 4), ce_nonblock = True, ce_fifo = True, ce_list = True, ce_thread = True\<rparr>"

theorem co_scheduler_init_once_witness:
  "\<exists>g'. co_scheduler_init 2 True True [example_core_env 100, example_core_env 200] \<lparr>gs_array = None, gs_ncpu = 0\<rparr> = Some (True, g') \<and>
     gs_ncpu g' = 2 \<and> co_scheduler_init 1 True True [example_core_env 300] g' = None"
  using co_scheduler_init_once [of "[example_core_env 100, example_core_env 200]" "[example_core_env 300]" 2 "\<lparr>gs_array = None, gs_ncpu = 0\<rparr>" 1]
  by (auto simp: example_core_env_def)

end
