(* ===== verification/Co_Thread.thy ===== *)
theory Co_Thread
  imports Prelude "HOL-Library.Multiset"
begin

text \<open>
  Coroutines, src/cothread/co-thread.c: creation on a private stack, switching, and the deletion of a
  finished coroutine by a helper coroutine (a coroutine cannot free the stack it runs on).

  A saved machine context is the place where it continues. Code between two switches is either the
  library's own, which \<^term>\<open>co_land\<close> below runs, or code of the caller, which is free to do what it wants
  with the operations of this theory.
\<close>

section \<open>Data\<close>

text \<open>
  Where a saved context continues: at the start of \<open>co_runner\<close>, or after the \<open>swapcontext\<close> in a call
  made by the caller's code, by \<open>co_resume\<close>, by \<open>co_exit_to\<close> or by \<open>co_del_helper\<close>.
\<close>

datatype co_point = In_runner | In_user | In_resume | In_exit | In_helper

datatype co_function = Del_helper | Thread_fn nat

text \<open>
  Addresses are numbers. The stack of a context is its offset in the block and its size. The pointers
  \<open>caller\<close> and \<open>restarget\<close> are not set by \<open>co_create\<close>; such a pointer is \<open>None\<close> like a null pointer, as
  following it is undefined in both cases.
\<close>

record coroutine =
  ctx_point :: co_point
  ctx_stack :: "u64 \<times> u64"
  alloc_size :: u64
  co_caller :: "nat option"
  restarget :: "nat option"
  co_func :: co_function
  co_data :: nat
  sheduler_data :: nat

text \<open>
  The context of a thread, with the coroutines that exist and the blocks that were freed. The
  coroutine \<open>co_main\<close> and the stack \<open>stk\<close> of the helper are part of the context.
  \<open>swap_ok\<close> tells whether \<open>swapcontext\<close> succeeds.
\<close>

record cothread_ctx =
  co_curr :: nat
  co_dhelper :: "nat option"
  dchelper :: "nat option"
  co_mem :: "nat \<Rightarrow> coroutine option"
  co_freed :: "(nat \<times> u64) list"
  swap_ok :: bool

definition co_main :: nat where "co_main = 0"

definition ctx_stk :: nat where "ctx_stk = 1"

text \<open>The operations that do not come back end the process with \<open>exit(1)\<close>.\<close>

datatype 'a run = Runs 'a | Exits

section \<open>Sizes\<close>

text \<open>\<open>CO_MIN_SIZE\<close> is \<open>SIGSTKSZ\<close>, 8192 on the targets of the library.\<close>

definition CO_STK_ALIGN :: u64 where "CO_STK_ALIGN = 256"

definition CO_STK_COROSIZE :: "u64 \<Rightarrow> u64" where
  "CO_STK_COROSIZE sizeof = (sizeof + CO_STK_ALIGN - 1) AND NOT (CO_STK_ALIGN - 1)"

definition CO_MIN_SIZE :: u64 where "CO_MIN_SIZE = 8192"

definition co_get_min_stack_size :: "u64 \<Rightarrow> u64" where
  "co_get_min_stack_size sizeof = CO_MIN_SIZE + CO_STK_COROSIZE sizeof"

section \<open>Operations\<close>

text \<open>
  The environment of \<open>co_create\<close>: the size of \<open>coroutine\<close>, the allocator and the outcome of
  \<open>getcontext\<close>.
\<close>

record create_env =
  sizeof_coroutine :: u64
  alloc_mem :: "u64 \<Rightarrow> errno + nat"
  getcontext :: "errno option"

definition co_set_context :: "create_env \<Rightarrow> u64 \<Rightarrow> u64 \<Rightarrow> errno + (co_point \<times> u64 \<times> u64)" where
  "co_set_context env stkbase stksiz =
     (case getcontext env of Some err \<Rightarrow> Inl err | None \<Rightarrow> Inr (In_runner, stkbase, stksiz - 8))"

definition co_free_mem :: "nat \<Rightarrow> u64 \<Rightarrow> cothread_ctx \<Rightarrow> cothread_ctx" where
  "co_free_mem a sz c = c\<lparr>co_mem := (co_mem c)(a := None), co_freed := (a, sz) # co_freed c\<rparr>"

text \<open>The block of a new coroutine: the caller's stack, or one from the allocator.\<close>

definition co_block :: "create_env \<Rightarrow> nat option \<Rightarrow> u64 \<Rightarrow> errno + (nat \<times> u64 \<times> u64)" where
  "co_block env stack sz =
     (let corosize = CO_STK_COROSIZE (sizeof_coroutine env); sz = sz AND NOT 7 in
      case stack of
        Some a \<Rightarrow> if sz < CO_MIN_SIZE + corosize then Inl EINVAL else Inr (a, sz, 0)
      | None \<Rightarrow>
          if sz < CO_MIN_SIZE then Inl EINVAL
          else (case alloc_mem env (sz + corosize) of
                  Inl err \<Rightarrow> Inl err
                | Inr a \<Rightarrow> Inr (a, sz + corosize, sz + corosize)))"

definition co_create :: "create_env \<Rightarrow> co_function \<Rightarrow> nat \<Rightarrow> nat option \<Rightarrow> u64 \<Rightarrow> cothread_ctx \<Rightarrow> (errno + nat) \<times> cothread_ctx" where
  "co_create env f d stack sz c =
     (case co_block env stack sz of
        Inl err \<Rightarrow> (Inl err, c)
      | Inr (a, sz, asize) \<Rightarrow>
          (let corosize = CO_STK_COROSIZE (sizeof_coroutine env) in
           case co_set_context env corosize (sz - corosize) of
             Inl err \<Rightarrow> (Inl err, if asize \<noteq> 0 then co_free_mem a asize c else c)
           | Inr (point, stk) \<Rightarrow>
               (Inr a, c\<lparr>co_mem := (co_mem c)(a \<mapsto>
                          \<lparr>ctx_point = point, ctx_stack = stk, alloc_size = asize, co_caller = None,
                           restarget = None, co_func = f, co_data = d, sheduler_data = 0\<rparr>)\<rparr>)))"

definition co_delete :: "nat option \<Rightarrow> cothread_ctx \<Rightarrow> cothread_ctx run ub" where
  "co_delete coro c =
     (if coro = Some (co_curr c) then Some Exits
      else (case coro of
              None \<Rightarrow> None
            | Some a \<Rightarrow>
                (case co_mem c a of
                   None \<Rightarrow> None
                 | Some co \<Rightarrow> Some (Runs (if alloc_size co \<noteq> 0 then co_free_mem a (alloc_size co) c else c)))))"

text \<open>
  The part of \<open>co_call\<close> up to the switch: \<open>point\<close> is the place where the context of the
  current coroutine will continue.
\<close>

definition co_switch :: "co_point \<Rightarrow> nat option \<Rightarrow> cothread_ctx \<Rightarrow> cothread_ctx run ub" where
  "co_switch point coro c =
     (case coro of
        None \<Rightarrow> None
      | Some a \<Rightarrow>
          (case co_mem c a of
             None \<Rightarrow> None
           | Some co \<Rightarrow>
               (let mem = (co_mem c)(a \<mapsto> co\<lparr>co_caller := Some (co_curr c)\<rparr>) in
                case mem (co_curr c) of
                  None \<Rightarrow> None
                | Some old \<Rightarrow>
                    Some (if swap_ok c
                          then Runs (c\<lparr>co_mem := mem(co_curr c \<mapsto> old\<lparr>ctx_point := point\<rparr>), co_curr := a\<rparr>)
                          else Exits))))"

text \<open>One round of the loop of \<open>co_del_helper\<close>, up to its switch.\<close>

definition co_del_helper :: "coroutine \<Rightarrow> cothread_ctx \<Rightarrow> cothread_ctx run ub" where
  "co_del_helper self c =
     (case co_delete (co_caller self) (c\<lparr>co_dhelper := None\<rparr>) of
        Some (Runs c1) \<Rightarrow> co_switch In_helper (co_dhelper c) c1
      | r \<Rightarrow> r)"

definition set_restarget :: "nat \<Rightarrow> coroutine \<Rightarrow> cothread_ctx \<Rightarrow> cothread_ctx" where
  "set_restarget a co c = c\<lparr>co_mem := (co_mem c)(a \<mapsto> co\<lparr>restarget := co_caller co\<rparr>)\<rparr>"

text \<open>
  What the library runs after a switch to the current coroutine, until code of the caller runs again.
  The test of \<open>co_dhelper\<close> in the helper only prints a message.
\<close>

lemma co_delete_dhelper: "co_delete coro c = Some (Runs c') \<Longrightarrow> co_dhelper c' = co_dhelper c"
  by (auto simp: co_delete_def co_free_mem_def split: if_splits option.splits)

lemma co_switch_dhelper: "co_switch point coro c = Some (Runs c') \<Longrightarrow> coro \<noteq> None \<and> co_dhelper c' = co_dhelper c"
  by (auto simp: co_switch_def Let_def split: if_splits option.splits)

lemma co_del_helper_dhelper:
  "co_del_helper self c = Some (Runs c') \<Longrightarrow> co_dhelper c' = None \<and> co_dhelper c \<noteq> None"
  by (auto simp: co_del_helper_def dest!: co_delete_dhelper co_switch_dhelper split: option.splits run.splits)

function co_land :: "cothread_ctx \<Rightarrow> cothread_ctx run ub" where
  "co_land c =
     (case co_mem c (co_curr c) of
        None \<Rightarrow> None
      | Some co \<Rightarrow>
          (case ctx_point co of
             In_user \<Rightarrow> Some (Runs c)
           | In_resume \<Rightarrow> Some (Runs (set_restarget (co_curr c) co c))
           | In_exit \<Rightarrow> Some Exits
           | In_runner \<Rightarrow>
               (case co_func co of
                  Thread_fn f \<Rightarrow> Some (Runs (set_restarget (co_curr c) co c))
                | Del_helper \<Rightarrow>
                    (case co_del_helper co (set_restarget (co_curr c) co c) of
                       Some (Runs c') \<Rightarrow> co_land c' | r \<Rightarrow> r))
           | In_helper \<Rightarrow> (case co_del_helper co c of Some (Runs c') \<Rightarrow> co_land c' | r \<Rightarrow> r)))"
  by pat_completeness auto
termination
  by (relation "measure (\<lambda>c. case co_dhelper c of None \<Rightarrow> 0 | Some _ \<Rightarrow> 1)")
    (auto dest!: co_del_helper_dhelper simp: set_restarget_def split: option.splits)

declare co_land.simps [simp del]

definition co_land_after :: "cothread_ctx run ub \<Rightarrow> cothread_ctx run ub" where
  "co_land_after r = (case r of Some (Runs c) \<Rightarrow> co_land c | r \<Rightarrow> r)"

definition co_call :: "nat option \<Rightarrow> cothread_ctx \<Rightarrow> cothread_ctx run ub" where
  "co_call coro c = co_land_after (co_switch In_user coro c)"

definition co_resume :: "cothread_ctx \<Rightarrow> cothread_ctx run ub" where
  "co_resume c =
     (case co_mem c (co_curr c) of
        None \<Rightarrow> None
      | Some co \<Rightarrow> co_land_after (co_switch In_resume (restarget co) c))"

definition co_exit_to :: "create_env \<Rightarrow> nat option \<Rightarrow> cothread_ctx \<Rightarrow> cothread_ctx run ub" where
  "co_exit_to env coro c =
     (case (case dchelper c of
              Some h \<Rightarrow> (Inr h, c)
            | None \<Rightarrow> co_create env Del_helper 0 (Some ctx_stk) (co_get_min_stack_size (sizeof_coroutine env)) c) of
        (Inl _, _) \<Rightarrow> Some Exits
      | (Inr h, c) \<Rightarrow>
          co_land_after (co_switch In_exit (Some h) (c\<lparr>dchelper := Some h, co_dhelper := coro\<rparr>)))"

text \<open>\<open>co_exit\<close>; it is also what \<open>co_runner\<close> does when the function of a coroutine returns.\<close>

definition co_exit :: "create_env \<Rightarrow> cothread_ctx \<Rightarrow> cothread_ctx run ub" where
  "co_exit env c =
     (case co_mem c (co_curr c) of None \<Rightarrow> None | Some co \<Rightarrow> co_exit_to env (restarget co) c)"

text \<open>
  The contexts of a thread: its own one, kept under a key that \<open>co_once_init\<close> creates, or else
  one for the whole process, whose current coroutine is null before the first use.
\<close>

record co_thread_env =
  valid_key :: bool
  once_status :: nat
  calloc_ok :: bool
  setspecific_status :: nat

definition new_ctx :: "bool \<Rightarrow> cothread_ctx" where
  "new_ctx ok =
     \<lparr>co_curr = co_main, co_dhelper = None, dchelper = None,
      co_mem = [co_main \<mapsto> \<lparr>ctx_point = In_user, ctx_stack = (0, 0), alloc_size = 0, co_caller = None,
                             restarget = None, co_func = Thread_fn 0, co_data = 0, sheduler_data = 0\<rparr>],
      co_freed = [], swap_ok = ok\<rparr>"

definition co_thread_init :: "co_thread_env \<Rightarrow> bool \<Rightarrow> cothread_ctx option \<Rightarrow> bool \<times> cothread_ctx option" where
  "co_thread_init env ok specific =
     (if once_status env \<noteq> 0 \<or> \<not> valid_key env \<or> \<not> calloc_ok env \<or> setspecific_status env \<noteq> 0
      then (False, specific) else (True, Some (new_ctx ok)))"

definition co_get_thread_ctx :: "bool \<Rightarrow> cothread_ctx option \<Rightarrow> cothread_ctx \<Rightarrow> cothread_ctx" where
  "co_get_thread_ctx valid specific global_ctx =
     (if valid then (case specific of Some c \<Rightarrow> c | None \<Rightarrow> global_ctx) else global_ctx)"

definition co_current :: "cothread_ctx \<Rightarrow> nat" where
  "co_current c = co_curr c"

definition co_get_data :: "nat \<Rightarrow> cothread_ctx \<Rightarrow> nat ub" where
  "co_get_data a c = map_option co_data (co_mem c a)"

definition co_set_data :: "nat \<Rightarrow> nat \<Rightarrow> cothread_ctx \<Rightarrow> (nat \<times> cothread_ctx) ub" where
  "co_set_data a d c =
     map_option (\<lambda>co. (co_data co, c\<lparr>co_mem := (co_mem c)(a \<mapsto> co\<lparr>co_data := d\<rparr>)\<rparr>)) (co_mem c a)"

definition co_get_scheduler_data :: "nat \<Rightarrow> cothread_ctx \<Rightarrow> nat ub" where
  "co_get_scheduler_data a c = map_option sheduler_data (co_mem c a)"

definition co_set_scheduler_data :: "nat \<Rightarrow> nat \<Rightarrow> cothread_ctx \<Rightarrow> (nat \<times> cothread_ctx) ub" where
  "co_set_scheduler_data a d c =
     map_option (\<lambda>co. (sheduler_data co, c\<lparr>co_mem := (co_mem c)(a \<mapsto> co\<lparr>sheduler_data := d\<rparr>)\<rparr>)) (co_mem c a)"

section \<open>Stacks\<close>

lemma and_not_mask: "w AND NOT (mask n) = w - take_bit n (w :: u64)"
proof -
  have "w AND NOT (mask n) = push_bit n (drop_bit n w)"
    by (rule bit_eqI) (auto simp: bit_simps)
  also have "\<dots> = w - take_bit n w"
    using bits_ident [of n w] by (simp add: algebra_simps)
  finally show ?thesis .
qed

lemma unat_and_not_mask: "unat (w AND NOT (mask n)) = unat (w :: u64) - unat w mod 2 ^ n"
proof -
  have t: "unat (take_bit n w) = unat w mod 2 ^ n"
    by (simp add: unsigned_take_bit_eq take_bit_nat_def)
  then have "take_bit n w \<le> w" by (simp add: word_le_nat_alt)
  with t show ?thesis by (simp add: and_not_mask unat_sub)
qed

lemma mask_sizes: "(7 :: u64) = mask 3" "(255 :: u64) = mask 8"
  by (simp_all add: mask_eq_exp_minus_1)

lemma unat_and_not_7: "unat (w AND NOT 7) = unat (w :: u64) - unat w mod 8"
  using unat_and_not_mask [of w 3] by (simp only: mask_sizes) simp

lemma unat_corosize:
  "unat sizeof + 255 < 2 ^ 64 \<Longrightarrow> unat (CO_STK_COROSIZE sizeof) = unat sizeof + 255 - (unat sizeof + 255) mod 256"
proof -
  assume lim: "unat sizeof + 255 < 2 ^ 64"
  then have "unat (sizeof + 255) = unat sizeof + 255"
    by (simp add: unat_word_ariths)
  moreover have "CO_STK_COROSIZE sizeof = (sizeof + 255) AND NOT (mask 8)"
    by (simp add: CO_STK_COROSIZE_def CO_STK_ALIGN_def mask_sizes(2) [symmetric] add.commute)
  ultimately show ?thesis
    using unat_and_not_mask [of "sizeof + 255" 8] by simp
qed

lemma corosize_bounds:
  assumes "unat sizeof \<le> 2 ^ 20"
  shows "unat sizeof \<le> unat (CO_STK_COROSIZE sizeof)" "unat (CO_STK_COROSIZE sizeof) \<le> 2 ^ 20 + 255"
    and "8 dvd unat (CO_STK_COROSIZE sizeof)"
proof -
  let ?n = "unat sizeof + 255"
  have eq: "unat (CO_STK_COROSIZE sizeof) = ?n - ?n mod 256"
    using assms by (intro unat_corosize) simp
  have "?n mod 256 < 256" by simp
  with eq assms show "unat sizeof \<le> unat (CO_STK_COROSIZE sizeof)" "unat (CO_STK_COROSIZE sizeof) \<le> 2 ^ 20 + 255"
    by linarith+
  have "?n - ?n mod 256 = 256 * (?n div 256)" by (simp add: minus_mod_eq_mult_div)
  then show "8 dvd unat (CO_STK_COROSIZE sizeof)"
    using eq by (simp add: dvd_mult2)
qed

lemma unat_min_stack_size:
  "unat sizeof \<le> 2 ^ 20 \<Longrightarrow> unat (co_get_min_stack_size sizeof) = 8192 + unat (CO_STK_COROSIZE sizeof)"
  using corosize_bounds(2) [of sizeof]
  by (simp add: co_get_min_stack_size_def CO_MIN_SIZE_def unat_word_ariths)

lemma min_stack_size_aligned:
  assumes "unat sizeof \<le> 2 ^ 20"
  shows "co_get_min_stack_size sizeof AND NOT 7 = co_get_min_stack_size sizeof"
proof -
  have "unat (co_get_min_stack_size sizeof) mod 8 = 0"
    using corosize_bounds(3) [OF assms] by (simp add: unat_min_stack_size [OF assms] dvd_eq_mod_eq_0 [symmetric])
  then show ?thesis
    unfolding word_unat_eq_iff unat_and_not_7 by simp
qed

text \<open>What a successful \<open>co_create\<close> has done.\<close>

lemma co_create_Inr:
  assumes "co_create env f d stack sz c = (Inr a, c')"
  obtains blk asize where "co_block env stack sz = Inr (a, blk, asize)" "getcontext env = None"
    and "c' = c\<lparr>co_mem := (co_mem c)(a \<mapsto>
           \<lparr>ctx_point = In_runner,
            ctx_stack = (CO_STK_COROSIZE (sizeof_coroutine env), blk - CO_STK_COROSIZE (sizeof_coroutine env) - 8),
            alloc_size = asize, co_caller = None, restarget = None, co_func = f, co_data = d, sheduler_data = 0\<rparr>)\<rparr>"
  using assms
  by (auto simp: co_create_def co_set_context_def Let_def split: sum.splits option.splits)

text \<open>The block holds the coroutine and its stack, if the size of the stack leaves room for the coroutine.\<close>

lemma co_block_fits:
  assumes blk: "co_block env stack sz = Inr (a, blk, asize)"
    and sizeof: "unat (sizeof_coroutine env) \<le> 2 ^ 20"
    and room: "stack = None \<Longrightarrow> unat sz + 2 ^ 21 < 2 ^ 64"
  shows "unat (CO_STK_COROSIZE (sizeof_coroutine env)) + 8192 \<le> unat blk"
    and "stack = None \<Longrightarrow> asize = blk \<and> asize \<noteq> 0 \<and> alloc_mem env blk = Inr a"
    and "stack = Some b \<Longrightarrow> a = b \<and> asize = 0 \<and> unat blk \<le> unat sz"
proof -
  let ?k = "CO_STK_COROSIZE (sizeof_coroutine env)"
  have k: "unat ?k \<le> 2 ^ 20 + 255" using sizeof by (rule corosize_bounds)
  have minsz: "unat (CO_MIN_SIZE + ?k) = 8192 + unat ?k"
    using unat_min_stack_size [OF sizeof] by (simp add: co_get_min_stack_size_def)
  have le: "unat (sz AND NOT 7) \<le> unat sz" unfolding unat_and_not_7 by simp
  have "unat ?k + 8192 \<le> unat blk \<and> (stack = None \<longrightarrow> asize = blk \<and> asize \<noteq> 0 \<and> alloc_mem env blk = Inr a)
      \<and> (\<forall>b. stack = Some b \<longrightarrow> a = b \<and> asize = 0 \<and> unat blk \<le> unat sz)"
  proof (cases stack)
    case None
    define s where "s = sz AND NOT 7"
    from None blk have s: "\<not> s < CO_MIN_SIZE" "blk = s + ?k" "asize = blk" "alloc_mem env blk = Inr a"
      unfolding co_block_def Let_def s_def [symmetric] by (auto split: if_splits sum.splits)
    have "unat s + unat ?k < 2 ^ 64"
      using le [folded s_def] room [OF None] k by simp
    then have sum: "unat (s + ?k) = unat s + unat ?k" by (simp add: unat_word_ariths)
    have "8192 \<le> unat s" using s(1) by (simp add: word_less_nat_alt CO_MIN_SIZE_def)
    with s sum None show ?thesis by (auto simp: unat_eq_0 [symmetric])
  next
    case (Some b)
    define s where "s = sz AND NOT 7"
    from Some blk have s: "\<not> s < CO_MIN_SIZE + ?k" "blk = s" "asize = 0" "a = b"
      unfolding co_block_def Let_def s_def [symmetric] by (auto split: if_splits)
    with minsz Some le show ?thesis by (auto simp: word_less_nat_alt s_def)
  qed
  then show "unat ?k + 8192 \<le> unat blk"
    and "stack = None \<Longrightarrow> asize = blk \<and> asize \<noteq> 0 \<and> alloc_mem env blk = Inr a"
    and "stack = Some b \<Longrightarrow> a = b \<and> asize = 0 \<and> unat blk \<le> unat sz"
    by blast+
qed

section \<open>Leaving a coroutine\<close>

text \<open>
  The helper waits for its next task: it has not been created, or it sits in the switch of its loop.
  \<open>landed\<close> is what a coroutine looks like when the switch to it is complete.
\<close>

definition helper_parked :: "cothread_ctx \<Rightarrow> bool" where
  "helper_parked c \<longleftrightarrow> co_dhelper c = None \<and>
     (case dchelper c of
        None \<Rightarrow> co_mem c ctx_stk = None
      | Some h \<Rightarrow> h = ctx_stk \<and> (\<exists>x. co_mem c h = Some x \<and> ctx_point x = In_helper \<and> alloc_size x = 0))"

definition landed :: "nat \<Rightarrow> coroutine \<Rightarrow> coroutine" where
  "landed from co =
     (let co = co\<lparr>co_caller := Some from\<rparr> in
      if ctx_point co = In_user then co else co\<lparr>restarget := Some from\<rparr>)"

definition can_enter :: "coroutine \<Rightarrow> bool" where
  "can_enter co \<longleftrightarrow> (case ctx_point co of
     In_runner \<Rightarrow> co_func co \<noteq> Del_helper | In_user \<Rightarrow> True | In_resume \<Rightarrow> True | _ \<Rightarrow> False)"

lemma can_enter_caller [simp]: "can_enter (co\<lparr>co_caller := x\<rparr>) = can_enter co"
  by (simp add: can_enter_def split: co_point.split)

lemma co_land_enter:
  assumes "co_mem c (co_curr c) = Some co" "can_enter co"
  shows "co_land c = Some (Runs (if ctx_point co = In_user then c else set_restarget (co_curr c) co c))"
  using assms by (subst co_land.simps) (auto simp: can_enter_def split: co_point.splits co_function.splits)

lemma co_call_enter:
  assumes "swap_ok c" "co_mem c (co_curr c) = Some me" "co_mem c a = Some co" "a \<noteq> co_curr c" "can_enter co"
  shows "co_call (Some a) c = Some (Runs (c\<lparr>co_curr := a,
     co_mem := (co_mem c)(co_curr c \<mapsto> me\<lparr>ctx_point := In_user\<rparr>, a \<mapsto> landed (co_curr c) co)\<rparr>))"
proof -
  let ?c = "c\<lparr>co_mem := (co_mem c)(a \<mapsto> co\<lparr>co_caller := Some (co_curr c)\<rparr>,
              co_curr c \<mapsto> me\<lparr>ctx_point := In_user\<rparr>), co_curr := a\<rparr>"
  have "co_switch In_user (Some a) c = Some (Runs ?c)"
    using assms by (simp add: co_switch_def)
  moreover have "co_land ?c = Some (Runs (if ctx_point co = In_user then ?c
      else set_restarget a (co\<lparr>co_caller := Some (co_curr c)\<rparr>) ?c))"
    using co_land_enter [of ?c "co\<lparr>co_caller := Some (co_curr c)\<rparr>"] assms by simp
  ultimately show ?thesis
    using assms by (auto simp: co_call_def co_land_after_def set_restarget_def landed_def Let_def fun_upd_twist)
qed

text \<open>The state after the helper has deleted coroutine \<open>me\<close> and switched to \<open>t\<close>.\<close>

definition after_exit :: "nat \<Rightarrow> coroutine \<Rightarrow> nat \<Rightarrow> coroutine \<Rightarrow> coroutine \<Rightarrow> cothread_ctx \<Rightarrow> cothread_ctx" where
  "after_exit me mm t co x c =
     (let c = (if alloc_size mm \<noteq> 0 then co_free_mem me (alloc_size mm) c else c) in
      c\<lparr>co_curr := t, co_dhelper := None,
        co_mem := (co_mem c)(ctx_stk \<mapsto> x\<lparr>ctx_point := In_helper\<rparr>, t \<mapsto> landed ctx_stk co)\<rparr>)"

lemma co_del_helper_round:
  assumes "swap_ok c" "co_curr c = ctx_stk" "co_mem c ctx_stk = Some y" "co_caller x = Some me" "me \<noteq> ctx_stk"
    and "co_mem c me = Some mm" "co_dhelper c = Some t" "t \<noteq> me" "t \<noteq> ctx_stk" "co_mem c t = Some co" "can_enter co"
  shows "(case co_del_helper x c of Some (Runs c') \<Rightarrow> co_land c' | r \<Rightarrow> r) = Some (Runs (after_exit me mm t co y c))"
proof -
  let ?d = "if alloc_size mm \<noteq> 0 then co_free_mem me (alloc_size mm) (c\<lparr>co_dhelper := None\<rparr>) else c\<lparr>co_dhelper := None\<rparr>"
  let ?co = "co\<lparr>co_caller := Some ctx_stk\<rparr>"
  let ?e = "?d\<lparr>co_mem := (co_mem ?d)(t \<mapsto> ?co, ctx_stk \<mapsto> y\<lparr>ctx_point := In_helper\<rparr>), co_curr := t\<rparr>"
  have "co_del_helper x c = Some (Runs ?e)"
    using assms by (simp add: co_del_helper_def co_delete_def co_switch_def co_free_mem_def)
  moreover have "co_land ?e = Some (Runs (if ctx_point ?co = In_user then ?e else set_restarget t ?co ?e))"
    using co_land_enter [of ?e ?co] assms by simp
  ultimately show ?thesis
    using assms
    by (auto simp: after_exit_def co_free_mem_def set_restarget_def landed_def Let_def fun_upd_twist)
qed

lemma co_land_helper:
  assumes "swap_ok c" "co_curr c = ctx_stk" "co_mem c ctx_stk = Some x" "co_caller x = Some me" "me \<noteq> ctx_stk"
    and "co_mem c me = Some mm" "co_dhelper c = Some t" "t \<noteq> me" "t \<noteq> ctx_stk" "co_mem c t = Some co" "can_enter co"
    and "ctx_point x = In_helper \<or> ctx_point x = In_runner \<and> co_func x = Del_helper"
  shows "\<exists>y. co_land c = Some (Runs (after_exit me mm t co y c)) \<and> alloc_size y = alloc_size x"
proof (cases "ctx_point x = In_helper")
  case True
  then have "co_land c = (case co_del_helper x c of Some (Runs c') \<Rightarrow> co_land c' | r \<Rightarrow> r)"
    using assms(2,3) by (subst co_land.simps) simp
  then show ?thesis
    using co_del_helper_round [OF assms(1-11)] by auto
next
  case False
  let ?y = "x\<lparr>restarget := co_caller x\<rparr>"
  let ?c = "set_restarget ctx_stk x c"
  have "co_land c = (case co_del_helper x ?c of Some (Runs c') \<Rightarrow> co_land c' | r \<Rightarrow> r)"
    using assms(2,3,12) False by (subst co_land.simps) simp
  also have "\<dots> = Some (Runs (after_exit me mm t co ?y ?c))"
    using assms by (intro co_del_helper_round) (simp_all add: set_restarget_def)
  also have "after_exit me mm t co ?y ?c = after_exit me mm t co ?y c"
    using assms(5) by (auto simp: after_exit_def set_restarget_def co_free_mem_def Let_def fun_upd_twist)
  finally show ?thesis by (intro exI [of _ ?y]) simp
qed

definition helper_env :: "create_env \<Rightarrow> bool" where
  "helper_env env \<longleftrightarrow> getcontext env = None \<and> unat (sizeof_coroutine env) \<le> 2 ^ 20"

lemma helper_create:
  assumes "helper_env env"
  obtains x where "co_create env Del_helper 0 (Some ctx_stk) (co_get_min_stack_size (sizeof_coroutine env)) c
      = (Inr ctx_stk, c\<lparr>co_mem := (co_mem c)(ctx_stk \<mapsto> x)\<rparr>)"
    and "ctx_point x = In_runner" "co_func x = Del_helper" "alloc_size x = 0"
proof -
  let ?sz = "co_get_min_stack_size (sizeof_coroutine env)"
  have "co_block env (Some ctx_stk) ?sz = Inr (ctx_stk, ?sz, 0)"
    using min_stack_size_aligned [of "sizeof_coroutine env"] assms
    unfolding co_block_def Let_def helper_env_def co_get_min_stack_size_def by simp
  then show ?thesis
    using assms that by (auto simp: co_create_def co_set_context_def helper_env_def Let_def)
qed

lemma co_exit_to_ok:
  assumes c: "swap_ok c" "helper_parked c" "helper_env env"
    and me: "co_mem c (co_curr c) = Some me" "co_curr c \<noteq> ctx_stk"
    and t: "co_mem c t = Some co" "t \<noteq> co_curr c" "t \<noteq> ctx_stk" "can_enter co"
  obtains y where "alloc_size y = 0"
    "co_exit_to env (Some t) c = Some (Runs (after_exit (co_curr c) (me\<lparr>ctx_point := In_exit\<rparr>) t co y
       (c\<lparr>dchelper := Some ctx_stk, co_mem := (co_mem c)(co_curr c \<mapsto> me\<lparr>ctx_point := In_exit\<rparr>)\<rparr>)))"
proof -
  obtain x where h: "(case dchelper c of Some h \<Rightarrow> (Inr h, c)
            | None \<Rightarrow> co_create env Del_helper 0 (Some ctx_stk) (co_get_min_stack_size (sizeof_coroutine env)) c)
        = (Inr ctx_stk, c\<lparr>co_mem := (co_mem c)(ctx_stk \<mapsto> x)\<rparr>)"
    and x: "ctx_point x = In_helper \<or> ctx_point x = In_runner \<and> co_func x = Del_helper" "alloc_size x = 0"
  proof (cases "dchelper c")
    case None
    obtain x where "co_create env Del_helper 0 (Some ctx_stk) (co_get_min_stack_size (sizeof_coroutine env)) c
          = (Inr ctx_stk, c\<lparr>co_mem := (co_mem c)(ctx_stk \<mapsto> x)\<rparr>)"
      and "ctx_point x = In_runner" "co_func x = Del_helper" "alloc_size x = 0"
      by (rule helper_create [OF c(3)])
    with None show ?thesis by (intro that [of x]) simp_all
  next
    case (Some h)
    with c(2) obtain x where "h = ctx_stk" "co_mem c ctx_stk = Some x" "ctx_point x = In_helper" "alloc_size x = 0"
      by (auto simp: helper_parked_def)
    with Some show ?thesis by (intro that [of x]) (simp_all add: fun_upd_idem)
  qed
  let ?me = "me\<lparr>ctx_point := In_exit\<rparr>" and ?x = "x\<lparr>co_caller := Some (co_curr c)\<rparr>"
  let ?c = "c\<lparr>dchelper := Some ctx_stk, co_dhelper := Some t,
              co_mem := (co_mem c)(ctx_stk \<mapsto> ?x, co_curr c \<mapsto> ?me), co_curr := ctx_stk\<rparr>"
  have "co_exit_to env (Some t) c = co_land ?c"
    using c(1) me by (simp add: co_exit_to_def h co_switch_def co_land_after_def)
  moreover have "\<exists>y. co_land ?c = Some (Runs (after_exit (co_curr c) ?me t co y ?c)) \<and> alloc_size y = alloc_size ?x"
    by (rule co_land_helper) (use c(1) me t x in simp_all)
  moreover have "after_exit (co_curr c) ?me t co y ?c
      = after_exit (co_curr c) ?me t co y (c\<lparr>dchelper := Some ctx_stk, co_mem := (co_mem c)(co_curr c \<mapsto> ?me)\<rparr>)" for y
    using me(2) t(3) by (auto simp: after_exit_def co_free_mem_def Let_def fun_upd_twist)
  ultimately show ?thesis using that x(2) by auto
qed

lemma co_exit_state:
  assumes "swap_ok c" "helper_parked c" "helper_env env"
    and "co_mem c (co_curr c) = Some me" "co_curr c \<noteq> ctx_stk" "restarget me = Some t"
    and "co_mem c t = Some co" "t \<noteq> co_curr c" "t \<noteq> ctx_stk" "can_enter co"
  shows "\<exists>c'. co_exit env c = Some (Runs c') \<and> swap_ok c' \<and> co_curr c' = t \<and> helper_parked c' \<and>
    co_mem c' t = Some (landed ctx_stk co) \<and>
    (\<forall>b. b \<notin> {co_curr c, t, ctx_stk} \<longrightarrow> co_mem c' b = co_mem c b) \<and>
    co_mem c' (co_curr c) = (if alloc_size me = 0 then Some (me\<lparr>ctx_point := In_exit\<rparr>) else None) \<and>
    co_freed c' = (if alloc_size me = 0 then co_freed c else (co_curr c, alloc_size me) # co_freed c)"
proof -
  let ?me = "me\<lparr>ctx_point := In_exit\<rparr>"
  obtain y where y: "alloc_size y = 0" and *: "co_exit_to env (Some t) c = Some (Runs (after_exit (co_curr c) ?me t co y
       (c\<lparr>dchelper := Some ctx_stk, co_mem := (co_mem c)(co_curr c \<mapsto> ?me)\<rparr>)))"
    by (rule co_exit_to_ok [OF assms(1-5,7-10)])
  from * have "co_exit env c = Some (Runs (after_exit (co_curr c) ?me t co y
       (c\<lparr>dchelper := Some ctx_stk, co_mem := (co_mem c)(co_curr c \<mapsto> ?me)\<rparr>)))"
    using assms by (simp add: co_exit_def)
  then show ?thesis
    using y assms
    by (auto simp: after_exit_def co_free_mem_def helper_parked_def Let_def)
qed

section \<open>The coroutines of a core\<close>

text \<open>
  The way the scheduler uses coroutines: the main coroutine of a thread calls them, they call the
  main coroutine, and their functions return. Any coroutine may create others.
\<close>

definition threads :: "cothread_ctx \<Rightarrow> nat set" where
  "threads c = dom (co_mem c) - {co_main, ctx_stk}"

text \<open>The allocator hands out blocks that are not in use, and the requested size leaves room for the coroutine.\<close>

definition good_alloc :: "create_env \<Rightarrow> u64 \<Rightarrow> cothread_ctx \<Rightarrow> bool" where
  "good_alloc env sz c \<longleftrightarrow> unat (sizeof_coroutine env) \<le> 2 ^ 20 \<and> unat sz + 2 ^ 21 < 2 ^ 64 \<and>
     (\<forall>n a. alloc_mem env n = Inr a \<longrightarrow> co_mem c a = None \<and> a \<noteq> ctx_stk)"

definition allocated :: "create_env \<Rightarrow> u64 \<Rightarrow> (nat \<times> u64) list" where
  "allocated env sz = (case co_block env None sz of Inr (a, blk, _) \<Rightarrow> [(a, blk)] | Inl _ \<Rightarrow> [])"

inductive core_reach :: "create_env \<Rightarrow> (nat \<times> u64) list \<Rightarrow> cothread_ctx \<Rightarrow> bool" for henv where
  start: "core_reach henv [] (new_ctx True)"
| create: "core_reach henv al c \<Longrightarrow> good_alloc env sz c \<Longrightarrow> co_create env (Thread_fn f) d None sz c = (r, c')
    \<Longrightarrow> core_reach henv (allocated env sz @ al) c'"
| enter: "core_reach henv al c \<Longrightarrow> co_current c = co_main \<Longrightarrow> a \<in> threads c \<Longrightarrow> co_call (Some a) c = Some (Runs c')
    \<Longrightarrow> core_reach henv al c'"
| leave: "core_reach henv al c \<Longrightarrow> co_current c \<noteq> co_main \<Longrightarrow> co_call (Some co_main) c = Some (Runs c')
    \<Longrightarrow> core_reach henv al c'"
| finish: "core_reach henv al c \<Longrightarrow> co_current c \<noteq> co_main \<Longrightarrow> co_exit henv c = Some (Runs c')
    \<Longrightarrow> core_reach henv al c'"
| mark: "core_reach henv al c \<Longrightarrow> co_set_scheduler_data a d c = Some (old, c') \<Longrightarrow> core_reach henv al c'"

definition thread_ok :: "nat \<Rightarrow> nat \<Rightarrow> coroutine \<Rightarrow> bool" where
  "thread_ok cur a co \<longleftrightarrow> alloc_size co \<noteq> 0 \<and> co_func co \<noteq> Del_helper \<and>
     (ctx_point co = In_user \<or> ctx_point co = In_runner) \<and>
     (ctx_point co = In_user \<or> a = cur \<longrightarrow> restarget co = Some co_main)"

definition core_inv :: "cothread_ctx \<Rightarrow> bool" where
  "core_inv c \<longleftrightarrow> swap_ok c \<and> helper_parked c \<and> finite (dom (co_mem c)) \<and>
     (\<exists>m. co_mem c co_main = Some m \<and> ctx_point m = In_user) \<and>
     (co_curr c = co_main \<or> co_curr c \<in> threads c) \<and>
     (\<forall>a\<in>threads c. \<forall>co. co_mem c a = Some co \<longrightarrow> thread_ok (co_curr c) a co)"

definition live_blocks :: "cothread_ctx \<Rightarrow> (nat \<times> u64) multiset" where
  "live_blocks c = image_mset (\<lambda>a. (a, alloc_size (the (co_mem c a)))) (mset_set (threads c))"

lemma main_stk [simp]: "co_main \<noteq> ctx_stk" "ctx_stk \<noteq> co_main"
  by (simp_all add: co_main_def ctx_stk_def)

lemma threads_iff: "a \<in> threads c \<longleftrightarrow> co_mem c a \<noteq> None \<and> a \<noteq> co_main \<and> a \<noteq> ctx_stk"
  by (auto simp: threads_def)

lemma thread_can_enter: "thread_ok cur a co \<Longrightarrow> can_enter co"
  by (auto simp: thread_ok_def can_enter_def)

lemma core_inv_finite: "core_inv c \<Longrightarrow> finite (threads c)"
  by (simp add: core_inv_def threads_def)

text \<open>Operations that keep the blocks of the coroutines keep what is live.\<close>

lemma live_blocks_cong:
  assumes "threads c' = threads c" "\<And>a. a \<in> threads c \<Longrightarrow> alloc_size (the (co_mem c' a)) = alloc_size (the (co_mem c a))"
  shows "live_blocks c' = live_blocks c"
proof (cases "finite (threads c)")
  case True
  then show ?thesis using assms by (auto simp: live_blocks_def intro!: image_mset_cong)
qed (simp add: live_blocks_def assms)

lemma core_inv_thread:
  assumes "core_inv c" "a \<in> threads c"
  obtains co where "co_mem c a = Some co" "thread_ok (co_curr c) a co" "a \<noteq> co_main" "a \<noteq> ctx_stk"
  using assms by (auto simp: core_inv_def threads_iff)

lemma core_enter:
  assumes inv: "core_inv c" and main: "co_curr c = co_main" and a: "a \<in> threads c"
  shows "\<exists>c'. co_call (Some a) c = Some (Runs c') \<and> core_inv c' \<and> co_curr c' = a \<and> threads c' = threads c \<and>
    live_blocks c' = live_blocks c \<and> co_freed c' = co_freed c"
proof -
  obtain co where co: "co_mem c a = Some co" "thread_ok (co_curr c) a co" "a \<noteq> co_main" "a \<noteq> ctx_stk"
    using inv a by (rule core_inv_thread)
  obtain m where m: "co_mem c co_main = Some m" "ctx_point m = In_user" "swap_ok c"
    using inv by (auto simp: core_inv_def)
  let ?c = "c\<lparr>co_curr := a, co_mem := (co_mem c)(co_main \<mapsto> m\<lparr>ctx_point := In_user\<rparr>, a \<mapsto> landed co_main co)\<rparr>"
  have call: "co_call (Some a) c = Some (Runs ?c)"
    using co_call_enter [of c m a co] m co main thread_can_enter [OF co(2)] by simp
  have thr: "threads ?c = threads c" using co m by (auto simp: threads_def)
  moreover have "live_blocks ?c = live_blocks c"
    using thr co by (intro live_blocks_cong) (auto simp: landed_def Let_def threads_iff)
  moreover have "thread_ok a a (landed co_main co)"
    using co(2) by (auto simp: thread_ok_def landed_def Let_def)
  then have "core_inv ?c"
    using inv main thr a co m
    by (auto simp: core_inv_def helper_parked_def threads_iff thread_ok_def split: option.splits)
  ultimately show ?thesis using call by simp
qed

lemma core_leave:
  assumes inv: "core_inv c" and main: "co_curr c \<noteq> co_main"
  shows "\<exists>c'. co_call (Some co_main) c = Some (Runs c') \<and> core_inv c' \<and> co_curr c' = co_main \<and> threads c' = threads c \<and>
    live_blocks c' = live_blocks c \<and> co_freed c' = co_freed c"
proof -
  have a: "co_curr c \<in> threads c" using inv main by (auto simp: core_inv_def)
  obtain co where co: "co_mem c (co_curr c) = Some co" "thread_ok (co_curr c) (co_curr c) co" "co_curr c \<noteq> co_main" "co_curr c \<noteq> ctx_stk"
    using inv a by (rule core_inv_thread)
  obtain m where m: "co_mem c co_main = Some m" "ctx_point m = In_user" "swap_ok c"
    using inv by (auto simp: core_inv_def)
  let ?c = "c\<lparr>co_curr := co_main, co_mem := (co_mem c)(co_curr c \<mapsto> co\<lparr>ctx_point := In_user\<rparr>, co_main \<mapsto> landed (co_curr c) m)\<rparr>"
  have call: "co_call (Some co_main) c = Some (Runs ?c)"
    using co_call_enter [of c co co_main m] m co main by (simp add: can_enter_def)
  have thr: "threads ?c = threads c" using co m by (auto simp: threads_def)
  moreover have "live_blocks ?c = live_blocks c"
    using thr co by (intro live_blocks_cong) (auto simp: threads_iff)
  moreover have "core_inv ?c"
    using inv main thr a co m
    by (auto simp: core_inv_def helper_parked_def threads_iff thread_ok_def landed_def Let_def split: option.splits)
  ultimately show ?thesis using call by simp
qed

lemma core_finish:
  assumes inv: "core_inv c" and main: "co_curr c \<noteq> co_main" and env: "helper_env env"
  shows "\<exists>c'. co_exit env c = Some (Runs c') \<and> core_inv c' \<and> co_curr c' = co_main \<and> threads c' = threads c - {co_curr c} \<and>
    mset (co_freed c') + live_blocks c' = mset (co_freed c) + live_blocks c"
proof -
  let ?a = "co_curr c"
  have a: "?a \<in> threads c" using inv main by (auto simp: core_inv_def)
  obtain co where co: "co_mem c ?a = Some co" "thread_ok ?a ?a co" "?a \<noteq> co_main" "?a \<noteq> ctx_stk"
    using inv a by (rule core_inv_thread)
  obtain m where m: "co_mem c co_main = Some m" "ctx_point m = In_user" "swap_ok c" "helper_parked c"
    using inv by (auto simp: core_inv_def)
  obtain c' where c': "co_exit env c = Some (Runs c')" "swap_ok c'" "co_curr c' = co_main" "helper_parked c'"
      "co_mem c' co_main = Some (landed ctx_stk m)" "\<And>b. b \<notin> {?a, co_main, ctx_stk} \<Longrightarrow> co_mem c' b = co_mem c b"
      "co_mem c' ?a = None" "co_freed c' = (?a, alloc_size co) # co_freed c"
    using co_exit_state [OF m(3,4) env co(1,4), of co_main m] co m main
    by (auto simp: thread_ok_def can_enter_def)
  have thr: "threads c' = threads c - {?a}"
  proof (rule set_eqI)
    fix b show "b \<in> threads c' \<longleftrightarrow> b \<in> threads c - {?a}"
      using c'(6) [of b] c'(7) by (cases "b \<in> {?a, co_main, ctx_stk}") (force simp: threads_iff, simp add: threads_iff)
  qed
  have fin: "finite (threads c)" using inv by (rule core_inv_finite)
  have "live_blocks c = add_mset (?a, alloc_size co) (image_mset (\<lambda>a. (a, alloc_size (the (co_mem c a)))) (mset_set (threads c - {?a})))"
    using fin a co by (simp add: live_blocks_def mset_set.remove)
  moreover have "live_blocks c' = image_mset (\<lambda>a. (a, alloc_size (the (co_mem c a)))) (mset_set (threads c - {?a}))"
    using fin c'(6) unfolding live_blocks_def thr by (intro image_mset_cong) (simp add: threads_iff)
  moreover have "dom (co_mem c') \<subseteq> insert ctx_stk (dom (co_mem c))"
  proof
    fix b assume "b \<in> dom (co_mem c')"
    then show "b \<in> insert ctx_stk (dom (co_mem c))"
      using c'(6) [of b] c'(7) m(1) by (cases "b \<in> {?a, co_main, ctx_stk}") (auto simp: domIff)
  qed
  then have "finite (dom (co_mem c'))"
    using inv by (meson core_inv_def finite_insert finite_subset)
  then have "core_inv c'"
    using inv thr c' m(2) unfolding core_inv_def
    by (auto simp: landed_def Let_def threads_iff thread_ok_def)
  ultimately show ?thesis using c' thr by auto
qed

lemma core_create:
  assumes inv: "core_inv c" and good: "good_alloc env sz c"
    and create: "co_create env (Thread_fn f) d None sz c = (r, c')"
  shows "core_inv c'"
    and "mset (co_freed c') + live_blocks c' = mset (allocated env sz) + (mset (co_freed c) + live_blocks c)"
proof -
  have "core_inv c' \<and> mset (co_freed c') + live_blocks c' = mset (allocated env sz) + (mset (co_freed c) + live_blocks c)"
  proof (cases "co_block env None sz")
    case (Inl err)
    with create inv show ?thesis by (auto simp: co_create_def allocated_def)
  next
    case (Inr blk)
    obtain a n asize where b: "blk = (a, n, asize)" by (cases blk)
    have fits: "asize = n" "asize \<noteq> 0" "alloc_mem env n = Inr a"
      using co_block_fits(2) [OF Inr [unfolded b]] good by (auto simp: good_alloc_def)
    then have new: "co_mem c a = None" "a \<noteq> ctx_stk" "a \<noteq> co_main"
      using good inv by (auto simp: good_alloc_def core_inv_def)
    show ?thesis
    proof (cases "getcontext env")
      case (Some err)
      then have c': "c' = co_free_mem a n c"
        using create Inr b fits by (auto simp: co_create_def co_set_context_def Let_def)
      have "co_mem c' = co_mem c" using new by (auto simp: c' co_free_mem_def)
      then have "threads c' = threads c" "live_blocks c' = live_blocks c" "core_inv c'"
        using inv by (auto simp: c' co_free_mem_def threads_def live_blocks_def core_inv_def helper_parked_def split: option.splits)
      then show ?thesis by (simp add: c' allocated_def Inr b co_free_mem_def)
    next
      case None
      then obtain co where c': "c' = c\<lparr>co_mem := (co_mem c)(a \<mapsto> co)\<rparr>"
        and co: "ctx_point co = In_runner" "co_func co = Thread_fn f" "alloc_size co = n"
        using create Inr b fits by (auto simp: co_create_def co_set_context_def Let_def)
      have thr: "threads c' = insert a (threads c)" "a \<notin> threads c"
        using new by (auto simp: c' threads_def)
      have "live_blocks c' = add_mset (a, n) (live_blocks c)"
        using core_inv_finite [OF inv] thr co new
        by (auto simp: live_blocks_def c' threads_iff intro!: image_mset_cong)
      moreover have "core_inv c'"
        using inv thr co fits new
        by (auto simp: core_inv_def c' helper_parked_def thread_ok_def threads_iff split: option.splits)
      ultimately show ?thesis by (simp add: c' allocated_def Inr b)
    qed
  qed
  then show "core_inv c'"
    and "mset (co_freed c') + live_blocks c' = mset (allocated env sz) + (mset (co_freed c) + live_blocks c)"
    by simp_all
qed

lemma core_mark:
  assumes inv: "core_inv c" and mark: "co_set_scheduler_data a d c = Some (old, c')"
  shows "core_inv c'" "live_blocks c' = live_blocks c" "co_freed c' = co_freed c"
proof -
  obtain co where co: "co_mem c a = Some co" and c': "c' = c\<lparr>co_mem := (co_mem c)(a \<mapsto> co\<lparr>sheduler_data := d\<rparr>)\<rparr>"
    using mark by (auto simp: co_set_scheduler_data_def)
  have thr: "threads c' = threads c" using co by (auto simp: c' threads_def)
  show "live_blocks c' = live_blocks c"
    using co by (intro live_blocks_cong [OF thr]) (simp add: c')
  have ok: "thread_ok (co_curr c') b x" if b: "b \<in> threads c" and x: "co_mem c' b = Some x" for b x
  proof (rule core_inv_thread [OF inv b])
    fix y assume "co_mem c b = Some y" "thread_ok (co_curr c) b y"
    then show ?thesis using x co by (auto simp: c' thread_ok_def split: if_splits)
  qed
  have "helper_parked c'"
    using inv co by (auto simp: core_inv_def c' helper_parked_def split: option.splits)
  moreover have "\<exists>m. co_mem c' co_main = Some m \<and> ctx_point m = In_user"
    using inv co by (auto simp: core_inv_def c')
  ultimately show "core_inv c'"
    using inv ok unfolding core_inv_def thr by (simp add: c')
  show "co_freed c' = co_freed c" by (simp add: c')
qed

lemma core_inv_new: "core_inv (new_ctx True)" "live_blocks (new_ctx True) = {#}" "co_freed (new_ctx True) = []"
proof -
  have "threads (new_ctx True) = {}" by (auto simp: threads_def new_ctx_def)
  then show "core_inv (new_ctx True)" "live_blocks (new_ctx True) = {#}" "co_freed (new_ctx True) = []"
    by (auto simp: core_inv_def live_blocks_def new_ctx_def helper_parked_def)
qed

lemma core_reach_inv:
  assumes "core_reach henv al c" "helper_env henv"
  shows "core_inv c \<and> mset al = mset (co_freed c) + live_blocks c"
  using assms
proof induction
  case start
  then show ?case by (simp add: core_inv_new)
next
  case (create al c env sz f d r c')
  then show ?case using core_create [of c env sz f d r c'] by simp
next
  case (enter al c a c')
  then show ?case using core_enter [of c a] by (auto simp: co_current_def)
next
  case (leave al c c')
  then show ?case using core_leave [of c] by (auto simp: co_current_def)
next
  case (finish al c c')
  then show ?case using core_finish [of c henv] by (auto simp: co_current_def)
next
  case (mark al c a d old c')
  then show ?case using core_mark [of c a d old c'] by simp
qed

section \<open>The loop of a core\<close>

text \<open>
  What a core relies on: a call of a living coroutine from the main coroutine runs it, and both ways to
  leave it run the main coroutine again; a coroutine that has finished is gone.
\<close>

text \<open>
  The loop over the runnable coroutines in \<open>pclthread\<close> of src/cothread/co-scheduler.c. With each coroutine
  comes what it does when it is called: it ends, or it calls the main coroutine.
\<close>

fun run_slices ::
  "(nat \<Rightarrow> 's \<Rightarrow> 's run ub) \<Rightarrow> ('s \<Rightarrow> 's run ub) \<Rightarrow> ('s \<Rightarrow> 's run ub) \<Rightarrow> (nat \<times> bool) list \<Rightarrow> 's \<Rightarrow> 's run ub" where
  "run_slices enter leave finish [] s = Some (Runs s)"
| "run_slices enter leave finish ((a, ends) # cc) s =
     (case enter a s of
        Some (Runs s1) \<Rightarrow>
          (case (if ends then finish s1 else leave s1) of
             Some (Runs s2) \<Rightarrow> run_slices enter leave finish cc s2
           | r \<Rightarrow> r)
      | r \<Rightarrow> r)"

definition core_slices :: "create_env \<Rightarrow> (nat \<times> bool) list \<Rightarrow> cothread_ctx \<Rightarrow> cothread_ctx run ub" where
  "core_slices henv = run_slices (\<lambda>a. co_call (Some a)) (co_call (Some co_main)) (co_exit henv)"

locale coroutine_core =
  fixes inv :: "'s \<Rightarrow> bool" and current :: "'s \<Rightarrow> nat" and main :: nat and alive :: "'s \<Rightarrow> nat set"
    and enter :: "nat \<Rightarrow> 's \<Rightarrow> 's run ub" and leave :: "'s \<Rightarrow> 's run ub" and finish :: "'s \<Rightarrow> 's run ub"
  assumes enter_runs: "inv s \<Longrightarrow> current s = main \<Longrightarrow> a \<in> alive s \<Longrightarrow>
      \<exists>s'. enter a s = Some (Runs s') \<and> inv s' \<and> current s' = a \<and> alive s' = alive s"
    and leave_returns: "inv s \<Longrightarrow> current s \<noteq> main \<Longrightarrow>
      \<exists>s'. leave s = Some (Runs s') \<and> inv s' \<and> current s' = main \<and> alive s' = alive s"
    and finish_returns: "inv s \<Longrightarrow> current s \<noteq> main \<Longrightarrow>
      \<exists>s'. finish s = Some (Runs s') \<and> inv s' \<and> current s' = main \<and> alive s' = alive s - {current s}"
    and main_not_alive: "inv s \<Longrightarrow> main \<notin> alive s"
begin

lemma slice_returns:
  assumes "inv s" "current s = main" "a \<in> alive s"
  shows "\<exists>s1 s2. enter a s = Some (Runs s1) \<and> (if ends then finish s1 else leave s1) = Some (Runs s2) \<and>
    inv s2 \<and> current s2 = main \<and> alive s2 = (if ends then alive s - {a} else alive s)"
proof -
  obtain s1 where s1: "enter a s = Some (Runs s1)" "inv s1" "current s1 = a" "alive s1 = alive s"
    using enter_runs assms by blast
  have "current s1 \<noteq> main" using s1 assms main_not_alive by metis
  with s1 show ?thesis
    using leave_returns [of s1] finish_returns [of s1] by (cases ends) auto
qed

lemma run_slices_returns:
  assumes "inv s" "current s = main" "distinct (map fst cc)" "fst ` set cc \<subseteq> alive s"
  shows "\<exists>s'. run_slices enter leave finish cc s = Some (Runs s') \<and> inv s' \<and> current s' = main \<and>
    alive s' = alive s - {a. (a, True) \<in> set cc}"
  using assms
proof (induction cc arbitrary: s)
  case (Cons x cc)
  obtain a ends where x: "x = (a, ends)" by (cases x)
  obtain s1 s2 where s: "enter a s = Some (Runs s1)" "(if ends then finish s1 else leave s1) = Some (Runs s2)"
    "inv s2" "current s2 = main" "alive s2 = (if ends then alive s - {a} else alive s)"
    using slice_returns [of s a ends] Cons.prems x by auto
  have "fst ` set cc \<subseteq> alive s2" using Cons.prems x s(5) by auto
  with Cons.IH [OF s(3,4)] Cons.prems obtain s' where
    "run_slices enter leave finish cc s2 = Some (Runs s')" "inv s'" "current s' = main"
    "alive s' = alive s2 - {a. (a, True) \<in> set cc}" by auto
  then show ?case using s x by (cases ends) auto
qed simp

end

interpretation core: coroutine_core "\<lambda>c. helper_env henv \<and> core_inv c" co_current co_main threads
  "\<lambda>a. co_call (Some a)" "co_call (Some co_main)" "co_exit henv"
  for henv
proof unfold_locales
  fix c a
  show "\<exists>s'. co_call (Some a) c = Some (Runs s') \<and> (helper_env henv \<and> core_inv s') \<and> co_current s' = a \<and> threads s' = threads c"
    if "helper_env henv \<and> core_inv c" "co_current c = co_main" "a \<in> threads c"
    using that core_enter [of c a] by (auto simp: co_current_def)
  show "\<exists>s'. co_call (Some co_main) c = Some (Runs s') \<and> (helper_env henv \<and> core_inv s') \<and> co_current s' = co_main \<and> threads s' = threads c"
    if "helper_env henv \<and> core_inv c" "co_current c \<noteq> co_main"
    using that core_leave [of c] by (auto simp: co_current_def)
  show "\<exists>s'. co_exit henv c = Some (Runs s') \<and> (helper_env henv \<and> core_inv s') \<and> co_current s' = co_main \<and> threads s' = threads c - {co_current c}"
    if "helper_env henv \<and> core_inv c" "co_current c \<noteq> co_main"
    using that core_finish [of c henv] by (auto simp: co_current_def)
  show "co_main \<notin> threads c" by (simp add: threads_iff)
qed

section \<open>Properties\<close>

text \<open>C31. The context of a new coroutine owns a stack that starts behind the coroutine, ends eight bytes
  before the end of the block at the latest, and is as large as the smallest stack allowed: the block
  is the one that the caller passes, or a block of exactly the recorded size from the allocator.\<close>

theorem co_create_layout:
  assumes "co_create env f d stack sz c = (Inr a, c')"
    and "unat (sizeof_coroutine env) \<le> 2 ^ 20" and "stack = None \<longrightarrow> unat sz + 2 ^ 21 < 2 ^ 64"
  shows "\<exists>co off len. co_mem c' a = Some co \<and> ctx_stack co = (off, len) \<and> ctx_point co = In_runner \<and>
    unat (sizeof_coroutine env) \<le> unat off \<and> 8192 \<le> unat len + 8 \<and>
    (case stack of
       Some b \<Rightarrow> a = b \<and> alloc_size co = 0 \<and> unat off + unat len + 8 \<le> unat sz
     | None \<Rightarrow> alloc_mem env (alloc_size co) = Inr a \<and> unat off + unat len + 8 = unat (alloc_size co))"
proof -
  let ?k = "CO_STK_COROSIZE (sizeof_coroutine env)"
  obtain blk asize where blk: "co_block env stack sz = Inr (a, blk, asize)"
    and c': "c' = c\<lparr>co_mem := (co_mem c)(a \<mapsto> \<lparr>ctx_point = In_runner, ctx_stack = (?k, blk - ?k - 8),
      alloc_size = asize, co_caller = None, restarget = None, co_func = f, co_data = d, sheduler_data = 0\<rparr>)\<rparr>"
    using assms(1) by (rule co_create_Inr)
  have fit: "unat ?k + 8192 \<le> unat blk"
    using co_block_fits(1) [OF blk assms(2)] assms(3) by simp
  then have "unat (blk - ?k) = unat blk - unat ?k" by (simp add: unat_sub word_le_nat_alt)
  moreover from this fit have "unat (blk - ?k - 8) = unat (blk - ?k) - 8"
    by (subst unat_sub) (simp_all add: word_le_nat_alt)
  ultimately have len: "unat (blk - ?k - 8) = unat blk - unat ?k - 8" by simp
  show ?thesis
    using fit len corosize_bounds(1) [OF assms(2)] co_block_fits(2,3) [OF blk assms(2)] assms(3)
    by (cases stack) (auto simp: c')
qed

text \<open>A coroutine that ends gives control to the coroutine it was last resumed from: it is deleted by
  the helper, which frees its block with the size it was allocated with and is then ready for the
  next one; no other coroutine changes.\<close>

theorem co_exit_returns:
  assumes "swap_ok c" "helper_parked c" "helper_env env"
    and "co_mem c (co_curr c) = Some me" "co_curr c \<noteq> ctx_stk" "restarget me = Some t"
    and "co_mem c t = Some co" "t \<noteq> co_curr c" "t \<noteq> ctx_stk" "can_enter co"
  shows "\<exists>c'. co_exit env c = Some (Runs c') \<and> co_curr c' = t \<and> helper_parked c' \<and>
    co_mem c' t = Some (landed ctx_stk co) \<and>
    (\<forall>b. b \<notin> {co_curr c, t, ctx_stk} \<longrightarrow> co_mem c' b = co_mem c b) \<and>
    (alloc_size me \<noteq> 0 \<longrightarrow> co_mem c' (co_curr c) = None \<and> co_freed c' = (co_curr c, alloc_size me) # co_freed c) \<and>
    (alloc_size me = 0 \<longrightarrow> co_freed c' = co_freed c)"
  using co_exit_state [OF assms] by auto

text \<open>C30. In every state a core can reach, the blocks taken from the allocator are exactly those freed and
  those of the coroutines that exist; and the core can call any of these in turn, whether they end or
  not, without undefined behaviour and without ending the process: control comes back to the main
  coroutine, and exactly the coroutines that ended are gone.\<close>

theorem coroutines_safe:
  assumes "helper_env henv" "core_reach henv al c"
  shows "mset al = mset (co_freed c) + live_blocks c \<and>
    (\<forall>cc. co_current c = co_main \<longrightarrow> distinct (map fst cc) \<longrightarrow> fst ` set cc \<subseteq> threads c \<longrightarrow>
       (\<exists>c'. core_slices henv cc c = Some (Runs c') \<and> co_current c' = co_main \<and>
          threads c' = threads c - {a. (a, True) \<in> set cc}))"
  using core_reach_inv [OF assms(2,1)] core.run_slices_returns [of henv c] assms(1)
  unfolding core_slices_def by blast

section \<open>Examples\<close>

definition example_env :: create_env where
  "example_env = \<lparr>sizeof_coroutine = 984, alloc_mem = (\<lambda>n. Inr 2), getcontext = None\<rparr>"

definition example_created :: cothread_ctx where
  "example_created = snd (co_create example_env (Thread_fn 7) 5 None 65536 (new_ctx True))"

definition example_co :: coroutine where
  "example_co = \<lparr>ctx_point = In_runner, ctx_stack = (1024, 65528), alloc_size = 66560, co_caller = None,
     restarget = None, co_func = Thread_fn 7, co_data = 5, sheduler_data = 0\<rparr>"

lemma example_create:
  "co_create example_env (Thread_fn 7) 5 None 65536 (new_ctx True) = (Inr 2, example_created)"
  "example_created = (new_ctx True)\<lparr>co_mem := (co_mem (new_ctx True))(2 \<mapsto> example_co)\<rparr>"
proof -
  have "co_create example_env (Thread_fn 7) 5 None 65536 (new_ctx True)
      = (Inr 2, (new_ctx True)\<lparr>co_mem := (co_mem (new_ctx True))(2 \<mapsto> example_co)\<rparr>)"
    by (simp add: co_create_def co_block_def co_set_context_def example_env_def example_co_def
        CO_STK_COROSIZE_def CO_STK_ALIGN_def CO_MIN_SIZE_def)
  then show "co_create example_env (Thread_fn 7) 5 None 65536 (new_ctx True) = (Inr 2, example_created)"
    "example_created = (new_ctx True)\<lparr>co_mem := (co_mem (new_ctx True))(2 \<mapsto> example_co)\<rparr>"
    by (simp_all add: example_created_def)
qed

lemma example_env_ok: "helper_env example_env" "good_alloc example_env 65536 (new_ctx True)"
  by (simp_all add: helper_env_def example_env_def good_alloc_def new_ctx_def co_main_def ctx_stk_def)

lemma example_threads: "threads example_created = {2}" "co_current example_created = co_main"
  by (auto simp: co_current_def threads_def example_create(2) new_ctx_def co_main_def ctx_stk_def)

theorem co_create_layout_witness:
  "\<exists>co off len. co_mem example_created 2 = Some co \<and> ctx_stack co = (off, len) \<and> unat off + unat len + 8 = unat (alloc_size co)"
  using co_create_layout [OF example_create(1)] by (auto simp: example_env_def)

definition example_running :: cothread_ctx where
  "example_running = example_created\<lparr>co_curr := 2, co_mem := (co_mem example_created)(2 \<mapsto> landed co_main example_co)\<rparr>"

theorem co_exit_returns_witness:
  "\<exists>c'. co_exit example_env example_running = Some (Runs c') \<and> co_curr c' = co_main \<and> co_freed c' = [(2, 66560)]"
  using co_exit_returns [of example_running example_env "landed co_main example_co" co_main "the (co_mem (new_ctx True) co_main)"] example_env_ok
  by (auto simp: example_running_def example_create(2) new_ctx_def co_main_def ctx_stk_def helper_parked_def
      landed_def example_co_def can_enter_def)

theorem coroutines_safe_witness:
  "\<exists>c'. core_slices example_env [(2, True)] example_created = Some (Runs c') \<and> threads c' = {}"
proof -
  have "core_reach example_env (allocated example_env 65536 @ []) example_created"
    by (rule core_reach.create [OF core_reach.start example_env_ok(2) example_create(1)])
  from coroutines_safe [OF example_env_ok(1) this] show ?thesis
    by (auto simp: example_threads dest!: spec [where x = "[(2, True)]"])
qed

text \<open>The size of a new stack is not checked against the largest one: a huge request gets a small block.\<close>

lemma co_create_wraps:
  "co_block example_env None (- 8) = Inr (2, 1016, 1016) \<and>
   co_set_context example_env 1024 (1016 - 1024) = Inr (In_runner, 1024, - 16)"
  by (simp add: co_block_def co_set_context_def example_env_def CO_STK_COROSIZE_def CO_STK_ALIGN_def CO_MIN_SIZE_def)

text \<open>The main coroutine cannot end: its \<open>restarget\<close> is null.\<close>

lemma co_exit_main_undefined: "co_exit example_env (new_ctx True) = None"
  by (simp add: co_exit_def co_exit_to_def co_create_def co_block_def co_set_context_def example_env_def
      CO_STK_COROSIZE_def CO_STK_ALIGN_def CO_MIN_SIZE_def co_get_min_stack_size_def new_ctx_def co_switch_def
      co_land_after_def co_land.simps co_del_helper_def co_delete_def co_main_def ctx_stk_def set_restarget_def)

end
