(* ===== verification/Co_Ssl.thy ===== *)
theory Co_Ssl
  imports Co_Socket
begin

text \<open>
  Sockets with an optional TLS session, src/cothread/co-ssl.c: the transport that OpenSSL calls back, the
  constructors, accepting, connecting, sending and receiving. OpenSSL is a parameter: a session is a number, the
  answers of \<open>SSL_new\<close> and \<open>BIO_new\<close> are a record, and a handshake or a transfer is a function on the memory of
  the socket, since it runs the transport. The results list the descriptors that were closed and the sessions
  that were freed.
\<close>

section \<open>Data\<close>

record co_ssl_socket =
  ss_cc :: co_socket
  ss_ssl :: "nat option"

record ssl_outcome =
  sl_new :: "nat option"
  sl_bio :: bool

definition fd_list :: "int option \<Rightarrow> int list" where
  "fd_list so = (case so of None \<Rightarrow> [] | Some so \<Rightarrow> [so])"

section \<open>Transport\<close>

datatype bio_ctrl = BIO_CTRL_PUSH | BIO_CTRL_POP | BIO_CTRL_FLUSH | BIO_CTRL_OTHER nat

definition bio_co_socket_read ::
  "nat \<Rightarrow> nat \<Rightarrow> int \<Rightarrow> bool \<Rightarrow> errno \<Rightarrow> io_turn list \<Rightarrow> sock_mem \<Rightarrow> ((errno + int \<times> errno \<times> u8 list) io_result \<times> sock_mem) ub" where
  "bio_co_socket_read core co now buf_null soerr turns s =
     (if buf_null then Some (Returned (Inr (0, EOK, [])), s) else co_socket_recv core co now False soerr turns s)"

definition bio_co_socket_write ::
  "nat \<Rightarrow> nat \<Rightarrow> int \<Rightarrow> u8 list option \<Rightarrow> io_turn list \<Rightarrow> sock_mem \<Rightarrow> ((errno + int \<times> u8 list) io_result \<times> sock_mem) ub" where
  "bio_co_socket_write = co_socket_send"

definition bio_co_socket_puts ::
  "nat \<Rightarrow> nat \<Rightarrow> int \<Rightarrow> u8 list \<Rightarrow> io_turn list \<Rightarrow> sock_mem \<Rightarrow> ((errno + int \<times> u8 list) io_result \<times> sock_mem) ub" where
  "bio_co_socket_puts core co now str = bio_co_socket_write core co now (Some (takeWhile (\<lambda>b. b \<noteq> 0) str))"

definition bio_co_socket_ctrl :: "bio_ctrl \<Rightarrow> int" where
  "bio_co_socket_ctrl cmd =
     (case cmd of BIO_CTRL_PUSH \<Rightarrow> 1 | BIO_CTRL_POP \<Rightarrow> 1 | BIO_CTRL_FLUSH \<Rightarrow> 1 | BIO_CTRL_OTHER _ \<Rightarrow> 0)"

section \<open>Sessions\<close>

definition co_ssl_new :: "ssl_outcome \<Rightarrow> nat option \<times> nat list" where
  "co_ssl_new k =
     (case sl_new k of None \<Rightarrow> (None, []) | Some ssl \<Rightarrow> if sl_bio k then (Some ssl, []) else (None, [ssl]))"

definition co_ssl_free :: "nat option \<Rightarrow> nat list" where
  "co_ssl_free ssl = (case ssl of None \<Rightarrow> [] | Some ssl \<Rightarrow> [ssl])"

section \<open>Sockets\<close>

definition co_ssl_socket_init :: "bool \<Rightarrow> bool \<Rightarrow> int \<Rightarrow> bool \<times> co_ssl_socket" where
  "co_ssl_socket_init nonblock_ok epoll_ok so =
     (case co_socket_init nonblock_ok epoll_ok so of (ok, cc) \<Rightarrow> (ok, \<lparr>ss_cc = cc, ss_ssl = None\<rparr>))"

definition co_ssl_socket_init_new :: "bool \<Rightarrow> bool \<Rightarrow> bool \<Rightarrow> int \<Rightarrow> co_ssl_socket option" where
  "co_ssl_socket_init_new mem_ok nonblock_ok epoll_ok so =
     (if mem_ok then (case co_ssl_socket_init nonblock_ok epoll_ok so of (ok, sk) \<Rightarrow> if ok then Some sk else None) else None)"

definition co_ssl_socket_close :: "co_ssl_socket option \<Rightarrow> sched_mem \<Rightarrow> (co_ssl_socket option \<times> int list \<times> sched_mem) ub" where
  "co_ssl_socket_close sk m =
     (case sk of
        None \<Rightarrow> Some (None, [], m)
      | Some sk \<Rightarrow> do { (so, cc, m) \<leftarrow> co_socket_close (ss_cc sk, m); Some (Some (sk\<lparr>ss_cc := cc\<rparr>), fd_list so, m) })"

definition co_ssl_socket_destroy :: "co_ssl_socket option \<Rightarrow> sched_mem \<Rightarrow> (int list \<times> nat list \<times> sched_mem) ub" where
  "co_ssl_socket_destroy sk m =
     (case sk of
        None \<Rightarrow> Some ([], [], m)
      | Some sk \<Rightarrow> do { (so, cc, m) \<leftarrow> co_socket_close (ss_cc sk, m); Some (fd_list so, co_ssl_free (ss_ssl sk), m) })"

text \<open>\<open>tls\<close> tells whether there is an \<open>SSL_CTX\<close>; the memory of the socket is fresh from \<open>malloc\<close>.\<close>

definition co_ssl_socket_create ::
  "so_outcome \<Rightarrow> ssl_outcome \<Rightarrow> bool \<Rightarrow> sched_mem \<Rightarrow> (co_ssl_socket option \<times> int list \<times> nat list \<times> sched_mem) ub" where
  "co_ssl_socket_create k ks tls m =
     (case co_socket_create k None of
        (True, Some cc, closed) \<Rightarrow>
          if \<not> tls then Some (Some \<lparr>ss_cc = cc, ss_ssl = None\<rparr>, closed, [], m)
          else (case co_ssl_new ks of
                  (Some ssl, freed) \<Rightarrow> Some (Some \<lparr>ss_cc = cc, ss_ssl = Some ssl\<rparr>, closed, freed, m)
                | (None, freed) \<Rightarrow>
                    do { (so, _, m) \<leftarrow> co_socket_close (cc, m); Some (None, closed @ fd_list so, freed, m) })
      | (_, _, closed) \<Rightarrow> Some (None, closed, [], m))"

definition co_ssl_socket_create_new ::
  "bool \<Rightarrow> so_outcome \<Rightarrow> ssl_outcome \<Rightarrow> bool \<Rightarrow> sched_mem \<Rightarrow> (co_ssl_socket option \<times> int list \<times> nat list \<times> sched_mem) ub" where
  "co_ssl_socket_create_new mem_ok k ks tls m = (if mem_ok then co_ssl_socket_create k ks tls m else Some (None, [], [], m))"

definition co_ssl_socket_listen_new :: "bool \<Rightarrow> so_outcome \<Rightarrow> sched_mem \<Rightarrow> (co_socket option \<times> int list \<times> sched_mem) ub" where
  "co_ssl_socket_listen_new = co_socket_create_listening_new"

text \<open>
  Accepting a connection. The function returns the pointer to the new socket as its truth value, which is never
  null, so that its caller takes every outcome for a success.
\<close>

definition co_ssl_socket_accept ::
  "nat \<Rightarrow> nat \<Rightarrow> int \<Rightarrow> bool \<Rightarrow> bool \<Rightarrow> ssl_outcome \<Rightarrow> bool \<Rightarrow> io_turn list \<Rightarrow> sock_mem \<Rightarrow>
     ((bool \<times> co_ssl_socket \<times> int list \<times> nat list) io_result \<times> sock_mem) ub" where
  "co_ssl_socket_accept core co now nonblock_ok epoll_ok ks tls turns s =
     (let accepted = snd (co_ssl_socket_init nonblock_ok epoll_ok (-1)) in
      do { (res, lcc, m) \<leftarrow> co_socket_accept core co now nonblock_ok epoll_ok turns s;
           (case res of
              Suspended \<Rightarrow> Some (Suspended, lcc, m)
            | Returned None \<Rightarrow>
                do { (sk, closed, m) \<leftarrow> co_ssl_socket_close (Some accepted) m;
                     Some (Returned (True, the sk, closed, []), lcc, m) }
            | Returned (Some cc) \<Rightarrow>
                if \<not> tls then Some (Returned (True, accepted\<lparr>ss_cc := cc\<rparr>, [], []), lcc, m)
                else (case co_ssl_new ks of
                        (Some ssl, freed) \<Rightarrow> Some (Returned (True, accepted\<lparr>ss_cc := cc, ss_ssl := Some ssl\<rparr>, [], freed), lcc, m)
                      | (None, freed) \<Rightarrow>
                          do { (sk, closed, m) \<leftarrow> co_ssl_socket_close (Some (accepted\<lparr>ss_cc := cc\<rparr>)) m;
                               Some (Returned (True, the sk, closed, freed), lcc, m) })) })"

definition co_ssl_socket_accept_new ::
  "bool \<Rightarrow> nat \<Rightarrow> nat \<Rightarrow> int \<Rightarrow> bool \<Rightarrow> bool \<Rightarrow> ssl_outcome \<Rightarrow> bool \<Rightarrow> io_turn list \<Rightarrow> sock_mem \<Rightarrow>
     ((co_ssl_socket option \<times> int list \<times> nat list) io_result \<times> sock_mem) ub" where
  "co_ssl_socket_accept_new mem_ok core co now nonblock_ok epoll_ok ks tls turns s =
     (if \<not> mem_ok then Some (Returned (None, [], []), s)
      else do { (res, s) \<leftarrow> co_ssl_socket_accept core co now nonblock_ok epoll_ok ks tls turns s;
                Some (case res of
                        Suspended \<Rightarrow> Suspended
                      | Returned (ok, sk, closed, freed) \<Rightarrow> Returned (if ok then Some sk else None, closed, freed), s) })"

text \<open>A handshake: its status, and what is left of the socket when it returns.\<close>

type_synonym handshake = "sock_mem \<Rightarrow> (int \<times> sock_mem) ub"

definition co_ssl_socket_connect ::
  "nat \<Rightarrow> nat \<Rightarrow> int \<Rightarrow> int \<Rightarrow> (errno + unit) \<Rightarrow> bool \<Rightarrow> errno \<Rightarrow> io_turn list \<Rightarrow> handshake \<Rightarrow>
     co_ssl_socket \<times> sched_mem \<Rightarrow> (bool io_result \<times> co_ssl_socket \<times> sched_mem) ub" where
  "co_ssl_socket_connect core co now tmo_ms conn in_progress soerr turns SSL_connect = (\<lambda>(sk, m).
     do { (res, cc, m) \<leftarrow> co_socket_connect core co now tmo_ms conn in_progress soerr turns (ss_cc sk, m);
          (case res of
             Suspended \<Rightarrow> Some (Suspended, sk\<lparr>ss_cc := cc\<rparr>, m)
           | Returned (Inl _) \<Rightarrow> Some (Returned False, sk\<lparr>ss_cc := cc\<rparr>, m)
           | Returned (Inr _) \<Rightarrow>
               if ss_ssl sk = None then Some (Returned True, sk\<lparr>ss_cc := cc\<rparr>, m)
               else do { (status, cc, m) \<leftarrow> SSL_connect (cc, m); Some (Returned (status = 1), sk\<lparr>ss_cc := cc\<rparr>, m) }) })"

definition co_ssl_socket_connect_new ::
  "bool \<Rightarrow> so_outcome \<Rightarrow> ssl_outcome \<Rightarrow> bool \<Rightarrow> nat \<Rightarrow> nat \<Rightarrow> int \<Rightarrow> int \<Rightarrow> (errno + unit) \<Rightarrow> bool \<Rightarrow> errno \<Rightarrow> io_turn list \<Rightarrow>
     handshake \<Rightarrow> sched_mem \<Rightarrow> (co_ssl_socket option io_result \<times> int list \<times> nat list \<times> sched_mem) ub" where
  "co_ssl_socket_connect_new mem_ok k ks tls core co now tmo conn in_progress soerr turns SSL_connect m =
     do { (sk, closed, freed, m) \<leftarrow> co_ssl_socket_create_new mem_ok k ks tls m;
          (case sk of
             None \<Rightarrow> Some (Returned None, closed, freed, m)
           | Some sk \<Rightarrow>
               do { (res, sk, m) \<leftarrow> co_ssl_socket_connect core co now tmo conn in_progress soerr turns SSL_connect (sk, m);
                    (case res of
                       Suspended \<Rightarrow> Some (Suspended, closed, freed, m)
                     | Returned True \<Rightarrow> Some (Returned (Some sk), closed, freed, m)
                     | Returned False \<Rightarrow>
                         do { (fds, ssls, m) \<leftarrow> co_ssl_socket_destroy (Some sk) m;
                              Some (Returned None, closed @ fds, freed @ ssls, m) }) }) }"

text \<open>\<open>co_ssl_connect_new\<close> has the same body; \<open>co_ssl_server_connect_new\<close> resolves the name of the server first.\<close>

record co_ssl_connect_opts =
  co_ssl_ctx :: bool
  co_tmout :: int

definition co_ssl_connect_new ::
  "bool \<Rightarrow> so_outcome \<Rightarrow> ssl_outcome \<Rightarrow> co_ssl_connect_opts \<Rightarrow> nat \<Rightarrow> nat \<Rightarrow> int \<Rightarrow> (errno + unit) \<Rightarrow> bool \<Rightarrow> errno \<Rightarrow> io_turn list \<Rightarrow>
     handshake \<Rightarrow> sched_mem \<Rightarrow> (co_ssl_socket option io_result \<times> int list \<times> nat list \<times> sched_mem) ub" where
  "co_ssl_connect_new mem_ok k ks opts core co now conn in_progress soerr turns SSL_connect m =
     co_ssl_socket_connect_new mem_ok k ks (co_ssl_ctx opts) core co now (co_tmout opts) conn in_progress soerr turns SSL_connect m"

definition co_ssl_server_connect_new ::
  "(int \<Rightarrow> bool) \<Rightarrow> bool \<Rightarrow> so_outcome \<Rightarrow> ssl_outcome \<Rightarrow> co_ssl_connect_opts \<Rightarrow> nat \<Rightarrow> nat \<Rightarrow> int \<Rightarrow> (errno + unit) \<Rightarrow> bool \<Rightarrow> errno \<Rightarrow>
     io_turn list \<Rightarrow> handshake \<Rightarrow> sched_mem \<Rightarrow> (co_ssl_socket option io_result \<times> int list \<times> nat list \<times> sched_mem) ub" where
  "co_ssl_server_connect_new resolve mem_ok k ks opts core co now conn in_progress soerr turns SSL_connect m =
     (if resolve (if co_tmout opts \<noteq> 0 then co_tmout opts else 15 * 1000)
      then co_ssl_connect_new mem_ok k ks opts core co now conn in_progress soerr turns SSL_connect m
      else Some (Returned None, [], [], m))"

definition co_ssl_socket_set_send_timeout :: "co_ssl_socket option \<Rightarrow> int \<Rightarrow> (errno + unit) \<times> co_ssl_socket option" where
  "co_ssl_socket_set_send_timeout sk msec =
     (case sk of
        None \<Rightarrow> (Inl EBADF, None)
      | Some sk \<Rightarrow> (case co_socket_set_send_tmout (Some (ss_cc sk)) msec of
                     (r, cc) \<Rightarrow> (r, map_option (\<lambda>cc. sk\<lparr>ss_cc := cc\<rparr>) cc)))"

definition co_ssl_socket_set_recv_timeout :: "co_ssl_socket option \<Rightarrow> int \<Rightarrow> (errno + unit) \<times> co_ssl_socket option" where
  "co_ssl_socket_set_recv_timeout sk msec =
     (case sk of
        None \<Rightarrow> (Inl EBADF, None)
      | Some sk \<Rightarrow> (case co_socket_set_recv_tmout (Some (ss_cc sk)) msec of
                     (r, cc) \<Rightarrow> (r, map_option (\<lambda>cc. sk\<lparr>ss_cc := cc\<rparr>) cc)))"

text \<open>
  Sending and receiving: \<open>Inl\<close> is the value -1 with this errno. \<open>SSL_write\<close> and \<open>SSL_read\<close> are functions on the
  memory of the socket.
\<close>

definition co_ssl_socket_send ::
  "nat \<Rightarrow> nat \<Rightarrow> int \<Rightarrow> u8 list option \<Rightarrow> io_turn list \<Rightarrow> (u8 list \<Rightarrow> sock_mem \<Rightarrow> (int \<times> sock_mem) ub) \<Rightarrow>
     co_ssl_socket option \<Rightarrow> sched_mem \<Rightarrow> ((errno + int) io_result \<times> co_ssl_socket option \<times> sched_mem) ub" where
  "co_ssl_socket_send core co now buf turns SSL_write sk m =
     (case (sk, buf) of
        (None, _) \<Rightarrow> Some (Returned (Inl EBADF), None, m)
      | (Some sk, None) \<Rightarrow> Some (Returned (Inl EINVAL), Some sk, m)
      | (Some sk, Some pb) \<Rightarrow>
          if ss_ssl sk \<noteq> None
          then do { (n, cc, m) \<leftarrow> SSL_write pb (ss_cc sk, m); Some (Returned (Inr n), Some (sk\<lparr>ss_cc := cc\<rparr>), m) }
          else do { (res, cc, m) \<leftarrow> co_socket_send core co now (Some pb) turns (ss_cc sk, m);
                    Some (case res of Suspended \<Rightarrow> Suspended | Returned (Inl err) \<Rightarrow> Returned (Inl err)
                                    | Returned (Inr (n, _)) \<Rightarrow> Returned (Inr n), Some (sk\<lparr>ss_cc := cc\<rparr>), m) })"

definition co_ssl_socket_recv ::
  "nat \<Rightarrow> nat \<Rightarrow> int \<Rightarrow> bool \<Rightarrow> errno \<Rightarrow> io_turn list \<Rightarrow> (sock_mem \<Rightarrow> (int \<times> u8 list \<times> sock_mem) ub) \<Rightarrow>
     co_ssl_socket option \<Rightarrow> sched_mem \<Rightarrow> ((errno + int \<times> u8 list) io_result \<times> co_ssl_socket option \<times> sched_mem) ub" where
  "co_ssl_socket_recv core co now buf_null soerr turns SSL_read sk m =
     (case sk of
        None \<Rightarrow> Some (Returned (Inl EBADF), None, m)
      | Some sk \<Rightarrow>
          if buf_null then Some (Returned (Inl EINVAL), Some sk, m)
          else if ss_ssl sk \<noteq> None
          then do { (n, bs, cc, m) \<leftarrow> SSL_read (ss_cc sk, m); Some (Returned (Inr (n, bs)), Some (sk\<lparr>ss_cc := cc\<rparr>), m) }
          else do { (res, cc, m) \<leftarrow> co_socket_recv core co now False soerr turns (ss_cc sk, m);
                    Some (case res of Suspended \<Rightarrow> Suspended | Returned (Inl err) \<Rightarrow> Returned (Inl err)
                                    | Returned (Inr (n, _, bs)) \<Rightarrow> Returned (Inr (n, bs)), Some (sk\<lparr>ss_cc := cc\<rparr>), m) })"

definition co_ssl_accept :: "handshake \<Rightarrow> co_ssl_socket option \<Rightarrow> sched_mem \<Rightarrow> ((errno + unit) \<times> co_ssl_socket option \<times> sched_mem) ub" where
  "co_ssl_accept SSL_accept sk m =
     (case sk of
        None \<Rightarrow> Some (Inl EBADF, None, m)
      | Some sk \<Rightarrow>
          if ss_ssl sk = None then Some (Inr (), Some sk, m)
          else do { (status, cc, m) \<leftarrow> SSL_accept (ss_cc sk, m);
                    Some (if status = 1 then Inr () else Inl EACCES, Some (sk\<lparr>ss_cc := cc\<rparr>), m) })"

section \<open>Resources\<close>

text \<open>The scheduler's memory is in order around a socket; others and the handshake keep its descriptor.\<close>

definition in_order :: "(nat \<Rightarrow> nat set) \<Rightarrow> sock_mem \<Rightarrow> bool" where
  "in_order Bs = (\<lambda>(cc, m). \<exists>H qs. waiters_ok Bs H qs (sk_e cc, m))"

definition sock_fd :: "sock_mem \<Rightarrow> int" where
  "sock_fd s = rq_so (sk_e (fst s))"

definition turns_keep :: "io_turn list \<Rightarrow> bool" where
  "turns_keep ts \<longleftrightarrow> (\<forall>t\<in>set ts. \<forall>s. sock_fd (it_run t s) = sock_fd s)"

definition handshake_ok :: "(nat \<Rightarrow> nat set) \<Rightarrow> handshake \<Rightarrow> bool" where
  "handshake_ok Bs hs \<longleftrightarrow>
     (\<forall>s. in_order Bs s \<longrightarrow> (\<exists>status s'. hs s = Some (status, s') \<and> in_order Bs s' \<and> sock_fd s' = sock_fd s))"

lemma connect_loop_fd:
  "connect_loop a soerr ts s = Some (res, s') \<Longrightarrow> turns_keep ts \<Longrightarrow> sock_fd s' = sock_fd s"
proof (induction ts arbitrary: s)
  case (Cons t ts)
  obtain cc m where run: "it_run t s = (cc, m)" by force
  have keep: "sock_fd (cc, m) = sock_fd s" "turns_keep ts"
    using Cons.prems(2) run unfolding turns_keep_def by (metis list.set_intros(1), metis list.set_intros(2))
  show ?case
    using Cons.prems(1) Cons.IH [OF _ keep(2), of "(cc, m)"] keep(1) run
    by (auto simp: Let_def split: option.splits if_splits elim!: bind_eq_Some_conv [THEN iffD1, elim_format])
qed simp

lemma released_in_order: "released Bs a s \<Longrightarrow> in_order Bs s"
  by (auto simp: released_def in_order_def)

lemma co_socket_connect_ok:
  assumes "waiters_ok Bs H qs (sk_e cc, m)" "length (H core) < card (Bs core)" "0 < now" "turns_ok Bs turns" "turns_keep turns"
    and "rq_so (sk_e cc) \<noteq> -1"
  shows "\<exists>res s'. co_socket_connect core co now tmo conn in_progress soerr turns (cc, m) = Some (res, s') \<and>
    (res \<noteq> Suspended \<longrightarrow> in_order Bs s') \<and> sock_fd s' = rq_so (sk_e cc)"
proof -
  let ?body = "\<lambda>w s. if conn \<noteq> Inr () \<and> in_progress then connect_loop w soerr turns s else Some (Returned conn, s)"
  have "\<exists>res s'. ?body a s = Some (res, s') \<and> owns Bs a s' \<and> sock_fd s' = rq_so (sk_e cc)"
    if "owns Bs a s" "rq_so (sk_e (fst s)) = rq_so (sk_e cc)" for a s
    using connect_loop_ok [OF that(1) assms(4), of soerr] connect_loop_fd [OF _ assms(5), of a soerr s] that
    by (cases s) (auto simp: sock_fd_def)
  from with_waiter_ok [OF assms(1,2) io_wait_tmo [OF assms(3)], of ?body "\<lambda>_ s' _. sock_fd s' = rq_so (sk_e cc)" co tmo EPOLLOUT, OF this]
  obtain a res s' s'' where
    "with_waiter core (io_wait co (deadline now tmo) EPOLLOUT) ?body (cc, m) = Some (case res of Suspended \<Rightarrow> Suspended | Returned v \<Rightarrow> Returned (Inr v), s'')"
    "sock_fd s' = rq_so (sk_e cc)" "rq_so (sk_e (fst s'')) = rq_so (sk_e (fst s'))" "res \<noteq> Suspended \<longrightarrow> released Bs a s''"
    by blast
  then show ?thesis
    using assms(6) released_in_order by (auto simp: co_socket_connect_def sock_fd_def split: io_result.splits)
qed

lemma co_ssl_socket_destroy_ok:
  assumes "in_order Bs (ss_cc sk, m)" "rq_so (sk_e (ss_cc sk)) \<noteq> -1"
  shows "\<exists>m'. co_ssl_socket_destroy (Some sk) m = Some ([rq_so (sk_e (ss_cc sk))], co_ssl_free (ss_ssl sk), m')"
  using assms co_socket_close_ok by (fastforce simp: in_order_def co_ssl_socket_destroy_def fd_list_def)

text \<open>What the constructors take from the kernel and from OpenSSL.\<close>

definition taken_fds :: "bool \<Rightarrow> so_outcome \<Rightarrow> int list" where
  "taken_fds mem_ok k = (if mem_ok \<and> so_socket k \<noteq> -1 then [so_socket k] else [])"

definition taken_ssl :: "bool \<Rightarrow> so_outcome \<Rightarrow> ssl_outcome \<Rightarrow> bool \<Rightarrow> nat list" where
  "taken_ssl mem_ok k ks tls =
     (if mem_ok \<and> so_socket k \<noteq> -1 \<and> so_nonblock k \<and> so_epoll k \<and> tls then co_ssl_free (sl_new ks) else [])"

definition fresh_socket :: "so_outcome \<Rightarrow> co_socket" where
  "fresh_socket k = snd (co_socket_init True True (so_socket k))"

lemma co_ssl_socket_create_new_cases:
  "co_ssl_socket_create_new mem_ok k ks tls m = Some (None, taken_fds mem_ok k, taken_ssl mem_ok k ks tls, m) \<or>
   mem_ok \<and> so_socket k \<noteq> -1 \<and> so_nonblock k \<and> so_epoll k \<and> (tls \<longrightarrow> sl_new ks \<noteq> None) \<and>
     co_ssl_socket_create_new mem_ok k ks tls m =
       Some (Some \<lparr>ss_cc = fresh_socket k, ss_ssl = (if tls then sl_new ks else None)\<rparr>, [], [], m)"
  by (cases "so_nonblock k \<and> so_epoll k"; cases tls)
    (auto simp: co_ssl_socket_create_new_def co_ssl_socket_create_def co_socket_create_def co_socket_init_def co_ssl_new_def
      co_socket_close_def fd_list_def taken_fds_def taken_ssl_def co_ssl_free_def fresh_socket_def Let_def close_loop.simps [of None]
      split: option.splits)

section \<open>Properties\<close>

text \<open>C33. Connecting with a new socket: the call is defined whatever the kernel, the other coroutines and the handshake do.
  A socket that is returned is open and has a session exactly when one was asked for; when none is returned, every
  descriptor and session taken for it has been released exactly once.\<close>

theorem co_ssl_connect_resources:
  assumes "waiters_ok Bs H [] (sk_e (fresh_socket k), m)" "length (H core) < card (Bs core)" "0 < now"
    and "turns_ok Bs turns" "turns_keep turns" "handshake_ok Bs SSL_connect"
  shows "\<exists>res closed freed m'.
    co_ssl_socket_connect_new mem_ok k ks tls core co now tmo conn in_progress soerr turns SSL_connect m = Some (res, closed, freed, m') \<and>
    (res = Returned None \<longrightarrow> closed = taken_fds mem_ok k \<and> freed = taken_ssl mem_ok k ks tls) \<and>
    (\<forall>sk. res = Returned (Some sk) \<longrightarrow> closed = [] \<and> freed = [] \<and> rq_so (sk_e (ss_cc sk)) = so_socket k \<and>
       ss_ssl sk = (if tls then sl_new ks else None) \<and> (tls \<longrightarrow> sl_new ks \<noteq> None))"
proof -
  from co_ssl_socket_create_new_cases [of mem_ok k ks tls m] show ?thesis
  proof
    assume "co_ssl_socket_create_new mem_ok k ks tls m = Some (None, taken_fds mem_ok k, taken_ssl mem_ok k ks tls, m)"
    then show ?thesis by (simp add: co_ssl_socket_connect_new_def)
  next
    let ?ssl = "if tls then sl_new ks else None"
    let ?sk = "\<lparr>ss_cc = fresh_socket k, ss_ssl = ?ssl\<rparr>"
    assume ok: "mem_ok \<and> so_socket k \<noteq> -1 \<and> so_nonblock k \<and> so_epoll k \<and> (tls \<longrightarrow> sl_new ks \<noteq> None) \<and>
       co_ssl_socket_create_new mem_ok k ks tls m = Some (Some ?sk, [], [], m)"
    have fd: "rq_so (sk_e (fresh_socket k)) = so_socket k" by (simp add: fresh_socket_def co_socket_init_def)
    obtain res cc1 m1 where c: "co_socket_connect core co now tmo conn in_progress soerr turns (fresh_socket k, m) = Some (res, cc1, m1)"
        "res \<noteq> Suspended \<longrightarrow> in_order Bs (cc1, m1)" "sock_fd (cc1, m1) = so_socket k"
      using co_socket_connect_ok [OF assms(1-5)] ok fd by fastforce
    have "\<exists>r cc2 m2. co_ssl_socket_connect core co now tmo conn in_progress soerr turns SSL_connect (?sk, m)
          = Some (r, ?sk\<lparr>ss_cc := cc2\<rparr>, m2) \<and> (r \<noteq> Suspended \<longrightarrow> in_order Bs (cc2, m2)) \<and> sock_fd (cc2, m2) = so_socket k"
      using c assms(6)
      by (cases res; cases ?ssl) (fastforce simp: co_ssl_socket_connect_def handshake_ok_def split: sum.splits)+
    then obtain r cc2 m2 where r: "co_ssl_socket_connect core co now tmo conn in_progress soerr turns SSL_connect (?sk, m)
          = Some (r, ?sk\<lparr>ss_cc := cc2\<rparr>, m2)" "r \<noteq> Suspended \<longrightarrow> in_order Bs (cc2, m2)" "sock_fd (cc2, m2) = so_socket k"
      by blast
    show ?thesis
    proof (cases "r = Returned False")
      case True
      then obtain m3 where "co_ssl_socket_destroy (Some (?sk\<lparr>ss_cc := cc2\<rparr>)) m2 = Some ([so_socket k], co_ssl_free ?ssl, m3)"
        using co_ssl_socket_destroy_ok [of Bs "?sk\<lparr>ss_cc := cc2\<rparr>" m2] r ok by (auto simp: sock_fd_def)
      with True ok r(1) show ?thesis
        by (auto simp: co_ssl_socket_connect_new_def taken_fds_def taken_ssl_def co_ssl_free_def)
    next
      case False
      then consider "r = Suspended" | "r = Returned True" by (cases r) auto
      then show ?thesis
        using ok r by cases (auto simp: co_ssl_socket_connect_new_def sock_fd_def)
    qed
  qed
qed

text \<open>A failed accept is not reported: when no connection could be accepted, or its session could not be created,
  \<open>co_ssl_socket_accept_new\<close> returns a socket all the same, whose descriptor is closed.\<close>

theorem co_ssl_accept_unreported:
  assumes "co_socket_accept core co now nonblock_ok epoll_ok turns s = Some (Returned r, lcc, m)"
    and "r = None \<or> tls \<and> r = Some (snd (co_socket_init True True fd)) \<and> fd \<noteq> -1 \<and> fst (co_ssl_new ks) = None"
  shows "\<exists>sk closed m'. co_ssl_socket_accept_new True core co now nonblock_ok epoll_ok ks tls turns s
      = Some (Returned (Some sk, closed, if r = None then [] else snd (co_ssl_new ks)), lcc, m') \<and>
    rq_so (sk_e (ss_cc sk)) = -1 \<and> closed = (if r = None then [] else [fd])"
  using assms
  by (cases "co_ssl_new ks")
    (auto simp: co_ssl_socket_accept_new_def co_ssl_socket_accept_def co_ssl_socket_init_def co_socket_init_def co_ssl_socket_close_def
      co_socket_close_def fd_list_def Let_def close_loop.simps [of None])

section \<open>Examples\<close>

definition example_kernel :: so_outcome where
  "example_kernel = \<lparr>so_socket = 5, so_nonblock = True, so_epoll = True, so_bind = True, so_listen = True\<rparr>"

lemma handshake_fails_ok: "handshake_ok Bs (\<lambda>s. Some (-1, s))"
  by (auto simp: handshake_ok_def)

theorem co_ssl_connect_resources_witness:
  "\<exists>res closed freed m'. co_ssl_socket_connect_new True example_kernel \<lparr>sl_new = Some 9, sl_bio = True\<rparr> True 0 31 1 (-1)
     (Inr ()) False EOK [] (\<lambda>s. Some (-1, s)) example_sock_mem = Some (res, closed, freed, m') \<and>
     (res = Returned None \<longrightarrow> closed = [5] \<and> freed = [9])"
proof -
  have "fresh_socket example_kernel = example_socket"
    by (simp add: fresh_socket_def example_kernel_def example_socket_def)
  then have "waiters_ok (\<lambda>_. {8, 80}) (\<lambda>_. []) [] (sk_e (fresh_socket example_kernel), example_sock_mem)"
    using example_socket_ok(1) by simp
  from co_ssl_connect_resources [OF this example_socket_ok(3) _ _ _ handshake_fails_ok, where core = 0 and now = 1 and turns = "[]" and mem_ok = True
      and ks = "\<lparr>sl_new = Some 9, sl_bio = True\<rparr>" and tls = True and co = 31 and tmo = "-1" and conn = "Inr ()" and in_progress = False and soerr = EOK]
  show ?thesis
    by (auto simp: turns_ok_def turns_keep_def taken_fds_def taken_ssl_def example_kernel_def co_ssl_free_def)
qed

theorem co_ssl_accept_unreported_witness:
  "\<exists>sk closed m' lcc. co_ssl_socket_accept_new True 0 31 1 True True \<lparr>sl_new = None, sl_bio = True\<rparr> False [quiet (-1) ECONNABORTED 1 []]
      (example_socket, example_sock_mem) = Some (Returned (Some sk, closed, []), lcc, m') \<and> rq_so (sk_e (ss_cc sk)) = -1"
proof -
  have "map_option fst (co_socket_accept 0 31 1 True True [quiet (-1) ECONNABORTED 1 []] (example_socket, example_sock_mem))
      = Some (Returned None)"
    by code_simp
  then obtain lcc m where "co_socket_accept 0 31 1 True True [quiet (-1) ECONNABORTED 1 []] (example_socket, example_sock_mem)
      = Some (Returned None, lcc, m)" by auto
  from co_ssl_accept_unreported [OF this, of False 0 "\<lparr>sl_new = None, sl_bio = True\<rparr>"] show ?thesis by auto
qed

end
