(* ===== verification/Corpc_Server.thy ===== *)
theory Corpc_Server
  imports Co_Ssl Corpc_Channel
begin

text \<open>
  Servers: the listening ports of src/cothread/co-ssl-listening-port.c, the server of
  src/cothread/co-ssl-server.c, and the ports and the server of RPC channels on top of them,
  src/corpc/corpc-listening-port.c and src/corpc/corpc-server.c. A listening thread hands the sockets it
  accepts to a callback; for RPC ports this is \<open>corpc_channel_accept\<close>.
\<close>

section \<open>Listening ports\<close>

text \<open>
  Addresses, contexts, functions and cookies are numbers; a null pointer is \<open>None\<close>. The fields that
  \<open>corpc_listening_port\<close> has behind its base exist when the object was allocated with room for them.
\<close>

datatype onaccept_fn = App_onaccept nat | Corpc_listening_port_on_accept

record corpc_port_part =
  clp_services :: "corpc_service list option"
  clp_keep_alive :: nat
  clp_onaccept :: bool
  clp_onaccepted :: bool
  clp_ondisconnected :: bool

record co_ssl_listening_port =
  lp_address :: nat
  lp_ssl_ctx :: "nat option"
  lp_sock_type :: int
  lp_proto :: int
  lp_onaccept :: "onaccept_fn option"
  lp_cookie :: "nat option"
  lp_stack_size :: nat
  lp_sock :: "co_socket option"
  lp_corpc :: "corpc_port_part option"

record co_ssl_listening_port_opts =
  lo_bind_address :: nat
  lo_ssl_ctx :: "nat option"
  lo_sock_type :: int
  lo_proto :: int
  lo_onaccept :: "onaccept_fn option"
  lo_cookie :: "nat option"
  lo_extra_object_size :: nat
  lo_accepted_stack_size :: nat

text \<open>The memory of the server: ports on the heap, those freed, the scheduler and the ports that a thread listens on.\<close>

record server_mem =
  sv_ports :: "nat \<Rightarrow> co_ssl_listening_port option"
  sv_freed :: "nat list"
  sv_sched :: sched_mem
  sv_threads :: "nat list"

definition calloc_port :: "nat \<Rightarrow> co_ssl_listening_port" where
  "calloc_port extra =
     \<lparr>lp_address = 0, lp_ssl_ctx = None, lp_sock_type = 0, lp_proto = 0, lp_onaccept = None, lp_cookie = None,
      lp_stack_size = 0, lp_sock = None,
      lp_corpc = (if extra > 0
                  then Some \<lparr>clp_services = None, clp_keep_alive = 0, clp_onaccept = False, clp_onaccepted = False,
                             clp_ondisconnected = False\<rparr>
                  else None)\<rparr>"

definition co_ssl_listening_port_init :: "co_ssl_listening_port \<Rightarrow> co_ssl_listening_port_opts \<Rightarrow> bool \<times> co_ssl_listening_port" where
  "co_ssl_listening_port_init p opts =
     (True, p\<lparr>lp_address := lo_bind_address opts, lp_ssl_ctx := lo_ssl_ctx opts, lp_sock_type := lo_sock_type opts,
              lp_proto := lo_proto opts, lp_onaccept := lo_onaccept opts, lp_cookie := lo_cookie opts,
              lp_stack_size := lo_accepted_stack_size opts\<rparr>)"

text \<open>\<open>addr\<close> is what \<open>calloc\<close> returns.\<close>

definition co_ssl_listening_port_new :: "nat option \<Rightarrow> co_ssl_listening_port_opts \<Rightarrow> server_mem \<Rightarrow> nat option \<times> server_mem" where
  "co_ssl_listening_port_new addr opts w =
     (case addr of
        None \<Rightarrow> (None, w)
      | Some a \<Rightarrow>
          (case co_ssl_listening_port_init (calloc_port (lo_extra_object_size opts)) opts of
             (_, p) \<Rightarrow> (Some a, w\<lparr>sv_ports := (sv_ports w)(a \<mapsto> p)\<rparr>)))"

definition co_ssl_listening_port_release :: "nat option \<Rightarrow> server_mem \<Rightarrow> server_mem ub" where
  "co_ssl_listening_port_release pp w =
     (case pp of
        None \<Rightarrow> Some w
      | Some a \<Rightarrow> do { _ \<leftarrow> sv_ports w a; Some (w\<lparr>sv_ports := (sv_ports w)(a := None), sv_freed := sv_freed w @ [a]\<rparr>) })"

definition co_ssl_get_listening_port_cookie :: "co_ssl_listening_port \<Rightarrow> nat option" where
  "co_ssl_get_listening_port_cookie p = lp_cookie p"

text \<open>\<open>sched_ok\<close> is the result of \<open>co_schedule\<close>.\<close>

definition co_ssl_listening_port_start_listen :: "bool \<Rightarrow> nat \<Rightarrow> server_mem \<Rightarrow> bool \<times> server_mem" where
  "co_ssl_listening_port_start_listen sched_ok a w =
     (sched_ok, if sched_ok then w\<lparr>sv_threads := sv_threads w @ [a]\<rparr> else w)"

section \<open>The server\<close>

record co_ssl_server =
  srv_ports :: "nat ccarray"
  srv_ssl_ctx :: "nat option"

record co_ssl_server_opts =
  so_ssl_ctx :: "nat option"
  so_max_nb_ports :: int
  so_extra_obj_size :: int

definition co_ssl_server_init :: "(nat \<Rightarrow> bool) \<Rightarrow> co_ssl_server \<Rightarrow> co_ssl_server_opts option \<Rightarrow> bool \<times> co_ssl_server" where
  "co_ssl_server_init malloc_ok srv opts =
     (let max_nb_ports = (case opts of Some o' \<Rightarrow> if so_max_nb_ports o' > 0 then so_max_nb_ports o' else 8 | None \<Rightarrow> 8) in
      case ccarray_init malloc_ok (Some (srv_ports srv)) (nat max_nb_ports) 8 of
        (ok, arr) \<Rightarrow>
          (let srv = srv\<lparr>srv_ports := the arr\<rparr> in
           if \<not> ok then (False, srv)
           else (True, case opts of Some o' \<Rightarrow> srv\<lparr>srv_ssl_ctx := so_ssl_ctx o'\<rparr> | None \<Rightarrow> srv)))"

text \<open>The loop of \<open>co_ssl_server_cleanup\<close> from port \<open>i\<close> to port \<open>n\<close>.\<close>

fun release_ports :: "co_ssl_server \<Rightarrow> nat \<Rightarrow> nat \<Rightarrow> server_mem \<Rightarrow> server_mem ub" where
  "release_ports srv i 0 w = Some w"
| "release_ports srv i (Suc n) w =
     do { slot \<leftarrow> ccarray_item (srv_ports srv) i;
          a \<leftarrow> slot;
          w \<leftarrow> co_ssl_listening_port_release (Some a) w;
          release_ports srv (Suc i) n w }"

definition co_ssl_server_cleanup :: "co_ssl_server \<Rightarrow> server_mem \<Rightarrow> (co_ssl_server \<times> server_mem) ub" where
  "co_ssl_server_cleanup srv w =
     do { w \<leftarrow> release_ports srv 0 (ccarray_size (Some (srv_ports srv))) w;
          Some (srv\<lparr>srv_ports := the (ccarray_cleanup (Some (srv_ports srv)))\<rparr>, w) }"

definition co_ssl_server_destroy :: "co_ssl_server option \<Rightarrow> server_mem \<Rightarrow> (co_ssl_server option \<times> server_mem) ub" where
  "co_ssl_server_destroy srv w =
     (case srv of None \<Rightarrow> Some (None, w) | Some srv \<Rightarrow> do { (_, w) \<leftarrow> co_ssl_server_cleanup srv w; Some (None, w) })"

definition calloc_server :: co_ssl_server where
  "calloc_server = \<lparr>srv_ports = \<lparr>arr_items = None, arr_capacity = 0, arr_size = 0, arr_item_size = 0\<rparr>, srv_ssl_ctx = None\<rparr>"

definition co_ssl_server_new ::
  "bool \<Rightarrow> (nat \<Rightarrow> bool) \<Rightarrow> co_ssl_server_opts option \<Rightarrow> server_mem \<Rightarrow> (co_ssl_server option \<times> server_mem) ub" where
  "co_ssl_server_new calloc_ok malloc_ok opts w =
     (if \<not> calloc_ok then Some (None, w)
      else (case co_ssl_server_init malloc_ok calloc_server opts of
              (True, srv) \<Rightarrow> Some (Some srv, w)
            | (False, srv) \<Rightarrow> co_ssl_server_destroy (Some srv) w))"

definition co_ssl_server_add_port :: "co_ssl_server \<Rightarrow> nat \<Rightarrow> ((errno + unit) \<times> co_ssl_server) ub" where
  "co_ssl_server_add_port srv a =
     (if ccarray_size (Some (srv_ports srv)) \<ge> ccarray_capacity (Some (srv_ports srv)) then Some (Inl ENOBUFS, srv)
      else do { (_, arr) \<leftarrow> ccarray_ppush_back (srv_ports srv) a; Some (Inr (), srv\<lparr>srv_ports := arr\<rparr>) })"

definition co_ssl_server_add_new_port ::
  "nat option \<Rightarrow> co_ssl_server \<Rightarrow> co_ssl_listening_port_opts \<Rightarrow> server_mem \<Rightarrow> (nat option \<times> co_ssl_server \<times> server_mem) ub" where
  "co_ssl_server_add_new_port addr srv opts w =
     (if ccarray_size (Some (srv_ports srv)) \<ge> ccarray_capacity (Some (srv_ports srv)) then Some (None, srv, w)
      else (case co_ssl_listening_port_new addr opts w of
              (None, w) \<Rightarrow> Some (None, srv, w)
            | (Some a, w) \<Rightarrow>
                do { (r, srv) \<leftarrow> co_ssl_server_add_port srv a;
                     (case r of
                        Inr _ \<Rightarrow> Some (Some a, srv, w)
                      | Inl _ \<Rightarrow> do { w \<leftarrow> co_ssl_listening_port_release (Some a) w; Some (None, srv, w) }) }))"

text \<open>
  One round of the loop of \<open>co_ssl_server_start\<close>; the environment is the outcome of \<open>malloc\<close>, of the system calls
  that create the listening socket and of \<open>co_schedule\<close>.
\<close>

type_synonym start_env = "bool \<times> so_outcome \<times> bool"

definition start_port :: "start_env \<Rightarrow> nat \<Rightarrow> server_mem \<Rightarrow> (bool \<times> server_mem) ub" where
  "start_port = (\<lambda>(mem_ok, k, sched_ok) a w.
     do { p \<leftarrow> sv_ports w a;
          (sock, _, m) \<leftarrow> co_ssl_socket_listen_new mem_ok k (sv_sched w);
          let w = w\<lparr>sv_ports := (sv_ports w)(a \<mapsto> p\<lparr>lp_sock := sock\<rparr>), sv_sched := m\<rparr>;
          if sock = None then Some (False, w)
          else (case co_ssl_listening_port_start_listen sched_ok a w of
                  (True, w) \<Rightarrow> Some (True, w)
                | (False, w) \<Rightarrow>
                    do { (_, m) \<leftarrow> co_socket_destroy sock (sv_sched w);
                         Some (False, w\<lparr>sv_ports := (sv_ports w)(a \<mapsto> p\<lparr>lp_sock := None\<rparr>), sv_sched := m\<rparr>) }) })"

fun start_ports :: "co_ssl_server \<Rightarrow> nat \<Rightarrow> start_env list \<Rightarrow> server_mem \<Rightarrow> (bool \<times> server_mem) ub" where
  "start_ports srv i [] w = Some (True, w)"
| "start_ports srv i (env # envs) w =
     do { slot \<leftarrow> ccarray_ppeek (srv_ports srv) i;
          a \<leftarrow> slot;
          (ok, w) \<leftarrow> start_port env a w;
          if ok then start_ports srv (Suc i) envs w else Some (False, w) }"

text \<open>One environment for each port of the server.\<close>

definition co_ssl_server_start :: "(nat \<Rightarrow> start_env) \<Rightarrow> co_ssl_server \<Rightarrow> server_mem \<Rightarrow> (bool \<times> server_mem) ub" where
  "co_ssl_server_start envs srv w = start_ports srv 0 (map envs [0..<ccarray_size (Some (srv_ports srv))]) w"

definition co_ssl_server_stop :: "co_ssl_server \<Rightarrow> bool" where
  "co_ssl_server_stop srv = False"

section \<open>The listening thread\<close>

text \<open>
  Accepted sockets live on the heap until they are destroyed; the callback may keep one. A round of the thread
  depends on the outcome of the system calls and of the allocations: \<open>ae_sock\<close> is the address of the new
  socket, \<open>ae_chan\<close> that of the new channel, \<open>ae_app\<close> an application's own callback.
\<close>

record accept_mem =
  am_socks :: "nat \<Rightarrow> co_ssl_socket option"
  am_closed :: "int list"
  am_freed_ssl :: "nat list"
  am_world :: corpc_world

record accept_env =
  ae_sock :: "nat option"
  ae_core :: nat
  ae_co :: nat
  ae_now :: int
  ae_nonblock :: bool
  ae_epoll :: bool
  ae_ssl :: ssl_outcome
  ae_turns :: "io_turn list"
  ae_chan :: "nat option"
  ae_arr_ok :: bool
  ae_sched_ok :: bool
  ae_app :: "nat \<Rightarrow> corpc_world \<Rightarrow> bool \<times> corpc_world"

text \<open>\<open>corpc_listening_port_on_accept\<close>: it reads the fields behind the base of the port.\<close>

definition corpc_listening_port_on_accept ::
  "accept_env \<Rightarrow> co_ssl_listening_port \<Rightarrow> nat \<Rightarrow> corpc_world \<Rightarrow> (bool \<times> corpc_world) ub" where
  "corpc_listening_port_on_accept env p sock w =
     do { cp \<leftarrow> lp_corpc p;
          corpc_channel_accept (ae_chan env) (ae_arr_ok env) (ae_sched_ok env) sock (clp_services cp) (clp_onaccept cp) w }"

definition port_onaccept :: "accept_env \<Rightarrow> co_ssl_listening_port \<Rightarrow> nat \<Rightarrow> corpc_world \<Rightarrow> (bool \<times> corpc_world) ub" where
  "port_onaccept env p sock w =
     (case lp_onaccept p of
        None \<Rightarrow> None
      | Some (App_onaccept f) \<Rightarrow> Some (ae_app env sock w)
      | Some Corpc_listening_port_on_accept \<Rightarrow> corpc_listening_port_on_accept env p sock w)"

text \<open>What follows a successful \<open>co_ssl_socket_accept_new\<close>.\<close>

definition take_accepted ::
  "accept_env \<Rightarrow> co_ssl_listening_port \<Rightarrow> nat \<Rightarrow> co_ssl_socket \<Rightarrow> sched_mem \<Rightarrow> accept_mem \<Rightarrow> (sched_mem \<times> accept_mem) ub" where
  "take_accepted env p a sk m x =
     do { let x = x\<lparr>am_socks := (am_socks x)(a \<mapsto> sk)\<rparr>;
          (ok, cw) \<leftarrow> port_onaccept env p a (am_world x);
          let x = x\<lparr>am_world := cw\<rparr>;
          if ok then Some (m, x)
          else do { (fds, ssls, m) \<leftarrow> co_ssl_socket_destroy (Some sk) m;
                    Some (m, x\<lparr>am_socks := (am_socks x)(a := None), am_closed := am_closed x @ fds, am_freed_ssl := am_freed_ssl x @ ssls\<rparr>) } }"

text \<open>One round of the loop of \<open>co_ssl_listening_thread\<close> on port \<open>a\<close>; \<open>False\<close>: the thread is still suspended.\<close>

definition co_ssl_listening_thread_round ::
  "accept_env \<Rightarrow> nat \<Rightarrow> server_mem \<times> accept_mem \<Rightarrow> (bool \<times> server_mem \<times> accept_mem) ub" where
  "co_ssl_listening_thread_round env a = (\<lambda>(w, x).
     do { p \<leftarrow> sv_ports w a;
          lsock \<leftarrow> lp_sock p;
          (res, lcc, m) \<leftarrow> co_ssl_socket_accept_new (ae_sock env \<noteq> None) (ae_core env) (ae_co env) (ae_now env) (ae_nonblock env) (ae_epoll env)
             (ae_ssl env) (lp_ssl_ctx p \<noteq> None) (ae_turns env) (lsock, sv_sched w);
          let w = w\<lparr>sv_ports := (sv_ports w)(a \<mapsto> p\<lparr>lp_sock := Some lcc\<rparr>), sv_sched := m\<rparr>;
          (case res of
             Suspended \<Rightarrow> Some (False, w, x)
           | Returned (sk, closed, freed) \<Rightarrow>
               (let x = x\<lparr>am_closed := am_closed x @ closed, am_freed_ssl := am_freed_ssl x @ freed\<rparr> in
                case sk of
                  None \<Rightarrow> Some (True, w, x)
                | Some sk \<Rightarrow>
                    do { (m, x) \<leftarrow> take_accepted env p (the (ae_sock env)) sk (sv_sched w) x; Some (True, w\<lparr>sv_sched := m\<rparr>, x) })) })"

fun co_ssl_listening_thread :: "accept_env list \<Rightarrow> nat \<Rightarrow> server_mem \<times> accept_mem \<Rightarrow> (server_mem \<times> accept_mem) ub" where
  "co_ssl_listening_thread [] a s = Some s"
| "co_ssl_listening_thread (env # envs) a s =
     do { (more, s) \<leftarrow> co_ssl_listening_thread_round env a s;
          if more then co_ssl_listening_thread envs a s else Some s }"

section \<open>RPC ports and servers\<close>

record corpc_listening_port_opts =
  co_listen_address :: nat
  co_port_ssl_ctx :: "nat option"
  co_services :: "corpc_service list option"
  co_keep_alive :: nat
  co_onaccept :: bool
  co_onaccepted :: bool
  co_ondisconnected :: bool

text \<open>\<open>SOCK_STREAM\<close> is 1 and \<open>IPPROTO_TCP\<close> is 6; only the sign of the extra size matters here.\<close>

definition fill_ssl_opts :: "corpc_listening_port_opts \<Rightarrow> co_ssl_listening_port_opts" where
  "fill_ssl_opts opts =
     \<lparr>lo_bind_address = co_listen_address opts, lo_ssl_ctx = co_port_ssl_ctx opts, lo_sock_type = 1, lo_proto = 6,
      lo_onaccept = Some Corpc_listening_port_on_accept, lo_cookie = None, lo_extra_object_size = 40, lo_accepted_stack_size = 0\<rparr>"

definition corpc_listening_port_init :: "co_ssl_listening_port \<Rightarrow> corpc_listening_port_opts \<Rightarrow> (bool \<times> co_ssl_listening_port) ub" where
  "corpc_listening_port_init p opts =
     (case co_ssl_listening_port_init p (fill_ssl_opts opts) of
        (_, p) \<Rightarrow> do { cp \<leftarrow> lp_corpc p; Some (True, p\<lparr>lp_corpc := Some (cp\<lparr>clp_services := co_services opts\<rparr>)\<rparr>) })"

definition co_ssl_listening_port_cleanup :: "co_ssl_listening_port \<Rightarrow> co_ssl_listening_port" where
  "co_ssl_listening_port_cleanup p = (calloc_port 0)\<lparr>lp_corpc := lp_corpc p\<rparr>"

definition corpc_listening_port_cleanup :: "co_ssl_listening_port \<Rightarrow> co_ssl_listening_port ub" where
  "corpc_listening_port_cleanup p =
     (let p = co_ssl_listening_port_cleanup p in
      do { cp \<leftarrow> lp_corpc p; Some (p\<lparr>lp_corpc := Some (cp\<lparr>clp_services := None\<rparr>)\<rparr>) })"

definition corpc_listening_port_new :: "nat option \<Rightarrow> corpc_listening_port_opts \<Rightarrow> server_mem \<Rightarrow> (nat option \<times> server_mem) ub" where
  "corpc_listening_port_new addr opts w =
     (case co_ssl_listening_port_new addr (fill_ssl_opts opts) w of
        (None, w) \<Rightarrow> Some (None, w)
      | (Some a, w) \<Rightarrow>
          do { p \<leftarrow> sv_ports w a;
               _ \<leftarrow> lp_corpc p;
               Some (Some a, w\<lparr>sv_ports := (sv_ports w)(a \<mapsto> p\<lparr>lp_corpc := Some
                  \<lparr>clp_services = co_services opts, clp_keep_alive = co_keep_alive opts, clp_onaccept = co_onaccept opts,
                   clp_onaccepted = co_onaccepted opts, clp_ondisconnected = co_ondisconnected opts\<rparr>\<rparr>)\<rparr>) })"

definition corpc_listening_port_release :: "nat option \<Rightarrow> server_mem \<Rightarrow> server_mem ub" where
  "corpc_listening_port_release = co_ssl_listening_port_release"

record corpc_server_opts =
  cs_ssl_ctx :: "nat option"
  cs_max_nb_ports :: int

definition corpc_server_new ::
  "bool \<Rightarrow> (nat \<Rightarrow> bool) \<Rightarrow> corpc_server_opts \<Rightarrow> server_mem \<Rightarrow> (co_ssl_server option \<times> server_mem) ub" where
  "corpc_server_new calloc_ok malloc_ok opts w =
     co_ssl_server_new calloc_ok malloc_ok (Some \<lparr>so_ssl_ctx = cs_ssl_ctx opts, so_max_nb_ports = cs_max_nb_ports opts, so_extra_obj_size = 0\<rparr>) w"

definition corpc_server_destroy :: "co_ssl_server option \<Rightarrow> server_mem \<Rightarrow> (co_ssl_server option \<times> server_mem) ub" where
  "corpc_server_destroy = co_ssl_server_destroy"

definition corpc_server_add_port ::
  "nat option \<Rightarrow> co_ssl_server \<Rightarrow> corpc_listening_port_opts \<Rightarrow> server_mem \<Rightarrow> (bool \<times> co_ssl_server \<times> server_mem) ub" where
  "corpc_server_add_port addr srv opts w =
     do { (clp, w) \<leftarrow> corpc_listening_port_new addr opts w;
          (case clp of
             None \<Rightarrow> Some (False, srv, w)
           | Some a \<Rightarrow>
               do { (r, srv) \<leftarrow> co_ssl_server_add_port srv a;
                    (case r of
                       Inr _ \<Rightarrow> Some (True, srv, w)
                     | Inl _ \<Rightarrow> do { w \<leftarrow> corpc_listening_port_release (Some a) w; Some (False, srv, w) }) }) }"

definition corpc_server_start :: "(nat \<Rightarrow> start_env) \<Rightarrow> co_ssl_server \<Rightarrow> server_mem \<Rightarrow> (bool \<times> server_mem) ub" where
  "corpc_server_start = co_ssl_server_start"

section \<open>The list of ports\<close>

definition server_list :: "co_ssl_server \<Rightarrow> nat list" where
  "server_list srv = ccarray_list (srv_ports srv)"

definition server_max :: "co_ssl_server \<Rightarrow> nat" where
  "server_max srv = arr_capacity (srv_ports srv)"

definition server_inv :: "co_ssl_server \<Rightarrow> server_mem \<Rightarrow> bool" where
  "server_inv srv w \<longleftrightarrow> ccarray_inv (srv_ports srv) \<and> distinct (server_list srv) \<and>
     (\<forall>a\<in>set (server_list srv). sv_ports w a \<noteq> None)"

text \<open>Adding a port, in terms of the list of ports.\<close>

lemma co_ssl_server_add_port_ok:
  assumes "ccarray_inv (srv_ports srv)"
  shows "if length (server_list srv) < server_max srv
    then \<exists>srv'. co_ssl_server_add_port srv a = Some (Inr (), srv') \<and> ccarray_inv (srv_ports srv') \<and>
           server_list srv' = server_list srv @ [a] \<and> server_max srv' = server_max srv
    else co_ssl_server_add_port srv a = Some (Inl ENOBUFS, srv)"
  using assms ccarray_push_back_ok [OF assms, of a]
  by (auto simp: co_ssl_server_add_port_def ccarray_size_def ccarray_capacity_def ccarray_ppush_back_def
      server_list_def server_max_def conts_simps)

definition corpc_port :: "corpc_listening_port_opts \<Rightarrow> co_ssl_listening_port" where
  "corpc_port opts =
     (snd (co_ssl_listening_port_init (calloc_port 40) (fill_ssl_opts opts)))\<lparr>lp_corpc := Some
        \<lparr>clp_services = co_services opts, clp_keep_alive = co_keep_alive opts, clp_onaccept = co_onaccept opts,
         clp_onaccepted = co_onaccepted opts, clp_ondisconnected = co_ondisconnected opts\<rparr>\<rparr>"

lemma corpc_listening_port_new_eq:
  "corpc_listening_port_new (Some a) opts w = Some (Some a, w\<lparr>sv_ports := (sv_ports w)(a \<mapsto> corpc_port opts)\<rparr>)"
  by (simp add: corpc_listening_port_new_def co_ssl_listening_port_new_def co_ssl_listening_port_init_def corpc_port_def
      calloc_port_def fill_ssl_opts_def)

lemma corpc_server_add_port_ok:
  assumes inv: "server_inv srv w" and new: "sv_ports w a = None"
  shows "if length (server_list srv) < server_max srv
    then \<exists>srv'. corpc_server_add_port (Some a) srv opts w = Some (True, srv', w\<lparr>sv_ports := (sv_ports w)(a \<mapsto> corpc_port opts)\<rparr>) \<and>
           server_inv srv' (w\<lparr>sv_ports := (sv_ports w)(a \<mapsto> corpc_port opts)\<rparr>) \<and>
           server_list srv' = server_list srv @ [a] \<and> server_max srv' = server_max srv
    else corpc_server_add_port (Some a) srv opts w = Some (False, srv, w\<lparr>sv_freed := sv_freed w @ [a]\<rparr>)"
proof -
  have arr: "ccarray_inv (srv_ports srv)" and fresh: "a \<notin> set (server_list srv)"
    using inv new by (auto simp: server_inv_def)
  have upd: "(sv_ports w)(a := None) = sv_ports w" using new by auto
  show ?thesis
  proof (cases "length (server_list srv) < server_max srv")
    case True
    with co_ssl_server_add_port_ok [OF arr, of a] obtain srv' where "co_ssl_server_add_port srv a = Some (Inr (), srv')"
      "ccarray_inv (srv_ports srv')" "server_list srv' = server_list srv @ [a]" "server_max srv' = server_max srv" by auto
    then show ?thesis
      using True inv fresh by (auto simp: corpc_server_add_port_def corpc_listening_port_new_eq server_inv_def)
  next
    case False
    with co_ssl_server_add_port_ok [OF arr, of a] have "co_ssl_server_add_port srv a = Some (Inl ENOBUFS, srv)" by auto
    then show ?thesis
      using False upd by (auto simp: corpc_server_add_port_def corpc_listening_port_new_eq corpc_listening_port_release_def
          co_ssl_listening_port_release_def)
  qed
qed

text \<open>The loop of the cleanup frees the ports in order.\<close>

lemma release_ports_ok:
  assumes "ccarray_inv (srv_ports srv)" "i + n = length (server_list srv)" "distinct (server_list srv)"
    and "\<forall>a\<in>set (drop i (server_list srv)). sv_ports w a \<noteq> None"
  shows "\<exists>w'. release_ports srv i n w = Some w' \<and> sv_freed w' = sv_freed w @ drop i (server_list srv) \<and>
    sv_ports w' = (\<lambda>a. if a \<in> set (drop i (server_list srv)) then None else sv_ports w a) \<and>
    sv_sched w' = sv_sched w \<and> sv_threads w' = sv_threads w"
  using assms(2,4)
proof (induction n arbitrary: i w)
  case (Suc n)
  let ?xs = "server_list srv" and ?a = "server_list srv ! i"
  have i: "i < length ?xs" and dr: "drop i ?xs = ?a # drop (Suc i) ?xs"
    using Suc.prems(1) by (auto simp: Cons_nth_drop_Suc)
  have item: "ccarray_item (srv_ports srv) i = Some (Some ?a)"
    using assms(1) i by (simp add: server_list_def conts_simps)
  have nin: "?a \<notin> set (drop (Suc i) ?xs)"
    using assms(3) dr by (metis distinct.simps(2) distinct_drop)
  let ?w = "w\<lparr>sv_ports := (sv_ports w)(?a := None), sv_freed := sv_freed w @ [?a]\<rparr>"
  obtain p where p: "sv_ports w ?a = Some p" using Suc.prems(2) dr by auto
  have "\<exists>w'. release_ports srv (Suc i) n ?w = Some w' \<and> sv_freed w' = sv_freed ?w @ drop (Suc i) ?xs \<and>
    sv_ports w' = (\<lambda>a. if a \<in> set (drop (Suc i) ?xs) then None else sv_ports ?w a) \<and>
    sv_sched w' = sv_sched ?w \<and> sv_threads w' = sv_threads ?w"
    using Suc.prems dr nin by (intro Suc.IH) auto
  then show ?case using item p dr by (auto simp: co_ssl_listening_port_release_def fun_eq_iff)
qed simp

lemma co_ssl_server_destroy_ok:
  assumes "server_inv srv w"
  shows "\<exists>w'. co_ssl_server_destroy (Some srv) w = Some (None, w') \<and> sv_freed w' = sv_freed w @ server_list srv \<and>
    sv_ports w' = (\<lambda>a. if a \<in> set (server_list srv) then None else sv_ports w a) \<and> sv_threads w' = sv_threads w"
  using release_ports_ok [of srv 0 "length (server_list srv)" w] assms
  by (auto simp: server_inv_def co_ssl_server_destroy_def co_ssl_server_cleanup_def ccarray_size_def server_list_def conts_simps)

lemma corpc_server_new_ok:
  assumes "corpc_server_new True malloc_ok opts w = Some (Some srv, w')" "cs_max_nb_ports opts < 2 ^ 31"
  shows "w' = w \<and> server_inv srv w \<and> server_list srv = [] \<and>
    server_max srv = (if cs_max_nb_ports opts > 0 then nat (cs_max_nb_ports opts) else 8)"
proof -
  let ?n = "nat (if cs_max_nb_ports opts > 0 then cs_max_nb_ports opts else 8)"
  let ?o = "\<lparr>so_ssl_ctx = cs_ssl_ctx opts, so_max_nb_ports = cs_max_nb_ports opts, so_extra_obj_size = 0\<rparr>"
  obtain ok c where init: "ccarray_init malloc_ok (Some (srv_ports calloc_server)) ?n 8 = (ok, c)"
    by (rule prod.exhaust)
  have si: "co_ssl_server_init malloc_ok calloc_server (Some ?o) =
      (if ok then (True, calloc_server\<lparr>srv_ports := the c, srv_ssl_ctx := cs_ssl_ctx opts\<rparr>) else (False, calloc_server\<lparr>srv_ports := the c\<rparr>))"
    using init by (cases "cs_max_nb_ports opts > 0") (simp_all add: co_ssl_server_init_def)
  have c: "ccarray_init malloc_ok (Some (srv_ports calloc_server)) ?n 8 = (True, c)" "srv_ports srv = the c" "w' = w"
    using assms(1) init
    by (cases ok; auto simp: corpc_server_new_def co_ssl_server_new_def si co_ssl_server_destroy_def split: Option.bind_splits)+
  have "?n * 8 < 2 ^ 64" using assms(2) by auto
  from ccarray_init_inv [OF c(1) _ this] c show ?thesis
    by (auto simp: server_inv_def server_list_def server_max_def)
qed

section \<open>Starting\<close>

definition start_good :: "start_env \<Rightarrow> bool" where
  "start_good = (\<lambda>(mem_ok, k, sched_ok). mem_ok \<and> so_nonblock k \<and> so_epoll k \<and> so_bind k \<and> so_listen k \<and> sched_ok)"

text \<open>The creation of a listening socket is undefined when \<open>socket\<close> itself fails.\<close>

definition start_defined :: "start_env \<Rightarrow> bool" where
  "start_defined = (\<lambda>(mem_ok, k, sched_ok). mem_ok \<longrightarrow> so_socket k \<noteq> -1)"

definition start_sock :: "start_env \<Rightarrow> co_socket option" where
  "start_sock env = (if start_good env then Some (fresh_socket (fst (snd env))) else None)"

lemma listen_new_cases:
  assumes "mem_ok \<longrightarrow> so_socket k \<noteq> -1"
  shows "\<exists>closed. co_ssl_socket_listen_new mem_ok k m =
    Some (if mem_ok \<and> so_nonblock k \<and> so_epoll k \<and> so_bind k \<and> so_listen k then Some (fresh_socket k) else None, closed, m)"
  using assms
  by (cases "so_nonblock k \<and> so_epoll k")
    (auto simp: co_ssl_socket_listen_new_def co_socket_create_listening_new_def co_socket_create_listening_def co_socket_create_def
      co_socket_init_def co_socket_close_def fresh_socket_def Let_def close_loop.simps [of None])

lemma destroy_fresh_socket: "\<exists>fds. co_socket_destroy (Some (fresh_socket k)) m = Some (fds, m)"
  by (simp add: co_socket_destroy_def co_socket_close_def fresh_socket_def co_socket_init_def close_loop.simps [of None])

lemma start_port_ok:
  assumes "sv_ports w a = Some p" "start_defined env"
  shows "\<exists>w'. start_port env a w = Some (start_good env, w') \<and> sv_freed w' = sv_freed w \<and>
    sv_ports w' = (sv_ports w)(a \<mapsto> p\<lparr>lp_sock := start_sock env\<rparr>) \<and>
    sv_threads w' = sv_threads w @ (if start_good env then [a] else [])"
proof -
  obtain mem_ok k sched_ok where env: "env = (mem_ok, k, sched_ok)" by (cases env)
  obtain closed where l: "co_ssl_socket_listen_new mem_ok k (sv_sched w) =
      Some (if mem_ok \<and> so_nonblock k \<and> so_epoll k \<and> so_bind k \<and> so_listen k then Some (fresh_socket k) else None, closed, sv_sched w)"
    using listen_new_cases assms(2) env by (fastforce simp: start_defined_def)
  obtain fds where d: "co_socket_destroy (Some (fresh_socket k)) (sv_sched w) = Some (fds, sv_sched w)"
    using destroy_fresh_socket by blast
  show ?thesis
    using assms(1) l d
    by (auto simp: start_port_def env start_good_def start_sock_def co_ssl_listening_port_start_listen_def)
qed

lemma start_ports_ok:
  assumes "ccarray_inv (srv_ports srv)" "distinct (server_list srv)" "list_all start_defined es"
    and "i + length es = length (server_list srv)" "\<forall>a\<in>set (drop i (server_list srv)). sv_ports w a \<noteq> None"
  shows "\<exists>w'. start_ports srv i es w = Some (list_all start_good es, w') \<and>
    sv_threads w' = sv_threads w @ take (length (takeWhile start_good es)) (drop i (server_list srv)) \<and>
    (\<forall>a. a \<notin> set (drop i (server_list srv)) \<longrightarrow> sv_ports w' a = sv_ports w a) \<and>
    (\<forall>j<length es. sv_ports w' (server_list srv ! (i + j)) =
       map_option (\<lambda>p. if j \<le> length (takeWhile start_good es) then p\<lparr>lp_sock := start_sock (es ! j)\<rparr> else p)
         (sv_ports w (server_list srv ! (i + j))))"
  using assms(3-5)
proof (induction es arbitrary: i w)
  case (Cons e es)
  let ?xs = "server_list srv" and ?a = "server_list srv ! i"
  have i: "i < length ?xs" and dr: "drop i ?xs = ?a # drop (Suc i) ?xs"
    using Cons.prems(2) by (auto simp: Cons_nth_drop_Suc)
  have item: "ccarray_ppeek (srv_ports srv) i = Some (Some ?a)"
    using assms(1) i by (simp add: server_list_def ccarray_ppeek_def conts_simps)
  have nin: "?a \<notin> set (drop (Suc i) ?xs)"
    using assms(2) dr by (metis distinct.simps(2) distinct_drop)
  obtain p where p: "sv_ports w ?a = Some p" using Cons.prems(3) dr by auto
  obtain w1 where w1: "start_port e ?a w = Some (start_good e, w1)"
    "sv_ports w1 = (sv_ports w)(?a \<mapsto> p\<lparr>lp_sock := start_sock e\<rparr>)"
    "sv_threads w1 = sv_threads w @ (if start_good e then [?a] else [])"
    using start_port_ok [OF p, of e] Cons.prems(1) by auto
  have neq: "?xs ! (i + Suc j) \<noteq> ?a" if "Suc j < Suc (length es)" for j
    using assms(2) that Cons.prems(2) by (simp add: nth_eq_iff_index_eq)
  show ?case
  proof (cases "start_good e")
    case False
    then show ?thesis
      using item w1 dr p neq
      by (auto simp: less_Suc_eq_0_disj intro!: exI [of _ w1] option.map_ident [symmetric])
  next
    case True
    have "\<exists>w'. start_ports srv (Suc i) es w1 = Some (list_all start_good es, w') \<and>
      sv_threads w' = sv_threads w1 @ take (length (takeWhile start_good es)) (drop (Suc i) ?xs) \<and>
      (\<forall>a. a \<notin> set (drop (Suc i) ?xs) \<longrightarrow> sv_ports w' a = sv_ports w1 a) \<and>
      (\<forall>j<length es. sv_ports w' (?xs ! (Suc i + j)) =
         map_option (\<lambda>p. if j \<le> length (takeWhile start_good es) then p\<lparr>lp_sock := start_sock (es ! j)\<rparr> else p)
           (sv_ports w1 (?xs ! (Suc i + j))))"
      using Cons.prems dr nin w1(2) by (intro Cons.IH) auto
    then obtain w' where w': "start_ports srv (Suc i) es w1 = Some (list_all start_good es, w')"
      "sv_threads w' = sv_threads w1 @ take (length (takeWhile start_good es)) (drop (Suc i) ?xs)"
      "\<forall>a. a \<notin> set (drop (Suc i) ?xs) \<longrightarrow> sv_ports w' a = sv_ports w1 a"
      "\<forall>j<length es. sv_ports w' (?xs ! (Suc i + j)) =
         map_option (\<lambda>p. if j \<le> length (takeWhile start_good es) then p\<lparr>lp_sock := start_sock (es ! j)\<rparr> else p)
           (sv_ports w1 (?xs ! (Suc i + j)))" by blast
    show ?thesis
    proof (intro exI conjI allI impI)
      show "start_ports srv i (e # es) w = Some (list_all start_good (e # es), w')"
        using item w1(1) True w'(1) by simp
      show "sv_threads w' = sv_threads w @ take (length (takeWhile start_good (e # es))) (drop i ?xs)"
        using w'(2) w1(3) True dr by simp
      show "sv_ports w' a = sv_ports w a" if "a \<notin> set (drop i ?xs)" for a
        using that w'(3) w1(2) dr by auto
      show "sv_ports w' (?xs ! (i + j)) =
         map_option (\<lambda>p. if j \<le> length (takeWhile start_good (e # es)) then p\<lparr>lp_sock := start_sock ((e # es) ! j)\<rparr> else p)
           (sv_ports w (?xs ! (i + j)))" if "j < length (e # es)" for j
        using that w'(3,4) nin p w1(2) True neq [of "j - 1"] by (cases j) (auto cong: if_cong)
    qed
  qed
qed simp

section \<open>Properties\<close>

text \<open>Adding ports one after the other; the addresses are those that \<open>calloc\<close> returns.\<close>

fun add_ports :: "(nat \<times> corpc_listening_port_opts) list \<Rightarrow> co_ssl_server \<Rightarrow> server_mem \<Rightarrow> (bool list \<times> co_ssl_server \<times> server_mem) ub" where
  "add_ports [] srv w = Some ([], srv, w)"
| "add_ports ((a, opts) # ps) srv w =
     do { (ok, srv, w) \<leftarrow> corpc_server_add_port (Some a) srv opts w;
          (oks, srv, w) \<leftarrow> add_ports ps srv w;
          Some (ok # oks, srv, w) }"

lemma map_upt_less_full: "m \<le> n \<Longrightarrow> map (\<lambda>i. n + i < m) [0..<k] = replicate k False"
  by (intro nth_equalityI) auto

lemma add_ports_ok:
  assumes "server_inv srv w" "distinct (map fst ps)" "\<forall>a\<in>set (map fst ps). sv_ports w a = None"
  shows "\<exists>srv' w'. add_ports ps srv w = Some (map (\<lambda>i. length (server_list srv) + i < server_max srv) [0..<length ps], srv', w') \<and>
    server_inv srv' w' \<and> server_list srv' = server_list srv @ take (server_max srv - length (server_list srv)) (map fst ps) \<and>
    sv_freed w' = sv_freed w @ drop (server_max srv - length (server_list srv)) (map fst ps) \<and>
    (\<forall>a. a \<notin> set (server_list srv') \<longrightarrow> sv_ports w' a = sv_ports w a) \<and> server_max srv' = server_max srv"
  using assms
proof (induction ps arbitrary: srv w)
  case (Cons q ps)
  obtain a opts where q: "q = (a, opts)" by (cases q)
  let ?n = "length (server_list srv)" and ?max = "server_max srv"
  have upt: "map (\<lambda>i. ?n + i < ?max) [0..<length (q # ps)] = (?n < ?max) # map (\<lambda>i. Suc ?n + i < ?max) [0..<length ps]"
    by (simp add: map_upt_Suc_eq del: upt_Suc)
  have new: "sv_ports w a = None" using Cons.prems(3) q by simp
  show ?case
  proof (cases "?n < ?max")
    case True
    let ?w = "w\<lparr>sv_ports := (sv_ports w)(a \<mapsto> corpc_port opts)\<rparr>"
    obtain srv1 where s1: "corpc_server_add_port (Some a) srv opts w = Some (True, srv1, ?w)" "server_inv srv1 ?w"
      "server_list srv1 = server_list srv @ [a]" "server_max srv1 = ?max"
      using corpc_server_add_port_ok [OF Cons.prems(1) new, of opts] True by auto
    have fresh: "\<forall>b\<in>set (map fst ps). sv_ports ?w b = None" using Cons.prems(2,3) q by auto
    obtain srv' w' where r: "add_ports ps srv1 ?w = Some (map (\<lambda>i. Suc ?n + i < ?max) [0..<length ps], srv', w')"
      "server_inv srv' w'" "server_list srv' = server_list srv1 @ take (?max - Suc ?n) (map fst ps)"
      "sv_freed w' = sv_freed w @ drop (?max - Suc ?n) (map fst ps)"
      "\<forall>b. b \<notin> set (server_list srv') \<longrightarrow> sv_ports w' b = sv_ports ?w b" "server_max srv' = ?max"
      using Cons.IH [OF s1(2) _ fresh] Cons.prems(2) s1(3,4) by auto
    have "?max - ?n = Suc (?max - Suc ?n)" using True by simp
    with r s1 upt q True show ?thesis by auto
  next
    case False
    let ?w = "w\<lparr>sv_freed := sv_freed w @ [a]\<rparr>"
    have s1: "corpc_server_add_port (Some a) srv opts w = Some (False, srv, ?w)"
      using corpc_server_add_port_ok [OF Cons.prems(1) new, of opts] False by auto
    have inv: "server_inv srv ?w" using Cons.prems(1) by (simp add: server_inv_def)
    from Cons.IH [OF inv] Cons.prems q obtain srv' w' where
      "add_ports ps srv ?w = Some (map (\<lambda>i. ?n + i < ?max) [0..<length ps], srv', w')"
      "server_inv srv' w'" "server_list srv' = server_list srv @ take (?max - ?n) (map fst ps)"
      "sv_freed w' = sv_freed w @ a # drop (?max - ?n) (map fst ps)"
      "\<forall>b. b \<notin> set (server_list srv') \<longrightarrow> sv_ports w' b = sv_ports w b" "server_max srv' = ?max"
      by (auto simp: server_inv_def)
    with s1 upt q False map_upt_less_full [of ?max ?n "length ps"] map_upt_less_full [of ?max "Suc ?n" "length ps"]
    show ?thesis by auto
  qed
qed simp

text \<open>A new server takes ports up to the number it was created for and refuses further ones; every port that was created
  for it is freed exactly once, the refused ones at once and the others with the server.\<close>

theorem corpc_server_ports_freed_once:
  assumes "corpc_server_new True malloc_ok opts w = Some (Some srv, w0)" "cs_max_nb_ports opts < 2 ^ 31"
    and "distinct (map fst ps)" "\<forall>a\<in>set (map fst ps). sv_ports w a = None"
  shows "\<exists>srv' w1 w2 max. max = (if cs_max_nb_ports opts > 0 then nat (cs_max_nb_ports opts) else 8) \<and>
    add_ports ps srv w0 = Some (map (\<lambda>i. i < max) [0..<length ps], srv', w1) \<and>
    server_list srv' = take max (map fst ps) \<and>
    corpc_server_destroy (Some srv') w1 = Some (None, w2) \<and>
    sv_freed w2 = sv_freed w @ drop max (map fst ps) @ take max (map fst ps) \<and> sv_ports w2 = sv_ports w"
proof -
  let ?max = "if cs_max_nb_ports opts > 0 then nat (cs_max_nb_ports opts) else 8"
  have srv: "w0 = w" "server_inv srv w" "server_list srv = []" "server_max srv = ?max"
    using corpc_server_new_ok [OF assms(1,2)] by auto
  obtain srv' w1 where r: "add_ports ps srv w = Some (map (\<lambda>i. i < ?max) [0..<length ps], srv', w1)" "server_inv srv' w1"
    "server_list srv' = take ?max (map fst ps)" "sv_freed w1 = sv_freed w @ drop ?max (map fst ps)"
    "\<forall>a. a \<notin> set (server_list srv') \<longrightarrow> sv_ports w1 a = sv_ports w a"
    using add_ports_ok [OF srv(2) assms(3,4)] unfolding srv(3,4) by auto
  obtain w2 where d: "co_ssl_server_destroy (Some srv') w1 = Some (None, w2)" "sv_freed w2 = sv_freed w1 @ server_list srv'"
    "sv_ports w2 = (\<lambda>a. if a \<in> set (server_list srv') then None else sv_ports w1 a)"
    using co_ssl_server_destroy_ok [OF r(2)] by auto
  have "sv_ports w2 a = sv_ports w a" for a
  proof (cases "a \<in> set (server_list srv')")
    case True
    then have "a \<in> set (map fst ps)" using in_set_takeD unfolding r(3) by metis
    then have "sv_ports w a = None" using assms(4) by blast
    with True d(3) show ?thesis by simp
  qed (use d(3) r(5) in simp)
  then have "sv_ports w2 = sv_ports w" by auto
  with r d srv(1) show ?thesis by (auto simp: corpc_server_destroy_def)
qed

text \<open>Starting a server succeeds exactly when every port gets a listening socket and a thread. Otherwise the ports before the first
  failure keep listening, the one that failed has no socket, and the later ones are untouched.\<close>

theorem corpc_server_start_outcome:
  assumes "server_inv srv w" "\<forall>i<length (server_list srv). start_defined (envs i)"
  shows "\<exists>w' k. corpc_server_start envs srv w = Some (\<forall>i<length (server_list srv). start_good (envs i), w') \<and>
    k \<le> length (server_list srv) \<and> (\<forall>i<k. start_good (envs i)) \<and> (k < length (server_list srv) \<longrightarrow> \<not> start_good (envs k)) \<and>
    sv_threads w' = sv_threads w @ take k (server_list srv) \<and>
    (\<forall>i<length (server_list srv). map_option lp_sock (sv_ports w' (server_list srv ! i)) =
       (if i < k then Some (Some (fresh_socket (fst (snd (envs i))))) else if i = k then Some None
        else map_option lp_sock (sv_ports w (server_list srv ! i))))"
proof -
  let ?xs = "server_list srv" and ?es = "map envs [0..<length (server_list srv)]"
  let ?k = "length (takeWhile start_good ?es)"
  have inv: "ccarray_inv (srv_ports srv)" "distinct ?xs" "\<forall>a\<in>set ?xs. sv_ports w a \<noteq> None"
    using assms(1) by (auto simp: server_inv_def)
  have "list_all start_defined ?es" using assms(2) by (auto simp: list_all_iff)
  from start_ports_ok [OF inv(1,2) this, of 0 w] inv(3) obtain w' where w':
    "start_ports srv 0 ?es w = Some (list_all start_good ?es, w')" "sv_threads w' = sv_threads w @ take ?k ?xs"
    "\<forall>j<length ?xs. sv_ports w' (?xs ! j) =
       map_option (\<lambda>p. if j \<le> ?k then p\<lparr>lp_sock := start_sock (?es ! j)\<rparr> else p) (sv_ports w (?xs ! j))" by auto
  have all: "list_all start_good ?es \<longleftrightarrow> (\<forall>i<length ?xs. start_good (envs i))"
    by (auto simp: list_all_iff)
  have k: "?k \<le> length ?xs" using length_takeWhile_le [of start_good ?es] by simp
  have good: "start_good (envs i)" if "i < ?k" for i
    using nth_length_takeWhile takeWhile_nth [OF that] set_takeWhileD [OF nth_mem [OF that]] that k by auto
  have bad: "\<not> start_good (envs ?k)" if "?k < length ?xs"
    using nth_length_takeWhile [of start_good ?es] that by simp
  have start: "corpc_server_start envs srv w = Some (\<forall>i<length ?xs. start_good (envs i), w')"
    using w'(1) inv(1) unfolding all by (simp add: corpc_server_start_def co_ssl_server_start_def ccarray_size_def server_list_def conts_simps)
  have socks: "map_option lp_sock (sv_ports w' (?xs ! i)) =
       (if i < ?k then Some (Some (fresh_socket (fst (snd (envs i))))) else if i = ?k then Some None
        else map_option lp_sock (sv_ports w (?xs ! i)))" if i: "i < length ?xs" for i
  proof -
    obtain p where "sv_ports w (?xs ! i) = Some p" using inv(3) i by fastforce
    with w'(3) i good [of i] bad show ?thesis by (auto simp: start_sock_def)
  qed
  show ?thesis using start k good bad w'(2) socks by (intro exI [of _ w'] exI [of _ ?k]) blast
qed

lemma co_ssl_socket_destroy_in_order:
  assumes "in_order Bs (ss_cc sk, m)"
  shows "\<exists>m'. co_ssl_socket_destroy (Some sk) m =
    Some (if rq_so (sk_e (ss_cc sk)) = -1 then [] else [rq_so (sk_e (ss_cc sk))], co_ssl_free (ss_ssl sk), m')"
  using assms co_ssl_socket_destroy_ok [OF assms]
  by (cases "rq_so (sk_e (ss_cc sk)) = -1") (auto simp: co_ssl_socket_destroy_def co_socket_close_def fd_list_def)

lemma corpc_channel_accept_cases:
  assumes "\<forall>c. addr = Some c \<longrightarrow> w_channels w c = None"
  shows "corpc_channel_accept addr arr_ok sched_ok sock srvs onaccept w = Some (False, w) \<or>
    (\<exists>c ch. addr = Some c \<and> corpc_channel_accept addr arr_ok sched_ok sock srvs onaccept w = Some (True, put_channel c ch w) \<and>
       ch_ssl_sock ch = Some sock \<and> ch_state ch = corpc_channel_state_accepting \<and> ch_services ch = srvs \<and> ch_onaccept ch = onaccept)"
proof (cases addr)
  case None
  then show ?thesis by (simp add: corpc_channel_accept_def corpc_channel_new_def)
next
  case (Some c)
  have upd: "w\<lparr>w_channels := (w_channels w)(c := None)\<rparr> = w" using assms Some by (simp add: fun_upd_idem)
  obtain ok ch where "corpc_channel_init arr_ok True calloc_channel None = (ok, ch)" by (rule prod.exhaust)
  then show ?thesis
    using Some upd by (cases ok; cases sched_ok)
      (auto simp: corpc_channel_accept_def corpc_channel_new_def channel_destroy_def put_channel_def)
qed

text \<open>C34. A socket that the listening thread of an RPC port has accepted belongs afterwards to exactly one new channel, which
  has the services of the port and is in its accepting state; or it has been destroyed, with its descriptor closed
  and its session freed, and no channel has changed.\<close>

theorem accepted_socket_has_owner:
  assumes "lp_onaccept p = Some Corpc_listening_port_on_accept" "lp_corpc p = Some cp" "in_order Bs (ss_cc sk, m)"
    and "\<forall>c. ae_chan env = Some c \<longrightarrow> w_channels (am_world x) c = None"
  shows "\<exists>m' x'. take_accepted env p a sk m x = Some (m', x') \<and>
    ((\<exists>c ch. ae_chan env = Some c \<and> am_world x' = put_channel c ch (am_world x) \<and> ch_ssl_sock ch = Some a \<and>
        ch_state ch = corpc_channel_state_accepting \<and> ch_services ch = clp_services cp \<and> ch_onaccept ch = clp_onaccept cp \<and>
        am_socks x' = (am_socks x)(a \<mapsto> sk) \<and> am_closed x' = am_closed x \<and> am_freed_ssl x' = am_freed_ssl x) \<or>
     am_world x' = am_world x \<and> am_socks x' = (am_socks x)(a := None) \<and>
        am_closed x' = am_closed x @ (if rq_so (sk_e (ss_cc sk)) = -1 then [] else [rq_so (sk_e (ss_cc sk))]) \<and>
        am_freed_ssl x' = am_freed_ssl x @ co_ssl_free (ss_ssl sk))"
proof -
  let ?acc = "corpc_channel_accept (ae_chan env) (ae_arr_ok env) (ae_sched_ok env) a (clp_services cp) (clp_onaccept cp) (am_world x)"
  have on: "port_onaccept env p a (am_world x) = ?acc"
    using assms(1,2) by (simp add: port_onaccept_def corpc_listening_port_on_accept_def)
  obtain m' where d: "co_ssl_socket_destroy (Some sk) m =
      Some (if rq_so (sk_e (ss_cc sk)) = -1 then [] else [rq_so (sk_e (ss_cc sk))], co_ssl_free (ss_ssl sk), m')"
    using co_ssl_socket_destroy_in_order [OF assms(3)] by blast
  from corpc_channel_accept_cases [OF assms(4)] show ?thesis
  proof
    assume "?acc = Some (False, am_world x)"
    with on d show ?thesis by (simp add: take_accepted_def)
  next
    assume "\<exists>c ch. ae_chan env = Some c \<and> ?acc = Some (True, put_channel c ch (am_world x)) \<and>
       ch_ssl_sock ch = Some a \<and> ch_state ch = corpc_channel_state_accepting \<and> ch_services ch = clp_services cp \<and>
       ch_onaccept ch = clp_onaccept cp"
    then obtain c ch where "ae_chan env = Some c" "?acc = Some (True, put_channel c ch (am_world x))"
       "ch_ssl_sock ch = Some a" "ch_state ch = corpc_channel_state_accepting" "ch_services ch = clp_services cp"
       "ch_onaccept ch = clp_onaccept cp" by blast
    with on show ?thesis by (auto simp: take_accepted_def)
  qed
qed

text \<open>Destroying a server that is running frees ports whose threads still use them.\<close>

lemma listening_thread_after_destroy:
  assumes "server_inv srv w" "a \<in> set (server_list srv)"
  shows "\<exists>w'. co_ssl_server_destroy (Some srv) w = Some (None, w') \<and> co_ssl_listening_thread (env # envs) a (w', x) = None"
  using co_ssl_server_destroy_ok [OF assms(1)] assms(2)
  by (auto simp: co_ssl_listening_thread_round_def)

section \<open>Examples\<close>

definition example_server_mem :: server_mem where
  "example_server_mem = \<lparr>sv_ports = (\<lambda>_. None), sv_freed = [], sv_sched = example_sock_mem, sv_threads = []\<rparr>"

definition example_port_opts :: corpc_listening_port_opts where
  "example_port_opts = \<lparr>co_listen_address = 6001, co_port_ssl_ctx = None, co_services = Some [], co_keep_alive = 0,
     co_onaccept = False, co_onaccepted = False, co_ondisconnected = False\<rparr>"

definition example_server :: co_ssl_server where
  "example_server = \<lparr>srv_ports = \<lparr>arr_items = Some [None], arr_capacity = 1, arr_size = 0, arr_item_size = 8\<rparr>, srv_ssl_ctx = None\<rparr>"

lemma example_server_new:
  "corpc_server_new True (\<lambda>_. True) \<lparr>cs_ssl_ctx = None, cs_max_nb_ports = 1\<rparr> example_server_mem = Some (Some example_server, example_server_mem)"
  by (simp add: corpc_server_new_def co_ssl_server_new_def co_ssl_server_init_def calloc_server_def ccarray_init_def malloc_bytes_def
      example_server_def)

theorem corpc_server_ports_freed_once_witness:
  "\<exists>srv' w1 w2. add_ports [(16, example_port_opts), (32, example_port_opts)] example_server example_server_mem = Some ([True, False], srv', w1) \<and>
     corpc_server_destroy (Some srv') w1 = Some (None, w2) \<and> sv_freed w2 = [32, 16]"
  using corpc_server_ports_freed_once [OF example_server_new, of "[(16, example_port_opts), (32, example_port_opts)]"]
  by (auto simp: example_server_mem_def)

definition example_started_server :: co_ssl_server where
  "example_started_server = example_server\<lparr>srv_ports := \<lparr>arr_items = Some [Some 16], arr_capacity = 1, arr_size = 1, arr_item_size = 8\<rparr>\<rparr>"

lemma example_started_server_ok:
  "server_inv example_started_server (example_server_mem\<lparr>sv_ports := [16 \<mapsto> corpc_port example_port_opts]\<rparr>)"
  "server_list example_started_server = [16]"
  by (auto simp: server_inv_def server_list_def example_started_server_def ccarray_inv_def ccarray_list_def)

theorem corpc_server_start_outcome_witness:
  "\<exists>w'. corpc_server_start (\<lambda>_. (True, example_kernel, True)) example_started_server
      (example_server_mem\<lparr>sv_ports := [16 \<mapsto> corpc_port example_port_opts]\<rparr>) = Some (True, w') \<and> sv_threads w' = [16]"
proof -
  have g: "start_good (True, example_kernel, True)" "start_defined (True, example_kernel, True)"
    by (auto simp: start_good_def start_defined_def example_kernel_def)
  then obtain w' k where "corpc_server_start (\<lambda>_. (True, example_kernel, True)) example_started_server
      (example_server_mem\<lparr>sv_ports := [16 \<mapsto> corpc_port example_port_opts]\<rparr>) = Some (True, w')" "k = 1"
      "sv_threads w' = take k [16]"
    using corpc_server_start_outcome [OF example_started_server_ok(1), of "\<lambda>_. (True, example_kernel, True)"]
    by (auto simp: example_started_server_ok(2) example_server_mem_def le_Suc_eq)
  then show ?thesis by auto
qed

definition example_accept_env :: accept_env where
  "example_accept_env = \<lparr>ae_sock = Some 48, ae_core = 0, ae_co = 31, ae_now = 1, ae_nonblock = True, ae_epoll = True,
     ae_ssl = \<lparr>sl_new = None, sl_bio = True\<rparr>, ae_turns = [], ae_chan = None, ae_arr_ok = True, ae_sched_ok = True,
     ae_app = (\<lambda>_ w. (True, w))\<rparr>"

definition example_accept_mem :: accept_mem where
  "example_accept_mem = \<lparr>am_socks = (\<lambda>_. None), am_closed = [], am_freed_ssl = [],
     am_world = \<lparr>w_channels = (\<lambda>_. None), w_streams = (\<lambda>_. None), w_gsid = 0, w_errno = EOK, w_out = []\<rparr>\<rparr>"

theorem accepted_socket_has_owner_witness:
  "\<exists>m' x'. take_accepted example_accept_env (corpc_port example_port_opts) 48 \<lparr>ss_cc = example_socket, ss_ssl = Some 9\<rparr>
     example_sock_mem example_accept_mem = Some (m', x') \<and> am_closed x' = [5] \<and> am_freed_ssl x' = [9] \<and> am_socks x' 48 = None"
proof -
  have "in_order (\<lambda>_. {8, 80}) (ss_cc \<lparr>ss_cc = example_socket, ss_ssl = Some 9\<rparr>, example_sock_mem)"
    using example_socket_ok(1) by (auto simp: in_order_def)
  from accepted_socket_has_owner [OF _ _ this, of "corpc_port example_port_opts" _ example_accept_env example_accept_mem 48]
  show ?thesis
    by (auto simp: corpc_port_def co_ssl_listening_port_init_def fill_ssl_opts_def example_accept_env_def example_accept_mem_def
        co_ssl_free_def example_socket_def co_socket_init_def)
qed

end
