(* ===== verification/C_Text.thy ===== *)
theory C_Text
  imports Prelude
begin

text \<open>
  The C library's text functions that the sources use, on lists of characters without the terminating zero: white
  space, the conversions \<open>%n[...]\<close>, \<open>%hhu\<close> and \<open>%hu\<close> of \<open>sscanf\<close>, and the decimal notation of numbers.
\<close>

section \<open>C strings\<close>

abbreviation newline :: char where "newline \<equiv> CHR 0x0A"

definition isspace :: "char \<Rightarrow> bool" where
  "isspace c \<longleftrightarrow> c = CHR '' '' \<or> c \<in> {CHR 0x09, CHR 0x0A, CHR 0x0B, CHR 0x0C, CHR 0x0D}"

definition c_string :: "char list \<Rightarrow> string" where
  "c_string xs = takeWhile (\<lambda>c. c \<noteq> CHR 0x00) xs"

text \<open>A conversion \<open>%n[...]\<close>: up to \<open>n\<close> characters of the set, at least one.\<close>

definition scan_set :: "nat \<Rightarrow> (char \<Rightarrow> bool) \<Rightarrow> string \<Rightarrow> (string \<times> string) option" where
  "scan_set n P s =
     (let x = take n (takeWhile P s) in if x = [] then None else Some (x, drop (length x) s))"

definition between :: "char \<Rightarrow> char \<Rightarrow> char \<Rightarrow> bool" where
  "between lo hi c \<longleftrightarrow> (of_char lo :: nat) \<le> of_char c \<and> (of_char c :: nat) \<le> of_char hi"

text \<open>
  An unsigned conversion: white space, a sign, decimal digits. A number out of the range of \<open>unsigned long\<close> gives
  the largest one; the narrower types keep the low bits.
\<close>

definition isdigit :: "char \<Rightarrow> bool" where
  "isdigit c \<longleftrightarrow> between CHR ''0'' CHR ''9'' c"

definition digit_val :: "char \<Rightarrow> nat" where
  "digit_val c = of_char c - 48"

definition digits_val :: "string \<Rightarrow> nat" where
  "digits_val ds = foldl (\<lambda>n c. 10 * n + digit_val c) 0 ds"

definition scan_uint :: "string \<Rightarrow> (u64 \<times> string) option" where
  "scan_uint s =
     (let s = dropWhile isspace s;
          neg = (s \<noteq> [] \<and> hd s = CHR ''-'');
          s = (if s \<noteq> [] \<and> (hd s = CHR ''-'' \<or> hd s = CHR ''+'') then tl s else s);
          ds = takeWhile isdigit s in
      if ds = [] then None
      else Some (if digits_val ds \<ge> 2 ^ 64 then - 1 else if neg then - of_nat (digits_val ds) else of_nat (digits_val ds),
                 dropWhile isdigit s))"

fun decimal :: "nat \<Rightarrow> string" where
  "decimal n = (if n < 10 then [char_of (48 + n)] else decimal (n div 10) @ [char_of (48 + n mod 10)])"

declare decimal.simps [simp del]

section \<open>Lemmas\<close>

lemma dropWhile_all: "\<forall>c\<in>set ws. P c \<Longrightarrow> s = [] \<or> \<not> P (hd s) \<Longrightarrow> dropWhile P (ws @ s) = s"
  by (cases s) (auto simp: dropWhile_append)

lemma takeWhile_all: "\<forall>c\<in>set ws. P c \<Longrightarrow> s = [] \<or> \<not> P (hd s) \<Longrightarrow> takeWhile P (ws @ s) = ws"
  by (cases s) (auto simp: takeWhile_append)

lemma scan_set_run:
  assumes "x \<noteq> []" "length x \<le> n" "\<forall>c\<in>set x. P c" "s = [] \<or> \<not> P (hd s)"
  shows "scan_set n P (x @ s) = Some (x, s)"
proof -
  have "takeWhile P (x @ s) = x" using assms(3,4) by (rule takeWhile_all)
  then show ?thesis using assms by (simp add: scan_set_def)
qed

lemma scan_set_Some: "scan_set n P s = Some (x, r) \<Longrightarrow> x = take n (takeWhile P s)"
  by (auto simp: scan_set_def Let_def split: if_splits)

lemma scan_set_None: "scan_set n P s = None \<Longrightarrow> 0 < n \<Longrightarrow> takeWhile P s = []"
  by (auto simp: scan_set_def Let_def split: if_splits)

lemma isdigit_digit [simp]: "n < 10 \<Longrightarrow> isdigit (char_of (48 + n))" "n < 10 \<Longrightarrow> digit_val (char_of (48 + n)) = n"
  by (simp_all add: isdigit_def between_def digit_val_def of_char_of)

lemma isdigit_not_space: "isdigit c \<Longrightarrow> \<not> isspace c \<and> c \<noteq> CHR ''-'' \<and> c \<noteq> CHR ''+''"
  by (auto simp: isdigit_def between_def isspace_def)

lemma digits_val_snoc: "digits_val (ds @ [c]) = 10 * digits_val ds + digit_val c"
  by (simp add: digits_val_def)

lemma decimal_digits: "(\<forall>c\<in>set (decimal n). isdigit c) \<and> decimal n \<noteq> [] \<and> digits_val (decimal n) = n"
proof (induction n rule: decimal.induct)
  case (1 n)
  show ?case
  proof (cases "n < 10")
    case True
    then show ?thesis by (simp add: decimal.simps [of n] digits_val_def)
  next
    case False
    then show ?thesis using 1 by (auto simp: decimal.simps [of n] digits_val_snoc)
  qed
qed

lemma scan_uint_decimal:
  assumes "n < 2 ^ 64" "s = [] \<or> \<not> isdigit (hd s)"
  shows "scan_uint (decimal n @ s) = Some (of_nat n, s)"
proof -
  obtain c ds where d: "decimal n = c # ds" using decimal_digits [of n] by (cases "decimal n") auto
  have c: "isdigit c" "\<not> isspace c" "c \<noteq> CHR ''-''" "c \<noteq> CHR ''+''"
    using decimal_digits [of n] d isdigit_not_space by auto
  have all: "\<forall>c\<in>set (decimal n). isdigit c" using decimal_digits by blast
  show ?thesis
    using assms(1) c decimal_digits [of n] d takeWhile_all [OF all assms(2)] dropWhile_all [OF all assms(2)]
    by (simp add: scan_uint_def)
qed

end
