(* ===== verification/Co_Resolve.thy ===== *)
theory Co_Resolve
  imports C_Text Co_Socket "HOL-Library.Monad_Syntax"
begin

text \<open>
  Names of servers, src/cothread/co-resolve.c: addresses in dotted notation, the loop that waits for an answer of the DNS
  library, and the address of a server. The DNS library is a parameter: what it answers in each round of the loop.
\<close>

section \<open>Addresses in dotted notation\<close>

definition INET_ADDR :: "u8 \<Rightarrow> u8 \<Rightarrow> u8 \<Rightarrow> u8 \<Rightarrow> u32" where
  "INET_ADDR a b c d = push_bit 24 (ucast a) OR push_bit 16 (ucast b) OR push_bit 8 (ucast c) OR ucast d"

definition INET_BYTE :: "nat \<Rightarrow> u32 \<Rightarrow> u8" where
  "INET_BYTE n x = ucast (drop_bit (n * 8) x AND 0xFF)"

definition literal :: "char \<Rightarrow> string \<Rightarrow> string option" where
  "literal c s = (case s of [] \<Rightarrow> None | x # s \<Rightarrow> if x = c then Some s else None)"

text \<open>
  The address, and the port when there is one; the \<open>sscanf\<close> format is \<open>"%hhu.%hhu.%hhu.%hhu:%hu"\<close> and four of the five
  numbers are enough.
\<close>

definition parse_ip4_addrs :: "string \<Rightarrow> u16 \<Rightarrow> (u32 \<times> u16) option" where
  "parse_ip4_addrs s port =
     do { (a1, s) \<leftarrow> scan_uint s; s \<leftarrow> literal CHR ''.'' s;
          (a2, s) \<leftarrow> scan_uint s; s \<leftarrow> literal CHR ''.'' s;
          (a3, s) \<leftarrow> scan_uint s; s \<leftarrow> literal CHR ''.'' s;
          (a4, s) \<leftarrow> scan_uint s;
          Some (INET_ADDR (ucast a1) (ucast a2) (ucast a3) (ucast a4),
                case (do { s \<leftarrow> literal CHR '':'' s; scan_uint s }) of Some (p, _) \<Rightarrow> ucast p | None \<Rightarrow> port) }"

section \<open>Resolving\<close>

datatype addr_family = AF_INET | AF_INET6 | AF_UNIX | AF_OTHER

record addrinfo =
  ai_family :: addr_family
  ai_address :: u32
  ai_port :: u16

text \<open>
  One round of the loop: the status of \<open>cf_resolve_fetch\<close>, the answer, the time in seconds and the descriptor to wait for.
  \<open>q\<close> is destroyed in any case. Errno is \<open>ETIME\<close> here for \<open>ETIMEDOUT\<close>.
\<close>

record resolve_round =
  rr_status :: errno
  rr_ai :: "addrinfo option"
  rr_now :: int
  rr_pollfd :: int

fun resolve_loop :: "int \<Rightarrow> resolve_round list \<Rightarrow> (errno \<times> addrinfo option \<times> errno) io_result" where
  "resolve_loop until [] = Suspended"
| "resolve_loop until (r # rs) =
     (if rr_status r = EOK then Returned (EOK, rr_ai r, EOK)
      else if rr_status r = EAGAIN
      then (if until > 0 \<and> rr_now r > until then Returned (EAGAIN, None, ETIME)
            else if rr_pollfd r = -1 then Returned (EAGAIN, None, EOK)
            else resolve_loop until rs)
      else Returned (rr_status r, None, EOK))"

definition co_resolve ::
  "string \<Rightarrow> int \<Rightarrow> int \<Rightarrow> errno \<Rightarrow> resolve_round list \<Rightarrow> (errno \<times> addrinfo option \<times> errno) io_result" where
  "co_resolve name timeout_sec now submit rounds =
     (case parse_ip4_addrs name 0 of
        Some (address, port) \<Rightarrow> Returned (EOK, Some \<lparr>ai_family = AF_INET, ai_address = address, ai_port = port\<rparr>, EOK)
      | None \<Rightarrow>
          if submit \<noteq> EOK then Returned (submit, None, EOK)
          else resolve_loop (if timeout_sec > 0 then now + timeout_sec else timeout_sec) rounds)"

text \<open>The time limit is in milliseconds here and in seconds in \<open>co_resolve\<close>. The first answer is used.\<close>

definition co_server_resolve ::
  "string \<Rightarrow> u16 \<Rightarrow> int \<Rightarrow> int \<Rightarrow> errno \<Rightarrow> resolve_round list \<Rightarrow> (errno + addrinfo) io_result ub" where
  "co_server_resolve address port tmo now submit rounds =
     (case co_resolve address (if tmo > 0 then tmo div 1000 else 15 * 1000) now submit rounds of
        Suspended \<Rightarrow> Some Suspended
      | Returned (status, ai, _) \<Rightarrow>
          if status \<noteq> EOK then Some (Returned (Inl status))
          else do { ai \<leftarrow> ai;
                    if port = 0 \<and> ai_family ai \<noteq> AF_UNIX then Some (Returned (Inl (EOTHER 89)))
                    else Some (Returned (Inr (if ai_family ai = AF_INET \<or> ai_family ai = AF_INET6 then ai\<lparr>ai_port := port\<rparr> else ai))) })"

section \<open>Properties\<close>

definition dotted :: "u8 \<Rightarrow> u8 \<Rightarrow> u8 \<Rightarrow> u8 \<Rightarrow> string" where
  "dotted a b c d = decimal (unat a) @ ''.'' @ decimal (unat b) @ ''.'' @ decimal (unat c) @ ''.'' @ decimal (unat d)"

lemma not_digit_dot [simp]: "\<not> isdigit CHR ''.''" "\<not> isdigit CHR '':''"
  by (simp_all add: isdigit_def between_def)

lemma scan_byte: "s = [] \<or> \<not> isdigit (hd s) \<Longrightarrow> scan_uint (decimal (unat (a :: u8)) @ s) = Some (of_nat (unat a), s)"
  using unsigned_less [of a, where 'a = nat] by (intro scan_uint_decimal) auto

lemma ucast_back [simp]: "ucast (ucast (a :: u8) :: u64) = a" "ucast (ucast (p :: u16) :: u64) = p"
  by (rule bit_eqI; auto simp: bit_simps dest: bit_imp_le_length)+

lemma inet_low_byte: "bit (0xFF :: u32) n \<longleftrightarrow> n < 8" "bit (0xFF :: u8) n \<longleftrightarrow> n < 8" "bit (0xFF :: int) n \<longleftrightarrow> n < 8"
  using bit_mask_iff [where 'a = u32, of 8 n] bit_mask_iff [where 'a = u8, of 8 n] bit_mask_iff [where 'a = int, of 8 n]
  by (auto simp: mask_eq_exp_minus_1)

lemma INET_BYTE_ADDR [simp]:
  "INET_BYTE 3 (INET_ADDR a b c d) = a" "INET_BYTE 2 (INET_ADDR a b c d) = b"
  "INET_BYTE 1 (INET_ADDR a b c d) = c" "INET_BYTE 0 (INET_ADDR a b c d) = d"
  by (rule bit_eqI; auto simp: INET_BYTE_def INET_ADDR_def bit_simps inet_low_byte dest: bit_imp_le_length)+

lemma parse_dotted:
  assumes "s = [] \<or> \<not> isdigit (hd s)"
  shows "parse_ip4_addrs (dotted a b c d @ s) port =
    Some (INET_ADDR a b c d, case (do { s \<leftarrow> literal CHR '':'' s; scan_uint s }) of Some (p, _) \<Rightarrow> ucast p | None \<Rightarrow> port)"
  using assms by (simp add: parse_ip4_addrs_def dotted_def scan_byte literal_def)

text \<open>Reading an address in dotted notation gives back its four numbers, and the port when it follows; names of this form are
  never looked up.\<close>

theorem parse_ip4_roundtrip:
  "parse_ip4_addrs (dotted a b c d) port = Some (INET_ADDR a b c d, port) \<and>
   parse_ip4_addrs (dotted a b c d @ '':'' @ decimal (unat p)) port = Some (INET_ADDR a b c d, p) \<and>
   INET_BYTE 3 (INET_ADDR a b c d) = a \<and> INET_BYTE 2 (INET_ADDR a b c d) = b \<and>
   INET_BYTE 1 (INET_ADDR a b c d) = c \<and> INET_BYTE 0 (INET_ADDR a b c d) = d \<and>
   co_resolve (dotted a b c d) timeout_sec now submit rounds =
     Returned (EOK, Some \<lparr>ai_family = AF_INET, ai_address = INET_ADDR a b c d, ai_port = 0\<rparr>, EOK)"
proof (intro conjI)
  show plain: "parse_ip4_addrs (dotted a b c d) port = Some (INET_ADDR a b c d, port)" for port
    using parse_dotted [of "[]" a b c d port] by (simp add: literal_def)
  have "scan_uint (decimal (unat p)) = Some (of_nat (unat p), [])"
    using scan_uint_decimal [of "unat p" "[]"] unsigned_less [of p, where 'a = nat] by simp
  then show "parse_ip4_addrs (dotted a b c d @ '':'' @ decimal (unat p)) port = Some (INET_ADDR a b c d, p)"
    using parse_dotted [of "'':'' @ decimal (unat p)" a b c d port] by (simp add: literal_def)
  show "INET_BYTE 3 (INET_ADDR a b c d) = a" "INET_BYTE 2 (INET_ADDR a b c d) = b"
    "INET_BYTE 1 (INET_ADDR a b c d) = c" "INET_BYTE 0 (INET_ADDR a b c d) = d"
    by (rule INET_BYTE_ADDR)+
  show "co_resolve (dotted a b c d) timeout_sec now submit rounds =
     Returned (EOK, Some \<lparr>ai_family = AF_INET, ai_address = INET_ADDR a b c d, ai_port = 0\<rparr>, EOK)"
    by (simp add: co_resolve_def plain)
qed

text \<open>What the parser takes for addresses, too: numbers out of range, and names that begin with four numbers.\<close>

lemma parse_ip4_accepts:
  "parse_ip4_addrs ''256.0.0.1'' 0 = Some (INET_ADDR 0 0 0 1, 0)"
  "parse_ip4_addrs ''10.0.0.1.example.com'' 0 = Some (INET_ADDR 10 0 0 1, 0)"
proof -
  have "INET_ADDR 256 0 0 1 = INET_ADDR 0 0 0 1" by (simp add: INET_ADDR_def)
  then show "parse_ip4_addrs ''256.0.0.1'' 0 = Some (INET_ADDR 0 0 0 1, 0)"
    "parse_ip4_addrs ''10.0.0.1.example.com'' 0 = Some (INET_ADDR 10 0 0 1, 0)"
    by (simp_all add: parse_ip4_addrs_def scan_uint_def literal_def isspace_def isdigit_def between_def digits_val_def digit_val_def)
qed

text \<open>A time limit below one second is none at all.\<close>

lemma co_server_resolve_unlimited:
  assumes "parse_ip4_addrs name 0 = None" "0 < tmo" "tmo < 1000"
    and "\<forall>r\<in>set rounds. rr_status r = EAGAIN \<and> rr_pollfd r \<noteq> -1"
  shows "co_server_resolve name port tmo now EOK rounds = Some Suspended"
proof -
  have "resolve_loop 0 rounds = Suspended" using assms(4) by (induction rounds) auto
  moreover have "tmo div 1000 = 0" using assms(2,3) by simp
  ultimately show ?thesis using assms(1,2) by (simp add: co_server_resolve_def co_resolve_def)
qed

text \<open>The first round that is not one more suspension decides.\<close>

definition waits_on :: "int \<Rightarrow> resolve_round \<Rightarrow> bool" where
  "waits_on until r \<longleftrightarrow> rr_status r = EAGAIN \<and> rr_now r \<le> until \<and> rr_pollfd r \<noteq> -1"

lemma resolve_loop_first:
  assumes "\<forall>q\<in>set before. waits_on until q" "\<not> waits_on until r" "0 < until"
  shows "resolve_loop until (before @ r # after) =
    Returned (rr_status r, if rr_status r = EOK then rr_ai r else None, if rr_status r = EAGAIN \<and> rr_now r > until then ETIME else EOK)"
  using assms by (induction before) (auto simp: waits_on_def)

text \<open>With a time limit of whole seconds the wait ends: the first answer decides, and without one it is over in the first round
  after the limit.\<close>

theorem co_resolve_ends:
  assumes "parse_ip4_addrs name 0 = None" "0 < timeout_sec" "0 \<le> now"
    and "\<exists>r\<in>set rounds. rr_status r \<noteq> EAGAIN \<or> rr_now r > now + timeout_sec"
  shows "\<exists>before r after. rounds = before @ r # after \<and>
    (\<forall>q\<in>set before. rr_status q = EAGAIN \<and> rr_now q \<le> now + timeout_sec \<and> rr_pollfd q \<noteq> -1) \<and>
    co_resolve name timeout_sec now EOK rounds = Returned (rr_status r, if rr_status r = EOK then rr_ai r else None,
      if rr_status r = EAGAIN \<and> rr_now r > now + timeout_sec then ETIME else EOK)"
proof -
  let ?until = "now + timeout_sec"
  have "\<exists>r\<in>set rounds. \<not> waits_on ?until r" using assms(4) unfolding waits_on_def by (metis linorder_not_le)
  then obtain before r after where r: "rounds = before @ r # after" "\<not> waits_on ?until r" "\<forall>q\<in>set before. \<not> \<not> waits_on ?until q"
    by (rule split_list_first_propE)
  have "resolve_loop ?until rounds = Returned (rr_status r, if rr_status r = EOK then rr_ai r else None,
      if rr_status r = EAGAIN \<and> rr_now r > ?until then ETIME else EOK)"
    using resolve_loop_first [of before ?until r after] r assms(2,3) by simp
  then show ?thesis using r assms(1,2)
    by (intro exI [of _ before] exI [of _ r] exI [of _ after]) (simp add: co_resolve_def waits_on_def)
qed

definition waiting_round :: "int \<Rightarrow> resolve_round" where
  "waiting_round now = \<lparr>rr_status = EAGAIN, rr_ai = None, rr_now = now, rr_pollfd = 7\<rparr>"

theorem co_resolve_ends_witness:
  "\<exists>status ai err. co_resolve ''a.b'' 5 100 EOK [waiting_round 101, waiting_round 106] = Returned (status, ai, err)"
proof -
  have "parse_ip4_addrs ''a.b'' 0 = None"
    by (simp add: parse_ip4_addrs_def scan_uint_def isspace_def isdigit_def between_def)
  then show ?thesis
    using co_resolve_ends [of "''a.b''" 5 100 "[waiting_round 101, waiting_round 106]"] by (auto simp: waiting_round_def)
qed

end
