(* ===== verification/Opts.thy ===== *)
theory Opts
  imports C_Text "HOL-Library.Monad_Syntax"
begin

text \<open>
  Options of the command line and of configuration files, src/opts.c: the \<open>sscanf\<close> format
  \<open>" %255[A-Za-z1-9_:-.] = %255[^#\n]"\<close>, the parser of one option, the loop over the lines of a file and the
  search for the file. The callback that takes an option is a parameter with a state of its own.
\<close>

section \<open>Keys and values\<close>

text \<open>
  The characters of a key: letters, the digits 1 to 9, and \<open>_\<close>, \<open>:\<close>, \<open>-\<close> and \<open>.\<close>. The C library takes the
  descending range \<open>:-.\<close> for its three characters.
\<close>

definition key_char :: "char \<Rightarrow> bool" where
  "key_char c \<longleftrightarrow> between CHR ''A'' CHR ''Z'' c \<or> between CHR ''a'' CHR ''z'' c \<or> between CHR ''1'' CHR ''9'' c \<or>
     c = CHR ''_'' \<or> c = CHR '':'' \<or> c = CHR ''-'' \<or> c = CHR ''.''"

definition value_char :: "char \<Rightarrow> bool" where
  "value_char c \<longleftrightarrow> c \<noteq> CHR ''#'' \<and> c \<noteq> newline"

text \<open>
  The result of the \<open>sscanf\<close> call: how many items it has assigned (-1 when the input ends first), the key and
  the value, which stay empty when not assigned. The key goes to a buffer of 128 characters although up to
  255 are allowed.
\<close>

definition scan_option :: "string \<Rightarrow> (int \<times> string \<times> string) ub" where
  "scan_option line =
     (let s = dropWhile isspace line in
      if s = [] then Some (-1, '''', '''')
      else (case scan_set 255 key_char s of
              None \<Rightarrow> Some (0, '''', '''')
            | Some (key, s) \<Rightarrow>
                if length key + 1 > 128 then None
                else (case dropWhile isspace s of
                        [] \<Rightarrow> Some (1, key, '''')
                      | c # s \<Rightarrow>
                          if c \<noteq> CHR ''='' then Some (1, key, '''')
                          else (case scan_set 255 value_char (dropWhile isspace s) of
                                  None \<Rightarrow> Some (1, key, '''')
                                | Some (val, _) \<Rightarrow> Some (2, key, val)))))"

section \<open>Operations\<close>

type_synonym 's parseopt = "string \<Rightarrow> string \<Rightarrow> 's \<Rightarrow> bool \<times> 's"

definition cf_parse_option :: "string \<Rightarrow> 's parseopt \<Rightarrow> 's \<Rightarrow> (bool \<times> errno \<times> 's) ub" where
  "cf_parse_option line parseopt st =
     do { (n, key, val) \<leftarrow> scan_option line;
          if n < 1 \<or> (key \<noteq> [] \<and> hd key = CHR ''#'') then Some (False, ENOMSG, st)
          else (let (ok, st) = parseopt key val st in Some (ok, EOK, st)) }"

text \<open>\<open>fgets\<close> with a buffer of \<open>n + 1\<close> characters, on the rest of the file.\<close>

definition fgets :: "nat \<Rightarrow> char list \<Rightarrow> char list \<times> char list" where
  "fgets n xs =
     (let l = length (takeWhile (\<lambda>c. c \<noteq> newline) xs); k = (if l < n then Suc l else n) in (take k xs, drop k xs))"

function read_lines :: "'s parseopt \<Rightarrow> char list \<Rightarrow> 's \<Rightarrow> (bool \<times> 's) ub" where
  "read_lines parseopt xs st =
     (if xs = [] then Some (True, st)
      else (let (line, rest) = fgets 1023 xs in
            case scan_option (c_string line) of
              None \<Rightarrow> None
            | Some (n, key, val) \<Rightarrow>
                if n \<ge> 1 \<and> \<not> (key \<noteq> [] \<and> hd key = CHR ''#'')
                then (case parseopt key val st of
                        (True, st) \<Rightarrow> read_lines parseopt rest st
                      | (False, st) \<Rightarrow> Some (False, st))
                else read_lines parseopt rest st))"
  by pat_completeness auto
termination
  by (relation "measure (\<lambda>(_, xs, _). length xs)") (auto simp: fgets_def Let_def split: if_splits)

declare read_lines.simps [simp del]

text \<open>The content of the file is \<open>None\<close> when it cannot be opened.\<close>

definition cf_read_config_file :: "char list option \<Rightarrow> 's parseopt \<Rightarrow> 's \<Rightarrow> (bool \<times> 's) ub" where
  "cf_read_config_file file parseopt st =
     (case file of None \<Rightarrow> Some (False, st) | Some xs \<Rightarrow> read_lines parseopt xs st)"

abbreviation PATH_MAX :: nat where "PATH_MAX \<equiv> 4096"

text \<open>\<open>snprintf\<close> with the size \<open>PATH_MAX - 1\<close> keeps two characters less than \<open>PATH_MAX\<close>.\<close>

definition snprintf_path :: "string \<Rightarrow> string" where
  "snprintf_path s = take (PATH_MAX - 2) s"

text \<open>The places of the file, in the order they are tried, and the content of the name buffer after the search.\<close>

definition config_places :: "nat \<Rightarrow> string option \<Rightarrow> string \<Rightarrow> string list" where
  "config_places euid pw_dir service =
     map snprintf_path
       ([''./'' @ service] @
        (if euid \<noteq> 0 then (case pw_dir of Some dir \<Rightarrow> [dir @ ''/.config/'' @ service @ ''/'' @ service] | None \<Rightarrow> []) else []) @
        [''/var/lib/'' @ service @ ''/'' @ service,
         ''/usr/local/etc/'' @ service @ ''/'' @ service,
         ''/etc/'' @ service @ ''/'' @ service])"

fun try_places :: "(string \<Rightarrow> bool) \<Rightarrow> string list \<Rightarrow> string" where
  "try_places access [] = ''''"
| "try_places access (p # ps) = (if access p then p else try_places access ps)"

definition cf_find_config_file :: "(string \<Rightarrow> bool) \<Rightarrow> nat \<Rightarrow> string option \<Rightarrow> string \<Rightarrow> string option" where
  "cf_find_config_file access euid pw_dir service =
     (let name = try_places access (config_places euid pw_dir service) in if name \<noteq> [] then Some name else None)"

section \<open>Scanning an option\<close>

lemma key_char_not_space: "key_char c \<Longrightarrow> \<not> isspace c"
  by (auto simp: key_char_def isspace_def between_def)

lemma key_char_examples [simp]:
  "\<not> key_char CHR ''=''" "\<not> key_char CHR '' ''" "\<not> key_char CHR ''0''" "\<not> key_char CHR ''#''" "\<not> isspace CHR ''=''"
  "isspace CHR '' ''" "isspace newline" "\<not> value_char newline" "\<not> value_char CHR ''#''" "\<not> isspace CHR ''#''"
  by (auto simp: key_char_def between_def isspace_def value_char_def)

text \<open>A key, with white space around it, and what the scanner makes of the rest of the line.\<close>

lemma scan_option_key:
  assumes ws: "\<forall>c\<in>set ws. isspace c" and key: "key \<noteq> []" "\<forall>c\<in>set key. key_char c" "length key \<le> 127"
    and s: "s = [] \<or> \<not> key_char (hd s)"
  shows "scan_option (ws @ key @ s) =
    (case dropWhile isspace s of
       [] \<Rightarrow> Some (1, key, '''')
     | c # s \<Rightarrow> if c \<noteq> CHR ''='' then Some (1, key, '''')
               else (case scan_set 255 value_char (dropWhile isspace s) of
                       None \<Rightarrow> Some (1, key, '''') | Some (val, _) \<Rightarrow> Some (2, key, val)))"
proof -
  have "dropWhile isspace (ws @ key @ s) = key @ s"
    using ws key key_char_not_space by (intro dropWhile_all) auto
  moreover have "scan_set 255 key_char (key @ s) = Some (key, s)"
    using key s by (intro scan_set_run) auto
  ultimately show ?thesis
    using key by (simp add: scan_option_def)
qed

lemma scan_option_full:
  assumes ws: "\<forall>c\<in>set (ws0 @ ws1 @ ws2). isspace c" and key: "key \<noteq> []" "\<forall>c\<in>set key. key_char c" "length key \<le> 127"
    and val: "val \<noteq> []" "\<forall>c\<in>set val. value_char c" "length val \<le> 255" "\<not> isspace (hd val)"
    and rest: "rest = [] \<or> \<not> value_char (hd rest)"
  shows "scan_option (ws0 @ key @ ws1 @ CHR ''='' # ws2 @ val @ rest) = Some (2, key, val)"
proof -
  have "hd (ws1 @ CHR ''='' # ws2 @ val @ rest) = CHR ''='' \<or> isspace (hd (ws1 @ CHR ''='' # ws2 @ val @ rest))"
    using ws by (cases ws1) auto
  then have "\<not> key_char (hd (ws1 @ CHR ''='' # ws2 @ val @ rest))"
    using key_char_not_space key_char_examples(1) by metis
  moreover have "dropWhile isspace (ws1 @ CHR ''='' # ws2 @ val @ rest) = CHR ''='' # ws2 @ val @ rest"
    using ws by (intro dropWhile_all) auto
  moreover have "dropWhile isspace (ws2 @ val @ rest) = val @ rest"
    using ws val by (intro dropWhile_all) auto
  moreover have "scan_set 255 value_char (val @ rest) = Some (val, rest)"
    using val rest by (intro scan_set_run) auto
  ultimately show ?thesis
    using scan_option_key [OF _ key, of ws0 "ws1 @ CHR ''='' # ws2 @ val @ rest"] ws by simp
qed

lemma scan_option_remark:
  "dropWhile isspace line = [] \<or> hd (dropWhile isspace line) = CHR ''#'' \<Longrightarrow> \<exists>n. n < 1 \<and> scan_option line = Some (n, '''', '''')"
  by (cases "dropWhile isspace line") (auto simp: scan_option_def scan_set_def)

text \<open>The only way to undefined behaviour is a key of more than 127 characters.\<close>

lemma scan_option_defined:
  "scan_option line \<noteq> None \<longleftrightarrow> length (takeWhile key_char (dropWhile isspace line)) \<le> 127"
proof (cases "scan_set 255 key_char (dropWhile isspace line)")
  case None
  then show ?thesis using scan_set_None [OF None] by (simp add: scan_option_def)
next
  case (Some x)
  obtain key s where x: "x = (key, s)" by (cases x)
  have key: "key = take 255 (takeWhile key_char (dropWhile isspace line))"
    using Some x by (simp add: scan_set_Some)
  have "dropWhile isspace line \<noteq> []"
  proof
    assume "dropWhile isspace line = []"
    then show False using Some by (simp only: scan_set_def) simp
  qed
  then have "scan_option line \<noteq> None \<longleftrightarrow> length key \<le> 127"
    using Some x by (auto simp: scan_option_def split: list.splits option.splits)
  then show ?thesis unfolding key by (auto simp: min_def split: if_splits)
qed

lemma scan_option_bounds:
  assumes "scan_option line = Some (n, key, val)"
  shows "length key \<le> 127 \<and> length val \<le> 255 \<and> (\<forall>c\<in>set key. key_char c)"
  using assms
  by (auto simp: scan_option_def dest!: scan_set_Some in_set_takeD set_takeWhileD
      split: if_splits list.splits option.splits)

section \<open>Files\<close>

text \<open>
  A configuration file as a text: lines with an option, and remarks, which are empty or start with \<open>#\<close>. The
  reference reader hands the options to the callback in order until it refuses one.
\<close>

datatype config_line = Option string string | Remark string

fun print_line :: "config_line \<Rightarrow> string" where
  "print_line (Option key val) = key @ '' = '' @ val @ [newline]"
| "print_line (Remark rem) = rem @ [newline]"

fun line_ok :: "config_line \<Rightarrow> bool" where
  "line_ok (Option key val) \<longleftrightarrow> key \<noteq> [] \<and> list_all key_char key \<and> length key \<le> 127 \<and>
     val \<noteq> [] \<and> list_all (\<lambda>c. value_char c \<and> c \<noteq> CHR 0x00) val \<and> length val \<le> 255 \<and> \<not> isspace (hd val)"
| "line_ok (Remark rem) \<longleftrightarrow> list_all (\<lambda>c. c \<noteq> newline \<and> c \<noteq> CHR 0x00) rem \<and> length rem < 1023 \<and>
     (dropWhile isspace rem = [] \<or> hd (dropWhile isspace rem) = CHR ''#'')"

fun apply_options :: "'s parseopt \<Rightarrow> config_line list \<Rightarrow> 's \<Rightarrow> bool \<times> 's" where
  "apply_options parseopt [] st = (True, st)"
| "apply_options parseopt (Remark _ # ls) st = apply_options parseopt ls st"
| "apply_options parseopt (Option key val # ls) st =
     (case parseopt key val st of (True, st) \<Rightarrow> apply_options parseopt ls st | (False, st) \<Rightarrow> (False, st))"

lemma key_char_plain: "key_char c \<Longrightarrow> c \<noteq> newline \<and> c \<noteq> CHR 0x00"
  by (auto simp: key_char_def between_def)

lemma print_line_shape:
  assumes "line_ok l"
  obtains body where "print_line l = body @ [newline]" "list_all (\<lambda>c. c \<noteq> newline \<and> c \<noteq> CHR 0x00) body" "length body < 1023"
proof (cases l)
  case (Option key val)
  with assms show ?thesis
    by (intro that [of "key @ '' = '' @ val"]) (auto simp: list_all_iff value_char_def dest: key_char_plain)
next
  case (Remark rem)
  with assms show ?thesis by (intro that [of rem]) auto
qed

lemma fgets_line:
  assumes "list_all (\<lambda>c. c \<noteq> newline \<and> c \<noteq> CHR 0x00) body" "length body < 1023"
  shows "fgets 1023 ((body @ [newline]) @ rest) = (body @ [newline], rest)"
proof -
  have "takeWhile (\<lambda>c. c \<noteq> newline) (body @ newline # rest) = body"
    using assms(1) by (intro takeWhile_all) (auto simp: list_all_iff)
  then show ?thesis using assms(2) by (simp add: fgets_def)
qed

lemma c_string_line: "list_all (\<lambda>c. c \<noteq> newline \<and> c \<noteq> CHR 0x00) body \<Longrightarrow> c_string (body @ [newline]) = body @ [newline]"
  by (auto simp: c_string_def list_all_iff takeWhile_eq_all_conv)

lemma scan_print_option:
  assumes "line_ok (Option key val)"
  shows "scan_option (print_line (Option key val)) = Some (2, key, val)"
  using assms scan_option_full [of "[]" "'' ''" "'' ''" key val "[newline]"] by (auto simp: list_all_iff)

lemma scan_print_remark:
  assumes "line_ok (Remark rem)"
  shows "\<exists>n. n < 1 \<and> scan_option (print_line (Remark rem)) = Some (n, '''', '''')"
proof (rule scan_option_remark)
  show "dropWhile isspace (print_line (Remark rem)) = [] \<or> hd (dropWhile isspace (print_line (Remark rem))) = CHR ''#''"
    using assms by (cases "dropWhile isspace rem") (auto simp: dropWhile_append)
qed

lemma read_lines_print:
  assumes "list_all line_ok ls"
  shows "read_lines parseopt (concat (map print_line ls)) st = Some (apply_options parseopt ls st)"
  using assms
proof (induction ls arbitrary: st)
  case Nil
  then show ?case by (simp add: read_lines.simps)
next
  case (Cons l ls)
  let ?rest = "concat (map print_line ls)"
  obtain body where body: "print_line l = body @ [newline]" "list_all (\<lambda>c. c \<noteq> newline \<and> c \<noteq> CHR 0x00) body" "length body < 1023"
    using Cons.prems print_line_shape [of l] by auto
  have line: "fgets 1023 (print_line l @ ?rest) = (print_line l, ?rest)" "c_string (print_line l) = print_line l"
    using fgets_line [OF body(2,3)] c_string_line [OF body(2)] by (simp_all only: body(1))
  have ne: "print_line l @ ?rest \<noteq> []" using body(1) by simp
  have IH: "read_lines parseopt ?rest st' = Some (apply_options parseopt ls st')" for st'
    using Cons by simp
  show ?case
  proof (cases l)
    case (Option key val)
    have "scan_option (print_line l) = Some (2, key, val)"
      using Cons.prems scan_print_option [of key val] Option by simp
    moreover have "key_char (hd key)"
      using Cons.prems Option by (simp add: list_all_iff)
    then have "hd key \<noteq> CHR ''#''" by (metis key_char_examples(4))
    ultimately show ?thesis
      using ne line IH Option by (subst read_lines.simps) (auto split: prod.splits bool.splits simp del: print_line.simps)
  next
    case (Remark rem)
    obtain n where "n < 1" "scan_option (print_line l) = Some (n, '''', '''')"
      using Cons.prems scan_print_remark [of rem] Remark by auto
    then show ?thesis
      using ne line IH Remark by (subst read_lines.simps) (auto simp del: print_line.simps)
  qed
qed

section \<open>Properties\<close>

lemma snprintf_path_bounds [simp]: "[] = snprintf_path s \<longleftrightarrow> s = []" "length (snprintf_path s) + 1 < PATH_MAX"
  by (auto simp: snprintf_path_def)

lemma try_places_first:
  assumes "[] \<notin> set ps"
  shows "(try_places access ps = [] \<longleftrightarrow> (\<forall>p\<in>set ps. \<not> access p)) \<and>
    (try_places access ps \<noteq> [] \<longrightarrow> access (try_places access ps) \<and>
      (\<exists>before after. ps = before @ try_places access ps # after \<and> (\<forall>p\<in>set before. \<not> access p)))"
  using assms
proof (induction ps)
  case (Cons p ps)
  show ?case
  proof (cases "access p")
    case True
    then show ?thesis using Cons.prems by fastforce
  next
    case False
    have "\<exists>before' after'. p # before @ q # after = before' @ q # after' \<and> (\<forall>p\<in>set before'. \<not> access p)"
      if "\<forall>p\<in>set before. \<not> access p" for before after q
      using that False by (intro exI [of _ "p # before"] exI [of _ after]) simp
    then show ?thesis using Cons False by (metis list.set_intros(2) set_ConsD try_places.simps(2))
  qed
qed simp

text \<open>C32. Reading a configuration file hands exactly its options to the callback, in order and up to the first
  one that is refused, and fails exactly then; blank lines and lines that start with a hash sign are
  skipped. Keys have up to 127 characters of the allowed set and values up to 255.\<close>

theorem config_file_roundtrip:
  assumes "list_all line_ok ls"
  shows "cf_read_config_file (Some (concat (map print_line ls))) parseopt st = Some (apply_options parseopt ls st)"
  using read_lines_print [OF assms] by (simp add: cf_read_config_file_def)

text \<open>An option is undefined behaviour exactly when its key has more than 127 characters (the buffer has 128);
  otherwise a line without a key fails with \<open>ENOMSG\<close> and the callback is not called, and a line with white space
  around its parts calls it with the key and the value.\<close>

theorem cf_parse_option_outcome:
  "(cf_parse_option line parseopt st = None \<longleftrightarrow> 127 < length (takeWhile key_char (dropWhile isspace line))) \<and>
   (takeWhile key_char (dropWhile isspace line) = [] \<longrightarrow> cf_parse_option line parseopt st = Some (False, ENOMSG, st)) \<and>
   (list_all isspace (ws0 @ ws1 @ ws2) \<and> line_ok (Option key val) \<longrightarrow>
      cf_parse_option (ws0 @ key @ ws1 @ ''='' @ ws2 @ val) parseopt st =
        (let (ok, st') = parseopt key val st in Some (ok, EOK, st')))"
proof (intro conjI impI)
  have "cf_parse_option line parseopt st = None \<longleftrightarrow> scan_option line = None"
    by (cases "scan_option line") (auto simp: cf_parse_option_def split: prod.splits)
  then show "cf_parse_option line parseopt st = None \<longleftrightarrow> 127 < length (takeWhile key_char (dropWhile isspace line))"
    using scan_option_defined [of line] by auto
next
  assume "takeWhile key_char (dropWhile isspace line) = []"
  then have "scan_option line = Some (-1, '''', '''') \<or> scan_option line = Some (0, '''', '''')"
    by (simp add: scan_option_def scan_set_def)
  then show "cf_parse_option line parseopt st = Some (False, ENOMSG, st)"
    by (auto simp: cf_parse_option_def)
next
  assume *: "list_all isspace (ws0 @ ws1 @ ws2) \<and> line_ok (Option key val)"
  have "scan_option (ws0 @ key @ ws1 @ ''='' @ ws2 @ val) = Some (2, key, val)"
    using * scan_option_full [of ws0 ws1 ws2 key val "[]"] by (auto simp: list_all_iff)
  moreover have "key_char (hd key)" using * by (simp add: list_all_iff)
  then have "hd key \<noteq> CHR ''#''" by (metis key_char_examples(4))
  ultimately show "cf_parse_option (ws0 @ key @ ws1 @ ''='' @ ws2 @ val) parseopt st =
        (let (ok, st') = parseopt key val st in Some (ok, EOK, st'))"
    by (simp add: cf_parse_option_def)
qed

text \<open>The search returns the first place where the file exists, with a name that fits its buffer, and none when
  there is no such place.\<close>

theorem cf_find_config_file_first:
  "(cf_find_config_file access euid pw_dir service = None \<longleftrightarrow> (\<forall>p\<in>set (config_places euid pw_dir service). \<not> access p)) \<and>
   (cf_find_config_file access euid pw_dir service = Some name \<longrightarrow>
      access name \<and> length name + 1 < PATH_MAX \<and>
      (\<exists>before after. config_places euid pw_dir service = before @ name # after \<and> (\<forall>p\<in>set before. \<not> access p)))"
proof -
  obtain qs where qs: "config_places euid pw_dir service = map snprintf_path qs" "[] \<notin> set qs"
    by (rule that [OF config_places_def])
      (cases pw_dir; cases "euid = 0"; simp only: set_append list.set option.case if_True if_False Un_iff insert_iff
        empty_iff not_False_eq_True; intro notI; elim disjE; simp)
  have ne: "[] \<notin> set (config_places euid pw_dir service)"
    using qs by auto
  have len: "length p + 1 < PATH_MAX" if "p \<in> set (config_places euid pw_dir service)" for p
    using that snprintf_path_bounds(2) unfolding qs(1) set_map by blast
  let ?ps = "config_places euid pw_dir service"
  show ?thesis
  proof (cases "try_places access ?ps = []")
    case True
    then show ?thesis using try_places_first [OF ne, of access] by (simp add: cf_find_config_file_def)
  next
    case False
    then have some: "cf_find_config_file access euid pw_dir service = Some (try_places access ?ps)"
      by (simp add: cf_find_config_file_def)
    obtain before after where split: "?ps = before @ try_places access ?ps # after" "\<forall>p\<in>set before. \<not> access p"
      and acc: "access (try_places access ?ps)"
      using False try_places_first [OF ne, of access] by blast
    have mem: "try_places access ?ps \<in> set ?ps"
      by (subst split(1)) simp
    show ?thesis using some split acc mem len by (metis option.inject option.simps(3))
  qed
qed

text \<open>A key with the digit 0 is cut there, and its value is lost.\<close>

lemma cf_parse_option_zero:
  assumes "key \<noteq> []" "list_all key_char key" "length key \<le> 127"
  shows "cf_parse_option (key @ ''0'' @ rest) parseopt st = (let (ok, st') = parseopt key '''' st in Some (ok, EOK, st'))"
proof -
  have "dropWhile isspace (''0'' @ rest) = ''0'' @ rest" by (simp add: isspace_def)
  then have "scan_option (key @ ''0'' @ rest) = Some (1, key, '''')"
    using assms scan_option_key [of "[]" key "''0'' @ rest"] by (simp add: list_all_iff)
  moreover have "key_char (hd key)" using assms by (simp add: list_all_iff)
  then have "hd key \<noteq> CHR ''#''" by (metis key_char_examples(4))
  ultimately show ?thesis by (simp add: cf_parse_option_def)
qed

definition collect :: "(string \<times> string) list parseopt" where
  "collect key val st = (True, st @ [(key, val)])"

definition example_lines :: "config_line list" where
  "example_lines = [Remark ''# cuttle'', Option ''port'' ''6001'', Remark '''', Option ''log.file'' ''/var/log/a b'']"

theorem config_file_roundtrip_witness:
  "cf_read_config_file (Some (concat (map print_line example_lines))) collect []
     = Some (True, [(''port'', ''6001''), (''log.file'', ''/var/log/a b'')])"
proof -
  have "list_all line_ok example_lines"
    by (simp add: example_lines_def key_char_def between_def value_char_def isspace_def)
  from config_file_roundtrip [OF this, of collect "[]"] show ?thesis
    by (simp add: example_lines_def collect_def)
qed

theorem cf_parse_option_outcome_witness:
  "cf_parse_option '' port=6001'' collect [] = Some (True, EOK, [(''port'', ''6001'')])"
proof -
  have "line_ok (Option ''port'' ''6001'')"
    by (simp add: key_char_def between_def value_char_def isspace_def)
  then show ?thesis
    using cf_parse_option_outcome [of "''''" collect "[]" "'' ''" "''''" "''''" "''port''" "''6001''"]
    by (simp add: collect_def)
qed

theorem cf_find_config_file_first_witness:
  "cf_find_config_file (\<lambda>p. p = ''/etc/a/a'') 0 None ''a'' = Some ''/etc/a/a'' \<and>
   (\<exists>before after. config_places 0 None ''a'' = before @ ''/etc/a/a'' # after)"
proof -
  have "cf_find_config_file (\<lambda>p. p = ''/etc/a/a'') 0 None ''a'' = Some ''/etc/a/a''"
    by (simp add: cf_find_config_file_def config_places_def snprintf_path_def)
  then show ?thesis
    using cf_find_config_file_first [of "\<lambda>p. p = ''/etc/a/a''" 0 None "''a''" "''/etc/a/a''"] by blast
qed

end
