(* ===== verification/Sockopt.thy ===== *)
theory Sockopt
  imports C_Text "HOL-Library.Monad_Syntax"
begin

text \<open>
  Socket options and plain TCP sockets, src/sockopt.c. A socket of the kernel has an integer for each option; \<open>ks_set\<close> says
  what it stores when an option is set, or that it refuses, and \<open>ks_get\<close> which options can be read. Creating sockets
  has outcomes as parameters and lists the descriptors that were closed again.
\<close>

section \<open>Options\<close>

datatype sockopt =
    SO_ERROR | SO_SNDBUF | SO_RCVBUF | SO_SNDTIMEO | SO_RCVTIMEO | TCP_NODELAY | SO_REUSEADDR | SO_ACCEPTCONN
  | SO_KEEPALIVE | TCP_KEEPIDLE | TCP_KEEPINTVL | TCP_KEEPCNT | SO_LINGER

record ksock =
  ks_opt :: "sockopt \<Rightarrow> int"
  ks_set :: "sockopt \<Rightarrow> int \<Rightarrow> int option"
  ks_get :: "sockopt \<Rightarrow> bool"

definition setsockopt :: "sockopt \<Rightarrow> int \<Rightarrow> ksock \<Rightarrow> bool \<times> ksock" where
  "setsockopt opt v s =
     (case ks_set s opt v of None \<Rightarrow> (False, s) | Some v \<Rightarrow> (True, s\<lparr>ks_opt := (ks_opt s)(opt := v)\<rparr>))"

definition getsockopt :: "sockopt \<Rightarrow> ksock \<Rightarrow> int option" where
  "getsockopt opt s = (if ks_get s opt then Some (ks_opt s opt) else None)"

text \<open>The pending error of the socket, or errno when it cannot be read; numbers stand for errors here.\<close>

definition so_get_error :: "int \<Rightarrow> ksock \<Rightarrow> int \<times> ksock" where
  "so_get_error err s =
     (case getsockopt SO_ERROR s of
        None \<Rightarrow> (err, s)
      | Some v \<Rightarrow> (v, snd (setsockopt SO_ERROR v s)))"

datatype sock_addr = Inet u32 u16 | Inet6 | Unix string | Other_family

definition so_get_addrlen :: "sock_addr \<Rightarrow> nat" where
  "so_get_addrlen addr = (case addr of Inet _ _ \<Rightarrow> 16 | Inet6 \<Rightarrow> 28 | Unix path \<Rightarrow> 2 + length path | Other_family \<Rightarrow> 0)"

definition so_set_send_bufsize :: "int \<Rightarrow> ksock \<Rightarrow> bool \<times> ksock" where "so_set_send_bufsize = setsockopt SO_SNDBUF"
definition so_set_recv_bufsize :: "int \<Rightarrow> ksock \<Rightarrow> bool \<times> ksock" where "so_set_recv_bufsize = setsockopt SO_RCVBUF"
definition so_get_send_bufsize :: "ksock \<Rightarrow> int option" where "so_get_send_bufsize = getsockopt SO_SNDBUF"
definition so_get_recv_bufsize :: "ksock \<Rightarrow> int option" where "so_get_recv_bufsize = getsockopt SO_RCVBUF"
definition so_set_send_timeout :: "int \<Rightarrow> ksock \<Rightarrow> bool \<times> ksock" where "so_set_send_timeout = setsockopt SO_SNDTIMEO"
definition so_set_recv_timeout :: "int \<Rightarrow> ksock \<Rightarrow> bool \<times> ksock" where "so_set_recv_timeout = setsockopt SO_RCVTIMEO"
definition so_get_send_timeout :: "ksock \<Rightarrow> int option" where "so_get_send_timeout = getsockopt SO_SNDTIMEO"
definition so_get_recv_timeout :: "ksock \<Rightarrow> int option" where "so_get_recv_timeout = getsockopt SO_RCVTIMEO"
definition so_set_nodelay :: "int \<Rightarrow> ksock \<Rightarrow> bool \<times> ksock" where "so_set_nodelay = setsockopt TCP_NODELAY"
definition so_get_nodelay :: "ksock \<Rightarrow> int option" where "so_get_nodelay = getsockopt TCP_NODELAY"
definition so_set_reuse_addrs :: "int \<Rightarrow> ksock \<Rightarrow> bool \<times> ksock" where "so_set_reuse_addrs = setsockopt SO_REUSEADDR"
definition so_get_reuse_addrs :: "ksock \<Rightarrow> int option" where "so_get_reuse_addrs = getsockopt SO_REUSEADDR"

definition so_is_listening :: "ksock \<Rightarrow> bool" where
  "so_is_listening s = (case getsockopt SO_ACCEPTCONN s of None \<Rightarrow> False | Some v \<Rightarrow> v \<noteq> 0)"

text \<open>\<open>O_NONBLOCK\<close> is 0x800; the flags are \<open>None\<close> when \<open>F_GETFL\<close> fails, \<open>ok\<close> is the outcome of \<open>F_SETFL\<close>.\<close>

definition so_set_non_blocking :: "u32 option \<Rightarrow> bool \<Rightarrow> bool \<Rightarrow> bool \<times> u32 option" where
  "so_set_non_blocking flags ok optval =
     (case flags of
        None \<Rightarrow> (False, None)
      | Some f \<Rightarrow> (ok, Some (if ok then (if optval then f OR 0x800 else f AND NOT 0x800) else f)))"

text \<open>A value of -1 leaves the option alone.\<close>

definition set_unless :: "sockopt \<Rightarrow> int \<Rightarrow> ksock \<Rightarrow> bool \<times> ksock" where
  "set_unless opt v s = (if v = -1 then (True, s) else setsockopt opt v s)"

text \<open>The options one after the other, until one is refused.\<close>

fun set_all :: "(sockopt \<times> int) list \<Rightarrow> ksock \<Rightarrow> bool \<times> ksock" where
  "set_all [] s = (True, s)"
| "set_all ((opt, v) # opts) s = (case set_unless opt v s of (True, s) \<Rightarrow> set_all opts s | (False, s) \<Rightarrow> (False, s))"

definition so_set_keepalive :: "int \<Rightarrow> int \<Rightarrow> int \<Rightarrow> int \<Rightarrow> ksock \<Rightarrow> bool \<times> ksock" where
  "so_set_keepalive keepalive keepidle keepintvl keepcnt s =
     set_all ((SO_KEEPALIVE, keepalive) #
              (if keepalive \<noteq> 0 then [(TCP_KEEPIDLE, keepidle), (TCP_KEEPINTVL, keepintvl), (TCP_KEEPCNT, keepcnt)] else [])) s"

text \<open>
  \<open>so_get_keepalive\<close>: the arguments are the variables behind the pointers, \<open>None\<close> for a null pointer. Only the first option
  is read; for the others the function calls \<open>setsockopt\<close>.
\<close>

definition set_from :: "sockopt \<Rightarrow> int option \<Rightarrow> ksock \<Rightarrow> bool \<times> ksock" where
  "set_from opt v s = (case v of None \<Rightarrow> (True, s) | Some v \<Rightarrow> setsockopt opt v s)"

definition so_get_keepalive ::
  "int option \<Rightarrow> int option \<Rightarrow> int option \<Rightarrow> int option \<Rightarrow> ksock \<Rightarrow> bool \<times> (int option \<times> int option \<times> int option \<times> int option) \<times> ksock" where
  "so_get_keepalive keepalive keepidle keepintvl keepcnt s =
     (let got = (case keepalive of None \<Rightarrow> Some None | Some _ \<Rightarrow> map_option Some (getsockopt SO_KEEPALIVE s)) in
      case got of
        None \<Rightarrow> (False, (keepalive, keepidle, keepintvl, keepcnt), s)
      | Some ka \<Rightarrow>
          (case set_from TCP_KEEPIDLE keepidle s of
             (False, s) \<Rightarrow> (False, (ka, keepidle, keepintvl, keepcnt), s)
           | (True, s) \<Rightarrow>
               (case set_from TCP_KEEPINTVL keepintvl s of
                  (False, s) \<Rightarrow> (False, (ka, keepidle, keepintvl, keepcnt), s)
                | (True, s) \<Rightarrow>
                    (case set_from TCP_KEEPCNT keepcnt s of
                       (ok, s) \<Rightarrow> (ok, (ka, keepidle, keepintvl, keepcnt), s)))))"

definition so_get_outq_size :: "int option \<Rightarrow> int" where
  "so_get_outq_size q = (case q of None \<Rightarrow> -1 | Some n \<Rightarrow> n)"

section \<open>Descriptors\<close>

text \<open>The result, whether the connection is aborted, and the descriptors closed; \<open>ok\<close> is what \<open>close\<close> returns.\<close>

definition so_close :: "int \<Rightarrow> bool \<Rightarrow> bool \<Rightarrow> (errno + bool) \<times> bool \<times> int list" where
  "so_close so abort_conn ok = (if so = -1 then (Inl EINVAL, False, []) else (Inr ok, abort_conn, [so]))"

record tcp_outcome =
  tk_socket :: int
  tk_bind :: bool
  tk_listen :: bool
  tk_connect :: bool

text \<open>\<open>inet_pton\<close> is a parameter; when it fails, the address stays zero.\<close>

definition so_sockaddr_in :: "(string \<Rightarrow> u32 option) \<Rightarrow> string \<Rightarrow> u16 \<Rightarrow> sock_addr" where
  "so_sockaddr_in pton addrs port = Inet (case pton addrs of Some a \<Rightarrow> a | None \<Rightarrow> 0) port"

definition listen_on :: "tcp_outcome \<Rightarrow> sock_addr \<Rightarrow> int \<times> sock_addr option \<times> int list" where
  "listen_on k sin =
     (if tk_socket k = -1 then (-1, None, [])
      else if \<not> tk_bind k then (-1, None, [tk_socket k])
      else if \<not> tk_listen k then (-1, None, [tk_socket k])
      else (tk_socket k, Some sin, []))"

definition so_tcp_listen :: "(string \<Rightarrow> u32 option) \<Rightarrow> tcp_outcome \<Rightarrow> string \<Rightarrow> u16 \<Rightarrow> int \<times> sock_addr option \<times> int list" where
  "so_tcp_listen pton k addrs port = listen_on k (so_sockaddr_in pton addrs port)"

definition so_tcp_listen2 :: "tcp_outcome \<Rightarrow> u32 \<Rightarrow> u16 \<Rightarrow> int \<times> sock_addr option \<times> int list" where
  "so_tcp_listen2 k addrs port = listen_on k (Inet addrs port)"

definition so_tcp_connect :: "tcp_outcome \<Rightarrow> sock_addr \<Rightarrow> int \<times> sock_addr option \<times> int list" where
  "so_tcp_connect k addrs =
     (if tk_socket k = -1 then (-1, None, [])
      else if \<not> tk_connect k then (-1, None, [tk_socket k])
      else (tk_socket k, Some addrs, []))"

definition so_tcp_connect2 :: "(string \<Rightarrow> u32 option) \<Rightarrow> tcp_outcome \<Rightarrow> string \<Rightarrow> u16 \<Rightarrow> int \<times> sock_addr option \<times> int list" where
  "so_tcp_connect2 pton k addrs port = so_tcp_connect k (so_sockaddr_in pton addrs port)"

text \<open>The format is \<open>"%255[^:]:%hu"\<close>, the buffer has 256 characters. \<open>Inl\<close> is the value -1 with this errno.\<close>

definition scan_addrport :: "string \<Rightarrow> (string \<times> u16) option" where
  "scan_addrport s =
     do { (addrs, s) \<leftarrow> scan_set 255 (\<lambda>c. c \<noteq> CHR '':'') s;
          s \<leftarrow> (case s of c # s \<Rightarrow> if c = CHR '':'' then Some s else None | [] \<Rightarrow> None);
          (port, _) \<leftarrow> scan_uint s;
          Some (addrs, ucast port) }"

definition so_tcp_connect3 :: "(string \<Rightarrow> u32 option) \<Rightarrow> tcp_outcome \<Rightarrow> string \<Rightarrow> errno + (int \<times> sock_addr option \<times> int list)" where
  "so_tcp_connect3 pton k addrport =
     (case scan_addrport addrport of
        None \<Rightarrow> Inl EINVAL
      | Some (addrs, port) \<Rightarrow> if port = 0 then Inl EINVAL else Inr (so_tcp_connect2 pton k addrs port))"

section \<open>Properties\<close>

lemma set_unless_ok:
  "set_unless opt v s = (ok, s') \<Longrightarrow> ks_set s' = ks_set s \<and> (\<forall>o'. o' \<noteq> opt \<longrightarrow> ks_opt s' o' = ks_opt s o') \<and>
     (ok \<longrightarrow> (if v = -1 then ks_opt s' opt = ks_opt s opt else ks_set s opt v = Some (ks_opt s' opt)))"
  by (auto simp: set_unless_def setsockopt_def split: if_splits option.splits)

lemma set_all_ok:
  assumes "set_all opts s = (ok, s')" "distinct (map fst opts)"
  shows "ks_set s' = ks_set s" "\<And>opt. opt \<notin> fst ` set opts \<Longrightarrow> ks_opt s' opt = ks_opt s opt"
    and "\<And>opt v. ok \<Longrightarrow> (opt, v) \<in> set opts \<Longrightarrow> if v = -1 then ks_opt s' opt = ks_opt s opt else ks_set s opt v = Some (ks_opt s' opt)"
proof -
  have "ks_set s' = ks_set s \<and> (\<forall>opt. opt \<notin> fst ` set opts \<longrightarrow> ks_opt s' opt = ks_opt s opt) \<and>
    (ok \<longrightarrow> (\<forall>(opt, v) \<in> set opts. if v = -1 then ks_opt s' opt = ks_opt s opt else ks_set s opt v = Some (ks_opt s' opt)))"
    using assms
  proof (induction opts arbitrary: s)
    case (Cons p opts)
    obtain opt v where p: "p = (opt, v)" by (cases p)
    obtain ok1 s1 where s1: "set_unless opt v s = (ok1, s1)" by (rule prod.exhaust)
    note f = set_unless_ok [OF s1]
    show ?case
    proof (cases ok1)
      case True
      then have "set_all opts s1 = (ok, s')" using Cons.prems(1) p s1 by simp
      note IH = Cons.IH [OF this]
      have nin: "opt \<notin> fst ` set opts" using Cons.prems(2) p by simp
      show ?thesis
      proof (intro conjI allI impI)
        show "ks_set s' = ks_set s" using IH f Cons.prems(2) by simp
        show "ks_opt s' o' = ks_opt s o'" if "o' \<notin> fst ` set (p # opts)" for o'
          using that IH f Cons.prems(2) p by simp
        assume ok
        have hd: "if v = -1 then ks_opt s' opt = ks_opt s opt else ks_set s opt v = Some (ks_opt s' opt)"
          using IH f Cons.prems(2) nin True by simp
        have tl: "if v' = -1 then ks_opt s' o' = ks_opt s o' else ks_set s o' v' = Some (ks_opt s' o')" if "(o', v') \<in> set opts" for o' v'
        proof -
          have "o' \<noteq> opt" using that nin by force
          then show ?thesis using that IH f Cons.prems(2) \<open>ok\<close> by fastforce
        qed
        show "\<forall>(opt, v)\<in>set (p # opts). if v = -1 then ks_opt s' opt = ks_opt s opt else ks_set s opt v = Some (ks_opt s' opt)"
          using hd tl p by auto
      qed
    next
      case False
      then show ?thesis using Cons.prems(1) p s1 f by auto
    qed
  qed simp
  then show "ks_set s' = ks_set s" "\<And>opt. opt \<notin> fst ` set opts \<Longrightarrow> ks_opt s' opt = ks_opt s opt"
    and "\<And>opt v. ok \<Longrightarrow> (opt, v) \<in> set opts \<Longrightarrow> if v = -1 then ks_opt s' opt = ks_opt s opt else ks_set s opt v = Some (ks_opt s' opt)"
    by fastforce+
qed

text \<open>\<open>so_set_keepalive\<close> that succeeds has stored each requested value, left alone each option whose value is -1, and, when keepalive
  is switched off, all the others; no option outside of the four is touched in any case.\<close>

theorem so_set_keepalive_outcome:
  assumes "so_set_keepalive ka idle intvl cnt s = (ok, s')"
  shows "(\<forall>o'. o' \<notin> {SO_KEEPALIVE, TCP_KEEPIDLE, TCP_KEEPINTVL, TCP_KEEPCNT} \<longrightarrow> ks_opt s' o' = ks_opt s o') \<and>
    (ok \<longrightarrow> (\<forall>(opt, v) \<in> set [(SO_KEEPALIVE, ka), (TCP_KEEPIDLE, idle), (TCP_KEEPINTVL, intvl), (TCP_KEEPCNT, cnt)].
       if v = -1 \<or> ka = 0 \<and> opt \<noteq> SO_KEEPALIVE then ks_opt s' opt = ks_opt s opt
       else ks_set s opt v = Some (ks_opt s' opt)))"
proof -
  let ?opts = "(SO_KEEPALIVE, ka) # (if ka \<noteq> 0 then [(TCP_KEEPIDLE, idle), (TCP_KEEPINTVL, intvl), (TCP_KEEPCNT, cnt)] else [])"
  have r: "set_all ?opts s = (ok, s')" "distinct (map fst ?opts)" using assms by (simp add: so_set_keepalive_def, auto)
  note f = set_all_ok(2,3) [OF r]
  have "ks_opt s' o' = ks_opt s o'" if "o' \<notin> {SO_KEEPALIVE, TCP_KEEPIDLE, TCP_KEEPINTVL, TCP_KEEPCNT}" for o'
    using that by (intro f(1)) auto
  moreover have "if v = -1 \<or> ka = 0 \<and> opt \<noteq> SO_KEEPALIVE then ks_opt s' opt = ks_opt s opt else ks_set s opt v = Some (ks_opt s' opt)"
    if "(opt, v) \<in> set [(SO_KEEPALIVE, ka), (TCP_KEEPIDLE, idle), (TCP_KEEPINTVL, intvl), (TCP_KEEPCNT, cnt)]" ok for opt v
  proof (cases "(opt, v) \<in> set ?opts")
    case True
    then show ?thesis using f(2) [OF that(2) True] by (auto split: if_splits)
  next
    case False
    then show ?thesis using that f(1) [of opt] by (auto split: if_splits)
  qed
  ultimately show ?thesis by blast
qed

text \<open>Reading the keepalive options overwrites three of them with whatever the caller's variables hold.\<close>

lemma so_get_keepalive_sets:
  assumes "ks_get s SO_KEEPALIVE" "\<forall>opt v. ks_set s opt v = Some v"
  shows "\<exists>s'. so_get_keepalive (Some x) (Some y) (Some z) (Some u) s = (True, (Some (ks_opt s SO_KEEPALIVE), Some y, Some z, Some u), s') \<and>
    ks_opt s' TCP_KEEPIDLE = y \<and> ks_opt s' TCP_KEEPINTVL = z \<and> ks_opt s' TCP_KEEPCNT = u"
  using assms by (simp add: so_get_keepalive_def set_from_def setsockopt_def getsockopt_def)

text \<open>A connection to \<open>host:port\<close>: the text is split at the colon, a port that is zero or missing is refused before any system call, and
  a descriptor that could not be connected is closed exactly once.\<close>

theorem so_tcp_connect3_outcome:
  assumes "host \<noteq> []" "length host \<le> 255" "CHR '':'' \<notin> set host"
  shows "so_tcp_connect3 pton k (host @ '':'' @ decimal (unat port)) =
      (if port = 0 then Inl EINVAL
       else Inr (if tk_socket k = -1 then (-1, None, [])
                 else if tk_connect k then (tk_socket k, Some (Inet (case pton host of Some a \<Rightarrow> a | None \<Rightarrow> 0) port), [])
                 else (-1, None, [tk_socket k]))) \<and>
    so_tcp_connect3 pton k host = Inl EINVAL"
proof -
  have "scan_set 255 (\<lambda>c. c \<noteq> CHR '':'') (host @ s) = Some (host, s)" if "s = [] \<or> hd s = CHR '':''" for s
    using assms that by (intro scan_set_run) auto
  moreover have "scan_uint (decimal (unat port)) = Some (of_nat (unat port), [])"
    using scan_uint_decimal [of "unat port" "[]"] unsigned_less [of port, where 'a = nat] by simp
  moreover have "ucast (ucast port :: u64) = port"
    by (rule bit_eqI) (auto simp: bit_simps dest: bit_imp_le_length)
  ultimately have "scan_addrport (host @ '':'' @ decimal (unat port)) = Some (host, port)" "scan_addrport (host @ []) = None"
    by (simp_all add: scan_addrport_def del: append_Nil2)
  then show ?thesis
    by (simp add: so_tcp_connect3_def so_tcp_connect2_def so_tcp_connect_def so_sockaddr_in_def)
qed

theorem so_set_keepalive_outcome_witness:
  "\<exists>s'. so_set_keepalive 1 5 (-1) 3 \<lparr>ks_opt = (\<lambda>_. 0), ks_set = (\<lambda>_ v. Some v), ks_get = (\<lambda>_. True)\<rparr> = (True, s') \<and>
     ks_opt s' TCP_KEEPIDLE = 5 \<and> ks_opt s' TCP_KEEPINTVL = 0"
proof -
  let ?s = "\<lparr>ks_opt = (\<lambda>_. 0), ks_set = (\<lambda>_ v. Some v), ks_get = (\<lambda>_. True)\<rparr>"
  obtain ok s' where r: "so_set_keepalive 1 5 (-1) 3 ?s = (ok, s')" by (rule prod.exhaust)
  moreover from r have ok by (auto simp: so_set_keepalive_def set_unless_def setsockopt_def)
  ultimately show ?thesis using so_set_keepalive_outcome [OF r] by auto
qed

theorem so_tcp_connect3_outcome_witness:
  "so_tcp_connect3 (\<lambda>_. None) \<lparr>tk_socket = 4, tk_bind = True, tk_listen = True, tk_connect = False\<rparr> (''ab'' @ '':'' @ decimal (unat (80 :: u16)))
     = Inr (-1, None, [4])"
  using so_tcp_connect3_outcome [of "''ab''" "\<lambda>_. None" "\<lparr>tk_socket = 4, tk_bind = True, tk_listen = True, tk_connect = False\<rparr>" 80] by simp

end
