(* ===== verification/Cf_Support.thy ===== *)
theory Cf_Support
  imports C_Text
begin

text \<open>
  Clocks (src/time.c), the wait object of threads (include/cuttle/pthread_wait.h), memory buffers
  (include/cuttle/membuf.h) and the log (src/debug.c). What the system calls return are parameters.
\<close>

section \<open>Clocks\<close>

record timespec =
  tv_sec :: int
  tv_nsec :: int

datatype clock_id = CLOCK_REALTIME | CLOCK_MONOTONIC

type_synonym clocks = "clock_id \<Rightarrow> timespec"

definition ts_ms :: "timespec \<Rightarrow> int" where "ts_ms tm = tv_sec tm * 1000 + tv_nsec tm div 1000000"
definition ts_us :: "timespec \<Rightarrow> int" where "ts_us tm = tv_sec tm * 1000000 + tv_nsec tm div 1000"

definition cf_get_realtime_ms :: "clocks \<Rightarrow> int" where "cf_get_realtime_ms clk = ts_ms (clk CLOCK_MONOTONIC)"
definition cf_get_realtime_us :: "clocks \<Rightarrow> int" where "cf_get_realtime_us clk = ts_us (clk CLOCK_MONOTONIC)"
definition cf_get_monotic_ms :: "clocks \<Rightarrow> int" where "cf_get_monotic_ms clk = ts_ms (clk CLOCK_REALTIME)"
definition cf_get_monotic_us :: "clocks \<Rightarrow> int" where "cf_get_monotic_us clk = ts_us (clk CLOCK_REALTIME)"

section \<open>The wait object\<close>

text \<open>
  Whether mutex and condition exist, the flag, and the threads inside of \<open>pthread_cond_wait\<close> and those that have been woken
  and have not returned yet. The mutex is held during each operation, as its callers do.
\<close>

record pthread_wait_t =
  pw_mutex :: bool
  pw_cond :: bool
  pw_is_waiting :: bool
  pw_blocked :: "nat list"
  pw_woken :: "nat list"

definition pthread_wait_init :: "nat \<Rightarrow> nat \<Rightarrow> pthread_wait_t \<Rightarrow> nat \<times> pthread_wait_t" where
  "pthread_wait_init mutex_status cond_status wt =
     (let wt = wt\<lparr>pw_is_waiting := False, pw_blocked := [], pw_woken := []\<rparr> in
      if mutex_status \<noteq> 0 then (mutex_status, wt)
      else if cond_status \<noteq> 0 then (cond_status, wt\<lparr>pw_mutex := False\<rparr>)
      else (0, wt\<lparr>pw_mutex := True, pw_cond := True\<rparr>))"

text \<open>\<open>EBUSY\<close> is 16.\<close>

definition pthread_wait_destroy :: "nat \<Rightarrow> nat \<Rightarrow> pthread_wait_t \<Rightarrow> nat \<times> pthread_wait_t" where
  "pthread_wait_destroy cond_status mutex_status wt =
     (if pw_is_waiting wt then (16, wt)
      else if cond_status \<noteq> 0 then (cond_status, wt)
      else (let wt = wt\<lparr>pw_cond := False\<rparr> in
            if mutex_status \<noteq> 0 then (mutex_status, wt) else (0, wt\<lparr>pw_mutex := False\<rparr>)))"

definition cond_signal :: "pthread_wait_t \<Rightarrow> pthread_wait_t" where
  "cond_signal wt = (case pw_blocked wt of [] \<Rightarrow> wt | t # ts \<Rightarrow> wt\<lparr>pw_blocked := ts, pw_woken := pw_woken wt @ [t]\<rparr>)"

definition pthread_wait_signal :: "pthread_wait_t \<Rightarrow> pthread_wait_t" where
  "pthread_wait_signal wt = (if pw_is_waiting wt then cond_signal wt else wt)"

definition pthread_wait_broadcast :: "pthread_wait_t \<Rightarrow> pthread_wait_t" where
  "pthread_wait_broadcast wt = wt\<lparr>pw_blocked := [], pw_woken := pw_woken wt @ pw_blocked wt\<rparr>"

text \<open>The time limit of \<open>pthread_wait\<close>, from the current time in seconds and microseconds.\<close>

definition wait_deadline :: "int \<Rightarrow> int \<Rightarrow> int \<Rightarrow> timespec" where
  "wait_deadline now_sec now_usec tmout =
     (let sec = tmout div 1000;
          msec = tmout - sec * 1000;
          s = now_sec + sec;
          ns = now_usec * 1000 + msec * 1000000 in
      if ns \<ge> 1000000000 then \<lparr>tv_sec = s + 1, tv_nsec = ns - 1000000000\<rparr> else \<lparr>tv_sec = s, tv_nsec = ns\<rparr>)"

text \<open>
  \<open>pthread_wait\<close> up to the point where the thread blocks, with its time limit if it has one, and from there to its end.
  \<open>now\<close> is what \<open>gettimeofday\<close> gives, or its error number, with which the function ends at once.
\<close>

definition pthread_wait_enter :: "nat \<Rightarrow> int \<Rightarrow> nat + int \<times> int \<Rightarrow> pthread_wait_t \<Rightarrow> (nat + timespec option) \<times> pthread_wait_t" where
  "pthread_wait_enter t tmout now wt =
     (let blocked = wt\<lparr>pw_is_waiting := True, pw_blocked := pw_blocked wt @ [t]\<rparr> in
      if tmout < 0 then (Inr None, blocked)
      else (case now of
              Inl e \<Rightarrow> (Inl e, wt\<lparr>pw_is_waiting := False\<rparr>)
            | Inr (sec, usec) \<Rightarrow> (Inr (Some (wait_deadline sec usec tmout)), blocked)))"

definition pthread_wait_leave :: "nat \<Rightarrow> pthread_wait_t \<Rightarrow> pthread_wait_t" where
  "pthread_wait_leave t wt =
     wt\<lparr>pw_blocked := remove1 t (pw_blocked wt), pw_woken := remove1 t (pw_woken wt), pw_is_waiting := False\<rparr>"

section \<open>Memory buffers\<close>

text \<open>A buffer with the address of its data, \<open>None\<close> for null; the second component are the blocks freed.\<close>

record cf_membuf =
  mb_data :: "nat option"
  mb_size :: nat

definition cf_membuf_init :: "nat option \<Rightarrow> nat \<Rightarrow> cf_membuf" where
  "cf_membuf_init data sz = \<lparr>mb_data = data, mb_size = sz\<rparr>"

definition cf_membuf_set :: "nat option \<Rightarrow> nat \<Rightarrow> cf_membuf \<Rightarrow> cf_membuf \<times> nat list" where
  "cf_membuf_set data sz mb = (\<lparr>mb_data = data, mb_size = sz\<rparr>, case mb_data mb of None \<Rightarrow> [] | Some a \<Rightarrow> [a])"

definition cf_membuf_cleanup :: "cf_membuf \<Rightarrow> cf_membuf \<times> nat list" where
  "cf_membuf_cleanup = cf_membuf_set None 0"

section \<open>The log\<close>

datatype log_stream = Std_err | Std_out | Log_file nat

record log_state =
  lg_file :: "log_stream option"
  lg_name :: "string option"
  lg_mask :: u32
  lg_open :: "nat list"

definition lower :: "char \<Rightarrow> char" where
  "lower c = (if between CHR ''A'' CHR ''Z'' c then char_of (of_char c + (32 :: nat)) else c)"

definition strcaseeq :: "string \<Rightarrow> string \<Rightarrow> bool" where
  "strcaseeq a b \<longleftrightarrow> map lower a = map lower b"

text \<open>\<open>dup_ok\<close> is the outcome of \<open>strdup\<close>, \<open>file\<close> what \<open>fopen\<close> returns.\<close>

definition close_log :: "log_state \<Rightarrow> log_state" where
  "close_log s =
     (case lg_file s of
        Some (Log_file f) \<Rightarrow> s\<lparr>lg_file := None, lg_open := remove1 f (lg_open s)\<rparr>
      | _ \<Rightarrow> s)"

definition cf_set_logfilename :: "bool \<Rightarrow> nat option \<Rightarrow> string option \<Rightarrow> log_state \<Rightarrow> bool \<times> log_state" where
  "cf_set_logfilename dup_ok file fname s =
     (let s = close_log (s\<lparr>lg_name := None\<rparr>) in
      case fname of
        None \<Rightarrow> (True, s)
      | Some name \<Rightarrow>
          if \<not> dup_ok then (False, s)
          else (let s = s\<lparr>lg_name := Some name\<rparr> in
                if strcaseeq name ''stderr'' then (False, s\<lparr>lg_file := Some Std_err\<rparr>)
                else if strcaseeq name ''stdout'' then (False, s\<lparr>lg_file := Some Std_out\<rparr>)
                else (case file of
                        None \<Rightarrow> (False, s\<lparr>lg_file := None\<rparr>)
                      | Some f \<Rightarrow> (True, s\<lparr>lg_file := Some (Log_file f), lg_open := f # lg_open s\<rparr>))))"

definition cf_get_logfilename :: "log_state \<Rightarrow> string option" where "cf_get_logfilename s = lg_name s"
definition cf_set_loglevel :: "u32 \<Rightarrow> log_state \<Rightarrow> log_state" where "cf_set_loglevel m s = s\<lparr>lg_mask := m\<rparr>"
definition cf_get_loglevel :: "log_state \<Rightarrow> u32" where "cf_get_loglevel s = lg_mask s"

text \<open>The letter of a priority.\<close>

definition pric :: "u32 \<Rightarrow> char" where
  "pric pri = (if pri = 0 then CHR ''F'' else if pri = 1 then CHR ''C'' else if pri = 2 then CHR ''E'' else if pri = 3 then CHR ''W''
     else if pri = 4 then CHR ''N'' else if pri = 5 then CHR ''I'' else if pri = 6 then CHR ''D'' else CHR ''U'')"

text \<open>The control sequences around a line of the log.\<close>

definition esc :: "string \<Rightarrow> string" where "esc cs = char_of (27 :: nat) # CHR ''['' # cs @ ''m''"

definition plogbegin :: "u32 \<Rightarrow> string" where
  "plogbegin pri =
     (if pri = 0 \<or> pri = 1 then esc ''31'' @ esc ''1'' else if pri = 2 then esc ''31'' else if pri = 3 then esc ''33''
      else if pri = 4 then esc ''1'' else if pri = 6 then esc ''32'' else [])"

definition plogend :: "u32 \<Rightarrow> string" where
  "plogend pri = (if pri \<in> {0, 1, 2, 3, 4, 6} then esc ''0'' else [])"

text \<open>What \<open>do_plogv\<close> writes: \<open>header\<close> makes the fields from the letter, \<open>msg\<close> is the formatted message, \<open>ssl_errors\<close> the pending errors of the
  TLS library.\<close>

definition do_plogv :: "(char \<Rightarrow> string) \<Rightarrow> string \<Rightarrow> u32 \<Rightarrow> string \<Rightarrow> string" where
  "do_plogv header ssl_errors pri msg =
     plogbegin (pri AND 7) @ header (pric pri) @ msg @ [char_of (10 :: nat)] @ ssl_errors @ plogend (pri AND 7)"

text \<open>What \<open>cf_plog\<close> and \<open>cf_plogv\<close> write to the file, nothing when there is none or the priority is below the level.\<close>

definition cf_plog :: "(char \<Rightarrow> string) \<Rightarrow> string \<Rightarrow> u32 \<Rightarrow> string \<Rightarrow> log_state \<Rightarrow> string" where
  "cf_plog header ssl_errors pri msg s =
     (if lg_file s \<noteq> None \<and> pri AND 7 \<le> lg_mask s AND 7 then do_plogv header ssl_errors pri msg else [])"

text \<open>What \<open>my_signal_handler\<close> does: the status of \<open>exit\<close>, or nothing. The numbers are those of Linux.\<close>

definition my_signal_handler :: "nat \<Rightarrow> nat option" where
  "my_signal_handler signum =
     (if signum \<in> {2, 3, 15} then Some 0
      else if signum \<in> {11, 16, 4, 7, 31, 8, 6} then Some 1
      else None)"

text \<open>The signals for which \<open>cf_setup_signal_handler\<close> installs it, up to the first failure.\<close>

fun install_handlers :: "(nat \<Rightarrow> bool) \<Rightarrow> nat list \<Rightarrow> bool \<times> nat list" where
  "install_handlers ok [] = (True, [])"
| "install_handlers ok (sig # sigs) =
     (if sig \<in> {9, 19, 18} then install_handlers ok sigs
      else if \<not> ok sig then (False, [])
      else (case install_handlers ok sigs of (r, done') \<Rightarrow> (r, sig # done')))"

definition cf_setup_signal_handler :: "(nat \<Rightarrow> bool) \<Rightarrow> bool \<times> nat list" where
  "cf_setup_signal_handler ok = install_handlers ok [1..<32]"

section \<open>Properties\<close>

text \<open>The time limit of a wait is exact and well-formed: with a microsecond part below one million and a nonnegative time in milliseconds, the
  nanoseconds stay below one billion and the limit is the current time plus the timeout.\<close>

theorem pthread_wait_deadline_exact:
  assumes "0 \<le> usec" "usec < 1000000" "0 \<le> tmout"
  shows "0 \<le> tv_nsec (wait_deadline sec usec tmout) \<and> tv_nsec (wait_deadline sec usec tmout) < 1000000000 \<and>
    tv_sec (wait_deadline sec usec tmout) * 1000000000 + tv_nsec (wait_deadline sec usec tmout) =
      sec * 1000000000 + usec * 1000 + tmout * 1000000"
proof -
  have m: "tmout - tmout div 1000 * 1000 = tmout mod 1000" by (simp add: minus_div_mult_eq_mod)
  have b: "0 \<le> tmout mod 1000" "tmout mod 1000 < 1000" by simp_all
  have t: "tmout mod 1000 * 1000000 + tmout div 1000 * 1000000000 = tmout * 1000000"
    using div_mult_mod_eq [of tmout 1000] by linarith
  show ?thesis
    unfolding wait_deadline_def Let_def m using assms(1,2) b t by (auto simp: algebra_simps)
qed

text \<open>A wake-up by \<open>pthread_wait_signal\<close> can get lost: when two threads wait and one of them returns, the flag is cleared although the other
  one is still blocked. \<open>pthread_wait_broadcast\<close>, which the scheduler uses, does not look at the flag.\<close>

lemma pthread_wait_signal_lost:
  "let wt = pthread_wait_leave 1 (pthread_wait_signal (snd (pthread_wait_enter 2 (-1) now (snd (pthread_wait_enter 1 (-1) now (snd (pthread_wait_init 0 0 wt0))))))) in
   pw_blocked wt = [2] \<and> pthread_wait_signal wt = wt \<and> pw_blocked (pthread_wait_broadcast wt) = []"
  by (simp add: pthread_wait_leave_def pthread_wait_signal_def pthread_wait_enter_def pthread_wait_init_def cond_signal_def
      pthread_wait_broadcast_def Let_def)

text \<open>The log keeps exactly its current file open, whatever names it is given and whatever fails: no file is leaked and none is closed twice.\<close>

definition log_inv :: "log_state \<Rightarrow> bool" where
  "log_inv s \<longleftrightarrow> lg_open s = (case lg_file s of Some (Log_file f) \<Rightarrow> [f] | _ \<Rightarrow> [])"

lemma close_log_open: "log_inv s \<Longrightarrow> lg_open (close_log (s\<lparr>lg_name := n\<rparr>)) = []"
  by (auto simp: log_inv_def close_log_def split: option.splits log_stream.splits)

theorem cf_set_logfilename_keeps_one_file:
  assumes "log_inv s" "cf_set_logfilename dup_ok file fname s = (ok, s')"
  shows "log_inv s' \<and> (ok \<and> fname \<noteq> None \<longrightarrow> (\<exists>f. file = Some f \<and> lg_file s' = Some (Log_file f) \<and> cf_get_logfilename s' = fname)) \<and>
    (fname = Some name \<and> dup_ok \<and> (strcaseeq name ''stderr'' \<or> strcaseeq name ''stdout'') \<longrightarrow> \<not> ok \<and> lg_open s' = [])"
proof -
  have inv: "log_inv (close_log (s\<lparr>lg_name := n\<rparr>))" for n
    using close_log_open [OF assms(1), of n]
    by (auto simp: log_inv_def close_log_def split: option.splits log_stream.splits)
  show ?thesis
    using assms(2) inv [of None] close_log_open [OF assms(1), of None]
    by (auto simp: cf_set_logfilename_def Let_def log_inv_def cf_get_logfilename_def split: option.splits if_splits)
qed

text \<open>A line that starts a colour ends with its reset. An event, a multiple of 8, passes every level and gets the letter of an unknown priority.\<close>

lemma do_plogv_resets: "plogbegin p = [] \<longleftrightarrow> plogend p = []"
  by (simp add: plogbegin_def plogend_def esc_def)

lemma cf_plog_event:
  assumes "pri AND 7 = 0" "8 \<le> pri" "lg_file s \<noteq> None"
  shows "cf_plog h es pri msg s = plogbegin 0 @ h CHR ''U'' @ msg @ [char_of (10 :: nat)] @ es @ plogend 0"
proof -
  have "pric pri = CHR ''U''" using assms(2) by (auto simp: pric_def word_le_nat_alt)
  then show ?thesis using assms by (simp add: cf_plog_def do_plogv_def)
qed

theorem pthread_wait_deadline_exact_witness:
  "tv_nsec (wait_deadline 10 999999 1500) < 1000000000 \<and> wait_deadline 10 999999 1500 = \<lparr>tv_sec = 12, tv_nsec = 499999000\<rparr>"
  using pthread_wait_deadline_exact [of 999999 1500 10] by (simp add: wait_deadline_def Let_def)

theorem cf_set_logfilename_keeps_one_file_witness:
  "\<exists>s'. cf_set_logfilename True (Some 4) (Some ''b'') \<lparr>lg_file = Some (Log_file 3), lg_name = Some ''a'', lg_mask = 5, lg_open = [3]\<rparr> = (True, s') \<and>
     lg_open s' = [4]"
proof -
  let ?s = "\<lparr>lg_file = Some (Log_file 3), lg_name = Some ''a'', lg_mask = 5, lg_open = [3]\<rparr>"
  have i: "log_inv ?s" by (simp add: log_inv_def)
  obtain ok s' where r: "cf_set_logfilename True (Some 4) (Some ''b'') ?s = (ok, s')" by (rule prod.exhaust)
  moreover from r have ok by (auto simp: cf_set_logfilename_def close_log_def strcaseeq_def split: if_splits)
  ultimately show ?thesis using cf_set_logfilename_keeps_one_file [OF i r, of "''b''"] by (auto simp: log_inv_def)
qed

end
