(* ===== verification/Ossl.thy ===== *)
theory Ossl
  imports Cf_Support Hexbits "HOL-Library.Monad_Syntax"
begin

text \<open>
  What the wrappers in src/ssl share: objects of OpenSSL and of the C library that have to be released, answers of
  library calls, and files (src/ssl/getfp.c).

  OpenSSL is not modelled. The answers of its calls are a parameter, a number for each call in the order of time, and the
  calls with their arguments are kept as a trace. Objects are numbers; the list of those that are live grows with each
  allocation, and releasing an object that is not live is undefined.
\<close>

section \<open>Objects and calls\<close>

datatype ores = R_bio | R_key | R_ctx | R_buf | R_file | R_x509 | R_ext | R_ssl_ctx | R_ec_key | R_conf

datatype ossl_call =
    EVP_PKEY_paramgen_init nat
  | EVP_PKEY_CTX_ctrl_str nat string string
  | EVP_PKEY_paramgen nat
  | EVP_PKEY_keygen_init nat
  | EVP_PKEY_keygen nat
  | X509_set_version nat int
  | ASN1_INTEGER_set nat int
  | X509_time_adj_notBefore nat int "int option"
  | X509_time_adj_notAfter nat int "int option"
  | X509_set_pubkey nat nat
  | X509_get_subject_name nat
  | X509_NAME_add_entry_by_NID nat int "string option"
  | X509_set_issuer_name nat nat
  | X509_set_subject_name nat nat
  | X509V3_EXT_conf_nid int string
  | X509_add_ext nat nat
  | X509_sign nat nat "nat option"
  | SSL_CTX_set_options nat int
  | SSL_CTX_set_tmp_ecdh nat nat
  | SSL_CTX_set_cipher_list nat string
  | SSL_CTX_set_verify nat int bool
  | SSL_CTX_set_verify_depth nat int
  | SSL_CTX_load_verify_locations nat string
  | SSL_CTX_use_certificate_file nat string
  | SSL_CTX_use_PrivateKey_file nat string
  | SSL_CTX_check_private_key nat
  | NCONF_load_bio nat nat
  | CONF_modules_load nat
  | ENGINE_by_id string
  | Init_step string

record ossl_mem =
  om_time :: nat
  om_live :: "(ores \<times> nat) list"
  om_trace :: "ossl_call list"
  om_files :: "string \<Rightarrow> u8 list option"
  om_stdin :: "u8 list"
  om_stdout :: "u8 list"
  om_stderr :: "u8 list"

type_synonym answers = "nat \<Rightarrow> int"

definition call :: "answers \<Rightarrow> ossl_call \<Rightarrow> ossl_mem \<Rightarrow> int \<times> ossl_mem" where
  "call ans c s = (ans (om_time s), s\<lparr>om_time := om_time s + 1, om_trace := om_trace s @ [c]\<rparr>)"

text \<open>An allocation: the answer 0 is a null pointer.\<close>

definition onew :: "answers \<Rightarrow> ores \<Rightarrow> ossl_mem \<Rightarrow> nat option \<times> ossl_mem" where
  "onew ans k s =
     (let s' = s\<lparr>om_time := om_time s + 1\<rparr> in
      if ans (om_time s) = 0 then (None, s') else (Some (om_time s), s'\<lparr>om_live := (k, om_time s) # om_live s\<rparr>))"

text \<open>A release; a null pointer is ignored, which the sources test or the library does.\<close>

definition ofree :: "ores \<Rightarrow> nat option \<Rightarrow> ossl_mem \<Rightarrow> ossl_mem ub" where
  "ofree k x s =
     (case x of
        None \<Rightarrow> Some s
      | Some i \<Rightarrow> if (k, i) \<in> set (om_live s) then Some (s\<lparr>om_live := remove1 (k, i) (om_live s)\<rparr>) else None)"

section \<open>Files\<close>

datatype stream = Std_in | Std_outp | Std_errp | Opened nat string

definition fopen :: "answers \<Rightarrow> string \<Rightarrow> string \<Rightarrow> ossl_mem \<Rightarrow> stream option \<times> ossl_mem" where
  "fopen ans fname mode s =
     (if hd mode = CHR ''r'' \<and> om_files s fname = None then (None, s)
      else (case onew ans R_file s of
              (None, s) \<Rightarrow> (None, s)
            | (Some i, s) \<Rightarrow>
                (Some (Opened i fname),
                 if hd mode = CHR ''w'' \<or> om_files s fname = None then s\<lparr>om_files := (om_files s)(fname \<mapsto> [])\<rparr> else s)))"

text \<open>The stream, and whether the caller's flag has been set, which happens for the null device.\<close>

definition cf_getfp :: "answers \<Rightarrow> string option \<Rightarrow> string \<Rightarrow> ossl_mem \<Rightarrow> stream option \<times> bool \<times> ossl_mem" where
  "cf_getfp ans fname mode s =
     (case fname of
        None \<Rightarrow> (None, False, s)
      | Some name \<Rightarrow>
          if name = [] then (None, False, s)
          else if mode = [] then (None, False, s)
          else if hd mode = CHR ''r'' then
            (if strcaseeq name ''stdin'' then (Some Std_in, False, s)
             else (case fopen ans name mode s of (fp, s) \<Rightarrow> (fp, False, s)))
          else if hd mode = CHR ''w'' \<or> hd mode = CHR ''a'' then
            (if strcaseeq name ''stdout'' then (Some Std_outp, False, s)
             else if strcaseeq name ''stderr'' then (Some Std_errp, False, s)
             else if name = ''/dev/null'' then (None, True, s)
             else (case fopen ans name mode s of (fp, s) \<Rightarrow> (fp, False, s)))
          else (None, False, s))"

definition cf_closefp :: "stream option \<Rightarrow> ossl_mem \<Rightarrow> ossl_mem ub" where
  "cf_closefp fp s = (case fp of Some (Opened i _) \<Rightarrow> ofree R_file (Some i) s | _ \<Rightarrow> Some s)"

text \<open>The bytes that a stream gives, and writing to a stream.\<close>

definition fcontent :: "stream \<Rightarrow> ossl_mem \<Rightarrow> u8 list" where
  "fcontent fp s =
     (case fp of Std_in \<Rightarrow> om_stdin s | Opened _ name \<Rightarrow> (case om_files s name of Some bs \<Rightarrow> bs | None \<Rightarrow> []) | _ \<Rightarrow> [])"

definition fput :: "u8 list \<Rightarrow> stream \<Rightarrow> ossl_mem \<Rightarrow> ossl_mem" where
  "fput bs fp s =
     (case fp of
        Std_in \<Rightarrow> s
      | Std_outp \<Rightarrow> s\<lparr>om_stdout := om_stdout s @ bs\<rparr>
      | Std_errp \<Rightarrow> s\<lparr>om_stderr := om_stderr s @ bs\<rparr>
      | Opened _ name \<Rightarrow> s\<lparr>om_files := (om_files s)(name \<mapsto> fcontent fp s @ bs)\<rparr>)"

section \<open>Balance of objects\<close>

text \<open>
  The objects that a function leaves behind are those that were live before and what it returns.
\<close>

definition adds :: "(ores \<times> nat) list \<Rightarrow> ossl_mem \<Rightarrow> ossl_mem \<Rightarrow> bool" where
  "adds xs s s' \<longleftrightarrow> om_live s' = xs @ om_live s"

definition obj :: "ores \<Rightarrow> nat option \<Rightarrow> (ores \<times> nat) list" where
  "obj k x = (case x of None \<Rightarrow> [] | Some i \<Rightarrow> [(k, i)])"

lemma obj_simps [simp]: "obj k None = []" "obj k (Some i) = [(k, i)]"
  by (simp_all add: obj_def)

lemma onew_adds: "onew ans k s = (x, s') \<Longrightarrow> om_live s' = obj k x @ om_live s \<and> om_files s' = om_files s \<and> om_trace s' = om_trace s"
  by (auto simp: onew_def Let_def split: if_splits)

lemma onew_ok: "ans (om_time s) \<noteq> 0 \<Longrightarrow> onew ans k s = (Some (om_time s), s\<lparr>om_time := om_time s + 1, om_live := (k, om_time s) # om_live s\<rparr>)"
  by (simp add: onew_def Let_def)

lemma ofree_None [simp]: "ofree k None s = Some s"
  by (simp add: ofree_def)

lemma ofree_Some [simp]: "(k, i) \<in> set (om_live s) \<Longrightarrow> ofree k (Some i) s = Some (s\<lparr>om_live := remove1 (k, i) (om_live s)\<rparr>)"
  by (simp add: ofree_def)

lemma call_adds [simp]: "om_live (snd (call ans c s)) = om_live s" "om_files (snd (call ans c s)) = om_files s"
  "om_trace (snd (call ans c s)) = om_trace s @ [c]" "om_time (snd (call ans c s)) = om_time s + 1"
  by (simp_all add: call_def)

lemma fput_adds [simp]: "om_live (fput bs fp s) = om_live s" "om_time (fput bs fp s) = om_time s"
  by (simp_all add: fput_def split: stream.splits)

text \<open>A stream of \<^const>\<open>cf_getfp\<close> is one object, or none for the standard streams, and closing it gives the object back.\<close>

definition fp_obj :: "stream option \<Rightarrow> (ores \<times> nat) list" where
  "fp_obj fp = (case fp of Some (Opened i _) \<Rightarrow> [(R_file, i)] | _ \<Rightarrow> [])"

lemma cf_getfp_adds:
  assumes "cf_getfp ans fname mode s = (fp, fok, s')"
  shows "om_live s' = fp_obj fp @ om_live s" "fok \<Longrightarrow> fp = None"
  using assms
  by (auto simp: cf_getfp_def fopen_def fp_obj_def Let_def dest!: onew_adds split: option.splits if_splits prod.splits)

lemma cf_closefp_adds:
  "om_live s = fp_obj fp @ l \<Longrightarrow> \<exists>s'. cf_closefp fp s = Some s' \<and> om_live s' = l \<and> om_files s' = om_files s"
  by (auto simp: cf_closefp_def fp_obj_def split: option.splits stream.splits)

end
