(* ===== verification/Ssl_Pkey.thy ===== *)
theory Ssl_Pkey
  imports Ossl
begin

text \<open>
  Keys, src/ssl/ssl-pkey.c: generation, and reading and writing in PEM, in binary and in hexadecimal form. The encodings are
  those of OpenSSL, a parameter. A key is a pair of its object and its content; a C string is the memory with its terminator.
\<close>

section \<open>OpenSSL\<close>

record 'k keylib =
  i2d_PUBKEY :: "'k \<Rightarrow> u8 list option"
  d2i_PUBKEY :: "u8 list \<Rightarrow> 'k option"
  i2d_PrivateKey :: "'k \<Rightarrow> u8 list option"
  d2i_PrivateKey :: "u8 list \<Rightarrow> 'k option"
  pem_PUBKEY :: "'k \<Rightarrow> u8 list option"
  read_pem_PUBKEY :: "u8 list \<Rightarrow> 'k option"
  pem_PrivateKey :: "'k \<Rightarrow> nat option \<Rightarrow> string option \<Rightarrow> u8 list option"
  read_pem_PrivateKey :: "string option \<Rightarrow> u8 list \<Rightarrow> 'k option"
  EVP_get_cipherbyname :: "string \<Rightarrow> nat option"
  OBJ_sn2nid :: "string \<Rightarrow> int"
  OBJ_ln2nid :: "string \<Rightarrow> int"
  EVP_PKEY_id :: "'k \<Rightarrow> int"
  generated_key :: "ossl_call list \<Rightarrow> nat \<Rightarrow> 'k"
  default_md :: "'k \<Rightarrow> nat option"

type_synonym 'k pkey = "nat \<times> 'k"

definition cf_cipher_by_name :: "'k keylib \<Rightarrow> string option \<Rightarrow> nat option" where
  "cf_cipher_by_name L cname = (case cname of None \<Rightarrow> None | Some c \<Rightarrow> if c = [] then None else EVP_get_cipherbyname L c)"

definition cf_pkey_free :: "'k pkey option \<Rightarrow> ossl_mem \<Rightarrow> ossl_mem ub" where
  "cf_pkey_free key s = ofree R_key (map_option fst key) s"

definition cf_pkey_get_default_md :: "'k keylib \<Rightarrow> 'k pkey \<Rightarrow> nat option" where
  "cf_pkey_get_default_md L pkey = default_md L (snd pkey)"

definition c_str :: "u8 list \<Rightarrow> u8 list ub" where
  "c_str mem = (if 0 \<in> set mem then Some (takeWhile (\<lambda>b. b \<noteq> 0) mem) else None)"

section \<open>Through memory\<close>

text \<open>
  Writing to a memory BIO and copying its content into a new buffer, followed by \<open>terminator\<close>: the body of the
  functions that return a string or a block of bytes. \<open>out\<close> is what the encoder writes, \<open>None\<close> when it fails.
\<close>

definition copy_out :: "answers \<Rightarrow> u8 list \<Rightarrow> u8 list \<Rightarrow> ossl_mem \<Rightarrow> (nat \<times> u8 list) option \<times> ossl_mem" where
  "copy_out ans bytes terminator s =
     (if ans (om_time s) = 0 then (None, s\<lparr>om_time := om_time s + 1\<rparr>)
      else (case onew ans R_buf (s\<lparr>om_time := om_time s + 1\<rparr>) of
              (None, s) \<Rightarrow> (None, s)
            | (Some b, s) \<Rightarrow> (Some (b, bytes @ terminator), s)))"

definition write_mem :: "answers \<Rightarrow> u8 list option \<Rightarrow> u8 list \<Rightarrow> ossl_mem \<Rightarrow> ((nat \<times> u8 list) option \<times> ossl_mem) ub" where
  "write_mem ans out terminator s =
     (case onew ans R_bio s of
        (None, s) \<Rightarrow> Some (None, s)
      | (Some bio, s) \<Rightarrow>
          (case (case out of None \<Rightarrow> (None, s) | Some bytes \<Rightarrow> copy_out ans bytes terminator s) of
             (buf, s) \<Rightarrow> do { s \<leftarrow> ofree R_bio (Some bio) s; Some (buf, s) }))"

definition cf_write_pem_public_key_str :: "answers \<Rightarrow> 'k keylib \<Rightarrow> 'k pkey \<Rightarrow> ossl_mem \<Rightarrow> ((nat \<times> u8 list) option \<times> ossl_mem) ub" where
  "cf_write_pem_public_key_str ans L key = write_mem ans (pem_PUBKEY L (snd key)) [0]"

definition cf_write_pem_private_key_str :: "answers \<Rightarrow> 'k keylib \<Rightarrow> 'k pkey \<Rightarrow> ossl_mem \<Rightarrow> ((nat \<times> u8 list) option \<times> ossl_mem) ub" where
  "cf_write_pem_private_key_str ans L key = write_mem ans (pem_PrivateKey L (snd key) None None) [0]"

definition cf_write_public_key_bits :: "answers \<Rightarrow> 'k keylib \<Rightarrow> 'k pkey \<Rightarrow> ossl_mem \<Rightarrow> ((nat \<times> u8 list) option \<times> ossl_mem) ub" where
  "cf_write_public_key_bits ans L pkey = write_mem ans (i2d_PUBKEY L (snd pkey)) []"

definition cf_write_private_key_bits :: "answers \<Rightarrow> 'k keylib \<Rightarrow> 'k pkey \<Rightarrow> ossl_mem \<Rightarrow> ((nat \<times> u8 list) option \<times> ossl_mem) ub" where
  "cf_write_private_key_bits ans L pkey = write_mem ans (i2d_PrivateKey L (snd pkey)) []"

text \<open>A decoder that allocates the object: it exists when the decoder accepts the bytes and there is memory.\<close>

definition new_obj :: "answers \<Rightarrow> ores \<Rightarrow> 'k option \<Rightarrow> ossl_mem \<Rightarrow> (nat \<times> 'k) option \<times> ossl_mem" where
  "new_obj ans kind k s =
     (case k of
        None \<Rightarrow> (None, s)
      | Some k \<Rightarrow> (case onew ans kind s of (None, s) \<Rightarrow> (None, s) | (Some i, s) \<Rightarrow> (Some (i, k), s)))"

definition read_mem :: "answers \<Rightarrow> ores \<Rightarrow> 'k option \<Rightarrow> ossl_mem \<Rightarrow> ((nat \<times> 'k) option \<times> ossl_mem) ub" where
  "read_mem ans kind k s =
     (case onew ans R_bio s of
        (None, s) \<Rightarrow> Some (None, s)
      | (Some bio, s) \<Rightarrow>
          (case new_obj ans kind k s of (key, s) \<Rightarrow> do { s \<leftarrow> ofree R_bio (Some bio) s; Some (key, s) }))"

definition cf_read_public_key_bits :: "answers \<Rightarrow> 'k keylib \<Rightarrow> u8 list \<Rightarrow> ossl_mem \<Rightarrow> ('k pkey option \<times> ossl_mem) ub" where
  "cf_read_public_key_bits ans L buf = read_mem ans R_key (d2i_PUBKEY L buf)"

definition cf_read_private_key_bits :: "answers \<Rightarrow> 'k keylib \<Rightarrow> u8 list \<Rightarrow> ossl_mem \<Rightarrow> ('k pkey option \<times> ossl_mem) ub" where
  "cf_read_private_key_bits ans L buf = read_mem ans R_key (d2i_PrivateKey L buf)"

definition cf_read_pem_private_key_str :: "answers \<Rightarrow> 'k keylib \<Rightarrow> u8 list option \<Rightarrow> ossl_mem \<Rightarrow> ('k pkey option \<times> ossl_mem) ub" where
  "cf_read_pem_private_key_str ans L private_key s =
     (case private_key of
        None \<Rightarrow> Some (None, s)
      | Some mem \<Rightarrow> do { str \<leftarrow> c_str mem; if str = [] then Some (None, s) else read_mem ans R_key (read_pem_PrivateKey L None str) s })"

text \<open>The reader of public keys allocates the key first and lets the decoder fill it.\<close>

definition cf_read_pem_public_key_str :: "answers \<Rightarrow> 'k keylib \<Rightarrow> u8 list option \<Rightarrow> ossl_mem \<Rightarrow> ('k pkey option \<times> ossl_mem) ub" where
  "cf_read_pem_public_key_str ans L public_key s =
     (case public_key of
        None \<Rightarrow> Some (None, s)
      | Some mem \<Rightarrow>
          do { str \<leftarrow> c_str mem;
               if str = [] then Some (None, s)
               else (case onew ans R_key s of
                       (None, s) \<Rightarrow> Some (None, s)
                     | (Some key, s) \<Rightarrow>
                         (case onew ans R_bio s of
                            (None, s) \<Rightarrow> do { s \<leftarrow> ofree R_key (Some key) s; Some (None, s) }
                          | (Some bio, s) \<Rightarrow>
                              do { s \<leftarrow> ofree R_bio (Some bio) s;
                                   (case read_pem_PUBKEY L str of
                                      None \<Rightarrow> do { s \<leftarrow> ofree R_key (Some key) s; Some (None, s) }
                                    | Some k \<Rightarrow> Some (Some (key, k), s)) })) })"

section \<open>Hexadecimal text\<close>

text \<open>
  The number of bytes is kept in an \<open>int\<close>; twice that number and one more must not overflow. The text is made of as many bytes as the
  \<open>int\<close> says.
\<close>

definition as_int :: "nat \<Rightarrow> int" where
  "as_int n = sint (of_nat n :: 32 word)"

definition hex_of_bits :: "answers \<Rightarrow> (nat \<times> u8 list) option \<Rightarrow> ossl_mem \<Rightarrow> ((nat \<times> u8 list) option \<times> ossl_mem) ub" where
  "hex_of_bits ans bits s =
     (case bits of
        None \<Rightarrow> Some (None, s)
      | Some (b, bs) \<Rightarrow>
          (let cbbits = as_int (length bs) in
           if cbbits \<le> 0 then do { s \<leftarrow> ofree R_buf (Some b) s; Some (None, s) }
           else if cbbits * 2 + 1 \<ge> 2 ^ 31 then None
           else (case onew ans R_buf s of
                   (None, s) \<Rightarrow> do { s \<leftarrow> ofree R_buf (Some b) s; Some (None, s) }
                 | (Some h, s) \<Rightarrow>
                     do { s \<leftarrow> ofree R_buf (Some b) s; Some (Some (h, cf_bits2hex (take (nat cbbits) bs)), s) })))"

definition cf_write_public_key_hex_str :: "answers \<Rightarrow> 'k keylib \<Rightarrow> 'k pkey option \<Rightarrow> ossl_mem \<Rightarrow> ((nat \<times> u8 list) option \<times> ossl_mem) ub" where
  "cf_write_public_key_hex_str ans L pkey s =
     (case pkey of
        None \<Rightarrow> Some (None, s)
      | Some pkey \<Rightarrow> do { (bits, s) \<leftarrow> cf_write_public_key_bits ans L pkey s; hex_of_bits ans bits s })"

definition cf_write_private_key_hex_str :: "answers \<Rightarrow> 'k keylib \<Rightarrow> 'k pkey option \<Rightarrow> ossl_mem \<Rightarrow> ((nat \<times> u8 list) option \<times> ossl_mem) ub" where
  "cf_write_private_key_hex_str ans L pkey s =
     (case pkey of
        None \<Rightarrow> Some (None, s)
      | Some pkey \<Rightarrow> do { (bits, s) \<leftarrow> cf_write_private_key_bits ans L pkey s; hex_of_bits ans bits s })"

definition read_hex_str :: "(u8 list \<Rightarrow> ossl_mem \<Rightarrow> ('k pkey option \<times> ossl_mem) ub) \<Rightarrow> u8 list option \<Rightarrow> ossl_mem \<Rightarrow> ('k pkey option \<times> ossl_mem) ub" where
  "read_hex_str read_bits hex s =
     (case hex of
        None \<Rightarrow> Some (None, s)
      | Some mem \<Rightarrow>
          do { str \<leftarrow> c_str mem;
               if str = [] then Some (None, s)
               else do { (keylen, bits) \<leftarrow> cf_hex2bits mem (length str div 2 + 2);
                         if keylen = 0 then Some (None, s) else read_bits (take keylen bits) s } })"

definition cf_read_public_key_hex_str :: "answers \<Rightarrow> 'k keylib \<Rightarrow> u8 list option \<Rightarrow> ossl_mem \<Rightarrow> ('k pkey option \<times> ossl_mem) ub" where
  "cf_read_public_key_hex_str ans L = read_hex_str (cf_read_public_key_bits ans L)"

definition cf_read_private_key_hex_str :: "answers \<Rightarrow> 'k keylib \<Rightarrow> u8 list option \<Rightarrow> ossl_mem \<Rightarrow> ('k pkey option \<times> ossl_mem) ub" where
  "cf_read_private_key_hex_str ans L = read_hex_str (cf_read_private_key_bits ans L)"

section \<open>Files\<close>

text \<open>The writers give what \<open>fprintf\<close> writes; \<open>Some False\<close> means that it fails.\<close>

definition write_hex_fp :: "answers \<Rightarrow> (nat \<times> u8 list) option \<Rightarrow> stream \<Rightarrow> ossl_mem \<Rightarrow> (bool \<times> ossl_mem) ub" where
  "write_hex_fp ans bits fp s =
     (case bits of
        None \<Rightarrow> Some (False, s)
      | Some (b, bs) \<Rightarrow>
          (let cbbits = as_int (length bs) in
           if cbbits \<le> 0 then do { s \<leftarrow> ofree R_buf (Some b) s; Some (False, s) }
           else if cbbits * 2 + 1 \<ge> 2 ^ 31 then None
           else (let ok = ans (om_time s) \<noteq> 0; s = s\<lparr>om_time := om_time s + 1\<rparr>;
                     s = (if ok then fput (bits2hex_loop (take (nat cbbits) bs)) fp s else s) in
                 do { s \<leftarrow> ofree R_buf (Some b) s; Some (ok, s) })))"

definition cf_write_public_key_hex_fp :: "answers \<Rightarrow> 'k keylib \<Rightarrow> 'k pkey option \<Rightarrow> stream \<Rightarrow> ossl_mem \<Rightarrow> (bool \<times> ossl_mem) ub" where
  "cf_write_public_key_hex_fp ans L pkey fp s =
     (case pkey of
        None \<Rightarrow> Some (False, s)
      | Some pkey \<Rightarrow> do { (bits, s) \<leftarrow> cf_write_public_key_bits ans L pkey s; write_hex_fp ans bits fp s })"

definition cf_write_private_key_hex_fp :: "answers \<Rightarrow> 'k keylib \<Rightarrow> 'k pkey option \<Rightarrow> stream \<Rightarrow> ossl_mem \<Rightarrow> (bool \<times> ossl_mem) ub" where
  "cf_write_private_key_hex_fp ans L pkey fp s =
     (case pkey of
        None \<Rightarrow> Some (False, s)
      | Some pkey \<Rightarrow> do { (bits, s) \<leftarrow> cf_write_private_key_bits ans L pkey s; write_hex_fp ans bits fp s })"

text \<open>\<open>strchr\<close> on the digits also finds the terminator, so that the byte 0 counts as a digit.\<close>

definition hex_or_nul :: "u8 \<Rightarrow> bool" where
  "hex_or_nul ch \<longleftrightarrow> ch = 0 \<or> 0x30 \<le> ch \<and> ch \<le> 0x39 \<or> 0x41 \<le> ch \<and> ch \<le> 0x46 \<or> 0x61 \<le> ch \<and> ch \<le> 0x66"

text \<open>
  The loop over the stream, with the buffer and its size: the syntax error and the buffer. The result of \<open>realloc\<close> is not tested.
\<close>

fun read_hex_loop ::
  "answers \<Rightarrow> u8 list \<Rightarrow> (nat \<times> u8 list) option \<Rightarrow> nat \<Rightarrow> ossl_mem \<Rightarrow> (bool \<times> (nat \<times> u8 list) option \<times> ossl_mem) ub" where
  "read_hex_loop ans [] buf bufsize s = Some (False, buf, s)"
| "read_hex_loop ans (ch # bs) buf bufsize s =
     (if c_isspace ch then Some (False, buf, s)
      else if \<not> hex_or_nul ch then Some (True, buf, s)
      else (let hex = (case buf of None \<Rightarrow> [] | Some (_, hex) \<Rightarrow> hex) in
            if length hex + 1 \<ge> bufsize
            then (case buf of
                    None \<Rightarrow> (case onew ans R_buf s of
                               (None, s) \<Rightarrow> None
                             | (Some b, s) \<Rightarrow> read_hex_loop ans bs (Some (b, hex @ [ch])) (bufsize + 1024) s)
                  | Some (b, _) \<Rightarrow>
                      (if ans (om_time s) = 0 then None
                       else read_hex_loop ans bs (Some (b, hex @ [ch])) (bufsize + 1024) (s\<lparr>om_time := om_time s + 1\<rparr>)))
            else read_hex_loop ans bs (map_option (\<lambda>(b, _). (b, hex @ [ch])) buf) bufsize s))"

definition read_hex_fp :: "answers \<Rightarrow> (u8 list option \<Rightarrow> ossl_mem \<Rightarrow> ('k pkey option \<times> ossl_mem) ub) \<Rightarrow> u8 list \<Rightarrow> ossl_mem \<Rightarrow> ('k pkey option \<times> ossl_mem) ub" where
  "read_hex_fp ans read_str bs s =
     do { (syntax_error, buf, s) \<leftarrow> read_hex_loop ans bs None 0 s;
          (pkey, s) \<leftarrow> (if syntax_error then Some (None, s) else read_str (map_option (\<lambda>(_, hex). hex @ [0]) buf) s);
          s \<leftarrow> ofree R_buf (map_option fst buf) s;
          Some (pkey, s) }"

definition cf_read_public_key_hex_fp :: "answers \<Rightarrow> 'k keylib \<Rightarrow> u8 list \<Rightarrow> ossl_mem \<Rightarrow> ('k pkey option \<times> ossl_mem) ub" where
  "cf_read_public_key_hex_fp ans L = read_hex_fp ans (cf_read_public_key_hex_str ans L)"

definition cf_read_private_key_hex_fp :: "answers \<Rightarrow> 'k keylib \<Rightarrow> u8 list \<Rightarrow> ossl_mem \<Rightarrow> ('k pkey option \<times> ossl_mem) ub" where
  "cf_read_private_key_hex_fp ans L = read_hex_fp ans (cf_read_private_key_hex_str ans L)"

text \<open>Opening a file around a writer or a reader; the reader gets the bytes of the stream.\<close>

definition write_file :: "answers \<Rightarrow> string option \<Rightarrow> (stream \<Rightarrow> ossl_mem \<Rightarrow> (bool \<times> ossl_mem) ub) \<Rightarrow> ossl_mem \<Rightarrow> (bool \<times> ossl_mem) ub" where
  "write_file ans fname write s =
     (case cf_getfp ans fname ''w'' s of
        (None, fok, s) \<Rightarrow> Some (fok, s)
      | (Some fp, _, s) \<Rightarrow> do { (fok, s) \<leftarrow> write fp s; s \<leftarrow> cf_closefp (Some fp) s; Some (fok, s) })"

definition read_file :: "answers \<Rightarrow> string option \<Rightarrow> (u8 list \<Rightarrow> ossl_mem \<Rightarrow> ('r option \<times> ossl_mem) ub) \<Rightarrow> ossl_mem \<Rightarrow> ('r option \<times> ossl_mem) ub" where
  "read_file ans fname read s =
     (case cf_getfp ans fname ''r'' s of
        (None, _, s) \<Rightarrow> Some (None, s)
      | (Some fp, _, s) \<Rightarrow> do { (r, s) \<leftarrow> read (fcontent fp s) s; s \<leftarrow> cf_closefp (Some fp) s; Some (r, s) })"

definition then_newline :: "answers \<Rightarrow> (stream \<Rightarrow> ossl_mem \<Rightarrow> (bool \<times> ossl_mem) ub) \<Rightarrow> stream \<Rightarrow> ossl_mem \<Rightarrow> (bool \<times> ossl_mem) ub" where
  "then_newline ans write fp s =
     do { (fok, s) \<leftarrow> write fp s;
          Some (fok, if \<not> fok then s
                     else if ans (om_time s) = 0 then s\<lparr>om_time := om_time s + 1\<rparr>
                     else fput [10] fp (s\<lparr>om_time := om_time s + 1\<rparr>)) }"

definition cf_write_public_key_hex :: "answers \<Rightarrow> 'k keylib \<Rightarrow> 'k pkey option \<Rightarrow> string option \<Rightarrow> ossl_mem \<Rightarrow> (bool \<times> ossl_mem) ub" where
  "cf_write_public_key_hex ans L pkey filename s =
     (if pkey = None then Some (False, s) else write_file ans filename (then_newline ans (cf_write_public_key_hex_fp ans L pkey)) s)"

definition cf_write_private_key_hex :: "answers \<Rightarrow> 'k keylib \<Rightarrow> 'k pkey option \<Rightarrow> string option \<Rightarrow> ossl_mem \<Rightarrow> (bool \<times> ossl_mem) ub" where
  "cf_write_private_key_hex ans L pkey fname s =
     (if pkey = None then Some (False, s) else write_file ans fname (then_newline ans (cf_write_private_key_hex_fp ans L pkey)) s)"

definition cf_read_public_key_hex :: "answers \<Rightarrow> 'k keylib \<Rightarrow> string option \<Rightarrow> ossl_mem \<Rightarrow> ('k pkey option \<times> ossl_mem) ub" where
  "cf_read_public_key_hex ans L fname = read_file ans fname (cf_read_public_key_hex_fp ans L)"

definition cf_read_private_key_hex :: "answers \<Rightarrow> 'k keylib \<Rightarrow> string option \<Rightarrow> ossl_mem \<Rightarrow> ('k pkey option \<times> ossl_mem) ub" where
  "cf_read_private_key_hex ans L fname = read_file ans fname (cf_read_private_key_hex_fp ans L)"

text \<open>PEM files.\<close>

definition put_pem :: "u8 list option \<Rightarrow> stream \<Rightarrow> ossl_mem \<Rightarrow> bool \<times> ossl_mem" where
  "put_pem out fp s = (case out of None \<Rightarrow> (False, s) | Some bs \<Rightarrow> (True, fput bs fp s))"

definition cf_write_pem_public_key_fp :: "'k keylib \<Rightarrow> 'k pkey \<Rightarrow> stream \<Rightarrow> ossl_mem \<Rightarrow> bool \<times> ossl_mem" where
  "cf_write_pem_public_key_fp L pkey = put_pem (pem_PUBKEY L (snd pkey))"

definition cf_write_pem_private_key_enc_fp :: "'k keylib \<Rightarrow> 'k pkey \<Rightarrow> string option \<Rightarrow> string option \<Rightarrow> stream \<Rightarrow> ossl_mem \<Rightarrow> bool \<times> ossl_mem" where
  "cf_write_pem_private_key_enc_fp L pkey enc_name psw fp s =
     (case psw of
        None \<Rightarrow> if enc_name \<noteq> None then (False, s) else put_pem (pem_PrivateKey L (snd pkey) None None) fp s
      | Some p \<Rightarrow>
          (case cf_cipher_by_name L (case enc_name of None \<Rightarrow> Some ''dstu28147-cfb'' | Some e \<Rightarrow> Some e) of
             None \<Rightarrow> (False, s)
           | Some enc \<Rightarrow> put_pem (pem_PrivateKey L (snd pkey) (Some enc) psw) fp s))"

definition cf_write_pem_private_key_fp :: "'k keylib \<Rightarrow> 'k pkey \<Rightarrow> stream \<Rightarrow> ossl_mem \<Rightarrow> bool \<times> ossl_mem" where
  "cf_write_pem_private_key_fp L pkey = cf_write_pem_private_key_enc_fp L pkey None None"

text \<open>A key that is allocated first and filled by the decoder, or released again.\<close>

definition fill_key :: "answers \<Rightarrow> 'k option \<Rightarrow> ossl_mem \<Rightarrow> ('k pkey option \<times> ossl_mem) ub" where
  "fill_key ans k s =
     (case onew ans R_key s of
        (None, s) \<Rightarrow> Some (None, s)
      | (Some key, s) \<Rightarrow>
          (case k of
             None \<Rightarrow> do { s \<leftarrow> ofree R_key (Some key) s; Some (None, s) }
           | Some k \<Rightarrow> Some (Some (key, k), s)))"

definition cf_read_pem_public_key_fp :: "answers \<Rightarrow> 'k keylib \<Rightarrow> u8 list \<Rightarrow> ossl_mem \<Rightarrow> ('k pkey option \<times> ossl_mem) ub" where
  "cf_read_pem_public_key_fp ans L bs = fill_key ans (read_pem_PUBKEY L bs)"

definition cf_read_pem_private_key_enc_fp :: "answers \<Rightarrow> 'k keylib \<Rightarrow> string option \<Rightarrow> u8 list \<Rightarrow> ossl_mem \<Rightarrow> ('k pkey option \<times> ossl_mem) ub" where
  "cf_read_pem_private_key_enc_fp ans L psw bs = fill_key ans (read_pem_PrivateKey L psw bs)"

definition cf_read_pem_private_key_fp :: "answers \<Rightarrow> 'k keylib \<Rightarrow> u8 list \<Rightarrow> ossl_mem \<Rightarrow> ('k pkey option \<times> ossl_mem) ub" where
  "cf_read_pem_private_key_fp ans L = cf_read_pem_private_key_enc_fp ans L None"

definition cf_write_pem_public_key :: "answers \<Rightarrow> 'k keylib \<Rightarrow> 'k pkey \<Rightarrow> string option \<Rightarrow> ossl_mem \<Rightarrow> (bool \<times> ossl_mem) ub" where
  "cf_write_pem_public_key ans L pkey fname = write_file ans fname (\<lambda>fp s. Some (cf_write_pem_public_key_fp L pkey fp s))"

definition cf_read_pem_public_key :: "answers \<Rightarrow> 'k keylib \<Rightarrow> string option \<Rightarrow> ossl_mem \<Rightarrow> ('k pkey option \<times> ossl_mem) ub" where
  "cf_read_pem_public_key ans L fname = read_file ans fname (cf_read_pem_public_key_fp ans L)"

definition cf_write_pem_private_key_enc ::
  "answers \<Rightarrow> 'k keylib \<Rightarrow> 'k pkey \<Rightarrow> string option \<Rightarrow> string option \<Rightarrow> string option \<Rightarrow> ossl_mem \<Rightarrow> (bool \<times> ossl_mem) ub" where
  "cf_write_pem_private_key_enc ans L pkey fname enc psw =
     write_file ans fname (\<lambda>fp s. Some (cf_write_pem_private_key_enc_fp L pkey enc psw fp s))"

definition cf_read_pem_private_key_enc :: "answers \<Rightarrow> 'k keylib \<Rightarrow> string option \<Rightarrow> string option \<Rightarrow> ossl_mem \<Rightarrow> ('k pkey option \<times> ossl_mem) ub" where
  "cf_read_pem_private_key_enc ans L fname psw = read_file ans fname (\<lambda>bs s. Some (new_obj ans R_key (read_pem_PrivateKey L psw bs) s))"

definition cf_write_pem_private_key :: "answers \<Rightarrow> 'k keylib \<Rightarrow> 'k pkey \<Rightarrow> string option \<Rightarrow> ossl_mem \<Rightarrow> (bool \<times> ossl_mem) ub" where
  "cf_write_pem_private_key ans L pkey filename = cf_write_pem_private_key_enc ans L pkey filename None None"

definition cf_read_pem_private_key :: "answers \<Rightarrow> 'k keylib \<Rightarrow> string option \<Rightarrow> ossl_mem \<Rightarrow> ('k pkey option \<times> ossl_mem) ub" where
  "cf_read_pem_private_key ans L filename = cf_read_pem_private_key_enc ans L filename None"

section \<open>Key generation\<close>

text \<open>The tokens that \<open>strtok\<close> gives, and the split of a token at its first colon behind the first character.\<close>

definition key_delim :: "char \<Rightarrow> bool" where
  "key_delim c \<longleftrightarrow> c = CHR '' '' \<or> c = CHR 0x09 \<or> c = CHR 0x0A"

lemma token_shorter: "t \<noteq> [] \<Longrightarrow> \<not> key_delim (hd t) \<Longrightarrow> length (dropWhile (\<lambda>c. \<not> key_delim c) t) < length t"
  by (cases t) (auto simp: less_Suc_eq_le length_dropWhile_le)

function tokens :: "string \<Rightarrow> string list" where
  "tokens s =
     (let s = dropWhile key_delim s in
      if s = [] then [] else takeWhile (\<lambda>c. \<not> key_delim c) s # tokens (dropWhile (\<lambda>c. \<not> key_delim c) s))"
  by pat_completeness auto
termination
proof (relation "measure length")
  fix s t :: string
  assume t: "t = dropWhile key_delim s" "t \<noteq> []"
  then have "length (dropWhile (\<lambda>c. \<not> key_delim c) t) < length t"
    using token_shorter hd_dropWhile by metis
  moreover have "length t \<le> length s" using t length_dropWhile_le by metis
  ultimately show "(dropWhile (\<lambda>c. \<not> key_delim c) t, s) \<in> measure length" by simp
qed simp

declare tokens.simps [simp del]

definition split_param :: "string \<Rightarrow> (string \<times> string) option" where
  "split_param p =
     (case p of
        [] \<Rightarrow> None
      | c # cs \<Rightarrow>
          if CHR '':'' \<in> set cs
          then Some (c # takeWhile (\<lambda>c. c \<noteq> CHR '':'') cs, tl (dropWhile (\<lambda>c. c \<noteq> CHR '':'') cs))
          else None)"

fun parse_params :: "string list \<Rightarrow> nat \<Rightarrow> (string \<times> string) list \<Rightarrow> (string \<times> string) list option" where
  "parse_params [] maxparams params = Some params"
| "parse_params (p # ps) maxparams params =
     (if length params < maxparams
      then (case split_param p of None \<Rightarrow> None | Some kv \<Rightarrow> parse_params ps maxparams (params @ [kv]))
      else None)"

text \<open>\<open>None\<close> is the value -1.\<close>

definition parsekeyparams :: "string \<Rightarrow> nat \<Rightarrow> (string \<times> string) list option" where
  "parsekeyparams s maxparams = parse_params (tokens s) maxparams []"

text \<open>The number of the key type, 0 when none is given; \<open>None\<close>: the name is not known. Only \<open>dsa\<close> is compared with regard to case.\<close>

definition key_type :: "'k keylib \<Rightarrow> string option \<Rightarrow> int option" where
  "key_type L ctype =
     (case ctype of
        None \<Rightarrow> Some 0
      | Some c \<Rightarrow>
          (let c = (if strcaseeq c ''rsa'' then ''rsaEncryption''
                    else if c = ''dsa'' then ''dsaEncryption''
                    else if strcaseeq c ''ec'' then ''id-ecPublicKey'' else c) in
           if OBJ_sn2nid L c \<noteq> 0 then Some (OBJ_sn2nid L c)
           else if OBJ_ln2nid L c \<noteq> 0 then Some (OBJ_ln2nid L c) else None))"

text \<open>The local variables of \<open>cf_pkey_new\<close>; a step returns \<open>False\<close> for a jump to the end.\<close>

record pkey_locals =
  pl_paramgen :: "nat option"
  pl_params :: "nat option"
  pl_keygen :: "nat option"
  pl_key :: "nat option"

type_synonym pkey_step = "pkey_locals \<times> ossl_mem \<Rightarrow> (bool \<times> pkey_locals \<times> ossl_mem) ub"

definition and_then :: "pkey_step \<Rightarrow> pkey_step \<Rightarrow> pkey_step" where
  "and_then f g x = do { (ok, l, s) \<leftarrow> f x; if ok then g (l, s) else Some (False, l, s) }"

definition call_new :: "answers \<Rightarrow> ossl_call \<Rightarrow> ores \<Rightarrow> (int \<Rightarrow> bool) \<Rightarrow> ossl_mem \<Rightarrow> nat option \<times> ossl_mem" where
  "call_new ans c k good s =
     (let (status, s') = call ans c s in
      if good status then (Some (om_time s), s'\<lparr>om_live := (k, om_time s) # om_live s'\<rparr>) else (None, s'))"

fun ctrl_all :: "answers \<Rightarrow> nat \<Rightarrow> (string \<times> string) list \<Rightarrow> ossl_mem \<Rightarrow> bool \<times> ossl_mem" where
  "ctrl_all ans ctx [] s = (True, s)"
| "ctrl_all ans ctx ((k, v) # ps) s =
     (case call ans (EVP_PKEY_CTX_ctrl_str ctx k v) s of
        (status, s) \<Rightarrow> if status \<le> 0 then (False, s) else ctrl_all ans ctx ps s)"

definition pk_open :: "answers \<Rightarrow> 'k keylib \<Rightarrow> int \<Rightarrow> 'k pkey option \<Rightarrow> pkey_step" where
  "pk_open ans L type pubkey = (\<lambda>(l, s).
     if (case pubkey of Some pk \<Rightarrow> type \<noteq> 0 \<and> type \<noteq> EVP_PKEY_id L (snd pk) | None \<Rightarrow> type = 0) then Some (False, l, s)
     else (case onew ans R_ctx s of (ctx, s) \<Rightarrow> Some (ctx \<noteq> None, l\<lparr>pl_paramgen := ctx\<rparr>, s)))"

definition pk_paramgen :: "answers \<Rightarrow> (string \<times> string) list \<Rightarrow> pkey_step" where
  "pk_paramgen ans ps = (\<lambda>(l, s).
     do { ctx \<leftarrow> pl_paramgen l;
          (case call ans (EVP_PKEY_paramgen_init ctx) s of
             (status, s) \<Rightarrow>
               if status = -2 then do { s \<leftarrow> ofree R_ctx (Some ctx) s; Some (True, l\<lparr>pl_paramgen := None\<rparr>, s) }
               else if status \<noteq> 1 then Some (False, l, s)
               else (case ctrl_all ans ctx ps s of
                       (False, s) \<Rightarrow> Some (False, l, s)
                     | (True, s) \<Rightarrow>
                         (case call_new ans (EVP_PKEY_paramgen ctx) R_key (\<lambda>st. st = 1) s of
                            (params, s) \<Rightarrow> Some (params \<noteq> None, l\<lparr>pl_params := params\<rparr>, s)))) })"

definition pk_keygen_ctx :: "answers \<Rightarrow> pkey_step" where
  "pk_keygen_ctx ans = (\<lambda>(l, s). case onew ans R_ctx s of (ctx, s) \<Rightarrow> Some (ctx \<noteq> None, l\<lparr>pl_keygen := ctx\<rparr>, s))"

definition pk_keygen :: "answers \<Rightarrow> (string \<times> string) list \<Rightarrow> pkey_step" where
  "pk_keygen ans ps = (\<lambda>(l, s).
     do { ctx \<leftarrow> pl_keygen l;
          (case call ans (EVP_PKEY_keygen_init ctx) s of
             (status, s) \<Rightarrow>
               if status \<le> 0 then Some (False, l, s)
               else (case (if pl_params l = None then ctrl_all ans ctx ps s else (True, s)) of
                       (False, s) \<Rightarrow> Some (False, l, s)
                     | (True, s) \<Rightarrow>
                         (case call_new ans (EVP_PKEY_keygen ctx) R_key (\<lambda>st. 0 < st) s of
                            (key, s) \<Rightarrow> Some (key \<noteq> None, l\<lparr>pl_key := key\<rparr>, s)))) })"

definition pk_params :: "string option \<Rightarrow> ((string \<times> string) list \<Rightarrow> pkey_step) \<Rightarrow> pkey_step" where
  "pk_params params rest = (\<lambda>(l, s).
     case (case params of None \<Rightarrow> Some [] | Some p \<Rightarrow> parsekeyparams p 128) of
       None \<Rightarrow> Some (False, l, s)
     | Some ps \<Rightarrow> rest ps (l, s))"

definition pk_cleanup :: "bool \<Rightarrow> pkey_locals \<Rightarrow> ossl_mem \<Rightarrow> (nat option \<times> ossl_mem) ub" where
  "pk_cleanup fok l s =
     do { s \<leftarrow> ofree R_ctx (pl_keygen l) s;
          s \<leftarrow> ofree R_ctx (pl_paramgen l) s;
          s \<leftarrow> ofree R_key (pl_params l) s;
          if fok then Some (pl_key l, s) else do { s \<leftarrow> ofree R_key (pl_key l) s; Some (None, s) } }"

definition cf_pkey_new :: "answers \<Rightarrow> 'k keylib \<Rightarrow> string option \<Rightarrow> string option \<Rightarrow> 'k pkey option \<Rightarrow> ossl_mem \<Rightarrow> ('k pkey option \<times> ossl_mem) ub" where
  "cf_pkey_new ans L ctype params pubkey s =
     (case key_type L ctype of
        None \<Rightarrow> Some (None, s)
      | Some type \<Rightarrow>
          do { (fok, l, s) \<leftarrow> and_then (pk_open ans L type pubkey)
                 (pk_params params (\<lambda>ps. and_then (pk_paramgen ans ps) (and_then (pk_keygen_ctx ans) (pk_keygen ans ps))))
                 (\<lparr>pl_paramgen = None, pl_params = None, pl_keygen = None, pl_key = None\<rparr>, s);
               (key, s) \<leftarrow> pk_cleanup fok l s;
               Some (map_option (\<lambda>i. (i, generated_key L (om_trace s) i)) key, s) })"

section \<open>Objects are released\<close>

lemma copy_out_adds: "copy_out ans bytes t s = (r, s') \<Longrightarrow> om_live s' = obj R_buf (map_option fst r) @ om_live s"
  by (auto simp: copy_out_def dest!: onew_adds split: if_splits prod.splits option.splits)

lemma write_mem_adds: "\<exists>r s'. write_mem ans out t s = Some (r, s') \<and> om_live s' = obj R_buf (map_option fst r) @ om_live s"
  by (auto simp: write_mem_def obj_def dest!: onew_adds copy_out_adds split: prod.splits option.splits)

lemma new_obj_adds: "new_obj ans kind k s = (r, s') \<Longrightarrow> om_live s' = obj kind (map_option fst r) @ om_live s"
  by (auto simp: new_obj_def dest!: onew_adds split: prod.splits option.splits)

lemma read_mem_adds: "kind \<noteq> R_bio \<Longrightarrow> \<exists>r s'. read_mem ans kind k s = Some (r, s') \<and> om_live s' = obj kind (map_option fst r) @ om_live s"
  by (auto simp: read_mem_def obj_def dest!: onew_adds new_obj_adds split: prod.splits option.splits)

text \<open>
  An outcome is defined, and the objects it leaves behind are the old ones and the one it returns.
\<close>

definition owns :: "ores \<Rightarrow> ((nat \<times> 'a) option \<times> ossl_mem) ub \<Rightarrow> ossl_mem \<Rightarrow> bool" where
  "owns k out s \<longleftrightarrow> (\<exists>r s'. out = Some (r, s') \<and> om_live s' = obj k (map_option fst r) @ om_live s)"

lemma obj_ownsI: "out = Some (r, s') \<Longrightarrow> om_live s' = obj k (map_option fst r) @ om_live s \<Longrightarrow> owns k out s"
  by (auto simp: owns_def)

lemma obj_ownsE:
  assumes "owns k out s"
  obtains r s' where "out = Some (r, s')" "om_live s' = obj k (map_option fst r) @ om_live s"
  using assms by (auto simp: owns_def)

lemma write_mem_owns: "owns R_buf (write_mem ans out t s) s"
  using write_mem_adds [of ans out t s] by (auto simp: owns_def)

lemma read_mem_owns: "kind \<noteq> R_bio \<Longrightarrow> owns kind (read_mem ans kind k s) s"
  using read_mem_adds [of kind ans k s] by (auto simp: owns_def)

lemma fill_key_adds: "fill_key ans k s = Some (r, s') \<Longrightarrow> om_live s' = obj R_key (map_option fst r) @ om_live s"
  by (auto simp: fill_key_def dest!: onew_adds split: prod.splits option.splits)

lemma fill_key_owns: "owns R_key (fill_key ans k s) s"
  by (auto simp: owns_def fill_key_def dest!: onew_adds split: prod.splits option.splits)

lemma as_int_small: "n < 2 ^ 30 \<Longrightarrow> as_int n = int n"
  using signed_take_bit_int_eq_self [of 31 "int n"] by (simp add: as_int_def signed_of_nat)

lemma hex_of_bits_owns:
  assumes "om_live s = obj R_buf (map_option fst bits) @ om_live s0" "\<forall>b bs. bits = Some (b, bs) \<longrightarrow> length bs < 2 ^ 30"
  shows "owns R_buf (hex_of_bits ans bits s) s0"
  using assms
  by (auto simp: owns_def hex_of_bits_def Let_def as_int_small dest!: onew_adds split: prod.splits option.splits)

lemma bits_hex_owns:
  assumes "\<forall>bs. out = Some bs \<longrightarrow> length bs < 2 ^ 30"
  shows "owns R_buf (do { (bits, s) \<leftarrow> write_mem ans out [] s; hex_of_bits ans bits s }) s"
proof -
  obtain r s1 where w: "write_mem ans out [] s = Some (r, s1)" "om_live s1 = obj R_buf (map_option fst r) @ om_live s"
    using write_mem_owns by (rule obj_ownsE)
  have "length bs < 2 ^ 30" if "r = Some (b, bs)" for b bs
    using w(1) that assms by (auto simp: write_mem_def copy_out_def bind_eq_Some_conv split: prod.splits option.splits if_splits)
  then show ?thesis using w(1) hex_of_bits_owns [OF w(2), of ans] by auto
qed

lemma read_hex_str_owns:
  assumes "\<And>bs s. owns R_key (read_bits bs s) s" "read_hex_str read_bits hex s = Some (r, s')"
  shows "om_live s' = obj R_key (map_option fst r) @ om_live s"
proof -
  have "read_bits bs s = Some (r, s') \<Longrightarrow> ?thesis" for bs
    using assms(1) [of bs s] by (auto simp: owns_def)
  then show ?thesis
    using assms(2) by (auto simp: read_hex_str_def bind_eq_Some_conv split: option.splits if_splits)
qed

lemma read_hex_loop_owns:
  assumes "read_hex_loop ans bs buf n s = Some (e, buf', s')" "om_live s = obj R_buf (map_option fst buf) @ l"
  shows "om_live s' = obj R_buf (map_option fst buf') @ l"
  using assms
proof (induction ans bs buf n s rule: read_hex_loop.induct)
  case (2 ans ch bs buf n s)
  show ?case
  proof (cases "c_isspace ch \<or> \<not> hex_or_nul ch")
    case True
    then show ?thesis using 2 by (auto split: if_splits)
  next
    case False
    show ?thesis
    proof (cases buf)
      case None
      then show ?thesis
        using False 2 by (fastforce simp: Let_def dest: onew_adds split: if_splits prod.splits option.splits)
    next
      case (Some b)
      then show ?thesis
        using False 2 by (cases b) (fastforce simp: Let_def split: if_splits)
    qed
  qed
qed simp

lemma read_hex_fp_owns:
  assumes "\<And>hex s r s'. read_str hex s = Some (r, s') \<Longrightarrow> om_live s' = obj R_key (map_option fst r) @ om_live s"
    and "read_hex_fp ans read_str bs s = Some (r, s')"
  shows "om_live s' = obj R_key (map_option fst r) @ om_live s"
proof -
  obtain e buf s1 s2 where l: "read_hex_loop ans bs None 0 s = Some (e, buf, s1)"
    and r: "(if e then Some (None, s1) else read_str (map_option (\<lambda>(_, hex). hex @ [0]) buf) s1) = Some (r, s2)"
    and f: "ofree R_buf (map_option fst buf) s2 = Some s'"
    using assms(2) by (auto simp: read_hex_fp_def bind_eq_Some_conv)
  have "om_live s1 = obj R_buf (map_option fst buf) @ om_live s"
    using read_hex_loop_owns [OF l] by simp
  moreover have "om_live s2 = obj R_key (map_option fst r) @ om_live s1"
    using r assms(1) by (auto split: if_splits)
  ultimately show ?thesis using f by (cases buf; cases r) (auto simp: ofree_def)
qed

lemma write_file_owns:
  assumes "\<And>fp s. \<exists>ok s'. write fp s = Some (ok, s') \<and> om_live s' = om_live s"
  shows "\<exists>ok s'. write_file ans fname write s = Some (ok, s') \<and> om_live s' = om_live s"
proof (cases "cf_getfp ans fname ''w'' s")
  case (fields fp fok s1)
  show ?thesis
  proof (cases fp)
    case None
    then show ?thesis using fields cf_getfp_adds(1) [OF fields] by (simp add: write_file_def fp_obj_def)
  next
    case (Some x)
    obtain ok s2 where w: "write x s1 = Some (ok, s2)" "om_live s2 = om_live s1" using assms by blast
    obtain s3 where "cf_closefp (Some x) s2 = Some s3" "om_live s3 = om_live s"
      using cf_closefp_adds [of s2 fp "om_live s"] w(2) cf_getfp_adds(1) [OF fields] Some by auto
    then show ?thesis using fields w Some by (simp add: write_file_def)
  qed
qed

lemma read_file_owns:
  assumes "\<And>bs s r s'. read bs s = Some (r, s') \<Longrightarrow> om_live s' = obj k (map_option f r) @ om_live s" "k \<noteq> R_file"
    and "read_file ans fname read s = Some (r, s')"
  shows "om_live s' = obj k (map_option f r) @ om_live s"
proof (cases "cf_getfp ans fname ''r'' s")
  case (fields fp fok s1)
  show ?thesis
  proof (cases fp)
    case None
    then show ?thesis using fields cf_getfp_adds(1) [OF fields] assms(3) by (simp add: read_file_def fp_obj_def)
  next
    case (Some x)
    then obtain s2 where r: "read (fcontent x s1) s1 = Some (r, s2)" "cf_closefp (Some x) s2 = Some s'"
      using fields assms(3) by (auto simp: read_file_def bind_eq_Some_conv)
    have "om_live s2 = obj k (map_option f r) @ fp_obj fp @ om_live s"
      using assms(1) [OF r(1)] cf_getfp_adds(1) [OF fields] by simp
    then show ?thesis using r(2) Some assms(2)
      by (cases r) (auto simp: cf_closefp_def fp_obj_def ofree_def split: stream.splits if_splits)
  qed
qed

section \<open>Steps of key generation\<close>

definition locals_live :: "pkey_locals \<Rightarrow> (ores \<times> nat) list" where
  "locals_live l = obj R_key (pl_key l) @ obj R_ctx (pl_keygen l) @ obj R_key (pl_params l) @ obj R_ctx (pl_paramgen l)"

text \<open>A step is defined from the states of its precondition, and the local variables own what it has allocated.\<close>

definition pk_step_ok :: "(pkey_locals \<Rightarrow> ossl_mem \<Rightarrow> bool) \<Rightarrow> pkey_step \<Rightarrow> (pkey_locals \<Rightarrow> ossl_mem \<Rightarrow> bool) \<Rightarrow> bool" where
  "pk_step_ok P f Q \<longleftrightarrow>
     (\<forall>l s live. P l s \<longrightarrow> om_live s = locals_live l @ live \<longrightarrow>
        (\<exists>ok l' s'. f (l, s) = Some (ok, l', s') \<and> om_live s' = locals_live l' @ live \<and> (ok \<longrightarrow> Q l' s')))"

lemma pk_step_okI:
  "(\<And>l s live. P l s \<Longrightarrow> om_live s = locals_live l @ live \<Longrightarrow>
     \<exists>ok l' s'. f (l, s) = Some (ok, l', s') \<and> om_live s' = locals_live l' @ live \<and> (ok \<longrightarrow> Q l' s')) \<Longrightarrow> pk_step_ok P f Q"
  by (simp add: pk_step_ok_def)

lemma pk_step_okD:
  assumes "pk_step_ok P f Q" "P l s" "om_live s = locals_live l @ live"
  obtains ok l' s' where "f (l, s) = Some (ok, l', s')" "om_live s' = locals_live l' @ live" "ok \<Longrightarrow> Q l' s'"
  using assms unfolding pk_step_ok_def by blast

lemma and_then_ok:
  assumes "pk_step_ok P f Q" "pk_step_ok Q g R"
  shows "pk_step_ok P (and_then f g) R"
proof (rule pk_step_okI)
  fix l s live
  assume a: "P l s" "om_live s = locals_live l @ live"
  obtain ok l1 s1 where f: "f (l, s) = Some (ok, l1, s1)" "om_live s1 = locals_live l1 @ live" "ok \<Longrightarrow> Q l1 s1"
    using pk_step_okD [OF assms(1) a] by metis
  show "\<exists>ok l' s'. and_then f g (l, s) = Some (ok, l', s') \<and> om_live s' = locals_live l' @ live \<and> (ok \<longrightarrow> R l' s')"
  proof (cases ok)
    case True
    obtain ok' l2 s2 where "g (l1, s1) = Some (ok', l2, s2)" "om_live s2 = locals_live l2 @ live" "ok' \<Longrightarrow> R l2 s2"
      using pk_step_okD [OF assms(2) f(3) [OF True] f(2)] by metis
    then show ?thesis using f(1) True by (auto simp: and_then_def)
  next
    case False
    then show ?thesis using f by (auto simp: and_then_def)
  qed
qed

definition ctrls :: "nat \<Rightarrow> (string \<times> string) list \<Rightarrow> ossl_call list" where
  "ctrls ctx ps = map (\<lambda>(k, v). EVP_PKEY_CTX_ctrl_str ctx k v) ps"

lemma ctrl_all_ok:
  assumes "ctrl_all ans ctx ps s = (ok, s')"
  shows "om_live s' = om_live s" "ok \<Longrightarrow> om_trace s' = om_trace s @ ctrls ctx ps"
  using assms by (induction ans ctx ps s rule: ctrl_all.induct) (auto simp: call_def ctrls_def split: if_splits)

text \<open>What has been called when a step has succeeded, from a trace \<open>t\<close> on.\<close>

definition opened :: "ossl_call list \<Rightarrow> pkey_locals \<Rightarrow> ossl_mem \<Rightarrow> bool" where
  "opened t l s \<longleftrightarrow> pl_paramgen l \<noteq> None \<and> pl_params l = None \<and> pl_keygen l = None \<and> pl_key l = None \<and> om_trace s = t"

definition params_made :: "(string \<times> string) list \<Rightarrow> ossl_call list \<Rightarrow> pkey_locals \<Rightarrow> ossl_mem \<Rightarrow> bool" where
  "params_made ps t l s \<longleftrightarrow> pl_key l = None \<and>
     (\<exists>c. om_trace s = t @ EVP_PKEY_paramgen_init c # (if pl_params l = None then [] else ctrls c ps @ [EVP_PKEY_paramgen c]))"

definition key_made :: "(string \<times> string) list \<Rightarrow> ossl_call list \<Rightarrow> ossl_call list \<Rightarrow> bool" where
  "key_made ps t t' \<longleftrightarrow> (\<exists>c d.
     t' = t @ EVP_PKEY_paramgen_init c # ctrls c ps @ [EVP_PKEY_paramgen c, EVP_PKEY_keygen_init d, EVP_PKEY_keygen d] \<or>
     t' = t @ [EVP_PKEY_paramgen_init c, EVP_PKEY_keygen_init d] @ ctrls d ps @ [EVP_PKEY_keygen d])"

lemma pk_open_ok:
  "pk_step_ok (\<lambda>l s. locals_live l = [] \<and> pl_params l = None \<and> pl_keygen l = None \<and> pl_key l = None \<and> om_trace s = t) (pk_open ans L type pubkey) (opened t)"
  by (rule pk_step_okI)
    (auto simp: pk_open_def locals_live_def opened_def dest!: onew_adds split: option.splits prod.splits)

lemma pk_paramgen_ok: "pk_step_ok (opened t) (pk_paramgen ans ps) (\<lambda>l s. params_made ps t l s \<and> pl_keygen l = None)"
proof (rule pk_step_okI)
  fix l s live
  assume a: "opened t l s" "om_live s = locals_live l @ live"
  then obtain ctx where ctx: "pl_paramgen l = Some ctx" and live: "om_live s = (R_ctx, ctx) # live"
    by (auto simp: opened_def locals_live_def)
  obtain st s1 where c: "call ans (EVP_PKEY_paramgen_init ctx) s = (st, s1)" by force
  then have s1: "om_live s1 = om_live s" "om_trace s1 = om_trace s @ [EVP_PKEY_paramgen_init ctx]"
    by (metis call_adds snd_conv)+
  obtain ok s2 where ctl: "ctrl_all ans ctx ps s1 = (ok, s2)" by force
  show "\<exists>ok l' s'. pk_paramgen ans ps (l, s) = Some (ok, l', s') \<and> om_live s' = locals_live l' @ live \<and>
      (ok \<longrightarrow> params_made ps t l' s' \<and> pl_keygen l' = None)"
    using a ctx live c s1 ctl ctrl_all_ok [OF ctl]
    by (cases "st = -2 \<or> st \<noteq> 1"; cases ok)
      (auto simp: pk_paramgen_def params_made_def opened_def locals_live_def call_new_def Let_def call_def split: if_splits)
qed

lemma pk_keygen_ctx_ok:
  "pk_step_ok (\<lambda>l s. params_made ps t l s \<and> pl_keygen l = None) (pk_keygen_ctx ans) (\<lambda>l s. params_made ps t l s \<and> pl_keygen l \<noteq> None)"
  by (rule pk_step_okI) (auto simp: pk_keygen_ctx_def params_made_def locals_live_def dest!: onew_adds split: prod.splits)

lemma pk_keygen_ok:
  "pk_step_ok (\<lambda>l s. params_made ps t l s \<and> pl_keygen l \<noteq> None) (pk_keygen ans ps) (\<lambda>l s. key_made ps t (om_trace s) \<and> pl_key l \<noteq> None)"
proof (rule pk_step_okI)
  fix l s live
  assume a: "params_made ps t l s \<and> pl_keygen l \<noteq> None" "om_live s = locals_live l @ live"
  then obtain ctx where ctx: "pl_keygen l = Some ctx" by blast
  obtain st s1 where c: "call ans (EVP_PKEY_keygen_init ctx) s = (st, s1)" by force
  then have s1: "om_live s1 = om_live s" "om_trace s1 = om_trace s @ [EVP_PKEY_keygen_init ctx]"
    by (metis call_adds snd_conv)+
  obtain ok s2 where ctl: "(if pl_params l = None then ctrl_all ans ctx ps s1 else (True, s1)) = (ok, s2)" by force
  then have s2: "om_live s2 = om_live s" "ok \<Longrightarrow> om_trace s2 = om_trace s1 @ (if pl_params l = None then ctrls ctx ps else [])"
    using s1(1) ctrl_all_ok by (auto split: if_splits)
  obtain key s3 where n: "call_new ans (EVP_PKEY_keygen ctx) R_key (\<lambda>st. 0 < st) s2 = (key, s3)" by force
  then have s3: "om_live s3 = obj R_key key @ om_live s" "om_trace s3 = om_trace s2 @ [EVP_PKEY_keygen ctx]"
    using s2(1) by (auto simp: call_new_def call_def Let_def split: if_splits)
  obtain c where "om_trace s = t @ EVP_PKEY_paramgen_init c # (if pl_params l = None then [] else ctrls c ps @ [EVP_PKEY_paramgen c])"
    using a by (auto simp: params_made_def)
  then have "key_made ps t (om_trace s3)" if ok
    unfolding key_made_def using s3(2) s2(2) [OF that] s1(2) by (intro exI [of _ c] exI [of _ ctx]) (cases "pl_params l = None"; simp)
  then show "\<exists>ok l' s'. pk_keygen ans ps (l, s) = Some (ok, l', s') \<and> om_live s' = locals_live l' @ live \<and>
      (ok \<longrightarrow> key_made ps t (om_trace s') \<and> pl_key l' \<noteq> None)"
    using a ctx c s1(1) s2(1) s3(1) ctl n by (cases ok) (auto simp: pk_keygen_def params_made_def locals_live_def)
qed

lemma pk_cleanup_ok:
  assumes "om_live s = locals_live l @ live"
  shows "\<exists>s'. pk_cleanup fok l s = Some (if fok then pl_key l else None, s') \<and>
    om_live s' = (if fok then obj R_key (pl_key l) else []) @ live \<and> om_trace s' = om_trace s"
  using assms
  by (cases "pl_key l"; cases "pl_keygen l"; cases "pl_params l"; cases "pl_paramgen l") (auto simp: pk_cleanup_def locals_live_def)

lemma pk_params_ok:
  assumes "\<And>ps. (case params of None \<Rightarrow> Some [] | Some p \<Rightarrow> parsekeyparams p 128) = Some ps \<Longrightarrow> pk_step_ok P (rest ps) Q"
  shows "pk_step_ok P (pk_params params rest) Q"
proof (cases "case params of None \<Rightarrow> Some [] | Some p \<Rightarrow> parsekeyparams p 128")
  case None
  then show ?thesis by (auto simp: pk_params_def pk_step_ok_def)
next
  case (Some ps)
  then have "pk_params params rest = rest ps" by (auto simp: pk_params_def)
  then show ?thesis using assms [OF Some] by simp
qed

lemma cf_pkey_new_ok:
  shows "\<exists>r s'. cf_pkey_new ans L ctype params pubkey s = Some (r, s') \<and> om_live s' = obj R_key (map_option fst r) @ om_live s \<and>
    (r \<noteq> None \<longrightarrow> (\<exists>ps. (case params of None \<Rightarrow> Some [] | Some p \<Rightarrow> parsekeyparams p 128) = Some ps \<and> key_made ps (om_trace s) (om_trace s')))"
proof (cases "key_type L ctype")
  case None
  then show ?thesis by (simp add: cf_pkey_new_def)
next
  case (Some type)
  let ?pars = "case params of None \<Rightarrow> Some [] | Some p \<Rightarrow> parsekeyparams p 128"
  let ?rest = "\<lambda>ps. and_then (pk_paramgen ans ps) (and_then (pk_keygen_ctx ans) (pk_keygen ans ps))"
  let ?Q = "\<lambda>l s'. (\<exists>ps. ?pars = Some ps \<and> key_made ps (om_trace s) (om_trace s')) \<and> pl_key l \<noteq> None"
  let ?l = "\<lparr>pl_paramgen = None, pl_params = None, pl_keygen = None, pl_key = None\<rparr>"
  have "pk_step_ok (opened (om_trace s)) (?rest ps) ?Q" if "?pars = Some ps" for ps
  proof -
    have "pk_step_ok (opened (om_trace s)) (?rest ps) (\<lambda>l s'. key_made ps (om_trace s) (om_trace s') \<and> pl_key l \<noteq> None)"
      by (rule and_then_ok [OF pk_paramgen_ok and_then_ok [OF pk_keygen_ctx_ok pk_keygen_ok]])
    then show ?thesis using that unfolding pk_step_ok_def by blast
  qed
  then have "pk_step_ok (opened (om_trace s)) (pk_params params ?rest) ?Q" by (rule pk_params_ok)
  from and_then_ok [OF pk_open_ok this]
  have all: "pk_step_ok (\<lambda>l s1. locals_live l = [] \<and> pl_params l = None \<and> pl_keygen l = None \<and> pl_key l = None \<and> om_trace s1 = om_trace s)
    (and_then (pk_open ans L type pubkey) (pk_params params ?rest)) ?Q" .
  obtain ok l s1 where b: "and_then (pk_open ans L type pubkey) (pk_params params ?rest) (?l, s) = Some (ok, l, s1)"
    "om_live s1 = locals_live l @ om_live s" "ok \<Longrightarrow> ?Q l s1"
    by (rule pk_step_okD [OF all, of ?l s "om_live s"]) (simp_all add: locals_live_def)
  show ?thesis
    using Some b pk_cleanup_ok [OF b(2), of ok] by (cases ok) (auto simp: cf_pkey_new_def)
qed

section \<open>Round trips\<close>

lemma hex_text_digits: "\<forall>h\<in>set (bits2hex_loop bs). h \<noteq> 0 \<and> \<not> c_isspace h \<and> hex_or_nul h"
proof (induction bs)
  case (Cons b bs)
  have "\<forall>n<16. hex_or_nul (hex_digits ! n)" by code_simp
  then show ?case
    using Cons hex_digit_facts [OF nibbles(1) [of b]] hex_digit_facts [OF nibbles(2) [of b]] nibbles(1,2) [of b] by simp
qed simp

lemma c_str_hex: "c_str (cf_bits2hex bs) = Some (bits2hex_loop bs)"
proof -
  have "takeWhile (\<lambda>b. b \<noteq> 0) (bits2hex_loop bs @ [0]) = bits2hex_loop bs"
    using hex_text_digits [of bs] by (simp add: takeWhile_tail)
  then show ?thesis by (simp add: c_str_def cf_bits2hex_def)
qed

lemma write_mem_ok:
  assumes "\<forall>n. ans n \<noteq> 0"
  shows "\<exists>b s'. write_mem ans (Some bytes) t s = Some (Some (b, bytes @ t), s') \<and> om_live s' = (R_buf, b) # om_live s \<and> om_files s' = om_files s"
  using assms by (simp add: write_mem_def onew_ok copy_out_def)

lemma hex_of_bits_ok:
  assumes "\<forall>n. ans n \<noteq> 0" "bs \<noteq> []" "length bs < 2 ^ 30" "om_live s = (R_buf, b) # l"
  shows "\<exists>h s'. hex_of_bits ans (Some (b, bs)) s = Some (Some (h, cf_bits2hex bs), s')"
  using assms by (simp add: hex_of_bits_def Let_def as_int_small onew_ok)

lemma read_hex_str_printed:
  assumes "bs \<noteq> []"
  shows "read_hex_str read_bits (Some (cf_bits2hex bs)) s = read_bits bs s"
proof -
  have "bits2hex_loop bs \<noteq> []" using assms by (cases bs) simp_all
  then show ?thesis
    using assms hex2bits_of_printed [of "[]" bs "[]" "length bs + 2"] by (simp add: read_hex_str_def c_str_hex)
qed

lemma hex_str_trip:
  assumes "\<forall>n. ans n \<noteq> 0" "bs \<noteq> []" "length bs < 2 ^ 30"
  shows "\<exists>h s'. (do { (bits, s) \<leftarrow> write_mem ans (Some bs) [] s; hex_of_bits ans bits s }) = Some (Some (h, cf_bits2hex bs), s')"
proof -
  obtain b s' where "write_mem ans (Some bs) [] s = Some (Some (b, bs), s')" "om_live s' = (R_buf, b) # om_live s"
    using write_mem_ok [OF assms(1), of bs "[]" s] by auto
  then show ?thesis using hex_of_bits_ok [OF assms, of s' b] by auto
qed

text \<open>The reader of files collects the digits in front of white space or of the end of the file.\<close>

lemma read_hex_loop_digits:
  assumes "\<forall>n. ans n \<noteq> 0" "\<forall>h\<in>set hex. \<not> c_isspace h \<and> hex_or_nul h" "\<forall>h\<in>set rest. c_isspace h"
    and "buf = None \<Longrightarrow> n = 0"
  shows "\<exists>buf' s'. read_hex_loop ans (hex @ rest) buf n s = Some (False, buf', s') \<and> om_files s' = om_files s \<and>
    (hex = [] \<longrightarrow> buf' = buf \<and> s' = s) \<and>
    (hex \<noteq> [] \<longrightarrow> (\<exists>b. buf' = Some (b, (case buf of None \<Rightarrow> [] | Some (_, x) \<Rightarrow> x) @ hex) \<and>
       om_live s' = (case buf of None \<Rightarrow> [(R_buf, b)] | Some (b', _) \<Rightarrow> if b' = b then [] else [(R_buf, 0)]) @ om_live s \<and>
       (buf \<noteq> None \<longrightarrow> map_option fst buf = Some b)))"
  using assms
proof (induction hex arbitrary: buf n s)
  case Nil
  then show ?case by (cases rest) auto
next
  case (Cons h hex)
  define x where "x = (case buf of None \<Rightarrow> [] | Some (_, x) \<Rightarrow> x)"
  obtain b n' s1 where step: "read_hex_loop ans ((h # hex) @ rest) buf n s = read_hex_loop ans (hex @ rest) (Some (b, x @ [h])) n' s1"
    and s1: "om_files s1 = om_files s" "om_live s1 = (case buf of None \<Rightarrow> [(R_buf, b)] | Some _ \<Rightarrow> []) @ om_live s"
      "buf \<noteq> None \<longrightarrow> map_option fst buf = Some b"
  proof (cases buf)
    case None
    then show thesis
      using that [of "om_time s" 1024 "s\<lparr>om_time := om_time s + 1, om_live := (R_buf, om_time s) # om_live s\<rparr>"] Cons.prems(1,2,4)
      by (simp add: x_def onew_ok Let_def)
  next
    case (Some y)
    then obtain b y' where y: "buf = Some (b, y')" by (cases y) auto
    show thesis
    proof (cases "length y' + 1 \<ge> n")
      case True
      then show thesis
        using that [of b "n + 1024" "s\<lparr>om_time := om_time s + 1\<rparr>"] Cons.prems(1,2) y by (simp add: x_def Let_def)
    next
      case False
      then show thesis using that [of b n s] Cons.prems(1,2) y by (simp add: x_def Let_def)
    qed
  qed
  from Cons.IH [of "Some (b, x @ [h])" n' s1] Cons.prems(1-3)
  obtain buf' s' where ih: "read_hex_loop ans (hex @ rest) (Some (b, x @ [h])) n' s1 = Some (False, buf', s')"
    "om_files s' = om_files s1" "buf' = Some (b, x @ h # hex)" "om_live s' = om_live s1"
    by (cases "hex = []") auto
  then show ?case using step s1 by (cases buf) (auto simp: x_def split: prod.splits)
qed

definition plain_name :: "string \<Rightarrow> bool" where
  "plain_name f \<longleftrightarrow> f \<noteq> [] \<and> \<not> strcaseeq f ''stdin'' \<and> \<not> strcaseeq f ''stdout'' \<and> \<not> strcaseeq f ''stderr'' \<and> f \<noteq> ''/dev/null''"

lemma write_hex_file:
  assumes "\<forall>n. ans n \<noteq> 0" "plain_name f" "bs \<noteq> []" "length bs < 2 ^ 30"
  shows "\<exists>s'. write_file ans (Some f) (then_newline ans (\<lambda>fp s. do { (bits, s) \<leftarrow> write_mem ans (Some bs) [] s; write_hex_fp ans bits fp s })) s
      = Some (True, s') \<and> om_files s' f = Some (bits2hex_loop bs @ [10])"
proof -
  let ?i = "om_time s"
  let ?s1 = "s\<lparr>om_time := ?i + 1, om_live := (R_file, ?i) # om_live s, om_files := (om_files s)(f \<mapsto> [])\<rparr>"
  have g: "cf_getfp ans (Some f) ''w'' s = (Some (Opened ?i f), False, ?s1)"
    using assms(1,2) by (simp add: cf_getfp_def plain_name_def fopen_def onew_ok)
  obtain b s2 where w: "write_mem ans (Some bs) [] ?s1 = Some (Some (b, bs), s2)" "om_live s2 = (R_buf, b) # (R_file, ?i) # om_live s"
    "om_files s2 f = Some []"
    using write_mem_ok [OF assms(1), of bs "[]" ?s1] by auto
  then show ?thesis
    using assms g by (simp add: write_file_def then_newline_def write_hex_fp_def Let_def as_int_small fput_def fcontent_def cf_closefp_def)
qed

lemma read_hex_file:
  assumes "\<forall>n. ans n \<noteq> 0" "plain_name f" "bs \<noteq> []" "om_files s f = Some (bits2hex_loop bs @ [10])"
    and read_bits: "\<And>s. \<exists>i s'. read_bits bs s = Some (Some (i, k), s') \<and> om_live s' = (R_key, i) # om_live s"
  shows "\<exists>i s'. read_file ans (Some f) (read_hex_fp ans (read_hex_str read_bits)) s = Some (Some (i, k), s')"
proof -
  let ?i = "om_time s"
  let ?s1 = "s\<lparr>om_time := ?i + 1, om_live := (R_file, ?i) # om_live s\<rparr>"
  have g: "cf_getfp ans (Some f) ''r'' s = (Some (Opened ?i f), False, ?s1)"
    using assms(1,2,4) by (simp add: cf_getfp_def plain_name_def fopen_def onew_ok)
  have hex: "bits2hex_loop bs \<noteq> []" using assms(3) by (cases bs) simp_all
  obtain b s2 where l: "read_hex_loop ans (bits2hex_loop bs @ [10]) None 0 ?s1 = Some (False, Some (b, bits2hex_loop bs), s2)"
    "om_live s2 = (R_buf, b) # (R_file, ?i) # om_live s"
    using read_hex_loop_digits [OF assms(1), of "bits2hex_loop bs" "[10]" None 0 ?s1] hex_text_digits [of bs] hex
    by (auto simp: c_isspace_def)
  obtain i s3 where r: "read_bits bs s2 = Some (Some (i, k), s3)" "om_live s3 = (R_key, i) # om_live s2"
    using read_bits by blast
  have "read_hex_str read_bits (Some (bits2hex_loop bs @ [0])) s2 = Some (Some (i, k), s3)"
    using read_hex_str_printed [OF assms(3), of read_bits s2] r(1) by (simp add: cf_bits2hex_def)
  then show ?thesis
    using g l r(2) assms(4) by (simp add: read_file_def fcontent_def read_hex_fp_def cf_closefp_def)
qed

lemma read_mem_key:
  assumes "\<forall>n. ans n \<noteq> 0"
  shows "\<exists>i s'. read_mem ans R_key (Some k) s = Some (Some (i, k), s') \<and> om_live s' = (R_key, i) # om_live s"
  using assms by (simp add: read_mem_def onew_ok new_obj_def)

lemma public_key_str_trip:
  assumes "\<forall>n. ans n \<noteq> 0" "i2d_PUBKEY L k = Some bs" "d2i_PUBKEY L bs = Some k" "bs \<noteq> []" "length bs < 2 ^ 30"
  shows "\<exists>h hex s1 j s2. cf_write_public_key_hex_str ans L (Some (i, k)) s = Some (Some (h, hex), s1) \<and>
    cf_read_public_key_hex_str ans L (Some hex) s1 = Some (Some (j, k), s2)"
proof -
  obtain h s1 where "cf_write_public_key_hex_str ans L (Some (i, k)) s = Some (Some (h, cf_bits2hex bs), s1)"
    using hex_str_trip [OF assms(1,4,5), of s] assms(2) by (auto simp: cf_write_public_key_hex_str_def cf_write_public_key_bits_def)
  moreover have "\<exists>j s2. cf_read_public_key_hex_str ans L (Some (cf_bits2hex bs)) s1 = Some (Some (j, k), s2)"
    using read_mem_key [OF assms(1), of k s1] assms(3)
    by (auto simp: cf_read_public_key_hex_str_def read_hex_str_printed [OF assms(4)] cf_read_public_key_bits_def)
  ultimately show ?thesis by blast
qed

lemma public_key_file_trip:
  assumes "\<forall>n. ans n \<noteq> 0" "i2d_PUBKEY L k = Some bs" "d2i_PUBKEY L bs = Some k" "bs \<noteq> []" "length bs < 2 ^ 30" "plain_name f"
  shows "\<exists>s1 j s2. cf_write_public_key_hex ans L (Some (i, k)) (Some f) s = Some (True, s1) \<and>
    cf_read_public_key_hex ans L (Some f) s1 = Some (Some (j, k), s2)"
proof -
  obtain s1 where "cf_write_public_key_hex ans L (Some (i, k)) (Some f) s = Some (True, s1)" "om_files s1 f = Some (bits2hex_loop bs @ [10])"
    using write_hex_file [OF assms(1,6,4,5), of s] assms(2)
    by (auto simp: cf_write_public_key_hex_def cf_write_public_key_hex_fp_def [abs_def] cf_write_public_key_bits_def)
  moreover from this(2) have "\<exists>j s2. cf_read_public_key_hex ans L (Some f) s1 = Some (Some (j, k), s2)"
    using read_hex_file [OF assms(1,6,4), of s1 "cf_read_public_key_bits ans L" k] read_mem_key [OF assms(1), of k] assms(3)
    by (simp add: cf_read_public_key_hex_def cf_read_public_key_hex_fp_def cf_read_public_key_hex_str_def [abs_def] cf_read_public_key_bits_def)
  ultimately show ?thesis by blast
qed

lemma private_key_str_trip:
  assumes "\<forall>n. ans n \<noteq> 0" "i2d_PrivateKey L k = Some bs" "d2i_PrivateKey L bs = Some k" "bs \<noteq> []" "length bs < 2 ^ 30"
  shows "\<exists>h hex s1 j s2. cf_write_private_key_hex_str ans L (Some (i, k)) s = Some (Some (h, hex), s1) \<and>
    cf_read_private_key_hex_str ans L (Some hex) s1 = Some (Some (j, k), s2)"
proof -
  obtain h s1 where "cf_write_private_key_hex_str ans L (Some (i, k)) s = Some (Some (h, cf_bits2hex bs), s1)"
    using hex_str_trip [OF assms(1,4,5), of s] assms(2) by (auto simp: cf_write_private_key_hex_str_def cf_write_private_key_bits_def)
  moreover have "\<exists>j s2. cf_read_private_key_hex_str ans L (Some (cf_bits2hex bs)) s1 = Some (Some (j, k), s2)"
    using read_mem_key [OF assms(1), of k s1] assms(3)
    by (auto simp: cf_read_private_key_hex_str_def read_hex_str_printed [OF assms(4)] cf_read_private_key_bits_def)
  ultimately show ?thesis by blast
qed

lemma private_key_file_trip:
  assumes "\<forall>n. ans n \<noteq> 0" "i2d_PrivateKey L k = Some bs" "d2i_PrivateKey L bs = Some k" "bs \<noteq> []" "length bs < 2 ^ 30" "plain_name f"
  shows "\<exists>s1 j s2. cf_write_private_key_hex ans L (Some (i, k)) (Some f) s = Some (True, s1) \<and>
    cf_read_private_key_hex ans L (Some f) s1 = Some (Some (j, k), s2)"
proof -
  obtain s1 where "cf_write_private_key_hex ans L (Some (i, k)) (Some f) s = Some (True, s1)" "om_files s1 f = Some (bits2hex_loop bs @ [10])"
    using write_hex_file [OF assms(1,6,4,5), of s] assms(2)
    by (auto simp: cf_write_private_key_hex_def cf_write_private_key_hex_fp_def [abs_def] cf_write_private_key_bits_def)
  moreover from this(2) have "\<exists>j s2. cf_read_private_key_hex ans L (Some f) s1 = Some (Some (j, k), s2)"
    using read_hex_file [OF assms(1,6,4), of s1 "cf_read_private_key_bits ans L" k] read_mem_key [OF assms(1), of k] assms(3)
    by (simp add: cf_read_private_key_hex_def cf_read_private_key_hex_fp_def cf_read_private_key_hex_str_def [abs_def] cf_read_private_key_bits_def)
  ultimately show ?thesis by blast
qed

section \<open>Ownership in strings and files\<close>

lemma pem_public_str_owns: "owns R_key (cf_read_pem_public_key_str ans L (Some (str @ [0])) s) s"
  by (auto simp: owns_def cf_read_pem_public_key_str_def c_str_def dest!: onew_adds split: prod.splits option.splits)

lemma pem_private_str_owns: "owns R_key (cf_read_pem_private_key_str ans L (Some (str @ [0])) s) s"
  by (auto simp: cf_read_pem_private_key_str_def c_str_def intro: obj_ownsI read_mem_owns)

lemma read_key_files:
  "cf_read_public_key_hex ans L fname s = Some (r, s') \<Longrightarrow> om_live s' = obj R_key (map_option fst r) @ om_live s"
  "cf_read_private_key_hex ans L fname s = Some (r, s') \<Longrightarrow> om_live s' = obj R_key (map_option fst r) @ om_live s"
  unfolding cf_read_public_key_hex_def cf_read_private_key_hex_def cf_read_public_key_hex_fp_def cf_read_private_key_hex_fp_def
    cf_read_public_key_hex_str_def cf_read_private_key_hex_str_def cf_read_public_key_bits_def cf_read_private_key_bits_def
  by (erule read_file_owns [rotated 2], erule read_hex_fp_owns [rotated], erule read_hex_str_owns [rotated], rule read_mem_owns, simp, simp)+

lemma read_pem_files:
  "cf_read_pem_public_key ans L fname s = Some (r, s') \<Longrightarrow> om_live s' = obj R_key (map_option fst r) @ om_live s"
  "cf_read_pem_private_key_enc ans L fname psw s = Some (r, s') \<Longrightarrow> om_live s' = obj R_key (map_option fst r) @ om_live s"
proof -
  show "cf_read_pem_public_key ans L fname s = Some (r, s') \<Longrightarrow> om_live s' = obj R_key (map_option fst r) @ om_live s"
    unfolding cf_read_pem_public_key_def cf_read_pem_public_key_fp_def
    by (erule read_file_owns [rotated 2]) (use fill_key_adds in auto)
  show "cf_read_pem_private_key_enc ans L fname psw s = Some (r, s') \<Longrightarrow> om_live s' = obj R_key (map_option fst r) @ om_live s"
    unfolding cf_read_pem_private_key_enc_def
    by (erule read_file_owns [rotated 2]) (use new_obj_adds in auto)
qed

lemma write_hex_fp_owns:
  assumes "\<forall>bs. out = Some bs \<longrightarrow> length bs < 2 ^ 30"
  shows "\<exists>ok s'. (do { (bits, s) \<leftarrow> write_mem ans out [] s; write_hex_fp ans bits fp s }) = Some (ok, s') \<and> om_live s' = om_live s"
proof -
  obtain r s1 where w: "write_mem ans out [] s = Some (r, s1)" "om_live s1 = obj R_buf (map_option fst r) @ om_live s"
    using write_mem_owns by (rule obj_ownsE)
  have "length bs < 2 ^ 30" if "r = Some (b, bs)" for b bs
    using w(1) that assms by (auto simp: write_mem_def copy_out_def bind_eq_Some_conv split: prod.splits option.splits if_splits)
  then show ?thesis
    using w by (cases r) (auto simp: write_hex_fp_def Let_def as_int_small split: if_splits)
qed

lemma then_newline_owns:
  assumes "\<exists>ok s'. write fp s = Some (ok, s') \<and> om_live s' = om_live s"
  shows "\<exists>ok s'. then_newline ans write fp s = Some (ok, s') \<and> om_live s' = om_live s"
  using assms by (auto simp: then_newline_def)

lemma write_key_files:
  assumes "\<forall>k bs. i2d_PUBKEY L k = Some bs \<longrightarrow> length bs < 2 ^ 30" "\<forall>k bs. i2d_PrivateKey L k = Some bs \<longrightarrow> length bs < 2 ^ 30"
  shows "\<exists>ok s'. cf_write_public_key_hex ans L (Some key) fname s = Some (ok, s') \<and> om_live s' = om_live s"
    "\<exists>ok s'. cf_write_private_key_hex ans L (Some key) fname s = Some (ok, s') \<and> om_live s' = om_live s"
  unfolding cf_write_public_key_hex_def cf_write_private_key_hex_def cf_write_public_key_hex_fp_def [abs_def] cf_write_private_key_hex_fp_def [abs_def]
    cf_write_public_key_bits_def cf_write_private_key_bits_def
  using assms by (auto intro!: write_file_owns then_newline_owns write_hex_fp_owns)

lemma put_pem_live: "om_live (snd (put_pem out fp s)) = om_live s"
  by (simp add: put_pem_def split: option.split)

lemma write_pem_files:
  "\<exists>ok s'. cf_write_pem_public_key ans L key fname s = Some (ok, s') \<and> om_live s' = om_live s"
  "\<exists>ok s'. cf_write_pem_private_key_enc ans L key fname enc psw s = Some (ok, s') \<and> om_live s' = om_live s"
proof -
  have "om_live (snd (cf_write_pem_private_key_enc_fp L key enc psw fp s)) = om_live s" for fp s
    by (auto simp: cf_write_pem_private_key_enc_fp_def put_pem_live split: option.splits)
  then show "\<exists>ok s'. cf_write_pem_private_key_enc ans L key fname enc psw s = Some (ok, s') \<and> om_live s' = om_live s"
    unfolding cf_write_pem_private_key_enc_def by (intro write_file_owns) (metis option.inject prod.collapse)
  show "\<exists>ok s'. cf_write_pem_public_key ans L key fname s = Some (ok, s') \<and> om_live s' = om_live s"
    unfolding cf_write_pem_public_key_def cf_write_pem_public_key_fp_def
    by (intro write_file_owns) (metis option.inject prod.collapse put_pem_live)
qed

section \<open>Parameters\<close>

definition param_ok :: "string \<Rightarrow> string \<Rightarrow> bool" where
  "param_ok k v \<longleftrightarrow> k \<noteq> [] \<and> CHR '':'' \<notin> set (tl k) \<and> (\<forall>c\<in>set k \<union> set v. \<not> key_delim c)"

fun print_params :: "(string \<times> string) list \<Rightarrow> string list \<Rightarrow> string" where
  "print_params ((k, v) # ps) (w # ws) = k @ '':'' @ v @ w @ print_params ps ws"
| "print_params _ _ = []"

lemma key_delim_colon [simp]: "\<not> key_delim CHR '':''"
  by (simp add: key_delim_def)

lemma split_param_ok: "param_ok k v \<Longrightarrow> split_param (k @ '':'' @ v) = Some (k, v)"
proof (cases k)
  case (Cons c cs)
  assume ok: "param_ok k v"
  have "dropWhile (\<lambda>c. c \<noteq> CHR '':'') (cs @ CHR '':'' # v) = CHR '':'' # v" "takeWhile (\<lambda>c. c \<noteq> CHR '':'') (cs @ CHR '':'' # v) = cs"
    using ok Cons by (auto simp: param_ok_def intro!: dropWhile_all takeWhile_all)
  then show ?thesis using Cons by (simp add: split_param_def)
qed (simp add: param_ok_def)

lemma tokens_skip: "\<forall>c\<in>set w. key_delim c \<Longrightarrow> tokens (w @ s) = tokens s"
  by (subst (1 2) tokens.simps) (simp add: dropWhile_append2)

lemma tokens_token:
  assumes "p \<noteq> []" "\<forall>c\<in>set p. \<not> key_delim c" "s = [] \<or> key_delim (hd s)"
  shows "tokens (p @ s) = p # tokens s"
proof -
  have "takeWhile (\<lambda>c. \<not> key_delim c) (p @ s) = p" using assms(2,3) by (intro takeWhile_all) auto
  moreover have "dropWhile (\<lambda>c. \<not> key_delim c) (p @ s) = s" using assms(2,3) by (intro dropWhile_all) auto
  moreover have "dropWhile key_delim (p @ s) = p @ s" using assms(1,2) by (cases p) simp_all
  ultimately show ?thesis using assms(1) by (subst tokens.simps) simp
qed

lemma tokens_single: "p \<noteq> [] \<Longrightarrow> \<forall>c\<in>set p. \<not> key_delim c \<Longrightarrow> tokens p = [p]"
  using tokens_token [of p "[]"] by (simp add: tokens.simps [of "[]"])

lemma tokens_print:
  assumes "\<forall>(k, v)\<in>set ps. param_ok k v" "\<forall>w\<in>set ws. w \<noteq> [] \<and> (\<forall>c\<in>set w. key_delim c)" "length ws = length ps"
  shows "tokens (print_params ps ws @ s) = map (\<lambda>(k, v). k @ '':'' @ v) ps @ tokens s"
  using assms(3,1,2)
proof (induction ws ps rule: list_induct2)
  case (Cons w ws p ps)
  obtain k v where p: "p = (k, v)" by force
  have "tokens ((k @ '':'' @ v) @ w @ print_params ps ws @ s) = (k @ '':'' @ v) # tokens (w @ print_params ps ws @ s)"
    using Cons.prems p by (intro tokens_token) (auto simp: param_ok_def)
  then show ?case using Cons p tokens_skip [of w] by simp
qed simp

lemma parse_params_print:
  assumes "\<forall>(k, v)\<in>set ps. param_ok k v"
  shows "parse_params (map (\<lambda>(k, v). k @ '':'' @ v) ps @ rest) n acc =
    (if rest = [] then if length acc + length ps \<le> n \<or> ps = [] then Some (acc @ ps) else None
     else if length acc + length ps \<le> n \<or> ps = [] then parse_params rest n (acc @ ps) else None)"
  using assms
proof (induction ps arbitrary: acc)
  case (Cons p ps)
  obtain k v where p: "p = (k, v)" by force
  then show ?case using Cons split_param_ok [of k v] by auto
qed (auto split: list.splits)

section \<open>Properties\<close>

text \<open>C35. A key survives its hexadecimal form, as a string and in a file, in both the public and the private encoding, when no library call fails: reading
  gives a key with the content of the one that was written, whatever bytes the encodings have, provided that the decoder of the library inverts its encoder.\<close>

theorem key_hex_roundtrip:
  assumes "\<forall>n. ans n \<noteq> 0" "plain_name f"
    and "i2d_PUBKEY L k = Some pub" "d2i_PUBKEY L pub = Some k" "pub \<noteq> []" "length pub < 2 ^ 30"
    and "i2d_PrivateKey L k = Some priv" "d2i_PrivateKey L priv = Some k" "priv \<noteq> []" "length priv < 2 ^ 30"
  shows "(\<exists>h hex s1 j s2. cf_write_public_key_hex_str ans L (Some (i, k)) s = Some (Some (h, hex), s1) \<and>
      cf_read_public_key_hex_str ans L (Some hex) s1 = Some (Some (j, k), s2)) \<and>
    (\<exists>h hex s1 j s2. cf_write_private_key_hex_str ans L (Some (i, k)) s = Some (Some (h, hex), s1) \<and>
      cf_read_private_key_hex_str ans L (Some hex) s1 = Some (Some (j, k), s2)) \<and>
    (\<exists>s1 j s2. cf_write_public_key_hex ans L (Some (i, k)) (Some f) s = Some (True, s1) \<and>
      cf_read_public_key_hex ans L (Some f) s1 = Some (Some (j, k), s2)) \<and>
    (\<exists>s1 j s2. cf_write_private_key_hex ans L (Some (i, k)) (Some f) s = Some (True, s1) \<and>
      cf_read_private_key_hex ans L (Some f) s1 = Some (Some (j, k), s2))"
  using public_key_str_trip [OF assms(1,3-6)] private_key_str_trip [OF assms(1,7-10)] public_key_file_trip [OF assms(1,3-6,2)]
    private_key_file_trip [OF assms(1,7-10,2)] by blast


text \<open>Key generation succeeds only with well-formed parameters, and applies each of them once and in order: to the parameter generation if the key type has one, and
  else to the key generation.\<close>

theorem cf_pkey_new_applies_params:
  assumes "cf_pkey_new ans L ctype params pubkey s = Some (Some key, s')"
  shows "\<exists>ps c d. (case params of None \<Rightarrow> Some [] | Some p \<Rightarrow> parsekeyparams p 128) = Some ps \<and>
    (om_trace s' = om_trace s @ EVP_PKEY_paramgen_init c # ctrls c ps @ [EVP_PKEY_paramgen c, EVP_PKEY_keygen_init d, EVP_PKEY_keygen d] \<or>
     om_trace s' = om_trace s @ [EVP_PKEY_paramgen_init c, EVP_PKEY_keygen_init d] @ ctrls d ps @ [EVP_PKEY_keygen d])"
  using cf_pkey_new_ok [of ans L ctype params pubkey s] assms unfolding key_made_def by fastforce

text \<open>The parameters of a key are read back as they were written: names that are not empty, without white space and with no colon behind their first
  character, values without white space, separated by any white space, up to the number that fits; one more is refused, and so is a token without a colon.\<close>

theorem parsekeyparams_roundtrip:
  assumes "\<forall>(k, v)\<in>set ps. param_ok k v" "\<forall>w\<in>set ws. w \<noteq> [] \<and> (\<forall>c\<in>set w. key_delim c)" "length ws = length ps"
  shows "parsekeyparams (print_params ps ws) n = (if length ps \<le> n then Some ps else None) \<and>
    (length ps < n \<and> p \<noteq> [] \<and> (\<forall>c\<in>set p. \<not> key_delim c) \<and> CHR '':'' \<notin> set (tl p) \<longrightarrow> parsekeyparams (print_params ps ws @ p) n = None)"
proof
  show "parsekeyparams (print_params ps ws) n = (if length ps \<le> n then Some ps else None)"
    using tokens_print [OF assms, of "[]"] parse_params_print [OF assms(1), of "[]" n "[]"]
    by (simp add: parsekeyparams_def tokens.simps [of "[]"])
  show "length ps < n \<and> p \<noteq> [] \<and> (\<forall>c\<in>set p. \<not> key_delim c) \<and> CHR '':'' \<notin> set (tl p) \<longrightarrow> parsekeyparams (print_params ps ws @ p) n = None"
  proof
    assume p: "length ps < n \<and> p \<noteq> [] \<and> (\<forall>c\<in>set p. \<not> key_delim c) \<and> CHR '':'' \<notin> set (tl p)"
    then have "split_param p = None" by (cases p) (simp_all add: split_param_def)
    moreover have "tokens p = [p]" using p tokens_single by blast
    ultimately show "parsekeyparams (print_params ps ws @ p) n = None"
      using tokens_print [OF assms, of p] parse_params_print [OF assms(1), of "[p]" n "[]"] p by (simp add: parsekeyparams_def)
  qed
qed

text \<open>A byte 0 in a file of hexadecimal digits is taken as a digit and cuts the key: the digits behind it are read and forgotten.\<close>

lemma read_hex_nul:
  assumes "\<forall>n. ans n \<noteq> 0"
  shows "\<exists>s1 b s2. read_hex_loop ans [0x34, 0x31, 0, 0x34, 0x32] None 0 s = Some (False, Some (b, [0x34, 0x31, 0, 0x34, 0x32]), s1) \<and>
    read_hex_str read_bits (Some [0x34, 0x31, 0, 0x34, 0x32, 0]) s1 = read_bits [0x41] s1"
  using assms
  by (simp add: onew_ok c_isspace_def hex_or_nul_def Let_def read_hex_str_def c_str_def cf_hex2bits_def ctoh_def)

section \<open>Examples\<close>

text \<open>A library whose keys are their own encodings.\<close>

definition example_lib :: "u8 list keylib" where
  "example_lib = \<lparr>i2d_PUBKEY = (\<lambda>k. if length k < 16 then Some k else None), d2i_PUBKEY = Some, i2d_PrivateKey = (\<lambda>k. if length k < 16 then Some k else None), d2i_PrivateKey = Some,
     pem_PUBKEY = Some, read_pem_PUBKEY = Some, pem_PrivateKey = (\<lambda>k _ _. Some k), read_pem_PrivateKey = (\<lambda>_. Some),
     EVP_get_cipherbyname = (\<lambda>_. None), OBJ_sn2nid = (\<lambda>_. 0), OBJ_ln2nid = (\<lambda>n. if n = ''rsaEncryption'' then 6 else 0), EVP_PKEY_id = (\<lambda>_. 6),
     generated_key = (\<lambda>_ i. [of_nat i]), default_md = (\<lambda>_. Some 4)\<rparr>"

definition example_mem :: ossl_mem where
  "example_mem = \<lparr>om_time = 0, om_live = [], om_trace = [], om_files = Map.empty, om_stdin = [], om_stdout = [], om_stderr = []\<rparr>"

theorem key_hex_roundtrip_witness:
  "\<exists>s1 j s2. cf_write_private_key_hex (\<lambda>_. 1) example_lib (Some (0, [0xCA, 0xFE])) (Some ''key'') example_mem = Some (True, s1) \<and>
     cf_read_private_key_hex (\<lambda>_. 1) example_lib (Some ''key'') s1 = Some (Some (j, [0xCA, 0xFE]), s2)"
proof -
  have "plain_name ''key''" by code_simp
  then show ?thesis
    using key_hex_roundtrip [of "\<lambda>_. 1" "''key''" example_lib "[0xCA, 0xFE]" "[0xCA, 0xFE]" "[0xCA, 0xFE]" 0 example_mem]
    by (simp add: example_lib_def)
qed


definition example_keygen :: "u8 list pkey option \<times> ossl_mem" where
  "example_keygen = the (cf_pkey_new (\<lambda>n. if n = 1 then - 2 else 1) example_lib (Some ''RSA'') (Some ''bits:512'') None example_mem)"

lemma example_keygen_ok:
  "cf_pkey_new (\<lambda>n. if n = 1 then - 2 else 1) example_lib (Some ''RSA'') (Some ''bits:512'') None example_mem = Some (Some (5, [5]), snd example_keygen)"
proof -
  have "map_option fst (cf_pkey_new (\<lambda>n. if n = 1 then - 2 else 1) example_lib (Some ''RSA'') (Some ''bits:512'') None example_mem) = Some (Some (5, [5]))"
    by code_simp
  then show ?thesis by (auto simp: example_keygen_def)
qed

theorem cf_pkey_new_applies_params_witness:
  "\<exists>ps c d. parsekeyparams ''bits:512'' 128 = Some ps \<and> (om_trace (snd example_keygen) = EVP_PKEY_paramgen_init c # ctrls c ps @ [EVP_PKEY_paramgen c, EVP_PKEY_keygen_init d, EVP_PKEY_keygen d] \<or>
     om_trace (snd example_keygen) = [EVP_PKEY_paramgen_init c, EVP_PKEY_keygen_init d] @ ctrls d ps @ [EVP_PKEY_keygen d])"
  using cf_pkey_new_applies_params [OF example_keygen_ok] by (simp add: example_mem_def)

theorem parsekeyparams_roundtrip_witness:
  "parsekeyparams (print_params [(''bits'', ''512''), (''e'', ''3:x'')] ['' '', '' '']) 2 = Some [(''bits'', ''512''), (''e'', ''3:x'')]"
  using parsekeyparams_roundtrip [of "[(''bits'', ''512''), (''e'', ''3:x'')]" "['' '', '' '']" 2 "[]"] by (simp add: param_ok_def key_delim_def)

end
