(* ===== verification/Ssl_X509.thy ===== *)
theory Ssl_X509
  imports Ssl_Pkey
begin

text \<open>
  Certificates and TLS contexts, src/ssl/ssl-x509.c and src/ssl/ssl-context.c. A certificate or context that is built up is an object,
  and what is stored in it are the calls made on it, in the trace of the library.
\<close>

section \<open>Sequences of calls\<close>

text \<open>
  Calls with the test of their status, one after the other until one fails; \<open>None\<close> stands for an argument that the
  source rejects at that place.
\<close>

type_synonym checked_call = "(ossl_call \<times> (int \<Rightarrow> bool)) option"

fun run_calls :: "answers \<Rightarrow> checked_call list \<Rightarrow> ossl_mem \<Rightarrow> bool \<times> ossl_mem" where
  "run_calls ans [] s = (True, s)"
| "run_calls ans (None # cs) s = (False, s)"
| "run_calls ans (Some (c, good) # cs) s =
     (case call ans c s of (status, s) \<Rightarrow> if good status then run_calls ans cs s else (False, s))"

definition not_null :: "ossl_call \<Rightarrow> checked_call" where "not_null c = Some (c, \<lambda>st. st \<noteq> 0)"
definition is_one :: "ossl_call \<Rightarrow> checked_call" where "is_one c = Some (c, \<lambda>st. st = 1)"
definition any_status :: "ossl_call \<Rightarrow> checked_call" where "any_status c = Some (c, \<lambda>st. True)"

section \<open>Certificates\<close>

definition NID_title :: int where "NID_title = 106"
definition NID_name :: int where "NID_name = 173"
definition NID_commonName :: int where "NID_commonName = 13"
definition NID_subject_alt_name :: int where "NID_subject_alt_name = 85"
definition NID_description :: int where "NID_description = 107"
definition NID_countryName :: int where "NID_countryName = 14"
definition NID_stateOrProvinceName :: int where "NID_stateOrProvinceName = 16"
definition NID_localityName :: int where "NID_localityName = 15"
definition NID_organizationName :: int where "NID_organizationName = 17"
definition NID_organizationalUnitName :: int where "NID_organizationalUnitName = 18"
definition NID_pkcs9_emailAddress :: int where "NID_pkcs9_emailAddress = 48"
definition NID_Domain :: int where "NID_Domain = 392"

record x509_subj =
  sj_title :: "string option"
  sj_name :: "string option"
  sj_common_name :: "string option"
  sj_altname :: "string option"
  sj_description :: "string option"
  sj_country :: "string option"
  sj_state :: "string option"
  sj_city :: "string option"
  sj_company :: "string option"
  sj_department :: "string option"
  sj_domain :: "string option"
  sj_email :: "string option"

record 'k x509_create_args =
  xa_md :: "nat option"
  xa_ca_cert :: "nat option"
  xa_ca_pkey :: "nat option"
  xa_keytype :: "string option"
  xa_params :: "string option"
  xa_pubkey :: "'k pkey option"
  xa_subj :: x509_subj
  xa_not_before :: int
  xa_not_after :: int
  xa_days :: int
  xa_hours :: int
  xa_minutes :: int
  xa_seconds :: int
  xa_ext :: "(int \<times> string) list"
  xa_serial :: int

definition cf_x509_free :: "nat option \<Rightarrow> ossl_mem \<Rightarrow> ossl_mem ub" where
  "cf_x509_free x s = ofree R_x509 x s"

definition cf_x509_add_text_entry :: "nat \<Rightarrow> int \<Rightarrow> string option \<Rightarrow> checked_call" where
  "cf_x509_add_text_entry name nid v = is_one (X509_NAME_add_entry_by_NID name nid v)"

text \<open>The parameters of a key that is generated for the certificate.\<close>

definition default_keytype :: "'k x509_create_args \<Rightarrow> string" where
  "default_keytype args = (case xa_keytype args of None \<Rightarrow> ''rsa'' | Some t \<Rightarrow> t)"

definition default_keyparams :: "'k x509_create_args \<Rightarrow> string option" where
  "default_keyparams args =
     (case xa_params args of
        Some p \<Rightarrow> Some p
      | None \<Rightarrow>
          (let t = default_keytype args in
           if strcaseeq t ''rsa'' then Some ''rsa_keygen_bits:2048''
           else if strcaseeq t ''gost94'' \<or> strcaseeq t ''gost2001'' then Some ''paramset:A''
           else if strcaseeq (take 8 t) ''dstu4145'' then Some ''curve:uacurve0''
           else None))"

text \<open>The end of the validity, in arithmetic on \<open>long\<close> whose overflow is undefined.\<close>

definition as_long :: "int \<Rightarrow> int ub" where
  "as_long x = (if - (2 ^ 63) \<le> x \<and> x < 2 ^ 63 then Some x else None)"

definition period_offset :: "int \<Rightarrow> int \<Rightarrow> int \<Rightarrow> int \<Rightarrow> int ub" where
  "period_offset days hours minutes seconds =
     do { d \<leftarrow> as_long (days * 24); h \<leftarrow> as_long (d + hours); h \<leftarrow> as_long (h * 60); m \<leftarrow> as_long (h + minutes);
          m \<leftarrow> as_long (m * 60); as_long (m + seconds) }"

definition not_after_call :: "nat \<Rightarrow> 'k x509_create_args \<Rightarrow> ossl_call ub" where
  "not_after_call x args =
     (if xa_not_after args \<noteq> 0 then Some (X509_time_adj_notAfter x 0 (Some (xa_not_after args)))
      else do { off \<leftarrow> period_offset (xa_days args) (xa_hours args) (xa_minutes args) (xa_seconds args);
                Some (X509_time_adj_notAfter x off None) })"

text \<open>The entries of the subject, in the order of the source. The description is tested, but what is stored is the domain.\<close>

definition subject_entries :: "x509_subj \<Rightarrow> (int \<times> string option) list" where
  "subject_entries sj =
     concat (map (\<lambda>(nid, present, v). if present = None then [] else [(nid, v)])
       [(NID_title, sj_title sj, sj_title sj), (NID_name, sj_name sj, sj_name sj), (NID_commonName, sj_common_name sj, sj_common_name sj),
        (NID_subject_alt_name, sj_altname sj, sj_altname sj), (NID_description, sj_description sj, sj_domain sj),
        (NID_countryName, sj_country sj, sj_country sj), (NID_stateOrProvinceName, sj_state sj, sj_state sj),
        (NID_localityName, sj_city sj, sj_city sj), (NID_organizationName, sj_company sj, sj_company sj),
        (NID_organizationalUnitName, sj_department sj, sj_department sj), (NID_pkcs9_emailAddress, sj_email sj, sj_email sj),
        (NID_Domain, sj_domain sj, sj_domain sj)])"

definition issuer_calls :: "nat \<Rightarrow> nat option \<Rightarrow> ossl_call list" where
  "issuer_calls x ca =
     (case ca of
        None \<Rightarrow> [X509_set_issuer_name x x]
      | Some ca \<Rightarrow> [X509_get_subject_name ca, X509_set_issuer_name x ca, X509_set_subject_name x x])"

definition setter_calls :: "nat \<Rightarrow> nat \<Rightarrow> 'k x509_create_args \<Rightarrow> checked_call list ub" where
  "setter_calls x pkey args =
     do { after_call \<leftarrow> not_after_call x args;
          Some ([not_null (X509_set_version x 2), not_null (ASN1_INTEGER_set x (xa_serial args)),
                 not_null (X509_time_adj_notBefore x 0 (if xa_not_before args = 0 then None else Some (xa_not_before args))),
                 not_null after_call, not_null (X509_set_pubkey x pkey), not_null (X509_get_subject_name x)] @
                map (\<lambda>(nid, v). cf_x509_add_text_entry x nid v) (subject_entries (xa_subj args)) @
                map not_null (issuer_calls x (xa_ca_cert args))) }"

text \<open>An extension: a new object that is copied into the certificate and released in any case.\<close>

definition cf_x509_add_ext :: "answers \<Rightarrow> nat \<Rightarrow> int \<Rightarrow> string \<Rightarrow> ossl_mem \<Rightarrow> (bool \<times> ossl_mem) ub" where
  "cf_x509_add_ext ans x nid v s =
     (case call_new ans (X509V3_EXT_conf_nid nid v) R_ext (\<lambda>st. st \<noteq> 0) s of
        (None, s) \<Rightarrow> Some (False, s)
      | (Some ex, s) \<Rightarrow>
          (case call ans (X509_add_ext x ex) s of
             (status, s) \<Rightarrow> do { s \<leftarrow> ofree R_ext (Some ex) s; Some (status \<noteq> 0, s) }))"

fun add_exts :: "answers \<Rightarrow> nat \<Rightarrow> (int \<times> string) list \<Rightarrow> ossl_mem \<Rightarrow> (bool \<times> ossl_mem) ub" where
  "add_exts ans x [] s = Some (True, s)"
| "add_exts ans x ((nid, v) # exts) s =
     do { (ok, s) \<leftarrow> cf_x509_add_ext ans x nid v s; if ok then add_exts ans x exts s else Some (False, s) }"

text \<open>From \<open>X509_new\<close> to the signature, for a key \<open>pkey\<close>; the result tells whether the end was reached.\<close>

definition build_cert :: "answers \<Rightarrow> 'k keylib \<Rightarrow> 'k x509_create_args \<Rightarrow> 'k pkey \<Rightarrow> nat \<Rightarrow> ossl_mem \<Rightarrow> (bool \<times> ossl_mem) ub" where
  "build_cert ans L args pkey x s =
     do { cs \<leftarrow> setter_calls x (fst pkey) args;
          (case run_calls ans cs s of
             (False, s) \<Rightarrow> Some (False, s)
           | (True, s) \<Rightarrow>
               do { (ok, s) \<leftarrow> add_exts ans x (xa_ext args) s;
                    if \<not> ok then Some (False, s)
                    else Some (run_calls ans
                           [not_null (X509_sign x (case xa_ca_pkey args of Some k \<Rightarrow> k | None \<Rightarrow> fst pkey)
                              (case xa_md args of Some md \<Rightarrow> Some md | None \<Rightarrow> cf_pkey_get_default_md L pkey))] s) }) }"

text \<open>\<open>ppk\<close> is the pointer to the caller's key pointer; both can be null. The result is the certificate and the caller's key afterwards.\<close>

definition cf_x509_new ::
  "answers \<Rightarrow> 'k keylib \<Rightarrow> 'k pkey option option \<Rightarrow> 'k x509_create_args \<Rightarrow> ossl_mem \<Rightarrow> (nat option \<times> 'k pkey option \<times> ossl_mem) ub" where
  "cf_x509_new ans L ppk args s =
     (case ppk of
        None \<Rightarrow> None
      | Some pk0 \<Rightarrow>
          if (xa_ca_cert args = None) \<noteq> (xa_ca_pkey args = None) then Some (None, pk0, s)
          else
            do { (pkey, s) \<leftarrow> (case pk0 of
                   Some k \<Rightarrow> Some (Some k, s)
                 | None \<Rightarrow> cf_pkey_new ans L (Some (default_keytype args)) (default_keyparams args) (xa_pubkey args) s);
                 (case pkey of
                    None \<Rightarrow> Some (None, pk0, s)
                  | Some pkey \<Rightarrow>
                      (case onew ans R_x509 s of
                         (None, s) \<Rightarrow> do { s \<leftarrow> (if pk0 = None then cf_pkey_free (Some pkey) s else Some s); Some (None, pk0, s) }
                       | (Some x, s) \<Rightarrow>
                           do { (fok, s) \<leftarrow> build_cert ans L args pkey x s;
                                if fok then Some (Some x, Some pkey, s)
                                else do { s \<leftarrow> cf_x509_free (Some x) s;
                                          s \<leftarrow> (if pk0 = None then cf_pkey_free (Some pkey) s else Some s);
                                          Some (None, pk0, s) } })) })"

text \<open>PEM; the encodings are those of the library.\<close>

record 'x certlib =
  pem_X509 :: "'x \<Rightarrow> u8 list option"
  read_pem_X509 :: "u8 list \<Rightarrow> 'x option"

definition cf_write_pem_x509_fp :: "'x certlib \<Rightarrow> nat \<times> 'x \<Rightarrow> stream \<Rightarrow> ossl_mem \<Rightarrow> bool \<times> ossl_mem" where
  "cf_write_pem_x509_fp C x = put_pem (pem_X509 C (snd x))"

definition cf_read_pem_x509_fp :: "answers \<Rightarrow> 'x certlib \<Rightarrow> u8 list \<Rightarrow> ossl_mem \<Rightarrow> (nat \<times> 'x) option \<times> ossl_mem" where
  "cf_read_pem_x509_fp ans C bs = new_obj ans R_x509 (read_pem_X509 C bs)"

definition cf_write_pem_x509 :: "answers \<Rightarrow> 'x certlib \<Rightarrow> nat \<times> 'x \<Rightarrow> string option \<Rightarrow> ossl_mem \<Rightarrow> (bool \<times> ossl_mem) ub" where
  "cf_write_pem_x509 ans C x fname = write_file ans fname (\<lambda>fp s. Some (cf_write_pem_x509_fp C x fp s))"

definition cf_read_pem_x509 :: "answers \<Rightarrow> 'x certlib \<Rightarrow> string option \<Rightarrow> ossl_mem \<Rightarrow> ((nat \<times> 'x) option \<times> ossl_mem) ub" where
  "cf_read_pem_x509 ans C fname = read_file ans fname (\<lambda>bs s. Some (cf_read_pem_x509_fp ans C bs s))"

definition cf_write_pem_x509_str :: "answers \<Rightarrow> 'x certlib \<Rightarrow> nat \<times> 'x \<Rightarrow> ossl_mem \<Rightarrow> ((nat \<times> u8 list) option \<times> ossl_mem) ub" where
  "cf_write_pem_x509_str ans C x = write_mem ans (pem_X509 C (snd x)) [0]"

definition cf_read_pem_x509_str :: "answers \<Rightarrow> 'x certlib \<Rightarrow> u8 list option \<Rightarrow> ossl_mem \<Rightarrow> ((nat \<times> 'x) option \<times> ossl_mem) ub" where
  "cf_read_pem_x509_str ans C str s =
     (case str of
        None \<Rightarrow> Some (None, s)
      | Some mem \<Rightarrow> do { str \<leftarrow> c_str mem; if str = [] then Some (None, s) else read_mem ans R_x509 (read_pem_X509 C str) s })"

text \<open>
  The text of an entry: \<open>entry\<close> gives the data of the first entry with a number. The buffer has the length of the data, and the
  terminator is stored behind them.
\<close>

definition put_at :: "nat \<Rightarrow> u8 \<Rightarrow> u8 list \<Rightarrow> u8 list ub" where
  "put_at i v buf = (if i < length buf then Some (buf[i := v]) else None)"

definition cf_x509_get_text_entry ::
  "answers \<Rightarrow> (int \<Rightarrow> u8 list option) option \<Rightarrow> int \<Rightarrow> ossl_mem \<Rightarrow> ((errno + (nat \<times> u8 list) option) \<times> ossl_mem) ub" where
  "cf_x509_get_text_entry ans name nid s =
     (case name of
        None \<Rightarrow> Some (Inl ENOENT, s)
      | Some entry \<Rightarrow>
          (case entry nid of
             None \<Rightarrow> Some (Inl ENOENT, s)
           | Some data \<Rightarrow>
               (case onew ans R_buf s of
                  (None, s) \<Rightarrow> Some (Inr None, s)
                | (Some b, s) \<Rightarrow> do { v \<leftarrow> put_at (length data) 0 data; Some (Inr (Some (b, v)), s) })))"

type_synonym name_getter = "answers \<Rightarrow> (int \<Rightarrow> u8 list option) option \<Rightarrow> ossl_mem \<Rightarrow> ((errno + (nat \<times> u8 list) option) \<times> ossl_mem) ub"

definition cf_x509_get_name :: name_getter where "cf_x509_get_name ans name = cf_x509_get_text_entry ans name NID_name"
definition cf_x509_get_common_name :: name_getter where "cf_x509_get_common_name ans name = cf_x509_get_text_entry ans name NID_commonName"
definition cf_x509_get_title :: name_getter where "cf_x509_get_title ans name = cf_x509_get_text_entry ans name NID_title"
definition cf_x509_get_altname :: name_getter where "cf_x509_get_altname ans name = cf_x509_get_text_entry ans name NID_subject_alt_name"
definition cf_x509_get_description :: name_getter where "cf_x509_get_description ans name = cf_x509_get_text_entry ans name NID_description"
definition cf_x509_get_country :: name_getter where "cf_x509_get_country ans name = cf_x509_get_text_entry ans name NID_countryName"
definition cf_x509_get_state :: name_getter where "cf_x509_get_state ans name = cf_x509_get_text_entry ans name NID_stateOrProvinceName"
definition cf_x509_get_city :: name_getter where "cf_x509_get_city ans name = cf_x509_get_text_entry ans name NID_localityName"
definition cf_x509_get_company :: name_getter where "cf_x509_get_company ans name = cf_x509_get_text_entry ans name NID_organizationName"
definition cf_x509_get_department :: name_getter where "cf_x509_get_department ans name = cf_x509_get_text_entry ans name NID_organizationalUnitName"
definition cf_x509_get_domain :: name_getter where "cf_x509_get_domain ans name = cf_x509_get_text_entry ans name NID_Domain"
definition cf_x509_get_email :: name_getter where "cf_x509_get_email ans name = cf_x509_get_text_entry ans name NID_pkcs9_emailAddress"

definition cf_x509_get_serial :: "(nat \<Rightarrow> int) \<Rightarrow> nat \<Rightarrow> int" where
  "cf_x509_get_serial serial x = serial x"

definition cf_x509_set_serial :: "answers \<Rightarrow> nat \<Rightarrow> int \<Rightarrow> ossl_mem \<Rightarrow> (errno + unit) \<times> ossl_mem" where
  "cf_x509_set_serial ans x n s = (case call ans (ASN1_INTEGER_set x n) s of (status, s) \<Rightarrow> (if status \<noteq> 1 then Inl ENOMEM else Inr (), s))"

section \<open>Contexts\<close>

record ssl_context_args =
  sc_enabled_ciphers :: "string option"
  sc_ssl_opts :: int
  sc_verify_mode :: int
  sc_verify_depth :: int
  sc_verify_cb :: bool
  sc_root_certs :: "string list"
  sc_pairs :: "(string option \<times> string option) list"

text \<open>\<open>SSL_OP_NO_SSLv2 | SSL_OP_NO_SSLv3 | SSL_OP_NO_COMPRESSION\<close>.\<close>

definition default_ssl_opts :: int where "default_ssl_opts = 0x03020000"

text \<open>The replacement for libraries without an automatic choice of curves.\<close>

definition SSL_CTX_set_ecdh_auto :: "answers \<Rightarrow> nat \<Rightarrow> ossl_mem \<Rightarrow> (bool \<times> ossl_mem) ub" where
  "SSL_CTX_set_ecdh_auto ans ctx s =
     (case onew ans R_ec_key s of
        (None, s) \<Rightarrow> Some (False, s)
      | (Some ecdh, s) \<Rightarrow>
          (case call ans (SSL_CTX_set_tmp_ecdh ctx ecdh) s of
             (status, s) \<Rightarrow> do { s \<leftarrow> ofree R_ec_key (Some ecdh) s; Some (status = 1, s) }))"

definition given :: "string option \<Rightarrow> bool" where
  "given x \<longleftrightarrow> x \<noteq> None \<and> x \<noteq> Some []"

definition pair_calls :: "nat \<Rightarrow> string option \<times> string option \<Rightarrow> checked_call list" where
  "pair_calls ctx = (\<lambda>(cert, key).
     if \<not> given cert \<or> \<not> given key then [None]
     else [is_one (SSL_CTX_use_certificate_file ctx (the cert)), is_one (SSL_CTX_use_PrivateKey_file ctx (the key)),
           is_one (SSL_CTX_check_private_key ctx)])"

definition context_calls :: "nat \<Rightarrow> ssl_context_args \<Rightarrow> checked_call list" where
  "context_calls ctx args =
     (if given (sc_enabled_ciphers args) then [is_one (SSL_CTX_set_cipher_list ctx (the (sc_enabled_ciphers args)))] else []) @
     (if sc_verify_mode args \<noteq> 0 \<or> sc_verify_cb args then [any_status (SSL_CTX_set_verify ctx (sc_verify_mode args) (sc_verify_cb args))] else []) @
     (if 0 < sc_verify_depth args then [any_status (SSL_CTX_set_verify_depth ctx (sc_verify_depth args))] else []) @
     map (\<lambda>f. is_one (SSL_CTX_load_verify_locations ctx f)) (sc_root_certs args) @
     concat (map (pair_calls ctx) (sc_pairs args))"

definition ssl_options :: "ssl_context_args \<Rightarrow> int" where
  "ssl_options args = (if sc_ssl_opts args = 0 then default_ssl_opts else sc_ssl_opts args)"

definition cf_ssl_create_context :: "answers \<Rightarrow> ssl_context_args \<Rightarrow> ossl_mem \<Rightarrow> (nat option \<times> ossl_mem) ub" where
  "cf_ssl_create_context ans args s =
     (case onew ans R_ssl_ctx s of
        (None, s) \<Rightarrow> Some (None, s)
      | (Some ctx, s) \<Rightarrow>
          do { (ok, s) \<leftarrow> SSL_CTX_set_ecdh_auto ans ctx (snd (run_calls ans [any_status (SSL_CTX_set_options ctx (ssl_options args))] s));
               (case (if ok then run_calls ans (context_calls ctx args) s else (False, s)) of
                  (True, s) \<Rightarrow> Some (Some ctx, s)
                | (False, s) \<Rightarrow> do { s \<leftarrow> ofree R_ssl_ctx (Some ctx) s; Some (None, s) }) })"

definition cf_ssl_delete_context :: "nat option \<Rightarrow> ossl_mem \<Rightarrow> ossl_mem ub" where
  "cf_ssl_delete_context ctx s = ofree R_ssl_ctx ctx s"

section \<open>Lemmas\<close>

definition calls_of :: "checked_call list \<Rightarrow> ossl_call list" where
  "calls_of cs = map (fst \<circ> the) cs"

lemma calls_of_simps [simp]:
  "calls_of [] = []" "calls_of (not_null c # cs) = c # calls_of cs" "calls_of (is_one c # cs) = c # calls_of cs"
  "calls_of (any_status c # cs) = c # calls_of cs" "calls_of (cs @ cs') = calls_of cs @ calls_of cs'"
  by (simp_all add: calls_of_def not_null_def is_one_def any_status_def)

lemma run_calls_ok:
  assumes "run_calls ans cs s = (ok, s')"
  shows "om_live s' = om_live s" "ok \<Longrightarrow> om_trace s' = om_trace s @ calls_of cs \<and> None \<notin> set cs"
  using assms
  by (induction ans cs s rule: run_calls.induct) (auto simp: call_def calls_of_def split: if_splits)

lemma cf_x509_add_ext_ok:
  "\<exists>ok s'. cf_x509_add_ext ans x nid v s = Some (ok, s') \<and> om_live s' = om_live s \<and>
     (ok \<longrightarrow> (\<exists>ex. om_trace s' = om_trace s @ [X509V3_EXT_conf_nid nid v, X509_add_ext x ex]))"
  by (auto simp: cf_x509_add_ext_def call_new_def call_def Let_def split: if_splits)

text \<open>The calls that add the extensions: each is made from its number and text, and added.\<close>

fun ext_calls :: "nat \<Rightarrow> (int \<times> string) list \<Rightarrow> ossl_call list \<Rightarrow> bool" where
  "ext_calls x [] cs \<longleftrightarrow> cs = []"
| "ext_calls x ((nid, v) # exts) cs \<longleftrightarrow> (\<exists>ex cs'. cs = X509V3_EXT_conf_nid nid v # X509_add_ext x ex # cs' \<and> ext_calls x exts cs')"

lemma add_exts_ok:
  "\<exists>ok s'. add_exts ans x exts s = Some (ok, s') \<and> om_live s' = om_live s \<and>
     (ok \<longrightarrow> (\<exists>cs. om_trace s' = om_trace s @ cs \<and> ext_calls x exts cs))"
proof (induction exts arbitrary: s)
  case (Cons e exts)
  obtain nid v where e: "e = (nid, v)" by force
  obtain ok s1 where "cf_x509_add_ext ans x nid v s = Some (ok, s1)" "om_live s1 = om_live s"
    "ok \<longrightarrow> (\<exists>ex. om_trace s1 = om_trace s @ [X509V3_EXT_conf_nid nid v, X509_add_ext x ex])"
    using cf_x509_add_ext_ok [of ans x nid v s] by blast
  with Cons.IH [of s1] e show ?case by (cases ok) fastforce+
qed auto

text \<open>The calls that make a certificate, from \<open>t\<close> on: the setters, the extensions in their order, and the signature.\<close>

definition issued :: "'k keylib \<Rightarrow> 'k x509_create_args \<Rightarrow> nat \<Rightarrow> 'k pkey \<Rightarrow> ossl_call list \<Rightarrow> ossl_call list \<Rightarrow> bool" where
  "issued L args x pk t t' \<longleftrightarrow>
     (\<exists>cs es. setter_calls x (fst pk) args = Some cs \<and> ext_calls x (xa_ext args) es \<and>
        t' = t @ calls_of cs @ es @
          [X509_sign x (case xa_ca_pkey args of Some k \<Rightarrow> k | None \<Rightarrow> fst pk) (case xa_md args of Some md \<Rightarrow> Some md | None \<Rightarrow> default_md L (snd pk))])"

lemma build_cert_ok:
  assumes "setter_calls x (fst pkey) args \<noteq> None"
  shows "\<exists>fok s'. build_cert ans L args pkey x s = Some (fok, s') \<and> om_live s' = om_live s \<and>
    (fok \<longrightarrow> issued L args x pkey (om_trace s) (om_trace s'))"
proof -
  obtain cs where cs: "setter_calls x (fst pkey) args = Some cs" using assms by blast
  obtain ok s1 where r: "run_calls ans cs s = (ok, s1)" by force
  note s1 = run_calls_ok [OF r]
  show ?thesis
  proof (cases ok)
    case False
    then show ?thesis using cs r s1(1) by (auto simp: build_cert_def)
  next
    case True
    obtain ok2 s2 where e: "add_exts ans x (xa_ext args) s1 = Some (ok2, s2)" "om_live s2 = om_live s1"
      "ok2 \<longrightarrow> (\<exists>es. om_trace s2 = om_trace s1 @ es \<and> ext_calls x (xa_ext args) es)"
      using add_exts_ok [of ans x "xa_ext args" s1] by blast
    let ?sign = "[not_null (X509_sign x (case xa_ca_pkey args of Some k \<Rightarrow> k | None \<Rightarrow> fst pkey)
                   (case xa_md args of Some md \<Rightarrow> Some md | None \<Rightarrow> cf_pkey_get_default_md L pkey))]"
    obtain ok3 s3 where g: "run_calls ans ?sign s2 = (ok3, s3)" by force
    note s3 = run_calls_ok [OF g]
    show ?thesis
    proof (cases ok2)
      case False
      then show ?thesis using cs r s1 e True by (auto simp: build_cert_def)
    next
      case ok2: True
      then obtain es where "om_trace s2 = om_trace s1 @ es" "ext_calls x (xa_ext args) es" using e by blast
      then have "ok3 \<longrightarrow> issued L args x pkey (om_trace s) (om_trace s3)"
        using cs s1 s3 True unfolding issued_def cf_pkey_get_default_md_def
        by (intro impI exI [of _ cs] exI [of _ es]) (simp cong: option.case_cong)
      moreover have "build_cert ans L args pkey x s = Some (ok3, s3)"
        using cs r e True ok2 g by (simp add: build_cert_def)
      ultimately show ?thesis using s1 e s3 by simp
    qed
  qed
qed

text \<open>What the constructor of a certificate takes: the certificate, and the key when the caller has none.\<close>

lemma cf_x509_new_ok:
  assumes "\<forall>x pk. setter_calls x pk args \<noteq> None"
  shows "\<exists>r p' s'. cf_x509_new ans L (Some p) args s = Some (r, p', s') \<and>
    (r = None \<longrightarrow> p' = p \<and> om_live s' = om_live s) \<and>
    (\<forall>x. r = Some x \<longrightarrow> (\<exists>pk t. p' = Some pk \<and> (p \<noteq> None \<longrightarrow> p' = p \<and> t = om_trace s) \<and>
       om_live s' = (R_x509, x) # (if p = None then [(R_key, fst pk)] else []) @ om_live s \<and>
       issued L args x pk t (om_trace s')))"
proof (cases "(xa_ca_cert args = None) \<noteq> (xa_ca_pkey args = None)")
  case True
  then show ?thesis by (auto simp: cf_x509_new_def)
next
  case ca: False
  let ?new = "case p of Some k \<Rightarrow> Some (Some k, s)
    | None \<Rightarrow> cf_pkey_new ans L (Some (default_keytype args)) (default_keyparams args) (xa_pubkey args) s"
  obtain pk s1 where k: "?new = Some (pk, s1)" "om_live s1 = (if p = None then obj R_key (map_option fst pk) else []) @ om_live s"
    "p \<noteq> None \<Longrightarrow> pk = p \<and> s1 = s"
    using cf_pkey_new_ok [of ans L "Some (default_keytype args)" "default_keyparams args" "xa_pubkey args" s] by (cases p) auto
  show ?thesis
  proof (cases pk)
    case None
    then show ?thesis using ca k by (cases p) (auto simp: cf_x509_new_def)
  next
    case (Some key)
    obtain x s2 where x: "onew ans R_x509 s1 = (x, s2)" by force
    note s2 = onew_adds [OF x]
    show ?thesis
    proof (cases x)
      case None
      then show ?thesis using ca k x s2 Some by (cases p) (auto simp: cf_x509_new_def cf_pkey_free_def)
    next
      case (Some y)
      obtain fok s3 where b: "build_cert ans L args key y s2 = Some (fok, s3)" "om_live s3 = om_live s2"
        "fok \<longrightarrow> issued L args y key (om_trace s2) (om_trace s3)"
        using build_cert_ok [of y key args ans L s2] assms by blast
      show ?thesis
      proof (cases fok)
        case True
        have "cf_x509_new ans L (Some p) args s = Some (Some y, Some key, s3)"
          using ca k x b True Some \<open>pk = Some key\<close> by (cases p) (auto simp: cf_x509_new_def)
        moreover have "om_live s3 = (R_x509, y) # (if p = None then [(R_key, fst key)] else []) @ om_live s"
          using b s2 k Some \<open>pk = Some key\<close> by (cases p) auto
        moreover have "p \<noteq> None \<longrightarrow> Some key = p \<and> om_trace s1 = om_trace s"
          using k \<open>pk = Some key\<close> by auto
        moreover have "issued L args y key (om_trace s1) (om_trace s3)" using b(3) True s2 by simp
        ultimately show ?thesis
          by (intro exI conjI; (intro allI impI)?; (intro exI conjI)?) (assumption | simp)+
      next
        case False
        then show ?thesis
          using ca k x s2 b Some \<open>pk = Some key\<close> by (cases p) (auto simp: cf_x509_new_def cf_x509_free_def cf_pkey_free_def)
      qed
    qed
  qed
qed

lemma SSL_CTX_set_ecdh_auto_ok:
  "\<exists>ok s' e. SSL_CTX_set_ecdh_auto ans ctx s = Some (ok, s') \<and> om_live s' = om_live s \<and>
     (ok \<longrightarrow> om_trace s' = om_trace s @ [SSL_CTX_set_tmp_ecdh ctx e])"
proof (cases "onew ans R_ec_key s")
  case (Pair e s1)
  note s1 = onew_adds [OF Pair]
  show ?thesis
    by (cases e) (use Pair s1 in \<open>auto simp: SSL_CTX_set_ecdh_auto_def call_def\<close>)
qed

section \<open>Properties\<close>

text \<open>C37. Making a certificate, for a caller that passes a place for the key and a validity that fits a \<open>long\<close>: the call is defined, a failure releases the certificate
  and a key that was generated for it, and a success hands over the certificate and leaves a key that the caller had. The
  calls on the certificate are the fixed setters, the entries of the subject, the issuer, the extensions in their order, and last the
  signature, with the key of the authority if there is one.\<close>

theorem cf_x509_new_outcome:
  assumes "\<forall>x pk. setter_calls x pk args \<noteq> None"
  shows "\<exists>r p' s'. cf_x509_new ans L (Some p) args s = Some (r, p', s') \<and>
    (r = None \<longrightarrow> p' = p \<and> om_live s' = om_live s) \<and>
    (\<forall>x. r = Some x \<longrightarrow> (\<exists>pk t. p' = Some pk \<and> (p \<noteq> None \<longrightarrow> p' = p \<and> t = om_trace s) \<and>
       om_live s' = (R_x509, x) # (if p = None then [(R_key, fst pk)] else []) @ om_live s \<and>
       issued L args x pk t (om_trace s')))"
  using assms by (rule cf_x509_new_ok)

text \<open>A TLS context that is returned has had every requested setting applied in order, and the key of each pair was checked against
  its certificate; with an empty file name, or when any call fails, no context is returned and nothing is left.\<close>

theorem cf_ssl_create_context_outcome:
  "\<exists>r s'. cf_ssl_create_context ans args s = Some (r, s') \<and> om_live s' = obj R_ssl_ctx r @ om_live s \<and>
    (\<forall>ctx. r = Some ctx \<longrightarrow> (\<forall>(cert, key)\<in>set (sc_pairs args). given cert \<and> given key) \<and>
       (\<exists>e. om_trace s' = om_trace s @ [SSL_CTX_set_options ctx (ssl_options args), SSL_CTX_set_tmp_ecdh ctx e] @ calls_of (context_calls ctx args)))"
proof (cases "onew ans R_ssl_ctx s")
  case (Pair ctx s1)
  note s1 = onew_adds [OF Pair]
  show ?thesis
  proof (cases ctx)
    case None
    then show ?thesis using Pair s1 by (simp add: cf_ssl_create_context_def)
  next
    case (Some c)
    obtain ok2 s2 where o: "run_calls ans [any_status (SSL_CTX_set_options c (ssl_options args))] s1 = (ok2, s2)" by force
    have s2: "om_live s2 = om_live s1" "om_trace s2 = om_trace s1 @ [SSL_CTX_set_options c (ssl_options args)]"
      using o by (auto simp: any_status_def call_def)
    obtain ok3 s3 e where c3: "SSL_CTX_set_ecdh_auto ans c s2 = Some (ok3, s3)" "om_live s3 = om_live s2"
      "ok3 \<longrightarrow> om_trace s3 = om_trace s2 @ [SSL_CTX_set_tmp_ecdh c e]"
      using SSL_CTX_set_ecdh_auto_ok [of ans c s2] by blast
    obtain ok4 s4 where c4: "run_calls ans (context_calls c args) s3 = (ok4, s4)" by force
    note s4 = run_calls_ok [OF c4]
    have pairs: "\<forall>(cert, key)\<in>set (sc_pairs args). given cert \<and> given key" if "None \<notin> set (context_calls c args)"
      using that by (auto simp: context_calls_def pair_calls_def is_one_def split: if_splits)
    show ?thesis
      using Pair s1 Some o s2 c3 c4 s4 pairs by (cases "ok3 \<and> ok4") (auto simp: cf_ssl_create_context_def)
  qed
qed

text \<open>Reading the text of an entry that is present writes its terminator behind the buffer, which has just the length of the
  data: the call is undefined for every entry and content, unless there is no memory.\<close>

theorem cf_x509_get_text_entry_overflows:
  assumes "entry nid = Some data" "ans (om_time s) \<noteq> 0"
  shows "cf_x509_get_text_entry ans (Some entry) nid s = None"
  using assms by (simp add: cf_x509_get_text_entry_def onew_ok put_at_def)

text \<open>A null pointer for the place of the key is reported and then followed.\<close>

lemma cf_x509_new_null: "cf_x509_new ans L None args s = None"
  by (simp add: cf_x509_new_def)

text \<open>The description of a subject is replaced by its domain.\<close>

lemma description_is_domain:
  "sj_description sj \<noteq> None \<Longrightarrow> (NID_description, v) \<in> set (subject_entries sj) \<Longrightarrow> v = sj_domain sj"
  by (auto simp: subject_entries_def NID_title_def NID_name_def NID_commonName_def NID_subject_alt_name_def NID_description_def NID_countryName_def
      NID_stateOrProvinceName_def NID_localityName_def NID_organizationName_def NID_organizationalUnitName_def NID_pkcs9_emailAddress_def NID_Domain_def
      split: if_splits)

text \<open>Certificates in PEM: one object is returned or none, and reading gives back what was written.\<close>

lemma pem_x509_owns:
  "owns R_buf (cf_write_pem_x509_str ans C x s) s" "owns R_x509 (cf_read_pem_x509_str ans C (Some (str @ [0])) s) s"
  "cf_read_pem_x509 ans C fname s = Some (r, s') \<Longrightarrow> om_live s' = obj R_x509 (map_option fst r) @ om_live s"
proof -
  show "owns R_buf (cf_write_pem_x509_str ans C x s) s" by (simp add: cf_write_pem_x509_str_def write_mem_owns)
  show "owns R_x509 (cf_read_pem_x509_str ans C (Some (str @ [0])) s) s"
    by (auto simp: cf_read_pem_x509_str_def c_str_def intro: obj_ownsI read_mem_owns)
  show "cf_read_pem_x509 ans C fname s = Some (r, s') \<Longrightarrow> om_live s' = obj R_x509 (map_option fst r) @ om_live s"
    unfolding cf_read_pem_x509_def cf_read_pem_x509_fp_def by (erule read_file_owns [rotated 2]) (use new_obj_adds in auto)
qed

section \<open>Examples\<close>

definition example_args :: "u8 list x509_create_args" where
  "example_args = \<lparr>xa_md = None, xa_ca_cert = None, xa_ca_pkey = None, xa_keytype = None, xa_params = None, xa_pubkey = None,
     xa_subj = \<lparr>sj_title = None, sj_name = None, sj_common_name = Some ''host'', sj_altname = None, sj_description = Some ''text'', sj_country = None,
       sj_state = None, sj_city = None, sj_company = None, sj_department = None, sj_domain = Some ''dom'', sj_email = None\<rparr>,
     xa_not_before = 0, xa_not_after = 0, xa_days = 365, xa_hours = 0, xa_minutes = 0, xa_seconds = 0, xa_ext = [(87, ''CA:TRUE'')], xa_serial = 7\<rparr>"

theorem cf_x509_new_outcome_witness:
  "\<exists>x s'. cf_x509_new (\<lambda>_. 1) example_lib (Some (Some (9, []))) example_args example_mem = Some (Some x, Some (9, []), s') \<and>
     om_live s' = [(R_x509, x)] \<and> issued example_lib example_args x (9, []) (om_trace example_mem) (om_trace s')"
proof -
  have "\<forall>x pk. setter_calls x pk example_args \<noteq> None"
    by (simp add: setter_calls_def example_args_def not_after_call_def period_offset_def as_long_def)
  note ok = cf_x509_new_outcome [OF this, of "\<lambda>_. 1" example_lib "Some (9, [])" example_mem]
  have "map_option fst (cf_x509_new (\<lambda>_. 1) example_lib (Some (Some (9, []))) example_args example_mem) = Some (Some 0)"
    by (simp add: cf_x509_new_def example_args_def example_mem_def build_cert_def setter_calls_def not_after_call_def period_offset_def as_long_def onew_def
        cf_x509_add_ext_def cf_x509_add_text_entry_def call_new_def call_def not_null_def is_one_def any_status_def issuer_calls_def subject_entries_def cf_pkey_get_default_md_def Let_def)
  then obtain p' s' where r: "cf_x509_new (\<lambda>_. 1) example_lib (Some (Some (9, []))) example_args example_mem = Some (Some 0, p', s')" by auto
  from ok obtain pk t where "p' = Some pk" "p' = Some (9, [])" "t = om_trace example_mem" "om_live s' = (R_x509, 0) # om_live example_mem"
    "issued example_lib example_args 0 pk t (om_trace s')"
    unfolding r by (elim exE conjE) (simp, blast)
  with r show ?thesis by (auto simp: example_mem_def)
qed

theorem cf_ssl_create_context_outcome_witness:
  "\<exists>s'. cf_ssl_create_context (\<lambda>_. 1) \<lparr>sc_enabled_ciphers = None, sc_ssl_opts = 0, sc_verify_mode = 1, sc_verify_depth = 0, sc_verify_cb = False,
       sc_root_certs = [''ca''], sc_pairs = [(Some ''c'', Some ''k'')]\<rparr> example_mem = Some (Some 0, s') \<and> om_live s' = [(R_ssl_ctx, 0)]"
proof -
  let ?a = "\<lparr>sc_enabled_ciphers = None, sc_ssl_opts = 0, sc_verify_mode = 1, sc_verify_depth = 0, sc_verify_cb = False,
       sc_root_certs = [''ca''], sc_pairs = [(Some ''c'', Some ''k'')]\<rparr>"
  have "map_option fst (cf_ssl_create_context (\<lambda>_. 1) ?a example_mem) = Some (Some 0)" by code_simp
  then show ?thesis
    using cf_ssl_create_context_outcome [of "\<lambda>_. 1" ?a example_mem] by (auto simp: example_mem_def)
qed

theorem cf_x509_get_text_entry_overflows_witness:
  "cf_x509_get_text_entry (\<lambda>_. 1) (Some (\<lambda>n. if n = NID_commonName then Some [0x61, 0x62] else None)) NID_commonName example_mem = None"
  using cf_x509_get_text_entry_overflows [of "\<lambda>n. if n = NID_commonName then Some [0x61, 0x62] else None" NID_commonName "[0x61, 0x62]" "\<lambda>_. 1" example_mem] by simp

end
