(* ===== verification/Iface.thy ===== *)
theory Iface
  imports Co_Resolve
begin

text \<open>
  Network interfaces, src/ifaddrs/iface.c and include/cuttle/iface.h: the list of the interfaces with an IPv4 address, the flags of an
  interface as text, and the address behind a text \<open>address:port\<close> or \<open>interface:port\<close>. The list that \<open>getifaddrs\<close>
  returns is a parameter. Buffers are lists of slots, and a write behind their end is undefined.
\<close>

section \<open>Interfaces\<close>

text \<open>An entry of the system's list; the four bytes of an IPv4 address are in the order of the network.\<close>

record ifaddrs =
  ifa_name :: string
  sys_flags :: u32
  ifa_addr :: "(addr_family \<times> u8 \<times> u8 \<times> u8 \<times> u8) option"

record ifaceinfo =
  ifname :: string
  ifaddress :: u32
  ifa_flags :: u32

definition ntohl_bytes :: "u8 \<times> u8 \<times> u8 \<times> u8 \<Rightarrow> u32" where
  "ntohl_bytes = (\<lambda>(a, b, c, d). INET_ADDR a b c d)"

definition iface_info :: "ifaddrs \<Rightarrow> u8 \<times> u8 \<times> u8 \<times> u8 \<Rightarrow> ifaceinfo" where
  "iface_info ifa sin_addr = \<lparr>ifname = take 255 (ifa_name ifa), ifaddress = ntohl_bytes sin_addr, ifa_flags = sys_flags ifa\<rparr>"

definition ssize_t :: "nat \<Rightarrow> int" where
  "ssize_t n = (if n < 2 ^ 63 then int n else int n - 2 ^ 64)"

fun enumerate_loop :: "ifaddrs list \<Rightarrow> nat \<Rightarrow> nat \<Rightarrow> ifaceinfo option list \<Rightarrow> (nat \<times> ifaceinfo option list) ub" where
  "enumerate_loop [] maxifaces n ifaces = Some (n, ifaces)"
| "enumerate_loop (ifa # ifas) maxifaces n ifaces =
     (if \<not> int n < ssize_t maxifaces then Some (n, ifaces)
      else (case ifa_addr ifa of
              Some (AF_INET, sin_addr) \<Rightarrow>
                do { ifaces \<leftarrow> memcpy_item ifaces n (iface_info ifa sin_addr);
                     enumerate_loop ifas maxifaces (n + 1) ifaces }
            | _ \<Rightarrow> enumerate_loop ifas maxifaces n ifaces))"

text \<open>\<open>Inl\<close> is the errno of a failed query.\<close>

definition cf_enumerate_ifaces ::
  "errno + ifaddrs list \<Rightarrow> ifaceinfo option list \<Rightarrow> nat \<Rightarrow> ((errno + nat) \<times> ifaceinfo option list) ub" where
  "cf_enumerate_ifaces sys ifaces maxifaces =
     (case sys of
        Inl e \<Rightarrow> Some (Inl e, ifaces)
      | Inr ifas \<Rightarrow> do { (n, ifaces) \<leftarrow> enumerate_loop ifas maxifaces 0 ifaces; Some (Inr n, ifaces) })"

section \<open>Flags\<close>

text \<open>The first of the characters is written to the position, and the result is the position behind the last.\<close>

fun strappend :: "string \<Rightarrow> nat \<Rightarrow> char option list \<Rightarrow> (nat \<times> char option list) ub" where
  "strappend [] pos buf = Some (pos, buf)"
| "strappend (c # substring) pos buf = do { buf \<leftarrow> memcpy_item buf pos c; strappend substring (pos + 1) buf }"

definition checkiff :: "u32 \<Rightarrow> u32 \<times> string \<Rightarrow> nat \<times> char option list \<Rightarrow> (nat \<times> char option list) ub" where
  "checkiff flags = (\<lambda>(flag, name) (pos, buf).
     if flag AND flags \<noteq> 0
     then do { (pos, buf) \<leftarrow> strappend name pos buf; buf \<leftarrow> memcpy_item buf pos CHR '' ''; Some (pos + 1, buf) }
     else Some (pos, buf))"

definition iff_names :: "(u32 \<times> string) list" where
  "iff_names = [(0x1, ''UP''), (0x2, ''BROADCAST''), (0x4, ''DEBUG''), (0x8, ''LOOPBACK''), (0x10, ''POINTOPOINT''), (0x20, ''NOTRAILERS''),
     (0x40, ''RUNNING''), (0x80, ''NOARP''), (0x100, ''PROMISC''), (0x200, ''ALLMULTI''), (0x400, ''MASTER''), (0x800, ''SLAVE''),
     (0x1000, ''MULTICAST''), (0x2000, ''PORTSEL''), (0x4000, ''AUTOMEDIA''), (0x8000, ''DYNAMIC'')]"

fun checkiff_all :: "u32 \<Rightarrow> (u32 \<times> string) list \<Rightarrow> nat \<times> char option list \<Rightarrow> (nat \<times> char option list) ub" where
  "checkiff_all flags [] st = Some st"
| "checkiff_all flags (f # fs) st = do { st \<leftarrow> checkiff flags f st; checkiff_all flags fs st }"

definition cf_format_iface_flags :: "u32 \<Rightarrow> char option list \<Rightarrow> char option list ub" where
  "cf_format_iface_flags flags string =
     do { (pos, string) \<leftarrow> checkiff_all flags iff_names (0, string); memcpy_item string pos CHR 0x00 }"

section \<open>Addresses\<close>

definition isalpha :: "char \<Rightarrow> bool" where
  "isalpha c \<longleftrightarrow> between CHR ''a'' CHR ''z'' c \<or> between CHR ''A'' CHR ''Z'' c"

text \<open>The conversion \<open>"%hhu.%hhu.%hhu.%hhu"\<close>.\<close>

definition scan_ip4 :: "string \<Rightarrow> u32 option" where
  "scan_ip4 s =
     do { (b1, s) \<leftarrow> scan_uint s; s \<leftarrow> literal CHR ''.'' s;
          (b2, s) \<leftarrow> scan_uint s; s \<leftarrow> literal CHR ''.'' s;
          (b3, s) \<leftarrow> scan_uint s; s \<leftarrow> literal CHR ''.'' s;
          (b4, s) \<leftarrow> scan_uint s;
          Some (INET_ADDR (ucast b1) (ucast b2) (ucast b3) (ucast b4)) }"

text \<open>
  The part before a colon and the port behind it. Without a pointer for the port the text is taken as it is. \<open>Inl\<close> is a failed
  conversion; then the port is 0.
\<close>

definition split_port :: "string \<Rightarrow> bool \<Rightarrow> unit + (string \<times> u16)" where
  "split_port s with_port =
     (if with_port \<and> CHR '':'' \<in> set s
      then (case scan_uint (tl (dropWhile (\<lambda>c. c \<noteq> CHR '':'') s)) of
              None \<Rightarrow> Inl ()
            | Some (p, _) \<Rightarrow> Inr (takeWhile (\<lambda>c. c \<noteq> CHR '':'') s, ucast p))
      else Inr (s, 0))"

fun find_iface :: "string \<Rightarrow> ifaceinfo option list \<Rightarrow> u32 option ub" where
  "find_iface name [] = Some None"
| "find_iface name (None # ifaces) = None"
| "find_iface name (Some i # ifaces) = (if ifname i = name then Some (Some (ifaddress i)) else find_iface name ifaces)"

text \<open>The result with the address and the port afterwards; the port is written if there is a pointer for it.\<close>

definition cf_get_iface_address ::
  "errno + ifaddrs list \<Rightarrow> string \<Rightarrow> bool \<Rightarrow> ((errno + unit) \<times> u32 \<times> u16) ub" where
  "cf_get_iface_address sys string with_port =
     (if string = [] \<or> \<not> isdigit (hd string) \<and> \<not> isalpha (hd string) then Some (Inl EINVAL, - 1, 0)
      else (case split_port string with_port of
              Inl _ \<Rightarrow> Some (Inl EINVAL, - 1, 0)
            | Inr (sdup, port) \<Rightarrow>
                if isdigit (hd string)
                then (case scan_ip4 sdup of
                        None \<Rightarrow> Some (Inl EINVAL, - 1, port)
                      | Some address \<Rightarrow> Some (Inr (), address, port))
                else do { (count, ifaces) \<leftarrow> cf_enumerate_ifaces sys (replicate 64 None) 64;
                          (case count of
                             Inl e \<Rightarrow> Some (Inl e, - 1, port)
                           | Inr n \<Rightarrow>
                               if n = 0 then Some (Inl ENODEV, - 1, port)
                               else do { found \<leftarrow> find_iface sdup (take n ifaces);
                                         (case found of
                                            None \<Rightarrow> Some (Inl ENXIO, - 1, port)
                                          | Some address \<Rightarrow> Some (Inr (), address, port)) }) }))"

text \<open>
  The C++ function of the same name in iface.h: the address as text, with the port unless it is 65535. \<open>inet_ntop\<close> prints the bytes of
  the address in dotted notation.
\<close>

definition iface_address_text :: "errno + ifaddrs list \<Rightarrow> string \<Rightarrow> string ub" where
  "iface_address_text sys ifacename =
     do { (res, address, port) \<leftarrow> cf_get_iface_address sys ifacename True;
          (case res of
             Inl _ \<Rightarrow> Some []
           | Inr _ \<Rightarrow> Some (dotted (INET_BYTE 3 address) (INET_BYTE 2 address) (INET_BYTE 1 address) (INET_BYTE 0 address) @
                            (if port \<noteq> - 1 then '':'' @ decimal (unat port) else []))) }"

section \<open>Lemmas\<close>

text \<open>The entries that are listed: those with an IPv4 address, in the order of the system.\<close>

definition inet_infos :: "ifaddrs list \<Rightarrow> ifaceinfo list" where
  "inet_infos ifas = concat (map (\<lambda>ifa. case ifa_addr ifa of Some (AF_INET, a) \<Rightarrow> [iface_info ifa a] | _ \<Rightarrow> []) ifas)"

lemma enumerate_loop_ok:
  assumes "n \<le> m" "m \<le> length ifaces" "m < 2 ^ 63"
  shows "enumerate_loop ifas m n ifaces =
    (let new = take (m - n) (inet_infos ifas) in Some (n + length new, take n ifaces @ map Some new @ drop (n + length new) ifaces))"
  using assms
proof (induction ifas arbitrary: n ifaces)
  case Nil
  then show ?case by (simp add: inet_infos_def)
next
  case (Cons ifa ifas)
  show ?case
  proof (cases "n < m")
    case False
    then show ?thesis using Cons.prems by (simp add: ssize_t_def)
  next
    case lt: True
    consider (inet) a where "ifa_addr ifa = Some (AF_INET, a)" | (other) "\<forall>a. ifa_addr ifa \<noteq> Some (AF_INET, a)" by blast
    then show ?thesis
    proof cases
      case inet
      let ?b = "ifaces[n := Some (iface_info ifa a)]"
      have "take (Suc n) ?b = take n ifaces @ [Some (iface_info ifa a)]"
        using lt Cons.prems by (simp add: take_Suc_conv_app_nth)
      moreover have "m - n = Suc (m - Suc n)" using lt by simp
      ultimately show ?thesis
        using Cons.IH [of "Suc n" ?b] Cons.prems lt inet by (simp add: inet_infos_def ssize_t_def Let_def)
    next
      case other
      then have "inet_infos (ifa # ifas) = inet_infos ifas" "enumerate_loop (ifa # ifas) m n ifaces = enumerate_loop ifas m n ifaces"
        using lt Cons.prems by (auto simp: inet_infos_def ssize_t_def split: option.splits addr_family.splits)
      then show ?thesis using Cons.IH Cons.prems by simp
    qed
  qed
qed

lemma strappend_ok:
  "pos + length s \<le> length buf \<Longrightarrow> strappend s pos buf = Some (pos + length s, take pos buf @ map Some s @ drop (pos + length s) buf)"
proof (induction s arbitrary: pos buf)
  case (Cons c s)
  then show ?case by (simp add: take_Suc_conv_app_nth)
qed simp

lemma put_next: "n < length buf \<Longrightarrow> (drop n buf)[0 := x] = x # drop (Suc n) buf"
  by (simp add: Cons_nth_drop_Suc [symmetric])

definition flag_text :: "u32 \<Rightarrow> (u32 \<times> string) list \<Rightarrow> string" where
  "flag_text flags fs = concat (map (\<lambda>(f, name). if f AND flags \<noteq> 0 then name @ '' '' else []) fs)"

lemma checkiff_ok:
  assumes "pos + length (flag_text flags [f]) \<le> length buf"
  shows "checkiff flags f (pos, buf) =
    (let s = flag_text flags [f] in Some (pos + length s, take pos buf @ map Some s @ drop (pos + length s) buf))"
proof -
  obtain flag name where f: "f = (flag, name)" by force
  show ?thesis using assms
    by (auto simp: f checkiff_def flag_text_def strappend_ok list_update_append put_next)
qed

lemma checkiff_all_ok:
  "pos + length (flag_text flags fs) \<le> length buf \<Longrightarrow> checkiff_all flags fs (pos, buf) =
    (let s = flag_text flags fs in Some (pos + length s, take pos buf @ map Some s @ drop (pos + length s) buf))"
proof (induction fs arbitrary: pos buf)
  case (Cons f fs)
  have "flag_text flags (f # fs) = flag_text flags [f] @ flag_text flags fs" by (simp add: flag_text_def)
  then show ?case using Cons by (simp add: checkiff_ok Let_def ac_simps)
qed (simp add: flag_text_def)

lemma flag_text_length: "length (flag_text flags fs) \<le> sum_list (map (\<lambda>(f, name). length name + 1) fs)"
  by (induction fs) (auto simp: flag_text_def)

text \<open>The words of a text in which each word is followed by a space.\<close>

fun spaced_words :: "string \<Rightarrow> string \<Rightarrow> string list" where
  "spaced_words w [] = []"
| "spaced_words w (c # s) = (if c = CHR '' '' then w # spaced_words [] s else spaced_words (w @ [c]) s)"

lemma spaced_words_word: "CHR '' '' \<notin> set v \<Longrightarrow> spaced_words w (v @ CHR '' '' # s) = (w @ v) # spaced_words [] s"
  by (induction v arbitrary: w) auto

lemma spaced_words_flags:
  "\<forall>(f, name)\<in>set fs. CHR '' '' \<notin> set name \<Longrightarrow> spaced_words [] (flag_text flags fs) = [name. (f, name) \<leftarrow> fs, f AND flags \<noteq> 0]"
  by (induction fs) (auto simp: flag_text_def spaced_words_word)

lemma iff_names_ok:
  "\<forall>(f, name)\<in>set iff_names. CHR '' '' \<notin> set name" "sum_list (map (\<lambda>(f, name). length name + 1) iff_names) = 131"
  "distinct (map snd iff_names)"
  by (simp_all add: iff_names_def)

lemma decimal_no_colon: "CHR '':'' \<notin> set (decimal n)"
  using decimal_digits [of n] by (auto simp: isdigit_def between_def)

lemma dotted_ok: "CHR '':'' \<notin> set (dotted a b c d)" "dotted a b c d \<noteq> []" "isdigit (hd (dotted a b c d))" "scan_ip4 (dotted a b c d) = Some (INET_ADDR a b c d)"
proof -
  show "CHR '':'' \<notin> set (dotted a b c d)" by (simp add: dotted_def decimal_no_colon)
  show "dotted a b c d \<noteq> []" "isdigit (hd (dotted a b c d))" using decimal_digits [of "unat a"] by (simp_all add: dotted_def)
  show "scan_ip4 (dotted a b c d) = Some (INET_ADDR a b c d)"
    using scan_byte [of "[]" d] by (simp add: scan_ip4_def dotted_def scan_byte literal_def)
qed

lemma split_port_ok:
  assumes "CHR '':'' \<notin> set s"
  shows "split_port s w = Inr (s, 0)" "split_port (s @ '':'' @ decimal (unat (p :: u16))) True = Inr (s, p)"
proof -
  have p: "unat p < 2 ^ 64" using unsigned_less [of p, where 'a = nat] by simp
  have "scan_uint (decimal (unat p)) = Some (of_nat (unat p), [])" using scan_uint_decimal [OF p, of "[]"] by simp
  then show "split_port (s @ '':'' @ decimal (unat p)) True = Inr (s, p)"
    using assms by (simp add: split_port_def takeWhile_append dropWhile_append)
  show "split_port s w = Inr (s, 0)" using assms by (simp add: split_port_def)
qed

lemma find_iface_ok: "find_iface name (map Some is) = Some (map_option ifaddress (find (\<lambda>i. ifname i = name) is))"
  by (induction "is") auto

lemma cf_enumerate_ifaces_ok:
  assumes "m \<le> length ifaces" "m < 2 ^ 63"
  shows "cf_enumerate_ifaces (Inr ifas) ifaces m =
    (let new = take m (inet_infos ifas) in Some (Inr (length new), map Some new @ drop (length new) ifaces))"
  using enumerate_loop_ok [of 0 m ifaces ifas] assms by (simp add: cf_enumerate_ifaces_def Let_def)

lemma zero_char: "char_of (48 :: nat) = CHR ''0''"
  by code_simp

lemma min_eq_0: "min (length xs) 64 = 0 \<longleftrightarrow> xs = []"
  by (auto simp: min_def split: if_splits)

section \<open>Properties\<close>

text \<open>The flags of an interface fit into 132 characters, whatever flags are set: the text is written in place with its terminator and nothing behind it is touched. Reading
  its words gives back the names of exactly the flags that are set.\<close>

theorem cf_format_iface_flags_exact:
  assumes "132 \<le> length buf"
  shows "\<exists>str. cf_format_iface_flags flags buf = Some (map Some (str @ [CHR 0x00]) @ drop (length str + 1) buf) \<and> length str \<le> 131 \<and>
    (\<forall>(f, name)\<in>set iff_names. name \<in> set (spaced_words [] str) \<longleftrightarrow> f AND flags \<noteq> 0)"
proof (intro exI conjI)
  let ?t = "flag_text flags iff_names"
  show len: "length ?t \<le> 131" using flag_text_length [of flags iff_names] iff_names_ok(2) by simp
  have "(map Some ?t @ drop (length ?t) buf)[length ?t := Some CHR 0x00] = map Some (?t @ [CHR 0x00]) @ drop (length ?t + 1) buf"
    using len assms by (simp add: list_update_append put_next)
  then show "cf_format_iface_flags flags buf = Some (map Some (?t @ [CHR 0x00]) @ drop (length ?t + 1) buf)"
    using len assms by (simp add: cf_format_iface_flags_def checkiff_all_ok Let_def)
  show "\<forall>(f, name)\<in>set iff_names. name \<in> set (spaced_words [] ?t) \<longleftrightarrow> f AND flags \<noteq> 0"
  proof (clarify)
    fix f name assume n: "(f, name) \<in> set iff_names"
    have same: "g = f" if "(g, name) \<in> set iff_names" for g
      using inj_onD [of snd "set iff_names" "(g, name)" "(f, name)"] that n iff_names_ok(3) by (simp add: distinct_map)
    have "name \<in> set (spaced_words [] ?t) \<longleftrightarrow> (\<exists>g. (g, name) \<in> set iff_names \<and> g AND flags \<noteq> 0)"
      by (auto simp: spaced_words_flags [OF iff_names_ok(1)] split: if_splits)
    then show "name \<in> set (spaced_words [] ?t) \<longleftrightarrow> f AND flags \<noteq> 0" using n same by blast
  qed
qed

text \<open>The address behind a text: dotted numbers give themselves, and the name of an interface gives the address of the first of the first 64 IPv4
  interfaces that has this name, or the error of the system, \<open>ENODEV\<close> when there is no such interface at all, and \<open>ENXIO\<close> when none has the name. A port behind a colon is
  read in both cases. The search never leaves its array.\<close>

theorem cf_get_iface_address_outcome:
  assumes "name \<noteq> []" "isalpha (hd name)" "CHR '':'' \<notin> set name"
  shows "cf_get_iface_address sys (dotted a b c d) w = Some (Inr (), INET_ADDR a b c d, 0) \<and>
    cf_get_iface_address sys (dotted a b c d @ '':'' @ decimal (unat p)) True = Some (Inr (), INET_ADDR a b c d, p) \<and>
    cf_get_iface_address sys (name @ '':'' @ decimal (unat p)) True =
      (case sys of
         Inl e \<Rightarrow> Some (Inl e, - 1, p)
       | Inr ifas \<Rightarrow>
           if inet_infos ifas = [] then Some (Inl ENODEV, - 1, p)
           else (case find (\<lambda>i. ifname i = name) (take 64 (inet_infos ifas)) of
                   None \<Rightarrow> Some (Inl ENXIO, - 1, p)
                 | Some i \<Rightarrow> Some (Inr (), ifaddress i, p)))"
proof (intro conjI)
  have "\<not> isdigit (hd name)" using assms(2) by (auto simp: isalpha_def isdigit_def between_def)
  then show "cf_get_iface_address sys (name @ '':'' @ decimal (unat p)) True =
      (case sys of
         Inl e \<Rightarrow> Some (Inl e, - 1, p)
       | Inr ifas \<Rightarrow>
           if inet_infos ifas = [] then Some (Inl ENODEV, - 1, p)
           else (case find (\<lambda>i. ifname i = name) (take 64 (inet_infos ifas)) of
                   None \<Rightarrow> Some (Inl ENXIO, - 1, p)
                 | Some i \<Rightarrow> Some (Inr (), ifaddress i, p)))"
    using assms split_port_ok(2) [OF assms(3), of p]
    by (cases sys) (auto simp: cf_get_iface_address_def cf_enumerate_ifaces_ok Let_def find_iface_ok cf_enumerate_ifaces_def [of "Inl _"] min_eq_0 split: option.splits)
  show "cf_get_iface_address sys (dotted a b c d) w = Some (Inr (), INET_ADDR a b c d, 0)"
    by (simp add: cf_get_iface_address_def dotted_ok split_port_ok)
  show "cf_get_iface_address sys (dotted a b c d @ '':'' @ decimal (unat p)) True = Some (Inr (), INET_ADDR a b c d, p)"
    using split_port_ok(2) [OF dotted_ok(1) [of a b c d], of p] by (simp add: cf_get_iface_address_def dotted_ok)
qed

text \<open>The text of an address shows a port although none was given: the function behind it stores 0, and only 65535 counts as no port.\<close>

lemma iface_address_text_port: "iface_address_text sys (dotted a b c d) = Some (dotted a b c d @ '':0'')"
proof -
  have "cf_get_iface_address sys (dotted a b c d) True = Some (Inr (), INET_ADDR a b c d, 0)"
    by (simp add: cf_get_iface_address_def dotted_ok split_port_ok)
  then show ?thesis using INET_BYTE_ADDR(3) [of a b c d] by (simp add: iface_address_text_def decimal.simps [of 0] zero_char)
qed

section \<open>Examples\<close>

theorem cf_format_iface_flags_exact_witness:
  "\<exists>str. cf_format_iface_flags 0x1043 (replicate 256 None) = Some (map Some (str @ [CHR 0x00]) @ replicate (255 - length str) None) \<and> ''RUNNING'' \<in> set (spaced_words [] str)"
proof -
  obtain str where "cf_format_iface_flags 0x1043 (replicate 256 None) = Some (map Some (str @ [CHR 0x00]) @ drop (length str + 1) (replicate 256 None))"
    "(0x40, ''RUNNING'') \<in> set iff_names \<longrightarrow> (''RUNNING'' \<in> set (spaced_words [] str) \<longleftrightarrow> (0x40 :: u32) AND 0x1043 \<noteq> 0)"
    using cf_format_iface_flags_exact [of "replicate 256 None" "0x1043"] by fastforce
  then show ?thesis by (auto simp: iff_names_def)
qed

definition example_ifaddrs :: "ifaddrs list" where
  "example_ifaddrs = [\<lparr>ifa_name = ''lo'', sys_flags = 0x49, ifa_addr = Some (AF_INET, 127, 0, 0, 1)\<rparr>,
     \<lparr>ifa_name = ''eth0'', sys_flags = 0x43, ifa_addr = Some (AF_INET6, 0, 0, 0, 0)\<rparr>, \<lparr>ifa_name = ''eth0'', sys_flags = 0x43, ifa_addr = Some (AF_INET, 10, 0, 0, 7)\<rparr>]"

theorem cf_get_iface_address_outcome_witness:
  "cf_get_iface_address (Inr example_ifaddrs) (''eth0'' @ '':'' @ decimal (unat (80 :: u16))) True = Some (Inr (), INET_ADDR 10 0 0 7, 80)"
proof -
  have "isalpha CHR ''e''" by (simp add: isalpha_def between_def)
  then show ?thesis
    using cf_get_iface_address_outcome [of "''eth0''" "Inr example_ifaddrs" 0 0 0 0 True 80]
    by (simp add: example_ifaddrs_def inet_infos_def iface_info_def ntohl_bytes_def)
qed

end
