(* ===== verification/Pg.thy ===== *)
theory Pg
  imports C_Text Co_Socket "HOL-Library.Monad_Syntax"
begin

text \<open>
  The client of PostgreSQL, src/pg/pg.c: login, commands, queries, iterators over rows, and the wait for a notification. libpq is a
  parameter: what the server answers to a query, and whether a connection is made. Connections and results are objects that
  are live until \<open>PQfinish\<close> and \<open>PQclear\<close>; to release one twice is undefined. Formatted texts (\<open>vasprintf\<close>) are arguments,
  \<open>None\<close> being a failed allocation.
\<close>

section \<open>State\<close>

datatype exec_status = PGRES_EMPTY_QUERY | PGRES_COMMAND_OK | PGRES_TUPLES_OK | PGRES_FATAL_ERROR | PGRES_OTHER

text \<open>A result with its rows; a field that is null in the database is the empty text. Every row has as many fields as the result.\<close>

record pgresult =
  res_status :: exec_status
  res_message :: string
  res_nfields :: nat
  res_tuples :: "string list list"

definition PQgetvalue :: "pgresult \<Rightarrow> int \<Rightarrow> nat \<Rightarrow> string option" where
  "PQgetvalue rc tup_num n =
     (if 0 \<le> tup_num \<and> tup_num < int (length (res_tuples rc)) \<and> n < res_nfields rc then Some (res_tuples rc ! nat tup_num ! n) else None)"

record PGloginargs =
  pg_host :: "string option"
  pg_port :: "string option"
  pg_dbname :: "string option"
  pg_user :: "string option"
  pg_psw :: "string option"
  pg_options :: "string option"
  pg_tty :: "string option"

text \<open>The static variables of the module, the live objects, and the queries that were sent. The buffer \<open>errmsg\<close> has 256 characters.\<close>

record pg_world =
  pg_cfg :: PGloginargs
  pg_errbuf :: "char list"
  pg_time :: nat
  pg_conns :: "nat list"
  pg_results :: "nat list"
  pg_sent :: "string list"

text \<open>The environment: the answer to a query, what becomes of a login (no object, a connection with or without success), the message of
  a connection and the text of errno.\<close>

record pg_env =
  env_exec :: "nat \<Rightarrow> string \<Rightarrow> pgresult option"
  env_login :: "nat \<Rightarrow> PGloginargs \<Rightarrow> bool option"
  env_connmsg :: string
  env_errno :: string

section \<open>Messages\<close>

text \<open>\<open>snprintf(errmsg, 255, ...)\<close> writes at most 254 characters and a terminator; \<open>strncpy(errmsg, msg, 255)\<close> fills 255 characters.\<close>

definition snprintf_errmsg :: "string \<Rightarrow> pg_world \<Rightarrow> pg_world" where
  "snprintf_errmsg msg w =
     (let s = take 254 (c_string msg) @ [CHR 0x00] in w\<lparr>pg_errbuf := s @ drop (length s) (pg_errbuf w)\<rparr>)"

definition LOG_ERRNO :: "pg_env \<Rightarrow> string \<Rightarrow> pg_world \<Rightarrow> pg_world" where
  "LOG_ERRNO env fn = snprintf_errmsg (fn @ ''() fails: '' @ env_errno env)"

definition status_text :: "exec_status \<Rightarrow> string" where
  "status_text st =
     (case st of PGRES_EMPTY_QUERY \<Rightarrow> ''PGRES_EMPTY_QUERY'' | PGRES_COMMAND_OK \<Rightarrow> ''PGRES_COMMAND_OK'' | PGRES_TUPLES_OK \<Rightarrow> ''PGRES_TUPLES_OK''
      | PGRES_FATAL_ERROR \<Rightarrow> ''PGRES_FATAL_ERROR'' | PGRES_OTHER \<Rightarrow> ''PGRES_OTHER'')"

definition LOG_PGRES :: "string \<Rightarrow> pgresult \<Rightarrow> pg_world \<Rightarrow> pg_world" where
  "LOG_PGRES fn rc = snprintf_errmsg (fn @ ''() fails: '' @ status_text (res_status rc) @ ''/'' @ res_message rc @ [CHR 0x0A])"

definition LOG_PGCONN :: "pg_env \<Rightarrow> pg_world \<Rightarrow> pg_world" where
  "LOG_PGCONN env w =
     (let s = take 255 (c_string (env_connmsg env)) in w\<lparr>pg_errbuf := s @ replicate (255 - length s) CHR 0x00 @ drop 255 (pg_errbuf w)\<rparr>)"

definition pg_errmsg :: "pg_world \<Rightarrow> string" where
  "pg_errmsg w = c_string (pg_errbuf w)"

section \<open>Connections\<close>

text \<open>\<open>dup\<close> tells which copies have memory.\<close>

definition strdup :: "bool \<Rightarrow> string option \<Rightarrow> string option" where
  "strdup ok s = (if ok then s else None)"

definition pg_set_dblogin :: "(nat \<Rightarrow> bool) \<Rightarrow> PGloginargs \<Rightarrow> pg_world \<Rightarrow> pg_world" where
  "pg_set_dblogin dup args w =
     w\<lparr>pg_cfg := \<lparr>pg_host = strdup (dup 0) (pg_host args), pg_port = strdup (dup 1) (pg_port args), pg_dbname = strdup (dup 2) (pg_dbname args),
         pg_user = strdup (dup 3) (pg_user args), pg_psw = strdup (dup 4) (pg_psw args), pg_options = strdup (dup 5) (pg_options args),
         pg_tty = strdup (dup 6) (pg_tty args)\<rparr>\<rparr>"

definition PQfinish :: "nat option \<Rightarrow> pg_world \<Rightarrow> pg_world ub" where
  "PQfinish c w =
     (case c of None \<Rightarrow> Some w
      | Some i \<Rightarrow> if i \<in> set (pg_conns w) then Some (w\<lparr>pg_conns := remove1 i (pg_conns w)\<rparr>) else None)"

definition pg_login :: "pg_env \<Rightarrow> PGloginargs option \<Rightarrow> pg_world \<Rightarrow> (nat option \<times> pg_world) ub" where
  "pg_login env args w =
     (let login = (case args of Some a \<Rightarrow> a | None \<Rightarrow> pg_cfg w);
          made = env_login env (pg_time w) login;
          pgc = (if made = None then None else Some (pg_time w));
          w = w\<lparr>pg_time := pg_time w + 1, pg_conns := (case pgc of None \<Rightarrow> pg_conns w | Some i \<Rightarrow> i # pg_conns w)\<rparr> in
      if made = Some True then Some (pgc, w)
      else do { w \<leftarrow> PQfinish pgc (LOG_PGCONN env w); Some (None, w) })"

text \<open>The argument points to the connection pointer or is null.\<close>

definition pg_close :: "nat option option \<Rightarrow> pg_world \<Rightarrow> (nat option option \<times> pg_world) ub" where
  "pg_close pgc w =
     (case pgc of
        Some (Some i) \<Rightarrow> do { w \<leftarrow> PQfinish (Some i) w; Some (Some None, w) }
      | _ \<Rightarrow> Some (pgc, w))"

section \<open>Commands and queries\<close>

type_synonym pgres = "nat \<times> pgresult"

definition PQclear :: "pgres option \<Rightarrow> pg_world \<Rightarrow> pg_world ub" where
  "PQclear rc w =
     (case rc of None \<Rightarrow> Some w
      | Some (i, _) \<Rightarrow> if i \<in> set (pg_results w) then Some (w\<lparr>pg_results := remove1 i (pg_results w)\<rparr>) else None)"

definition db_execv :: "pg_env \<Rightarrow> string option \<Rightarrow> pg_world \<Rightarrow> pgres option \<times> pg_world" where
  "db_execv env query w =
     (case query of
        Some (c # q) \<Rightarrow>
          (let w' = w\<lparr>pg_time := pg_time w + 1, pg_sent := pg_sent w @ [c # q]\<rparr> in
           case env_exec env (pg_time w) (c # q) of
             None \<Rightarrow> (None, w')
           | Some r \<Rightarrow> (Some (pg_time w, r), w'\<lparr>pg_results := pg_time w # pg_results w'\<rparr>))
      | _ \<Rightarrow> (None, w))"

definition pg_exec :: "pg_env \<Rightarrow> string option \<Rightarrow> pg_world \<Rightarrow> pgres option \<times> pg_world" where
  "pg_exec env query w =
     (case db_execv env query w of
        (None, w) \<Rightarrow> (None, LOG_ERRNO env ''db_execv()'' w)
      | (Some rc, w) \<Rightarrow> (Some rc, w))"

definition pg_exec_command :: "pg_env \<Rightarrow> string option \<Rightarrow> pg_world \<Rightarrow> (bool \<times> pg_world) ub" where
  "pg_exec_command env query w =
     (case db_execv env query w of
        (rc, w) \<Rightarrow>
          (case (case rc of
                   None \<Rightarrow> (False, LOG_ERRNO env ''db_execv'' w)
                 | Some (i, r) \<Rightarrow> if res_status r \<noteq> PGRES_COMMAND_OK then (False, LOG_PGRES ''db_execv'' r w) else (True, w)) of
             (fok, w) \<Rightarrow> do { w \<leftarrow> PQclear rc w; Some (fok, w) }))"

definition pg_exec_query :: "pg_env \<Rightarrow> string option \<Rightarrow> pg_world \<Rightarrow> (pgres option \<times> pg_world) ub" where
  "pg_exec_query env query w =
     (case db_execv env query w of
        (None, w) \<Rightarrow> Some (None, LOG_ERRNO env ''db_execv'' w)
      | (Some (i, r), w) \<Rightarrow>
          if res_status r \<noteq> PGRES_TUPLES_OK
          then do { w \<leftarrow> PQclear (Some (i, r)) (LOG_PGRES ''db_execv'' r w); Some (None, w) }
          else Some (Some (i, r), w))"

definition pg_listen_notify :: "pg_env \<Rightarrow> bool \<Rightarrow> string \<Rightarrow> pg_world \<Rightarrow> (bool \<times> pg_world) ub" where
  "pg_listen_notify env mem event = pg_exec_command env (if mem then Some (''LISTEN '' @ event) else None)"

definition pg_unlisten_notify :: "pg_env \<Rightarrow> bool \<Rightarrow> string \<Rightarrow> pg_world \<Rightarrow> (bool \<times> pg_world) ub" where
  "pg_unlisten_notify env mem event = pg_exec_command env (if mem then Some (''UNLISTEN '' @ event) else None)"

section \<open>Values\<close>

text \<open>
  An argument of \<open>pg_getvalues\<close> is a conversion of \<open>sscanf\<close>, which gives a value or fails, and the variable for it; the variables are a
  function from their addresses.
\<close>

type_synonym 'v getarg = "(string \<Rightarrow> 'v option) \<times> nat"

fun db_getvaluesv :: "pg_env \<Rightarrow> pgresult \<Rightarrow> int \<Rightarrow> 'v getarg list \<Rightarrow> nat \<Rightarrow> (nat \<Rightarrow> 'v) \<Rightarrow> pg_world \<Rightarrow> nat \<times> (nat \<Rightarrow> 'v) \<times> pg_world" where
  "db_getvaluesv env rc tup_num [] n vars w = (n, vars, w)"
| "db_getvaluesv env rc tup_num ((conv, dst) # args) n vars w =
     (case PQgetvalue rc tup_num n of
        None \<Rightarrow> (n, vars, LOG_PGRES ''PQgetvalue'' rc w)
      | Some s \<Rightarrow>
          if s = [] then db_getvaluesv env rc tup_num args (n + 1) vars w
          else (case conv s of
                  None \<Rightarrow> (n, vars, LOG_ERRNO env ''sscanf'' w)
                | Some v \<Rightarrow> db_getvaluesv env rc tup_num args (n + 1) (vars(dst := v)) w))"

definition pg_getvalues :: "pg_env \<Rightarrow> pgresult \<Rightarrow> int \<Rightarrow> 'v getarg list \<Rightarrow> (nat \<Rightarrow> 'v) \<Rightarrow> pg_world \<Rightarrow> nat \<times> (nat \<Rightarrow> 'v) \<times> pg_world" where
  "pg_getvalues env rc tup_num args vars w =
     db_getvaluesv env rc tup_num args 0 vars (w\<lparr>pg_errbuf := (pg_errbuf w)[0 := CHR 0x00]\<rparr>)"

record PGiterator =
  it_rc :: pgres
  it_n :: nat
  it_n_tuples :: nat
  it_n_fields :: nat

text \<open>\<open>mem\<close> tells whether the iterator can be allocated.\<close>

definition pg_iterator_open :: "pg_env \<Rightarrow> bool \<Rightarrow> string option \<Rightarrow> pg_world \<Rightarrow> (PGiterator option \<times> pg_world) ub" where
  "pg_iterator_open env mem query w =
     (if \<not> mem then Some (None, LOG_ERRNO env ''calloc'' w)
      else (case db_execv env query w of
              (None, w) \<Rightarrow> Some (None, LOG_ERRNO env ''db_execv()'' w)
            | (Some (i, r), w) \<Rightarrow>
                if res_status r \<noteq> PGRES_TUPLES_OK
                then do { w \<leftarrow> PQclear (Some (i, r)) (LOG_PGRES ''db_exec'' r w); Some (None, w) }
                else Some (Some \<lparr>it_rc = (i, r), it_n = 0, it_n_tuples = length (res_tuples r), it_n_fields = res_nfields r\<rparr>, w)))"

definition pg_iterator_next :: "pg_env \<Rightarrow> 'v getarg list \<Rightarrow> PGiterator \<Rightarrow> (nat \<Rightarrow> 'v) \<times> pg_world \<Rightarrow> int \<times> PGiterator \<times> (nat \<Rightarrow> 'v) \<times> pg_world" where
  "pg_iterator_next env args it = (\<lambda>(vars, w).
     if it_n it < it_n_tuples it
     then (case db_getvaluesv env (snd (it_rc it)) (int (it_n it)) args 0 vars w of
             (n, vars, w) \<Rightarrow>
               if n = it_n_fields it then (int n, it\<lparr>it_n := it_n it + 1\<rparr>, vars, w)
               else (- 1, it, vars, w))
     else (0, it, vars, w))"

definition pg_iterator_close :: "PGiterator option option \<Rightarrow> pg_world \<Rightarrow> (PGiterator option option \<times> pg_world) ub" where
  "pg_iterator_close ii w =
     (case ii of
        Some (Some it) \<Rightarrow> do { w \<leftarrow> PQclear (Some (it_rc it)) w; Some (Some None, w) }
      | _ \<Rightarrow> Some (ii, w))"

section \<open>Notifications\<close>

text \<open>The clock in milliseconds, from seconds and nanoseconds.\<close>

definition db_gettime :: "int \<times> int \<Rightarrow> int" where
  "db_gettime = (\<lambda>(sec, nsec). sec * 1000 + nsec div 1000000)"

text \<open>
  A round of the loop: a notification that has arrived, the clock, the error of \<open>poll\<close> if it fails, and else its two groups of events. The loop also
  returns the timeouts it passes to \<open>poll\<close>, which are cast to \<open>int\<close>. Errno is what the loop itself stores.
\<close>

record notify_round =
  nr_notify :: "nat option"
  nr_clock :: "int \<times> int"
  nr_poll :: "errno option"
  nr_in :: bool
  nr_bad :: bool

definition poll_timeout :: "int \<Rightarrow> int \<Rightarrow> int" where
  "poll_timeout te tc = sint (word_of_int (te - tc) :: 32 word)"

fun notify_loop :: "int \<Rightarrow> notify_round list \<Rightarrow> int list \<Rightarrow> (nat option \<times> errno \<times> int list) io_result" where
  "notify_loop te [] polls = Suspended"
| "notify_loop te (r # rs) polls =
     (case nr_notify r of
        Some n \<Rightarrow> Returned (Some n, EAGAIN, polls)
      | None \<Rightarrow>
          let tc = db_gettime (nr_clock r); polls' = polls @ [poll_timeout te tc] in
          if \<not> tc \<le> te then Returned (None, EAGAIN, polls)
          else if nr_poll r \<noteq> None then Returned (None, the (nr_poll r), polls')
          else if nr_in r then notify_loop te rs polls'
          else if nr_bad r then Returned (None, EINVAL, polls')
          else notify_loop te rs polls')"

definition pg_get_notify :: "int \<Rightarrow> int \<times> int \<Rightarrow> notify_round list \<Rightarrow> (nat option \<times> errno \<times> int list) io_result" where
  "pg_get_notify tmo now rounds = notify_loop (if tmo < 0 then 2 ^ 63 - 1 else db_gettime now + tmo) rounds []"

section \<open>Ownership\<close>

definition objs :: "'a option \<Rightarrow> 'a list" where
  "objs x = (case x of None \<Rightarrow> [] | Some i \<Rightarrow> [i])"

lemma objs_simps [simp]: "objs None = []" "objs (Some i) = [i]"
  by (simp_all add: objs_def)

text \<open>The buffer of the last message: 256 characters of which the last stays 0.\<close>

definition errbuf_ok :: "pg_world \<Rightarrow> bool" where
  "errbuf_ok w \<longleftrightarrow> length (pg_errbuf w) = 256 \<and> pg_errbuf w ! 255 = CHR 0x00"

lemma snprintf_errmsg_ok [simp]:
  "pg_conns (snprintf_errmsg m w) = pg_conns w" "pg_results (snprintf_errmsg m w) = pg_results w" "pg_sent (snprintf_errmsg m w) = pg_sent w"
  "errbuf_ok w \<Longrightarrow> errbuf_ok (snprintf_errmsg m w)"
  by (auto simp: snprintf_errmsg_def errbuf_ok_def Let_def nth_append)

lemma LOG_PGCONN_ok [simp]:
  "pg_conns (LOG_PGCONN env w) = pg_conns w" "pg_results (LOG_PGCONN env w) = pg_results w" "pg_sent (LOG_PGCONN env w) = pg_sent w"
  "errbuf_ok w \<Longrightarrow> errbuf_ok (LOG_PGCONN env w)"
  by (auto simp: LOG_PGCONN_def errbuf_ok_def Let_def nth_append)

lemma errbuf_ok_upd [simp]:
  "errbuf_ok (w\<lparr>pg_conns := cs\<rparr>) = errbuf_ok w" "errbuf_ok (w\<lparr>pg_results := rs\<rparr>) = errbuf_ok w" "errbuf_ok (w\<lparr>pg_time := t\<rparr>) = errbuf_ok w"
  "errbuf_ok (w\<lparr>pg_sent := qs\<rparr>) = errbuf_ok w" "errbuf_ok (w\<lparr>pg_cfg := c\<rparr>) = errbuf_ok w"
  by (simp_all add: errbuf_ok_def)

lemmas log_defs = LOG_ERRNO_def LOG_PGRES_def

lemma db_execv_ok:
  assumes "db_execv env query w = (rc, w')"
  shows "pg_results w' = objs (map_option fst rc) @ pg_results w" "pg_conns w' = pg_conns w" "errbuf_ok w' = errbuf_ok w"
    "pg_sent w' = pg_sent w @ (case query of Some (c # q) \<Rightarrow> [c # q] | _ \<Rightarrow> [])"
  using assms by (auto simp: db_execv_def Let_def split: option.splits list.splits)

lemma PQclear_ok [simp]: "pg_results w = i # rs \<Longrightarrow> PQclear (Some (i, r)) w = Some (w\<lparr>pg_results := rs\<rparr>)" "PQclear None w = Some w"
  by (simp_all add: PQclear_def)

text \<open>An operation that keeps the connections and the message buffer, sends its query, and adds the given results to the live ones.\<close>

definition exec_ok :: "string option \<Rightarrow> pg_world \<Rightarrow> nat list \<Rightarrow> pg_world \<Rightarrow> bool" where
  "exec_ok query w rs w' \<longleftrightarrow> pg_results w' = rs @ pg_results w \<and> pg_conns w' = pg_conns w \<and> (errbuf_ok w \<longrightarrow> errbuf_ok w') \<and>
     (\<exists>q. pg_sent w' = pg_sent w @ q \<and> (q = [] \<or> q = [the query] \<and> query \<noteq> None \<and> query \<noteq> Some []))"

lemma db_execv_sent:
  "db_execv env query w = (rc, w') \<Longrightarrow> \<exists>q. pg_sent w' = pg_sent w @ q \<and> (q = [] \<or> q = [the query] \<and> query \<noteq> None \<and> query \<noteq> Some [])"
  using db_execv_ok(4) [of env query w rc w'] by (auto split: option.splits list.splits)

lemma pg_exec_command_ok:
  "\<exists>ok w'. pg_exec_command env query w = Some (ok, w') \<and> exec_ok query w [] w' \<and>
     (ok \<longleftrightarrow> (\<exists>i r. fst (db_execv env query w) = Some (i, r) \<and> res_status r = PGRES_COMMAND_OK))"
proof (cases "db_execv env query w")
  case (Pair rc w1)
  note ok = db_execv_ok [OF Pair] db_execv_sent [OF Pair]
  show ?thesis
  proof (cases rc)
    case None
    then show ?thesis using Pair ok by (auto simp: pg_exec_command_def exec_ok_def log_defs)
  next
    case (Some ir)
    then show ?thesis using Pair ok by (cases ir) (auto simp: pg_exec_command_def exec_ok_def log_defs)
  qed
qed

lemma pg_exec_query_ok:
  "\<exists>rc w'. pg_exec_query env query w = Some (rc, w') \<and> exec_ok query w (objs (map_option fst rc)) w' \<and>
     (\<forall>i r. rc = Some (i, r) \<longrightarrow> fst (db_execv env query w) = Some (i, r) \<and> res_status r = PGRES_TUPLES_OK)"
proof (cases "db_execv env query w")
  case (Pair rc w1)
  note ok = db_execv_ok [OF Pair] db_execv_sent [OF Pair]
  show ?thesis
  proof (cases rc)
    case None
    then show ?thesis using Pair ok by (auto simp: pg_exec_query_def exec_ok_def log_defs)
  next
    case (Some ir)
    then show ?thesis using Pair ok by (cases ir) (auto simp: pg_exec_query_def exec_ok_def log_defs)
  qed
qed

lemma pg_iterator_open_ok:
  "\<exists>it w'. pg_iterator_open env mem query w = Some (it, w') \<and> exec_ok query w (objs (map_option (fst \<circ> it_rc) it)) w' \<and>
     (\<forall>x. it = Some x \<longrightarrow> fst (db_execv env query w) = Some (it_rc x) \<and> res_status (snd (it_rc x)) = PGRES_TUPLES_OK \<and> it_n x = 0 \<and>
        it_n_tuples x = length (res_tuples (snd (it_rc x))) \<and> it_n_fields x = res_nfields (snd (it_rc x)))"
proof (cases "db_execv env query w")
  case (Pair rc w1)
  note ok = db_execv_ok [OF Pair] db_execv_sent [OF Pair]
  show ?thesis
  proof (cases rc)
    case None
    then show ?thesis using Pair ok by (cases mem) (auto simp: pg_iterator_open_def exec_ok_def log_defs)
  next
    case (Some ir)
    then show ?thesis using Pair ok by (cases ir; cases mem) (auto simp: pg_iterator_open_def exec_ok_def log_defs)
  qed
qed

lemma pg_login_ok:
  "\<exists>c w'. pg_login env args w = Some (c, w') \<and> pg_conns w' = objs c @ pg_conns w \<and> pg_results w' = pg_results w \<and> pg_sent w' = pg_sent w \<and>
     (errbuf_ok w \<longrightarrow> errbuf_ok w') \<and>
     (c \<noteq> None \<longleftrightarrow> env_login env (pg_time w) (case args of Some a \<Rightarrow> a | None \<Rightarrow> pg_cfg w) = Some True)"
  by (cases "env_login env (pg_time w) (case args of Some a \<Rightarrow> a | None \<Rightarrow> pg_cfg w)") (auto simp: pg_login_def PQfinish_def Let_def)

section \<open>Rows\<close>

text \<open>
  A cursor over rows: a step at a row that can be read returns the width and moves on, at a row that cannot be read it stays, and behind the
  last row it returns 0. The variables are the type \<open>'v\<close>.
\<close>

primrec fetches :: "('c \<Rightarrow> 'v \<Rightarrow> int \<times> 'c \<times> 'v) \<Rightarrow> nat \<Rightarrow> 'c \<Rightarrow> 'v \<Rightarrow> (int \<times> 'v) list" where
  "fetches nxt 0 c v = []"
| "fetches nxt (Suc n) c v = (case nxt c v of (st, c', v') \<Rightarrow> (st, v') # fetches nxt n c' v')"

primrec scanned :: "(nat \<Rightarrow> 'v \<Rightarrow> 'v option) \<Rightarrow> nat \<Rightarrow> nat \<Rightarrow> 'v \<Rightarrow> 'v list" where
  "scanned rd k 0 v = []"
| "scanned rd k (Suc n) v = (case rd k v of None \<Rightarrow> [] | Some v' \<Rightarrow> v' # scanned rd (Suc k) n v')"

locale row_cursor =
  fixes nxt :: "'c \<Rightarrow> 'v \<Rightarrow> int \<times> 'c \<times> 'v"
    and pos count width :: "'c \<Rightarrow> nat"
    and rd :: "'c \<Rightarrow> nat \<Rightarrow> 'v \<Rightarrow> 'v option"
  assumes nxt_row: "pos c < count c \<Longrightarrow> rd c (pos c) v = Some v' \<Longrightarrow>
      \<exists>c'. nxt c v = (int (width c), c', v') \<and> pos c' = Suc (pos c) \<and> count c' = count c \<and> width c' = width c \<and> rd c' = rd c"
    and nxt_bad: "pos c < count c \<Longrightarrow> rd c (pos c) v = None \<Longrightarrow> \<exists>v'. nxt c v = (- 1, c, v')"
    and nxt_end: "count c \<le> pos c \<Longrightarrow> nxt c v = (0, c, v)"
begin

lemma fetches_end: "count c \<le> pos c \<Longrightarrow> fetches nxt n c v = replicate n (0, v)"
  by (induction n) (simp_all add: nxt_end)

lemma fetches_all:
  assumes "pos c \<le> count c" "length (scanned (rd c) (pos c) (count c - pos c) v) = count c - pos c"
  shows "fetches nxt (count c - pos c + m) c v =
    map (Pair (int (width c))) (scanned (rd c) (pos c) (count c - pos c) v) @ replicate m (0, last (v # scanned (rd c) (pos c) (count c - pos c) v))"
  using assms
proof (induction "count c - pos c" arbitrary: c v)
  case 0
  then show ?case by (simp add: fetches_end)
next
  case (Suc n)
  then have lt: "pos c < count c" "count c - pos c = Suc n" by auto
  with Suc.prems obtain v' where v': "rd c (pos c) v = Some v'" by (cases "rd c (pos c) v") auto
  obtain c' where c': "nxt c v = (int (width c), c', v')" "pos c' = Suc (pos c)" "count c' = count c" "width c' = width c" "rd c' = rd c"
    using nxt_row [OF lt(1) v'] by blast
  have n: "n = count c' - pos c'" using lt c' by simp
  have "fetches nxt (count c' - pos c' + m) c' v' = map (Pair (int (width c'))) (scanned (rd c') (pos c') (count c' - pos c') v') @
      replicate m (0, last (v' # scanned (rd c') (pos c') (count c' - pos c') v'))"
    using Suc.hyps(1) [OF n, of v'] Suc.prems lt v' c' n by simp
  then show ?case using lt v' c' n by simp
qed

lemma fetch_stays: "pos c < count c \<Longrightarrow> rd c (pos c) v = None \<Longrightarrow> fst (nxt c v) = - 1 \<and> fst (snd (nxt c v)) = c"
  using nxt_bad [of c v] by auto

end

text \<open>What reading the row \<open>k\<close> of an iterator does: it succeeds if all fields were read.\<close>

definition row_read :: "pg_env \<Rightarrow> 'v getarg list \<Rightarrow> PGiterator \<Rightarrow> nat \<Rightarrow> (nat \<Rightarrow> 'v) \<times> pg_world \<Rightarrow> ((nat \<Rightarrow> 'v) \<times> pg_world) option" where
  "row_read env args it k = (\<lambda>(vars, w).
     case db_getvaluesv env (snd (it_rc it)) (int k) args 0 vars w of
       (n, r) \<Rightarrow> if n = it_n_fields it then Some r else None)"

interpretation pg_rows: row_cursor "pg_iterator_next env args" it_n it_n_tuples it_n_fields "row_read env args" for env args
  by unfold_locales (auto simp: pg_iterator_next_def row_read_def split: prod.splits if_splits)

text \<open>The values of a row, given by its texts: an empty text is skipped, any other is converted into its variable.\<close>

fun assign_row :: "string list \<Rightarrow> 'v getarg list \<Rightarrow> (nat \<Rightarrow> 'v) \<Rightarrow> nat \<Rightarrow> 'v" where
  "assign_row (s # ss) ((conv, dst) # args) vars = assign_row ss args (if s = [] then vars else vars(dst := the (conv s)))"
| "assign_row _ _ vars = vars"

definition convertible :: "string list \<Rightarrow> 'v getarg list \<Rightarrow> bool" where
  "convertible row args \<longleftrightarrow> length args = length row \<and> (\<forall>(s, conv, dst)\<in>set (zip row args). s \<noteq> [] \<longrightarrow> conv s \<noteq> None)"

lemma db_getvaluesv_row:
  assumes "0 \<le> k" "k < int (length (res_tuples rc))" "length (res_tuples rc ! nat k) = res_nfields rc"
    and "n \<le> res_nfields rc" "convertible (drop n (res_tuples rc ! nat k)) args"
  shows "db_getvaluesv env rc k args n vars w = (res_nfields rc, assign_row (drop n (res_tuples rc ! nat k)) args vars, w)"
  using assms(4,5)
proof (induction args arbitrary: n vars)
  case Nil
  then show ?case using assms(3) by (simp add: convertible_def)
next
  case (Cons a args)
  obtain conv dst where a: "a = (conv, dst)" by force
  let ?row = "res_tuples rc ! nat k"
  have n: "n < length ?row" using Cons.prems assms(3) by (auto simp: convertible_def)
  then have d: "drop n ?row = ?row ! n # drop (Suc n) ?row" by (simp add: Cons_nth_drop_Suc)
  have "convertible (drop (Suc n) ?row) args" "?row ! n \<noteq> [] \<longrightarrow> conv (?row ! n) \<noteq> None"
    using Cons.prems unfolding d a by (auto simp: convertible_def)
  then show ?case
    using Cons.IH [of "Suc n"] n assms a by (auto simp: PQgetvalue_def d split: option.splits)
qed

lemma db_getvaluesv_bad:
  assumes "length (res_tuples rc ! nat k) = res_nfields rc"
    and "n \<le> res_nfields rc" "length args = length (drop n (res_tuples rc ! nat k))" "\<not> convertible (drop n (res_tuples rc ! nat k)) args"
  shows "fst (db_getvaluesv env rc k args n vars w) < res_nfields rc"
  using assms(2-)
proof (induction args arbitrary: n vars)
  case Nil
  then show ?case by (simp add: convertible_def)
next
  case (Cons a args)
  obtain conv dst where a: "a = (conv, dst)" by force
  let ?row = "res_tuples rc ! nat k"
  have n: "n < length ?row" using Cons.prems by auto
  then have d: "drop n ?row = ?row ! n # drop (Suc n) ?row" by (simp add: Cons_nth_drop_Suc)
  have "\<not> convertible (drop (Suc n) ?row) args" if "?row ! n = [] \<or> conv (?row ! n) \<noteq> None"
    using Cons.prems that unfolding d a by (auto simp: convertible_def)
  then show ?case
    using Cons.IH [of "Suc n"] Cons.prems n assms(1) a by (auto simp: PQgetvalue_def split: option.splits)
qed

primrec scan_rows :: "string list list \<Rightarrow> 'v getarg list \<Rightarrow> (nat \<Rightarrow> 'v) \<Rightarrow> (nat \<Rightarrow> 'v) list" where
  "scan_rows [] args vars = []"
| "scan_rows (row # rows) args vars = (let vars' = assign_row row args vars in vars' # scan_rows rows args vars')"

lemma length_scan_rows [simp]: "length (scan_rows rows args vars) = length rows"
  by (induction rows arbitrary: vars) (simp_all add: Let_def)

text \<open>An iterator as it was opened, possibly moved on.\<close>

definition iterator_ok :: "PGiterator \<Rightarrow> bool" where
  "iterator_ok it \<longleftrightarrow> it_n_tuples it = length (res_tuples (snd (it_rc it))) \<and> it_n_fields it = res_nfields (snd (it_rc it)) \<and>
     (\<forall>row\<in>set (res_tuples (snd (it_rc it))). length row = it_n_fields it)"

lemma scanned_rows:
  assumes "iterator_ok it" "\<forall>row\<in>set (res_tuples (snd (it_rc it))). convertible row args" "k + n = it_n_tuples it"
  shows "scanned (row_read env args it) k n (vars, w) = map (\<lambda>v. (v, w)) (scan_rows (drop k (res_tuples (snd (it_rc it)))) args vars)"
  using assms(3)
proof (induction n arbitrary: k vars)
  case 0
  then show ?case using assms(1) by (simp add: iterator_ok_def)
next
  case (Suc n)
  let ?rows = "res_tuples (snd (it_rc it))"
  have k: "k < length ?rows" using Suc.prems assms(1) by (simp add: iterator_ok_def)
  then have row: "?rows ! k \<in> set ?rows" by simp
  have "row_read env args it k (vars, w) = Some (assign_row (?rows ! k) args vars, w)"
    using db_getvaluesv_row [of "int k" "snd (it_rc it)" 0 args env vars w] assms(1,2) k row
    by (simp add: row_read_def iterator_ok_def)
  then show ?case
    using Suc.IH [of "Suc k" "assign_row (?rows ! k) args vars"] Suc.prems k by (simp add: Cons_nth_drop_Suc [symmetric] Let_def)
qed

section \<open>Properties\<close>

text \<open>C39. Connections and results have one owner: a command releases its result and succeeds exactly if the server reports success, a query or an iterator returns a
  result that is live and has rows, or nothing and nothing is kept, and closing an iterator releases its result once, however often it is closed. A
  login that fails keeps no connection. A query is sent at most once, and never if its text is empty. The message buffer stays terminated.\<close>

theorem pg_objects_owned:
  "(\<exists>ok w'. pg_exec_command env query w = Some (ok, w') \<and> exec_ok query w [] w' \<and>
     (ok \<longleftrightarrow> (\<exists>i r. fst (db_execv env query w) = Some (i, r) \<and> res_status r = PGRES_COMMAND_OK))) \<and>
   (\<exists>rc w'. pg_exec_query env query w = Some (rc, w') \<and> exec_ok query w (objs (map_option fst rc)) w' \<and>
     (\<forall>i r. rc = Some (i, r) \<longrightarrow> fst (db_execv env query w) = Some (i, r) \<and> res_status r = PGRES_TUPLES_OK)) \<and>
   (\<exists>it w' w''. pg_iterator_open env mem query w = Some (it, w') \<and> exec_ok query w (objs (map_option (fst \<circ> it_rc) it)) w' \<and>
     (\<forall>x. it = Some x \<longrightarrow> fst (db_execv env query w) = Some (it_rc x) \<and> res_status (snd (it_rc x)) = PGRES_TUPLES_OK) \<and>
     pg_iterator_close (Some it) w' = Some (Some None, w'') \<and> exec_ok query w [] w'' \<and> pg_iterator_close (Some None) w'' = Some (Some None, w'')) \<and>
   (\<exists>c w' w''. pg_login env args w = Some (c, w') \<and> pg_conns w' = objs c @ pg_conns w \<and> (errbuf_ok w \<longrightarrow> errbuf_ok w') \<and>
     (c \<noteq> None \<longleftrightarrow> env_login env (pg_time w) (case args of Some a \<Rightarrow> a | None \<Rightarrow> pg_cfg w) = Some True) \<and>
     pg_close (Some c) w' = Some (Some None, w'') \<and> pg_conns w'' = pg_conns w)"
proof (intro conjI pg_exec_command_ok pg_exec_query_ok)
  obtain it w' where it: "pg_iterator_open env mem query w = Some (it, w')" "exec_ok query w (objs (map_option (fst \<circ> it_rc) it)) w'"
    "\<forall>x. it = Some x \<longrightarrow> fst (db_execv env query w) = Some (it_rc x) \<and> res_status (snd (it_rc x)) = PGRES_TUPLES_OK"
    using pg_iterator_open_ok [of env mem query w] by blast
  obtain w'' where "pg_iterator_close (Some it) w' = Some (Some None, w'')" "exec_ok query w [] w''"
    using it(2) by (cases it) (auto simp: pg_iterator_close_def exec_ok_def PQclear_def split: prod.splits)
  then show "\<exists>it w' w''. pg_iterator_open env mem query w = Some (it, w') \<and> exec_ok query w (objs (map_option (fst \<circ> it_rc) it)) w' \<and>
     (\<forall>x. it = Some x \<longrightarrow> fst (db_execv env query w) = Some (it_rc x) \<and> res_status (snd (it_rc x)) = PGRES_TUPLES_OK) \<and>
     pg_iterator_close (Some it) w' = Some (Some None, w'') \<and> exec_ok query w [] w'' \<and> pg_iterator_close (Some None) w'' = Some (Some None, w'')"
    using it by (auto simp: pg_iterator_close_def [of "Some None"])
  obtain c v where c: "pg_login env args w = Some (c, v)" "pg_conns v = objs c @ pg_conns w" "errbuf_ok w \<longrightarrow> errbuf_ok v"
    "c \<noteq> None \<longleftrightarrow> env_login env (pg_time w) (case args of Some a \<Rightarrow> a | None \<Rightarrow> pg_cfg w) = Some True"
    using pg_login_ok [of env args w] by blast
  moreover have "\<exists>v'. pg_close (Some c) v = Some (Some None, v') \<and> pg_conns v' = pg_conns w"
    using c(2) by (cases c) (auto simp: pg_close_def PQfinish_def)
  ultimately show "\<exists>c w' w''. pg_login env args w = Some (c, w') \<and> pg_conns w' = objs c @ pg_conns w \<and> (errbuf_ok w \<longrightarrow> errbuf_ok w') \<and>
     (c \<noteq> None \<longleftrightarrow> env_login env (pg_time w) (case args of Some a \<Rightarrow> a | None \<Rightarrow> pg_cfg w) = Some True) \<and>
     pg_close (Some c) w' = Some (Some None, w'') \<and> pg_conns w'' = pg_conns w" by blast
qed


lemma poll_timeout_exact: "0 \<le> te - tc \<Longrightarrow> te - tc < 2 ^ 31 \<Longrightarrow> poll_timeout te tc = te - tc"
  unfolding poll_timeout_def sint_sbintrunc' by (simp add: signed_take_bit_int_eq_self)

lemma notify_loop_ok:
  assumes "notify_loop te rs polls = Returned (n, e, polls')" "\<forall>r\<in>set rs. lo \<le> db_gettime (nr_clock r)" "te - lo < 2 ^ 31" "\<forall>t\<in>set polls. 0 \<le> t \<and> t \<le> te - lo"
  shows "(\<forall>t\<in>set polls'. 0 \<le> t \<and> t \<le> te - lo) \<and> (n \<noteq> None \<longrightarrow> n \<in> nr_notify ` set rs)"
  using assms
proof (induction te rs polls rule: notify_loop.induct)
  case (2 te r rs polls)
  let ?tc = "db_gettime (nr_clock r)"
  have t: "poll_timeout te ?tc = te - ?tc" if "?tc \<le> te" using 2 that by (intro poll_timeout_exact) auto
  show ?case using 2 t
    by (auto simp: Let_def split: option.splits if_splits)
qed simp

lemma notify_loop_ends: "r \<in> set rs \<Longrightarrow> te < db_gettime (nr_clock r) \<Longrightarrow> notify_loop te rs polls \<noteq> Suspended"
  by (induction te rs polls rule: notify_loop.induct) (auto simp: Let_def split: option.splits)

text \<open>Waiting for a notification with a limit: every timeout that is passed to \<open>poll\<close> is the time that is left, never negative (which would be a wait without limit) and
  never more than the limit, and the call returns as soon as the clock is seen behind the limit. What it returns has arrived.\<close>

theorem pg_get_notify_bounded:
  assumes "0 \<le> tmo" "tmo < 2 ^ 31" "\<forall>r\<in>set rounds. db_gettime now \<le> db_gettime (nr_clock r)"
  shows "(\<forall>n e polls. pg_get_notify tmo now rounds = Returned (n, e, polls) \<longrightarrow>
      (\<forall>t\<in>set polls. 0 \<le> t \<and> t \<le> tmo) \<and> (n \<noteq> None \<longrightarrow> n \<in> nr_notify ` set rounds)) \<and>
    ((\<exists>r\<in>set rounds. db_gettime now + tmo < db_gettime (nr_clock r)) \<longrightarrow> pg_get_notify tmo now rounds \<noteq> Suspended)"
  using assms notify_loop_ok [of "db_gettime now + tmo" rounds "[]" _ _ _ "db_gettime now"] notify_loop_ends [of _ rounds "db_gettime now + tmo" "[]"]
  by (auto simp: pg_get_notify_def)

text \<open>A wait without limit passes a negative timeout only in half of the time: when bit 31 of the clock is set, \<open>poll\<close> gets a limit.\<close>

lemma poll_timeout_unlimited: "poll_timeout (2 ^ 63 - 1) (2 ^ 31) = 2 ^ 31 - 1" "poll_timeout (2 ^ 63 - 1) 0 = - 1"
  by (simp_all add: poll_timeout_def)

text \<open>An empty field keeps the value of the row before; a row without fields looks like the end of the data.\<close>

lemma empty_field_keeps:
  "fetches (pg_iterator_next env [(Some, 0)]) 2
     \<lparr>it_rc = (0, \<lparr>res_status = PGRES_TUPLES_OK, res_message = [], res_nfields = 1, res_tuples = [[''7''], [[]]]\<rparr>), it_n = 0, it_n_tuples = 2, it_n_fields = 1\<rparr> (vars, w) =
   [(1, vars(0 := ''7''), w), (1, vars(0 := ''7''), w)]"
  by (simp add: numeral_2_eq_2 pg_iterator_next_def PQgetvalue_def)

lemma no_fields_end:
  "fst (pg_iterator_next env [] \<lparr>it_rc = (0, \<lparr>res_status = PGRES_TUPLES_OK, res_message = [], res_nfields = 0, res_tuples = [[]]\<rparr>), it_n = 0, it_n_tuples = 1, it_n_fields = 0\<rparr> (vars, w)) = 0"
  by (simp add: pg_iterator_next_def)

section \<open>Examples\<close>

definition example_iterator :: PGiterator where
  "example_iterator = \<lparr>it_rc = (4, \<lparr>res_status = PGRES_TUPLES_OK, res_message = [], res_nfields = 2, res_tuples = [[''1'', ''a''], [''2'', ''b'']]\<rparr>), it_n = 0, it_n_tuples = 2, it_n_fields = 2\<rparr>"

definition example_env :: pg_env where
  "example_env = \<lparr>env_exec = (\<lambda>_ _. None), env_login = (\<lambda>_ _. None), env_connmsg = [], env_errno = []\<rparr>"

definition example_world :: pg_world where
  "example_world = \<lparr>pg_cfg = \<lparr>pg_host = None, pg_port = None, pg_dbname = None, pg_user = None, pg_psw = None, pg_options = None, pg_tty = None\<rparr>,
     pg_errbuf = replicate 256 CHR 0x00, pg_time = 0, pg_conns = [], pg_results = [4], pg_sent = []\<rparr>"


theorem pg_get_notify_bounded_witness:
  "pg_get_notify 10 (1, 0) [\<lparr>nr_notify = None, nr_clock = (1, 4000000), nr_poll = None, nr_in = False, nr_bad = False\<rparr>,
     \<lparr>nr_notify = None, nr_clock = (1, 11000000), nr_poll = None, nr_in = False, nr_bad = False\<rparr>] = Returned (None, EAGAIN, [6]) \<and> (0 :: int) \<le> 6 \<and> (6 :: int) \<le> 10"
  using pg_get_notify_bounded [of 10 "[\<lparr>nr_notify = None, nr_clock = (1, 4000000), nr_poll = None, nr_in = False, nr_bad = False\<rparr>,
     \<lparr>nr_notify = None, nr_clock = (1, 11000000), nr_poll = None, nr_in = False, nr_bad = False\<rparr>]" "(1, 0)"]
  by (simp add: pg_get_notify_def db_gettime_def poll_timeout_def)

definition example_answers :: pg_env where
  "example_answers = \<lparr>env_exec = (\<lambda>_ _. Some (snd (it_rc example_iterator))), env_login = (\<lambda>_ _. Some False), env_connmsg = ''refused'', env_errno = []\<rparr>"

theorem pg_objects_owned_witness:
  "(\<exists>w'. pg_exec_command example_answers (Some ''select 1'') example_world = Some (False, w') \<and> pg_results w' = [4]) \<and>
   (\<exists>w'. pg_login example_answers None example_world = Some (None, w') \<and> pg_conns w' = [])"
proof -
  note ok = pg_objects_owned [of example_answers "Some ''select 1''" example_world True None]
  have st: "res_status (snd (it_rc example_iterator)) = PGRES_TUPLES_OK" by (simp add: example_iterator_def)
  have "\<exists>w'. pg_exec_command example_answers (Some ''select 1'') example_world = Some (False, w') \<and> pg_results w' = [4]"
    using ok [THEN conjunct1] st by (auto simp: exec_ok_def example_answers_def example_world_def db_execv_def Let_def)
  moreover have "\<exists>w'. pg_login example_answers None example_world = Some (None, w') \<and> pg_conns w' = []"
    using ok [THEN conjunct2, THEN conjunct2, THEN conjunct2] by (auto simp: example_answers_def example_world_def objs_def split: option.splits)
  ultimately show ?thesis by blast
qed

end
