(* ===== verification/Dns_Glue.thy ===== *)
theory Dns_Glue
  imports Prelude "HOL-Library.Monad_Syntax"
begin

text \<open>
  The resolver objects behind a query, src/dns/dns-resolve.c, with the functions of src/dns/dns.c that create, share and release them. An
  object lives in a store with its reference count; a resolver refers to a configuration, a table of hosts and a table of
  hints, and a query to a resolver. Using an object that was released is undefined. What the system answers (memory, files, sockets) is a
  parameter. The search itself, which works inside of a resolver, is left to the library.
\<close>

section \<open>Error codes\<close>

text \<open>Errors of the system are positive, those of the library negative.\<close>

definition DNS_EBASE :: int where
  "DNS_EBASE = - 1684960064"

definition dns_codes :: "(int \<times> string) list" where
  "dns_codes = zip (map (\<lambda>k. DNS_EBASE + int k) [0..<12])
     [''ENOBUFS'', ''EILLEGAL'', ''EORDER'', ''ESECTION'', ''EUNKNOWN'', ''EADDRESS'', ''ENOQUERY'', ''ENOANSWER'', ''EFETCHED'', ''ESERVICE'', ''ENONAME'', ''EFAIL'']"

definition cf_dns_status_str :: "int \<Rightarrow> string" where
  "cf_dns_status_str status = (case map_of dns_codes status of Some s \<Rightarrow> s | None \<Rightarrow> ''UNKNOWN'')"

definition SYS_ENODATA :: int where "SYS_ENODATA = 61"
definition SYS_ENAMETOOLONG :: int where "SYS_ENAMETOOLONG = 36"
definition SYS_EINVAL :: int where "SYS_EINVAL = 22"

definition cf_dns_status2errno :: "int \<Rightarrow> int" where
  "cf_dns_status2errno status = (if status \<in> fst ` set dns_codes then SYS_ENODATA else status)"

section \<open>Objects\<close>

record dns_resolver =
  dr_refcount :: u64
  dr_resconf :: "nat option"
  dr_hosts :: "nat option"
  dr_hints :: "nat option"

record dns_mem =
  dm_next :: nat
  dm_resconf :: "nat \<Rightarrow> u64 option"
  dm_hosts :: "nat \<Rightarrow> u64 option"
  dm_hints :: "nat \<Rightarrow> u64 option"
  dm_res :: "nat \<Rightarrow> dns_resolver option"
  dm_ai :: "nat \<Rightarrow> nat option option"

text \<open>\<open>dns_atomic_fetch_add\<close>, and a release that frees the object with its last reference; the same for the three kinds of tables.\<close>

definition fetch_add :: "nat \<Rightarrow> (nat \<Rightarrow> u64 option) \<Rightarrow> (nat \<Rightarrow> u64 option) ub" where
  "fetch_add i m = (case m i of None \<Rightarrow> None | Some c \<Rightarrow> Some (m(i := Some (c + 1))))"

definition close_ref :: "nat option \<Rightarrow> (nat \<Rightarrow> u64 option) \<Rightarrow> (nat \<Rightarrow> u64 option) ub" where
  "close_ref p m =
     (case p of
        None \<Rightarrow> Some m
      | Some i \<Rightarrow> (case m i of None \<Rightarrow> None | Some c \<Rightarrow> Some (if c \<noteq> 1 then m(i := Some (c - 1)) else m(i := None))))"

definition dns_resconf_acquire :: "nat \<Rightarrow> dns_mem \<Rightarrow> dns_mem ub" where
  "dns_resconf_acquire i s = do { m \<leftarrow> fetch_add i (dm_resconf s); Some (s\<lparr>dm_resconf := m\<rparr>) }"

definition dns_resconf_close :: "nat option \<Rightarrow> dns_mem \<Rightarrow> dns_mem ub" where
  "dns_resconf_close p s = do { m \<leftarrow> close_ref p (dm_resconf s); Some (s\<lparr>dm_resconf := m\<rparr>) }"

definition dns_hosts_acquire :: "nat \<Rightarrow> dns_mem \<Rightarrow> dns_mem ub" where
  "dns_hosts_acquire i s = do { m \<leftarrow> fetch_add i (dm_hosts s); Some (s\<lparr>dm_hosts := m\<rparr>) }"

definition dns_hosts_close :: "nat option \<Rightarrow> dns_mem \<Rightarrow> dns_mem ub" where
  "dns_hosts_close p s = do { m \<leftarrow> close_ref p (dm_hosts s); Some (s\<lparr>dm_hosts := m\<rparr>) }"

definition dns_hints_acquire :: "nat \<Rightarrow> dns_mem \<Rightarrow> dns_mem ub" where
  "dns_hints_acquire i s = do { m \<leftarrow> fetch_add i (dm_hints s); Some (s\<lparr>dm_hints := m\<rparr>) }"

definition dns_hints_close :: "nat option \<Rightarrow> dns_mem \<Rightarrow> dns_mem ub" where
  "dns_hints_close p s = do { m \<leftarrow> close_ref p (dm_hints s); Some (s\<lparr>dm_hints := m\<rparr>) }"

text \<open>What the system answers, 0 being success: opening the configuration (memory and host name), reading the two files, the memory and the
  file of the hosts, the memory and the content of the hints, the memory and the socket of a resolver, and the memory of a query.\<close>

record dns_env =
  de_resconf :: int
  de_resolv_conf :: int
  de_nsswitch :: int
  de_hosts :: int
  de_hosts_file :: int
  de_hints :: int
  de_insert :: int
  de_resolver :: int
  de_socket :: int
  de_ai :: int

text \<open>A function that makes an object returns it or an error.\<close>

definition dns_resconf_open :: "dns_env \<Rightarrow> dns_mem \<Rightarrow> (int + nat) \<times> dns_mem" where
  "dns_resconf_open env s =
     (if de_resconf env \<noteq> 0 then (Inl (de_resconf env), s)
      else (Inr (dm_next s), s\<lparr>dm_next := dm_next s + 1, dm_resconf := (dm_resconf s)(dm_next s := Some 1)\<rparr>))"

definition dns_hosts_open :: "dns_env \<Rightarrow> dns_mem \<Rightarrow> (int + nat) \<times> dns_mem" where
  "dns_hosts_open env s =
     (if de_hosts env \<noteq> 0 then (Inl (de_hosts env), s)
      else (Inr (dm_next s), s\<lparr>dm_next := dm_next s + 1, dm_hosts := (dm_hosts s)(dm_next s := Some 1)\<rparr>))"

definition dns_hosts_local :: "dns_env \<Rightarrow> dns_mem \<Rightarrow> ((int + nat) \<times> dns_mem) ub" where
  "dns_hosts_local env s =
     (case dns_hosts_open env s of
        (Inl e, s) \<Rightarrow> Some (Inl e, s)
      | (Inr i, s) \<Rightarrow>
          if de_hosts_file env \<noteq> 0 then do { s \<leftarrow> dns_hosts_close (Some i) s; Some (Inl (de_hosts_file env), s) }
          else Some (Inr i, s))"

definition dns_hints_open :: "dns_env \<Rightarrow> dns_mem \<Rightarrow> (int + nat) \<times> dns_mem" where
  "dns_hints_open env s =
     (if de_hints env \<noteq> 0 then (Inl (de_hints env), s)
      else (Inr (dm_next s), s\<lparr>dm_next := dm_next s + 1, dm_hints := (dm_hints s)(dm_next s := Some 1)\<rparr>))"

text \<open>The configuration is not null in the call of the glue.\<close>

definition dns_hints_local :: "dns_env \<Rightarrow> nat \<Rightarrow> dns_mem \<Rightarrow> ((int + nat) \<times> dns_mem) ub" where
  "dns_hints_local env resconf s =
     do { s \<leftarrow> dns_resconf_acquire resconf s;
          (case dns_hints_open env s of
             (Inl e, s) \<Rightarrow> do { s \<leftarrow> dns_resconf_close (Some resconf) s; Some (Inl e, s) }
           | (Inr hints, s) \<Rightarrow>
               if de_insert env \<noteq> 0
               then do { s \<leftarrow> dns_resconf_close (Some resconf) s; s \<leftarrow> dns_hints_close (Some hints) s; Some (Inl (de_insert env), s) }
               else do { s \<leftarrow> dns_resconf_close (Some resconf) s; Some (Inr hints, s) }) }"

definition dns_res_close :: "nat option \<Rightarrow> dns_mem \<Rightarrow> dns_mem ub" where
  "dns_res_close p s =
     (case p of
        None \<Rightarrow> Some s
      | Some r \<Rightarrow>
          do { R \<leftarrow> dm_res s r;
               if 1 < dr_refcount R then Some (s\<lparr>dm_res := (dm_res s)(r := Some (R\<lparr>dr_refcount := dr_refcount R - 1\<rparr>))\<rparr>)
               else do { s \<leftarrow> dns_hints_close (dr_hints R) s; s \<leftarrow> dns_hosts_close (dr_hosts R) s; s \<leftarrow> dns_resconf_close (dr_resconf R) s;
                         Some (s\<lparr>dm_res := (dm_res s)(r := None)\<rparr>) } })"

text \<open>The references of the resolver are taken first, and given back when it cannot be made; until the socket is there it refers to nothing.\<close>

definition dns_res_open :: "dns_env \<Rightarrow> nat \<Rightarrow> nat \<Rightarrow> nat \<Rightarrow> dns_mem \<Rightarrow> ((int + nat) \<times> dns_mem) ub" where
  "dns_res_open env resconf hosts hints s =
     do { s \<leftarrow> dns_resconf_acquire resconf s; s \<leftarrow> dns_hosts_acquire hosts s; s \<leftarrow> dns_hints_acquire hints s;
          let r = dm_next s;
          let made = s\<lparr>dm_next := r + 1, dm_res := (dm_res s)(r := Some \<lparr>dr_refcount = 1, dr_resconf = None, dr_hosts = None, dr_hints = None\<rparr>)\<rparr>;
          if de_resolver env = 0 \<and> de_socket env = 0
          then Some (Inr r, made\<lparr>dm_res := (dm_res s)(r := Some \<lparr>dr_refcount = 1, dr_resconf = Some resconf, dr_hosts = Some hosts, dr_hints = Some hints\<rparr>)\<rparr>)
          else do { s \<leftarrow> (if de_resolver env \<noteq> 0 then Some s else dns_res_close (Some r) made);
                    s \<leftarrow> dns_resconf_close (Some resconf) s; s \<leftarrow> dns_hosts_close (Some hosts) s; s \<leftarrow> dns_hints_close (Some hints) s;
                    Some (Inl (if de_resolver env \<noteq> 0 then de_resolver env else de_socket env), s) } }"

definition dns_res_acquire :: "nat \<Rightarrow> dns_mem \<Rightarrow> dns_mem ub" where
  "dns_res_acquire r s = do { R \<leftarrow> dm_res s r; Some (s\<lparr>dm_res := (dm_res s)(r := Some (R\<lparr>dr_refcount := dr_refcount R + 1\<rparr>))\<rparr>) }"

definition dns_ai_close :: "nat option \<Rightarrow> dns_mem \<Rightarrow> dns_mem ub" where
  "dns_ai_close p s =
     (case p of
        None \<Rightarrow> Some s
      | Some a \<Rightarrow> do { res \<leftarrow> dm_ai s a; s \<leftarrow> dns_res_close res s; Some (s\<lparr>dm_ai := (dm_ai s)(a := None)\<rparr>) })"

text \<open>The hints of the caller are followed, so they cannot be null. There is no service; the name has at most 255 characters.\<close>

definition dns_ai_open :: "dns_env \<Rightarrow> string \<Rightarrow> 'h option \<Rightarrow> nat \<Rightarrow> dns_mem \<Rightarrow> ((int + nat) \<times> dns_mem) ub" where
  "dns_ai_open env host hints res s =
     do { s \<leftarrow> dns_res_acquire res s;
          if de_ai env \<noteq> 0 then do { s \<leftarrow> dns_res_close (Some res) s; Some (Inl (de_ai env), s) }
          else do { h \<leftarrow> hints;
                    let a = dm_next s;
                    let s = s\<lparr>dm_next := a + 1, dm_ai := (dm_ai s)(a := Some (Some res))\<rparr>;
                    if 256 \<le> length host then do { s \<leftarrow> dns_ai_close (Some a) s; Some (Inl SYS_ENAMETOOLONG, s) }
                    else Some (Inr a, s) } }"

section \<open>The glue\<close>

definition getresconf :: "dns_env \<Rightarrow> dns_mem \<Rightarrow> ((int + nat) \<times> dns_mem) ub" where
  "getresconf env s =
     (case dns_resconf_open env s of
        (Inl e, s) \<Rightarrow> Some (Inl e, s)
      | (Inr i, s) \<Rightarrow>
          (let e = (if de_resolv_conf env \<noteq> 0 then de_resolv_conf env else de_nsswitch env) in
           if e \<noteq> 0 then do { s \<leftarrow> dns_resconf_close (Some i) s; Some (Inl e, s) } else Some (Inr i, s)))"

definition gethosts :: "dns_env \<Rightarrow> dns_mem \<Rightarrow> ((int + nat) \<times> dns_mem) ub" where
  "gethosts env = dns_hosts_local env"

text \<open>The tables are released at the end, whether or not a resolver has taken references.\<close>

definition create_resolver :: "dns_env \<Rightarrow> dns_mem \<Rightarrow> ((int + nat) \<times> dns_mem) ub" where
  "create_resolver env s =
     do { (rc, s) \<leftarrow> getresconf env s;
          (case rc of
             Inl e \<Rightarrow> Some (Inl e, s)
           | Inr resconf \<Rightarrow>
               do { (ho, s) \<leftarrow> gethosts env s;
                    (case ho of
                       Inl e \<Rightarrow> do { s \<leftarrow> dns_resconf_close (Some resconf) s; Some (Inl e, s) }
                     | Inr hosts \<Rightarrow>
                         do { (hi, s) \<leftarrow> dns_hints_local env resconf s;
                              (case hi of
                                 Inl e \<Rightarrow> do { s \<leftarrow> dns_hosts_close (Some hosts) s; s \<leftarrow> dns_resconf_close (Some resconf) s; Some (Inl e, s) }
                               | Inr hints \<Rightarrow>
                                   do { (R, s) \<leftarrow> dns_res_open env resconf hosts hints s;
                                        s \<leftarrow> dns_hints_close (Some hints) s;
                                        s \<leftarrow> dns_hosts_close (Some hosts) s;
                                        s \<leftarrow> dns_resconf_close (Some resconf) s;
                                        Some (R, s) }) }) }) }"

text \<open>The result, the query and errno; \<open>e0\<close> is errno before.\<close>

definition cf_resolve_submit :: "dns_env \<Rightarrow> string \<Rightarrow> 'h option \<Rightarrow> int \<Rightarrow> dns_mem \<Rightarrow> (int \<times> nat option \<times> int \<times> dns_mem) ub" where
  "cf_resolve_submit env name hints e0 s =
     do { (R, s) \<leftarrow> create_resolver env s;
          (error, ai, s) \<leftarrow>
            (case R of
               Inl e \<Rightarrow> Some (e, None, s)
             | Inr res \<Rightarrow>
                 do { (r, s) \<leftarrow> dns_ai_open env name hints res s;
                      s \<leftarrow> dns_res_close (Some res) s;
                      (case r of Inl e \<Rightarrow> Some (e, None, s) | Inr a \<Rightarrow> Some (0, Some a, s)) });
          if error \<noteq> 0 \<and> ai \<noteq> None
          then do { s \<leftarrow> dns_ai_close ai s; Some (error, None, cf_dns_status2errno error, s) }
          else Some (error, ai, e0, s) }"

definition cf_resolve_destroy :: "nat option option \<Rightarrow> dns_mem \<Rightarrow> (nat option option \<times> dns_mem) ub" where
  "cf_resolve_destroy q s =
     (case q of
        Some (Some a) \<Rightarrow> do { s \<leftarrow> dns_ai_close (Some a) s; Some (Some None, s) }
      | _ \<Rightarrow> Some (q, s))"

text \<open>The status of the next answer, with errno.\<close>

definition cf_resolve_fetch :: "int \<Rightarrow> int \<times> int" where
  "cf_resolve_fetch status = (status, if status < 0 then cf_dns_status2errno status else status)"

section \<open>Lemmas\<close>

text \<open>Addresses that are not used yet, and stores with the same objects.\<close>

definition unused :: "dns_mem \<Rightarrow> bool" where
  "unused s \<longleftrightarrow> (\<forall>i\<ge>dm_next s. dm_resconf s i = None \<and> dm_hosts s i = None \<and> dm_hints s i = None \<and> dm_res s i = None \<and> dm_ai s i = None)"

definition same_objs :: "dns_mem \<Rightarrow> dns_mem \<Rightarrow> bool" where
  "same_objs s s' \<longleftrightarrow> dm_resconf s' = dm_resconf s \<and> dm_hosts s' = dm_hosts s \<and> dm_hints s' = dm_hints s \<and> dm_res s' = dm_res s \<and> dm_ai s' = dm_ai s \<and>
     dm_next s \<le> dm_next s'"

lemma unused_same: "unused s \<Longrightarrow> same_objs s s' \<Longrightarrow> unused s'"
  by (auto simp: unused_def same_objs_def)

lemma unused_next: "unused s \<Longrightarrow> dm_next s \<le> i \<Longrightarrow>
    dm_resconf s i = None \<and> dm_hosts s i = None \<and> dm_hints s i = None \<and> dm_res s i = None \<and> dm_ai s i = None"
  by (simp add: unused_def)

lemmas dns_defs = fetch_add_def close_ref_def dns_resconf_acquire_def dns_resconf_close_def dns_hosts_acquire_def dns_hosts_close_def dns_hints_acquire_def
  dns_hints_close_def

text \<open>The store with a configuration, hosts and hints at \<open>n\<close>, \<open>n + 1\<close> and \<open>n + 2\<close>, each with one reference, and \<open>k\<close> addresses taken.\<close>

definition with_tables :: "dns_mem \<Rightarrow> nat \<Rightarrow> dns_mem" where
  "with_tables s k = s\<lparr>dm_next := dm_next s + k, dm_resconf := (dm_resconf s)(dm_next s := Some 1), dm_hosts := (dm_hosts s)(Suc (dm_next s) := Some 1),
     dm_hints := (dm_hints s)(Suc (Suc (dm_next s)) := Some 1)\<rparr>"

text \<open>A resolver behind the tables.\<close>

definition with_resolver :: "dns_mem \<Rightarrow> nat \<Rightarrow> dns_mem" where
  "with_resolver s k = (with_tables s k)\<lparr>dm_res := (dm_res s)(dm_next s + 3 := Some \<lparr>dr_refcount = 1, dr_resconf = Some (dm_next s), dr_hosts = Some (Suc (dm_next s)),
     dr_hints = Some (Suc (Suc (dm_next s)))\<rparr>)\<rparr>"

lemma getresconf_ok:
  assumes "unused s"
  shows "if de_resconf env = 0 \<and> de_resolv_conf env = 0 \<and> de_nsswitch env = 0
    then getresconf env s = Some (Inr (dm_next s), s\<lparr>dm_next := dm_next s + 1, dm_resconf := (dm_resconf s)(dm_next s := Some 1)\<rparr>)
    else \<exists>e s'. e \<noteq> 0 \<and> getresconf env s = Some (Inl e, s') \<and> same_objs s s'"
  using unused_next [OF assms, of "dm_next s"]
  by (auto simp: getresconf_def dns_resconf_open_def dns_defs same_objs_def Let_def fun_upd_idem)

lemma gethosts_ok:
  assumes "dm_hosts s (dm_next s) = None"
  shows "if de_hosts env = 0 \<and> de_hosts_file env = 0
    then gethosts env s = Some (Inr (dm_next s), s\<lparr>dm_next := dm_next s + 1, dm_hosts := (dm_hosts s)(dm_next s := Some 1)\<rparr>)
    else \<exists>e s'. e \<noteq> 0 \<and> gethosts env s = Some (Inl e, s') \<and> same_objs s s'"
  using assms by (auto simp: gethosts_def dns_hosts_local_def dns_hosts_open_def dns_defs same_objs_def fun_upd_idem)

lemma dns_hints_local_ok:
  assumes "dm_hints s (dm_next s) = None" "dm_resconf s c = Some 1"
  shows "if de_hints env = 0 \<and> de_insert env = 0
    then dns_hints_local env c s = Some (Inr (dm_next s), s\<lparr>dm_next := dm_next s + 1, dm_hints := (dm_hints s)(dm_next s := Some 1)\<rparr>)
    else \<exists>e s'. e \<noteq> 0 \<and> dns_hints_local env c s = Some (Inl e, s') \<and> same_objs s s'"
  using assms by (auto simp: dns_hints_local_def dns_hints_open_def dns_defs same_objs_def fun_upd_idem)

lemma dns_res_open_ok:
  assumes "dm_res s (dm_next s) = None" "dm_resconf s c = Some 1" "dm_hosts s h = Some 1" "dm_hints s i = Some 1"
  shows "if de_resolver env = 0 \<and> de_socket env = 0
    then dns_res_open env c h i s = Some (Inr (dm_next s), s\<lparr>dm_next := dm_next s + 1, dm_resconf := (dm_resconf s)(c := Some 2), dm_hosts := (dm_hosts s)(h := Some 2),
      dm_hints := (dm_hints s)(i := Some 2), dm_res := (dm_res s)(dm_next s := Some \<lparr>dr_refcount = 1, dr_resconf = Some c, dr_hosts = Some h, dr_hints = Some i\<rparr>)\<rparr>)
    else \<exists>e s'. e \<noteq> 0 \<and> dns_res_open env c h i s = Some (Inl e, s') \<and> same_objs s s'"
  using assms by (auto simp: dns_res_open_def dns_res_close_def dns_defs same_objs_def Let_def fun_upd_idem)

definition tables_ok :: "dns_env \<Rightarrow> bool" where
  "tables_ok env \<longleftrightarrow> de_resconf env = 0 \<and> de_resolv_conf env = 0 \<and> de_nsswitch env = 0 \<and> de_hosts env = 0 \<and> de_hosts_file env = 0 \<and> de_hints env = 0 \<and> de_insert env = 0"

lemma create_resolver_ok:
  assumes "unused s"
  shows "if tables_ok env \<and> de_resolver env = 0 \<and> de_socket env = 0
    then create_resolver env s = Some (Inr (dm_next s + 3), with_resolver s 4)
    else \<exists>e s'. e \<noteq> 0 \<and> create_resolver env s = Some (Inl e, s') \<and> same_objs s s'"
proof -
  let ?n = "dm_next s"
  let ?s1 = "s\<lparr>dm_next := ?n + 1, dm_resconf := (dm_resconf s)(?n := Some 1)\<rparr>"
  let ?s2 = "?s1\<lparr>dm_next := ?n + 2, dm_hosts := (dm_hosts s)(Suc ?n := Some 1)\<rparr>"
  let ?s3 = "?s2\<lparr>dm_next := ?n + 3, dm_hints := (dm_hints s)(Suc (Suc ?n) := Some 1)\<rparr>"
  note free = unused_next [OF assms, of ?n] unused_next [OF assms, of "Suc ?n"] unused_next [OF assms, of "Suc (Suc ?n)"]
    unused_next [OF assms, of "Suc (Suc (Suc ?n))"]
  note conf_ok = getresconf_ok [OF assms, of env]
  note hosts_ok = gethosts_ok [of ?s1 env]
  note hints_ok = dns_hints_local_ok [of ?s2 ?n env]
  note res_ok = dns_res_open_ok [of ?s3 ?n "Suc ?n" "Suc (Suc ?n)" env]
  consider (conf) "\<not> (de_resconf env = 0 \<and> de_resolv_conf env = 0 \<and> de_nsswitch env = 0)"
    | (hosts) "de_resconf env = 0 \<and> de_resolv_conf env = 0 \<and> de_nsswitch env = 0" "\<not> (de_hosts env = 0 \<and> de_hosts_file env = 0)"
    | (hints) "de_resconf env = 0 \<and> de_resolv_conf env = 0 \<and> de_nsswitch env = 0" "de_hosts env = 0 \<and> de_hosts_file env = 0" "\<not> (de_hints env = 0 \<and> de_insert env = 0)"
    | (tables) "de_resconf env = 0 \<and> de_resolv_conf env = 0 \<and> de_nsswitch env = 0" "de_hosts env = 0 \<and> de_hosts_file env = 0" "de_hints env = 0 \<and> de_insert env = 0" "tables_ok env"
    by (auto simp: tables_ok_def)
  then show ?thesis
  proof cases
    case conf
    then show ?thesis using conf_ok by (auto simp: create_resolver_def tables_ok_def)
  next
    case hosts
    then show ?thesis using conf_ok free hosts_ok
      by (auto simp: create_resolver_def tables_ok_def dns_defs same_objs_def fun_upd_idem)
  next
    case hints
    then show ?thesis using conf_ok hosts_ok free hints_ok
      by (auto simp: create_resolver_def tables_ok_def dns_defs same_objs_def fun_upd_idem)
  next
    case tables
    then show ?thesis using conf_ok hosts_ok hints_ok res_ok free
      by (auto simp: create_resolver_def dns_defs same_objs_def fun_upd_idem with_resolver_def with_tables_def eval_nat_numeral)
  qed
qed

text \<open>A query behind a resolver, which is the owner of its tables.\<close>

definition with_query :: "dns_mem \<Rightarrow> dns_mem" where
  "with_query s = (with_resolver s 5)\<lparr>dm_ai := (dm_ai s)(dm_next s + 4 := Some (Some (dm_next s + 3)))\<rparr>"

lemma close_resolver:
  assumes "unused s"
  shows "\<exists>s'. dns_res_close (Some (dm_next s + 3)) (with_resolver s k) = Some s' \<and> same_objs s s'"
  using unused_next [OF assms, of "dm_next s"] unused_next [OF assms, of "Suc (dm_next s)"] unused_next [OF assms, of "Suc (Suc (dm_next s))"]
    unused_next [OF assms, of "dm_next s + 3"]
  by (auto simp: dns_res_close_def with_resolver_def with_tables_def dns_defs same_objs_def fun_upd_idem)

lemma close_query:
  assumes "unused s"
  shows "\<exists>s'. dns_ai_close (Some (dm_next s + 4)) (with_query s) = Some s' \<and> same_objs s s'"
proof -
  have q: "with_query s = (with_resolver (s\<lparr>dm_ai := (dm_ai s)(dm_next s + 4 := Some (Some (dm_next s + 3)))\<rparr>) 5)"
    by (simp add: with_query_def with_resolver_def with_tables_def)
  show ?thesis
    using unused_next [OF assms, of "dm_next s"] unused_next [OF assms, of "Suc (dm_next s)"] unused_next [OF assms, of "Suc (Suc (dm_next s))"]
      unused_next [OF assms, of "dm_next s + 3"] unused_next [OF assms, of "dm_next s + 4"]
    by (auto simp: q dns_ai_close_def dns_res_close_def with_resolver_def with_tables_def dns_defs same_objs_def fun_upd_idem)
qed

lemma cf_resolve_submit_ok:
  assumes "unused s" "hints \<noteq> None"
  shows "if tables_ok env \<and> de_resolver env = 0 \<and> de_socket env = 0 \<and> de_ai env = 0 \<and> length name < 256
    then cf_resolve_submit env name hints e0 s = Some (0, Some (dm_next s + 4), e0, with_query s)
    else \<exists>e s'. e \<noteq> 0 \<and> cf_resolve_submit env name hints e0 s = Some (e, None, e0, s') \<and> same_objs s s'"
proof -
  note res_ok = create_resolver_ok [OF assms(1), of env]
  obtain h where h: "hints = Some h" using assms(2) by blast
  have two: "\<not> (1 :: u64) < 1" "(1 :: u64) < 2" by simp_all
  show ?thesis
  proof (cases "tables_ok env \<and> de_resolver env = 0 \<and> de_socket env = 0")
    case False
    then show ?thesis using res_ok by (auto simp: cf_resolve_submit_def)
  next
    case True
    then have r: "create_resolver env s = Some (Inr (dm_next s + 3), with_resolver s 4)" using res_ok by simp
    have R: "dm_res (with_resolver s k) (dm_next s + 3) = Some \<lparr>dr_refcount = 1, dr_resconf = Some (dm_next s), dr_hosts = Some (Suc (dm_next s)),
       dr_hints = Some (Suc (Suc (dm_next s)))\<rparr>" for k by (simp add: with_resolver_def)
    have restored: "(with_resolver s k)\<lparr>dm_res := (dm_res (with_resolver s k))(dm_next s + 3 := Some \<lparr>dr_refcount = 1, dr_resconf = Some (dm_next s), dr_hosts = Some (Suc (dm_next s)),
       dr_hints = Some (Suc (Suc (dm_next s)))\<rparr>)\<rparr> = with_resolver s k" for k by (simp add: with_resolver_def)
    consider (mem) "de_ai env \<noteq> 0" | (long) "de_ai env = 0" "256 \<le> length name" | (ok) "de_ai env = 0" "length name < 256" by linarith
    then show ?thesis
    proof cases
      case mem
      then show ?thesis using r R restored [of 4] close_resolver [OF assms(1), of 4] True
        by (auto simp: cf_resolve_submit_def dns_ai_open_def dns_res_acquire_def dns_res_close_def [of _ "_ \<lparr>dm_res := _\<rparr>"])
    next
      case long
      obtain s3 where s3: "dns_ai_open env name hints (dm_next s + 3) (with_resolver s 4) = Some (Inl SYS_ENAMETOOLONG, s3)"
        "s3 = (with_resolver s 4)\<lparr>dm_next := dm_next s + 5, dm_ai := (dm_ai s)(dm_next s + 4 := None),
           dm_res := (dm_res (with_resolver s 4))(dm_next s + 3 := dm_res (with_resolver s 4) (dm_next s + 3))\<rparr>"
        using long h R [of 4] by (simp add: dns_ai_open_def dns_res_acquire_def dns_ai_close_def dns_res_close_def Let_def with_resolver_def with_tables_def)
      have "s3 = with_resolver s 5"
        using unused_next [OF assms(1), of "dm_next s + 4"] unfolding s3(2)
        by (intro dns_mem.equality) (simp_all add: with_resolver_def with_tables_def fun_upd_idem)
      then show ?thesis using r s3(1) close_resolver [OF assms(1), of 5] True long
        by (auto simp: cf_resolve_submit_def SYS_ENAMETOOLONG_def)
    next
      case ok
      then show ?thesis using r True h
        by (simp add: cf_resolve_submit_def dns_ai_open_def dns_res_acquire_def dns_res_close_def Let_def with_query_def with_resolver_def with_tables_def)
    qed
  qed
qed

section \<open>Properties\<close>

text \<open>C40. A query owns its resolver, and the resolver its tables, with one reference each: whatever fails on the way, submitting a query is defined and returns either a query
  and the status 0, or no query, a status and the objects as they were. Destroying the query releases its resolver and the tables with it, and
  leaves the objects as they were before the submission. A query is made exactly if all files can be read, memory and socket are there and the name has at most 255 characters.\<close>

theorem cf_resolve_objects:
  assumes "unused s" "hints \<noteq> None"
  shows "\<exists>status q e s'. cf_resolve_submit env name hints e0 s = Some (status, q, e, s') \<and> unused s' \<and>
    (status = 0 \<longleftrightarrow> q \<noteq> None) \<and>
    (q \<noteq> None \<longleftrightarrow> tables_ok env \<and> de_resolver env = 0 \<and> de_socket env = 0 \<and> de_ai env = 0 \<and> length name < 256) \<and>
    (q = None \<longrightarrow> same_objs s s') \<and>
    (\<exists>s''. cf_resolve_destroy (Some q) s' = Some (Some None, s'') \<and> same_objs s s'' \<and> cf_resolve_destroy (Some None) s'' = Some (Some None, s''))"
proof (cases "tables_ok env \<and> de_resolver env = 0 \<and> de_socket env = 0 \<and> de_ai env = 0 \<and> length name < 256")
  case True
  then have "cf_resolve_submit env name hints e0 s = Some (0, Some (dm_next s + 4), e0, with_query s)"
    using cf_resolve_submit_ok [OF assms, of env name e0] by simp
  moreover have "unused (with_query s)"
    using assms(1) by (simp add: unused_def with_query_def with_resolver_def with_tables_def)
  moreover obtain s'' where "dns_ai_close (Some (dm_next s + 4)) (with_query s) = Some s''" "same_objs s s''" using close_query [OF assms(1)] by blast
  ultimately show ?thesis using True by (simp add: cf_resolve_destroy_def)
next
  case False
  then obtain e s' where "e \<noteq> 0" "cf_resolve_submit env name hints e0 s = Some (e, None, e0, s')" "same_objs s s'"
    using cf_resolve_submit_ok [OF assms, of env name e0] by auto
  then show ?thesis using False unused_same [OF assms(1)] by (auto simp: cf_resolve_destroy_def)
qed

text \<open>A failed submission never stores into errno: the error is translated only if there is a query, and then there is no error.\<close>

lemma submit_keeps_errno:
  assumes "unused s" "hints \<noteq> None" "cf_resolve_submit env name hints e0 s = Some (status, q, e, s')"
  shows "e = e0"
  using cf_resolve_submit_ok [OF assms(1,2), of env name e0] assms(3) by (auto split: if_splits)

text \<open>A missing file nsswitch.conf makes every submission fail.\<close>

lemma submit_needs_nsswitch:
  assumes "unused s" "hints \<noteq> None" "de_nsswitch env \<noteq> 0" "cf_resolve_submit env name hints e0 s = Some (status, q, e, s')"
  shows "q = None"
  using cf_resolve_submit_ok [OF assms(1,2), of env name e0] assms(3,4) by (auto simp: tables_ok_def)

text \<open>Every error of the library is reported as \<open>ENODATA\<close>, those of the system as they are.\<close>

lemma cf_dns_status2errno_cases:
  "cf_dns_status2errno status = (if DNS_EBASE \<le> status \<and> status < DNS_EBASE + 12 then SYS_ENODATA else status)"
proof -
  have "fst ` set dns_codes = (\<lambda>k. DNS_EBASE + int k) ` {0..<12}"
    unfolding set_map [symmetric] by (simp add: dns_codes_def)
  moreover have "status \<in> (\<lambda>k. DNS_EBASE + int k) ` {0..<12} \<longleftrightarrow> DNS_EBASE \<le> status \<and> status < DNS_EBASE + 12"
    by (auto intro!: image_eqI [of _ _ "nat (status - DNS_EBASE)"])
  ultimately show ?thesis by (simp add: cf_dns_status2errno_def)
qed

section \<open>Examples\<close>

definition example_dns :: dns_mem where
  "example_dns = \<lparr>dm_next = 0, dm_resconf = (\<lambda>_. None), dm_hosts = (\<lambda>_. None), dm_hints = (\<lambda>_. None), dm_res = (\<lambda>_. None), dm_ai = (\<lambda>_. None)\<rparr>"

definition example_dns_env :: dns_env where
  "example_dns_env = \<lparr>de_resconf = 0, de_resolv_conf = 0, de_nsswitch = 0, de_hosts = 0, de_hosts_file = 0, de_hints = 0, de_insert = 0, de_resolver = 0, de_socket = 0, de_ai = 0\<rparr>"

theorem cf_resolve_objects_witness:
  "\<exists>s' a s''. cf_resolve_submit example_dns_env ''host'' (Some ()) 0 example_dns = Some (0, Some a, 0, s') \<and>
     cf_resolve_destroy (Some (Some a)) s' = Some (Some None, s'') \<and> dm_res s'' = (\<lambda>_. None)"
proof -
  have u: "unused example_dns" "Some () \<noteq> None" by (simp_all add: unused_def example_dns_def)
  obtain q e s' where "cf_resolve_submit example_dns_env ''host'' (Some ()) 0 example_dns = Some (0, q, e, s')" "q \<noteq> None"
    "\<exists>s''. cf_resolve_destroy (Some q) s' = Some (Some None, s'') \<and> same_objs example_dns s''"
    using cf_resolve_objects [OF u, of example_dns_env "''host''" 0] by (auto simp: tables_ok_def example_dns_env_def)
  moreover from this have "e = 0" using submit_keeps_errno [OF u] by blast
  ultimately show ?thesis by (auto simp: same_objs_def example_dns_def)
qed

end
