(* ===== verification/Cuttle_Pb_Typed.thy ===== *)
theory Cuttle_Pb_Typed
  imports Cuttle_Pb
begin

text \<open>
  Types of messages. A table of field descriptors (src/pb/cuttle-pb.c) is the only description of the C structure that a decoder fills; the cells of
  a structure are well typed when each has the kind that the descriptor of its field names, the members of a choice only while the
  choice says so. Whatever bytes are unpacked and whatever allocations fail, a successful call leaves a well-typed structure.
\<close>

section \<open>Typing\<close>

definition value_typed :: "(cf_pb_field_t list \<Rightarrow> pb_msg \<Rightarrow> bool) \<Rightarrow> pb_tabs \<Rightarrow> cf_pb_field_t \<Rightarrow> pb_cell \<Rightarrow> bool" where
  "value_typed sub tabs f x \<longleftrightarrow>
     (case fld_pbtype f of
        CF_PB_INT32 \<Rightarrow> \<exists>w. x = W32 w | CF_PB_UINT32 \<Rightarrow> \<exists>w. x = W32 w | CF_PB_FIXED32 \<Rightarrow> \<exists>w. x = W32 w
      | CF_PB_SFIXED32 \<Rightarrow> \<exists>w. x = W32 w | CF_PB_FLOAT \<Rightarrow> \<exists>w. x = W32 w
      | CF_PB_INT64 \<Rightarrow> \<exists>w. x = W64 w | CF_PB_UINT64 \<Rightarrow> \<exists>w. x = W64 w | CF_PB_FIXED64 \<Rightarrow> \<exists>w. x = W64 w
      | CF_PB_SFIXED64 \<Rightarrow> \<exists>w. x = W64 w | CF_PB_DOUBLE \<Rightarrow> \<exists>w. x = W64 w
      | CF_PB_BOOL \<Rightarrow> \<exists>b. x = Flag b
      | CF_PB_STRING \<Rightarrow> \<exists>bs. x = Str bs
      | CF_PB_BYTES \<Rightarrow> \<exists>d n. x = Buf d n
      | CF_PB_MESSAGE \<Rightarrow> \<exists>m. x = Msg m \<and> (\<forall>p. fld_ptr f = Some p \<longrightarrow> sub (tabs p) m)
      | CF_PB_OTHER_TYPE _ \<Rightarrow> True)"

definition cell_typed :: "(cf_pb_field_t list \<Rightarrow> pb_msg \<Rightarrow> bool) \<Rightarrow> pb_tabs \<Rightarrow> cf_pb_field_t \<Rightarrow> pb_cell option \<Rightarrow> bool" where
  "cell_typed sub tabs f cell \<longleftrightarrow>
     (\<forall>x. cell = Some x \<longrightarrow>
        (if fld_alloctype f = CF_PB_ARRAY
         then \<exists>cap items. x = Arr cap items \<and> length items \<le> cap \<and> (\<forall>y\<in>set items. value_typed sub tabs f y)
         else value_typed sub tabs f x))"

text \<open>A field owns its cell unless it is a member of a choice that stands for another member. Arrays, blocks and nested messages share their cell with nobody.\<close>

definition owns_cell :: "cf_pb_field_t \<Rightarrow> pb_msg \<Rightarrow> bool" where
  "owns_cell f msg \<longleftrightarrow> fld_alloctype f \<noteq> CF_PB_ONEOF \<or> stateful f \<or> msg (fld_has_offset f) = Some (W32 (fld_tag f))"

definition has_typed :: "cf_pb_field_t \<Rightarrow> pb_msg \<Rightarrow> bool" where
  "has_typed f msg \<longleftrightarrow>
     (sets_has f \<longrightarrow> (\<forall>x. msg (fld_has_offset f) = Some x \<longrightarrow> (if fld_alloctype f = CF_PB_ONEOF then \<exists>w. x = W32 w else \<exists>b. x = Flag b)))"

fun msg_typed :: "nat \<Rightarrow> pb_tabs \<Rightarrow> cf_pb_field_t list \<Rightarrow> pb_msg \<Rightarrow> bool" where
  "msg_typed 0 tabs flds msg \<longleftrightarrow> True"
| "msg_typed (Suc d) tabs flds msg \<longleftrightarrow>
     (\<forall>f\<in>set (used_fields flds). has_typed f msg \<and> (owns_cell f msg \<longrightarrow> cell_typed (msg_typed d tabs) tabs f (msg (fld_item_offset f))))"

text \<open>What a table has to promise: different tags, cells of their own except for members of one choice, and flags that are no cells.\<close>

definition apart :: "cf_pb_field_t \<Rightarrow> cf_pb_field_t \<Rightarrow> bool" where
  "apart f g \<longleftrightarrow>
     (f \<noteq> g \<longrightarrow> fld_tag f \<noteq> fld_tag g \<and>
        (fld_item_offset f = fld_item_offset g \<longrightarrow>
           fld_alloctype f = CF_PB_ONEOF \<and> fld_alloctype g = CF_PB_ONEOF \<and> fld_has_offset f = fld_has_offset g \<and> \<not> stateful f \<and> \<not> stateful g)) \<and>
     (sets_has f \<longrightarrow> fld_has_offset f \<noteq> fld_item_offset g \<and>
        (sets_has g \<and> fld_has_offset f = fld_has_offset g \<longrightarrow> (fld_alloctype f = CF_PB_ONEOF \<longleftrightarrow> fld_alloctype g = CF_PB_ONEOF)))"

fun layout_ok :: "nat \<Rightarrow> pb_tabs \<Rightarrow> cf_pb_field_t list \<Rightarrow> bool" where
  "layout_ok 0 tabs flds \<longleftrightarrow> True"
| "layout_ok (Suc d) tabs flds \<longleftrightarrow>
     (\<forall>f\<in>set (used_fields flds). (\<forall>g\<in>set (used_fields flds). apart f g) \<and>
        (\<forall>p. fld_pbtype f = CF_PB_MESSAGE \<and> fld_ptr f = Some p \<longrightarrow> layout_ok d tabs (tabs p)))"

lemma msg_typed_empty: "msg_typed d tabs flds Map.empty"
  by (cases d) (auto simp: has_typed_def cell_typed_def)

section \<open>Decoders keep types\<close>

definition keeps :: "(cf_pb_field_t list \<Rightarrow> pb_msg \<Rightarrow> bool) \<Rightarrow> (pb_istream_t \<Rightarrow> cf_pb_field_t list \<Rightarrow> pb_msg \<Rightarrow> (bool \<times> pb_msg \<times> pb_istream_t) ub) \<Rightarrow> cf_pb_field_t list \<Rightarrow> bool" where
  "keeps sub dec flds \<longleftrightarrow> (\<forall>s m m' t. sub flds m \<longrightarrow> dec s flds m = Some (True, m', t) \<longrightarrow> sub flds m')"

lemma decoded_kinds:
  "cf_pb_decode_int32 s f cell = Some (True, c, t) \<Longrightarrow> \<exists>w. c = Some (W32 w)"
  "cf_pb_decode_uint32 s f cell = Some (True, c, t) \<Longrightarrow> \<exists>w. c = Some (W32 w)"
  "cf_pb_decode_fixed32 s f cell = Some (True, c, t) \<Longrightarrow> \<exists>w. c = Some (W32 w)"
  "cf_pb_decode_float s f cell = Some (True, c, t) \<Longrightarrow> \<exists>w. c = Some (W32 w)"
  "cf_pb_decode_int64 s f cell = Some (True, c, t) \<Longrightarrow> \<exists>w. c = Some (W64 w)"
  "cf_pb_decode_uint64 s f cell = Some (True, c, t) \<Longrightarrow> \<exists>w. c = Some (W64 w)"
  "cf_pb_decode_fixed64 s f cell = Some (True, c, t) \<Longrightarrow> \<exists>w. c = Some (W64 w)"
  "cf_pb_decode_double s f cell = Some (True, c, t) \<Longrightarrow> \<exists>w. c = Some (W64 w)"
  "cf_pb_decode_bool s f cell = Some (True, c, t) \<Longrightarrow> \<exists>b. c = Some (Flag b)"
  "cf_pb_decode_string mem s f cell = Some (True, c, t) \<Longrightarrow> \<exists>bs. c = Some (Str bs)"
  "cf_pb_decode_bytes mem s f cell = Some (True, c, t) \<Longrightarrow> \<exists>d n. c = Some (Buf d n)"
proof -
  show "cf_pb_decode_int32 s f cell = Some (True, c, t) \<Longrightarrow> \<exists>w. c = Some (W32 w)"
    by (cases "pb_decode_svarint s") (auto simp: cf_pb_decode_int32_def split: option.splits if_splits)
  show "cf_pb_decode_uint32 s f cell = Some (True, c, t) \<Longrightarrow> \<exists>w. c = Some (W32 w)"
    by (cases "pb_decode_varint s") (auto simp: cf_pb_decode_uint32_def split: option.splits if_splits)
  show "cf_pb_decode_fixed32 s f cell = Some (True, c, t) \<Longrightarrow> \<exists>w. c = Some (W32 w)"
    by (cases "pb_decode_fixed32 s") (auto simp: cf_pb_decode_fixed32_def split: option.splits if_splits)
  show "cf_pb_decode_float s f cell = Some (True, c, t) \<Longrightarrow> \<exists>w. c = Some (W32 w)"
    by (cases "pb_decode_fixed32 s") (auto simp: cf_pb_decode_float_def split: option.splits if_splits)
  show "cf_pb_decode_int64 s f cell = Some (True, c, t) \<Longrightarrow> \<exists>w. c = Some (W64 w)"
    by (cases "pb_decode_svarint s") (auto simp: cf_pb_decode_int64_def split: option.splits if_splits)
  show "cf_pb_decode_uint64 s f cell = Some (True, c, t) \<Longrightarrow> \<exists>w. c = Some (W64 w)"
    by (cases "pb_decode_varint s") (auto simp: cf_pb_decode_uint64_def split: option.splits if_splits)
  show "cf_pb_decode_fixed64 s f cell = Some (True, c, t) \<Longrightarrow> \<exists>w. c = Some (W64 w)"
    by (cases "pb_decode_fixed64 s") (auto simp: cf_pb_decode_fixed64_def split: option.splits if_splits)
  show "cf_pb_decode_double s f cell = Some (True, c, t) \<Longrightarrow> \<exists>w. c = Some (W64 w)"
    by (cases "pb_decode_fixed64 s") (auto simp: cf_pb_decode_double_def split: option.splits if_splits)
  show "cf_pb_decode_bool s f cell = Some (True, c, t) \<Longrightarrow> \<exists>b. c = Some (Flag b)"
    by (cases "pb_decode_varint s") (auto simp: cf_pb_decode_bool_def split: option.splits if_splits)
  show "cf_pb_decode_string mem s f cell = Some (True, c, t) \<Longrightarrow> \<exists>bs. c = Some (Str bs)"
    by (cases "pb_decode_varint s") (auto simp: cf_pb_decode_string_def bind_eq_Some_conv split: option.splits if_splits)
  show "cf_pb_decode_bytes mem s f cell = Some (True, c, t) \<Longrightarrow> \<exists>d n. c = Some (Buf d n)"
  proof (cases "pb_decode_varint s")
    case (Some rs)
    assume *: "cf_pb_decode_bytes mem s f cell = Some (True, c, t)"
    let ?big = "case fst rs of None \<Rightarrow> True | Some n \<Rightarrow> n > 64 * 1024"
    show ?thesis
    proof (cases ?big)
      case True
      then show ?thesis using * Some by (cases rs) (simp add: cf_pb_decode_bytes_def split: option.splits pb_cell.splits)
    next
      case False
      then show ?thesis using * Some
        by (cases rs) (auto simp: cf_pb_decode_bytes_def Let_def bind_eq_Some_conv simp del: not_less split: option.splits if_splits)
    qed
  qed (simp add: cf_pb_decode_bytes_def)
qed

lemma decfunc_typed:
  assumes "cf_pb_decfunc mem tabs dec f = Some func" "func s f cell = Some (True, c, t)"
    and sub: "\<forall>p. fld_pbtype f = CF_PB_MESSAGE \<and> fld_ptr f = Some p \<longrightarrow> keeps sub dec (tabs p)"
    and "\<forall>p. sub (tabs p) Map.empty" "fld_pbtype f = CF_PB_MESSAGE \<longrightarrow> (\<forall>x. cell = Some x \<longrightarrow> value_typed sub tabs f x)"
  shows "\<exists>x. c = Some x \<and> value_typed sub tabs f x"
proof (cases "fld_pbtype f = CF_PB_MESSAGE")
  case True
  then have func: "cf_pb_decode_submessage tabs dec s f cell = Some (True, c, t)" using assms(1,2) by (simp add: cf_pb_decfunc_def)
  then obtain p where p: "fld_ptr f = Some p" by (cases "fld_ptr f") (auto simp: cf_pb_decode_submessage_def)
  from func p obtain m where m: "(case cell of Some (Msg m) \<Rightarrow> Some m | None \<Rightarrow> Some Map.empty | _ \<Rightarrow> None) = Some m"
    by (auto simp: cf_pb_decode_submessage_def bind_eq_Some_conv)
  then have "sub (tabs p) m"
    using assms(4,5) True p by (auto simp: value_typed_def split: option.splits pb_cell.splits)
  moreover from func p m obtain u u' m' where "dec u (tabs p) m = Some (True, m', u')" "c = Some (Msg m')"
    by (auto simp: cf_pb_decode_submessage_def bind_eq_Some_conv simp del: case_prod_conv split: option.splits)
  ultimately show ?thesis using sub True p unfolding keeps_def by (auto simp: value_typed_def)
next
  case False
  then show ?thesis
    using assms(1,2)
    by (cases "fld_pbtype f") (auto simp: cf_pb_decfunc_def value_typed_def dest: decoded_kinds)
qed

lemma decode_packed_typed:
  assumes "decode_packed mem func f sub cap items = Some (cap', items', sub')" "\<And>s c t. func s f None = Some (True, c, t) \<Longrightarrow> \<exists>x. c = Some x \<and> P x"
    and "length items \<le> cap" "\<forall>y\<in>set items. P y"
  shows "length items' \<le> cap' \<and> (\<forall>y\<in>set items'. P y)"
  using assms
proof (induction mem func f sub cap items rule: decode_packed.induct)
  case (1 mem func f sub cap items)
  show ?case
  proof (cases "is_bytes_left sub = 0")
    case True
    then show ?thesis using "1.prems" by (simp add: decode_packed.simps [of mem func f sub])
  next
    case left: False
    with "1.prems"(1) obtain ok c t where d: "\<not> cap \<le> length items" "func sub f None = Some (ok, c, t)"
      by (auto simp: decode_packed.simps [of mem func f sub] split: if_splits option.splits)
    show ?thesis
    proof (cases ok)
      case False
      then show ?thesis using left d "1.prems" by (auto simp: decode_packed.simps [of mem func f sub])
    next
      case True
      then obtain x where x: "c = Some x" "P x" using "1.prems"(2) [of sub c t] d(2) by auto
      let ?items = "items @ [the c]" and ?isz = "unat (fld_item_size f)"
      let ?cap = "if cap \<le> length ?items then arr_realloc mem ?isz cap (cap + 2 * is_bytes_left t div ?isz + 1) else cap"
      have room: "length ?items \<le> ?cap" and P: "\<forall>y\<in>set ?items. P y" using d(1) "1.prems"(4) x by (auto simp: arr_realloc_def)
      have *: "Some (cap', items', sub') = (if cap \<le> length ?items \<and> ?cap = 0 then Some (?cap, ?items, t)
          else if is_bytes_left t < is_bytes_left sub then decode_packed mem func f t ?cap ?items else None)"
        using left d True "1.prems"(1) by (simp add: decode_packed.simps [of mem func f sub] Let_def del: length_append)
      show ?thesis
      proof (cases "cap \<le> length ?items \<and> ?cap = 0")
        case True
        have "length ?items \<noteq> 0" by simp
        then show ?thesis using room conjunct2 [OF True] by linarith
      next
        case False
        then have "is_bytes_left t < is_bytes_left sub" "decode_packed mem func f t ?cap ?items = Some (cap', items', sub')"
          using * by (auto split: if_splits)
        then show ?thesis
          using "1.IH" [OF left d(1,2) refl refl _ refl refl refl False _ _ "1.prems"(2) room P] \<open>ok\<close> by simp
      qed
    qed
  qed
qed

lemma decode_array_typed:
  assumes "cf_pb_decode_array mem s f cell wt func = Some (True, c, t)" "\<And>s c t. func s f None = Some (True, c, t) \<Longrightarrow> \<exists>x. c = Some x \<and> P x"
    and "\<forall>cap items. cell = Some (Arr cap items) \<longrightarrow> length items \<le> cap \<and> (\<forall>y\<in>set items. P y)"
  shows "\<exists>cap items. c = Some (Arr cap items) \<and> length items \<le> cap \<and> (\<forall>y\<in>set items. P y)"
proof (cases "wt = PB_WT_STRING \<and> cf_pb_type_packable (fld_pbtype f)")
  case True
  with assms(1) obtain cap sub cap' items' sub' where
    "decode_packed mem func f sub cap [] = Some (cap', items', sub')" "c = Some (Arr cap' items')"
    by (auto simp: cf_pb_decode_array_def Let_def bind_eq_Some_conv split: option.splits if_splits)
  then show ?thesis using decode_packed_typed [of mem func f sub cap "[]" cap' items' sub' P, OF _ assms(2)] by auto
next
  case False
  with assms(1) obtain cap items where cell: "cell = Some (Arr cap items)"
    by (auto simp: cf_pb_decode_array_def Let_def split: option.splits pb_cell.splits)
  let ?items = "if cap = 0 then [] else items" and ?cap = "if cap = 0 then 64 else cap"
  let ?cap' = "if ?cap \<le> length ?items then arr_realloc mem (unat (fld_item_size f)) ?cap (?cap + 64) else ?cap"
  from assms(1) False cell have room: "\<not> ?cap' \<le> length ?items"
    by (simp add: cf_pb_decode_array_def Let_def split: if_splits)
  from assms(1) False cell obtain x where x: "func s f None = Some (True, x, t)" "c = Some (Arr ?cap' (?items @ [the x]))"
    by (simp add: cf_pb_decode_array_def Let_def bind_eq_Some_conv split: if_splits) blast+
  have "\<forall>y\<in>set ?items. P y" using assms(3) cell by simp
  moreover have "P (the x)" using assms(2) [OF x(1)] by auto
  ultimately have "length (?items @ [the x]) \<le> ?cap' \<and> (\<forall>y\<in>set (?items @ [the x]). P y)" using room by simp
  then show ?thesis using x(2) by blast
qed

lemma decode_field_typed:
  assumes "cf_pb_decode_field mem tabs dec s wt f cell = Some (True, c, t)"
    and sub: "\<forall>p. fld_pbtype f = CF_PB_MESSAGE \<and> fld_ptr f = Some p \<longrightarrow> keeps sub dec (tabs p)"
    and "\<forall>p. sub (tabs p) Map.empty" "stateful f \<longrightarrow> cell_typed sub tabs f cell"
  shows "\<exists>x. c = Some x \<and> cell_typed sub tabs f c"
proof -
  from assms(1) obtain func where func: "cf_pb_decfunc mem tabs dec f = Some func"
    by (auto simp: cf_pb_decode_field_def split: option.splits)
  show ?thesis
  proof (cases "fld_alloctype f = CF_PB_ARRAY")
    case True
    have "\<exists>x. c = Some x \<and> value_typed sub tabs f x" if "func s f None = Some (True, c, t)" for s c t
      by (rule decfunc_typed [OF func that sub assms(3)]) simp
    moreover have "\<forall>cap items. cell = Some (Arr cap items) \<longrightarrow> length items \<le> cap \<and> (\<forall>y\<in>set items. value_typed sub tabs f y)"
      using assms(4) True by (auto simp: stateful_def cell_typed_def)
    moreover have "cf_pb_decode_array mem s f cell wt func = Some (True, c, t)" using assms(1) func True by (simp add: cf_pb_decode_field_def)
    ultimately have "\<exists>cap items. c = Some (Arr cap items) \<and> length items \<le> cap \<and> (\<forall>y\<in>set items. value_typed sub tabs f y)"
      by (intro decode_array_typed) auto
    then show ?thesis using True by (auto simp: cell_typed_def)
  next
    case False
    then have "func s f cell = Some (True, c, t)"
      using assms(1) func by (auto simp: cf_pb_decode_field_def split: cf_pb_field_alloc_type.splits if_splits)
    then have "\<exists>x. c = Some x \<and> value_typed sub tabs f x"
      by (rule decfunc_typed [OF func _ sub assms(3)]) (use assms(4) False in \<open>auto simp: stateful_def cell_typed_def\<close>)
    then show ?thesis using False by (auto simp: cell_typed_def)
  qed
qed

lemma find_tag_member: "cf_pb_find_tag flds tag = Some (Some f) \<Longrightarrow> f \<in> set (used_fields flds) \<and> fld_tag f = tag"
  by (induction flds) (auto split: if_splits)

lemma set_has_apply:
  "set_has f msg a = (if sets_has f \<and> a = fld_has_offset f then Some (if fld_alloctype f = CF_PB_ONEOF then W32 (fld_tag f) else Flag True) else msg a)"
  by (simp add: set_has_def sets_has_def)

text \<open>Storing a typed cell with its flag keeps the other fields typed.\<close>

lemma msg_typed_store:
  assumes "layout_ok (Suc d) tabs flds" "msg_typed (Suc d) tabs flds msg" "f \<in> set (used_fields flds)" "cell_typed (msg_typed d tabs) tabs f (Some x)"
  shows "msg_typed (Suc d) tabs flds (set_has f (msg(fld_item_offset f := Some x)))" (is "msg_typed _ _ _ ?m")
  unfolding msg_typed.simps
proof (intro ballI conjI impI)
  fix g assume g: "g \<in> set (used_fields flds)"
  have fg: "apart f g" "apart g f" "apart f f" "apart g g" using assms(1,3) g by auto
  have old: "has_typed g msg" "owns_cell g msg \<Longrightarrow> cell_typed (msg_typed d tabs) tabs g (msg (fld_item_offset g))" using assms(2) g by auto
  show "has_typed g ?m"
  proof (cases "sets_has f \<and> sets_has g \<and> fld_has_offset g = fld_has_offset f")
    case True
    then have "fld_alloctype g = CF_PB_ONEOF \<longleftrightarrow> fld_alloctype f = CF_PB_ONEOF" using fg(1) by (simp add: apart_def)
    then show ?thesis using True by (simp add: has_typed_def set_has_apply ex_bool_eq)
  next
    case False
    then have "sets_has g \<Longrightarrow> ?m (fld_has_offset g) = msg (fld_has_offset g)" using fg(2) by (auto simp: set_has_apply apart_def)
    then show ?thesis using old(1) by (simp add: has_typed_def)
  qed
  assume owns: "owns_cell g ?m"
  show "cell_typed (msg_typed d tabs) tabs g (?m (fld_item_offset g))"
  proof (cases "fld_item_offset g = fld_item_offset f")
    case False
    then have "?m (fld_item_offset g) = msg (fld_item_offset g)" using fg(1) by (auto simp: set_has_apply apart_def)
    moreover have "owns_cell g msg"
    proof (cases "fld_alloctype g = CF_PB_ONEOF \<and> \<not> stateful g")
      case True
      then have own: "?m (fld_has_offset g) = Some (W32 (fld_tag g))" "sets_has g" using owns by (simp_all add: owns_cell_def sets_has_def)
      have "f \<noteq> g" using False by auto
      have other: "\<not> (sets_has f \<and> fld_has_offset g = fld_has_offset f)"
      proof
        assume h: "sets_has f \<and> fld_has_offset g = fld_has_offset f"
        then have "fld_alloctype f = CF_PB_ONEOF" using fg(1) True own(2) by (simp add: apart_def)
        then have "fld_tag f = fld_tag g" using own(1) h by (simp add: set_has_apply)
        then show False using fg(1) \<open>f \<noteq> g\<close> by (simp add: apart_def)
      qed
      have "fld_has_offset g \<noteq> fld_item_offset f" using own(2) fg(2) by (simp add: apart_def)
      then have "?m (fld_has_offset g) = msg (fld_has_offset g)" using other by (auto simp: set_has_apply)
      then show ?thesis using own(1) by (simp add: owns_cell_def)
    qed (auto simp: owns_cell_def)
    ultimately show ?thesis using old(2) by simp
  next
    case True
    then have cell: "?m (fld_item_offset g) = Some x" using fg(1) by (auto simp: set_has_apply apart_def)
    have "g = f"
    proof (rule ccontr)
      assume "g \<noteq> f"
      with True fg(1) have "fld_alloctype g = CF_PB_ONEOF" "fld_alloctype f = CF_PB_ONEOF" "fld_has_offset g = fld_has_offset f" "\<not> stateful g" "fld_tag f \<noteq> fld_tag g"
        by (auto simp: apart_def)
      with owns show False by (simp add: owns_cell_def set_has_apply sets_has_def)
    qed
    then show ?thesis using cell assms(4) by simp
  qed
qed

lemma decode_one_typed:
  assumes "layout_ok (Suc d) tabs flds" "msg_typed (Suc d) tabs flds msg"
    and "decode_one (cf_pb_decode_field mem tabs dec) flds wt tag s msg = Some (True, msg', t)"
    and sub: "\<forall>flds. layout_ok d tabs flds \<longrightarrow> keeps (msg_typed d tabs) dec flds"
  shows "msg_typed (Suc d) tabs flds msg'"
proof -
  obtain r where r: "cf_pb_find_tag flds tag = Some r" using assms(3) by (cases "cf_pb_find_tag flds tag") (auto simp: decode_one_def)
  show ?thesis
  proof (cases r)
    case None
    then show ?thesis using assms(2,3) r by (auto simp: decode_one_def bind_eq_Some_conv)
  next
    case (Some f)
    then have f: "f \<in> set (used_fields flds)" using find_tag_member r by blast
    from assms(3) r Some obtain c where
      c: "cf_pb_decode_field mem tabs dec s wt f (msg (fld_item_offset f)) = Some (True, c, t)" "msg' = set_has f (msg(fld_item_offset f := c))"
      by (auto simp: decode_one_def bind_eq_Some_conv Let_def)
    have "\<exists>x. c = Some x \<and> cell_typed (msg_typed d tabs) tabs f c"
      by (rule decode_field_typed [OF c(1)]) (use assms(1,2) f sub msg_typed_empty in \<open>auto simp: owns_cell_def\<close>)
    then show ?thesis using msg_typed_store [OF assms(1,2) f] c(2) by auto
  qed
qed

lemma decode_loop_typed:
  assumes "layout_ok (Suc d) tabs flds" "msg_typed (Suc d) tabs flds msg"
    and "decode_loop (cf_pb_decode_field mem tabs dec) flds s msg = Some (True, msg', t)"
    and sub: "\<forall>flds. layout_ok d tabs flds \<longrightarrow> keeps (msg_typed d tabs) dec flds"
  shows "msg_typed (Suc d) tabs flds msg'"
  using assms(2,3)
proof (induction "is_bytes_left s" arbitrary: s msg rule: less_induct)
  case less
  let ?df = "cf_pb_decode_field mem tabs dec"
  note eq = decode_loop.simps [of ?df flds s msg]
  show ?case
  proof (cases "msg' = msg")
    case False
    then obtain wt tag eof s1 msg1 s2 where
      "decode_one ?df flds wt tag s1 msg = Some (True, msg1, s2)" "is_bytes_left s2 < is_bytes_left s" "decode_loop ?df flds s2 msg1 = Some (True, msg', t)"
      using less(3) unfolding eq by (auto split: if_splits option.splits prod.splits)
    then show ?thesis using less(1) decode_one_typed [OF assms(1) less(2) _ sub] by blast
  qed (use less(2) in simp)
qed

lemma cf_pb_decode_typed:
  "layout_ok d tabs flds \<Longrightarrow> msg_typed d tabs flds msg \<Longrightarrow> cf_pb_decode d mem tabs s flds msg = Some (True, msg', t) \<Longrightarrow> msg_typed d tabs flds msg'"
proof (induction d arbitrary: flds msg msg' s t)
  case (Suc d)
  then obtain u where "decode_loop (cf_pb_decode_field mem tabs (cf_pb_decode d mem tabs)) flds s msg = Some (True, msg', u)"
    by (auto simp: bind_eq_Some_conv)
  then show ?case by (rule decode_loop_typed [OF Suc.prems(1,2)]) (use Suc.IH in \<open>auto simp: keeps_def\<close>)
qed simp

section \<open>Property\<close>


lemma example_layout_ok: "layout_ok (Suc (Suc 0)) example_tabs example_shape"
  by (simp add: example_shape_def example_point_def example_tabs_def example_field_def apart_def stateful_def sets_has_def)

lemma example_blank_typed: "msg_typed (Suc (Suc 0)) example_tabs example_shape example_blank"
  by (simp add: example_shape_def example_point_def example_tabs_def example_field_def example_blank_def has_typed_def owns_cell_def stateful_def sets_has_def
      cell_typed_def value_typed_def ex_bool_eq)


end
