(* ===== verification/Ssl_Init.thy ===== *)
theory Ssl_Init
  imports Ossl "HOL-Library.List_Lexorder" "HOL-Library.Char_ord"
begin

text \<open>
  Error codes and the initialisation of OpenSSL, src/ssl/ssl-error.c and src/ssl/ssl-init-ssl.c. The table of error strings of OpenSSL is a
  map from library, function and reason; its queue of errors is a list. \<open>strcmp\<close> orders texts as lists of bytes.
\<close>

section \<open>Error codes\<close>

definition cf_crypto_functions :: "string list" where
  "cf_crypto_functions = [''cf_x509_new'', ''cf_pkey_new'', ''cf_pkey_free'', ''cf_write_pem_public_key'', ''cf_read_pem_public_key'', ''cf_write_pem_private_key'',
     ''cf_read_pem_private_key'', ''cf_write_pem_private_key_enc'', ''cf_read_pem_private_key_enc'', ''cf_write_pem_public_key_str'', ''cf_read_pem_public_key_str'',
     ''cf_write_pem_private_key_str'', ''cf_read_pem_private_key_str'', ''cf_write_public_key_bits'', ''cf_read_public_key_bits'', ''cf_write_private_key_bits'',
     ''cf_read_private_key_bits'', ''cf_write_public_key_hex_str'', ''cf_read_public_key_hex_str'', ''cf_write_private_key_hex_str'', ''cf_read_private_key_hex_str'',
     ''cf_write_public_key_hex_fp'', ''cf_read_public_key_hex_fp'', ''cf_write_private_key_hex_fp'', ''cf_read_private_key_hex_fp'', ''cf_write_public_key_hex'',
     ''cf_read_public_key_hex'', ''cf_write_private_key_hex'', ''cf_read_private_key_hex'']"

definition cf_crypto_str_reasons :: "(nat \<times> string) list" where
  "cf_crypto_str_reasons = [(100, ''OpenSSL error''), (101, ''Invalid argument''), (102, ''stdio error''), (103, ''malloc() fails''), (104, ''pthread error''),
     (105, ''epoll error''), (106, ''libcuttle error''), (107, ''app error'')]"

definition sscmp :: "string \<Rightarrow> string \<Rightarrow> int" where
  "sscmp p1 p2 = (if p1 < p2 then - 1 else if p1 = p2 then 0 else 1)"

text \<open>The binary search of the C library, between \<open>l\<close> and \<open>u\<close>.\<close>

function bsearch :: "string \<Rightarrow> string list \<Rightarrow> nat \<Rightarrow> nat \<Rightarrow> nat option" where
  "bsearch key base l u =
     (if l < u
      then (let idx = (l + u) div 2; c = sscmp key (base ! idx) in
            if c < 0 then bsearch key base l idx else if 0 < c then bsearch key base (idx + 1) u else Some idx)
      else None)"
  by auto
termination by (relation "measure (\<lambda>(key, base, l, u). u - l)") auto

declare bsearch.simps [simp del]

text \<open>
  The static variables, with the table \<open>es_functions\<close>, which is sorted in place, and the state of OpenSSL: the number of its next library, its strings, and
  the errors with their texts.
\<close>

record err_state =
  es_lib_id :: nat
  es_data :: bool
  es_functions :: "string list"
  es_next_lib :: nat
  es_strings :: "nat \<times> nat \<times> nat \<Rightarrow> string option"
  es_errors :: "(nat \<times> nat \<times> nat \<times> string option) list"

definition load_reasons :: "nat \<Rightarrow> (nat \<times> nat \<times> nat \<Rightarrow> string option) \<Rightarrow> nat \<times> nat \<times> nat \<Rightarrow> string option" where
  "load_reasons lib strs = strs ++ map_of (map (\<lambda>(r, s). ((lib, 0, r), s)) cf_crypto_str_reasons)"

definition load_functions :: "nat \<Rightarrow> string list \<Rightarrow> (nat \<times> nat \<times> nat \<Rightarrow> string option) \<Rightarrow> nat \<times> nat \<times> nat \<Rightarrow> string option" where
  "load_functions lib fs strs = strs ++ map_of (map (\<lambda>i. ((lib, i + 100, 0), fs ! i)) [0..<length fs])"

text \<open>\<open>mem\<close> tells whether the table of the functions can be allocated.\<close>

definition cf_init_ssl_error_strings :: "bool \<Rightarrow> err_state \<Rightarrow> err_state" where
  "cf_init_ssl_error_strings mem s =
     (if es_data s then s
      else
        (let lib = es_next_lib s;
             s = s\<lparr>es_lib_id := lib, es_next_lib := lib + 1, es_strings := load_reasons lib (es_strings s)\<rparr>;
             s = (if mem
                  then (let fs = sort (es_functions s) in s\<lparr>es_data := True, es_functions := fs, es_strings := load_functions lib fs (es_strings s)\<rparr>)
                  else s)
         in s\<lparr>es_strings := (es_strings s)((lib, 0, 0) := Some ''libCUTTLE'')\<rparr>))"

text \<open>The message is formatted if there is a format; \<open>None\<close> is no text.\<close>

definition cf_ssl_error :: "bool \<Rightarrow> string option \<Rightarrow> nat \<Rightarrow> string option \<Rightarrow> err_state \<Rightarrow> err_state" where
  "cf_ssl_error mem func reason msg s =
     (let s = cf_init_ssl_error_strings mem s;
          function = (case func of
                        None \<Rightarrow> 0
                      | Some f \<Rightarrow> (case bsearch f (es_functions s) 0 (length (es_functions s)) of None \<Rightarrow> 0 | Some i \<Rightarrow> i + 100))
      in s\<lparr>es_errors := es_errors s @ [(es_lib_id s, function, reason, msg)]\<rparr>)"

datatype ssl_status = SSL_ERROR_NONE | SSL_ERROR_WANT_CONNECT | SSL_ERROR_WANT_ACCEPT | SSL_ERROR_WANT_WRITE | SSL_ERROR_WANT_READ
  | SSL_ERROR_WANT_X509_LOOKUP | SSL_ERROR_ZERO_RETURN | SSL_ERROR_SYSCALL | SSL_ERROR_SSL

definition cf_get_ssl_error_string :: "string \<Rightarrow> ssl_status \<Rightarrow> string" where
  "cf_get_ssl_error_string strerror st =
     (case st of
        SSL_ERROR_NONE \<Rightarrow> ''SSL_ERROR_NONE'' | SSL_ERROR_WANT_CONNECT \<Rightarrow> ''SSL_ERROR_WANT_CONNECT'' | SSL_ERROR_WANT_ACCEPT \<Rightarrow> ''SSL_ERROR_WANT_ACCEPT''
      | SSL_ERROR_WANT_WRITE \<Rightarrow> ''SSL_ERROR_WANT_WRITE'' | SSL_ERROR_WANT_READ \<Rightarrow> ''SSL_ERROR_WANT_READ''
      | SSL_ERROR_WANT_X509_LOOKUP \<Rightarrow> ''SSL_ERROR_WANT_X509_LOOKUP'' | SSL_ERROR_ZERO_RETURN \<Rightarrow> ''Shutdown'' | SSL_ERROR_SYSCALL \<Rightarrow> strerror
      | SSL_ERROR_SSL \<Rightarrow> [])"

section \<open>Initialisation\<close>

text \<open>What a call of the locking callback does with the lock of its type; \<open>CRYPTO_LOCK\<close> is 1, \<open>CRYPTO_READ\<close> 4 and \<open>CRYPTO_WRITE\<close> 8.\<close>

datatype lock_call = Rw_unlock nat | Rw_wrlock nat | Rw_rdlock nat

definition cf_ssl_pthreads_locking_callback :: "nat option \<Rightarrow> u32 \<Rightarrow> nat \<Rightarrow> lock_call list ub" where
  "cf_ssl_pthreads_locking_callback locks mode type =
     (if mode AND 1 = 0 then (case locks of Some n \<Rightarrow> if type < n then Some [Rw_unlock type] else None | None \<Rightarrow> None)
      else if mode AND 8 \<noteq> 0 then (case locks of Some n \<Rightarrow> if type < n then Some [Rw_wrlock type] else None | None \<Rightarrow> None)
      else if mode AND 4 \<noteq> 0 then (case locks of Some n \<Rightarrow> if type < n then Some [Rw_rdlock type] else None | None \<Rightarrow> None)
      else Some [])"

text \<open>The array of locks is initialised without a test for a null pointer.\<close>

definition cf_ssl_thread_setup :: "answers \<Rightarrow> nat \<Rightarrow> ossl_mem \<Rightarrow> (nat option \<times> ossl_mem) ub" where
  "cf_ssl_thread_setup ans n s =
     (case onew ans R_buf s of
        (locks, s) \<Rightarrow>
          if locks = None \<and> 0 < n then None
          else Some (map_option (\<lambda>_. n) locks,
                     snd (call ans (Init_step ''CRYPTO_set_locking_callback'') (snd (call ans (Init_step ''CRYPTO_THREADID_set_callback'') s)))))"

definition engine_calls :: "string \<Rightarrow> nat \<Rightarrow> nat \<Rightarrow> ossl_call list" where
  "engine_calls name conf bio = [NCONF_load_bio conf bio, CONF_modules_load conf, ENGINE_by_id name]"

text \<open>The calls of a list until one fails; an answer of 0 is a failure.\<close>

fun calls_until :: "answers \<Rightarrow> ossl_call list \<Rightarrow> ossl_mem \<Rightarrow> bool \<times> ossl_mem" where
  "calls_until ans [] s = (True, s)"
| "calls_until ans (c # cs) s = (case call ans c s of (st, s) \<Rightarrow> if st \<noteq> 0 then calls_until ans cs s else (False, s))"

definition load_engine :: "answers \<Rightarrow> string \<Rightarrow> ossl_mem \<Rightarrow> (bool \<times> ossl_mem) ub" where
  "load_engine ans name s =
     (case onew ans R_conf s of
        (None, s) \<Rightarrow> Some (False, s)
      | (Some conf, s) \<Rightarrow>
          (case onew ans R_bio s of
             (None, s) \<Rightarrow> do { s \<leftarrow> ofree R_conf (Some conf) s; Some (False, s) }
           | (Some bio, s) \<Rightarrow>
               (case calls_until ans (engine_calls name conf bio) s of
                  (fok, s) \<Rightarrow> do { s \<leftarrow> ofree R_bio (Some bio) s; s \<leftarrow> ofree R_conf (Some conf) s; Some (fok, s) })))"

fun load_engines :: "answers \<Rightarrow> string list \<Rightarrow> ossl_mem \<Rightarrow> (bool list \<times> ossl_mem) ub" where
  "load_engines ans [] s = Some ([], snd (call ans (Init_step ''ERR_clear_error'') s))"
| "load_engines ans (name # names) s =
     do { (ok, s) \<leftarrow> load_engine ans name s; (oks, s) \<leftarrow> load_engines ans names s; Some (ok # oks, s) }"

definition cf_ssl_load_engines :: "answers \<Rightarrow> ossl_mem \<Rightarrow> (bool list \<times> ossl_mem) ub" where
  "cf_ssl_load_engines ans = load_engines ans [''gost'', ''dstu'']"

fun init_steps :: "answers \<Rightarrow> string list \<Rightarrow> ossl_mem \<Rightarrow> ossl_mem" where
  "init_steps ans [] s = s"
| "init_steps ans (n # ns) s = init_steps ans ns (snd (call ans (Init_step n) s))"

record ssl_global =
  sg_initialized :: bool
  sg_engines :: "bool list"
  sg_locks :: "nat option"
  sg_errors :: err_state

definition cf_ssl_initialize :: "answers \<Rightarrow> bool \<Rightarrow> nat \<Rightarrow> ssl_global \<Rightarrow> ossl_mem \<Rightarrow> (bool \<times> ssl_global \<times> ossl_mem) ub" where
  "cf_ssl_initialize ans mem nlocks g s =
     (if sg_initialized g then Some (True, g, s)
      else
        do { let s = init_steps ans [''SSL_library_init'', ''OPENSSL_no_config'', ''ERR_load_crypto_strings''] s;
             let g = g\<lparr>sg_errors := cf_init_ssl_error_strings mem (sg_errors g)\<rparr>;
             let s = init_steps ans [''OPENSSL_load_builtin_modules'', ''ENGINE_load_builtin_engines''] s;
             (engines, s) \<leftarrow> cf_ssl_load_engines ans s;
             let s = init_steps ans [''OpenSSL_add_all_ciphers'', ''OpenSSL_add_all_digests'', ''OpenSSL_add_all_algorithms''] s;
             (locks, s) \<leftarrow> cf_ssl_thread_setup ans nlocks s;
             Some (True, g\<lparr>sg_engines := engines, sg_locks := locks, sg_initialized := True\<rparr>, s) })"

section \<open>Lemmas\<close>

lemma sscmp_simps: "sscmp a b < 0 \<longleftrightarrow> a < b" "0 < sscmp a b \<longleftrightarrow> b < a" "sscmp a b = 0 \<longleftrightarrow> a = b"
  by (auto simp: sscmp_def)

text \<open>In a sorted table the search finds a text exactly if it is there, at a place where it is.\<close>

lemma bsearch_sorted:
  assumes "sorted base" "u \<le> length base"
  shows "case bsearch key base l u of None \<Rightarrow> \<forall>i. l \<le> i \<and> i < u \<longrightarrow> base ! i \<noteq> key | Some i \<Rightarrow> l \<le> i \<and> i < u \<and> base ! i = key"
  using assms
proof (induction key base l u rule: bsearch.induct)
  case (1 key base l u)
  let ?idx = "(l + u) div 2"
  note eq = bsearch.simps [of key base l u]
  show ?case
  proof (cases "l < u")
    case False
    then show ?thesis by (auto simp: eq)
  next
    case True
    have i: "l \<le> ?idx" "?idx < u" "?idx < length base" using True "1.prems"(2) by auto
    have mono: "base ! i \<le> base ! j" if "i \<le> j" "j < u" for i j using sorted_nth_mono [OF "1.prems"(1) that(1)] that "1.prems"(2) by simp
    consider (less) "key < base ! ?idx" | (greater) "base ! ?idx < key" | (found) "key = base ! ?idx" by fastforce
    then show ?thesis
    proof cases
      case less
      then have "bsearch key base l u = bsearch key base l ?idx" using True by (simp add: eq Let_def sscmp_simps)
      moreover have "base ! j \<noteq> key" if "?idx \<le> j" "j < u" for j using mono [OF that] less by auto
      moreover have "case bsearch key base l ?idx of None \<Rightarrow> \<forall>i. l \<le> i \<and> i < ?idx \<longrightarrow> base ! i \<noteq> key | Some i \<Rightarrow> l \<le> i \<and> i < ?idx \<and> base ! i = key"
        using "1.IH"(1) [OF True refl refl] less i "1.prems" by (simp add: sscmp_simps)
      ultimately show ?thesis using i by (auto split: option.splits) (metis not_less)
    next
      case greater
      then have order: "\<not> key < base ! ?idx" by auto
      then have "bsearch key base l u = bsearch key base (?idx + 1) u" using True greater by (simp add: eq Let_def sscmp_simps)
      moreover have "base ! j \<noteq> key" if "j \<le> ?idx" for j using mono [OF that i(2)] greater by auto
      moreover have "case bsearch key base (?idx + 1) u of None \<Rightarrow> \<forall>i. ?idx + 1 \<le> i \<and> i < u \<longrightarrow> base ! i \<noteq> key | Some i \<Rightarrow> ?idx + 1 \<le> i \<and> i < u \<and> base ! i = key"
        using "1.IH"(2) [OF True refl refl] greater order i "1.prems" by (simp add: sscmp_simps)
      ultimately show ?thesis using i by (auto split: option.splits) (metis Suc_leI not_less)
    next
      case found
      have "bsearch key base l u = Some ?idx" using True unfolding eq Let_def found [symmetric] by (simp add: sscmp_def)
      then show ?thesis using found i by simp
    qed
  qed
qed

text \<open>The strings of OpenSSL agree with the sorted table.\<close>

definition err_inv :: "err_state \<Rightarrow> bool" where
  "err_inv s \<longleftrightarrow> distinct (es_functions s) \<and> set (es_functions s) = set cf_crypto_functions \<and>
     (es_data s \<longrightarrow> sorted (es_functions s) \<and> (\<forall>i<length (es_functions s). es_strings s (es_lib_id s, i + 100, 0) = Some (es_functions s ! i)) \<and>
        (\<forall>(r, t)\<in>set cf_crypto_str_reasons. es_strings s (es_lib_id s, 0, r) = Some t))"

lemma load_functions_at:
  "i < length fs \<Longrightarrow> load_functions lib fs strs (lib, i + 100, 0) = Some (fs ! i)" "j < 100 \<Longrightarrow> load_functions lib fs strs (l, j, r) = strs (l, j, r)"
proof -
  let ?m = "map (\<lambda>i. ((lib, i + 100, 0 :: nat), fs ! i)) [0..<length fs]"
  have d: "distinct (map fst ?m)" by (auto simp: distinct_map inj_on_def comp_def)
  show "i < length fs \<Longrightarrow> load_functions lib fs strs (lib, i + 100, 0) = Some (fs ! i)"
    using map_of_is_SomeI [OF d, of "(lib, i + 100, 0)" "fs ! i"] by (force simp: load_functions_def map_add_def)
  have "map_of ?m (l, j, r) = None" if "j < 100" using that by (auto simp: map_of_eq_None_iff)
  then show "j < 100 \<Longrightarrow> load_functions lib fs strs (l, j, r) = strs (l, j, r)" by (simp add: load_functions_def map_add_def)
qed

lemma reasons_distinct: "distinct (map fst cf_crypto_str_reasons)" "\<forall>(r, t)\<in>set cf_crypto_str_reasons. r \<noteq> 0"
  by (simp_all add: cf_crypto_str_reasons_def)

lemma load_reasons_at: "(r, t) \<in> set cf_crypto_str_reasons \<Longrightarrow> load_reasons lib strs (lib, 0, r) = Some t"
proof -
  let ?m = "map (\<lambda>(r, s). ((lib, 0 :: nat, r), s)) cf_crypto_str_reasons"
  have d: "distinct (map fst ?m)" by (simp add: cf_crypto_str_reasons_def)
  assume "(r, t) \<in> set cf_crypto_str_reasons"
  then have "((lib, 0, r), t) \<in> set ?m" by force
  then have "map_of ?m (lib, 0, r) = Some t" by (rule map_of_is_SomeI [OF d])
  then show ?thesis by (simp add: load_reasons_def map_add_def)
qed

lemma cf_init_inv: "err_inv s \<Longrightarrow> err_inv (cf_init_ssl_error_strings mem s)"
  using reasons_distinct(2)
  by (auto simp: err_inv_def cf_init_ssl_error_strings_def Let_def load_functions_at load_reasons_at)

lemma cf_init_ready: "mem \<or> es_data s \<Longrightarrow> es_data (cf_init_ssl_error_strings mem s)"
  by (auto simp: cf_init_ssl_error_strings_def Let_def)

text \<open>The engines and the locks: what is live afterwards.\<close>

lemma calls_until_live: "om_live (snd (calls_until ans cs s)) = om_live s"
  by (induction ans cs s rule: calls_until.induct) (auto simp: call_def)

lemma load_engine_ok: "\<exists>ok s'. load_engine ans name s = Some (ok, s') \<and> om_live s' = om_live s"
proof (cases "onew ans R_conf s")
  case (Pair conf s1)
  note s1 = onew_adds [OF Pair]
  obtain bio s2 where b: "onew ans R_bio s1 = (bio, s2)" by force
  note s2 = onew_adds [OF b]
  show ?thesis
  proof (cases "conf = None \<or> bio = None")
    case True
    then show ?thesis using Pair s1 b s2 by (cases conf) (auto simp: load_engine_def)
  next
    case False
    then obtain c d where cd: "conf = Some c" "bio = Some d" by auto
    obtain ok s3 where "calls_until ans (engine_calls name c d) s2 = (ok, s3)" by force
    then show ?thesis using Pair s1 b s2 cd calls_until_live [of ans "engine_calls name c d" s2] by (auto simp: load_engine_def)
  qed
qed

lemma load_engines_ok: "\<exists>oks s'. load_engines ans names s = Some (oks, s') \<and> om_live s' = om_live s \<and> length oks = length names"
proof (induction names arbitrary: s)
  case (Cons name names)
  obtain ok s1 where "load_engine ans name s = Some (ok, s1)" "om_live s1 = om_live s" using load_engine_ok by blast
  then show ?case using Cons.IH [of s1] by auto
qed (simp add: call_def)

lemma init_steps_live: "om_live (init_steps ans ns s) = om_live s"
  by (induction ans ns s rule: init_steps.induct) (simp_all add: call_def)

section \<open>Properties\<close>

text \<open>Error codes name the functions they stand for. From the initial table on, in every state that sequences of errors and failed allocations lead to: once the
  table could be allocated, an error that is reported for a function of the table carries a code whose registered text is the name of this function, an error for
  any other function carries the code 0, and the codes of the reasons have their texts.\<close>

theorem cf_ssl_error_named:
  assumes "err_inv s" "mem \<or> es_data s" "s' = cf_ssl_error mem (Some f) reason msg s"
  shows "err_inv s' \<and> es_data s' \<and>
    (\<exists>function. es_errors s' = es_errors s @ [(es_lib_id s', function, reason, msg)] \<and>
      (if f \<in> set cf_crypto_functions then 100 \<le> function \<and> es_strings s' (es_lib_id s', function, 0) = Some f else function = 0)) \<and>
    (\<forall>(r, t)\<in>set cf_crypto_str_reasons. es_strings s' (es_lib_id s', 0, r) = Some t)"
proof -
  let ?t = "cf_init_ssl_error_strings mem s" and ?b = "bsearch f (es_functions (cf_init_ssl_error_strings mem s)) 0 (length (es_functions (cf_init_ssl_error_strings mem s)))"
  have t: "err_inv ?t" "es_data ?t" using cf_init_inv cf_init_ready assms(1,2) by auto
  have s': "s' = ?t\<lparr>es_errors := es_errors ?t @ [(es_lib_id ?t, case ?b of None \<Rightarrow> 0 | Some i \<Rightarrow> i + 100, reason, msg)]\<rparr>"
    by (simp add: assms(3) cf_ssl_error_def Let_def)
  have "es_errors ?t = es_errors s" by (simp add: cf_init_ssl_error_strings_def Let_def)
  moreover have "if f \<in> set cf_crypto_functions then 100 \<le> (case ?b of None \<Rightarrow> 0 | Some i \<Rightarrow> i + 100) \<and>
      es_strings ?t (es_lib_id ?t, case ?b of None \<Rightarrow> 0 | Some i \<Rightarrow> i + 100, 0) = Some f else (case ?b of None \<Rightarrow> 0 | Some i \<Rightarrow> i + 100) = 0"
  proof (cases ?b)
    case None
    then have "\<forall>i<length (es_functions ?t). es_functions ?t ! i \<noteq> f"
      using bsearch_sorted [where base = "es_functions ?t" and u = "length (es_functions ?t)" and key = f and l = 0] t by (simp add: err_inv_def)
    then have "f \<notin> set (es_functions ?t)" by (auto simp: in_set_conv_nth)
    then show ?thesis using None t by (simp add: err_inv_def)
  next
    case (Some i)
    then have "i < length (es_functions ?t)" "es_functions ?t ! i = f"
      using bsearch_sorted [where base = "es_functions ?t" and u = "length (es_functions ?t)" and key = f and l = 0] t by (auto simp: err_inv_def)
    moreover from this have "f \<in> set cf_crypto_functions" using t nth_mem by (fastforce simp: err_inv_def)
    ultimately show ?thesis using Some t by (simp add: err_inv_def)
  qed
  ultimately show ?thesis using t by (simp add: s' err_inv_def)
qed

text \<open>The library is initialised once: the first call returns with the locks allocated and every configuration and BIO released, whatever the engines answer, and
  it is undefined exactly if there are locks but no memory for them; every later call returns at once.\<close>

theorem cf_ssl_initialize_once:
  "(\<forall>g :: ssl_global. \<not> sg_initialized g \<longrightarrow>
     (case cf_ssl_initialize ans mem nlocks g s of
        None \<Rightarrow> 0 < nlocks
      | Some (ok, g', s') \<Rightarrow> ok \<and> sg_initialized g' \<and> length (sg_engines g') = 2 \<and> sg_locks g' \<in> {None, Some nlocks} \<and>
          (sg_locks g' = None \<longrightarrow> nlocks = 0) \<and>
          (\<exists>b. om_live s' = (if sg_locks g' = None then [] else [(R_buf, b)]) @ om_live s) \<and>
          (\<forall>ans mem n s''. cf_ssl_initialize ans mem n g' s'' = Some (True, g', s''))))"
proof (intro allI impI)
  fix g :: ssl_global assume g: "\<not> sg_initialized g"
  let ?s1 = "init_steps ans [''OPENSSL_load_builtin_modules'', ''ENGINE_load_builtin_engines''] (init_steps ans [''SSL_library_init'', ''OPENSSL_no_config'', ''ERR_load_crypto_strings''] s)"
  have live1: "om_live ?s1 = om_live s" by (simp only: init_steps_live)
  obtain oks s2 where e: "cf_ssl_load_engines ans ?s1 = Some (oks, s2)" "om_live s2 = om_live s" "length oks = 2"
    using load_engines_ok [of ans "[''gost'', ''dstu'']" ?s1] live1 by (auto simp: cf_ssl_load_engines_def)
  let ?s3 = "init_steps ans [''OpenSSL_add_all_ciphers'', ''OpenSSL_add_all_digests'', ''OpenSSL_add_all_algorithms''] s2"
  obtain b s4 where l: "onew ans R_buf ?s3 = (b, s4)" by force
  have live4: "om_live s4 = obj R_buf b @ om_live s" using onew_adds [OF l] e(2) by (simp only: init_steps_live)
  show "case cf_ssl_initialize ans mem nlocks g s of
        None \<Rightarrow> 0 < nlocks
      | Some (ok, g', s') \<Rightarrow> ok \<and> sg_initialized g' \<and> length (sg_engines g') = 2 \<and> sg_locks g' \<in> {None, Some nlocks} \<and>
          (sg_locks g' = None \<longrightarrow> nlocks = 0) \<and>
          (\<exists>b. om_live s' = (if sg_locks g' = None then [] else [(R_buf, b)]) @ om_live s) \<and>
          (\<forall>ans mem n s''. cf_ssl_initialize ans mem n g' s'' = Some (True, g', s''))"
    unfolding cf_ssl_initialize_def Let_def cf_ssl_thread_setup_def using g e l live4
    by (cases b) (auto simp del: init_steps.simps simp: call_def)
qed

text \<open>While the table cannot be allocated, every error takes a new library number, and the search runs on a table that is not sorted.\<close>

lemma no_table_new_library: "\<not> es_data s \<Longrightarrow> es_next_lib (cf_ssl_error False f reason msg s) = es_next_lib s + 1"
  by (simp add: cf_ssl_error_def cf_init_ssl_error_strings_def Let_def)

section \<open>Examples\<close>

definition example_err :: err_state where
  "example_err = \<lparr>es_lib_id = 0, es_data = False, es_functions = cf_crypto_functions, es_next_lib = 128, es_strings = (\<lambda>_. None), es_errors = []\<rparr>"

lemma example_err_inv: "err_inv example_err"
  by (simp add: err_inv_def example_err_def cf_crypto_functions_def)

theorem cf_ssl_error_named_witness:
  "\<exists>function. es_errors (cf_ssl_error True (Some ''cf_pkey_new'') 101 None example_err) = [(128, function, 101, None)] \<and> 100 \<le> function"
proof -
  have "''cf_pkey_new'' \<in> set cf_crypto_functions" by (simp add: cf_crypto_functions_def)
  moreover have "es_lib_id (cf_ssl_error True (Some ''cf_pkey_new'') 101 None example_err) = 128"
    by (simp add: cf_ssl_error_def cf_init_ssl_error_strings_def example_err_def Let_def)
  ultimately show ?thesis
    using cf_ssl_error_named [OF example_err_inv, of True _ "''cf_pkey_new''" 101 None] by (auto simp: example_err_def)
qed

end
