(* ===== verification/Co_Start.thy ===== *)
theory Co_Start
  imports Co_Schedule Co_Thread Corpc_Channel Co_Ssl
begin

text \<open>
  How the scheduler starts and what its objects ask of the kernel, src/cothread/co-scheduler.c: the event descriptor
  and the listener thread behind it, the registration of descriptors, the creation and release of locks, the first steps of a core,
  the flag \<open>csbusy\<close> and the stacks of coroutines; with the functions of src/cothread/co-ssl.c and src/corpc/corpc-channel.c that
  answer queries about a socket, and the global lock of the channels. The kernel's part is a record of the open
  descriptors with their flags and of the descriptors registered for events, with the documented effects of \<open>fcntl\<close>,
  \<open>epoll_ctl\<close> and \<open>close\<close>; failures for other reasons are parameters.
\<close>

section \<open>Loops that repeat a call\<close>

text \<open>A loop whose condition reads something that others change: \<open>go n\<close> is the condition at its \<open>n\<close>-th evaluation. The result is the
  evaluation that ends the loop.\<close>

partial_function (option) retry_while :: "(nat \<Rightarrow> bool) \<Rightarrow> nat \<Rightarrow> nat option" where
  "retry_while go n = (if go n then retry_while go (Suc n) else Some n)"

declare retry_while.simps [code]

definition EINTR :: errno where "EINTR = EOTHER 4"

definition epoll_wait_events :: "(nat \<Rightarrow> errno + nat) \<Rightarrow> (errno + nat) option" where
  "epoll_wait_events answers = map_option answers (retry_while (\<lambda>n. answers n = Inl EINTR) 0)"

text \<open>\<open>busy n\<close> is \<open>csbusy\<close> at the \<open>n\<close>-th test. The result is the number of yields and the flag that the caller leaves.\<close>

definition co_scheduler_lock :: "(nat \<Rightarrow> bool) \<Rightarrow> (nat \<times> bool) option" where
  "co_scheduler_lock busy = map_option (\<lambda>n. (n, True)) (retry_while busy 0)"

section \<open>Descriptors\<close>

definition O_NONBLOCK :: u32 where "O_NONBLOCK = 0x800"
definition EPOLLONESHOT :: u32 where "EPOLLONESHOT = 0x40000000"
definition EPOLLET :: u32 where "EPOLLET = 0x80000000"

record listener_state =
  ls_eso :: int
  ls_files :: "int \<rightharpoonup> u32"
  ls_interest :: "int \<rightharpoonup> u32"
  ls_threads :: nat

definition open_fd :: "int \<Rightarrow> u32 \<Rightarrow> listener_state \<Rightarrow> listener_state" where
  "open_fd fd flags s = s\<lparr>ls_files := (ls_files s)(fd \<mapsto> flags)\<rparr>"

text \<open>\<open>close\<close> takes a descriptor out of the set of registered ones; closing the event descriptor drops the whole set.\<close>

definition close_fd :: "int \<Rightarrow> listener_state \<Rightarrow> listener_state" where
  "close_fd fd s =
     s\<lparr>ls_files := (ls_files s)(fd := None),
       ls_interest := (if fd = ls_eso s then Map.empty else (ls_interest s)(fd := None))\<rparr>"

definition set_non_blocking :: "bool \<Rightarrow> int \<Rightarrow> bool \<Rightarrow> listener_state \<Rightarrow> bool \<times> listener_state" where
  "set_non_blocking setfl_ok so optval s =
     (case ls_files s so of
        None \<Rightarrow> (False, s)
      | Some flags \<Rightarrow>
          if \<not> setfl_ok then (False, s)
          else (True, open_fd so (if optval then flags OR O_NONBLOCK else flags AND NOT O_NONBLOCK) s))"

definition epoll_events :: "u32 \<Rightarrow> u32" where
  "epoll_events events = (events OR (if events AND EPOLLONESHOT \<noteq> 0 then 0 else EPOLLET))"

definition epoll_ctl_add :: "bool \<Rightarrow> int \<Rightarrow> u32 \<Rightarrow> listener_state \<Rightarrow> bool \<times> listener_state" where
  "epoll_ctl_add ctl_ok so ev s =
     (if ctl_ok \<and> ls_files s (ls_eso s) \<noteq> None \<and> ls_files s so \<noteq> None \<and> so \<noteq> ls_eso s \<and> ls_interest s so = None
      then (True, s\<lparr>ls_interest := (ls_interest s)(so \<mapsto> ev)\<rparr>) else (False, s))"

definition epoll_add :: "bool \<Rightarrow> iorq \<Rightarrow> u32 \<Rightarrow> listener_state \<Rightarrow> (bool \<times> listener_state) ub" where
  "epoll_add ctl_ok e events s =
     do { _ \<leftarrow> e_check e;
          let (status, s) = epoll_ctl_add ctl_ok (rq_so e) (epoll_events events) s;
          _ \<leftarrow> e_check e;
          Some (status, s) }"

definition epoll_remove :: "int \<Rightarrow> listener_state \<Rightarrow> bool \<times> listener_state" where
  "epoll_remove so s =
     (if ls_files s (ls_eso s) \<noteq> None \<and> ls_interest s so \<noteq> None
      then (True, s\<lparr>ls_interest := (ls_interest s)(so := None)\<rparr>) else (False, s))"

text \<open>\<open>epfd\<close> is what \<open>epoll_create\<close> returns, \<open>thr_status\<close> the status of \<open>pthread_create\<close>.\<close>

definition epoll_listener_init :: "int option \<Rightarrow> nat \<Rightarrow> listener_state \<Rightarrow> bool \<times> listener_state" where
  "epoll_listener_init epfd thr_status s =
     (if ls_eso s = -1 then
        (case epfd of
           None \<Rightarrow> (False, s)
         | Some fd \<Rightarrow>
             let s = (open_fd fd 2 s)\<lparr>ls_eso := fd\<rparr> in
             if thr_status = 0 then (True, s\<lparr>ls_threads := Suc (ls_threads s)\<rparr>)
             else (False, (close_fd (ls_eso s) s)\<lparr>ls_eso := -1\<rparr>))
      else (True, s))"

section \<open>Locks\<close>

record lock_env =
  le_mem :: bool
  le_eventfd :: "int option"
  le_setfl :: bool
  le_epoll :: bool

text \<open>The clean-up of \<open>co_thread_lock_init_internal\<close> and of \<open>co_thread_lock_destroy\<close>.\<close>

definition drop_fd :: "int \<Rightarrow> listener_state \<Rightarrow> listener_state" where
  "drop_fd so s = (if so \<noteq> -1 then close_fd so (snd (epoll_remove so s)) else s)"

definition co_thread_lock_init :: "lock_env \<Rightarrow> listener_state \<Rightarrow> (co_thread_lock_s option \<times> listener_state) ub" where
  "co_thread_lock_init env s =
     (if \<not> le_mem env then Some (None, s)
      else
        let so = (case le_eventfd env of None \<Rightarrow> -1 | Some fd \<Rightarrow> fd);
            s = (case le_eventfd env of None \<Rightarrow> s | Some fd \<Rightarrow> open_fd fd 2 s);
            e = \<lparr>rq_head = None, rq_tail = None, rq_so = so, rq_type = iowait_eventfd\<rparr> in
        if so = 0 then Some (None, drop_fd so s)
        else
          let (nb, s) = set_non_blocking (le_setfl env) so True s in
          if \<not> nb then Some (None, drop_fd so s)
          else do { (ok, s) \<leftarrow> epoll_add (le_epoll env) e EPOLLIN s;
                    Some (if ok then (Some \<lparr>lk_e = e, lk_co = None, lk_fd = 0\<rparr>, s) else (None, drop_fd so s)) })"

text \<open>\<open>*objp\<close> is a lock or null.\<close>

definition co_thread_lock_destroy :: "co_thread_lock_s option \<Rightarrow> listener_state \<Rightarrow> co_thread_lock_s option \<times> listener_state" where
  "co_thread_lock_destroy obj s =
     (case obj of None \<Rightarrow> (None, s) | Some l \<Rightarrow> (None, drop_fd (rq_so (lk_e l)) s))"

type_synonym lock_cell = "co_thread_lock_s option \<times> sched_mem \<times> listener_state"

text \<open>\<open>co_thread_lock\<close> up to its loop: \<open>None\<close> is the result false.\<close>

definition co_thread_lock :: "lock_env \<Rightarrow> agent \<Rightarrow> lock_cell \<Rightarrow> (wref option option \<times> lock_cell) ub" where
  "co_thread_lock env me = (\<lambda>(obj, m, s).
     do { (obj, s) \<leftarrow> (case obj of Some l \<Rightarrow> Some (Some l, s) | None \<Rightarrow> co_thread_lock_init env s);
          (case obj of
             None \<Rightarrow> Some (None, None, m, s)
           | Some l \<Rightarrow> do { (wp, l, m) \<leftarrow> lock_begin me (l, m); Some (Some wp, Some l, m, s) }) })"

definition co_thread_signal :: "agent \<Rightarrow> lock_mem \<Rightarrow> (nat \<times> lock_mem) ub" where
  "co_thread_signal me = co_thread_signal_internal me False"

definition co_thread_broadcast :: "agent \<Rightarrow> lock_mem \<Rightarrow> (nat \<times> lock_mem) ub" where
  "co_thread_broadcast me = co_thread_signal_internal me True"

text \<open>
  The global lock of the channels, src/corpc/corpc-channel.c. A failure is only logged: the first component of a result
  tells whether it was. A null lock stops the process in \<open>co_thread_check\<close>.
\<close>

definition channel_state_lock :: "lock_env \<Rightarrow> agent \<Rightarrow> lock_cell \<Rightarrow> (bool \<times> wref option \<times> lock_cell) ub" where
  "channel_state_lock env me st =
     do { (r, st) \<leftarrow> co_thread_lock env me st;
          Some (case r of None \<Rightarrow> (True, None, st) | Some wp \<Rightarrow> (False, wp, st)) }"

definition channel_state_unlock :: "agent \<Rightarrow> lock_cell \<Rightarrow> lock_cell ub" where
  "channel_state_unlock me = (\<lambda>(obj, m, s).
     do { l \<leftarrow> obj; (l, m) \<leftarrow> co_thread_unlock me (l, m); Some (Some l, m, s) })"

definition channel_state_wait :: "agent \<Rightarrow> int \<Rightarrow> int \<Rightarrow> lock_cell \<Rightarrow> (bool \<times> wref option \<times> lock_cell) ub" where
  "channel_state_wait me tmo ct = (\<lambda>(obj, m, s).
     do { l \<leftarrow> obj;
          (r, l, m) \<leftarrow> wait_begin me tmo ct (l, m);
          Some (case r of Inl _ \<Rightarrow> (True, None, Some l, m, s) | Inr w \<Rightarrow> (False, Some w, Some l, m, s)) })"

definition channel_state_signal :: "agent \<Rightarrow> lock_cell \<Rightarrow> lock_cell ub" where
  "channel_state_signal me = (\<lambda>(obj, m, s).
     do { l \<leftarrow> obj; (n, l, m) \<leftarrow> co_thread_broadcast me (l, m); Some (Some l, m, s) })"

section \<open>Cores and stacks\<close>

text \<open>
  \<open>pclthread\<close> up to its loop. \<open>co_current\<close> returns the address of the main coroutine in the new context, which is not null; \<open>co\<close> is
  what \<open>co_create\<close> returns for the coroutine that answers requests. The process exits when a step fails.
\<close>

datatype core_start = Exits | Started nat core_state

definition pclthread_begin :: "co_thread_env \<Rightarrow> bool \<Rightarrow> cothread_ctx \<Rightarrow> nat option \<Rightarrow> core_state \<Rightarrow> core_start ub" where
  "pclthread_begin tenv ok global_ctx co s =
     (case co_thread_init tenv ok None of
        (False, _) \<Rightarrow> Some Exits
      | (True, ctx) \<Rightarrow>
          (case co of
             None \<Rightarrow> Some Exits
           | Some co \<Rightarrow>
               do { (_, q) \<leftarrow> ccfifo_ppush (cs_queue s) co;
                    Some (Started (co_current (co_get_thread_ctx (valid_key tenv) ctx global_ctx)) (s\<lparr>cs_queue := q\<rparr>)) }))"

text \<open>
  The memory of stacks: the mapped blocks with their sizes. \<open>mmap\<close> answers a failure with \<open>MAP_FAILED\<close>, which the
  test for null does not see. Only blocks that were mapped as a whole are given back.
\<close>

definition MAP_FAILED :: u64 where "MAP_FAILED = -1"

definition co_stack_alloc :: "u64 option \<Rightarrow> u64 \<Rightarrow> (u64 \<times> u64) list \<Rightarrow> (u64 \<times> bool) \<times> (u64 \<times> u64) list" where
  "co_stack_alloc mm sz maps =
     (let p = (case mm of None \<Rightarrow> MAP_FAILED | Some a \<Rightarrow> a);
          maps = (case mm of None \<Rightarrow> maps | Some a \<Rightarrow> (a, sz) # maps) in
      ((p, p = 0), maps))"

definition co_stack_free :: "u64 \<Rightarrow> u64 \<Rightarrow> (u64 \<times> u64) list \<Rightarrow> bool \<times> (u64 \<times> u64) list" where
  "co_stack_free stack sz maps = (let ok = ((stack, sz) \<in> set maps) in (\<not> ok, if ok then remove1 (stack, sz) maps else maps))"

section \<open>Queries\<close>

text \<open>\<open>gp\<close> is \<open>getpeername\<close> or \<open>getsockname\<close> of the kernel, as a function of the descriptor.\<close>

definition co_socket_get_peername :: "(int \<Rightarrow> errno + 'a) \<Rightarrow> co_socket option \<Rightarrow> errno + 'a" where
  "co_socket_get_peername gp cc = (case cc of None \<Rightarrow> Inl ENOTSOCK | Some cc \<Rightarrow> gp (rq_so (sk_e cc)))"

definition co_socket_get_sockname :: "(int \<Rightarrow> errno + 'a) \<Rightarrow> co_socket option \<Rightarrow> errno + 'a" where
  "co_socket_get_sockname gs cc = (case cc of None \<Rightarrow> Inl ENOTSOCK | Some cc \<Rightarrow> gs (rq_so (sk_e cc)))"

definition co_ssl_socket_get_peername :: "(int \<Rightarrow> errno + 'a) \<Rightarrow> co_ssl_socket option \<Rightarrow> errno + 'a" where
  "co_ssl_socket_get_peername gp cc =
     (case cc of None \<Rightarrow> Inl ENOTSOCK | Some cc \<Rightarrow> co_socket_get_peername gp (Some (ss_cc cc)))"

definition co_ssl_socket_get_sockname :: "(int \<Rightarrow> errno + 'a) \<Rightarrow> co_ssl_socket option \<Rightarrow> errno + 'a" where
  "co_ssl_socket_get_sockname gs cc =
     (case cc of None \<Rightarrow> Inl ENOTSOCK | Some cc \<Rightarrow> co_socket_get_sockname gs (Some (ss_cc cc)))"

definition co_ssl_socket_get_ssl :: "co_ssl_socket option \<Rightarrow> nat option" where
  "co_ssl_socket_get_ssl cc = (case cc of None \<Rightarrow> None | Some cc \<Rightarrow> ss_ssl cc)"

text \<open>\<open>socks\<close> are the sockets behind the addresses in the channels.\<close>

definition corpc_channel_set_client_context :: "nat \<Rightarrow> nat \<Rightarrow> corpc_world \<Rightarrow> corpc_world ub" where
  "corpc_channel_set_client_context c ctx w =
     do { ch \<leftarrow> w_channels w c; Some (put_channel c (ch\<lparr>ch_client_context := ctx\<rparr>) w) }"

definition corpc_channel_get_client_context :: "nat \<Rightarrow> corpc_world \<Rightarrow> nat ub" where
  "corpc_channel_get_client_context c w = map_option ch_client_context (w_channels w c)"

definition corpc_stream_get_channel_client_context :: "nat \<Rightarrow> corpc_world \<Rightarrow> nat ub" where
  "corpc_stream_get_channel_client_context s w =
     do { st \<leftarrow> w_streams w s; c \<leftarrow> st_channel st; corpc_channel_get_client_context c w }"

definition corpc_get_channel_state :: "nat \<Rightarrow> corpc_world \<Rightarrow> corpc_channel_state ub" where
  "corpc_get_channel_state c w = map_option ch_state (w_channels w c)"

text \<open>The reference counting of Corpc_Channel under its public names, and the reset of a stream.\<close>

definition corpc_channel_addref :: "nat option \<Rightarrow> corpc_world \<Rightarrow> corpc_world ub" where
  "corpc_channel_addref = corpc_channel_addref_internal"

definition corpc_channel_release :: "nat option \<Rightarrow> corpc_world \<Rightarrow> corpc_world ub" where
  "corpc_channel_release = corpc_channel_release_internal"

definition corpc_channel_close :: "nat option \<Rightarrow> corpc_world \<Rightarrow> corpc_world ub" where
  "corpc_channel_close = corpc_channel_close_internal"

definition corpc_stream_cleanup :: "corpc_stream \<Rightarrow> corpc_stream" where
  "corpc_stream_cleanup st = (let st = st\<lparr>st_rxq := ccfifo_cleanup (st_rxq st)\<rparr> in zero_stream)"

definition sock_at :: "(nat \<rightharpoonup> co_ssl_socket) \<Rightarrow> nat option \<Rightarrow> co_ssl_socket option ub" where
  "sock_at socks a = (case a of None \<Rightarrow> Some None | Some a \<Rightarrow> map_option Some (socks a))"

definition corpc_channel_get_ssl :: "(nat \<rightharpoonup> co_ssl_socket) \<Rightarrow> nat \<Rightarrow> corpc_world \<Rightarrow> nat option ub" where
  "corpc_channel_get_ssl socks c w =
     do { ch \<leftarrow> w_channels w c; sk \<leftarrow> sock_at socks (ch_ssl_sock ch); Some (co_ssl_socket_get_ssl sk) }"

definition corpc_channel_get_peername ::
  "(nat \<rightharpoonup> co_ssl_socket) \<Rightarrow> (int \<Rightarrow> errno + 'a) \<Rightarrow> nat option \<Rightarrow> corpc_world \<Rightarrow> (errno + 'a) ub" where
  "corpc_channel_get_peername socks gp cp w =
     (case cp of
        None \<Rightarrow> Some (Inl ENOTSOCK)
      | Some c \<Rightarrow>
          do { ch \<leftarrow> w_channels w c;
               if ch_ssl_sock ch = None then Some (Inl ENOTSOCK)
               else do { sk \<leftarrow> sock_at socks (ch_ssl_sock ch); Some (co_ssl_socket_get_peername gp sk) } })"

definition corpc_channel_get_sockname ::
  "(nat \<rightharpoonup> co_ssl_socket) \<Rightarrow> (int \<Rightarrow> errno + 'a) \<Rightarrow> nat option \<Rightarrow> corpc_world \<Rightarrow> (errno + 'a) ub" where
  "corpc_channel_get_sockname socks gs cp w =
     (case cp of
        None \<Rightarrow> Some (Inl ENOTSOCK)
      | Some c \<Rightarrow>
          do { ch \<leftarrow> w_channels w c;
               if ch_ssl_sock ch = None then Some (Inl ENOTSOCK)
               else do { sk \<leftarrow> sock_at socks (ch_ssl_sock ch); Some (co_ssl_socket_get_sockname gs sk) } })"

text \<open>The common test of the queries on a stream.\<close>

definition stream_has_sock :: "nat option \<Rightarrow> corpc_world \<Rightarrow> nat option ub" where
  "stream_has_sock sp w =
     (case sp of
        None \<Rightarrow> Some None
      | Some s \<Rightarrow>
          do { st \<leftarrow> w_streams w s;
               (case st_channel st of
                  None \<Rightarrow> Some None
                | Some c \<Rightarrow> do { ch \<leftarrow> w_channels w c; Some (if ch_ssl_sock ch = None then None else Some c) }) })"

definition corpc_stream_get_peername ::
  "(nat \<rightharpoonup> co_ssl_socket) \<Rightarrow> (int \<Rightarrow> errno + 'a) \<Rightarrow> nat option \<Rightarrow> corpc_world \<Rightarrow> (errno + 'a) ub" where
  "corpc_stream_get_peername socks gp sp w =
     do { cp \<leftarrow> stream_has_sock sp w;
          (case cp of None \<Rightarrow> Some (Inl ENOTSOCK) | Some c \<Rightarrow> corpc_channel_get_peername socks gp (Some c) w) }"

definition corpc_stream_get_sockname ::
  "(nat \<rightharpoonup> co_ssl_socket) \<Rightarrow> (int \<Rightarrow> errno + 'a) \<Rightarrow> nat option \<Rightarrow> corpc_world \<Rightarrow> (errno + 'a) ub" where
  "corpc_stream_get_sockname socks gs sp w =
     do { cp \<leftarrow> stream_has_sock sp w;
          (case cp of None \<Rightarrow> Some (Inl ENOTSOCK) | Some c \<Rightarrow> corpc_channel_get_sockname socks gs (Some c) w) }"

section \<open>The loops end with the first answer\<close>

lemma retry_while_found:
  assumes "\<not> P k" "\<forall>i. n \<le> i \<and> i < k \<longrightarrow> P i" "n \<le> k"
  shows "retry_while P n = Some k"
  using assms
proof (induction "k - n" arbitrary: n)
  case 0
  then show ?case by (simp add: retry_while.simps [of P n])
next
  case (Suc d)
  then have "n < k" by simp
  with Suc.prems(2) have "P n" by blast
  moreover have "retry_while P (Suc n) = Some k" using Suc by (intro Suc.hyps(1)) auto
  ultimately show ?case by (simp add: retry_while.simps [of P n])
qed

lemma retry_while_sound:
  assumes "retry_while P n = Some k"
  shows "\<not> P k \<and> n \<le> k \<and> (\<forall>i. n \<le> i \<and> i < k \<longrightarrow> P i)"
proof (rule retry_while.raw_induct [where P = "\<lambda>P n k. \<not> P k \<and> n \<le> k \<and> (\<forall>i. n \<le> i \<and> i < k \<longrightarrow> P i)", OF _ assms])
  fix rw :: "(nat \<Rightarrow> bool) \<Rightarrow> nat \<Rightarrow> nat option" and P n k
  assume IH: "\<And>P n k. rw P n = Some k \<Longrightarrow> \<not> P k \<and> n \<le> k \<and> (\<forall>i. n \<le> i \<and> i < k \<longrightarrow> P i)"
    and r: "(if P n then rw P (Suc n) else Some n) = Some k"
  show "\<not> P k \<and> n \<le> k \<and> (\<forall>i. n \<le> i \<and> i < k \<longrightarrow> P i)"
  proof (cases "P n")
    case True
    with r have "\<not> P k \<and> Suc n \<le> k \<and> (\<forall>i. Suc n \<le> i \<and> i < k \<longrightarrow> P i)" by (intro IH) simp
    with True show ?thesis by (metis Suc_leD Suc_leI le_neq_implies_less)
  next
    case False
    with r have "k = n" by simp
    with False show ?thesis by auto
  qed
qed

lemma retry_while_iff: "retry_while P n = Some k \<longleftrightarrow> \<not> P k \<and> n \<le> k \<and> (\<forall>i. n \<le> i \<and> i < k \<longrightarrow> P i)"
  using retry_while_found [of P k n] retry_while_sound [of P n k] by blast

lemma retry_while_ends: "(\<exists>k. retry_while P n = Some k) \<longleftrightarrow> (\<exists>k\<ge>n. \<not> P k)"
proof
  assume "\<exists>k\<ge>n. \<not> P k"
  then have e: "\<exists>k. n \<le> k \<and> \<not> P k" by blast
  let ?k = "LEAST k. n \<le> k \<and> \<not> P k"
  have "n \<le> ?k \<and> \<not> P ?k" using e by (rule LeastI_ex)
  moreover have "\<forall>i. n \<le> i \<and> i < ?k \<longrightarrow> P i" using not_less_Least by blast
  ultimately show "\<exists>k. retry_while P n = Some k" using retry_while_found by blast
qed (auto simp: retry_while_iff)

text \<open>
  \<open>epoll_wait_events\<close> returns exactly when some answer of the kernel is not an interruption, and then with the first such answer;
  \<open>co_scheduler_lock\<close> returns exactly when it finds the flag clear.
\<close>

lemma epoll_wait_events_first:
  "epoll_wait_events ans = Some r \<longleftrightarrow> (\<exists>k. ans k = r \<and> r \<noteq> Inl EINTR \<and> (\<forall>i<k. ans i = Inl EINTR))"
  by (auto simp: epoll_wait_events_def retry_while_iff)

lemma epoll_wait_events_returns: "(\<exists>r. epoll_wait_events ans = Some r) \<longleftrightarrow> (\<exists>k. ans k \<noteq> Inl EINTR)"
  using retry_while_ends [of "\<lambda>n. ans n = Inl EINTR" 0] by (auto simp: epoll_wait_events_def)

lemma co_scheduler_lock_returns: "(\<exists>r. co_scheduler_lock busy = Some r) \<longleftrightarrow> (\<exists>k. \<not> busy k)"
  using retry_while_ends [of busy 0] by (auto simp: co_scheduler_lock_def)

section \<open>The listener and the registered descriptors\<close>

lemma epoll_events_edge: "epoll_events ev AND EPOLLET \<noteq> 0 \<or> epoll_events ev AND EPOLLONESHOT \<noteq> 0"
proof (cases "ev AND EPOLLONESHOT = 0")
  case True
  have "(ev OR EPOLLET) AND EPOLLET = EPOLLET" by (rule bit_word_eqI) (auto simp: bit_simps)
  with True show ?thesis by (simp add: epoll_events_def EPOLLET_def)
qed (simp add: epoll_events_def)

text \<open>
  A descriptor \<open>fresh\<close> for the kernel is not in use. The steps: the calls of the scheduler, descriptors that others open and close, and the
  end of the listener when the kernel refuses to deliver events.
\<close>

definition fresh_fd :: "int option \<Rightarrow> listener_state \<Rightarrow> bool" where
  "fresh_fd fd s \<longleftrightarrow> (case fd of None \<Rightarrow> True | Some fd \<Rightarrow> 0 \<le> fd \<and> ls_files s fd = None)"

inductive listener_step :: "listener_state \<Rightarrow> listener_state \<Rightarrow> bool" where
  init: "fresh_fd epfd s \<Longrightarrow> epoll_listener_init epfd st s = (ok, s') \<Longrightarrow> listener_step s s'"
| new_lock: "fresh_fd (le_eventfd env) s \<Longrightarrow> co_thread_lock_init env s = Some (obj, s') \<Longrightarrow> listener_step s s'"
| destroy_lock: "rq_so (lk_e l) \<noteq> ls_eso s \<Longrightarrow> co_thread_lock_destroy (Some l) s = (obj, s') \<Longrightarrow> listener_step s s'"
| add: "epoll_add ok e events s = Some (r, s') \<Longrightarrow> listener_step s s'"
| remove: "epoll_remove so s = (r, s') \<Longrightarrow> listener_step s s'"
| open_other: "fresh_fd (Some fd) s \<Longrightarrow> listener_step s (open_fd fd flags s)"
| close_other: "fd \<noteq> ls_eso s \<Longrightarrow> listener_step s (close_fd fd s)"
| ends: "epoll_wait_events answers = Some (Inl err) \<Longrightarrow> listener_step s (s\<lparr>ls_threads := ls_threads s - 1\<rparr>)"

definition listener_inv :: "listener_state \<Rightarrow> bool" where
  "listener_inv s \<longleftrightarrow>
     ls_threads s \<le> 1 \<and> ls_files s (-1) = None \<and>
     (ls_eso s = -1 \<longrightarrow> ls_threads s = 0) \<and> (ls_eso s \<noteq> -1 \<longrightarrow> ls_files s (ls_eso s) \<noteq> None) \<and>
     (\<forall>so ev. ls_interest s so = Some ev \<longrightarrow>
        ls_files s so \<noteq> None \<and> so \<noteq> ls_eso s \<and> ls_eso s \<noteq> -1 \<and> (ev AND EPOLLET \<noteq> 0 \<or> ev AND EPOLLONESHOT \<noteq> 0))"

definition listener_start :: "listener_state \<Rightarrow> bool" where
  "listener_start s \<longleftrightarrow> ls_eso s = -1 \<and> ls_threads s = 0 \<and> ls_files s (-1) = None \<and> ls_interest s = Map.empty"

lemma open_fd_inv: "listener_inv s \<Longrightarrow> fd \<noteq> -1 \<Longrightarrow> listener_inv (open_fd fd flags s)"
  by (auto simp: listener_inv_def open_fd_def)

lemma close_fd_inv: "listener_inv s \<Longrightarrow> fd \<noteq> ls_eso s \<Longrightarrow> listener_inv (close_fd fd s)"
  by (auto simp: listener_inv_def close_fd_def)

lemma epoll_remove_inv: "listener_inv s \<Longrightarrow> listener_inv (snd (epoll_remove so s))"
  by (auto simp: listener_inv_def epoll_remove_def)

lemma epoll_remove_sel [simp]:
  "ls_eso (snd (epoll_remove so s)) = ls_eso s" "ls_files (snd (epoll_remove so s)) = ls_files s"
  "ls_threads (snd (epoll_remove so s)) = ls_threads s"
  by (simp_all add: epoll_remove_def)

lemma drop_fd_inv: "listener_inv s \<Longrightarrow> so \<noteq> ls_eso s \<Longrightarrow> listener_inv (drop_fd so s)"
  by (simp add: drop_fd_def close_fd_inv epoll_remove_inv)

lemma epoll_ctl_add_inv: "listener_inv s \<Longrightarrow> listener_inv (snd (epoll_ctl_add ok so (epoll_events ev) s))"
  using epoll_events_edge [of ev] by (auto simp: listener_inv_def epoll_ctl_add_def)

lemma epoll_add_cases:
  assumes "epoll_add ok e ev s = Some (r, s')"
  shows "epoll_ctl_add ok (rq_so e) (epoll_events ev) s = (r, s')"
  using assms by (auto simp: epoll_add_def split: bind_splits prod.splits)

lemma epoll_add_inv: "listener_inv s \<Longrightarrow> epoll_add ok e ev s = Some (r, s') \<Longrightarrow> listener_inv s'"
  using epoll_ctl_add_inv [of s ok "rq_so e" ev] epoll_add_cases [of ok e ev s r s'] by simp

lemma epoll_listener_init_inv:
  assumes "listener_inv s" "fresh_fd epfd s" "epoll_listener_init epfd st s = (ok, s')"
  shows "listener_inv s'"
  using assms
  by (auto simp: epoll_listener_init_def listener_inv_def fresh_fd_def open_fd_def close_fd_def Let_def split: option.splits if_splits)

text \<open>What is left of a new lock: on success its descriptor is open, does not block and is registered; after a failure the kernel's state is as
  before.\<close>

lemma drop_fd_opened:
  assumes "ls_files s fd = None" "ls_interest s fd = None" "fd \<noteq> -1" "fd \<noteq> ls_eso s"
    and "t = open_fd fd flags s \<or> t = (open_fd fd flags s)\<lparr>ls_interest := (ls_interest s)(fd \<mapsto> ev)\<rparr>"
  shows "drop_fd fd t = s"
  using assms
  by (cases "ls_files s (ls_eso s)")
     (auto simp: drop_fd_def close_fd_def epoll_remove_def open_fd_def fun_upd_idem fun_upd_upd intro!: listener_state.equality)

lemma set_non_blocking_open:
  "set_non_blocking ok fd True (open_fd fd flags s) = (if ok then (True, open_fd fd (flags OR O_NONBLOCK) s) else (False, open_fd fd flags s))"
  by (simp add: set_non_blocking_def open_fd_def)

lemma inv_no_interest: "listener_inv s \<Longrightarrow> ls_files s fd = None \<Longrightarrow> ls_interest s fd = None"
  unfolding listener_inv_def by (metis option.exhaust)

lemma fresh_not_eso: "listener_inv s \<Longrightarrow> ls_files s fd = None \<Longrightarrow> 0 \<le> fd \<Longrightarrow> fd \<noteq> ls_eso s"
  by (auto simp: listener_inv_def)

lemma co_thread_lock_init_result:
  assumes inv: "listener_inv s" and fresh: "fresh_fd (le_eventfd env) s"
  obtains (failed) "co_thread_lock_init env s = Some (None, s)"
  | (created) fd where "le_eventfd env = Some fd" "0 < fd" "ls_files s fd = None" "fd \<noteq> ls_eso s" "ls_interest s fd = None" "ls_files s (ls_eso s) \<noteq> None"
      "co_thread_lock_init env s = Some (Some \<lparr>lk_e = \<lparr>rq_head = None, rq_tail = None, rq_so = fd, rq_type = iowait_eventfd\<rparr>, lk_co = None, lk_fd = 0\<rparr>,
         (open_fd fd (2 OR O_NONBLOCK) s)\<lparr>ls_interest := (ls_interest s)(fd \<mapsto> epoll_events EPOLLIN)\<rparr>)"
proof (cases "le_mem env")
  case False
  then show thesis using failed by (simp add: co_thread_lock_init_def)
next
  case mem: True
  show thesis
  proof (cases "le_eventfd env")
    case None
    with mem inv show thesis
      using failed by (simp add: co_thread_lock_init_def set_non_blocking_def drop_fd_def listener_inv_def)
  next
    case (Some fd)
    with fresh have fd: "0 \<le> fd" "ls_files s fd = None" by (simp_all add: fresh_fd_def)
    note ne = fresh_not_eso [OF inv fd(2,1)] and ni = inv_no_interest [OF inv fd(2)]
    have undone: "drop_fd fd (open_fd fd flags s) = s" for flags
      using fd ne ni by (intro drop_fd_opened) auto
    have add: "epoll_add ok \<lparr>rq_head = None, rq_tail = None, rq_so = fd, rq_type = iowait_eventfd\<rparr> ev (open_fd fd flags s) =
        Some (if ok \<and> ls_files s (ls_eso s) \<noteq> None
              then (True, (open_fd fd flags s)\<lparr>ls_interest := (ls_interest s)(fd \<mapsto> epoll_events ev)\<rparr>) else (False, open_fd fd flags s))"
      for ok ev flags
      using ne ni by (auto simp: epoll_add_def epoll_ctl_add_def open_fd_def)
    show thesis
    proof (cases "fd \<noteq> 0 \<and> le_setfl env \<and> le_epoll env \<and> ls_files s (ls_eso s) \<noteq> None")
      case True
      with mem Some fd ne ni show thesis
        by (intro created [of fd]) (auto simp: co_thread_lock_init_def Let_def set_non_blocking_open add)
    next
      case False
      with mem Some undone have "co_thread_lock_init env s = Some (None, s)"
        by (cases "fd = 0") (auto simp: co_thread_lock_init_def Let_def set_non_blocking_open add)
      then show thesis by (rule failed)
    qed
  qed
qed

lemma register_inv:
  assumes "listener_inv t" "ls_files t so \<noteq> None" "so \<noteq> ls_eso t" "ls_eso t \<noteq> -1"
  shows "listener_inv (t\<lparr>ls_interest := (ls_interest t)(so \<mapsto> epoll_events ev)\<rparr>)"
  using assms epoll_events_edge [of ev] by (auto simp: listener_inv_def)

lemma co_thread_lock_init_inv:
  assumes "listener_inv s" "fresh_fd (le_eventfd env) s" "co_thread_lock_init env s = Some (obj, s')"
  shows "listener_inv s'"
  using assms(1,2)
proof (cases rule: co_thread_lock_init_result)
  case failed
  with assms show ?thesis by simp
next
  case (created fd)
  then have "ls_eso s \<noteq> -1" using assms(1) by (auto simp: listener_inv_def)
  moreover have "listener_inv (open_fd fd (2 OR O_NONBLOCK) s)" using assms(1) created(2) by (auto intro: open_fd_inv)
  moreover have "s' = (open_fd fd (2 OR O_NONBLOCK) s)\<lparr>ls_interest := (ls_interest s)(fd \<mapsto> epoll_events EPOLLIN)\<rparr>"
    using assms(3) created by simp
  ultimately show ?thesis
    using created(4) register_inv [of "open_fd fd (2 OR O_NONBLOCK) s" fd EPOLLIN] by (simp add: open_fd_def)
qed

lemma listener_step_inv: "listener_step s s' \<Longrightarrow> listener_inv s \<Longrightarrow> listener_inv s'"
proof (induction rule: listener_step.induct)
  case (init epfd s st ok s')
  then show ?case using epoll_listener_init_inv by blast
next
  case (new_lock env s obj s')
  then show ?case using co_thread_lock_init_inv by blast
next
  case (destroy_lock l s obj s')
  then show ?case by (auto simp: co_thread_lock_destroy_def intro: drop_fd_inv)
next
  case (add ok e events s r s')
  then show ?case using epoll_add_inv by blast
next
  case (remove so s r s')
  then show ?case using epoll_remove_inv [of s so] by simp
next
  case (open_other fd s flags)
  then show ?case by (intro open_fd_inv) (auto simp: fresh_fd_def)
next
  case (close_other fd s)
  then show ?case by (simp add: close_fd_inv)
next
  case (ends answers err s)
  then show ?case by (auto simp: listener_inv_def)
qed

lemma listener_reachable_inv: "listener_step\<^sup>*\<^sup>* s s' \<Longrightarrow> listener_start s \<Longrightarrow> listener_inv s'"
  by (induction rule: rtranclp_induct) (auto simp: listener_start_def listener_inv_def [of s] intro: listener_step_inv)

text \<open>
  However often the scheduler is initialised and whatever fails, there is at most one listener thread and one event descriptor, and every
  registered descriptor is open and reports changes only, or once. A lock that is made and destroyed again, or that cannot be made,
  leaves the descriptors and the registrations as they were; a lock that has been made is registered, does not block and has no owner.
\<close>

theorem listener_and_locks:
  assumes "listener_start s0" "listener_step\<^sup>*\<^sup>* s0 s" "fresh_fd (le_eventfd env) s"
  shows "ls_threads s \<le> 1 \<and> (ls_eso s = -1 \<longrightarrow> ls_threads s = 0) \<and>
    (\<forall>so ev. ls_interest s so = Some ev \<longrightarrow> ls_files s so \<noteq> None \<and> (ev AND EPOLLET \<noteq> 0 \<or> ev AND EPOLLONESHOT \<noteq> 0)) \<and>
    (\<exists>obj s'. co_thread_lock_init env s = Some (obj, s') \<and> snd (co_thread_lock_destroy obj s') = s \<and>
       (obj = None \<longrightarrow> s' = s) \<and>
       (\<forall>l. obj = Some l \<longrightarrow> lk_co l = None \<and> le_eventfd env = Some (rq_so (lk_e l)) \<and> ls_interest s' (rq_so (lk_e l)) = Some (EPOLLIN OR EPOLLET) \<and>
          (\<exists>flags. ls_files s' (rq_so (lk_e l)) = Some flags \<and> flags AND O_NONBLOCK \<noteq> 0)))"
proof -
  have inv: "listener_inv s" using assms(2,1) by (rule listener_reachable_inv)
  have ev: "epoll_events EPOLLIN = EPOLLIN OR EPOLLET"
    by (simp add: epoll_events_def EPOLLIN_def EPOLLONESHOT_def)
  have lock: "\<exists>obj s'. co_thread_lock_init env s = Some (obj, s') \<and> snd (co_thread_lock_destroy obj s') = s \<and>
       (obj = None \<longrightarrow> s' = s) \<and>
       (\<forall>l. obj = Some l \<longrightarrow> lk_co l = None \<and> le_eventfd env = Some (rq_so (lk_e l)) \<and> ls_interest s' (rq_so (lk_e l)) = Some (EPOLLIN OR EPOLLET) \<and>
          (\<exists>flags. ls_files s' (rq_so (lk_e l)) = Some flags \<and> flags AND O_NONBLOCK \<noteq> 0))"
    using inv assms(3)
  proof (cases rule: co_thread_lock_init_result)
    case failed
    then show ?thesis by (simp add: co_thread_lock_destroy_def)
  next
    case (created fd)
    have "drop_fd fd ((open_fd fd (2 OR O_NONBLOCK) s)\<lparr>ls_interest := (ls_interest s)(fd \<mapsto> epoll_events EPOLLIN)\<rparr>) = s"
      using created by (intro drop_fd_opened) auto
    with created ev show ?thesis by (simp add: co_thread_lock_destroy_def open_fd_def O_NONBLOCK_def)
  qed
  show ?thesis using inv lock unfolding listener_inv_def by blast
qed

theorem listener_and_locks_witness:
  "ls_threads \<lparr>ls_eso = 3, ls_files = [3 \<mapsto> 2], ls_interest = Map.empty, ls_threads = 1\<rparr> \<le> 1 \<and>
   (\<exists>obj s'. co_thread_lock_init \<lparr>le_mem = True, le_eventfd = Some 5, le_setfl = True, le_epoll = True\<rparr>
      \<lparr>ls_eso = 3, ls_files = [3 \<mapsto> 2], ls_interest = Map.empty, ls_threads = 1\<rparr> = Some (obj, s'))"
proof -
  let ?start = "\<lparr>ls_eso = -1, ls_files = Map.empty, ls_interest = Map.empty, ls_threads = 0\<rparr>"
  let ?s = "\<lparr>ls_eso = 3, ls_files = [3 \<mapsto> 2], ls_interest = Map.empty, ls_threads = 1\<rparr>"
  have "epoll_listener_init (Some 3) 0 ?start = (True, ?s)"
    by (simp add: epoll_listener_init_def open_fd_def)
  moreover have "fresh_fd (Some 3) ?start" by (simp add: fresh_fd_def)
  ultimately have "listener_step ?start ?s" by (metis listener_step.init)
  then show ?thesis
    using listener_and_locks [of ?start ?s "\<lparr>le_mem = True, le_eventfd = Some 5, le_setfl = True, le_epoll = True\<rparr>"]
    unfolding listener_start_def fresh_fd_def by (auto intro: r_into_rtranclp)
qed

text \<open>The object is the one that \<open>co_thread_lock_init_internal\<close> of the lock model describes, for the outcomes that the kernel gives.\<close>

lemma co_thread_lock_init_refines:
  assumes "listener_inv s" "fresh_fd (le_eventfd env) s"
  shows "map_option fst (co_thread_lock_init env s) =
    Some (co_thread_lock_init_internal (le_mem env) (case le_eventfd env of None \<Rightarrow> -1 | Some fd \<Rightarrow> fd)
            (le_eventfd env \<noteq> None \<and> le_setfl env) (le_epoll env \<and> ls_files s (ls_eso s) \<noteq> None))"
proof (cases "le_mem env")
  case False
  then show ?thesis by (simp add: co_thread_lock_init_def co_thread_lock_init_internal_def)
next
  case mem: True
  show ?thesis
  proof (cases "le_eventfd env")
    case None
    with mem assms(1) show ?thesis
      by (simp add: co_thread_lock_init_def co_thread_lock_init_internal_def set_non_blocking_def listener_inv_def)
  next
    case (Some fd)
    with assms have fd: "ls_files s fd = None" "0 \<le> fd" by (simp_all add: fresh_fd_def)
    show ?thesis
      using mem Some fresh_not_eso [OF assms(1) fd] inv_no_interest [OF assms(1) fd(1)]
      by (auto simp: co_thread_lock_init_def co_thread_lock_init_internal_def Let_def set_non_blocking_def open_fd_def epoll_add_def epoll_ctl_add_def)
  qed
qed

text \<open>
  The first use of the global lock of the channels creates it. Without memory the caller goes on without owning a lock, any number of callers
  at once, and the first of them that unlocks or signals stops the process.
\<close>

lemma channel_state_lock_unguarded:
  assumes "\<not> le_mem env"
  shows "channel_state_lock env me (None, m, s) = Some (True, None, None, m, s)"
    and "channel_state_unlock me (None, m, s) = None" "channel_state_signal me (None, m, s) = None"
  using assms
  by (simp_all add: channel_state_lock_def co_thread_lock_def co_thread_lock_init_def channel_state_unlock_def channel_state_signal_def)

text \<open>With a lock a thread that finds it free owns it after one turn, and the unlock gives it back.\<close>

lemma channel_state_lock_unlock:
  assumes "lk_co l = None" "channel_state_lock env (Pt v) (Some l, m, s) = Some (logged, wp, Some l', m', s')"
  shows "\<not> logged \<and> wp = None \<and> lock_turn (Pt v) wp (l', m') = Some (True, l\<lparr>lk_co := Some (Pt v)\<rparr>, m) \<and>
    channel_state_unlock (Pt v) (Some (l\<lparr>lk_co := Some (Pt v)\<rparr>), m, s) = Some (Some (l\<lparr>lk_fd := Suc (lk_fd l)\<rparr>), m, s)"
  using assms
  by (auto simp: channel_state_lock_def co_thread_lock_def lock_begin_def lock_turn_def channel_state_unlock_def co_thread_unlock_def
      co_thread_check_def co_thread_unlock_internal_def)

text \<open>A core that starts has the coroutine that answers requests in its queue, and starts it first.\<close>

lemma pclthread_starts_handler:
  assumes "ccfifo_inv (cs_queue s)" "ccfifo_list (cs_queue s) = []"
    and "pclthread_begin tenv ok g (Some co) s = Some (Started main s')"
  shows "ccfifo_inv (cs_queue s') \<and> ccfifo_list (cs_queue s') = [co] \<and> main = co_main \<and>
    (\<exists>q. ccfifo_pop (cs_queue s') = Some (Some (Some co), q) \<and> ccfifo_list q = [])"
proof -
  have room: "fifo_size (cs_queue s) < fifo_capacity (cs_queue s)"
    using assms(1,2) length_ccfifo_list [OF assms(1)] by (simp add: ccfifo_inv_def)
  obtain q' where q: "ccfifo_push (cs_queue s) co = Some (Some (fifo_last (cs_queue s)), q')" "ccfifo_inv q'"
      "ccfifo_list q' = ccfifo_list (cs_queue s) @ [co]"
    using ccfifo_push_ok [OF assms(1) room] by blast
  with assms have s': "cs_queue s' = q'" "main = co_main"
    by (auto simp: pclthread_begin_def ccfifo_ppush_def co_thread_init_def co_get_thread_ctx_def co_current_def new_ctx_def
        split: if_splits prod.splits)
  have "fifo_size q' \<noteq> 0" using length_ccfifo_list [OF q(2)] q(3) by auto
  from ccfifo_pop_ok [OF q(2) this] obtain q2 where
    "ccfifo_pop q' = Some (Some (Some (hd (ccfifo_list q'))), q2)" "ccfifo_list q2 = tl (ccfifo_list q')" by metis
  with q s' assms(2) show ?thesis by simp
qed

text \<open>A block is mapped and given back as a whole; a failed \<open>mmap\<close> is not reported and does not look like a failure to \<open>co_create\<close>.\<close>

lemma co_stack_alloc_free:
  assumes "a \<noteq> 0"
  shows "co_stack_alloc (Some a) sz maps = ((a, False), (a, sz) # maps)" "co_stack_free a sz ((a, sz) # maps) = (False, maps)"
    and "co_stack_alloc None sz maps = ((MAP_FAILED, False), maps)" "MAP_FAILED \<noteq> 0"
  using assms by (simp_all add: co_stack_alloc_def co_stack_free_def MAP_FAILED_def)

text \<open>
  A query on a stream asks the kernel about the descriptor of the socket of its channel, and reports \<open>ENOTSOCK\<close> without asking when the stream,
  its channel or the socket is missing.
\<close>

lemma corpc_stream_query:
  assumes "w_streams w sid = Some st" "st_channel st = Some c" "w_channels w c = Some ch" "\<forall>a. ch_ssl_sock ch = Some a \<longrightarrow> socks a \<noteq> None"
  shows "corpc_stream_get_peername socks k (Some sid) w = Some (case ch_ssl_sock ch of None \<Rightarrow> Inl ENOTSOCK | Some a \<Rightarrow> k (rq_so (sk_e (ss_cc (the (socks a))))))"
    and "corpc_stream_get_sockname socks k (Some sid) w = corpc_stream_get_peername socks k (Some sid) w"
    and "corpc_stream_get_peername socks k None w = Some (Inl ENOTSOCK)"
proof -
  have eq: "co_ssl_socket_get_sockname k sk = co_ssl_socket_get_peername k sk" for sk
    by (simp add: co_ssl_socket_get_sockname_def co_ssl_socket_get_peername_def co_socket_get_sockname_def co_socket_get_peername_def split: option.split)
  have same: "corpc_channel_get_sockname socks k cp w = corpc_channel_get_peername socks k cp w" for cp
    unfolding corpc_channel_get_sockname_def corpc_channel_get_peername_def eq ..
  show "corpc_stream_get_sockname socks k (Some sid) w = corpc_stream_get_peername socks k (Some sid) w"
    unfolding corpc_stream_get_sockname_def corpc_stream_get_peername_def same ..
  show "corpc_stream_get_peername socks k None w = Some (Inl ENOTSOCK)"
    by (simp add: corpc_stream_get_peername_def stream_has_sock_def)
  show "corpc_stream_get_peername socks k (Some sid) w = Some (case ch_ssl_sock ch of None \<Rightarrow> Inl ENOTSOCK | Some a \<Rightarrow> k (rq_so (sk_e (ss_cc (the (socks a))))))"
    using assms
    by (auto simp: corpc_stream_get_peername_def stream_has_sock_def corpc_channel_get_peername_def sock_at_def co_ssl_socket_get_peername_def
        co_socket_get_peername_def split: option.splits)
qed

text \<open>A reference that is taken and released again changes nothing while the channel is referenced otherwise.\<close>

lemma corpc_channel_addref_release:
  assumes "w_channels w c = Some ch" "1 \<le> ch_refs ch" "corpc_channel_addref (Some c) w = Some w'"
  shows "corpc_channel_release (Some c) w' = Some w"
  using assms
  by (auto simp: corpc_channel_addref_def corpc_channel_release_def corpc_channel_addref_internal_def corpc_channel_release_internal_def
      put_channel_def fun_upd_idem intro!: corpc_world.equality)

lemma client_context_set_get:
  assumes "w_streams w sid = Some st" "st_channel st = Some c" "corpc_channel_set_client_context c ctx w = Some w'"
  shows "corpc_channel_get_client_context c w' = Some ctx" "corpc_stream_get_channel_client_context sid w' = Some ctx"
  using assms
  by (auto simp: corpc_channel_set_client_context_def corpc_channel_get_client_context_def corpc_stream_get_channel_client_context_def split: bind_splits)

end
