(* ===== verification/Log_Text.thy ===== *)
theory Log_Text
  imports Cf_Support "HOL-Library.Monad_Syntax"
begin

text \<open>
  The text of the log, src/debug.c: the time stamp that \<open>getctime\<close> and \<open>getctime_string\<close> make, the fields in front of a message,
  and the backtrace of \<open>cf_pbt\<close>. What \<open>gmtime\<close> answers is a record, the text of a pointer and the symbols of a
  backtrace are parameters.
\<close>

section \<open>Time stamps\<close>

record tm =
  tm_year :: int
  tm_mon :: int
  tm_mday :: int
  tm_hour :: int
  tm_min :: int
  tm_sec :: int

record ctime =
  ct_year :: int
  ct_month :: int
  ct_day :: int
  ct_hour :: int
  ct_min :: int
  ct_sec :: int
  ct_msec :: int

definition getctime :: "tm \<Rightarrow> timespec \<Rightarrow> ctime" where
  "getctime t now =
     \<lparr>ct_year = tm_year t + 1900, ct_month = tm_mon t + 1, ct_day = tm_mday t, ct_hour = tm_hour t, ct_min = tm_min t,
      ct_sec = tm_sec t, ct_msec = tv_nsec now div 1000000\<rparr>"

text \<open>The conversions \<open>%.nd\<close>, \<open>%nd\<close> and \<open>%-ns\<close> of \<open>printf\<close>.\<close>

definition fmt_prec :: "nat \<Rightarrow> int \<Rightarrow> string" where
  "fmt_prec n x =
     (let ds = decimal (nat \<bar>x\<bar>) in (if x < 0 then ''-'' else []) @ replicate (n - length ds) CHR ''0'' @ ds)"

definition fmt_int :: "nat \<Rightarrow> int \<Rightarrow> string" where
  "fmt_int n x = (let s = (if x < 0 then ''-'' else []) @ decimal (nat \<bar>x\<bar>) in replicate (n - length s) CHR '' '' @ s)"

definition fmt_left :: "nat \<Rightarrow> string \<Rightarrow> string" where
  "fmt_left n s = s @ replicate (n - length s) CHR '' ''"

text \<open>\<open>snprintf\<close> with a size of 31 stores at most 30 characters.\<close>

definition getctime_string :: "tm \<Rightarrow> timespec \<Rightarrow> string" where
  "getctime_string t now =
     (let ct = getctime t now in
      take 30 (fmt_prec 4 (ct_year ct) @ ''-'' @ fmt_prec 2 (ct_month ct) @ ''-'' @ fmt_prec 2 (ct_day ct) @ ''-'' @
               fmt_prec 2 (ct_hour ct) @ '':'' @ fmt_prec 2 (ct_min ct) @ '':'' @ fmt_prec 2 (ct_sec ct) @ ''.'' @
               fmt_prec 3 (ct_msec ct)))"

section \<open>Lines\<close>

definition log_header :: "int \<Rightarrow> string \<Rightarrow> string \<Rightarrow> string \<Rightarrow> int \<Rightarrow> char \<Rightarrow> string" where
  "log_header tid co time func line p =
     ''|'' @ [p] @ ''|'' @ fmt_int 6 tid @ ''['' @ co @ ''|'' @ time @ ''| '' @ fmt_left 28 func @ ''(): '' @ fmt_int 4 line @ '' :''"

text \<open>
  \<open>cf_pbt\<close>: \<open>ptrs\<close> are the addresses of the frames as text, \<open>messages\<close> what \<open>backtrace_symbols\<close> returns, null without memory.
\<close>

fun pbt_lines :: "nat \<Rightarrow> string list \<Rightarrow> string list option \<Rightarrow> string ub" where
  "pbt_lines i [] messages = Some []"
| "pbt_lines i (p # ptrs) messages =
     do { ms \<leftarrow> messages;
          m \<leftarrow> (if i < length ms then Some (ms ! i) else None);
          rest \<leftarrow> pbt_lines (Suc i) ptrs messages;
          Some (''[bt]: ('' @ fmt_int 0 (int i) @ '') '' @ p @ '' '' @ m @ [char_of (10 :: nat)] @ rest) }"

definition cf_pbt :: "string list \<Rightarrow> string list option \<Rightarrow> log_state \<Rightarrow> string ub" where
  "cf_pbt frames messages s = (if lg_file s \<noteq> None then pbt_lines 0 (take 256 frames) messages else Some [])"

section \<open>Properties\<close>

lemma length_decimal: "0 < k \<Longrightarrow> n < 10 ^ k \<Longrightarrow> length (decimal n) \<le> k"
proof (induction n arbitrary: k rule: decimal.induct)
  case (1 n)
  show ?case
  proof (cases "n < 10")
    case True
    with 1 show ?thesis by (simp add: decimal.simps [of n])
  next
    case False
    with 1(3) have "k \<noteq> 1" by auto
    with 1(2) obtain j where k: "k = Suc j" "0 < j" by (cases k) auto
    with 1(3) have "n div 10 < 10 ^ j" by (simp add: div_less_iff_less_mult mult.commute)
    with 1(1) [OF False] k have "length (decimal (n div 10)) \<le> j" by blast
    with False k show ?thesis by (simp add: decimal.simps [of n])
  qed
qed

lemma digits_val_zeros: "digits_val (replicate n CHR ''0'' @ ds) = digits_val ds"
  by (induction n) (simp_all add: digits_val_def digit_val_def)

lemma fmt_prec_fixed:
  assumes "0 \<le> x" "x < 10 ^ k" "0 < k"
  shows "length (fmt_prec k x) = k" "digits_val (fmt_prec k x) = nat x"
proof -
  have "nat x < 10 ^ k" using assms(1,2) by (simp add: nat_less_iff)
  then have "length (decimal (nat x)) \<le> k" using assms(3) length_decimal by blast
  with assms(1) show "length (fmt_prec k x) = k" by (simp add: fmt_prec_def Let_def)
  show "digits_val (fmt_prec k x) = nat x"
    using assms(1) decimal_digits [of "nat x"] by (simp add: fmt_prec_def Let_def digits_val_zeros)
qed

lemma fmt_prec_inj:
  assumes "0 \<le> x" "x < 10 ^ k" "0 \<le> y" "y < 10 ^ k" "0 < k" "fmt_prec k x = fmt_prec k y"
  shows "x = y"
  using fmt_prec_fixed(2) [OF assms(1,2,5)] fmt_prec_fixed(2) [OF assms(3,4,5)] assms(1,3,6) by simp

definition ctime_ok :: "ctime \<Rightarrow> bool" where
  "ctime_ok ct \<longleftrightarrow> ct_year ct \<in> {0..9999} \<and> ct_month ct \<in> {1..12} \<and> ct_day ct \<in> {1..31} \<and> ct_hour ct \<in> {0..23} \<and>
     ct_min ct \<in> {0..59} \<and> ct_sec ct \<in> {0..60} \<and> ct_msec ct \<in> {0..999}"

lemma ctime_fields:
  assumes "ctime_ok ct"
  shows "length (fmt_prec 4 (ct_year ct)) = 4" "length (fmt_prec 2 (ct_month ct)) = 2" "length (fmt_prec 2 (ct_day ct)) = 2"
    "length (fmt_prec 2 (ct_hour ct)) = 2" "length (fmt_prec 2 (ct_min ct)) = 2" "length (fmt_prec 2 (ct_sec ct)) = 2"
    "length (fmt_prec 3 (ct_msec ct)) = 3"
  using assms by (auto simp: ctime_ok_def intro!: fmt_prec_fixed(1))

lemma ctime_inj:
  assumes "ctime_ok a" "ctime_ok b"
  shows "fmt_prec 4 (ct_year a) = fmt_prec 4 (ct_year b) \<Longrightarrow> ct_year a = ct_year b"
    "fmt_prec 2 (ct_month a) = fmt_prec 2 (ct_month b) \<Longrightarrow> ct_month a = ct_month b"
    "fmt_prec 2 (ct_day a) = fmt_prec 2 (ct_day b) \<Longrightarrow> ct_day a = ct_day b"
    "fmt_prec 2 (ct_hour a) = fmt_prec 2 (ct_hour b) \<Longrightarrow> ct_hour a = ct_hour b"
    "fmt_prec 2 (ct_min a) = fmt_prec 2 (ct_min b) \<Longrightarrow> ct_min a = ct_min b"
    "fmt_prec 2 (ct_sec a) = fmt_prec 2 (ct_sec b) \<Longrightarrow> ct_sec a = ct_sec b"
    "fmt_prec 3 (ct_msec a) = fmt_prec 3 (ct_msec b) \<Longrightarrow> ct_msec a = ct_msec b"
proof -
  have field: "x = y" if "fmt_prec k x = fmt_prec k y" "0 \<le> x" "x < 10 ^ k" "0 \<le> y" "y < 10 ^ k" "0 < k" for k x y
    using fmt_prec_inj that by blast
  show "fmt_prec 4 (ct_year a) = fmt_prec 4 (ct_year b) \<Longrightarrow> ct_year a = ct_year b"
    using assms by (intro field [of 4]) (simp_all add: ctime_ok_def)
  show "fmt_prec 2 (ct_month a) = fmt_prec 2 (ct_month b) \<Longrightarrow> ct_month a = ct_month b"
    using assms by (intro field [of 2]) (simp_all add: ctime_ok_def)
  show "fmt_prec 2 (ct_day a) = fmt_prec 2 (ct_day b) \<Longrightarrow> ct_day a = ct_day b"
    using assms by (intro field [of 2]) (simp_all add: ctime_ok_def)
  show "fmt_prec 2 (ct_hour a) = fmt_prec 2 (ct_hour b) \<Longrightarrow> ct_hour a = ct_hour b"
    using assms by (intro field [of 2]) (simp_all add: ctime_ok_def)
  show "fmt_prec 2 (ct_min a) = fmt_prec 2 (ct_min b) \<Longrightarrow> ct_min a = ct_min b"
    using assms by (intro field [of 2]) (simp_all add: ctime_ok_def)
  show "fmt_prec 2 (ct_sec a) = fmt_prec 2 (ct_sec b) \<Longrightarrow> ct_sec a = ct_sec b"
    using assms by (intro field [of 2]) (simp_all add: ctime_ok_def)
  show "fmt_prec 3 (ct_msec a) = fmt_prec 3 (ct_msec b) \<Longrightarrow> ct_msec a = ct_msec b"
    using assms by (intro field [of 3]) (simp_all add: ctime_ok_def)
qed

text \<open>
  Up to the year 9999 a time stamp has 23 characters, so that it fits in its buffer and the columns of the log line up, and it shows the time
  to the millisecond: different times have different stamps.
\<close>

theorem getctime_string_exact:
  assumes "ctime_ok (getctime t now)" "ctime_ok (getctime t' now')"
  shows "length (getctime_string t now) = 23 \<and> (getctime_string t now = getctime_string t' now' \<longleftrightarrow> getctime t now = getctime t' now')"
proof -
  note len = ctime_fields [OF assms(1)] ctime_fields [OF assms(2)]
  have "getctime t now = getctime t' now'" if "getctime_string t now = getctime_string t' now'"
  proof -
    have "fmt_prec 4 (ct_year (getctime t now)) = fmt_prec 4 (ct_year (getctime t' now'))"
      "fmt_prec 2 (ct_month (getctime t now)) = fmt_prec 2 (ct_month (getctime t' now'))"
      "fmt_prec 2 (ct_day (getctime t now)) = fmt_prec 2 (ct_day (getctime t' now'))"
      "fmt_prec 2 (ct_hour (getctime t now)) = fmt_prec 2 (ct_hour (getctime t' now'))"
      "fmt_prec 2 (ct_min (getctime t now)) = fmt_prec 2 (ct_min (getctime t' now'))"
      "fmt_prec 2 (ct_sec (getctime t now)) = fmt_prec 2 (ct_sec (getctime t' now'))"
      "fmt_prec 3 (ct_msec (getctime t now)) = fmt_prec 3 (ct_msec (getctime t' now'))"
      using that len by (simp_all add: getctime_string_def Let_def)
    then have "ct_year (getctime t now) = ct_year (getctime t' now')"
      "ct_month (getctime t now) = ct_month (getctime t' now')"
      "ct_day (getctime t now) = ct_day (getctime t' now')"
      "ct_hour (getctime t now) = ct_hour (getctime t' now')"
      "ct_min (getctime t now) = ct_min (getctime t' now')"
      "ct_sec (getctime t now) = ct_sec (getctime t' now')"
      "ct_msec (getctime t now) = ct_msec (getctime t' now')"
      using ctime_inj [OF assms] by blast+
    then show ?thesis by (intro ctime.equality) simp_all
  qed
  moreover have "length (getctime_string t now) = 23"
    using len by (simp add: getctime_string_def Let_def)
  moreover have "getctime t now = getctime t' now' \<Longrightarrow> getctime_string t now = getctime_string t' now'"
    by (simp add: getctime_string_def)
  ultimately show ?thesis by blast
qed

text \<open>The backtrace follows a null pointer when there is no memory for the symbols; otherwise it is defined.\<close>

lemma pbt_lines_defined: "i + length ptrs \<le> length ms \<Longrightarrow> pbt_lines i ptrs (Some ms) \<noteq> None"
  by (induction ptrs arbitrary: i) (auto split: bind_splits)

lemma cf_pbt_defined:
  "length frames = length ms \<Longrightarrow> cf_pbt frames (Some ms) s \<noteq> None"
  "lg_file s \<noteq> None \<Longrightarrow> frames \<noteq> [] \<Longrightarrow> cf_pbt frames None s = None"
  using pbt_lines_defined [of 0 "take 256 frames" ms] by (auto simp: cf_pbt_def neq_Nil_conv)

end
