(* ===== verification/Spec2Isabelle.thy ===== *)
theory Spec2Isabelle
  imports Ccfifo Ccheap Cclist Ccarray Hash Hexbits Corpc_Flow Corpc_Life Cuttle_Pb_Roundtrip Co_Lock Co_Schedule Co_Thread Corpc_Server Co_Resolve Opts Sockopt Cf_Support Ssl_X509 Iface Pg Dns_Glue Cuttle_Pb_Typed Ssl_Init Co_Start Log_Text
begin

text \<open>
  Verification of the cuttle library: containers, hashes, a protobuf encoder, a coroutine scheduler with
  locks and sockets, and a remote procedure call layer on top of them. Paths below are relative to the
  root of the repository.

  \<^bold>\<open>The program.\<close> Messages of the application are C structures. cuttle-pb packs and unpacks them with the
  primitives of nanopb, driven by tables of field descriptors. The RPC layer carries packed messages
  over streams that are multiplexed on a channel: corpc-proto.c defines the bytes on the wire,
  protected by a CRC, and corpc-channel.c the stream and channel objects, the channel thread, and flow
  control by a window per stream. Everything runs in coroutines. co-scheduler.c has a core (thread) with
  a list of waiters, which is a \<open>cclist\<close> over a \<open>ccheap\<close> over a \<open>ccfifo\<close>, an event listener that marks the
  waiters of an object, and locks, condition waits and sockets that suspend a coroutine by such a waiter.

  \<^bold>\<open>Conventions.\<close> (Prelude.thy.) Machine integers are words of their width where overflow matters. A
  function into \<open>'a ub\<close> returns \<open>None\<close> for undefined behaviour; in the theories of the scheduler also for the
  end of the process by \<open>raise\<close> or \<open>exit\<close>. Failures are values of \<open>errno + 'a\<close> or \<open>option\<close>. Memory that is
  shared through pointers is an explicit store. Outcomes of \<open>malloc\<close> and of system calls, the clock, and
  what other threads do while a coroutine is suspended are parameters.

  \<^bold>\<open>Containers.\<close> Ccfifo.thy (include/cuttle/ccfifo.h), Ccheap.thy (ccheap.h), Cclist.thy (cclist.h) and
  Ccarray.thy (ccarray.h) have every operation of their header. Each has an invariant, and the operations
  refine bounded lists; blocks of the heap are never handed out twice; \<open>ccarray_lowerbound\<close> is a correct
  binary search. The interfaces are the locales of a bounded queue, of a block allocator and of a list
  with handles, interpreted on the models of the headers; the next layer is proved from them.

  \<^bold>\<open>Hashes and text.\<close> Hash.thy (src/hash): the table driven CRC equals the bit-serial CRC-32C and detects
  bursts; djb2 and sdbm are polynomials. Hexbits.thy (src/hexbits.c): parsing inverts printing.

  \<^bold>\<open>Messages.\<close> Nanopb.thy: streams and wire primitives of src/nanopb/pb_encode.c and pb_decode.c, as far as
  cuttle-pb.c calls them. Cuttle_Pb.thy: descriptors, codecs, arrays and nested messages of
  src/pb/cuttle-pb.c; unpacking any bytes ends and stays inside its buffers. Cuttle_Pb_Roundtrip.thy:
  packing fills exactly the counted size, and unpacking inverts packing. The recursion into nested
  messages goes over a nesting depth; the theorems hold for every depth that covers the tables.
  Cuttle_Pb_Typed.thy: a successful call leaves a structure whose cells have the kinds that the descriptors
  name, also when allocations fail on the way.

  \<^bold>\<open>Remote procedure calls.\<close> Corpc_Proto.thy (src/corpc/corpc-proto.c): layout, byte order, checksum, sending
  and receiving; messages survive the round trip and corrupted ones are rejected. Corpc_Channel.thy
  (src/corpc/corpc-channel.c): objects, write lock, handlers, channel thread, client operations.
  Corpc_Flow.thy: two ends with any number of threads as a step relation; credits are conserved, hence
  a receive queue never overflows; the write lock is exclusive. Corpc_Life.thy: streams and the registry
  of their channel agree in every reachable state, and the one handler that reaches freed memory is
  characterised.

  \<^bold>\<open>The scheduler.\<close> (src/cothread/co-scheduler.c.) Co_Waiters.thy: waiters, the queue of an object, the event
  listener, the walk that selects the coroutines to resume; an event wakes exactly who asked for it. The
  locale of an intrusive queue is interpreted on \<open>epoll_queue\<close> and \<open>epoll_dequeue\<close>. Co_Queue.thy: entering
  and leaving a wait. Co_Lock.thy: locks and condition waits of coroutines and threads as a step
  relation; mutual exclusion, no lost wakeup. Co_Socket.thy: sockets; Co_Io.thy: plain descriptors,
  \<open>co_poll\<close>, \<open>co_sleep\<close>. Their loops run over a list of turns, each the answer of the kernel and the effect of
  the others during one suspension, so that a theorem holds for every behaviour of the environment
  and for every number of rounds. Loops over linked structures are partial functions; the theorems
  show that they end.
  Co_Schedule.thy: requests to start coroutines, callbacks on descriptors, the loop and the set-up of the
  cores, and callers that exchange requests and answers with a core as a step relation. Co_Start.thy: the start of the listener and of a core, the registration of
  descriptors, the creation of locks, the global lock of the channels and the queries of addresses; at most one
  listener runs, and a lock that is destroyed or cannot be made leaves the kernel's state as it was.

  \<^bold>\<open>Coroutines.\<close> Co_Thread.thy (src/cothread/co-thread.c): creation on a private stack, switching, ending, and the
  helper that frees the stack of a coroutine that has ended. A saved context is the place where it continues.
  The locale of a core that calls coroutines is interpreted on \<open>co_call\<close> and \<open>co_exit\<close>; in every reachable state
  no block is leaked or freed twice and control comes back to the core.

  \<^bold>\<open>Servers.\<close> Co_Ssl.thy (src/cothread/co-ssl.c): sockets with an optional TLS session, OpenSSL being a parameter.
  Corpc_Server.thy (src/cothread/co-ssl-listening-port.c, co-ssl-server.c, src/corpc/corpc-listening-port.c,
  corpc-server.c): ports, servers and the listening thread; descriptors, sessions and ports have one owner and
  are released once. Co_Resolve.thy (src/cothread/co-resolve.c): literal addresses and the waiting loop around
  the resolver. Sockopt.thy (src/sockopt.c): socket options and plain TCP sockets. Dns_Glue.thy
  (src/dns/dns-resolve.c, and the functions of dns.c that create, share and release objects): a query owns its
  resolver and the resolver its tables, and nothing is left when a step fails. Iface.thy (src/ifaddrs/iface.c):
  the list of interfaces, the text of their flags, and the addresses behind their names.

  \<^bold>\<open>Keys, certificates, TLS contexts.\<close> Ossl.thy: the objects of OpenSSL that a caller owns, the trace of its calls,
  and the files of src/ssl/getfp.c; every call has an answer that is a parameter, so that the theorems hold for
  every failure. Ssl_Pkey.thy (src/ssl/ssl-pkey.c): generation, PEM, binary and hexadecimal forms; a key survives
  its hexadecimal form, and every function leaves exactly the object it returns. Ssl_X509.thy (src/ssl/ssl-x509.c,
  ssl-context.c): certificates are made by the fixed sequence of settings, extensions and signature;
  contexts have had every setting or are released. Ssl_Init.thy (src/ssl/ssl-error.c, ssl-init-ssl.c): the code of an
  error names the function that reported it; the library is initialised once.

  \<^bold>\<open>Database client.\<close> Pg.thy (src/pg/pg.c), libpq being a parameter: connections and results have one owner, an
  iterator visits the rows of its result in order (from the locale of a cursor over rows, interpreted on
  \<open>pg_iterator_next\<close>), and the wait for a notification respects its limit.

  \<^bold>\<open>Support.\<close> C_Text.thy: the text functions of the C library that the sources use (\<open>sscanf\<close> conversions, decimal
  numbers). Opts.thy (src/opts.c): configuration files; reading inverts printing. Cf_Support.thy: src/time.c,
  include/cuttle/pthread_wait.h, include/cuttle/membuf.h and the log of src/debug.c. Log_Text.thy: the time stamps, fields and backtraces of
  the log; a time stamp fits in its buffer and shows the time to the millisecond.

  \<^bold>\<open>Not modelled.\<close> The resolver inside of the vendored dns.c, the machine contexts (ucontext), the table driven parts
  of nanopb and the Android replacements are third-party code. OpenSSL, libpq and the kernel are only called.
  src/daemon.c is one system call. The C++ generator corpc-pb-gen prints the tables that are values here.
\<close>

end
